(* ===== verification/Prelude.thy ===== *)
theory Prelude
  imports Main "HOL-Library.Word"
begin

unbundle bit_operations_syntax

text \<open>
  Shared vocabulary of the development: the fixed-width integer types of the C sources, the
  size_t range of the modelled target, block copies into a buffer (memcpy, memmove and memset all
  become \<open>mem_write\<close>), big-endian and little-endian byte strings, and the generic lemmas
  on lists and words that the component theories share.

  The modelled target is LP64 with 8-bit bytes: \<^verbatim>\<open>unsigned\<close> has 32 bits,
  \<^verbatim>\<open>size_t\<close> and \<^verbatim>\<open>unsigned long\<close> have 64.  A size_t is a \<open>nat\<close>
  below \<open>size_bound\<close>; where the code adds or doubles one, the reduction modulo
  \<open>size_bound\<close> is written out.
\<close>

section \<open>Machine types\<close>

type_synonym u8 = "8 word"
type_synonym u16 = "16 word"
type_synonym u32 = "32 word"
type_synonym u64 = "64 word"
type_synonym bytes = "8 word list"

abbreviation size_bound :: nat where
  "size_bound \<equiv> 18446744073709551616"

text \<open>Rules that expand byte-string conversions, and rules that keep an access in bounds.\<close>

named_theorems endian_simps \<open>conversions between numbers and byte strings\<close>
named_theorems mem_simps \<open>lengths and contents of buffers after a block copy\<close>

section \<open>Block copies\<close>

text \<open>
  \<open>mem_write buf off data\<close> is \<^verbatim>\<open>memcpy(buf + off, data, n)\<close>.  It keeps the length of
  the buffer exactly when the copy is in bounds, so an invariant that fixes the buffer's length
  cannot survive a copy that runs past the end.
\<close>

definition mem_write :: "'a list \<Rightarrow> nat \<Rightarrow> 'a list \<Rightarrow> 'a list" where
  "mem_write buf off data = take off buf @ data @ drop (off + length data) buf"

definition mem_read :: "'a list \<Rightarrow> nat \<Rightarrow> nat \<Rightarrow> 'a list" where
  "mem_read buf off n = take n (drop off buf)"

lemma length_mem_write [simp, mem_simps]:
  "off + length data \<le> length buf \<Longrightarrow> length (mem_write buf off data) = length buf"
  by (simp add: mem_write_def)

lemma length_mem_write_iff:
  "off \<le> length buf \<Longrightarrow>
     length (mem_write buf off data) = length buf \<longleftrightarrow> off + length data \<le> length buf"
  by (auto simp: mem_write_def)

lemma mem_write_Nil [simp, mem_simps]: "mem_write buf off [] = buf"
  by (simp add: mem_write_def)

lemma take_mem_write_before [mem_simps]:
  "n \<le> off \<Longrightarrow> off \<le> length buf \<Longrightarrow> take n (mem_write buf off data) = take n buf"
  by (simp add: mem_write_def)

lemma take_mem_write_upto [mem_simps]:
  "off \<le> length buf \<Longrightarrow> take (off + length data) (mem_write buf off data) = take off buf @ data"
  by (simp add: mem_write_def)

lemma drop_mem_write_after [mem_simps]:
  "off + length data \<le> n \<Longrightarrow> off \<le> length buf \<Longrightarrow>
     drop n (mem_write buf off data) = drop n buf"
  by (simp add: mem_write_def)

lemma length_mem_read [simp, mem_simps]:
  "off + n \<le> length buf \<Longrightarrow> length (mem_read buf off n) = n"
  by (simp add: mem_read_def)

lemma mem_read_mem_write_same [mem_simps]:
  "off \<le> length buf \<Longrightarrow> mem_read (mem_write buf off data) off (length data) = data"
  by (simp add: mem_write_def mem_read_def)

lemma nth_mem_write:
  "off + length data \<le> length buf \<Longrightarrow> i < length buf \<Longrightarrow>
     mem_write buf off data ! i
       = (if off \<le> i \<and> i < off + length data then data ! (i - off) else buf ! i)"
  by (auto simp: mem_write_def nth_append min_def)

lemma take_mem_write_within [mem_simps]:
  "off + length data \<le> n \<Longrightarrow> n \<le> length buf \<Longrightarrow>
     take n (mem_write buf off data) = mem_write (take n buf) off data"
  by (cases "n = off") (auto simp: mem_write_def min_def drop_take)

lemma mem_write_middle [mem_simps]:
  "length old = length new \<Longrightarrow> mem_write (xs @ old @ ys) (length xs) new = xs @ new @ ys"
  by (simp add: mem_write_def)

lemma mem_read_middle [mem_simps]: "mem_read (xs @ ys @ zs) (length xs) (length ys) = ys"
  by (simp add: mem_read_def)

lemma list_update_mem_write: "i < length buf \<Longrightarrow> buf[i := x] = mem_write buf i [x]"
  by (simp add: mem_write_def upd_conv_take_nth_drop)

lemma mem_write_append_snoc:
  assumes "off + length xs < length buf"
  shows "mem_write (buf[off + length xs := x]) off xs = mem_write buf off (xs @ [x])"
  by (rule nth_equalityI) (use assms in \<open>auto simp: nth_mem_write nth_append nth_list_update\<close>)

section \<open>Big-endian numbers\<close>

text \<open>The value of a byte string read with its most significant byte first.\<close>

fun be_nat_acc :: "nat \<Rightarrow> bytes \<Rightarrow> nat" where
  "be_nat_acc a [] = a"
| "be_nat_acc a (b # bs) = be_nat_acc (a * 256 + unat b) bs"

abbreviation be_nat :: "bytes \<Rightarrow> nat" where
  "be_nat \<equiv> be_nat_acc 0"

text \<open>The \<open>k\<close> low-order bytes of a number, most significant first.\<close>

fun be_bytes :: "nat \<Rightarrow> nat \<Rightarrow> bytes" where
  "be_bytes 0 n = []"
| "be_bytes (Suc k) n = be_bytes k (n div 256) @ [word_of_nat n]"

lemma be_nat_acc_append [endian_simps]:
  "be_nat_acc a (xs @ ys) = be_nat_acc (be_nat_acc a xs) ys"
  by (induction xs arbitrary: a) auto

lemma length_be_bytes [simp, endian_simps]: "length (be_bytes k n) = k"
  by (induction k arbitrary: n) auto

lemma be_nat_acc_eq: "be_nat_acc a bs = a * 256 ^ length bs + be_nat bs"
proof (induction bs rule: rev_induct)
  case (snoc b bs)
  then show ?case by (simp add: be_nat_acc_append algebra_simps)
qed simp

lemma unat_u8_less [simp]: "unat (b :: u8) < 256"
  using unsigned_less [of b, where ?'a = nat] by simp

lemma be_nat_bound: "be_nat bs < 256 ^ length bs"
proof (induction bs rule: rev_induct)
  case (snoc b bs)
  have "unat b < 256" by simp
  with snoc have "be_nat bs * 256 + unat b < 256 ^ length bs * 256" by linarith
  then show ?case by (simp add: be_nat_acc_append mult.commute)
qed simp

lemma unat_word_of_nat_u8 [simp]: "unat (word_of_nat n :: u8) = n mod 256"
  by (simp add: unat_of_nat)

lemma be_nat_be_bytes [endian_simps]: "be_nat (be_bytes k n) = n mod 256 ^ k"
proof (induction k arbitrary: n)
  case (Suc k)
  have "be_nat (be_bytes (Suc k) n) = (n div 256 mod 256 ^ k) * 256 + n mod 256"
    by (simp add: be_nat_acc_append Suc)
  also have "\<dots> = n mod 256 ^ Suc k"
    by (simp add: mod_mult2_eq mult.commute)
  finally show ?case .
qed simp

lemma be_nat_be_bytes_small: "n < 256 ^ k \<Longrightarrow> be_nat (be_bytes k n) = n"
  by (simp add: be_nat_be_bytes)

lemma be_bytes_be_nat [endian_simps]: "be_bytes (length bs) (be_nat bs) = bs"
proof (induction bs rule: rev_induct)
  case (snoc b bs)
  have d: "(be_nat bs * 256 + unat b) div 256 = be_nat bs" by simp
  have m: "(word_of_nat (be_nat bs * 256 + unat b) :: u8) = b"
    by (simp only: word_unat_eq_iff unat_word_of_nat_u8 mod_mult_self3) simp
  show ?case by (simp only: be_nat_acc_append be_nat_acc.simps length_append list.size
        add_0_right add_Suc_right be_bytes.simps d m snoc)
qed simp

lemma be_nat_inj: "length xs = length ys \<Longrightarrow> be_nat xs = be_nat ys \<Longrightarrow> xs = ys"
  by (metis be_bytes_be_nat)

lemma be_bytes_mod: "be_bytes k (n mod 256 ^ k) = be_bytes k n"
  by (metis be_bytes_be_nat be_nat_be_bytes length_be_bytes)

lemma be_bytes_1 [simp]: "be_bytes (Suc 0) n = [word_of_nat n]"
  by simp

lemma be_nat_ge_iff_hd:
  "bs \<noteq> [] \<Longrightarrow> 256 ^ (length bs - 1) \<le> be_nat bs \<longleftrightarrow> hd bs \<noteq> 0"
proof (cases bs)
  case (Cons b cs)
  have e: "be_nat bs = unat b * 256 ^ length cs + be_nat cs"
    using be_nat_acc_eq [of "unat b" cs] Cons by simp
  show ?thesis
  proof (cases "b = 0")
    case True
    then show ?thesis using be_nat_bound [of cs] e Cons by simp
  next
    case False
    then have "1 \<le> unat b" by (simp add: Suc_le_eq unat_gt_0)
    then have "256 ^ length cs \<le> unat b * 256 ^ length cs" by simp
    then have "256 ^ length cs \<le> be_nat bs" using e by linarith
    then show ?thesis using False Cons by simp
  qed
qed simp

section \<open>Bits of small words\<close>

lemma and_mask_unat: "unat (x AND mask n :: 'a::len word) = unat x mod 2 ^ n"
  by (simp only: take_bit_eq_mask [symmetric] unsigned_take_bit_eq) (simp add: take_bit_eq_mod)

lemma u8_and_127: "unat ((x :: u8) AND 127) = unat x mod 128"
  using and_mask_unat [of x 7] by (simp add: mask_eq_exp_minus_1)

lemma and_exp_eq_0_iff: "(x :: 'a::len word) AND 2 ^ n = 0 \<longleftrightarrow> \<not> bit x n"
  by (subst bit_eq_iff) (auto simp: bit_and_iff bit_exp_iff bit_0_eq dest: bit_imp_le_length)

lemma bit_iff_unat: "bit (x :: 'a::len word) n \<longleftrightarrow> odd (unat x div 2 ^ n)"
proof -
  have "bit x n \<longleftrightarrow> bit (unat x) n" by (simp add: bit_unsigned_iff bit_imp_le_length)
  then show ?thesis by (simp add: bit_iff_odd)
qed

lemma u8_bit_7: "bit (x :: u8) 7 \<longleftrightarrow> 128 \<le> unat x"
proof -
  have "unat x div 128 < 2" using unat_u8_less [of x] by (simp add: less_mult_imp_div_less)
  then have "unat x div 128 = 0 \<or> unat x div 128 = 1" by linarith
  then show ?thesis using bit_iff_unat [of x 7] by (auto simp: div_eq_0_iff)
qed

lemma u8_and_128: "(x :: u8) AND 128 = 0 \<longleftrightarrow> unat x < 128"
proof -
  have "x AND 128 = 0 \<longleftrightarrow> \<not> bit x 7" using and_exp_eq_0_iff [of x 7] by (simp del: bit_numeral_iff)
  then show ?thesis using u8_bit_7 [of x] by linarith
qed

text \<open>Shifting a byte into an accumulator multiplies and adds.\<close>

lemma shl8_or_u32:
  "push_bit 8 (word_of_nat a :: u32) OR ucast (d :: u8) = word_of_nat (a * 256 + unat d)"
proof -
  have "push_bit 8 (word_of_nat a :: u32) AND ucast d = 0"
    by (auto simp: bit_eq_iff bit_simps dest: bit_imp_le_length)
  then have "push_bit 8 (word_of_nat a :: u32) OR ucast d = push_bit 8 (word_of_nat a) + ucast d"
    by (rule disjunctive_add_eq_or [symmetric])
  then show ?thesis by (simp add: push_bit_eq_mult mult.commute)
qed

lemma unat_ucast_u8_u32 [simp]: "unat (ucast (x :: u8) :: u32) = unat x"
  by (simp add: unsigned_ucast_eq take_bit_eq_mod less_trans [OF unat_u8_less])

lemma ucast_u8_u32_inj: "(ucast (x :: u8) :: u32) = ucast y \<longleftrightarrow> x = y"
  by (metis unat_ucast_u8_u32 word_unat_eq_iff)

section \<open>Conversions between C integer types\<close>

text \<open>An \<^verbatim>\<open>int\<close> converted to size_t, and back.\<close>

definition size_of_int :: "int \<Rightarrow> nat" where
  "size_of_int i = nat (i mod int size_bound)"

definition int_of_size :: "nat \<Rightarrow> int" where
  "int_of_size n = sint (word_of_nat n :: 32 word)"

text \<open>A \<^verbatim>\<open>long\<close> converted to \<^verbatim>\<open>int\<close>.\<close>

definition int_of_long :: "int \<Rightarrow> int" where
  "int_of_long i = sint (word_of_int i :: 32 word)"

text \<open>
  The largest \<^verbatim>\<open>int\<close>: a sum of \<^verbatim>\<open>int\<close>s beyond it is undefined.
\<close>

abbreviation INT_MAX :: int where
  "INT_MAX \<equiv> 2147483647"

lemma int_of_long_small: "- 2147483648 \<le> i \<Longrightarrow> i \<le> INT_MAX \<Longrightarrow> int_of_long i = i"
  unfolding int_of_long_def by (simp add: signed_of_int signed_take_bit_int_eq_self)

lemma int_of_size_small: "n < 2147483648 \<Longrightarrow> int_of_size n = int n"
  unfolding int_of_size_def by (simp add: signed_of_nat signed_take_bit_int_eq_self)

lemma size_of_int_small: "0 \<le> i \<Longrightarrow> i < 2147483648 \<Longrightarrow> size_of_int i = nat i"
  by (simp add: size_of_int_def)

section \<open>Lists\<close>

text \<open>For evaluating closed terms, where a numeral stands for a count.\<close>

lemma replicate_numeral_eq: "replicate (numeral k) x = x # replicate (pred_numeral k) x"
  by (simp add: numeral_eq_Suc)

lemma take_add_drop: "take (m + n) xs = take m xs @ take n (drop m xs)"
  by (simp add: take_add)

lemma nth_Cons_drop: "i < length xs \<Longrightarrow> drop i xs = xs ! i # drop (Suc i) xs"
  by (simp add: Cons_nth_drop_Suc)

lemma append_eq_take_drop: "xs @ ys = zs \<Longrightarrow> xs = take (length xs) zs \<and> ys = drop (length xs) zs"
  by auto

lemma option_eqI: "(\<And>d. a = Some d \<longleftrightarrow> b = Some d) \<Longrightarrow> a = b"
  by (cases b) (metis not_Some_eq, simp)

end
