(* ===== verification/Buf.thy ===== *)
theory Buf
  imports Prelude
begin

text \<open>
  Memory helpers: crypto/mem.c (constant-time comparison, FNV hash, bounded string length,
  reallocation that clears) and crypto/buf/buf.c (\<^verbatim>\<open>BUF_MEM\<close>, bounded string copies).

  A pointer to readable memory is the list of bytes from it to the end of its object; reading past
  the end of that list is the value \<open>None\<close> of the operation, which stands for the undefined
  behaviour of C.  malloc is a parameter \<open>alloc\<close>: \<open>alloc n\<close> is the fresh block, or
  \<open>None\<close> for a NULL return.
\<close>

section \<open>Allocation\<close>

type_synonym allocator = "nat \<Rightarrow> bytes option"

definition alloc_ok :: "allocator \<Rightarrow> bool" where
  "alloc_ok alloc \<longleftrightarrow> (\<forall>n. case alloc n of None \<Rightarrow> True | Some b \<Rightarrow> length b = n)"

lemma alloc_okD: "alloc_ok alloc \<Longrightarrow> alloc n = Some b \<Longrightarrow> length b = n"
  unfolding alloc_ok_def by (drule spec [of _ n]) simp

lemma alloc_ok_zeros [simp]: "alloc_ok (\<lambda>n. Some (replicate n 0))"
  by (simp add: alloc_ok_def)

lemma alloc_ok_None [simp]: "alloc_ok (\<lambda>n. None)"
  by (simp add: alloc_ok_def)

text \<open>realloc keeps the old contents up to the smaller of the two sizes.\<close>

definition c_realloc :: "allocator \<Rightarrow> bytes \<Rightarrow> nat \<Rightarrow> bytes option" where
  "c_realloc alloc old n = map_option (\<lambda>b. take n old @ drop (length old) b) (alloc n)"

lemma length_c_realloc:
  "alloc_ok alloc \<Longrightarrow> c_realloc alloc old n = Some b \<Longrightarrow> length b = n"
  by (auto simp: c_realloc_def dest: alloc_okD)

lemma take_c_realloc:
  "c_realloc alloc old n = Some b \<Longrightarrow> k \<le> length old \<Longrightarrow> k \<le> n \<Longrightarrow> take k b = take k old"
  by (auto simp: c_realloc_def min_def)

(* src: crypto/mem.c OPENSSL_realloc_clean *)
definition OPENSSL_realloc_clean ::
  "allocator \<Rightarrow> bytes option \<Rightarrow> nat \<Rightarrow> nat \<Rightarrow> bytes option" where
  "OPENSSL_realloc_clean alloc ptr old_size new_size =
     (case ptr of
        None \<Rightarrow> alloc new_size
      | Some p \<Rightarrow>
          (if new_size = 0 then None
           else if new_size < old_size then None
           else map_option (\<lambda>ret. mem_write ret 0 (take old_size p)) (alloc new_size)))"

(* src: crypto/mem.c OPENSSL_cleanse *)
definition OPENSSL_cleanse :: "bytes \<Rightarrow> nat \<Rightarrow> bytes" where
  "OPENSSL_cleanse ptr n = mem_write ptr 0 (replicate n 0)"

section \<open>Constant-time comparison and hashing\<close>

(* src: crypto/mem.c CRYPTO_memcmp *)
fun CRYPTO_memcmp_loop :: "bytes \<Rightarrow> bytes \<Rightarrow> nat \<Rightarrow> u8 \<Rightarrow> u8 option" where
  "CRYPTO_memcmp_loop a b 0 x = Some x"
| "CRYPTO_memcmp_loop (a # as) (b # bs) (Suc n) x =
     CRYPTO_memcmp_loop as bs n (x OR (a XOR b))"
| "CRYPTO_memcmp_loop _ _ (Suc n) x = None"

(* src: crypto/mem.c CRYPTO_memcmp *)
definition CRYPTO_memcmp :: "bytes \<Rightarrow> bytes \<Rightarrow> nat \<Rightarrow> u8 option" where
  "CRYPTO_memcmp a b n = CRYPTO_memcmp_loop a b n 0"

lemma or_eq_0_iff_u8: "(x :: 'a :: len word) OR y = 0 \<longleftrightarrow> x = 0 \<and> y = 0"
  by (rule or_eq_0_iff)

lemma xor_eq_0_iff_u8: "(x :: 'a :: len word) XOR y = 0 \<longleftrightarrow> x = y"
  by (metis xor.right_neutral xor_self_eq xor.left_commute)

lemma CRYPTO_memcmp_loop_0:
  "n \<le> length a \<Longrightarrow> n \<le> length b \<Longrightarrow>
     \<exists>r. CRYPTO_memcmp_loop a b n x = Some r \<and> (r = 0 \<longleftrightarrow> x = 0 \<and> take n a = take n b)"
proof (induction a b n x rule: CRYPTO_memcmp_loop.induct)
  case (2 a as b bs n x)
  then obtain r where "CRYPTO_memcmp_loop as bs n (x OR (a XOR b)) = Some r"
    and "r = 0 \<longleftrightarrow> x OR (a XOR b) = 0 \<and> take n as = take n bs"
    by auto
  then show ?case by (auto simp: or_eq_0_iff_u8 xor_eq_0_iff_u8)
qed auto

(* src: crypto/mem.c OPENSSL_hash32 *)
fun OPENSSL_hash32_loop :: "bytes \<Rightarrow> u32 \<Rightarrow> u32" where
  "OPENSSL_hash32_loop [] h = h"
| "OPENSSL_hash32_loop (b # bs) h = OPENSSL_hash32_loop bs ((h XOR ucast b) * 16777619)"

(* src: crypto/mem.c OPENSSL_hash32 *)
definition OPENSSL_hash32 :: "bytes \<Rightarrow> u32" where
  "OPENSSL_hash32 ptr = OPENSSL_hash32_loop ptr 2166136261"

lemma OPENSSL_hash32_loop_append:
  "OPENSSL_hash32_loop (xs @ ys) h = OPENSSL_hash32_loop ys (OPENSSL_hash32_loop xs h)"
  by (induction xs arbitrary: h) auto

section \<open>Bounded strings\<close>

text \<open>strlen of the C library: the distance to the first NUL, undefined without one.\<close>

fun c_strlen :: "bytes \<Rightarrow> nat option" where
  "c_strlen [] = None"
| "c_strlen (c # cs) = (if c = 0 then Some 0 else map_option Suc (c_strlen cs))"

(* src: crypto/buf/buf.c BUF_strnlen *)
fun BUF_strnlen :: "bytes \<Rightarrow> nat \<Rightarrow> nat option" where
  "BUF_strnlen str 0 = Some 0"
| "BUF_strnlen [] (Suc n) = None"
| "BUF_strnlen (c # cs) (Suc n) = (if c = 0 then Some 0 else map_option Suc (BUF_strnlen cs n))"

(* src: crypto/mem.c OPENSSL_strnlen *)
fun OPENSSL_strnlen :: "bytes \<Rightarrow> nat \<Rightarrow> nat option" where
  "OPENSSL_strnlen s 0 = Some 0"
| "OPENSSL_strnlen [] (Suc n) = None"
| "OPENSSL_strnlen (c # cs) (Suc n) =
     (if c = 0 then Some 0 else map_option Suc (OPENSSL_strnlen cs n))"

text \<open>The loop of BUF_strlcpy: the destination, the write position, the rest of the source, the
  room left and the count so far.\<close>

(* src: crypto/buf/buf.c BUF_strlcpy *)
fun BUF_strlcpy_loop ::
  "bytes \<Rightarrow> nat \<Rightarrow> bytes \<Rightarrow> nat \<Rightarrow> nat \<Rightarrow> (bytes \<times> nat \<times> bytes \<times> nat \<times> nat) option" where
  "BUF_strlcpy_loop dst d [] dst_size l =
     (if dst_size > 1 then None else Some (dst, d, [], dst_size, l))"
| "BUF_strlcpy_loop dst d (c # cs) dst_size l =
     (if dst_size > 1 \<and> c \<noteq> 0
      then if d < length dst then BUF_strlcpy_loop (dst[d := c]) (Suc d) cs (dst_size - 1) (Suc l)
           else None
      else Some (dst, d, c # cs, dst_size, l))"

(* src: crypto/buf/buf.c BUF_strlcpy *)
definition BUF_strlcpy :: "bytes \<Rightarrow> bytes \<Rightarrow> nat \<Rightarrow> (nat \<times> bytes) option" where
  "BUF_strlcpy dst src dst_size =
     (case BUF_strlcpy_loop dst 0 src dst_size 0 of
        None \<Rightarrow> None
      | Some (dst', d, src', size', l) \<Rightarrow>
          (if size' > 0 \<and> \<not> d < length dst' then None
           else case c_strlen src' of
               None \<Rightarrow> None
             | Some n \<Rightarrow> Some (l + n, if size' > 0 then dst'[d := 0] else dst')))"

text \<open>BUF_strlcat skips to the NUL already in the destination (or to the end of the room) and
  copies from there.\<close>

(* src: crypto/buf/buf.c BUF_strlcat *)
fun BUF_strlcat_skip :: "bytes \<Rightarrow> nat \<Rightarrow> nat \<Rightarrow> (nat \<times> nat) option" where
  "BUF_strlcat_skip dst 0 l = Some (0, l)"
| "BUF_strlcat_skip [] (Suc n) l = None"
| "BUF_strlcat_skip (c # cs) (Suc n) l =
     (if c \<noteq> 0 then BUF_strlcat_skip cs n (Suc l) else Some (Suc n, l))"

(* src: crypto/buf/buf.c BUF_strlcat *)
definition BUF_strlcat :: "bytes \<Rightarrow> bytes \<Rightarrow> nat \<Rightarrow> (nat \<times> bytes) option" where
  "BUF_strlcat dst src dst_size =
     (case BUF_strlcat_skip dst dst_size 0 of
        None \<Rightarrow> None
      | Some (room, l) \<Rightarrow>
          map_option (\<lambda>(n, tail'). (l + n, take l dst @ tail'))
            (BUF_strlcpy (drop l dst) src room))"

text \<open>Duplication: the outer option is the undefined behaviour, the inner one a NULL return.\<close>

(* src: crypto/buf/buf.c BUF_strndup *)
definition BUF_strndup :: "allocator \<Rightarrow> bytes option \<Rightarrow> nat \<Rightarrow> bytes option option" where
  "BUF_strndup alloc buf sz =
     (case buf of
        None \<Rightarrow> Some None
      | Some b \<Rightarrow>
          (case BUF_strnlen b sz of
             None \<Rightarrow> None
           | Some n \<Rightarrow>
               (let alloc_size = (n + 1) mod size_bound in
                if alloc_size < n then Some None
                else case alloc alloc_size of
                    None \<Rightarrow> Some None
                  | Some ret \<Rightarrow> map_option (\<lambda>(_, d). Some d) (BUF_strlcpy ret b alloc_size))))"

(* src: crypto/buf/buf.c BUF_strdup *)
definition BUF_strdup :: "allocator \<Rightarrow> bytes option \<Rightarrow> bytes option option" where
  "BUF_strdup alloc buf =
     (case buf of
        None \<Rightarrow> Some None
      | Some b \<Rightarrow> (case c_strlen b of None \<Rightarrow> None | Some n \<Rightarrow> BUF_strndup alloc buf n))"

(* src: crypto/buf/buf.c BUF_memdup *)
definition BUF_memdup :: "allocator \<Rightarrow> bytes option \<Rightarrow> nat \<Rightarrow> bytes option option" where
  "BUF_memdup alloc data dst_size =
     (case data of
        None \<Rightarrow> Some None
      | Some d \<Rightarrow>
          (case alloc dst_size of
             None \<Rightarrow> Some None
           | Some ret \<Rightarrow>
               (if dst_size \<le> length d then Some (Some (mem_write ret 0 (take dst_size d)))
                else None)))"

lemma BUF_memdup_eq:
  "alloc_ok alloc \<Longrightarrow> n \<le> length d \<Longrightarrow>
     BUF_memdup alloc (Some d) n = Some (map_option (\<lambda>_. take n d) (alloc n))"
  by (auto simp: BUF_memdup_def mem_write_def dest: alloc_okD split: option.splits)

section \<open>BUF_MEM\<close>

(* src: include/openssl/buf.h@65-69 struct buf_mem_st *)
record buf_mem =
  bm_length :: nat
  bm_data :: "bytes option"
  bm_max :: nat

(* src: crypto/buf/buf.c BUF_MEM_new *)
definition BUF_MEM_new :: "bool \<Rightarrow> buf_mem option" where
  "BUF_MEM_new malloc_ok =
     (if malloc_ok then Some \<lparr>bm_length = 0, bm_data = None, bm_max = 0\<rparr> else None)"

(* src: crypto/buf/buf.c buf_mem_grow *)
definition buf_mem_grow :: "allocator \<Rightarrow> buf_mem \<Rightarrow> nat \<Rightarrow> bool \<Rightarrow> nat \<times> buf_mem" where
  "buf_mem_grow alloc buf len clean =
     (if len \<le> bm_length buf then (len, buf\<lparr>bm_length := len\<rparr>)
      else if len \<le> bm_max buf then
        (len, buf\<lparr>bm_data := map_option
                   (\<lambda>d. mem_write d (bm_length buf) (replicate (len - bm_length buf) 0)) (bm_data buf),
                  bm_length := len\<rparr>)
      else
        let n = (len + 3) mod size_bound in
        if n < len then (0, buf)
        else
          let n = n div 3; alloc_size = (n * 4) mod size_bound in
          if alloc_size div 4 \<noteq> n then (0, buf)
          else
            let new_buf =
              (case bm_data buf of
                 None \<Rightarrow> alloc alloc_size
               | Some d \<Rightarrow>
                   (if clean then OPENSSL_realloc_clean alloc (Some d) (bm_max buf) alloc_size
                    else c_realloc alloc d alloc_size)) in
            (case new_buf of
               None \<Rightarrow> (0, buf)
             | Some nb \<Rightarrow>
                 (len, \<lparr>bm_length = len,
                        bm_data = Some (mem_write nb (bm_length buf)
                                          (replicate (len - bm_length buf) 0)),
                        bm_max = alloc_size\<rparr>)))"

(* src: crypto/buf/buf.c BUF_MEM_grow *)
definition BUF_MEM_grow :: "allocator \<Rightarrow> buf_mem \<Rightarrow> nat \<Rightarrow> nat \<times> buf_mem" where
  "BUF_MEM_grow alloc buf len = buf_mem_grow alloc buf len False"

(* src: crypto/buf/buf.c BUF_MEM_grow_clean *)
definition BUF_MEM_grow_clean :: "allocator \<Rightarrow> buf_mem \<Rightarrow> nat \<Rightarrow> nat \<times> buf_mem" where
  "BUF_MEM_grow_clean alloc buf len = buf_mem_grow alloc buf len True"

text \<open>A buffer's block has the capacity the record says, and the length fits in it.\<close>

definition buf_mem_ok :: "buf_mem \<Rightarrow> bool" where
  "buf_mem_ok b \<longleftrightarrow>
     (case bm_data b of None \<Rightarrow> bm_max b = 0 | Some d \<Rightarrow> length d = bm_max b)
     \<and> bm_length b \<le> bm_max b"

definition bm_contents :: "buf_mem \<Rightarrow> bytes" where
  "bm_contents b = (case bm_data b of None \<Rightarrow> [] | Some d \<Rightarrow> take (bm_length b) d)"

lemma length_bm_contents: "buf_mem_ok b \<Longrightarrow> length (bm_contents b) = bm_length b"
  by (auto simp: buf_mem_ok_def bm_contents_def split: option.splits)

text \<open>The block that a growing reallocation returns keeps the bytes in use.\<close>

lemma realloc_clean_keeps:
  assumes "alloc_ok alloc" "length d = old" "old \<le> n"
    and "OPENSSL_realloc_clean alloc (Some d) old n = Some nb"
  shows "length nb = n \<and> take old nb = d"
  using assms
  by (auto simp: OPENSSL_realloc_clean_def mem_write_def dest: alloc_okD split: if_splits)

lemma c_realloc_keeps:
  assumes "alloc_ok alloc" "length d = old" "old \<le> n" and "c_realloc alloc d n = Some nb"
  shows "length nb = n \<and> take old nb = d"
  using assms by (auto simp: c_realloc_def dest: alloc_okD)

lemma grow_size_bounds:
  fixes len :: nat
  assumes "len < size_bound" "\<not> (len + 3) mod size_bound < len"
    and "((len + 3) mod size_bound div 3 * 4) mod size_bound div 4
           = (len + 3) mod size_bound div 3"
  shows "len \<le> ((len + 3) mod size_bound div 3 * 4) mod size_bound"
proof -
  have "len + 3 < size_bound"
  proof (rule ccontr)
    assume "\<not> len + 3 < size_bound"
    then have "(len + 3) mod size_bound = len + 3 - size_bound"
      using assms(1) by (simp add: mod_if)
    with assms(1,2) show False by simp
  qed
  then have m: "(len + 3) mod size_bound = len + 3" by simp
  let ?n = "(len + 3) div 3"
  have "?n * 4 mod size_bound div 4 = ?n" using assms(3) m by simp
  then have "?n * 4 \<le> ?n * 4 mod size_bound"
    by (metis div_times_less_eq_dividend)
  moreover have "len \<le> ?n * 4" by presburger
  ultimately show ?thesis using m by simp
qed

section \<open>Growing a buffer\<close>

lemma take_append_zeros:
  "k \<le> n \<Longrightarrow> length xs = k \<Longrightarrow> take n (xs @ replicate n (0 :: u8)) = xs @ replicate (n - k) 0"
  by simp

lemma mem_write_zeros_contents:
  assumes "length d = m" "k \<le> len" "len \<le> m"
  shows "take len (mem_write d k (replicate (len - k) (0 :: u8))) = take k d @ replicate (len - k) 0"
  using assms take_mem_write_upto [of k d "replicate (len - k) 0"] by simp

lemma bm_max_take: "buf_mem_ok b \<Longrightarrow> bm_data b = Some d \<Longrightarrow> take (bm_length b) (take (bm_max b) d)
    = bm_contents b"
  by (simp add: buf_mem_ok_def bm_contents_def min_def)

lemma fresh_block_contents:
  assumes "length nb = m" "bm_length b < len" "len \<le> m"
    and "take (bm_length b) nb = bm_contents b" "buf_mem_ok b"
    and b': "b' = \<lparr>bm_length = len,
       bm_data = Some (mem_write nb (bm_length b) (replicate (len - bm_length b) 0)), bm_max = m\<rparr>"
  shows "buf_mem_ok b' \<and> bm_contents b' = take len (bm_contents b @ replicate len 0)"
  using assms mem_write_zeros_contents [of nb m "bm_length b" len] length_bm_contents [of b]
  by (simp add: buf_mem_ok_def bm_contents_def)

lemma grow_new_block:
  assumes ok: "buf_mem_ok b" "alloc_ok alloc" and le: "bm_max b \<le> m"
    and nb: "(case bm_data b of None \<Rightarrow> alloc m
              | Some d \<Rightarrow> if clean then OPENSSL_realloc_clean alloc (Some d) (bm_max b) m
                           else c_realloc alloc d m) = Some nb"
  shows "length nb = m \<and> take (bm_length b) nb = bm_contents b"
proof (cases "bm_data b")
  case None
  with ok nb show ?thesis by (auto simp: buf_mem_ok_def bm_contents_def dest: alloc_okD)
next
  case (Some d)
  with ok have d: "length d = bm_max b" "bm_length b \<le> bm_max b" by (auto simp: buf_mem_ok_def)
  have "length nb = m \<and> take (bm_max b) nb = d"
    using nb Some realloc_clean_keeps [OF ok(2) d(1) le] c_realloc_keeps [OF ok(2) d(1) le]
    by (cases clean) auto
  then have "take (bm_length b) nb = take (bm_length b) d" "length nb = m"
    using d(2) by (auto simp: min_def)
  with Some show ?thesis by (simp add: bm_contents_def)
qed

lemma buf_mem_grow_cases:
  assumes "buf_mem_ok b" "alloc_ok alloc" "len < size_bound"
    and "buf_mem_grow alloc b len clean = (r, b')"
  shows "buf_mem_ok b' \<and>
    (r = len \<and> bm_contents b' = take len (bm_contents b @ replicate len 0) \<or> r = 0 \<and> b' = b)"
proof -
  consider (shrink) "len \<le> bm_length b" | (fits) "bm_length b < len" "len \<le> bm_max b"
    | (grow) "bm_length b < len" "bm_max b < len" by linarith
  then show ?thesis
  proof cases
    case shrink
    with assms show ?thesis
      by (auto simp: buf_mem_grow_def buf_mem_ok_def bm_contents_def split: option.splits)
  next
    case fits
    with assms obtain d where d: "bm_data b = Some d" "length d = bm_max b"
      by (auto simp: buf_mem_ok_def split: option.splits)
    then have b': "r = len" "b' = \<lparr>bm_length = len,
        bm_data = Some (mem_write d (bm_length b) (replicate (len - bm_length b) 0)),
        bm_max = bm_max b\<rparr>"
      using assms(4) fits by (auto simp: buf_mem_grow_def)
    show ?thesis
      using fresh_block_contents [OF d(2) fits _ assms(1) b'(2)] d b'(1)
      by (simp add: bm_contents_def)
  next
    case grow
    let ?n = "(len + 3) mod size_bound div 3" let ?m = "?n * 4 mod size_bound"
    let ?nb = "case bm_data b of None \<Rightarrow> alloc ?m
       | Some d \<Rightarrow> if clean then OPENSSL_realloc_clean alloc (Some d) (bm_max b) ?m
                    else c_realloc alloc d ?m"
    show ?thesis
    proof (cases "(len + 3) mod size_bound < len \<or> ?m div 4 \<noteq> ?n \<or> ?nb = None")
      case True
      then have "buf_mem_grow alloc b len clean = (0, b)"
        using grow by (elim disjE) (simp_all add: buf_mem_grow_def Let_def)
      with assms(1,4) show ?thesis by simp
    next
      case False
      then obtain nb where nb: "?nb = Some nb" by auto
      have le: "len \<le> ?m" using grow_size_bounds [OF assms(3)] False by blast
      have nb': "length nb = ?m \<and> take (bm_length b) nb = bm_contents b"
        by (rule grow_new_block [OF assms(1,2) _ nb]) (use grow le in linarith)
      have b': "r = len" "b' = \<lparr>bm_length = len,
          bm_data = Some (mem_write nb (bm_length b) (replicate (len - bm_length b) 0)),
          bm_max = ?m\<rparr>"
        using assms(4) grow False nb by (auto simp: buf_mem_grow_def Let_def)
      show ?thesis
        using fresh_block_contents [OF _ grow(1) le _ assms(1) b'(2)] nb' b'(1) by simp
    qed
  qed
qed

text \<open>
  growing (or shrinking) a BUF_MEM either returns the new length, with the block's capacity
  intact and the contents those of the old buffer cut to the new length or extended by zero bytes,
  or returns 0 and leaves the buffer as it was; both for the plain and the clearing variant.
\<close>
theorem buf_mem_grow_correct:
  assumes "buf_mem_ok b" "alloc_ok alloc" "len < size_bound"
    and "buf_mem_grow alloc b len clean = (r, b')"
  shows "buf_mem_ok b' \<and>
    (r = len \<and> bm_contents b' = take len (bm_contents b @ replicate len 0) \<or> r = 0 \<and> b' = b)"
  by (rule buf_mem_grow_cases [OF assms])

theorem buf_mem_grow_correct_witness:
  "\<exists>b'. buf_mem_grow (\<lambda>n. Some (replicate n 7)) \<lparr>bm_length = 2, bm_data = Some [1, 2, 9], bm_max = 3\<rparr>
           5 True = (5, b') \<and> buf_mem_ok b' \<and> bm_contents b' = [1, 2, 0, 0, 0]"
proof -
  let ?b = "\<lparr>bm_length = 2, bm_data = Some [1, 2, 9], bm_max = 3\<rparr> :: buf_mem"
  have ok: "buf_mem_ok ?b" "alloc_ok (\<lambda>n. Some (replicate n 7))" "5 < size_bound"
    by (simp_all add: buf_mem_ok_def alloc_ok_def)
  have rep: "replicate 3 x = [x, x, x]" for x :: u8 by (simp add: numeral_3_eq_3)
  have r: "buf_mem_grow (\<lambda>n. Some (replicate n 7)) ?b 5 True
      = (5, \<lparr>bm_length = 5, bm_data = Some [1, 2, 0, 0, 0, 7, 7, 7], bm_max = 8\<rparr>)"
    by (simp add: buf_mem_grow_def OPENSSL_realloc_clean_def mem_write_def rep)
  show ?thesis
    using buf_mem_grow_correct [OF ok r] r by (simp add: bm_contents_def)
qed

section \<open>String copies\<close>

lemma c_strlen_terminated: "0 \<notin> set s \<Longrightarrow> c_strlen (s @ 0 # rest) = Some (length s)"
  by (induction s) auto

lemma c_strlen_unterminated: "0 \<notin> set s \<Longrightarrow> c_strlen s = None"
  by (induction s) auto

lemma BUF_strnlen_terminated:
  "0 \<notin> set s \<Longrightarrow> BUF_strnlen (s @ 0 # rest) n = Some (min (length s) n)"
  by (induction s arbitrary: n) (case_tac n; auto simp: min_def split: option.splits)+

lemma BUF_strnlen_inside: "0 \<notin> set s \<Longrightarrow> n \<le> length s \<Longrightarrow> BUF_strnlen s n = Some n"
proof (induction s arbitrary: n)
  case (Cons c s)
  then show ?case by (cases n) auto
qed simp

lemma OPENSSL_strnlen_eq: "OPENSSL_strnlen s n = BUF_strnlen s n"
  by (induction s n rule: OPENSSL_strnlen.induct) auto

lemma list_update_take_Suc:
  "d < length dst \<Longrightarrow> take (Suc d) (dst[d := c]) = take d dst @ [c]"
  by (simp add: take_Suc_conv_app_nth)

text \<open>The copy loop moves the longest prefix that leaves room for the NUL.\<close>

lemma BUF_strlcpy_loop_eq:
  assumes "0 \<notin> set s" "d + n \<le> length dst" "0 < n"
  shows "BUF_strlcpy_loop dst d (s @ 0 # rest) n l =
     (let k = min (length s) (n - 1) in
      Some (take d dst @ take k s @ drop (d + k) dst, d + k, drop k s @ 0 # rest, n - k, l + k))"
  using assms
proof (induction s arbitrary: dst d n l)
  case Nil
  then show ?case by simp
next
  case (Cons c s)
  show ?case
  proof (cases "n > 1")
    case True
    let ?k = "min (length s) (n - 2)"
    have km: "min (length (c # s)) (n - 1) = Suc ?k" using True by auto
    have two: "n - Suc (Suc 0) = n - 2" by simp
    have "BUF_strlcpy_loop dst d ((c # s) @ 0 # rest) n l
        = BUF_strlcpy_loop (dst[d := c]) (Suc d) (s @ 0 # rest) (n - 1) (Suc l)"
      using True Cons.prems by auto
    also have "\<dots> = Some (take (Suc d) (dst[d := c]) @ take ?k s @ drop (Suc d + ?k) dst,
         Suc d + ?k, drop ?k s @ 0 # rest, n - 1 - ?k, Suc l + ?k)"
      using Cons.IH [of "Suc d" "n - 1" "dst[d := c]" "Suc l"] Cons.prems True
      by (simp add: Let_def two)
    also have "take (Suc d) (dst[d := c]) = take d dst @ [c]"
      using Cons.prems by (intro list_update_take_Suc) simp
    also have "n - 1 - ?k = n - Suc ?k" by simp
    finally show ?thesis
      using km by (simp only: Let_def km) simp
  next
    case False
    with Cons.prems have "n = 1" by simp
    then show ?thesis by simp
  qed
qed

text \<open>
  with a NUL-terminated source and a destination that has the stated room, BUF_strlcpy returns
  the source's length and leaves the longest prefix that fits, a NUL, and the untouched rest of the
  destination.
\<close>
theorem BUF_strlcpy_correct:
  assumes "0 \<notin> set s" "0 < n" "n \<le> length dst"
  shows "BUF_strlcpy dst (s @ 0 # rest) n =
    (let k = min (length s) (n - 1) in Some (length s, take k s @ 0 # drop (Suc k) dst))"
proof -
  let ?k = "min (length s) (n - 1)"
  have k: "?k < length dst" "?k < n" "length (take ?k s) = ?k" using assms by auto
  have c: "c_strlen (drop ?k s @ 0 # rest) = Some (length s - ?k)"
    using c_strlen_terminated [of "drop ?k s"] assms(1) by (auto dest: in_set_dropD)
  have u: "(take ?k s @ drop ?k dst)[?k := 0] = take ?k s @ 0 # drop (Suc ?k) dst"
    using k nth_Cons_drop [OF k(1)] by (simp add: list_update_append)
  show ?thesis
    using BUF_strlcpy_loop_eq [of s 0 n dst rest 0] assms k c u
    by (simp add: BUF_strlcpy_def Let_def)
qed

theorem BUF_strlcpy_correct_witness:
  "BUF_strlcpy [9, 9, 9, 9] [104, 105, 33, 33, 0] 3 = Some (4, [104, 105, 0, 9])"
  using BUF_strlcpy_correct [of "[104, 105, 33, 33]" 3 "[9, 9, 9, 9]" "[]"] by simp

text \<open>
  BUF_strndup reads past the end of an unterminated buffer. When the buffer holds exactly the
  \<open>n\<close> bytes it may be read for and none is NUL, the copy loop stops in time, but the strlen in
  BUF_strlcpy's return value runs on past the buffer: undefined behaviour whenever the allocation
  succeeds. (CBS_strdup calls it with just such a buffer.)
\<close>
theorem BUF_strndup_overread:
  assumes "alloc_ok alloc" "alloc (length b + 1) = Some ret" "0 \<notin> set b"
    and "length b + 1 < size_bound"
  shows "BUF_strndup alloc (Some b) (length b) = None"
proof -
  have loop: "d + n \<le> length dst \<Longrightarrow> n = Suc (length bs) \<Longrightarrow> 0 \<notin> set bs \<Longrightarrow>
      \<exists>r. BUF_strlcpy_loop dst d bs n l = Some r \<and> fst (snd (snd r)) = []" for dst d bs n l
    by (induction bs arbitrary: dst d n l) auto
  obtain dst' d sz l where
    "BUF_strlcpy_loop ret 0 b (Suc (length b)) 0 = Some (dst', d, [], sz, l)"
    using loop [of 0 "Suc (length b)" ret b 0] alloc_okD [OF assms(1,2)] assms(3) by fastforce
  then have "BUF_strlcpy ret b (Suc (length b)) = None"
    by (simp add: BUF_strlcpy_def)
  then show ?thesis
    using assms BUF_strnlen_inside [of b "length b"] by (simp add: BUF_strndup_def Let_def)
qed

theorem BUF_strndup_overread_witness:
  "BUF_strndup (\<lambda>n. Some (replicate n 0)) (Some [65, 66]) (Suc (Suc 0)) = None"
  using BUF_strndup_overread [of "\<lambda>n. Some (replicate n 0)" "[65, 66]" "[0, 0, 0]"] by simp

lemma BUF_strndup_terminated:
  assumes "alloc_ok alloc" "0 \<notin> set s" "length s + 1 < size_bound"
  shows "BUF_strndup alloc (Some (s @ 0 # rest)) n =
     Some (let k = min (length s) n in map_option (\<lambda>_. take k s @ [0]) (alloc (k + 1)))"
proof -
  let ?k = "min (length s) n"
  have m: "Suc ?k mod size_bound = Suc ?k" using assms(3) by simp
  show ?thesis
  proof (cases "alloc (Suc ?k)")
    case None
    with m BUF_strnlen_terminated [OF assms(2), of rest n] show ?thesis
      by (simp add: BUF_strndup_def Let_def)
  next
    case (Some ret)
    then have "length ret = Suc ?k" using alloc_okD [OF assms(1)] by simp
    then have "BUF_strlcpy ret (s @ 0 # rest) (Suc ?k) = Some (length s, take ?k s @ [0])"
      using BUF_strlcpy_correct [OF assms(2), of "Suc ?k" ret rest] by (simp add: Let_def)
    with Some m BUF_strnlen_terminated [OF assms(2), of rest n] show ?thesis
      by (simp add: BUF_strndup_def Let_def)
  qed
qed

end
