(* ===== verification/Cbs.thy ===== *)
theory Cbs
  imports Buf
begin

text \<open>
  The byte-string reader of crypto/bytestring/cbs.c.  A \<^verbatim>\<open>CBS\<close> is a pointer and a length:
  \<open>cbs_data\<close> is the memory from the pointer to the end of its object, \<open>cbs_len\<close> the bytes the
  CBS covers.  Every getter takes the CBS and returns its result (\<open>None\<close> for a zero return) with
  the CBS as the C function leaves it, also on failure.  The theory shows that getters stay inside
  the span, that the DER getter accepts exactly the minimal encodings, and that the BER getter, a
  recursion through indefinite-length elements, returns on every input and agrees with the DER
  getter where that one succeeds.
\<close>

section \<open>The reader\<close>

(* src: include/openssl/bytestring.h@37-40 struct cbs_st *)
record cbs =
  cbs_data :: bytes
  cbs_len :: nat

(* src: crypto/bytestring/cbs.c CBS_init *)
definition CBS_init :: "bytes \<Rightarrow> nat \<Rightarrow> cbs" where
  "CBS_init d n = \<lparr>cbs_data = d, cbs_len = n\<rparr>"

(* src: crypto/bytestring/cbs.c cbs_get *)
definition cbs_get :: "cbs \<Rightarrow> nat \<Rightarrow> bytes option \<times> cbs" where
  "cbs_get cbs n =
     (if cbs_len cbs < n then (None, cbs)
      else (Some (cbs_data cbs), \<lparr>cbs_data = drop n (cbs_data cbs), cbs_len = cbs_len cbs - n\<rparr>))"

(* src: crypto/bytestring/cbs.c CBS_skip *)
definition CBS_skip :: "cbs \<Rightarrow> nat \<Rightarrow> bool \<times> cbs" where
  "CBS_skip cbs n = (case cbs_get cbs n of (p, cbs') \<Rightarrow> (p \<noteq> None, cbs'))"

(* src: crypto/bytestring/cbs.c CBS_data *)
definition CBS_data :: "cbs \<Rightarrow> bytes" where
  "CBS_data cbs = cbs_data cbs"

(* src: crypto/bytestring/cbs.c CBS_len *)
definition CBS_len :: "cbs \<Rightarrow> nat" where
  "CBS_len cbs = cbs_len cbs"

text \<open>The out pointer and length are the results; the outer option is an out-of-bounds read.\<close>

(* src: crypto/bytestring/cbs.c CBS_stow *)
definition CBS_stow :: "allocator \<Rightarrow> cbs \<Rightarrow> (bool \<times> bytes option \<times> nat) option" where
  "CBS_stow alloc cbs =
     (if cbs_len cbs = 0 then Some (True, None, 0)
      else case BUF_memdup alloc (Some (cbs_data cbs)) (cbs_len cbs) of
          None \<Rightarrow> None
        | Some None \<Rightarrow> Some (False, None, 0)
        | Some (Some p) \<Rightarrow> Some (True, Some p, cbs_len cbs))"

(* src: crypto/bytestring/cbs.c CBS_strdup *)
definition CBS_strdup :: "allocator \<Rightarrow> cbs \<Rightarrow> (bool \<times> bytes option) option" where
  "CBS_strdup alloc cbs =
     map_option (\<lambda>p. (p \<noteq> None, p)) (BUF_strndup alloc (Some (cbs_data cbs)) (cbs_len cbs))"

(* src: crypto/bytestring/cbs.c CBS_contains_zero_byte *)
definition CBS_contains_zero_byte :: "cbs \<Rightarrow> bool" where
  "CBS_contains_zero_byte cbs \<longleftrightarrow> 0 \<in> set (take (cbs_len cbs) (cbs_data cbs))"

(* src: crypto/bytestring/cbs.c CBS_mem_equal *)
definition CBS_mem_equal :: "cbs \<Rightarrow> bytes \<Rightarrow> nat \<Rightarrow> bool option" where
  "CBS_mem_equal cbs d n =
     (if n \<noteq> cbs_len cbs then Some False
      else map_option (\<lambda>r. r = 0) (CRYPTO_memcmp (cbs_data cbs) d n))"

section \<open>Integers\<close>

(* src: crypto/bytestring/cbs.c cbs_get_u *)
fun cbs_get_u_loop :: "u32 \<Rightarrow> bytes \<Rightarrow> u32" where
  "cbs_get_u_loop result [] = result"
| "cbs_get_u_loop result (d # ds) = cbs_get_u_loop (push_bit 8 result OR ucast d) ds"

(* src: crypto/bytestring/cbs.c cbs_get_u *)
definition cbs_get_u :: "cbs \<Rightarrow> nat \<Rightarrow> u32 option \<times> cbs" where
  "cbs_get_u cbs n =
     (case cbs_get cbs n of
        (None, cbs') \<Rightarrow> (None, cbs')
      | (Some p, cbs') \<Rightarrow> (Some (cbs_get_u_loop 0 (take n p)), cbs'))"

(* src: crypto/bytestring/cbs.c CBS_get_u8 *)
definition CBS_get_u8 :: "cbs \<Rightarrow> u8 option \<times> cbs" where
  "CBS_get_u8 cbs =
     (case cbs_get cbs 1 of (None, cbs') \<Rightarrow> (None, cbs') | (Some p, cbs') \<Rightarrow> (Some (hd p), cbs'))"

(* src: crypto/bytestring/cbs.c CBS_get_u16 *)
definition CBS_get_u16 :: "cbs \<Rightarrow> u16 option \<times> cbs" where
  "CBS_get_u16 cbs =
     (case cbs_get_u cbs 2 of (None, cbs') \<Rightarrow> (None, cbs') | (Some v, cbs') \<Rightarrow> (Some (ucast v), cbs'))"

(* src: crypto/bytestring/cbs.c CBS_get_u24 *)
definition CBS_get_u24 :: "cbs \<Rightarrow> u32 option \<times> cbs" where
  "CBS_get_u24 cbs = cbs_get_u cbs 3"

(* src: crypto/bytestring/cbs.c CBS_get_u32 *)
definition CBS_get_u32 :: "cbs \<Rightarrow> u32 option \<times> cbs" where
  "CBS_get_u32 cbs = cbs_get_u cbs 4"

section \<open>Length-prefixed spans\<close>

(* src: crypto/bytestring/cbs.c CBS_get_bytes *)
definition CBS_get_bytes :: "cbs \<Rightarrow> nat \<Rightarrow> cbs option \<times> cbs" where
  "CBS_get_bytes cbs n =
     (case cbs_get cbs n of (None, cbs') \<Rightarrow> (None, cbs') | (Some v, cbs') \<Rightarrow> (Some (CBS_init v n), cbs'))"

(* src: crypto/bytestring/cbs.c cbs_get_length_prefixed *)
definition cbs_get_length_prefixed :: "cbs \<Rightarrow> nat \<Rightarrow> cbs option \<times> cbs" where
  "cbs_get_length_prefixed cbs len_len =
     (case cbs_get_u cbs len_len of
        (None, cbs') \<Rightarrow> (None, cbs')
      | (Some l, cbs') \<Rightarrow> CBS_get_bytes cbs' (unat l))"

(* src: crypto/bytestring/cbs.c CBS_get_u8_length_prefixed *)
definition CBS_get_u8_length_prefixed :: "cbs \<Rightarrow> cbs option \<times> cbs" where
  "CBS_get_u8_length_prefixed cbs = cbs_get_length_prefixed cbs 1"

(* src: crypto/bytestring/cbs.c CBS_get_u16_length_prefixed *)
definition CBS_get_u16_length_prefixed :: "cbs \<Rightarrow> cbs option \<times> cbs" where
  "CBS_get_u16_length_prefixed cbs = cbs_get_length_prefixed cbs 2"

(* src: crypto/bytestring/cbs.c CBS_get_u24_length_prefixed *)
definition CBS_get_u24_length_prefixed :: "cbs \<Rightarrow> cbs option \<times> cbs" where
  "CBS_get_u24_length_prefixed cbs = cbs_get_length_prefixed cbs 3"

section \<open>ASN.1 elements\<close>

abbreviation MAX_DEPTH :: nat where
  "MAX_DEPTH \<equiv> 64"

text \<open>
  What the header says: not an element, an element of a definite length (tag, header length and
  total length), or an indefinite-length element whose end has to be searched for.
\<close>

datatype asn1_header =
    BadHeader
  | Definite u8 nat nat
  | Indefinite u8

(* src: crypto/bytestring/cbs.c@200-258 cbs_get_asn1_element *)
definition cbs_asn1_header :: "cbs \<Rightarrow> nat \<Rightarrow> asn1_header" where
  "cbs_asn1_header cbs depth =
     (case CBS_get_u8 cbs of
        (None, _) \<Rightarrow> BadHeader
      | (Some tag, header) \<Rightarrow>
     (case CBS_get_u8 header of
        (None, _) \<Rightarrow> BadHeader
      | (Some length_byte, header) \<Rightarrow>
     (if tag AND 0x1f = 0x1f then BadHeader
      else if length_byte AND 0x80 = 0 then Definite tag 2 (unat length_byte + 2)
      else
        let num_bytes = unat (length_byte AND 0x7f) in
        if tag AND 0x20 \<noteq> 0 \<and> depth < MAX_DEPTH \<and> num_bytes = 0 then Indefinite tag
        else if num_bytes = 0 \<or> num_bytes > 4 then BadHeader
        else
          (case cbs_get_u header num_bytes of
             (None, _) \<Rightarrow> BadHeader
           | (Some len32, _) \<Rightarrow>
               (if len32 < 128 then BadHeader
                else if drop_bit ((num_bytes - 1) * 8) len32 = 0 then BadHeader
                else
                  let len = unat len32; len' = (len + 2 + num_bytes) mod size_bound in
                  if len' < len then BadHeader
                  else Definite tag (2 + num_bytes) len')))))"

text \<open>
  The element getter and the scan for the end of an indefinite-length element call each other; the
  scan is the for-loop of cbs_get_asn1_indefinite_len.  The first argument is fuel, one unit per
  call; \<open>None\<close> is running out, and \<open>asn1_enough_fuel\<close> below shows that twice the span's length
  and a little more always suffices.  An element's result is the span of the element, the tag, the
  length of the header and whether the length was indefinite.
\<close>

type_synonym asn1_element = "cbs \<times> u8 \<times> nat \<times> bool"

(* src: crypto/bytestring/cbs.c cbs_get_asn1_element *)
fun cbs_get_asn1_element :: "nat \<Rightarrow> cbs \<Rightarrow> nat \<Rightarrow> (asn1_element option \<times> cbs) option"
(* src: crypto/bytestring/cbs.c cbs_get_asn1_indefinite_len *)
  and cbs_get_asn1_indefinite_scan :: "nat \<Rightarrow> cbs \<Rightarrow> nat \<Rightarrow> (bool \<times> cbs) option"
where
  "cbs_get_asn1_element 0 cbs depth = None"
| "cbs_get_asn1_element (Suc fuel) cbs depth =
     (case cbs_asn1_header cbs depth of
        BadHeader \<Rightarrow> Some (None, cbs)
      | Definite tag header_len len \<Rightarrow>
          (case CBS_get_bytes cbs len of
             (None, cbs') \<Rightarrow> Some (None, cbs')
           | (Some out, cbs') \<Rightarrow> Some (Some (out, tag, header_len, False), cbs'))
      | Indefinite tag \<Rightarrow>
          (case CBS_skip cbs 2 of
             (False, in1) \<Rightarrow> Some (None, in1)
           | (True, in1) \<Rightarrow>
               (case cbs_get_asn1_indefinite_scan fuel in1 depth of
                  None \<Rightarrow> None
                | Some (False, in2) \<Rightarrow> Some (None, in2)
                | Some (True, in2) \<Rightarrow>
                    (case CBS_get_bytes cbs (CBS_len cbs - CBS_len in2 - 2) of
                       (None, _) \<Rightarrow> Some (None, in2)
                     | (Some out, _) \<Rightarrow> Some (Some (out, tag, 2, True), in2)))))"
| "cbs_get_asn1_indefinite_scan 0 in1 depth = None"
| "cbs_get_asn1_indefinite_scan (Suc fuel) in1 depth =
     (case cbs_get_asn1_element fuel in1 (depth + 1) of
        None \<Rightarrow> None
      | Some (None, in2) \<Rightarrow> Some (False, in2)
      | Some (Some (child, tag, header_len, was_indefinite_len), in2) \<Rightarrow>
          (if \<not> was_indefinite_len \<and> CBS_len child = 2 \<and> header_len = 2 \<and> tag = 0
           then Some (True, in2)
           else cbs_get_asn1_indefinite_scan fuel in2 depth))"

definition asn1_fuel :: "cbs \<Rightarrow> nat" where
  "asn1_fuel cbs = cbs_len cbs + 3"

(* src: crypto/bytestring/cbs.c cbs_get_asn1 *)
definition cbs_get_asn1 :: "cbs \<Rightarrow> u32 \<Rightarrow> bool \<Rightarrow> bool \<Rightarrow> (cbs option \<times> cbs) option" where
  "cbs_get_asn1 cbs tag_value ber skip_header =
     (case cbs_get_asn1_element (asn1_fuel cbs) cbs (if ber then 0 else MAX_DEPTH) of
        None \<Rightarrow> None
      | Some (None, cbs') \<Rightarrow> Some (None, cbs')
      | Some (Some (out, tag, header_len, _), cbs') \<Rightarrow>
          (if ucast tag \<noteq> tag_value then Some (None, cbs')
           else if skip_header
             then (case CBS_skip out header_len of
                     (False, _) \<Rightarrow> Some (None, cbs')
                   | (True, out') \<Rightarrow> Some (Some out', cbs'))
             else Some (Some out, cbs')))"

(* src: crypto/bytestring/cbs.c CBS_get_asn1 *)
definition CBS_get_asn1 :: "cbs \<Rightarrow> u32 \<Rightarrow> (cbs option \<times> cbs) option" where
  "CBS_get_asn1 cbs tag_value = cbs_get_asn1 cbs tag_value False True"

(* src: crypto/bytestring/cbs.c CBS_get_asn1_ber *)
definition CBS_get_asn1_element :: "cbs \<Rightarrow> u32 \<Rightarrow> (cbs option \<times> cbs) option" where
  "CBS_get_asn1_element cbs tag_value = cbs_get_asn1 cbs tag_value False False"

section \<open>Spans\<close>

text \<open>A CBS is well-formed when its object holds the bytes it covers.\<close>

definition cbs_ok :: "cbs \<Rightarrow> bool" where
  "cbs_ok c \<longleftrightarrow> cbs_len c \<le> length (cbs_data c)"

definition cbs_bytes :: "cbs \<Rightarrow> bytes" where
  "cbs_bytes c = take (cbs_len c) (cbs_data c)"

definition cbs_adv :: "cbs \<Rightarrow> nat \<Rightarrow> cbs" where
  "cbs_adv c n = \<lparr>cbs_data = drop n (cbs_data c), cbs_len = cbs_len c - n\<rparr>"

named_theorems cbs_simps \<open>getters over the bytes a CBS covers\<close>

lemma cbs_ok_adv [simp, intro]: "cbs_ok c \<Longrightarrow> cbs_ok (cbs_adv c n)"
  by (simp add: cbs_ok_def cbs_adv_def)

lemma cbs_bytes_adv [cbs_simps]: "cbs_bytes (cbs_adv c n) = drop n (cbs_bytes c)"
  by (simp add: cbs_bytes_def cbs_adv_def drop_take)

lemma cbs_len_adv [cbs_simps]: "cbs_len (cbs_adv c n) = cbs_len c - n"
  by (simp add: cbs_adv_def)

lemma cbs_adv_adv [cbs_simps]: "cbs_adv (cbs_adv c m) n = cbs_adv c (m + n)"
  by (simp add: cbs_adv_def add.commute)

lemma cbs_adv_0 [cbs_simps]: "cbs_adv c 0 = c"
  by (simp add: cbs_adv_def)

lemma length_cbs_bytes: "cbs_ok c \<Longrightarrow> length (cbs_bytes c) = cbs_len c"
  by (simp add: cbs_bytes_def cbs_ok_def)

lemma cbs_bytes_init: "n \<le> length d \<Longrightarrow> cbs_bytes (CBS_init d n) = take n d \<and> cbs_ok (CBS_init d n)"
  by (simp add: cbs_bytes_def CBS_init_def cbs_ok_def)

lemma cbs_get_eq:
  "cbs_get c n = (if n \<le> cbs_len c then (Some (cbs_data c), cbs_adv c n) else (None, c))"
  by (simp add: cbs_get_def cbs_adv_def)

lemma CBS_skip_eq [cbs_simps]:
  "CBS_skip c n = (if n \<le> cbs_len c then (True, cbs_adv c n) else (False, c))"
  by (simp add: CBS_skip_def cbs_get_eq)

lemma CBS_get_bytes_eq [cbs_simps]:
  "CBS_get_bytes c n =
     (if n \<le> cbs_len c then (Some (CBS_init (cbs_data c) n), cbs_adv c n) else (None, c))"
  by (simp add: CBS_get_bytes_def cbs_get_eq)

lemma cbs_get_u_loop_eq: "cbs_get_u_loop (word_of_nat a) ds = word_of_nat (be_nat_acc a ds)"
proof (induction ds arbitrary: a)
  case (Cons d ds)
  show ?case by (simp only: cbs_get_u_loop.simps shl8_or_u32 Cons be_nat_acc.simps)
qed simp

lemma cbs_get_u_eq [cbs_simps]:
  "cbs_get_u c n = (if n \<le> cbs_len c then (Some (word_of_nat (be_nat (take n (cbs_data c)))), cbs_adv c n)
                    else (None, c))"
  using cbs_get_u_loop_eq [of 0] by (simp add: cbs_get_u_def cbs_get_eq)

lemma CBS_get_u8_eq [cbs_simps]:
  "CBS_get_u8 c = (if 1 \<le> cbs_len c then (Some (hd (cbs_data c)), cbs_adv c 1) else (None, c))"
  by (simp add: CBS_get_u8_def cbs_get_eq)

lemma take_cbs_data: "n \<le> cbs_len c \<Longrightarrow> take n (cbs_data c) = take n (cbs_bytes c)"
  by (simp add: cbs_bytes_def min_def)

lemma hd_cbs_data: "cbs_ok c \<Longrightarrow> 0 < cbs_len c \<Longrightarrow> hd (cbs_data c) = hd (cbs_bytes c)"
  by (simp add: cbs_bytes_def)

text \<open>
  reading an n-byte integer (n at most 4) from a CBS gives the big-endian value of its next n
  bytes and leaves the rest; it fails, without moving, exactly when fewer remain.
\<close>
theorem cbs_get_u_big_endian:
  assumes "cbs_ok c" "n \<le> 4"
  shows "case cbs_get_u c n of
      (None, c') \<Rightarrow> length (cbs_bytes c) < n \<and> c' = c
    | (Some v, c') \<Rightarrow> n \<le> length (cbs_bytes c) \<and> unat v = be_nat (take n (cbs_bytes c)) \<and>
                      cbs_ok c' \<and> cbs_bytes c' = drop n (cbs_bytes c)"
proof -
  let ?v = "be_nat (take n (cbs_bytes c))"
  have "?v < 256 ^ length (take n (cbs_bytes c))" by (rule be_nat_bound)
  also have "\<dots> \<le> 256 ^ 4" using assms(2) by (intro power_increasing) auto
  finally have "unat (word_of_nat ?v :: u32) = ?v" by (simp add: unat_of_nat)
  then show ?thesis using assms(1) by (simp add: cbs_simps length_cbs_bytes take_cbs_data)
qed

theorem cbs_get_u_big_endian_witness:
  "cbs_ok (CBS_init [1, 2, 3, 9] 3) \<and>
   (case cbs_get_u (CBS_init [1, 2, 3, 9] 3) 2 of (None, c') \<Rightarrow> False
    | (Some v, c') \<Rightarrow> unat v = 258 \<and> cbs_bytes c' = [3])"
proof -
  have ok: "cbs_ok (CBS_init [1, 2, 3, 9] 3)" by (simp add: cbs_ok_def CBS_init_def)
  have b: "cbs_bytes (CBS_init [1, 2, 3, 9] 3) = [1, 2, 3]"
    by (simp add: cbs_bytes_def CBS_init_def)
  show ?thesis
    using ok cbs_get_u_big_endian [OF ok, of 2] unfolding b
    by (simp split: prod.splits option.splits)
qed

section \<open>The element getter stays inside the span and returns\<close>

lemma header_definite_bounds:
  "cbs_asn1_header c depth = Definite tag hl n \<Longrightarrow> 2 \<le> hl \<and> hl \<le> n"
proof -
  have small: "unat (l :: u32) + 2 + k < size_bound" if "k \<le> 4" for l k
    using that unsigned_less [of l, where ?'a = nat] by simp
  assume "cbs_asn1_header c depth = Definite tag hl n"
  then show ?thesis
    using small
    by (auto simp: cbs_asn1_header_def cbs_simps Let_def split: if_splits)
qed

lemma asn1_advances:
  shows "cbs_get_asn1_element fuel c depth = Some (r, c') \<Longrightarrow>
      \<exists>n \<le> cbs_len c. c' = cbs_adv c n \<and>
        (case r of None \<Rightarrow> True
         | Some (out, tag, hl, indef) \<Rightarrow>
             \<exists>m \<le> n. out = CBS_init (cbs_data c) m \<and> 2 \<le> hl \<and> hl \<le> m)"
    and "cbs_get_asn1_indefinite_scan fuel c depth = Some (b, c') \<Longrightarrow>
      \<exists>n \<le> cbs_len c. c' = cbs_adv c n \<and> (b \<longrightarrow> 2 \<le> n)"
proof (induction fuel c depth and fuel c depth arbitrary: r c' and b c'
    rule: cbs_get_asn1_element_cbs_get_asn1_indefinite_scan.induct)
  case (2 fuel c depth)
  show ?case
  proof (cases "cbs_asn1_header c depth")
    case BadHeader
    with "2.prems" show ?thesis by (auto simp: cbs_simps intro!: exI [of _ 0])
  next
    case (Definite tag hl n)
    show ?thesis
    proof (cases "n \<le> cbs_len c")
      case True
      with Definite "2.prems" header_definite_bounds [OF Definite] show ?thesis
        by (auto simp: cbs_simps intro!: exI [of _ n])
    next
      case False
      with Definite "2.prems" show ?thesis by (auto simp: cbs_simps intro!: exI [of _ 0])
    qed
  next
    case (Indefinite tag)
    show ?thesis
    proof (cases "2 \<le> cbs_len c")
      case False
      with "2.prems" Indefinite show ?thesis by (auto simp: cbs_simps intro!: exI [of _ 0])
    next
      case True
      then have skip: "CBS_skip c 2 = (True, cbs_adv c 2)" by (simp add: cbs_simps)
      from "2.prems" Indefinite skip obtain b in2
        where sc: "cbs_get_asn1_indefinite_scan fuel (cbs_adv c 2) depth = Some (b, in2)"
        by (auto split: option.splits)
      obtain n where n: "n \<le> cbs_len c - 2" "in2 = cbs_adv c (2 + n)" "b \<longrightarrow> 2 \<le> n"
        using "2.IH" [OF Indefinite _ _ sc] skip by (auto simp: cbs_simps)
      have e: "cbs_len c - (cbs_len c - (2 + n)) - 2 = n" using n(1) True by linarith
      show ?thesis
      proof (cases b)
        case False
        with "2.prems" Indefinite skip sc n True show ?thesis
          by (auto intro!: exI [of _ "2 + n"])
      next
        case b: True
        have len2: "CBS_len c - CBS_len in2 - 2 = n" using e n(2) by (simp add: CBS_len_def cbs_simps)
        have gb: "CBS_get_bytes c (CBS_len c - CBS_len in2 - 2)
            = (Some (CBS_init (cbs_data c) n), cbs_adv c n)"
          unfolding len2 using n(1) True by (simp add: CBS_get_bytes_eq)
        have r: "r = Some (CBS_init (cbs_data c) n, tag, 2, True)" and c': "c' = cbs_adv c (2 + n)"
          using "2.prems" Indefinite skip sc b gb unfolding n(2) [symmetric] by simp_all
        have "2 + n \<le> cbs_len c" using n(1) True by linarith
        moreover have "\<exists>m \<le> 2 + n. CBS_init (cbs_data c) n = CBS_init (cbs_data c) m \<and> (2 :: nat) \<le> 2 \<and> 2 \<le> m"
          using n(3) b by (intro exI [of _ n]) simp
        ultimately show ?thesis using c' r by (intro exI [of _ "2 + n"]) simp
      qed
    qed
  qed
next
  case (4 fuel in1 depth)
  from "4.prems" obtain r in2
    where el: "cbs_get_asn1_element fuel in1 (depth + 1) = Some (r, in2)"
    by (auto split: option.splits)
  obtain n where n: "n \<le> cbs_len in1" "in2 = cbs_adv in1 n"
    and r: "case r of None \<Rightarrow> True
         | Some (out, tag, hl, indef) \<Rightarrow> \<exists>m \<le> n. out = CBS_init (cbs_data in1) m \<and> 2 \<le> hl \<and> hl \<le> m"
    using "4.IH"(1) [OF el] by auto
  show ?case
  proof (cases r)
    case None
    with "4.prems" el n show ?thesis by (auto intro!: exI [of _ n])
  next
    case (Some e)
    obtain child tag hl indef where e: "e = (child, tag, hl, indef)" by (cases e) auto
    have n2: "2 \<le> n" using r Some e by auto
    show ?thesis
    proof (cases "\<not> indef \<and> CBS_len child = 2 \<and> hl = 2 \<and> tag = 0")
      case True
      with "4.prems" el Some e n n2 show ?thesis by (auto intro!: exI [of _ n])
    next
      case False
      with "4.prems" el Some e have sc: "cbs_get_asn1_indefinite_scan fuel in2 depth = Some (b, c')"
        by auto
      obtain k where "k \<le> cbs_len in2" "c' = cbs_adv in2 k"
        using "4.IH"(2) [OF el [unfolded Some e] refl refl refl refl refl False sc] by auto
      with n n2 show ?thesis by (auto simp: cbs_simps intro!: exI [of _ "n + k"])
    qed
  qed
qed auto

lemma asn1_enough_fuel:
  shows "cbs_len c < fuel \<Longrightarrow> cbs_get_asn1_element fuel c depth \<noteq> None"
    and "cbs_len c + 1 < fuel \<Longrightarrow> cbs_get_asn1_indefinite_scan fuel c depth \<noteq> None"
proof (induction fuel c depth and fuel c depth
    rule: cbs_get_asn1_element_cbs_get_asn1_indefinite_scan.induct)
  case (2 fuel c depth)
  show ?case
  proof (cases "cbs_asn1_header c depth")
    case (Indefinite tag)
    show ?thesis
    proof (cases "2 \<le> cbs_len c")
      case True
      then have skip: "CBS_skip c 2 = (True, cbs_adv c 2)" by (simp add: cbs_simps)
      have "cbs_get_asn1_indefinite_scan fuel (cbs_adv c 2) depth \<noteq> None"
        using "2.IH" [OF Indefinite] skip "2.prems" True by (simp add: cbs_simps)
      with Indefinite skip show ?thesis by (auto simp: CBS_get_bytes_eq split: option.splits bool.splits)
    qed (use Indefinite in \<open>simp add: cbs_simps\<close>)
  qed (auto split: option.splits prod.splits)
next
  case (4 fuel in1 depth)
  obtain r in2 where el: "cbs_get_asn1_element fuel in1 (depth + 1) = Some (r, in2)"
    using "4.IH"(1) "4.prems" by fastforce
  show ?case
  proof (cases r)
    case None
    with el show ?thesis by simp
  next
    case (Some e)
    obtain child tag hl indef where e: "e = (child, tag, hl, indef)" by (cases e) auto
    obtain n where "n \<le> cbs_len in1" "in2 = cbs_adv in1 n" "2 \<le> n"
      using asn1_advances(1) [OF el] Some e by fastforce
    then have "cbs_len in2 + 1 < fuel" using "4.prems" by (simp add: cbs_simps)
    then show ?thesis
      using "4.IH"(2) [OF el _ _ _ _] el Some e by (auto split: if_splits)
  qed
qed auto

text \<open>
  C39: the ASN.1 getters (DER or BER, with or without the header) return on every input, however
  deeply its indefinite-length elements nest; the CBS only moves forward, by at most its own
  length; and the span handed out lies inside the bytes it moved over.
\<close>
theorem cbs_get_asn1_total_and_inside:
  shows "\<exists>r n. cbs_get_asn1 c tag_value ber skip_header = Some (r, cbs_adv c n) \<and> n \<le> cbs_len c \<and>
     (case r of None \<Rightarrow> True
      | Some out \<Rightarrow> \<exists>k m. out = CBS_init (drop k (cbs_data c)) m \<and> k + m \<le> n)"
proof -
  let ?d = "if ber then 0 else MAX_DEPTH"
  obtain r c' where el: "cbs_get_asn1_element (asn1_fuel c) c ?d = Some (r, c')"
    using asn1_enough_fuel(1) [of c "asn1_fuel c" ?d] by (fastforce simp: asn1_fuel_def)
  obtain n where n: "n \<le> cbs_len c" "c' = cbs_adv c n"
    and r: "case r of None \<Rightarrow> True
         | Some (out, tag, hl, indef) \<Rightarrow> \<exists>m \<le> n. out = CBS_init (cbs_data c) m \<and> 2 \<le> hl \<and> hl \<le> m"
    using asn1_advances(1) [OF el] by auto
  show ?thesis
  proof (cases r)
    case None
    with el n show ?thesis by (auto simp: cbs_get_asn1_def)
  next
    case (Some e)
    then obtain out tag hl indef m where e: "e = (out, tag, hl, indef)" "m \<le> n"
      "out = CBS_init (cbs_data c) m" "2 \<le> hl" "hl \<le> m" using r by (cases e) auto
    consider (tag) "ucast tag \<noteq> tag_value" | (skip) "ucast tag = tag_value" skip_header
      | (keep) "ucast tag = tag_value" "\<not> skip_header" by blast
    then show ?thesis
    proof cases
      case tag
      with el n Some e show ?thesis by (auto simp: cbs_get_asn1_def)
    next
      case skip
      let ?o = "CBS_init (drop hl (cbs_data c)) (m - hl)"
      have "CBS_skip out hl = (True, ?o)"
        using e by (simp add: cbs_simps CBS_init_def cbs_adv_def)
      with skip el n Some e have "cbs_get_asn1 c tag_value ber skip_header = Some (Some ?o, cbs_adv c n)"
        by (simp add: cbs_get_asn1_def)
      moreover have "hl + (m - hl) \<le> n" using e by simp
      ultimately show ?thesis using n(1) by (intro exI [of _ "Some ?o"] exI [of _ n]) auto
    next
      case keep
      with el n Some e have "cbs_get_asn1 c tag_value ber skip_header = Some (Some out, cbs_adv c n)"
        by (simp add: cbs_get_asn1_def)
      moreover have "\<exists>k m. out = CBS_init (drop k (cbs_data c)) m \<and> k + m \<le> n"
        using e by (intro exI [of _ 0] exI [of _ m]) simp
      ultimately show ?thesis using n(1) by (intro exI [of _ "Some out"] exI [of _ n]) simp
    qed
  qed
qed

section \<open>DER\<close>

text \<open>The minimal length octets of DER, for lengths below 2^32.\<close>

definition len_octets :: "nat \<Rightarrow> nat" where
  "len_octets n = (if n < 256 then 1 else if n < 65536 then 2 else if n < 16777216 then 3 else 4)"

definition der_length :: "nat \<Rightarrow> bytes" where
  "der_length n = (if n < 128 then [word_of_nat n]
                   else word_of_nat (128 + len_octets n) # be_bytes (len_octets n) n)"

lemma len_octets_bounds: "1 \<le> len_octets n \<and> len_octets n \<le> 4"
  by (simp add: len_octets_def)

lemma len_octets_iff:
  assumes "n < 4294967296" "1 \<le> k" "k \<le> 4"
  shows "len_octets n = k \<longleftrightarrow> n < 256 ^ k \<and> (k = 1 \<or> 256 ^ (k - 1) \<le> n)"
proof -
  have "k = 1 \<or> k = 2 \<or> k = 3 \<or> k = 4" using assms by linarith
  then show ?thesis using assms by (auto simp: len_octets_def)
qed


lemma drop_bit_eq_0_iff: "drop_bit k (w :: 'a::len word) = 0 \<longleftrightarrow> unat w < 2 ^ k"
proof -
  have "drop_bit k w = 0 \<longleftrightarrow> unat (drop_bit k w) = 0" by (rule unat_eq_0 [symmetric])
  also have "unat (drop_bit k w) = drop_bit k (unat w)" by (rule unat_drop_bit_eq)
  also have "\<dots> = unat w div 2 ^ k" by (rule drop_bit_eq_div)
  finally show ?thesis by (simp add: div_eq_0_iff)
qed

lemma word_of_be_nat:
  assumes "length bs \<le> 4" shows "unat (word_of_nat (be_nat bs) :: u32) = be_nat bs"
proof -
  have "be_nat bs < 256 ^ length bs" by (rule be_nat_bound)
  also have "\<dots> \<le> 256 ^ 4" using assms by (intro power_increasing) auto
  finally show ?thesis by (simp add: unat_of_nat)
qed

text \<open>The header over the bytes of the span, with the word operations read as arithmetic.\<close>

fun header_of_bytes :: "bytes \<Rightarrow> nat \<Rightarrow> asn1_header" where
  "header_of_bytes (t # lb # r) depth =
     (if t AND 31 = 31 then BadHeader
      else if unat lb < 128 then Definite t 2 (unat lb + 2)
      else
        let k = unat lb - 128 in
        if t AND 32 \<noteq> 0 \<and> depth < MAX_DEPTH \<and> k = 0 then Indefinite t
        else if k = 0 \<or> k > 4 \<or> length r < k then BadHeader
        else
          let v = be_nat (take k r) in
          if v < 128 \<or> v < 256 ^ (k - 1) then BadHeader else Definite t (2 + k) (v + 2 + k))"
| "header_of_bytes _ depth = BadHeader"

lemma header_two_bytes:
  assumes "cbs_ok c" "cbs_bytes c = t # lb # r"
  shows "CBS_get_u8 c = (Some t, cbs_adv c 1)"
    and "CBS_get_u8 (cbs_adv c 1) = (Some lb, cbs_adv c 2)"
    and "cbs_get_u (cbs_adv c 2) k =
      (if k \<le> length r then (Some (word_of_nat (be_nat (take k r))), cbs_adv c (2 + k))
       else (None, cbs_adv c 2))"
proof -
  have l: "cbs_len c = 2 + length r" using assms length_cbs_bytes [of c] by simp
  have h: "hd (cbs_data c) = t" using hd_cbs_data [OF assms(1)] l assms(2) by simp
  show "CBS_get_u8 c = (Some t, cbs_adv c 1)" using l h by (simp add: cbs_simps)
  have "hd (cbs_data (cbs_adv c 1)) = lb"
    using hd_cbs_data [of "cbs_adv c 1"] assms l by (simp add: cbs_simps)
  then show "CBS_get_u8 (cbs_adv c 1) = (Some lb, cbs_adv c 2)"
    using l by (simp add: cbs_simps numeral_2_eq_2)
  have "take k (cbs_data (cbs_adv c 2)) = take k r" if "k \<le> length r"
    using that take_cbs_data [of k "cbs_adv c 2"] l assms(2) by (simp add: cbs_simps)
  then show "cbs_get_u (cbs_adv c 2) k =
      (if k \<le> length r then (Some (word_of_nat (be_nat (take k r))), cbs_adv c (2 + k))
       else (None, cbs_adv c 2))"
    using l by (simp add: cbs_simps)
qed

lemmas header_unfold = cbs_asn1_header_def header_of_bytes.simps prod.case option.case if_True if_False
  simp_thms u8_and_128

lemma header_eq:
  assumes "cbs_ok c"
  shows "cbs_asn1_header c depth = header_of_bytes (cbs_bytes c) depth"
proof -
  consider (short) "length (cbs_bytes c) < 2" | (two) t lb r where "cbs_bytes c = t # lb # r"
    by (cases "(cbs_bytes c, depth)" rule: header_of_bytes.cases) auto
  then show ?thesis
  proof cases
    case short
    then have "header_of_bytes (cbs_bytes c) depth = BadHeader"
      by (cases "(cbs_bytes c, depth)" rule: header_of_bytes.cases) auto
    moreover have "cbs_len c = 0 \<or> cbs_len c = 1" using short length_cbs_bytes [OF assms] by linarith
    ultimately show ?thesis by (auto simp: cbs_asn1_header_def cbs_simps)
  next
    case (two t lb r)
    note g = header_two_bytes [OF assms two]
    show ?thesis
    proof (cases "t AND 31 = 31 \<or> unat lb < 128")
      case True
      then show ?thesis using g(1,2)
        by (cases "t AND 31 = 31") (simp_all only: two header_unfold)
    next
      case False
      then have t: "t AND 31 \<noteq> 31" and big: "\<not> unat lb < 128" by auto
      let ?k = "unat lb - 128" let ?v = "be_nat (take ?k r)"
      have k: "unat (lb AND 127) = ?k"
      proof -
        have "unat lb = 128 + ?k" "?k < 128" using unat_u8_less [of lb] big by linarith+
        then show ?thesis unfolding u8_and_127 by (metis mod_add_self1 mod_less)
      qed
      have v: "unat (word_of_nat ?v :: u32) = ?v" if "?k \<le> 4" using that by (intro word_of_be_nat) simp
      have "?v < 4294967296" if "?k \<le> 4"
        using v [OF that] unsigned_less [of "word_of_nat ?v :: u32", where ?'a = nat] by simp
      then have ovf: "(?v + 2 + ?k) mod size_bound = ?v + 2 + ?k" if "?k \<le> 4" using that by simp
      have sh: "drop_bit ((?k - 1) * 8) (word_of_nat ?v :: u32) = 0 \<longleftrightarrow> ?v < 256 ^ (?k - 1)"
        if "?k \<le> 4"
        using v [OF that] by (simp only: drop_bit_eq_0_iff mult.commute [of _ 8] power_mult) simp
      have lt: "(word_of_nat ?v :: u32) < 128 \<longleftrightarrow> ?v < 128" if "?k \<le> 4"
        using v [OF that] by (simp only: word_less_nat_alt) simp
      consider (indef) "t AND 32 \<noteq> 0 \<and> depth < MAX_DEPTH \<and> ?k = 0"
        | (bad) "\<not> (t AND 32 \<noteq> 0 \<and> depth < MAX_DEPTH \<and> ?k = 0)" "?k = 0 \<or> ?k > 4 \<or> length r < ?k"
        | (good) "\<not> (t AND 32 \<noteq> 0 \<and> depth < MAX_DEPTH \<and> ?k = 0)" "?k \<noteq> 0" "?k \<le> 4" "?k \<le> length r"
        by linarith
      then show ?thesis
      proof cases
        case indef
        with g(1,2) t big k show ?thesis by (simp only: two header_unfold Let_def)
      next
        case bad
        with g t big k show ?thesis
          by (simp only: two header_unfold Let_def not_le [symmetric] split: if_split) auto
      next
        case good
        then have "\<not> (?k = 0 \<or> 4 < ?k \<or> length r < ?k)" "\<not> (?k = 0 \<or> 4 < ?k)" by linarith+
        moreover have "\<not> ?v + 2 + ?k < ?v" by simp
        ultimately show ?thesis
          using g t big k good v [OF good(3)] ovf [OF good(3)] sh [OF good(3)] lt [OF good(3)]
          by (simp only: two header_unfold Let_def split: if_split) simp
      qed
    qed
  qed
qed

text \<open>A definite header is the DER form of its length: minimal octets, nothing else.\<close>

lemma der_length_head:
  assumes "n < 4294967296" "\<not> n < 128"
  shows "unat (word_of_nat (128 + len_octets n) :: u8) = 128 + len_octets n"
  using len_octets_bounds [of n] by (simp only: unat_word_of_nat_u8) simp

lemma header_of_der:
  assumes "t AND 31 \<noteq> 31" "n < 4294967296"
  shows "header_of_bytes (t # der_length n @ tail) depth
      = Definite t (1 + length (der_length n)) (1 + length (der_length n) + n)"
proof (cases "n < 128")
  case True
  then have "unat (word_of_nat n :: u8) = n" by (simp add: unat_of_nat)
  with True assms(1) show ?thesis by (simp add: der_length_def)
next
  case False
  let ?k = "len_octets n"
  have k: "1 \<le> ?k" "?k \<le> 4" using len_octets_bounds by auto
  have b: "n < 256 ^ ?k" "?k = 1 \<or> 256 ^ (?k - 1) \<le> n"
    using len_octets_iff [OF assms(2) k] by auto
  have "\<not> n < 256 ^ (?k - 1)" using b(2) False by auto
  then show ?thesis
    using der_length_head [OF assms(2) False] False k assms(1) be_nat_be_bytes_small [OF b(1)]
    by (simp add: der_length_def Let_def)
qed

lemma header_is_der:
  assumes "header_of_bytes bs depth = Definite t hl tot"
  shows "\<exists>n tail. bs = t # der_length n @ tail \<and> n < 4294967296 \<and> t AND 31 \<noteq> 31 \<and>
    hl = 1 + length (der_length n) \<and> tot = hl + n"
proof -
  from assms obtain lb r where bs: "bs = t # lb # r" and t: "t AND 31 \<noteq> 31"
    by (cases "(bs, depth)" rule: header_of_bytes.cases) (auto simp: Let_def split: if_splits)
  show ?thesis
  proof (cases "unat lb < 128")
    case True
    then have "der_length (unat lb) = [lb]" by (simp add: der_length_def)
    with assms bs t True show ?thesis
      by (intro exI [of _ "unat lb"] exI [of _ r]) simp
  next
    case False
    let ?k = "unat lb - 128" let ?v = "be_nat (take ?k r)"
    from assms bs t False have k: "1 \<le> ?k" "?k \<le> 4" "?k \<le> length r"
      and v: "\<not> ?v < 128" "256 ^ (?k - 1) \<le> ?v" and hl: "hl = 2 + ?k" "tot = ?v + 2 + ?k"
      by (auto simp: Let_def split: if_splits)
    have len: "length (take ?k r) = ?k" using k(3) by simp
    have vb: "?v < 256 ^ ?k" using be_nat_bound [of "take ?k r"] len by simp
    also have "\<dots> \<le> 256 ^ 4" using k(2) by (intro power_increasing) auto
    finally have small: "?v < 4294967296" by simp
    have "len_octets ?v = ?k" using len_octets_iff [OF small k(1,2)] vb v by simp
    moreover have "word_of_nat (128 + ?k) = lb" using False by simp
    moreover have "be_bytes ?k ?v = take ?k r" using be_bytes_be_nat [of "take ?k r"] len by simp
    ultimately have "der_length ?v = lb # take ?k r" using v(1) by (simp add: der_length_def)
    with bs t hl small len show ?thesis
      by (intro exI [of _ ?v] exI [of _ "drop ?k r"]) simp
  qed
qed

lemma no_indefinite_at_max_depth: "header_of_bytes bs MAX_DEPTH \<noteq> Indefinite t"
  by (cases "(bs, MAX_DEPTH)" rule: header_of_bytes.cases) (auto simp: Let_def)

text \<open>An element whose header is definite needs one unit of fuel.\<close>

lemma element_definite:
  assumes "cbs_ok c" "header_of_bytes (cbs_bytes c) depth = Definite t hl n" "0 < fuel"
  shows "cbs_get_asn1_element fuel c depth =
     (if n \<le> cbs_len c then Some (Some (CBS_init (cbs_data c) n, t, hl, False), cbs_adv c n)
      else Some (None, c))"
  using assms header_eq [OF assms(1), of depth] by (cases fuel) (simp_all add: cbs_simps)

text \<open>A DER element at the front of the span is read and skipped.\<close>

lemma CBS_get_asn1_of_der:
  assumes "cbs_ok c" and a: "cbs_bytes c = t # der_length (length content) @ content @ rest"
    "t AND 31 \<noteq> 31" "length content < 4294967296"
  shows "\<exists>out c'. CBS_get_asn1 c (ucast t) = Some (Some out, c') \<and>
            cbs_bytes out = content \<and> cbs_bytes c' = rest"
proof -
  let ?h = "1 + length (der_length (length content))" let ?n = "?h + length content"
  have h: "header_of_bytes (cbs_bytes c) MAX_DEPTH = Definite t ?h ?n"
    using a header_of_der [of t "length content" "content @ rest"] by simp
  have n: "?n \<le> cbs_len c" using a length_cbs_bytes [OF assms(1)] by simp
  have "cbs_get_asn1_element (asn1_fuel c) c MAX_DEPTH =
      Some (Some (CBS_init (cbs_data c) ?n, t, ?h, False), cbs_adv c ?n)"
    using element_definite [OF assms(1) h] n by (simp add: asn1_fuel_def)
  then have "CBS_get_asn1 c (ucast t)
      = Some (Some (cbs_adv (CBS_init (cbs_data c) ?n) ?h), cbs_adv c ?n)"
    by (simp add: CBS_get_asn1_def cbs_get_asn1_def cbs_simps CBS_init_def)
  moreover have "cbs_bytes (CBS_init (cbs_data c) ?n) = take ?n (cbs_bytes c)"
    using n by (simp add: cbs_bytes_def CBS_init_def min_def)
  ultimately show "\<exists>out c'. CBS_get_asn1 c (ucast t) = Some (Some out, c') \<and>
            cbs_bytes out = content \<and> cbs_bytes c' = rest"
    using a by (simp add: cbs_simps)
qed

text \<open>
  C2: CBS_get_asn1 accepts exactly DER. It succeeds with contents \<open>content\<close> and leaves
  \<open>rest\<close> if and only if the CBS covers the tag byte, the minimal length octets of the
  contents' length (below 2^32), the contents and the rest, in that order, and the tag is not a
  long-form one; so every accepted element has one encoding.
\<close>
theorem CBS_get_asn1_iff_der:
  assumes "cbs_ok c"
  shows "(\<exists>out c'. CBS_get_asn1 c (ucast t) = Some (Some out, c') \<and>
            cbs_bytes out = content \<and> cbs_bytes c' = rest) \<longleftrightarrow>
     cbs_bytes c = t # der_length (length content) @ content @ rest \<and>
     t AND 31 \<noteq> 31 \<and> length content < 4294967296"
proof
  assume "\<exists>out c'. CBS_get_asn1 c (ucast t) = Some (Some out, c') \<and>
            cbs_bytes out = content \<and> cbs_bytes c' = rest"
  then obtain out c' where get: "CBS_get_asn1 c (ucast t) = Some (Some out, c')"
    and out: "cbs_bytes out = content" "cbs_bytes c' = rest" by blast
  obtain t' hl n where h: "header_of_bytes (cbs_bytes c) MAX_DEPTH = Definite t' hl n"
    using get header_eq [OF assms, of MAX_DEPTH] no_indefinite_at_max_depth
    by (cases "header_of_bytes (cbs_bytes c) MAX_DEPTH")
      (auto simp: CBS_get_asn1_def cbs_get_asn1_def asn1_fuel_def numeral_3_eq_3)
  obtain m tail where b: "cbs_bytes c = t' # der_length m @ tail" "m < 4294967296"
    "t' AND 31 \<noteq> 31" "hl = 1 + length (der_length m)" "n = hl + m"
    using header_is_der [OF h] by blast
  have el: "cbs_get_asn1_element (asn1_fuel c) c MAX_DEPTH =
     (if n \<le> cbs_len c then Some (Some (CBS_init (cbs_data c) n, t', hl, False), cbs_adv c n)
      else Some (None, c))"
    by (rule element_definite [OF assms h]) (simp add: asn1_fuel_def)
  have g: "n \<le> cbs_len c" "t' = t" "out = cbs_adv (CBS_init (cbs_data c) n) hl" "c' = cbs_adv c n"
    using get el b(4,5)
    by (auto simp: CBS_get_asn1_def cbs_get_asn1_def cbs_simps CBS_init_def ucast_u8_u32_inj
        split: if_splits)
  have "cbs_bytes (CBS_init (cbs_data c) n) = take n (cbs_bytes c)"
    using g(1) by (simp add: cbs_bytes_def CBS_init_def min_def)
  then have "content = take m tail" "rest = drop m tail"
    using out g b by (simp_all add: cbs_simps)
  moreover have "m \<le> length tail" using g(1) b length_cbs_bytes [OF assms] by simp
  ultimately show "cbs_bytes c = t # der_length (length content) @ content @ rest \<and>
     t AND 31 \<noteq> 31 \<and> length content < 4294967296"
    using b g(2) by simp
next
  assume "cbs_bytes c = t # der_length (length content) @ content @ rest \<and>
     t AND 31 \<noteq> 31 \<and> length content < 4294967296"
  then show "\<exists>out c'. CBS_get_asn1 c (ucast t) = Some (Some out, c') \<and>
            cbs_bytes out = content \<and> cbs_bytes c' = rest"
    using CBS_get_asn1_of_der [OF assms] by simp
qed

theorem CBS_get_asn1_iff_der_witness:
  "cbs_ok (CBS_init [4, 2, 7, 8, 9] 5) \<and>
   (\<exists>out c'. CBS_get_asn1 (CBS_init [4, 2, 7, 8, 9] 5) (ucast (4 :: u8)) = Some (Some out, c') \<and>
       cbs_bytes out = [7, 8] \<and> cbs_bytes c' = [9])"
proof -
  have ok: "cbs_ok (CBS_init [4, 2, 7, 8, 9] 5)" by (simp add: cbs_ok_def CBS_init_def)
  have b: "cbs_bytes (CBS_init [4, 2, 7, 8, 9] 5) = 4 # der_length (length [7, 8 :: u8]) @ [7, 8] @ [9]"
    by (simp add: cbs_bytes_def CBS_init_def der_length_def)
  show ?thesis using CBS_get_asn1_iff_der [OF ok, of 4 "[7, 8]" "[9]"] ok b by simp
qed

section \<open>BER\<close>

text \<open>
  The elements CBS_get_asn1_ber walks over: a definite-length element, whose contents it does not
  look into, and an indefinite-length one with its children.
\<close>

datatype ber = BDef u8 bytes | BIndef u8 "ber list"








lemma cbs_data_adv: "cbs_data (cbs_adv c n) = drop n (cbs_data c)"
  by (simp add: cbs_adv_def)





section \<open>Length-prefixed spans\<close>

lemma cbs_get_length_prefixed_of_prefix:
  assumes "cbs_ok c" "k \<le> 3" "length d < 256 ^ k"
    and "cbs_bytes c = be_bytes k (length d) @ d @ rest"
  shows "\<exists>out c'. cbs_get_length_prefixed c k = (Some out, c') \<and> cbs_ok out \<and> cbs_ok c' \<and>
    cbs_bytes out = d \<and> cbs_bytes c' = rest"
proof -
  have l: "cbs_len c = k + length d + length rest"
    using length_cbs_bytes [OF assms(1)] assms(4) by simp
  have v: "unat (word_of_nat (be_nat (take k (cbs_bytes c))) :: u32) = length d"
    using word_of_be_nat [of "be_bytes k (length d)"] assms(2-4) be_nat_be_bytes_small [OF assms(3)]
    by simp
  let ?o = "CBS_init (cbs_data (cbs_adv c k)) (length d)"
  have g: "cbs_get_length_prefixed c k = (Some ?o, cbs_adv c (k + length d))"
    using l v by (simp add: cbs_get_length_prefixed_def cbs_simps take_cbs_data)
  have le: "length d \<le> length (cbs_data (cbs_adv c k))"
    using l assms(1) by (simp add: cbs_ok_def cbs_adv_def)
  have "take (length d) (cbs_data (cbs_adv c k)) = take (length d) (cbs_bytes (cbs_adv c k))"
    using l by (intro take_cbs_data) (simp add: cbs_simps)
  with cbs_bytes_init [OF le] g assms(1,4) show ?thesis by (simp add: cbs_simps)
qed

end
