(* ===== verification/Cbb.thy ===== *)
theory Cbb
  imports Cbs
begin

text \<open>
  The byte-string builder of crypto/bytestring/cbb.c.  All \<^verbatim>\<open>CBB\<close> objects that write to one
  buffer form a chain of \<^verbatim>\<open>child\<close> pointers from the top-level object down, so the state is the
  buffer and the list of the chain's objects; a \<^verbatim>\<open>CBB *\<close> is the position in that list, and an
  object whose \<^verbatim>\<open>base\<close> has been cleared is a position past its end.  The theory relates the
  builder to an abstract one that keeps the contents written to each open object, proves every
  operation a step of it, and proves that what the builder finishes the reader of \<open>Cbs\<close>
  takes apart again.
\<close>

section \<open>State\<close>

(* src: include/openssl/bytestring.h@170-176 struct cbb_buffer_st *)
record cbb_buffer =
  cb_buf :: bytes
  cb_len :: nat
  cb_cap :: nat
  cb_can_resize :: bool

(* src: include/openssl/bytestring.h@178-192 struct cbb_st *)
record cbb =
  cb_offset :: nat
  cb_pending_len_len :: nat
  cb_pending_is_asn1 :: bool
  cb_is_top_level :: bool

record cbb_state =
  cb_base :: cbb_buffer
  cb_chain :: "cbb list"

definition cbb_zero :: cbb where
  "cbb_zero = \<lparr>cb_offset = 0, cb_pending_len_len = 0, cb_pending_is_asn1 = False,
               cb_is_top_level = False\<rparr>"

section \<open>Initialisation\<close>

text \<open>The result pairs the state (\<open>None\<close> on failure) with whether the buffer passed in was freed.\<close>

(* src: crypto/bytestring/cbb.c cbb_init *)
definition cbb_init :: "bool \<Rightarrow> bytes \<Rightarrow> nat \<Rightarrow> cbb_state option \<times> bool" where
  "cbb_init malloc_ok buf cap =
     (if \<not> malloc_ok then (None, True)
      else (Some \<lparr>cb_base = \<lparr>cb_buf = buf, cb_len = 0, cb_cap = cap, cb_can_resize = True\<rparr>,
                  cb_chain = [cbb_zero\<lparr>cb_is_top_level := True\<rparr>]\<rparr>, False))"

(* src: crypto/bytestring/cbb.c CBB_init *)
definition CBB_init :: "allocator \<Rightarrow> bool \<Rightarrow> nat \<Rightarrow> cbb_state option" where
  "CBB_init alloc malloc_ok initial_capacity =
     (case alloc initial_capacity of
        None \<Rightarrow> (if initial_capacity > 0 then None else fst (cbb_init malloc_ok [] initial_capacity))
      | Some buf \<Rightarrow> fst (cbb_init malloc_ok buf initial_capacity))"

(* src: crypto/bytestring/cbb.c CBB_init_fixed *)
definition CBB_init_fixed :: "bool \<Rightarrow> bytes \<Rightarrow> nat \<Rightarrow> cbb_state option \<times> bool" where
  "CBB_init_fixed malloc_ok buf n =
     (case cbb_init malloc_ok buf n of
        (None, freed) \<Rightarrow> (None, freed)
      | (Some st, freed) \<Rightarrow> (Some (st\<lparr>cb_base := (cb_base st)\<lparr>cb_can_resize := False\<rparr>\<rparr>), freed))"

(* src: crypto/bytestring/cbb.c CBB_cleanup *)
definition CBB_cleanup :: "cbb_state \<Rightarrow> cbb_state" where
  "CBB_cleanup st = st\<lparr>cb_chain := []\<rparr>"

section \<open>The buffer\<close>

text \<open>The position of the new bytes, or \<open>None\<close> for a zero return.\<close>

(* src: crypto/bytestring/cbb.c cbb_buffer_add *)
definition cbb_buffer_add :: "allocator \<Rightarrow> cbb_buffer \<Rightarrow> nat \<Rightarrow> nat option \<times> cbb_buffer" where
  "cbb_buffer_add alloc base n =
     (let newlen = (cb_len base + n) mod size_bound in
      if newlen < cb_len base then (None, base)
      else if newlen > cb_cap base then
        (if \<not> cb_can_resize base then (None, base)
         else
           let newcap = (cb_cap base * 2) mod size_bound;
               newcap = (if newcap < cb_cap base \<or> newcap < newlen then newlen else newcap) in
           (case c_realloc alloc (cb_buf base) newcap of
              None \<Rightarrow> (None, base)
            | Some newbuf \<Rightarrow>
                (Some (cb_len base), base\<lparr>cb_buf := newbuf, cb_cap := newcap, cb_len := newlen\<rparr>)))
      else (Some (cb_len base), base\<lparr>cb_len := newlen\<rparr>))"

text \<open>
  The loop that stores a number below an index, least significant byte last.  Like every store of the
  model, one past the end of the block lengthens the list, so the length of the list tells.
\<close>

(* src: crypto/bytestring/cbb.c cbb_buffer_add_u *)
fun cbb_store_be :: "bytes \<Rightarrow> nat \<Rightarrow> nat \<Rightarrow> nat \<Rightarrow> bytes \<times> nat" where
  "cbb_store_be buf off 0 v = (buf, v)"
| "cbb_store_be buf off (Suc i) v = cbb_store_be (mem_write buf (off + i) [word_of_nat v]) off i (v div 256)"

(* src: crypto/bytestring/cbb.c cbb_buffer_add_u *)
definition cbb_buffer_add_u :: "allocator \<Rightarrow> cbb_buffer \<Rightarrow> u32 \<Rightarrow> nat \<Rightarrow> bool \<times> cbb_buffer" where
  "cbb_buffer_add_u alloc base v len_len =
     (if len_len = 0 then (True, base)
      else case cbb_buffer_add alloc base len_len of
          (None, b) \<Rightarrow> (False, b)
        | (Some p, b) \<Rightarrow> (True, b\<lparr>cb_buf := fst (cbb_store_be (cb_buf b) p len_len (unat v))\<rparr>))"

section \<open>Flushing pending length prefixes\<close>

text \<open>The number of length octets and the first of them, for an ASN.1 length; \<open>None\<close> if too large.\<close>

(* src: crypto/bytestring/cbb.c@182-209 CBB_flush *)
definition asn1_len_len :: "nat \<Rightarrow> (nat \<times> u8) option" where
  "asn1_len_len n =
     (if n > 0xfffffffe then None
      else if n > 0xffffff then Some (5, 0x80 OR 4)
      else if n > 0xffff then Some (4, 0x80 OR 3)
      else if n > 0xff then Some (3, 0x80 OR 2)
      else if n > 0x7f then Some (2, 0x80 OR 1)
      else Some (1, word_of_nat n))"

text \<open>Writing out one object's pending prefix, once its child is flushed.\<close>

(* src: crypto/bytestring/cbb.c CBB_flush *)
definition cbb_write_prefix :: "allocator \<Rightarrow> cbb_buffer \<Rightarrow> cbb \<Rightarrow> bool \<times> cbb_buffer \<times> cbb" where
  "cbb_write_prefix alloc base cbb =
     (let child_start = (cb_offset cbb + cb_pending_len_len cbb) mod size_bound in
      if child_start < cb_offset cbb \<or> cb_len base < child_start then (False, base, cbb)
      else
        let len = cb_len base - child_start;
            finish = (\<lambda>base cbb len.
              case cbb_store_be (cb_buf base) (cb_offset cbb) (cb_pending_len_len cbb) len of
                (buf', len') \<Rightarrow>
                  (if len' \<noteq> 0 then (False, base\<lparr>cb_buf := buf'\<rparr>, cbb)
                   else (True, base\<lparr>cb_buf := buf'\<rparr>,
                         cbb\<lparr>cb_pending_len_len := 0, cb_pending_is_asn1 := False, cb_offset := 0\<rparr>)))
        in
        if \<not> cb_pending_is_asn1 cbb then finish base cbb len
        else
          (case asn1_len_len len of
             None \<Rightarrow> (False, base, cbb)
           | Some (len_len, initial_length_byte) \<Rightarrow>
               (let moved =
                  (if len_len \<noteq> 1 then
                     (case cbb_buffer_add alloc base (len_len - 1) of
                        (None, b) \<Rightarrow> (False, b)
                      | (Some _, b) \<Rightarrow>
                          (True, b\<lparr>cb_buf := mem_write (cb_buf b) (child_start + (len_len - 1))
                                                (mem_read (cb_buf b) child_start len)\<rparr>))
                   else (True, base)) in
                case moved of
                  (False, b) \<Rightarrow> (False, b, cbb)
                | (True, b) \<Rightarrow>
                    finish (b\<lparr>cb_buf := mem_write (cb_buf b) (cb_offset cbb) [initial_length_byte]\<rparr>)
                      (cbb\<lparr>cb_offset := cb_offset cbb + 1, cb_pending_len_len := len_len - 1\<rparr>)
                      (if len_len = 1 then 0 else len))))"

(* src: crypto/bytestring/cbb.c CBB_flush *)
fun cbb_flush_chain :: "allocator \<Rightarrow> cbb_buffer \<Rightarrow> cbb list \<Rightarrow> bool \<times> cbb_buffer \<times> cbb list" where
  "cbb_flush_chain alloc base [] = (False, base, [])"
| "cbb_flush_chain alloc base [cbb] = (True, base, [cbb])"
| "cbb_flush_chain alloc base (cbb # child # rest) =
     (if cb_pending_len_len cbb = 0 then (True, base, cbb # child # rest)
      else
        (case cbb_flush_chain alloc base (child # rest) of
           (False, base', chain') \<Rightarrow> (False, base', cbb # chain')
         | (True, base', chain') \<Rightarrow>
             (case cbb_write_prefix alloc base' cbb of
                (False, base2, cbb') \<Rightarrow> (False, base2, cbb' # chain')
              | (True, base2, cbb') \<Rightarrow> (True, base2, [cbb']))))"

(* src: crypto/bytestring/cbb.c CBB_flush *)
definition CBB_flush :: "allocator \<Rightarrow> cbb_state \<Rightarrow> nat \<Rightarrow> bool \<times> cbb_state" where
  "CBB_flush alloc st i =
     (case cbb_flush_chain alloc (cb_base st) (drop i (cb_chain st)) of
        (ok, base', chain') \<Rightarrow>
          (ok, \<lparr>cb_base = base', cb_chain = take i (cb_chain st) @ chain'\<rparr>))"

section \<open>Appending\<close>

text \<open>The finished bytes are the output's first component; \<open>want\<close> says whether both out
  pointers are non-NULL.\<close>

(* src: crypto/bytestring/cbb.c CBB_finish *)
definition CBB_finish :: "allocator \<Rightarrow> cbb_state \<Rightarrow> nat \<Rightarrow> bool \<Rightarrow> bytes option \<times> cbb_state" where
  "CBB_finish alloc st i want =
     (if i < length (cb_chain st) \<and> \<not> cb_is_top_level (cb_chain st ! i) then (None, st)
      else
        (case CBB_flush alloc st i of
           (False, st1) \<Rightarrow> (None, st1)
         | (True, st1) \<Rightarrow>
             (if cb_can_resize (cb_base st1) \<and> \<not> want then (None, st1)
              else (Some (take (cb_len (cb_base st1)) (cb_buf (cb_base st1))), CBB_cleanup st1))))"

text \<open>Open a child of object \<open>i\<close> with a length prefix of \<open>len_len\<close> bytes.\<close>

(* src: crypto/bytestring/cbb.c cbb_add_length_prefixed *)
definition cbb_add_length_prefixed ::
  "allocator \<Rightarrow> cbb_state \<Rightarrow> nat \<Rightarrow> nat \<Rightarrow> bool \<times> cbb_state" where
  "cbb_add_length_prefixed alloc st i len_len =
     (case CBB_flush alloc st i of
        (False, st1) \<Rightarrow> (False, st1)
      | (True, st1) \<Rightarrow>
          (let cbb = (cb_chain st1 ! i)\<lparr>cb_offset := cb_len (cb_base st1)\<rparr> in
           case cbb_buffer_add alloc (cb_base st1) len_len of
             (None, b) \<Rightarrow> (False, \<lparr>cb_base = b, cb_chain = (cb_chain st1)[i := cbb]\<rparr>)
           | (Some p, b) \<Rightarrow>
               (True, \<lparr>cb_base = b\<lparr>cb_buf := mem_write (cb_buf b) p (replicate len_len 0)\<rparr>,
                       cb_chain = (cb_chain st1)[i := cbb\<lparr>cb_pending_len_len := len_len,
                                                          cb_pending_is_asn1 := False\<rparr>] @ [cbb_zero]\<rparr>)))"

(* src: crypto/bytestring/cbb.c CBB_add_u8_length_prefixed *)
definition CBB_add_u8_length_prefixed :: "allocator \<Rightarrow> cbb_state \<Rightarrow> nat \<Rightarrow> bool \<times> cbb_state" where
  "CBB_add_u8_length_prefixed alloc st i = cbb_add_length_prefixed alloc st i 1"

(* src: crypto/bytestring/cbb.c CBB_add_u16_length_prefixed *)
definition CBB_add_u16_length_prefixed :: "allocator \<Rightarrow> cbb_state \<Rightarrow> nat \<Rightarrow> bool \<times> cbb_state" where
  "CBB_add_u16_length_prefixed alloc st i = cbb_add_length_prefixed alloc st i 2"

(* src: crypto/bytestring/cbb.c CBB_add_u24_length_prefixed *)
definition CBB_add_u24_length_prefixed :: "allocator \<Rightarrow> cbb_state \<Rightarrow> nat \<Rightarrow> bool \<times> cbb_state" where
  "CBB_add_u24_length_prefixed alloc st i = cbb_add_length_prefixed alloc st i 3"

text \<open>Flush object \<open>i\<close> and append a big-endian number.\<close>

(* src: crypto/bytestring/cbb.c CBB_add_u8 *)
definition cbb_add_u :: "allocator \<Rightarrow> cbb_state \<Rightarrow> nat \<Rightarrow> u32 \<Rightarrow> nat \<Rightarrow> bool \<times> cbb_state" where
  "cbb_add_u alloc st i v len_len =
     (case CBB_flush alloc st i of
        (False, st1) \<Rightarrow> (False, st1)
      | (True, st1) \<Rightarrow>
          (case cbb_buffer_add_u alloc (cb_base st1) v len_len of
             (ok, b) \<Rightarrow> (ok, st1\<lparr>cb_base := b\<rparr>)))"

(* src: crypto/bytestring/cbb.c CBB_add_u8 *)
definition CBB_add_u8 :: "allocator \<Rightarrow> cbb_state \<Rightarrow> nat \<Rightarrow> u8 \<Rightarrow> bool \<times> cbb_state" where
  "CBB_add_u8 alloc st i v = cbb_add_u alloc st i (ucast v) 1"

(* src: crypto/bytestring/cbb.c CBB_add_u16 *)
definition CBB_add_u16 :: "allocator \<Rightarrow> cbb_state \<Rightarrow> nat \<Rightarrow> u16 \<Rightarrow> bool \<times> cbb_state" where
  "CBB_add_u16 alloc st i v = cbb_add_u alloc st i (ucast v) 2"

(* src: crypto/bytestring/cbb.c CBB_add_u24 *)
definition CBB_add_u24 :: "allocator \<Rightarrow> cbb_state \<Rightarrow> nat \<Rightarrow> u32 \<Rightarrow> bool \<times> cbb_state" where
  "CBB_add_u24 alloc st i v = cbb_add_u alloc st i v 3"

(* src: crypto/bytestring/cbb.c CBB_add_asn1 *)
definition CBB_add_asn1 :: "allocator \<Rightarrow> cbb_state \<Rightarrow> nat \<Rightarrow> u8 \<Rightarrow> bool \<times> cbb_state" where
  "CBB_add_asn1 alloc st i tag =
     (case CBB_flush alloc st i of
        (False, st1) \<Rightarrow> (False, st1)
      | (True, st1) \<Rightarrow>
     (case CBB_add_u8 alloc st1 i tag of
        (False, st2) \<Rightarrow> (False, st2)
      | (True, st2) \<Rightarrow>
          (let st3 = st2\<lparr>cb_chain := (cb_chain st2)[i := (cb_chain st2 ! i)\<lparr>cb_offset := cb_len (cb_base st2)\<rparr>]\<rparr> in
           case CBB_add_u8 alloc st3 i 0 of
             (False, st4) \<Rightarrow> (False, st4)
           | (True, st4) \<Rightarrow>
               (True, st4\<lparr>cb_chain := (cb_chain st4)[i := (cb_chain st4 ! i)
                   \<lparr>cb_pending_len_len := 1, cb_pending_is_asn1 := True\<rparr>] @ [cbb_zero]\<rparr>))))"

(* src: crypto/bytestring/cbb.c CBB_add_space *)
definition CBB_add_space :: "allocator \<Rightarrow> cbb_state \<Rightarrow> nat \<Rightarrow> nat \<Rightarrow> nat option \<times> cbb_state" where
  "CBB_add_space alloc st i n =
     (case CBB_flush alloc st i of
        (False, st1) \<Rightarrow> (None, st1)
      | (True, st1) \<Rightarrow>
          (case cbb_buffer_add alloc (cb_base st1) n of (p, b) \<Rightarrow> (p, st1\<lparr>cb_base := b\<rparr>)))"

(* src: crypto/bytestring/cbb.c CBB_add_bytes *)
definition CBB_add_bytes :: "allocator \<Rightarrow> cbb_state \<Rightarrow> nat \<Rightarrow> bytes \<Rightarrow> bool \<times> cbb_state" where
  "CBB_add_bytes alloc st i data =
     (case CBB_flush alloc st i of
        (False, st1) \<Rightarrow> (False, st1)
      | (True, st1) \<Rightarrow>
          (case cbb_buffer_add alloc (cb_base st1) (length data) of
             (None, b) \<Rightarrow> (False, st1\<lparr>cb_base := b\<rparr>)
           | (Some p, b) \<Rightarrow> (True, st1\<lparr>cb_base := b\<lparr>cb_buf := mem_write (cb_buf b) p data\<rparr>\<rparr>)))"

section \<open>Buffer lemmas\<close>

definition cb_ok :: "cbb_buffer \<Rightarrow> bool" where
  "cb_ok b \<longleftrightarrow> length (cb_buf b) = cb_cap b \<and> cb_len b \<le> cb_cap b \<and> cb_cap b < size_bound"

definition cb_contents :: "cbb_buffer \<Rightarrow> bytes" where
  "cb_contents b = take (cb_len b) (cb_buf b)"

lemma length_cb_contents: "cb_ok b \<Longrightarrow> length (cb_contents b) = cb_len b"
  by (simp add: cb_ok_def cb_contents_def)

lemma mod_add_no_overflow:
  fixes a n :: nat
  assumes "\<not> (a + n) mod m < a" "a < m" "n < m" shows "(a + n) mod m = a + n"
proof (rule ccontr)
  assume "(a + n) mod m \<noteq> a + n"
  then have le: "m \<le> a + n" by (metis mod_less not_le)
  then have "(a + n) mod m = a + n - m" using assms(2,3) by (simp add: mod_if [of "a + n"])
  with assms le show False by linarith
qed

lemma cbb_buffer_add_Some:
  assumes "cb_ok b" "alloc_ok alloc" "n < size_bound" "cbb_buffer_add alloc b n = (Some p, b')"
  shows "cb_ok b' \<and> p = cb_len b \<and> cb_len b' = cb_len b + n \<and> cb_can_resize b' = cb_can_resize b \<and>
    take (cb_len b) (cb_buf b') = cb_contents b"
proof -
  let ?nl = "(cb_len b + n) mod size_bound"
  have nl: "?nl = cb_len b + n"
    using assms(1,3,4) mod_add_no_overflow [of "cb_len b" n size_bound]
    by (auto simp: cbb_buffer_add_def cb_ok_def Let_def split: if_splits)
  show ?thesis
  proof (cases "?nl > cb_cap b")
    case True
    define m where "m = (cb_cap b * 2) mod size_bound"
    define newcap where "newcap = (if m < cb_cap b \<or> m < ?nl then ?nl else m)"
    have nc: "?nl \<le> newcap" "newcap < size_bound" "cb_len b \<le> newcap"
      using nl by (auto simp: newcap_def m_def)
    obtain nb where nb: "c_realloc alloc (cb_buf b) newcap = Some nb"
      and b': "b' = b\<lparr>cb_buf := nb, cb_cap := newcap, cb_len := ?nl\<rparr>" "p = cb_len b"
    proof -
      have "\<not> ?nl < cb_len b" using nl by simp
      then have "cbb_buffer_add alloc b n =
        (if \<not> cb_can_resize b then (None, b)
         else case c_realloc alloc (cb_buf b) newcap of None \<Rightarrow> (None, b)
           | Some nb \<Rightarrow> (Some (cb_len b), b\<lparr>cb_buf := nb, cb_cap := newcap, cb_len := ?nl\<rparr>))"
        using True unfolding cbb_buffer_add_def Let_def newcap_def m_def by simp
      with assms(4) show ?thesis
        by (auto intro: that split: if_splits option.splits)
    qed
    have "length nb = newcap" using length_c_realloc [OF assms(2) nb] .
    moreover have "take (cb_len b) nb = cb_contents b"
      using take_c_realloc [OF nb, of "cb_len b"] assms(1) nc by (simp add: cb_ok_def cb_contents_def)
    ultimately show ?thesis using b' nc nl by (simp add: cb_ok_def)
  next
    case False
    then have "b' = b\<lparr>cb_len := ?nl\<rparr>" "p = cb_len b"
      using assms(4) by (auto simp: cbb_buffer_add_def Let_def split: if_splits)
    with False nl assms(1) show ?thesis by (simp add: cb_ok_def cb_contents_def)
  qed
qed

text \<open>The new bytes follow the old contents.\<close>

lemma cbb_buffer_add_contents:
  assumes "cb_ok b" "alloc_ok alloc" "n < size_bound" "cbb_buffer_add alloc b n = (Some p, b')"
  shows "\<exists>junk. length junk = n \<and> cb_contents b' = cb_contents b @ junk"
proof -
  note a = cbb_buffer_add_Some [OF assms]
  have "cb_contents b' = take (cb_len b) (cb_buf b') @ take n (drop (cb_len b) (cb_buf b'))"
    using a by (simp add: cb_contents_def take_add)
  moreover have "length (take n (drop (cb_len b) (cb_buf b'))) = n" using a by (auto simp: cb_ok_def)
  ultimately show ?thesis using a by metis
qed

lemma cbb_store_be_eq:
  "off + k \<le> length buf \<Longrightarrow> cbb_store_be buf off k v = (mem_write buf off (be_bytes k v), v div 256 ^ k)"
proof (induction k arbitrary: buf v)
  case (Suc k)
  have u: "mem_write buf (off + k) [word_of_nat v] = buf[off + k := word_of_nat v]"
    using Suc.prems by (simp add: list_update_mem_write)
  have "cbb_store_be buf off (Suc k) v
      = (mem_write (buf[off + k := word_of_nat v]) off (be_bytes k (v div 256)), v div 256 div 256 ^ k)"
    using Suc by (simp add: u)
  moreover have "mem_write (buf[off + k := word_of_nat v]) off (be_bytes k (v div 256))
      = mem_write buf off (be_bytes (Suc k) v)"
    using mem_write_append_snoc [of off "be_bytes k (v div 256)" buf] Suc.prems by simp
  ultimately show ?case by (simp add: div_mult2_eq)
qed (simp add: mem_write_def)

text \<open>Overwriting part of the contents.\<close>

lemma cb_contents_write:
  assumes "cb_ok b" "off + length data \<le> cb_len b"
  shows "cb_contents (b\<lparr>cb_buf := mem_write (cb_buf b) off data\<rparr>) = mem_write (cb_contents b) off data"
    and "cb_ok (b\<lparr>cb_buf := mem_write (cb_buf b) off data\<rparr>)"
  using assms by (simp_all add: cb_ok_def cb_contents_def take_mem_write_within)

section \<open>The abstract builder\<close>

text \<open>
  The abstract state is the list of open objects, outermost first, each with the kind of prefix its
  contents will get and the contents written to it directly so far.
\<close>

datatype prefix = Top | Len nat | Asn1

fun placeholder :: "prefix \<Rightarrow> nat" where
  "placeholder Top = 0"
| "placeholder (Len k) = k"
| "placeholder Asn1 = 1"

text \<open>Contents with their prefix, if their length can be written in it.\<close>

fun close :: "prefix \<Rightarrow> bytes \<Rightarrow> bytes option" where
  "close Top c = Some c"
| "close (Len k) c = (if length c < 256 ^ k then Some (be_bytes k (length c) @ c) else None)"
| "close Asn1 c = (if length c < 4294967295 then Some (der_length (length c) @ c) else None)"

type_synonym open_objects = "(prefix \<times> bytes) list"

text \<open>The outermost object's contents once everything inside it is closed.\<close>

fun close_all :: "open_objects \<Rightarrow> bytes option" where
  "close_all [] = None"
| "close_all [(k, c)] = Some c"
| "close_all ((k, c) # (k', c') # os) =
     (case close_all ((k', c') # os) of
        None \<Rightarrow> None
      | Some d \<Rightarrow> map_option (\<lambda>e. c @ e) (close k' d))"

definition abs_flush :: "nat \<Rightarrow> open_objects \<Rightarrow> open_objects option" where
  "abs_flush i os =
     (if i < length os then map_option (\<lambda>d. take i os @ [(fst (os ! i), d)]) (close_all (drop i os))
      else None)"

definition abs_append :: "nat \<Rightarrow> bytes \<Rightarrow> open_objects \<Rightarrow> open_objects option" where
  "abs_append i data os =
     map_option (\<lambda>os'. os'[i := (fst (os' ! i), snd (os' ! i) @ data)]) (abs_flush i os)"

definition abs_open :: "nat \<Rightarrow> bytes \<Rightarrow> prefix \<Rightarrow> open_objects \<Rightarrow> open_objects option" where
  "abs_open i data k os = map_option (\<lambda>os'. os' @ [(k, [])]) (abs_append i data os)"

text \<open>The buffer's bytes: contents in order, a zero placeholder where each prefix will go.\<close>

definition flatten :: "open_objects \<Rightarrow> bytes" where
  "flatten os = concat (map (\<lambda>(k, c). replicate (placeholder k) 0 @ c) os)"

lemma flatten_simps [simp]:
  "flatten [] = []"
  "flatten ((k, c) # os) = replicate (placeholder k) 0 @ c @ flatten os"
  "flatten (os @ os') = flatten os @ flatten os'"
  by (simp_all add: flatten_def)

text \<open>The chain's records describe the open objects, the first of which starts at \<open>pos\<close>.\<close>

fun chain_ok :: "nat \<Rightarrow> cbb list \<Rightarrow> open_objects \<Rightarrow> bool" where
  "chain_ok pos [] [] \<longleftrightarrow> True"
| "chain_ok pos [f] [(k, c)] \<longleftrightarrow> True"
| "chain_ok pos (f # g # fs) ((k, c) # (k', c') # os) \<longleftrightarrow>
     cb_offset f = pos + placeholder k + length c \<and> cb_pending_len_len f = placeholder k' \<and>
     0 < placeholder k' \<and> (cb_pending_is_asn1 f \<longleftrightarrow> k' = Asn1) \<and>
     chain_ok (pos + placeholder k + length c) (g # fs) ((k', c') # os)"
| "chain_ok pos _ _ \<longleftrightarrow> False"

lemma chain_ok_length: "chain_ok pos fs os \<Longrightarrow> length fs = length os"
  by (induction pos fs os rule: chain_ok.induct) auto

lemma asn1_len_len_eq:
  "asn1_len_len n =
     (if n < 4294967295
      then Some (if n < 128 then (1, word_of_nat n)
                 else (1 + len_octets n, word_of_nat (128 + len_octets n)))
      else None)"
  by (auto simp: asn1_len_len_def len_octets_def not_less)

section \<open>Flushing implements closing\<close>

lemma write_prefix_len:
  assumes b: "cb_ok b" "cb_contents b = P @ replicate k 0 @ c"
    and f: "cb_offset f = length P" "cb_pending_len_len f = k" "\<not> cb_pending_is_asn1 f"
    and w: "cbb_write_prefix alloc b f = (ok, b', f')"
  shows "cb_ok b' \<and> (ok \<longleftrightarrow> length c < 256 ^ k) \<and>
    (ok \<longrightarrow> cb_contents b' = P @ be_bytes k (length c) @ c \<and> cb_can_resize b' = cb_can_resize b \<and>
       cb_len b' = cb_len b)"
proof -
  have l: "cb_len b = length P + k + length c" using length_cb_contents [OF b(1)] b(2) by simp
  have small: "cb_len b < size_bound" using b(1) by (simp add: cb_ok_def)
  have m: "(length P + k) mod size_bound = length P + k" using l small by simp
  have st: "cbb_store_be (cb_buf b) (length P) k (length c)
      = (mem_write (cb_buf b) (length P) (be_bytes k (length c)), length c div 256 ^ k)"
    using l b(1) by (intro cbb_store_be_eq) (simp add: cb_ok_def)
  have cw: "cb_contents (b\<lparr>cb_buf := mem_write (cb_buf b) (length P) (be_bytes k (length c))\<rparr>)
      = P @ be_bytes k (length c) @ c"
    using cb_contents_write(1) [OF b(1), of "length P" "be_bytes k (length c)"] l
      mem_write_middle [of "replicate k 0" "be_bytes k (length c)" P c] b(2) by simp
  have okw: "cb_ok (b\<lparr>cb_buf := mem_write (cb_buf b) (length P) (be_bytes k (length c))\<rparr>)"
    using cb_contents_write(2) [OF b(1), of "length P" "be_bytes k (length c)"] l by simp
  have d: "length c div 256 ^ k \<noteq> 0 \<longleftrightarrow> \<not> length c < 256 ^ k" by (simp add: div_eq_0_iff)
  show ?thesis
    using w f m l st cw okw d
    by (auto simp: cbb_write_prefix_def Let_def split: if_splits)
qed

lemma cbb_buffer_add_ok:
  assumes "cb_ok b" "alloc_ok alloc" "n < size_bound" "cbb_buffer_add alloc b n = (r, b')"
  shows "cb_ok b'"
proof (cases r)
  case None
  with assms(1,4) show ?thesis
    by (auto simp: cbb_buffer_add_def Let_def split: if_splits option.splits)
next
  case (Some p)
  with cbb_buffer_add_Some [OF assms(1-3)] assms(4) show ?thesis by simp
qed

text \<open>The contents move up and the first length byte replaces the placeholder.\<close>

lemma asn1_move:
  assumes b: "cb_ok b" "cb_contents b = P @ [0] @ c" and a: "alloc_ok alloc" "e < 5"
    and add: "cbb_buffer_add alloc b e = (Some p, b1)"
    and b2: "b2 = b1\<lparr>cb_buf := mem_write (mem_write (cb_buf b1) (length P + 1 + e)
                (mem_read (cb_buf b1) (length P + 1) (length c))) (length P) [x]\<rparr>"
  shows "cb_ok b2 \<and> cb_can_resize b2 = cb_can_resize b \<and>
    (\<exists>junk. length junk = e \<and> cb_contents b2 = P @ [x] @ junk @ c)"
proof -
  note ba = cbb_buffer_add_Some [OF b(1) a(1) _ add]
  have e: "e < size_bound" using a(2) by simp
  obtain junk where junk: "length junk = e" "cb_contents b1 = P @ [0] @ c @ junk"
    using cbb_buffer_add_contents [OF b(1) a(1) e add] b(2) by auto
  have ok1: "cb_ok b1" using ba e by simp
  have l: "cb_len b1 = length P + 1 + length c + e" using length_cb_contents [OF ok1] junk by simp
  have rd: "mem_read (cb_buf b1) (length P + 1) (length c) = c"
  proof -
    have "mem_read (cb_contents b1) (length P + 1) (length c) = c"
      using mem_read_middle [of "P @ [0]" c junk] junk(2) by simp
    moreover have "mem_read (cb_contents b1) (length P + 1) (length c)
        = mem_read (cb_buf b1) (length P + 1) (length c)"
      using l by (simp add: mem_read_def cb_contents_def drop_take)
    ultimately show ?thesis by simp
  qed
  let ?b = "b1\<lparr>cb_buf := mem_write (cb_buf b1) (length P + 1 + e) c\<rparr>"
  have okb: "cb_ok ?b" using cb_contents_write(2) [OF ok1] l by simp
  have lb: "cb_len ?b = cb_len b1" by simp
  have "cb_contents ?b = mem_write (P @ [0] @ c @ junk) (length P + 1 + e) c"
    using cb_contents_write(1) [OF ok1, of "length P + 1 + e" c] l junk by simp
  also have "\<dots> = P @ [0] @ take e (c @ junk) @ c"
    using junk(1) by (simp add: mem_write_def)
  finally have cb: "cb_contents ?b = P @ [0] @ take e (c @ junk) @ c" .
  have "b2 = ?b\<lparr>cb_buf := mem_write (cb_buf ?b) (length P) [x]\<rparr>"
    unfolding b2 rd by simp
  moreover have "cb_contents (?b\<lparr>cb_buf := mem_write (cb_buf ?b) (length P) [x]\<rparr>)
      = P @ [x] @ take e (c @ junk) @ c"
    using cb_contents_write(1) [OF okb, of "length P" "[x]"] l cb
      mem_write_middle [of "[0]" "[x]" P "take e (c @ junk) @ c"] by simp
  moreover have "cb_ok (?b\<lparr>cb_buf := mem_write (cb_buf ?b) (length P) [x]\<rparr>)"
    using cb_contents_write(2) [OF okb, of "length P" "[x]"] l by simp
  moreover have "length (take e (c @ junk)) = e" using junk(1) by simp
  ultimately show ?thesis using ba e by auto
qed

text \<open>Storing the remaining length bytes over the gap the move left.\<close>

lemma asn1_store:
  assumes "cb_ok b" "cb_contents b = P @ [x] @ junk @ c" "length junk = e" "n < 256 ^ e"
  shows "\<exists>buf'. cbb_store_be (cb_buf b) (length P + 1) e n = (buf', 0) \<and>
    cb_ok (b\<lparr>cb_buf := buf'\<rparr>) \<and> cb_contents (b\<lparr>cb_buf := buf'\<rparr>) = P @ [x] @ be_bytes e n @ c"
proof -
  have l: "cb_len b = length P + 1 + e + length c" using length_cb_contents [OF assms(1)] assms(2,3) by simp
  have "cbb_store_be (cb_buf b) (length P + 1) e n
      = (mem_write (cb_buf b) (length P + 1) (be_bytes e n), 0)"
    using cbb_store_be_eq [of "length P + 1" e "cb_buf b" n] l assms(1,4) by (simp add: cb_ok_def)
  moreover have "cb_contents (b\<lparr>cb_buf := mem_write (cb_buf b) (length P + 1) (be_bytes e n)\<rparr>)
      = P @ [x] @ be_bytes e n @ c"
    using cb_contents_write(1) [OF assms(1), of "length P + 1" "be_bytes e n"] l assms(2,3)
      mem_write_middle [of junk "be_bytes e n" "P @ [x]" c] by simp
  ultimately show ?thesis
    using cb_contents_write(2) [OF assms(1), of "length P + 1" "be_bytes e n"] l by auto
qed

lemma write_prefix_asn1:
  assumes b: "cb_ok b" "cb_contents b = P @ [0] @ c" and a: "alloc_ok alloc"
    and f: "cb_offset f = length P" "cb_pending_len_len f = 1" "cb_pending_is_asn1 f"
    and w: "cbb_write_prefix alloc b f = (ok, b', f')"
  shows "cb_ok b' \<and>
    (ok \<longrightarrow> length c < 4294967295 \<and> cb_contents b' = P @ der_length (length c) @ c \<and>
       cb_can_resize b' = cb_can_resize b)"
proof -
  let ?n = "length c"
  have l: "cb_len b = length P + 1 + ?n" using length_cb_contents [OF b(1)] b(2) by simp
  have small: "cb_len b < size_bound" using b(1) by (simp add: cb_ok_def)
  have m: "(length P + 1) mod size_bound = length P + 1" using l small by simp
  consider (large) "\<not> ?n < 4294967295" | (short) "?n < 128" | (long) "?n < 4294967295" "\<not> ?n < 128"
    by linarith
  then show ?thesis
  proof cases
    case large
    then have "asn1_len_len ?n = None" by (simp add: asn1_len_len_eq)
    with w f l m b(1) show ?thesis by (auto simp: cbb_write_prefix_def Let_def)
  next
    case short
    let ?x = "word_of_nat ?n :: u8"
    let ?b = "b\<lparr>cb_buf := mem_write (cb_buf b) (length P) [?x]\<rparr>"
    have ll: "asn1_len_len ?n = Some (1, ?x)" using short by (simp add: asn1_len_len_eq)
    have "cb_contents ?b = P @ [?x] @ c"
      using cb_contents_write(1) [OF b(1), of "length P" "[?x]"] l b(2)
        mem_write_middle [of "[0]" "[?x]" P c] by simp
    moreover have "cb_ok ?b" using cb_contents_write(2) [OF b(1), of "length P" "[?x]"] l by simp
    moreover have "b' = ?b"
      using w f l m ll by (auto simp: cbb_write_prefix_def Let_def)
    ultimately show ?thesis using short by (simp add: der_length_def)
  next
    case long
    let ?e = "len_octets ?n" let ?x = "word_of_nat (128 + ?e) :: u8"
    have e: "1 \<le> ?e" "?e < 5" "?n < 256 ^ ?e"
      using len_octets_bounds [of ?n] len_octets_iff [of ?n ?e] long by auto
    have ll: "asn1_len_len ?n = Some (1 + ?e, ?x)" using long by (simp add: asn1_len_len_eq)
    obtain r b1 where add: "cbb_buffer_add alloc b ?e = (r, b1)" by (cases "cbb_buffer_add alloc b ?e")
    show ?thesis
    proof (cases r)
      case None
      with w f l m ll add e have "b' = b1 \<and> \<not> ok" by (auto simp: cbb_write_prefix_def Let_def)
      with cbb_buffer_add_ok [OF b(1) a _ add] e(2) show ?thesis by simp
    next
      case (Some p)
      define b2 where "b2 = b1\<lparr>cb_buf := mem_write (mem_write (cb_buf b1) (length P + 1 + ?e)
                (mem_read (cb_buf b1) (length P + 1) ?n)) (length P) [?x]\<rparr>"
      obtain junk where b2: "cb_ok b2" "cb_can_resize b2 = cb_can_resize b" "length junk = ?e"
        "cb_contents b2 = P @ [?x] @ junk @ c"
        using asn1_move [OF b a e(2) add [unfolded Some] b2_def] by blast
      obtain buf' where st: "cbb_store_be (cb_buf b2) (length P + 1) ?e ?n = (buf', 0)"
        and r: "cb_ok (b2\<lparr>cb_buf := buf'\<rparr>)"
          "cb_contents (b2\<lparr>cb_buf := buf'\<rparr>) = P @ [?x] @ be_bytes ?e ?n @ c"
        using asn1_store [OF b2(1,4,3) e(3)] by blast
      have "b' = b2\<lparr>cb_buf := buf'\<rparr> \<and> ok"
        using w f l m ll add Some e st
        by (auto simp: cbb_write_prefix_def Let_def b2_def)
      with r b2(2) long show ?thesis by (simp add: der_length_def)
    qed
  qed
qed

text \<open>Flushing a chain closes every object inside the first and appends the result to it.\<close>

definition chain_rep :: "bytes \<Rightarrow> cbb_buffer \<Rightarrow> cbb list \<Rightarrow> open_objects \<Rightarrow> bool" where
  "chain_rep P b fs os \<longleftrightarrow> cb_ok b \<and> cb_contents b = P @ flatten os \<and> chain_ok (length P) fs os"

lemma write_prefix_close:
  assumes "cb_ok b" "cb_contents b = P @ replicate (placeholder k) 0 @ c" "alloc_ok alloc"
    and "cb_offset f = length P" "cb_pending_len_len f = placeholder k"
    and "cb_pending_is_asn1 f \<longleftrightarrow> k = Asn1" "0 < placeholder k"
    and w: "cbb_write_prefix alloc b f = (ok, b', f')"
  shows "cb_ok b' \<and> (ok \<longrightarrow> (\<exists>d. close k c = Some d \<and> cb_contents b' = P @ d) \<and>
     cb_can_resize b' = cb_can_resize b)"
proof (cases k)
  case Top
  with assms(7) show ?thesis by simp
next
  case (Len n)
  with write_prefix_len [OF assms(1,2) _ _ _ w] assms(4-6) show ?thesis by auto
next
  case Asn1
  with write_prefix_asn1 [OF assms(1) _ assms(3) _ _ _ w, of P c] assms(2,4-6) show ?thesis by auto
qed

lemma flush_chain:
  assumes "alloc_ok alloc" "chain_rep P b fs os" "fs \<noteq> []" "cbb_flush_chain alloc b fs = (ok, b', fs')"
  shows "cb_ok b' \<and> (ok \<longrightarrow> (\<exists>d f. close_all os = Some d \<and> fs' = [f] \<and>
     cb_is_top_level f = cb_is_top_level (hd fs) \<and> cb_can_resize b' = cb_can_resize b \<and>
     cb_contents b' = P @ replicate (placeholder (fst (hd os))) 0 @ d))"
  using assms(2-)
proof (induction fs arbitrary: P os ok b' fs')
  case (Cons f fs)
  show ?case
  proof (cases fs)
    case Nil
    with Cons.prems(1) obtain k c where "os = [(k, c)]"
      by (cases "(length P, [f], os)" rule: chain_ok.cases) (auto simp: chain_rep_def)
    with Cons.prems Nil show ?thesis by (auto simp: chain_rep_def)
  next
    case (Cons g rest)
    with Cons.prems(1) obtain k c k' c' os' where os: "os = (k, c) # (k', c') # os'"
      by (cases "(length P, f # g # rest, os)" rule: chain_ok.cases) (auto simp: chain_rep_def)
    let ?P = "P @ replicate (placeholder k) 0 @ c"
    have fields: "cb_offset f = length ?P" "cb_pending_len_len f = placeholder k'"
      "0 < placeholder k'" "cb_pending_is_asn1 f \<longleftrightarrow> k' = Asn1"
      and tail: "chain_rep ?P b fs ((k', c') # os')"
      using Cons.prems(1) os Cons by (auto simp: chain_rep_def add.assoc)
    obtain ok1 b1 ch1 where fl: "cbb_flush_chain alloc b fs = (ok1, b1, ch1)"
      by (cases "cbb_flush_chain alloc b fs")
    note IH = Cons.IH [OF tail _ fl]
    have IH': "cb_ok b1 \<and> (ok1 \<longrightarrow> (\<exists>d h. close_all ((k', c') # os') = Some d \<and> ch1 = [h] \<and>
       cb_can_resize b1 = cb_can_resize b \<and>
       cb_contents b1 = ?P @ replicate (placeholder k') 0 @ d))"
      using IH Cons by auto
    show ?thesis
    proof (cases ok1)
      case False
      with Cons.prems(3) fl fields(2,3) Cons IH' show ?thesis by auto
    next
      case True
      then obtain d where d: "close_all ((k', c') # os') = Some d"
        "cb_contents b1 = ?P @ replicate (placeholder k') 0 @ d"
        "cb_can_resize b1 = cb_can_resize b" using IH' by auto
      obtain ok2 b2 f2 where w: "cbb_write_prefix alloc b1 f = (ok2, b2, f2)"
        by (cases "cbb_write_prefix alloc b1 f")
      have wc: "cb_ok b2 \<and> (ok2 \<longrightarrow> (\<exists>e. close k' d = Some e \<and> cb_contents b2 = ?P @ e) \<and>
          cb_can_resize b2 = cb_can_resize b1)"
        using write_prefix_close [OF _ d(2) assms(1) fields(1,2,4,3) w] IH' by blast
      have top: "cb_is_top_level f2 = cb_is_top_level f"
        using w by (auto simp: cbb_write_prefix_def Let_def split: if_splits option.splits prod.splits bool.splits)
      have res: "b' = b2" "ok = ok2" "ok2 \<longrightarrow> fs' = [f2]"
        using Cons.prems(3) fl fields(2,3) Cons True w by (cases ok2; auto)+
      show ?thesis using res wc d os top by auto
    qed
  qed
qed simp

section \<open>The builder refines the abstract builder\<close>

definition cbb_rep :: "cbb_state \<Rightarrow> open_objects \<Rightarrow> bool" where
  "cbb_rep st os \<longleftrightarrow> chain_rep [] (cb_base st) (cb_chain st) os \<and> os \<noteq> [] \<and> fst (hd os) = Top \<and>
     (\<forall>i < length os. cb_is_top_level (cb_chain st ! i) = (i = 0))"

lemma cbb_rep_length: "cbb_rep st os \<Longrightarrow> length (cb_chain st) = length os"
  by (auto simp: cbb_rep_def chain_rep_def dest: chain_ok_length)

lemma chain_ok_drop:
  "chain_ok pos fs os \<Longrightarrow> i < length os \<Longrightarrow>
     chain_ok (pos + length (flatten (take i os))) (drop i fs) (drop i os)"
proof (induction pos fs os arbitrary: i rule: chain_ok.induct)
  case (3 pos f g fs k c k' c' os)
  show ?case
  proof (cases i)
    case (Suc j)
    with "3.prems" have "j < length ((k', c') # os)" by simp
    from "3.IH" [OF _ this] "3.prems"(1)
    show ?thesis using Suc by (simp add: add.assoc)
  qed (use "3.prems" in simp)
qed auto

lemma chain_ok_replace:
  "chain_ok pos fs os \<Longrightarrow> i < length os \<Longrightarrow>
     chain_ok pos (take i fs @ [f]) (take i os @ [(fst (os ! i), d)])"
proof (induction pos fs os arbitrary: i rule: chain_ok.induct)
  case (3 pos f' g fs k c k' c' os)
  show ?case
  proof (cases i)
    case (Suc j)
    with "3.prems" have "j < length ((k', c') # os)" by simp
    from "3.IH" [OF _ this] "3.prems"(1) show ?thesis using Suc by (cases j) auto
  qed (use "3.prems" in simp)
next
  case (2 pos f' k c)
  then show ?case by simp
qed auto

lemma chain_ok_snoc:
  assumes "chain_ok pos (fs @ [f]) (os @ [(k, c)])"
    and "cb_offset f' = pos + length (flatten (os @ [(k, c)]))"
    and "cb_pending_len_len f' = placeholder k'" "0 < placeholder k'" "cb_pending_is_asn1 f' \<longleftrightarrow> k' = Asn1"
  shows "chain_ok pos (fs @ [f', g]) (os @ [(k, c), (k', [])])"
  using assms
proof (induction os arbitrary: pos fs)
  case Nil
  then have "fs = []" using chain_ok_length [of pos "fs @ [f]" "[(k, c)]"] by simp
  with Nil show ?case by (simp add: add.assoc)
next
  case (Cons o1 os)
  obtain k1 c1 where o1: "o1 = (k1, c1)" by (cases o1)
  from Cons.prems(1) chain_ok_length [OF Cons.prems(1)] obtain f1 fs1 where fs: "fs = f1 # fs1"
    by (cases fs) auto
  let ?pos = "pos + placeholder k1 + length c1"
  obtain k2 c2 os2 where o2: "os @ [(k, c)] = (k2, c2) # os2" by (cases "os @ [(k, c)]") auto
  obtain g2 fs2 where f2: "fs1 @ [f] = g2 # fs2" by (cases "fs1 @ [f]") auto
  have ch: "chain_ok ?pos (fs1 @ [f]) (os @ [(k, c)])"
    using Cons.prems(1) o1 fs o2 f2 by simp
  have "chain_ok ?pos (fs1 @ [f', g]) (os @ [(k, c), (k', [])])"
    by (rule Cons.IH [OF ch]) (use Cons.prems o1 in auto)
  moreover obtain g3 fs3 where f3: "fs1 @ [f', g] = g3 # fs3" by (cases "fs1 @ [f', g]") auto
  moreover obtain os3 where o3: "os @ [(k, c), (k', [])] = (k2, c2) # os3" using o2 by (cases os) auto
  ultimately show ?case using Cons.prems(1) o1 fs o2 f2 by simp
qed

lemma flatten_take_drop: "i < length os \<Longrightarrow>
   flatten os = flatten (take i os) @ flatten (drop i os)"
  using append_take_drop_id [of i os] flatten_simps(3) by metis

lemma flush_rep:
  assumes "alloc_ok alloc" "cbb_rep st os" "CBB_flush alloc st i = (True, st')"
  shows "\<exists>os'. abs_flush i os = Some os' \<and> cbb_rep st' os' \<and> length os' = Suc i \<and>
     cb_can_resize (cb_base st') = cb_can_resize (cb_base st)"
proof -
  have len: "length (cb_chain st) = length os" by (rule cbb_rep_length [OF assms(2)])
  obtain b' fs' where fl: "cbb_flush_chain alloc (cb_base st) (drop i (cb_chain st)) = (True, b', fs')"
    and st': "st' = \<lparr>cb_base = b', cb_chain = take i (cb_chain st) @ fs'\<rparr>"
    using assms(3) by (auto simp: CBB_flush_def split: prod.splits)
  have i: "i < length os"
    using fl len by (cases "i < length os") auto
  let ?P = "flatten (take i os)"
  have rep: "chain_rep ?P (cb_base st) (drop i (cb_chain st)) (drop i os)"
    using assms(2) i flatten_take_drop [OF i] chain_ok_drop [of 0 "cb_chain st" os i]
    by (simp add: cbb_rep_def chain_rep_def)
  obtain d f where d: "close_all (drop i os) = Some d" "fs' = [f]" "cb_ok b'"
    "cb_is_top_level f = cb_is_top_level (hd (drop i (cb_chain st)))"
    "cb_can_resize b' = cb_can_resize (cb_base st)"
    "cb_contents b' = ?P @ replicate (placeholder (fst (hd (drop i os)))) 0 @ d"
    using flush_chain [OF assms(1) rep _ fl] i len by auto
  let ?os = "take i os @ [(fst (os ! i), d)]"
  have "chain_ok 0 (take i (cb_chain st) @ [f]) ?os"
    using assms(2) i by (intro chain_ok_replace) (auto simp: cbb_rep_def chain_rep_def)
  moreover have "fst (hd ?os) = Top" using assms(2) i
    by (cases i; cases os) (auto simp: cbb_rep_def)
  moreover have "\<forall>j < length ?os. cb_is_top_level ((take i (cb_chain st) @ [f]) ! j) = (j = 0)"
    using assms(2) i len d(4) by (auto simp: cbb_rep_def nth_append hd_drop_conv_nth less_Suc_eq)
  ultimately have "cbb_rep st' ?os"
    using d st' i by (simp add: cbb_rep_def chain_rep_def hd_drop_conv_nth)
  then show ?thesis using d i st' by (auto simp: abs_flush_def)
qed

text \<open>Appending to the innermost object.\<close>

lemma append_rep:
  assumes "cbb_rep st os" "length os = Suc i" "cb_ok b'"
    and "cb_contents b' = cb_contents (cb_base st) @ data"
  shows "cbb_rep (st\<lparr>cb_base := b'\<rparr>) (os[i := (fst (os ! i), snd (os ! i) @ data)])"
proof -
  obtain k c where oi: "os ! i = (k, c)" by (cases "os ! i")
  have os: "os = take i os @ [(k, c)]"
    using assms(2) oi by (metis take_Suc_conv_app_nth lessI take_all order_refl)
  have fs: "cb_chain st = take i (cb_chain st) @ [cb_chain st ! i]"
    using assms(2) cbb_rep_length [OF assms(1)] by (metis take_Suc_conv_app_nth lessI take_all order_refl)
  have upd: "os[i := (k, c @ data)] = take i os @ [(k, c @ data)]"
    using assms(2) by (subst os) (simp add: list_update_append)
  have "chain_ok 0 (cb_chain st) (take i os @ [(k, c @ data)])"
    using chain_ok_replace [of 0 "cb_chain st" os i "cb_chain st ! i" "c @ data"] assms(1,2) oi fs
    by (simp add: cbb_rep_def chain_rep_def)
  moreover have "flatten (take i os @ [(k, c @ data)]) = flatten os @ data"
    by (subst (2) os) simp
  moreover have "fst (hd (os[i := (k, c @ data)])) = Top"
    using assms(1,2) oi by (cases i; cases os) (auto simp: cbb_rep_def)
  ultimately show ?thesis
    using assms oi upd by (auto simp: cbb_rep_def chain_rep_def)
qed

lemma buffer_write_new:
  assumes "cb_ok b" "alloc_ok alloc" "length data < size_bound"
    and "cbb_buffer_add alloc b (length data) = (Some p, b1)"
  shows "cb_ok (b1\<lparr>cb_buf := mem_write (cb_buf b1) p data\<rparr>) \<and>
    cb_contents (b1\<lparr>cb_buf := mem_write (cb_buf b1) p data\<rparr>) = cb_contents b @ data"
proof -
  obtain junk where j: "length junk = length data" "cb_contents b1 = cb_contents b @ junk"
    using cbb_buffer_add_contents [OF assms] by blast
  have a: "cb_ok b1" "p = length (cb_contents b)" "cb_len b1 = length (cb_contents b) + length data"
    using cbb_buffer_add_Some [OF assms] length_cb_contents [OF assms(1)] by auto
  show ?thesis
    using cb_contents_write [OF a(1), of p data] a(2,3) j mem_write_middle [of junk data "cb_contents b" "[]"]
    by simp
qed

lemma buffer_add_u:
  assumes "cb_ok b" "alloc_ok alloc" "k < size_bound" "cbb_buffer_add_u alloc b v k = (ok, b')"
  shows "cb_ok b' \<and> (ok \<longrightarrow> cb_contents b' = cb_contents b @ be_bytes k (unat v))"
proof (cases "k = 0")
  case True
  with assms show ?thesis by (auto simp: cbb_buffer_add_u_def)
next
  case False
  obtain r b1 where add: "cbb_buffer_add alloc b k = (r, b1)" by (cases "cbb_buffer_add alloc b k")
  show ?thesis
  proof (cases r)
    case None
    with False add assms cbb_buffer_add_ok [OF assms(1-3) add] show ?thesis
      by (auto simp: cbb_buffer_add_u_def)
  next
    case (Some p)
    have a: "cb_ok b1" "p = cb_len b" "cb_len b1 = cb_len b + k"
      using cbb_buffer_add_Some [OF assms(1-3) add [unfolded Some]] by auto
    have "fst (cbb_store_be (cb_buf b1) p k (unat v)) = mem_write (cb_buf b1) p (be_bytes k (unat v))"
      using cbb_store_be_eq [of p k "cb_buf b1" "unat v"] a by (simp add: cb_ok_def)
    with False add Some assms(4)
    have "b' = b1\<lparr>cb_buf := mem_write (cb_buf b1) p (be_bytes k (unat v))\<rparr>"
      by (auto simp: cbb_buffer_add_u_def)
    with buffer_write_new [OF assms(1,2), of "be_bytes k (unat v)" p b1] add Some assms(3)
    show ?thesis by simp
  qed
qed

lemma cb_ok_flush:
  assumes "alloc_ok alloc" "cbb_rep st os" "CBB_flush alloc st i = (ok, st')"
  shows "cb_ok (cb_base st')"
proof (cases "i < length os")
  case True
  have len: "length (cb_chain st) = length os" by (rule cbb_rep_length [OF assms(2)])
  have rep: "chain_rep (flatten (take i os)) (cb_base st) (drop i (cb_chain st)) (drop i os)"
    using assms(2) True flatten_take_drop [OF True] chain_ok_drop [of 0 "cb_chain st" os i]
    by (simp add: cbb_rep_def chain_rep_def)
  obtain b' fs' where fl: "cbb_flush_chain alloc (cb_base st) (drop i (cb_chain st)) = (ok, b', fs')"
    "cb_base st' = b'"
    using assms(3) by (auto simp: CBB_flush_def split: prod.splits)
  show ?thesis using flush_chain [OF assms(1) rep _ fl(1)] fl(2) True len by simp
next
  case False
  then have "cb_base st' = cb_base st"
    using assms(3) cbb_rep_length [OF assms(2)] by (auto simp: CBB_flush_def)
  with assms(2) show ?thesis by (simp add: cbb_rep_def chain_rep_def)
qed

text \<open>The calls of the builder's interface, and what each does to the abstract builder.\<close>

datatype cbb_call =
    AddBytes nat bytes
  | AddU8 nat u8
  | AddU16 nat u16
  | AddU24 nat u32
  | OpenU8 nat
  | OpenU16 nat
  | OpenU24 nat
  | OpenAsn1 nat u8
  | Flush nat

fun cbb_exec :: "allocator \<Rightarrow> cbb_call \<Rightarrow> cbb_state \<Rightarrow> bool \<times> cbb_state" where
  "cbb_exec alloc (AddBytes i data) st = CBB_add_bytes alloc st i data"
| "cbb_exec alloc (AddU8 i v) st = CBB_add_u8 alloc st i v"
| "cbb_exec alloc (AddU16 i v) st = CBB_add_u16 alloc st i v"
| "cbb_exec alloc (AddU24 i v) st = CBB_add_u24 alloc st i v"
| "cbb_exec alloc (OpenU8 i) st = CBB_add_u8_length_prefixed alloc st i"
| "cbb_exec alloc (OpenU16 i) st = CBB_add_u16_length_prefixed alloc st i"
| "cbb_exec alloc (OpenU24 i) st = CBB_add_u24_length_prefixed alloc st i"
| "cbb_exec alloc (OpenAsn1 i t) st = CBB_add_asn1 alloc st i t"
| "cbb_exec alloc (Flush i) st = CBB_flush alloc st i"

fun abs_exec :: "cbb_call \<Rightarrow> open_objects \<Rightarrow> open_objects option" where
  "abs_exec (AddBytes i data) os = abs_append i data os"
| "abs_exec (AddU8 i v) os = abs_append i [v] os"
| "abs_exec (AddU16 i v) os = abs_append i (be_bytes 2 (unat v)) os"
| "abs_exec (AddU24 i v) os = abs_append i (be_bytes 3 (unat v)) os"
| "abs_exec (OpenU8 i) os = abs_open i [] (Len 1) os"
| "abs_exec (OpenU16 i) os = abs_open i [] (Len 2) os"
| "abs_exec (OpenU24 i) os = abs_open i [] (Len 3) os"
| "abs_exec (OpenAsn1 i t) os = abs_open i [t] Asn1 os"
| "abs_exec (Flush i) os = abs_flush i os"

text \<open>The bytes of a call lie in one object, so there are fewer than \<open>size_bound\<close> of them.\<close>

fun call_ok :: "cbb_call \<Rightarrow> bool" where
  "call_ok (AddBytes i data) \<longleftrightarrow> length data < size_bound"
| "call_ok _ \<longleftrightarrow> True"

lemma exec_add_bytes:
  assumes "alloc_ok alloc" "cbb_rep st os" "length data < size_bound"
    and "CBB_add_bytes alloc st i data = (ok, st')"
  shows "cb_ok (cb_base st') \<and>
    (ok \<longrightarrow> (\<exists>os'. abs_append i data os = Some os' \<and> cbb_rep st' os'))"
proof -
  obtain ok1 st1 where fl: "CBB_flush alloc st i = (ok1, st1)" by (cases "CBB_flush alloc st i")
  note ok1 = cb_ok_flush [OF assms(1,2) fl]
  show ?thesis
  proof (cases ok1)
    case False
    with fl assms(4) ok1 show ?thesis by (auto simp: CBB_add_bytes_def)
  next
    case True
    obtain os1 where os1: "abs_flush i os = Some os1" "cbb_rep st1 os1" "length os1 = Suc i"
      using flush_rep [OF assms(1,2), of i st1] fl True by auto
    obtain r b1 where add: "cbb_buffer_add alloc (cb_base st1) (length data) = (r, b1)"
      by (cases "cbb_buffer_add alloc (cb_base st1) (length data)")
    show ?thesis
    proof (cases r)
      case None
      with fl True add assms(4) cbb_buffer_add_ok [OF ok1 assms(1,3) add] show ?thesis
        by (auto simp: CBB_add_bytes_def)
    next
      case (Some p)
      let ?b = "b1\<lparr>cb_buf := mem_write (cb_buf b1) p data\<rparr>"
      have w: "cb_ok ?b \<and> cb_contents ?b = cb_contents (cb_base st1) @ data"
        by (rule buffer_write_new [OF ok1 assms(1,3) add [unfolded Some]])
      have "st' = st1\<lparr>cb_base := ?b\<rparr>" using fl True add Some assms(4) by (auto simp: CBB_add_bytes_def)
      with append_rep [OF os1(2,3), of ?b data] w os1(1) show ?thesis by (auto simp: abs_append_def)
    qed
  qed
qed

lemma exec_add_u:
  assumes "alloc_ok alloc" "cbb_rep st os" "k < size_bound" "cbb_add_u alloc st i v k = (ok, st')"
  shows "cb_ok (cb_base st') \<and>
    (ok \<longrightarrow> (\<exists>os'. abs_append i (be_bytes k (unat v)) os = Some os' \<and> cbb_rep st' os'))"
proof -
  obtain ok1 st1 where fl: "CBB_flush alloc st i = (ok1, st1)" by (cases "CBB_flush alloc st i")
  note ok1 = cb_ok_flush [OF assms(1,2) fl]
  show ?thesis
  proof (cases ok1)
    case False
    with fl assms(4) ok1 show ?thesis by (auto simp: cbb_add_u_def)
  next
    case True
    obtain os1 where os1: "abs_flush i os = Some os1" "cbb_rep st1 os1" "length os1 = Suc i"
      using flush_rep [OF assms(1,2), of i st1] fl True by auto
    obtain ok2 b where add: "cbb_buffer_add_u alloc (cb_base st1) v k = (ok2, b)"
      by (cases "cbb_buffer_add_u alloc (cb_base st1) v k")
    have w: "cb_ok b \<and> (ok2 \<longrightarrow> cb_contents b = cb_contents (cb_base st1) @ be_bytes k (unat v))"
      by (rule buffer_add_u [OF ok1 assms(1,3) add])
    have "st' = st1\<lparr>cb_base := b\<rparr>" "ok = ok2" using fl True add assms(4) by (auto simp: cbb_add_u_def)
    with append_rep [OF os1(2,3), of b "be_bytes k (unat v)"] w os1(1) show ?thesis
      by (auto simp: abs_append_def)
  qed
qed

text \<open>Opening a child: the parent's record is set and a fresh object joins the chain.\<close>

lemma open_rep:
  assumes "cbb_rep st os" "length os = Suc i" "cb_ok b" "0 < placeholder k"
    and "cb_contents b = cb_contents (cb_base st) @ replicate (placeholder k) 0"
    and f: "cb_offset f = length (cb_contents (cb_base st))" "cb_pending_len_len f = placeholder k"
      "cb_pending_is_asn1 f \<longleftrightarrow> k = Asn1" "cb_is_top_level f = cb_is_top_level (cb_chain st ! i)"
  shows "cbb_rep \<lparr>cb_base = b, cb_chain = (cb_chain st)[i := f] @ [cbb_zero]\<rparr> (os @ [(k, [])])"
proof -
  have len: "length (cb_chain st) = Suc i" using cbb_rep_length [OF assms(1)] assms(2) by simp
  obtain k0 c0 where oi: "os ! i = (k0, c0)" by (cases "os ! i")
  have os: "os = take i os @ [(k0, c0)]"
    using assms(2) oi by (metis take_Suc_conv_app_nth lessI take_all order_refl)
  have fs: "cb_chain st = take i (cb_chain st) @ [cb_chain st ! i]"
    using len by (metis take_Suc_conv_app_nth lessI take_all order_refl)
  have upd: "(cb_chain st)[i := f] = take i (cb_chain st) @ [f]"
    using len by (subst fs) (simp add: list_update_append)
  have ch: "chain_ok 0 (take i (cb_chain st) @ [cb_chain st ! i]) (take i os @ [(k0, c0)])"
    using assms(1) os fs by (simp add: cbb_rep_def chain_rep_def)
  have off: "cb_offset f = 0 + length (flatten (take i os @ [(k0, c0)]))"
    using f(1) assms(1) os by (simp add: cbb_rep_def chain_rep_def)
  have "chain_ok 0 (take i (cb_chain st) @ [f, cbb_zero]) (take i os @ [(k0, c0), (k, [])])"
    by (rule chain_ok_snoc [OF ch off f(2) assms(4) f(3)])
  then have "chain_ok 0 ((cb_chain st)[i := f] @ [cbb_zero]) (os @ [(k, [])])"
    using upd os by (metis append.assoc append_Cons append_Nil)
  moreover have "flatten (os @ [(k, [])]) = flatten os @ replicate (placeholder k) 0" by simp
  moreover have "cb_is_top_level (((cb_chain st)[i := f] @ [cbb_zero]) ! j) = (j = 0)"
    if "j < length (os @ [(k, [])])" for j
  proof -
    have top: "\<And>j. j < Suc i \<Longrightarrow> cb_is_top_level (cb_chain st ! j) = (j = 0)"
      using assms(1,2) by (simp add: cbb_rep_def)
    show ?thesis using that assms(2) len top [of j] f(4)
      by (auto simp: nth_append nth_list_update less_Suc_eq cbb_zero_def)
  qed
  ultimately show ?thesis
    using assms(1,3,5) by (auto simp: cbb_rep_def chain_rep_def)
qed

lemma exec_open_len:
  assumes "alloc_ok alloc" "cbb_rep st os" "0 < k" "k < size_bound"
    and "cbb_add_length_prefixed alloc st i k = (ok, st')"
  shows "cb_ok (cb_base st') \<and>
    (ok \<longrightarrow> (\<exists>os'. abs_open i [] (Len k) os = Some os' \<and> cbb_rep st' os'))"
proof -
  obtain ok1 st1 where fl: "CBB_flush alloc st i = (ok1, st1)" by (cases "CBB_flush alloc st i")
  note ok1 = cb_ok_flush [OF assms(1,2) fl]
  show ?thesis
  proof (cases ok1)
    case False
    with fl assms(5) ok1 show ?thesis by (auto simp: cbb_add_length_prefixed_def)
  next
    case True
    obtain os1 where os1: "abs_flush i os = Some os1" "cbb_rep st1 os1" "length os1 = Suc i"
      using flush_rep [OF assms(1,2), of i st1] fl True by auto
    obtain r b1 where add: "cbb_buffer_add alloc (cb_base st1) k = (r, b1)"
      by (cases "cbb_buffer_add alloc (cb_base st1) k")
    show ?thesis
    proof (cases r)
      case None
      with fl True add assms(5) cbb_buffer_add_ok [OF ok1 assms(1,4) add] show ?thesis
        by (auto simp: cbb_add_length_prefixed_def Let_def)
    next
      case (Some p)
      let ?b = "b1\<lparr>cb_buf := mem_write (cb_buf b1) p (replicate k 0)\<rparr>"
      let ?f = "(cb_chain st1 ! i)\<lparr>cb_offset := cb_len (cb_base st1), cb_pending_len_len := k,
                  cb_pending_is_asn1 := False\<rparr>"
      have w: "cb_ok ?b \<and> cb_contents ?b = cb_contents (cb_base st1) @ replicate k 0"
        using buffer_write_new [OF ok1 assms(1), of "replicate k 0" p b1] assms(4) add Some by simp
      have "st' = \<lparr>cb_base = ?b, cb_chain = (cb_chain st1)[i := ?f] @ [cbb_zero]\<rparr>"
        using fl True add Some assms(5) by (auto simp: cbb_add_length_prefixed_def Let_def)
      moreover have "cbb_rep \<lparr>cb_base = ?b, cb_chain = (cb_chain st1)[i := ?f] @ [cbb_zero]\<rparr>
          (os1 @ [(Len k, [])])"
        using w assms(3) length_cb_contents [OF ok1] by (intro open_rep [OF os1(2,3)]) auto
      moreover have "os1[i := (fst (os1 ! i), snd (os1 ! i) @ [])] = os1" by simp
      ultimately show ?thesis using w os1(1) by (auto simp: abs_open_def abs_append_def)
    qed
  qed
qed

text \<open>A state whose innermost object differs only in its offset represents the same objects.\<close>

lemma rep_set_offset:
  assumes "cbb_rep st os" "length os = Suc i"
  shows "cbb_rep (st\<lparr>cb_chain := (cb_chain st)[i := (cb_chain st ! i)\<lparr>cb_offset := n\<rparr>]\<rparr>) os"
proof -
  have len: "length (cb_chain st) = Suc i" using cbb_rep_length [OF assms(1)] assms(2) by simp
  have fs: "cb_chain st = take i (cb_chain st) @ [cb_chain st ! i]"
    using len by (metis take_Suc_conv_app_nth lessI take_all order_refl)
  have os: "os = take i os @ [(fst (os ! i), snd (os ! i))]"
    using assms(2) by (metis prod.collapse take_Suc_conv_app_nth lessI take_all order_refl)
  have upd: "(cb_chain st)[i := f] = take i (cb_chain st) @ [f]" for f
    using len by (subst fs) (simp add: list_update_append)
  have "chain_ok 0 ((cb_chain st)[i := (cb_chain st ! i)\<lparr>cb_offset := n\<rparr>]) os"
    using chain_ok_replace [of 0 "cb_chain st" os i "(cb_chain st ! i)\<lparr>cb_offset := n\<rparr>" "snd (os ! i)"]
      assms os by (simp add: upd cbb_rep_def chain_rep_def)
  with assms len show ?thesis
    by (auto simp: cbb_rep_def chain_rep_def nth_list_update)
qed

lemma abs_flush_last:
  assumes "length os = Suc i" shows "abs_flush i os = Some os"
proof -
  obtain k c where oi: "os ! i = (k, c)" by (cases "os ! i")
  have os: "os = take i os @ [(k, c)]"
    using assms oi by (metis take_Suc_conv_app_nth lessI take_all order_refl)
  have "drop i os = [(k, c)]" using assms oi by (metis Cons_nth_drop_Suc lessI drop_all order_refl)
  with os oi assms show ?thesis by (simp add: abs_flush_def)
qed

lemma exec_open_asn1:
  assumes "alloc_ok alloc" "cbb_rep st os" "CBB_add_asn1 alloc st i tag = (ok, st')"
  shows "cb_ok (cb_base st') \<and>
    (ok \<longrightarrow> (\<exists>os'. abs_open i [tag] Asn1 os = Some os' \<and> cbb_rep st' os'))"
proof -
  obtain ok1 st1 where fl: "CBB_flush alloc st i = (ok1, st1)" by (cases "CBB_flush alloc st i")
  note ok1 = cb_ok_flush [OF assms(1,2) fl]
  show ?thesis
  proof (cases ok1)
    case False
    with fl assms(3) ok1 show ?thesis by (auto simp: CBB_add_asn1_def)
  next
    case True
    obtain os1 where os1: "abs_flush i os = Some os1" "cbb_rep st1 os1" "length os1 = Suc i"
      using flush_rep [OF assms(1,2), of i st1] fl True by auto
    obtain ok2 st2 where t: "CBB_add_u8 alloc st1 i tag = (ok2, st2)" by (cases "CBB_add_u8 alloc st1 i tag")
    have e2: "cb_ok (cb_base st2) \<and>
        (ok2 \<longrightarrow> (\<exists>os'. abs_append i [tag] os1 = Some os' \<and> cbb_rep st2 os'))"
      using exec_add_u [OF assms(1) os1(2) _ t [unfolded CBB_add_u8_def]] by simp
    show ?thesis
    proof (cases ok2)
      case False
      with fl True t assms(3) e2 show ?thesis by (auto simp: CBB_add_asn1_def)
    next
      case t2: True
      let ?os2 = "os1[i := (fst (os1 ! i), snd (os1 ! i) @ [tag])]"
      have os2: "cbb_rep st2 ?os2" "length ?os2 = Suc i"
        using e2 t2 os1(3) abs_flush_last [OF os1(3)] by (auto simp: abs_append_def)
      define st3 where
        "st3 = st2\<lparr>cb_chain := (cb_chain st2)[i := (cb_chain st2 ! i)\<lparr>cb_offset := cb_len (cb_base st2)\<rparr>]\<rparr>"
      have rep3: "cbb_rep st3 ?os2" unfolding st3_def by (rule rep_set_offset [OF os2])
      have len3: "length (cb_chain st3) = Suc i" using cbb_rep_length [OF rep3] os2(2) by simp
      have fl3: "CBB_flush alloc st3 i = (True, st3)"
      proof -
        have "drop i (cb_chain st3) = [cb_chain st3 ! i]"
          using len3 by (metis Cons_nth_drop_Suc lessI drop_all order_refl)
        moreover have "take i (cb_chain st3) @ [cb_chain st3 ! i] = cb_chain st3"
          using len3 by (metis take_Suc_conv_app_nth lessI take_all order_refl)
        ultimately show ?thesis by (simp add: CBB_flush_def)
      qed
      obtain ok4 b4 where z: "cbb_buffer_add_u alloc (cb_base st3) 0 1 = (ok4, b4)"
        by (cases "cbb_buffer_add_u alloc (cb_base st3) 0 1")
      have w: "cb_ok b4 \<and> (ok4 \<longrightarrow> cb_contents b4 = cb_contents (cb_base st3) @ [0])"
        using buffer_add_u [OF _ assms(1) _ z] rep3 by (simp add: cbb_rep_def chain_rep_def)
      have add4: "CBB_add_u8 alloc st3 i 0 = (ok4, st3\<lparr>cb_base := b4\<rparr>)"
        using fl3 z by (simp add: CBB_add_u8_def cbb_add_u_def)
      have st2': "CBB_add_asn1 alloc st i tag = (if ok4 then
          (True, \<lparr>cb_base = b4, cb_chain = (cb_chain st3)[i := (cb_chain st3 ! i)
             \<lparr>cb_pending_len_len := 1, cb_pending_is_asn1 := True\<rparr>] @ [cbb_zero]\<rparr>)
          else (False, st3\<lparr>cb_base := b4\<rparr>))"
        using fl True t t2 add4 by (simp add: CBB_add_asn1_def Let_def st3_def [symmetric])
      show ?thesis
      proof (cases ok4)
        case False
        with st2' assms(3) w show ?thesis by auto
      next
        case t4: True
        let ?f = "(cb_chain st3 ! i)\<lparr>cb_pending_len_len := 1, cb_pending_is_asn1 := True\<rparr>"
        have off: "cb_offset (cb_chain st3 ! i) = length (cb_contents (cb_base st3))"
          using len3 e2 length_cb_contents [of "cb_base st2"] by (simp add: st3_def)
        have "cbb_rep \<lparr>cb_base = b4, cb_chain = (cb_chain st3)[i := ?f] @ [cbb_zero]\<rparr> (?os2 @ [(Asn1, [])])"
          using w t4 off by (intro open_rep [OF rep3 os2(2)]) auto
        with st2' t4 assms(3) w os1(1) show ?thesis
          by (auto simp: abs_open_def abs_append_def)
      qed
    qed
  qed
qed

section \<open>The interface as a whole\<close>

lemma cbb_exec_refines:
  assumes "alloc_ok alloc" "cbb_rep st os" "call_ok call" "cbb_exec alloc call st = (ok, st')"
  shows "cb_ok (cb_base st') \<and> (ok \<longrightarrow> (\<exists>os'. abs_exec call os = Some os' \<and> cbb_rep st' os'))"
proof (cases call)
  case (AddBytes i data)
  with exec_add_bytes [OF assms(1,2)] assms(3,4) show ?thesis by simp
next
  case (AddU8 i v)
  with exec_add_u [OF assms(1,2), of 1 i "ucast v" ok st'] assms(4) show ?thesis by (simp add: CBB_add_u8_def)
next
  case (AddU16 i v)
  have "unat (ucast v :: u32) = unat v"
    by (simp add: unsigned_ucast_eq take_bit_eq_mod less_trans [OF unsigned_less])
  with AddU16 exec_add_u [OF assms(1,2), of 2 i "ucast v" ok st'] assms(4) show ?thesis
    by (simp add: CBB_add_u16_def)
next
  case (AddU24 i v)
  with exec_add_u [OF assms(1,2), of 3 i v ok st'] assms(4) show ?thesis by (simp add: CBB_add_u24_def)
next
  case (OpenU8 i)
  with exec_open_len [OF assms(1,2), of 1 i ok st'] assms(4) show ?thesis
    by (simp add: CBB_add_u8_length_prefixed_def)
next
  case (OpenU16 i)
  with exec_open_len [OF assms(1,2), of 2 i ok st'] assms(4) show ?thesis
    by (simp add: CBB_add_u16_length_prefixed_def)
next
  case (OpenU24 i)
  with exec_open_len [OF assms(1,2), of 3 i ok st'] assms(4) show ?thesis
    by (simp add: CBB_add_u24_length_prefixed_def)
next
  case (OpenAsn1 i t)
  with exec_open_asn1 [OF assms(1,2)] assms(4) show ?thesis by simp
next
  case (Flush i)
  with cb_ok_flush [OF assms(1,2), of i ok st'] flush_rep [OF assms(1,2), of i st'] assms(4)
  show ?thesis by auto
qed

text \<open>A run of calls stops at the first failure.\<close>

fun cbb_run :: "allocator \<Rightarrow> cbb_call list \<Rightarrow> cbb_state \<Rightarrow> bool \<times> cbb_state" where
  "cbb_run alloc [] st = (True, st)"
| "cbb_run alloc (call # calls) st =
     (case cbb_exec alloc call st of
        (False, st') \<Rightarrow> (False, st')
      | (True, st') \<Rightarrow> cbb_run alloc calls st')"

fun abs_run :: "cbb_call list \<Rightarrow> open_objects \<Rightarrow> open_objects option" where
  "abs_run [] os = Some os"
| "abs_run (call # calls) os =
     (case abs_exec call os of None \<Rightarrow> None | Some os' \<Rightarrow> abs_run calls os')"

lemma cbb_run_refines:
  assumes "alloc_ok alloc" "cbb_rep st os" "list_all call_ok calls" "cbb_run alloc calls st = (ok, st')"
  shows "cb_ok (cb_base st') \<and> (ok \<longrightarrow> (\<exists>os'. abs_run calls os = Some os' \<and> cbb_rep st' os'))"
  using assms(2-)
proof (induction calls arbitrary: st os)
  case Nil
  then show ?case by (auto simp: cbb_rep_def chain_rep_def)
next
  case (Cons call calls)
  obtain ok1 st1 where e: "cbb_exec alloc call st = (ok1, st1)" by (cases "cbb_exec alloc call st")
  have r: "cb_ok (cb_base st1) \<and> (ok1 \<longrightarrow> (\<exists>os'. abs_exec call os = Some os' \<and> cbb_rep st1 os'))"
    using cbb_exec_refines [OF assms(1) Cons.prems(1) _ e] Cons.prems(2) by simp
  show ?case
  proof (cases ok1)
    case False
    with Cons.prems(3) e r show ?thesis by auto
  next
    case True
    then obtain os1 where os1: "abs_exec call os = Some os1" "cbb_rep st1 os1" using r by blast
    have "cbb_run alloc calls st1 = (ok, st')" using Cons.prems(3) e True by simp
    with Cons.IH [OF os1(2)] Cons.prems(2) os1(1) show ?thesis by simp
  qed
qed

lemma CBB_init_rep:
  assumes "alloc_ok alloc" "n < size_bound" "CBB_init alloc m n = Some st"
  shows "cbb_rep st [(Top, [])]"
  using assms
  by (auto simp: CBB_init_def cbb_init_def cbb_rep_def chain_rep_def cb_ok_def cb_contents_def
      dest: alloc_okD split: option.splits if_splits)

lemma CBB_finish_output:
  assumes "alloc_ok alloc" "cbb_rep st os" "CBB_finish alloc st 0 w = (Some out, st')"
  shows "close_all os = Some out"
proof -
  obtain st1 where fl: "CBB_flush alloc st 0 = (True, st1)"
    and out: "out = cb_contents (cb_base st1)"
    using assms(3) by (auto simp: CBB_finish_def cb_contents_def split: if_splits prod.splits bool.splits)
  obtain os1 where os1: "abs_flush 0 os = Some os1" "cbb_rep st1 os1"
    using flush_rep [OF assms(1,2) fl] by blast
  obtain d where d: "close_all os = Some d" "os1 = [(fst (os ! 0), d)]"
    using os1(1) by (auto simp: abs_flush_def split: if_splits)
  have "fst (os ! 0) = Top" using os1(2) d(2) by (simp add: cbb_rep_def)
  with os1(2) d out show ?thesis by (simp add: cbb_rep_def chain_rep_def)
qed

text \<open>
  C1: building implements encoding. If the calls of a run on a fresh builder all succeed and
  CBB_finish returns bytes, then the abstract builder accepts the run and the bytes are its
  encoding: every object's contents in order, each behind its big-endian or minimal DER length.
\<close>
theorem cbb_build_encodes:
  assumes "alloc_ok alloc" "n < size_bound" "list_all call_ok calls"
    and "CBB_init alloc m n = Some st" "cbb_run alloc calls st = (True, st1)"
    and "CBB_finish alloc st1 0 w = (Some out, st2)"
  shows "\<exists>os. abs_run calls [(Top, [])] = Some os \<and> close_all os = Some out"
proof -
  have "cbb_rep st [(Top, [])]" by (rule CBB_init_rep [OF assms(1,2,4)])
  then obtain os where os: "abs_run calls [(Top, [])] = Some os" "cbb_rep st1 os"
    using cbb_run_refines [OF assms(1) _ assms(3,5)] by blast
  with CBB_finish_output [OF assms(1) os(2) assms(6)] show ?thesis by blast
qed

section \<open>Fixed buffers\<close>

text \<open>
  What lies in memory behind a fixed buffer of \<open>n\<close> bytes stays as it is.  The invariant asks nothing
  of the contents or of how the objects relate to each other, so failed calls keep it too; of an object it keeps what
  the assertion of \<^verbatim>\<open>CBB_flush\<close> checks.
\<close>

definition fixed_buffer :: "nat \<Rightarrow> bytes \<Rightarrow> cbb_buffer \<Rightarrow> bool" where
  "fixed_buffer n behind b \<longleftrightarrow>
     \<not> cb_can_resize b \<and> cb_cap b = n \<and> cb_len b \<le> n \<and> n < size_bound
       \<and> length (cb_buf b) = n + length behind \<and> drop n (cb_buf b) = behind"

definition object_safe :: "cbb \<Rightarrow> bool" where
  "object_safe f \<longleftrightarrow> cb_offset f < size_bound \<and> cb_pending_len_len f < 256
     \<and> (cb_pending_is_asn1 f \<longrightarrow> cb_pending_len_len f = 1)"

definition fixed_safe :: "nat \<Rightarrow> bytes \<Rightarrow> cbb_state \<Rightarrow> bool" where
  "fixed_safe n behind st \<longleftrightarrow> fixed_buffer n behind (cb_base st) \<and> list_all object_safe (cb_chain st)"

lemma fixed_write:
  "fixed_buffer n behind b \<Longrightarrow> off + length data \<le> n \<Longrightarrow> fixed_buffer n behind (b\<lparr>cb_buf := mem_write (cb_buf b) off data\<rparr>)"
  by (auto simp: fixed_buffer_def drop_mem_write_after)

lemma fixed_store_be:
  "fixed_buffer n behind b \<Longrightarrow> off + k \<le> n \<Longrightarrow>
     fixed_buffer n behind (b\<lparr>cb_buf := fst (cbb_store_be (cb_buf b) off k v)\<rparr>)"
  using fixed_write [of n behind b off "be_bytes k v"] cbb_store_be_eq [of off k "cb_buf b" v]
  by (simp add: fixed_buffer_def)

lemma fixed_add:
  assumes "fixed_buffer n behind b" "k < size_bound" "cbb_buffer_add alloc b k = (r, b')"
  shows "fixed_buffer n behind b' \<and> (\<forall>p. r = Some p \<longrightarrow> p = cb_len b \<and> cb_len b' = cb_len b + k)
    \<and> (r = None \<longrightarrow> b' = b)"
  using assms mod_add_no_overflow [of "cb_len b" k size_bound]
  by (auto simp: cbb_buffer_add_def fixed_buffer_def Let_def split: if_splits)

lemma fixed_add_u:
  assumes "fixed_buffer n behind b" "k < size_bound" "cbb_buffer_add_u alloc b v k = (ok, b')"
  shows "fixed_buffer n behind b'"
proof (cases "cbb_buffer_add alloc b k")
  case (Pair r b1)
  note a = fixed_add [OF assms(1,2) Pair]
  show ?thesis
  proof (cases r)
    case (Some p)
    then have "p + k \<le> n" "fixed_buffer n behind b1" using a by (auto simp: fixed_buffer_def)
    then show ?thesis using fixed_store_be [of n behind b1 p k "unat v"] assms(1,3) Pair Some
      by (auto simp: cbb_buffer_add_u_def split: if_splits)
  qed (use assms a Pair in \<open>auto simp: cbb_buffer_add_u_def split: if_splits\<close>)
qed

lemma asn1_len_len_fits:
  assumes "asn1_len_len m = Some (l, x)"
  shows "1 \<le> l \<and> l \<le> 5 \<and> (if l = 1 then 0 else m) div 256 ^ (l - 1) = 0"
  using assms by (auto simp: asn1_len_len_def div_eq_0_iff split: if_splits)

lemma fixed_write_prefix:
  assumes b: "fixed_buffer n behind b" and f: "object_safe f" "cb_pending_len_len f \<noteq> 0"
    and w: "cbb_write_prefix alloc b f = (ok, b', f')"
  shows "fixed_buffer n behind b' \<and> object_safe f'"
proof -
  let ?o = "cb_offset f" and ?p = "cb_pending_len_len f"
  let ?s = "(?o + ?p) mod size_bound"
  let ?len = "cb_len b - ?s"
  have len: "cb_len b \<le> n" "n < size_bound" using b by (simp_all add: fixed_buffer_def)
  show ?thesis
  proof (cases "?s < ?o \<or> cb_len b < ?s")
    case True
    then show ?thesis using w b f by (auto simp: cbb_write_prefix_def Let_def)
  next
    case False
    have s: "?s = ?o + ?p"
      using mod_add_no_overflow [of ?o ?p size_bound] False f(1) by (simp add: object_safe_def)
    show ?thesis
    proof (cases "cb_pending_is_asn1 f")
      case False': False
      have "fixed_buffer n behind (b\<lparr>cb_buf := fst (cbb_store_be (cb_buf b) ?o ?p ?len)\<rparr>)"
        using fixed_store_be [OF b, of ?o ?p] False s len by simp
      then show ?thesis using w f(1) False False' s
        by (auto simp: cbb_write_prefix_def Let_def object_safe_def split: prod.splits if_splits)
    next
      case True
      then have p1: "?p = 1" using f(1) by (simp add: object_safe_def)
      show ?thesis
      proof (cases "asn1_len_len ?len")
        case None
        then show ?thesis using w b f(1) False True by (auto simp: cbb_write_prefix_def Let_def)
      next
        case (Some lx)
        obtain l x where lx: "lx = (l, x)" by (cases lx)
        note fits = asn1_len_len_fits [OF Some [unfolded lx]]
        obtain r b1 where a: "cbb_buffer_add alloc b (l - 1) = (r, b1)" by (cases "cbb_buffer_add alloc b (l - 1)")
        have lb: "l - 1 < size_bound" using fits by linarith
        note add = fixed_add [OF b lb a]
        define moved where "moved =
          (if l \<noteq> 1 then (case r of None \<Rightarrow> (False, b1)
             | Some _ \<Rightarrow> (True, b1\<lparr>cb_buf := mem_write (cb_buf b1) (?s + (l - 1)) (mem_read (cb_buf b1) ?s ?len)\<rparr>))
           else (True, b))"
        have fb: "fixed_buffer n behind (snd moved)"
        proof (cases "l = 1 \<or> r = None")
          case True
          then show ?thesis using b add by (auto simp: moved_def)
        next
          case moves: False
          then obtain q where q: "r = Some q" "l \<noteq> 1" by blast
          have "cb_len b1 \<le> n" "length (mem_read (cb_buf b1) ?s ?len) \<le> ?len"
            using add by (auto simp: fixed_buffer_def mem_read_def)
          moreover have l1: "cb_len b1 = cb_len b + (l - 1)" and ls: "?s \<le> cb_len b" using add q(1) False by auto
          ultimately have "?s + (l - 1) + length (mem_read (cb_buf b1) ?s ?len) \<le> n"
            using l1 ls by linarith
          then show ?thesis using fixed_write [of n behind b1] add q by (simp add: moved_def)
        qed
        have room: "?o + 1 + (l - 1) \<le> n" if mv: "fst moved"
        proof (cases "l = 1")
          case True
          then show ?thesis using False s p1 len by simp
        next
          case l: False
          then obtain q where "r = Some q" using mv by (cases r) (simp_all add: moved_def)
          then have "cb_len b + (l - 1) \<le> n" using add by (simp add: fixed_buffer_def)
          then show ?thesis using False s p1 by simp
        qed
        let ?b2 = "(snd moved)\<lparr>cb_buf := mem_write (cb_buf (snd moved)) ?o [x]\<rparr>"
        let ?st = "cbb_store_be (cb_buf ?b2) (?o + 1) (l - 1) (if l = 1 then 0 else ?len)"
        have res: "cbb_write_prefix alloc b f =
          (if fst moved then
             (if snd ?st \<noteq> 0 then (False, ?b2\<lparr>cb_buf := fst ?st\<rparr>, f\<lparr>cb_offset := ?o + 1, cb_pending_len_len := l - 1\<rparr>)
              else (True, ?b2\<lparr>cb_buf := fst ?st\<rparr>,
                f\<lparr>cb_offset := 0, cb_pending_len_len := 0, cb_pending_is_asn1 := False\<rparr>))
           else (False, snd moved, f))"
          using False True Some lx a unfolding cbb_write_prefix_def moved_def
          by (cases r) (simp_all add: Let_def case_prod_beta)
        show ?thesis
        proof (cases "fst moved")
          case False
          then show ?thesis using w res fb f(1) by auto
        next
          case moved: True
          note rm = room [OF moved]
          have b2: "fixed_buffer n behind ?b2" using fixed_write [OF fb, of ?o "[x]"] rm by simp
          have "?o + 1 + (l - 1) \<le> length (cb_buf ?b2)" using b2 rm by (simp add: fixed_buffer_def)
          then have "snd ?st = 0" using cbb_store_be_eq fits by simp
          moreover have "fixed_buffer n behind (?b2\<lparr>cb_buf := fst ?st\<rparr>)" by (rule fixed_store_be [OF b2 rm])
          ultimately show ?thesis using w res moved by (auto simp: object_safe_def)
        qed
      qed
    qed
  qed
qed

lemma fixed_flush_chain:
  "cbb_flush_chain alloc b fs = (ok, b', fs') \<Longrightarrow> fixed_buffer n behind b \<Longrightarrow> list_all object_safe fs \<Longrightarrow>
     fixed_buffer n behind b' \<and> list_all object_safe fs'"
proof (induction alloc b fs arbitrary: ok b' fs' rule: cbb_flush_chain.induct)
  case (3 alloc b f g rest)
  obtain ok1 b1 ch1 where fl: "cbb_flush_chain alloc b (g # rest) = (ok1, b1, ch1)"
    by (cases "cbb_flush_chain alloc b (g # rest)")
  obtain ok2 b2 f2 where w: "cbb_write_prefix alloc b1 f = (ok2, b2, f2)"
    by (cases "cbb_write_prefix alloc b1 f")
  show ?case
  proof (cases "cb_pending_len_len f = 0")
    case False
    have 1: "fixed_buffer n behind b1 \<and> list_all object_safe ch1" using "3.IH" [OF False fl] "3.prems" by simp
    then have 2: "fixed_buffer n behind b2 \<and> object_safe f2"
      using fixed_write_prefix [OF _ _ False w, of n behind] "3.prems"(3) by simp
    show ?thesis using "3.prems" False fl w 1 2 by (cases ok1; cases ok2) auto
  qed (use "3.prems" in simp)
qed auto

lemma fixed_flush:
  assumes "CBB_flush alloc st i = (ok, st')" "fixed_safe n behind st"
  shows "fixed_safe n behind st' \<and> (ok \<longrightarrow> i < length (cb_chain st'))"
proof -
  have l: "list_all object_safe (take i (cb_chain st))" "list_all object_safe (drop i (cb_chain st))"
    using assms(2) by (auto simp: fixed_safe_def list_all_iff dest: in_set_takeD in_set_dropD)
  have ne: "fs' \<noteq> []" if "cbb_flush_chain alloc b fs = (True, b', fs')" for b fs b' fs'
    using that by (cases "(alloc, b, fs)" rule: cbb_flush_chain.cases) (auto split: if_splits prod.splits bool.splits)
  obtain b' fs' where c: "cbb_flush_chain alloc (cb_base st) (drop i (cb_chain st)) = (ok, b', fs')"
    and st': "st' = \<lparr>cb_base = b', cb_chain = take i (cb_chain st) @ fs'\<rparr>"
    using assms(1) by (auto simp: CBB_flush_def split: prod.splits)
  have "i < length (cb_chain st')" if ok
    using ne [OF c [unfolded eqTrueI [OF that]]] c that st' by (cases "i < length (cb_chain st)") auto
  then show ?thesis using fixed_flush_chain [OF c _ l(2)] assms(2) l(1) st' by (auto simp: fixed_safe_def)
qed

lemma fixed_safe_set:
  "fixed_safe n behind st \<Longrightarrow> fixed_buffer n behind b \<Longrightarrow> object_safe f \<Longrightarrow> list_all object_safe fs \<Longrightarrow>
     fixed_safe n behind \<lparr>cb_base = b, cb_chain = (cb_chain st)[i := f] @ fs\<rparr>"
  by (auto simp: fixed_safe_def list_all_iff dest!: subsetD [OF set_update_subset_insert])

lemma fixed_safe_base:
  "fixed_safe n behind st \<Longrightarrow> fixed_buffer n behind b \<Longrightarrow> fixed_safe n behind (st\<lparr>cb_base := b\<rparr>)"
  by (simp add: fixed_safe_def)

lemma fixed_safe_object: "fixed_safe n behind st \<Longrightarrow> i < length (cb_chain st) \<Longrightarrow> object_safe (cb_chain st ! i)"
  by (simp add: fixed_safe_def list_all_length)

lemma fixed_add_number:
  assumes "fixed_safe n behind st" "k < size_bound" "cbb_add_u alloc st i v k = (ok, st')"
  shows "fixed_safe n behind st' \<and> (ok \<longrightarrow> i < length (cb_chain st'))"
proof -
  obtain ok1 st1 where fl: "CBB_flush alloc st i = (ok1, st1)" by (cases "CBB_flush alloc st i")
  obtain ok2 b where a: "cbb_buffer_add_u alloc (cb_base st1) v k = (ok2, b)"
    by (cases "cbb_buffer_add_u alloc (cb_base st1) v k")
  note s = fixed_flush [OF fl assms(1)]
  have "fixed_buffer n behind b" using fixed_add_u [OF _ assms(2) a] s by (simp add: fixed_safe_def)
  then show ?thesis using s fl a assms(3) fixed_safe_base [of n behind st1 b]
    by (cases ok1) (auto simp: cbb_add_u_def)
qed

lemma fixed_open_len:
  assumes "fixed_safe n behind st" "k < 256" "cbb_add_length_prefixed alloc st i k = (ok, st')"
  shows "fixed_safe n behind st'"
proof -
  obtain ok1 st1 where fl: "CBB_flush alloc st i = (ok1, st1)" by (cases "CBB_flush alloc st i")
  note s = fixed_flush [OF fl assms(1)]
  show ?thesis
  proof (cases ok1)
    case False
    then show ?thesis using s fl assms(3) by (auto simp: cbb_add_length_prefixed_def)
  next
    case True
    obtain r b where a: "cbb_buffer_add alloc (cb_base st1) k = (r, b)" by (cases "cbb_buffer_add alloc (cb_base st1) k")
    have k: "k < size_bound" using assms(2) by simp
    have fb: "fixed_buffer n behind (cb_base st1)" using s by (simp add: fixed_safe_def)
    note add = fixed_add [OF fb k a]
    have "object_safe (cb_chain st1 ! i)" using fixed_safe_object s True by blast
    then have o: "object_safe ((cb_chain st1 ! i)\<lparr>cb_offset := cb_len (cb_base st1)\<rparr>)"
      "object_safe ((cb_chain st1 ! i)\<lparr>cb_offset := cb_len (cb_base st1), cb_pending_len_len := k, cb_pending_is_asn1 := False\<rparr>)"
      using fb assms(2) by (auto simp: object_safe_def fixed_buffer_def)
    have z: "object_safe cbb_zero" by (simp add: object_safe_def cbb_zero_def)
    show ?thesis
    proof (cases r)
      case None
      then show ?thesis using fl True a assms(3) fixed_safe_set [of n behind st1 b _ "[]" i, OF _ _ o(1)] s add
        by (auto simp: cbb_add_length_prefixed_def Let_def)
    next
      case (Some p)
      then have "fixed_buffer n behind (b\<lparr>cb_buf := mem_write (cb_buf b) p (replicate k 0)\<rparr>)"
        using fixed_write [of n behind b p "replicate k 0"] add by (simp add: fixed_buffer_def)
      then show ?thesis using Some fl True a assms(3) fixed_safe_set [of n behind st1 _ _ "[cbb_zero]" i, OF _ _ o(2)] s z
        by (auto simp: cbb_add_length_prefixed_def Let_def)
    qed
  qed
qed

lemma fixed_open_asn1:
  assumes "fixed_safe n behind st" "CBB_add_asn1 alloc st i tag = (ok, st')"
  shows "fixed_safe n behind st'"
proof -
  obtain ok1 st1 where 1: "CBB_flush alloc st i = (ok1, st1)" by (cases "CBB_flush alloc st i")
  obtain ok2 st2 where 2: "CBB_add_u8 alloc st1 i tag = (ok2, st2)" by (cases "CBB_add_u8 alloc st1 i tag")
  let ?f = "(cb_chain st2 ! i)\<lparr>cb_offset := cb_len (cb_base st2)\<rparr>"
  let ?st3 = "st2\<lparr>cb_chain := (cb_chain st2)[i := ?f]\<rparr>"
  obtain ok4 st4 where 4: "CBB_add_u8 alloc ?st3 i 0 = (ok4, st4)" by (cases "CBB_add_u8 alloc ?st3 i 0")
  note s1 = fixed_flush [OF 1 assms(1)]
  have s2: "fixed_safe n behind st2 \<and> (ok2 \<longrightarrow> i < length (cb_chain st2))"
    using fixed_add_number [OF _ _ 2 [unfolded CBB_add_u8_def], of n behind] s1 by simp
  show ?thesis
  proof (cases "ok1 \<and> ok2")
    case False
    then show ?thesis using assms(2) 1 2 s1 s2 by (cases ok1; cases ok2) (auto simp: CBB_add_asn1_def)
  next
    case True
    have f: "object_safe ?f"
      using fixed_safe_object [of n behind st2 i] s2 True by (auto simp: object_safe_def fixed_safe_def fixed_buffer_def)
    have "fixed_safe n behind ?st3"
      using fixed_safe_set [of n behind st2 "cb_base st2" ?f "[]" i] s2 f by (simp add: fixed_safe_def)
    then have s4: "fixed_safe n behind st4 \<and> (ok4 \<longrightarrow> i < length (cb_chain st4))"
      using fixed_add_number [OF _ _ 4 [unfolded CBB_add_u8_def], of n behind] by simp
    have "object_safe ((cb_chain st4 ! i)\<lparr>cb_pending_len_len := 1, cb_pending_is_asn1 := True\<rparr>)" if ok4
      using fixed_safe_object [of n behind st4 i] s4 that by (auto simp: object_safe_def)
    moreover have "object_safe cbb_zero" by (simp add: object_safe_def cbb_zero_def)
    ultimately show ?thesis using assms(2) 1 2 4 True s4
        fixed_safe_set [of n behind st4 "cb_base st4" _ "[cbb_zero]" i]
      by (cases ok4) (auto simp: CBB_add_asn1_def Let_def fixed_safe_def)
  qed
qed

lemma fixed_add_bytes:
  assumes "fixed_safe n behind st" "length data < size_bound" "CBB_add_bytes alloc st i data = (ok, st')"
  shows "fixed_safe n behind st'"
proof -
  obtain ok1 st1 where fl: "CBB_flush alloc st i = (ok1, st1)" by (cases "CBB_flush alloc st i")
  obtain r b where a: "cbb_buffer_add alloc (cb_base st1) (length data) = (r, b)"
    by (cases "cbb_buffer_add alloc (cb_base st1) (length data)")
  note s = fixed_flush [OF fl assms(1)]
  have fb: "fixed_buffer n behind (cb_base st1)" using s by (simp add: fixed_safe_def)
  note add = fixed_add [OF fb assms(2) a]
  have "fixed_buffer n behind (b\<lparr>cb_buf := mem_write (cb_buf b) p data\<rparr>)" if "r = Some p" for p
    using fixed_write [of n behind b p data] add that by (simp add: fixed_buffer_def)
  then show ?thesis using assms(3) s fl a add by (cases ok1; cases r) (auto simp: CBB_add_bytes_def fixed_safe_base)
qed

text \<open>
  Any call at all: those of \<open>cbb_call\<close>, space the caller fills with \<open>data\<close> through the pointer it
  gets, and finishing, with or without the out pointers.
\<close>

datatype cbb_any = Call cbb_call | AddSpace nat bytes | Finish nat bool

fun any_exec :: "allocator \<Rightarrow> cbb_any \<Rightarrow> cbb_state \<Rightarrow> cbb_state" where
  "any_exec alloc (Call c) st = snd (cbb_exec alloc c st)"
| "any_exec alloc (AddSpace i data) st =
     (case CBB_add_space alloc st i (length data) of
        (None, st') \<Rightarrow> st'
      | (Some p, st') \<Rightarrow> st'\<lparr>cb_base := (cb_base st')\<lparr>cb_buf := mem_write (cb_buf (cb_base st')) p data\<rparr>\<rparr>)"
| "any_exec alloc (Finish i want) st = snd (CBB_finish alloc st i want)"

fun any_ok :: "cbb_any \<Rightarrow> bool" where
  "any_ok (Call c) \<longleftrightarrow> call_ok c"
| "any_ok (AddSpace i data) \<longleftrightarrow> length data < size_bound"
| "any_ok (Finish i want) \<longleftrightarrow> True"

lemma fixed_exec:
  assumes "fixed_safe n behind st" "call_ok c"
  shows "fixed_safe n behind (snd (cbb_exec alloc c st))"
proof -
  obtain ok st' where e: "cbb_exec alloc c st = (ok, st')" by (cases "cbb_exec alloc c st")
  have "fixed_safe n behind st'"
  proof (cases c)
    case (AddBytes i data)
    then show ?thesis using e assms(2) fixed_add_bytes [OF assms(1)] by simp
  next
    case (OpenAsn1 i t)
    then show ?thesis using e fixed_open_asn1 [OF assms(1)] by simp
  next
    case (Flush i)
    then show ?thesis using e fixed_flush [OF _ assms(1)] by simp
  next
    case (AddU8 i v)
    then show ?thesis using e fixed_add_number [OF assms(1), of 1 alloc i "ucast v" ok st'] by (simp add: CBB_add_u8_def)
  next
    case (AddU16 i v)
    then show ?thesis using e fixed_add_number [OF assms(1), of 2 alloc i "ucast v" ok st'] by (simp add: CBB_add_u16_def)
  next
    case (AddU24 i v)
    then show ?thesis using e fixed_add_number [OF assms(1), of 3 alloc i v ok st'] by (simp add: CBB_add_u24_def)
  next
    case (OpenU8 i)
    then show ?thesis using e fixed_open_len [OF assms(1), of 1 alloc i ok st'] by (simp add: CBB_add_u8_length_prefixed_def)
  next
    case (OpenU16 i)
    then show ?thesis using e fixed_open_len [OF assms(1), of 2 alloc i ok st'] by (simp add: CBB_add_u16_length_prefixed_def)
  next
    case (OpenU24 i)
    then show ?thesis using e fixed_open_len [OF assms(1), of 3 alloc i ok st'] by (simp add: CBB_add_u24_length_prefixed_def)
  qed
  then show ?thesis using e by simp
qed

lemma fixed_any:
  assumes "fixed_safe n behind st" "any_ok c"
  shows "fixed_safe n behind (any_exec alloc c st)"
proof (cases c)
  case (Call d)
  then show ?thesis using fixed_exec [OF assms(1)] assms(2) by simp
next
  case (AddSpace i data)
  obtain ok1 st1 where fl: "CBB_flush alloc st i = (ok1, st1)" by (cases "CBB_flush alloc st i")
  obtain r b where a: "cbb_buffer_add alloc (cb_base st1) (length data) = (r, b)"
    by (cases "cbb_buffer_add alloc (cb_base st1) (length data)")
  note s = fixed_flush [OF fl assms(1)]
  have fb: "fixed_buffer n behind (cb_base st1)" using s by (simp add: fixed_safe_def)
  have add: "fixed_buffer n behind b \<and> (\<forall>p. r = Some p \<longrightarrow> p = cb_len (cb_base st1) \<and> cb_len b = cb_len (cb_base st1) + length data)"
    using fixed_add [OF fb _ a] assms(2) AddSpace by simp
  then have "fixed_buffer n behind (b\<lparr>cb_buf := mem_write (cb_buf b) p data\<rparr>)" if "r = Some p" for p
    using fixed_write [of n behind b p data] that by (simp add: fixed_buffer_def)
  then show ?thesis using s fl a add AddSpace by (cases ok1; cases r) (auto simp: CBB_add_space_def fixed_safe_base)
next
  case (Finish i want)
  obtain ok1 st1 where fl: "CBB_flush alloc st i = (ok1, st1)" by (cases "CBB_flush alloc st i")
  show ?thesis using fixed_flush [OF fl assms(1)] assms(1) fl Finish
    by (cases ok1) (auto simp: CBB_finish_def CBB_cleanup_def fixed_safe_def)
qed

lemma fixed_fold:
  "fixed_safe n behind st \<Longrightarrow> list_all any_ok calls \<Longrightarrow> fixed_safe n behind (fold (any_exec alloc) calls st)"
  by (induction calls arbitrary: st) (simp_all add: fixed_any)

text \<open>
  C30: a builder over a caller's fixed buffer never writes outside it. Whatever calls are made on it,
  and going on after calls that fail: the memory behind the buffer is unchanged, the buffer is never
  reallocated, the bytes in use fit in it, what CBB_finish returns is the first bytes of it, and no
  assertion of CBB_flush can fail.
\<close>
theorem cbb_fixed_never_overflows:
  assumes "length buf < size_bound" "list_all any_ok calls"
    and "CBB_init_fixed True (buf @ behind) (length buf) = (Some st, freed)"
  shows "let st' = fold (any_exec alloc) calls st in
    drop (length buf) (cb_buf (cb_base st')) = behind \<and>
    length (cb_buf (cb_base st')) = length buf + length behind \<and>
    cb_cap (cb_base st') = length buf \<and> cb_len (cb_base st') \<le> length buf \<and>
    (\<forall>i w out st''. CBB_finish alloc st' i w = (Some out, st'') \<longrightarrow>
       length out \<le> length buf \<and> (\<exists>rest. cb_buf (cb_base st'') = out @ rest)) \<and>
    (\<forall>f \<in> set (cb_chain st'). cb_pending_is_asn1 f \<longrightarrow> cb_pending_len_len f = 1)"
proof -
  let ?st = "fold (any_exec alloc) calls st"
  have "st = \<lparr>cb_base = \<lparr>cb_buf = buf @ behind, cb_len = 0, cb_cap = length buf, cb_can_resize = False\<rparr>,
      cb_chain = [cbb_zero\<lparr>cb_is_top_level := True\<rparr>]\<rparr>"
    using assms(3) by (auto simp: CBB_init_fixed_def cbb_init_def)
  then have "fixed_safe (length buf) behind st"
    using assms(1) by (simp add: fixed_safe_def fixed_buffer_def object_safe_def cbb_zero_def)
  then have safe: "fixed_safe (length buf) behind ?st" using fixed_fold assms(2) by blast
  have fin: "length out \<le> length buf \<and> (\<exists>rest. cb_buf (cb_base st'') = out @ rest)"
    if "CBB_finish alloc ?st i w = (Some out, st'')" for i w out st''
  proof -
    obtain ok1 st1 where fl: "CBB_flush alloc ?st i = (ok1, st1)" by (cases "CBB_flush alloc ?st i")
    have "out = take (cb_len (cb_base st1)) (cb_buf (cb_base st1))" "cb_base st'' = cb_base st1"
      using that fl by (cases ok1; auto simp: CBB_finish_def CBB_cleanup_def split: if_splits)+
    moreover have "cb_len (cb_base st1) \<le> length buf"
      using fixed_flush [OF fl safe] by (simp add: fixed_safe_def fixed_buffer_def)
    ultimately show ?thesis using append_take_drop_id [of "cb_len (cb_base st1)" "cb_buf (cb_base st1)"]
      by (intro conjI exI [of _ "drop (cb_len (cb_base st1)) (cb_buf (cb_base st1))"]) simp_all
  qed
  show ?thesis using safe fin
    by (auto simp: Let_def fixed_safe_def fixed_buffer_def list_all_iff object_safe_def)
qed

section \<open>What the builder writes, the reader reads\<close>

lemma cbs_over_ok: "cbs_ok (CBS_init out (length out)) \<and> cbs_bytes (CBS_init out (length out)) = out"
  using cbs_bytes_init [of "length out" out] by simp

text \<open>
  C20: a round trip through both halves of the library. Bytes written into an ASN.1 element inside
  a 16-bit length-prefixed block, finished, and parsed with CBS_get_u16_length_prefixed and
  CBS_get_asn1, come back unchanged, with nothing left over at either level.
\<close>
theorem cbb_cbs_roundtrip:
  assumes "alloc_ok alloc" "n < size_bound" "length content < size_bound" "t AND 31 \<noteq> 31"
    and "CBB_init alloc m n = Some st"
    and "cbb_run alloc [OpenU16 0, OpenAsn1 1 t, AddBytes 2 content] st = (True, st1)"
    and "CBB_finish alloc st1 0 w = (Some out, st2)"
  shows "\<exists>inner c1 body c2.
    CBS_get_u16_length_prefixed (CBS_init out (length out)) = (Some inner, c1) \<and> cbs_bytes c1 = [] \<and>
    CBS_get_asn1 inner (ucast t) = Some (Some body, c2) \<and> cbs_bytes c2 = [] \<and>
    cbs_bytes body = content"
proof -
  let ?calls = "[OpenU16 0, OpenAsn1 1 t, AddBytes 2 content]"
  have "cbb_rep st [(Top, [])]" by (rule CBB_init_rep [OF assms(1,2,5)])
  then obtain os where os: "abs_run ?calls [(Top, [])] = Some os" "cbb_rep st1 os"
    using cbb_run_refines [OF assms(1) _ _ assms(6)] assms(3) by auto
  have "os = [(Top, []), (Len 2, [t]), (Asn1, content)]"
    using os(1) by (simp add: abs_open_def abs_append_def abs_flush_def numeral_2_eq_2)
  then have close: "close_all [(Top, []), (Len 2, [t]), (Asn1, content)] = Some out"
    using CBB_finish_output [OF assms(1) os(2) assms(7)] by simp
  let ?el = "t # der_length (length content) @ content"
  have len: "length content < 4294967295" "length ?el < 256 ^ 2"
    and out: "out = be_bytes 2 (length ?el) @ ?el"
    using close by (auto split: if_splits)
  obtain inner c1 where p: "cbs_get_length_prefixed (CBS_init out (length out)) 2 = (Some inner, c1)"
    "cbs_ok inner" "cbs_bytes inner = ?el" "cbs_bytes c1 = []"
    using cbs_get_length_prefixed_of_prefix [of "CBS_init out (length out)" 2 ?el "[]"]
      cbs_over_ok [of out] out len(2) by auto
  obtain body c2 where "CBS_get_asn1 inner (ucast t) = Some (Some body, c2)"
    "cbs_bytes body = content" "cbs_bytes c2 = []"
    using CBS_get_asn1_of_der [OF p(2), of t content "[]"] p(3) assms(4) len(1) by auto
  with p show ?thesis by (simp add: CBS_get_u16_length_prefixed_def)
qed

section \<open>Concrete runs\<close>

text \<open>A run on a growing builder, evaluated.\<close>

abbreviation zero_alloc :: allocator where
  "zero_alloc \<equiv> \<lambda>n. Some (replicate n 0)"

lemma cbb_store_be_numeral:
  "cbb_store_be buf off (numeral k) v =
     cbb_store_be (mem_write buf (off + pred_numeral k) [word_of_nat v]) off (pred_numeral k) (v div 256)"
  by (simp only: numeral_eq_Suc [of k] cbb_store_be.simps)

lemmas cbb_eval = CBB_init_def CBB_init_fixed_def cbb_init_def CBB_add_u16_length_prefixed_def
  cbb_add_length_prefixed_def CBB_flush_def cbb_buffer_add_def CBB_add_asn1_def CBB_add_u8_def
  cbb_add_u_def cbb_buffer_add_u_def c_realloc_def mem_write_def mem_read_def cbb_zero_def
  CBB_add_bytes_def CBB_finish_def cbb_write_prefix_def asn1_len_len_def CBB_cleanup_def Let_def
  replicate_numeral_eq cbb_store_be_numeral

lemma cbb_example:
  "\<exists>st st1 st2. CBB_init zero_alloc True 2 = Some st \<and>
     cbb_run zero_alloc [OpenU16 0, OpenAsn1 1 4, AddBytes 2 [7, 8]] st = (True, st1) \<and>
     CBB_finish zero_alloc st1 0 True = (Some [0, 4, 4, 2, 7, 8], st2)"
  by (simp add: cbb_eval)

theorem cbb_build_encodes_witness:
  "\<exists>os. abs_run [OpenU16 0, OpenAsn1 1 4, AddBytes 2 [7, 8]] [(Top, [])] = Some os \<and>
     close_all os = Some [0, 4, 4, 2, 7, 8]"
proof -
  obtain st st1 st2 where r: "CBB_init zero_alloc True 2 = Some st"
     "cbb_run zero_alloc [OpenU16 0, OpenAsn1 1 4, AddBytes 2 [7, 8]] st = (True, st1)"
     "CBB_finish zero_alloc st1 0 True = (Some [0, 4, 4, 2, 7, 8], st2)"
    using cbb_example by blast
  show ?thesis by (rule cbb_build_encodes [OF _ _ _ r]) simp_all
qed

theorem cbb_fixed_never_overflows_witness:
  "let st' = fold (any_exec zero_alloc)
        [Call (OpenU16 0), AddSpace 1 [5, 6], Call (OpenAsn1 1 4), Call (AddBytes 2 [7, 8]), Finish 0 True, Call (AddU8 1 9)]
        \<lparr>cb_base = \<lparr>cb_buf = [0, 0, 0] @ [1, 2], cb_len = 0, cb_cap = length [0, 0, 0 :: u8], cb_can_resize = False\<rparr>,
          cb_chain = [cbb_zero\<lparr>cb_is_top_level := True\<rparr>]\<rparr>
   in drop 3 (cb_buf (cb_base st')) = [1, 2] \<and> cb_len (cb_base st') \<le> 3"
proof -
  have i: "CBB_init_fixed True ([0, 0, 0] @ [1, 2]) (length [0, 0, 0 :: u8]) =
    (Some \<lparr>cb_base = \<lparr>cb_buf = [0, 0, 0] @ [1, 2], cb_len = 0, cb_cap = length [0, 0, 0 :: u8], cb_can_resize = False\<rparr>,
       cb_chain = [cbb_zero\<lparr>cb_is_top_level := True\<rparr>]\<rparr>, False)"
    by (simp add: CBB_init_fixed_def cbb_init_def)
  have l: "length [0, 0, 0 :: u8] = 3" by simp
  show ?thesis
    using cbb_fixed_never_overflows [OF _ _ i, of "[Call (OpenU16 0), AddSpace 1 [5, 6], Call (OpenAsn1 1 4),
        Call (AddBytes 2 [7, 8]), Finish 0 True, Call (AddU8 1 9)]" zero_alloc]
    unfolding Let_def l by simp
qed

theorem cbb_cbs_roundtrip_witness:
  "\<exists>inner c1 body c2.
    CBS_get_u16_length_prefixed (CBS_init [0, 4, 4, 2, 7, 8] (length [0, 4, 4, 2, 7, 8 :: u8])) = (Some inner, c1) \<and>
    cbs_bytes c1 = [] \<and> CBS_get_asn1 inner (ucast (4 :: u8)) = Some (Some body, c2) \<and>
    cbs_bytes c2 = [] \<and> cbs_bytes body = [7, 8]"
proof -
  obtain st st1 st2 where r: "CBB_init zero_alloc True 2 = Some st"
     "cbb_run zero_alloc [OpenU16 0, OpenAsn1 1 4, AddBytes 2 [7, 8]] st = (True, st1)"
     "CBB_finish zero_alloc st1 0 True = (Some [0, 4, 4, 2, 7, 8], st2)"
    using cbb_example by blast
  show ?thesis by (rule cbb_cbs_roundtrip [OF _ _ _ _ r]) simp_all
qed

end
