(* ===== verification/Stack.thy ===== *)
theory Stack
  imports Prelude "HOL-Library.Multiset"
begin

text \<open>
  The growable pointer array of crypto/stack/stack.c.  A \<^verbatim>\<open>void *\<close> is an option, \<open>None\<close>
  for NULL, and a \<^verbatim>\<open>_STACK *\<close> is an option of the record.  \<open>sk_data\<close> is the whole allocated
  block, of which the first \<open>sk_num\<close> slots are in use; the list of those is the abstract value.
  malloc and realloc are a parameter that yields a fresh block of so many pointers or nothing;
  qsort and bsearch of the C library are parameters too, with their contracts as hypotheses where
  a search is proved right.
\<close>

section \<open>State\<close>

text \<open>A comparison function is its address and what it computes.\<close>

record 'a cmp_func =
  cmp_addr :: nat
  cmp_apply :: "'a option \<Rightarrow> 'a option \<Rightarrow> int"

(* src: include/openssl/stack.h@97-109 struct stack_st *)
record 'a stack =
  sk_num_field :: nat
  sk_data :: "'a option list"
  sk_sorted :: bool
  sk_num_alloc :: nat
  sk_comp :: "'a cmp_func option"

text \<open>An allocator takes a size in bytes; a pointer has eight.\<close>

type_synonym 'a slot_alloc = "nat \<Rightarrow> 'a option list option"

definition slot_alloc_ok :: "'a slot_alloc \<Rightarrow> bool" where
  "slot_alloc_ok alloc \<longleftrightarrow> (\<forall>n b. alloc n = Some b \<longrightarrow> length b = n div 8)"

(* src: crypto/stack/stack.c@61-63 kMinSize *)
definition kMinSize :: nat where
  "kMinSize = 4"

section \<open>Creation and access\<close>

(* src: crypto/stack/stack.c sk_new *)
definition sk_new :: "bool \<Rightarrow> 'a slot_alloc \<Rightarrow> 'a cmp_func option \<Rightarrow> 'a stack option" where
  "sk_new malloc_ok alloc cmp =
     (if \<not> malloc_ok then None
      else case alloc (8 * kMinSize) of
          None \<Rightarrow> None
        | Some _ \<Rightarrow> Some \<lparr>sk_num_field = 0, sk_data = replicate kMinSize None, sk_sorted = False,
                         sk_num_alloc = kMinSize, sk_comp = cmp\<rparr>)"

(* src: crypto/stack/stack.c sk_new_null *)
definition sk_new_null :: "bool \<Rightarrow> 'a slot_alloc \<Rightarrow> 'a stack option" where
  "sk_new_null malloc_ok alloc = sk_new malloc_ok alloc None"

(* src: crypto/stack/stack.c sk_num *)
definition sk_num :: "'a stack option \<Rightarrow> nat" where
  "sk_num sk = (case sk of None \<Rightarrow> 0 | Some s \<Rightarrow> sk_num_field s)"

(* src: crypto/stack/stack.c sk_zero *)
definition sk_zero :: "'a stack option \<Rightarrow> 'a stack option" where
  "sk_zero sk =
     (case sk of
        None \<Rightarrow> None
      | Some s \<Rightarrow>
          (if sk_num_field s = 0 then Some s
           else Some (s\<lparr>sk_data := mem_write (sk_data s) 0 (replicate (sk_num_field s) None),
                        sk_num_field := 0, sk_sorted := False\<rparr>)))"

(* src: crypto/stack/stack.c sk_value *)
definition sk_value :: "'a stack option \<Rightarrow> nat \<Rightarrow> 'a option" where
  "sk_value sk i =
     (case sk of
        None \<Rightarrow> None
      | Some s \<Rightarrow> (if i \<ge> sk_num_field s then None else sk_data s ! i))"

(* src: crypto/stack/stack.c sk_set *)
definition sk_set :: "'a stack option \<Rightarrow> nat \<Rightarrow> 'a option \<Rightarrow> 'a option \<times> 'a stack option" where
  "sk_set sk i v =
     (case sk of
        None \<Rightarrow> (None, None)
      | Some s \<Rightarrow>
          (if i \<ge> sk_num_field s then (None, Some s)
           else (v, Some (s\<lparr>sk_data := (sk_data s)[i := v]\<rparr>))))"

text \<open>The pointers handed to the destructor, in order.\<close>

(* src: crypto/stack/stack.c sk_pop_free *)
definition sk_pop_free :: "'a stack option \<Rightarrow> 'a list" where
  "sk_pop_free sk =
     (case sk of None \<Rightarrow> [] | Some s \<Rightarrow> map the (filter (\<lambda>p. p \<noteq> None) (take (sk_num_field s) (sk_data s))))"

section \<open>Insertion and deletion\<close>

text \<open>The new capacity and its size in bytes: doubled, or one more if doubling overflows.\<close>

(* src: crypto/stack/stack.c@154-168 sk_insert *)
definition sk_grown_alloc :: "nat \<Rightarrow> (nat \<times> nat) option" where
  "sk_grown_alloc num_alloc =
     (let new_alloc = (num_alloc * 2) mod size_bound;
          alloc_size = (new_alloc * 8) mod size_bound;
          overflowed = (new_alloc < num_alloc \<or> alloc_size div 8 \<noteq> new_alloc);
          new_alloc = (if overflowed then (num_alloc + 1) mod size_bound else new_alloc);
          alloc_size = (if overflowed then (new_alloc * 8) mod size_bound else alloc_size)
      in if new_alloc < num_alloc \<or> alloc_size div 8 \<noteq> new_alloc then None
         else Some (new_alloc, alloc_size))"

text \<open>Make room for one more pointer; \<open>None\<close> leaves the stack as it was.\<close>

(* src: crypto/stack/stack.c@153-177 sk_insert *)
definition sk_make_room :: "'a slot_alloc \<Rightarrow> 'a stack \<Rightarrow> 'a stack option" where
  "sk_make_room alloc s =
     (if sk_num_alloc s \<le> sk_num_field s + 1 then
        (case sk_grown_alloc (sk_num_alloc s) of
           None \<Rightarrow> None
         | Some (new_alloc, alloc_size) \<Rightarrow>
             (case alloc alloc_size of
                None \<Rightarrow> None
              | Some b \<Rightarrow>
                  Some (s\<lparr>sk_data := take (length b) (sk_data s) @ drop (length (sk_data s)) b,
                          sk_num_alloc := new_alloc\<rparr>)))
      else Some s)"

(* src: crypto/stack/stack.c@179-190 sk_insert *)
definition sk_place :: "'a stack \<Rightarrow> 'a option \<Rightarrow> nat \<Rightarrow> 'a stack" where
  "sk_place s p pos =
     s\<lparr>sk_data := (if pos \<ge> sk_num_field s then (sk_data s)[sk_num_field s := p]
                  else (mem_write (sk_data s) (pos + 1)
                          (mem_read (sk_data s) pos (sk_num_field s - pos)))[pos := p]),
       sk_num_field := sk_num_field s + 1, sk_sorted := False\<rparr>"

(* src: crypto/stack/stack.c sk_insert *)
definition sk_insert :: "'a slot_alloc \<Rightarrow> 'a stack option \<Rightarrow> 'a option \<Rightarrow> nat \<Rightarrow> nat \<times> 'a stack option" where
  "sk_insert alloc sk p pos =
     (case sk of
        None \<Rightarrow> (0, None)
      | Some s \<Rightarrow>
          (case sk_make_room alloc s of
             None \<Rightarrow> (0, Some s)
           | Some s' \<Rightarrow> (sk_num_field (sk_place s' p pos), Some (sk_place s' p pos))))"

(* src: crypto/stack/stack.c sk_delete *)
definition sk_delete :: "'a stack option \<Rightarrow> nat \<Rightarrow> 'a option \<times> 'a stack option" where
  "sk_delete sk pos =
     (case sk of
        None \<Rightarrow> (None, None)
      | Some s \<Rightarrow>
          (if pos \<ge> sk_num_field s then (None, Some s)
           else
             let n = sk_num_field s;
                 d = (if pos \<noteq> n - 1
                      then mem_write (sk_data s) pos (mem_read (sk_data s) (pos + 1) (n - pos - 1))
                      else sk_data s)
             in (sk_data s ! pos, Some (s\<lparr>sk_data := d, sk_num_field := n - 1\<rparr>))))"

text \<open>The first slot from \<open>i\<close> on that holds \<open>p\<close>.\<close>

(* src: crypto/stack/stack.c sk_delete_ptr *)
fun sk_index_from :: "'a option list \<Rightarrow> 'a option \<Rightarrow> nat \<Rightarrow> nat option" where
  "sk_index_from [] p i = None"
| "sk_index_from (q # qs) p i = (if q = p then Some i else sk_index_from qs p (Suc i))"

(* src: crypto/stack/stack.c sk_delete_ptr *)
definition sk_delete_ptr :: "'a stack option \<Rightarrow> 'a option \<Rightarrow> 'a option \<times> 'a stack option" where
  "sk_delete_ptr sk p =
     (case sk of
        None \<Rightarrow> (None, None)
      | Some s \<Rightarrow>
          (case sk_index_from (take (sk_num_field s) (sk_data s)) p 0 of
             None \<Rightarrow> (None, Some s)
           | Some i \<Rightarrow> sk_delete (Some s) i))"

(* src: crypto/stack/stack.c sk_shift *)
definition sk_shift :: "'a stack option \<Rightarrow> 'a option \<times> 'a stack option" where
  "sk_shift sk =
     (case sk of None \<Rightarrow> (None, None)
      | Some s \<Rightarrow> (if sk_num_field s = 0 then (None, Some s) else sk_delete (Some s) 0))"

(* src: crypto/stack/stack.c sk_push *)
definition sk_push :: "'a slot_alloc \<Rightarrow> 'a stack option \<Rightarrow> 'a option \<Rightarrow> nat \<times> 'a stack option" where
  "sk_push alloc sk p =
     (case sk of None \<Rightarrow> (0, None) | Some s \<Rightarrow> sk_insert alloc (Some s) p (sk_num_field s))"

(* src: crypto/stack/stack.c sk_pop *)
definition sk_pop :: "'a stack option \<Rightarrow> 'a option \<times> 'a stack option" where
  "sk_pop sk =
     (case sk of None \<Rightarrow> (None, None)
      | Some s \<Rightarrow> (if sk_num_field s = 0 then (None, Some s) else sk_delete (Some s) (sk_num_field s - 1)))"

(* src: crypto/stack/stack.c sk_dup *)
definition sk_dup :: "bool \<Rightarrow> 'a slot_alloc \<Rightarrow> 'a stack option \<Rightarrow> 'a stack option" where
  "sk_dup malloc_ok alloc sk =
     (case sk of
        None \<Rightarrow> None
      | Some s \<Rightarrow>
          (case sk_new malloc_ok alloc (sk_comp s) of
             None \<Rightarrow> None
           | Some ret \<Rightarrow>
               (case alloc ((8 * sk_num_alloc s) mod size_bound) of
                  None \<Rightarrow> None
                | Some b \<Rightarrow>
                    Some \<lparr>sk_num_field = sk_num_field s,
                          sk_data = mem_write (take (length b) (sk_data ret) @ drop (length (sk_data ret)) b) 0
                                      (take (sk_num_field s) (sk_data s)),
                          sk_sorted = sk_sorted s, sk_num_alloc = sk_num_alloc s, sk_comp = sk_comp s\<rparr>)))"

section \<open>Sorting and searching\<close>

text \<open>
  qsort sorts the slots in use by the comparison function; calling it with a NULL comparison
  function is undefined (\<open>None\<close>).  bsearch returns the index of a matching slot.
\<close>

type_synonym 'a qsort = "('a option \<Rightarrow> 'a option \<Rightarrow> int) \<Rightarrow> 'a option list \<Rightarrow> 'a option list"
type_synonym 'a bsearch = "('a option \<Rightarrow> 'a option \<Rightarrow> int) \<Rightarrow> 'a option \<Rightarrow> 'a option list \<Rightarrow> nat option"

(* src: crypto/stack/stack.c sk_sort *)
definition sk_sort :: "'a qsort \<Rightarrow> 'a stack \<Rightarrow> 'a stack option" where
  "sk_sort qsort sk =
     (if sk_sorted sk then Some sk
      else case sk_comp sk of
          None \<Rightarrow> None
        | Some c \<Rightarrow>
            Some (sk\<lparr>sk_data := mem_write (sk_data sk) 0
                        (qsort (cmp_apply c) (take (sk_num_field sk) (sk_data sk))),
                     sk_sorted := True\<rparr>))"

(* src: crypto/stack/stack.c sk_is_sorted *)
definition sk_is_sorted :: "'a stack option \<Rightarrow> bool" where
  "sk_is_sorted sk = (case sk of None \<Rightarrow> True | Some s \<Rightarrow> sk_sorted s)"

(* src: crypto/stack/stack.c sk_set_cmp_func *)
definition sk_set_cmp_func :: "'a stack \<Rightarrow> 'a cmp_func option \<Rightarrow> 'a cmp_func option \<times> 'a stack" where
  "sk_set_cmp_func sk cmp =
     (sk_comp sk,
      (if map_option cmp_addr (sk_comp sk) \<noteq> map_option cmp_addr cmp
       then sk\<lparr>sk_sorted := False, sk_comp := cmp\<rparr> else sk\<lparr>sk_comp := cmp\<rparr>))"

text \<open>Step back to the first of a run of equal elements.\<close>

(* src: crypto/stack/stack.c sk_find *)
fun sk_first_equal :: "('a option \<Rightarrow> 'a option \<Rightarrow> int) \<Rightarrow> 'a option \<Rightarrow> 'a option list \<Rightarrow> nat \<Rightarrow> nat" where
  "sk_first_equal c p d 0 = 0"
| "sk_first_equal c p d (Suc i) = (if c p (d ! i) = 0 then sk_first_equal c p d i else Suc i)"

text \<open>The result is -1, 0 or 1, the index found, and the stack (sorted on the way).\<close>

(* src: crypto/stack/stack.c sk_find *)
definition sk_find ::
  "'a qsort \<Rightarrow> 'a bsearch \<Rightarrow> 'a stack option \<Rightarrow> 'a option \<Rightarrow> int \<times> nat option \<times> 'a stack option" where
  "sk_find qsort bsearch sk p =
     (case sk of
        None \<Rightarrow> (-1, None, None)
      | Some s \<Rightarrow>
          (case sk_comp s of
             None \<Rightarrow>
               (case sk_index_from (take (sk_num_field s) (sk_data s)) p 0 of
                  Some i \<Rightarrow> (1, Some i, Some s)
                | None \<Rightarrow> (0, None, Some s))
           | Some c \<Rightarrow>
               (if p = None then (0, None, Some s)
                else
                  (case sk_sort qsort s of
                     None \<Rightarrow> (0, None, Some s)
                   | Some s' \<Rightarrow>
                       (case bsearch (cmp_apply c) p (take (sk_num_field s') (sk_data s')) of
                          None \<Rightarrow> (0, None, Some s')
                        | Some i \<Rightarrow>
                            (1, Some (sk_first_equal (cmp_apply c) p (sk_data s') i), Some s'))))))"

section \<open>The abstract list and the invariant\<close>

definition stk_list :: "'a stack \<Rightarrow> 'a option list" where
  "stk_list s = take (sk_num_field s) (sk_data s)"

definition stk_ok :: "'a stack \<Rightarrow> bool" where
  "stk_ok s \<longleftrightarrow> length (sk_data s) = sk_num_alloc s \<and> sk_num_field s \<le> sk_num_alloc s \<and>
     0 < sk_num_alloc s \<and> sk_num_alloc s * 8 < size_bound"

lemma stk_okD:
  assumes "stk_ok s"
  shows "length (sk_data s) = sk_num_alloc s" "sk_num_field s \<le> sk_num_alloc s"
    "0 < sk_num_alloc s" "sk_num_alloc s * 8 < size_bound"
  using assms by (auto simp: stk_ok_def)

lemma length_stk_list [simp]: "stk_ok s \<Longrightarrow> length (stk_list s) = sk_num_field s"
  by (simp add: stk_list_def stk_ok_def)

text \<open>Whatever capacity is chosen, its size in bytes did not wrap and it grew.\<close>

lemma sk_grown_alloc_sound:
  assumes "sk_grown_alloc n = Some (n', sz)" "0 < n"
  shows "n < n' \<and> sz = n' * 8 \<and> sz < size_bound"
proof -
  have key: "sz < size_bound \<and> sz = m * 8" if "sz = (m * 8) mod size_bound" "sz div 8 = m" for sz m :: nat
  proof -
    have "8 dvd size_bound" by simp
    then have "8 dvd (m * 8) mod size_bound" by (simp add: dvd_mod)
    then have "sz = sz div 8 * 8" using that by simp
    then show ?thesis using that by simp
  qed
  define d where "d = (n * 2) mod size_bound"
  define ds where "ds = (d * 8) mod size_bound"
  define i where "i = (n + 1) mod size_bound"
  define isz where "isz = (i * 8) mod size_bound"
  have g: "sk_grown_alloc n =
      (if d < n \<or> ds div 8 \<noteq> d then (if i < n \<or> isz div 8 \<noteq> i then None else Some (i, isz))
       else Some (d, ds))"
    unfolding sk_grown_alloc_def Let_def isz_def ds_def i_def d_def by (simp split: if_splits)
  show ?thesis
  proof (cases "d < n \<or> ds div 8 \<noteq> d")
    case True
    then have e: "n' = i" "sz = isz" "\<not> i < n" "isz div 8 = i"
      using assms(1) True unfolding g by (simp_all split: if_splits)
    have "i \<noteq> n" unfolding i_def
    proof
      assume h: "(n + 1) mod size_bound = n"
      then have "n < size_bound" by (metis mod_less_divisor zero_less_numeral)
      then consider "n + 1 < size_bound" | "n + 1 = size_bound" by linarith
      then show False
      proof cases
        case 1
        then show ?thesis using h by (simp only: mod_less)
      next
        case 2
        then show ?thesis using h assms(2) by (simp only: mod_self)
      qed
    qed
    then show ?thesis using key [OF isz_def] e by linarith
  next
    case False
    then have e: "n' = d" "sz = ds" "\<not> d < n" "ds div 8 = d"
      using assms(1) False unfolding g by (simp_all split: if_splits)
    have k: "ds < size_bound \<and> ds = d * 8" by (rule key [OF ds_def e(4)])
    have "d \<noteq> n"
    proof
      assume "d = n"
      then have "n < size_bound" "(n * 2) mod size_bound = n" "n * 8 < size_bound"
        using k unfolding d_def by auto
      then show False using assms(2) by simp
    qed
    then show ?thesis using k e by linarith
  qed
qed

text \<open>The capacity after \<open>n\<close> when its size in bytes is below \<open>2 ^ 64\<close>: doubled, or one more.\<close>

definition next_capacity :: "nat \<Rightarrow> nat option" where
  "next_capacity n =
     (if n * 2 * 8 < size_bound then Some (n * 2)
      else if (n + 1) * 8 < size_bound then Some (n + 1) else None)"

lemma sk_grown_alloc_eq:
  assumes "n * 8 < size_bound" "0 < n"
  shows "sk_grown_alloc n = map_option (\<lambda>c. (c, c * 8)) (next_capacity n)"
proof (cases "n * 2 * 8 < size_bound")
  case True
  then have a: "(n * 2) mod size_bound = n * 2" "(n * 2 * 8) mod size_bound = n * 2 * 8"
    by (auto intro: mod_less)
  show ?thesis using True unfolding sk_grown_alloc_def next_capacity_def Let_def a by simp
next
  case False
  have a: "(n * 2) mod size_bound = n * 2" by (rule mod_less) (use assms in simp)
  have o: "(n * 2 * 8) mod size_bound div 8 \<noteq> n * 2"
  proof
    assume "(n * 2 * 8) mod size_bound div 8 = n * 2"
    then have "n * 2 * 8 \<le> (n * 2 * 8) mod size_bound" using div_times_less_eq_dividend [of "(n * 2 * 8) mod size_bound" 8] by simp
    also have "\<dots> < size_bound" by (rule mod_less_divisor) simp
    finally show False using False by simp
  qed
  show ?thesis
  proof (cases "(n + 1) * 8 < size_bound")
    case True
    then have b: "(n + 1) mod size_bound = n + 1" "((n + 1) * 8) mod size_bound = (n + 1) * 8" by (auto intro: mod_less)
    show ?thesis using False True o unfolding sk_grown_alloc_def next_capacity_def Let_def a b by simp
  next
    case False
    then have e: "(n + 1) * 8 = size_bound" using assms by simp
    then have b: "(n + 1) mod size_bound = n + 1" by (intro mod_less) simp
    have c: "((n + 1) * 8) mod size_bound = 0" unfolding e by simp
    show ?thesis using \<open>\<not> n * 2 * 8 < size_bound\<close> False o
      unfolding sk_grown_alloc_def next_capacity_def Let_def a b c by simp
  qed
qed

lemma mem_write_shift_insert:
  assumes "w < n" "n < length d"
  shows "take (Suc n) ((mem_write d (w + 1) (mem_read d w (n - w)))[w := p])
       = take w d @ p # drop w (take n d)"
proof -
  have l: "length (mem_read d w (n - w)) = n - w" using assms by simp
  have "(mem_write d (w + 1) (mem_read d w (n - w))) = take w d @ d ! w # mem_read d w (n - w) @ drop (Suc n) d"
    using assms l by (simp add: mem_write_def take_Suc_conv_app_nth)
  then have "(mem_write d (w + 1) (mem_read d w (n - w)))[w := p]
       = take w d @ p # mem_read d w (n - w) @ drop (Suc n) d"
    using assms by (simp add: list_update_append min_def)
  moreover have "mem_read d w (n - w) = drop w (take n d)" by (simp add: mem_read_def drop_take)
  ultimately show ?thesis using assms l by (simp add: take_Cons')
qed

lemma mem_write_shift_delete:
  assumes "w < n" "n \<le> length d"
  shows "take (n - 1) (mem_write d w (mem_read d (w + 1) (n - w - 1))) = take w (take n d) @ drop (Suc w) (take n d)"
proof -
  have l: "length (mem_read d (w + 1) (n - w - 1)) = n - w - 1" using assms by simp
  have "take (n - 1) (mem_write d w (mem_read d (w + 1) (n - w - 1))) = take w d @ mem_read d (w + 1) (n - w - 1)"
    using assms l by (simp add: mem_write_def)
  then show ?thesis using assms by (simp add: mem_read_def drop_take min_def)
qed

lemma stk_insert_slots:
  assumes "n < length d" "length d = m"
  shows "take (Suc n) (if w \<ge> n then d[n := p]
           else (mem_write d (w + 1) (mem_read d w (n - w)))[w := p])
       = take w (take n d) @ p # drop w (take n d)"
proof (cases "w \<ge> n")
  case True
  then show ?thesis using assms by (simp add: take_Suc_conv_app_nth)
next
  case False
  then show ?thesis using assms mem_write_shift_insert [of w n d p] by (simp add: min_def)
qed

lemma sk_make_room_ok:
  assumes ok: "stk_ok s" and a: "slot_alloc_ok alloc" and r: "sk_make_room alloc s = Some u"
  shows "stk_ok u \<and> sk_num_field u < sk_num_alloc u \<and> stk_list u = stk_list s \<and>
    sk_num_field u = sk_num_field s \<and> sk_comp u = sk_comp s"
proof (cases "sk_num_alloc s \<le> sk_num_field s + 1")
  case False
  then show ?thesis using ok r by (auto simp: sk_make_room_def)
next
  case True
  note d = stk_okD [OF ok]
  obtain m sz where g: "sk_grown_alloc (sk_num_alloc s) = Some (m, sz)"
    using r True by (auto simp: sk_make_room_def split: option.splits)
  obtain b where b: "alloc sz = Some b"
    using r True g by (auto simp: sk_make_room_def split: option.splits)
  have m: "sk_num_alloc s < m \<and> sz = m * 8 \<and> sz < size_bound"
    by (rule sk_grown_alloc_sound) (use g d in simp_all)
  have lb: "length b = m" using a b m by (auto simp: slot_alloc_ok_def)
  show ?thesis
    using r True g b d m lb by (auto simp: sk_make_room_def stk_ok_def stk_list_def)
qed

text \<open>The array grows when at most one slot is free, and this is the only allocation.\<close>

definition room_for ::
  "(nat \<Rightarrow> bool) \<Rightarrow> nat \<Rightarrow> nat \<Rightarrow> nat option" where
  "room_for mem cap n =
     (if n + 1 < cap then Some cap
      else case next_capacity cap of None \<Rightarrow> None | Some c \<Rightarrow> (if mem (c * 8) then Some c else None))"

lemma sk_make_room_capacity:
  assumes "stk_ok s"
  shows "map_option sk_num_alloc (sk_make_room alloc s) =
    room_for (\<lambda>n. alloc n \<noteq> None) (sk_num_alloc s) (sk_num_field s)"
  using sk_grown_alloc_eq [of "sk_num_alloc s"] stk_okD [OF assms]
  by (auto simp: sk_make_room_def room_for_def not_le split: option.splits)

lemma sk_place_ok:
  assumes ok: "stk_ok u" and r: "sk_num_field u < sk_num_alloc u"
  shows "stk_ok (sk_place u p w) \<and> stk_list (sk_place u p w) = take w (stk_list u) @ p # drop w (stk_list u)"
proof -
  note du = stk_okD [OF ok]
  define D where "D = (if w \<ge> sk_num_field u then (sk_data u)[sk_num_field u := p]
                       else (mem_write (sk_data u) (w + 1)
                               (mem_read (sk_data u) w (sk_num_field u - w)))[w := p])"
  have len: "length D = length (sk_data u)"
    unfolding D_def using du r by simp
  have D: "take (Suc (sk_num_field u)) D = take w (stk_list u) @ p # drop w (stk_list u)"
    using stk_insert_slots [of "sk_num_field u" "sk_data u" "sk_num_alloc u" w p] r du
    unfolding D_def by (simp only: stk_list_def)
  have "sk_place u p w = u\<lparr>sk_data := D, sk_num_field := sk_num_field u + 1, sk_sorted := False\<rparr>"
    unfolding sk_place_def D_def ..
  then show ?thesis
    using r du len D by (simp add: stk_ok_def) (simp add: stk_list_def)
qed

lemma sk_insert_ok:
  assumes ok: "stk_ok s" and a: "slot_alloc_ok alloc"
    and r: "sk_insert alloc (Some s) p w = (n, s')"
  shows "case room_for (\<lambda>n. alloc n \<noteq> None) (sk_num_alloc s) (sk_num_field s) of
      None \<Rightarrow> n = 0 \<and> s' = Some s
    | Some c \<Rightarrow> \<exists>t. s' = Some t \<and> stk_ok t \<and> n = Suc (sk_num_field s) \<and> \<not> sk_sorted t \<and> sk_comp t = sk_comp s \<and>
        sk_num_alloc t = c \<and> stk_list t = take w (stk_list s) @ p # drop w (stk_list s)"
proof (cases "sk_make_room alloc s")
  case None
  then show ?thesis using r sk_make_room_capacity [OF ok, of alloc] by (simp add: sk_insert_def)
next
  case (Some u)
  note u = sk_make_room_ok [OF ok a Some]
  have "n = Suc (sk_num_field s)" "s' = Some (sk_place u p w)"
    using r Some u by (auto simp: sk_insert_def sk_place_def)
  moreover have "\<not> sk_sorted (sk_place u p w)" "sk_comp (sk_place u p w) = sk_comp s" "sk_num_alloc (sk_place u p w) = sk_num_alloc u"
    using u by (simp_all add: sk_place_def)
  moreover have "room_for (\<lambda>n. alloc n \<noteq> None) (sk_num_alloc s) (sk_num_field s) = Some (sk_num_alloc u)"
    using sk_make_room_capacity [OF ok, of alloc] Some by simp
  ultimately show ?thesis using sk_place_ok [of u p w] u by simp
qed

lemma sk_delete_ok:
  assumes ok: "stk_ok s"
  shows "if w < sk_num_field s
         then \<exists>t. sk_delete (Some s) w = (stk_list s ! w, Some t) \<and> stk_ok t \<and> sk_sorted t = sk_sorted s \<and>
              sk_comp t = sk_comp s \<and> sk_num_alloc t = sk_num_alloc s \<and>
              stk_list t = take w (stk_list s) @ drop (Suc w) (stk_list s)
         else sk_delete (Some s) w = (None, Some s)"
proof (cases "w < sk_num_field s")
  case False
  then show ?thesis by (simp add: sk_delete_def)
next
  case w: True
  note d = stk_okD [OF ok]
  have l: "take (sk_num_field s - 1) (mem_write (sk_data s) w (mem_read (sk_data s) (w + 1) (sk_num_field s - w - 1)))
      = take w (stk_list s) @ drop (Suc w) (stk_list s)"
    using mem_write_shift_delete [of w "sk_num_field s" "sk_data s"] w d by (simp add: stk_list_def)
  have l2: "take w (sk_data s) = take w (stk_list s) @ drop (Suc w) (stk_list s)" if "w = sk_num_field s - 1"
    using that w d by (simp add: stk_list_def min_def)
  have len: "length (mem_write (sk_data s) w (mem_read (sk_data s) (w + 1) (sk_num_field s - w - 1)))
      = length (sk_data s)" using w d by simp
  have v: "stk_list s ! w = sk_data s ! w" using w by (simp add: stk_list_def)
  define D where "D = (if w \<noteq> sk_num_field s - 1
      then mem_write (sk_data s) w (mem_read (sk_data s) (w + 1) (sk_num_field s - w - 1)) else sk_data s)"
  have "sk_delete (Some s) w = (stk_list s ! w, Some (s\<lparr>sk_data := D, sk_num_field := sk_num_field s - 1\<rparr>))"
    using w by (simp add: sk_delete_def Let_def D_def v)
  moreover have "length D = length (sk_data s)" using len by (simp add: D_def)
  moreover have "take (sk_num_field s - 1) D = take w (stk_list s) @ drop (Suc w) (stk_list s)"
    using l l2 w unfolding D_def by (cases "w = sk_num_field s - 1") simp_all
  ultimately show ?thesis using w d by (simp add: stk_ok_def stk_list_def)
qed

section \<open>Runs of operations against lists\<close>

datatype 'a stack_op =
  Push "'a option" | Insert "'a option" nat | Delete nat | Pop | Shift | Assign nat "'a option" | Zero

datatype 'a stack_result = Count nat | Pointer "'a option"

definition stack_exec ::
  "'a slot_alloc \<Rightarrow> 'a stack_op \<Rightarrow> 'a stack option \<Rightarrow> 'a stack_result \<times> 'a stack option" where
  "stack_exec alloc op sk =
     (case op of
        Push p \<Rightarrow> (case sk_push alloc sk p of (n, s) \<Rightarrow> (Count n, s))
      | Insert p i \<Rightarrow> (case sk_insert alloc sk p i of (n, s) \<Rightarrow> (Count n, s))
      | Delete i \<Rightarrow> (case sk_delete sk i of (p, s) \<Rightarrow> (Pointer p, s))
      | Pop \<Rightarrow> (case sk_pop sk of (p, s) \<Rightarrow> (Pointer p, s))
      | Shift \<Rightarrow> (case sk_shift sk of (p, s) \<Rightarrow> (Pointer p, s))
      | Assign i v \<Rightarrow> (case sk_set sk i v of (p, s) \<Rightarrow> (Pointer p, s))
      | Zero \<Rightarrow> (Pointer None, sk_zero sk))"

fun stack_run ::
  "'a slot_alloc \<Rightarrow> 'a stack_op list \<Rightarrow> 'a stack option \<Rightarrow> 'a stack_result list \<times> 'a stack option" where
  "stack_run alloc [] sk = ([], sk)"
| "stack_run alloc (op # ops) sk =
     (case stack_exec alloc op sk of
        (r, sk') \<Rightarrow> (case stack_run alloc ops sk' of (rs, sk'') \<Rightarrow> (r # rs, sk'')))"

text \<open>The same operations on plain lists.\<close>

fun list_exec :: "'a stack_op \<Rightarrow> 'a option list \<Rightarrow> 'a stack_result \<times> 'a option list" where
  "list_exec (Push p) xs = (Count (length xs + 1), xs @ [p])"
| "list_exec (Insert p i) xs = (Count (length xs + 1), take i xs @ p # drop i xs)"
| "list_exec (Delete i) xs =
     (if i < length xs then (Pointer (xs ! i), take i xs @ drop (Suc i) xs) else (Pointer None, xs))"
| "list_exec Pop xs = (if xs = [] then (Pointer None, xs) else (Pointer (last xs), butlast xs))"
| "list_exec Shift xs = (case xs of [] \<Rightarrow> (Pointer None, []) | x # ys \<Rightarrow> (Pointer x, ys))"
| "list_exec (Assign i v) xs =
     (if i < length xs then (Pointer v, xs[i := v]) else (Pointer None, xs))"
| "list_exec Zero xs = (Pointer None, [])"

fun is_insertion :: "'a stack_op \<Rightarrow> bool" where
  "is_insertion (Push p) = True"
| "is_insertion (Insert p i) = True"
| "is_insertion op = False"

text \<open>
  A run on lists with the capacity of the array beside them.  \<open>mem n\<close> says that \<open>n\<close> bytes can be
  allocated; an insertion is refused, returning 0, when \<open>room_for\<close> finds no room, and only then.
\<close>

fun list_run ::
  "(nat \<Rightarrow> bool) \<Rightarrow> 'a stack_op list \<Rightarrow> 'a option list \<times> nat \<Rightarrow> 'a stack_result list \<times> 'a option list \<times> nat" where
  "list_run mem [] st = ([], st)"
| "list_run mem (op # ops) (xs, cap) =
     (let (r, st) =
        (if is_insertion op then
           case room_for mem cap (length xs) of
             None \<Rightarrow> (Count 0, xs, cap)
           | Some c \<Rightarrow> (fst (list_exec op xs), snd (list_exec op xs), c)
         else (fst (list_exec op xs), snd (list_exec op xs), cap));
        (rs, st) = list_run mem ops st
      in (r # rs, st))"

lemma sk_set_ok:
  assumes "stk_ok s"
  shows "\<exists>t. sk_set (Some s) i v = (if i < sk_num_field s then v else None, Some t) \<and> stk_ok t \<and>
    sk_num_alloc t = sk_num_alloc s \<and>
    stk_list t = (if i < sk_num_field s then (stk_list s)[i := v] else stk_list s)"
  using assms by (auto simp: sk_set_def stk_ok_def stk_list_def take_update_swap not_less)

lemma sk_zero_ok:
  assumes "stk_ok s"
  shows "\<exists>t. sk_zero (Some s) = Some t \<and> stk_ok t \<and> sk_num_alloc t = sk_num_alloc s \<and> stk_list t = []"
  using stk_okD [OF assms] by (auto simp: sk_zero_def stk_ok_def stk_list_def)

lemma stack_exec_refines:
  assumes ok: "stk_ok s" and a: "slot_alloc_ok alloc"
    and r: "stack_exec alloc op (Some s) = (r, s')"
  shows "\<exists>t. s' = Some t \<and> stk_ok t \<and>
    (if is_insertion op then
       case room_for (\<lambda>n. alloc n \<noteq> None) (sk_num_alloc s) (sk_num_field s) of
         None \<Rightarrow> r = Count 0 \<and> t = s
       | Some c \<Rightarrow> list_exec op (stk_list s) = (r, stk_list t) \<and> sk_num_alloc t = c
     else list_exec op (stk_list s) = (r, stk_list t) \<and> sk_num_alloc t = sk_num_alloc s)"
proof -
  note l = length_stk_list [OF ok]
  have ins: ?thesis if "sk_insert alloc (Some s) p w = (n, s')" "r = Count n" "is_insertion op"
    "list_exec op (stk_list s) = (Count (Suc (sk_num_field s)), take w (stk_list s) @ p # drop w (stk_list s))" for n p w
    using sk_insert_ok [OF ok a that(1)] that ok by (auto split: option.splits)
  note del = sk_delete_ok [OF ok]
  show ?thesis
  proof (cases op)
    case (Push p)
    obtain n where n: "sk_insert alloc (Some s) p (sk_num_field s) = (n, s')" "r = Count n"
      using r Push by (auto simp: stack_exec_def sk_push_def split: prod.splits)
    show ?thesis by (rule ins [OF n]) (use Push l in simp_all)
  next
    case (Insert p i)
    obtain n where n: "sk_insert alloc (Some s) p i = (n, s')" "r = Count n"
      using r Insert by (auto simp: stack_exec_def split: prod.splits)
    show ?thesis by (rule ins [OF n]) (use Insert l in simp_all)
  next
    case (Delete i)
    then show ?thesis using r del [of i] l ok by (auto simp: stack_exec_def split: if_splits)
  next
    case Pop
    have "take (sk_num_field s - 1) (stk_list s) = butlast (stk_list s)"
      using l by (simp add: butlast_conv_take)
    moreover have "stk_list s = [] \<longleftrightarrow> sk_num_field s = 0" using l by (metis length_0_conv)
    ultimately show ?thesis using Pop r del [of "sk_num_field s - 1"] l ok
      by (auto simp: stack_exec_def sk_pop_def last_conv_nth split: if_splits)
  next
    case Shift
    then show ?thesis using r del [of 0] l ok
      by (cases "stk_list s") (auto simp: stack_exec_def sk_shift_def split: if_splits)
  next
    case (Assign i v)
    then show ?thesis using r sk_set_ok [OF ok, of i v] l by (auto simp: stack_exec_def)
  next
    case Zero
    then show ?thesis using r sk_zero_ok [OF ok] by (auto simp: stack_exec_def)
  qed
qed

text \<open>
  C27: A run of stack operations, from any well-formed stack and under any allocator, behaves like
  the same run on a plain list: every result and the final contents are those of the list
  operations; an insertion is refused, returning 0 and changing nothing, exactly when at most one
  slot is free and a larger array has no size that fits size_t or cannot be allocated; and the stack
  stays well formed, in particular the array is never smaller than \<open>num_alloc\<close> pointers.
\<close>
theorem stack_run_refines_lists:
  assumes "stk_ok s" "slot_alloc_ok alloc" "stack_run alloc ops (Some s) = (rs, s')"
  shows "\<exists>t. s' = Some t \<and> stk_ok t \<and>
    list_run (\<lambda>n. alloc n \<noteq> None) ops (stk_list s, sk_num_alloc s) = (rs, stk_list t, sk_num_alloc t)"
  using assms
proof (induction ops arbitrary: s rs)
  case Nil
  then show ?case by auto
next
  case (Cons op ops)
  obtain r u rs' where e: "stack_exec alloc op (Some s) = (r, u)" "stack_run alloc ops u = (rs', s')"
      "rs = r # rs'"
    using Cons.prems(3) by (auto split: prod.splits)
  obtain t where t: "u = Some t" "stk_ok t"
      "if is_insertion op then
         case room_for (\<lambda>n. alloc n \<noteq> None) (sk_num_alloc s) (sk_num_field s) of
           None \<Rightarrow> r = Count 0 \<and> t = s
         | Some c \<Rightarrow> list_exec op (stk_list s) = (r, stk_list t) \<and> sk_num_alloc t = c
       else list_exec op (stk_list s) = (r, stk_list t) \<and> sk_num_alloc t = sk_num_alloc s"
    using stack_exec_refines [OF Cons.prems(1,2) e(1)] by blast
  have "list_run (\<lambda>n. alloc n \<noteq> None) ops (stk_list t, sk_num_alloc t) =
      (rs', stk_list (the s'), sk_num_alloc (the s')) \<and> s' \<noteq> None \<and> stk_ok (the s')"
    using Cons.IH [of t rs'] Cons.prems(2) t e by auto
  then show ?case using t(3) e(3) length_stk_list [OF Cons.prems(1)]
    by (auto simp: Let_def split: if_splits option.splits)
qed

text \<open>Six operations on a new stack: the fourth push grows it.\<close>

lemma stack_run_refines_lists_witness:
  "\<exists>t. stack_run (\<lambda>n. Some (replicate (n div 8) None))
       [Push (Some 1), Push (Some 2), Push (Some 3), Push (Some (4::nat)), Shift, Pop]
       (sk_new_null True (\<lambda>n. Some (replicate (n div 8) None)))
     = ([Count 1, Count 2, Count 3, Count 4, Pointer (Some 1), Pointer (Some 4)], Some t) \<and> stk_ok t \<and>
     stk_list t = [Some 2, Some 3]"
proof -
  let ?a = "\<lambda>n. Some (replicate (n div 8) None) :: nat option list option"
  let ?s = "\<lparr>sk_num_field = 0, sk_data = replicate kMinSize None, sk_sorted = False,
      sk_num_alloc = kMinSize, sk_comp = None\<rparr> :: nat stack"
  let ?ops = "[Push (Some 1), Push (Some 2), Push (Some 3), Push (Some (4::nat)), Shift, Pop]"
  have s: "sk_new_null True ?a = Some ?s" by (simp add: sk_new_null_def sk_new_def)
  have ok: "stk_ok ?s" by (simp add: stk_ok_def kMinSize_def)
  have l: "stk_list ?s = []" by (simp add: stk_list_def)
  obtain rs t where r: "stack_run ?a ?ops (Some ?s) = (rs, t)" by (cases "stack_run ?a ?ops (Some ?s)")
  have "list_run (\<lambda>n. ?a n \<noteq> None) ?ops ([], kMinSize) =
      ([Count 1, Count 2, Count 3, Count 4, Pointer (Some 1), Pointer (Some 4)], [Some 2, Some 3], 8)"
    by (simp add: kMinSize_def room_for_def next_capacity_def)
  moreover have "\<exists>u. t = Some u \<and> stk_ok u \<and>
      list_run (\<lambda>n. ?a n \<noteq> None) ?ops (stk_list ?s, sk_num_alloc ?s) = (rs, stk_list u, sk_num_alloc u)"
    by (rule stack_run_refines_lists [OF ok _ r]) (simp add: slot_alloc_ok_def)
  ultimately show ?thesis using r s l by auto
qed

section \<open>Searching\<close>

text \<open>What the comparison function, qsort and bsearch promise.\<close>

definition cmp_ok :: "('a option \<Rightarrow> 'a option \<Rightarrow> int) \<Rightarrow> bool" where
  "cmp_ok c \<longleftrightarrow> (\<forall>x y. sgn (c x y) = - sgn (c y x)) \<and>
     (\<forall>x y z. c x y \<le> 0 \<longrightarrow> c y z \<le> 0 \<longrightarrow> c x z \<le> 0)"

definition ascending :: "('a option \<Rightarrow> 'a option \<Rightarrow> int) \<Rightarrow> 'a option list \<Rightarrow> bool" where
  "ascending c xs \<longleftrightarrow> sorted_wrt (\<lambda>x y. c x y \<le> 0) xs"

definition qsort_ok :: "'a qsort \<Rightarrow> ('a option \<Rightarrow> 'a option \<Rightarrow> int) \<Rightarrow> bool" where
  "qsort_ok qsort c \<longleftrightarrow> (\<forall>xs. mset (qsort c xs) = mset xs \<and> ascending c (qsort c xs))"

definition bsearch_ok :: "'a bsearch \<Rightarrow> ('a option \<Rightarrow> 'a option \<Rightarrow> int) \<Rightarrow> bool" where
  "bsearch_ok bsearch c \<longleftrightarrow>
     (\<forall>p xs. ascending c xs \<longrightarrow>
        (case bsearch c p xs of
           None \<Rightarrow> (\<forall>x\<in>set xs. c p x \<noteq> 0)
         | Some i \<Rightarrow> i < length xs \<and> c p (xs ! i) = 0))"

text \<open>The flag means what stack.h says: the data is in ascending order.\<close>

definition sorted_flag_ok :: "'a stack \<Rightarrow> bool" where
  "sorted_flag_ok s \<longleftrightarrow>
     (case sk_comp s of None \<Rightarrow> True | Some c \<Rightarrow> sk_sorted s \<longrightarrow> ascending (cmp_apply c) (stk_list s))"

lemma cmp_ok_zero_sym: "cmp_ok c \<Longrightarrow> c x y = 0 \<longleftrightarrow> c y x = 0"
  unfolding cmp_ok_def by (metis sgn_0_0 neg_equal_0_iff_equal)

lemma cmp_ok_trans: "cmp_ok c \<Longrightarrow> c x y \<le> 0 \<Longrightarrow> c y z \<le> 0 \<Longrightarrow> c x z \<le> 0"
  unfolding cmp_ok_def by blast

lemma cmp_ok_le_sym: "cmp_ok c \<Longrightarrow> c x y \<le> 0 \<longleftrightarrow> 0 \<le> c y x"
proof -
  assume "cmp_ok c"
  then have "sgn (c x y) = - sgn (c y x)" unfolding cmp_ok_def by blast
  moreover have "a \<le> 0 \<longleftrightarrow> 0 \<le> b" if "sgn a = - sgn b" for a b :: int
    using that by (auto simp: sgn_if split: if_splits)
  ultimately show ?thesis by blast
qed

lemma sk_first_equal_ok:
  assumes c: "cmp_ok c" and a: "ascending c (take n d)" and i: "i < n" "n \<le> length d" "c p (d ! i) = 0"
  shows "sk_first_equal c p d i \<le> i \<and> c p (d ! sk_first_equal c p d i) = 0 \<and>
    (\<forall>k < sk_first_equal c p d i. c p (d ! k) \<noteq> 0)"
  using i
proof (induction i)
  case (Suc i)
  show ?case
  proof (cases "c p (d ! i) = 0")
    case True
    then show ?thesis using Suc by (auto simp: le_SucI)
  next
    case False
    have "c p (d ! k) \<noteq> 0" if k: "k < Suc i" for k
    proof
      assume e: "c p (d ! k) = 0"
      have le: "c (d ! k) (d ! i) \<le> 0" if "k \<noteq> i"
        using a k that Suc.prems by (auto simp: ascending_def sorted_wrt_iff_nth_less)
      have "c (d ! i) (d ! Suc i) \<le> 0"
        using a Suc.prems by (auto simp: ascending_def sorted_wrt_iff_nth_less)
      moreover have "c (d ! Suc i) p \<le> 0" using Suc.prems cmp_ok_zero_sym [OF c, of p] by simp
      ultimately have "c (d ! i) p \<le> 0" using cmp_ok_trans [OF c] by blast
      moreover have "c p (d ! i) \<le> 0"
        using e le False by (cases "k = i") (auto intro: cmp_ok_trans [OF c, of p "d ! k"])
      ultimately show False using False cmp_ok_le_sym [OF c, of p "d ! i"] cmp_ok_le_sym [OF c, of "d ! i" p]
        by linarith
    qed
    then show ?thesis using False Suc.prems by simp
  qed
qed simp

lemma sk_sort_ok:
  assumes ok: "stk_ok s" and f: "sorted_flag_ok s" and c: "sk_comp s = Some c" and q: "qsort_ok qsort (cmp_apply c)"
  shows "\<exists>t. sk_sort qsort s = Some t \<and> stk_ok t \<and> sk_sorted t \<and> sk_comp t = sk_comp s \<and>
    sk_num_field t = sk_num_field s \<and> mset (stk_list t) = mset (stk_list s) \<and>
    ascending (cmp_apply c) (stk_list t)"
proof (cases "sk_sorted s")
  case True
  then show ?thesis using assms by (simp add: sk_sort_def sorted_flag_ok_def)
next
  case False
  let ?l = "qsort (cmp_apply c) (stk_list s)"
  have m: "mset ?l = mset (stk_list s)" "ascending (cmp_apply c) ?l" using q by (auto simp: qsort_ok_def)
  then have l: "length ?l = sk_num_field s" using ok by (metis length_stk_list size_mset)
  note d = stk_okD [OF ok]
  have "take (sk_num_field s) (mem_write (sk_data s) 0 ?l) = ?l"
    using take_mem_write_upto [of 0 "sk_data s" ?l] l by simp
  then show ?thesis using False c d m l
    by (simp add: sk_sort_def stk_list_def [symmetric] stk_ok_def) (simp add: stk_list_def)
qed

text \<open>
  sk_find, on a well-formed stack whose sorted flag is truthful, with qsort and bsearch as the
  C standard has them: it leaves the same pointers in ascending order and reports an element
  exactly when one compares equal, giving the index of the first such element.
\<close>
theorem sk_find_first_match:
  assumes ok: "stk_ok s" "sorted_flag_ok s" and c: "sk_comp s = Some c" "cmp_ok (cmp_apply c)"
    and q: "qsort_ok qsort (cmp_apply c)" "bsearch_ok bsearch (cmp_apply c)"
  shows "\<exists>t r out. sk_find qsort bsearch (Some s) (Some x) = (r, out, Some t) \<and> stk_ok t \<and> sorted_flag_ok t \<and>
    mset (stk_list t) = mset (stk_list s) \<and>
    (case out of
       None \<Rightarrow> r = 0 \<and> (\<forall>y\<in>set (stk_list s). cmp_apply c (Some x) y \<noteq> 0)
     | Some i \<Rightarrow> r = 1 \<and> i < length (stk_list t) \<and> cmp_apply c (Some x) (stk_list t ! i) = 0 \<and>
         (\<forall>j < i. cmp_apply c (Some x) (stk_list t ! j) \<noteq> 0))"
proof -
  obtain t where t: "sk_sort qsort s = Some t" "stk_ok t" "sk_sorted t" "sk_comp t = sk_comp s"
      "mset (stk_list t) = mset (stk_list s)" "ascending (cmp_apply c) (stk_list t)"
    using sk_sort_ok [OF ok c(1) q(1)] by auto
  have f: "sorted_flag_ok t" using t c by (simp add: sorted_flag_ok_def)
  have b: "case bsearch (cmp_apply c) (Some x) (stk_list t) of
       None \<Rightarrow> (\<forall>y\<in>set (stk_list t). cmp_apply c (Some x) y \<noteq> 0)
     | Some i \<Rightarrow> i < length (stk_list t) \<and> cmp_apply c (Some x) (stk_list t ! i) = 0"
    using q(2) t(6) by (simp add: bsearch_ok_def)
  show ?thesis
  proof (cases "bsearch (cmp_apply c) (Some x) (stk_list t)")
    case None
    have "\<forall>y\<in>set (stk_list s). cmp_apply c (Some x) y \<noteq> 0"
      using b None mset_eq_setD [OF t(5)] by simp
    then show ?thesis using None t f c by (simp add: sk_find_def stk_list_def [symmetric])
  next
    case (Some i)
    have i: "i < length (stk_list t)" "cmp_apply c (Some x) (stk_list t ! i) = 0"
      using b Some by simp_all
    note d = stk_okD [OF t(2)]
    have n: "stk_list t ! k = sk_data t ! k" if "k \<le> i" for k
      using that i(1) t(2) by (simp add: stk_list_def)
    let ?j = "sk_first_equal (cmp_apply c) (Some x) (sk_data t) i"
    have "?j \<le> i \<and> cmp_apply c (Some x) (sk_data t ! ?j) = 0 \<and>
        (\<forall>k < ?j. cmp_apply c (Some x) (sk_data t ! k) \<noteq> 0)"
      by (rule sk_first_equal_ok [OF c(2), of "sk_num_field t"])
        (use t i d n in \<open>simp_all add: stk_list_def\<close>)
    then show ?thesis using Some t f c i n by (simp add: sk_find_def stk_list_def [symmetric])
  qed
qed

text \<open>A two-element stack; the comparison orders numbers, NULL first.\<close>

lemma sk_find_first_match_witness:
  "\<exists>t r out. sk_find (\<lambda>_. sort_key (case_option 0 Suc)) (\<lambda>_ p xs. sk_index_from xs p 0)
      (Some \<lparr>sk_num_field = 2, sk_data = [Some 9, Some (5 :: nat), None, None], sk_sorted = False, sk_num_alloc = 4,
        sk_comp = Some \<lparr>cmp_addr = 1,
          cmp_apply = (\<lambda>a b. int (case_option 0 Suc a) - int (case_option 0 Suc b))\<rparr>\<rparr>) (Some 9)
      = (r, out, Some t) \<and> stk_ok t \<and> mset (stk_list t) = {#Some 9, Some 5#} \<and> r = 1"
proof -
  let ?c = "\<lparr>cmp_addr = 1,
      cmp_apply = (\<lambda>a b. int (case_option 0 Suc a) - int (case_option 0 Suc b))\<rparr> :: nat cmp_func"
  let ?s = "\<lparr>sk_num_field = 2, sk_data = [Some 9, Some (5 :: nat), None, None], sk_sorted = False,
      sk_num_alloc = 4, sk_comp = Some ?c\<rparr>"
  let ?q = "\<lambda>_ :: nat option \<Rightarrow> nat option \<Rightarrow> int. sort_key (case_option 0 Suc) :: nat option list \<Rightarrow> nat option list"
  let ?b = "\<lambda>(_ :: nat option \<Rightarrow> nat option \<Rightarrow> int) (p :: nat option) xs. sk_index_from xs p 0"
  have idx: "case sk_index_from xs p k of None \<Rightarrow> p \<notin> set xs
      | Some i \<Rightarrow> k \<le> i \<and> i - k < length xs \<and> xs ! (i - k) = p" for xs k and p :: "nat option"
  proof (induction xs arbitrary: k)
    case (Cons a xs)
    then show ?case using Cons.IH [of "Suc k"]
      by (cases "sk_index_from xs p (Suc k)") (auto simp: Suc_diff_le nth_Cons' Suc_le_eq)
  qed simp
  have inj: "int (case_option 0 Suc p) - int (case_option 0 Suc y) = 0 \<longleftrightarrow> p = y" for p y
    by (auto split: option.splits)
  have "stk_ok ?s" "sorted_flag_ok ?s" by (simp_all add: stk_ok_def sorted_flag_ok_def)
  moreover have "cmp_ok (cmp_apply ?c)" by (auto simp: cmp_ok_def sgn_if)
  moreover have "qsort_ok ?q (cmp_apply ?c)"
    by (simp add: qsort_ok_def ascending_def) (metis sorted_sort_key sorted_wrt_map)
  moreover have "bsearch_ok ?b (cmp_apply ?c)"
    unfolding bsearch_ok_def
  proof (intro allI impI)
    fix p :: "nat option" and xs
    show "case sk_index_from xs p 0 of None \<Rightarrow> \<forall>x\<in>set xs. cmp_apply ?c p x \<noteq> 0
        | Some i \<Rightarrow> i < length xs \<and> cmp_apply ?c p (xs ! i) = 0"
      using idx [where xs = xs and p = p and k = 0] inj by (auto split: option.splits)
  qed
  ultimately obtain t r out where t: "sk_find ?q ?b (Some ?s) (Some 9) = (r, out, Some t)" "stk_ok t"
      "mset (stk_list t) = mset (stk_list ?s)"
      "case out of None \<Rightarrow> r = 0 \<and> (\<forall>y\<in>set (stk_list ?s). cmp_apply ?c (Some 9) y \<noteq> 0)
        | Some i \<Rightarrow> r = 1 \<and> i < length (stk_list t) \<and> cmp_apply ?c (Some 9) (stk_list t ! i) = 0 \<and>
           (\<forall>j < i. cmp_apply ?c (Some 9) (stk_list t ! j) \<noteq> 0)"
    using sk_find_first_match [of ?s ?c ?q ?b 9] by auto
  have l: "stk_list ?s = [Some 9, Some 5]" by (simp add: stk_list_def numeral_2_eq_2)
  then show ?thesis using t by (auto split: option.splits)
qed

text \<open>
  sk_set writes into a slot without clearing the sorted flag: storing an element that belongs
  after its successor leaves a stack that claims to be sorted and is not, and that sk_sort will
  not sort again.
\<close>
theorem sk_set_leaves_stale_sorted:
  assumes "stk_ok s" "sk_comp s = Some c" "sk_sorted s" "Suc i < sk_num_field s"
    "0 < cmp_apply c v (stk_list s ! Suc i)"
  shows "\<exists>t. sk_set (Some s) i v = (v, Some t) \<and> sk_is_sorted (Some t) \<and>
    \<not> ascending (cmp_apply c) (stk_list t) \<and> sk_sort qsort t = Some t"
proof -
  let ?t = "s\<lparr>sk_data := (sk_data s)[i := v]\<rparr>"
  have t: "stk_list ?t = (stk_list s)[i := v]" by (simp add: stk_list_def take_update_swap)
  have l: "length (stk_list s) = sk_num_field s" using assms(1) by simp
  have "\<not> ascending (cmp_apply c) (stk_list ?t)"
  proof
    assume "ascending (cmp_apply c) (stk_list ?t)"
    then have "cmp_apply c (stk_list ?t ! i) (stk_list ?t ! Suc i) \<le> 0"
      using assms(4) l t sorted_wrt_nth_less [of _ "stk_list ?t" i "Suc i"] by (simp add: ascending_def)
    then show False using assms(4,5) t l by simp
  qed
  then show ?thesis using assms by (simp add: sk_set_def sk_is_sorted_def sk_sort_def)
qed

lemma sk_set_leaves_stale_sorted_witness:
  "\<exists>t. sk_set (Some \<lparr>sk_num_field = 2, sk_data = [Some (1 :: nat), Some 2, None, None], sk_sorted = True,
      sk_num_alloc = 4, sk_comp = Some \<lparr>cmp_addr = 1,
      cmp_apply = (\<lambda>a b. int (case_option 0 Suc a) - int (case_option 0 Suc b))\<rparr>\<rparr>) 0 (Some 7) = (Some 7, Some t) \<and>
    sk_is_sorted (Some t)"
  using sk_set_leaves_stale_sorted [of "\<lparr>sk_num_field = 2, sk_data = [Some (1 :: nat), Some 2, None, None],
      sk_sorted = True, sk_num_alloc = 4, sk_comp = Some \<lparr>cmp_addr = 1,
      cmp_apply = (\<lambda>a b. int (case_option 0 Suc a) - int (case_option 0 Suc b))\<rparr>\<rparr>" _ 0 "Some 7" "\<lambda>_ xs. xs"]
  by (auto simp: stk_ok_def stk_list_def)

end
