(* ===== verification/PQueue.thy ===== *)
theory PQueue
  imports Prelude "HOL-Library.Multiset"
begin

text \<open>
  The priority queue that DTLS buffers out-of-order records and handshake fragments in
  (ssl/pqueue/pqueue.c): a linked list of items with distinct 64-bit priorities, kept in ascending
  order.  The list of nodes is a HOL list of \<open>pitem\<close>s in the order of the \<^verbatim>\<open>next\<close> pointers,
  and an item given to pqueue_insert
  is one that pitem_new made and that is on no queue (pqueue_insert relies on its \<^verbatim>\<open>next\<close> being
  NULL when the queue is empty).  A priority is the eight bytes the source keeps, ordered
  by memcmp; that this is the numeric order of the big-endian value is a lemma here, not part of
  the definition.  The contract a user of the queue relies on is the locale \<open>priority_map\<close>.
\<close>

section \<open>memcmp and priorities\<close>

text \<open>
  The C library's memcmp on two blocks of the same length: the sign of the first difference,
  bytes compared as unsigned.  (A block that ends first counts as smaller, which does not happen
  in the calls.)
\<close>

fun memcmp :: "bytes \<Rightarrow> bytes \<Rightarrow> int" where
  "memcmp [] [] = 0"
| "memcmp [] (b # bs) = -1"
| "memcmp (a # as) [] = 1"
| "memcmp (a # as) (b # bs) = (if a < b then -1 else if b < a then 1 else memcmp as bs)"

(* src: include/openssl/pqueue.h@72-72 priority *)
datatype prio64 = Prio64 (prio_bytes: bytes)

lemma memcmp_refl [simp]: "memcmp xs xs = 0"
  by (induction xs) auto

lemma memcmp_eq_0_iff: "memcmp xs ys = 0 \<longleftrightarrow> xs = ys"
  by (induction xs ys rule: memcmp.induct) auto

lemma memcmp_neg: "memcmp ys xs = - memcmp xs ys"
  by (induction xs ys rule: memcmp.induct) auto

lemma memcmp_trans: "memcmp xs ys \<le> 0 \<Longrightarrow> memcmp ys zs \<le> 0 \<Longrightarrow> memcmp xs zs \<le> 0"
proof (induction xs ys arbitrary: zs rule: memcmp.induct)
  case (4 a as b bs)
  then show ?case by (cases zs) (auto split: if_splits)
next
  case 1 then show ?case by simp
next
  case (2 b bs) then show ?case by (cases zs) auto
next
  case (3 a as) then show ?case by auto
qed

instantiation prio64 :: linorder
begin

definition less_eq_prio64 :: "prio64 \<Rightarrow> prio64 \<Rightarrow> bool" where
  "less_eq_prio64 p q \<longleftrightarrow> memcmp (prio_bytes p) (prio_bytes q) \<le> 0"

definition less_prio64 :: "prio64 \<Rightarrow> prio64 \<Rightarrow> bool" where
  "less_prio64 p q \<longleftrightarrow> memcmp (prio_bytes p) (prio_bytes q) < 0"

instance
proof
  fix p q r :: prio64
  show "(p < q) = (p \<le> q \<and> \<not> q \<le> p)"
    using memcmp_neg [of "prio_bytes p" "prio_bytes q"]
    by (auto simp: less_eq_prio64_def less_prio64_def)
  show "p \<le> p" by (simp add: less_eq_prio64_def)
  show "p \<le> q \<Longrightarrow> q \<le> r \<Longrightarrow> p \<le> r" by (auto simp: less_eq_prio64_def intro: memcmp_trans)
  show "p \<le> q \<or> q \<le> p"
    using memcmp_neg [of "prio_bytes p" "prio_bytes q"] by (auto simp: less_eq_prio64_def)
  show "p \<le> q \<Longrightarrow> q \<le> p \<Longrightarrow> p = q"
    using memcmp_neg [of "prio_bytes p" "prio_bytes q"] memcmp_eq_0_iff [of "prio_bytes p" "prio_bytes q"]
    by (auto simp: less_eq_prio64_def prio64.expand)
qed

end

text \<open>The comment in pqueue_insert: memcmp compares big-endian numbers.\<close>

lemma memcmp_be_nat:
  "length xs = length ys \<Longrightarrow> memcmp xs ys < 0 \<longleftrightarrow> be_nat xs < be_nat ys"
proof (induction xs ys rule: memcmp.induct)
  case (4 a as b bs)
  let ?W = "256 ^ length bs :: nat"
  have e: "be_nat (a # as) = unat a * ?W + be_nat as" "be_nat (b # bs) = unat b * ?W + be_nat bs"
    using 4 be_nat_acc_eq [of "unat a" as] be_nat_acc_eq [of "unat b" bs] by simp_all
  have bd: "be_nat as < ?W" "be_nat bs < ?W"
    using be_nat_bound [of as] be_nat_bound [of bs] 4 by simp_all
  have step: "unat x * ?W + m < unat y * ?W + n" if "x < y" "m < ?W" for x y :: u8 and m n
  proof -
    have "unat x + 1 \<le> unat y" using that by (simp add: word_less_nat_alt)
    then have "(unat x + 1) * ?W \<le> unat y * ?W" by (rule mult_le_mono1)
    then show ?thesis using that(2) by (simp add: algebra_simps)
  qed
  consider "a < b" | "b < a" | "a = b" by (metis linorder_cases)
  then show ?case
  proof cases
    case 1
    then show ?thesis using step [of a b "be_nat as" "be_nat bs"] bd by (simp only: e memcmp.simps) simp
  next
    case 2
    then have "\<not> a < b" by simp
    then show ?thesis using 2 step [of b a "be_nat bs" "be_nat as"] bd by (simp only: e memcmp.simps) simp
  next
    case 3
    then have "be_nat (a # as) < be_nat (b # bs) \<longleftrightarrow> be_nat as < be_nat bs" unfolding e by simp
    moreover have "memcmp (a # as) (b # bs) = memcmp as bs" using 3 by simp
    ultimately show ?thesis using 4 3 by simp
  qed
qed auto

section \<open>Items and queues\<close>

(* src: include/openssl/pqueue.h@71-75 pitem *)
record 'd pitem =
  priority :: prio64
  pitem_data :: 'd

(* src: ssl/pqueue/pqueue.c@62-65 pqueue_s *)
record 'd pqueue =
  pq_items :: "'d pitem list"

(* src: ssl/pqueue/pqueue.c pitem_new *)
definition pitem_new :: "bool \<Rightarrow> bytes \<Rightarrow> 'd \<Rightarrow> 'd pitem option" where
  "pitem_new malloc_ok prio64be d =
     (if \<not> malloc_ok then None
      else Some \<lparr>priority = Prio64 (mem_read prio64be 0 8), pitem_data = d\<rparr>)"

(* src: ssl/pqueue/pqueue.c pqueue_new *)
definition pqueue_new :: "bool \<Rightarrow> 'd pqueue option" where
  "pqueue_new malloc_ok = (if \<not> malloc_ok then None else Some \<lparr>pq_items = []\<rparr>)"

(* src: ssl/pqueue/pqueue.c pqueue_peek *)
definition pqueue_peek :: "'d pqueue \<Rightarrow> 'd pitem option" where
  "pqueue_peek pq = (case pq_items pq of [] \<Rightarrow> None | item # _ \<Rightarrow> Some item)"

(* src: ssl/pqueue/pqueue.c@113-119 pqueue_find *)
fun pqueue_find_from :: "'d pitem list \<Rightarrow> bytes \<Rightarrow> 'd pitem option" where
  "pqueue_find_from [] prio64be = None"
| "pqueue_find_from (node # rest) prio64be =
     (if memcmp (prio_bytes (priority node)) prio64be = 0 then Some node
      else pqueue_find_from rest prio64be)"

(* src: ssl/pqueue/pqueue.c pqueue_find *)
definition pqueue_find :: "'d pqueue \<Rightarrow> bytes \<Rightarrow> 'd pitem option" where
  "pqueue_find pq prio64be = pqueue_find_from (pq_items pq) prio64be"

(* src: ssl/pqueue/pqueue.c pqueue_size *)
fun pqueue_count :: "'d pitem list \<Rightarrow> nat \<Rightarrow> nat" where
  "pqueue_count [] n = n"
| "pqueue_count (item # next) n = pqueue_count next (n + 1)"

(* src: ssl/pqueue/pqueue.c pqueue_size *)
definition pqueue_size :: "'d pqueue \<Rightarrow> nat" where
  "pqueue_size pq = pqueue_count (pq_items pq) 0"

text \<open>An iterator is the list of the nodes still ahead.\<close>

(* src: ssl/pqueue/pqueue.c pqueue_iterator *)
definition pqueue_iterator :: "'d pqueue \<Rightarrow> 'd pitem list" where
  "pqueue_iterator pq = pq_items pq"

(* src: ssl/pqueue/pqueue.c pqueue_next *)
fun pqueue_next :: "'d pitem list \<Rightarrow> 'd pitem option \<times> 'd pitem list" where
  "pqueue_next [] = (None, [])"
| "pqueue_next (item # rest) = (Some item, rest)"

text \<open>
  The insertion loop walks with \<open>curr\<close> one node behind \<open>next\<close>; the nodes up to \<open>curr\<close> are
  the first argument.  \<open>None\<close> is the NULL returned for a duplicate.
\<close>

(* src: ssl/pqueue/pqueue.c@156-178 pqueue_insert *)
fun pqueue_insert_loop :: "'d pitem list \<Rightarrow> 'd pitem list \<Rightarrow> 'd pitem \<Rightarrow> 'd pitem list option" where
  "pqueue_insert_loop passed [] item = Some (passed @ [item])"
| "pqueue_insert_loop passed (next # rest) item =
     (let cmp = memcmp (prio_bytes (priority next)) (prio_bytes (priority item)) in
      if cmp > 0 then Some (passed @ item # next # rest)
      else if cmp = 0 then None
      else pqueue_insert_loop (passed @ [next]) rest item)"

(* src: ssl/pqueue/pqueue.c pqueue_insert *)
definition pqueue_insert :: "'d pqueue \<Rightarrow> 'd pitem \<Rightarrow> 'd pitem option \<times> 'd pqueue" where
  "pqueue_insert pq item =
     (if pq_items pq = [] then (Some item, pq\<lparr>pq_items := [item]\<rparr>)
      else case pqueue_insert_loop [] (pq_items pq) item of
          None \<Rightarrow> (None, pq)
        | Some items \<Rightarrow> (Some item, pq\<lparr>pq_items := items\<rparr>))"

(* src: ssl/pqueue/pqueue.c pqueue_pop *)
definition pqueue_pop :: "'d pqueue \<Rightarrow> 'd pitem option \<times> 'd pqueue" where
  "pqueue_pop pq =
     (case pq_items pq of
        [] \<Rightarrow> (None, pq)
      | item # next \<Rightarrow> (Some item, pq\<lparr>pq_items := next\<rparr>))"

section \<open>The contract of a priority queue\<close>

text \<open>
  Drivers over any queue: put a list of items in, in arrival order, and take out until empty.
\<close>

fun pq_fill :: "('q \<Rightarrow> 'e \<Rightarrow> 'e option \<times> 'q) \<Rightarrow> 'e list \<Rightarrow> 'q \<Rightarrow> 'q" where
  "pq_fill ins [] q = q"
| "pq_fill ins (e # es) q = pq_fill ins es (snd (ins q e))"

fun pq_drain :: "('q \<Rightarrow> 'e option \<times> 'q) \<Rightarrow> nat \<Rightarrow> 'q \<Rightarrow> 'e list" where
  "pq_drain pop 0 q = []"
| "pq_drain pop (Suc n) q = (case pop q of (None, _) \<Rightarrow> [] | (Some e, q') \<Rightarrow> e # pq_drain pop n q')"

text \<open>
  The queue's value is the map from priorities to items.  Insertion refuses a priority that is
  already there and leaves the queue alone; pop removes the least.
\<close>

locale priority_map =
  fixes ins :: "'q \<Rightarrow> 'e \<Rightarrow> 'e option \<times> 'q"
    and pop :: "'q \<Rightarrow> 'e option \<times> 'q"
    and prio :: "'e \<Rightarrow> 'p :: linorder"
    and inv :: "'q \<Rightarrow> bool"
    and ok_item :: "'e \<Rightarrow> bool"
    and content :: "'q \<Rightarrow> 'p \<Rightarrow> 'e option"
    and pq_card :: "'q \<Rightarrow> nat"
  assumes ins_new: "inv q \<Longrightarrow> ok_item e \<Longrightarrow> content q (prio e) = None \<Longrightarrow>
      inv (snd (ins q e)) \<and> content (snd (ins q e)) = (content q)(prio e \<mapsto> e)"
    and ins_dup: "inv q \<Longrightarrow> ok_item e \<Longrightarrow> content q (prio e) \<noteq> None \<Longrightarrow> ins q e = (None, q)"
    and pop_none: "inv q \<Longrightarrow> pop q = (None, q') \<Longrightarrow> content q = (\<lambda>_. None)"
    and pop_some: "inv q \<Longrightarrow> pop q = (Some e, q') \<Longrightarrow>
      inv q' \<and> content q (prio e) = Some e \<and> content q' = (content q)(prio e := None) \<and>
      (\<forall>p \<in> dom (content q). prio e \<le> p)"
    and card_pop: "inv q \<Longrightarrow> pop q = (Some e, q') \<Longrightarrow> pq_card q = Suc (pq_card q')"
    and card_0: "inv q \<Longrightarrow> pq_card q = 0 \<Longrightarrow> content q = (\<lambda>_. None)"
begin

lemma fill_inv: "inv q \<Longrightarrow> (\<And>e. e \<in> set es \<Longrightarrow> ok_item e) \<Longrightarrow> inv (pq_fill ins es q)"
proof (induction es arbitrary: q)
  case (Cons e es)
  have "inv (snd (ins q e))"
    using Cons.prems ins_new [of q e] ins_dup [of q e] by (cases "content q (prio e)") auto
  then show ?case using Cons by simp
qed simp

text \<open>What is kept of a sequence of arrivals is the first item of every priority.\<close>

lemma fill_content:
  "inv q \<Longrightarrow> (\<And>e. e \<in> set es \<Longrightarrow> ok_item e) \<Longrightarrow>
     content (pq_fill ins es q) = map_of (map (\<lambda>e. (prio e, e)) es) ++ content q"
proof (induction es arbitrary: q)
  case (Cons e es)
  show ?case
  proof (cases "content q (prio e)")
    case None
    then have s: "inv (snd (ins q e))" "content (snd (ins q e)) = (content q)(prio e \<mapsto> e)"
      using Cons.prems ins_new [of q e] by auto
    have "content (pq_fill ins es (snd (ins q e)))
        = map_of (map (\<lambda>e. (prio e, e)) es) ++ (content q)(prio e \<mapsto> e)"
      unfolding s(2) [symmetric] by (rule Cons.IH [OF s(1)]) (use Cons.prems in simp)
    moreover have "map_of (map (\<lambda>e. (prio e, e)) es) ++ (content q)(prio e \<mapsto> e)
        = map_of (map (\<lambda>e. (prio e, e)) (e # es)) ++ content q"
      by (rule ext) (use None in \<open>simp add: map_add_def split: option.split\<close>)
    ultimately show ?thesis unfolding pq_fill.simps by (rule trans)
  next
    case (Some d)
    then have "ins q e = (None, q)" using Cons.prems ins_dup [of q e] by simp
    then show ?thesis using Some Cons.IH [of q] Cons.prems
      by (auto simp: fun_eq_iff map_add_def split: option.split)
  qed
qed simp

lemma drain_sound:
  "inv q \<Longrightarrow> n = pq_card q \<Longrightarrow>
     sorted_wrt (<) (map prio (pq_drain pop n q)) \<and>
     map_of (map (\<lambda>e. (prio e, e)) (pq_drain pop n q)) = content q"
proof (induction n arbitrary: q)
  case 0
  then show ?case using card_0 [of q] by (simp add: fun_eq_iff)
next
  case (Suc n)
  obtain r q' where p: "pop q = (r, q')" by (cases "pop q")
  show ?case
  proof (cases r)
    case None
    then have "pq_drain pop (Suc n) q = []" "content q = (\<lambda>_. None)"
      using p pop_none [of q q'] Suc.prems(1) by simp_all
    then show ?thesis using Suc.prems(2) by (simp only: list.map map_of.simps sorted_wrt.simps)
  next
    case (Some e)
    note s = pop_some [of q e q'] card_pop [of q e q']
    have s': "inv q'" "content q (prio e) = Some e" "content q' = (content q)(prio e := None)"
        "\<forall>p \<in> dom (content q). prio e \<le> p" "n = pq_card q'"
      using s p Some Suc.prems by auto
    note ih = Suc.IH [OF s'(1) s'(5)]
    have "prio e < prio d" if "d \<in> set (pq_drain pop n q')" for d
    proof -
      have "prio d \<in> dom (map_of (map (\<lambda>e. (prio e, e)) (pq_drain pop n q')))"
        using that by (auto simp: dom_map_of_conv_image_fst image_iff)
      then have "prio d \<in> dom (content q')" using ih by simp
      then show ?thesis using s' by (auto simp: order_le_less split: if_splits)
    qed
    then show ?thesis using ih p Some s' by (auto simp: fun_eq_iff)
  qed
qed

end

section \<open>The queue meets the contract\<close>

definition pqueue_ok :: "'d pqueue \<Rightarrow> bool" where
  "pqueue_ok pq \<longleftrightarrow> sorted_wrt (<) (map priority (pq_items pq)) \<and>
     (\<forall>e \<in> set (pq_items pq). length (prio_bytes (priority e)) = 8)"

definition pitem_ok :: "'d pitem \<Rightarrow> bool" where
  "pitem_ok e \<longleftrightarrow> length (prio_bytes (priority e)) = 8"

definition pqueue_content :: "'d pqueue \<Rightarrow> prio64 \<Rightarrow> 'd pitem option" where
  "pqueue_content pq = map_of (map (\<lambda>e. (priority e, e)) (pq_items pq))"

lemma memcmp_prio:
  "memcmp (prio_bytes p) (prio_bytes q) > 0 \<longleftrightarrow> q < p"
  "memcmp (prio_bytes p) (prio_bytes q) = 0 \<longleftrightarrow> p = q"
  using memcmp_neg [of "prio_bytes p" "prio_bytes q"]
  by (auto simp: less_prio64_def memcmp_eq_0_iff prio64.expand)

lemma prio64_less_iff:
  "length (prio_bytes p) = 8 \<Longrightarrow> length (prio_bytes q) = 8 \<Longrightarrow>
     p < q \<longleftrightarrow> be_nat (prio_bytes p) < be_nat (prio_bytes q)"
  by (simp add: less_prio64_def memcmp_be_nat)

text \<open>The loop, started at the front, inserts in order or finds the duplicate.\<close>

lemma pqueue_insert_loop_ok:
  assumes "sorted_wrt (<) (map priority (passed @ rest))" "\<forall>e \<in> set passed. priority e < priority item"
  shows "if priority item \<in> priority ` set rest then pqueue_insert_loop passed rest item = None
         else \<exists>items. pqueue_insert_loop passed rest item = Some items \<and>
           sorted_wrt (<) (map priority items) \<and> mset items = mset (passed @ item # rest)"
  using assms
proof (induction passed rest item rule: pqueue_insert_loop.induct)
  case (1 passed item)
  then show ?case by (auto simp: sorted_wrt_append)
next
  case (2 passed node rest item)
  let ?p = "priority item" and ?q = "priority node"
  consider "?q < ?p" | "?p < ?q" | "?p = ?q" by (metis linorder_cases)
  then show ?case
  proof cases
    case 1
    then have c: "\<not> memcmp (prio_bytes ?q) (prio_bytes ?p) > 0" "memcmp (prio_bytes ?q) (prio_bytes ?p) \<noteq> 0"
      by (auto simp: memcmp_prio)
    then have "pqueue_insert_loop passed (node # rest) item = pqueue_insert_loop (passed @ [node]) rest item"
      by (simp add: Let_def)
    then show ?thesis using "2.IH" [OF refl c] "2.prems" 1 by (auto simp: sorted_wrt_append)
  next
    case gt: 2
    then have "pqueue_insert_loop passed (node # rest) item = Some (passed @ item # node # rest)"
      by (simp add: Let_def memcmp_prio)
    moreover have "?p \<notin> priority ` set (node # rest)"
      using gt "2.prems" by (auto simp: sorted_wrt_append)
    ultimately show ?thesis using gt "2.prems" by (auto simp: sorted_wrt_append)
  next
    case 3
    then show ?thesis by (simp add: Let_def memcmp_prio)
  qed
qed

lemma pqueue_content_eq_SomeD: "pqueue_content pq p = Some e \<Longrightarrow> e \<in> set (pq_items pq) \<and> priority e = p"
  by (auto simp: pqueue_content_def dest!: map_of_SomeD)

lemma pqueue_content_eq_None: "pqueue_content pq p = None \<longleftrightarrow> p \<notin> priority ` set (pq_items pq)"
  by (auto simp: pqueue_content_def map_of_eq_None_iff image_image)

lemma pqueue_content_Some_iff:
  "sorted_wrt (<) (map priority (pq_items pq)) \<Longrightarrow>
     pqueue_content pq p = Some e \<longleftrightarrow> e \<in> set (pq_items pq) \<and> priority e = p"
proof -
  assume "sorted_wrt (<) (map priority (pq_items pq))"
  then have "distinct (map priority (pq_items pq))" by (simp add: strict_sorted_iff)
  then have "distinct (map fst (map (\<lambda>e. (priority e, e)) (pq_items pq)))" by (simp add: comp_def)
  then show ?thesis unfolding pqueue_content_def by (subst map_of_eq_Some_iff) auto
qed

lemma pqueue_insert_cases:
  assumes ok: "pqueue_ok pq" "pitem_ok e"
  shows "if pqueue_content pq (priority e) = None
         then pqueue_ok (snd (pqueue_insert pq e)) \<and>
           pqueue_content (snd (pqueue_insert pq e)) = (pqueue_content pq)(priority e \<mapsto> e)
         else pqueue_insert pq e = (None, pq)"
proof (cases "pqueue_content pq (priority e)")
  case (Some d)
  then have "d \<in> set (pq_items pq)" "priority d = priority e" by (auto dest!: pqueue_content_eq_SomeD)
  then have "pq_items pq \<noteq> []" "priority e \<in> priority ` set (pq_items pq)"
    by (auto simp: image_iff intro!: bexI [of _ d])
  then show ?thesis using Some ok pqueue_insert_loop_ok [of "[]" "pq_items pq" e]
    by (simp add: pqueue_insert_def pqueue_ok_def)
next
  case None
  obtain items where i: "pqueue_insert pq e = (Some e, pq\<lparr>pq_items := items\<rparr>)"
      "sorted_wrt (<) (map priority items)" "mset items = mset (e # pq_items pq)"
  proof (cases "pq_items pq = []")
    case True
    then show ?thesis using that [of "[e]"] by (simp add: pqueue_insert_def)
  next
    case False
    then show ?thesis using that None ok pqueue_insert_loop_ok [of "[]" "pq_items pq" e]
      by (auto simp: pqueue_insert_def pqueue_ok_def pqueue_content_eq_None)
  qed
  have s: "set items = insert e (set (pq_items pq))" using mset_eq_setD [OF i(3)] by simp
  let ?q = "pq\<lparr>pq_items := items\<rparr>"
  have "pqueue_content ?q p = ((pqueue_content pq)(priority e \<mapsto> e)) p" for p
  proof (rule option.expand)
    have sq: "sorted_wrt (<) (map priority (pq_items ?q))" "sorted_wrt (<) (map priority (pq_items pq))"
      using i ok by (simp_all add: pqueue_ok_def)
    have m: "pqueue_content ?q p = Some d \<longleftrightarrow> ((pqueue_content pq)(priority e \<mapsto> e)) p = Some d" for d
      using None pqueue_content_Some_iff [OF sq(1), of p d] pqueue_content_Some_iff [OF sq(2), of p d] s
      by (auto simp: pqueue_content_eq_None image_iff)
    show "(pqueue_content ?q p = None) = (((pqueue_content pq)(priority e \<mapsto> e)) p = None)"
      using m by (metis not_None_eq)
    show "the (pqueue_content ?q p) = the (((pqueue_content pq)(priority e \<mapsto> e)) p)"
      if "pqueue_content ?q p \<noteq> None" "((pqueue_content pq)(priority e \<mapsto> e)) p \<noteq> None"
      using m that by (metis not_None_eq option.sel)
  qed
  then show ?thesis using None i s ok by (auto simp: pqueue_ok_def pitem_ok_def)
qed

lemma pqueue_pop_cases:
  assumes "pqueue_ok pq" "pqueue_pop pq = (Some e, q)"
  shows "pqueue_ok q \<and> pqueue_content pq (priority e) = Some e \<and>
    pqueue_content q = (pqueue_content pq)(priority e := None) \<and>
    (\<forall>p \<in> dom (pqueue_content pq). priority e \<le> p) \<and> pqueue_size pq = Suc (pqueue_size q)"
proof -
  have cnt: "pqueue_count xs n = n + length xs" for xs :: "'a pitem list" and n
    by (induction xs arbitrary: n) auto
  obtain rest where r: "pq_items pq = e # rest" "q = pq\<lparr>pq_items := rest\<rparr>"
    using assms(2) by (auto simp: pqueue_pop_def split: list.splits)
  have n: "priority e \<notin> priority ` set rest" using assms(1) r by (auto simp: pqueue_ok_def)
  have "map_of (map (\<lambda>e. (priority e, e)) rest) (priority e) = None"
    using n by (simp add: map_of_eq_None_iff image_image)
  then have c: "pqueue_content q = (pqueue_content pq)(priority e := None)"
    by (simp add: pqueue_content_def r fun_eq_iff)
  have "priority e \<le> p" if "p \<in> dom (pqueue_content pq)" for p
  proof -
    obtain y where "pqueue_content pq p = Some y" using \<open>p \<in> _\<close> by blast
    then have "y \<in> set (e # rest)" "priority y = p" using r pqueue_content_eq_SomeD by fastforce+
    then show ?thesis using assms(1) r by (auto simp: pqueue_ok_def)
  qed
  then show ?thesis using assms(1) r c
    by (auto simp: pqueue_ok_def pqueue_size_def cnt) (simp add: pqueue_content_def)
qed

interpretation dtls_queue: priority_map pqueue_insert pqueue_pop priority pqueue_ok pitem_ok pqueue_content pqueue_size
proof unfold_locales
  fix q :: "'a pqueue" and e :: "'a pitem" assume a: "pqueue_ok q" "pitem_ok e"
  show "pqueue_content q (priority e) = None \<Longrightarrow> pqueue_ok (snd (pqueue_insert q e)) \<and>
      pqueue_content (snd (pqueue_insert q e)) = (pqueue_content q)(priority e \<mapsto> e)"
    using pqueue_insert_cases [OF a] by simp
  show "pqueue_content q (priority e) \<noteq> None \<Longrightarrow> pqueue_insert q e = (None, q)"
    using pqueue_insert_cases [OF a] by simp
next
  fix q q' :: "'a pqueue" and e :: "'a pitem" assume q: "pqueue_ok q"
  show "pqueue_pop q = (None, q') \<Longrightarrow> pqueue_content q = (\<lambda>_. None)"
    by (auto simp: pqueue_pop_def pqueue_content_def split: list.splits)
  show "pqueue_pop q = (Some e, q') \<Longrightarrow> pqueue_ok q' \<and> pqueue_content q (priority e) = Some e \<and>
      pqueue_content q' = (pqueue_content q)(priority e := None) \<and> (\<forall>p \<in> dom (pqueue_content q). priority e \<le> p)"
    using pqueue_pop_cases [OF q] by simp
  show "pqueue_pop q = (Some e, q') \<Longrightarrow> pqueue_size q = Suc (pqueue_size q')"
    using pqueue_pop_cases [OF q] by simp
  have cnt: "pqueue_count xs n = n + length xs" for xs :: "'a pitem list" and n
    by (induction xs arbitrary: n) auto
  show "pqueue_size q = 0 \<Longrightarrow> pqueue_content q = (\<lambda>_. None)"
    by (auto simp: pqueue_size_def cnt pqueue_content_def)
qed

text \<open>
  C31: Whatever items arrive at a DTLS queue, and in whatever order, popping it empty yields for
  each priority the item that arrived first, and yields them in strictly ascending order of
  the 64-bit big-endian number their priority bytes spell.
\<close>
theorem pqueue_fill_drain:
  fixes es :: "'d pitem list"
  defines "q \<equiv> pq_fill pqueue_insert es \<lparr>pq_items = []\<rparr>"
  assumes "\<forall>e \<in> set es. length (prio_bytes (priority e)) = 8"
  shows "sorted_wrt (<) (map (be_nat \<circ> prio_bytes \<circ> priority) (pq_drain pqueue_pop (pqueue_size q) q)) \<and>
    map_of (map (\<lambda>e. (priority e, e)) (pq_drain pqueue_pop (pqueue_size q) q))
      = map_of (map (\<lambda>e. (priority e, e)) es)"
proof -
  have i: "pqueue_ok \<lparr>pq_items = [] :: 'd pitem list\<rparr>" by (simp add: pqueue_ok_def)
  have e: "e \<in> set es \<Longrightarrow> pitem_ok e" for e using assms(2) by (simp add: pitem_ok_def)
  have q: "pqueue_ok q" unfolding q_def by (rule dtls_queue.fill_inv [OF i e])
  let ?d = "pq_drain pqueue_pop (pqueue_size q) q"
  have d: "sorted_wrt (<) (map priority ?d)" "map_of (map (\<lambda>e. (priority e, e)) ?d) = pqueue_content q"
    using dtls_queue.drain_sound [OF q refl] by auto
  have "pqueue_content q = map_of (map (\<lambda>e. (priority e, e)) es)"
    unfolding q_def using dtls_queue.fill_content [OF i e] by (simp add: pqueue_content_def)
  moreover have "length (prio_bytes (priority x)) = 8" if x: "x \<in> set ?d" for x
  proof -
    have "priority x \<in> dom (pqueue_content q)"
      using x unfolding d(2) [symmetric] by (auto simp: dom_map_of_conv_image_fst image_iff)
    then obtain y where "pqueue_content q (priority x) = Some y" by blast
    then have "y \<in> set (pq_items q) \<and> priority y = priority x" by (rule pqueue_content_eq_SomeD)
    then show ?thesis using q unfolding pqueue_ok_def by metis
  qed
  then have "sorted_wrt (<) (map (be_nat \<circ> prio_bytes \<circ> priority) ?d)"
    using d(1) unfolding sorted_wrt_map comp_def
    by (rule_tac sorted_wrt_mono_rel [of _ "\<lambda>x y. priority x < priority y"]) (auto simp: prio64_less_iff)
  ultimately show ?thesis using d(2) by simp
qed

text \<open>Records 258, 1 and again 1: the two first ones come out, 1 before 258.\<close>

lemma pqueue_fill_drain_witness:
  "let es = [\<lparr>priority = Prio64 [0,0,0,0,0,0,1,2], pitem_data = ''a''\<rparr>,
             \<lparr>priority = Prio64 [0,0,0,0,0,0,0,1], pitem_data = ''b''\<rparr>,
             \<lparr>priority = Prio64 [0,0,0,0,0,0,0,1], pitem_data = ''c''\<rparr>];
       q = pq_fill pqueue_insert es \<lparr>pq_items = []\<rparr>
   in sorted_wrt (<) (map (be_nat \<circ> prio_bytes \<circ> priority) (pq_drain pqueue_pop (pqueue_size q) q)) \<and>
      map pitem_data (pq_drain pqueue_pop (pqueue_size q) q) = [''b'', ''a'']"
  unfolding Let_def
  apply (rule conjI)
  subgoal by (rule conjunct1 [OF pqueue_fill_drain]) simp
  subgoal by (simp add: pqueue_insert_def pqueue_size_def pqueue_pop_def)
  done

end
