(* ===== verification/Lhash.thy ===== *)
theory Lhash
  imports Prelude "HOL-Library.Multiset"
begin

text \<open>
  The chained hash table of crypto/lhash/lhash.c.  The bucket array is a list of chains, a chain
  the list of its items in the order of the \<^verbatim>\<open>next\<close> pointers, and the pointer-to-pointer that
  get_next_ptr_and_hash returns is a position in a chain, the chain's length standing for the
  pointer to NULL.  Elements are opaque values; whether malloc succeeds is a boolean argument of
  the operations that allocate.  Counters are natural numbers: every item occupies memory, so
  \<open>num_items\<close> cannot wrap.  The contract of a table is the locale \<open>assoc_table\<close>.
\<close>

section \<open>State\<close>

(* src: include/openssl/lhash.h@105-110 LHASH_ITEM *)
record 'a lhash_item =
  item_data :: 'a
  item_hash :: u32

(* src: include/openssl/lhash.h@122-139 lhash_st *)
record 'a lhash =
  lh_items :: nat
  lh_buckets :: "'a lhash_item list list"
  lh_num_buckets :: nat
  lh_callback_depth :: nat
  lh_comp :: "'a \<Rightarrow> 'a \<Rightarrow> int"
  lh_hash :: "'a \<Rightarrow> u32"

(* src: crypto/lhash/lhash.c@63-64 kMinNumBuckets *)
definition kMinNumBuckets :: nat where
  "kMinNumBuckets = 16"

(* src: crypto/lhash/lhash.c@66-68 kMaxAverageChainLength *)
definition kMaxAverageChainLength :: nat where
  "kMaxAverageChainLength = 2"

(* src: crypto/lhash/lhash.c@69-69 kMinAverageChainLength *)
definition kMinAverageChainLength :: nat where
  "kMinAverageChainLength = 1"

definition UINT_MAX :: nat where
  "UINT_MAX = 4294967295"

section \<open>The default functions on strings\<close>

text \<open>
  A C string is the list of its characters without the NUL.  \<^verbatim>\<open>char\<close> is signed on the target,
  so \<^verbatim>\<open>n | ( *c)\<close> sign-extends the character to 64 bits.
\<close>

(* src: crypto/lhash/lhash.c@333-341 lh_strhash *)
fun lh_strhash_loop :: "bytes \<Rightarrow> u64 \<Rightarrow> u64 \<Rightarrow> u64" where
  "lh_strhash_loop [] n ret = ret"
| "lh_strhash_loop (c # cs) n ret =
     (let v = n OR scast c;
          n = n + 0x100;
          r = unat ((drop_bit 2 v XOR v) AND 0x0f);
          ret = push_bit r ret OR drop_bit (32 - r) ret;
          ret = ret AND 0xFFFFFFFF;
          ret = ret XOR (v * v)
      in lh_strhash_loop cs n ret)"

(* src: crypto/lhash/lhash.c lh_strhash *)
definition lh_strhash :: "bytes option \<Rightarrow> u32" where
  "lh_strhash s =
     (case s of
        None \<Rightarrow> 0
      | Some c \<Rightarrow>
          (if c = [] then 0
           else let ret = lh_strhash_loop c 0x100 0 in ucast (drop_bit 16 ret XOR ret)))"

text \<open>strcmp of the C library.\<close>

fun strcmp :: "bytes \<Rightarrow> bytes \<Rightarrow> int" where
  "strcmp [] [] = 0"
| "strcmp [] (b # bs) = -1"
| "strcmp (a # as) [] = 1"
| "strcmp (a # as) (b # bs) = (if a = b then strcmp as bs else if a < b then -1 else 1)"

section \<open>Operations\<close>

(* src: crypto/lhash/lhash.c lh_new *)
definition lh_new ::
  "bool \<Rightarrow> bool \<Rightarrow> ('a \<Rightarrow> u32) option \<Rightarrow> ('a \<Rightarrow> 'a \<Rightarrow> int) option \<Rightarrow> ('a \<Rightarrow> bytes) \<Rightarrow> 'a lhash option" where
  "lh_new table_ok buckets_ok hash cmp as_string =
     (if \<not> table_ok then None
      else if \<not> buckets_ok then None
      else Some
        \<lparr>lh_items = 0, lh_buckets = replicate kMinNumBuckets [], lh_num_buckets = kMinNumBuckets,
         lh_callback_depth = 0,
         lh_comp = (case cmp of None \<Rightarrow> (\<lambda>a b. strcmp (as_string a) (as_string b)) | Some c \<Rightarrow> c),
         lh_hash = (case hash of None \<Rightarrow> (\<lambda>a. lh_strhash (Some (as_string a))) | Some h \<Rightarrow> h)\<rparr>)"

(* src: crypto/lhash/lhash.c lh_num_items *)
definition lh_num_items :: "'a lhash \<Rightarrow> nat" where
  "lh_num_items lh = lh_items lh"

(* src: crypto/lhash/lhash.c@138-143 get_next_ptr_and_hash *)
fun chain_position :: "('a \<Rightarrow> 'a \<Rightarrow> int) \<Rightarrow> 'a lhash_item list \<Rightarrow> 'a \<Rightarrow> nat" where
  "chain_position cmp [] d = 0"
| "chain_position cmp (cur # rest) d =
     (if cmp (item_data cur) d = 0 then 0 else Suc (chain_position cmp rest d))"

text \<open>The hash, the bucket, and the position in its chain.\<close>

(* src: crypto/lhash/lhash.c get_next_ptr_and_hash *)
definition get_next_ptr_and_hash :: "'a lhash \<Rightarrow> 'a \<Rightarrow> u32 \<times> nat \<times> nat" where
  "get_next_ptr_and_hash lh d =
     (let hash = lh_hash lh d;
          b = unat hash mod lh_num_buckets lh
      in (hash, b, chain_position (lh_comp lh) (lh_buckets lh ! b) d))"

(* src: crypto/lhash/lhash.c lh_retrieve *)
definition lh_retrieve :: "'a lhash \<Rightarrow> 'a \<Rightarrow> 'a option" where
  "lh_retrieve lh d =
     (case get_next_ptr_and_hash lh d of
        (_, b, k) \<Rightarrow>
          (if k = length (lh_buckets lh ! b) then None else Some (item_data (lh_buckets lh ! b ! k))))"

text \<open>The item in front of the chain it now hashes to.\<close>

(* src: crypto/lhash/lhash.c@189-194 lh_rebucket *)
definition lh_move_item :: "nat \<Rightarrow> 'a lhash_item \<Rightarrow> 'a lhash_item list list \<Rightarrow> 'a lhash_item list list" where
  "lh_move_item n cur new_buckets =
     (let new_bucket = unat (item_hash cur) mod n in
      new_buckets[new_bucket := cur # new_buckets ! new_bucket])"

(* src: crypto/lhash/lhash.c lh_rebucket *)
definition lh_rebucket :: "bool \<Rightarrow> 'a lhash \<Rightarrow> nat \<Rightarrow> 'a lhash" where
  "lh_rebucket malloc_ok lh new_num_buckets =
     (let alloc_size = (8 * new_num_buckets) mod size_bound in
      if alloc_size div 8 \<noteq> new_num_buckets then lh
      else if \<not> malloc_ok then lh
      else lh\<lparr>lh_num_buckets := new_num_buckets,
              lh_buckets := fold (fold (lh_move_item new_num_buckets)) (lh_buckets lh)
                              (replicate new_num_buckets [])\<rparr>)"

(* src: crypto/lhash/lhash.c lh_maybe_resize *)
definition lh_maybe_resize :: "bool \<Rightarrow> 'a lhash \<Rightarrow> 'a lhash" where
  "lh_maybe_resize malloc_ok lh =
     (if lh_callback_depth lh > 0 then lh
      else
        let avg_chain_length = lh_items lh div lh_num_buckets lh in
        if avg_chain_length > kMaxAverageChainLength then
          let new_num_buckets = (lh_num_buckets lh * 2) mod size_bound in
          if new_num_buckets > lh_num_buckets lh then lh_rebucket malloc_ok lh new_num_buckets else lh
        else if avg_chain_length < kMinAverageChainLength \<and> lh_num_buckets lh > kMinNumBuckets then
          let new_num_buckets = lh_num_buckets lh div 2;
              new_num_buckets = (if new_num_buckets < kMinNumBuckets then kMinNumBuckets
                                 else new_num_buckets)
          in lh_rebucket malloc_ok lh new_num_buckets
        else lh)"

text \<open>The result, the replaced element, and the table.\<close>

(* src: crypto/lhash/lhash.c lh_insert *)
definition lh_insert :: "bool \<times> bool \<Rightarrow> 'a lhash \<Rightarrow> 'a \<Rightarrow> bool \<times> 'a option \<times> 'a lhash" where
  "lh_insert mallocs lh d =
     (case get_next_ptr_and_hash lh d of
        (hash, b, k) \<Rightarrow>
          (let chain = lh_buckets lh ! b in
           if k < length chain then
             (True, Some (item_data (chain ! k)),
              lh\<lparr>lh_buckets := (lh_buckets lh)[b := chain[k := (chain ! k)\<lparr>item_data := d\<rparr>]]\<rparr>)
           else if \<not> fst mallocs then (False, None, lh)
           else
             let item = \<lparr>item_data = d, item_hash = hash\<rparr>;
                 lh = lh\<lparr>lh_buckets := (lh_buckets lh)[b := take k chain @ [item]],
                         lh_items := lh_items lh + 1\<rparr>
             in (True, None, lh_maybe_resize (snd mallocs) lh)))"

(* src: crypto/lhash/lhash.c lh_delete *)
definition lh_delete :: "bool \<Rightarrow> 'a lhash \<Rightarrow> 'a \<Rightarrow> 'a option \<times> 'a lhash" where
  "lh_delete malloc_ok lh d =
     (case get_next_ptr_and_hash lh d of
        (_, b, k) \<Rightarrow>
          (let chain = lh_buckets lh ! b in
           if k = length chain then (None, lh)
           else
             let lh' = lh\<lparr>lh_buckets := (lh_buckets lh)[b := take k chain @ drop (Suc k) chain],
                          lh_items := lh_items lh - 1\<rparr>
             in (Some (item_data (chain ! k)), lh_maybe_resize malloc_ok lh')))"

text \<open>
  The walk over all elements, for callbacks that leave the table alone: \<open>func\<close> acts on a state of
  the caller's.
\<close>

(* src: crypto/lhash/lhash.c lh_doall_internal *)
definition lh_doall_internal ::
  "bool \<Rightarrow> 'a lhash option \<Rightarrow> ('a \<Rightarrow> 's \<Rightarrow> 's) \<Rightarrow> 's \<Rightarrow> 's \<times> 'a lhash option" where
  "lh_doall_internal malloc_ok lh func s =
     (case lh of
        None \<Rightarrow> (s, None)
      | Some lh \<Rightarrow>
          (let lh = (if lh_callback_depth lh < UINT_MAX
                     then lh\<lparr>lh_callback_depth := lh_callback_depth lh + 1\<rparr> else lh);
               s = fold (fold (\<lambda>cur. func (item_data cur))) (lh_buckets lh) s;
               lh = (if lh_callback_depth lh < UINT_MAX
                     then lh\<lparr>lh_callback_depth := lh_callback_depth lh - 1\<rparr> else lh)
           in (s, Some (lh_maybe_resize malloc_ok lh))))"

(* src: crypto/lhash/lhash.c lh_doall *)
definition lh_doall :: "bool \<Rightarrow> 'a lhash option \<Rightarrow> ('a \<Rightarrow> 's \<Rightarrow> 's) \<Rightarrow> 's \<Rightarrow> 's \<times> 'a lhash option" where
  "lh_doall malloc_ok lh func s = lh_doall_internal malloc_ok lh func s"

(* src: crypto/lhash/lhash.c lh_doall_arg *)
definition lh_doall_arg ::
  "bool \<Rightarrow> 'a lhash option \<Rightarrow> ('a \<Rightarrow> 'arg \<Rightarrow> 's \<Rightarrow> 's) \<Rightarrow> 'arg \<Rightarrow> 's \<Rightarrow> 's \<times> 'a lhash option" where
  "lh_doall_arg malloc_ok lh func arg s = lh_doall_internal malloc_ok lh (\<lambda>d. func d arg) s"

section \<open>The invariant\<close>

text \<open>
  \<open>eq\<close> is the equality that the comparison function decides; the hash function respects it.
\<close>

definition functions_ok :: "('a \<Rightarrow> 'a \<Rightarrow> bool) \<Rightarrow> ('a \<Rightarrow> 'a \<Rightarrow> int) \<Rightarrow> ('a \<Rightarrow> u32) \<Rightarrow> bool" where
  "functions_ok eq cmp hash \<longleftrightarrow> equivp eq \<and> (\<forall>x y. cmp x y = 0 \<longleftrightarrow> eq x y) \<and>
     (\<forall>x y. eq x y \<longrightarrow> hash x = hash y)"

abbreviation unlike :: "('a \<Rightarrow> 'a \<Rightarrow> bool) \<Rightarrow> 'a lhash_item \<Rightarrow> 'a lhash_item \<Rightarrow> bool" where
  "unlike eq x y \<equiv> \<not> eq (item_data x) (item_data y)"

definition buckets_ok :: "('a \<Rightarrow> 'a \<Rightarrow> bool) \<Rightarrow> ('a \<Rightarrow> u32) \<Rightarrow> nat \<Rightarrow> 'a lhash_item list list \<Rightarrow> bool" where
  "buckets_ok eq hash n bs \<longleftrightarrow> length bs = n \<and>
     (\<forall>b < n. \<forall>x \<in> set (bs ! b). item_hash x = hash (item_data x) \<and> unat (hash (item_data x)) mod n = b) \<and>
     (\<forall>b < n. sorted_wrt (unlike eq) (bs ! b))"

definition lh_inv :: "('a \<Rightarrow> 'a \<Rightarrow> bool) \<Rightarrow> 'a lhash \<Rightarrow> bool" where
  "lh_inv eq lh \<longleftrightarrow> functions_ok eq (lh_comp lh) (lh_hash lh) \<and> kMinNumBuckets \<le> lh_num_buckets lh \<and>
     buckets_ok eq (lh_hash lh) (lh_num_buckets lh) (lh_buckets lh) \<and>
     lh_items lh = length (concat (lh_buckets lh))"

definition lh_contents :: "'a lhash \<Rightarrow> 'a lhash_item multiset" where
  "lh_contents lh = mset (concat (lh_buckets lh))"

lemma functions_okD:
  assumes "functions_ok eq cmp hash"
  shows "eq x x" "eq x y \<Longrightarrow> eq y x" "eq x y \<Longrightarrow> eq y z \<Longrightarrow> eq x z" "cmp x y = 0 \<longleftrightarrow> eq x y"
    "eq x y \<Longrightarrow> hash x = hash y"
  using assms unfolding functions_ok_def by (blast intro: equivp_reflp equivp_symp equivp_transp)+

lemma mset_concat_update:
  assumes "b < length bs"
  shows "mset (concat (bs[b := c])) + mset (bs ! b) = mset (concat bs) + mset c"
proof -
  have "concat bs = concat (take b bs) @ bs ! b @ concat (drop (Suc b) bs)"
    by (subst id_take_nth_drop [OF assms]) simp
  then show ?thesis using assms by (simp add: upd_conv_take_nth_drop)
qed

lemma nth_in_concat: "b < length bs \<Longrightarrow> set (bs ! b) \<subseteq> set (concat bs)"
  using nth_mem [of b bs] by (simp only: set_concat) blast

lemma sorted_wrt_concatI:
  "(\<And>xs. xs \<in> set bs \<Longrightarrow> sorted_wrt P xs) \<Longrightarrow>
     sorted_wrt (\<lambda>xs ys. \<forall>x \<in> set xs. \<forall>y \<in> set ys. P x y) bs \<Longrightarrow> sorted_wrt P (concat bs)"
  by (induction bs) (auto simp: sorted_wrt_append)

lemma buckets_ok_placed:
  assumes "buckets_ok eq hash n bs" "i < n" "x \<in> set (bs ! i)"
  shows "item_hash x = hash (item_data x)" "unat (hash (item_data x)) mod n = i"
proof -
  have "item_hash x = hash (item_data x) \<and> unat (hash (item_data x)) mod n = i"
    using assms unfolding buckets_ok_def by blast
  then show "item_hash x = hash (item_data x)" "unat (hash (item_data x)) mod n = i" by auto
qed

lemma buckets_ok_unlike:
  assumes b: "buckets_ok eq hash n bs" and h: "\<And>x y. eq x y \<Longrightarrow> hash x = hash y"
  shows "sorted_wrt (unlike eq) (concat bs)"
proof (rule sorted_wrt_concatI)
  show "sorted_wrt (unlike eq) xs" if "xs \<in> set bs" for xs
  proof -
    obtain i where "i < length bs" "bs ! i = xs" using \<open>xs \<in> set bs\<close> by (metis in_set_conv_nth)
    then show ?thesis using b by (auto simp: buckets_ok_def)
  qed
  show "sorted_wrt (\<lambda>xs ys. \<forall>x \<in> set xs. \<forall>y \<in> set ys. unlike eq x y) bs"
    unfolding sorted_wrt_iff_nth_less
  proof (intro allI impI ballI notI)
    fix i j x y
    assume a: "i < j" "j < length bs" "x \<in> set (bs ! i)" "y \<in> set (bs ! j)" "eq (item_data x) (item_data y)"
    have "length bs = n" using b by (simp add: buckets_ok_def)
    then show False
      using a(1,2) h [OF a(5)] buckets_ok_placed(2) [OF b _ a(3)] buckets_ok_placed(2) [OF b _ a(4)] by simp
  qed
qed

text \<open>What a lookup finds depends only on which elements are there.\<close>

lemma chain_position_le: "chain_position cmp xs d \<le> length xs"
  by (induction xs) auto

lemma chain_position_found:
  "chain_position cmp xs d < length xs \<Longrightarrow> cmp (item_data (xs ! chain_position cmp xs d)) d = 0"
  by (induction xs) auto

lemma chain_position_missing:
  "chain_position cmp xs d = length xs \<longleftrightarrow> (\<forall>x \<in> set xs. cmp (item_data x) d \<noteq> 0)"
  by (induction xs) auto

lemma lh_inv_bucket:
  assumes "lh_inv eq lh" "get_next_ptr_and_hash lh d = (h, b, k)"
  shows "h = lh_hash lh d" "b = unat h mod lh_num_buckets lh" "b < lh_num_buckets lh"
    "b < length (lh_buckets lh)" "k = chain_position (lh_comp lh) (lh_buckets lh ! b) d"
    "k \<le> length (lh_buckets lh ! b)"
  using assms
  by (auto simp: get_next_ptr_and_hash_def Let_def lh_inv_def buckets_ok_def kMinNumBuckets_def chain_position_le)

lemma eq_item_in_bucket:
  assumes inv: "lh_inv eq lh" and g: "get_next_ptr_and_hash lh d = (h, b, k)"
    and x: "x \<in># lh_contents lh" "eq (item_data x) d"
  shows "x \<in> set (lh_buckets lh ! b)"
proof -
  note bk = lh_inv_bucket [OF inv g]
  have "x \<in> set (concat (lh_buckets lh))" using x(1) by (simp add: lh_contents_def)
  then obtain xs where "xs \<in> set (lh_buckets lh)" "x \<in> set xs" by auto
  then obtain i where i: "i < length (lh_buckets lh)" "x \<in> set (lh_buckets lh ! i)"
    by (auto simp: in_set_conv_nth)
  have "lh_hash lh (item_data x) = lh_hash lh d"
    using inv x(2) by (auto simp: lh_inv_def dest: functions_okD(5))
  moreover have "unat (lh_hash lh (item_data x)) mod lh_num_buckets lh = i"
    using i inv by (auto simp: lh_inv_def buckets_ok_def intro: buckets_ok_placed(2) [of eq])
  ultimately have "i = b" using bk(1,2) by simp
  then show ?thesis using i by simp
qed

lemma lh_retrieve_cases:
  assumes inv: "lh_inv eq lh"
  shows "(case lh_retrieve lh d of
      None \<Rightarrow> (\<forall>x. x \<in># lh_contents lh \<longrightarrow> \<not> eq (item_data x) d)
    | Some e \<Rightarrow> (\<exists>x. x \<in># lh_contents lh \<and> item_data x = e) \<and> eq e d)"
proof -
  obtain h b k where g: "get_next_ptr_and_hash lh d = (h, b, k)" by (cases "get_next_ptr_and_hash lh d")
  note bk = lh_inv_bucket [OF inv g]
  note f = functions_okD [of eq "lh_comp lh" "lh_hash lh"]
  have fo: "functions_ok eq (lh_comp lh) (lh_hash lh)" using inv by (simp add: lh_inv_def)
  show ?thesis
  proof (cases "k = length (lh_buckets lh ! b)")
    case True
    then have "\<forall>x \<in> set (lh_buckets lh ! b). \<not> eq (item_data x) d"
      using bk(5) f(4) [OF fo] by (simp add: chain_position_missing)
    then show ?thesis using True g eq_item_in_bucket [OF inv g] by (auto simp: lh_retrieve_def)
  next
    case False
    then have k: "k < length (lh_buckets lh ! b)" using bk(6) by simp
    then have "eq (item_data (lh_buckets lh ! b ! k)) d"
      using bk(5) chain_position_found f(4) [OF fo] by metis
    moreover have "lh_buckets lh ! b ! k \<in># lh_contents lh"
      using nth_mem [OF k] nth_in_concat [OF bk(4)] unfolding lh_contents_def set_mset_mset by blast
    ultimately show ?thesis using False g by (auto simp: lh_retrieve_def)
  qed
qed

text \<open>No two items are equal, so an equal one is the one found.\<close>

lemma lh_contents_unique:
  assumes inv: "lh_inv eq lh" and x: "x \<in># lh_contents lh" "y \<in># lh_contents lh" "eq (item_data x) (item_data y)"
  shows "x = y"
proof (rule ccontr)
  assume ne: "x \<noteq> y"
  have fo: "functions_ok eq (lh_comp lh) (lh_hash lh)" using inv by (simp add: lh_inv_def)
  have s: "sorted_wrt (unlike eq) (concat (lh_buckets lh))"
    using inv functions_okD(5) [OF fo] by (auto simp: lh_inv_def intro: buckets_ok_unlike)
  obtain i j where ij: "i < length (concat (lh_buckets lh))" "concat (lh_buckets lh) ! i = x"
      "j < length (concat (lh_buckets lh))" "concat (lh_buckets lh) ! j = y"
    using x(1,2) unfolding lh_contents_def set_mset_mset in_set_conv_nth by blast
  then have "i < j \<or> j < i" using ne by (metis linorder_neqE_nat)
  then show False
    using sorted_wrt_nth_less [OF s] ij x(3) functions_okD(2) [OF fo x(3)] by metis
qed

lemma lh_retrieve_eq_Some_iff:
  assumes inv: "lh_inv eq lh"
  shows "lh_retrieve lh d = Some e \<longleftrightarrow> (\<exists>x. x \<in># lh_contents lh \<and> item_data x = e) \<and> eq e d"
proof
  assume "lh_retrieve lh d = Some e"
  then show "(\<exists>x. x \<in># lh_contents lh \<and> item_data x = e) \<and> eq e d"
    using lh_retrieve_cases [OF inv, of d] by simp
next
  assume a: "(\<exists>x. x \<in># lh_contents lh \<and> item_data x = e) \<and> eq e d"
  then obtain x where x: "x \<in># lh_contents lh" "item_data x = e" by blast
  have fo: "functions_ok eq (lh_comp lh) (lh_hash lh)" using inv by (simp add: lh_inv_def)
  note c = lh_retrieve_cases [OF inv, of d]
  then obtain e' where e': "lh_retrieve lh d = Some e'" using a x by (cases "lh_retrieve lh d") auto
  then obtain y where y: "y \<in># lh_contents lh" "item_data y = e'" "eq e' d" using c by auto
  have "eq (item_data x) (item_data y)"
    using a x y by (metis functions_okD(2) [OF fo] functions_okD(3) [OF fo])
  then have "x = y" by (rule lh_contents_unique [OF inv x(1) y(1)])
  then show "lh_retrieve lh d = Some e" using e' x y by simp
qed

section \<open>Every operation keeps the invariant\<close>

lemma buckets_ok_update:
  assumes "buckets_ok eq hash n bs" "b < n" "sorted_wrt (unlike eq) c"
    and "\<And>x. x \<in> set c \<Longrightarrow> item_hash x = hash (item_data x) \<and> unat (hash (item_data x)) mod n = b"
  shows "buckets_ok eq hash n (bs[b := c])"
  using assms by (auto simp: buckets_ok_def nth_list_update)

lemma lh_move_item_ok:
  assumes b: "buckets_ok eq hash n bs" and n: "0 < n" and h: "item_hash x = hash (item_data x)"
    and u: "\<And>y. y \<in> set (concat bs) \<Longrightarrow> unlike eq x y"
  shows "buckets_ok eq hash n (lh_move_item n x bs) \<and>
    mset (concat (lh_move_item n x bs)) = add_mset x (mset (concat bs))"
proof -
  let ?b = "unat (hash (item_data x)) mod n"
  have bl: "?b < n" "?b < length bs" using n b by (auto simp: buckets_ok_def)
  have "unlike eq x y" if "y \<in> set (bs ! ?b)" for y
    using that u nth_in_concat [OF bl(2)] by blast
  then have "sorted_wrt (unlike eq) (x # bs ! ?b)" using b bl(1) by (simp add: buckets_ok_def)
  then have "buckets_ok eq hash n (bs[?b := x # bs ! ?b])"
    by (rule buckets_ok_update [OF b bl(1)]) (use h buckets_ok_placed [OF b bl(1)] in auto)
  moreover have "mset (concat (bs[?b := x # bs ! ?b])) = add_mset x (mset (concat bs))"
    using mset_concat_update [OF bl(2), of "x # bs ! ?b"] by simp
  ultimately show ?thesis using h by (simp add: lh_move_item_def Let_def)
qed

lemma fold_move_items_ok:
  assumes "buckets_ok eq hash n bs" "0 < n" "\<And>x. x \<in> set xs \<Longrightarrow> item_hash x = hash (item_data x)"
    and "sorted_wrt (unlike eq) xs" "\<And>x y. x \<in> set xs \<Longrightarrow> y \<in> set (concat bs) \<Longrightarrow> unlike eq x y"
    and sym: "\<And>x y. eq x y \<Longrightarrow> eq y x"
  shows "buckets_ok eq hash n (fold (lh_move_item n) xs bs) \<and>
    mset (concat (fold (lh_move_item n) xs bs)) = mset xs + mset (concat bs)"
  using assms(1,3-5)
proof (induction xs arbitrary: bs)
  case (Cons x xs)
  let ?bs = "lh_move_item n x bs"
  have m: "buckets_ok eq hash n ?bs" "mset (concat ?bs) = add_mset x (mset (concat bs))"
    using lh_move_item_ok [OF Cons.prems(1) assms(2)] Cons.prems(2,4) by auto
  have s: "set (concat ?bs) = insert x (set (concat bs))"
    using mset_eq_setD [of "concat ?bs" "x # concat bs"] m(2) by simp
  have "buckets_ok eq hash n (fold (lh_move_item n) xs ?bs) \<and>
      mset (concat (fold (lh_move_item n) xs ?bs)) = mset xs + mset (concat ?bs)"
  proof (rule Cons.IH [OF m(1)])
    fix u v assume "u \<in> set xs" "v \<in> set (concat ?bs)"
    then show "unlike eq u v" using Cons.prems(3,4) s sym by (auto simp del: set_concat)
  qed (use Cons.prems in auto)
  then show ?case using m(2) by simp
qed simp

lemma fold_fold_concat: "fold (fold f) xss s = fold f (concat xss) s"
  by (induction xss arbitrary: s) auto

lemma lh_rebucket_ok:
  assumes inv: "lh_inv eq lh" and n: "kMinNumBuckets \<le> n"
  shows "lh_inv eq (lh_rebucket ok lh n) \<and> lh_contents (lh_rebucket ok lh n) = lh_contents lh \<and>
    lh_callback_depth (lh_rebucket ok lh n) = lh_callback_depth lh"
proof -
  have fo: "functions_ok eq (lh_comp lh) (lh_hash lh)"
    and b: "buckets_ok eq (lh_hash lh) (lh_num_buckets lh) (lh_buckets lh)" using inv by (auto simp: lh_inv_def)
  let ?bs = "fold (lh_move_item n) (concat (lh_buckets lh)) (replicate n [])"
  have r: "buckets_ok eq (lh_hash lh) n ?bs \<and>
      mset (concat ?bs) = mset (concat (lh_buckets lh)) + mset (concat (replicate n []))"
  proof (rule fold_move_items_ok)
    show "buckets_ok eq (lh_hash lh) n (replicate n [])" by (simp add: buckets_ok_def)
    show "0 < n" using n by (simp add: kMinNumBuckets_def)
    show "item_hash x = lh_hash lh (item_data x)" if "x \<in> set (concat (lh_buckets lh))" for x
    proof -
      obtain i where "i < length (lh_buckets lh)" "x \<in> set (lh_buckets lh ! i)"
        using \<open>x \<in> _\<close> by (metis in_set_conv_nth set_concat UN_E)
      then show ?thesis using buckets_ok_placed(1) [OF b] b by (simp add: buckets_ok_def)
    qed
    show "sorted_wrt (unlike eq) (concat (lh_buckets lh))"
      by (rule buckets_ok_unlike [OF b functions_okD(5) [OF fo]])
  qed (auto intro: functions_okD(2) [OF fo])
  then have "length (concat ?bs) = length (concat (lh_buckets lh))"
    by (metis add.right_neutral concat_replicate_trivial mset.simps(1) size_mset)
  then show ?thesis using inv n r
    by (auto simp: lh_rebucket_def Let_def lh_inv_def lh_contents_def fold_fold_concat)
qed

lemma lh_maybe_resize_ok:
  assumes inv: "lh_inv eq lh"
  shows "lh_inv eq (lh_maybe_resize ok lh) \<and> lh_contents (lh_maybe_resize ok lh) = lh_contents lh \<and>
    lh_callback_depth (lh_maybe_resize ok lh) = lh_callback_depth lh"
proof -
  have "kMinNumBuckets \<le> lh_num_buckets lh" using inv by (simp add: lh_inv_def)
  then show ?thesis
    using inv lh_rebucket_ok [OF inv, of "(lh_num_buckets lh * 2) mod size_bound" ok]
      lh_rebucket_ok [OF inv, of "lh_num_buckets lh div 2" ok] lh_rebucket_ok [OF inv, of kMinNumBuckets ok]
    by (auto simp: lh_maybe_resize_def Let_def)
qed

text \<open>One bucket changes; the items elsewhere stay.\<close>

lemma lh_bucket_update_ok:
  assumes inv: "lh_inv eq lh" and b: "b < lh_num_buckets lh" and s: "sorted_wrt (unlike eq) c"
    and p: "\<And>x. x \<in> set c \<Longrightarrow> item_hash x = lh_hash lh (item_data x) \<and> unat (lh_hash lh (item_data x)) mod lh_num_buckets lh = b"
    and n: "n + length (lh_buckets lh ! b) = lh_items lh + length c"
  shows "lh_inv eq (lh\<lparr>lh_buckets := (lh_buckets lh)[b := c], lh_items := n\<rparr>) \<and>
    lh_contents (lh\<lparr>lh_buckets := (lh_buckets lh)[b := c], lh_items := n\<rparr>) + mset (lh_buckets lh ! b)
      = lh_contents lh + mset c"
proof -
  have bk: "buckets_ok eq (lh_hash lh) (lh_num_buckets lh) (lh_buckets lh)" "b < length (lh_buckets lh)"
    using inv b by (auto simp: lh_inv_def buckets_ok_def)
  note m = mset_concat_update [OF bk(2), of c]
  have "length (concat ((lh_buckets lh)[b := c])) + length (lh_buckets lh ! b)
      = length (concat (lh_buckets lh)) + length c"
    using arg_cong [OF m, of size] by (simp only: size_union size_mset)
  then have "n = length (concat ((lh_buckets lh)[b := c]))" using n inv by (simp add: lh_inv_def)
  then show ?thesis using inv m buckets_ok_update [OF bk(1) b s p] by (simp add: lh_inv_def lh_contents_def)
qed

lemma chain_parts:
  assumes "k < length xs"
  shows "xs = take k xs @ xs ! k # drop (Suc k) xs"
  using assms by (rule id_take_nth_drop)

lemma sorted_unlike_distinct:
  "sorted_wrt (unlike eq) xs \<Longrightarrow> (\<And>x. eq x x) \<Longrightarrow> distinct xs"
  by (induction xs) auto

lemma lh_contents_count:
  assumes inv: "lh_inv eq lh"
  shows "count (lh_contents lh) x \<le> 1"
proof -
  have fo: "functions_ok eq (lh_comp lh) (lh_hash lh)" using inv by (simp add: lh_inv_def)
  have "sorted_wrt (unlike eq) (concat (lh_buckets lh))"
    using inv functions_okD(5) [OF fo] by (auto simp: lh_inv_def intro: buckets_ok_unlike)
  then have "distinct (concat (lh_buckets lh))"
    using functions_okD(1) [OF fo] by (rule sorted_unlike_distinct)
  then show ?thesis by (simp add: lh_contents_def distinct_count_atmost_1)
qed

lemma lh_retrieve_unchanged:
  assumes inv: "lh_inv eq lh" "lh_inv eq lh'" and k: "\<not> eq d k"
    and same: "\<And>x. \<not> eq d (item_data x) \<Longrightarrow> x \<in># lh_contents lh' \<longleftrightarrow> x \<in># lh_contents lh"
  shows "lh_retrieve lh' k = lh_retrieve lh k"
proof -
  have fo: "functions_ok eq (lh_comp lh) (lh_hash lh)" using inv by (simp add: lh_inv_def)
  have "lh_retrieve lh' k = Some e \<longleftrightarrow> lh_retrieve lh k = Some e" for e
  proof (cases "eq e k")
    case True
    then have "\<not> eq d e" using k functions_okD(3) [OF fo] by blast
    then show ?thesis
      using same by (auto simp: lh_retrieve_eq_Some_iff [OF inv(1)] lh_retrieve_eq_Some_iff [OF inv(2)])
  next
    case False
    then show ?thesis by (simp add: lh_retrieve_eq_Some_iff [OF inv(1)] lh_retrieve_eq_Some_iff [OF inv(2)])
  qed
  then show ?thesis by (metis option.exhaust)
qed

text \<open>What the lookup position says about the chain.\<close>

lemma chain_split:
  assumes inv: "lh_inv eq lh" and g: "get_next_ptr_and_hash lh d = (h, b, k)"
    and k: "k < length (lh_buckets lh ! b)"
  obtains as c bs where "lh_buckets lh ! b = as @ c # bs" "length as = k" "eq (item_data c) d"
    "sorted_wrt (unlike eq) (as @ c # bs)"
    "\<And>x. x \<in> set (as @ c # bs) \<Longrightarrow> item_hash x = lh_hash lh (item_data x) \<and>
       unat (lh_hash lh (item_data x)) mod lh_num_buckets lh = b"
    "lh_retrieve lh d = Some (item_data c)"
proof -
  note bk = lh_inv_bucket [OF inv g]
  have fo: "functions_ok eq (lh_comp lh) (lh_hash lh)"
    and bko: "buckets_ok eq (lh_hash lh) (lh_num_buckets lh) (lh_buckets lh)" using inv by (auto simp: lh_inv_def)
  let ?c = "lh_buckets lh ! b"
  note e = id_take_nth_drop [OF k]
  have "eq (item_data (?c ! k)) d" using bk(5) k chain_position_found functions_okD(4) [OF fo] by metis
  moreover have "sorted_wrt (unlike eq) ?c" using bko bk by (simp add: buckets_ok_def)
  moreover have "item_hash x = lh_hash lh (item_data x) \<and> unat (lh_hash lh (item_data x)) mod lh_num_buckets lh = b"
    if "x \<in> set ?c" for x using buckets_ok_placed [OF bko bk(3) that] by simp
  moreover have "lh_retrieve lh d = Some (item_data (?c ! k))" using g k by (simp add: lh_retrieve_def)
  ultimately show ?thesis using that [of "take k ?c" "?c ! k" "drop (Suc k) ?c"] e k by simp
qed

lemma lh_insert_ok:
  assumes inv: "lh_inv eq lh" and r: "lh_insert ms lh d = (ok, old, lh')"
  shows "lh_inv eq lh' \<and> old = lh_retrieve lh d \<and>
    (if ok then (\<forall>k. lh_retrieve lh' k = (if eq d k then Some d else lh_retrieve lh k)) \<and>
        lh_num_items lh' = lh_num_items lh + (if old = None then 1 else 0)
     else lh' = lh \<and> old = None) \<and> (ok \<longleftrightarrow> lh_retrieve lh d \<noteq> None \<or> fst ms)"
proof -
  have fo: "functions_ok eq (lh_comp lh) (lh_hash lh)" using inv by (simp add: lh_inv_def)
  obtain h b k where g: "get_next_ptr_and_hash lh d = (h, b, k)" by (cases "get_next_ptr_and_hash lh d")
  note bk = lh_inv_bucket [OF inv g]
  have fin: "lh_retrieve t j = (if eq d j then Some d else lh_retrieve lh j)"
    if t: "lh_inv eq t" "n \<in># lh_contents t" "item_data n = d"
      "\<And>x. \<not> eq d (item_data x) \<Longrightarrow> x \<in># lh_contents t \<longleftrightarrow> x \<in># lh_contents lh" for t n j
    using t lh_retrieve_unchanged [OF inv t(1), of d j] by (auto simp: lh_retrieve_eq_Some_iff [OF t(1)])
  show ?thesis
  proof (cases "k < length (lh_buckets lh ! b)")
    case True
    obtain as c bs where p: "lh_buckets lh ! b = as @ c # bs" "length as = k" "eq (item_data c) d"
        "sorted_wrt (unlike eq) (as @ c # bs)"
        "\<And>x. x \<in> set (as @ c # bs) \<Longrightarrow> item_hash x = lh_hash lh (item_data x) \<and>
           unat (lh_hash lh (item_data x)) mod lh_num_buckets lh = b"
        "lh_retrieve lh d = Some (item_data c)"
      by (rule chain_split [OF inv g True]) blast
    let ?n = "c\<lparr>item_data := d\<rparr>"
    let ?t = "lh\<lparr>lh_buckets := (lh_buckets lh)[b := as @ ?n # bs], lh_items := lh_items lh\<rparr>"
    have like: "eq x d \<longleftrightarrow> eq x (item_data c)" "eq d x \<longleftrightarrow> eq (item_data c) x" for x
      using p(3) functions_okD(2,3) [OF fo] by blast+
    have s: "sorted_wrt (unlike eq) (as @ ?n # bs)"
      using p(4) by (simp add: sorted_wrt_append like)
    have hd: "lh_hash lh d = lh_hash lh (item_data c)" using functions_okD(5) [OF fo p(3)] by simp
    have pl: "item_hash x = lh_hash lh (item_data x) \<and> unat (lh_hash lh (item_data x)) mod lh_num_buckets lh = b"
      if "x \<in> set (as @ ?n # bs)" for x using that p(5) [of x] p(5) [of c] hd by auto
    have u: "lh_inv eq ?t" "lh_contents ?t + mset (as @ c # bs) = lh_contents lh + mset (as @ ?n # bs)"
      using lh_bucket_update_ok [OF inv bk(3) s pl, of "lh_items lh"] p(1) by simp_all
    then have m: "add_mset c (lh_contents ?t) = add_mset ?n (lh_contents lh)" by simp
    have "x \<in># lh_contents ?t \<longleftrightarrow> x \<in># lh_contents lh" if "\<not> eq d (item_data x)" for x
    proof -
      have "x \<noteq> c" "x \<noteq> ?n" using that functions_okD(1,2) [OF fo] p(3) by auto
      then show ?thesis using arg_cong [OF m, of "\<lambda>M. x \<in># M"] by simp
    qed
    moreover have "?n \<in># lh_contents ?t"
    proof (cases "?n = c")
      case True
      then show ?thesis using m p(1) nth_in_concat [OF bk(4)] by (auto simp: lh_contents_def)
    next
      case False
      then show ?thesis using arg_cong [OF m, of "\<lambda>M. ?n \<in># M"] by simp
    qed
    ultimately have f: "lh_retrieve ?t j = (if eq d j then Some d else lh_retrieve lh j)" for j
      by (intro fin [OF u(1), of ?n]) auto
    have "ok" "old = Some (item_data c)" "lh' = ?t"
      using r g p(1,2) by (auto simp: lh_insert_def Let_def)
    then show ?thesis using f u(1) p(6) by (simp add: lh_num_items_def)
  next
    case False
    then have k: "k = length (lh_buckets lh ! b)" using bk(6) by simp
    have none: "lh_retrieve lh d = None" using g k by (simp add: lh_retrieve_def)
    show ?thesis
    proof (cases "fst ms")
      case False
      then show ?thesis using r g k none inv by (auto simp: lh_insert_def Let_def)
    next
      case True
      let ?c = "lh_buckets lh ! b" and ?n = "\<lparr>item_data = d, item_hash = h\<rparr>"
      let ?t = "lh\<lparr>lh_buckets := (lh_buckets lh)[b := ?c @ [?n]], lh_items := lh_items lh + 1\<rparr>"
      have bko: "buckets_ok eq (lh_hash lh) (lh_num_buckets lh) (lh_buckets lh)" using inv by (simp add: lh_inv_def)
      have "\<forall>x \<in> set ?c. \<not> eq (item_data x) d"
        using bk(5) k functions_okD(4) [OF fo] chain_position_missing [of "lh_comp lh" ?c d] by simp
      then have s: "sorted_wrt (unlike eq) (?c @ [?n])"
        using bko bk by (auto simp: sorted_wrt_append buckets_ok_def)
      have pl: "item_hash x = lh_hash lh (item_data x) \<and> unat (lh_hash lh (item_data x)) mod lh_num_buckets lh = b"
        if "x \<in> set (?c @ [?n])" for x using that buckets_ok_placed [OF bko bk(3)] bk(1,2) by auto
      have u: "lh_inv eq ?t" "lh_contents ?t = add_mset ?n (lh_contents lh)"
        using lh_bucket_update_ok [OF inv bk(3) s pl, of "lh_items lh + 1"] by simp_all
      note z = lh_maybe_resize_ok [OF u(1), of "snd ms"]
      have e: "ok" "old = None" "lh' = lh_maybe_resize (snd ms) ?t"
        using r g k True by (auto simp: lh_insert_def Let_def)
      have "x \<in># lh_contents lh' \<longleftrightarrow> x \<in># lh_contents lh" if "\<not> eq d (item_data x)" for x
        using that z e u(2) functions_okD(1) [OF fo] by auto
      then have f: "lh_retrieve lh' j = (if eq d j then Some d else lh_retrieve lh j)" for j
        using z e u(2) by (intro fin [of _ ?n]) auto
      have "lh_num_items t = size (lh_contents t)" if "lh_inv eq t" for t
        using that by (simp add: lh_num_items_def lh_inv_def lh_contents_def)
      then show ?thesis using f z e none u inv True by simp
    qed
  qed
qed

lemma lh_delete_ok:
  assumes inv: "lh_inv eq lh" and r: "lh_delete m lh d = (old, lh')"
  shows "lh_inv eq lh' \<and> old = lh_retrieve lh d \<and>
    (\<forall>k. lh_retrieve lh' k = (if eq d k then None else lh_retrieve lh k)) \<and>
    lh_num_items lh = lh_num_items lh' + (if old = None then 0 else 1)"
proof -
  have fo: "functions_ok eq (lh_comp lh) (lh_hash lh)" using inv by (simp add: lh_inv_def)
  obtain h b k where g: "get_next_ptr_and_hash lh d = (h, b, k)" by (cases "get_next_ptr_and_hash lh d")
  note bk = lh_inv_bucket [OF inv g]
  show ?thesis
  proof (cases "k < length (lh_buckets lh ! b)")
    case False
    then have k: "k = length (lh_buckets lh ! b)" using bk(6) by simp
    have none: "lh_retrieve lh d = None" using g k by (simp add: lh_retrieve_def)
    have "lh_retrieve lh j = None" if "eq d j" for j
    proof (rule ccontr)
      assume "lh_retrieve lh j \<noteq> None"
      then obtain e where e: "lh_retrieve lh j = Some e" by blast
      then have "eq e j" by (simp add: lh_retrieve_eq_Some_iff [OF inv])
      then have "eq e d" using that functions_okD(2,3) [OF fo] by blast
      then have "lh_retrieve lh d = Some e" using e by (simp add: lh_retrieve_eq_Some_iff [OF inv])
      then show False using none by simp
    qed
    then show ?thesis using r g k none inv by (auto simp: lh_delete_def Let_def)
  next
    case True
    obtain as c bs where p: "lh_buckets lh ! b = as @ c # bs" "length as = k" "eq (item_data c) d"
        "sorted_wrt (unlike eq) (as @ c # bs)"
        "\<And>x. x \<in> set (as @ c # bs) \<Longrightarrow> item_hash x = lh_hash lh (item_data x) \<and>
           unat (lh_hash lh (item_data x)) mod lh_num_buckets lh = b"
        "lh_retrieve lh d = Some (item_data c)"
      by (rule chain_split [OF inv g True]) blast
    let ?t = "lh\<lparr>lh_buckets := (lh_buckets lh)[b := as @ bs], lh_items := lh_items lh - 1\<rparr>"
    have "c \<in># lh_contents lh" using p(1) nth_in_concat [OF bk(4)] by (auto simp: lh_contents_def)
    moreover have sz: "lh_num_items t = size (lh_contents t)" if "lh_inv eq t" for t
      using that by (simp add: lh_num_items_def lh_inv_def lh_contents_def)
    ultimately have pos: "0 < lh_items lh" using sz [OF inv] by (cases "lh_contents lh") (auto simp: lh_num_items_def)
    have s: "sorted_wrt (unlike eq) (as @ bs)" using p(4) by (auto simp: sorted_wrt_append)
    have pl: "item_hash x = lh_hash lh (item_data x) \<and> unat (lh_hash lh (item_data x)) mod lh_num_buckets lh = b"
      if "x \<in> set (as @ bs)" for x using that p(5) [of x] by auto
    have u: "lh_inv eq ?t" "lh_contents ?t + mset (as @ c # bs) = lh_contents lh + mset (as @ bs)"
      using lh_bucket_update_ok [OF inv bk(3) s pl, of "lh_items lh - 1"] p(1) pos by simp_all
    then have m: "lh_contents lh = add_mset c (lh_contents ?t)" by simp
    note z = lh_maybe_resize_ok [OF u(1), of m]
    have e: "old = Some (item_data c)" "lh' = lh_maybe_resize m ?t"
      using r g p(1,2) by (auto simp: lh_delete_def Let_def)
    have "x \<in># lh_contents lh' \<longleftrightarrow> x \<in># lh_contents lh" if "\<not> eq d (item_data x)" for x
      using that z e m p(3) functions_okD(2) [OF fo] by auto
    then have f: "lh_retrieve lh' j = lh_retrieve lh j" if "\<not> eq d j" for j
      using lh_retrieve_unchanged [OF inv _ that] z e by simp
    have "lh_retrieve lh' j = None" if j: "eq d j" for j
    proof (rule ccontr)
      assume "lh_retrieve lh' j \<noteq> None"
      then obtain y where y: "y \<in># lh_contents lh'" "eq (item_data y) j"
        using z e lh_retrieve_eq_Some_iff [of eq lh' j] by auto
      then have yt: "y \<in># lh_contents ?t" using z e by simp
      then have "y \<in># lh_contents lh" using m by simp
      moreover have "eq (item_data y) (item_data c)" using y(2) j p(3) functions_okD(2,3) [OF fo] by blast
      ultimately have "y = c" using lh_contents_unique [OF inv] m by simp
      then have "Suc 0 \<le> count (lh_contents ?t) c" using yt by (simp add: Suc_le_eq)
      then have "2 \<le> count (lh_contents lh) c" using m by simp
      then show False using lh_contents_count [OF inv, of c] by simp
    qed
    then show ?thesis using f z e p(6) u(1) m sz [OF inv] sz [of lh'] by simp
  qed
qed

section \<open>The contract of a table\<close>

text \<open>Requests on a table, each with the outcomes of the allocations it may make.\<close>

datatype ('m, 'a) table_op = Put 'm 'a | Remove 'm 'a

datatype 'a table_result = Stored bool "'a option" | Removed "'a option"

fun table_run ::
  "('m \<Rightarrow> 't \<Rightarrow> 'a \<Rightarrow> bool \<times> 'a option \<times> 't) \<Rightarrow> ('m \<Rightarrow> 't \<Rightarrow> 'a \<Rightarrow> 'a option \<times> 't) \<Rightarrow>
    ('m, 'a) table_op list \<Rightarrow> 't \<Rightarrow> 'a table_result list \<times> 't" where
  "table_run ins del [] t = ([], t)"
| "table_run ins del (Put m d # ops) t =
     (case ins m t d of (ok, old, t') \<Rightarrow>
        (case table_run ins del ops t' of (rs, t'') \<Rightarrow> (Stored ok old # rs, t'')))"
| "table_run ins del (Remove m d # ops) t =
     (case del m t d of (old, t') \<Rightarrow>
        (case table_run ins del ops t' of (rs, t'') \<Rightarrow> (Removed old # rs, t'')))"

text \<open>
  The same requests on a map from keys to elements; elements are their own keys, up to \<open>eq\<close>.
  \<open>alloc m\<close> says that the allocation of a new entry succeeds: only a new key needs one, and only
  when it fails is a store refused.
\<close>

fun map_run ::
  "('m \<Rightarrow> bool) \<Rightarrow> ('a \<Rightarrow> 'a \<Rightarrow> bool) \<Rightarrow> ('m, 'a) table_op list \<Rightarrow> ('a \<Rightarrow> 'a option) \<Rightarrow>
    'a table_result list \<times> ('a \<Rightarrow> 'a option)" where
  "map_run alloc eq [] f = ([], f)"
| "map_run alloc eq (Put m d # ops) f =
     (if f d = None \<and> \<not> alloc m then
        (case map_run alloc eq ops f of (rs, g) \<Rightarrow> (Stored False None # rs, g))
      else
        (case map_run alloc eq ops (\<lambda>k. if eq d k then Some d else f k) of (rs, g) \<Rightarrow> (Stored True (f d) # rs, g)))"
| "map_run alloc eq (Remove m d # ops) f =
     (case map_run alloc eq ops (\<lambda>k. if eq d k then None else f k) of (rs, g) \<Rightarrow> (Removed (f d) # rs, g))"

locale assoc_table =
  fixes ins :: "'m \<Rightarrow> 't \<Rightarrow> 'a \<Rightarrow> bool \<times> 'a option \<times> 't"
    and del :: "'m \<Rightarrow> 't \<Rightarrow> 'a \<Rightarrow> 'a option \<times> 't"
    and lookup :: "'t \<Rightarrow> 'a \<Rightarrow> 'a option"
    and tab_ok :: "'t \<Rightarrow> bool"
    and alloc :: "'m \<Rightarrow> bool"
    and eq :: "'a \<Rightarrow> 'a \<Rightarrow> bool"
  assumes ins_ok: "tab_ok t \<Longrightarrow> ins m t d = (ok, old, t') \<Longrightarrow> tab_ok t'"
    and ins_stored: "tab_ok t \<Longrightarrow> ins m t d = (True, old, t') \<Longrightarrow>
      (lookup t d \<noteq> None \<or> alloc m) \<and> old = lookup t d \<and> lookup t' = (\<lambda>k. if eq d k then Some d else lookup t k)"
    and ins_refused: "tab_ok t \<Longrightarrow> ins m t d = (False, old, t') \<Longrightarrow>
      \<not> alloc m \<and> old = None \<and> lookup t d = None \<and> t' = t"
    and del_ok: "tab_ok t \<Longrightarrow> del m t d = (old, t') \<Longrightarrow> tab_ok t'"
    and del_removed: "tab_ok t \<Longrightarrow> del m t d = (old, t') \<Longrightarrow>
      old = lookup t d \<and> lookup t' = (\<lambda>k. if eq d k then None else lookup t k)"
begin

lemma run_refines:
  "tab_ok t \<Longrightarrow> table_run ins del ops t = (rs, t') \<Longrightarrow>
     tab_ok t' \<and> map_run alloc eq ops (lookup t) = (rs, lookup t')"
proof (induction ops arbitrary: t t' rs)
  case (Cons op ops)
  show ?case
  proof (cases op)
    case (Put m d)
    obtain ok old u where i: "ins m t d = (ok, old, u)" by (cases "ins m t d")
    obtain rs' v where r: "table_run ins del ops u = (rs', v)" by (cases "table_run ins del ops u")
    have e: "rs = Stored ok old # rs'" "t' = v" using Cons.prems(2) Put i r by auto
    have ih: "tab_ok v" "map_run alloc eq ops (lookup u) = (rs', lookup v)"
      using Cons.IH [OF ins_ok [OF Cons.prems(1) i] r] by auto
    show ?thesis
    proof (cases ok)
      case True
      then show ?thesis using ih e Put ins_stored [OF Cons.prems(1), of m d old u] i
        by auto
    next
      case False
      then show ?thesis using ih e Put ins_refused [OF Cons.prems(1), of m d old u] i
        by auto
    qed
  next
    case (Remove m d)
    obtain old u where i: "del m t d = (old, u)" by (cases "del m t d")
    obtain rs' v where r: "table_run ins del ops u = (rs', v)" by (cases "table_run ins del ops u")
    have e: "rs = Removed old # rs'" "t' = v" using Cons.prems(2) Remove i r by auto
    have ih: "tab_ok v" "map_run alloc eq ops (lookup u) = (rs', lookup v)"
      using Cons.IH [OF del_ok [OF Cons.prems(1) i] r] by auto
    then show ?thesis using e Remove del_removed [OF Cons.prems(1) i] by auto
  qed
qed simp

end

interpretation lhash: assoc_table lh_insert "\<lambda>ms. lh_delete (snd ms)" lh_retrieve "lh_inv eq" fst eq
proof unfold_locales
  fix t t' :: "'a lhash" and m d ok old assume t: "lh_inv eq t"
  show "lh_insert m t d = (ok, old, t') \<Longrightarrow> lh_inv eq t'"
    using lh_insert_ok [OF t] by blast
  show "lh_insert m t d = (True, old, t') \<Longrightarrow> (lh_retrieve t d \<noteq> None \<or> fst m) \<and> old = lh_retrieve t d \<and>
      lh_retrieve t' = (\<lambda>k. if eq d k then Some d else lh_retrieve t k)"
    using lh_insert_ok [OF t, of m d True old t'] by (auto simp: fun_eq_iff)
  show "lh_insert m t d = (False, old, t') \<Longrightarrow> \<not> fst m \<and> old = None \<and> lh_retrieve t d = None \<and> t' = t"
    using lh_insert_ok [OF t, of m d False] by auto
  show "lh_delete (snd m) t d = (old, t') \<Longrightarrow> lh_inv eq t'"
    using lh_delete_ok [OF t] by blast
  show "lh_delete (snd m) t d = (old, t') \<Longrightarrow> old = lh_retrieve t d \<and>
      lh_retrieve t' = (\<lambda>k. if eq d k then None else lh_retrieve t k)"
    using lh_delete_ok [OF t] by (simp add: fun_eq_iff)
qed

lemma lh_new_ok:
  assumes "functions_ok eq (lh_comp lh) (lh_hash lh)" "lh_new a b h c s = Some lh"
  shows "lh_inv eq lh \<and> lh_retrieve lh = (\<lambda>_. None)"
proof -
  have b: "lh_buckets lh = replicate kMinNumBuckets []" "lh_num_buckets lh = kMinNumBuckets" "lh_items lh = 0"
    using assms(2) by (auto simp: lh_new_def split: if_splits)
  then have i: "lh_inv eq lh" using assms(1) by (simp add: lh_inv_def buckets_ok_def)
  have "lh_contents lh = {#}" using b by (simp add: lh_contents_def)
  then have "lh_retrieve lh k = None" for k using lh_retrieve_eq_Some_iff [OF i, of k] by (cases "lh_retrieve lh k") auto
  then show ?thesis using i by (simp add: fun_eq_iff)
qed

lemma strcmp_eq_0: "strcmp xs ys = 0 \<longleftrightarrow> xs = ys"
  by (induction xs ys rule: strcmp.induct) auto

lemma default_functions_ok:
  "functions_ok (=) (\<lambda>a b. strcmp a b) (\<lambda>a. lh_strhash (Some a))"
  by (auto simp: functions_ok_def strcmp_eq_0 intro: identity_equivp)

text \<open>
  C6: A new hash table, run through any sequence of stores and removals whose allocations succeed
  or fail in any pattern, behaves like a finite map: lookups, replaced elements and removed
  elements are those of the map, a store is refused exactly when the key is new and the allocation of
  its entry fails, and changes nothing then, and through every resize of the
  bucket array the table stays well formed (each item in the bucket its cached hash selects, no two
  equal elements, an exact item count, never fewer than 16 buckets).
\<close>
theorem lhash_run_refines_map:
  assumes "functions_ok eq (lh_comp lh) (lh_hash lh)" "lh_new a b h c s = Some lh"
    and "table_run lh_insert (\<lambda>ms. lh_delete (snd ms)) ops lh = (rs, lh')"
  shows "lh_inv eq lh' \<and> map_run fst eq ops (\<lambda>_. None) = (rs, lh_retrieve lh')"
  using lhash.run_refines [of eq lh ops rs lh'] lh_new_ok [OF assms(1,2)] assms(3) by simp

text \<open>Two stores and a removal with the default functions on the strings "a" and "b".\<close>

lemma lhash_run_refines_map_witness:
  "\<exists>lh rs lh'. lh_new True True None None (\<lambda>x. x) = Some lh \<and>
     table_run lh_insert (\<lambda>ms. lh_delete (snd ms))
       [Put (True, True) [97], Put (True, False) [98], Remove (True, True) [97]] lh = (rs, lh') \<and>
     map_run fst (=) [Put (True, True) [97], Put (True, False) [98], Remove (True, True) [97]] (\<lambda>_. None)
       = (rs, lh_retrieve lh')"
proof -
  obtain lh where n: "lh_new True True None None (\<lambda>x. x) = Some lh" by (simp add: lh_new_def)
  obtain rs lh' where r: "table_run lh_insert (\<lambda>ms. lh_delete (snd ms))
       [Put (True, True) [97], Put (True, False) [98], Remove (True, True) [97]] lh = (rs, lh')"
    by (metis surj_pair)
  have "functions_ok (=) (lh_comp lh) (lh_hash lh)"
    using n default_functions_ok by (auto simp: lh_new_def)
  from lhash_run_refines_map [OF this n r] show ?thesis using n r by blast
qed

text \<open>
  lh_doall hands every element to the callback exactly once, the order apart, and leaves a
  table that holds the same elements; the count of lh_num_items is the number of calls.
\<close>
theorem lh_doall_visits_all:
  assumes "lh_inv eq lh" "lh_callback_depth lh < UINT_MAX"
  shows "\<exists>lh'. lh_doall m (Some lh) (\<lambda>d s. d # s) [] = (rev (map item_data (concat (lh_buckets lh))), Some lh') \<and>
    lh_inv eq lh' \<and> lh_retrieve lh' = lh_retrieve lh \<and>
    length (map item_data (concat (lh_buckets lh))) = lh_num_items lh \<and>
    sorted_wrt (\<lambda>x y. \<not> eq x y) (map item_data (concat (lh_buckets lh))) \<and>
    (Suc (lh_callback_depth lh) < UINT_MAX \<longrightarrow> lh_callback_depth lh' = lh_callback_depth lh)"
proof -
  have fo: "functions_ok eq (lh_comp lh) (lh_hash lh)" using assms(1) by (simp add: lh_inv_def)
  have s: "sorted_wrt (unlike eq) (concat (lh_buckets lh))"
    using assms(1) functions_okD(5) [OF fo] by (auto simp: lh_inv_def intro: buckets_ok_unlike)
  have f: "fold (\<lambda>cur. (#) (item_data cur)) xs ys = rev (map item_data xs) @ ys" for xs :: "'a lhash_item list" and ys
    by (induction xs arbitrary: ys) auto
  let ?t = "if Suc (lh_callback_depth lh) < UINT_MAX then lh
    else lh\<lparr>lh_callback_depth := Suc (lh_callback_depth lh)\<rparr>"
  have t: "lh_inv eq ?t" using assms(1) by (simp add: lh_inv_def)
  note z = lh_maybe_resize_ok [OF t, of m]
  have e: "lh_doall m (Some lh) (\<lambda>d s. d # s) [] = (rev (map item_data (concat (lh_buckets lh))), Some (lh_maybe_resize m ?t))"
    using assms(2) by (simp add: lh_doall_def lh_doall_internal_def Let_def fold_fold_concat f)
  have "lh_contents (lh_maybe_resize m ?t) = lh_contents lh" using z by (simp add: lh_contents_def)
  then have "lh_retrieve (lh_maybe_resize m ?t) k = Some d \<longleftrightarrow> lh_retrieve lh k = Some d" for k d
    using z by (simp add: lh_retrieve_eq_Some_iff [OF assms(1)] lh_retrieve_eq_Some_iff [of eq "lh_maybe_resize m ?t"])
  then have "lh_retrieve (lh_maybe_resize m ?t) k = lh_retrieve lh k" for k
    by (rule option_eqI)
  then have "lh_retrieve (lh_maybe_resize m ?t) = lh_retrieve lh" by (rule ext)
  then show ?thesis using e z s assms(1)
    by (auto simp: sorted_wrt_map lh_num_items_def lh_inv_def)
qed

lemma lh_doall_visits_all_witness:
  "\<exists>lh lh'. lh_new True True None None (\<lambda>x :: bytes. x) = Some lh \<and>
     lh_doall True (Some lh) (\<lambda>d s. d # s) [] = ([], Some lh') \<and> lh_inv (=) lh'"
proof -
  obtain lh where n: "lh_new True True None None (\<lambda>x :: bytes. x) = Some lh" by (simp add: lh_new_def)
  have f: "functions_ok (=) (lh_comp lh) (lh_hash lh)" "lh_callback_depth lh = 0"
      "concat (lh_buckets lh) = []"
    using n default_functions_ok by (auto simp: lh_new_def)
  have i: "lh_inv (=) lh" using lh_new_ok [OF f(1) n] by simp
  from lh_doall_visits_all [OF i, of True] show ?thesis using n f by (auto simp: UINT_MAX_def)
qed

end
