(* ===== verification/Bio.thy ===== *)
theory Bio
  imports Prelude
begin

text \<open>
  What all BIOs share (crypto/bio/bio.c): the flags word with the retry bits, the byte counters,
  and the guards of BIO_read and BIO_write.  A BIO without a callback is modelled.  The contract of
  a BIO that queues bytes, the locale \<open>byte_fifo\<close>, ends the theory: what is read is, in order,
  what was written.
\<close>

section \<open>The BIO structure\<close>

text \<open>\<open>'p\<close> is the method's own state, which \<^verbatim>\<open>ptr\<close> points to.\<close>

(* src: include/openssl/bio.h@694-723 bio_st *)
record 'p bio =
  bio_init :: bool
  bio_shutdown :: int
  bio_flags :: u32
  bio_retry_reason :: int
  bio_num :: int
  num_read :: nat
  num_write :: nat
  bio_ptr :: 'p

(* src: include/openssl/bio.h@641-641 BIO_FLAGS_READ *)
definition BIO_FLAGS_READ :: u32 where
  "BIO_FLAGS_READ = 0x01"

(* src: include/openssl/bio.h@642-642 BIO_FLAGS_WRITE *)
definition BIO_FLAGS_WRITE :: u32 where
  "BIO_FLAGS_WRITE = 0x02"

(* src: include/openssl/bio.h@643-643 BIO_FLAGS_IO_SPECIAL *)
definition BIO_FLAGS_IO_SPECIAL :: u32 where
  "BIO_FLAGS_IO_SPECIAL = 0x04"

(* src: include/openssl/bio.h@644-644 BIO_FLAGS_RWS *)
definition BIO_FLAGS_RWS :: u32 where
  "BIO_FLAGS_RWS = BIO_FLAGS_READ OR BIO_FLAGS_WRITE OR BIO_FLAGS_IO_SPECIAL"

(* src: include/openssl/bio.h@645-645 BIO_FLAGS_SHOULD_RETRY *)
definition BIO_FLAGS_SHOULD_RETRY :: u32 where
  "BIO_FLAGS_SHOULD_RETRY = 0x08"

(* src: include/openssl/bio.h@649-649 BIO_FLAGS_MEM_RDONLY *)
definition BIO_FLAGS_MEM_RDONLY :: u32 where
  "BIO_FLAGS_MEM_RDONLY = 0x200"

(* src: crypto/bio/bio.c@300-300 kRetryFlags *)
definition kRetryFlags :: u32 where
  "kRetryFlags = BIO_FLAGS_RWS OR BIO_FLAGS_SHOULD_RETRY"

lemmas bio_flag_defs = BIO_FLAGS_READ_def BIO_FLAGS_WRITE_def BIO_FLAGS_IO_SPECIAL_def
  BIO_FLAGS_RWS_def BIO_FLAGS_SHOULD_RETRY_def BIO_FLAGS_MEM_RDONLY_def kRetryFlags_def

(* src: crypto/bio/bio.c BIO_set_flags *)
definition BIO_set_flags :: "'p bio \<Rightarrow> u32 \<Rightarrow> 'p bio" where
  "BIO_set_flags b f = b\<lparr>bio_flags := bio_flags b OR f\<rparr>"

(* src: crypto/bio/bio.c BIO_test_flags *)
definition BIO_test_flags :: "'p bio \<Rightarrow> u32 \<Rightarrow> u32" where
  "BIO_test_flags b f = bio_flags b AND f"

(* src: crypto/bio/bio.c BIO_clear_flags *)
definition BIO_clear_flags :: "'p bio \<Rightarrow> u32 \<Rightarrow> 'p bio" where
  "BIO_clear_flags b f = b\<lparr>bio_flags := bio_flags b AND NOT f\<rparr>"

(* src: crypto/bio/bio.c BIO_set_retry_read *)
definition BIO_set_retry_read :: "'p bio \<Rightarrow> 'p bio" where
  "BIO_set_retry_read b = b\<lparr>bio_flags := bio_flags b OR (BIO_FLAGS_READ OR BIO_FLAGS_SHOULD_RETRY)\<rparr>"

(* src: crypto/bio/bio.c BIO_set_retry_write *)
definition BIO_set_retry_write :: "'p bio \<Rightarrow> 'p bio" where
  "BIO_set_retry_write b = b\<lparr>bio_flags := bio_flags b OR (BIO_FLAGS_WRITE OR BIO_FLAGS_SHOULD_RETRY)\<rparr>"

(* src: crypto/bio/bio.c BIO_get_retry_flags *)
definition BIO_get_retry_flags :: "'p bio \<Rightarrow> u32" where
  "BIO_get_retry_flags b = bio_flags b AND kRetryFlags"

(* src: crypto/bio/bio.c BIO_clear_retry_flags *)
definition BIO_clear_retry_flags :: "'p bio \<Rightarrow> 'p bio" where
  "BIO_clear_retry_flags b = b\<lparr>bio_flags := bio_flags b AND NOT kRetryFlags, bio_retry_reason := 0\<rparr>"

(* src: crypto/bio/bio.c BIO_copy_next_retry *)
definition BIO_copy_next_retry :: "'p bio \<Rightarrow> 'q bio \<Rightarrow> 'p bio" where
  "BIO_copy_next_retry b next_bio =
     (BIO_set_flags (BIO_clear_retry_flags b) (BIO_get_retry_flags next_bio))
       \<lparr>bio_retry_reason := bio_retry_reason next_bio\<rparr>"

text \<open>A fresh BIO before its method's create function runs; \<open>p\<close> is what ptr then gets.\<close>

(* src: crypto/bio/bio.c bio_set *)
definition bio_set_initial :: "'p \<Rightarrow> 'p bio" where
  "bio_set_initial p =
     \<lparr>bio_init = False, bio_shutdown = 1, bio_flags = 0, bio_retry_reason = 0, bio_num = 0,
      num_read = 0, num_write = 0, bio_ptr = p\<rparr>"

text \<open>
  The checks common to reads and writes.  \<open>get_init\<close> and \<open>add_num\<close> reach the init flag and the
  counter of the BIO in the caller's state; \<open>none\<close> is the output when the method is not called,
  and an outer \<open>None\<close> is a failed assertion of the method.
\<close>

(* src: crypto/bio/bio.c bio_io *)
definition bio_io ::
  "('s \<Rightarrow> bool) \<Rightarrow> (nat \<Rightarrow> 's \<Rightarrow> 's) \<Rightarrow> 'o \<Rightarrow> ('s \<Rightarrow> (int \<times> 'o \<times> 's) option) option \<Rightarrow> bool \<Rightarrow> int \<Rightarrow> 's \<Rightarrow>
    (int \<times> 'o \<times> 's) option" where
  "bio_io get_init add_num none io_func buf_null len s =
     (case io_func of
        None \<Rightarrow> Some (-2, none, s)
      | Some f \<Rightarrow>
          (if \<not> get_init s then Some (-2, none, s)
           else if \<not> buf_null \<and> len > 0 then
             (case f s of
                None \<Rightarrow> None
              | Some (i, out, s') \<Rightarrow> Some (i, out, if i > 0 then add_num (nat i) s' else s'))
           else Some (0, none, s)))"

lemma retry_read_should_retry [simp]:
  "BIO_test_flags (BIO_set_retry_read b) BIO_FLAGS_SHOULD_RETRY \<noteq> 0"
proof -
  have "bit (BIO_test_flags (BIO_set_retry_read b) BIO_FLAGS_SHOULD_RETRY) 3"
    by (simp add: BIO_test_flags_def BIO_set_retry_read_def bio_flag_defs bit_simps)
  then show ?thesis by (auto simp: bit_0_eq)
qed

section \<open>The contract of a byte queue\<close>

text \<open>
  \<open>send_op s d\<close> offers the bytes \<open>d\<close> and gives the code's return value; \<open>rcv_op s n\<close> asks for at most
  \<open>n\<close> bytes and gives the return value and the bytes.  Either is \<open>None\<close> where the code would fail an
  assertion or not return.  \<open>other\<close> stands for everything else done to the state meanwhile.  A run
  gives what every call returned.
\<close>

datatype 'o fifo_op = Send bytes | Recv nat | Other 'o

datatype fifo_result = Sent int | Received int bytes | Done

fun fifo_run ::
  "('s \<Rightarrow> bytes \<Rightarrow> (int \<times> 's) option) \<Rightarrow> ('s \<Rightarrow> nat \<Rightarrow> (int \<times> bytes \<times> 's) option) \<Rightarrow>
    ('s \<Rightarrow> 'o \<Rightarrow> 's option) \<Rightarrow> 'o fifo_op list \<Rightarrow> 's \<Rightarrow> (fifo_result list \<times> 's) option" where
  "fifo_run send_op rcv_op other [] s = Some ([], s)"
| "fifo_run send_op rcv_op other (Send d # ops) s =
     (case send_op s d of
        None \<Rightarrow> None
      | Some (r, s') \<Rightarrow> map_option (\<lambda>(rs, t). (Sent r # rs, t)) (fifo_run send_op rcv_op other ops s'))"
| "fifo_run send_op rcv_op other (Recv n # ops) s =
     (case rcv_op s n of
        None \<Rightarrow> None
      | Some (r, d, s') \<Rightarrow> map_option (\<lambda>(rs, t). (Received r d # rs, t)) (fifo_run send_op rcv_op other ops s'))"
| "fifo_run send_op rcv_op other (Other x # ops) s =
     (case other s x of
        None \<Rightarrow> None
      | Some s' \<Rightarrow> map_option (\<lambda>(rs, t). (Done # rs, t)) (fifo_run send_op rcv_op other ops s'))"

text \<open>
  The abstract queue: its bytes and a mode.  \<open>accept c q d\<close> is the return value, the number of bytes
  taken and the new mode; what a read of at least a byte returns when there is none is \<open>idle c\<close>;
  and \<open>chg\<close> is what everything else does.
\<close>

fun queue_run ::
  "('c \<Rightarrow> bytes \<Rightarrow> bytes \<Rightarrow> int \<times> nat \<times> 'c) \<Rightarrow> ('c \<Rightarrow> int) \<Rightarrow> ('o \<Rightarrow> bytes \<times> 'c \<Rightarrow> bytes \<times> 'c) \<Rightarrow>
    'o fifo_op list \<Rightarrow> bytes \<times> 'c \<Rightarrow> fifo_result list \<times> bytes \<times> 'c" where
  "queue_run accept idle chg [] st = ([], st)"
| "queue_run accept idle chg (Send d # ops) (q, c) =
     (let (r, n, c) = accept c q d; (rs, st) = queue_run accept idle chg ops (q @ take n d, c)
      in (Sent r # rs, st))"
| "queue_run accept idle chg (Recv n # ops) (q, c) =
     (let r = (if 0 < n \<and> q = [] then idle c else int (min n (length q)));
          (rs, st) = queue_run accept idle chg ops (drop n q, c)
      in (Received r (take n q) # rs, st))"
| "queue_run accept idle chg (Other x # ops) st =
     (let (rs, st) = queue_run accept idle chg ops (chg x st) in (Done # rs, st))"

fun fifo_op_ok :: "(bytes \<Rightarrow> bool) \<Rightarrow> (nat \<Rightarrow> bool) \<Rightarrow> ('o \<Rightarrow> bool) \<Rightarrow> 'o fifo_op \<Rightarrow> bool" where
  "fifo_op_ok okd okn oko (Send d) = okd d"
| "fifo_op_ok okd okn oko (Recv n) = okn n"
| "fifo_op_ok okd okn oko (Other x) = oko x"

text \<open>
  On such a queue no byte is lost, invented or reordered as long as nothing but the calls changes it:
  what was received followed by what is left is what was there followed by what was taken.
\<close>

fun received :: "fifo_result list \<Rightarrow> bytes" where
  "received [] = []"
| "received (Received r d # rs) = d @ received rs"
| "received (x # rs) = received rs"

fun taken :: "('c \<Rightarrow> bytes \<Rightarrow> bytes \<Rightarrow> int \<times> nat \<times> 'c) \<Rightarrow> ('o \<Rightarrow> bytes \<times> 'c \<Rightarrow> bytes \<times> 'c) \<Rightarrow>
    'o fifo_op list \<Rightarrow> bytes \<times> 'c \<Rightarrow> bytes" where
  "taken accept chg [] st = []"
| "taken accept chg (Send d # ops) (q, c) =
     (let (r, n, c) = accept c q d in take n d @ taken accept chg ops (q @ take n d, c))"
| "taken accept chg (Recv n # ops) (q, c) = taken accept chg ops (drop n q, c)"
| "taken accept chg (Other x # ops) st = taken accept chg ops (chg x st)"

lemma queue_run_conserves:
  assumes "\<And>x q c. Other x \<in> set ops \<Longrightarrow> fst (chg x (q, c)) = q"
    and "queue_run accept idle chg ops (q, c) = (rs, q', c')"
  shows "received rs @ q' = q @ taken accept chg ops (q, c)"
  using assms
proof (induction ops arbitrary: q c rs)
  case (Cons op ops)
  note IH = Cons.IH [OF Cons.prems(1)]
  show ?case
  proof (cases op)
    case (Send d)
    obtain r n c1 where a: "accept c q d = (r, n, c1)" by (cases "accept c q d") auto
    obtain rs1 where r: "queue_run accept idle chg ops (q @ take n d, c1) = (rs1, q', c')" "rs = Sent r # rs1"
      using Cons.prems(2) Send a by (auto split: prod.splits)
    show ?thesis using IH [OF _ r(1)] r(2) Send a by simp
  next
    case (Recv n)
    obtain r rs1 where r: "queue_run accept idle chg ops (drop n q, c) = (rs1, q', c')" "rs = Received r (take n q) # rs1"
      using Cons.prems(2) Recv by (auto simp: Let_def split: prod.splits)
    have "received rs1 @ q' = drop n q @ taken accept chg ops (drop n q, c)" by (rule IH [OF _ r(1)]) simp
    moreover have "q @ xs = take n q @ drop n q @ xs" for xs by (metis append_assoc append_take_drop_id)
    ultimately show ?thesis using r(2) Recv by simp
  next
    case (Other x)
    obtain q1 c1 where o: "chg x (q, c) = (q1, c1)" by (cases "chg x (q, c)")
    then have "q1 = q" using Cons.prems(1) [of x q c] Other by simp
    then show ?thesis using Cons.prems(2) Other o IH [of "q" c1] by (auto split: prod.splits)
  qed
qed simp

locale byte_fifo =
  fixes send_op :: "'s \<Rightarrow> bytes \<Rightarrow> (int \<times> 's) option"
    and rcv_op :: "'s \<Rightarrow> nat \<Rightarrow> (int \<times> bytes \<times> 's) option"
    and other :: "'s \<Rightarrow> 'o \<Rightarrow> 's option"
    and inv :: "'s \<Rightarrow> bool"
    and view :: "'s \<Rightarrow> bytes \<times> 'c"
    and accept :: "'c \<Rightarrow> bytes \<Rightarrow> bytes \<Rightarrow> int \<times> nat \<times> 'c"
    and idle :: "'c \<Rightarrow> int"
    and chg :: "'o \<Rightarrow> bytes \<times> 'c \<Rightarrow> bytes \<times> 'c"
    and okd :: "bytes \<Rightarrow> bool" and okn :: "nat \<Rightarrow> bool" and oko :: "'o \<Rightarrow> bool"
  assumes send_ok: "inv s \<Longrightarrow> okd d \<Longrightarrow> view s = (q, c) \<Longrightarrow> accept c q d = (r, n, c') \<Longrightarrow>
      \<exists>s'. send_op s d = Some (r, s') \<and> inv s' \<and> view s' = (q @ take n d, c')"
    and rcv_ok: "inv s \<Longrightarrow> okn n \<Longrightarrow> view s = (q, c) \<Longrightarrow>
      \<exists>s'. rcv_op s n = Some (if 0 < n \<and> q = [] then idle c else int (min n (length q)), take n q, s') \<and>
        inv s' \<and> view s' = (drop n q, c)"
    and other_ok: "inv s \<Longrightarrow> oko x \<Longrightarrow> \<exists>s'. other s x = Some s' \<and> inv s' \<and> view s' = chg x (view s)"
begin

lemma refines:
  "inv s \<Longrightarrow> list_all (fifo_op_ok okd okn oko) ops \<Longrightarrow>
     \<exists>rs s'. fifo_run send_op rcv_op other ops s = Some (rs, s') \<and> inv s' \<and>
       queue_run accept idle chg ops (view s) = (rs, view s')"
proof (induction ops arbitrary: s)
  case (Cons op ops)
  obtain q c where v: "view s = (q, c)" by (cases "view s")
  show ?case
  proof (cases op)
    case (Send d)
    obtain r n c' where a: "accept c q d = (r, n, c')" by (cases "accept c q d") auto
    obtain s1 where s1: "send_op s d = Some (r, s1)" "inv s1" "view s1 = (q @ take n d, c')"
      using send_ok [OF Cons.prems(1) _ v a] Cons.prems(2) Send by auto
    then show ?thesis using Cons.IH [OF s1(2)] Cons.prems(2) Send v a by auto
  next
    case (Recv n)
    obtain s1 where s1: "rcv_op s n = Some (if 0 < n \<and> q = [] then idle c else int (min n (length q)), take n q, s1)"
        "inv s1" "view s1 = (drop n q, c)"
      using rcv_ok [OF Cons.prems(1) _ v, of n] Cons.prems(2) Recv by auto
    then show ?thesis using Cons.IH [OF s1(2)] Cons.prems(2) Recv v by auto
  next
    case (Other x)
    obtain s1 where "other s x = Some s1" "inv s1" "view s1 = chg x (view s)"
      using other_ok [OF Cons.prems(1), of x] Cons.prems(2) Other by auto
    then show ?thesis using Cons.IH [of s1] Cons.prems(2) Other by auto
  qed
qed auto

end

end
