(* ===== verification/BioPair.thy ===== *)
theory BioPair
  imports Bio
begin

text \<open>
  BIO pairs (crypto/bio/pair.c): two connected BIOs, each with a ring buffer that holds what was
  written to it until its peer reads it.  BIOs live in a store from addresses, so that the peer
  pointers, and an operation on one BIO that changes its peer, are those of the code.  Each
  \<^verbatim>\<open>assert\<close> of the code is a branch to \<open>None\<close>, and so is a copy loop that would not end; the
  theorems show that neither happens on connected BIOs.
\<close>

section \<open>State\<close>

(* src: crypto/bio/pair.c@62-82 bio_bio_st *)
record bio_bio =
  peer :: "nat option"
  closed :: bool
  len :: nat
  offset :: nat
  bsize :: nat
  buf :: "bytes option"
  request :: nat

type_synonym bio_store = "nat \<Rightarrow> bio_bio bio"

definition the_bio :: "bio_store \<Rightarrow> nat \<Rightarrow> bio_bio" where
  "the_bio h a = bio_ptr (h a)"

definition set_bio :: "bio_store \<Rightarrow> nat \<Rightarrow> bio_bio \<Rightarrow> bio_store" where
  "set_bio h a b = h(a := (h a)\<lparr>bio_ptr := b\<rparr>)"

section \<open>Operations\<close>

text \<open>The structure's other fields keep what malloc left there, \<open>junk\<close>.\<close>

(* src: crypto/bio/pair.c bio_new *)
definition bio_new :: "bool \<Rightarrow> bio_bio \<Rightarrow> bio_bio option" where
  "bio_new malloc_ok junk =
     (if \<not> malloc_ok then None else Some (junk\<lparr>peer := None, bsize := 17 * 1024, buf := None\<rparr>))"

(* src: crypto/bio/pair.c bio_destroy_pair *)
definition bio_destroy_pair :: "bio_store \<Rightarrow> nat \<Rightarrow> bio_store option" where
  "bio_destroy_pair h bio =
     (case peer (the_bio h bio) of
        None \<Rightarrow> Some h
      | Some peer_bio \<Rightarrow>
          (if peer (the_bio h peer_bio) \<noteq> Some bio then None
           else if buf (the_bio h peer_bio) = None then None
           else
             let h = set_bio h peer_bio ((the_bio h peer_bio)\<lparr>peer := None, len := 0, offset := 0\<rparr>);
                 h = h(peer_bio := (h peer_bio)\<lparr>bio_init := False\<rparr>)
             in if buf (the_bio h bio) = None then None
                else
                  let h = set_bio h bio ((the_bio h bio)\<lparr>peer := None, len := 0, offset := 0\<rparr>)
                  in Some (h(bio := (h bio)\<lparr>bio_init := False\<rparr>))))"

text \<open>What is freed after the pair is taken apart is not touched again.\<close>

(* src: crypto/bio/pair.c bio_free *)
definition bio_free :: "bio_store \<Rightarrow> nat option \<Rightarrow> (int \<times> bio_store) option" where
  "bio_free h bio =
     (case bio of
        None \<Rightarrow> Some (0, h)
      | Some a \<Rightarrow>
          (if peer (the_bio h a) \<noteq> None then map_option (Pair 1) (bio_destroy_pair h a) else Some (1, h)))"

text \<open>One round of the copy: the chunk's length, its bytes, and the peer's structure after it.\<close>

(* src: crypto/bio/pair.c@202-229 bio_read *)
definition bio_read_round :: "nat \<Rightarrow> bio_bio \<Rightarrow> (nat \<times> bytes \<times> bio_bio) option" where
  "bio_read_round rest peer_b =
     (if \<not> rest \<le> len peer_b then None
      else
        let chunk = (if offset peer_b + rest \<le> bsize peer_b then rest else bsize peer_b - offset peer_b) in
        if \<not> offset peer_b + chunk \<le> bsize peer_b then None
        else
          let out = mem_read (the (buf peer_b)) (offset peer_b) chunk;
              len' = len peer_b - chunk in
          if len' \<noteq> 0 then
            if \<not> offset peer_b + chunk \<le> bsize peer_b then None
            else Some (chunk, out, peer_b\<lparr>len := len',
                         offset := (if offset peer_b + chunk = bsize peer_b then 0 else offset peer_b + chunk)\<rparr>)
          else if chunk \<noteq> rest then None
          else Some (chunk, out, peer_b\<lparr>len := len', offset := 0\<rparr>))"

(* src: crypto/bio/pair.c@202-230 bio_read *)
fun bio_read_loop :: "nat \<Rightarrow> nat \<Rightarrow> bio_bio \<Rightarrow> (bytes \<times> bio_bio) option" where
  "bio_read_loop 0 rest peer_b = None"
| "bio_read_loop (Suc fuel) rest peer_b =
     (case bio_read_round rest peer_b of
        None \<Rightarrow> None
      | Some (chunk, out, peer_b) \<Rightarrow>
          (if rest - chunk = 0 then Some (out, peer_b)
           else case bio_read_loop fuel (rest - chunk) peer_b of
               None \<Rightarrow> None
             | Some (out', peer_b) \<Rightarrow> Some (out @ out', peer_b)))"

text \<open>
  The result, the bytes stored at the caller's buffer, and the store.  Each round of the loop
  copies at least a byte or never ends, so \<open>rest\<close> rounds are all that can be needed.
\<close>

(* src: crypto/bio/pair.c bio_read *)
definition bio_read :: "bio_store \<Rightarrow> nat \<Rightarrow> bool \<Rightarrow> int \<Rightarrow> (int \<times> bytes \<times> bio_store) option" where
  "bio_read h bio buf_null n =
     (let size = size_of_int n;
          h = h(bio := BIO_clear_retry_flags (h bio))
      in if \<not> bio_init (h bio) then Some (0, [], h)
         else case peer (the_bio h bio) of
             None \<Rightarrow> None
           | Some p \<Rightarrow>
               (if buf (the_bio h p) = None then None
                else
                  let h = set_bio h p ((the_bio h p)\<lparr>request := 0\<rparr>) in
                  if buf_null \<or> size = 0 then Some (0, [], h)
                  else if len (the_bio h p) = 0 then
                    if closed (the_bio h p) then Some (0, [], h)
                    else
                      let h = h(bio := BIO_set_retry_read (h bio));
                          peer_b = the_bio h p
                      in Some (-1, [], set_bio h p (peer_b\<lparr>request :=
                                 (if size \<le> bsize peer_b then size else bsize peer_b)\<rparr>))
                  else
                    let size = (if len (the_bio h p) < size then len (the_bio h p) else size) in
                    case bio_read_loop size size (the_bio h p) of
                      None \<Rightarrow> None
                    | Some (out, peer_b) \<Rightarrow> Some (int_of_size size, out, set_bio h p peer_b)))"

(* src: crypto/bio/pair.c@275-301 bio_write *)
definition bio_write_round :: "bytes \<Rightarrow> bio_bio \<Rightarrow> (nat \<times> bio_bio) option" where
  "bio_write_round data b =
     (let rest = length data in
      if \<not> len b + rest \<le> bsize b then None
      else
        let write_offset = offset b + len b;
            write_offset = (if write_offset \<ge> bsize b then write_offset - bsize b else write_offset);
            chunk = (if write_offset + rest \<le> bsize b then rest else bsize b - write_offset);
            b = b\<lparr>buf := Some (mem_write (the (buf b)) write_offset (take chunk data)),
                  len := len b + chunk\<rparr>
        in if \<not> len b \<le> bsize b then None else Some (chunk, b))"

(* src: crypto/bio/pair.c@275-302 bio_write *)
fun bio_write_loop :: "nat \<Rightarrow> bytes \<Rightarrow> bio_bio \<Rightarrow> bio_bio option" where
  "bio_write_loop 0 data b = None"
| "bio_write_loop (Suc fuel) data b =
     (case bio_write_round data b of
        None \<Rightarrow> None
      | Some (chunk, b) \<Rightarrow>
          (if length data - chunk = 0 then Some b else bio_write_loop fuel (drop chunk data) b))"

text \<open>\<open>data\<close> is the caller's \<^verbatim>\<open>num_\<close> bytes, or NULL.\<close>

(* src: crypto/bio/pair.c bio_write *)
definition bio_write :: "bio_store \<Rightarrow> nat \<Rightarrow> bytes option \<Rightarrow> (int \<times> unit \<times> bio_store) option" where
  "bio_write h bio data =
     (let h = h(bio := BIO_clear_retry_flags (h bio)) in
      case data of
        None \<Rightarrow> Some (0, (), h)
      | Some d \<Rightarrow>
          (if \<not> bio_init (h bio) \<or> d = [] then Some (0, (), h)
           else if peer (the_bio h bio) = None then None
           else if buf (the_bio h bio) = None then None
           else
             let h = set_bio h bio ((the_bio h bio)\<lparr>request := 0\<rparr>);
                 b = the_bio h bio
             in if closed b then Some (-1, (), h)
                else if \<not> len b \<le> bsize b then None
                else if len b = bsize b then Some (-1, (), h(bio := BIO_set_retry_write (h bio)))
                else
                  let num = (if length d > bsize b - len b then bsize b - len b else length d) in
                  case bio_write_loop num (take num d) b of
                    None \<Rightarrow> None
                  | Some b \<Rightarrow> Some (int_of_size num, (), set_bio h bio b)))"

text \<open>The buffer of one end, allocated if there is none; \<open>alloc\<close> gives a block of so many bytes.\<close>

(* src: crypto/bio/pair.c@321-329 bio_make_pair *)
definition bio_ensure_buf :: "(nat \<Rightarrow> bytes option) \<Rightarrow> bio_bio \<Rightarrow> bio_bio option" where
  "bio_ensure_buf alloc b =
     (case buf b of
        Some _ \<Rightarrow> Some b
      | None \<Rightarrow>
          (case alloc (bsize b) of
             None \<Rightarrow> None
           | Some block \<Rightarrow> Some (b\<lparr>buf := Some block, len := 0, offset := 0\<rparr>)))"

(* src: crypto/bio/pair.c bio_make_pair *)
definition bio_make_pair ::
  "(nat \<Rightarrow> bytes option) \<Rightarrow> (nat \<Rightarrow> bytes option) \<Rightarrow> bio_store \<Rightarrow> nat \<Rightarrow> nat \<Rightarrow> int \<times> bio_store" where
  "bio_make_pair alloc1 alloc2 h bio1 bio2 =
     (if peer (the_bio h bio1) \<noteq> None \<or> peer (the_bio h bio2) \<noteq> None then (0, h)
      else
        case bio_ensure_buf alloc1 (the_bio h bio1) of
          None \<Rightarrow> (0, h)
        | Some b1 \<Rightarrow>
            let h = set_bio h bio1 b1 in
            case bio_ensure_buf alloc2 (the_bio h bio2) of
              None \<Rightarrow> (0, h)
            | Some b2 \<Rightarrow>
                let h = set_bio h bio2 b2;
                    h = set_bio h bio1 ((the_bio h bio1)\<lparr>peer := Some bio2, closed := False, request := 0\<rparr>);
                    h = set_bio h bio2 ((the_bio h bio2)\<lparr>peer := Some bio1, closed := False, request := 0\<rparr>);
                    h = h(bio1 := (h bio1)\<lparr>bio_init := True\<rparr>)
                in (1, h(bio2 := (h bio2)\<lparr>bio_init := True\<rparr>)))"

datatype bio_cmd =
    SetBuffSize int | GetWriteBufSize | GetWriteGuarantee | GetReadRequest | ResetReadRequest
  | ShutdownWr | CtrlReset | CtrlGetClose | CtrlSetClose int | CtrlPending | CtrlWPending
  | CtrlFlush | CtrlEof "nat option" | CtrlUnknown

(* src: crypto/bio/pair.c bio_ctrl *)
definition bio_ctrl :: "bio_store \<Rightarrow> nat \<Rightarrow> bio_cmd \<Rightarrow> int \<times> bio_store" where
  "bio_ctrl h bio cmd =
     (let b = the_bio h bio in
      case cmd of
        SetBuffSize num \<Rightarrow>
          (if peer b \<noteq> None then (0, h)
           else if num = 0 then (0, h)
           else (1, set_bio h bio
                      (if bsize b \<noteq> size_of_int num then b\<lparr>buf := None, bsize := size_of_int num\<rparr> else b)))
      | GetWriteBufSize \<Rightarrow> (int (bsize b), h)
      | GetWriteGuarantee \<Rightarrow> ((if peer b = None \<or> closed b then 0 else int (bsize b) - int (len b)), h)
      | GetReadRequest \<Rightarrow> (int (request b), h)
      | ResetReadRequest \<Rightarrow> (1, set_bio h bio (b\<lparr>request := 0\<rparr>))
      | ShutdownWr \<Rightarrow> (1, set_bio h bio (b\<lparr>closed := True\<rparr>))
      | CtrlReset \<Rightarrow> (0, if buf b \<noteq> None then set_bio h bio (b\<lparr>len := 0, offset := 0\<rparr>) else h)
      | CtrlGetClose \<Rightarrow> (bio_shutdown (h bio), h)
      | CtrlSetClose num \<Rightarrow> (1, h(bio := (h bio)\<lparr>bio_shutdown := int_of_long num\<rparr>))
      | CtrlPending \<Rightarrow> ((case peer b of None \<Rightarrow> 0 | Some p \<Rightarrow> int (len (the_bio h p))), h)
      | CtrlWPending \<Rightarrow> ((if buf b \<noteq> None then int (len b) else 0), h)
      | CtrlFlush \<Rightarrow> (1, h)
      | CtrlEof other_bio \<Rightarrow>
          ((case other_bio of None \<Rightarrow> 1
            | Some o_bio \<Rightarrow> if len (the_bio h o_bio) = 0 \<and> closed (the_bio h o_bio) then 1 else 0), h)
      | CtrlUnknown \<Rightarrow> (0, h))"

(* src: crypto/bio/pair.c bio_puts *)
definition bio_puts :: "bio_store \<Rightarrow> nat \<Rightarrow> bytes \<Rightarrow> (int \<times> unit \<times> bio_store) option" where
  "bio_puts h bio str = bio_write h bio (Some str)"

(* src: crypto/bio/pair.c@496-501 BIO_new_bio_pair *)
definition bio_pair_set_size :: "bio_store \<Rightarrow> nat \<Rightarrow> nat \<Rightarrow> int \<times> bio_store" where
  "bio_pair_set_size h bio writebuf =
     (if writebuf \<noteq> 0 then bio_ctrl h bio (SetBuffSize (int_of_size writebuf)) else (1, h))"

text \<open>
  BIO_set_write_buffer_size takes an \<^verbatim>\<open>int\<close>, to which the size_t is narrowed.
  The addresses the two structures get, or NULL, come from malloc; \<open>junk1\<close> and \<open>junk2\<close> are what the
  new bio_bio_st blocks hold.  Both BIOs are freed on failure.
\<close>

(* src: crypto/bio/pair.c BIO_new_bio_pair *)
definition BIO_new_bio_pair ::
  "nat option \<Rightarrow> nat option \<Rightarrow> bio_bio \<Rightarrow> bio_bio \<Rightarrow> (nat \<Rightarrow> bytes option) \<Rightarrow> (nat \<Rightarrow> bytes option) \<Rightarrow>
    bio_store \<Rightarrow> nat \<Rightarrow> nat \<Rightarrow> int \<times> nat option \<times> nat option \<times> bio_store" where
  "BIO_new_bio_pair a1 a2 junk1 junk2 alloc1 alloc2 h writebuf1 writebuf2 =
     (case (a1, a2) of
        (Some bio1, Some bio2) \<Rightarrow>
          (case (bio_new True junk1, bio_new True junk2) of
             (Some b1, Some b2) \<Rightarrow>
               let h = (h(bio1 := bio_set_initial b1))(bio2 := bio_set_initial b2);
                   (r, h) = bio_pair_set_size h bio1 writebuf1
               in if r = 0 then (0, None, None, h)
                  else
                    let (r, h) = bio_pair_set_size h bio2 writebuf2
                    in if r = 0 then (0, None, None, h)
                       else
                         let (r, h) = bio_make_pair alloc1 alloc2 h bio1 bio2
                         in if r = 0 then (0, None, None, h) else (1, Some bio1, Some bio2, h)
           | _ \<Rightarrow> (0, None, None, h))
      | _ \<Rightarrow> (0, None, None, h))"

(* src: crypto/bio/pair.c BIO_shutdown_wr *)
definition BIO_shutdown_wr :: "bio_store \<Rightarrow> nat \<Rightarrow> int \<times> bio_store" where
  "BIO_shutdown_wr h bio = bio_ctrl h bio ShutdownWr"

(* src: crypto/bio/bio.c@191-194 BIO_read *)
definition pair_BIO_read :: "bio_store \<Rightarrow> nat \<Rightarrow> bool \<Rightarrow> int \<Rightarrow> (int \<times> bytes \<times> bio_store) option" where
  "pair_BIO_read h bio buf_null n =
     bio_io (\<lambda>h. bio_init (h bio)) (\<lambda>i h. h(bio := (h bio)\<lparr>num_read := num_read (h bio) + i\<rparr>)) []
       (Some (\<lambda>h. bio_read h bio buf_null n)) buf_null n h"

(* src: crypto/bio/bio.c@201-204 BIO_write *)
definition pair_BIO_write :: "bio_store \<Rightarrow> nat \<Rightarrow> bytes option \<Rightarrow> int \<Rightarrow> (int \<times> unit \<times> bio_store) option" where
  "pair_BIO_write h bio data n =
     bio_io (\<lambda>h. bio_init (h bio)) (\<lambda>i h. h(bio := (h bio)\<lparr>num_write := num_write (h bio) + i\<rparr>)) ()
       (Some (\<lambda>h. bio_write h bio data)) (data = None) n h"

section \<open>The ring buffer\<close>

text \<open>Where the \<open>i\<close>-th queued byte is.\<close>

definition ring_index :: "nat \<Rightarrow> nat \<Rightarrow> nat \<Rightarrow> nat" where
  "ring_index off n i = (if off + i < n then off + i else off + i - n)"

definition ring_bytes :: "bio_bio \<Rightarrow> bytes" where
  "ring_bytes b = map (\<lambda>i. the (buf b) ! ring_index (offset b) (bsize b) i) [0..<len b]"

definition ring_ok :: "bio_bio \<Rightarrow> bool" where
  "ring_ok b \<longleftrightarrow> buf b \<noteq> None \<and> length (the (buf b)) = bsize b \<and> len b \<le> bsize b \<and> offset b < bsize b"

text \<open>A copy touches nothing but the ring.\<close>

definition same_link :: "bio_bio \<Rightarrow> bio_bio \<Rightarrow> bool" where
  "same_link b b' \<longleftrightarrow> peer b' = peer b \<and> closed b' = closed b \<and> bsize b' = bsize b \<and> request b' = request b"

lemma length_ring_bytes [simp]: "length (ring_bytes b) = len b"
  by (simp add: ring_bytes_def)

lemma ring_write_step:
  assumes ok: "ring_ok b" and d: "len b + length d \<le> bsize b"
    and w: "w = (if offset b + len b \<ge> bsize b then offset b + len b - bsize b else offset b + len b)"
    and c: "w + length d \<le> bsize b"
    and b': "b' = b\<lparr>buf := Some (mem_write (the (buf b)) w d), len := len b + length d\<rparr>"
  shows "ring_ok b' \<and> ring_bytes b' = ring_bytes b @ d"
proof
  have l: "length (the (buf b)) = bsize b" "len b \<le> bsize b" "offset b < bsize b"
    using ok by (auto simp: ring_ok_def)
  show "ring_ok b'" using l d c ok by (simp add: ring_ok_def b')
  show "ring_bytes b' = ring_bytes b @ d"
  proof (rule nth_equalityI)
    show "length (ring_bytes b') = length (ring_bytes b @ d)" by (simp add: b')
    fix i assume "i < length (ring_bytes b')"
    then have i: "i < len b + length d" by (simp add: b')
    let ?k = "ring_index (offset b) (bsize b) i"
    have k: "?k < bsize b" using i d l by (auto simp: ring_index_def)
    have "ring_bytes b' ! i = mem_write (the (buf b)) w d ! ?k" using i by (simp add: ring_bytes_def b')
    also have "\<dots> = (if w \<le> ?k \<and> ?k < w + length d then d ! (?k - w) else the (buf b) ! ?k)"
      by (rule nth_mem_write) (use c l k in simp_all)
    also have "\<dots> = (ring_bytes b @ d) ! i"
    proof (cases "i < len b")
      case True
      then have "\<not> (w \<le> ?k \<and> ?k < w + length d)" using w l d c by (auto simp: ring_index_def split: if_splits)
      then show ?thesis using True by (auto simp: nth_append ring_bytes_def)
    next
      case False
      then have "?k = w + (i - len b)" using w l d i c by (auto simp: ring_index_def split: if_splits)
      then have "w \<le> ?k" "?k < w + length d" "?k - w = i - len b" using False i by linarith+
      then show ?thesis using False i by (simp add: nth_append)
    qed
    finally show "ring_bytes b' ! i = (ring_bytes b @ d) ! i" .
  qed
qed

lemma bio_write_round_ok:
  assumes ok: "ring_ok b" and d: "d \<noteq> []" "len b + length d \<le> bsize b"
  shows "\<exists>c b' bs. bio_write_round d b = Some (c, b') \<and> 0 < c \<and> c \<le> length d \<and> ring_ok b' \<and>
    ring_bytes b' = ring_bytes b @ take c d \<and> b' = b\<lparr>buf := Some bs, len := len b + c\<rparr>"
proof -
  define w where "w = (if offset b + len b \<ge> bsize b then offset b + len b - bsize b else offset b + len b)"
  define c where "c = (if w + length d \<le> bsize b then length d else bsize b - w)"
  define b' where "b' = b\<lparr>buf := Some (mem_write (the (buf b)) w (take c d)), len := len b + c\<rparr>"
  have l: "length (the (buf b)) = bsize b" "len b \<le> bsize b" "offset b < bsize b" "buf b \<noteq> None"
    using ok by (auto simp: ring_ok_def)
  have wl: "w < bsize b" using l d unfolding w_def by (cases d) auto
  have c: "0 < c" "c \<le> length d" "w + c \<le> bsize b" using wl d unfolding c_def by auto
  have s: "ring_ok b' \<and> ring_bytes b' = ring_bytes b @ take c d"
    by (rule ring_write_step [OF ok _ w_def]) (use d c in \<open>simp_all add: b'_def\<close>)
  have "bio_write_round d b = Some (c, b')"
    using d s unfolding bio_write_round_def Let_def w_def [symmetric] c_def [symmetric] b'_def [symmetric]
    by (simp add: ring_ok_def)
  then show ?thesis using s c unfolding b'_def by blast
qed

lemma bio_write_loop_ok:
  assumes "ring_ok b" "d \<noteq> []" "len b + length d \<le> bsize b" "length d \<le> fuel"
  shows "\<exists>b'. bio_write_loop fuel d b = Some b' \<and> ring_ok b' \<and> ring_bytes b' = ring_bytes b @ d \<and>
    same_link b b'"
  using assms
proof (induction fuel arbitrary: d b)
  case (Suc fuel)
  obtain c b' bs where r: "bio_write_round d b = Some (c, b')" "0 < c" "c \<le> length d" "ring_ok b'"
      "ring_bytes b' = ring_bytes b @ take c d" "b' = b\<lparr>buf := Some bs, len := len b + c\<rparr>"
    using bio_write_round_ok [OF Suc.prems(1-3)] by blast
  show ?case
  proof (cases "length d - c = 0")
    case True
    then show ?thesis using r by (auto simp: same_link_def)
  next
    case False
    have "\<exists>b''. bio_write_loop fuel (drop c d) b' = Some b'' \<and> ring_ok b'' \<and>
        ring_bytes b'' = ring_bytes b' @ drop c d \<and> same_link b' b''"
      by (rule Suc.IH [OF r(4)]) (use False r(2,3,6) Suc.prems in auto)
    then show ?thesis using r False by (auto simp: same_link_def)
  qed
qed auto

lemma bio_read_round_ok:
  assumes ok: "ring_ok b" and n: "0 < n" "n \<le> len b"
  shows "\<exists>c b' off. bio_read_round n b = Some (c, take c (ring_bytes b), b') \<and> 0 < c \<and> c \<le> n \<and> ring_ok b' \<and>
    ring_bytes b' = drop c (ring_bytes b) \<and> b' = b\<lparr>len := len b - c, offset := off\<rparr>"
proof -
  have l: "length (the (buf b)) = bsize b" "len b \<le> bsize b" "offset b < bsize b" "buf b \<noteq> None"
    using ok by (auto simp: ring_ok_def)
  define c where "c = (if offset b + n \<le> bsize b then n else bsize b - offset b)"
  define off where "off = (if len b - c \<noteq> 0 then if offset b + c = bsize b then 0 else offset b + c else 0)"
  let ?b = "b\<lparr>len := len b - c, offset := off\<rparr>"
  have c: "0 < c" "c \<le> n" "offset b + c \<le> bsize b" using l n unfolding c_def by auto
  have full: "c = n" if "len b - c = 0" using that n c by simp
  have out: "mem_read (the (buf b)) (offset b) c = take c (ring_bytes b)"
  proof (rule nth_equalityI)
    fix i assume i: "i < length (mem_read (the (buf b)) (offset b) c)"
    then show "mem_read (the (buf b)) (offset b) c ! i = take c (ring_bytes b) ! i"
      using c n l by (simp add: mem_read_def ring_bytes_def ring_index_def)
  qed (use c n l in simp)
  have "ring_bytes ?b = drop c (ring_bytes b)"
  proof (rule nth_equalityI)
    fix i assume i: "i < length (ring_bytes ?b)"
    then have i: "i < len b - c" by simp
    then have "ring_index off (bsize b) i = ring_index (offset b) (bsize b) (c + i)"
      using c l n by (auto simp: off_def ring_index_def)
    moreover have "c + i < len b" using i by linarith
    ultimately show "ring_bytes ?b ! i = drop c (ring_bytes b) ! i" using i by (simp add: ring_bytes_def)
  qed simp
  moreover have "ring_ok ?b" using l c by (auto simp: ring_ok_def off_def)
  moreover have "bio_read_round n b = Some (c, take c (ring_bytes b), ?b)"
    unfolding bio_read_round_def Let_def c_def [symmetric] out using n c full by (simp add: off_def)
  ultimately show ?thesis using c by blast
qed

lemma bio_read_loop_ok:
  assumes "ring_ok b" "0 < n" "n \<le> len b" "n \<le> fuel"
  shows "\<exists>b'. bio_read_loop fuel n b = Some (take n (ring_bytes b), b') \<and> ring_ok b' \<and>
    ring_bytes b' = drop n (ring_bytes b) \<and> same_link b b'"
  using assms
proof (induction fuel arbitrary: n b)
  case (Suc fuel)
  obtain c b' off where r: "bio_read_round n b = Some (c, take c (ring_bytes b), b')" "0 < c" "c \<le> n" "ring_ok b'"
      "ring_bytes b' = drop c (ring_bytes b)" "b' = b\<lparr>len := len b - c, offset := off\<rparr>"
    using bio_read_round_ok [OF Suc.prems(1-3)] by blast
  show ?case
  proof (cases "n - c = 0")
    case True
    then show ?thesis using r by (auto simp: same_link_def)
  next
    case False
    have "\<exists>b''. bio_read_loop fuel (n - c) b' = Some (take (n - c) (ring_bytes b'), b'') \<and> ring_ok b'' \<and>
        ring_bytes b'' = drop (n - c) (ring_bytes b') \<and> same_link b' b''"
      by (rule Suc.IH [OF r(4)]) (use False r(2,3,6) Suc.prems in auto)
    moreover have "take c (ring_bytes b) @ take (n - c) (drop c (ring_bytes b)) = take n (ring_bytes b)"
      using r(3) take_add [of c "n - c" "ring_bytes b"] by simp
    ultimately show ?thesis using r False by (auto simp: same_link_def)
  qed
qed auto

section \<open>Connected BIOs\<close>

definition pair_ok :: "nat \<Rightarrow> nat \<Rightarrow> bio_store \<Rightarrow> bool" where
  "pair_ok a b h \<longleftrightarrow> a \<noteq> b \<and> bio_init (h a) \<and> bio_init (h b) \<and>
     peer (the_bio h a) = Some b \<and> peer (the_bio h b) = Some a \<and>
     ring_ok (the_bio h a) \<and> ring_ok (the_bio h b)"

lemma pair_ok_sym: "pair_ok a b h \<longleftrightarrow> pair_ok b a h"
  by (auto simp: pair_ok_def)

lemma the_bio_simps [simp]:
  "the_bio (set_bio h a b) c = (if c = a then b else the_bio h c)"
  "the_bio (h(a := (h a)\<lparr>bio_init := i\<rparr>)) c = the_bio h c"
  "the_bio (h(a := BIO_clear_retry_flags (h a))) c = the_bio h c"
  "the_bio (h(a := BIO_set_retry_read (h a))) c = the_bio h c"
  "the_bio (h(a := BIO_set_retry_write (h a))) c = the_bio h c"
  "the_bio (h(a := (h a)\<lparr>num_read := n\<rparr>)) c = the_bio h c"
  "the_bio (h(a := (h a)\<lparr>num_write := n\<rparr>)) c = the_bio h c"
  by (simp_all add: the_bio_def set_bio_def BIO_clear_retry_flags_def BIO_set_retry_read_def BIO_set_retry_write_def)

lemma bio_init_simps [simp]:
  "bio_init (set_bio h a b c) = bio_init (h c)"
  "bio_init (BIO_clear_retry_flags x) = bio_init x"
  "bio_init (BIO_set_retry_read x) = bio_init x"
  "bio_init (BIO_set_retry_write x) = bio_init x"
  by (simp_all add: set_bio_def BIO_clear_retry_flags_def BIO_set_retry_read_def BIO_set_retry_write_def)

lemma ring_request [simp]:
  "ring_ok (b\<lparr>request := r\<rparr>) = ring_ok b" "ring_bytes (b\<lparr>request := r\<rparr>) = ring_bytes b"
  by (simp_all add: ring_ok_def ring_bytes_def)

text \<open>
  A write takes as much as fits: all of it, or what fills the buffer, or nothing if the buffer
  is full or the writer has shut down.
\<close>

lemma bio_write_ok:
  assumes p: "pair_ok a b h" and d: "length d < 2147483648"
  shows "\<exists>r h'. bio_write h a (Some d) = Some (r, (), h') \<and> pair_ok a b h' \<and>
    (let n = (if closed (the_bio h a) then 0 else min (length d) (bsize (the_bio h a) - len (the_bio h a))) in
     ring_bytes (the_bio h' a) = ring_bytes (the_bio h a) @ take n d \<and> ring_bytes (the_bio h' b) = ring_bytes (the_bio h b) \<and>
     closed (the_bio h' a) = closed (the_bio h a) \<and> closed (the_bio h' b) = closed (the_bio h b) \<and>
     bsize (the_bio h' a) = bsize (the_bio h a) \<and> bsize (the_bio h' b) = bsize (the_bio h b) \<and>
     r = (if d = [] \<or> n > 0 then int n else -1))"
proof -
  let ?s = "the_bio h a"
  have ok: "a \<noteq> b" "bio_init (h a)" "peer ?s = Some b" "ring_ok ?s" "buf ?s \<noteq> None" "len ?s \<le> bsize ?s"
    using p by (auto simp: pair_ok_def ring_ok_def)
  consider "d = []" | "d \<noteq> []" "closed ?s" | "d \<noteq> []" "\<not> closed ?s" "len ?s = bsize ?s"
    | "d \<noteq> []" "\<not> closed ?s" "len ?s < bsize ?s" using ok by linarith
  then show ?thesis
  proof cases
    case 4
    define n where "n = min (length d) (bsize ?s - len ?s)"
    have n: "0 < n" "n \<le> length d" "n \<le> bsize ?s - len ?s" using 4 by (auto simp: n_def)
    let ?s' = "?s\<lparr>request := 0\<rparr>"
    have "\<exists>t. bio_write_loop n (take n d) ?s' = Some t \<and> ring_ok t \<and> ring_bytes t = ring_bytes ?s' @ take n d \<and>
        same_link ?s' t"
      by (rule bio_write_loop_ok) (use ok n 4 in auto)
    then obtain t where t: "bio_write_loop n (take n d) ?s' = Some t" "ring_ok t"
        "ring_bytes t = ring_bytes ?s @ take n d" "same_link ?s' t" by auto
    have num: "(if length d > bsize ?s - len ?s then bsize ?s - len ?s else length d) = n" by (simp add: n_def)
    have "bio_write h a (Some d) = Some (int_of_size n, (),
        set_bio (set_bio (h(a := BIO_clear_retry_flags (h a))) a ?s') a t)"
      using ok 4 t(1) num by (simp add: bio_write_def Let_def cong: if_cong split del: if_split) (simp add: ok(5))
    then show ?thesis using p t 4 n d
      by (simp add: pair_ok_def Let_def n_def [symmetric] same_link_def int_of_size_small)
  qed (use p ok in \<open>auto simp: bio_write_def Let_def pair_ok_def\<close>)
qed

lemma bio_read_ok:
  assumes p: "pair_ok a b h" and n: "0 \<le> n" "n < 2147483648"
  shows "\<exists>r h'. bio_read h b False n = Some (r, take (nat n) (ring_bytes (the_bio h a)), h') \<and> pair_ok a b h' \<and>
     ring_bytes (the_bio h' a) = drop (nat n) (ring_bytes (the_bio h a)) \<and>
     ring_bytes (the_bio h' b) = ring_bytes (the_bio h b) \<and>
     closed (the_bio h' a) = closed (the_bio h a) \<and> closed (the_bio h' b) = closed (the_bio h b) \<and>
     bsize (the_bio h' a) = bsize (the_bio h a) \<and> bsize (the_bio h' b) = bsize (the_bio h b) \<and>
     r = (if n > 0 \<and> ring_bytes (the_bio h a) = [] \<and> \<not> closed (the_bio h a) then -1
          else int (length (take (nat n) (ring_bytes (the_bio h a)))))"
proof -
  let ?s = "the_bio h a"
  have ok: "a \<noteq> b" "bio_init (h b)" "peer (the_bio h b) = Some a" "ring_ok ?s" "buf ?s \<noteq> None" "len ?s \<le> bsize ?s"
    using p by (auto simp: pair_ok_def ring_ok_def)
  note sn = size_of_int_small [OF n]
  have e: "ring_bytes ?s = [] \<longleftrightarrow> len ?s = 0" by (simp add: ring_bytes_def)
  consider "n = 0" | "n \<noteq> 0" "len ?s = 0" | "n \<noteq> 0" "len ?s \<noteq> 0" by blast
  then show ?thesis
  proof cases
    case 3
    define m where "m = min (len ?s) (nat n)"
    have m: "0 < m" "m \<le> len ?s" "m < 2147483648" using 3 n by (auto simp: m_def)
    let ?s' = "?s\<lparr>request := 0\<rparr>"
    have "\<exists>t. bio_read_loop m m ?s' = Some (take m (ring_bytes ?s'), t) \<and> ring_ok t \<and>
        ring_bytes t = drop m (ring_bytes ?s') \<and> same_link ?s' t"
      by (rule bio_read_loop_ok) (use ok m in auto)
    then obtain t where t: "bio_read_loop m m ?s' = Some (take m (ring_bytes ?s), t)" "ring_ok t"
        "ring_bytes t = drop m (ring_bytes ?s)" "same_link ?s' t" by auto
    have tm: "take m (ring_bytes ?s) = take (nat n) (ring_bytes ?s)" "drop m (ring_bytes ?s) = drop (nat n) (ring_bytes ?s)"
      by (auto simp: m_def min_def)
    have num: "(if len ?s < nat n then len ?s else nat n) = m" by (simp add: m_def)
    have "bio_read h b False n = Some (int_of_size m, take m (ring_bytes ?s),
        set_bio (set_bio (h(b := BIO_clear_retry_flags (h b))) a ?s') a t)"
      using ok 3 t(1) num sn n by (simp add: bio_read_def Let_def cong: if_cong split del: if_split) (simp add: ok(5))
    then show ?thesis using p t 3 m n e tm
      by (simp add: pair_ok_def same_link_def int_of_size_small) (simp add: m_def min.commute)
  qed (use p ok sn e n in \<open>auto simp: bio_read_def Let_def pair_ok_def\<close>)
qed

section \<open>The byte stream\<close>

lemma pair_io_counters [simp]:
  "pair_ok a b (h(c := (h c)\<lparr>num_read := n\<rparr>)) = pair_ok a b h"
  "pair_ok a b (h(c := (h c)\<lparr>num_write := n\<rparr>)) = pair_ok a b h"
  by (auto simp: pair_ok_def)

definition pair_send :: "nat \<Rightarrow> bio_store \<Rightarrow> bytes \<Rightarrow> (int \<times> bio_store) option" where
  "pair_send a h d = map_option (\<lambda>(r, _, h'). (r, h')) (pair_BIO_write h a (Some d) (int (length d)))"

definition pair_recv :: "nat \<Rightarrow> bio_store \<Rightarrow> nat \<Rightarrow> (int \<times> bytes \<times> bio_store) option" where
  "pair_recv b h n = pair_BIO_read h b False (int n)"

text \<open>What may go on meanwhile: traffic the other way, and control calls at either end.\<close>

datatype pair_other = BackSend bytes | BackRecv nat | CtrlNear bio_cmd | CtrlFar bio_cmd

definition pair_other :: "nat \<Rightarrow> nat \<Rightarrow> bio_store \<Rightarrow> pair_other \<Rightarrow> bio_store option" where
  "pair_other a b h x =
     (case x of
        BackSend d \<Rightarrow> map_option snd (pair_send b h d)
      | BackRecv n \<Rightarrow> map_option (snd \<circ> snd) (pair_recv a h n)
      | CtrlNear cmd \<Rightarrow> Some (snd (bio_ctrl h a cmd))
      | CtrlFar cmd \<Rightarrow> Some (snd (bio_ctrl h b cmd)))"

fun pair_other_ok :: "pair_other \<Rightarrow> bool" where
  "pair_other_ok (BackSend d) = (length d < 2147483648)"
| "pair_other_ok (BackRecv n) = (n < 2147483648)"
| "pair_other_ok x = True"

text \<open>
  One direction of a pair as a queue: the bytes on their way, the size of the ring and whether the
  writer has shut down.  A write takes what fits and returns how much; -1 asks for a retry, or says
  that the writer has shut down.  Only a reset at the writer's end drops bytes.
\<close>

definition pair_view :: "nat \<Rightarrow> bio_store \<Rightarrow> bytes \<times> nat \<times> bool" where
  "pair_view a h = (ring_bytes (the_bio h a), bsize (the_bio h a), closed (the_bio h a))"

definition pair_accept :: "nat \<times> bool \<Rightarrow> bytes \<Rightarrow> bytes \<Rightarrow> int \<times> nat \<times> nat \<times> bool" where
  "pair_accept c q d =
     (let n = min (length d) (fst c - length q) in
      if d = [] then (0, 0, c)
      else if snd c \<or> n = 0 then (-1, 0, c)
      else (int n, n, c))"

definition pair_idle :: "nat \<times> bool \<Rightarrow> int" where
  "pair_idle c = (if snd c then 0 else -1)"

fun pair_chg :: "pair_other \<Rightarrow> bytes \<times> nat \<times> bool \<Rightarrow> bytes \<times> nat \<times> bool" where
  "pair_chg (CtrlNear CtrlReset) (q, sz, cl) = ([], sz, cl)"
| "pair_chg (CtrlNear ShutdownWr) (q, sz, cl) = (q, sz, True)"
| "pair_chg x st = st"

lemma pair_send_ok:
  assumes p: "pair_ok a b h" and d: "length d < 2147483648"
    and v: "pair_view a h = (q, c)" "pair_accept c q d = (r, n, c')"
  shows "\<exists>h'. pair_send a h d = Some (r, h') \<and> pair_ok a b h' \<and>
    pair_view a h' = (q @ take n d, c') \<and> pair_view b h' = pair_view b h"
proof (cases "d = []")
  case True
  then show ?thesis using p v
    by (auto simp: pair_send_def pair_BIO_write_def bio_io_def pair_ok_def pair_accept_def)
next
  case False
  define k where "k = (if closed (the_bio h a) then 0 else min (length d) (bsize (the_bio h a) - len (the_bio h a)))"
  obtain r' h' where w: "bio_write h a (Some d) = Some (r', (), h')" "pair_ok a b h'"
      "ring_bytes (the_bio h' a) = ring_bytes (the_bio h a) @ take k d"
      "ring_bytes (the_bio h' b) = ring_bytes (the_bio h b)" "r' = (if k > 0 then int k else -1)"
      "closed (the_bio h' a) = closed (the_bio h a)" "closed (the_bio h' b) = closed (the_bio h b)"
      "bsize (the_bio h' a) = bsize (the_bio h a)" "bsize (the_bio h' b) = bsize (the_bio h b)"
    using bio_write_ok [OF p d] False unfolding Let_def k_def [symmetric] by auto
  have c: "q = ring_bytes (the_bio h a)" "c = (bsize (the_bio h a), closed (the_bio h a))"
    using v(1) by (auto simp: pair_view_def)
  have "r = r' \<and> n = k \<and> c' = c"
    using v(2) False w(5) unfolding c pair_accept_def Let_def k_def by (auto simp: min_def split: if_splits)
  then show ?thesis using w p False c
    by (auto simp: pair_send_def pair_BIO_write_def bio_io_def pair_ok_def [of a b h] pair_view_def)
qed

lemma pair_recv_ok:
  assumes p: "pair_ok a b h" and n: "n < 2147483648" and v: "pair_view a h = (q, c)"
  shows "\<exists>h'. pair_recv b h n =
      Some (if 0 < n \<and> q = [] then pair_idle c else int (min n (length q)), take n q, h') \<and> pair_ok a b h' \<and>
    pair_view a h' = (drop n q, c) \<and> pair_view b h' = pair_view b h"
proof (cases "n = 0")
  case True
  then show ?thesis using p v by (auto simp: pair_recv_def pair_BIO_read_def bio_io_def pair_ok_def)
next
  case False
  obtain r h' where r: "bio_read h b False (int n) = Some (r, take n (ring_bytes (the_bio h a)), h')"
      "pair_ok a b h'" "ring_bytes (the_bio h' a) = drop n (ring_bytes (the_bio h a))"
      "ring_bytes (the_bio h' b) = ring_bytes (the_bio h b)"
      "closed (the_bio h' a) = closed (the_bio h a)" "closed (the_bio h' b) = closed (the_bio h b)"
      "bsize (the_bio h' a) = bsize (the_bio h a)" "bsize (the_bio h' b) = bsize (the_bio h b)"
      "r = (if n > 0 \<and> ring_bytes (the_bio h a) = [] \<and> \<not> closed (the_bio h a) then -1
          else int (length (take n (ring_bytes (the_bio h a)))))"
    using bio_read_ok [OF p, of "int n"] n by auto
  have c: "q = ring_bytes (the_bio h a)" "c = (bsize (the_bio h a), closed (the_bio h a))"
    using v by (auto simp: pair_view_def)
  have "r = (if 0 < n \<and> q = [] then pair_idle c else int (min n (length q)))"
    using r(9) False by (auto simp: c pair_idle_def min.commute)
  then show ?thesis using p False r(1-8) c
    by (auto simp: pair_recv_def pair_BIO_read_def bio_io_def pair_ok_def [of a b h] pair_view_def)
qed

lemma bio_ctrl_near:
  assumes p: "pair_ok a b h"
  shows "pair_ok a b (snd (bio_ctrl h a cmd)) \<and>
    pair_view a (snd (bio_ctrl h a cmd)) = pair_chg (CtrlNear cmd) (pair_view a h) \<and>
    pair_view b (snd (bio_ctrl h a cmd)) = pair_view b h"
proof -
  have "the_bio (h(a := h a\<lparr>bio_shutdown := num\<rparr>)) x = the_bio h x" for num x by (simp add: the_bio_def)
  then show ?thesis using p
    by (cases cmd) (auto simp: bio_ctrl_def Let_def pair_ok_def ring_ok_def ring_bytes_def pair_view_def)
qed

interpretation bio_pair: byte_fifo "pair_send a" "pair_recv b" "pair_other a b" "pair_ok a b" "pair_view a"
  pair_accept pair_idle pair_chg "\<lambda>d. length d < 2147483648" "\<lambda>n. n < 2147483648" pair_other_ok
proof unfold_locales
  fix h assume p: "pair_ok a b h"
  then have p': "pair_ok b a h" by (simp add: pair_ok_sym)
  show "\<exists>s'. pair_send a h d = Some (r, s') \<and> pair_ok a b s' \<and> pair_view a s' = (q @ take n d, c')"
    if "length d < 2147483648" "pair_view a h = (q, c)" "pair_accept c q d = (r, n, c')" for d q c r n c'
    using pair_send_ok [OF p that] by blast
  show "\<exists>s'. pair_recv b h n = Some (if 0 < n \<and> q = [] then pair_idle c else int (min n (length q)), take n q, s') \<and>
      pair_ok a b s' \<and> pair_view a s' = (drop n q, c)" if "n < 2147483648" "pair_view a h = (q, c)" for n q c
    using pair_recv_ok [OF p that] by blast
  show "\<exists>s'. pair_other a b h x = Some s' \<and> pair_ok a b s' \<and> pair_view a s' = pair_chg x (pair_view a h)"
    if x: "pair_other_ok x" for x
  proof (cases x)
    case (BackSend d)
    obtain q c r n c' where v: "pair_view b h = (q, c)" "pair_accept c q d = (r, n, c')" by (metis surj_pair)
    obtain h' where "pair_send b h d = Some (r, h')" "pair_ok b a h'" "pair_view a h' = pair_view a h"
      using pair_send_ok [OF p' _ v] x BackSend by auto
    then show ?thesis using BackSend by (simp add: pair_other_def pair_ok_sym [of b a])
  next
    case (BackRecv n)
    obtain q c where v: "pair_view b h = (q, c)" by (cases "pair_view b h")
    obtain h' r o' where "pair_recv a h n = Some (r, o', h')" "pair_ok b a h'" "pair_view a h' = pair_view a h"
      using pair_recv_ok [OF p' _ v, of n] x BackRecv by auto
    then show ?thesis using BackRecv by (simp add: pair_other_def pair_ok_sym [of b a])
  next
    case (CtrlNear cmd)
    then show ?thesis using bio_ctrl_near [OF p, of cmd] by (simp add: pair_other_def)
  next
    case (CtrlFar cmd)
    then show ?thesis using bio_ctrl_near [OF p', of cmd] by (simp add: pair_other_def pair_ok_sym [of b a])
  qed
qed

text \<open>
  C5: Each direction of two connected BIOs is a bounded queue of bytes: in any sequence of BIO_write
  at one end, BIO_read at the other, traffic in the opposite direction and control calls at either
  end, no assertion fails, every copy loop ends, and every return value and every byte handed out are
  those of a plain list that a write appends as much to as fits the ring, a read takes from the front
  of, and only BIO_reset at the writing end empties.  Reads and writes are below 2 GB.
\<close>
theorem bio_pair_stream:
  assumes "pair_ok a b h"
    and "list_all (fifo_op_ok (\<lambda>d. length d < 2147483648) (\<lambda>n. n < 2147483648) pair_other_ok) ops"
  shows "\<exists>rs h'. fifo_run (pair_send a) (pair_recv b) (pair_other a b) ops h = Some (rs, h') \<and>
    pair_ok a b h' \<and> queue_run pair_accept pair_idle pair_chg ops (pair_view a h) = (rs, pair_view a h')"
  by (rule bio_pair.refines [OF assms])

text \<open>A four-byte ring with two bytes queued at its end: the write wraps around and fills it.\<close>

definition witness_bio :: "nat \<Rightarrow> nat \<Rightarrow> nat \<Rightarrow> bytes \<Rightarrow> bio_bio bio" where
  "witness_bio p n off d = (bio_set_initial
     \<lparr>peer = Some p, closed = False, len = n, offset = off, bsize = length d, buf = Some d, request = 0\<rparr>)
     \<lparr>bio_init := True\<rparr>"

lemma bio_pair_stream_witness:
  "\<exists>h'. fifo_run (pair_send 1) (pair_recv 2) (pair_other 1 2)
      [Send [7, 8, 9], Recv 3, Other (BackSend [5]), Other (CtrlNear ShutdownWr), Recv 9, Recv 1]
      (\<lambda>x. if x = 1 then witness_bio 2 2 2 [0, 0, 5, 6] else witness_bio 1 0 0 [0])
    = Some ([Sent 2, Received 3 [5, 6, 7], Done, Done, Received 1 [8], Received 0 []], h')"
proof -
  let ?h = "(\<lambda>x. if x = 1 then witness_bio 2 2 2 [0, 0, 5, 6] else witness_bio 1 0 0 [0]) :: bio_store"
  let ?ops = "[Send [7, 8, 9], Recv 3, Other (BackSend [5]), Other (CtrlNear ShutdownWr), Recv 9, Recv 1]"
  have p: "pair_ok 1 2 ?h"
    by (simp add: pair_ok_def witness_bio_def bio_set_initial_def the_bio_def ring_ok_def)
  have "pair_view 1 ?h = ([5, 6], 4, False)"
    by (simp add: pair_view_def the_bio_def witness_bio_def bio_set_initial_def ring_bytes_def ring_index_def upt_conv_Cons)
  then have "queue_run pair_accept pair_idle pair_chg ?ops (pair_view 1 ?h) =
      ([Sent 2, Received 3 [5, 6, 7], Done, Done, Received 1 [8], Received 0 []], [], 4, True)"
    by (simp add: pair_accept_def pair_idle_def)
  then show ?thesis using bio_pair_stream [OF p, of ?ops] by auto
qed

section \<open>Making a pair\<close>

text \<open>The ring size that a requested write buffer size leads to; 0 asks for the default.\<close>

definition ring_size :: "nat \<Rightarrow> nat" where
  "ring_size n = (if n = 0 then 17 * 1024 else size_of_int (int_of_size n))"

lemma BIO_new_bio_pair_cases:
  assumes ab: "a \<noteq> b" and n: "n1 = 0 \<or> int_of_size n1 \<noteq> 0" "n2 = 0 \<or> int_of_size n2 \<noteq> 0"
    and al: "alloc1 (ring_size n1) = Some b1" "alloc2 (ring_size n2) = Some b2"
  shows "\<exists>h'. BIO_new_bio_pair (Some a) (Some b) j1 j2 alloc1 alloc2 h n1 n2 = (1, Some a, Some b, h') \<and>
    bio_init (h' a) \<and> bio_init (h' b) \<and>
    the_bio h' a = j1\<lparr>peer := Some b, closed := False, len := 0, offset := 0, bsize := ring_size n1,
                     buf := Some b1, request := 0\<rparr> \<and>
    the_bio h' b = j2\<lparr>peer := Some a, closed := False, len := 0, offset := 0, bsize := ring_size n2,
                     buf := Some b2, request := 0\<rparr>"
proof -
  define x1 where "x1 = j1\<lparr>peer := None, bsize := ring_size n1, buf := None\<rparr>"
  define x2 where "x2 = j2\<lparr>peer := None, bsize := ring_size n2, buf := None\<rparr>"
  define h0 where "h0 = (h(a := bio_set_initial (j1\<lparr>peer := None, bsize := 17 * 1024, buf := None\<rparr>)))
      (b := bio_set_initial (j2\<lparr>peer := None, bsize := 17 * 1024, buf := None\<rparr>))"
  have ctrl: "\<exists>g'. bio_pair_set_size g c n = (1, g') \<and>
      the_bio g' c = (the_bio g c)\<lparr>buf := None, bsize := ring_size n\<rparr> \<and> (\<forall>d. d \<noteq> c \<longrightarrow> the_bio g' d = the_bio g d)"
    if "n = 0 \<or> int_of_size n \<noteq> 0" "peer (the_bio g c) = None" "buf (the_bio g c) = None" "bsize (the_bio g c) = 17 * 1024"
    for n g c
    using that by (auto simp: bio_pair_set_size_def bio_ctrl_def Let_def ring_size_def)
  have c0: "peer (the_bio h0 a) = None" "buf (the_bio h0 a) = None" "bsize (the_bio h0 a) = 17 * 1024"
      "peer (the_bio h0 b) = None" "buf (the_bio h0 b) = None" "bsize (the_bio h0 b) = 17 * 1024"
    using ab by (simp_all add: h0_def the_bio_def bio_set_initial_def)
  obtain h1 where h1: "bio_pair_set_size h0 a n1 = (1, h1)"
      "the_bio h1 a = (the_bio h0 a)\<lparr>buf := None, bsize := ring_size n1\<rparr>" "\<forall>d. d \<noteq> a \<longrightarrow> the_bio h1 d = the_bio h0 d"
    using ctrl [OF n(1) c0(1-3)] by blast
  have c1: "peer (the_bio h1 b) = None" "buf (the_bio h1 b) = None" "bsize (the_bio h1 b) = 17 * 1024"
    using h1(3) c0 ab by auto
  obtain h2 where h2: "bio_pair_set_size h1 b n2 = (1, h2)"
      "the_bio h2 b = (the_bio h1 b)\<lparr>buf := None, bsize := ring_size n2\<rparr>" "\<forall>d. d \<noteq> b \<longrightarrow> the_bio h2 d = the_bio h1 d"
    using ctrl [OF n(2) c1] by blast
  have x: "the_bio h2 a = x1" "the_bio h2 b = x2"
    using h1 h2 ab by (auto simp: h0_def x1_def x2_def the_bio_def bio_set_initial_def)
  have e: "BIO_new_bio_pair (Some a) (Some b) j1 j2 alloc1 alloc2 h n1 n2
      = (let (r, h) = bio_make_pair alloc1 alloc2 h2 a b in if r = 0 then (0, None, None, h) else (1, Some a, Some b, h))"
    unfolding BIO_new_bio_pair_def bio_new_def prod.case option.case if_True not_True_eq_False if_False Let_def
      h0_def [symmetric] h1(1) h2(1) by simp
  have p: "peer x1 = None" "peer x2 = None" "buf x1 = None" "buf x2 = None" "bsize x1 = ring_size n1" "bsize x2 = ring_size n2"
    by (simp_all add: x1_def x2_def)
  show ?thesis unfolding e bio_make_pair_def
    using x p al ab by (auto simp: bio_ensure_buf_def Let_def x1_def x2_def set_bio_def the_bio_def)
qed

text \<open>
  BIO_new_bio_pair, when memory is found and the write buffer sizes, narrowed to
  \<^verbatim>\<open>int\<close>, are not zero, connects two BIOs with empty ring buffers of those sizes, the default
  17 kB for a requested size of 0, whatever the fresh structures held before.
\<close>
theorem BIO_new_bio_pair_connects:
  assumes "a \<noteq> b" "n1 < 2147483648" "n2 < 2147483648"
    and al: "alloc1 (ring_size n1) = Some b1" "length b1 = ring_size n1"
      "alloc2 (ring_size n2) = Some b2" "length b2 = ring_size n2"
  shows "\<exists>h'. BIO_new_bio_pair (Some a) (Some b) j1 j2 alloc1 alloc2 h n1 n2 = (1, Some a, Some b, h') \<and>
    pair_ok a b h' \<and> ring_bytes (the_bio h' a) = [] \<and> ring_bytes (the_bio h' b) = [] \<and>
    bsize (the_bio h' a) = (if n1 = 0 then 17 * 1024 else n1) \<and> bsize (the_bio h' b) = (if n2 = 0 then 17 * 1024 else n2)"
proof -
  have z: "n1 = 0 \<or> int_of_size n1 \<noteq> 0" "n2 = 0 \<or> int_of_size n2 \<noteq> 0"
    using assms(2,3) by (auto simp: int_of_size_small)
  have s: "ring_size n1 = (if n1 = 0 then 17 * 1024 else n1)" "ring_size n2 = (if n2 = 0 then 17 * 1024 else n2)"
    using assms(2,3) by (simp_all add: ring_size_def int_of_size_small size_of_int_small)
  obtain h' where h': "BIO_new_bio_pair (Some a) (Some b) j1 j2 alloc1 alloc2 h n1 n2 = (1, Some a, Some b, h')"
      "bio_init (h' a)" "bio_init (h' b)"
      "the_bio h' a = j1\<lparr>peer := Some b, closed := False, len := 0, offset := 0, bsize := ring_size n1,
                       buf := Some b1, request := 0\<rparr>"
      "the_bio h' b = j2\<lparr>peer := Some a, closed := False, len := 0, offset := 0, bsize := ring_size n2,
                       buf := Some b2, request := 0\<rparr>"
    using BIO_new_bio_pair_cases [where ?alloc1.0 = alloc1 and ?alloc2.0 = alloc2, OF assms(1) z al(1,3)] by blast
  then show ?thesis using assms(1) al s by (auto simp: pair_ok_def ring_ok_def ring_bytes_def)
qed

lemma BIO_new_bio_pair_connects_witness:
  "\<exists>h'. BIO_new_bio_pair (Some 1) (Some 2) (the_bio (\<lambda>_. witness_bio 0 9 9 []) 1) (the_bio (\<lambda>_. witness_bio 0 9 9 []) 1)
      (\<lambda>n. Some (replicate n 0)) (\<lambda>n. Some (replicate n 0)) (\<lambda>_. witness_bio 0 0 0 []) 0 5 = (1, Some 1, Some 2, h') \<and>
    pair_ok 1 2 h' \<and> bsize (the_bio h' 2) = 5"
  using BIO_new_bio_pair_connects [of 1 2 0 5 "\<lambda>n. Some (replicate n 0)" _ "\<lambda>n. Some (replicate n 0)"]
  by fastforce

end
