(* ===== verification/BioMem.thy ===== *)
theory BioMem
  imports Bio Buf
begin

text \<open>
  Memory BIOs (crypto/bio/bio_mem.c): a BUF_MEM that is appended to by writes and consumed from the
  front by reads, or a read-only view of the caller's bytes.  Reading a read-only BIO advances
  \<^verbatim>\<open>b->data\<close> instead of moving the bytes down; \<open>mem_base\<close> is how far.
\<close>

section \<open>State and operations\<close>

record mem_state =
  mem_buf :: buf_mem
  mem_base :: nat

type_synonym mem_bio = "mem_state bio"

abbreviation mem_length :: "mem_bio \<Rightarrow> nat" where
  "mem_length bio \<equiv> bm_length (mem_buf (bio_ptr bio))"

definition mem_rdonly :: "mem_bio \<Rightarrow> bool" where
  "mem_rdonly bio \<longleftrightarrow> BIO_test_flags bio BIO_FLAGS_MEM_RDONLY \<noteq> 0"

text \<open>The block and the bytes from \<^verbatim>\<open>b->data\<close> on.\<close>

definition mem_block :: "mem_bio \<Rightarrow> bytes" where
  "mem_block bio = (case bm_data (mem_buf (bio_ptr bio)) of None \<Rightarrow> [] | Some d \<Rightarrow> d)"

definition mem_data :: "mem_bio \<Rightarrow> bytes" where
  "mem_data bio = drop (mem_base (bio_ptr bio)) (mem_block bio)"

definition set_mem :: "mem_bio \<Rightarrow> buf_mem \<Rightarrow> nat \<Rightarrow> mem_bio" where
  "set_mem bio b base = bio\<lparr>bio_ptr := \<lparr>mem_buf = b, mem_base = base\<rparr>\<rparr>"

(* src: crypto/bio/bio_mem.c mem_new *)
definition mem_new :: "bool \<Rightarrow> mem_bio option" where
  "mem_new malloc_ok =
     (case BUF_MEM_new malloc_ok of
        None \<Rightarrow> None
      | Some b \<Rightarrow> Some ((bio_set_initial \<lparr>mem_buf = b, mem_base = 0\<rparr>)
                         \<lparr>bio_shutdown := 1, bio_init := True, bio_num := -1\<rparr>))"

text \<open>
  \<open>len\<close> is negative for a NUL-terminated string, whose length \<^verbatim>\<open>strlen\<close> finds before the
  pointer is tested: the outer option is \<open>None\<close> where that reads a NULL pointer or past the object.
\<close>

(* src: crypto/bio/bio_mem.c BIO_new_mem_buf *)
definition BIO_new_mem_buf :: "bool \<Rightarrow> bytes option \<Rightarrow> int \<Rightarrow> mem_bio option option" where
  "BIO_new_mem_buf malloc_ok data len =
     (case (if len < 0 then (case data of None \<Rightarrow> None | Some d \<Rightarrow> c_strlen d) else Some (nat len)) of
        None \<Rightarrow> None
      | Some n \<Rightarrow>
          (if data = None \<and> len \<noteq> 0 then Some None
           else case mem_new malloc_ok of
               None \<Rightarrow> Some None
             | Some ret \<Rightarrow>
                 Some (Some ((BIO_set_flags (set_mem ret \<lparr>bm_length = n, bm_data = data, bm_max = n\<rparr> 0)
                                BIO_FLAGS_MEM_RDONLY)\<lparr>bio_num := 0\<rparr>))))"

text \<open>The result, the bytes stored at \<open>out\<close>, and the BIO.\<close>

(* src: crypto/bio/bio_mem.c mem_read *)
definition mem_read_bio :: "mem_bio \<Rightarrow> int \<Rightarrow> int \<times> bytes \<times> mem_bio" where
  "mem_read_bio bio outl =
     (let bio = BIO_clear_retry_flags bio;
          b = mem_buf (bio_ptr bio);
          base = mem_base (bio_ptr bio);
          ret = (if outl > int_of_size (bm_length b) then int_of_size (bm_length b) else outl)
      in if ret > 0 then
           let n = nat ret;
               out = take n (mem_data bio);
               b' = b\<lparr>bm_length := bm_length b - n\<rparr>
           in if mem_rdonly bio then (ret, out, set_mem bio b' (base + n))
              else (ret, out, set_mem bio
                      (b'\<lparr>bm_data := map_option
                             (\<lambda>d. mem_write d base (mem_read d (base + n) (bm_length b'))) (bm_data b)\<rparr>) base)
         else if bm_length b = 0 then
           (bio_num bio, [], if bio_num bio \<noteq> 0 then BIO_set_retry_read bio else bio)
         else (ret, [], bio))"

definition INT_MAX :: int where
  "INT_MAX = 2147483647"

(* src: crypto/bio/bio_mem.c mem_write *)
definition mem_write_bio :: "allocator \<Rightarrow> mem_bio \<Rightarrow> bytes \<Rightarrow> int \<times> unit \<times> mem_bio" where
  "mem_write_bio alloc bio data =
     (let inl = int (length data); b = mem_buf (bio_ptr bio) in
      if mem_rdonly bio then (-1, (), bio)
      else
        let bio = BIO_clear_retry_flags bio;
            blen = int_of_size (bm_length b)
        in if INT_MAX - blen < inl then (-1, (), bio)
           else
             let (r, b) = BUF_MEM_grow_clean alloc b (size_of_int (blen + inl)) in
             if r \<noteq> size_of_int (blen + inl) then (-1, (), set_mem bio b (mem_base (bio_ptr bio)))
             else (inl, (), set_mem bio
                     (b\<lparr>bm_data := map_option (\<lambda>d. mem_write d (nat blen) data) (bm_data b)\<rparr>)
                     (mem_base (bio_ptr bio))))"

(* src: crypto/bio/bio_mem.c mem_puts *)
definition mem_puts :: "allocator \<Rightarrow> mem_bio \<Rightarrow> bytes \<Rightarrow> int \<times> unit \<times> mem_bio" where
  "mem_puts alloc bp str = mem_write_bio alloc bp str"

text \<open>How many of the first \<open>j\<close> bytes to return: up to and including the first newline.\<close>

(* src: crypto/bio/bio_mem.c@221-227 mem_gets *)
fun gets_count :: "bytes \<Rightarrow> nat \<Rightarrow> nat \<Rightarrow> nat" where
  "gets_count p i 0 = i"
| "gets_count p i (Suc left) = (if p ! i = 10 then i + 1 else gets_count p (i + 1) left)"

(* src: crypto/bio/bio_mem.c mem_gets *)
definition mem_gets :: "mem_bio \<Rightarrow> int \<Rightarrow> int \<times> bytes \<times> mem_bio" where
  "mem_gets bio n =
     (let bio = BIO_clear_retry_flags bio;
          j = int_of_size (mem_length bio);
          j = (if n - 1 < j then n - 1 else j)
      in if j \<le> 0 then (0, if n > 0 then [0] else [], bio)
         else
           let i = gets_count (mem_data bio) 0 (nat j);
               (r, out, bio) = mem_read_bio bio (int i)
           in if r > 0 then (r, out @ [0], bio) else (r, out, bio))"

(* src: crypto/bio/bio_mem.c@242-253 mem_ctrl *)
definition mem_reset :: "mem_bio \<Rightarrow> mem_bio" where
  "mem_reset bio =
     (let b = mem_buf (bio_ptr bio); base = mem_base (bio_ptr bio) in
      case bm_data b of
        None \<Rightarrow> bio
      | Some d \<Rightarrow>
          (if mem_rdonly bio then set_mem bio (b\<lparr>bm_length := bm_max b\<rparr>) (base - (bm_max b - bm_length b))
           else set_mem bio (b\<lparr>bm_data := Some (mem_write d base (replicate (bm_max b) 0)),
                              bm_length := 0\<rparr>) base))"

datatype mem_cmd =
    MemReset | MemEof | MemSetEofReturn int | MemInfo | MemSetBuf int buf_mem | MemGetBufPtr
  | MemGetClose | MemSetClose int | MemWPending | MemPending | MemFlush | MemUnknown

text \<open>
  MemInfo also stores \<^verbatim>\<open>b->data\<close> and MemGetBufPtr the BUF_MEM pointer for the caller; taking over
  a BUF_MEM frees the old one if the BIO owns it.
\<close>

(* src: crypto/bio/bio_mem.c mem_ctrl *)
definition mem_ctrl :: "mem_bio \<Rightarrow> mem_cmd \<Rightarrow> int \<times> mem_bio" where
  "mem_ctrl bio cmd =
     (case cmd of
        MemReset \<Rightarrow> (1, mem_reset bio)
      | MemEof \<Rightarrow> (if mem_length bio = 0 then 1 else 0, bio)
      | MemSetEofReturn num \<Rightarrow> (1, bio\<lparr>bio_num := int_of_long num\<rparr>)
      | MemInfo \<Rightarrow> (int (mem_length bio), bio)
      | MemSetBuf num b \<Rightarrow> (1, set_mem (bio\<lparr>bio_shutdown := int_of_long num\<rparr>) b 0)
      | MemGetBufPtr \<Rightarrow> (1, bio)
      | MemGetClose \<Rightarrow> (bio_shutdown bio, bio)
      | MemSetClose num \<Rightarrow> (1, bio\<lparr>bio_shutdown := int_of_long num\<rparr>)
      | MemWPending \<Rightarrow> (0, bio)
      | MemPending \<Rightarrow> (int (mem_length bio), bio)
      | MemFlush \<Rightarrow> (1, bio)
      | MemUnknown \<Rightarrow> (0, bio))"

(* src: crypto/bio/bio_mem.c BIO_mem_contents *)
definition BIO_mem_contents :: "mem_bio \<Rightarrow> bytes" where
  "BIO_mem_contents bio = take (mem_length bio) (mem_data bio)"

(* src: crypto/bio/bio.c@191-194 BIO_read *)
definition mem_BIO_read :: "mem_bio \<Rightarrow> bool \<Rightarrow> int \<Rightarrow> (int \<times> bytes \<times> mem_bio) option" where
  "mem_BIO_read bio buf_null n =
     bio_io bio_init (\<lambda>i b. b\<lparr>num_read := num_read b + i\<rparr>) []
       (Some (\<lambda>b. Some (mem_read_bio b n))) buf_null n bio"

(* src: crypto/bio/bio.c@196-199 BIO_gets *)
definition mem_BIO_gets :: "mem_bio \<Rightarrow> bool \<Rightarrow> int \<Rightarrow> (int \<times> bytes \<times> mem_bio) option" where
  "mem_BIO_gets bio buf_null n =
     bio_io bio_init (\<lambda>i b. b\<lparr>num_read := num_read b + i\<rparr>) []
       (Some (\<lambda>b. Some (mem_gets b n))) buf_null n bio"

(* src: crypto/bio/bio.c@201-204 BIO_write *)
definition mem_BIO_write :: "allocator \<Rightarrow> mem_bio \<Rightarrow> bytes option \<Rightarrow> (int \<times> unit \<times> mem_bio) option" where
  "mem_BIO_write alloc bio data =
     bio_io bio_init (\<lambda>i b. b\<lparr>num_write := num_write b + i\<rparr>) ()
       (Some (\<lambda>b. Some (mem_write_bio alloc b (case data of None \<Rightarrow> [] | Some d \<Rightarrow> d))))
       (data = None) (case data of None \<Rightarrow> 0 | Some d \<Rightarrow> int (length d)) bio"

section \<open>A well-formed memory BIO\<close>

text \<open>The bytes from the block's start that are in use, and the position in a read-only one.\<close>

definition mem_bio_ok :: "mem_bio \<Rightarrow> bool" where
  "mem_bio_ok bio \<longleftrightarrow> bio_init bio \<and> buf_mem_ok (mem_buf (bio_ptr bio)) \<and> mem_length bio \<le> 2147483647 \<and>
     mem_base (bio_ptr bio) =
       (if mem_rdonly bio then bm_max (mem_buf (bio_ptr bio)) - mem_length bio else 0)"

lemma mem_simps_bio [simp]:
  "mem_rdonly (BIO_clear_retry_flags bio) = mem_rdonly bio"
  "mem_rdonly (BIO_set_retry_read bio) = mem_rdonly bio"
  "mem_rdonly (set_mem bio b n) = mem_rdonly bio"
  "mem_rdonly (bio\<lparr>num_read := r\<rparr>) = mem_rdonly bio"
  "mem_rdonly (bio\<lparr>num_write := r\<rparr>) = mem_rdonly bio"
  "mem_rdonly (bio\<lparr>bio_num := i\<rparr>) = mem_rdonly bio"
  "mem_rdonly (bio\<lparr>bio_shutdown := i\<rparr>) = mem_rdonly bio"
proof -
  have f: "mem_rdonly b \<longleftrightarrow> bit (bio_flags b) 9" for b
  proof -
    have "(512 :: u32) = 2 ^ 9" by simp
    then show ?thesis
      using and_exp_eq_0_iff [of "bio_flags b" 9]
      by (simp only: mem_rdonly_def BIO_test_flags_def BIO_FLAGS_MEM_RDONLY_def) blast
  qed
  have n: "\<not> bit kRetryFlags 9" "\<not> bit (BIO_FLAGS_READ OR BIO_FLAGS_SHOULD_RETRY) 9"
    by (simp_all add: bio_flag_defs bit_simps)
  show "mem_rdonly (BIO_clear_retry_flags bio) = mem_rdonly bio"
    "mem_rdonly (BIO_set_retry_read bio) = mem_rdonly bio"
    using n unfolding f by (simp_all add: BIO_clear_retry_flags_def BIO_set_retry_read_def bit_simps)
qed (simp_all add: mem_rdonly_def BIO_test_flags_def set_mem_def)

lemma mem_ptr_simps [simp]:
  "bio_ptr (BIO_clear_retry_flags bio) = bio_ptr bio"
  "bio_ptr (BIO_set_retry_read bio) = bio_ptr bio"
  "bio_ptr (set_mem bio b n) = \<lparr>mem_buf = b, mem_base = n\<rparr>"
  "bio_init (BIO_clear_retry_flags bio) = bio_init bio"
  "bio_init (BIO_set_retry_read bio) = bio_init bio"
  "bio_init (set_mem bio b n) = bio_init bio"
  "bio_num (BIO_clear_retry_flags bio) = bio_num bio"
  "bio_num (BIO_set_retry_read bio) = bio_num bio"
  "bio_num (set_mem bio b n) = bio_num bio"
  by (simp_all add: BIO_clear_retry_flags_def BIO_set_retry_read_def set_mem_def)

lemma mem_contents_simps [simp]:
  "BIO_mem_contents (BIO_clear_retry_flags bio) = BIO_mem_contents bio"
  "BIO_mem_contents (BIO_set_retry_read bio) = BIO_mem_contents bio"
  "BIO_mem_contents (bio\<lparr>num_read := r\<rparr>) = BIO_mem_contents bio"
  "BIO_mem_contents (bio\<lparr>num_write := r\<rparr>) = BIO_mem_contents bio"
  "mem_bio_ok (bio\<lparr>num_read := r\<rparr>) = mem_bio_ok bio"
  "mem_bio_ok (bio\<lparr>num_write := r\<rparr>) = mem_bio_ok bio"
  "mem_bio_ok (BIO_clear_retry_flags bio) = mem_bio_ok bio"
  "mem_bio_ok (BIO_set_retry_read bio) = mem_bio_ok bio"
  by (simp_all add: BIO_mem_contents_def mem_data_def mem_block_def mem_bio_ok_def)

lemma mem_contents_length:
  assumes "mem_bio_ok bio"
  shows "length (BIO_mem_contents bio) = mem_length bio"
  using assms by (auto simp: mem_bio_ok_def BIO_mem_contents_def mem_data_def mem_block_def buf_mem_ok_def
      split: option.splits if_splits)

lemma mem_read_bio_ok:
  assumes ok: "mem_bio_ok bio" and n: "0 \<le> n" "n < 2147483648"
  shows "\<exists>r bio'. mem_read_bio bio n = (r, take (nat n) (BIO_mem_contents bio), bio') \<and> mem_bio_ok bio' \<and>
    BIO_mem_contents bio' = drop (nat n) (BIO_mem_contents bio) \<and> mem_rdonly bio' = mem_rdonly bio \<and>
    bio_num bio' = bio_num bio \<and>
    r = (if BIO_mem_contents bio = [] then bio_num bio else int (min (nat n) (length (BIO_mem_contents bio))))"
proof -
  note l = mem_contents_length [OF ok]
  let ?m = "mem_length bio"
  have m: "int_of_size ?m = int ?m" using ok by (intro int_of_size_small) (simp add: mem_bio_ok_def)
  have e: "BIO_mem_contents bio = [] \<longleftrightarrow> ?m = 0" using l by (metis length_0_conv)
  define k where "k = min (nat n) ?m"
  have ret: "(if n > int ?m then int ?m else n) = int k" using n by (auto simp: k_def)
  consider "?m = 0" | "?m \<noteq> 0" "n = 0" | "0 < k" using n by (fastforce simp: k_def)
  then show ?thesis
  proof cases
    case 1
    then have "(if n > int ?m then int ?m else n) = 0" using n by simp
    then show ?thesis using 1 e ok n int_of_size_small [of 0] by (simp add: mem_read_bio_def Let_def)
  next
    case 2
    then show ?thesis using e ok by (simp add: mem_read_bio_def Let_def m)
  next
    case 3
    then obtain d where d: "bm_data (mem_buf (bio_ptr bio)) = Some d" "length d = bm_max (mem_buf (bio_ptr bio))"
      using ok by (auto simp: mem_bio_ok_def buf_mem_ok_def k_def split: option.splits)
    have bl: "?m \<le> length d" using ok d by (simp add: mem_bio_ok_def buf_mem_ok_def)
    let ?base = "mem_base (bio_ptr bio)"
    have c: "BIO_mem_contents bio = take ?m (drop ?base d)" using d by (simp add: BIO_mem_contents_def mem_data_def mem_block_def)
    have k: "k \<le> ?m" by (simp add: k_def)
    have tk: "take k (drop ?base d) = take (nat n) (BIO_mem_contents bio)"
      unfolding c by (simp add: k_def)
    have dk: "take (?m - k) (drop (?base + k) d) = drop (nat n) (BIO_mem_contents bio)"
      unfolding c by (auto simp: k_def drop_take min_def add.commute)
    have r: "int k = int (min (nat n) (length (BIO_mem_contents bio)))" using l by (simp add: k_def)
    have ne: "BIO_mem_contents bio \<noteq> []" using 3 k e by simp
    show ?thesis
    proof (cases "mem_rdonly bio")
      case True
      let ?new = "set_mem (BIO_clear_retry_flags bio) ((mem_buf (bio_ptr bio))\<lparr>bm_length := ?m - k\<rparr>) (?base + k)"
      have "mem_read_bio bio n = (int k, take k (drop ?base d), ?new)"
        using 3 True d by (simp add: mem_read_bio_def Let_def m ret mem_data_def mem_block_def
            cong: if_cong split del: if_split)
      moreover have "mem_bio_ok ?new"
        using ok True d k bl by (auto simp: mem_bio_ok_def buf_mem_ok_def)
      moreover have "BIO_mem_contents ?new = drop (nat n) (BIO_mem_contents bio)"
        unfolding dk [symmetric] using d by (simp add: BIO_mem_contents_def mem_data_def mem_block_def)
      ultimately show ?thesis unfolding tk r [symmetric] using ne by auto
    next
      case False
      have b0: "?base = 0" using ok False by (simp add: mem_bio_ok_def)
      let ?d = "mem_write d 0 (mem_read d k (?m - k))"
      let ?b = "(mem_buf (bio_ptr bio))\<lparr>bm_length := ?m - k, bm_data := Some ?d\<rparr>"
      let ?new = "set_mem (BIO_clear_retry_flags bio) ?b 0"
      have "mem_read_bio bio n = (int k, take k (drop ?base d), ?new)"
        using 3 False d b0 by (simp add: mem_read_bio_def Let_def m ret mem_data_def mem_block_def
            cong: if_cong split del: if_split)
      moreover have ld: "length ?d = length d" using k bl by simp
      moreover have "mem_bio_ok ?new"
        using ok False d k bl ld by (auto simp: mem_bio_ok_def buf_mem_ok_def)
      moreover have lr: "length (mem_read d k (?m - k)) = ?m - k" using k bl by simp
      have "take (0 + length (mem_read d k (?m - k))) ?d = take 0 d @ mem_read d k (?m - k)"
        by (rule take_mem_write_upto) simp
      then have "take (?m - k) ?d = mem_read d k (?m - k)" unfolding lr by simp
      then have "take (?m - k) ?d = drop (nat n) (BIO_mem_contents bio)"
        using dk b0 by (simp add: mem_read_def)
      then have "BIO_mem_contents ?new = drop (nat n) (BIO_mem_contents bio)"
        by (simp add: BIO_mem_contents_def mem_data_def mem_block_def)
      ultimately show ?thesis unfolding tk r [symmetric] using ne by auto
    qed
  qed
qed

text \<open>The size a buffer is grown to, and the room there is for \<open>n\<close> bytes, if any.\<close>

definition mem_capacity :: "allocator \<Rightarrow> nat \<Rightarrow> nat \<Rightarrow> nat option" where
  "mem_capacity alloc cap n =
     (if 2147483647 < n then None
      else if n \<le> cap then Some cap
      else if alloc ((n + 3) div 3 * 4) \<noteq> None then Some ((n + 3) div 3 * 4)
      else None)"

lemma buf_mem_grow_capacity:
  assumes "buf_mem_ok b" "n \<le> 2147483647" "bm_length b \<le> n" "buf_mem_grow alloc b n True = (r, b')" "0 < n"
  shows "(r = n \<longleftrightarrow> mem_capacity alloc (bm_max b) n \<noteq> None) \<and>
    (r = n \<longrightarrow> mem_capacity alloc (bm_max b) n = Some (bm_max b'))"
proof (cases "n \<le> bm_max b")
  case True
  have "mem_capacity alloc (bm_max b) n = Some (bm_max b)" using True assms(2) by (simp add: mem_capacity_def)
  moreover have "r = n \<and> bm_max b' = bm_max b"
    using True assms(4) by (auto simp: buf_mem_grow_def split: if_splits)
  ultimately show ?thesis by simp
next
  case False
  have m: "(n + 3) mod size_bound = n + 3" "((n + 3) div 3 * 4) mod size_bound = (n + 3) div 3 * 4"
    using assms(2) by (auto intro!: mod_less)
  have le: "bm_max b < (n + 3) div 3 * 4" using False by presburger
  show ?thesis
    using False assms m le
    by (auto simp: buf_mem_grow_def mem_capacity_def Let_def OPENSSL_realloc_clean_def buf_mem_ok_def split: option.splits)
qed

lemma mem_write_bio_ok:
  assumes ok: "mem_bio_ok bio" and al: "alloc_ok alloc" and d: "length d \<le> 2147483647" "d \<noteq> []" and w: "\<not> mem_rdonly bio"
  shows "\<exists>r bio'. mem_write_bio alloc bio d = (r, (), bio') \<and> mem_bio_ok bio' \<and> \<not> mem_rdonly bio' \<and>
    bio_num bio' = bio_num bio \<and>
    (case mem_capacity alloc (bm_max (mem_buf (bio_ptr bio))) (mem_length bio + length d) of
       Some cap \<Rightarrow> r = int (length d) \<and> BIO_mem_contents bio' = BIO_mem_contents bio @ d \<and>
         bm_max (mem_buf (bio_ptr bio')) = cap
     | None \<Rightarrow> r = -1 \<and> BIO_mem_contents bio' = BIO_mem_contents bio \<and>
         bm_max (mem_buf (bio_ptr bio')) = bm_max (mem_buf (bio_ptr bio)))"
proof -
  let ?m = "mem_length bio" and ?b = "mem_buf (bio_ptr bio)"
  have m: "int_of_size ?m = int ?m" using ok by (intro int_of_size_small) (simp add: mem_bio_ok_def)
  have b0: "mem_base (bio_ptr bio) = 0" using ok w by (simp add: mem_bio_ok_def)
  show ?thesis
  proof (cases "INT_MAX - int ?m < int (length d)")
    case True
    then have "mem_capacity alloc (bm_max ?b) (?m + length d) = None" by (simp add: mem_capacity_def INT_MAX_def)
    then show ?thesis using True ok w by (simp add: mem_write_bio_def Let_def m)
  next
    case False
    then have le: "?m + length d \<le> 2147483647" by (simp add: INT_MAX_def)
    have s: "size_of_int (int ?m + int (length d)) = ?m + length d"
      using le size_of_int_small [of "int ?m + int (length d)"] by simp
    obtain r b' where g: "buf_mem_grow alloc ?b (?m + length d) True = (r, b')"
      by (cases "buf_mem_grow alloc ?b (?m + length d) True")
    have bo: "buf_mem_ok ?b" using ok by (simp add: mem_bio_ok_def)
    have gr: "buf_mem_ok b'" "r = ?m + length d \<and> bm_contents b' = take (?m + length d) (bm_contents ?b @ replicate (?m + length d) 0)
        \<or> r = 0 \<and> b' = ?b"
      using buf_mem_grow_cases [OF bo al _ g] le by auto
    have cap: "(r = ?m + length d \<longleftrightarrow> mem_capacity alloc (bm_max ?b) (?m + length d) \<noteq> None) \<and>
        (r = ?m + length d \<longrightarrow> mem_capacity alloc (bm_max ?b) (?m + length d) = Some (bm_max b'))"
      by (rule buf_mem_grow_capacity [OF bo le _ g]) (use d(2) in simp_all)
    have mc: "BIO_mem_contents bio = bm_contents ?b"
      using b0 by (simp add: BIO_mem_contents_def mem_data_def mem_block_def bm_contents_def split: option.split)
    show ?thesis
    proof (cases "r = ?m + length d")
      case False
      then have "b' = ?b" using gr by blast
      moreover have "set_mem (BIO_clear_retry_flags bio) ?b 0 = BIO_clear_retry_flags bio"
        using b0 by (simp add: set_mem_def BIO_clear_retry_flags_def)
      ultimately have "mem_write_bio alloc bio d = (-1, (), BIO_clear_retry_flags bio)"
        using w \<open>\<not> INT_MAX - int ?m < int (length d)\<close> g False b0
        by (simp add: mem_write_bio_def Let_def m s BUF_MEM_grow_clean_def)
      then show ?thesis using ok w cap False by simp
    next
      case True
      have c: "bm_contents b' = bm_contents ?b @ replicate (length d) 0" if "0 < ?m + length d"
        using gr True that length_bm_contents [OF bo] by auto
      let ?c = "b'\<lparr>bm_data := map_option (\<lambda>x. mem_write x ?m d) (bm_data b')\<rparr>"
      have e: "mem_write_bio alloc bio d = (int (length d), (), set_mem (BIO_clear_retry_flags bio) ?c 0)"
        using w \<open>\<not> INT_MAX - int ?m < int (length d)\<close> g True b0
        by (simp add: mem_write_bio_def Let_def m s BUF_MEM_grow_clean_def)
      have bl: "bm_length b' = ?m + length d"
      proof (cases "?m + length d = 0")
        case False
        then have "bm_length b' = length (bm_contents ?b @ replicate (length d) 0)"
          using length_bm_contents [OF gr(1)] c by simp
        then show ?thesis using length_bm_contents [OF bo] by simp
      next
        case True
        then show ?thesis using g by (auto simp: buf_mem_grow_def)
      qed
      have k: "buf_mem_ok ?c \<and> bm_contents ?c = bm_contents ?b @ d"
      proof (cases "bm_data b'")
        case None
        then have "bm_length b' = 0" using gr(1) by (simp add: buf_mem_ok_def)
        then show ?thesis using gr(1) None bl length_bm_contents [OF bo]
          by (simp add: buf_mem_ok_def bm_contents_def split: option.splits)
      next
        case (Some x)
        have lx: "?m + length d \<le> length x" "length x = bm_max b'" using gr(1) Some bl by (auto simp: buf_mem_ok_def)
        have tx: "take ?m x = bm_contents ?b"
        proof (cases "?m + length d = 0")
          case True
          then show ?thesis using length_bm_contents [OF bo] by simp
        next
          case False
          then have "take (?m + length d) x = bm_contents ?b @ replicate (length d) 0"
            using c Some bl by (simp add: bm_contents_def)
          then have "take ?m (take (?m + length d) x) = bm_contents ?b" using length_bm_contents [OF bo] by simp
          then show ?thesis by (simp add: min_def)
        qed
        have "take (?m + length d) (mem_write x ?m d) = take ?m x @ d"
          by (rule take_mem_write_upto) (use lx in simp)
        then show ?thesis using gr(1) Some bl lx tx by (simp add: buf_mem_ok_def bm_contents_def)
      qed
      then have "mem_bio_ok (set_mem (BIO_clear_retry_flags bio) ?c 0)"
        using ok w bl le by (simp add: mem_bio_ok_def)
      moreover have "BIO_mem_contents (set_mem (BIO_clear_retry_flags bio) ?c 0) = bm_contents ?c"
        by (simp add: BIO_mem_contents_def mem_data_def mem_block_def bm_contents_def split: option.split)
      ultimately show ?thesis using e k w mc cap True by simp
    qed
  qed
qed

text \<open>The line at the front, cut at \<open>n\<close> bytes.\<close>

definition first_line :: "nat \<Rightarrow> bytes \<Rightarrow> bytes" where
  "first_line n bs = take n (takeWhile (\<lambda>c. c \<noteq> 10) bs @ (if 10 \<in> set bs then [10] else []))"

lemma gets_count_eq:
  "i + n \<le> length p \<Longrightarrow> gets_count p i n = i + length (first_line n (drop i p))"
proof (induction n arbitrary: i)
  case (Suc n)
  have d: "drop i p = p ! i # drop (Suc i) p" using Suc.prems by (simp add: nth_Cons_drop)
  show ?case
  proof (cases "p ! i = 10")
    case True
    then show ?thesis by (simp add: d first_line_def)
  next
    case False
    then show ?thesis using Suc.IH [of "Suc i"] Suc.prems by (simp add: d first_line_def)
  qed
qed (simp add: first_line_def)

lemma first_line_prefix: "first_line n bs = take (length (first_line n bs)) bs"
proof -
  have "\<exists>r. bs = (takeWhile (\<lambda>c. c \<noteq> 10) bs @ (if 10 \<in> set bs then [10] else [])) @ r"
  proof (cases "10 \<in> set bs")
    case True
    then obtain ys zs where "bs = ys @ 10 # zs" "10 \<notin> set ys" by (meson split_list_first)
    moreover then have "takeWhile (\<lambda>c. c \<noteq> 10) bs = ys" by (auto simp: takeWhile_append)
    ultimately show ?thesis using True by (intro exI [of _ zs]) simp
  next
    case False
    then have tw: "takeWhile (\<lambda>c. c \<noteq> 10) bs = bs" by (intro takeWhile_eq_all_conv [THEN iffD2]) auto
    show ?thesis unfolding tw using False by simp
  qed
  then obtain l r where "bs = l @ r" "first_line n bs = take n l" unfolding first_line_def by blast
  then show ?thesis by (simp add: min_def)
qed

lemma first_line_take:
  assumes "n \<le> m"
  shows "first_line n (take m bs) = first_line n bs"
proof -
  have "first_line n bs = take n (first_line (Suc n) bs)" for n and bs :: bytes by (simp add: first_line_def min_def)
  show ?thesis using assms
  proof (induction n arbitrary: m bs)
    case (Suc n)
    obtain m' where m: "m = Suc m'" using Suc.prems by (cases m) auto
    show ?case
    proof (cases bs)
      case (Cons c cs)
      have "first_line (Suc n) (x # xs) = (if x = 10 then [10] else x # first_line n xs)" for x xs
        by (simp add: first_line_def)
      then show ?thesis using Suc m Cons by simp
    qed simp
  qed (simp add: first_line_def)
qed

lemma first_line_min: "first_line (min n (length bs)) bs = first_line n bs"
proof -
  have "length (takeWhile (\<lambda>c. c \<noteq> 10) bs @ (if 10 \<in> set bs then [10] else [])) \<le> length bs"
    by (induction bs) auto
  then show ?thesis unfolding first_line_def by (cases "n \<le> length bs") (simp_all add: min_def)
qed

lemma mem_gets_ok:
  assumes ok: "mem_bio_ok bio" and n: "1 < n" "n < 2147483648" and ne: "BIO_mem_contents bio \<noteq> []"
  shows "\<exists>bio'. mem_gets bio n = (int (length (first_line (nat n - 1) (BIO_mem_contents bio))),
      first_line (nat n - 1) (BIO_mem_contents bio) @ [0], bio') \<and> mem_bio_ok bio' \<and>
    BIO_mem_contents bio = first_line (nat n - 1) (BIO_mem_contents bio) @ BIO_mem_contents bio'"
proof -
  let ?m = "mem_length bio" and ?c = "BIO_mem_contents bio"
  let ?bio = "BIO_clear_retry_flags bio"
  have m: "int_of_size ?m = int ?m" using ok by (intro int_of_size_small) (simp add: mem_bio_ok_def)
  have lc: "length ?c = ?m" by (rule mem_contents_length [OF ok])
  then have m0: "0 < ?m" using ne by (metis length_greater_0_conv)
  define j where "j = min (nat n - 1) ?m"
  have j: "(if n - 1 < int ?m then n - 1 else int ?m) = int j" "0 < j" using n m0 by (auto simp: j_def)
  have cd: "?c = take ?m (mem_data bio)" by (simp add: BIO_mem_contents_def)
  have ld: "?m \<le> length (mem_data bio)" using lc cd by (metis length_take min.cobounded2 min.commute min_def)
  have dd: "mem_data ?bio = mem_data bio" by (simp add: mem_data_def mem_block_def)
  define l where "l = first_line (nat n - 1) ?c"
  have "gets_count (mem_data bio) 0 j = length (first_line j (mem_data bio))"
    using gets_count_eq [of 0 j "mem_data bio"] ld by (simp add: j_def)
  also have "first_line j (mem_data bio) = first_line j ?c"
    unfolding cd by (rule first_line_take [symmetric]) (simp add: j_def)
  also have "first_line j ?c = l"
  proof -
    show ?thesis unfolding l_def j_def lc [symmetric] by (rule first_line_min)
  qed
  finally have g: "gets_count (mem_data bio) 0 j = length l" .
  have lp: "l = take (length l) ?c" unfolding l_def by (rule first_line_prefix)
  have l0: "0 < length l"
    unfolding l_def first_line_def using ne n by (cases ?c) auto
  have ln: "length l \<le> nat n - 1" by (simp add: l_def first_line_def)
  obtain bio' where r: "mem_read_bio ?bio (int (length l)) = (int (length l), l, bio')" "mem_bio_ok bio'"
      "BIO_mem_contents bio' = drop (length l) ?c"
  proof -
    have ll: "length l \<le> length ?c" using arg_cong [OF lp, of length] by simp
    have b: "0 \<le> int (length l)" "int (length l) < 2147483648" using ln n by linarith+
    obtain r bio' where m: "mem_read_bio ?bio (int (length l)) = (r, take (length l) ?c, bio')" "mem_bio_ok bio'"
        "BIO_mem_contents bio' = drop (length l) ?c" "r = int (min (length l) (length ?c))"
      using mem_read_bio_ok [of ?bio, OF _ b] ok ne by auto
    have "r = int (length l)" using m(4) ll by simp
    then show ?thesis using m lp that [of bio'] by simp
  qed
  have cj: "\<not> int j \<le> 0" using j by simp
  have "mem_gets bio n = (int (length l), l @ [0], bio')"
    unfolding mem_gets_def Let_def mem_ptr_simps m j(1) using cj r(1) l0 by (simp add: dd g)
  moreover have "?c = l @ BIO_mem_contents bio'" using lp r(3) by (metis append_take_drop_id)
  ultimately show ?thesis using r(2) unfolding l_def by blast
qed

section \<open>The queue\<close>

definition mem_send :: "allocator \<Rightarrow> mem_bio \<Rightarrow> bytes \<Rightarrow> (int \<times> mem_bio) option" where
  "mem_send alloc bio d = map_option (\<lambda>(r, _, bio'). (r, bio')) (mem_BIO_write alloc bio (Some d))"

definition mem_recv :: "mem_bio \<Rightarrow> nat \<Rightarrow> (int \<times> bytes \<times> mem_bio) option" where
  "mem_recv bio n = mem_BIO_read bio False (int n)"

text \<open>
  A memory BIO as a queue: its bytes, the capacity of its block and the value that reading from it
  returns when it is empty.  A write is taken whole when the bytes fit an \<^verbatim>\<open>int\<close> and the block or
  a larger one that can be allocated, and refused otherwise.
\<close>

definition mem_view :: "mem_bio \<Rightarrow> bytes \<times> nat \<times> int" where
  "mem_view bio = (BIO_mem_contents bio, bm_max (mem_buf (bio_ptr bio)), bio_num bio)"

definition mem_accept :: "allocator \<Rightarrow> nat \<times> int \<Rightarrow> bytes \<Rightarrow> bytes \<Rightarrow> int \<times> nat \<times> nat \<times> int" where
  "mem_accept alloc c q d =
     (if d = [] then (0, 0, c)
      else case mem_capacity alloc (fst c) (length q + length d) of
          None \<Rightarrow> (-1, 0, c)
        | Some cap \<Rightarrow> (int (length d), length d, cap, snd c))"

fun mem_chg :: "mem_cmd \<Rightarrow> bytes \<times> nat \<times> int \<Rightarrow> bytes \<times> nat \<times> int" where
  "mem_chg MemReset (q, cap, e) = ([], cap, e)"
| "mem_chg (MemSetEofReturn n) (q, cap, e) = (q, cap, int_of_long n)"
| "mem_chg (MemSetBuf n b) (q, cap, e) = (bm_contents b, bm_max b, e)"
| "mem_chg cmd st = st"

fun mem_cmd_ok :: "mem_cmd \<Rightarrow> bool" where
  "mem_cmd_ok (MemSetBuf n b) = (buf_mem_ok b \<and> bm_length b \<le> 2147483647)"
| "mem_cmd_ok cmd = True"

lemma mem_send_ok:
  assumes ok: "mem_bio_ok bio" "\<not> mem_rdonly bio" and al: "alloc_ok alloc" and d: "length d \<le> 2147483647"
    and v: "mem_view bio = (q, c)" "mem_accept alloc c q d = (r, n, c')"
  shows "\<exists>bio'. mem_send alloc bio d = Some (r, bio') \<and> (mem_bio_ok bio' \<and> \<not> mem_rdonly bio') \<and>
    mem_view bio' = (q @ take n d, c')"
proof (cases "d = []")
  case True
  then show ?thesis using ok v by (auto simp: mem_send_def mem_BIO_write_def bio_io_def mem_bio_ok_def mem_accept_def)
next
  case False
  have i: "bio_init bio" using ok by (simp add: mem_bio_ok_def)
  have q: "q = BIO_mem_contents bio" "c = (bm_max (mem_buf (bio_ptr bio)), bio_num bio)"
    using v(1) by (auto simp: mem_view_def)
  obtain r' bio' where w: "mem_write_bio alloc bio d = (r', (), bio')" "mem_bio_ok bio'" "\<not> mem_rdonly bio'"
      "bio_num bio' = bio_num bio"
      "case mem_capacity alloc (bm_max (mem_buf (bio_ptr bio))) (mem_length bio + length d) of
         Some cap \<Rightarrow> r' = int (length d) \<and> BIO_mem_contents bio' = BIO_mem_contents bio @ d \<and>
           bm_max (mem_buf (bio_ptr bio')) = cap
       | None \<Rightarrow> r' = -1 \<and> BIO_mem_contents bio' = BIO_mem_contents bio \<and>
           bm_max (mem_buf (bio_ptr bio')) = bm_max (mem_buf (bio_ptr bio))"
    using mem_write_bio_ok [OF ok(1) al d False ok(2)] by blast
  have "mem_view (if r' > 0 then bio'\<lparr>num_write := num_write bio' + nat r'\<rparr> else bio') = mem_view bio'"
    by (simp add: mem_view_def)
  moreover have "r' = r \<and> mem_view bio' = (q @ take n d, c')"
    using w v(2) False q mem_contents_length [OF ok(1)]
    by (auto simp: mem_accept_def mem_view_def split: option.splits)
  ultimately show ?thesis using w(1-3) i False
    by (auto simp: mem_send_def mem_BIO_write_def bio_io_def)
qed

lemma mem_recv_ok:
  assumes ok: "mem_bio_ok bio" and n: "n < 2147483648" and v: "mem_view bio = (q, c)"
  shows "\<exists>bio'. mem_recv bio n = Some (if 0 < n \<and> q = [] then snd c else int (min n (length q)), take n q, bio') \<and>
    mem_bio_ok bio' \<and> mem_rdonly bio' = mem_rdonly bio \<and> mem_view bio' = (drop n q, c)"
proof (cases "n = 0")
  case True
  then show ?thesis using ok v by (auto simp: mem_recv_def mem_BIO_read_def bio_io_def mem_bio_ok_def)
next
  case False
  have i: "bio_init bio" using ok by (simp add: mem_bio_ok_def)
  have q: "q = BIO_mem_contents bio" "c = (bm_max (mem_buf (bio_ptr bio)), bio_num bio)"
    using v by (auto simp: mem_view_def)
  obtain r bio' where r: "mem_read_bio bio (int n) = (r, take n (BIO_mem_contents bio), bio')"
      "mem_bio_ok bio'" "BIO_mem_contents bio' = drop n (BIO_mem_contents bio)" "mem_rdonly bio' = mem_rdonly bio"
      "bio_num bio' = bio_num bio"
      "r = (if BIO_mem_contents bio = [] then bio_num bio else int (min n (length (BIO_mem_contents bio))))"
    using mem_read_bio_ok [OF ok, of "int n"] n by auto
  have m: "bm_max (mem_buf (bio_ptr bio')) = bm_max (mem_buf (bio_ptr bio))"
    using r(1) by (auto simp: mem_read_bio_def Let_def split: if_splits)
  have "mem_view (if r > 0 then bio'\<lparr>num_read := num_read bio' + nat r\<rparr> else bio') = (drop n q, c)"
    using r m q by (simp add: mem_view_def)
  moreover have "r = (if 0 < n \<and> q = [] then snd c else int (min n (length q)))" using r(6) False q by simp
  ultimately show ?thesis using False i r(1,2,4) q
    by (auto simp: mem_recv_def mem_BIO_read_def bio_io_def)
qed

lemma mem_ctrl_ok:
  assumes "mem_bio_ok bio" "\<not> mem_rdonly bio" "mem_cmd_ok cmd"
  shows "mem_bio_ok (snd (mem_ctrl bio cmd)) \<and> \<not> mem_rdonly (snd (mem_ctrl bio cmd)) \<and>
    mem_view (snd (mem_ctrl bio cmd)) = mem_chg cmd (mem_view bio)"
  using assms
  by (cases cmd) (auto simp: mem_ctrl_def mem_reset_def Let_def mem_bio_ok_def buf_mem_ok_def mem_view_def
      BIO_mem_contents_def mem_data_def mem_block_def bm_contents_def split: option.splits)

interpretation mem_fifo: byte_fifo
  "\<lambda>bio d. if alloc_ok alloc then mem_send alloc bio d else None" mem_recv "\<lambda>bio cmd. Some (snd (mem_ctrl bio cmd))"
  "\<lambda>bio. alloc_ok alloc \<and> mem_bio_ok bio \<and> \<not> mem_rdonly bio" mem_view "mem_accept alloc" snd mem_chg
  "\<lambda>d. length d \<le> 2147483647" "\<lambda>n. n < 2147483648" mem_cmd_ok
proof unfold_locales
  fix bio assume ok: "alloc_ok alloc \<and> mem_bio_ok bio \<and> \<not> mem_rdonly bio"
  show "\<exists>s'. (if alloc_ok alloc then mem_send alloc bio d else None) = Some (r, s') \<and>
      (alloc_ok alloc \<and> mem_bio_ok s' \<and> \<not> mem_rdonly s') \<and> mem_view s' = (q @ take n d, c')"
    if "length d \<le> 2147483647" "mem_view bio = (q, c)" "mem_accept alloc c q d = (r, n, c')" for d q c r n c'
    using mem_send_ok [of bio alloc d q c r n c'] ok that by simp
  show "\<exists>s'. mem_recv bio n = Some (if 0 < n \<and> q = [] then snd c else int (min n (length q)), take n q, s') \<and>
      (alloc_ok alloc \<and> mem_bio_ok s' \<and> \<not> mem_rdonly s') \<and> mem_view s' = (drop n q, c)"
    if "n < 2147483648" "mem_view bio = (q, c)" for n q c
    using mem_recv_ok [of bio n q c] ok that by auto
  show "\<exists>s'. Some (snd (mem_ctrl bio x)) = Some s' \<and> (alloc_ok alloc \<and> mem_bio_ok s' \<and> \<not> mem_rdonly s') \<and>
      mem_view s' = mem_chg x (mem_view bio)" if "mem_cmd_ok x" for x
    using mem_ctrl_ok [of bio x] ok that by simp
qed

text \<open>
  C32: A writable memory BIO is a byte queue: over any sequence of BIO_write, BIO_read and control
  calls, every return value and every byte read are those of a plain list.  A write is taken whole,
  except that it is refused with -1 and changes nothing when the contents would pass 2 GB or a larger
  block is needed and cannot be allocated; a read from an empty BIO returns the value that was set for
  it; a reset empties the list and a new buffer replaces it.  Reads and writes are below 2 GB.
\<close>
theorem bio_mem_stream:
  assumes "mem_bio_ok bio" "\<not> mem_rdonly bio" "alloc_ok alloc"
    and "list_all (fifo_op_ok (\<lambda>d. length d \<le> 2147483647) (\<lambda>n. n < 2147483648) mem_cmd_ok) ops"
  shows "\<exists>rs bio'. fifo_run (mem_send alloc) mem_recv (\<lambda>bio cmd. Some (snd (mem_ctrl bio cmd))) ops bio
      = Some (rs, bio') \<and> mem_bio_ok bio' \<and>
    queue_run (mem_accept alloc) snd mem_chg ops (mem_view bio) = (rs, mem_view bio')"
proof -
  have e: "(\<lambda>bio d. if alloc_ok alloc then mem_send alloc bio d else None) = mem_send alloc"
    using assms(3) by simp
  show ?thesis using mem_fifo.refines [of alloc bio ops] assms unfolding e by blast
qed

lemma bio_mem_stream_witness:
  "\<exists>bio bio'. mem_new True = Some bio \<and>
     fifo_run (mem_send (\<lambda>n. if n < 9 then Some (replicate n 0) else None)) mem_recv (\<lambda>bio cmd. Some (snd (mem_ctrl bio cmd)))
       [Send [1, 2, 3], Recv 2, Other MemPending, Send [4], Send [1, 2, 3, 4, 5, 6, 7, 8], Recv 5, Recv 1] bio
     = Some ([Sent 3, Received 2 [1, 2], Done, Sent 1, Sent (-1), Received 2 [3, 4], Received (-1) []], bio')"
proof -
  let ?a = "\<lambda>n. if n < 9 then Some (replicate n (0 :: u8)) else None"
  let ?ops = "[Send [1, 2, 3], Recv 2, Other MemPending, Send [4], Send [1, 2, 3, 4, 5, 6, 7, 8], Recv 5, Recv 1]"
  obtain bio where n: "mem_new True = Some bio" by (simp add: mem_new_def BUF_MEM_new_def)
  then have b: "mem_bio_ok bio" "\<not> mem_rdonly bio" "mem_view bio = ([], 0, -1)"
    by (auto simp: mem_new_def BUF_MEM_new_def mem_bio_ok_def buf_mem_ok_def mem_rdonly_def BIO_test_flags_def
        bio_set_initial_def BIO_mem_contents_def mem_data_def mem_block_def mem_view_def)
  have "queue_run (mem_accept ?a) snd mem_chg ?ops (mem_view bio) =
      ([Sent 3, Received 2 [1, 2], Done, Sent 1, Sent (-1), Received 2 [3, 4], Received (-1) []], [], 8, -1)"
    unfolding b(3) by (simp add: mem_accept_def mem_capacity_def)
  moreover have "alloc_ok ?a" by (simp add: alloc_ok_def)
  ultimately show ?thesis using bio_mem_stream [OF b(1,2), of ?a ?ops] n by auto
qed

text \<open>
  BIO_gets on a non-empty memory BIO returns the first line with its newline, cut at one byte
  less than the buffer holds, adds the terminating NUL, and leaves exactly the rest to be read.
\<close>
theorem mem_gets_reads_line:
  assumes "mem_bio_ok bio" "1 < n" "n < 2147483648" "BIO_mem_contents bio \<noteq> []"
  shows "\<exists>bio'. mem_BIO_gets bio False n = Some (int (length (first_line (nat n - 1) (BIO_mem_contents bio))),
      first_line (nat n - 1) (BIO_mem_contents bio) @ [0], bio') \<and> mem_bio_ok bio' \<and>
    BIO_mem_contents bio = first_line (nat n - 1) (BIO_mem_contents bio) @ BIO_mem_contents bio'"
proof -
  have "bio_init bio" using assms by (simp add: mem_bio_ok_def)
  moreover obtain b where "mem_gets bio n = (int (length (first_line (nat n - 1) (BIO_mem_contents bio))),
      first_line (nat n - 1) (BIO_mem_contents bio) @ [0], b)" "mem_bio_ok b"
    "BIO_mem_contents bio = first_line (nat n - 1) (BIO_mem_contents bio) @ BIO_mem_contents b"
    using mem_gets_ok [OF assms] by blast
  ultimately show ?thesis using assms(2)
    by (cases "first_line (nat n - 1) (BIO_mem_contents bio) = []") (auto simp: mem_BIO_gets_def bio_io_def)
qed

lemma mem_gets_reads_line_witness:
  "\<exists>bio bio'. BIO_new_mem_buf True (Some [65, 10, 66]) 3 = Some (Some bio) \<and>
     mem_BIO_gets bio False 10 = Some (2, [65, 10, 0], bio') \<and> BIO_mem_contents bio' = [66]"
proof -
  obtain bio where n: "BIO_new_mem_buf True (Some [65, 10, 66]) 3 = Some (Some bio)"
    by (simp add: BIO_new_mem_buf_def mem_new_def BUF_MEM_new_def)
  then have b: "mem_bio_ok bio" "BIO_mem_contents bio = [65, 10, 66]"
    by (auto simp: BIO_new_mem_buf_def mem_new_def BUF_MEM_new_def mem_bio_ok_def buf_mem_ok_def
        BIO_set_flags_def set_mem_def bio_set_initial_def BIO_mem_contents_def mem_data_def mem_block_def)
  have l: "first_line (nat 10 - 1) [65, 10, 66] = [65, 10]" by (simp add: first_line_def)
  obtain bio' where "mem_BIO_gets bio False 10 = Some (2, [65, 10, 0], bio')"
      "[65, 10, 66] = [65, 10] @ BIO_mem_contents bio'"
    using mem_gets_reads_line [OF b(1), of 10] unfolding b(2) l by auto
  then show ?thesis using n by auto
qed

text \<open>A read-only BIO over the caller's bytes \<open>d\<close>: it refuses writes, and a reset rewinds it.\<close>

definition rom_ok :: "bytes \<Rightarrow> mem_bio \<Rightarrow> bool" where
  "rom_ok d bio \<longleftrightarrow> mem_bio_ok bio \<and> mem_rdonly bio \<and> bm_data (mem_buf (bio_ptr bio)) = Some d \<and>
     bm_max (mem_buf (bio_ptr bio)) = length d \<and> length d \<le> 2147483647"

definition rom_accept :: "nat \<times> int \<Rightarrow> bytes \<Rightarrow> bytes \<Rightarrow> int \<times> nat \<times> nat \<times> int" where
  "rom_accept c q d = (if d = [] then 0 else -1, 0, c)"

fun rom_chg :: "bytes \<Rightarrow> mem_cmd \<Rightarrow> bytes \<times> nat \<times> int \<Rightarrow> bytes \<times> nat \<times> int" where
  "rom_chg d MemReset (q, cap, e) = (d, cap, e)"
| "rom_chg d (MemSetEofReturn n) (q, cap, e) = (q, cap, int_of_long n)"
| "rom_chg d cmd st = st"

fun rom_cmd_ok :: "mem_cmd \<Rightarrow> bool" where
  "rom_cmd_ok (MemSetBuf n b) = False"
| "rom_cmd_ok cmd = True"

lemma mem_recv_rom:
  assumes "rom_ok d bio" "mem_recv bio n = Some (r, x, bio')" "mem_bio_ok bio'" "mem_rdonly bio' = mem_rdonly bio"
  shows "rom_ok d bio'"
proof -
  have "bm_data (mem_buf (bio_ptr b)) = bm_data (mem_buf (bio_ptr bio)) \<and>
      bm_max (mem_buf (bio_ptr b)) = bm_max (mem_buf (bio_ptr bio))" if "mem_read_bio bio m = (r, y, b)" for m r y b
    using that assms(1) by (auto simp: mem_read_bio_def Let_def rom_ok_def split: if_splits)
  then have "bm_data (mem_buf (bio_ptr bio')) = bm_data (mem_buf (bio_ptr bio)) \<and>
      bm_max (mem_buf (bio_ptr bio')) = bm_max (mem_buf (bio_ptr bio))"
    using assms(2) by (cases "mem_read_bio bio (int n)") (auto simp: mem_recv_def mem_BIO_read_def bio_io_def split: if_splits)
  then show ?thesis using assms by (simp add: rom_ok_def)
qed

interpretation rom_fifo: byte_fifo "mem_send alloc" mem_recv "\<lambda>bio cmd. Some (snd (mem_ctrl bio cmd))"
  "rom_ok d" mem_view rom_accept snd "rom_chg d" "\<lambda>d. True" "\<lambda>n. n < 2147483648" rom_cmd_ok
proof unfold_locales
  fix bio assume ok: "rom_ok d bio"
  show "\<exists>s'. mem_send alloc bio x = Some (r, s') \<and> rom_ok d s' \<and> mem_view s' = (q @ take n x, c')"
    if "mem_view bio = (q, c)" "rom_accept c q x = (r, n, c')" for x q c r n c'
    using ok that by (auto simp: mem_send_def mem_BIO_write_def bio_io_def mem_write_bio_def rom_ok_def mem_bio_ok_def
        rom_accept_def split: if_splits)
  show "\<exists>s'. mem_recv bio n = Some (if 0 < n \<and> q = [] then snd c else int (min n (length q)), take n q, s') \<and>
      rom_ok d s' \<and> mem_view s' = (drop n q, c)" if "n < 2147483648" "mem_view bio = (q, c)" for n q c
    using mem_recv_ok [of bio n q c] mem_recv_rom [OF ok, of n] ok that by (auto simp: rom_ok_def)
  show "\<exists>s'. Some (snd (mem_ctrl bio x)) = Some s' \<and> rom_ok d s' \<and> mem_view s' = rom_chg d x (mem_view bio)"
    if "rom_cmd_ok x" for x
    using ok that
    by (cases x) (auto simp: mem_ctrl_def mem_reset_def Let_def rom_ok_def mem_bio_ok_def buf_mem_ok_def mem_view_def
        BIO_mem_contents_def mem_data_def mem_block_def)
qed

text \<open>
  A read-only memory BIO hands out the caller's bytes in order, refuses writes, and a reset rewinds
  it, so that all of the bytes can be read again.
\<close>
theorem mem_rdonly_stream:
  assumes "BIO_new_mem_buf True (Some d) (int (length d)) = Some (Some bio)" "length d \<le> 2147483647"
    and "list_all (fifo_op_ok (\<lambda>d. True) (\<lambda>n. n < 2147483648) rom_cmd_ok) ops"
  shows "\<exists>rs bio'. fifo_run (mem_send alloc) mem_recv (\<lambda>bio cmd. Some (snd (mem_ctrl bio cmd))) ops bio = Some (rs, bio') \<and>
    queue_run rom_accept snd (rom_chg d) ops (d, length d, 0) = (rs, mem_view bio')"
proof -
  have f: "mem_rdonly b" if "bio_flags b = BIO_FLAGS_MEM_RDONLY" for b
    using that by (simp add: mem_rdonly_def BIO_test_flags_def BIO_FLAGS_MEM_RDONLY_def)
  have b: "bio_flags bio = BIO_FLAGS_MEM_RDONLY" "bio_init bio" "bio_num bio = 0"
      "bio_ptr bio = \<lparr>mem_buf = \<lparr>bm_length = length d, bm_data = Some d, bm_max = length d\<rparr>, mem_base = 0\<rparr>"
    using assms(1) by (auto simp: BIO_new_mem_buf_def mem_new_def BUF_MEM_new_def BIO_set_flags_def bio_set_initial_def
        set_mem_def Let_def)
  have "rom_ok d bio" "mem_view bio = (d, length d, 0)"
    using assms(2) f [OF b(1)] b
    by (simp_all add: rom_ok_def mem_bio_ok_def buf_mem_ok_def mem_view_def BIO_mem_contents_def mem_data_def mem_block_def)
  then show ?thesis using rom_fifo.refines [of d bio ops alloc] assms(3) by auto
qed

lemma mem_rdonly_stream_witness:
  "\<exists>bio bio'. BIO_new_mem_buf True (Some [7, 8, 9]) 3 = Some (Some bio) \<and>
     fifo_run (mem_send (\<lambda>_. None)) mem_recv (\<lambda>bio cmd. Some (snd (mem_ctrl bio cmd)))
       [Recv 2, Send [1], Recv 5, Recv 1, Other MemReset, Recv 5] bio
     = Some ([Received 2 [7, 8], Sent (-1), Received 1 [9], Received 0 [], Done, Received 3 [7, 8, 9]], bio')"
proof -
  obtain bio where n: "BIO_new_mem_buf True (Some [7, 8, 9]) 3 = Some (Some bio)"
    by (simp add: BIO_new_mem_buf_def mem_new_def BUF_MEM_new_def)
  show ?thesis
    using mem_rdonly_stream [of "[7, 8, 9]" bio "[Recv 2, Send [1], Recv 5, Recv 1, Other MemReset, Recv 5]" "\<lambda>_. None"] n
    by (auto simp: rom_accept_def)
qed

end
