(* ===== verification/Base64.thy ===== *)
theory Base64
  imports Prelude
begin

text \<open>
  Base64 (crypto/base64/base64.c): the block functions, the line-breaking streaming encoder and
  the streaming decoder.  A read outside the bytes a pointer may reach is \<open>None\<close>; the outputs are
  the bytes written through \<^verbatim>\<open>out\<close> or \<^verbatim>\<open>dst\<close>, without the NUL each function adds after
  them, except that the output of \<^verbatim>\<open>EVP_EncodeBlock\<close> ends with it.
\<close>

section \<open>Tables\<close>

(* src: crypto/base64/base64.c@63-64 data_bin2ascii *)
definition data_bin2ascii :: bytes where
  "data_bin2ascii =
     [65, 66, 67, 68, 69, 70, 71, 72, 73, 74, 75, 76, 77, 78, 79, 80, 81, 82, 83, 84, 85, 86, 87, 88,
      89, 90, 97, 98, 99, 100, 101, 102, 103, 104, 105, 106, 107, 108, 109, 110, 111, 112, 113, 114,
      115, 116, 117, 118, 119, 120, 121, 122, 48, 49, 50, 51, 52, 53, 54, 55, 56, 57, 43, 47]"

(* src: crypto/base64/base64.c@95-107 data_ascii2bin *)
definition data_ascii2bin :: bytes where
  "data_ascii2bin =
     [0xFF, 0xFF, 0xFF, 0xFF, 0xFF, 0xFF, 0xFF, 0xFF, 0xFF, 0xE0, 0xF0, 0xFF,
      0xFF, 0xF1, 0xFF, 0xFF, 0xFF, 0xFF, 0xFF, 0xFF, 0xFF, 0xFF, 0xFF, 0xFF,
      0xFF, 0xFF, 0xFF, 0xFF, 0xFF, 0xFF, 0xFF, 0xFF, 0xE0, 0xFF, 0xFF, 0xFF,
      0xFF, 0xFF, 0xFF, 0xFF, 0xFF, 0xFF, 0xFF, 0x3E, 0xFF, 0xF2, 0xFF, 0x3F,
      0x34, 0x35, 0x36, 0x37, 0x38, 0x39, 0x3A, 0x3B, 0x3C, 0x3D, 0xFF, 0xFF,
      0xFF, 0x00, 0xFF, 0xFF, 0xFF, 0x00, 0x01, 0x02, 0x03, 0x04, 0x05, 0x06,
      0x07, 0x08, 0x09, 0x0A, 0x0B, 0x0C, 0x0D, 0x0E, 0x0F, 0x10, 0x11, 0x12,
      0x13, 0x14, 0x15, 0x16, 0x17, 0x18, 0x19, 0xFF, 0xFF, 0xFF, 0xFF, 0xFF,
      0xFF, 0x1A, 0x1B, 0x1C, 0x1D, 0x1E, 0x1F, 0x20, 0x21, 0x22, 0x23, 0x24,
      0x25, 0x26, 0x27, 0x28, 0x29, 0x2A, 0x2B, 0x2C, 0x2D, 0x2E, 0x2F, 0x30,
      0x31, 0x32, 0x33, 0xFF, 0xFF, 0xFF, 0xFF, 0xFF]"

(* src: crypto/base64/base64.c@66-66 conv_bin2ascii *)
definition conv_bin2ascii :: "u32 \<Rightarrow> u8" where
  "conv_bin2ascii a = data_bin2ascii ! unat (a AND 0x3f)"

(* src: crypto/base64/base64.c@67-68 conv_ascii2bin *)
definition conv_ascii2bin :: "u8 \<Rightarrow> u8" where
  "conv_ascii2bin a = data_ascii2bin ! unat (a AND 0x7f)"

(* src: crypto/base64/base64.c@86-86 B64_EOLN *)
definition B64_EOLN :: u8 where "B64_EOLN = 0xF0"

(* src: crypto/base64/base64.c@87-87 B64_CR *)
definition B64_CR :: u8 where "B64_CR = 0xF1"

(* src: crypto/base64/base64.c@88-88 B64_EOF *)
definition B64_EOF :: u8 where "B64_EOF = 0xF2"

(* src: crypto/base64/base64.c@89-89 B64_WS *)
definition B64_WS :: u8 where "B64_WS = 0xE0"

(* src: crypto/base64/base64.c@90-90 B64_ERROR *)
definition B64_ERROR :: u8 where "B64_ERROR = 0xFF"

(* src: crypto/base64/base64.c@91-91 B64_NOT_BASE64 *)
definition B64_NOT_BASE64 :: "u8 \<Rightarrow> bool" where
  "B64_NOT_BASE64 a \<longleftrightarrow> a OR 0x13 = 0xF3"

lemmas b64_defs = B64_EOLN_def B64_CR_def B64_EOF_def B64_WS_def B64_ERROR_def B64_NOT_BASE64_def

section \<open>Blocks\<close>

(* src: crypto/base64/base64.c@176-182 EVP_EncodeBlock *)
definition encode_triple :: "u8 \<Rightarrow> u8 \<Rightarrow> u8 \<Rightarrow> bytes" where
  "encode_triple a b c =
     (let l = push_bit 16 (ucast a) OR push_bit 8 (ucast b) OR ucast c :: u32 in
      [conv_bin2ascii (drop_bit 18 l), conv_bin2ascii (drop_bit 12 l),
       conv_bin2ascii (drop_bit 6 l), conv_bin2ascii l])"

(* src: crypto/base64/base64.c@175-198 EVP_EncodeBlock *)
fun EVP_EncodeBlock_loop :: "bytes \<Rightarrow> bytes" where
  "EVP_EncodeBlock_loop [] = []"
| "EVP_EncodeBlock_loop [a] =
     (let l = push_bit 16 (ucast a) :: u32 in
      [conv_bin2ascii (drop_bit 18 l), conv_bin2ascii (drop_bit 12 l), 61, 61])"
| "EVP_EncodeBlock_loop [a, b] =
     (let l = push_bit 16 (ucast a) OR push_bit 8 (ucast b) :: u32 in
      [conv_bin2ascii (drop_bit 18 l), conv_bin2ascii (drop_bit 12 l), conv_bin2ascii (drop_bit 6 l), 61])"
| "EVP_EncodeBlock_loop (a # b # c # src) = encode_triple a b c @ EVP_EncodeBlock_loop src"

text \<open>The bytes stored, the terminating NUL among them, and the result.\<close>

(* src: crypto/base64/base64.c EVP_EncodeBlock *)
definition EVP_EncodeBlock :: "bytes \<Rightarrow> bytes \<times> nat" where
  "EVP_EncodeBlock src = (EVP_EncodeBlock_loop src @ [0], length (EVP_EncodeBlock_loop src))"

(* src: crypto/base64/base64.c EVP_EncodedLength *)
definition EVP_EncodedLength :: "nat \<Rightarrow> nat option" where
  "EVP_EncodedLength len =
     (if (len + 2) mod size_bound < len then None
      else
        let len = (len + 2) mod size_bound;
            len = len div 3
        in if (len * 4) mod size_bound div 4 \<noteq> len then None
           else
             let len = (len * 4) mod size_bound in
             if (len + 1) mod size_bound < len then None else Some ((len + 1) mod size_bound))"

text \<open>
  \<^verbatim>\<open>*src\<close> is read before \<open>src_len\<close> is tested, so skipping the leading white space may read the
  byte after the block.
\<close>

(* src: crypto/base64/base64.c@368-371 EVP_DecodeBlock *)
fun decode_trim_front :: "bytes \<Rightarrow> nat \<Rightarrow> (bytes \<times> nat) option" where
  "decode_trim_front [] src_len = None"
| "decode_trim_front (s # src) src_len =
     (if conv_ascii2bin s = B64_WS \<and> src_len > 0 then decode_trim_front src (src_len - 1)
      else Some (s # src, src_len))"

(* src: crypto/base64/base64.c@375-377 EVP_DecodeBlock *)
fun decode_trim_end :: "bytes \<Rightarrow> nat \<Rightarrow> nat" where
  "decode_trim_end src 0 = 0"
| "decode_trim_end src (Suc n) =
     (if Suc n > 3 \<and> B64_NOT_BASE64 (conv_ascii2bin (src ! n)) then decode_trim_end src n else Suc n)"

(* src: crypto/base64/base64.c@383-397 EVP_DecodeBlock *)
fun EVP_DecodeBlock_loop :: "bytes \<Rightarrow> bytes option" where
  "EVP_DecodeBlock_loop (p # q # r # s # src) =
     (let a = conv_ascii2bin p; b = conv_ascii2bin q; c = conv_ascii2bin r; d = conv_ascii2bin s in
      if a AND 0x80 \<noteq> 0 \<or> b AND 0x80 \<noteq> 0 \<or> c AND 0x80 \<noteq> 0 \<or> d AND 0x80 \<noteq> 0 then None
      else
        let l = push_bit 18 (ucast a) OR push_bit 12 (ucast b) OR push_bit 6 (ucast c) OR ucast d :: u32 in
        case EVP_DecodeBlock_loop src of
          None \<Rightarrow> None
        | Some rest \<Rightarrow> Some (ucast (drop_bit 16 l) # ucast (drop_bit 8 l) # ucast l # rest))"
| "EVP_DecodeBlock_loop src = Some []"

text \<open>
  \<open>src\<close> is all that may be read at the pointer; the outer \<open>None\<close> is a read beyond it, the inner
  one the result -1, and otherwise the decoded bytes, as many as the result says.
\<close>

(* src: crypto/base64/base64.c EVP_DecodeBlock *)
definition EVP_DecodeBlock :: "bytes \<Rightarrow> nat \<Rightarrow> bytes option option" where
  "EVP_DecodeBlock src src_len =
     (case decode_trim_front src src_len of
        None \<Rightarrow> None
      | Some (src, src_len) \<Rightarrow>
          (let src_len = decode_trim_end src src_len in
           if src_len mod 4 \<noteq> 0 then Some None
           else
             case EVP_DecodeBlock_loop (take src_len src) of
               None \<Rightarrow> Some None
             | Some out \<Rightarrow> if length out > 2147483647 then Some None else Some (Some out)))"

section \<open>The streaming encoder\<close>

(* src: include/openssl/base64.h@146-156 evp_encode_ctx_st *)
record encode_ctx =
  ctx_num :: nat
  ctx_length :: nat
  enc_data :: bytes
  line_num :: nat
  expect_nl :: bool

(* src: crypto/base64/base64.c EVP_EncodeInit *)
definition EVP_EncodeInit :: "encode_ctx \<Rightarrow> encode_ctx" where
  "EVP_EncodeInit ctx = ctx\<lparr>ctx_length := 48, ctx_num := 0, line_num := 0\<rparr>"

text \<open>Whole lines while there is input for one; \<open>None\<close> where that never ends.\<close>

(* src: crypto/base64/base64.c@143-151 EVP_EncodeUpdate *)
fun encode_lines :: "nat \<Rightarrow> nat \<Rightarrow> bytes \<Rightarrow> (bytes \<times> bytes) option" where
  "encode_lines 0 len inp = None"
| "encode_lines (Suc fuel) len inp =
     (if length inp \<ge> len then
        (case encode_lines fuel len (drop len inp) of
           None \<Rightarrow> None
         | Some (out, rest) \<Rightarrow>
             Some (take (snd (EVP_EncodeBlock (take len inp))) (fst (EVP_EncodeBlock (take len inp))) @ 10 # out, rest))
      else Some ([], inp))"

text \<open>
  \<^verbatim>\<open>*out_len\<close>, which is the number of bytes written, counted in an \<^verbatim>\<open>unsigned\<close> and
  converted to \<^verbatim>\<open>int\<close>; the bytes; the context.
\<close>

(* src: crypto/base64/base64.c EVP_EncodeUpdate *)
definition EVP_EncodeUpdate :: "encode_ctx \<Rightarrow> bytes \<Rightarrow> (int \<times> bytes \<times> encode_ctx) option" where
  "EVP_EncodeUpdate ctx inp =
     (if length inp = 0 then Some (0, [], ctx)
      else if \<not> ctx_length ctx \<le> 80 then None
      else if ctx_num ctx + length inp < ctx_length ctx then
        Some (0, [], ctx\<lparr>enc_data := mem_write (enc_data ctx) (ctx_num ctx) inp, ctx_num := ctx_num ctx + length inp\<rparr>)
      else
        let i = ctx_length ctx - ctx_num ctx;
            (out1, inp, ctx) =
              (if ctx_num ctx \<noteq> 0 then
                 let ctx = ctx\<lparr>enc_data := mem_write (enc_data ctx) (ctx_num ctx) (take i inp)\<rparr>;
                     (blk, j) = EVP_EncodeBlock (take (ctx_length ctx) (enc_data ctx))
                 in (take j blk @ [10], drop i inp, ctx\<lparr>ctx_num := 0\<rparr>)
               else ([], inp, ctx))
        in case encode_lines (Suc (length inp)) (ctx_length ctx) inp of
            None \<Rightarrow> None
          | Some (out2, rest) \<Rightarrow>
              Some (int_of_size (length (out1 @ out2)), out1 @ out2,
                    (if rest \<noteq> [] then ctx\<lparr>enc_data := mem_write (enc_data ctx) 0 rest\<rparr> else ctx)
                      \<lparr>ctx_num := length rest\<rparr>))"

(* src: crypto/base64/base64.c EVP_EncodeFinal *)
definition EVP_EncodeFinal :: "encode_ctx \<Rightarrow> bytes \<times> encode_ctx" where
  "EVP_EncodeFinal ctx =
     (if ctx_num ctx \<noteq> 0 then
        let (blk, ret) = EVP_EncodeBlock (take (ctx_num ctx) (enc_data ctx))
        in (take ret blk @ [10], ctx\<lparr>ctx_num := 0\<rparr>)
      else ([], ctx))"

section \<open>The streaming decoder\<close>

(* src: crypto/base64/base64.c EVP_DecodeInit *)
definition EVP_DecodeInit :: "encode_ctx \<Rightarrow> encode_ctx" where
  "EVP_DecodeInit ctx = ctx\<lparr>ctx_length := 30, ctx_num := 0, line_num := 0, expect_nl := False\<rparr>"

text \<open>
  The loop's variables; \<open>d_seof\<close> is \<^verbatim>\<open>seof\<close>, -1 as \<open>None\<close>, and \<open>d_out\<close> what has been written so
  far, of which the first \<^verbatim>\<open>ret\<close> bytes are reported.
\<close>

record decode_vars =
  d_n :: nat
  d_data :: bytes
  d_ln :: nat
  d_exp_nl :: bool
  d_seof :: "nat option"
  d_eof :: nat
  d_ret :: u32
  d_out :: bytes
  d_length :: int

datatype decode_step = Continue decode_vars | Return int decode_vars

text \<open>\<^verbatim>\<open>d[n - k]\<close> with the unsigned \<open>n\<close>: below 0 it wraps far beyond the 80 bytes.\<close>

definition d_at :: "decode_vars \<Rightarrow> nat \<Rightarrow> u8 option" where
  "d_at x k = (if k \<le> d_n x \<and> d_n x - k < length (d_data x) then Some (d_data x ! (d_n x - k)) else None)"

text \<open>
  Storing the character and counting the \<^verbatim>\<open>=\<close> signs; \<open>None\<close> is a failed
  assertion, a \<open>Return\<close> one of the error exits.
\<close>

(* src: crypto/base64/base64.c@230-261 EVP_DecodeUpdate *)
definition decode_store :: "decode_vars \<Rightarrow> u8 \<Rightarrow> decode_step option" where
  "decode_store x tmp =
     (if d_ln x \<ge> 80 then Some (Return (-1) x)
      else
        let v = conv_ascii2bin tmp in
        if \<not> B64_NOT_BASE64 v \<and> \<not> d_n x < 80 then None
        else if B64_NOT_BASE64 v \<and> v = B64_ERROR then Some (Return (-1) x)
        else
          let x = (if \<not> B64_NOT_BASE64 v
                   then x\<lparr>d_data := (d_data x)[d_n x := tmp], d_n := d_n x + 1, d_ln := d_ln x + 1\<rparr> else x)
          in if tmp = 61 then
               let x = x\<lparr>d_seof := (if d_seof x = None then Some (d_n x) else d_seof x), d_eof := d_eof x + 1\<rparr>
               in if d_eof x > 2 then Some (Return (-1) x) else Some (Continue x)
             else Some (Continue x))"

text \<open>A line, or what is buffered at the end of the input, decoded.\<close>

(* src: crypto/base64/base64.c@299-332 EVP_DecodeUpdate *)
definition decode_flush :: "decode_vars \<Rightarrow> u8 \<Rightarrow> decode_step option" where
  "decode_flush x v =
     (let x = (if v \<noteq> B64_EOF \<and> d_n x \<ge> 64 then x\<lparr>d_exp_nl := True\<rparr> else x);
          r = (if d_n x > 0 then
                 (case EVP_DecodeBlock (d_data x) (d_n x) of
                    None \<Rightarrow> None
                  | Some None \<Rightarrow> Some (Inl (x\<lparr>d_n := 0\<rparr>))
                  | Some (Some out) \<Rightarrow>
                      Some (Inr (int (length out),
                        x\<lparr>d_n := 0, d_ret := d_ret x + word_of_int (int (length out) - int (d_eof x)),
                          d_out := d_out x @ out\<rparr>)))
               else Some (Inr (0, x\<lparr>d_eof := 1\<rparr>)))
      in case r of
          None \<Rightarrow> None
        | Some (Inl x) \<Rightarrow> Some (Return 0 x)
        | Some (Inr (v, x)) \<Rightarrow>
            (if v < d_length x \<and> d_eof x \<noteq> 0 then Some (Return 0 x)
             else
               let x = x\<lparr>d_length := v\<rparr> in
               if d_seof x \<noteq> None then Some (Return 0 x) else Some (Continue x)))"

text \<open>
  One character; \<open>last\<close> says that it is the last of the input, \<^verbatim>\<open>(i + 1) == in_len\<close>.
\<close>

(* src: crypto/base64/base64.c@228-333 EVP_DecodeUpdate *)
definition decode_char :: "decode_vars \<Rightarrow> u8 \<Rightarrow> bool \<Rightarrow> decode_step option" where
  "decode_char x tmp is_last =
     (case decode_store x tmp of
        None \<Rightarrow> None
      | Some (Return r x) \<Rightarrow> Some (Return r x)
      | Some (Continue x) \<Rightarrow>
          (let v = conv_ascii2bin tmp;
               x = (if v = B64_CR then x\<lparr>d_ln := 0\<rparr> else x) in
           if v = B64_CR \<and> d_exp_nl x then Some (Continue x)
           else
             let x = (if v = B64_EOLN then x\<lparr>d_ln := 0\<rparr> else x) in
             if v = B64_EOLN \<and> d_exp_nl x then Some (Continue (x\<lparr>d_exp_nl := False\<rparr>))
             else
               let x = x\<lparr>d_exp_nl := False\<rparr>;
                   redo = is_last \<and> (d_n x mod 4 = 0 \<or> d_eof x \<noteq> 0);
                   y = (if redo then
                          (case (d_at x 1, d_at x 2) of
                             (Some p, Some q) \<Rightarrow>
                               Some (x\<lparr>d_eof := (if p = 61 then 1 else 0) + (if q = 61 then 1 else 0)\<rparr>)
                           | _ \<Rightarrow> None)
                        else Some x);
                   v = (if redo then B64_EOF else v)
               in case y of
                   None \<Rightarrow> None
                 | Some x \<Rightarrow>
                     (if (v = B64_EOF \<and> d_n x mod 4 = 0) \<or> d_n x \<ge> 64 then decode_flush x v
                      else Some (Continue x))))"

text \<open>
  The loop over fewer than 2^32 characters.  Its counter is an \<^verbatim>\<open>unsigned\<close>: over more, it
  wraps to 0 before it reaches the size_t length, no character counts as the last, and unless an
  exit comes before, the loop reads on behind the input.
\<close>

(* src: crypto/base64/base64.c@228-335 EVP_DecodeUpdate *)
fun decode_loop :: "decode_vars \<Rightarrow> bytes \<Rightarrow> (int \<times> decode_vars) option" where
  "decode_loop x [] = Some (1, x)"
| "decode_loop x (tmp # inp) =
     (case decode_char x tmp (inp = []) of
        None \<Rightarrow> None
      | Some (Return r x) \<Rightarrow> Some (r, x)
      | Some (Continue x) \<Rightarrow> decode_loop x inp)"

(* src: crypto/base64/base64.c@228-335 EVP_DecodeUpdate *)
fun decode_loop_wrapped :: "decode_vars \<Rightarrow> bytes \<Rightarrow> (int \<times> decode_vars) option" where
  "decode_loop_wrapped x [] = None"
| "decode_loop_wrapped x (tmp # inp) =
     (case decode_char x tmp False of
        None \<Rightarrow> None
      | Some (Return r x) \<Rightarrow> Some (r, x)
      | Some (Continue x) \<Rightarrow> decode_loop_wrapped x inp)"

text \<open>The result, \<open>*out_len\<close>, the bytes written and the context.\<close>

(* src: crypto/base64/base64.c EVP_DecodeUpdate *)
definition EVP_DecodeUpdate :: "encode_ctx \<Rightarrow> bytes \<Rightarrow> (int \<times> int \<times> bytes \<times> encode_ctx) option" where
  "EVP_DecodeUpdate ctx inp =
     (let x = \<lparr>d_n = ctx_num ctx, d_data = enc_data ctx, d_ln = line_num ctx, d_exp_nl = expect_nl ctx,
               d_seof = None, d_eof = 0, d_ret = 0, d_out = [], d_length = int (ctx_length ctx)\<rparr>;
          r = (if inp = [] then Some (0, x)
               else if d_n x = 0 \<and> conv_ascii2bin (hd inp) = B64_EOF then Some (0, x)
               else if length inp < 4294967296 then decode_loop x inp
               else decode_loop_wrapped x inp)
      in case r of
          None \<Rightarrow> None
        | Some (rv, x) \<Rightarrow>
            Some (rv, sint (d_ret x), d_out x,
              \<lparr>ctx_num = d_n x, ctx_length = nat (d_length x), enc_data = d_data x, line_num = d_ln x,
               expect_nl = d_exp_nl x\<rparr>))"

(* src: crypto/base64/base64.c EVP_DecodeFinal *)
definition EVP_DecodeFinal :: "encode_ctx \<Rightarrow> (int \<times> bytes \<times> encode_ctx) option" where
  "EVP_DecodeFinal ctx =
     (if ctx_num ctx \<noteq> 0 then
        (case EVP_DecodeBlock (enc_data ctx) (ctx_num ctx) of
           None \<Rightarrow> None
         | Some None \<Rightarrow> Some (-1, [], ctx)
         | Some (Some out) \<Rightarrow> Some (1, out, ctx\<lparr>ctx_num := 0\<rparr>))
      else Some (1, [], ctx))"

section \<open>Sextets\<close>

text \<open>Four sextets of a 24-bit number put it together again.\<close>

lemma quad_of_sextets:
  fixes l :: u32
  assumes "\<And>n. 24 \<le> n \<Longrightarrow> \<not> bit l n"
  shows "push_bit 18 (ucast (ucast (drop_bit 18 l AND mask 6) :: u8)) OR
     push_bit 12 (ucast (ucast (drop_bit 12 l AND mask 6) :: u8)) OR
     push_bit 6 (ucast (ucast (drop_bit 6 l AND mask 6) :: u8)) OR ucast (ucast (l AND mask 6) :: u8) = l"
proof (rule bit_word_eqI)
  fix n assume n: "n < LENGTH(32)"
  have b: "bit (ucast (ucast (drop_bit k l AND mask 6) :: u8) :: u32) m \<longleftrightarrow> m < 6 \<and> bit l (k + m)" for k m
    by (auto simp: bit_simps)
  have "bit (push_bit k (ucast (ucast (drop_bit k l AND mask 6) :: u8)) :: u32) n \<longleftrightarrow> k \<le> n \<and> n < k + 6 \<and> bit l n" for k
    unfolding bit_push_bit_iff b using n by auto
  note p = this
  have p0: "bit (ucast (ucast (l AND mask 6) :: u8) :: u32) n \<longleftrightarrow> n < 6 \<and> bit l n"
    using b [of 0 n] by simp
  have "bit l n \<Longrightarrow> n < 24" using assms [of n] by linarith
  then show "bit (push_bit 18 (ucast (ucast (drop_bit 18 l AND mask 6) :: u8)) OR
     push_bit 12 (ucast (ucast (drop_bit 12 l AND mask 6) :: u8)) OR
     push_bit 6 (ucast (ucast (drop_bit 6 l AND mask 6) :: u8)) OR ucast (ucast (l AND mask 6) :: u8) :: u32) n = bit l n"
    unfolding bit_or_iff p p0 by auto
qed

abbreviation triple_word :: "u8 \<Rightarrow> u8 \<Rightarrow> u8 \<Rightarrow> u32" where
  "triple_word a b c \<equiv> push_bit 16 (ucast a) OR push_bit 8 (ucast b) OR ucast c"

lemma triple_word_bytes:
  "ucast (drop_bit 16 (triple_word a b c)) = a" "ucast (drop_bit 8 (triple_word a b c)) = b"
  "ucast (triple_word a b c) = c" "24 \<le> n \<Longrightarrow> \<not> bit (triple_word a b c) n"
proof -
  have z: "\<not> bit x n" if "8 \<le> n" for x :: u8 and n using that bit_imp_le_length [of x n] by auto
  show "ucast (drop_bit 16 (triple_word a b c)) = a" by (rule bit_word_eqI) (auto simp: bit_simps z)
  show "ucast (drop_bit 8 (triple_word a b c)) = b" by (rule bit_word_eqI) (auto simp: bit_simps z)
  show "ucast (triple_word a b c) = c" by (rule bit_word_eqI) (auto simp: bit_simps)
  show "24 \<le> n \<Longrightarrow> \<not> bit (triple_word a b c) n" by (auto simp: bit_simps z)
qed

lemma sextet_63: "(w :: u32) AND 0x3f = w AND mask 6"
  by (simp add: mask_eq_exp_minus_1)

text \<open>The two tables are inverse to each other.\<close>

lemma tables_inverse_all: "list_all (\<lambda>i. conv_ascii2bin (data_bin2ascii ! i) = word_of_nat i) [0..<64]"
  by code_simp

lemma alphabet_all:
  "list_all (\<lambda>c. c \<noteq> 61 \<and> \<not> B64_NOT_BASE64 (conv_ascii2bin c) \<and> conv_ascii2bin c \<noteq> B64_EOF \<and>
     conv_ascii2bin c \<noteq> B64_WS \<and> conv_ascii2bin c \<noteq> B64_CR \<and> conv_ascii2bin c \<noteq> B64_EOLN \<and>
     conv_ascii2bin c AND 0x80 = 0) data_bin2ascii"
  by code_simp

lemma equals_sign:
  "conv_ascii2bin 61 = 0" "\<not> B64_NOT_BASE64 0"
  by code_simp+

lemma newline: "conv_ascii2bin 10 = B64_EOLN" "B64_NOT_BASE64 B64_EOLN" "B64_EOLN \<noteq> B64_ERROR"
    "B64_EOLN \<noteq> B64_CR" "B64_EOLN \<noteq> B64_EOF"
  by code_simp+

lemma length_data_bin2ascii [simp]: "length data_bin2ascii = 64"
  by (simp add: data_bin2ascii_def)

lemma unat_sextet: "unat (w AND 0x3f :: u32) < 64"
  using and_mask_unat [of w 6] by (simp add: mask_eq_exp_minus_1)

lemma conv_inverse: "conv_ascii2bin (conv_bin2ascii w) = ucast (w AND mask 6)"
proof -
  have "conv_ascii2bin (conv_bin2ascii w) = word_of_nat (unat (w AND 0x3f))"
    using tables_inverse_all unat_sextet [of w] unfolding conv_bin2ascii_def list_all_iff by simp
  then show ?thesis by (simp add: sextet_63 [symmetric])
qed

lemma conv_in_alphabet: "conv_bin2ascii w \<in> set data_bin2ascii"
  unfolding conv_bin2ascii_def by (rule nth_mem) (simp add: unat_sextet)

lemma alphabetD:
  assumes "c \<in> set data_bin2ascii"
  shows "c \<noteq> 61" "\<not> B64_NOT_BASE64 (conv_ascii2bin c)" "conv_ascii2bin c \<noteq> B64_EOF" "conv_ascii2bin c \<noteq> B64_WS"
    "conv_ascii2bin c \<noteq> B64_CR" "conv_ascii2bin c \<noteq> B64_EOLN" "conv_ascii2bin c AND 0x80 = 0"
  using alphabet_all assms by (auto simp: list_all_iff)

lemma sextet_no_top_bit: "(ucast ((w :: u32) AND mask 6) :: u8) AND 0x80 = 0"
  using alphabetD(7) [OF conv_in_alphabet [of w]] by (simp add: conv_inverse)

text \<open>One quadruple decodes to the three bytes whose sextets its characters stand for.\<close>

lemma decode_quad:
  assumes "conv_ascii2bin p = ucast (drop_bit 18 (triple_word a b c) AND mask 6)"
    "conv_ascii2bin q = ucast (drop_bit 12 (triple_word a b c) AND mask 6)"
    "conv_ascii2bin r = ucast (drop_bit 6 (triple_word a b c) AND mask 6)"
    "conv_ascii2bin s = ucast (triple_word a b c AND mask 6)"
  shows "EVP_DecodeBlock_loop (p # q # r # s # src) = map_option (\<lambda>rest. a # b # c # rest) (EVP_DecodeBlock_loop src)"
proof -
  let ?l = "triple_word a b c"
  have l: "push_bit 18 (ucast (conv_ascii2bin p)) OR push_bit 12 (ucast (conv_ascii2bin q)) OR
      push_bit 6 (ucast (conv_ascii2bin r)) OR ucast (conv_ascii2bin s) = ?l"
    unfolding assms by (rule quad_of_sextets) (rule triple_word_bytes(4))
  show ?thesis
    unfolding EVP_DecodeBlock_loop.simps Let_def l triple_word_bytes(1-3)
    by (simp add: assms sextet_no_top_bit split: option.split)
qed

lemma decode_encode_loop:
  "EVP_DecodeBlock_loop (EVP_EncodeBlock_loop s) = Some (s @ replicate ((3 - length s mod 3) mod 3) 0)"
proof (induction s rule: EVP_EncodeBlock_loop.induct)
  case (2 a)
  have z: "triple_word a 0 0 = push_bit 16 (ucast a)" by simp
  have "drop_bit 6 (push_bit 16 (ucast a) :: u32) AND mask 6 = 0" "(push_bit 16 (ucast a) :: u32) AND mask 6 = 0"
    by (rule bit_word_eqI, auto simp: bit_simps)+
  then show ?case
    using decode_quad [of "conv_bin2ascii (drop_bit 18 (triple_word a 0 0))" a 0 0
        "conv_bin2ascii (drop_bit 12 (triple_word a 0 0))" 61 61 "[]"]
    by (simp add: Let_def conv_inverse equals_sign numeral_2_eq_2)
next
  case (3 a b)
  have "(push_bit 16 (ucast a) OR push_bit 8 (ucast b) :: u32) AND mask 6 = 0"
    by (rule bit_word_eqI) (auto simp: bit_simps)
  then show ?case
    using decode_quad [of "conv_bin2ascii (drop_bit 18 (triple_word a b 0))" a b 0
        "conv_bin2ascii (drop_bit 12 (triple_word a b 0))" "conv_bin2ascii (drop_bit 6 (triple_word a b 0))" 61 "[]"]
    by (simp add: Let_def conv_inverse equals_sign)
next
  case (4 a b c src)
  have "Suc (Suc (Suc (length src))) mod 3 = length src mod 3" by presburger
  with 4 show ?case
    using decode_quad [of "conv_bin2ascii (drop_bit 18 (triple_word a b c))" a b c
        "conv_bin2ascii (drop_bit 12 (triple_word a b c))" "conv_bin2ascii (drop_bit 6 (triple_word a b c))"
        "conv_bin2ascii (triple_word a b c)" "EVP_EncodeBlock_loop src"]
    by (simp add: encode_triple_def Let_def conv_inverse)
qed simp

section \<open>Blocks, encoded and decoded\<close>

lemma length_encode_loop: "length (EVP_EncodeBlock_loop s) = 4 * ((length s + 2) div 3)"
proof (induction s rule: EVP_EncodeBlock_loop.induct)
  case (4 a b c src)
  have "(length (a # b # c # src) + 2) div 3 = Suc ((length src + 2) div 3)" by simp
  with 4 show ?case by (simp add: encode_triple_def Let_def)
qed (simp_all add: Let_def)

lemma encode_loop_chars: "c \<in> set (EVP_EncodeBlock_loop s) \<Longrightarrow> c \<in> set data_bin2ascii \<or> c = 61"
  by (induction s rule: EVP_EncodeBlock_loop.induct) (auto simp: Let_def conv_in_alphabet encode_triple_def)

lemma encode_char_ok:
  assumes "c \<in> set (EVP_EncodeBlock_loop s)"
  shows "\<not> B64_NOT_BASE64 (conv_ascii2bin c)" "conv_ascii2bin c \<noteq> B64_WS"
proof -
  have "(0 :: u8) \<noteq> B64_WS" by (simp add: B64_WS_def)
  then show "\<not> B64_NOT_BASE64 (conv_ascii2bin c)" "conv_ascii2bin c \<noteq> B64_WS"
    using encode_loop_chars [OF assms] alphabetD(2,4) equals_sign by auto
qed

lemma decode_trim_end_stop:
  "0 < n \<Longrightarrow> \<not> B64_NOT_BASE64 (conv_ascii2bin (src ! (n - 1))) \<Longrightarrow> decode_trim_end src n = n"
  by (cases n) auto

text \<open>A block that is an encoding, with anything after it, decodes to the input and the padding.\<close>

lemma decode_encode_block:
  assumes n: "n = length (EVP_EncodeBlock_loop s)" and ne: "n = 0 \<longrightarrow> conv_ascii2bin x \<noteq> B64_WS"
    and l: "length s \<le> 2147483640"
  shows "EVP_DecodeBlock (EVP_EncodeBlock_loop s @ x # rest) n
       = Some (Some (s @ replicate ((3 - length s mod 3) mod 3) 0))"
proof -
  let ?e = "EVP_EncodeBlock_loop s"
  let ?src = "?e @ x # rest"
  have hd: "conv_ascii2bin (hd ?src) \<noteq> B64_WS" using ne n encode_char_ok(2) [of _ s] by (cases ?e) auto
  have f: "decode_trim_front ?src n = Some (?src, n)"
    using hd by (cases ?src) auto
  have t: "decode_trim_end ?src n = n"
  proof (cases "n = 0")
    case False
    then have "?src ! (n - 1) = last ?e" "last ?e \<in> set ?e" using n by (auto simp: nth_append last_conv_nth)
    then show ?thesis using False encode_char_ok(1) by (intro decode_trim_end_stop) auto
  qed simp
  have m: "n mod 4 = 0" by (simp add: n length_encode_loop)
  have "length s + (3 - length s mod 3) mod 3 \<le> 2147483647"
    using l by (auto intro: add_mono [of _ 2147483640 _ 3, THEN order_trans])
  then show ?thesis using f t m by (simp add: EVP_DecodeBlock_def Let_def n decode_encode_loop)
qed

text \<open>
  EVP_DecodeBlock inverts EVP_EncodeBlock: it returns the original bytes, followed by the zero
  bytes that stand for the padding, up to the size an \<^verbatim>\<open>int\<close> result can report; and
  EVP_EncodeBlock writes four characters for every three bytes or part of them.
\<close>
theorem base64_block_roundtrip:
  assumes "length s \<le> 2147483640"
  shows "EVP_DecodeBlock (fst (EVP_EncodeBlock s)) (snd (EVP_EncodeBlock s))
       = Some (Some (s @ replicate ((3 - length s mod 3) mod 3) 0)) \<and>
    snd (EVP_EncodeBlock s) = 4 * ((length s + 2) div 3)"
proof -
  have "conv_ascii2bin 0 \<noteq> B64_WS" by code_simp
  then show ?thesis
    using decode_encode_block [OF refl _ assms, of 0 "[]"] by (simp add: EVP_EncodeBlock_def length_encode_loop)
qed

lemma base64_block_roundtrip_witness:
  "EVP_DecodeBlock (fst (EVP_EncodeBlock [77, 97, 110, 33])) (snd (EVP_EncodeBlock [77, 97, 110, 33]))
     = Some (Some [77, 97, 110, 33, 0, 0])"
  using conjunct1 [OF base64_block_roundtrip [of "[77, 97, 110, 33]"]] by (simp add: numeral_2_eq_2)

lemma EVP_EncodedLength_formula:
  assumes "len < size_bound"
  shows "EVP_EncodedLength len
       = (if 4 * ((len + 2) div 3) + 1 < size_bound then Some (4 * ((len + 2) div 3) + 1) else None)"
proof (cases "len + 2 < size_bound")
  case False
  then have "len + 2 = size_bound \<or> len + 2 = size_bound + 1" using assms by linarith
  then have "(len + 2) mod size_bound < len" "\<not> 4 * ((len + 2) div 3) + 1 < size_bound" by auto
  then show ?thesis by (simp only: EVP_EncodedLength_def if_True if_False)
next
  case True
  define m where "m = (len + 2) div 3"
  have a: "(len + 2) mod size_bound = len + 2" using True by (rule mod_less)
  show ?thesis
  proof (cases "4 * m < size_bound")
    case True
    then have b: "(m * 4) mod size_bound = m * 4" by (intro mod_less) simp
    have c: "m * 4 div 4 = m" by simp
    have d: "m * 4 + 1 < size_bound"
    proof -
      have "m * 4 + 1 \<noteq> size_bound" by presburger
      then show ?thesis using True by linarith
    qed
    then have "(m * 4 + 1) mod size_bound = m * 4 + 1" by (rule mod_less)
    then show ?thesis using d unfolding EVP_EncodedLength_def Let_def a m_def [symmetric] b c by simp
  next
    case False
    have "(m * 4) mod size_bound div 4 \<noteq> m"
    proof
      assume "(m * 4) mod size_bound div 4 = m"
      moreover have "(m * 4) mod size_bound < size_bound" by simp
      moreover have "(m * 4) mod size_bound div 4 * 4 \<le> (m * 4) mod size_bound" by (rule div_times_less_eq_dividend)
      ultimately show False using False by (simp only: mult.commute)
    qed
    then show ?thesis using False unfolding EVP_EncodedLength_def Let_def a m_def [symmetric] by simp
  qed
qed

text \<open>
  C40: EVP_EncodedLength is exactly what EVP_EncodeBlock needs.  For every input, it returns the
  number of bytes EVP_EncodeBlock writes for an input of that length, the characters it reports and
  the NUL after them, and it fails exactly when that number does not fit a size_t.
\<close>
theorem EVP_EncodedLength_exact:
  assumes "length src < size_bound"
  shows "EVP_EncodedLength (length src) =
      (if length (fst (EVP_EncodeBlock src)) < size_bound then Some (length (fst (EVP_EncodeBlock src))) else None)
    \<and> length (fst (EVP_EncodeBlock src)) = snd (EVP_EncodeBlock src) + 1
    \<and> fst (EVP_EncodeBlock src) ! snd (EVP_EncodeBlock src) = 0"
  using EVP_EncodedLength_formula [OF assms]
  by (simp add: EVP_EncodeBlock_def length_encode_loop nth_append)

lemma EVP_EncodedLength_exact_witness:
  "EVP_EncodedLength 10 = Some 17 \<and> length (fst (EVP_EncodeBlock (replicate 10 7))) = 17"
  using EVP_EncodedLength_exact [of "replicate 10 7"] EVP_EncodedLength_formula [of 10]
  by (simp add: EVP_EncodeBlock_def length_encode_loop)

section \<open>The streaming encoder and lines\<close>

text \<open>The specification: lines of 48 bytes, each encoded and ended by a newline.\<close>

function b64_lines :: "bytes \<Rightarrow> bytes" where
  "b64_lines s = (if s = [] then [] else EVP_EncodeBlock_loop (take 48 s) @ 10 # b64_lines (drop 48 s))"
  by auto
termination by (relation "measure length") auto

declare b64_lines.simps [simp del]

lemma b64_lines_Nil [simp]: "b64_lines [] = []"
  by (simp add: b64_lines.simps)

lemma b64_lines_full: "length xs = 48 \<Longrightarrow> b64_lines (xs @ ys) = EVP_EncodeBlock_loop xs @ 10 # b64_lines ys"
  by (subst b64_lines.simps) auto

lemma b64_lines_short: "xs \<noteq> [] \<Longrightarrow> length xs \<le> 48 \<Longrightarrow> b64_lines xs = EVP_EncodeBlock_loop xs @ [10]"
  by (subst b64_lines.simps) auto

lemma take_EncodeBlock: "take (snd (EVP_EncodeBlock s)) (fst (EVP_EncodeBlock s)) = EVP_EncodeBlock_loop s"
  by (simp add: EVP_EncodeBlock_def)

lemma encode_lines_ok:
  "length inp < fuel \<Longrightarrow> \<exists>out rest. encode_lines fuel 48 inp = Some (out, rest) \<and> length rest < 48 \<and>
     length rest \<le> length inp \<and> (\<forall>ys. out @ b64_lines (rest @ ys) = b64_lines (inp @ ys))"
proof (induction fuel arbitrary: inp)
  case (Suc fuel)
  show ?case
  proof (cases "length inp \<ge> 48")
    case True
    obtain out rest where r: "encode_lines fuel 48 (drop 48 inp) = Some (out, rest)" "length rest < 48"
        "length rest \<le> length (drop 48 inp)" "\<forall>ys. out @ b64_lines (rest @ ys) = b64_lines (drop 48 inp @ ys)"
      using Suc.IH [of "drop 48 inp"] Suc.prems True by fastforce
    have "b64_lines (inp @ ys) = EVP_EncodeBlock_loop (take 48 inp) @ 10 # b64_lines (drop 48 inp @ ys)" for ys
      using b64_lines_full [of "take 48 inp" "drop 48 inp @ ys"] True by (simp add: append_assoc [symmetric])
    then show ?thesis using r True by (simp add: take_EncodeBlock)
  qed simp
qed simp

declare encode_lines.simps [simp del]

definition encoding :: "encode_ctx \<Rightarrow> bool" where
  "encoding ctx \<longleftrightarrow> ctx_length ctx = 48 \<and> ctx_num ctx < 48 \<and> length (enc_data ctx) = 80"

definition pending :: "encode_ctx \<Rightarrow> bytes" where
  "pending ctx = take (ctx_num ctx) (enc_data ctx)"

lemma EVP_EncodeUpdate_ok:
  assumes c: "encoding ctx"
  shows "\<exists>out ctx'. EVP_EncodeUpdate ctx inp = Some (int_of_size (length out), out, ctx') \<and> encoding ctx' \<and>
    (\<forall>ys. out @ b64_lines (pending ctx' @ ys) = b64_lines (pending ctx @ inp @ ys))"
proof -
  have cs: "ctx_length ctx = 48" "ctx_num ctx < 48" "length (enc_data ctx) = 80" using c by (auto simp: encoding_def)
  consider "inp = []" | "inp \<noteq> []" "ctx_num ctx + length inp < 48" | "inp \<noteq> []" "ctx_num ctx + length inp \<ge> 48"
    by linarith
  then show ?thesis
  proof cases
    case 1
    then show ?thesis using c by (simp add: EVP_EncodeUpdate_def int_of_size_small)
  next
    case 2
    let ?c = "ctx\<lparr>enc_data := mem_write (enc_data ctx) (ctx_num ctx) inp, ctx_num := ctx_num ctx + length inp\<rparr>"
    have "take (ctx_num ctx + length inp) (mem_write (enc_data ctx) (ctx_num ctx) inp) = pending ctx @ inp"
      unfolding pending_def by (rule take_mem_write_upto) (use cs in simp)
    then have "pending ?c = pending ctx @ inp" by (simp add: pending_def)
    moreover have "encoding ?c" using 2 cs by (simp add: encoding_def)
    ultimately show ?thesis using 2 cs by (simp add: EVP_EncodeUpdate_def int_of_size_small)
  next
    case 3
    let ?i = "48 - ctx_num ctx"
    have tail: "\<exists>out ctx'. (case encode_lines (Suc (length inp')) 48 inp' of None \<Rightarrow> None
        | Some (out2, rest) \<Rightarrow> Some (int_of_size (length (pre @ out2)), pre @ out2,
            (if rest \<noteq> [] then d\<lparr>enc_data := mem_write (enc_data d) 0 rest\<rparr> else d)\<lparr>ctx_num := length rest\<rparr>))
          = Some (int_of_size (length out), out, ctx') \<and> encoding ctx' \<and> (\<forall>ys. out @ b64_lines (pending ctx' @ ys) = pre @ b64_lines (inp' @ ys))"
      if d: "ctx_length d = 48" "length (enc_data d) = 80" for inp' pre d
    proof -
      obtain out rest where r: "encode_lines (Suc (length inp')) 48 inp' = Some (out, rest)" "length rest < 48"
          "\<forall>ys. out @ b64_lines (rest @ ys) = b64_lines (inp' @ ys)"
        using encode_lines_ok [of inp' "Suc (length inp')"] by auto
      let ?d = "(if rest \<noteq> [] then d\<lparr>enc_data := mem_write (enc_data d) 0 rest\<rparr> else d)\<lparr>ctx_num := length rest\<rparr>"
      have "take (length rest) (mem_write (enc_data d) 0 rest) = rest"
        using take_mem_write_upto [of 0 "enc_data d" rest] by simp
      then have "pending ?d = rest" by (simp add: pending_def)
      moreover have "encoding ?d" using r d by (simp add: encoding_def)
      ultimately show ?thesis using r by simp
    qed
    show ?thesis
    proof (cases "ctx_num ctx = 0")
      case True
      have "EVP_EncodeUpdate ctx inp = (case encode_lines (Suc (length inp)) 48 inp of None \<Rightarrow> None
          | Some (out2, rest) \<Rightarrow> Some (int_of_size (length ([] @ out2)), [] @ out2,
              (if rest \<noteq> [] then ctx\<lparr>enc_data := mem_write (enc_data ctx) 0 rest\<rparr> else ctx)\<lparr>ctx_num := length rest\<rparr>))"
        using 3 cs True by (simp add: EVP_EncodeUpdate_def)
      then show ?thesis using tail [OF cs(1,3), where inp' = inp and pre = "[]"] True by (simp add: pending_def)
    next
      case False
      let ?d = "mem_write (enc_data ctx) (ctx_num ctx) (take ?i inp)"
      have il: "length (take ?i inp) = ?i" using 3 by simp
      have "take (ctx_num ctx + length (take ?i inp)) ?d = pending ctx @ take ?i inp"
        unfolding pending_def by (rule take_mem_write_upto) (use cs in simp)
      then have p: "take 48 ?d = pending ctx @ take ?i inp" unfolding il using cs by simp
      have ld: "length ?d = 80" using cs il by simp
      have e: "EVP_EncodeUpdate ctx inp = (case encode_lines (Suc (length (drop ?i inp))) 48 (drop ?i inp) of None \<Rightarrow> None
          | Some (out2, rest) \<Rightarrow> Some (int_of_size (length ((EVP_EncodeBlock_loop (take 48 ?d) @ [10]) @ out2)), (EVP_EncodeBlock_loop (take 48 ?d) @ [10]) @ out2,
              (if rest \<noteq> [] then ctx\<lparr>enc_data := ?d, ctx_num := 0\<rparr>
                  \<lparr>enc_data := mem_write (enc_data (ctx\<lparr>enc_data := ?d, ctx_num := 0\<rparr>)) 0 rest\<rparr>
               else ctx\<lparr>enc_data := ?d, ctx_num := 0\<rparr>)\<lparr>ctx_num := length rest\<rparr>))"
        using 3 cs False by (simp add: EVP_EncodeUpdate_def Let_def EVP_EncodeBlock_def)
      have l48: "length (pending ctx @ take ?i inp) = 48" using cs il by (simp add: pending_def)
      have key: "b64_lines (pending ctx @ inp @ ys)
          = (EVP_EncodeBlock_loop (take 48 ?d) @ [10]) @ b64_lines (drop ?i inp @ ys)" for ys
      proof -
        have eq: "pending ctx @ inp @ ys = (pending ctx @ take ?i inp) @ (drop ?i inp @ ys)"
          by (metis append.assoc append_take_drop_id)
        show ?thesis unfolding eq p b64_lines_full [OF l48] by simp
      qed
      have "ctx_length (ctx\<lparr>enc_data := ?d, ctx_num := 0\<rparr>) = 48"
          "length (enc_data (ctx\<lparr>enc_data := ?d, ctx_num := 0\<rparr>)) = 80" using cs ld by simp_all
      from tail [OF this, where inp' = "drop ?i inp" and pre = "EVP_EncodeBlock_loop (take 48 ?d) @ [10]"]
      show ?thesis unfolding e key .
    qed
  qed
qed

text \<open>A whole encoding: any number of updates, then the final call.\<close>

fun encode_run :: "encode_ctx \<Rightarrow> bytes list \<Rightarrow> bytes option" where
  "encode_run ctx [] = Some (fst (EVP_EncodeFinal ctx))"
| "encode_run ctx (chunk # chunks) =
     (case EVP_EncodeUpdate ctx chunk of
        None \<Rightarrow> None
      | Some (out_len, out, ctx) \<Rightarrow> map_option (\<lambda>rest. out @ rest) (encode_run ctx chunks))"

lemma encode_run_ok:
  "encoding ctx \<Longrightarrow> encode_run ctx chunks = Some (b64_lines (pending ctx @ concat chunks))"
proof (induction chunks arbitrary: ctx)
  case Nil
  have "take (ctx_num ctx) (enc_data ctx) = [] \<longleftrightarrow> ctx_num ctx = 0" using Nil by (auto simp: encoding_def)
  then show ?case using Nil b64_lines_short [of "pending ctx"]
    by (auto simp: EVP_EncodeFinal_def pending_def EVP_EncodeBlock_def encoding_def)
next
  case (Cons chunk chunks)
  obtain n out ctx' where u: "EVP_EncodeUpdate ctx chunk = Some (n, out, ctx')" "encoding ctx'"
      "\<forall>ys. out @ b64_lines (pending ctx' @ ys) = b64_lines (pending ctx @ chunk @ ys)"
    using EVP_EncodeUpdate_ok [OF Cons.prems] by blast
  then show ?case using Cons.IH [OF u(2)] by simp
qed

text \<open>
  The streaming encoder's output does not depend on how the input is cut up: any sequence of
  EVP_EncodeUpdate calls and EVP_EncodeFinal produce the input's 48-byte lines, each encoded by
  EVP_EncodeBlock and ended by a newline.
\<close>
theorem base64_stream_encodes_lines:
  assumes "length (enc_data ctx) = 80"
  shows "encode_run (EVP_EncodeInit ctx) chunks = Some (b64_lines (concat chunks))"
  using encode_run_ok [of "EVP_EncodeInit ctx" chunks] assms by (simp add: encoding_def EVP_EncodeInit_def pending_def)

lemma base64_stream_encodes_lines_witness:
  "encode_run (EVP_EncodeInit \<lparr>ctx_num = 5, ctx_length = 0, enc_data = replicate 80 0, line_num = 0, expect_nl = False\<rparr>)
     [[77], [97, 110]] = Some (b64_lines [77, 97, 110])"
  using base64_stream_encodes_lines [of "\<lparr>ctx_num = 5, ctx_length = 0, enc_data = replicate 80 0, line_num = 0, expect_nl = False\<rparr>"
      "[[77], [97, 110]]"] by simp

section \<open>The streaming decoder\<close>

text \<open>
  EVP_DecodeUpdate reads outside \<^verbatim>\<open>enc_data\<close> when its input is a single character that is
  not base64 data (a newline, say) and nothing is buffered: at the end of the input it looks at
  \<^verbatim>\<open>d[n - 1]\<close> with the unsigned \<open>n\<close> equal to 0.
\<close>
theorem decode_update_out_of_bounds:
  assumes "ctx_num ctx = 0" "line_num ctx < 80" "\<not> expect_nl ctx"
    and "B64_NOT_BASE64 (conv_ascii2bin c)" "conv_ascii2bin c \<noteq> B64_EOF"
  shows "EVP_DecodeUpdate ctx [c] = None"
proof -
  have ne: "conv_ascii2bin c \<noteq> B64_ERROR" using assms(4) by (auto simp: b64_defs)
  have "c \<noteq> 61" using assms(4) equals_sign by auto
  then show ?thesis
    using assms ne by (simp add: EVP_DecodeUpdate_def decode_char_def decode_store_def Let_def d_at_def)
qed

lemma decode_update_out_of_bounds_witness:
  "EVP_DecodeUpdate (EVP_DecodeInit \<lparr>ctx_num = 9, ctx_length = 0, enc_data = replicate 80 0, line_num = 0, expect_nl = True\<rparr>)
     [10] = None"
  by (rule decode_update_out_of_bounds) (simp_all add: EVP_DecodeInit_def newline)

text \<open>The variables after a data character has been stored.\<close>

definition stored :: "decode_vars \<Rightarrow> u8 \<Rightarrow> decode_vars" where
  "stored x c = x\<lparr>d_data := (d_data x)[d_n x := c], d_n := d_n x + 1, d_ln := d_ln x + 1, d_exp_nl := False,
     d_seof := (if c = 61 \<and> d_seof x = None then Some (d_n x + 1) else d_seof x),
     d_eof := d_eof x + (if c = 61 then 1 else 0)\<rparr>"

lemma decode_char_stored:
  assumes "c \<in> set data_bin2ascii \<or> c = 61 \<and> d_eof x < 2" "d_ln x < 80" "d_n x < 80"
  shows "decode_char x c False
    = (if d_n x + 1 \<ge> 64 then decode_flush (stored x c) (conv_ascii2bin c) else Some (Continue (stored x c)))"
proof -
  have z: "(0 :: u8) \<noteq> B64_CR" "(0 :: u8) \<noteq> B64_EOLN" "(0 :: u8) \<noteq> B64_EOF" by (simp_all add: b64_defs)
  have v: "\<not> B64_NOT_BASE64 (conv_ascii2bin c)" "conv_ascii2bin c \<noteq> B64_CR" "conv_ascii2bin c \<noteq> B64_EOLN"
      "conv_ascii2bin c \<noteq> B64_EOF"
    using assms(1) alphabetD [of c] z equals_sign by auto
  have s: "decode_store x c = Some (Continue ((stored x c)\<lparr>d_exp_nl := d_exp_nl x\<rparr>))"
  proof (cases "c = 61")
    case True
    then have "d_eof x < 2" using assms(1) alphabetD(1) by blast
    then show ?thesis using True assms v by (cases x) (simp add: decode_store_def Let_def stored_def)
  next
    case False
    then show ?thesis using assms v by (cases x) (simp add: decode_store_def Let_def stored_def)
  qed
  have "(stored x c)\<lparr>d_exp_nl := d_exp_nl x\<rparr>\<lparr>d_exp_nl := False\<rparr> = stored x c" "d_n (stored x c) = d_n x + 1"
    by (simp_all add: stored_def)
  then show ?thesis using v by (simp add: decode_char_def s Let_def)
qed

lemma mem_write_cons:
  "n + length cs < length d \<Longrightarrow> mem_write (d[n := c]) (Suc n) cs = mem_write d n (c # cs)"
  by (rule nth_equalityI) (auto simp: nth_mem_write nth_list_update nth_Cons' nth_append)

lemma decode_loop_store:
  assumes "set cs \<subseteq> set data_bin2ascii" "d_n x + length cs \<le> 63" "d_ln x + length cs \<le> 80"
    "length (d_data x) = 80" "\<not> d_exp_nl x" "rest \<noteq> []"
  shows "decode_loop x (cs @ rest) = decode_loop (x\<lparr>d_data := mem_write (d_data x) (d_n x) cs,
    d_n := d_n x + length cs, d_ln := d_ln x + length cs\<rparr>) rest"
  using assms
proof (induction cs arbitrary: x)
  case (Cons c cs)
  have a: "c \<in> set data_bin2ascii" using Cons.prems by simp
  then have "c \<noteq> 61" by (rule alphabetD(1))
  then have s: "stored x c = x\<lparr>d_data := (d_data x)[d_n x := c], d_n := d_n x + 1, d_ln := d_ln x + 1\<rparr>"
    using Cons.prems(5) by (cases x) (simp add: stored_def)
  have "decode_char x c False = Some (Continue (stored x c))"
    using decode_char_stored [of c x] a Cons.prems by simp
  then have "decode_loop x ((c # cs) @ rest) = decode_loop (stored x c) (cs @ rest)" using Cons.prems by simp
  also have "\<dots> = decode_loop ((stored x c)\<lparr>d_data := mem_write (d_data (stored x c)) (d_n (stored x c)) cs,
      d_n := d_n (stored x c) + length cs, d_ln := d_ln (stored x c) + length cs\<rparr>) rest"
    by (rule Cons.IH) (use Cons.prems s in simp_all)
  also have "\<dots> = decode_loop (x\<lparr>d_data := mem_write (d_data x) (d_n x) (c # cs),
      d_n := d_n x + length (c # cs), d_ln := d_ln x + length (c # cs)\<rparr>) rest"
    unfolding s using Cons.prems by (simp add: mem_write_cons)
  finally show ?case .
qed simp

lemma mem_write_one: "n < length d \<Longrightarrow> d[n := c] = mem_write d n [c]"
  using mem_write_cons [of n "[]" d c] by simp

lemma decode_loop_equals:
  assumes "p \<le> 2" "d_n x + p \<le> 63" "d_ln x + p \<le> 80" "length (d_data x) = 80" "\<not> d_exp_nl x"
    "d_eof x = 0" "d_seof x = None" "rest \<noteq> []"
  shows "decode_loop x (replicate p 61 @ rest) = decode_loop (x\<lparr>d_data := mem_write (d_data x) (d_n x) (replicate p 61),
    d_n := d_n x + p, d_ln := d_ln x + p, d_eof := p, d_seof := (if p = 0 then None else Some (d_n x + 1))\<rparr>) rest"
proof -
  consider "p = 0" | "p = 1" | "p = 2" using assms(1) by linarith
  then show ?thesis
  proof cases
    case 1
    then show ?thesis using assms by (cases x) simp
  next
    case 2
    then have "decode_char x 61 False = Some (Continue (stored x 61))"
      using decode_char_stored [of 61 x] assms by simp
    moreover have "stored x 61 = x\<lparr>d_data := mem_write (d_data x) (d_n x) [61], d_n := d_n x + 1, d_ln := d_ln x + 1,
        d_eof := 1, d_seof := Some (d_n x + 1)\<rparr>"
      using assms by (cases x) (simp add: stored_def mem_write_one)
    ultimately show ?thesis using assms(8) 2 by simp
  next
    case 3
    let ?y = "stored x 61"
    have "decode_char x 61 False = Some (Continue ?y)"
      using decode_char_stored [of 61 x] assms 3 by simp
    moreover have "decode_char ?y 61 False = Some (Continue (stored ?y 61))"
      using decode_char_stored [of 61 ?y] assms 3 by (simp add: stored_def)
    moreover have "stored ?y 61 = x\<lparr>d_data := mem_write (d_data x) (d_n x) [61, 61], d_n := d_n x + 2, d_ln := d_ln x + 2,
        d_eof := 2, d_seof := Some (d_n x + 1)\<rparr>"
      using assms 3 mem_write_cons [of "d_n x" "[61]" "d_data x" 61] mem_write_one [of "Suc (d_n x)" "(d_data x)[d_n x := 61]" 61]
      by (cases x) (simp add: stored_def)
    ultimately show ?thesis using assms(8) 3 by (simp add: numeral_2_eq_2)
  qed
qed

abbreviation b64_pad :: "bytes \<Rightarrow> nat" where
  "b64_pad s \<equiv> (3 - length s mod 3) mod 3"

lemma encode_loop_split:
  "\<exists>cs. EVP_EncodeBlock_loop s = cs @ replicate (b64_pad s) 61 \<and> set cs \<subseteq> set data_bin2ascii \<and> (s \<noteq> [] \<longrightarrow> 2 \<le> length cs)"
proof (induction s rule: EVP_EncodeBlock_loop.induct)
  case (2 a)
  then show ?case
    by (intro exI [of _ "take 2 (EVP_EncodeBlock_loop [a])"]) (simp add: Let_def conv_in_alphabet numeral_2_eq_2)
next
  case (3 a b)
  then show ?case
    by (intro exI [of _ "butlast (EVP_EncodeBlock_loop [a, b])"]) (simp add: Let_def conv_in_alphabet)
next
  case (4 a b c src)
  then obtain cs where cs: "EVP_EncodeBlock_loop src = cs @ replicate (b64_pad src) 61" "set cs \<subseteq> set data_bin2ascii"
    by blast
  have m: "b64_pad (a # b # c # src) = b64_pad src" by simp
  show ?case unfolding m
    by (intro exI [of _ "encode_triple a b c @ cs"]) (use cs in \<open>simp add: encode_triple_def Let_def conv_in_alphabet\<close>)
qed simp

text \<open>What a flush does to a buffer that holds an encoding.\<close>

lemma decode_flush_block:
  assumes d: "take (d_n y) (d_data y) = EVP_EncodeBlock_loop s" "d_n y < length (d_data y)" "s \<noteq> []" "length s \<le> 48"
    and z: "z = y\<lparr>d_exp_nl := (d_exp_nl y \<or> v \<noteq> B64_EOF \<and> d_n y \<ge> 64), d_n := 0,
      d_ret := d_ret y + word_of_int (int (length s + b64_pad s) - int (d_eof y)),
      d_out := d_out y @ s @ replicate (b64_pad s) 0\<rparr>"
  shows "decode_flush y v =
    (if int (length s + b64_pad s) < d_length y \<and> d_eof y \<noteq> 0 then Some (Return 0 z)
     else if d_seof y \<noteq> None then Some (Return 0 (z\<lparr>d_length := int (length s + b64_pad s)\<rparr>))
     else Some (Continue (z\<lparr>d_length := int (length s + b64_pad s)\<rparr>)))"
proof -
  let ?e = "EVP_EncodeBlock_loop s"
  have n: "d_n y = length ?e" using arg_cong [OF d(1), of length] d(2) by simp
  have n0: "0 < d_n y" using d(3) by (cases s) (simp_all add: n length_encode_loop)
  have dd: "d_data y = ?e @ d_data y ! d_n y # drop (Suc (d_n y)) (d_data y)"
    using id_take_nth_drop [OF d(2)] d(1) by simp
  have b: "EVP_DecodeBlock (d_data y) (d_n y) = Some (Some (s @ replicate (b64_pad s) 0))"
    using decode_encode_block [of "d_n y" s "d_data y ! d_n y" "drop (Suc (d_n y)) (d_data y)"] n n0 d(4)
    unfolding dd [symmetric] by simp
  show ?thesis
  proof (cases "v \<noteq> B64_EOF \<and> d_n y \<ge> 64")
    case True
    then show ?thesis unfolding z using n0 b by (simp add: decode_flush_def Let_def)
  next
    case False
    have "y\<lparr>d_exp_nl := d_exp_nl y\<rparr> = y" by simp
    then show ?thesis unfolding z using n0 b False by (cases y) (auto simp: decode_flush_def Let_def)
  qed
qed

text \<open>The state at the start of a line.\<close>

definition line_start :: "decode_vars \<Rightarrow> bool" where
  "line_start x \<longleftrightarrow> d_n x = 0 \<and> d_ln x = 0 \<and> \<not> d_exp_nl x \<and> d_seof x = None \<and> d_eof x = 0 \<and>
     length (d_data x) = 80 \<and> d_length x \<le> 48"

lemma decode_char_newline_skipped:
  assumes "d_exp_nl x" "d_ln x < 80"
  shows "decode_char x 10 l = Some (Continue (x\<lparr>d_ln := 0, d_exp_nl := False\<rparr>))"
  using assms newline by (simp add: decode_char_def decode_store_def Let_def)

lemma decode_full_line:
  assumes x: "line_start x" and s: "length s = 48"
  shows "\<exists>x'. decode_loop x (EVP_EncodeBlock_loop s @ 10 # rest) = decode_loop x' rest \<and> line_start x' \<and>
    d_out x' = d_out x @ s \<and> d_ret x' = d_ret x + 48"
proof -
  note xs = x [unfolded line_start_def]
  have p0: "b64_pad s = 0" using s by simp
  obtain cs0 where cs0: "EVP_EncodeBlock_loop s = cs0" "set cs0 \<subseteq> set data_bin2ascii"
    using encode_loop_split [of s] p0 by auto
  have l: "length cs0 = 64" using cs0(1) length_encode_loop [of s] s by simp
  obtain cs c where cs: "cs0 = cs @ [c]" using l by (cases cs0 rule: rev_cases) auto
  have lcs: "length cs = 63" using l cs by simp
  define x1 where "x1 = x\<lparr>d_data := mem_write (d_data x) (d_n x) cs, d_n := d_n x + length cs, d_ln := d_ln x + length cs\<rparr>"
  have a: "decode_loop x (EVP_EncodeBlock_loop s @ 10 # rest) = decode_loop x1 (c # 10 # rest)"
    using decode_loop_store [of cs x "c # 10 # rest"] cs cs0 xs lcs unfolding x1_def by simp
  define y where "y = stored x1 c"
  have c: "c \<in> set data_bin2ascii" using cs cs0 by simp
  then have c61: "c \<noteq> 61" by (rule alphabetD(1))
  have b: "decode_char x1 c False = decode_flush y (conv_ascii2bin c)"
    using decode_char_stored [of c x1] c xs lcs unfolding y_def by (simp add: x1_def)
  have yd: "d_data y = mem_write (d_data x) 0 cs0" "d_n y = 64" "d_seof y = None" "d_eof y = 0"
      "d_ret y = d_ret x" "d_out y = d_out x" "d_length y = d_length x" "d_ln y = 64" "\<not> d_exp_nl y"
    using xs lcs c61 cs mem_write_append_snoc [of 0 cs "d_data x" c]
    by (simp_all add: y_def stored_def x1_def list_update_mem_write) (simp add: mem_write_def)
  have t: "take (d_n y) (d_data y) = EVP_EncodeBlock_loop s" "d_n y < length (d_data y)"
    using yd xs l cs0(1) take_mem_write_upto [of 0 "d_data x" cs0] by simp_all
  have v: "conv_ascii2bin c \<noteq> B64_EOF" by (rule alphabetD(3) [OF c])
  have ne: "s \<noteq> []" using s by auto
  define z where "z = y\<lparr>d_exp_nl := (d_exp_nl y \<or> conv_ascii2bin c \<noteq> B64_EOF \<and> d_n y \<ge> 64), d_n := 0,
      d_ret := d_ret y + word_of_int (int (length s + b64_pad s) - int (d_eof y)),
      d_out := d_out y @ s @ replicate (b64_pad s) 0\<rparr>"
  have f: "decode_flush y (conv_ascii2bin c) = Some (Continue (z\<lparr>d_length := 48\<rparr>))"
    using decode_flush_block [OF t ne _ z_def] s yd by auto
  let ?z = "z\<lparr>d_length := 48, d_ln := 0, d_exp_nl := False\<rparr>"
  have "decode_loop x1 (c # 10 # rest) = decode_loop ?z rest"
    using b f decode_char_newline_skipped [of "z\<lparr>d_length := 48\<rparr>"] v yd by (simp add: z_def)
  moreover have "line_start ?z" using yd xs l by (simp add: line_start_def z_def)
  moreover have "d_out ?z = d_out x @ s" "d_ret ?z = d_ret x + 48" using yd p0 s by (simp_all add: z_def)
  ultimately show ?thesis using a by auto
qed

text \<open>The last line, shorter than 48 bytes, at the end of the input.\<close>

lemma decode_last_line:
  assumes x: "line_start x" and s: "s \<noteq> []" "length s < 48"
  shows "\<exists>r x'. decode_loop x (EVP_EncodeBlock_loop s @ [10]) = Some (r, x') \<and> (r = 0 \<or> r = 1) \<and> d_n x' = 0 \<and>
    d_out x' = d_out x @ s @ replicate (b64_pad s) 0 \<and> d_ret x' = d_ret x + word_of_nat (length s)"
proof -
  note xs = x [unfolded line_start_def]
  let ?p = "b64_pad s" and ?e = "EVP_EncodeBlock_loop s"
  have p2: "?p \<le> 2" by simp
  obtain cs where cs: "?e = cs @ replicate ?p 61" "set cs \<subseteq> set data_bin2ascii" "2 \<le> length cs"
    using encode_loop_split [of s] s by auto
  have le: "length ?e = 4 * ((length s + 2) div 3)" by (rule length_encode_loop)
  have lc: "length cs + ?p = length ?e" using cs(1) by simp
  have wi: "word_of_int (int (length s + ?p) - int ?p) = (word_of_nat (length s) :: u32)" by simp
  show ?thesis
  proof (cases "length ?e < 64")
    case True
    define k where "k = (length s + 2) div 3"
    have "4 * k < 64" using True le unfolding k_def by simp
    then have "k < 16" by simp
    then have "4 * k \<le> 60" by simp
    then have l63: "length ?e \<le> 60" using le unfolding k_def by simp
    define x1 where "x1 = x\<lparr>d_data := mem_write (d_data x) 0 cs, d_n := length cs, d_ln := length cs\<rparr>"
    have a: "decode_loop x (?e @ [10]) = decode_loop x1 (replicate ?p 61 @ [10])"
      unfolding cs(1) append_assoc x1_def
      using decode_loop_store [of cs x "replicate ?p 61 @ [10]"] cs(2) xs l63 lc by simp
    define y where "y = x1\<lparr>d_data := mem_write (d_data x1) (length cs) (replicate ?p 61), d_n := length cs + ?p,
        d_ln := length cs + ?p, d_eof := ?p, d_seof := (if ?p = 0 then None else Some (length cs + 1))\<rparr>"
    have b: "decode_loop x1 (replicate ?p 61 @ [10]) = decode_loop y [10]"
      using decode_loop_equals [OF p2, of x1 "[10]"] xs l63 lc cs(3) unfolding y_def by (simp add: x1_def)
    have yd: "d_n y = length ?e" "d_eof y = ?p" "d_ret y = d_ret x" "d_out y = d_out x" "\<not> d_exp_nl y" "d_ln y = length ?e"
        "length (d_data y) = 80"
      using xs lc l63 by (simp_all add: y_def x1_def)
    have t: "take (d_n y) (d_data y) = ?e"
    proof -
      have "take (length cs + length (replicate ?p (61 :: u8))) (mem_write (d_data x1) (length cs) (replicate ?p 61))
          = take (length cs) (d_data x1) @ replicate ?p 61"
        by (rule take_mem_write_upto) (use xs lc l63 in \<open>simp add: x1_def\<close>)
      moreover have "take (length cs) (d_data x1) = cs"
        using take_mem_write_upto [of 0 "d_data x" cs] by (simp add: x1_def)
      ultimately show ?thesis using cs(1) by (simp add: y_def)
    qed
    have nth: "d_data y ! i = ?e ! i" if "i < length ?e" for i
      using that t yd by (metis nth_take)
    have e1: "d_at y 1 = Some (?e ! (length ?e - 1))" "d_at y 2 = Some (?e ! (length ?e - 2))"
      using yd l63 lc cs(3) nth by (simp_all add: d_at_def)
    have eq61: "?e ! (length ?e - 1) = 61 \<longleftrightarrow> 1 \<le> ?p" "?e ! (length ?e - 2) = 61 \<longleftrightarrow> ?p = 2"
    proof -
      have alpha: "i < length cs \<Longrightarrow> cs ! i \<noteq> 61" for i using cs(2) alphabetD(1) nth_mem by blast
      consider "?p = 0" | "?p = 1" | "?p = 2" using p2 by linarith
      then have "(?e ! (length ?e - 1) = 61 \<longleftrightarrow> 1 \<le> ?p) \<and> (?e ! (length ?e - 2) = 61 \<longleftrightarrow> ?p = 2)"
        by cases (use cs(1,3) alpha lc in \<open>simp_all add: nth_append\<close>)
      then show "?e ! (length ?e - 1) = 61 \<longleftrightarrow> 1 \<le> ?p" "?e ! (length ?e - 2) = 61 \<longleftrightarrow> ?p = 2" by auto
    qed
    have cnt: "(if ?e ! (length ?e - 1) = 61 then 1 else 0) + (if ?e ! (length ?e - 2) = 61 then 1 else 0) = ?p"
      unfolding eq61 using p2 by auto
    define y2 where "y2 = y\<lparr>d_ln := 0, d_exp_nl := False\<rparr>"
    have y2e: "y2\<lparr>d_eof := ?p\<rparr> = y2" using yd(2) unfolding y2_def by (cases y) simp
    have at2: "d_at y2 k = d_at y k" for k by (simp add: d_at_def y2_def)
    have m4: "d_n y2 mod 4 = 0" using yd le by (simp add: y2_def)
    have st: "decode_store y 10 = Some (Continue y)"
      using yd l63 newline by (simp add: decode_store_def Let_def)
    have c: "decode_char y 10 True = decode_flush y2 B64_EOF"
      using st newline yd m4 e1 cnt y2e unfolding decode_char_def
      by (simp add: Let_def y2_def [symmetric] at2 split del: if_split)
    have tt: "take (d_n y2) (d_data y2) = ?e" "d_n y2 < length (d_data y2)" using t yd l63 by (simp_all add: y2_def)
    define z where "z = y2\<lparr>d_exp_nl := (d_exp_nl y2 \<or> B64_EOF \<noteq> B64_EOF \<and> d_n y2 \<ge> 64), d_n := 0,
      d_ret := d_ret y2 + word_of_int (int (length s + ?p) - int (d_eof y2)), d_out := d_out y2 @ s @ replicate ?p 0\<rparr>"
    have zd: "d_n z = 0" "d_out z = d_out x @ s @ replicate ?p 0" "d_ret z = d_ret x + word_of_nat (length s)"
      using yd wi by (simp_all add: z_def y2_def)
    have f: "decode_flush y2 B64_EOF =
      (if int (length s + ?p) < d_length y2 \<and> d_eof y2 \<noteq> 0 then Some (Return 0 z)
       else if d_seof y2 \<noteq> None then Some (Return 0 (z\<lparr>d_length := int (length s + ?p)\<rparr>))
       else Some (Continue (z\<lparr>d_length := int (length s + ?p)\<rparr>)))"
      by (rule decode_flush_block [OF tt s(1) _ z_def]) (use s in simp)
    define w where "w = z\<lparr>d_length := int (length s + ?p)\<rparr>"
    have "d_n w = d_n z" "d_out w = d_out z" "d_ret w = d_ret z" by (simp_all add: w_def)
    note zw = zd zd [folded this]
    consider "decode_flush y2 B64_EOF = Some (Return 0 z)" | "decode_flush y2 B64_EOF = Some (Return 0 w)"
      | "decode_flush y2 B64_EOF = Some (Continue w)" unfolding f w_def by presburger
    then have "decode_loop y [10] = Some (0, z) \<or> decode_loop y [10] = Some (0, w) \<or> decode_loop y [10] = Some (1, w)"
      by cases (simp_all add: c)
    then show ?thesis unfolding a b using zw by (elim disjE) blast+
  next
    case False
    then have "16 \<le> (length s + 2) div 3" using le by simp
    then have "46 \<le> length s" by (simp add: less_eq_div_iff_mult_less_eq)
    then have ls: "length s = 46 \<or> length s = 47" using s(2) by linarith
    then have l64: "length ?e = 64" "0 < ?p" "length s + ?p = 48" using le by auto
    obtain q where q: "?p = Suc q" "q \<le> 1" using l64(2) p2 by (cases ?p) auto
    have eqs: "replicate ?p (61 :: u8) = replicate q 61 @ [61]" by (simp add: q(1) replicate_append_same)
    have lcs: "length cs + q = 63" using lc l64 q by linarith
    define x1 where "x1 = x\<lparr>d_data := mem_write (d_data x) 0 cs, d_n := length cs, d_ln := length cs\<rparr>"
    have a: "decode_loop x (?e @ [10]) = decode_loop x1 (replicate q 61 @ [61, 10])"
      unfolding cs(1) eqs append_assoc x1_def
      using decode_loop_store [of cs x "replicate q 61 @ [61] @ [10]"] cs(2) xs lcs by simp
    define x2 where "x2 = x1\<lparr>d_data := mem_write (d_data x1) (length cs) (replicate q 61), d_n := length cs + q,
        d_ln := length cs + q, d_eof := q, d_seof := (if q = 0 then None else Some (length cs + 1))\<rparr>"
    have b: "decode_loop x1 (replicate q 61 @ [61, 10]) = decode_loop x2 [61, 10]"
      using decode_loop_equals [of q x1 "[61, 10]"] q(2) xs lcs unfolding x2_def by (simp add: x1_def)
    define y where "y = stored x2 61"
    have c: "decode_char x2 61 False = decode_flush y (conv_ascii2bin 61)"
      using decode_char_stored [of 61 x2] lcs q(2) unfolding y_def by (simp add: x2_def)
    have yd: "d_n y = 64" "d_eof y = ?p" "d_seof y \<noteq> None" "d_ret y = d_ret x" "d_out y = d_out x"
        "d_length y = d_length x" "length (d_data y) = 80"
      using xs lcs q l64 by (simp_all add: y_def stored_def x2_def x1_def)
    have t: "take (d_n y) (d_data y) = ?e"
    proof -
      have w: "d_data y = mem_write (d_data x1) (length cs) (replicate q 61 @ [61])"
        using mem_write_append_snoc [of "length cs" "replicate q 61" "d_data x1" 61] xs lcs
          mem_write_one [of "length cs + q" "mem_write (d_data x1) (length cs) (replicate q 61)" 61]
        by (simp add: y_def stored_def x2_def x1_def mem_write_def)
      have A: "take (length cs + length (replicate ?p (61 :: u8))) (d_data y) = take (length cs) (d_data x1) @ replicate ?p 61"
        unfolding w eqs by (rule take_mem_write_upto) (use xs lcs in \<open>simp add: x1_def\<close>)
      have B: "take (length cs) (d_data x1) = cs"
        using take_mem_write_upto [of 0 "d_data x" cs] by (simp add: x1_def)
      have n: "d_n y = length cs + length (replicate ?p (61 :: u8))" using yd(1) lc l64 by simp
      show ?thesis unfolding n A B by (rule cs(1) [symmetric])
    qed
    have v: "conv_ascii2bin 61 \<noteq> B64_EOF" using equals_sign by (simp add: B64_EOF_def)
    define z where "z = y\<lparr>d_exp_nl := (d_exp_nl y \<or> conv_ascii2bin 61 \<noteq> B64_EOF \<and> d_n y \<ge> 64), d_n := 0,
      d_ret := d_ret y + word_of_int (int (length s + ?p) - int (d_eof y)), d_out := d_out y @ s @ replicate ?p 0\<rparr>"
    have "decode_flush y (conv_ascii2bin 61) =
      (if int (length s + ?p) < d_length y \<and> d_eof y \<noteq> 0 then Some (Return 0 z)
       else if d_seof y \<noteq> None then Some (Return 0 (z\<lparr>d_length := int (length s + ?p)\<rparr>))
       else Some (Continue (z\<lparr>d_length := int (length s + ?p)\<rparr>)))"
      by (rule decode_flush_block [OF t _ s(1) _ z_def]) (use s yd in simp_all)
    then have "decode_loop x2 [61, 10] = Some (0, z\<lparr>d_length := 48\<rparr>)"
      using c yd xs l64(3) by auto
    moreover have "d_n z = 0" "d_out z = d_out x @ s @ replicate ?p 0" "d_ret z = d_ret x + word_of_nat (length s)"
      using yd wi by (simp_all add: z_def)
    ultimately show ?thesis unfolding a b by (intro exI [of _ 0] exI [of _ "z\<lparr>d_length := 48\<rparr>"]) simp
  qed
qed

lemma decode_lines:
  "line_start x \<Longrightarrow> s \<noteq> [] \<Longrightarrow>
     \<exists>r x'. decode_loop x (b64_lines s) = Some (r, x') \<and> (r = 0 \<or> r = 1) \<and> d_n x' = 0 \<and>
       (\<exists>zs. d_out x' = d_out x @ s @ zs) \<and> d_ret x' = d_ret x + word_of_nat (length s)"
proof (induction s arbitrary: x rule: b64_lines.induct)
  case (1 s)
  show ?case
  proof (cases "length s < 48")
    case True
    then have "b64_lines s = EVP_EncodeBlock_loop s @ [10]" using 1 by (intro b64_lines_short) auto
    then show ?thesis using decode_last_line [OF 1(2,3) True] by auto
  next
    case False
    let ?t = "take 48 s" and ?d = "drop 48 s"
    have e: "b64_lines s = EVP_EncodeBlock_loop ?t @ 10 # b64_lines ?d"
      using 1(3) by (subst b64_lines.simps) simp
    obtain x' where x': "decode_loop x (b64_lines s) = decode_loop x' (b64_lines ?d)" "line_start x'"
        "d_out x' = d_out x @ ?t" "d_ret x' = d_ret x + 48"
      using decode_full_line [OF 1(2), of ?t "b64_lines ?d"] False e by auto
    show ?thesis
    proof (cases "?d = []")
      case True
      then have "length s = 48" using False by simp
      then show ?thesis using x' True by (auto simp: line_start_def)
    next
      case ne: False
      obtain r x'' zs where r: "decode_loop x' (b64_lines ?d) = Some (r, x'')" "r = 0 \<or> r = 1" "d_n x'' = 0"
          "d_out x'' = d_out x' @ ?d @ zs" "d_ret x'' = d_ret x' + word_of_nat (length ?d)"
        using 1(1) [OF 1(3) x'(2) ne] by auto
      have "(48 :: u32) + word_of_nat (length ?d) = word_of_nat (48 + length ?d)" by simp
      then have "d_ret x'' = d_ret x + word_of_nat (length s)" using r(5) x'(4) False
        by (simp add: add.assoc)
      moreover have "d_out x'' = d_out x @ s @ zs" using r(4) x'(3) by (metis append.assoc append_take_drop_id)
      ultimately show ?thesis using r(1,2,3) x'(1)
        by (intro exI [of _ r] exI [of _ x'']) auto
    qed
  qed
qed

text \<open>A line is 48 bytes in 65 characters, so what a decoder is given stays below 2^32.\<close>

lemma length_b64_lines: "48 * length (b64_lines s) \<le> 65 * length s + 240"
proof (induction s rule: b64_lines.induct)
  case (1 s)
  show ?case
  proof (cases "length s < 48")
    case True
    then show ?thesis
      by (cases "s = []") (simp_all add: b64_lines_Nil b64_lines_short length_encode_loop)
  next
    case False
    then have "s \<noteq> []" by auto
    then show ?thesis using 1 False by (subst b64_lines.simps) (simp add: length_encode_loop)
  qed
qed

text \<open>
  C26: The streaming decoder inverts the streaming encoder: given the whole output of the encoder
  (in one update) it accepts it, reports as many bytes as were encoded, writes those bytes, and
  keeps nothing back for EVP_DecodeFinal.
\<close>
theorem base64_stream_roundtrip:
  assumes "length (enc_data ctx) = 80" "length (enc_data ctx') = 80" "length (concat chunks) < 2147483648"
    and "encode_run (EVP_EncodeInit ctx) chunks = Some enc"
  shows "\<exists>rv out ctx''. EVP_DecodeUpdate (EVP_DecodeInit ctx') enc = Some (rv, int (length (concat chunks)), out, ctx'') \<and>
    (rv = 0 \<or> rv = 1) \<and> take (length (concat chunks)) out = concat chunks \<and> EVP_DecodeFinal ctx'' = Some (1, [], ctx'')"
proof -
  let ?s = "concat chunks"
  let ?c = "EVP_DecodeInit ctx'"
  have enc: "enc = b64_lines ?s"
    using encode_run_ok [of "EVP_EncodeInit ctx" chunks] assms(1,4) by (simp add: encoding_def EVP_EncodeInit_def pending_def)
  let ?x = "\<lparr>d_n = ctx_num ?c, d_data = enc_data ?c, d_ln = line_num ?c, d_exp_nl = expect_nl ?c,
      d_seof = None, d_eof = 0, d_ret = 0, d_out = [], d_length = int (ctx_length ?c)\<rparr>"
  have x: "line_start ?x" using assms(2) by (simp add: line_start_def EVP_DecodeInit_def)
  show ?thesis
  proof (cases "?s = []")
    case True
    then have "enc = []" using enc by (simp only: b64_lines_Nil)
    then show ?thesis unfolding True by (simp add: EVP_DecodeUpdate_def EVP_DecodeFinal_def EVP_DecodeInit_def)
  next
    case False
    obtain r x' zs where r: "decode_loop ?x (b64_lines ?s) = Some (r, x')" "r = 0 \<or> r = 1" "d_n x' = 0"
        "d_out x' = ?s @ zs" "d_ret x' = word_of_nat (length ?s)"
      using decode_lines [OF x False] by auto
    have h: "enc \<noteq> []" "conv_ascii2bin (hd enc) \<noteq> B64_EOF"
    proof -
      have e: "enc = EVP_EncodeBlock_loop (take 48 ?s) @ 10 # b64_lines (drop 48 ?s)"
        unfolding enc using False by (subst b64_lines.simps) simp
      obtain cs where cs: "EVP_EncodeBlock_loop (take 48 ?s) = cs @ replicate (b64_pad (take 48 ?s)) 61"
          "set cs \<subseteq> set data_bin2ascii" "2 \<le> length cs"
        using encode_loop_split [of "take 48 ?s"] False by auto
      then obtain c cs' where "cs = c # cs'" by (cases cs) auto
      then show "enc \<noteq> []" "conv_ascii2bin (hd enc) \<noteq> B64_EOF" using e cs alphabetD(3) by auto
    qed
    have si: "sint (word_of_nat (length ?s) :: u32) = int (length ?s)"
      using assms(3) by (simp add: signed_of_nat signed_take_bit_int_eq_self)
    have "length enc < 4294967296" using length_b64_lines [of ?s] assms(3) enc by simp
    then show ?thesis using r h si enc by (simp add: EVP_DecodeUpdate_def EVP_DecodeFinal_def)
  qed
qed

lemma base64_stream_roundtrip_witness:
  "\<exists>rv out ctx''. EVP_DecodeUpdate
      (EVP_DecodeInit \<lparr>ctx_num = 5, ctx_length = 0, enc_data = replicate 80 0, line_num = 0, expect_nl = False\<rparr>)
      (b64_lines [77, 97, 110, 33]) = Some (rv, 4, out, ctx'') \<and> take 4 out = [77, 97, 110, 33]"
proof -
  let ?c = "\<lparr>ctx_num = 5, ctx_length = 0, enc_data = replicate 80 0, line_num = 0, expect_nl = False\<rparr>"
  have r: "encode_run (EVP_EncodeInit ?c) [[77, 97], [110, 33]] = Some (b64_lines [77, 97, 110, 33])"
    using encode_run_ok [of "EVP_EncodeInit ?c" "[[77, 97], [110, 33]]"]
    by (simp add: encoding_def EVP_EncodeInit_def pending_def)
  have n: "length [77, 97, 110, 33 :: u8] = 4" "int 4 = 4" "concat [[77, 97], [110, 33]] = [77, 97, 110, 33 :: u8]"
    by simp_all
  have "length (enc_data ?c) = 80" by simp
  from base64_stream_roundtrip [OF this this _ r] show ?thesis unfolding n by fastforce
qed

end
