(* ===== verification/Modes.thy ===== *)
theory Modes
  imports Prelude
begin

unbundle bit_operations_syntax

text \<open>
  The 128-bit block cipher modes of \<^verbatim>\<open>crypto/modes\<close>: CBC, CTR (with a block function
  and with a 32-bit counter function), OFB and CFB with 128-, 8- and 1-bit feedback.

  The block function \<^verbatim>\<open>block128_f\<close> with its key is a parameter \<open>blk\<close> from 16 bytes
  to 16 bytes; nothing else is assumed of it except where a theorem says so.  The model follows the
  branch the modelled target compiles (\<^verbatim>\<open>STRICT_ALIGNMENT\<close> is 0), where whole blocks are
  handled eight bytes at a time; exclusive-or acts on each byte separately, so an eight-byte
  exclusive-or is one of lists.  The byte-at-a-time loops under \<^verbatim>\<open>STRICT_ALIGNMENT\<close> are
  modelled too, as the reference the block-wise loops are proved equal to.

  The interface of a mode that turns one symbol into another under a running state is the locale
  \<open>stream_mode\<close>: CTR, OFB and the CFB variants are its interpretations, and the round trips
  come from it.  The locale \<open>block_cipher\<close> is the contract CBC needs of its cipher.
\<close>

section \<open>Exclusive-or of byte strings\<close>

definition xor_bytes :: "bytes \<Rightarrow> bytes \<Rightarrow> bytes" where
  "xor_bytes xs ys = map2 (XOR) xs ys"

lemma length_xor_bytes [simp]: "length (xor_bytes xs ys) = min (length xs) (length ys)"
  by (simp add: xor_bytes_def)

lemma xor_bytes_Nil [simp]: "xor_bytes [] ys = []"
  by (simp add: xor_bytes_def)

lemma nth_xor_bytes [simp]:
  "i < length xs \<Longrightarrow> i < length ys \<Longrightarrow> xor_bytes xs ys ! i = xs ! i XOR ys ! i"
  by (simp add: xor_bytes_def)

lemma xor_bytes_twice [simp]:
  "length xs \<le> length ys \<Longrightarrow> xor_bytes (xor_bytes xs ys) ys = xs"
  by (rule nth_equalityI) (auto simp: xor.assoc)



lemma take_xor_bytes: "take n (xor_bytes xs ys) = xor_bytes (take n xs) ys"
  by (rule nth_equalityI) auto

lemma xor_bytes_append:
  "length xs = length us \<Longrightarrow> xor_bytes (xs @ ys) (us @ vs) = xor_bytes xs us @ xor_bytes ys vs"
  by (simp add: xor_bytes_def)

section \<open>Modes as one-symbol steps\<close>

text \<open>
  A step takes the running state and one symbol to the output symbol and the next state;
  \<open>stream_run\<close> feeds it a list.
\<close>

fun stream_run :: "('st \<Rightarrow> 'a \<Rightarrow> 'a \<times> 'st) \<Rightarrow> 'st \<Rightarrow> 'a list \<Rightarrow> 'a list \<times> 'st" where
  "stream_run f st [] = ([], st)"
| "stream_run f st (x # xs) =
     (let (y, st') = f st x; (ys, st'') = stream_run f st' xs in (y # ys, st''))"

lemma stream_run_append:
  "stream_run f st (xs @ ys) =
     (let (us, st') = stream_run f st xs; (vs, st'') = stream_run f st' ys in (us @ vs, st''))"
  by (induction xs arbitrary: st) (auto simp: Let_def split: prod.splits)

lemma length_stream_run: "length (fst (stream_run f st xs)) = length xs"
  by (induction xs arbitrary: st) (auto simp: Let_def split: prod.splits, metis fst_conv)

locale stream_mode =
  fixes ok :: "'st \<Rightarrow> bool"
    and enc :: "'st \<Rightarrow> 'a \<Rightarrow> 'a \<times> 'st"
    and dec :: "'st \<Rightarrow> 'a \<Rightarrow> 'a \<times> 'st"
  assumes ok_enc: "ok st \<Longrightarrow> ok (snd (enc st x))"
    and dec_enc: "ok st \<Longrightarrow> dec st (fst (enc st x)) = (x, snd (enc st x))"
begin

lemma roundtrip:
  "ok st \<Longrightarrow> stream_run enc st xs = (ys, st') \<Longrightarrow> stream_run dec st ys = (xs, st')"
proof (induction xs arbitrary: st ys st')
  case (Cons x xs)
  obtain y s1 where e: "enc st x = (y, s1)" by fastforce
  obtain zs s2 where r: "stream_run enc s1 xs = (zs, s2)" by fastforce
  have "ys = y # zs" "st' = s2" using Cons.prems(2) e r by auto
  moreover have "dec st y = (x, s1)" using dec_enc [OF Cons.prems(1), of x] e by simp
  moreover have "stream_run dec s1 zs = (xs, s2)"
    using Cons.IH [of s1 zs s2] r ok_enc [OF Cons.prems(1), of x] e by simp
  ultimately show ?case by simp
qed auto

lemma ok_run: "ok st \<Longrightarrow> stream_run enc st xs = (ys, st') \<Longrightarrow> ok st'"
proof (induction xs arbitrary: st ys)
  case (Cons x xs)
  then show ?case using ok_enc [OF Cons.prems(1), of x] by (auto simp: Let_def split: prod.splits)
qed auto

end

section \<open>Counter increments\<close>

text \<open>The do-while loop of both increments, which works down from byte \<open>n\<close>.\<close>

(* src: crypto/modes/ctr.c@64-73 ctr128_inc *)
fun ctr_inc_loop :: "nat \<Rightarrow> bytes \<Rightarrow> bytes" where
  "ctr_inc_loop 0 counter = counter"
| "ctr_inc_loop (Suc n) counter =
     (let c = counter ! n + 1; counter' = counter[n := c]
      in if c \<noteq> 0 then counter' else ctr_inc_loop n counter')"

(* src: crypto/modes/ctr.c ctr128_inc *)
definition ctr128_inc :: "bytes \<Rightarrow> bytes" where
  "ctr128_inc counter = ctr_inc_loop 16 counter"

(* src: crypto/modes/ctr.c ctr96_inc *)
definition ctr96_inc :: "bytes \<Rightarrow> bytes" where
  "ctr96_inc counter = ctr_inc_loop 12 counter"

lemma unat_u8_plus1:
  "unat ((b :: u8) + 1) = (if b + 1 = 0 then 0 else unat b + 1)"
  by (auto simp: unatSuc add.commute)

lemma u8_plus1_eq_0: "(b :: u8) + 1 = 0 \<longleftrightarrow> unat b = 255"
proof
  assume "b + 1 = 0"
  then have "b = -1" by (simp add: eq_neg_iff_add_eq_0)
  then have "b = 255" by simp
  then show "unat b = 255" by simp
next
  assume "unat b = 255"
  then have "b = 255" by (simp add: word_unat_eq_iff)
  then show "b + 1 = 0" by simp
qed

lemma word_of_nat_u8_times_256: "(word_of_nat (m * 256 + n) :: u8) = word_of_nat n"
proof -
  have "unat (word_of_nat (m * 256 + n) :: u8) = unat (word_of_nat n :: u8)"
    by (simp only: unat_word_of_nat_u8 mod_mult_self3)
  then show ?thesis by (simp only: word_unat_eq_iff)
qed

lemma ctr_inc_loop_eq:
  "n \<le> length c \<Longrightarrow> ctr_inc_loop n c = be_bytes n (be_nat (take n c) + 1) @ drop n c"
proof (induction n arbitrary: c)
  case (Suc n)
  let ?b = "c ! n"
  have len: "n < length c" using Suc.prems by simp
  have t: "be_nat (take (Suc n) c) = be_nat (take n c) * 256 + unat ?b"
    using len by (simp add: take_Suc_conv_app_nth be_nat_acc_append)
  have bs: "be_bytes n (be_nat (take n c)) = take n c"
    using be_bytes_be_nat [of "take n c"] len by simp
  have upd: "c[n := x] = take n c @ x # drop (Suc n) c" for x
    using len by (simp add: upd_conv_take_nth_drop)
  show ?case
  proof (cases "?b + 1 = 0")
    case False
    then have ub: "unat ?b + 1 < 256" using u8_plus1_eq_0 [of ?b] unat_u8_less [of ?b] by linarith
    have d: "(be_nat (take n c) * 256 + unat ?b + 1) div 256 = be_nat (take n c)"
      using ub by linarith
    have m: "(word_of_nat (be_nat (take n c) * 256 + unat ?b + 1) :: u8) = ?b + 1"
      using word_of_nat_u8_times_256 [of "be_nat (take n c)" "unat ?b + 1"] by (simp add: add.assoc add.commute)
    have "be_bytes (Suc n) (be_nat (take (Suc n) c) + 1) = take n c @ [?b + 1]"
      by (simp only: be_bytes.simps t d bs m)
    then show ?thesis using False by (simp add: Let_def upd del: be_bytes.simps)
  next
    case True
    then have ub: "unat ?b = 255" using u8_plus1_eq_0 by blast
    have e: "be_nat (take n c) * 256 + unat ?b + 1 = (be_nat (take n c) + 1) * 256"
      using ub by simp
    have m: "(word_of_nat ((be_nat (take n c) + 1) * 256) :: u8) = 0"
      using word_of_nat_u8_times_256 [of "be_nat (take n c) + 1" 0] by simp
    have "ctr_inc_loop (Suc n) c = ctr_inc_loop n (c[n := 0])" using True by (simp add: Let_def)
    also have "\<dots> = be_bytes n (be_nat (take n c) + 1) @ 0 # drop (Suc n) c"
      using Suc.IH [of "c[n := 0]"] len by (simp add: upd)
    also have "\<dots> = be_bytes (Suc n) (be_nat (take (Suc n) c) + 1) @ drop (Suc n) c"
      by (simp only: t e be_bytes.simps m) simp
    finally show ?thesis .
  qed
qed simp

lemma length_ctr_inc_loop [simp]: "length (ctr_inc_loop n c) = length c"
  by (induction n c rule: ctr_inc_loop.induct) (auto simp: Let_def)

lemma length_ctr128_inc [simp]: "length (ctr128_inc c) = length c"
  by (simp add: ctr128_inc_def)

lemma be_nat_ctr128_inc: "length c = 16 \<Longrightarrow> be_nat (ctr128_inc c) = (be_nat c + 1) mod 2 ^ 128"
  by (simp add: ctr128_inc_def ctr_inc_loop_eq be_nat_be_bytes)


section \<open>CBC\<close>

subsection \<open>Specification\<close>

text \<open>CBC over a list of blocks, and the blocks of a byte string, the last one padded with zeros.\<close>

fun cbc_spec_enc :: "(bytes \<Rightarrow> bytes) \<Rightarrow> bytes \<Rightarrow> bytes list \<Rightarrow> bytes list" where
  "cbc_spec_enc E iv [] = []"
| "cbc_spec_enc E iv (b # bs) = (let c = E (xor_bytes b iv) in c # cbc_spec_enc E c bs)"

fun cbc_spec_dec :: "(bytes \<Rightarrow> bytes) \<Rightarrow> bytes \<Rightarrow> bytes list \<Rightarrow> bytes list" where
  "cbc_spec_dec D iv [] = []"
| "cbc_spec_dec D iv (c # cs) = xor_bytes (D c) iv # cbc_spec_dec D c cs"

fun padded_blocks :: "nat \<Rightarrow> bytes \<Rightarrow> bytes list" where
  "padded_blocks n xs =
     (if n = 0 \<or> xs = [] then []
      else (take n xs @ replicate (n - length xs) 0) # padded_blocks n (drop n xs))"

declare padded_blocks.simps [simp del]

lemma padded_blocks_Nil [simp]: "padded_blocks n [] = []"
  by (simp add: padded_blocks.simps)

lemma padded_blocks_last:
  "xs \<noteq> [] \<Longrightarrow> length xs \<le> n \<Longrightarrow> padded_blocks n xs = [xs @ replicate (n - length xs) 0]"
  by (cases xs) (subst padded_blocks.simps, auto)+

lemma padded_blocks_step:
  "0 < n \<Longrightarrow> n \<le> length xs \<Longrightarrow> padded_blocks n xs = take n xs # padded_blocks n (drop n xs)"
  by (subst padded_blocks.simps) auto

lemma length_in_padded_blocks: "b \<in> set (padded_blocks n xs) \<Longrightarrow> length b = n"
proof (induction n xs rule: padded_blocks.induct)
  case (1 n xs)
  then show ?case by (subst (asm) (2) padded_blocks.simps) (auto split: if_splits simp: min_def)
qed

lemma take_concat_padded_blocks: "0 < n \<Longrightarrow> take (length xs) (concat (padded_blocks n xs)) = xs"
proof (induction n xs rule: padded_blocks.induct)
  case (1 n xs)
  show ?case
  proof (cases "xs = [] \<or> length xs \<le> n")
    case True
    then show ?thesis using padded_blocks_last [of xs n] by (cases "xs = []") auto
  next
    case False
    then have "padded_blocks n xs = take n xs # padded_blocks n (drop n xs)"
      using 1 padded_blocks_step by simp
    moreover have "take (length (drop n xs)) (concat (padded_blocks n (drop n xs))) = drop n xs"
      using 1 False by (metis list.size(3) not_gr_zero zero_le)
    ultimately show ?thesis using False by (simp add: min_def)
  qed
qed

lemma length_cbc_spec_enc [simp]: "length (cbc_spec_enc E iv bs) = length bs"
  by (induction bs arbitrary: iv) (auto simp: Let_def)

subsection \<open>What CBC needs of its cipher\<close>

locale block_cipher =
  fixes bsize :: nat
    and E :: "bytes \<Rightarrow> bytes"
    and D :: "bytes \<Rightarrow> bytes"
  assumes bsize_pos: "0 < bsize"
    and length_E: "length b = bsize \<Longrightarrow> length (E b) = bsize"
    and D_E: "length b = bsize \<Longrightarrow> D (E b) = b"
begin

lemma cbc_dec_enc:
  "length iv = bsize \<Longrightarrow> \<forall>b\<in>set bs. length b = bsize \<Longrightarrow>
     cbc_spec_dec D iv (cbc_spec_enc E iv bs) = bs"
proof (induction bs arbitrary: iv)
  case (Cons b bs)
  then show ?case by (simp add: Let_def length_E D_E)
qed simp

lemma length_cbc_enc:
  "length iv = bsize \<Longrightarrow> \<forall>b\<in>set bs. length b = bsize \<Longrightarrow>
     \<forall>c\<in>set (cbc_spec_enc E iv bs). length c = bsize"
proof (induction bs arbitrary: iv)
  case (Cons b bs)
  then have "length (E (xor_bytes b iv)) = bsize" by (simp add: length_E)
  then show ?case using Cons.IH [of "E (xor_bytes b iv)"] Cons.prems by (simp add: Let_def)
qed simp

lemma length_concat_cbc_enc:
  "length iv = bsize \<Longrightarrow> \<forall>b\<in>set bs. length b = bsize \<Longrightarrow>
     length (concat (cbc_spec_enc E iv bs)) = bsize * length bs"
proof (induction bs arbitrary: iv)
  case (Cons b bs)
  then have "length (E (xor_bytes b iv)) = bsize" by (simp add: length_E)
  then show ?case using Cons.IH [of "E (xor_bytes b iv)"] Cons.prems by (simp add: Let_def)
qed simp

lemma cbc_padded_roundtrip:
  assumes "length iv = bsize"
  shows "take (length xs) (concat (cbc_spec_dec D iv (cbc_spec_enc E iv (padded_blocks bsize xs)))) = xs"
proof -
  have "cbc_spec_dec D iv (cbc_spec_enc E iv (padded_blocks bsize xs)) = padded_blocks bsize xs"
    using assms length_in_padded_blocks by (intro cbc_dec_enc) auto
  then show ?thesis using take_concat_padded_blocks [OF bsize_pos] by simp
qed

end

subsection \<open>Whole messages under a cipher that permutes blocks\<close>

lemma padded_blocks_append:
  "0 < n \<Longrightarrow> n dvd length xs \<Longrightarrow> padded_blocks n (xs @ ys) = padded_blocks n xs @ padded_blocks n ys"
proof (induction n xs rule: padded_blocks.induct)
  case (1 n xs)
  show ?case
  proof (cases "xs = []")
    case False
    then have l: "n \<le> length xs" using 1(3) by (auto dest: dvd_imp_le)
    then have "n dvd length (drop n xs)" using 1(3) by simp
    then show ?thesis using 1 False l
      by (simp add: padded_blocks_step [of n "xs @ ys"] padded_blocks_step [of n xs])
  qed simp
qed

lemma padded_blocks_concat: "0 < n \<Longrightarrow> \<forall>b\<in>set bs. length b = n \<Longrightarrow> padded_blocks n (concat bs) = bs"
proof (induction bs)
  case (Cons b bs)
  then have "padded_blocks n b = [b]" using padded_blocks_last [of b n] by (cases b) auto
  then show ?case using Cons by (simp add: padded_blocks_append)
qed simp

lemma length_concat_blocks: "\<forall>b\<in>set bs. length b = n \<Longrightarrow> length (concat bs) = n * length bs"
  by (induction bs) auto

lemma concat_padded_blocks: "0 < n \<Longrightarrow> n dvd length xs \<Longrightarrow> concat (padded_blocks n xs) = xs"
proof (induction n xs rule: padded_blocks.induct)
  case (1 n xs)
  show ?case
  proof (cases "xs = []")
    case False
    then have l: "n \<le> length xs" using 1(3) by (auto dest: dvd_imp_le)
    then have "n dvd length (drop n xs)" using 1(3) by simp
    then show ?thesis using 1 False l by (simp add: padded_blocks_step [of n xs])
  qed simp
qed

lemma cbc_spec_enc_append:
  "cbc_spec_enc E v (xs @ ys) = cbc_spec_enc E v xs @ cbc_spec_enc E (last (v # cbc_spec_enc E v xs)) ys"
  by (induction xs arbitrary: v) (auto simp: Let_def)

lemma cbc_spec_dec_append:
  "cbc_spec_dec D v (xs @ ys) = cbc_spec_dec D v xs @ cbc_spec_dec D (last (v # xs)) ys"
  by (induction xs arbitrary: v) auto

lemma last_Cons_append: "last (v # xs @ ys) = last (last (v # xs) # ys)"
  by (induction xs arbitrary: v) auto

locale block_cipher_total = block_cipher +
  assumes length_D: "length b = bsize \<Longrightarrow> length (D b) = bsize"
begin

definition cbc_bytes :: "bool \<Rightarrow> bytes \<Rightarrow> bytes \<Rightarrow> bytes \<times> bytes" where
  "cbc_bytes enc v xs =
     (let bs = padded_blocks bsize xs; cs = (if enc then cbc_spec_enc E v bs else bs)
      in (concat (if enc then cs else cbc_spec_dec D v bs), last (v # cs)))"

lemma blocks_of: "\<forall>b\<in>set (padded_blocks bsize xs). length b = bsize"
  using length_in_padded_blocks by blast

lemma length_last:
  "length v = bsize \<Longrightarrow> \<forall>b\<in>set bs. length b = bsize \<Longrightarrow> length (last (v # bs)) = bsize"
  by (cases bs rule: rev_cases) auto

lemma length_cbc_dec:
  "length v = bsize \<Longrightarrow> \<forall>b\<in>set bs. length b = bsize \<Longrightarrow>
     length (concat (cbc_spec_dec D v bs)) = bsize * length bs"
proof (induction bs arbitrary: v)
  case (Cons b bs)
  then show ?case using Cons.IH [of b] by (simp add: length_D)
qed simp

lemma length_cbc_bytes:
  assumes "length v = bsize" "bsize dvd length xs" "cbc_bytes enc v xs = (ys, v')"
  shows "length ys = length xs \<and> length v' = bsize"
proof -
  have "length (concat (padded_blocks bsize xs)) = bsize * length (padded_blocks bsize xs)"
    using length_concat_blocks [OF blocks_of] .
  then have n: "bsize * length (padded_blocks bsize xs) = length xs"
    using concat_padded_blocks [OF bsize_pos assms(2)] by simp
  note e = length_concat_cbc_enc [OF assms(1) blocks_of [of xs]]
    length_last [OF assms(1) length_cbc_enc [OF assms(1) blocks_of [of xs]]]
  note d = length_cbc_dec [OF assms(1) blocks_of [of xs]] length_last [OF assms(1) blocks_of [of xs]]
  show ?thesis
  proof (cases enc)
    case True
    then have "ys = concat (cbc_spec_enc E v (padded_blocks bsize xs))"
      "v' = last (v # cbc_spec_enc E v (padded_blocks bsize xs))"
      using assms(3) by (simp_all add: cbc_bytes_def Let_def)
    then show ?thesis using e n by (simp only: simp_thms)
  next
    case False
    then have "ys = concat (cbc_spec_dec D v (padded_blocks bsize xs))"
      "v' = last (v # padded_blocks bsize xs)"
      using assms(3) by (simp_all add: cbc_bytes_def Let_def)
    then show ?thesis using d n by (simp only: simp_thms)
  qed
qed

lemma cbc_bytes_append:
  assumes "length v = bsize" "bsize dvd length xs"
  shows "cbc_bytes enc v (xs @ ys) =
     (let (us, v1) = cbc_bytes enc v xs; (vs, v2) = cbc_bytes enc v1 ys in (us @ vs, v2))"
  unfolding cbc_bytes_def padded_blocks_append [OF bsize_pos assms(2)]
  by (simp only: Let_def prod.case cbc_spec_enc_append cbc_spec_dec_append last_Cons_append concat_append
      split: if_split) (simp add: last_Cons_append)

lemma cbc_bytes_Nil [simp]: "cbc_bytes enc v [] = ([], v)"
  by (simp add: cbc_bytes_def)

lemma cbc_bytes_undo:
  assumes "length v = bsize" "bsize dvd length xs" "cbc_bytes True v xs = (ys, v')"
  shows "cbc_bytes False v ys = (xs, v')"
proof -
  let ?cs = "cbc_spec_enc E v (padded_blocks bsize xs)"
  have y: "ys = concat ?cs" "v' = last (v # ?cs)"
    using assms(3) by (simp_all add: cbc_bytes_def Let_def split: if_splits)
  have "padded_blocks bsize ys = ?cs"
    unfolding y by (rule padded_blocks_concat [OF bsize_pos length_cbc_enc [OF assms(1) blocks_of]])
  then show ?thesis
    by (simp add: cbc_bytes_def y(2) cbc_dec_enc [OF assms(1) blocks_of]
        concat_padded_blocks [OF bsize_pos assms(2)])
qed

end

subsection \<open>CRYPTO_cbc128_encrypt\<close>

text \<open>
  \<open>inp\<close> is the memory that may be read from \<^verbatim>\<open>in\<close> on, \<open>len\<close> the length argument; the
  result is the bytes written from \<^verbatim>\<open>out\<close> on and the final contents of \<^verbatim>\<open>ivec\<close>, or
  \<open>None\<close> when the code reads past \<open>inp\<close>.
\<close>

(* src: crypto/modes/cbc.c@83-100 CRYPTO_cbc128_encrypt *)
fun cbc128_enc_tail :: "(bytes \<Rightarrow> bytes) \<Rightarrow> bytes \<Rightarrow> nat \<Rightarrow> bytes \<Rightarrow> (bytes \<times> bytes) option" where
  "cbc128_enc_tail block inp len iv =
     (if len = 0 then Some ([], iv)
      else if length inp < min 16 len then None
      else
        let n = min 16 len;
            out = block (xor_bytes (take n inp) iv @ drop n iv)
        in if len \<le> 16 then Some (out, out)
           else map_option (\<lambda>(os, iv'). (out @ os, iv'))
                  (cbc128_enc_tail block (drop 16 inp) (len - 16) out))"

(* src: crypto/modes/cbc.c CRYPTO_cbc128_encrypt *)
fun CRYPTO_cbc128_encrypt ::
  "(bytes \<Rightarrow> bytes) \<Rightarrow> bytes \<Rightarrow> nat \<Rightarrow> bytes \<Rightarrow> (bytes \<times> bytes) option" where
  "CRYPTO_cbc128_encrypt block inp len iv =
     (if 16 \<le> len then
        if length inp < 16 then None
        else
          let out = block (xor_bytes (take 16 inp) iv)
          in map_option (\<lambda>(os, iv'). (out @ os, iv'))
               (CRYPTO_cbc128_encrypt block (drop 16 inp) (len - 16) out)
      else cbc128_enc_tail block inp len iv)"

declare cbc128_enc_tail.simps [simp del] CRYPTO_cbc128_encrypt.simps [simp del]

subsection \<open>CRYPTO_cbc128_decrypt\<close>

(* src: crypto/modes/cbc.c@182-201 CRYPTO_cbc128_decrypt *)
fun cbc128_dec_tail :: "(bytes \<Rightarrow> bytes) \<Rightarrow> bytes \<Rightarrow> nat \<Rightarrow> bytes \<Rightarrow> (bytes \<times> bytes) option" where
  "cbc128_dec_tail block inp len ivec =
     (if len = 0 then Some ([], ivec)
      else if length inp < 16 then None
      else
        let tmp = block (take 16 inp);
            n = min 16 len;
            out = xor_bytes (take n tmp) ivec;
            ivec1 = take n inp @ drop n ivec
        in if len \<le> 16 then Some (out, take n ivec1 @ drop n (take 16 inp))
           else map_option (\<lambda>(os, iv'). (out @ os, iv'))
                  (cbc128_dec_tail block (drop 16 inp) (len - 16) ivec1))"

text \<open>Input and output apart: the chaining value is the previous block of the input.\<close>

(* src: crypto/modes/cbc.c@117-146 CRYPTO_cbc128_decrypt *)
fun cbc128_dec_apart :: "(bytes \<Rightarrow> bytes) \<Rightarrow> bytes \<Rightarrow> nat \<Rightarrow> bytes \<Rightarrow> (bytes \<times> bytes) option" where
  "cbc128_dec_apart block inp len iv =
     (if 16 \<le> len then
        if length inp < 16 then None
        else
          let out = xor_bytes (block (take 16 inp)) iv
          in map_option (\<lambda>(os, iv'). (out @ os, iv'))
               (cbc128_dec_apart block (drop 16 inp) (len - 16) (take 16 inp))
      else cbc128_dec_tail block inp len iv)"

text \<open>
  In place: each word of the block is saved before it is overwritten and then becomes the
  chaining value.  The buffer, which starts at the block in hand, is threaded through.
\<close>

(* src: crypto/modes/cbc.c@170-175 CRYPTO_cbc128_decrypt *)
fun cbc128_inplace_words :: "nat \<Rightarrow> bytes \<Rightarrow> bytes \<Rightarrow> bytes \<Rightarrow> bytes \<times> bytes" where
  "cbc128_inplace_words 0 tmp buf ivec = (buf, ivec)"
| "cbc128_inplace_words (Suc k) tmp buf ivec =
     (let n = 2 - Suc k;
          c = mem_read buf (8 * n) 8;
          buf' = mem_write buf (8 * n) (xor_bytes (mem_read tmp (8 * n) 8) (mem_read ivec (8 * n) 8))
      in cbc128_inplace_words k tmp buf' (mem_write ivec (8 * n) c))"

(* src: crypto/modes/cbc.c@162-180 CRYPTO_cbc128_decrypt *)
fun cbc128_dec_inplace :: "(bytes \<Rightarrow> bytes) \<Rightarrow> bytes \<Rightarrow> nat \<Rightarrow> bytes \<Rightarrow> (bytes \<times> bytes) option" where
  "cbc128_dec_inplace block inp len ivec =
     (if 16 \<le> len then
        if length inp < 16 then None
        else
          let (buf, ivec') = cbc128_inplace_words 2 (block (take 16 inp)) inp ivec
          in map_option (\<lambda>(os, iv'). (take 16 buf @ os, iv'))
               (cbc128_dec_inplace block (drop 16 buf) (len - 16) ivec')
      else cbc128_dec_tail block inp len ivec)"

(* src: crypto/modes/cbc.c CRYPTO_cbc128_decrypt *)
definition CRYPTO_cbc128_decrypt ::
  "(bytes \<Rightarrow> bytes) \<Rightarrow> bool \<Rightarrow> bytes \<Rightarrow> nat \<Rightarrow> bytes \<Rightarrow> (bytes \<times> bytes) option" where
  "CRYPTO_cbc128_decrypt block in_place inp len ivec =
     (if in_place then cbc128_dec_inplace block inp len ivec
      else cbc128_dec_apart block inp len ivec)"

declare cbc128_dec_tail.simps [simp del] cbc128_dec_apart.simps [simp del]
  cbc128_dec_inplace.simps [simp del]


subsection \<open>The code computes CBC\<close>

lemma cbc128_encrypt_spec:
  assumes "length inp = len" "length iv = 16" "\<And>b. length b = 16 \<Longrightarrow> length (block b) = 16"
  shows "CRYPTO_cbc128_encrypt block inp len iv =
           (let cs = cbc_spec_enc block iv (padded_blocks 16 inp) in Some (concat cs, last (iv # cs)))"
  using assms
proof (induction len arbitrary: inp iv rule: less_induct)
  case (less len)
  show ?case
  proof (cases "16 \<le> len")
    case True
    let ?o = "block (xor_bytes (take 16 inp) iv)"
    have lo: "length ?o = 16" using less.prems True by simp
    have "CRYPTO_cbc128_encrypt block (drop 16 inp) (len - 16) ?o =
           (let cs = cbc_spec_enc block ?o (padded_blocks 16 (drop 16 inp))
            in Some (concat cs, last (?o # cs)))"
      using less.prems True lo by (intro less.IH) auto
    then show ?thesis using True less.prems
      by (subst CRYPTO_cbc128_encrypt.simps) (simp add: Let_def padded_blocks_step)
  next
    case False
    then have tail: "CRYPTO_cbc128_encrypt block inp len iv = cbc128_enc_tail block inp len iv"
      by (subst CRYPTO_cbc128_encrypt.simps) simp
    show ?thesis
    proof (cases "len = 0")
      case True
      then show ?thesis using less.prems tail by (simp add: cbc128_enc_tail.simps)
    next
      case len: False
      have "xor_bytes (inp @ replicate (16 - len) 0) iv = xor_bytes inp iv @ drop len iv"
        by (rule nth_equalityI) (use less.prems False in \<open>auto simp: nth_append\<close>)
      then show ?thesis using less.prems tail False len
        by (subst tail, subst cbc128_enc_tail.simps) (auto simp: padded_blocks_last Let_def min_def)
    qed
  qed
qed

lemma cbc128_dec_tail_spec:
  assumes "\<forall>c\<in>set cs. length c = 16 \<and> length (block c) = 16"
    "len \<le> 16 * length cs" "16 * length cs < len + 16" "length iv = 16" "len < 16"
  shows "cbc128_dec_tail block (concat cs) len iv =
           Some (take len (concat (cbc_spec_dec block iv cs)), last (iv # cs))"
proof (cases "len = 0")
  case True
  then have "cs = []" using assms by auto
  then show ?thesis using True by (simp add: cbc128_dec_tail.simps)
next
  case False
  then have "length cs = 1" using assms by auto
  then obtain c where cs: "cs = [c]" by (cases cs) auto
  have "take len c @ drop len c = c" by simp
  then show ?thesis using False assms cs
    by (subst cbc128_dec_tail.simps) (simp add: min_def Let_def take_xor_bytes)
qed

lemma cbc128_dec_apart_spec:
  assumes "\<forall>c\<in>set cs. length c = 16 \<and> length (block c) = 16"
    "len \<le> 16 * length cs" "16 * length cs < len + 16" "length iv = 16"
  shows "cbc128_dec_apart block (concat cs) len iv =
           Some (take len (concat (cbc_spec_dec block iv cs)), last (iv # cs))"
  using assms
proof (induction cs arbitrary: len iv)
  case Nil
  then show ?case by (simp add: cbc128_dec_apart.simps cbc128_dec_tail.simps)
next
  case (Cons c cs)
  show ?case
  proof (cases "16 \<le> len")
    case True
    have "cbc128_dec_apart block (concat cs) (len - 16) c =
           Some (take (len - 16) (concat (cbc_spec_dec block c cs)), last (c # cs))"
      using Cons.prems True by (intro Cons.IH) auto
    then show ?thesis using True Cons.prems by (subst cbc128_dec_apart.simps) (simp add: Let_def)
  next
    case False
    then show ?thesis using Cons.prems cbc128_dec_tail_spec [of "c # cs" block len iv]
      by (subst cbc128_dec_apart.simps) simp
  qed
qed

text \<open>In place or apart, decryption computes the same: the words are saved before they are lost.\<close>

lemma split_two_words:
  assumes "16 \<le> length xs"
  obtains a b c where "xs = a @ b @ c" "length a = 8" "length b = 8"
proof
  show "xs = take 8 xs @ take 8 (drop 8 xs) @ drop 16 xs"
    using append_take_drop_id [of 8 "drop 8 xs"] by simp
qed (use assms in auto)

lemma cbc128_inplace_words_eq:
  assumes "16 \<le> length buf" "length tmp = 16" "length iv = 16"
  shows "cbc128_inplace_words 2 tmp buf iv = (xor_bytes tmp iv @ drop 16 buf, take 16 buf)"
proof -
  obtain b1 b2 b3 where b: "buf = b1 @ b2 @ b3" "length b1 = 8" "length b2 = 8"
    using split_two_words assms(1) by blast
  obtain t1 t2 t3 where t: "tmp = t1 @ t2 @ t3" "length t1 = 8" "length t2 = 8"
    using split_two_words [of tmp] assms(2) by (metis order_refl)
  obtain v1 v2 v3 where v: "iv = v1 @ v2 @ v3" "length v1 = 8" "length v2 = 8"
    using split_two_words [of iv] assms(3) by (metis order_refl)
  have e: "t3 = []" "v3 = []" using t v assms by auto
  have w2: "cbc128_inplace_words 2 tmp buf iv = cbc128_inplace_words (Suc 0) tmp
      (xor_bytes t1 v1 @ b2 @ b3) (b1 @ v2)"
    by (subst numeral_2_eq_2, subst cbc128_inplace_words.simps)
       (simp add: Let_def mem_read_def mem_write_def b t v e del: cbc128_inplace_words.simps)
  have w1: "cbc128_inplace_words (Suc 0) tmp (xor_bytes t1 v1 @ b2 @ b3) (b1 @ v2)
      = (xor_bytes t1 v1 @ xor_bytes t2 v2 @ b3, b1 @ b2)"
    by (simp add: Let_def t e) (simp add: mem_read_def mem_write_def b t v)
  show ?thesis unfolding w2 w1 by (simp add: b t v e xor_bytes_append)
qed

lemma cbc128_dec_inplace_eq_apart:
  assumes "\<forall>c\<in>set cs. length c = 16 \<and> length (block c) = 16"
    "len \<le> 16 * length cs" "length iv = 16"
  shows "cbc128_dec_inplace block (concat cs) len iv = cbc128_dec_apart block (concat cs) len iv"
  using assms
proof (induction cs arbitrary: len iv)
  case Nil
  then show ?case by (simp add: cbc128_dec_apart.simps cbc128_dec_inplace.simps)
next
  case (Cons c cs)
  show ?case
  proof (cases "16 \<le> len")
    case True
    have "cbc128_dec_inplace block (concat cs) (len - 16) c
        = cbc128_dec_apart block (concat cs) (len - 16) c"
      using Cons.prems True by (intro Cons.IH) auto
    then show ?thesis using True Cons.prems
      by (subst cbc128_dec_apart.simps, subst cbc128_dec_inplace.simps)
         (simp add: Let_def cbc128_inplace_words_eq)
  next
    case False
    then show ?thesis by (simp add: cbc128_dec_apart.simps cbc128_dec_inplace.simps)
  qed
qed

lemma CRYPTO_cbc128_decrypt_spec:
  assumes "\<forall>c\<in>set cs. length c = 16 \<and> length (block c) = 16"
    "len \<le> 16 * length cs" "16 * length cs < len + 16" "length iv = 16"
  shows "CRYPTO_cbc128_decrypt block in_place (concat cs) len iv =
           Some (take len (concat (cbc_spec_dec block iv cs)), last (iv # cs))"
  using assms by (simp add: CRYPTO_cbc128_decrypt_def cbc128_dec_inplace_eq_apart cbc128_dec_apart_spec)

lemma length_padded_blocks: "0 < n \<Longrightarrow> length xs \<le> n * length (padded_blocks n xs)
    \<and> n * length (padded_blocks n xs) < length xs + n"
proof (induction n xs rule: padded_blocks.induct)
  case (1 n xs)
  show ?case
  proof (cases "xs = [] \<or> length xs \<le> n")
    case True
    then show ?thesis using 1(2) padded_blocks_last [of xs n] by (cases "xs = []") auto
  next
    case False
    then show ?thesis using 1 padded_blocks_step [of n xs] by auto
  qed
qed

lemma cbc_spec_enc_images:
  "length iv = n \<Longrightarrow> \<forall>b\<in>set bs. length b = n \<Longrightarrow> \<forall>b. length b = n \<longrightarrow> length (E b) = n \<Longrightarrow>
     \<forall>c\<in>set (cbc_spec_enc E iv bs). \<exists>b. c = E b \<and> length b = n"
proof (induction bs arbitrary: iv)
  case (Cons b bs)
  let ?x = "xor_bytes b iv"
  have "length ?x = n" using Cons.prems by simp
  then show ?case using Cons.IH [of "E ?x"] Cons.prems by (auto simp: Let_def)
qed simp

text \<open>
  C28: CBC round trip.  For any block cipher on 16 bytes, decrypting (in place or not) what
  CRYPTO_cbc128_encrypt wrote for any number of bytes gives the bytes back and leaves the same
  chaining value in the IV; the ciphertext is the input rounded up to whole blocks, and the
  sixteen-byte reads of decryption never leave it.
\<close>
theorem cbc128_roundtrip:
  assumes "\<forall>b. length b = 16 \<longrightarrow> length (encrypt b) = 16 \<and> decrypt (encrypt b) = b"
    and "length iv = 16"
  shows "\<exists>ct iv'. CRYPTO_cbc128_encrypt encrypt data (length data) iv = Some (ct, iv')
           \<and> length ct = 16 * ((length data + 15) div 16)
           \<and> (\<forall>in_place. CRYPTO_cbc128_decrypt decrypt in_place ct (length data) iv
                = Some (data, iv'))"
proof -
  have E: "\<And>b. length b = 16 \<Longrightarrow> length (encrypt b) = 16" using assms by simp
  have cipher: "block_cipher 16 encrypt decrypt" using assms by unfold_locales auto
  let ?bs = "padded_blocks 16 data"
  let ?cs = "cbc_spec_enc encrypt iv ?bs"
  have bs: "\<forall>b\<in>set ?bs. length b = 16" using length_in_padded_blocks by blast
  have enc: "CRYPTO_cbc128_encrypt encrypt data (length data) iv = Some (concat ?cs, last (iv # ?cs))"
    using cbc128_encrypt_spec [of data "length data" iv encrypt] E assms(2) by (simp add: Let_def)
  have nb: "length ?bs = (length data + 15) div 16"
    using length_padded_blocks [of 16 data] by auto
  have cs: "\<forall>c\<in>set ?cs. length c = 16 \<and> length (decrypt c) = 16"
    using cbc_spec_enc_images [of iv 16 ?bs encrypt] assms bs by fastforce
  have "CRYPTO_cbc128_decrypt decrypt p (concat ?cs) (length data) iv = Some (data, last (iv # ?cs))" for p
    using CRYPTO_cbc128_decrypt_spec [OF cs, of "length data" iv p] assms(2)
      length_padded_blocks [of 16 data] block_cipher.cbc_padded_roundtrip [OF cipher assms(2)] by simp
  then show ?thesis using enc nb block_cipher.length_concat_cbc_enc [OF cipher assms(2) bs] by simp
qed

theorem cbc128_roundtrip_witness:
  "\<exists>ct iv'. CRYPTO_cbc128_encrypt (map (\<lambda>b. b + 3)) [1, 2, 3, 4, 5, 6, 7, 8, 9, 10, 11, 12, 13, 14, 15, 16, 17]
       (length [1 :: u8, 2, 3, 4, 5, 6, 7, 8, 9, 10, 11, 12, 13, 14, 15, 16, 17]) (replicate 16 7) = Some (ct, iv')
     \<and> length ct = 16 * ((length [1 :: u8, 2, 3, 4, 5, 6, 7, 8, 9, 10, 11, 12, 13, 14, 15, 16, 17] + 15) div 16)
     \<and> (\<forall>in_place. CRYPTO_cbc128_decrypt (map (\<lambda>b. b - 3)) in_place ct
          (length [1 :: u8, 2, 3, 4, 5, 6, 7, 8, 9, 10, 11, 12, 13, 14, 15, 16, 17]) (replicate 16 7)
          = Some ([1, 2, 3, 4, 5, 6, 7, 8, 9, 10, 11, 12, 13, 14, 15, 16, 17], iv'))"
  by (rule cbc128_roundtrip) (simp_all add: comp_def)


section \<open>CTR and OFB\<close>

text \<open>The first loop of CTR and OFB: use up what is left of the current key stream block.\<close>

(* src: crypto/modes/ctr.c@100-104 CRYPTO_ctr128_encrypt *)
fun stream_drain :: "bytes \<Rightarrow> nat \<Rightarrow> bytes \<Rightarrow> bytes \<times> nat \<times> bytes" where
  "stream_drain buf n [] = ([], n, [])"
| "stream_drain buf n (b # bs) =
     (if n = 0 then ([], 0, b # bs)
      else let (os, n', rest) = stream_drain buf ((n + 1) mod 16) bs
           in ((b XOR buf ! n) # os, n', rest))"

text \<open>CTR keeps the counter, the current block of key stream and the position in it.\<close>

type_synonym ctr_state = "bytes \<times> bytes \<times> nat"

(* src: crypto/modes/ctr.c@106-118 CRYPTO_ctr128_encrypt *)
fun ctr_byte :: "(bytes \<Rightarrow> bytes) \<Rightarrow> ctr_state \<Rightarrow> u8 \<Rightarrow> u8 \<times> ctr_state" where
  "ctr_byte block (ivec, ecount_buf, n) b =
     (let (ivec, ecount_buf) = (if n = 0 then (ctr128_inc ivec, block ivec) else (ivec, ecount_buf))
      in (b XOR ecount_buf ! n, (ivec, ecount_buf, (n + 1) mod 16)))"

text \<open>After the first loop the position is 0 unless the input is used up, so a block starts at 0.\<close>

(* src: crypto/modes/ctr.c@120-138 CRYPTO_ctr128_encrypt *)
fun ctr_blocks :: "(bytes \<Rightarrow> bytes) \<Rightarrow> bytes \<Rightarrow> bytes \<Rightarrow> nat \<Rightarrow> bytes \<Rightarrow> bytes \<times> ctr_state" where
  "ctr_blocks block ivec ecount_buf n inp =
     (if 16 \<le> length inp then
        let ecount_buf = block ivec;
            (os, st) = ctr_blocks block (ctr128_inc ivec) ecount_buf 0 (drop 16 inp)
        in (xor_bytes (take 16 inp) ecount_buf @ os, st)
      else if inp \<noteq> [] then
        let ecount_buf = block ivec
        in (xor_bytes inp (drop n ecount_buf), (ctr128_inc ivec, ecount_buf, n + length inp))
      else ([], (ivec, ecount_buf, n)))"

declare ctr_blocks.simps [simp del]

text \<open>\<open>None\<close> is the assertion that \<^verbatim>\<open>*num < 16\<close> failing.\<close>

(* src: crypto/modes/ctr.c CRYPTO_ctr128_encrypt *)
definition CRYPTO_ctr128_encrypt ::
  "(bytes \<Rightarrow> bytes) \<Rightarrow> bytes \<Rightarrow> ctr_state \<Rightarrow> (bytes \<times> ctr_state) option" where
  "CRYPTO_ctr128_encrypt block inp st =
     (case st of (ivec, ecount_buf, num) \<Rightarrow>
        if 16 \<le> num then None
        else
          let (os, n, rest) = stream_drain ecount_buf num inp;
              (os', st') = ctr_blocks block ivec ecount_buf n rest
          in Some (os @ os', st'))"

text \<open>OFB feeds the block function its own output.\<close>

type_synonym ofb_state = "bytes \<times> nat"

(* src: crypto/modes/ofb.c@71-83 CRYPTO_ofb128_encrypt *)
fun ofb_byte :: "(bytes \<Rightarrow> bytes) \<Rightarrow> ofb_state \<Rightarrow> u8 \<Rightarrow> u8 \<times> ofb_state" where
  "ofb_byte block (ivec, n) b =
     (let ivec = (if n = 0 then block ivec else ivec)
      in (b XOR ivec ! n, (ivec, (n + 1) mod 16)))"

(* src: crypto/modes/ofb.c@85-103 CRYPTO_ofb128_encrypt *)
fun ofb_blocks :: "(bytes \<Rightarrow> bytes) \<Rightarrow> bytes \<Rightarrow> nat \<Rightarrow> bytes \<Rightarrow> bytes \<times> ofb_state" where
  "ofb_blocks block ivec n inp =
     (if 16 \<le> length inp then
        let ivec = block ivec;
            (os, st) = ofb_blocks block ivec 0 (drop 16 inp)
        in (xor_bytes (take 16 inp) ivec @ os, st)
      else if inp \<noteq> [] then
        let ivec = block ivec
        in (xor_bytes inp (drop n ivec), (ivec, n + length inp))
      else ([], (ivec, n)))"

declare ofb_blocks.simps [simp del]

text \<open>
  OFB and CFB do not check the position they are given: \<open>None\<close> is the read of \<^verbatim>\<open>ivec\<close>
  past its sixteen bytes that one of 16 or more leads to.
\<close>

(* src: crypto/modes/ofb.c CRYPTO_ofb128_encrypt *)
definition CRYPTO_ofb128_encrypt ::
  "(bytes \<Rightarrow> bytes) \<Rightarrow> bytes \<Rightarrow> ofb_state \<Rightarrow> (bytes \<times> ofb_state) option" where
  "CRYPTO_ofb128_encrypt block inp st =
     (case st of (ivec, num) \<Rightarrow>
        if 16 \<le> num \<and> inp \<noteq> [] then None
        else
          let (os, n, rest) = stream_drain ivec num inp;
              (os', st') = ofb_blocks block ivec n rest
          in Some (os @ os', st'))"

subsection \<open>The block-wise loops equal the byte-wise ones\<close>

lemma stream_drain_rest: "stream_drain buf n inp = (os, n', rest) \<Longrightarrow> rest \<noteq> [] \<Longrightarrow> n' = 0"
  by (induction buf n inp arbitrary: os rule: stream_drain.induct)
     (auto simp: Let_def split: if_splits prod.splits)

lemma stream_drain_0 [simp]: "stream_drain buf 0 inp = ([], 0, inp)"
  by (cases inp) auto

lemma stream_drain_bound: "n < 16 \<Longrightarrow> stream_drain buf n inp = (os, n', rest) \<Longrightarrow> n' < 16"
  by (induction buf n inp arbitrary: os rule: stream_drain.induct)
     (auto simp: Let_def split: if_splits prod.splits)

text \<open>A run of at most a block's worth of bytes that starts inside a block.\<close>

lemma ctr_run_within:
  "0 < n \<Longrightarrow> n < 16 \<Longrightarrow> n + length xs \<le> 16 \<Longrightarrow> length e = 16 \<Longrightarrow>
     stream_run (ctr_byte block) (iv, e, n) xs
       = (xor_bytes xs (drop n e), (iv, e, (n + length xs) mod 16))"
proof (induction xs arbitrary: n)
  case (Cons x xs)
  have d: "drop n e = e ! n # drop (Suc n) e" using Cons.prems by (simp add: Cons_nth_drop_Suc)
  show ?case
  proof (cases "n = 15")
    case True
    then show ?thesis using Cons.prems d by (simp add: xor_bytes_def)
  next
    case False
    then show ?thesis using Cons.prems Cons.IH [of "Suc n"] d by (simp add: xor_bytes_def)
  qed
qed simp

lemma ctr_run_block:
  assumes "xs \<noteq> []" "length xs \<le> 16" "length (block iv) = 16"
  shows "stream_run (ctr_byte block) (iv, e, 0) xs
       = (xor_bytes xs (block iv), (ctr128_inc iv, block iv, length xs mod 16))"
proof -
  obtain x ys where xs: "xs = x # ys" using assms by (cases xs) auto
  have d: "block iv = block iv ! 0 # drop (Suc 0) (block iv)"
    using assms by (metis Cons_nth_drop_Suc drop0 zero_less_numeral)
  have x: "xor_bytes (x # ys) (block iv) = (x XOR block iv ! 0) # xor_bytes ys (drop (Suc 0) (block iv))"
    by (subst d) (simp add: xor_bytes_def)
  show ?thesis using assms ctr_run_within [of "Suc 0" ys "block iv" block "ctr128_inc iv"] xs x
    by simp
qed

lemma ctr_run_drain:
  "stream_drain e n inp = (os, n', rest) \<Longrightarrow>
     stream_run (ctr_byte block) (iv, e, n) inp
       = (let (os', st) = stream_run (ctr_byte block) (iv, e, n') rest in (os @ os', st))"
  by (induction e n inp arbitrary: os rule: stream_drain.induct)
     (auto simp: Let_def split: if_splits prod.splits)

lemma ctr_blocks_run:
  assumes "\<And>b. length b = 16 \<Longrightarrow> length (block b) = 16" "length iv = 16"
  shows "ctr_blocks block iv e 0 inp = stream_run (ctr_byte block) (iv, e, 0) inp"
  using assms(2)
proof (induction "length inp" arbitrary: inp iv e rule: less_induct)
  case less
  have lb: "length (block iv) = 16" using assms(1) less.prems .
  show ?case
  proof (cases "16 \<le> length inp")
    case True
    then have IH: "ctr_blocks block (ctr128_inc iv) (block iv) 0 (drop 16 inp)
        = stream_run (ctr_byte block) (ctr128_inc iv, block iv, 0) (drop 16 inp)"
      using less by simp
    have "stream_run (ctr_byte block) (iv, e, 0) (take 16 inp @ drop 16 inp)
        = (let (os, st) = stream_run (ctr_byte block) (ctr128_inc iv, block iv, 0) (drop 16 inp)
           in (xor_bytes (take 16 inp) (block iv) @ os, st))"
      using ctr_run_block [of "take 16 inp" block iv e] lb True
      by (subst stream_run_append) (cases inp, auto simp: Let_def)
    then show ?thesis using True IH by (subst ctr_blocks.simps) (simp add: Let_def)
  next
    case False
    then show ?thesis using ctr_run_block [of inp block iv e] lb
      by (subst ctr_blocks.simps) (auto simp: Let_def)
  qed
qed

lemma CRYPTO_ctr128_encrypt_run:
  assumes "\<And>b. length b = 16 \<Longrightarrow> length (block b) = 16" "length ivec = 16" "num < 16"
  shows "CRYPTO_ctr128_encrypt block inp (ivec, e, num)
       = Some (stream_run (ctr_byte block) (ivec, e, num) inp)"
proof -
  obtain os n rest where d: "stream_drain e num inp = (os, n, rest)" by (metis prod_cases3)
  have "ctr_blocks block ivec e n rest = stream_run (ctr_byte block) (ivec, e, n) rest"
  proof (cases "rest = []")
    case True
    then show ?thesis by (simp add: ctr_blocks.simps)
  next
    case False
    then show ?thesis using stream_drain_rest [OF d] ctr_blocks_run assms by simp
  qed
  then show ?thesis using d assms(3) ctr_run_drain [OF d, of block ivec]
    by (simp add: CRYPTO_ctr128_encrypt_def split: prod.splits)
qed


lemma ofb_run_within:
  "0 < n \<Longrightarrow> n < 16 \<Longrightarrow> n + length xs \<le> 16 \<Longrightarrow> length e = 16 \<Longrightarrow>
     stream_run (ofb_byte block) (e, n) xs = (xor_bytes xs (drop n e), (e, (n + length xs) mod 16))"
proof (induction xs arbitrary: n)
  case (Cons x xs)
  have d: "drop n e = e ! n # drop (Suc n) e" using Cons.prems by (simp add: Cons_nth_drop_Suc)
  show ?case
  proof (cases "n = 15")
    case True
    then show ?thesis using Cons.prems d by (simp add: xor_bytes_def)
  next
    case False
    then show ?thesis using Cons.prems Cons.IH [of "Suc n"] d by (simp add: xor_bytes_def)
  qed
qed simp

lemma ofb_run_block:
  assumes "xs \<noteq> []" "length xs \<le> 16" "length (block iv) = 16"
  shows "stream_run (ofb_byte block) (iv, 0) xs
       = (xor_bytes xs (block iv), (block iv, length xs mod 16))"
proof -
  obtain x ys where xs: "xs = x # ys" using assms by (cases xs) auto
  have d: "block iv = block iv ! 0 # drop (Suc 0) (block iv)"
    using assms by (metis Cons_nth_drop_Suc drop0 zero_less_numeral)
  have x: "xor_bytes (x # ys) (block iv) = (x XOR block iv ! 0) # xor_bytes ys (drop (Suc 0) (block iv))"
    by (subst d) (simp add: xor_bytes_def)
  show ?thesis using assms ofb_run_within [of "Suc 0" ys "block iv" block] xs x
    by (simp add: Let_def)
qed

lemma ofb_run_drain:
  "stream_drain e n inp = (os, n', rest) \<Longrightarrow>
     stream_run (ofb_byte block) (e, n) inp
       = (let (os', st) = stream_run (ofb_byte block) (e, n') rest in (os @ os', st))"
  by (induction e n inp arbitrary: os rule: stream_drain.induct)
     (auto simp: Let_def split: if_splits prod.splits)

lemma ofb_blocks_run:
  assumes "\<And>b. length b = 16 \<Longrightarrow> length (block b) = 16" "length iv = 16"
  shows "ofb_blocks block iv 0 inp = stream_run (ofb_byte block) (iv, 0) inp"
  using assms(2)
proof (induction "length inp" arbitrary: inp iv rule: less_induct)
  case less
  have lb: "length (block iv) = 16" using assms(1) less.prems .
  show ?case
  proof (cases "16 \<le> length inp")
    case True
    then have IH: "ofb_blocks block (block iv) 0 (drop 16 inp)
        = stream_run (ofb_byte block) (block iv, 0) (drop 16 inp)"
      using less lb by simp
    have "stream_run (ofb_byte block) (iv, 0) (take 16 inp @ drop 16 inp)
        = (let (os, st) = stream_run (ofb_byte block) (block iv, 0) (drop 16 inp)
           in (xor_bytes (take 16 inp) (block iv) @ os, st))"
      using ofb_run_block [of "take 16 inp" block iv] lb True
      by (subst stream_run_append) (cases inp, auto simp: Let_def)
    then show ?thesis using True IH by (subst ofb_blocks.simps) (simp add: Let_def)
  next
    case False
    then show ?thesis using ofb_run_block [of inp block iv] lb
      by (subst ofb_blocks.simps) (auto simp: Let_def)
  qed
qed

lemma CRYPTO_ofb128_encrypt_run:
  assumes "\<And>b. length b = 16 \<Longrightarrow> length (block b) = 16" "length ivec = 16" "num < 16"
  shows "CRYPTO_ofb128_encrypt block inp (ivec, num)
       = Some (stream_run (ofb_byte block) (ivec, num) inp)"
proof -
  obtain os n rest where d: "stream_drain ivec num inp = (os, n, rest)" by (metis prod_cases3)
  have "ofb_blocks block ivec n rest = stream_run (ofb_byte block) (ivec, n) rest"
  proof (cases "rest = []")
    case True
    then show ?thesis by (simp add: ofb_blocks.simps)
  next
    case False
    then show ?thesis using stream_drain_rest [OF d] ofb_blocks_run assms by simp
  qed
  then show ?thesis using d assms(3) ofb_run_drain [OF d, of block]
    by (simp add: CRYPTO_ofb128_encrypt_def split: prod.splits)
qed

section \<open>CTR over a 32-bit counter function\<close>

text \<open>
  \<^verbatim>\<open>GETU32\<close> and \<^verbatim>\<open>PUTU32\<close> at byte 12 of the counter, read and written most
  significant byte first.
\<close>

(* src: crypto/modes/internal.h@141-142 GETU32 *)
definition GETU32 :: "bytes \<Rightarrow> nat \<Rightarrow> u32" where
  "GETU32 p i = word_of_nat (be_nat (mem_read p i 4))"

(* src: crypto/modes/internal.h@143-145 PUTU32 *)
definition PUTU32 :: "bytes \<Rightarrow> nat \<Rightarrow> u32 \<Rightarrow> bytes" where
  "PUTU32 p i v = mem_write p i (be_bytes 4 (unat v))"

text \<open>
  How many blocks one call of the counter function gets, and the counter after it: at most
  \<open>2 ^ 28\<close>, and never past the point where the 32-bit counter returns to zero.
\<close>

(* src: crypto/modes/ctr.c@184-197 CRYPTO_ctr128_encrypt_ctr32 *)
definition ctr32_batch :: "u32 \<Rightarrow> nat \<Rightarrow> nat \<times> u32" where
  "ctr32_batch ctr32 len =
     (let blocks = len div 16;
          blocks = (if 2 ^ 28 < blocks then 2 ^ 28 else blocks);
          ctr32 = ctr32 + word_of_nat blocks
      in if unat ctr32 < blocks then (blocks - unat ctr32, 0) else (blocks, ctr32))"

lemma ctr32_batch_bounds:
  assumes "ctr32_batch c len = (blocks, c')" "16 \<le> len"
  shows "0 < blocks \<and> 16 * blocks \<le> len \<and> unat c + blocks \<le> 2 ^ 32
    \<and> unat c' = (unat c + blocks) mod 2 ^ 32"
proof -
  define b where "b = (if 2 ^ 28 < len div 16 then 2 ^ 28 else len div 16 :: nat)"
  have b: "0 < b" "b \<le> 2 ^ 28" "16 * b \<le> len"
    using assms(2) by (auto simp: b_def)
  have c: "unat c < 2 ^ 32" using unsigned_less [of c] by simp
  have s: "unat (c + word_of_nat b) = (unat c + b) mod 2 ^ 32"
    using b by (simp add: unat_word_ariths unat_of_nat)
  have e: "ctr32_batch c len = (if unat (c + word_of_nat b) < b
      then (b - unat (c + word_of_nat b), 0) else (b, c + word_of_nat b))"
    by (simp add: ctr32_batch_def Let_def b_def)
  show ?thesis
  proof (cases "unat c + b < 2 ^ 32")
    case True
    then show ?thesis using assms e s b by (auto split: if_splits)
  next
    case False
    then have "(unat c + b) mod 2 ^ 32 = unat c + b - 2 ^ 32"
      using c b by (simp add: le_mod_geq)
    then have "unat (c + word_of_nat b) = unat c + b - 2 ^ 32" using s by simp
    moreover from this have "unat (c + word_of_nat b) < b" using c False b by linarith
    ultimately have "blocks = 2 ^ 32 - unat c" "c' = 0" using assms(1) e c False by auto
    then show ?thesis using c False b by simp
  qed
qed

text \<open>
  The main loop.  \<open>func inp blocks ivec\<close> is the output of \<^verbatim>\<open>(*func)\<close>, which does not
  touch \<^verbatim>\<open>ivec\<close>.
\<close>

(* src: crypto/modes/ctr.c@179-209 CRYPTO_ctr128_encrypt_ctr32 *)
function ctr32_loop ::
  "(bytes \<Rightarrow> nat \<Rightarrow> bytes \<Rightarrow> bytes) \<Rightarrow> bytes \<Rightarrow> u32 \<Rightarrow> bytes \<Rightarrow> bytes \<times> bytes \<times> u32 \<times> bytes" where
  "ctr32_loop func ivec ctr32 inp =
     (if 16 \<le> length inp then
        let (blocks, ctr32') = ctr32_batch ctr32 (length inp);
            out = func (take (16 * blocks) inp) blocks ivec;
            ivec1 = PUTU32 ivec 12 ctr32';
            ivec2 = (if ctr32' = 0 then ctr96_inc ivec1 else ivec1);
            (os, st) = ctr32_loop func ivec2 ctr32' (drop (16 * blocks) inp)
        in (out @ os, st)
      else ([], ivec, ctr32, inp))"
  by pat_completeness auto
termination
proof (relation "measure (\<lambda>(_, _, _, inp). length inp)", goal_cases)
  case (2 func ivec ctr32 inp x blocks ctr32')
  then show ?case using ctr32_batch_bounds [of ctr32 "length inp" blocks ctr32'] by auto
qed simp

declare ctr32_loop.simps [simp del]

(* src: crypto/modes/ctr.c CRYPTO_ctr128_encrypt_ctr32 *)
definition CRYPTO_ctr128_encrypt_ctr32 ::
  "(bytes \<Rightarrow> nat \<Rightarrow> bytes \<Rightarrow> bytes) \<Rightarrow> bytes \<Rightarrow> ctr_state \<Rightarrow> (bytes \<times> ctr_state) option" where
  "CRYPTO_ctr128_encrypt_ctr32 func inp st =
     (case st of (ivec, ecount_buf, num) \<Rightarrow>
        if 16 \<le> num then None
        else
          let (os, n, rest) = stream_drain ecount_buf num inp;
              (os', ivec, ctr32, rest) = ctr32_loop func ivec (GETU32 ivec 12) rest
          in if rest = [] then Some (os @ os', (ivec, ecount_buf, n))
             else
               let ecount_buf = func (replicate 16 0) 1 ivec;
                   ctr32 = ctr32 + 1;
                   ivec = PUTU32 ivec 12 ctr32;
                   ivec = (if ctr32 = 0 then ctr96_inc ivec else ivec)
               in Some (os @ os' @ xor_bytes rest (drop n ecount_buf),
                        (ivec, ecount_buf, n + length rest)))"


text \<open>
  The contract of a \<^verbatim>\<open>ctr128_f\<close>: counter mode that moves only the low 32 bits of the
  counter.
\<close>

definition ctr32_next :: "bytes \<Rightarrow> bytes" where
  "ctr32_next iv = PUTU32 iv 12 (GETU32 iv 12 + 1)"

fun ctr32_func :: "(bytes \<Rightarrow> bytes) \<Rightarrow> bytes \<Rightarrow> nat \<Rightarrow> bytes \<Rightarrow> bytes" where
  "ctr32_func block inp 0 iv = []"
| "ctr32_func block inp (Suc k) iv =
     xor_bytes (take 16 inp) (block iv) @ ctr32_func block (drop 16 inp) k (ctr32_next iv)"

text \<open>The counter \<open>k\<close> steps on.\<close>

definition ctr_add :: "bytes \<Rightarrow> nat \<Rightarrow> bytes" where
  "ctr_add iv k = be_bytes 16 (be_nat iv + k)"

lemma length_ctr_add [simp]: "length (ctr_add iv k) = 16"
  by (simp add: ctr_add_def)

lemma ctr_add_0 [simp]: "length iv = 16 \<Longrightarrow> ctr_add iv 0 = iv"
  using be_bytes_be_nat [of iv] by (simp add: ctr_add_def)

lemma be_bytes_cong: "m mod 256 ^ k = n mod 256 ^ k \<Longrightarrow> be_bytes k m = be_bytes k n"
  by (metis be_bytes_mod)

lemma ctr_add_add [simp]: "ctr_add (ctr_add iv j) k = ctr_add iv (j + k)"
  unfolding ctr_add_def be_nat_be_bytes
  by (rule be_bytes_cong) (simp only: mod_add_left_eq add.assoc)

lemma ctr128_inc_eq_add: "length iv = 16 \<Longrightarrow> ctr128_inc iv = ctr_add iv 1"
  by (simp add: ctr128_inc_def ctr_inc_loop_eq ctr_add_def)

lemma split_counter:
  assumes "length iv = 16"
  obtains p c where "iv = p @ be_bytes 4 c" "length p = 12" "c < 2 ^ 32"
    "GETU32 iv 12 = word_of_nat c"
proof
  have l: "length (drop 12 iv) = 4" using assms by simp
  have d: "be_bytes 4 (be_nat (drop 12 iv)) = drop 12 iv" using be_bytes_be_nat [of "drop 12 iv"] l by simp
  show "iv = take 12 iv @ be_bytes 4 (be_nat (drop 12 iv))" unfolding d by simp
  show "length (take 12 iv) = 12" using assms by simp
  show "be_nat (drop 12 iv) < 2 ^ 32" using be_nat_bound [of "drop 12 iv"] l by simp
  show "GETU32 iv 12 = word_of_nat (be_nat (drop 12 iv))"
    using l by (simp add: GETU32_def mem_read_def)
qed

lemma PUTU32_counter:
  "length p = 12 \<Longrightarrow> PUTU32 (p @ be_bytes 4 c) 12 v = p @ be_bytes 4 (unat v)"
  using mem_write_middle [of "be_bytes 4 c" "be_bytes 4 (unat v)" p "[]"] by (simp add: PUTU32_def)

lemma GETU32_counter: "length p = 12 \<Longrightarrow> c < 2 ^ 32 \<Longrightarrow> GETU32 (p @ be_bytes 4 c) 12 = word_of_nat c"
  by (simp add: GETU32_def mem_read_def be_nat_be_bytes_small)

lemma be_nat_counter:
  "length p = 12 \<Longrightarrow> c < 2 ^ 32 \<Longrightarrow> be_nat (p @ be_bytes 4 c) = be_nat p * 2 ^ 32 + c"
  using be_nat_acc_eq [of "be_nat p" "be_bytes 4 c"]
  by (simp add: be_nat_acc_append be_nat_be_bytes_small)

lemma ctr_add_low:
  assumes "length p = 12" "c + k < 2 ^ 32"
  shows "ctr_add (p @ be_bytes 4 c) k = p @ be_bytes 4 (c + k)"
proof -
  have "be_nat (p @ be_bytes 4 c) + k = be_nat (p @ be_bytes 4 (c + k))"
    using assms by (simp add: be_nat_counter)
  then show ?thesis
    using be_bytes_be_nat [of "p @ be_bytes 4 (c + k)"] assms(1) by (simp add: ctr_add_def)
qed

lemma ctr_add_carry:
  assumes "length p = 12" "c < 2 ^ 32" "c + k = 2 ^ 32"
  shows "ctr_add (p @ be_bytes 4 c) k = ctr96_inc (p @ be_bytes 4 0)"
proof -
  have i: "ctr96_inc (p @ be_bytes 4 0) = be_bytes 12 (be_nat p + 1) @ be_bytes 4 0"
    using assms(1) ctr_inc_loop_eq [of 12 "p @ be_bytes 4 0"] by (simp add: ctr96_inc_def)
  have "be_nat (p @ be_bytes 4 c) + k = (be_nat p + 1) * 2 ^ 32"
    using assms by (simp add: be_nat_counter algebra_simps)
  moreover have "be_nat (be_bytes 12 (be_nat p + 1) @ be_bytes 4 0)
      = ((be_nat p + 1) mod 256 ^ 12) * 2 ^ 32"
    by (subst be_nat_counter) (simp_all only: length_be_bytes be_nat_be_bytes, simp_all)
  ultimately have "be_nat (ctr_add (p @ be_bytes 4 c) k)
      = be_nat (be_bytes 12 (be_nat p + 1) @ be_bytes 4 0)"
    using mult_mod_left [of "be_nat p + 1" "256 ^ 12" "2 ^ 32"]
    by (simp add: ctr_add_def be_nat_be_bytes)
  then show ?thesis unfolding i by (rule be_nat_inj [rotated]) simp
qed

lemma unat_u32_plus1: "unat (x :: u32) + 1 < 2 ^ 32 \<Longrightarrow> unat (x + 1) = unat x + 1"
  using unat_word_ariths(1) [of x 1] by simp

text \<open>Within one batch, stepping the low word is stepping the whole counter.\<close>

lemma ctr32_next_eq:
  assumes "length iv = 16" "unat (GETU32 iv 12) + 1 < 2 ^ 32"
  shows "ctr32_next iv = ctr_add iv 1" "unat (GETU32 (ctr_add iv 1) 12) = unat (GETU32 iv 12) + 1"
proof -
  obtain p c where pc: "iv = p @ be_bytes 4 c" "length p = 12" "c < 2 ^ 32"
    "GETU32 iv 12 = word_of_nat c" using split_counter [OF assms(1)] .
  have u: "unat (GETU32 iv 12) = c" using pc(3,4) by (simp add: unat_of_nat)
  have n: "unat (GETU32 iv 12 + 1) = c + 1"
    using assms(2) u unat_u32_plus1 [of "GETU32 iv 12"] by simp
  show 1: "ctr32_next iv = ctr_add iv 1"
    using assms(2) u pc(1,2) n PUTU32_counter [of p c] ctr_add_low [of p c 1]
    by (simp add: ctr32_next_def)
  have a: "ctr_add iv 1 = p @ be_bytes 4 (c + 1)"
    using assms(2) u pc(1,2) ctr_add_low [of p c 1] by simp
  show "unat (GETU32 (ctr_add iv 1) 12) = unat (GETU32 iv 12) + 1"
    unfolding a u using pc(2) assms(2) u by (subst GETU32_counter) (simp_all only: unat_of_nat, simp)
qed

lemma ctr_batch_run:
  assumes "\<And>b. length b = 16 \<Longrightarrow> length (block b) = 16"
  shows "length iv = 16 \<Longrightarrow> length inp = 16 * k \<Longrightarrow> unat (GETU32 iv 12) + k \<le> 2 ^ 32 \<Longrightarrow>
     \<exists>e'. stream_run (ctr_byte block) (iv, e, 0) inp = (ctr32_func block inp k iv, (ctr_add iv k, e', 0))"
proof (induction k arbitrary: iv inp e)
  case (Suc k)
  have lb: "length (block iv) = 16" using assms Suc.prems(1) .
  have "stream_run (ctr_byte block) (iv, e, 0) (take 16 inp @ drop 16 inp)
      = (let (os, st) = stream_run (ctr_byte block) (ctr128_inc iv, block iv, 0) (drop 16 inp)
         in (xor_bytes (take 16 inp) (block iv) @ os, st))"
    using ctr_run_block [of "take 16 inp" block iv e] lb Suc.prems
    by (subst stream_run_append) (cases inp, auto simp: Let_def)
  moreover have "\<exists>e'. stream_run (ctr_byte block) (ctr128_inc iv, block iv, 0) (drop 16 inp)
      = (ctr32_func block (drop 16 inp) k (ctr32_next iv), (ctr_add iv (Suc k), e', 0))"
  proof (cases k)
    case 0
    then show ?thesis using Suc.prems ctr128_inc_eq_add by simp
  next
    case (Suc j)
    then have "unat (GETU32 iv 12) + 1 < 2 ^ 32" using Suc.prems by simp
    then show ?thesis
      using ctr32_next_eq [of iv] Suc.IH [of "ctr_add iv 1" "drop 16 inp" "block iv"] Suc.prems
        ctr128_inc_eq_add by simp
  qed
  ultimately show ?case by auto
qed simp


lemma ctr_batch_state:
  assumes "length iv = 16" "ctr32_batch (GETU32 iv 12) len = (blocks, c')" "16 \<le> len"
  shows "(if c' = 0 then ctr96_inc (PUTU32 iv 12 c') else PUTU32 iv 12 c') = ctr_add iv blocks"
    "GETU32 (ctr_add iv blocks) 12 = c'"
proof -
  obtain p c where pc: "iv = p @ be_bytes 4 c" "length p = 12" "c < 2 ^ 32"
    "GETU32 iv 12 = word_of_nat c" using split_counter [OF assms(1)] .
  have u: "unat (GETU32 iv 12) = c" using pc(3,4) by (simp add: unat_of_nat)
  note b = ctr32_batch_bounds [OF assms(2,3), unfolded u]
  have "(if c' = 0 then ctr96_inc (PUTU32 iv 12 c') else PUTU32 iv 12 c') = ctr_add iv blocks
    \<and> GETU32 (ctr_add iv blocks) 12 = c'"
  proof (cases "c + blocks = 2 ^ 32")
    case True
    then have c': "c' = 0" using b by (simp add: unat_eq_zero)
    have "ctr_add iv blocks = ctr96_inc (p @ be_bytes 4 0)"
      using ctr_add_carry pc(1-3) True by simp
    moreover have "ctr96_inc (p @ be_bytes 4 0) = be_bytes 12 (be_nat p + 1) @ be_bytes 4 0"
      using pc(2) ctr_inc_loop_eq [of 12 "p @ be_bytes 4 0"] by (simp add: ctr96_inc_def)
    ultimately show ?thesis using c' pc(1,2) PUTU32_counter [of p c 0] GETU32_counter [of _ 0] by simp
  next
    case False
    then have lt: "c + blocks < 2 ^ 32" using b by linarith
    then have uc: "unat c' = c + blocks" using b by simp
    then have "c' \<noteq> 0" using b by auto
    moreover have "ctr_add iv blocks = p @ be_bytes 4 (c + blocks)"
      using ctr_add_low pc(1,2) lt by simp
    moreover have "(word_of_nat (c + blocks) :: u32) = c'" unfolding uc [symmetric] by simp
    ultimately show ?thesis
      using pc(1,2) uc PUTU32_counter [of p c c'] GETU32_counter [of p "c + blocks"] lt
      by simp
  qed
  then show "(if c' = 0 then ctr96_inc (PUTU32 iv 12 c') else PUTU32 iv 12 c') = ctr_add iv blocks"
    "GETU32 (ctr_add iv blocks) 12 = c'" by auto
qed

lemma ctr32_loop_run:
  assumes blk: "\<And>b. length b = 16 \<Longrightarrow> length (block b) = 16"
    and func: "\<And>inp n iv. length inp = 16 * n \<Longrightarrow> func inp n iv = ctr32_func block inp n iv"
  shows "length iv = 16 \<Longrightarrow>
     (case ctr32_loop func iv (GETU32 iv 12) inp of (os, iv', c', rest) \<Rightarrow>
        length rest < 16 \<and> length iv' = 16 \<and> c' = GETU32 iv' 12 \<and>
        (\<exists>e'. (length inp < 16 \<longrightarrow> e' = e) \<and>
           stream_run (ctr_byte block) (iv, e, 0) inp
           = (let (os', st) = stream_run (ctr_byte block) (iv', e', 0) rest in (os @ os', st))))"
proof (induction "length inp" arbitrary: iv inp e rule: less_induct)
  case less
  show ?case
  proof (cases "16 \<le> length inp")
    case False
    then show ?thesis using less.prems by (subst ctr32_loop.simps) (auto split: prod.splits)
  next
    case True
    obtain k c' where b: "ctr32_batch (GETU32 iv 12) (length inp) = (k, c')" by fastforce
    note bd = ctr32_batch_bounds [OF b True] and st = ctr_batch_state [OF less.prems b True]
    have l: "length (take (16 * k) inp) = 16 * k" using bd by simp
    obtain e1 where r: "stream_run (ctr_byte block) (iv, e, 0) (take (16 * k) inp)
        = (ctr32_func block (take (16 * k) inp) k iv, (ctr_add iv k, e1, 0))"
      using ctr_batch_run [where block = block, OF blk less.prems l] bd by blast
    obtain os iv2 c2 rest where lp: "ctr32_loop func (ctr_add iv k) c' (drop (16 * k) inp) = (os, iv2, c2, rest)"
      by (metis prod_cases4)
    have "length (drop (16 * k) inp) < length inp" using bd True by (cases inp) auto
    from less.hyps [OF this, of "ctr_add iv k" e1] obtain e2 where IH:
      "length rest < 16" "length iv2 = 16" "c2 = GETU32 iv2 12"
      "stream_run (ctr_byte block) (ctr_add iv k, e1, 0) (drop (16 * k) inp)
         = (let (os', st) = stream_run (ctr_byte block) (iv2, e2, 0) rest in (os @ os', st))"
      using lp st(2) by auto
    have "stream_run (ctr_byte block) (iv, e, 0) (take (16 * k) inp @ drop (16 * k) inp)
        = (let (os', st) = stream_run (ctr_byte block) (iv2, e2, 0) rest
           in ((func (take (16 * k) inp) k iv @ os) @ os', st))"
      by (subst stream_run_append) (simp add: r IH(4) func [OF l] split: prod.splits)
    moreover have "ctr32_loop func iv (GETU32 iv 12) inp
        = (func (take (16 * k) inp) k iv @ os, iv2, c2, rest)"
      using True lp st(1) by (subst ctr32_loop.simps) (simp add: b Let_def)
    ultimately show ?thesis using IH(1-3) True by auto
  qed
qed


lemma ctr32_encrypt_run:
  assumes blk: "\<And>b. length b = 16 \<Longrightarrow> length (block b) = 16"
    and func: "\<And>inp n iv. length inp = 16 * n \<Longrightarrow> func inp n iv = ctr32_func block inp n iv"
    and st: "length ivec = 16" "num < 16" "length e = 16"
    and run: "stream_run (ctr_byte block) (ivec, e, num) inp = (os, (iv', e', num'))"
  shows "\<exists>e''. CRYPTO_ctr128_encrypt_ctr32 func inp (ivec, e, num) = Some (os, (iv', e'', num'))
    \<and> (num' \<noteq> 0 \<longrightarrow> e'' = e')"
proof -
  obtain o1 n r1 where d: "stream_drain e num inp = (o1, n, r1)" by (metis prod_cases3)
  have n0: "n = 0" if "r1 \<noteq> []" using stream_drain_rest [OF d that] .
  obtain o2 iv2 c2 r2 where lp: "ctr32_loop func ivec (GETU32 ivec 12) r1 = (o2, iv2, c2, r2)"
    by (metis prod_cases4)
  show ?thesis
  proof (cases "r1 = []")
    case True
    then have "ctr32_loop func ivec (GETU32 ivec 12) r1 = ([], ivec, GETU32 ivec 12, [])"
      by (simp add: ctr32_loop.simps)
    then show ?thesis using True d run ctr_run_drain [OF d, of block ivec] st
      by (auto simp: CRYPTO_ctr128_encrypt_ctr32_def)
  next
    case False
    obtain e2 where l: "length r2 < 16" "length iv2 = 16" "c2 = GETU32 iv2 12"
      "stream_run (ctr_byte block) (ivec, e, 0) r1
         = (let (os', st) = stream_run (ctr_byte block) (iv2, e2, 0) r2 in (o2 @ os', st))"
      using ctr32_loop_run [where block = block and func = func and inp = r1 and e = e, OF blk func st(1)] lp
      by auto
    have whole: "(os, iv', e', num')
        = (let (os', st) = stream_run (ctr_byte block) (iv2, e2, 0) r2 in (o1 @ o2 @ os', st))"
      using ctr_run_drain [OF d, of block ivec] run n0 [OF False] l(4)
      by (auto simp: Let_def split: prod.splits)
    show ?thesis
    proof (cases "r2 = []")
      case True
      then show ?thesis using d lp whole n0 [OF False] st by (simp add: CRYPTO_ctr128_encrypt_ctr32_def)
    next
      case r2: False
      have lb: "length (block iv2) = 16" using blk l(2) .
      have z: "xor_bytes (replicate 16 0) (block iv2) = block iv2"
        by (rule nth_equalityI) (use lb in auto)
      have f: "func (replicate 16 0) 1 iv2 = block iv2"
        using func [of "replicate 16 0" 1] z by simp
      have b: "ctr32_batch (GETU32 iv2 12) 16 = (1, GETU32 iv2 12 + 1)"
        by (auto simp: ctr32_batch_def Let_def unat_eq_zero)
      have inc: "(if c2 + 1 = 0 then ctr96_inc (PUTU32 iv2 12 (c2 + 1)) else PUTU32 iv2 12 (c2 + 1))
          = ctr128_inc iv2"
        unfolding l(3) ctr128_inc_eq_add [OF l(2)] by (rule ctr_batch_state(1) [OF l(2) b]) simp
      show ?thesis using d lp whole n0 [OF False] st r2 f inc ctr_run_block [of r2 block iv2 e2] lb l(1)
        by (simp add: CRYPTO_ctr128_encrypt_ctr32_def Let_def)
    qed
  qed
qed

section \<open>CFB\<close>

(* src: crypto/modes/cfb.c@74-81 CRYPTO_cfb128_encrypt *)
fun cfb_byte :: "(bytes \<Rightarrow> bytes) \<Rightarrow> bool \<Rightarrow> ofb_state \<Rightarrow> u8 \<Rightarrow> u8 \<times> ofb_state" where
  "cfb_byte block enc (ivec, n) b =
     (let ivec = (if n = 0 then block ivec else ivec);
          y = ivec ! n XOR b
      in (y, (ivec[n := if enc then y else b], (n + 1) mod 16)))"

(* src: crypto/modes/cfb.c@67-71 CRYPTO_cfb128_encrypt *)
fun cfb_drain :: "bool \<Rightarrow> bytes \<Rightarrow> nat \<Rightarrow> bytes \<Rightarrow> bytes \<times> bytes \<times> nat \<times> bytes" where
  "cfb_drain enc ivec n [] = ([], ivec, n, [])"
| "cfb_drain enc ivec n (b # bs) =
     (if n = 0 then ([], ivec, 0, b # bs)
      else
        let y = ivec ! n XOR b;
            (os, ivec', n', rest) = cfb_drain enc (ivec[n := if enc then y else b]) ((n + 1) mod 16) bs
        in (y # os, ivec', n', rest))"

(* src: crypto/modes/cfb.c@85-103 CRYPTO_cfb128_encrypt *)
fun cfb_blocks :: "(bytes \<Rightarrow> bytes) \<Rightarrow> bool \<Rightarrow> bytes \<Rightarrow> nat \<Rightarrow> bytes \<Rightarrow> bytes \<times> ofb_state" where
  "cfb_blocks block enc ivec n inp =
     (if 16 \<le> length inp then
        let ivec = block ivec;
            out = xor_bytes (take 16 inp) ivec;
            (os, st) = cfb_blocks block enc (if enc then out else take 16 inp) 0 (drop 16 inp)
        in (out @ os, st)
      else if inp \<noteq> [] then
        let ivec = block ivec;
            out = xor_bytes inp (drop n ivec)
        in (out, (mem_write ivec n (if enc then out else inp), n + length inp))
      else ([], (ivec, n)))"

declare cfb_blocks.simps [simp del]

(* src: crypto/modes/cfb.c CRYPTO_cfb128_encrypt *)
definition CRYPTO_cfb128_encrypt ::
  "(bytes \<Rightarrow> bytes) \<Rightarrow> bool \<Rightarrow> bytes \<Rightarrow> ofb_state \<Rightarrow> (bytes \<times> ofb_state) option" where
  "CRYPTO_cfb128_encrypt block enc inp st =
     (case st of (ivec, num) \<Rightarrow>
        if 16 \<le> num \<and> inp \<noteq> [] then None
        else
          let (os, ivec, n, rest) = cfb_drain enc ivec num inp;
              (os', st') = cfb_blocks block enc ivec n rest
          in Some (os @ os', st'))"

text \<open>
  One segment of CFB with \<open>nbits\<close> of feedback: the output and the shifted IV, or \<open>None\<close> when the
  code returns without doing anything.
\<close>

(* src: crypto/modes/cfb.c cfbr_encrypt_block *)
definition cfbr_encrypt_block ::
  "(bytes \<Rightarrow> bytes) \<Rightarrow> bool \<Rightarrow> nat \<Rightarrow> bytes \<Rightarrow> bytes \<Rightarrow> (bytes \<times> bytes) option" where
  "cfbr_encrypt_block block enc nbits inp ivec =
     (if nbits = 0 \<or> 128 < nbits then None
      else
        let iv = block ivec;
            out = xor_bytes (take ((nbits + 7) div 8) inp) iv;
            ovec = ivec @ (if enc then out else take ((nbits + 7) div 8) inp);
            rem = nbits mod 8;
            num = nbits div 8
        in Some (out,
             if rem = 0 then mem_read ovec num 16
             else map (\<lambda>n. push_bit rem (ovec ! (n + num)) OR drop_bit (8 - rem) (ovec ! (n + num + 1)))
                      [0..<16]))"

(* src: crypto/modes/cfb.c CRYPTO_cfb128_8_encrypt *)
fun CRYPTO_cfb128_8_encrypt ::
  "(bytes \<Rightarrow> bytes) \<Rightarrow> bool \<Rightarrow> bytes \<Rightarrow> bytes \<Rightarrow> (bytes \<times> bytes) option" where
  "CRYPTO_cfb128_8_encrypt block enc [] ivec = Some ([], ivec)"
| "CRYPTO_cfb128_8_encrypt block enc (b # bs) ivec =
     (case cfbr_encrypt_block block enc 8 (b # bs) ivec of
        None \<Rightarrow> None
      | Some (out, ivec') \<Rightarrow>
          map_option (\<lambda>(os, iv). (out @ os, iv)) (CRYPTO_cfb128_8_encrypt block enc bs ivec'))"

text \<open>The bits of a buffer, most significant bit of each byte first.\<close>

definition bit_at :: "bytes \<Rightarrow> nat \<Rightarrow> bool" where
  "bit_at p n = bit (p ! (n div 8)) (7 - n mod 8)"

(* src: crypto/modes/cfb.c@209-210 CRYPTO_cfb128_1_encrypt *)
definition cfb1_put :: "bytes \<Rightarrow> nat \<Rightarrow> u8 \<Rightarrow> bytes" where
  "cfb1_put out n d =
     out[n div 8 := (out ! (n div 8) AND NOT (push_bit (7 - n mod 8) 1))
                    OR drop_bit (n mod 8) (d AND 0x80)]"

(* src: crypto/modes/cfb.c@206-211 CRYPTO_cfb128_1_encrypt *)
fun cfb1_loop ::
  "(bytes \<Rightarrow> bytes) \<Rightarrow> bool \<Rightarrow> bytes \<Rightarrow> nat \<Rightarrow> nat \<Rightarrow> bytes \<Rightarrow> bytes \<Rightarrow> (bytes \<times> bytes) option" where
  "cfb1_loop block enc inp n 0 out ivec = Some (out, ivec)"
| "cfb1_loop block enc inp n (Suc k) out ivec =
     (let c = (if inp ! (n div 8) AND push_bit (7 - n mod 8) 1 \<noteq> 0 then 0x80 else 0)
      in case cfbr_encrypt_block block enc 1 [c] ivec of
           None \<Rightarrow> None
         | Some (d, ivec') \<Rightarrow> cfb1_loop block enc inp (n + 1) k (cfb1_put out n (d ! 0)) ivec')"

(* src: crypto/modes/cfb.c CRYPTO_cfb128_1_encrypt *)
definition CRYPTO_cfb128_1_encrypt ::
  "(bytes \<Rightarrow> bytes) \<Rightarrow> bool \<Rightarrow> bytes \<Rightarrow> nat \<Rightarrow> bytes \<Rightarrow> bytes \<Rightarrow> (bytes \<times> bytes) option" where
  "CRYPTO_cfb128_1_encrypt block enc inp bits out ivec = cfb1_loop block enc inp 0 bits out ivec"


lemma cfb_drain_rest: "cfb_drain enc iv n inp = (os, iv', n', rest) \<Longrightarrow> rest \<noteq> [] \<Longrightarrow> n' = 0"
  by (induction enc iv n inp arbitrary: os rule: cfb_drain.induct)
     (auto simp: Let_def split: if_splits prod.splits)

lemma cfb_drain_length:
  "cfb_drain enc iv n inp = (os, iv', n', rest) \<Longrightarrow> length iv' = length iv"
  by (induction enc iv n inp arbitrary: os rule: cfb_drain.induct)
     (auto simp: Let_def split: if_splits prod.splits)

lemma cfb_run_drain:
  "cfb_drain enc iv n inp = (os, iv', n', rest) \<Longrightarrow>
     stream_run (cfb_byte block enc) (iv, n) inp
       = (let (os', st) = stream_run (cfb_byte block enc) (iv', n') rest in (os @ os', st))"
  by (induction enc iv n inp arbitrary: os rule: cfb_drain.induct)
     (auto simp: Let_def split: if_splits prod.splits)

lemma cfb_run_within:
  "0 < n \<Longrightarrow> n < 16 \<Longrightarrow> n + length xs \<le> 16 \<Longrightarrow> length iv = 16 \<Longrightarrow>
     stream_run (cfb_byte block enc) (iv, n) xs
       = (xor_bytes xs (drop n iv),
          (mem_write iv n (if enc then xor_bytes xs (drop n iv) else xs), (n + length xs) mod 16))"
proof (induction xs arbitrary: n iv)
  case (Cons x xs)
  have d: "drop n iv = iv ! n # drop (Suc n) iv" using Cons.prems by (simp add: Cons_nth_drop_Suc)
  let ?y = "iv ! n XOR x"
  let ?iv = "iv[n := if enc then ?y else x]"
  have x: "xor_bytes (x # xs) (drop n iv) = ?y # xor_bytes xs (drop (Suc n) iv)"
    by (simp add: d xor_bytes_def xor.commute)
  have dr: "drop (Suc n) ?iv = drop (Suc n) iv" by simp
  have w: "mem_write ?iv (Suc n) zs = mem_write iv n ((if enc then ?y else x) # zs)" for zs
    using Cons.prems by (simp add: mem_write_def upd_conv_take_nth_drop min_def
        take_Suc_conv_app_nth add.commute)
  show ?case
  proof (cases "n = 15")
    case True
    then show ?thesis using Cons.prems x w [of "[]"] by (cases enc) (simp_all add: Let_def)
  next
    case False
    then show ?thesis using Cons.prems Cons.IH [of "Suc n" ?iv] x w dr by (auto simp: Let_def)
  qed
qed simp

lemma cfb_run_block:
  assumes "xs \<noteq> []" "length xs \<le> 16" "length (block iv) = 16"
  shows "stream_run (cfb_byte block enc) (iv, 0) xs
       = (xor_bytes xs (block iv),
          (mem_write (block iv) 0 (if enc then xor_bytes xs (block iv) else xs), length xs mod 16))"
proof -
  obtain x ys where xs: "xs = x # ys" using assms by (cases xs) auto
  obtain b bs where b: "block iv = b # bs" using assms by (cases "block iv") auto
  have x: "xor_bytes (x # ys) (block iv) = (b XOR x) # xor_bytes ys bs"
    by (simp add: b xor_bytes_def xor.commute)
  show ?thesis
    using assms cfb_run_within [of "Suc 0" ys "(if enc then b XOR x else x) # bs" block enc] xs x b
    by (auto simp: Let_def mem_write_def)
qed

lemma cfb_blocks_run:
  assumes "\<And>b. length b = 16 \<Longrightarrow> length (block b) = 16" "length iv = 16"
  shows "cfb_blocks block enc iv 0 inp = stream_run (cfb_byte block enc) (iv, 0) inp"
  using assms(2)
proof (induction "length inp" arbitrary: inp iv rule: less_induct)
  case less
  have lb: "length (block iv) = 16" using assms(1) less.prems .
  show ?case
  proof (cases "16 \<le> length inp")
    case True
    let ?out = "xor_bytes (take 16 inp) (block iv)"
    let ?iv = "if enc then ?out else take 16 inp"
    have IH: "cfb_blocks block enc ?iv 0 (drop 16 inp)
        = stream_run (cfb_byte block enc) (?iv, 0) (drop 16 inp)"
      using less True lb by simp
    have "mem_write (block iv) 0 ?iv = ?iv" using lb True by (simp add: mem_write_def)
    then have "stream_run (cfb_byte block enc) (iv, 0) (take 16 inp @ drop 16 inp)
        = (let (os, st) = stream_run (cfb_byte block enc) (?iv, 0) (drop 16 inp) in (?out @ os, st))"
      using cfb_run_block [of "take 16 inp" block iv enc] lb True
      by (subst stream_run_append) (cases inp, auto simp: Let_def)
    then show ?thesis using True IH by (subst cfb_blocks.simps) (simp add: Let_def)
  next
    case False
    then show ?thesis using cfb_run_block [of inp block iv enc] lb
      by (subst cfb_blocks.simps) (auto simp: Let_def)
  qed
qed

lemma CRYPTO_cfb128_encrypt_run:
  assumes "\<And>b. length b = 16 \<Longrightarrow> length (block b) = 16" "length ivec = 16" "num < 16"
  shows "CRYPTO_cfb128_encrypt block enc inp (ivec, num)
       = Some (stream_run (cfb_byte block enc) (ivec, num) inp)"
proof -
  obtain os iv n rest where d: "cfb_drain enc ivec num inp = (os, iv, n, rest)" by (metis prod_cases4)
  have "cfb_blocks block enc iv n rest = stream_run (cfb_byte block enc) (iv, n) rest"
  proof (cases "rest = []")
    case True
    then show ?thesis by (simp add: cfb_blocks.simps)
  next
    case False
    then show ?thesis using cfb_drain_rest [OF d] cfb_drain_length [OF d] cfb_blocks_run assms by simp
  qed
  then show ?thesis using d assms(3) cfb_run_drain [OF d, of block]
    by (simp add: CRYPTO_cfb128_encrypt_def split: prod.splits)
qed

subsection \<open>CFB with 8 and with 1 bit of feedback\<close>

text \<open>Both as steps: the symbol is a byte for CFB-8 and a bit for CFB-1; the state is the IV.\<close>

definition cfb8_step :: "(bytes \<Rightarrow> bytes) \<Rightarrow> bool \<Rightarrow> bytes \<Rightarrow> u8 \<Rightarrow> u8 \<times> bytes" where
  "cfb8_step block enc iv b =
     (let y = b XOR block iv ! 0 in (y, tl iv @ [if enc then y else b]))"

definition shift_in :: "bytes \<Rightarrow> bool \<Rightarrow> bytes" where
  "shift_in iv b = map (\<lambda>n. push_bit 1 (iv ! n) OR
      (if n + 1 < length iv then drop_bit 7 (iv ! (n + 1)) else of_bool b)) [0..<length iv]"

definition cfb1_step :: "(bytes \<Rightarrow> bytes) \<Rightarrow> bool \<Rightarrow> bytes \<Rightarrow> bool \<Rightarrow> bool \<times> bytes" where
  "cfb1_step block enc iv b =
     (let y = (b \<noteq> bit (block iv ! 0) 7) in (y, shift_in iv (if enc then y else b)))"

lemma cfbr_8:
  assumes "length iv = 16" "length (block iv) = 16"
  shows "cfbr_encrypt_block block enc 8 (b # bs) iv
       = (let (y, iv') = cfb8_step block enc iv b in Some ([y], iv'))"
proof -
  obtain c cs where c: "block iv = c # cs" using assms by (cases "block iv") auto
  obtain v vs where v: "iv = v # vs" using assms by (cases iv) auto
  show ?thesis using assms c v
    by (auto simp: cfbr_encrypt_block_def cfb8_step_def mem_read_def xor_bytes_def Let_def)
qed

lemma cfb8_run:
  assumes "\<And>b. length b = 16 \<Longrightarrow> length (block b) = 16"
  shows "length iv = 16 \<Longrightarrow>
     CRYPTO_cfb128_8_encrypt block enc xs iv = Some (stream_run (cfb8_step block enc) iv xs)"
proof (induction xs arbitrary: iv)
  case (Cons x xs)
  obtain y iv' where y: "cfb8_step block enc iv x = (y, iv')" by fastforce
  have "length iv' = 16" using y Cons.prems by (auto simp: cfb8_step_def Let_def)
  then show ?case using Cons.IH [of iv'] cfbr_8 [of iv block enc x xs] assms [OF Cons.prems] Cons.prems y
    by (simp split: prod.splits)
qed simp

interpretation cfb8: stream_mode "\<lambda>iv. length iv = 16" "cfb8_step block True" "cfb8_step block False"
  for block
  by unfold_locales (auto simp: cfb8_step_def Let_def xor.assoc)

interpretation cfb1: stream_mode "\<lambda>iv. length iv = 16" "cfb1_step block True" "cfb1_step block False"
  for block
  by unfold_locales (auto simp: cfb1_step_def Let_def shift_in_def)

definition cfb_ok :: "ofb_state \<Rightarrow> bool" where
  "cfb_ok st \<longleftrightarrow> length (fst st) = 16 \<and> snd st < 16"

text \<open>
  The state of CFB is good when the IV has its sixteen bytes and the position lies inside; that the
  block function keeps sixteen bytes is part of it.
\<close>

definition block16 :: "(bytes \<Rightarrow> bytes) \<Rightarrow> bool" where
  "block16 block \<longleftrightarrow> (\<forall>b. length b = 16 \<longrightarrow> length (block b) = 16)"

interpretation ctr: stream_mode "\<lambda>_. True" "ctr_byte block" "ctr_byte block" for block
  by unfold_locales (auto simp: Let_def xor.assoc split: prod.splits)

interpretation ofb: stream_mode "\<lambda>_. True" "ofb_byte block" "ofb_byte block" for block
  by unfold_locales (auto simp: Let_def xor.assoc split: prod.splits)

interpretation cfb: stream_mode "\<lambda>st. block16 block \<and> cfb_ok st"
  "cfb_byte block True" "cfb_byte block False" for block
proof unfold_locales
  fix st :: ofb_state and x :: u8
  assume ok: "block16 block \<and> cfb_ok st"
  obtain iv n where st: "st = (iv, n)" by (cases st)
  show "block16 block \<and> cfb_ok (snd (cfb_byte block True st x))"
    using ok st by (auto simp: cfb_ok_def block16_def Let_def)
  show "cfb_byte block False st (fst (cfb_byte block True st x))
      = (x, snd (cfb_byte block True st x))"
    using ok st by (auto simp: cfb_ok_def block16_def Let_def xor.assoc [symmetric])
qed

text \<open>The bit loop of CFB-1.\<close>

lemma bit_128_iff: "bit (128 :: u8) n \<longleftrightarrow> n = 7"
proof -
  have "(128 :: u8) = 2 ^ 7" by simp
  then show ?thesis by (simp only: bit_exp_iff) (auto simp: possible_bit_word)
qed

lemma cfbr_1:
  assumes "length iv = 16" "length (block iv) = 16"
  shows "\<exists>d. cfbr_encrypt_block block enc 1 [if b then 0x80 else 0] iv
       = Some ([d], snd (cfb1_step block enc iv b)) \<and> bit d 7 = fst (cfb1_step block enc iv b)"
proof -
  obtain c cs where c: "block iv = c # cs" using assms by (cases "block iv") auto
  let ?x = "if b then 0x80 else 0 :: u8"
  let ?d = "?x XOR c"
  have d7: "bit ?d 7 = (b \<noteq> bit c 7)" by (auto simp: bit_xor_iff bit_128_iff)
  have dr: "drop_bit 7 z = (if bit z 7 then 1 else 0)" for z :: u8
  proof (rule bit_word_eqI)
    fix n
    show "bit (drop_bit 7 z) n = bit (if bit z 7 then 1 else 0 :: u8) n"
      using bit_imp_le_length [of z "7 + n"]
      by (cases "n = 0") (auto simp: bit_drop_bit_eq bit_1_iff)
  qed
  have "cfbr_encrypt_block block enc 1 [?x] iv
     = Some ([?d], map (\<lambda>n. push_bit 1 ((iv @ [if enc then ?d else ?x]) ! n)
         OR drop_bit 7 ((iv @ [if enc then ?d else ?x]) ! (n + 1))) [0..<16])"
    by (simp add: cfbr_encrypt_block_def c xor_bytes_def Let_def)
  moreover have "map (\<lambda>n. push_bit 1 ((iv @ [z]) ! n) OR drop_bit 7 ((iv @ [z]) ! (n + 1))) [0..<16]
      = shift_in iv (bit z 7)" for z
    unfolding shift_in_def assms(1)
    by (rule map_cong) (auto simp: nth_append assms(1) dr)
  moreover have "bit (if enc then ?d else ?x) 7 = (if enc then b \<noteq> bit c 7 else b)"
    using d7 by (auto simp: bit_128_iff)
  ultimately show ?thesis using d7 by (simp add: cfb1_step_def Let_def c)
qed

lemma bit_at_put:
  assumes "n div 8 < length out"
  shows "bit_at (cfb1_put out n d) m = (if m = n then bit d 7 else bit_at out m)"
proof (cases "m div 8 = n div 8")
  case False
  then show ?thesis by (auto simp: bit_at_def cfb1_put_def)
next
  case True
  have b1: "bit (push_bit (7 - n mod 8) (1 :: u8)) (7 - m mod 8) \<longleftrightarrow> m mod 8 = n mod 8"
    by (auto simp: bit_simps bit_1_iff)
  have b2: "bit (drop_bit (n mod 8) (d AND 128)) (7 - m mod 8) \<longleftrightarrow> m mod 8 = n mod 8 \<and> bit d 7"
    by (simp only: bit_drop_bit_eq bit_and_iff bit_128_iff comp_def) auto
  have "m = n \<longleftrightarrow> m mod 8 = n mod 8" using True by (metis div_mult_mod_eq)
  then show ?thesis using True assms b1 b2
    by (auto simp: bit_at_def cfb1_put_def bit_or_iff bit_and_iff bit_not_iff)
qed


definition bits_from :: "bytes \<Rightarrow> nat \<Rightarrow> nat \<Rightarrow> bool list" where
  "bits_from p n k = map (bit_at p) [n..<n + k]"

lemma bits_from_Suc: "bits_from p n (Suc k) = bit_at p n # bits_from p (Suc n) k"
  by (simp add: bits_from_def upt_conv_Cons del: upt_Suc)

lemma bit_test: "(x :: u8) AND push_bit k 1 \<noteq> 0 \<longleftrightarrow> bit x k"
  using and_exp_eq_0_iff [of x k] by (simp add: push_bit_eq_mult)

lemma length_cfb1_put [simp]: "length (cfb1_put out n d) = length out"
  by (simp add: cfb1_put_def)

lemma length_shift_in [simp]: "length (shift_in iv b) = length iv"
  by (simp add: shift_in_def)

lemma cfb1_loop_run:
  assumes "\<And>b. length b = 16 \<Longrightarrow> length (block b) = 16"
  shows "length iv = 16 \<Longrightarrow> n + k \<le> 8 * length out \<Longrightarrow>
     \<exists>out' iv'. cfb1_loop block enc inp n k out iv = Some (out', iv')
       \<and> length out' = length out
       \<and> stream_run (cfb1_step block enc) iv (bits_from inp n k) = (bits_from out' n k, iv')
       \<and> (\<forall>m. m < n \<or> n + k \<le> m \<longrightarrow> bit_at out' m = bit_at out m)"
proof (induction k arbitrary: n out iv)
  case 0
  then show ?case by (simp add: bits_from_def)
next
  case (Suc k)
  let ?b = "bit_at inp n"
  let ?s = "cfb1_step block enc iv ?b"
  have c: "(if inp ! (n div 8) AND push_bit (7 - n mod 8) 1 \<noteq> 0 then 0x80 else 0 :: u8)
      = (if ?b then 0x80 else 0)" by (simp only: bit_test bit_at_def)
  obtain d where d: "cfbr_encrypt_block block enc 1 [if ?b then 0x80 else 0] iv = Some ([d], snd ?s)"
    "bit d 7 = fst ?s"
    using cfbr_1 [where block = block, OF Suc.prems(1) assms [OF Suc.prems(1)]] by blast
  let ?out = "cfb1_put out n d"
  have nl: "n div 8 < length out" using Suc.prems(2) by (simp add: less_mult_imp_div_less)
  have lv: "length (snd ?s) = 16" using Suc.prems(1) by (simp add: cfb1_step_def Let_def)
  obtain out' iv' where IH: "cfb1_loop block enc inp (Suc n) k ?out (snd ?s) = Some (out', iv')"
    "length out' = length ?out"
    "stream_run (cfb1_step block enc) (snd ?s) (bits_from inp (Suc n) k) = (bits_from out' (Suc n) k, iv')"
    "\<And>m. m < Suc n \<or> Suc n + k \<le> m \<Longrightarrow> bit_at out' m = bit_at ?out m"
    using Suc.IH [OF lv, of "Suc n" ?out] Suc.prems(2) by auto
  have "bit_at out' n = fst ?s" using IH(4) [of n] d(2) bit_at_put [OF nl] by simp
  then have run: "stream_run (cfb1_step block enc) iv (bits_from inp n (Suc k))
      = (bits_from out' n (Suc k), iv')"
    using IH(3) by (cases ?s) (simp add: bits_from_Suc)
  have "cfb1_loop block enc inp n (Suc k) out iv = Some (out', iv')"
    by (simp only: cfb1_loop.simps Let_def c d(1) option.case prod.case nth_Cons_0 Suc_eq_plus1 [symmetric] IH(1))
  moreover have "bit_at out' m = bit_at out m" if "m < n \<or> n + Suc k \<le> m" for m
    using that IH(4) [of m] bit_at_put [OF nl] by auto
  ultimately show ?case using IH(2) run by auto
qed

section \<open>Properties\<close>

lemma ctr_run_state:
  "stream_run (ctr_byte block) (iv, e, n) xs = (os, (iv', e', n')) \<Longrightarrow>
     length iv' = length iv \<and> (n < 16 \<longrightarrow> n' < 16)"
  by (induction xs arbitrary: iv e n os) (fastforce simp: Let_def split: prod.splits if_splits)+

text \<open>
  CTR mode.  The loop that works on whole blocks computes byte for byte what the simple loop
  computes, so a message may be cut into calls at any point without changing the output or the
  saved state, and running the output through the same function from the same state gives the
  message back; the assertion on the position never fails again once it held.
\<close>
theorem ctr128_bytewise:
  assumes "\<forall>b. length b = 16 \<longrightarrow> length (block b) = 16"
    and "length ivec = 16" "num < 16"
  shows "\<exists>out iv' e' num'.
    CRYPTO_ctr128_encrypt block (xs @ ys) (ivec, e, num) = Some (out, (iv', e', num'))
    \<and> (out, (iv', e', num')) = stream_run (ctr_byte block) (ivec, e, num) (xs @ ys)
    \<and> Option.bind (CRYPTO_ctr128_encrypt block xs (ivec, e, num)) (\<lambda>(us, st).
        map_option (\<lambda>(vs, st). (us @ vs, st)) (CRYPTO_ctr128_encrypt block ys st))
        = Some (out, (iv', e', num'))
    \<and> CRYPTO_ctr128_encrypt block out (ivec, e, num) = Some (xs @ ys, (iv', e', num'))
    \<and> length iv' = 16 \<and> num' < 16"
proof -
  note run = CRYPTO_ctr128_encrypt_run [where block = block, OF assms(1) [rule_format]]
  obtain out iv' e' num' where o: "stream_run (ctr_byte block) (ivec, e, num) (xs @ ys) = (out, (iv', e', num'))"
    by (metis prod_cases4)
  obtain us iv1 e1 n1 where u: "stream_run (ctr_byte block) (ivec, e, num) xs = (us, (iv1, e1, n1))"
    by (metis prod_cases4)
  obtain vs where v: "stream_run (ctr_byte block) (iv1, e1, n1) ys = (vs, (iv', e', num'))" "out = us @ vs"
    using o u stream_run_append [of "ctr_byte block" "(ivec, e, num)" xs ys]
    by (auto simp: Let_def split: prod.splits)
  have s1: "length iv1 = 16 \<and> n1 < 16" using ctr_run_state [OF u] assms by simp
  have s2: "length iv' = 16 \<and> num' < 16" using ctr_run_state [OF v(1)] s1 by simp
  have "stream_run (ctr_byte block) (ivec, e, num) out = (xs @ ys, (iv', e', num'))"
    by (rule ctr.roundtrip [OF _ o]) simp
  then show ?thesis using o u v s1 s2 assms(2,3) run by simp
qed


theorem ctr128_bytewise_witness:
  "\<exists>out iv' e' num'.
    CRYPTO_ctr128_encrypt rev ([1, 2] @ [3, 4]) (replicate 16 255, replicate 16 0, 15) = Some (out, (iv', e', num'))
    \<and> (out, (iv', e', num')) = stream_run (ctr_byte rev) (replicate 16 255, replicate 16 0, 15) ([1, 2] @ [3, 4])
    \<and> Option.bind (CRYPTO_ctr128_encrypt rev [1, 2] (replicate 16 255, replicate 16 0, 15)) (\<lambda>(us, st).
        map_option (\<lambda>(vs, st). (us @ vs, st)) (CRYPTO_ctr128_encrypt rev [3, 4] st))
        = Some (out, (iv', e', num'))
    \<and> CRYPTO_ctr128_encrypt rev out (replicate 16 255, replicate 16 0, 15) = Some ([1, 2] @ [3, 4], (iv', e', num'))
    \<and> length iv' = 16 \<and> num' < 16"
  by (rule ctr128_bytewise) simp_all

text \<open>
  C38: The 32-bit counter variant acts like plain CTR.  Given a function that does counter mode but
  moves only the low 32 bits of the counter, CRYPTO_ctr128_encrypt_ctr32 cuts the blocks where
  that counter wraps and carries into the upper 96 bits itself, so its output, counter and
  position are those of CRYPTO_ctr128_encrypt for every starting counter and length; the loop
  over batches ends.
\<close>
theorem ctr32_like_ctr128:
  assumes "\<forall>b. length b = 16 \<longrightarrow> length (block b) = 16"
    and "\<forall>inp n iv. length inp = 16 * n \<longrightarrow> func inp n iv = ctr32_func block inp n iv"
    and "length ivec = 16" "num < 16" "length e = 16"
  shows "\<exists>out iv' num' e1 e2.
    CRYPTO_ctr128_encrypt_ctr32 func data (ivec, e, num) = Some (out, (iv', e1, num'))
    \<and> CRYPTO_ctr128_encrypt block data (ivec, e, num) = Some (out, (iv', e2, num'))
    \<and> (num' \<noteq> 0 \<longrightarrow> e1 = e2)"
proof -
  have blk: "\<And>b. length b = 16 \<Longrightarrow> length (block b) = 16" using assms(1) by simp
  have func: "\<And>inp n iv. length inp = 16 * n \<Longrightarrow> func inp n iv = ctr32_func block inp n iv"
    using assms(2) by simp
  obtain out iv' e' num' where o: "stream_run (ctr_byte block) (ivec, e, num) data = (out, (iv', e', num'))"
    by (metis prod_cases4)
  show ?thesis
    using ctr32_encrypt_run [where block = block and func = func, OF blk func assms(3-5) o]
      CRYPTO_ctr128_encrypt_run [where block = block, OF blk assms(3,4)] o by fastforce
qed

theorem ctr32_like_ctr128_witness:
  "\<exists>out iv' num' e1 e2.
    CRYPTO_ctr128_encrypt_ctr32 (ctr32_func rev) (replicate 40 7) (replicate 16 255, replicate 16 1, 3)
      = Some (out, (iv', e1, num'))
    \<and> CRYPTO_ctr128_encrypt rev (replicate 40 7) (replicate 16 255, replicate 16 1, 3) = Some (out, (iv', e2, num'))
    \<and> (num' \<noteq> 0 \<longrightarrow> e1 = e2)"
  by (rule ctr32_like_ctr128) simp_all

text \<open>
  Feedback modes round trip.  With any block function, decrypting what CFB with 128-bit feedback
  encrypted gives the message and the same saved state, OFB undoes itself, and so do CFB-8 byte by
  byte and CFB-1 bit by bit; CFB-1 leaves the bits of its output buffer it was not asked for alone.
\<close>
theorem feedback_modes_roundtrip:
  assumes "\<forall>b. length b = 16 \<longrightarrow> length (block b) = 16" and "length ivec = 16" "num < 16"
    and "bits \<le> 8 * length buf"
  shows "(\<exists>ct st. CRYPTO_cfb128_encrypt block True data (ivec, num) = Some (ct, st)
            \<and> CRYPTO_cfb128_encrypt block False ct (ivec, num) = Some (data, st))
    \<and> (\<exists>ct st. CRYPTO_ofb128_encrypt block data (ivec, num) = Some (ct, st)
            \<and> CRYPTO_ofb128_encrypt block ct (ivec, num) = Some (data, st))
    \<and> (\<exists>ct st. CRYPTO_cfb128_8_encrypt block True data ivec = Some (ct, st)
            \<and> CRYPTO_cfb128_8_encrypt block False ct ivec = Some (data, st))
    \<and> (\<exists>ct st pt. CRYPTO_cfb128_1_encrypt block True data bits buf ivec = Some (ct, st)
            \<and> CRYPTO_cfb128_1_encrypt block False ct bits buf ivec = Some (pt, st)
            \<and> (\<forall>n. bit_at pt n = bit_at (if n < bits then data else buf) n))"
proof -
  have blk: "\<And>b. length b = 16 \<Longrightarrow> length (block b) = 16" using assms(1) by simp
  have ok: "block16 block \<and> cfb_ok (ivec, num)" using assms by (simp add: block16_def cfb_ok_def)
  obtain c1 s1 where 1: "stream_run (cfb_byte block True) (ivec, num) data = (c1, s1)" by (meson surj_pair)
  obtain c2 s2 where 2: "stream_run (ofb_byte block) (ivec, num) data = (c2, s2)" by (meson surj_pair)
  obtain c3 s3 where 3: "stream_run (cfb8_step block True) ivec data = (c3, s3)" by (meson surj_pair)
  obtain c4 s4 where 4: "CRYPTO_cfb128_1_encrypt block True data bits buf ivec = Some (c4, s4)"
    "stream_run (cfb1_step block True) ivec (bits_from data 0 bits) = (bits_from c4 0 bits, s4)"
    using cfb1_loop_run [where block = block, OF blk assms(2), of 0 bits buf True data] assms(4)
    by (auto simp: CRYPTO_cfb128_1_encrypt_def)
  obtain c5 s5 where 5: "CRYPTO_cfb128_1_encrypt block False c4 bits buf ivec = Some (c5, s5)"
    "stream_run (cfb1_step block False) ivec (bits_from c4 0 bits) = (bits_from c5 0 bits, s5)"
    "\<And>m. bits \<le> m \<Longrightarrow> bit_at c5 m = bit_at buf m"
    using cfb1_loop_run [where block = block, OF blk assms(2), of 0 bits buf False c4] assms(4)
    by (auto simp: CRYPTO_cfb128_1_encrypt_def)
  have "(bits_from c5 0 bits, s5) = (bits_from data 0 bits, s4)"
    using cfb1.roundtrip [OF assms(2) 4(2)] 5(2) by simp
  then have "\<forall>n. bit_at c5 n = bit_at (if n < bits then data else buf) n" "s5 = s4"
    using 5(3) by (auto simp: bits_from_def)
  moreover have "stream_run (ofb_byte block) (ivec, num) c2 = (data, s2)"
    by (rule ofb.roundtrip [OF _ 2]) simp
  ultimately show ?thesis
    using 1 2 3 4(1) 5(1) cfb.roundtrip [OF ok 1] cfb8.roundtrip [OF assms(2) 3] assms(2,3)
      CRYPTO_cfb128_encrypt_run [where block = block, OF blk assms(2,3)]
      CRYPTO_ofb128_encrypt_run [where block = block, OF blk assms(2,3)]
      cfb8_run [where block = block, OF blk assms(2)] by simp
qed

theorem feedback_modes_roundtrip_witness:
  "(\<exists>ct st. CRYPTO_cfb128_encrypt rev True [1, 2, 3] (replicate 16 9, 14) = Some (ct, st)
            \<and> CRYPTO_cfb128_encrypt rev False ct (replicate 16 9, 14) = Some ([1, 2, 3], st))
    \<and> (\<exists>ct st. CRYPTO_ofb128_encrypt rev [1, 2, 3] (replicate 16 9, 14) = Some (ct, st)
            \<and> CRYPTO_ofb128_encrypt rev ct (replicate 16 9, 14) = Some ([1, 2, 3], st))
    \<and> (\<exists>ct st. CRYPTO_cfb128_8_encrypt rev True [1, 2, 3] (replicate 16 9) = Some (ct, st)
            \<and> CRYPTO_cfb128_8_encrypt rev False ct (replicate 16 9) = Some ([1, 2, 3], st))
    \<and> (\<exists>ct st pt. CRYPTO_cfb128_1_encrypt rev True [1, 2, 3] 11 [0, 0] (replicate 16 9) = Some (ct, st)
            \<and> CRYPTO_cfb128_1_encrypt rev False ct 11 [0, 0] (replicate 16 9) = Some (pt, st)
            \<and> (\<forall>n. bit_at pt n = bit_at (if n < 11 then [1, 2, 3] else [0, 0]) n))"
  by (rule feedback_modes_roundtrip) simp_all

end
