(* ===== verification/Des.thy ===== *)
theory Des
  imports Modes
begin

unbundle bit_operations_syntax

text \<open>
  DES and triple DES from \<^verbatim>\<open>crypto/des\<close>: the key schedule, the sixteen rounds, the
  single-block and CBC entry points.  A DES_key_schedule is the list of its 32 words
  (\<^verbatim>\<open>ks[i].deslong[j]\<close> is word \<open>2 * i + j\<close>), which is how the rounds read it.

  The tables are the source's.  The block functions are interpretations of \<open>block_cipher\<close>, from
  which the CBC round trips follow; \<^verbatim>\<open>DES_ncbc_encrypt\<close> and
  \<^verbatim>\<open>DES_ede3_cbc_encrypt\<close> differ only in the block operation, so they share one loop
  that has it as a parameter.
\<close>

section \<open>Tables\<close>

(* src: crypto/des/des.c@62-174 des_skb *)
definition des_skb :: "u32 list list" where
  "des_skb =
    [[0x0, 0x10, 0x20000000, 0x20000010, 0x10000, 0x10010, 0x20010000, 0x20010010,
      0x800, 0x810, 0x20000800, 0x20000810, 0x10800, 0x10810, 0x20010800, 0x20010810,
      0x20, 0x30, 0x20000020, 0x20000030, 0x10020, 0x10030, 0x20010020, 0x20010030,
      0x820, 0x830, 0x20000820, 0x20000830, 0x10820, 0x10830, 0x20010820, 0x20010830,
      0x80000, 0x80010, 0x20080000, 0x20080010, 0x90000, 0x90010, 0x20090000, 0x20090010,
      0x80800, 0x80810, 0x20080800, 0x20080810, 0x90800, 0x90810, 0x20090800, 0x20090810,
      0x80020, 0x80030, 0x20080020, 0x20080030, 0x90020, 0x90030, 0x20090020, 0x20090030,
      0x80820, 0x80830, 0x20080820, 0x20080830, 0x90820, 0x90830, 0x20090820, 0x20090830],
     [0x0, 0x2000000, 0x2000, 0x2002000, 0x200000, 0x2200000, 0x202000, 0x2202000,
      0x4, 0x2000004, 0x2004, 0x2002004, 0x200004, 0x2200004, 0x202004, 0x2202004,
      0x400, 0x2000400, 0x2400, 0x2002400, 0x200400, 0x2200400, 0x202400, 0x2202400,
      0x404, 0x2000404, 0x2404, 0x2002404, 0x200404, 0x2200404, 0x202404, 0x2202404,
      0x10000000, 0x12000000, 0x10002000, 0x12002000, 0x10200000, 0x12200000, 0x10202000, 0x12202000,
      0x10000004, 0x12000004, 0x10002004, 0x12002004, 0x10200004, 0x12200004, 0x10202004, 0x12202004,
      0x10000400, 0x12000400, 0x10002400, 0x12002400, 0x10200400, 0x12200400, 0x10202400, 0x12202400,
      0x10000404, 0x12000404, 0x10002404, 0x12002404, 0x10200404, 0x12200404, 0x10202404, 0x12202404],
     [0x0, 0x1, 0x40000, 0x40001, 0x1000000, 0x1000001, 0x1040000, 0x1040001,
      0x2, 0x3, 0x40002, 0x40003, 0x1000002, 0x1000003, 0x1040002, 0x1040003,
      0x200, 0x201, 0x40200, 0x40201, 0x1000200, 0x1000201, 0x1040200, 0x1040201,
      0x202, 0x203, 0x40202, 0x40203, 0x1000202, 0x1000203, 0x1040202, 0x1040203,
      0x8000000, 0x8000001, 0x8040000, 0x8040001, 0x9000000, 0x9000001, 0x9040000, 0x9040001,
      0x8000002, 0x8000003, 0x8040002, 0x8040003, 0x9000002, 0x9000003, 0x9040002, 0x9040003,
      0x8000200, 0x8000201, 0x8040200, 0x8040201, 0x9000200, 0x9000201, 0x9040200, 0x9040201,
      0x8000202, 0x8000203, 0x8040202, 0x8040203, 0x9000202, 0x9000203, 0x9040202, 0x9040203],
     [0x0, 0x100000, 0x100, 0x100100, 0x8, 0x100008, 0x108, 0x100108,
      0x1000, 0x101000, 0x1100, 0x101100, 0x1008, 0x101008, 0x1108, 0x101108,
      0x4000000, 0x4100000, 0x4000100, 0x4100100, 0x4000008, 0x4100008, 0x4000108, 0x4100108,
      0x4001000, 0x4101000, 0x4001100, 0x4101100, 0x4001008, 0x4101008, 0x4001108, 0x4101108,
      0x20000, 0x120000, 0x20100, 0x120100, 0x20008, 0x120008, 0x20108, 0x120108,
      0x21000, 0x121000, 0x21100, 0x121100, 0x21008, 0x121008, 0x21108, 0x121108,
      0x4020000, 0x4120000, 0x4020100, 0x4120100, 0x4020008, 0x4120008, 0x4020108, 0x4120108,
      0x4021000, 0x4121000, 0x4021100, 0x4121100, 0x4021008, 0x4121008, 0x4021108, 0x4121108],
     [0x0, 0x10000000, 0x10000, 0x10010000, 0x4, 0x10000004, 0x10004, 0x10010004,
      0x20000000, 0x30000000, 0x20010000, 0x30010000, 0x20000004, 0x30000004, 0x20010004, 0x30010004,
      0x100000, 0x10100000, 0x110000, 0x10110000, 0x100004, 0x10100004, 0x110004, 0x10110004,
      0x20100000, 0x30100000, 0x20110000, 0x30110000, 0x20100004, 0x30100004, 0x20110004, 0x30110004,
      0x1000, 0x10001000, 0x11000, 0x10011000, 0x1004, 0x10001004, 0x11004, 0x10011004,
      0x20001000, 0x30001000, 0x20011000, 0x30011000, 0x20001004, 0x30001004, 0x20011004, 0x30011004,
      0x101000, 0x10101000, 0x111000, 0x10111000, 0x101004, 0x10101004, 0x111004, 0x10111004,
      0x20101000, 0x30101000, 0x20111000, 0x30111000, 0x20101004, 0x30101004, 0x20111004, 0x30111004],
     [0x0, 0x8000000, 0x8, 0x8000008, 0x400, 0x8000400, 0x408, 0x8000408,
      0x20000, 0x8020000, 0x20008, 0x8020008, 0x20400, 0x8020400, 0x20408, 0x8020408,
      0x1, 0x8000001, 0x9, 0x8000009, 0x401, 0x8000401, 0x409, 0x8000409,
      0x20001, 0x8020001, 0x20009, 0x8020009, 0x20401, 0x8020401, 0x20409, 0x8020409,
      0x2000000, 0xa000000, 0x2000008, 0xa000008, 0x2000400, 0xa000400, 0x2000408, 0xa000408,
      0x2020000, 0xa020000, 0x2020008, 0xa020008, 0x2020400, 0xa020400, 0x2020408, 0xa020408,
      0x2000001, 0xa000001, 0x2000009, 0xa000009, 0x2000401, 0xa000401, 0x2000409, 0xa000409,
      0x2020001, 0xa020001, 0x2020009, 0xa020009, 0x2020401, 0xa020401, 0x2020409, 0xa020409],
     [0x0, 0x100, 0x80000, 0x80100, 0x1000000, 0x1000100, 0x1080000, 0x1080100,
      0x10, 0x110, 0x80010, 0x80110, 0x1000010, 0x1000110, 0x1080010, 0x1080110,
      0x200000, 0x200100, 0x280000, 0x280100, 0x1200000, 0x1200100, 0x1280000, 0x1280100,
      0x200010, 0x200110, 0x280010, 0x280110, 0x1200010, 0x1200110, 0x1280010, 0x1280110,
      0x200, 0x300, 0x80200, 0x80300, 0x1000200, 0x1000300, 0x1080200, 0x1080300,
      0x210, 0x310, 0x80210, 0x80310, 0x1000210, 0x1000310, 0x1080210, 0x1080310,
      0x200200, 0x200300, 0x280200, 0x280300, 0x1200200, 0x1200300, 0x1280200, 0x1280300,
      0x200210, 0x200310, 0x280210, 0x280310, 0x1200210, 0x1200310, 0x1280210, 0x1280310],
     [0x0, 0x4000000, 0x40000, 0x4040000, 0x2, 0x4000002, 0x40002, 0x4040002,
      0x2000, 0x4002000, 0x42000, 0x4042000, 0x2002, 0x4002002, 0x42002, 0x4042002,
      0x20, 0x4000020, 0x40020, 0x4040020, 0x22, 0x4000022, 0x40022, 0x4040022,
      0x2020, 0x4002020, 0x42020, 0x4042020, 0x2022, 0x4002022, 0x42022, 0x4042022,
      0x800, 0x4000800, 0x40800, 0x4040800, 0x802, 0x4000802, 0x40802, 0x4040802,
      0x2800, 0x4002800, 0x42800, 0x4042800, 0x2802, 0x4002802, 0x42802, 0x4042802,
      0x820, 0x4000820, 0x40820, 0x4040820, 0x822, 0x4000822, 0x40822, 0x4040822,
      0x2820, 0x4002820, 0x42820, 0x4042820, 0x2822, 0x4002822, 0x42822, 0x4042822]]"

(* src: crypto/des/des.c@176-288 DES_SPtrans *)
definition DES_SPtrans :: "u32 list list" where
  "DES_SPtrans =
    [[0x2080800, 0x80000, 0x2000002, 0x2080802, 0x2000000, 0x80802, 0x80002, 0x2000002,
      0x80802, 0x2080800, 0x2080000, 0x802, 0x2000802, 0x2000000, 0x0, 0x80002,
      0x80000, 0x2, 0x2000800, 0x80800, 0x2080802, 0x2080000, 0x802, 0x2000800,
      0x2, 0x800, 0x80800, 0x2080002, 0x800, 0x2000802, 0x2080002, 0x0,
      0x0, 0x2080802, 0x2000800, 0x80002, 0x2080800, 0x80000, 0x802, 0x2000800,
      0x2080002, 0x800, 0x80800, 0x2000002, 0x80802, 0x2, 0x2000002, 0x2080000,
      0x2080802, 0x80800, 0x2080000, 0x2000802, 0x2000000, 0x802, 0x80002, 0x0,
      0x80000, 0x2000000, 0x2000802, 0x2080800, 0x2, 0x2080002, 0x800, 0x80802],
     [0x40108010, 0x0, 0x108000, 0x40100000, 0x40000010, 0x8010, 0x40008000, 0x108000,
      0x8000, 0x40100010, 0x10, 0x40008000, 0x100010, 0x40108000, 0x40100000, 0x10,
      0x100000, 0x40008010, 0x40100010, 0x8000, 0x108010, 0x40000000, 0x0, 0x100010,
      0x40008010, 0x108010, 0x40108000, 0x40000010, 0x40000000, 0x100000, 0x8010, 0x40108010,
      0x100010, 0x40108000, 0x40008000, 0x108010, 0x40108010, 0x100010, 0x40000010, 0x0,
      0x40000000, 0x8010, 0x100000, 0x40100010, 0x8000, 0x40000000, 0x108010, 0x40008010,
      0x40108000, 0x8000, 0x0, 0x40000010, 0x10, 0x40108010, 0x108000, 0x40100000,
      0x40100010, 0x100000, 0x8010, 0x40008000, 0x40008010, 0x10, 0x40100000, 0x108000],
     [0x4000001, 0x4040100, 0x100, 0x4000101, 0x40001, 0x4000000, 0x4000101, 0x40100,
      0x4000100, 0x40000, 0x4040000, 0x1, 0x4040101, 0x101, 0x1, 0x4040001,
      0x0, 0x40001, 0x4040100, 0x100, 0x101, 0x4040101, 0x40000, 0x4000001,
      0x4040001, 0x4000100, 0x40101, 0x4040000, 0x40100, 0x0, 0x4000000, 0x40101,
      0x4040100, 0x100, 0x1, 0x40000, 0x101, 0x40001, 0x4040000, 0x4000101,
      0x0, 0x4040100, 0x40100, 0x4040001, 0x40001, 0x4000000, 0x4040101, 0x1,
      0x40101, 0x4000001, 0x4000000, 0x4040101, 0x40000, 0x4000100, 0x4000101, 0x40100,
      0x4000100, 0x0, 0x4040001, 0x101, 0x4000001, 0x40101, 0x100, 0x4040000],
     [0x401008, 0x10001000, 0x8, 0x10401008, 0x0, 0x10400000, 0x10001008, 0x400008,
      0x10401000, 0x10000008, 0x10000000, 0x1008, 0x10000008, 0x401008, 0x400000, 0x10000000,
      0x10400008, 0x401000, 0x1000, 0x8, 0x401000, 0x10001008, 0x10400000, 0x1000,
      0x1008, 0x0, 0x400008, 0x10401000, 0x10001000, 0x10400008, 0x10401008, 0x400000,
      0x10400008, 0x1008, 0x400000, 0x10000008, 0x401000, 0x10001000, 0x8, 0x10400000,
      0x10001008, 0x0, 0x1000, 0x400008, 0x0, 0x10400008, 0x10401000, 0x1000,
      0x10000000, 0x10401008, 0x401008, 0x400000, 0x10401008, 0x8, 0x10001000, 0x401008,
      0x400008, 0x401000, 0x10400000, 0x10001008, 0x1008, 0x10000000, 0x10000008, 0x10401000],
     [0x8000000, 0x10000, 0x400, 0x8010420, 0x8010020, 0x8000400, 0x10420, 0x8010000,
      0x10000, 0x20, 0x8000020, 0x10400, 0x8000420, 0x8010020, 0x8010400, 0x0,
      0x10400, 0x8000000, 0x10020, 0x420, 0x8000400, 0x10420, 0x0, 0x8000020,
      0x20, 0x8000420, 0x8010420, 0x10020, 0x8010000, 0x400, 0x420, 0x8010400,
      0x8010400, 0x8000420, 0x10020, 0x8010000, 0x10000, 0x20, 0x8000020, 0x8000400,
      0x8000000, 0x10400, 0x8010420, 0x0, 0x10420, 0x8000000, 0x400, 0x10020,
      0x8000420, 0x400, 0x0, 0x8010420, 0x8010020, 0x8010400, 0x420, 0x10000,
      0x10400, 0x8010020, 0x8000400, 0x420, 0x20, 0x10420, 0x8010000, 0x8000020],
     [0x80000040, 0x200040, 0x0, 0x80202000, 0x200040, 0x2000, 0x80002040, 0x200000,
      0x2040, 0x80202040, 0x202000, 0x80000000, 0x80002000, 0x80000040, 0x80200000, 0x202040,
      0x200000, 0x80002040, 0x80200040, 0x0, 0x2000, 0x40, 0x80202000, 0x80200040,
      0x80202040, 0x80200000, 0x80000000, 0x2040, 0x40, 0x202000, 0x202040, 0x80002000,
      0x2040, 0x80000000, 0x80002000, 0x202040, 0x80202000, 0x200040, 0x0, 0x80002000,
      0x80000000, 0x2000, 0x80200040, 0x200000, 0x200040, 0x80202040, 0x202000, 0x40,
      0x80202040, 0x202000, 0x200000, 0x80002040, 0x80000040, 0x80200000, 0x202040, 0x0,
      0x2000, 0x80000040, 0x80002040, 0x80202000, 0x80200000, 0x2040, 0x40, 0x80200040],
     [0x4000, 0x200, 0x1000200, 0x1000004, 0x1004204, 0x4004, 0x4200, 0x0,
      0x1000000, 0x1000204, 0x204, 0x1004000, 0x4, 0x1004200, 0x1004000, 0x204,
      0x1000204, 0x4000, 0x4004, 0x1004204, 0x0, 0x1000200, 0x1000004, 0x4200,
      0x1004004, 0x4204, 0x1004200, 0x4, 0x4204, 0x1004004, 0x200, 0x1000000,
      0x4204, 0x1004000, 0x1004004, 0x204, 0x4000, 0x200, 0x1000000, 0x1004004,
      0x1000204, 0x4204, 0x4200, 0x0, 0x200, 0x1000004, 0x4, 0x1000200,
      0x0, 0x1000204, 0x1000200, 0x4200, 0x204, 0x4000, 0x1004204, 0x1000000,
      0x1004200, 0x4, 0x4004, 0x1004204, 0x1000004, 0x1004200, 0x1004000, 0x4004],
     [0x20800080, 0x20820000, 0x20080, 0x0, 0x20020000, 0x800080, 0x20800000, 0x20820080,
      0x80, 0x20000000, 0x820000, 0x20080, 0x820080, 0x20020080, 0x20000080, 0x20800000,
      0x20000, 0x820080, 0x800080, 0x20020000, 0x20820080, 0x20000080, 0x0, 0x820000,
      0x20000000, 0x800000, 0x20020080, 0x20800080, 0x800000, 0x20000, 0x20820000, 0x80,
      0x800000, 0x20000, 0x20000080, 0x20820080, 0x20080, 0x20000000, 0x0, 0x820000,
      0x20800080, 0x20020080, 0x20020000, 0x800080, 0x20820000, 0x80, 0x800080, 0x20020000,
      0x20820080, 0x800000, 0x20800000, 0x20000080, 0x820000, 0x20080, 0x20020080, 0x20800000,
      0x80, 0x20820000, 0x820080, 0x0, 0x20000000, 0x20800080, 0x20000, 0x820080]]"

text \<open>The element of a table a six-bit index selects.\<close>

abbreviation tab :: "u32 list list \<Rightarrow> nat \<Rightarrow> u32 \<Rightarrow> u32" where
  "tab T i x \<equiv> T ! i ! unat x"

section \<open>Words, bytes and permutations\<close>

(* src: crypto/des/internal.h@67-69 c2l *)
definition c2l :: "bytes \<Rightarrow> u32" where
  "c2l c = ucast (c ! 0) OR push_bit 8 (ucast (c ! 1)) OR push_bit 16 (ucast (c ! 2))
           OR push_bit 24 (ucast (c ! 3))"

(* src: crypto/des/internal.h@71-75 l2c *)
definition l2c :: "u32 \<Rightarrow> bytes" where
  "l2c l = [ucast l, ucast (drop_bit 8 l), ucast (drop_bit 16 l), ucast (drop_bit 24 l)]"

text \<open>
  The partial forms fall through a switch: of the \<open>n\<close> cases from the last byte down, each
  handles one byte.
\<close>

(* src: crypto/des/internal.h@78-101 c2ln *)
definition c2ln :: "bytes \<Rightarrow> nat \<Rightarrow> u32 \<times> u32" where
  "c2ln c n =
     (let byte = (\<lambda>i sh. if i < n then push_bit sh (ucast (c ! i)) else 0)
      in (byte 3 24 OR byte 2 16 OR byte 1 8 OR byte 0 0,
          byte 7 24 OR byte 6 16 OR byte 5 8 OR byte 4 0))"

(* src: crypto/des/internal.h@103-125 l2cn *)
definition l2cn :: "u32 \<Rightarrow> u32 \<Rightarrow> nat \<Rightarrow> bytes" where
  "l2cn l1 l2 n = take n
     [ucast l1, ucast (drop_bit 8 l1), ucast (drop_bit 16 l1), ucast (drop_bit 24 l1),
      ucast l2, ucast (drop_bit 8 l2), ucast (drop_bit 16 l2), ucast (drop_bit 24 l2)]"

text \<open>Rotation to the right; the summands have no bit in common.\<close>

(* src: crypto/des/internal.h@221-221 ROTATE *)
definition ROTATE :: "u32 \<Rightarrow> nat \<Rightarrow> u32" where
  "ROTATE a n = drop_bit n a + push_bit (32 - n) a"

(* src: crypto/des/internal.h@163-164 PERM_OP *)
definition PERM_OP :: "u32 \<Rightarrow> u32 \<Rightarrow> nat \<Rightarrow> u32 \<Rightarrow> u32 \<times> u32" where
  "PERM_OP a b n m =
     (let t = (drop_bit n a XOR b) AND m in (a XOR push_bit n t, b XOR t))"

text \<open>\<^verbatim>\<open>HPERM_OP\<close> is used with \<open>n = -2\<close> only, so \<open>sh\<close> stands for \<open>16 - n\<close>.\<close>

(* src: crypto/des/des.c@290-292 HPERM_OP *)
definition HPERM_OP :: "u32 \<Rightarrow> nat \<Rightarrow> u32 \<Rightarrow> u32" where
  "HPERM_OP a sh m = (let t = (push_bit sh a XOR a) AND m in a XOR t XOR drop_bit sh t)"

(* src: crypto/des/internal.h@166-174 IP *)
definition IP :: "u32 \<Rightarrow> u32 \<Rightarrow> u32 \<times> u32" where
  "IP l r =
     (let (r, l) = PERM_OP r l 4 0x0f0f0f0f;
          (l, r) = PERM_OP l r 16 0x0000ffff;
          (r, l) = PERM_OP r l 2 0x33333333;
          (l, r) = PERM_OP l r 8 0x00ff00ff;
          (r, l) = PERM_OP r l 1 0x55555555
      in (l, r))"

(* src: crypto/des/internal.h@176-184 FP *)
definition FP :: "u32 \<Rightarrow> u32 \<Rightarrow> u32 \<times> u32" where
  "FP l r =
     (let (l, r) = PERM_OP l r 1 0x55555555;
          (r, l) = PERM_OP r l 8 0x00ff00ff;
          (l, r) = PERM_OP l r 2 0x33333333;
          (r, l) = PERM_OP r l 16 0x0000ffff;
          (l, r) = PERM_OP l r 4 0x0f0f0f0f
      in (l, r))"

section \<open>The key schedule\<close>

type_synonym DES_key_schedule = "u32 list"

definition shifts2 :: "bool list" where
  "shifts2 = [False, False, True, True, True, True, True, True,
              False, True, True, True, True, True, True, False]"

text \<open>The permuted choice that turns the eight key bytes into two 28-bit halves.\<close>

(* src: crypto/des/des.c@304-320 DES_set_key *)
definition DES_set_key_pc1 :: "bytes \<Rightarrow> u32 \<times> u32" where
  "DES_set_key_pc1 key =
     (let c = c2l key;
          d = c2l (drop 4 key);
          (d, c) = PERM_OP d c 4 0x0f0f0f0f;
          c = HPERM_OP c 18 0xcccc0000;
          d = HPERM_OP d 18 0xcccc0000;
          (d, c) = PERM_OP d c 1 0x55555555;
          (c, d) = PERM_OP c d 8 0x00ff00ff;
          (d, c) = PERM_OP d c 1 0x55555555;
          d = (push_bit 16 (d AND 0x000000ff) OR (d AND 0x0000ff00)
               OR drop_bit 16 (d AND 0x00ff0000) OR drop_bit 4 (c AND 0xf0000000))
      in (c AND 0x0fffffff, d))"

(* src: crypto/des/des.c@322-349 DES_set_key *)
fun DES_set_key_loop :: "bool list \<Rightarrow> u32 \<Rightarrow> u32 \<Rightarrow> u32 list" where
  "DES_set_key_loop [] c d = []"
| "DES_set_key_loop (two # rest) c d =
     (let c = (if two then drop_bit 2 c OR push_bit 26 c else drop_bit 1 c OR push_bit 27 c);
          d = (if two then drop_bit 2 d OR push_bit 26 d else drop_bit 1 d OR push_bit 27 d);
          c = c AND 0x0fffffff;
          d = d AND 0x0fffffff;
          s = tab des_skb 0 (c AND 0x3f)
              OR tab des_skb 1 ((drop_bit 6 c AND 0x03) OR (drop_bit 7 c AND 0x3c))
              OR tab des_skb 2 ((drop_bit 13 c AND 0x0f) OR (drop_bit 14 c AND 0x30))
              OR tab des_skb 3 ((drop_bit 20 c AND 0x01) OR (drop_bit 21 c AND 0x06)
                                OR (drop_bit 22 c AND 0x38));
          t = tab des_skb 4 (d AND 0x3f)
              OR tab des_skb 5 ((drop_bit 7 d AND 0x03) OR (drop_bit 8 d AND 0x3c))
              OR tab des_skb 6 (drop_bit 15 d AND 0x3f)
              OR tab des_skb 7 ((drop_bit 21 d AND 0x0f) OR (drop_bit 22 d AND 0x30));
          k0 = ROTATE (push_bit 16 t OR (s AND 0x0000ffff)) 30;
          k1 = ROTATE (drop_bit 16 s OR (t AND 0xffff0000)) 26
      in k0 # k1 # DES_set_key_loop rest c d)"

(* src: crypto/des/des.c DES_set_key *)
definition DES_set_key :: "bytes \<Rightarrow> DES_key_schedule" where
  "DES_set_key key = (let (c, d) = DES_set_key_pc1 key in DES_set_key_loop shifts2 c d)"

section \<open>The rounds\<close>

text \<open>What one round exclusive-ors into the other half, and the round.\<close>

(* src: crypto/des/internal.h@186-188 LOAD_DATA *)
definition LOAD_DATA :: "DES_key_schedule \<Rightarrow> u32 \<Rightarrow> nat \<Rightarrow> u32 \<times> u32" where
  "LOAD_DATA s R S = (R XOR s ! S, R XOR s ! (S + 1))"

(* src: crypto/des/internal.h@190-200 D_ENCRYPT *)
definition D_ENCRYPT :: "DES_key_schedule \<Rightarrow> u32 \<Rightarrow> u32 \<Rightarrow> nat \<Rightarrow> u32" where
  "D_ENCRYPT s LL R S =
     (let (u, t) = LOAD_DATA s R S;
          t = ROTATE t 4
      in LL XOR (tab DES_SPtrans 0 (drop_bit 2 u AND 0x3f)
          XOR tab DES_SPtrans 2 (drop_bit 10 u AND 0x3f)
          XOR tab DES_SPtrans 4 (drop_bit 18 u AND 0x3f)
          XOR tab DES_SPtrans 6 (drop_bit 26 u AND 0x3f)
          XOR tab DES_SPtrans 1 (drop_bit 2 t AND 0x3f)
          XOR tab DES_SPtrans 3 (drop_bit 10 t AND 0x3f)
          XOR tab DES_SPtrans 5 (drop_bit 18 t AND 0x3f)
          XOR tab DES_SPtrans 7 (drop_bit 26 t AND 0x3f)))"

text \<open>The unrolled rounds, two at a time, with the key positions in the order the code has them.\<close>

fun des_rounds :: "DES_key_schedule \<Rightarrow> nat list \<Rightarrow> u32 \<Rightarrow> u32 \<Rightarrow> u32 \<times> u32" where
  "des_rounds s (S1 # S2 # Ss) l r =
     (let l = D_ENCRYPT s l r S1;
          r = D_ENCRYPT s r l S2
      in des_rounds s Ss l r)"
| "des_rounds s Ss l r = (l, r)"

(* src: crypto/des/des.c@374-410 DES_encrypt1 *)
definition des_16_rounds :: "DES_key_schedule \<Rightarrow> bool \<Rightarrow> u32 \<Rightarrow> u32 \<Rightarrow> u32 \<times> u32" where
  "des_16_rounds s enc l r =
     (if enc then des_rounds s [0, 2, 4, 6, 8, 10, 12, 14, 16, 18, 20, 22, 24, 26, 28, 30] l r
      else des_rounds s [30, 28, 26, 24, 22, 20, 18, 16, 14, 12, 10, 8, 6, 4, 2, 0] l r)"

(* src: crypto/des/des.c DES_encrypt1 *)
definition DES_encrypt1 :: "DES_key_schedule \<Rightarrow> bool \<Rightarrow> u32 \<times> u32 \<Rightarrow> u32 \<times> u32" where
  "DES_encrypt1 ks enc data =
     (let (r, l) = data;
          (r, l) = IP r l;
          r = ROTATE r 29;
          l = ROTATE l 29;
          (l, r) = des_16_rounds ks enc l r;
          l = ROTATE l 3;
          r = ROTATE r 3;
          (r, l) = FP r l
      in (l, r))"

(* src: crypto/des/des.c DES_encrypt2 *)
definition DES_encrypt2 :: "DES_key_schedule \<Rightarrow> bool \<Rightarrow> u32 \<times> u32 \<Rightarrow> u32 \<times> u32" where
  "DES_encrypt2 ks enc data =
     (let (r, l) = data;
          r = ROTATE r 29;
          l = ROTATE l 29;
          (l, r) = des_16_rounds ks enc l r
      in (ROTATE l 3, ROTATE r 3))"

(* src: crypto/des/des.c DES_encrypt3 *)
definition DES_encrypt3 ::
  "DES_key_schedule \<Rightarrow> DES_key_schedule \<Rightarrow> DES_key_schedule \<Rightarrow> u32 \<times> u32 \<Rightarrow> u32 \<times> u32" where
  "DES_encrypt3 ks1 ks2 ks3 data =
     (let (l, r) = data;
          data = IP l r;
          data = DES_encrypt2 ks1 True data;
          data = DES_encrypt2 ks2 False data;
          (l, r) = DES_encrypt2 ks3 True data;
          (r, l) = FP r l
      in (l, r))"

(* src: crypto/des/des.c DES_decrypt3 *)
definition DES_decrypt3 ::
  "DES_key_schedule \<Rightarrow> DES_key_schedule \<Rightarrow> DES_key_schedule \<Rightarrow> u32 \<times> u32 \<Rightarrow> u32 \<times> u32" where
  "DES_decrypt3 ks1 ks2 ks3 data =
     (let (l, r) = data;
          data = IP l r;
          data = DES_encrypt2 ks3 False data;
          data = DES_encrypt2 ks2 True data;
          (l, r) = DES_encrypt2 ks1 False data;
          (r, l) = FP r l
      in (l, r))"

(* src: crypto/des/des.c DES_ecb_encrypt *)
definition DES_ecb_encrypt :: "DES_key_schedule \<Rightarrow> bool \<Rightarrow> bytes \<Rightarrow> bytes" where
  "DES_ecb_encrypt schedule is_encrypt inp =
     (let (l0, l1) = DES_encrypt1 schedule is_encrypt (c2l inp, c2l (drop 4 inp))
      in l2c l0 @ l2c l1)"


section \<open>CBC entry points\<close>

text \<open>
  The two CBC functions, with the block operation as parameter: \<open>inp\<close> is what may be read from
  \<^verbatim>\<open>in\<close> on, the result the bytes written from \<^verbatim>\<open>out\<close> on and the final IV,
  \<open>None\<close> a read past \<open>inp\<close>.
\<close>

fun des_cbc_enc_loop ::
  "(u32 \<times> u32 \<Rightarrow> u32 \<times> u32) \<Rightarrow> bytes \<Rightarrow> nat \<Rightarrow> u32 \<times> u32 \<Rightarrow> (bytes \<times> bytes) option" where
  "des_cbc_enc_loop crypt inp len (tout0, tout1) =
     (if 8 \<le> len then
        if length inp < 8 then None
        else
          let (t0, t1) = crypt (c2l inp XOR tout0, c2l (drop 4 inp) XOR tout1)
          in map_option (\<lambda>(os, iv). (l2c t0 @ l2c t1 @ os, iv))
               (des_cbc_enc_loop crypt (drop 8 inp) (len - 8) (t0, t1))
      else if len \<noteq> 0 then
        if length inp < len then None
        else
          let (tin0, tin1) = c2ln inp len;
              (t0, t1) = crypt (tin0 XOR tout0, tin1 XOR tout1)
          in Some (l2c t0 @ l2c t1, l2c t0 @ l2c t1)
      else Some ([], l2c tout0 @ l2c tout1))"

fun des_cbc_dec_loop ::
  "(u32 \<times> u32 \<Rightarrow> u32 \<times> u32) \<Rightarrow> bytes \<Rightarrow> nat \<Rightarrow> u32 \<times> u32 \<Rightarrow> (bytes \<times> bytes) option" where
  "des_cbc_dec_loop crypt inp len (xor0, xor1) =
     (if 8 \<le> len then
        if length inp < 8 then None
        else
          let tin0 = c2l inp;
              tin1 = c2l (drop 4 inp);
              (t0, t1) = crypt (tin0, tin1)
          in map_option (\<lambda>(os, iv). (l2c (t0 XOR xor0) @ l2c (t1 XOR xor1) @ os, iv))
               (des_cbc_dec_loop crypt (drop 8 inp) (len - 8) (tin0, tin1))
      else if len \<noteq> 0 then
        if length inp < 8 then None
        else
          let tin0 = c2l inp;
              tin1 = c2l (drop 4 inp);
              (t0, t1) = crypt (tin0, tin1)
          in Some (l2cn (t0 XOR xor0) (t1 XOR xor1) len, l2c tin0 @ l2c tin1)
      else Some ([], l2c xor0 @ l2c xor1))"

declare des_cbc_enc_loop.simps [simp del] des_cbc_dec_loop.simps [simp del]

(* src: crypto/des/des.c DES_ncbc_encrypt *)
definition DES_ncbc_encrypt ::
  "DES_key_schedule \<Rightarrow> bool \<Rightarrow> bytes \<Rightarrow> nat \<Rightarrow> bytes \<Rightarrow> (bytes \<times> bytes) option" where
  "DES_ncbc_encrypt schedule enc inp len ivec =
     (if enc then
        des_cbc_enc_loop (DES_encrypt1 schedule True) inp len (c2l ivec, c2l (drop 4 ivec))
      else
        des_cbc_dec_loop (DES_encrypt1 schedule False) inp len (c2l ivec, c2l (drop 4 ivec)))"

(* src: crypto/des/des.c DES_ede3_cbc_encrypt *)
definition DES_ede3_cbc_encrypt ::
  "DES_key_schedule \<Rightarrow> DES_key_schedule \<Rightarrow> DES_key_schedule \<Rightarrow> bool \<Rightarrow> bytes \<Rightarrow> nat \<Rightarrow> bytes \<Rightarrow>
     (bytes \<times> bytes) option" where
  "DES_ede3_cbc_encrypt ks1 ks2 ks3 enc inp len ivec =
     (if enc then
        des_cbc_enc_loop (DES_encrypt3 ks1 ks2 ks3) inp len (c2l ivec, c2l (drop 4 ivec))
      else
        des_cbc_dec_loop (DES_decrypt3 ks1 ks2 ks3) inp len (c2l ivec, c2l (drop 4 ivec)))"

section \<open>Decryption undoes encryption\<close>

lemma PERM_OP_twice:
  assumes "PERM_OP a b n m = (a', b')" "take_bit (32 - n) m = m"
  shows "PERM_OP a' b' n m = (a, b)"
proof -
  let ?t = "(drop_bit n a XOR b) AND m"
  have m: "bit m i \<Longrightarrow> i + n < 32" for i
    using assms(2) by (metis bit_take_bit_iff less_diff_conv)
  have ab: "a' = a XOR push_bit n ?t" "b' = b XOR ?t"
    using assms(1) by (simp_all add: PERM_OP_def Let_def)
  have "(drop_bit n a' XOR b') AND m = ?t"
    unfolding ab by (rule bit_word_eqI) (auto simp: bit_simps dest: m)
  then show ?thesis by (simp add: PERM_OP_def Let_def ab xor.assoc)
qed

lemma perm_op_masks:
  "take_bit (32 - 4) (0x0f0f0f0f :: u32) = 0x0f0f0f0f" "take_bit (32 - 16) (0x0000ffff :: u32) = 0x0000ffff"
  "take_bit (32 - 2) (0x33333333 :: u32) = 0x33333333" "take_bit (32 - 8) (0x00ff00ff :: u32) = 0x00ff00ff"
  "take_bit (32 - 1) (0x55555555 :: u32) = 0x55555555"
  by (simp_all add: take_bit_eq_mask mask_eq_exp_minus_1)

lemmas perm_op_inverses = perm_op_masks [THEN PERM_OP_twice [rotated]]

lemma FP_IP:
  assumes "IP l r = (l', r')"
  shows "FP r' l' = (r, l)"
proof -
  obtain r1 l1 where 1: "PERM_OP r l 4 0x0f0f0f0f = (r1, l1)" by fastforce
  obtain l2 r2 where 2: "PERM_OP l1 r1 16 0x0000ffff = (l2, r2)" by fastforce
  obtain r3 l3 where 3: "PERM_OP r2 l2 2 0x33333333 = (r3, l3)" by fastforce
  obtain l4 r4 where 4: "PERM_OP l3 r3 8 0x00ff00ff = (l4, r4)" by fastforce
  have 5: "PERM_OP r4 l4 1 0x55555555 = (r', l')"
    using assms by (simp only: IP_def 1 2 3 4 Let_def prod.case) (auto split: prod.splits)
  show ?thesis
    by (simp only: FP_def Let_def prod.case perm_op_inverses(1) [OF 1] perm_op_inverses(2) [OF 2]
        perm_op_inverses(3) [OF 3] perm_op_inverses(4) [OF 4] perm_op_inverses(5) [OF 5])
qed

lemma IP_FP:
  assumes "FP r l = (r', l')"
  shows "IP l' r' = (l, r)"
proof -
  obtain r1 l1 where 1: "PERM_OP r l 1 0x55555555 = (r1, l1)" by fastforce
  obtain l2 r2 where 2: "PERM_OP l1 r1 8 0x00ff00ff = (l2, r2)" by fastforce
  obtain r3 l3 where 3: "PERM_OP r2 l2 2 0x33333333 = (r3, l3)" by fastforce
  obtain l4 r4 where 4: "PERM_OP l3 r3 16 0x0000ffff = (l4, r4)" by fastforce
  have 5: "PERM_OP r4 l4 4 0x0f0f0f0f = (r', l')"
    using assms by (simp only: FP_def 1 2 3 4 Let_def prod.case) (auto split: prod.splits)
  show ?thesis
    by (simp only: IP_def Let_def prod.case perm_op_inverses(5) [OF 1] perm_op_inverses(4) [OF 2]
        perm_op_inverses(3) [OF 3] perm_op_inverses(2) [OF 4] perm_op_inverses(1) [OF 5])
qed

lemma bit_ROTATE:
  assumes "0 < n" "n < 32"
  shows "bit (ROTATE a n) i \<longleftrightarrow> i < 32 \<and> bit a ((i + n) mod 32)"
proof -
  have "drop_bit n a AND push_bit (32 - n) a = 0"
    by (rule bit_word_eqI) (auto simp: bit_simps dest: bit_imp_le_length)
  then have "ROTATE a n = drop_bit n a OR push_bit (32 - n) a"
    unfolding ROTATE_def by (rule disjunctive_add_eq_or)
  moreover have "i < 32 \<Longrightarrow> \<not> i + n < 32 \<Longrightarrow> (i + n) mod 32 = i - (32 - n)"
    using assms by (simp add: le_mod_geq)
  ultimately show ?thesis using assms
    by (cases "i + n < 32") (auto simp: bit_simps add.commute dest: bit_imp_le_length)
qed

lemma ROTATE_29_3 [simp]: "ROTATE (ROTATE a 29) 3 = a" "ROTATE (ROTATE a 3) 29 = a"
  by (rule bit_word_eqI, simp add: bit_ROTATE mod_add_left_eq)+

lemma D_ENCRYPT_xor: "D_ENCRYPT s l r S = l XOR D_ENCRYPT s 0 r S"
  by (simp add: D_ENCRYPT_def LOAD_DATA_def Let_def)

lemma D_ENCRYPT_twice [simp]: "D_ENCRYPT s (D_ENCRYPT s l r S) r S = l"
  using D_ENCRYPT_xor [of s l] D_ENCRYPT_xor [of s "D_ENCRYPT s l r S"] by (simp add: xor.assoc)

lemma des_rounds_snoc:
  "even (length Ss) \<Longrightarrow> des_rounds s (Ss @ Ts) l r = (let (l, r) = des_rounds s Ss l r in des_rounds s Ts l r)"
  by (induction s Ss l r rule: des_rounds.induct) (auto simp: Let_def)

lemma des_rounds_rev:
  "even (length Ss) \<Longrightarrow> des_rounds s Ss l r = (l', r') \<Longrightarrow> des_rounds s (rev Ss) r' l' = (r, l)"
proof (induction s Ss l r rule: des_rounds.induct)
  case (1 s S1 S2 Ss l r)
  let ?l = "D_ENCRYPT s l r S1"
  let ?r = "D_ENCRYPT s r ?l S2"
  have "des_rounds s Ss ?l ?r = (l', r')" using 1(3) by (simp add: Let_def)
  then have "des_rounds s (rev Ss) r' l' = (?r, ?l)" using 1(1,2) by simp
  then show ?case using 1(2) by (simp add: des_rounds_snoc Let_def)
qed auto

lemma des_16_rounds_inverse:
  "des_16_rounds s enc l r = (l', r') \<Longrightarrow> des_16_rounds s (\<not> enc) r' l' = (r, l)"
  using des_rounds_rev [of "[0, 2, 4, 6, 8, 10, 12, 14, 16, 18, 20, 22, 24, 26, 28, 30]" s l r l' r']
    des_rounds_rev [of "[30, 28, 26, 24, 22, 20, 18, 16, 14, 12, 10, 8, 6, 4, 2, 0]" s l r l' r']
  by (cases enc) (simp_all add: des_16_rounds_def del: des_rounds.simps)

lemma DES_encrypt1_inverse [simp]: "DES_encrypt1 ks (\<not> enc) (DES_encrypt1 ks enc d) = d"
proof -
  obtain r0 l0 where d: "d = (r0, l0)" by (cases d)
  obtain r1 l1 where ip: "IP r0 l0 = (r1, l1)" by fastforce
  obtain l2 r2 where rd: "des_16_rounds ks enc (ROTATE l1 29) (ROTATE r1 29) = (l2, r2)" by fastforce
  obtain r3 l3 where fp: "FP (ROTATE r2 3) (ROTATE l2 3) = (r3, l3)" by fastforce
  show ?thesis
    using IP_FP [OF fp] des_16_rounds_inverse [OF rd] FP_IP [OF ip]
    by (simp add: DES_encrypt1_def d ip rd fp)
qed

lemma DES_encrypt2_inverse [simp]: "DES_encrypt2 ks (\<not> enc) (DES_encrypt2 ks enc d) = d"
proof -
  obtain r0 l0 where d: "d = (r0, l0)" by (cases d)
  obtain l2 r2 where rd: "des_16_rounds ks enc (ROTATE l0 29) (ROTATE r0 29) = (l2, r2)" by fastforce
  show ?thesis using des_16_rounds_inverse [OF rd] by (simp add: DES_encrypt2_def d rd)
qed

lemmas des_inverses [simp] =
  DES_encrypt1_inverse [where enc = True, simplified] DES_encrypt1_inverse [where enc = False, simplified]
  DES_encrypt2_inverse [where enc = True, simplified] DES_encrypt2_inverse [where enc = False, simplified]

lemma DES_decrypt3_encrypt3 [simp]: "DES_decrypt3 ks1 ks2 ks3 (DES_encrypt3 ks1 ks2 ks3 d) = d"
proof -
  obtain l0 r0 where d: "d = (l0, r0)" by (cases d)
  obtain l1 r1 where ip: "IP l0 r0 = (l1, r1)" by fastforce
  obtain l2 r2 where e: "DES_encrypt2 ks3 True (DES_encrypt2 ks2 False (DES_encrypt2 ks1 True (l1, r1))) = (l2, r2)"
    by fastforce
  obtain r3 l3 where fp: "FP r2 l2 = (r3, l3)" by fastforce
  have "DES_encrypt2 ks1 False (DES_encrypt2 ks2 True (DES_encrypt2 ks3 False (l2, r2))) = (l1, r1)"
    by (simp add: e [symmetric])
  then show ?thesis using IP_FP [OF fp] FP_IP [OF ip]
    by (simp add: DES_encrypt3_def DES_decrypt3_def d ip e fp)
qed

text \<open>
  Triple DES leaves out the permutations between its three passes, which cancel.
\<close>

definition des_ip :: "u32 \<times> u32 \<Rightarrow> u32 \<times> u32" where
  "des_ip d = IP (fst d) (snd d)"

definition des_fp :: "u32 \<times> u32 \<Rightarrow> u32 \<times> u32" where
  "des_fp d = prod.swap (FP (snd d) (fst d))"

lemma des_ip_fp [simp]: "des_ip (des_fp d) = d"
  by (cases "FP (snd d) (fst d)") (simp add: des_ip_def des_fp_def IP_FP)

lemma des_fp_ip [simp]: "des_fp (des_ip d) = d"
  by (cases "IP (fst d) (snd d)") (simp add: des_ip_def des_fp_def FP_IP)

lemma DES_encrypt1_eq: "DES_encrypt1 ks enc d = des_fp (DES_encrypt2 ks enc (des_ip d))"
  by (cases d) (simp add: DES_encrypt1_def DES_encrypt2_def des_ip_def des_fp_def split: prod.splits)

lemma DES_encrypt3_eq:
  "DES_encrypt3 ks1 ks2 ks3 d
     = des_fp (DES_encrypt2 ks3 True (DES_encrypt2 ks2 False (DES_encrypt2 ks1 True (des_ip d))))"
  "DES_decrypt3 ks1 ks2 ks3 d
     = des_fp (DES_encrypt2 ks1 False (DES_encrypt2 ks2 True (DES_encrypt2 ks3 False (des_ip d))))"
  by (cases d; simp add: DES_encrypt3_def DES_decrypt3_def des_ip_def des_fp_def Let_def split: prod.splits)+

section \<open>Blocks of bytes\<close>

lemma l2c_c2l: "4 \<le> length bs \<Longrightarrow> l2c (c2l bs) = take 4 bs"
proof -
  assume l: "4 \<le> length bs"
  have "ucast (c2l bs) = bs ! 0" "ucast (drop_bit 8 (c2l bs)) = bs ! 1"
    "ucast (drop_bit 16 (c2l bs)) = bs ! 2" "ucast (drop_bit 24 (c2l bs)) = bs ! 3"
    by (rule bit_word_eqI, auto simp: c2l_def bit_simps dest: bit_imp_le_length)+
  moreover have "take 4 bs = [bs ! 0, bs ! 1, bs ! 2, bs ! 3]"
    using l by (intro nth_equalityI) (auto simp: nth_Cons' numeral_eq_Suc less_Suc_eq)
  ultimately show ?thesis by (simp only: l2c_def)
qed

lemma word_of_four_bytes:
  "ucast (ucast w :: u8) OR push_bit 8 (ucast (ucast (drop_bit 8 w) :: u8))
     OR push_bit 16 (ucast (ucast (drop_bit 16 w) :: u8))
     OR push_bit 24 (ucast (ucast (drop_bit 24 w) :: u8)) = (w :: u32)"
proof (rule bit_word_eqI)
  fix n assume "n < LENGTH(32)"
  then consider "n < 8" | "8 \<le> n" "n < 16" | "16 \<le> n" "n < 24" | "24 \<le> n" "n < 32" by fastforce
  then show "bit (ucast (ucast w :: u8) OR push_bit 8 (ucast (ucast (drop_bit 8 w) :: u8))
     OR push_bit 16 (ucast (ucast (drop_bit 16 w) :: u8))
     OR push_bit 24 (ucast (ucast (drop_bit 24 w) :: u8)) :: u32) n = bit w n"
    by cases (auto simp: bit_simps)
qed

lemma c2l_l2c [simp]: "c2l (l2c w @ bs) = w" "c2l (l2c w) = w"
  using word_of_four_bytes [of w] by (simp_all add: c2l_def l2c_def)

lemma length_l2c [simp]: "length (l2c w) = 4"
  by (simp add: l2c_def)

lemma l2c_xor: "l2c (x XOR y) = xor_bytes (l2c x) (l2c y)"
  by (simp add: l2c_def xor_bytes_def unsigned_xor_eq)

lemma c2l_take: "4 \<le> n \<Longrightarrow> c2l (take n bs) = c2l bs"
  by (simp add: c2l_def)

lemma c2ln_padded:
  assumes "length inp = n" "n < 8"
  shows "c2ln inp n = (c2l (inp @ replicate (8 - n) 0), c2l (drop 4 (inp @ replicate (8 - n) 0)))"
proof -
  let ?p = "inp @ replicate (8 - n) 0"
  have p: "(if i < n then push_bit sh (ucast (inp ! i)) else 0) = push_bit sh (ucast (?p ! i) :: u32)"
    if "i < 8" for i sh using that assms by (simp add: nth_append)
  have d: "drop 4 ?p ! i = ?p ! (4 + i)" for i using assms by (intro nth_drop) simp
  show ?thesis
    unfolding c2ln_def c2l_def Let_def d
    by (simp only: p) (simp add: p or.assoc or.commute or.left_commute)
qed

lemma l2cn_eq: "l2cn l1 l2 n = take n (l2c l1 @ l2c l2)"
  by (simp add: l2cn_def l2c_def)

text \<open>A block operation on words as one on bytes.\<close>

definition des_block :: "(u32 \<times> u32 \<Rightarrow> u32 \<times> u32) \<Rightarrow> bytes \<Rightarrow> bytes" where
  "des_block crypt b = (let (t0, t1) = crypt (c2l b, c2l (drop 4 b)) in l2c t0 @ l2c t1)"

lemma length_des_block [simp]: "length (des_block crypt b) = 8"
  by (simp add: des_block_def split: prod.splits)

lemma DES_ecb_encrypt_block: "DES_ecb_encrypt ks enc = des_block (DES_encrypt1 ks enc)"
  by (rule ext) (simp add: DES_ecb_encrypt_def des_block_def)

lemma words_of_block:
  "length b = 8 \<Longrightarrow> l2c (c2l b) @ l2c (c2l (drop 4 b)) = b"
  using append_take_drop_id [of 4 b] by (simp add: l2c_c2l)

lemma des_block_inverse:
  assumes "\<And>d. dec (enc d) = d" "length b = 8"
  shows "des_block dec (des_block enc b) = b"
  using assms words_of_block [OF assms(2)]
  by (cases "enc (c2l b, c2l (drop 4 b))") (simp add: des_block_def, metis case_prod_conv)

interpretation des: block_cipher_total 8 "des_block (DES_encrypt1 ks True)" "des_block (DES_encrypt1 ks False)"
  for ks
  by unfold_locales (simp_all add: des_block_inverse)

interpretation des3: block_cipher_total 8 "des_block (DES_encrypt3 ks1 ks2 ks3)" "des_block (DES_decrypt3 ks1 ks2 ks3)"
  for ks1 ks2 ks3
  by unfold_locales (simp_all add: des_block_inverse)

section \<open>The CBC loops compute CBC\<close>

lemma des_block_xor:
  assumes "length b = 8"
  shows "des_block crypt (xor_bytes b (l2c o0 @ l2c o1))
     = (let (t0, t1) = crypt (c2l b XOR o0, c2l (drop 4 b) XOR o1) in l2c t0 @ l2c t1)"
proof -
  have "xor_bytes (l2c (c2l b) @ l2c (c2l (drop 4 b))) (l2c o0 @ l2c o1)
      = l2c (c2l b XOR o0) @ l2c (c2l (drop 4 b) XOR o1)"
    by (simp add: xor_bytes_append l2c_xor)
  then show ?thesis by (simp add: words_of_block [OF assms] des_block_def)
qed

lemma des_cbc_enc_loop_spec:
  "length inp = len \<Longrightarrow> des_cbc_enc_loop crypt inp len (o0, o1) =
     (let iv = l2c o0 @ l2c o1; cs = cbc_spec_enc (des_block crypt) iv (padded_blocks 8 inp)
      in Some (concat cs, last (iv # cs)))"
proof (induction len arbitrary: inp o0 o1 rule: less_induct)
  case (less len)
  let ?iv = "l2c o0 @ l2c o1"
  show ?case
  proof (cases "8 \<le> len")
    case True
    obtain t0 t1 where t: "crypt (c2l inp XOR o0, c2l (drop 4 inp) XOR o1) = (t0, t1)" by fastforce
    have b: "des_block crypt (xor_bytes (take 8 inp) ?iv) = l2c t0 @ l2c t1"
      using des_block_xor [of "take 8 inp" crypt o0 o1] True less.prems t c2l_take [of 8 inp]
        c2l_take [of 4 "drop 4 inp"] by (simp add: drop_take)
    have IH: "des_cbc_enc_loop crypt (drop 8 inp) (len - 8) (t0, t1) =
        (let iv = l2c t0 @ l2c t1; cs = cbc_spec_enc (des_block crypt) iv (padded_blocks 8 (drop 8 inp))
         in Some (concat cs, last (iv # cs)))"
      using less True by simp
    show ?thesis using True less.prems t b IH
      by (subst des_cbc_enc_loop.simps) (simp add: Let_def padded_blocks_step)
  next
    case False
    show ?thesis
    proof (cases "len = 0")
      case True
      then show ?thesis using less.prems by (simp add: des_cbc_enc_loop.simps)
    next
      case len: False
      let ?p = "inp @ replicate (8 - len) 0"
      have c: "c2ln inp len = (c2l ?p, c2l (drop 4 ?p))"
        using c2ln_padded [OF less.prems] False by simp
      have pb: "padded_blocks 8 inp = [?p]" using padded_blocks_last [of inp 8] less.prems False len by auto
      have "length ?p = 8" using less.prems False by simp
      then show ?thesis using c pb False len less.prems des_block_xor [of ?p crypt o0 o1]
        by (subst des_cbc_enc_loop.simps) (simp add: Let_def split: prod.splits)
    qed
  qed
qed

lemma des_cbc_dec_loop_spec:
  "\<forall>c\<in>set cs. length c = 8 \<Longrightarrow> len \<le> 8 * length cs \<Longrightarrow> 8 * length cs < len + 8 \<Longrightarrow>
     des_cbc_dec_loop crypt (concat cs) len (x0, x1) =
       (let iv = l2c x0 @ l2c x1
        in Some (take len (concat (cbc_spec_dec (des_block crypt) iv cs)), last (iv # cs)))"
proof (induction cs arbitrary: len x0 x1)
  case Nil
  then show ?case by (simp add: des_cbc_dec_loop.simps)
next
  case (Cons c cs)
  let ?iv = "l2c x0 @ l2c x1"
  have lc: "length c = 8" using Cons.prems by simp
  obtain t0 t1 where t: "crypt (c2l c, c2l (drop 4 c)) = (t0, t1)" by fastforce
  have r: "c2l (c @ xs) = c2l c" "c2l (drop 4 c @ xs) = c2l (drop 4 c)" for xs
    using lc by (simp_all add: c2l_def nth_append)
  have b: "xor_bytes (des_block crypt c) ?iv = l2c (t0 XOR x0) @ l2c (t1 XOR x1)"
    using t by (simp add: des_block_def xor_bytes_append l2c_xor)
  show ?case
  proof (cases "8 \<le> len")
    case True
    then show ?thesis
      using Cons.IH [of "len - 8" "c2l c" "c2l (drop 4 c)"] Cons.prems lc t b r words_of_block [OF lc]
      by (subst des_cbc_dec_loop.simps) (simp add: Let_def)
  next
    case False
    then have "cs = []" "len \<noteq> 0" using Cons.prems(2,3) by (cases cs, auto)
    then show ?thesis using False lc t b words_of_block [OF lc]
      by (subst des_cbc_dec_loop.simps) (simp add: Let_def l2cn_eq)
  qed
qed


lemma des_cbc_loops_inverse:
  assumes cipher: "block_cipher 8 (des_block enc) (des_block dec)" and iv: "length ivec = 8"
  shows "\<exists>ct iv'. des_cbc_enc_loop enc data (length data) (c2l ivec, c2l (drop 4 ivec)) = Some (ct, iv')
           \<and> length ct = 8 * ((length data + 7) div 8)
           \<and> des_cbc_dec_loop dec ct (length data) (c2l ivec, c2l (drop 4 ivec)) = Some (data, iv')"
proof -
  let ?bs = "padded_blocks 8 data"
  let ?cs = "cbc_spec_enc (des_block enc) ivec ?bs"
  have bs: "\<forall>b\<in>set ?bs. length b = 8" using length_in_padded_blocks by blast
  have nb: "length ?bs = (length data + 7) div 8" using length_padded_blocks [of 8 data] by auto
  note lens = length_padded_blocks [of 8 data]
  have e: "des_cbc_enc_loop enc data (length data) (c2l ivec, c2l (drop 4 ivec))
      = Some (concat ?cs, last (ivec # ?cs))"
    by (simp add: des_cbc_enc_loop_spec words_of_block [OF iv] Let_def)
  have "des_cbc_dec_loop dec (concat ?cs) (length data) (c2l ivec, c2l (drop 4 ivec))
      = Some (take (length data) (concat (cbc_spec_dec (des_block dec) ivec ?cs)), last (ivec # ?cs))"
    using des_cbc_dec_loop_spec [of ?cs "length data" dec "c2l ivec" "c2l (drop 4 ivec)"]
      block_cipher.length_cbc_enc [OF cipher iv bs] lens by (simp add: words_of_block [OF iv] Let_def)
  then show ?thesis
    using e nb block_cipher.length_concat_cbc_enc [OF cipher iv bs]
      block_cipher.cbc_padded_roundtrip [OF cipher iv, of data] by simp
qed

text \<open>On whole blocks both entry points compute CBC in the sense of the locale.\<close>

lemma des_cbc_whole:
  assumes "8 dvd length inp" "length v = 8"
    and "block_cipher_total 8 (des_block enc) (des_block dec)"
  shows "des_cbc_enc_loop enc inp (length inp) (c2l v, c2l (drop 4 v))
      = Some (block_cipher_total.cbc_bytes 8 (des_block enc) (des_block dec) True v inp)"
    "des_cbc_dec_loop dec inp (length inp) (c2l v, c2l (drop 4 v))
      = Some (block_cipher_total.cbc_bytes 8 (des_block enc) (des_block dec) False v inp)"
proof -
  have c: "concat (padded_blocks 8 inp) = inp" using concat_padded_blocks [of 8 inp] assms(1) by simp
  have l: "\<forall>b\<in>set (padded_blocks 8 inp). length b = 8" using length_in_padded_blocks by blast
  have n: "length inp = 8 * length (padded_blocks 8 inp)" using length_concat_blocks [OF l] c by simp
  have t: "length (concat (cbc_spec_dec (des_block dec) v (padded_blocks 8 inp))) = length inp"
    using block_cipher_total.length_cbc_dec [OF assms(3,2) l] n by simp
  show "des_cbc_enc_loop enc inp (length inp) (c2l v, c2l (drop 4 v))
      = Some (block_cipher_total.cbc_bytes 8 (des_block enc) (des_block dec) True v inp)"
    by (simp add: des_cbc_enc_loop_spec words_of_block [OF assms(2)]
        block_cipher_total.cbc_bytes_def [OF assms(3)] Let_def)
  show "des_cbc_dec_loop dec inp (length inp) (c2l v, c2l (drop 4 v))
      = Some (block_cipher_total.cbc_bytes 8 (des_block enc) (des_block dec) False v inp)"
    using des_cbc_dec_loop_spec [OF l, of "length inp" dec "c2l v" "c2l (drop 4 v)"] n t
    by (simp add: c words_of_block [OF assms(2)] block_cipher_total.cbc_bytes_def [OF assms(3)] Let_def)
qed

section \<open>Properties\<close>

text \<open>
  C36: Decryption undoes encryption, in both directions and for every key schedule, valid or not:
  DES_ecb_encrypt on eight bytes and the triple-DES block operations; no property of the tables is
  needed beyond their use in a Feistel network between two bit permutations that FP and IP undo.
\<close>
theorem des_decrypt_inverse:
  assumes "length block = 8"
  shows "DES_ecb_encrypt ks (\<not> enc) (DES_ecb_encrypt ks enc block) = block
    \<and> DES_decrypt3 ks1 ks2 ks3 (DES_encrypt3 ks1 ks2 ks3 data) = data
    \<and> DES_encrypt3 ks1 ks2 ks3 (DES_decrypt3 ks1 ks2 ks3 data) = data"
  using assms by (simp add: DES_ecb_encrypt_block des_block_inverse) (simp add: DES_encrypt3_eq)

theorem des_decrypt_inverse_witness:
  "DES_ecb_encrypt (replicate 32 5) (\<not> True) (DES_ecb_encrypt (replicate 32 5) True (replicate 8 1)) = replicate 8 1
    \<and> DES_decrypt3 [1] [2] [3] (DES_encrypt3 [1] [2] [3] (4, 5)) = (4, 5)
    \<and> DES_encrypt3 [1] [2] [3] (DES_decrypt3 [1] [2] [3] (4, 5)) = (4, 5)"
  by (rule des_decrypt_inverse) simp

text \<open>
  Triple DES is three DES operations.  DES_encrypt3 and DES_decrypt3 permute the bits once at
  each end instead of around every pass; they equal the composition of three complete DES block
  operations, encrypt-decrypt-encrypt and its reverse, for all keys and blocks.
\<close>
theorem des3_is_three_des:
  "DES_encrypt3 ks1 ks2 ks3 d = DES_encrypt1 ks3 True (DES_encrypt1 ks2 False (DES_encrypt1 ks1 True d))
   \<and> DES_decrypt3 ks1 ks2 ks3 d = DES_encrypt1 ks1 False (DES_encrypt1 ks2 True (DES_encrypt1 ks3 False d))"
  by (simp add: DES_encrypt3_eq DES_encrypt1_eq)

text \<open>
  DES and triple DES in CBC mode.  For every length, key schedule and IV, decrypting what
  DES_ncbc_encrypt or DES_ede3_cbc_encrypt wrote gives the data back and leaves the same IV;
  the ciphertext is the data rounded up to whole blocks and decryption reads no further.
\<close>
theorem des_cbc_roundtrip:
  assumes "length ivec = 8"
  shows "(\<exists>ct iv'. DES_ncbc_encrypt ks True data (length data) ivec = Some (ct, iv')
            \<and> length ct = 8 * ((length data + 7) div 8)
            \<and> DES_ncbc_encrypt ks False ct (length data) ivec = Some (data, iv'))
    \<and> (\<exists>ct iv'. DES_ede3_cbc_encrypt ks1 ks2 ks3 True data (length data) ivec = Some (ct, iv')
            \<and> length ct = 8 * ((length data + 7) div 8)
            \<and> DES_ede3_cbc_encrypt ks1 ks2 ks3 False ct (length data) ivec = Some (data, iv'))"
  using des_cbc_loops_inverse [OF des.block_cipher_axioms assms, where data = data]
    des_cbc_loops_inverse [OF des3.block_cipher_axioms assms, where data = data]
  by (simp add: DES_ncbc_encrypt_def DES_ede3_cbc_encrypt_def)

theorem des_cbc_roundtrip_witness:
  "(\<exists>ct iv'. DES_ncbc_encrypt (replicate 32 5) True [1, 2, 3] (length [1 :: u8, 2, 3]) (replicate 8 9) = Some (ct, iv')
            \<and> length ct = 8 * ((length [1 :: u8, 2, 3] + 7) div 8)
            \<and> DES_ncbc_encrypt (replicate 32 5) False ct (length [1 :: u8, 2, 3]) (replicate 8 9) = Some ([1, 2, 3], iv'))
    \<and> (\<exists>ct iv'. DES_ede3_cbc_encrypt (replicate 32 5) (replicate 32 6) (replicate 32 7) True [1, 2, 3] (length [1 :: u8, 2, 3]) (replicate 8 9) = Some (ct, iv')
            \<and> length ct = 8 * ((length [1 :: u8, 2, 3] + 7) div 8)
            \<and> DES_ede3_cbc_encrypt (replicate 32 5) (replicate 32 6) (replicate 32 7) False ct (length [1 :: u8, 2, 3]) (replicate 8 9) = Some ([1, 2, 3], iv'))"
  by (rule des_cbc_roundtrip) simp

end
