(* ===== verification/Cipher.thy ===== *)
theory Cipher
  imports Des "HOL-Library.Monad_Syntax"
begin

unbundle bit_operations_syntax

text \<open>
  The EVP cipher interface of \<^verbatim>\<open>crypto/cipher/cipher.c\<close>: initialisation, streaming
  encryption and decryption with their block buffering and padding, for an arbitrary cipher given
  as a record of functions, and the two DES ciphers of \<^verbatim>\<open>crypto/cipher/e_des.c\<close>.

  The part of EVP_CIPHER_CTX a cipher's functions may touch (\<^verbatim>\<open>cipher_data\<close>, the IVs,
  \<^verbatim>\<open>encrypt\<close> and \<^verbatim>\<open>num\<close>) is the record \<open>cipher_core\<close>, the rest the context
  around it.  Every call gives \<open>None\<close> where the code would read past its input, dereference a
  NULL cipher or fail an assertion; otherwise the return value, the length stored in
  \<^verbatim>\<open>*out_len\<close> (\<open>None\<close> where the code leaves it alone), the bytes written from
  \<^verbatim>\<open>out\<close> on and the new context.  C's \<^verbatim>\<open>int\<close> is \<open>int\<close>: callers keep
  \<^verbatim>\<open>in_len\<close> a block below the largest value.

  What the streaming functions need of a cipher is the locale \<open>padded_cipher\<close>; both DES ciphers
  are interpretations.
\<close>

section \<open>Ciphers and contexts\<close>

(* src: include/openssl/cipher.h@384-408 EVP_CIPHER_CTX *)
record 'd cipher_core =
  cipher_data :: "'d option"
  encrypt :: bool
  oiv :: bytes
  iv :: bytes
  num :: int

text \<open>
  A cipher function's result: its return value, the output and the core.  The input \<open>None\<close> is the
  NULL pointer a custom cipher is finished with.
\<close>

(* src: crypto/cipher/internal.h@69-103 evp_cipher_st *)
record 'd EVP_CIPHER =
  nid :: nat
  block_size :: nat
  key_size :: nat
  iv_len :: nat
  has_data :: bool
  cipher_flags :: u32
  init_fn :: "'d cipher_core \<Rightarrow> bytes option \<Rightarrow> bytes option \<Rightarrow> bool \<Rightarrow> (bool \<times> 'd cipher_core) option"
  cipher_fn :: "'d cipher_core \<Rightarrow> bytes option \<Rightarrow> (int \<times> bytes \<times> 'd cipher_core) option"
  ctrl_init :: "('d cipher_core \<Rightarrow> int \<times> 'd cipher_core) option"

(* src: include/openssl/cipher.h@384-430 EVP_CIPHER_CTX *)
record 'd EVP_CIPHER_CTX =
  cipher :: "'d EVP_CIPHER option"
  core :: "'d cipher_core"
  key_len :: nat
  ctx_flags :: u32
  buf :: bytes
  buf_len :: nat
  final_used :: bool
  final :: bytes
  block_mask :: nat

abbreviation EVP_CIPH_MODE_MASK :: u32 where "EVP_CIPH_MODE_MASK \<equiv> 0x3f"
abbreviation EVP_CIPH_ALWAYS_CALL_INIT :: u32 where "EVP_CIPH_ALWAYS_CALL_INIT \<equiv> 0x80"
abbreviation EVP_CIPH_CUSTOM_IV :: u32 where "EVP_CIPH_CUSTOM_IV \<equiv> 0x100"
abbreviation EVP_CIPH_CTRL_INIT :: u32 where "EVP_CIPH_CTRL_INIT \<equiv> 0x200"
abbreviation EVP_CIPH_FLAG_CUSTOM_CIPHER :: u32 where "EVP_CIPH_FLAG_CUSTOM_CIPHER \<equiv> 0x400"
abbreviation EVP_CIPH_NO_PADDING :: u32 where "EVP_CIPH_NO_PADDING \<equiv> 0x800"

text \<open>A memset to zero of the whole context.\<close>

(* src: crypto/cipher/cipher.c EVP_CIPHER_CTX_init *)
definition EVP_CIPHER_CTX_init :: "'d EVP_CIPHER_CTX" where
  "EVP_CIPHER_CTX_init =
     \<lparr>cipher = None,
      core = \<lparr>cipher_data = None, encrypt = False, oiv = replicate 16 0, iv = replicate 16 0, num = 0\<rparr>,
      key_len = 0, ctx_flags = 0, buf = replicate 32 0, buf_len = 0, final_used = False,
      final = replicate 32 0, block_mask = 0\<rparr>"

(* src: crypto/cipher/cipher.c EVP_CIPHER_CTX_set_padding *)
definition EVP_CIPHER_CTX_set_padding :: "'d EVP_CIPHER_CTX \<Rightarrow> bool \<Rightarrow> 'd EVP_CIPHER_CTX" where
  "EVP_CIPHER_CTX_set_padding ctx pad =
     (if pad then ctx\<lparr>ctx_flags := ctx_flags ctx AND NOT EVP_CIPH_NO_PADDING\<rparr>
      else ctx\<lparr>ctx_flags := ctx_flags ctx OR EVP_CIPH_NO_PADDING\<rparr>)"

text \<open>
  The IV handling of initialisation: \<open>None\<close> is the failed assertion on the IV length,
  \<open>Some None\<close> the error return for a mode the switch does not know.
\<close>

(* src: crypto/cipher/cipher.c@201-231 EVP_CipherInit_ex *)
definition cipher_init_iv ::
  "'d EVP_CIPHER \<Rightarrow> bytes option \<Rightarrow> 'd cipher_core \<Rightarrow> 'd cipher_core option option" where
  "cipher_init_iv c ivp k =
     (if cipher_flags c AND EVP_CIPH_CUSTOM_IV \<noteq> 0 then Some (Some k)
      else
        let mode = cipher_flags c AND EVP_CIPH_MODE_MASK;
            n = iv_len c;
            copy_iv = (\<lambda>k.
              if 16 < n then None
              else
                let k = (case ivp of None \<Rightarrow> k | Some v \<Rightarrow> k\<lparr>oiv := mem_write (oiv k) 0 (take n v)\<rparr>)
                in Some (Some (k\<lparr>iv := mem_write (iv k) 0 (take n (oiv k))\<rparr>)))
        in if mode = 0 \<or> mode = 1 then Some (Some k)
           else if mode = 3 \<or> mode = 4 then copy_iv (k\<lparr>num := 0\<rparr>)
           else if mode = 2 then copy_iv k
           else if mode = 5 then
             (let k = k\<lparr>num := 0\<rparr>
              in case ivp of None \<Rightarrow> Some (Some k)
                 | Some v \<Rightarrow> if 16 < n then None else Some (Some (k\<lparr>iv := mem_write (iv k) 0 (take n v)\<rparr>)))
           else Some None)"

text \<open>
  Choosing the cipher: \<open>enc\<close> is \<open>None\<close> for the argument -1, \<open>malloc_ok\<close> whether cipher_data can
  be allocated.  A context that had a cipher is wiped first.
\<close>

(* src: crypto/cipher/cipher.c@153-195 EVP_CipherInit_ex *)
definition cipher_init_select ::
  "bool \<Rightarrow> 'd EVP_CIPHER_CTX \<Rightarrow> 'd EVP_CIPHER option \<Rightarrow> bool option \<Rightarrow> bool \<times> 'd EVP_CIPHER_CTX" where
  "cipher_init_select malloc_ok ctx newc enc =
     (let e = (case enc of None \<Rightarrow> encrypt (core ctx) | Some b \<Rightarrow> b);
          ctx = ctx\<lparr>core := (core ctx)\<lparr>encrypt := e\<rparr>\<rparr>
      in case newc of
           None \<Rightarrow> (cipher ctx \<noteq> None, ctx)
         | Some c \<Rightarrow>
             let ctx = (if cipher ctx \<noteq> None then
                          EVP_CIPHER_CTX_init\<lparr>core := (core EVP_CIPHER_CTX_init)\<lparr>encrypt := e\<rparr>\<rparr>
                        else ctx);
                 ctx = ctx\<lparr>cipher := Some c\<rparr>
             in if has_data c \<and> \<not> malloc_ok then
                  (False, ctx\<lparr>core := (core ctx)\<lparr>cipher_data := None\<rparr>\<rparr>)
                else
                  let ctx = ctx\<lparr>core := (core ctx)\<lparr>cipher_data := None\<rparr>,
                                key_len := key_size c, ctx_flags := 0\<rparr>
                  in if cipher_flags c AND EVP_CIPH_CTRL_INIT \<noteq> 0 then
                       case ctrl_init c of
                         None \<Rightarrow> (False, ctx)
                       | Some f \<Rightarrow>
                           let (ret, k) = f (core ctx)
                           in (ret \<noteq> -1 \<and> ret \<noteq> 0, ctx\<lparr>core := k\<rparr>)
                     else (True, ctx))"

(* src: crypto/cipher/cipher.c EVP_CipherInit_ex *)
definition EVP_CipherInit_ex ::
  "bool \<Rightarrow> 'd EVP_CIPHER_CTX \<Rightarrow> 'd EVP_CIPHER option \<Rightarrow> bytes option \<Rightarrow> bytes option \<Rightarrow> bool option \<Rightarrow>
     (bool \<times> 'd EVP_CIPHER_CTX) option" where
  "EVP_CipherInit_ex malloc_ok ctx newc key ivp enc =
     (let (ok, ctx) = cipher_init_select malloc_ok ctx newc enc
      in if \<not> ok then Some (False, ctx)
         else case cipher ctx of
           None \<Rightarrow> None
         | Some c \<Rightarrow>
             if block_size c \<noteq> 1 \<and> block_size c \<noteq> 8 \<and> block_size c \<noteq> 16 then None
             else do {
               iv_done \<leftarrow> cipher_init_iv c ivp (core ctx);
               case iv_done of
                 None \<Rightarrow> Some (False, ctx)
               | Some k \<Rightarrow>
                   let ctx = ctx\<lparr>core := k\<rparr> in do {
                     (ok, k) \<leftarrow> (if key \<noteq> None \<or> cipher_flags c AND EVP_CIPH_ALWAYS_CALL_INIT \<noteq> 0
                                then init_fn c k key ivp (encrypt k) else Some (True, k));
                     if \<not> ok then Some (False, ctx\<lparr>core := k\<rparr>)
                     else Some (True, ctx\<lparr>core := k, buf_len := 0, final_used := False,
                                          block_mask := block_size c - 1\<rparr>)
                   }
             })"

section \<open>Encryption\<close>

type_synonym 'd evp_result = "(bool \<times> int option \<times> bytes \<times> 'd EVP_CIPHER_CTX) option"

text \<open>A call of the cipher function on a buffer.\<close>

definition evp_do :: "'d EVP_CIPHER \<Rightarrow> 'd EVP_CIPHER_CTX \<Rightarrow> bytes option \<Rightarrow> (int \<times> bytes \<times> 'd EVP_CIPHER_CTX) option" where
  "evp_do c ctx inp = map_option (\<lambda>(r, out, k). (r, out, ctx\<lparr>core := k\<rparr>)) (cipher_fn c (core ctx) inp)"

text \<open>A custom cipher does its own buffering: its result is the output length, negative on failure.\<close>

(* src: crypto/cipher/cipher.c@259-267 EVP_EncryptUpdate *)
definition evp_custom :: "'d EVP_CIPHER \<Rightarrow> 'd EVP_CIPHER_CTX \<Rightarrow> bytes option \<Rightarrow> 'd evp_result" where
  "evp_custom c ctx inp = do {
     (i, out, ctx) \<leftarrow> evp_do c ctx inp;
     if i < 0 then Some (False, None, out, ctx) else Some (True, Some i, out, ctx)
   }"

text \<open>
  The whole blocks of what is left of the input, and the bytes kept for the next call.  \<open>n0\<close> is
  \<^verbatim>\<open>*out_len\<close> so far and \<open>done\<close> what has been written.
\<close>

(* src: crypto/cipher/cipher.c@308-321 EVP_EncryptUpdate *)
definition evp_update_rest ::
  "'d EVP_CIPHER \<Rightarrow> 'd EVP_CIPHER_CTX \<Rightarrow> bytes \<Rightarrow> int \<Rightarrow> bytes \<Rightarrow> 'd evp_result" where
  "evp_update_rest c ctx inp n0 done =
     (let i = length inp AND block_mask ctx;
          n = length inp - i;
          keep = (\<lambda>ctx. ctx\<lparr>buf := mem_write (buf ctx) 0 (drop n inp), buf_len := i\<rparr>)
      in if 0 < n then do {
           (r, out, ctx) \<leftarrow> evp_do c ctx (Some (take n inp));
           if r = 0 then Some (False, Some n0, done @ out, ctx)
           else if INT_MAX < n0 + int n then None
           else Some (True, Some (n0 + int n), done @ out, keep ctx)
         }
         else Some (True, Some n0, done, keep ctx))"

(* src: crypto/cipher/cipher.c EVP_EncryptUpdate *)
definition EVP_EncryptUpdate :: "'d EVP_CIPHER_CTX \<Rightarrow> bytes \<Rightarrow> int \<Rightarrow> 'd evp_result" where
  "EVP_EncryptUpdate ctx inp in_len =
     (case cipher ctx of
        None \<Rightarrow> None
      | Some c \<Rightarrow>
          if cipher_flags c AND EVP_CIPH_FLAG_CUSTOM_CIPHER \<noteq> 0 then
            evp_custom c ctx (Some (take (nat in_len) inp))
          else if in_len \<le> 0 then Some (in_len = 0, Some 0, [], ctx)
          else
            let inp = take (nat in_len) inp; n = nat in_len
            in if length inp < n then None
               else if buf_len ctx = 0 \<and> n AND block_mask ctx = 0 then do {
                 (r, out, ctx) \<leftarrow> evp_do c ctx (Some inp);
                 if r \<noteq> 0 then Some (True, Some in_len, out, ctx) else Some (False, Some 0, out, ctx)
               }
               else
                 let i = buf_len ctx; bl = block_size c
                 in if 32 < bl then None
                    else if i = 0 then evp_update_rest c ctx inp 0 []
                    else if INT_MAX < int i + in_len then None
                    else if i + n < bl then
                      Some (True, Some 0, [], ctx\<lparr>buf := mem_write (buf ctx) i inp, buf_len := i + n\<rparr>)
                    else
                      let j = bl - i;
                          ctx = ctx\<lparr>buf := mem_write (buf ctx) i (take j inp)\<rparr>
                      in do {
                        (r, out, ctx) \<leftarrow> evp_do c ctx (Some (take bl (buf ctx)));
                        if r = 0 then Some (False, None, out, ctx)
                        else evp_update_rest c ctx (drop j inp) (int bl) out
                      })"

(* src: crypto/cipher/cipher.c EVP_EncryptFinal_ex *)
definition EVP_EncryptFinal_ex :: "'d EVP_CIPHER_CTX \<Rightarrow> 'd evp_result" where
  "EVP_EncryptFinal_ex ctx =
     (case cipher ctx of
        None \<Rightarrow> None
      | Some c \<Rightarrow>
          if cipher_flags c AND EVP_CIPH_FLAG_CUSTOM_CIPHER \<noteq> 0 then evp_custom c ctx None
          else
            let b = block_size c; bl = buf_len ctx
            in if 32 < b then None
               else if b = 1 then Some (True, Some 0, [], ctx)
               else if ctx_flags ctx AND EVP_CIPH_NO_PADDING \<noteq> 0 then
                 if bl \<noteq> 0 then Some (False, None, [], ctx) else Some (True, Some 0, [], ctx)
               else
                 let n = b - bl;
                     ctx = ctx\<lparr>buf := mem_write (buf ctx) bl (replicate n (word_of_nat n))\<rparr>
                 in do {
                   (r, out, ctx) \<leftarrow> evp_do c ctx (Some (take b (buf ctx)));
                   Some (r \<noteq> 0, if r \<noteq> 0 then Some (int b) else None, out, ctx)
                 })"

section \<open>Decryption\<close>

text \<open>The last whole block is held back, since it may be padding.\<close>

(* src: crypto/cipher/cipher.c EVP_DecryptUpdate *)
definition EVP_DecryptUpdate :: "'d EVP_CIPHER_CTX \<Rightarrow> bytes \<Rightarrow> int \<Rightarrow> 'd evp_result" where
  "EVP_DecryptUpdate ctx inp in_len =
     (case cipher ctx of
        None \<Rightarrow> None
      | Some c \<Rightarrow>
          if cipher_flags c AND EVP_CIPH_FLAG_CUSTOM_CIPHER \<noteq> 0 then do {
            (r, out, ctx) \<leftarrow> evp_do c ctx (Some (take (nat in_len) inp));
            if r < 0 then Some (False, Some 0, out, ctx) else Some (True, Some r, out, ctx)
          }
          else if in_len \<le> 0 then Some (in_len = 0, Some 0, [], ctx)
          else if ctx_flags ctx AND EVP_CIPH_NO_PADDING \<noteq> 0 then EVP_EncryptUpdate ctx inp in_len
          else
            let b = block_size c;
                held = (if final_used ctx then take b (final ctx) else []);
                fix_len = (if final_used ctx then int b else 0)
            in if 32 < b then None
               else do {
                 (ok, n, out, ctx) \<leftarrow> EVP_EncryptUpdate ctx inp in_len;
                 case n of
                   Some n \<Rightarrow>
                     if \<not> ok then Some (False, Some n, held @ out, ctx)
                     else if 1 < b \<and> buf_len ctx = 0 then
                       let m = int_of_long (n - int b)
                       in Some (True, Some (int_of_long (m + fix_len)), held @ out,
                             ctx\<lparr>final_used := True,
                                 final := mem_write (final ctx) 0 (mem_read out (nat m) b)\<rparr>)
                     else Some (True, Some (int_of_long (n + fix_len)), held @ out, ctx\<lparr>final_used := False\<rparr>)
                 | None \<Rightarrow> Some (False, None, held @ out, ctx)
               })"

text \<open>The check of the padding, from the last byte back.\<close>

(* src: crypto/cipher/cipher.c@468-473 EVP_DecryptFinal_ex *)
fun padding_loop :: "bytes \<Rightarrow> nat \<Rightarrow> nat \<Rightarrow> nat \<Rightarrow> bool" where
  "padding_loop fin n b 0 = True"
| "padding_loop fin n b (Suc i) =
     (if unat (fin ! (b - 1)) \<noteq> n then False else padding_loop fin n (b - 1) i)"

(* src: crypto/cipher/cipher.c EVP_DecryptFinal_ex *)
definition EVP_DecryptFinal_ex :: "'d EVP_CIPHER_CTX \<Rightarrow> 'd evp_result" where
  "EVP_DecryptFinal_ex ctx =
     (case cipher ctx of
        None \<Rightarrow> None
      | Some c \<Rightarrow>
          if cipher_flags c AND EVP_CIPH_FLAG_CUSTOM_CIPHER \<noteq> 0 then do {
            (i, out, ctx) \<leftarrow> evp_do c ctx None;
            if i < 0 then Some (False, Some 0, out, ctx) else Some (True, Some i, out, ctx)
          }
          else
            let b = block_size c
            in if ctx_flags ctx AND EVP_CIPH_NO_PADDING \<noteq> 0 then
                 if buf_len ctx \<noteq> 0 then Some (False, Some 0, [], ctx) else Some (True, Some 0, [], ctx)
               else if 1 < b then
                 if buf_len ctx \<noteq> 0 \<or> \<not> final_used ctx then Some (False, Some 0, [], ctx)
                 else if 32 < b then None
                 else
                   let n = unat (final ctx ! (b - 1))
                   in if n = 0 \<or> b < n then Some (False, Some 0, [], ctx)
                      else if \<not> padding_loop (final ctx) n b n then Some (False, Some 0, [], ctx)
                      else Some (True, Some (int (b - n)), take (b - n) (final ctx), ctx)
               else Some (True, Some 0, [], ctx))"

(* src: crypto/cipher/cipher.c EVP_CipherUpdate *)
definition EVP_CipherUpdate :: "'d EVP_CIPHER_CTX \<Rightarrow> bytes \<Rightarrow> int \<Rightarrow> 'd evp_result" where
  "EVP_CipherUpdate ctx inp in_len =
     (if encrypt (core ctx) then EVP_EncryptUpdate ctx inp in_len else EVP_DecryptUpdate ctx inp in_len)"

(* src: crypto/cipher/cipher.c EVP_CipherFinal_ex *)
definition EVP_CipherFinal_ex :: "'d EVP_CIPHER_CTX \<Rightarrow> 'd evp_result" where
  "EVP_CipherFinal_ex ctx =
     (if encrypt (core ctx) then EVP_EncryptFinal_ex ctx else EVP_DecryptFinal_ex ctx)"


section \<open>Streams and padding\<close>

text \<open>A whole stream of updates: what came out in total and the context left.\<close>

fun evp_updates ::
  "('d EVP_CIPHER_CTX \<Rightarrow> bytes \<Rightarrow> int \<Rightarrow> 'd evp_result) \<Rightarrow> 'd EVP_CIPHER_CTX \<Rightarrow> bytes list \<Rightarrow>
     (bytes \<times> 'd EVP_CIPHER_CTX) option" where
  "evp_updates upd ctx [] = Some ([], ctx)"
| "evp_updates upd ctx (x # xs) =
     (case upd ctx x (int (length x)) of
        Some (True, Some n, out, ctx') \<Rightarrow>
          map_option (\<lambda>(outs, ctx''). (take (nat n) out @ outs, ctx'')) (evp_updates upd ctx' xs)
      | _ \<Rightarrow> None)"

text \<open>PKCS padding: as many bytes as are missing, each saying how many.\<close>

definition padding :: "nat \<Rightarrow> bytes \<Rightarrow> bytes" where
  "padding b data = (let n = b - length data mod b in replicate n (word_of_nat n))"

lemma padding_loop_replicate:
  "n \<le> m \<Longrightarrow> m \<le> length p \<Longrightarrow> padding_loop p k m n \<longleftrightarrow> (\<forall>i. m - n \<le> i \<and> i < m \<longrightarrow> unat (p ! i) = k)"
proof (induction p k m n rule: padding_loop.induct)
  case (2 p k m n)
  have "m - Suc n \<le> i \<and> i < m \<longleftrightarrow> i = m - 1 \<or> (m - 1 - n \<le> i \<and> i < m - 1)" for i
    using 2(2) by auto
  then have e: "(\<forall>i. m - Suc n \<le> i \<and> i < m \<longrightarrow> unat (p ! i) = k) \<longleftrightarrow>
      unat (p ! (m - 1)) = k \<and> (\<forall>i. m - 1 - n \<le> i \<and> i < m - 1 \<longrightarrow> unat (p ! i) = k)"
    by (simp only:) blast
  show ?case
  proof (cases "unat (p ! (m - 1)) = k")
    case True
    have "n \<le> m - 1" "m - 1 \<le> length p" using 2(2,3) by linarith+
    then have "padding_loop p k (m - 1) n \<longleftrightarrow> (\<forall>i. m - 1 - n \<le> i \<and> i < m - 1 \<longrightarrow> unat (p ! i) = k)"
      using 2(1) True by blast
    then show ?thesis unfolding e using True by (simp only: padding_loop.simps simp_thms if_False)
  next
    case False
    then show ?thesis unfolding e by (simp only: padding_loop.simps simp_thms if_True)
  qed
qed simp

text \<open>A piece whose length, with two of the longest blocks, is an \<^verbatim>\<open>int\<close>.\<close>

definition update_fits :: "bytes \<Rightarrow> bool" where
  "update_fits x \<longleftrightarrow> int (length x) + 64 \<le> INT_MAX"

section \<open>What the streaming functions need of a cipher\<close>

text \<open>
  A cipher that works on whole blocks: fed a multiple of its block size it never fails, keeps the
  length, and does not care how the blocks are cut into calls; decrypting undoes encrypting.
  \<open>good k\<close> says that the core is keyed.
\<close>

definition blocks_fn :: "'d EVP_CIPHER \<Rightarrow> 'd cipher_core \<Rightarrow> bytes \<Rightarrow> bytes \<times> 'd cipher_core" where
  "blocks_fn c k a = (case cipher_fn c k (Some a) of Some (r, out, k') \<Rightarrow> (out, k') | None \<Rightarrow> ([], k))"

definition set_dir :: "bool \<Rightarrow> 'd cipher_core \<Rightarrow> 'd cipher_core" where
  "set_dir e k = k\<lparr>encrypt := e\<rparr>"

locale padded_cipher =
  fixes c :: "'d EVP_CIPHER"
    and good :: "'d cipher_core \<Rightarrow> bool"
  assumes not_custom: "cipher_flags c AND EVP_CIPH_FLAG_CUSTOM_CIPHER = 0"
    and size_8_16: "block_size c = 8 \<or> block_size c = 16"
    and good_dir: "good k \<Longrightarrow> good (set_dir e k)"
    and runs: "good k \<Longrightarrow> block_size c dvd length a \<Longrightarrow>
      \<exists>out k'. cipher_fn c k (Some a) = Some (1, out, k') \<and> length out = length a \<and> good k'
        \<and> encrypt k' = encrypt k"
    and splits: "good k \<Longrightarrow> block_size c dvd length a \<Longrightarrow> block_size c dvd length b \<Longrightarrow>
      blocks_fn c k (a @ b) =
        (let (x, k1) = blocks_fn c k a; (y, k2) = blocks_fn c k1 b in (x @ y, k2))"
    and empty: "good k \<Longrightarrow> blocks_fn c k [] = ([], k)"
    and undoes: "good k \<Longrightarrow> encrypt k \<Longrightarrow> block_size c dvd length a \<Longrightarrow> blocks_fn c k a = (x, k') \<Longrightarrow>
      blocks_fn c (set_dir False k) x = (a, set_dir False k')"
begin

abbreviation "bs \<equiv> block_size c"

lemma bs_pos [simp]: "0 < bs" "bs \<le> 32" "\<not> bs \<le> Suc 0" "Suc 0 < bs"
  using size_8_16 by auto

lemma run_fn:
  assumes "good k" "bs dvd length a" "blocks_fn c k a = (x, k')"
  shows "cipher_fn c k (Some a) = Some (1, x, k')" "length x = length a" "good k'" "encrypt k' = encrypt k"
  using runs [OF assms(1,2)] assms(3) by (auto simp: blocks_fn_def)

lemma evp_do_run:
  assumes "good (core ctx)" "bs dvd length a" "blocks_fn c (core ctx) a = (x, k')"
  shows "evp_do c ctx (Some a) = Some (1, x, ctx\<lparr>core := k'\<rparr>)"
  using run_fn [OF assms] by (simp add: evp_do_def)

text \<open>Everything of a context that streaming does not change.\<close>

definition ready :: "'d EVP_CIPHER_CTX \<Rightarrow> bool" where
  "ready ctx \<longleftrightarrow> cipher ctx = Some c \<and> block_mask ctx = bs - 1 \<and> ctx_flags ctx AND EVP_CIPH_NO_PADDING = 0
     \<and> length (buf ctx) = 32 \<and> length (final ctx) = 32"

text \<open>
  After \<open>fed\<close> has gone in and \<open>out\<close> has come out, starting from core \<open>k0\<close>: the output is the
  whole blocks of the input run through the cipher, the buffer holds the rest.
\<close>

definition enc_state :: "'d cipher_core \<Rightarrow> bytes \<Rightarrow> bytes \<Rightarrow> 'd EVP_CIPHER_CTX \<Rightarrow> bool" where
  "enc_state k0 fed out ctx \<longleftrightarrow> ready ctx \<and> good k0 \<and> good (core ctx)
     \<and> encrypt (core ctx) = encrypt k0 \<and> buf_len ctx = length fed mod bs
     \<and> (\<exists>whole. fed = whole @ take (buf_len ctx) (buf ctx) \<and> bs dvd length whole
          \<and> blocks_fn c k0 whole = (out, core ctx))"

lemma mask_mod: "ready ctx \<Longrightarrow> n AND block_mask ctx = n mod bs"
proof -
  assume r: "ready ctx"
  have "n AND 7 = n mod 8" "n AND 15 = n mod 16"
    using take_bit_eq_mask [of 3 n] take_bit_eq_mask [of 4 n]
    by (simp_all add: take_bit_eq_mod mask_eq_exp_minus_1)
  then show ?thesis using r size_8_16 by (auto simp: ready_def)
qed

lemma blocks_append:
  assumes "good k" "bs dvd length a" "bs dvd length b"
    "blocks_fn c k a = (x, k1)" "blocks_fn c k1 b = (y, k2)"
  shows "blocks_fn c k (a @ b) = (x @ y, k2)"
  using splits [OF assms(1-3)] assms(4,5) by simp

lemma update_rest:
  assumes "ready ctx" "good (core ctx)"
    and "blocks_fn c (core ctx) (take (length inp - length inp mod bs) inp) = (out, k')"
    and "n0 + int (length inp) \<le> INT_MAX"
  shows "evp_update_rest c ctx inp n0 done
    = Some (True, Some (n0 + int (length out)), done @ out,
        ctx\<lparr>core := k', buf := mem_write (buf ctx) 0 (drop (length inp - length inp mod bs) inp),
            buf_len := length inp mod bs\<rparr>)
    \<and> length out = length inp - length inp mod bs \<and> good k' \<and> encrypt k' = encrypt (core ctx)"
proof -
  let ?n = "length inp - length inp mod bs"
  have "length (take ?n inp) = ?n" by simp
  then have l: "length (take ?n inp) = ?n" and d: "bs dvd length (take ?n inp)"
    by (simp_all only: dvd_minus_mod)
  note r = run_fn [OF assms(2) d assms(3)] and e = evp_do_run [OF assms(2) d assms(3)]
  show ?thesis
  proof (cases "0 < ?n")
    case True
    moreover have "int ?n \<le> int (length inp)" by simp
    then have "n0 + int ?n \<le> INT_MAX" using assms(4) by linarith
    ultimately show ?thesis using r(2-4) [unfolded l] e
      by (simp add: evp_update_rest_def mask_mod [OF assms(1)] Let_def del: of_nat_diff)
  next
    case False
    then have "out = []" "k' = core ctx" using assms(3) empty [OF assms(2)] by auto
    then show ?thesis using False assms(2)
      by (simp add: evp_update_rest_def mask_mod [OF assms(1)] Let_def)
  qed
qed

lemma ready_upd [simp]:
  "ready (ctx\<lparr>core := k\<rparr>) = ready ctx" "ready (ctx\<lparr>buf_len := i\<rparr>) = ready ctx"
  "ready (ctx\<lparr>final_used := u\<rparr>) = ready ctx"
  "length b = 32 \<Longrightarrow> ready (ctx\<lparr>buf := b\<rparr>) = (ready (ctx\<lparr>buf := replicate 32 0\<rparr>))"
  "ready ctx \<Longrightarrow> ready (ctx\<lparr>buf := replicate 32 0\<rparr>)"
  by (auto simp: ready_def)

lemma mem_write_prefix: "i \<le> length b \<Longrightarrow> take (i + length x) (mem_write b i x) = take i b @ x"
  by (simp add: take_mem_write_upto)

lemma enc_state_lengths:
  assumes "enc_state k0 fed out ctx"
  shows "length out = length fed - length fed mod bs" "buf_len ctx < bs" "length (buf ctx) = 32"
proof -
  obtain whole where w: "fed = whole @ take (buf_len ctx) (buf ctx)" "bs dvd length whole"
    "blocks_fn c k0 whole = (out, core ctx)"
    using assms by (auto simp: enc_state_def)
  show l: "buf_len ctx < bs" "length (buf ctx) = 32" using assms by (auto simp: enc_state_def ready_def)
  have "length out = length whole" using run_fn(2) [OF _ w(2,3)] assms by (simp add: enc_state_def)
  moreover have "buf_len ctx = length fed mod bs" using assms by (simp add: enc_state_def)
  moreover have "buf_len ctx \<le> 32" using l(1) bs_pos(2) by linarith
  moreover from this have "length fed = length whole + buf_len ctx" using w(1) l by simp
  ultimately show "length out = length fed - length fed mod bs" by simp
qed

lemma enc_stateI:
  assumes "ready ctx" "good k0" "encrypt (core ctx) = encrypt k0" "buf_len ctx < bs"
    "fed = whole @ take (buf_len ctx) (buf ctx)" "bs dvd length whole"
    "blocks_fn c k0 whole = (out, core ctx)"
  shows "enc_state k0 fed out ctx"
proof -
  have "length (buf ctx) = 32" using assms(1) by (simp add: ready_def)
  moreover have "buf_len ctx \<le> 32" using assms(4) bs_pos(2) by linarith
  ultimately have "length fed = length whole + buf_len ctx" using assms(5) by simp
  moreover obtain q where "length whole = bs * q" using assms(6) by (auto elim: dvdE)
  ultimately have "length fed mod bs = buf_len ctx" using assms(4) by simp
  moreover have "good (core ctx)" using run_fn(3) [OF assms(2,6,7)] .
  ultimately show ?thesis using assms unfolding enc_state_def by auto
qed

lemma update_rest_state:
  assumes k0: "good k0" and rd: "ready ctx" and gd: "good (core ctx)"
    and dir: "encrypt (core ctx) = encrypt k0" and dv: "bs dvd length whole"
    and run: "blocks_fn c k0 whole = (out @ dn, core ctx)"
    and n0: "n0 = int (length dn)" "n0 + int (length y) \<le> INT_MAX"
  shows "\<exists>o2 ctx'. evp_update_rest c ctx y n0 dn = Some (True, Some (int (length (dn @ o2))), dn @ o2, ctx')
      \<and> enc_state k0 (whole @ y) (out @ dn @ o2) ctx' \<and> final ctx' = final ctx
      \<and> final_used ctx' = final_used ctx \<and> buf_len ctx' = length y mod bs
      \<and> length o2 = length y - length y mod bs"
proof -
  let ?m = "length y - length y mod bs"
  obtain o2 k2 where b: "blocks_fn c (core ctx) (take ?m y) = (o2, k2)" by fastforce
  let ?ctx = "ctx\<lparr>core := k2, buf := mem_write (buf ctx) 0 (drop ?m y), buf_len := length y mod bs\<rparr>"
  note u = update_rest [OF rd gd b n0(2), of dn]
  have "length (take ?m y) = ?m" by simp
  then have d: "bs dvd length (take ?m y)" by (simp only: dvd_minus_mod)
  have lb: "length (buf ctx) = 32" using rd by (simp add: ready_def)
  have ld: "length (drop ?m y) = length y mod bs" by simp
  have lt: "length y mod bs < bs" by simp
  have fits: "length (drop ?m y) \<le> length (buf ctx)" using lb ld lt bs_pos(2) by linarith
  have "enc_state k0 (whole @ y) (out @ dn @ o2) ?ctx"
  proof (rule enc_stateI [where whole = "whole @ take ?m y"])
    show "ready ?ctx" using rd fits by (simp add: ready_def)
    show "blocks_fn c k0 (whole @ take ?m y) = (out @ dn @ o2, core ?ctx)"
      using blocks_append [OF k0 dv d run b] by simp
    have "take (length y mod bs) (mem_write (buf ctx) 0 (drop ?m y)) = drop ?m y"
      using mem_write_prefix [of 0 "buf ctx" "drop ?m y"] ld by simp
    then show "whole @ y = (whole @ take ?m y) @ take (buf_len ?ctx) (buf ?ctx)" by simp
    show "bs dvd length (whole @ take ?m y)" using dv d by (simp only: length_append dvd_add)
  qed (use u k0 dir lt in simp_all)
  moreover have "n0 + int (length o2) = int (length (dn @ o2))" using n0(1) by simp
  ultimately show ?thesis using u
    by (intro exI [of _ o2] exI [of _ ?ctx]) (simp only: simp_thms, simp)
qed

lemma encrypt_update:
  assumes st: "enc_state k0 fed out ctx" and fits: "update_fits x"
  shows "\<exists>o' ctx'. EVP_EncryptUpdate ctx x (int (length x)) = Some (True, Some (int (length o')), o', ctx')
    \<and> enc_state k0 (fed @ x) (out @ o') ctx' \<and> final ctx' = final ctx \<and> final_used ctx' = final_used ctx
    \<and> (x \<noteq> [] \<longrightarrow> buf_len ctx' = 0 \<longrightarrow> bs \<le> length o')"
proof (cases "x = []")
  case True
  then show ?thesis using st not_custom by (auto simp: EVP_EncryptUpdate_def enc_state_def ready_def)
next
  case x: False
  obtain whole where w: "fed = whole @ take (buf_len ctx) (buf ctx)" "bs dvd length whole"
    "blocks_fn c k0 whole = (out, core ctx)"
    using st by (auto simp: enc_state_def)
  have r: "ready ctx" "cipher ctx = Some c" "good k0" "good (core ctx)" "encrypt (core ctx) = encrypt k0"
    using st by (auto simp: enc_state_def ready_def)
  note lens = enc_state_lengths [OF st]
  have i32: "buf_len ctx \<le> 32" using lens(2) bs_pos(2) by linarith
  let ?i = "buf_len ctx" and ?n = "length x"
  have top: "EVP_EncryptUpdate ctx x (int ?n) =
      (if ?i = 0 \<and> ?n mod bs = 0 then do {
         (r, out, ctx) \<leftarrow> evp_do c ctx (Some x);
         if r \<noteq> 0 then Some (True, Some (int ?n), out, ctx) else Some (False, Some 0, out, ctx)
       }
       else if ?i = 0 then evp_update_rest c ctx x 0 []
       else if ?i + ?n < bs then
         Some (True, Some 0, [], ctx\<lparr>buf := mem_write (buf ctx) ?i x, buf_len := ?i + ?n\<rparr>)
       else do {
         (r, out, ctx) \<leftarrow> evp_do c (ctx\<lparr>buf := mem_write (buf ctx) ?i (take (bs - ?i) x)\<rparr>)
              (Some (take bs (mem_write (buf ctx) ?i (take (bs - ?i) x))));
         if r = 0 then Some (False, None, out, ctx) else evp_update_rest c ctx (drop (bs - ?i) x) (int bs) out
       })"
    using x r(2) not_custom mask_mod [OF r(1)] bs_pos(2) fits [unfolded update_fits_def] i32
    by (simp add: EVP_EncryptUpdate_def Let_def not_less [symmetric])
  show ?thesis
  proof (cases "?i = 0")
    case i0: True
    then have fed: "fed = whole" using w(1) by simp
    show ?thesis
    proof (cases "?n mod bs = 0")
      case True
      then have d: "bs dvd length x" by auto
      obtain o2 k2 where b: "blocks_fn c (core ctx) x = (o2, k2)" by fastforce
      note f = run_fn [OF r(4) d b]
      have "enc_state k0 (fed @ x) (out @ o2) (ctx\<lparr>core := k2\<rparr>)"
        using r w fed i0 f d blocks_append [OF r(3) w(2) d w(3) b]
        by (intro enc_stateI [where whole = "whole @ x"]) auto
      moreover have "bs \<le> length x" using d x by (auto dest: dvd_imp_le)
      ultimately show ?thesis using i0 True top evp_do_run [OF r(4) d b] f
        by (intro exI [of _ o2] exI [of _ "ctx\<lparr>core := k2\<rparr>"]) simp
    next
      case False
      then show ?thesis using i0 top update_rest_state [of k0 ctx whole out "[]" 0 x] r w fed fits [unfolded update_fits_def] by auto
    qed
  next
    case i: False
    show ?thesis
    proof (cases "?i + ?n < bs")
      case True
      let ?ctx = "ctx\<lparr>buf := mem_write (buf ctx) ?i x, buf_len := ?i + ?n\<rparr>"
      have "take (?i + ?n) (mem_write (buf ctx) ?i x) = take ?i (buf ctx) @ x"
        using mem_write_prefix [of ?i "buf ctx" x] lens i32 by simp
      moreover have "?i + length x \<le> length (buf ctx)" using True lens(3) bs_pos(2) by linarith
      then have "ready ?ctx" using r(1) by (simp add: ready_def)
      ultimately have "enc_state k0 (fed @ x) (out @ []) ?ctx"
        using r(3,5) w True by (intro enc_stateI [where whole = whole]) simp_all
      then show ?thesis using True i top x by (intro exI [of _ "[]"] exI [of _ ?ctx]) simp
    next
      case False
      let ?j = "bs - ?i"
      let ?b = "mem_write (buf ctx) ?i (take ?j x)"
      let ?blk = "take ?i (buf ctx) @ take ?j x"
      have lj: "length (take ?j x) = ?j" using False by simp
      have tb: "take bs ?b = ?blk"
        using mem_write_prefix [of ?i "buf ctx" "take ?j x"] lens lj i32 by simp
      have lb: "length ?b = 32" using lens lj i32 by simp
      have d: "bs dvd length ?blk" using lj lens i32 by simp
      obtain o1 k1 where b: "blocks_fn c (core ctx) ?blk = (o1, k1)" by fastforce
      note f = run_fn [OF r(4) d b]
      let ?ctx = "ctx\<lparr>buf := ?b, core := k1\<rparr>"
      have rd: "ready ?ctx" using r(1) lb by (simp add: ready_def)
      have e: "evp_do c (ctx\<lparr>buf := ?b\<rparr>) (Some (take bs ?b)) = Some (1, o1, ?ctx)"
        using evp_do_run [of "ctx\<lparr>buf := ?b\<rparr>" ?blk o1 k1] r(4) d b tb by simp
      have w2: "blocks_fn c k0 (whole @ ?blk) = (out @ o1, core ?ctx)"
        using blocks_append [OF r(3) w(2) d w(3) b] by simp
      have d2: "bs dvd length (whole @ ?blk)" using w(2) d by simp
      have lo: "length o1 = bs" using f(2) lj lens i32 by simp
      have n1: "int bs = int (length o1)" by (simp only: lo)
      have n2: "int bs + int (length (drop ?j x)) \<le> INT_MAX" using fits [unfolded update_fits_def] bs_pos(2) by (simp only: length_drop)
      have gk: "good (core ?ctx)" and ek: "encrypt (core ?ctx) = encrypt k0" using f(3,4) r(5) by simp_all
      obtain o2 ctx' where u: "evp_update_rest c ?ctx (drop ?j x) (int bs) o1 = Some (True, Some (int (length (o1 @ o2))), o1 @ o2, ctx')"
        "enc_state k0 ((whole @ ?blk) @ drop ?j x) (out @ o1 @ o2) ctx'" "final ctx' = final ?ctx"
        "final_used ctx' = final_used ?ctx"
        using update_rest_state [OF r(3) rd gk ek d2 w2 n1 n2] by blast
      have "bs \<le> length o1" using lo by simp
      moreover have fx: "(whole @ ?blk) @ drop ?j x = fed @ x" using w(1) by simp
      ultimately show ?thesis using u(1,3,4) u(2) [unfolded fx] i False top e
        by (intro exI [of _ "o1 @ o2"] exI [of _ ctx']) simp
    qed
  qed
qed

lemma encrypt_updates:
  "enc_state k0 fed out ctx \<Longrightarrow> encrypt k0 \<Longrightarrow> list_all update_fits xs \<Longrightarrow>
     \<exists>o' ctx'. evp_updates EVP_CipherUpdate ctx xs = Some (o', ctx')
       \<and> enc_state k0 (fed @ concat xs) (out @ o') ctx'"
proof (induction xs arbitrary: fed out ctx)
  case (Cons x xs)
  obtain o1 c1 where 1: "EVP_EncryptUpdate ctx x (int (length x)) = Some (True, Some (int (length o1)), o1, c1)"
    "enc_state k0 (fed @ x) (out @ o1) c1" using encrypt_update [OF Cons.prems(1), of x] Cons.prems(3) by fastforce
  obtain o2 c2 where "evp_updates EVP_CipherUpdate c1 xs = Some (o2, c2)"
    "enc_state k0 ((fed @ x) @ concat xs) ((out @ o1) @ o2) c2"
    using Cons.IH [OF 1(2) Cons.prems(2)] Cons.prems(3) by auto
  moreover have "EVP_CipherUpdate ctx x n = EVP_EncryptUpdate ctx x n" for n
    using Cons.prems by (simp add: enc_state_def EVP_CipherUpdate_def)
  ultimately show ?case using 1 by auto
qed simp

lemma padding_dvd: "bs dvd length (data @ padding bs data)"
proof -
  have "length data mod bs + (bs - length data mod bs) = bs" by (simp add: less_imp_le)
  then have "length data + (bs - length data mod bs) = length data div bs * bs + bs"
    by (metis add.assoc div_mult_mod_eq)
  then show ?thesis by (simp add: padding_def Let_def)
qed

lemma encrypt_final:
  assumes st: "enc_state k0 fed out ctx"
  shows "\<exists>o' ctx'. EVP_EncryptFinal_ex ctx = Some (True, Some (int (length o')), o', ctx')
    \<and> length o' = bs \<and> blocks_fn c k0 (fed @ padding bs fed) = (out @ o', core ctx')"
proof -
  obtain whole where w: "fed = whole @ take (buf_len ctx) (buf ctx)" "bs dvd length whole"
    "blocks_fn c k0 whole = (out, core ctx)"
    using st by (auto simp: enc_state_def)
  have r: "ready ctx" "cipher ctx = Some c" "good k0" "good (core ctx)" "buf_len ctx = length fed mod bs"
    using st by (auto simp: enc_state_def ready_def)
  note lens = enc_state_lengths [OF st]
  let ?i = "buf_len ctx"
  let ?p = "replicate (bs - ?i) (word_of_nat (bs - ?i) :: u8)"
  have i32: "?i \<le> 32" using lens(2) bs_pos(2) by linarith
  have pad: "padding bs fed = ?p" using r(5) by (simp add: padding_def Let_def)
  have tb: "take bs (mem_write (buf ctx) ?i ?p) = take ?i (buf ctx) @ ?p"
    using mem_write_prefix [of ?i "buf ctx" ?p] lens i32 by simp
  have d: "bs dvd length (take ?i (buf ctx) @ ?p)" using lens i32 by simp
  obtain o' k' where b: "blocks_fn c (core ctx) (take ?i (buf ctx) @ ?p) = (o', k')" by fastforce
  note f = run_fn [OF r(4) d b]
  let ?ctx = "ctx\<lparr>buf := mem_write (buf ctx) ?i ?p\<rparr>"
  have "evp_do c ?ctx (Some (take bs (buf ?ctx))) = Some (1, o', ?ctx\<lparr>core := k'\<rparr>)"
    using evp_do_run [of ?ctx "take ?i (buf ctx) @ ?p" o' k'] r(4) d b tb by simp
  moreover have "length o' = bs" using f(2) lens i32 by simp
  moreover have "blocks_fn c k0 (fed @ padding bs fed) = (out @ o', k')"
    using blocks_append [OF r(3) w(2) d w(3) b] w(1) pad by simp
  moreover have "bs \<noteq> Suc 0" using bs_pos(4) by linarith
  ultimately show ?thesis using r(1,2) not_custom bs_pos(2)
    by (intro exI [of _ o'] exI [of _ "?ctx\<lparr>core := k'\<rparr>"])
       (simp add: EVP_EncryptFinal_ex_def Let_def ready_def not_less [symmetric])
qed


text \<open>
  Decryption: of what the buffered cipher put out, all but the last block is released while the
  input so far is whole blocks; the last block waits in \<open>final\<close>.
\<close>

definition dec_state :: "'d cipher_core \<Rightarrow> bytes \<Rightarrow> bytes \<Rightarrow> 'd EVP_CIPHER_CTX \<Rightarrow> bool" where
  "dec_state k0 fed released ctx \<longleftrightarrow>
     (\<exists>out. enc_state k0 fed out ctx
        \<and> (final_used ctx \<longleftrightarrow> fed \<noteq> [] \<and> buf_len ctx = 0)
        \<and> out = released @ (if final_used ctx then take bs (final ctx) else []))"

lemma enc_state_upd [simp]:
  "enc_state k0 fed out (ctx\<lparr>final_used := u\<rparr>) = enc_state k0 fed out ctx"
  "length f = 32 \<Longrightarrow> enc_state k0 fed out (ctx\<lparr>final_used := u, final := f\<rparr>) = enc_state k0 fed out (ctx\<lparr>final := f\<rparr>)"
  by (simp_all add: enc_state_def ready_def)

lemma enc_state_final:
  "enc_state k0 fed out ctx \<Longrightarrow> length f = 32 \<Longrightarrow> enc_state k0 fed out (ctx\<lparr>final := f\<rparr>)"
  unfolding enc_state_def ready_def by auto

lemma decrypt_update:
  assumes st: "dec_state k0 fed rel ctx" and fits: "update_fits x"
  shows "\<exists>n o' ctx'. EVP_DecryptUpdate ctx x (int (length x)) = Some (True, Some n, o', ctx')
    \<and> 0 \<le> n \<and> nat n \<le> length o' \<and> dec_state k0 (fed @ x) (rel @ take (nat n) o') ctx'"
proof -
  obtain out where o: "enc_state k0 fed out ctx" "final_used ctx \<longleftrightarrow> fed \<noteq> [] \<and> buf_len ctx = 0"
    "out = rel @ (if final_used ctx then take bs (final ctx) else [])"
    using st unfolding dec_state_def by blast
  have r: "ready ctx" "cipher ctx = Some c" "ctx_flags ctx AND EVP_CIPH_NO_PADDING = 0" "length (final ctx) = 32"
    using o(1) by (auto simp: enc_state_def ready_def)
  show ?thesis
  proof (cases "x = []")
    case True
    then show ?thesis using st r not_custom
      by (intro exI [of _ 0] exI [of _ "[]"] exI [of _ ctx]) (simp add: EVP_DecryptUpdate_def)
  next
    case x: False
    let ?held = "if final_used ctx then take bs (final ctx) else []"
    have lh: "length ?held = (if final_used ctx then bs else 0)" using r(4) bs_pos(2) by simp
    obtain o1 c1 where u: "EVP_EncryptUpdate ctx x (int (length x)) = Some (True, Some (int (length o1)), o1, c1)"
      "enc_state k0 (fed @ x) (out @ o1) c1" "final c1 = final ctx" "buf_len c1 = 0 \<longrightarrow> bs \<le> length o1"
      using encrypt_update [OF o(1) fits] x by auto
    have "length (out @ o1) \<le> length (fed @ x)" using enc_state_lengths(1) [OF u(2)] by simp
    moreover have "length fed \<le> length out + bs"
      using enc_state_lengths(1) [OF o(1)] mod_less_divisor [OF bs_pos(1), of "length fed"] by linarith
    ultimately have "length o1 \<le> length x + bs" by simp
    moreover have fin0: "bs \<le> 16" using size_8_16 by auto
    ultimately have small: "int (length o1) \<le> int (length x) + 16" "int (length ?held) \<le> 16" using lh by auto
    have w: "int_of_long i = i" if "- 16 \<le> i" "i \<le> int (length o1) + int bs" for i
      using small fits [unfolded update_fits_def] fin0 that by (intro int_of_long_small) linarith+
    have ws: "int_of_long (int (length o1) - int bs) = int (length o1) - int bs"
      "int_of_long (int (length o1)) = int (length o1)" "int_of_long (int (length o1) + int bs) = int (length o1) + int bs"
      using fin0 by (intro w; linarith)+
    have top: "EVP_DecryptUpdate ctx x (int (length x)) =
      (if buf_len c1 = 0 then
         Some (True, Some (int (length o1) - int bs + int (length ?held)), ?held @ o1,
           c1\<lparr>final_used := True,
              final := mem_write (final c1) 0 (mem_read o1 (nat (int (length o1) - int bs)) bs)\<rparr>)
       else Some (True, Some (int (length o1) + int (length ?held)), ?held @ o1, c1\<lparr>final_used := False\<rparr>))"
      using x r not_custom bs_pos u(1) lh ws by (simp add: EVP_DecryptUpdate_def Let_def not_less [symmetric])
    show ?thesis
    proof (cases "buf_len c1 = 0")
      case False
      have "dec_state k0 (fed @ x) (rel @ ?held @ o1) (c1\<lparr>final_used := False\<rparr>)"
        unfolding dec_state_def using u(2) o(3) False by (intro exI [of _ "out @ o1"]) simp
      then show ?thesis using top False
        by (intro exI [of _ "int (length o1) + int (length ?held)"] exI [of _ "?held @ o1"]
            exI [of _ "c1\<lparr>final_used := False\<rparr>"]) (simp add: nat_add_distrib del: if_split)
    next
      case True
      let ?m = "length o1 - bs"
      have m: "bs \<le> length o1" "nat (int (length o1) - int bs) = ?m" using u(4) True by auto
      let ?f = "mem_write (final c1) 0 (drop ?m o1)"
      have rd: "mem_read o1 ?m bs = drop ?m o1" using m(1) by (simp add: mem_read_def)
      have lf: "length (final c1) = 32" using u(2) by (simp add: enc_state_def ready_def)
      have ld: "length (drop ?m o1) = bs" using m(1) by simp
      have f: "length ?f = 32" "take bs ?f = drop ?m o1"
        using lf ld bs_pos(2) mem_write_prefix [of 0 "final c1" "drop ?m o1"] by simp_all
      have "enc_state k0 (fed @ x) (out @ o1) (c1\<lparr>final := ?f\<rparr>)"
        using enc_state_final [OF u(2) f(1)] .
      then have "dec_state k0 (fed @ x) (rel @ ?held @ take ?m o1) (c1\<lparr>final_used := True, final := ?f\<rparr>)"
        unfolding dec_state_def using o(3) True x f by (intro exI [of _ "out @ o1"]) simp
      moreover have "nat (int (length o1) - int bs + int (length ?held)) = ?m + length ?held"
        using m(1) by linarith
      ultimately show ?thesis using top True m rd
        by (intro exI [of _ "int (length o1) - int bs + int (length ?held)"] exI [of _ "?held @ o1"]
            exI [of _ "c1\<lparr>final_used := True, final := ?f\<rparr>"]) (simp del: if_split)
    qed
  qed
qed

lemma decrypt_updates:
  "dec_state k0 fed rel ctx \<Longrightarrow> \<not> encrypt k0 \<Longrightarrow> list_all update_fits xs \<Longrightarrow>
     \<exists>o' ctx'. evp_updates EVP_CipherUpdate ctx xs = Some (o', ctx') \<and> dec_state k0 (fed @ concat xs) (rel @ o') ctx'"
proof (induction xs arbitrary: fed rel ctx)
  case (Cons x xs)
  obtain n o1 c1 where 1: "EVP_DecryptUpdate ctx x (int (length x)) = Some (True, Some n, o1, c1)"
    "dec_state k0 (fed @ x) (rel @ take (nat n) o1) c1" using decrypt_update [OF Cons.prems(1), of x] Cons.prems(3) by fastforce
  obtain o2 c2 where "evp_updates EVP_CipherUpdate c1 xs = Some (o2, c2)"
    "dec_state k0 ((fed @ x) @ concat xs) ((rel @ take (nat n) o1) @ o2) c2"
    using Cons.IH [OF 1(2) Cons.prems(2)] Cons.prems(3) by auto
  moreover have "EVP_CipherUpdate ctx x n = EVP_DecryptUpdate ctx x n" for n
    using Cons.prems by (auto simp: dec_state_def enc_state_def EVP_CipherUpdate_def)
  ultimately show ?case using 1 by auto
qed simp

text \<open>
  The last call: if what the cipher put out ends in padding, the data before it; otherwise an error.
\<close>

lemma decrypt_final:
  assumes st: "dec_state k0 fed rel ctx" and out: "blocks_fn c k0 fed = (data @ padding bs data, k')"
    and whole: "bs dvd length fed"
  shows "\<exists>o'. EVP_DecryptFinal_ex ctx = Some (True, Some (int (length o')), o', ctx) \<and> rel @ o' = data"
proof -
  obtain out where o: "enc_state k0 fed out ctx" "final_used ctx \<longleftrightarrow> fed \<noteq> [] \<and> buf_len ctx = 0"
    "out = rel @ (if final_used ctx then take bs (final ctx) else [])"
    using st unfolding dec_state_def by blast
  have r: "cipher ctx = Some c" "ctx_flags ctx AND EVP_CIPH_NO_PADDING = 0" "length (final ctx) = 32" "good k0"
    "buf_len ctx = 0"
    using o(1) whole by (auto simp: enc_state_def ready_def)
  obtain w where "fed = w @ take (buf_len ctx) (buf ctx)" "blocks_fn c k0 w = (out, core ctx)"
    using o(1) by (auto simp: enc_state_def)
  then have dp: "out = data @ padding bs data" using out r(5) by simp
  let ?n = "bs - length data mod bs"
  have n: "0 < ?n" "?n \<le> bs" "unat (word_of_nat ?n :: u8) = ?n"
    using bs_pos(2) by (simp, simp, subst unat_word_of_nat_u8, intro mod_less, linarith)
  have pad: "padding bs data = replicate ?n (word_of_nat ?n)" by (simp add: padding_def Let_def)
  have "length fed = length data + ?n" using run_fn(2) [OF r(4) whole out] by (simp add: pad)
  then have "fed \<noteq> []" using n(1) by (intro notI) simp
  then have fu: "final_used ctx" using o(2) r(5) by simp
  let ?f = "take bs (final ctx)"
  have lf: "length ?f = bs" using r(3) bs_pos(2) by simp
  have e: "rel @ ?f = data @ padding bs data" using o(3) fu dp by simp
  have lr: "length rel + bs = length data + ?n" using arg_cong [OF e, of length] lf pad by simp
  have fs: "?f = take (bs - ?n) ?f @ replicate ?n (word_of_nat ?n)"
  proof -
    have "drop (bs - ?n) ?f = drop (length rel + (bs - ?n)) (rel @ ?f)" by simp
    also have "length rel + (bs - ?n) = length data" using lr n(2) by linarith
    also have "drop (length data) (rel @ ?f) = drop (length data) (data @ padding bs data)" by (simp only: e)
    finally show ?thesis using pad append_take_drop_id [of "bs - ?n" ?f] by simp
  qed
  have nth: "final ctx ! i = word_of_nat ?n" if "bs - ?n \<le> i" "i < bs" for i
  proof -
    have "final ctx ! i = ?f ! i" using that by simp
    also have "\<dots> = word_of_nat ?n" using that lf n(2) by (subst fs) (simp add: nth_append)
    finally show ?thesis .
  qed
  have pl: "padding_loop (final ctx) ?n bs ?n"
    using n nth r(3) bs_pos(2) by (subst padding_loop_replicate) auto
  have ld: "length data = length rel + (bs - ?n)" using lr n(2) by linarith
  have "take (length rel + (bs - ?n)) (rel @ ?f) = rel @ take (bs - ?n) ?f" by (simp only: take_append) simp
  then have "rel @ take (bs - ?n) ?f = take (length data) (rel @ ?f)" by (simp only: ld [symmetric])
  then have d: "rel @ take (bs - ?n) (final ctx) = data" using e by simp
  have l1: "unat (final ctx ! (bs - 1)) = ?n"
  proof -
    have "bs - ?n \<le> bs - 1" "bs - 1 < bs" using n(1) bs_pos(1) by linarith+
    then show ?thesis using n(3) nth by metis
  qed
  have "EVP_DecryptFinal_ex ctx
      = Some (True, Some (int (bs - ?n)), take (bs - ?n) (final ctx), ctx)"
    using r(1,2,5) not_custom fu l1 n pl bs_pos(2)
    by (simp add: EVP_DecryptFinal_ex_def Let_def not_less [symmetric])
  moreover have "length (take (bs - ?n) (final ctx)) = bs - ?n"
    using r(3) bs_pos(2) by (subst length_take, intro min_absorb2) linarith
  ultimately show ?thesis using d by (intro exI [of _ "take (bs - ?n) (final ctx)"]) simp
qed


text \<open>The contexts that EVP_CipherInit_ex leaves ready.\<close>

lemma enc_state_start:
  assumes "ready ctx" "good (core ctx)" "buf_len ctx = 0"
  shows "enc_state (core ctx) [] [] ctx"
  using assms by (intro enc_stateI [where whole = "[]"]) (auto simp: empty)

lemma dec_state_start:
  assumes "ready ctx" "good (core ctx)" "buf_len ctx = 0" "\<not> final_used ctx"
  shows "dec_state (core ctx) [] [] ctx"
  unfolding dec_state_def using enc_state_start [OF assms(1-3)] assms(4)
  by (intro exI [of _ "[]"]) simp

lemma stream_roundtrip:
  assumes enc: "ready ectx" "good (core ectx)" "buf_len ectx = 0" "encrypt (core ectx)"
    and dec: "ready dctx" "core dctx = set_dir False (core ectx)" "buf_len dctx = 0" "\<not> final_used dctx"
    and fits: "list_all update_fits xs"
  shows "\<exists>o1 c1 o2 c2. evp_updates EVP_CipherUpdate ectx xs = Some (o1, c1)
      \<and> o1 @ o2 = fst (blocks_fn c (core ectx) (concat xs @ padding bs (concat xs)))
      \<and> EVP_CipherFinal_ex c1 = Some (True, Some (int (length o2)), o2, c2)
      \<and> length (o1 @ o2) = bs * (length (concat xs) div bs + 1)
      \<and> (\<forall>ys. concat ys = o1 @ o2 \<longrightarrow> list_all update_fits ys \<longrightarrow>
          (\<exists>p1 d1 p2. evp_updates EVP_CipherUpdate dctx ys = Some (p1, d1)
            \<and> EVP_CipherFinal_ex d1 = Some (True, Some (int (length p2)), p2, d1)
            \<and> p1 @ p2 = concat xs))"
proof -
  let ?data = "concat xs"
  obtain o1 c1 where u: "evp_updates EVP_CipherUpdate ectx xs = Some (o1, c1)"
    "enc_state (core ectx) ?data o1 c1"
    using encrypt_updates [OF enc_state_start [OF enc(1-3)] enc(4) fits] by auto
  have ec: "encrypt (core c1)" using u(2) enc(4) by (simp add: enc_state_def)
  obtain o2 c2 where f: "EVP_EncryptFinal_ex c1 = Some (True, Some (int (length o2)), o2, c2)"
    "blocks_fn c (core ectx) (?data @ padding bs ?data) = (o1 @ o2, core c2)"
    using encrypt_final [OF u(2)] by auto
  note pd = padding_dvd [of ?data]
  note rf = run_fn [OF enc(2) pd f(2)]
  have undo: "blocks_fn c (core dctx) (o1 @ o2) = (?data @ padding bs ?data, set_dir False (core c2))"
    using undoes [OF enc(2,4) pd f(2)] dec(2) by simp
  have dv: "bs dvd length (o1 @ o2)" using rf(2) pd by simp
  have "bs - length ?data mod bs + length ?data = bs * (length ?data div bs + 1)"
    using mult_div_mod_eq [of bs "length ?data"] mod_less_divisor [OF bs_pos(1), of "length ?data"]
    unfolding distrib_left by linarith
  then have len: "length (o1 @ o2) = bs * (length ?data div bs + 1)"
    using rf(2) by (simp add: padding_def Let_def add.commute)
  have "\<exists>p1 d1 p2. evp_updates EVP_CipherUpdate dctx ys = Some (p1, d1)
      \<and> EVP_CipherFinal_ex d1 = Some (True, Some (int (length p2)), p2, d1) \<and> p1 @ p2 = ?data"
    if cy: "concat ys = o1 @ o2" and fy: "list_all update_fits ys" for ys
  proof -
    have gd: "good (core dctx)" using good_dir [OF enc(2)] dec(2) by simp
    obtain p1 d1 where p: "evp_updates EVP_CipherUpdate dctx ys = Some (p1, d1)"
      and st: "dec_state (core dctx) (concat ys) p1 d1"
      using decrypt_updates [OF dec_state_start [OF dec(1) gd dec(3,4)], of ys] dec(2) fy by (auto simp: set_dir_def)
    have nd: "\<not> encrypt (core d1)" using st dec(2) by (auto simp: dec_state_def enc_state_def set_dir_def)
    obtain p2 where q: "EVP_DecryptFinal_ex d1 = Some (True, Some (int (length p2)), p2, d1)" "p1 @ p2 = ?data"
      using decrypt_final [OF st [unfolded cy] undo dv] by blast
    show ?thesis using p q nd
      by (intro exI [of _ p1] exI [of _ d1] exI [of _ p2]) (simp add: EVP_CipherFinal_ex_def)
  qed
  then show ?thesis using u(1) f len ec
    by (intro exI [of _ o1] exI [of _ c1] exI [of _ o2] exI [of _ c2]) (simp add: EVP_CipherFinal_ex_def)
qed

end

section \<open>The DES ciphers\<close>

abbreviation EVP_MAXCHUNK :: nat where "EVP_MAXCHUNK \<equiv> 2 ^ 30"

text \<open>
  A CBC entry point called on chunks of at most a gigabyte, the first eight bytes of the sixteen
  of \<^verbatim>\<open>ctx->iv\<close> carried from call to call.
\<close>

fun des_chunks ::
  "(bytes \<Rightarrow> nat \<Rightarrow> bytes \<Rightarrow> (bytes \<times> bytes) option) \<Rightarrow> bytes \<Rightarrow> bytes \<Rightarrow> (bytes \<times> bytes) option" where
  "des_chunks cbc inp ivec =
     (if EVP_MAXCHUNK \<le> length inp then do {
        (o1, v1) \<leftarrow> cbc (take EVP_MAXCHUNK inp) EVP_MAXCHUNK ivec;
        (o2, v2) \<leftarrow> des_chunks cbc (drop EVP_MAXCHUNK inp) v1;
        Some (o1 @ o2, v2)
      }
      else if inp \<noteq> [] then cbc inp (length inp) ivec
      else Some ([], ivec))"

declare des_chunks.simps [simp del]

(* src: crypto/cipher/e_des.c des_init_key *)
definition des_init_key ::
  "DES_key_schedule cipher_core \<Rightarrow> bytes option \<Rightarrow> bytes option \<Rightarrow> bool \<Rightarrow>
     (bool \<times> DES_key_schedule cipher_core) option" where
  "des_init_key k key ivp enc =
     (case key of None \<Rightarrow> None | Some key \<Rightarrow> Some (True, k\<lparr>cipher_data := Some (DES_set_key key)\<rparr>))"

(* src: crypto/cipher/e_des.c des_cbc_cipher *)
definition des_cbc_cipher ::
  "DES_key_schedule cipher_core \<Rightarrow> bytes option \<Rightarrow> (int \<times> bytes \<times> DES_key_schedule cipher_core) option" where
  "des_cbc_cipher k inp = do {
     ks \<leftarrow> cipher_data k;
     inp \<leftarrow> inp;
     (out, v) \<leftarrow> des_chunks (\<lambda>i n v. DES_ncbc_encrypt ks (encrypt k) i n v) inp (take 8 (iv k));
     Some (1, out, k\<lparr>iv := mem_write (iv k) 0 v\<rparr>)
   }"

(* src: crypto/cipher/e_des.c@103-107 des_cbc *)
definition EVP_des_cbc :: "DES_key_schedule EVP_CIPHER" where
  "EVP_des_cbc =
     \<lparr>nid = 31, block_size = 8, key_size = 8, iv_len = 8, has_data = True, cipher_flags = 2,
      init_fn = des_init_key, cipher_fn = des_cbc_cipher, ctrl_init = None\<rparr>"

type_synonym DES_EDE_KEY = "DES_key_schedule \<times> DES_key_schedule \<times> DES_key_schedule"

(* src: crypto/cipher/e_des.c des_ede3_init_key *)
definition des_ede3_init_key ::
  "DES_EDE_KEY cipher_core \<Rightarrow> bytes option \<Rightarrow> bytes option \<Rightarrow> bool \<Rightarrow> (bool \<times> DES_EDE_KEY cipher_core) option" where
  "des_ede3_init_key k key ivp enc =
     (case key of None \<Rightarrow> None
      | Some key \<Rightarrow> Some (True, k\<lparr>cipher_data :=
          Some (DES_set_key key, DES_set_key (drop 8 key), DES_set_key (drop 16 key))\<rparr>))"

(* src: crypto/cipher/e_des.c des_ede3_cbc_cipher *)
definition des_ede3_cbc_cipher ::
  "DES_EDE_KEY cipher_core \<Rightarrow> bytes option \<Rightarrow> (int \<times> bytes \<times> DES_EDE_KEY cipher_core) option" where
  "des_ede3_cbc_cipher k inp = do {
     (ks1, ks2, ks3) \<leftarrow> cipher_data k;
     inp \<leftarrow> inp;
     (out, v) \<leftarrow> des_chunks (\<lambda>i n v. DES_ede3_cbc_encrypt ks1 ks2 ks3 (encrypt k) i n v) inp (take 8 (iv k));
     Some (1, out, k\<lparr>iv := mem_write (iv k) 0 v\<rparr>)
   }"

text \<open>The nid of triple DES is the one the source gives it, that of single DES.\<close>

(* src: crypto/cipher/e_des.c@151-155 des3_cbc *)
definition EVP_des_ede3_cbc :: "DES_EDE_KEY EVP_CIPHER" where
  "EVP_des_ede3_cbc =
     \<lparr>nid = 31, block_size = 8, key_size = 24, iv_len = 8, has_data = True, cipher_flags = 2,
      init_fn = des_ede3_init_key, cipher_fn = des_ede3_cbc_cipher, ctrl_init = None\<rparr>"


context block_cipher_total
begin

lemma chunks_whole:
  assumes f: "\<And>inp v. bsize dvd length inp \<Longrightarrow> length v = bsize \<Longrightarrow>
      f inp (length inp) v = Some (cbc_bytes enc v inp)"
    and d: "bsize dvd EVP_MAXCHUNK"
  shows "bsize dvd length inp \<Longrightarrow> length v = bsize \<Longrightarrow> des_chunks f inp v = Some (cbc_bytes enc v inp)"
proof (induction "length inp" arbitrary: inp v rule: less_induct)
  case less
  show ?case
  proof (cases "EVP_MAXCHUNK \<le> length inp")
    case False
    then show ?thesis using f less.prems by (subst des_chunks.simps) simp
  next
    case True
    let ?a = "take EVP_MAXCHUNK inp" and ?b = "drop EVP_MAXCHUNK inp"
    have la: "length ?a = EVP_MAXCHUNK" using True by simp
    obtain o1 v1 where 1: "cbc_bytes enc v ?a = (o1, v1)" by fastforce
    have l1: "length v1 = bsize" using length_cbc_bytes [OF less.prems(2) _ 1] d la by simp
    have "length ?b < length inp" using True by simp
    moreover have "bsize dvd length ?b" using less.prems(1) d by simp
    ultimately have "des_chunks f ?b v1 = Some (cbc_bytes enc v1 ?b)" using less.hyps l1 by blast
    moreover have "f ?a EVP_MAXCHUNK v = Some (o1, v1)" using f [of ?a v] d la less.prems 1 by simp
    moreover have "cbc_bytes enc v inp
        = (let (us, v1) = cbc_bytes enc v ?a; (vs, v2) = cbc_bytes enc v1 ?b in (us @ vs, v2))"
      using cbc_bytes_append [OF less.prems(2), of ?a enc ?b] d la by simp
    ultimately show ?thesis using True 1 by (subst des_chunks.simps) (simp split: prod.splits)
  qed
qed

end

text \<open>What both ciphers share: a CBC function on the first half of the IV field.\<close>

definition des_good :: "'d cipher_core \<Rightarrow> bool" where
  "des_good k \<longleftrightarrow> length (iv k) = 16 \<and> cipher_data k \<noteq> None"

context block_cipher_total
begin

definition cbc_core :: "'d cipher_core \<Rightarrow> bytes \<Rightarrow> bytes \<times> 'd cipher_core" where
  "cbc_core k a = (let (out, v) = cbc_bytes (encrypt k) (take 8 (iv k)) a in (out, k\<lparr>iv := mem_write (iv k) 0 v\<rparr>))"

lemma cbc_core_step:
  assumes "bsize = 8" "des_good k" "8 dvd length a" "cbc_core k a = (x, k')"
  shows "length x = length a" "des_good k'" "encrypt k' = encrypt k" "cipher_data k' = cipher_data k"
    and "\<exists>v'. cbc_bytes (encrypt k) (take 8 (iv k)) a = (x, v') \<and> length v' = 8
      \<and> k' = k\<lparr>iv := mem_write (iv k) 0 v'\<rparr> \<and> take 8 (iv k') = v'"
proof -
  let ?v = "take 8 (iv k)"
  have lv: "length ?v = bsize" using assms(1,2) by (simp add: des_good_def)
  obtain v' where c: "cbc_bytes (encrypt k) ?v a = (x, v')" "k' = k\<lparr>iv := mem_write (iv k) 0 v'\<rparr>"
    using assms(4) by (auto simp: cbc_core_def split: prod.splits)
  have l: "length x = length a" "length v' = 8"
    using length_cbc_bytes [OF lv _ c(1)] assms(1,3) by auto
  show "length x = length a" by (rule l(1))
  show "des_good k'" using c(2) l(2) assms(2) by (simp add: des_good_def)
  show "encrypt k' = encrypt k" "cipher_data k' = cipher_data k" using c(2) by simp_all
  show "\<exists>v'. cbc_bytes (encrypt k) (take 8 (iv k)) a = (x, v') \<and> length v' = 8
      \<and> k' = k\<lparr>iv := mem_write (iv k) 0 v'\<rparr> \<and> take 8 (iv k') = v'"
    using c l(2) by (simp add: mem_write_def)
qed

lemma cbc_core_append:
  assumes "bsize = 8" "des_good k" "8 dvd length a" "8 dvd length b"
  shows "cbc_core k (a @ b) = (let (x, k1) = cbc_core k a; (y, k2) = cbc_core k1 b in (x @ y, k2))"
proof -
  obtain x k1 y k2 where ab: "cbc_core k a = (x, k1)" "cbc_core k1 b = (y, k2)" by fastforce
  note 1 = cbc_core_step [OF assms(1-3) ab(1)]
  note 2 = cbc_core_step [OF assms(1) 1(2) assms(4) ab(2)]
  have lv: "length (take 8 (iv k)) = bsize" using assms(1,2) by (simp add: des_good_def)
  obtain v1 where v1: "cbc_bytes (encrypt k) (take 8 (iv k)) a = (x, v1)" "length v1 = 8"
    "k1 = k\<lparr>iv := mem_write (iv k) 0 v1\<rparr>" "take 8 (iv k1) = v1"
    using 1(5) by blast
  obtain v2 where v2: "cbc_bytes (encrypt k1) (take 8 (iv k1)) b = (y, v2)" "length v2 = 8"
    "k2 = k1\<lparr>iv := mem_write (iv k1) 0 v2\<rparr>"
    using 2(5) by blast
  have b2: "cbc_bytes (encrypt k) v1 b = (y, v2)" using v2(1) unfolding v1(4) 1(3) .
  have "cbc_bytes (encrypt k) (take 8 (iv k)) (a @ b) = (x @ y, v2)"
    using cbc_bytes_append [OF lv, of a "encrypt k" b] assms(3) v1(1) b2
    by (simp add: assms(1) [symmetric])
  moreover have "k\<lparr>iv := mem_write (iv k) 0 v2\<rparr> = k2"
    using v1(2,3) v2(2,3) assms(2) by (simp add: mem_write_def des_good_def)
  ultimately show ?thesis using ab by (simp add: cbc_core_def)
qed

lemma cbc_core_undo:
  assumes "bsize = 8" "des_good k" "8 dvd length a" "cbc_core k a = (x, k')" "encrypt k"
  shows "cbc_core (set_dir False k) x = (a, set_dir False k')"
proof -
  have lv: "length (take 8 (iv k)) = bsize" using assms(1,2) by (simp add: des_good_def)
  obtain v' where v: "cbc_bytes True (take 8 (iv k)) a = (x, v')" "k' = k\<lparr>iv := mem_write (iv k) 0 v'\<rparr>"
    using cbc_core_step(5) [OF assms(1-4)] assms(5) by (elim exE conjE) (simp only: simp_thms)
  have "cbc_bytes False (take 8 (iv k)) x = (a, v')"
    using cbc_bytes_undo [OF lv _ v(1)] assms(3) by (simp add: assms(1) [symmetric])
  then show ?thesis using v(2) by (simp add: cbc_core_def set_dir_def)
qed

lemma cbc_core_Nil: "des_good k \<Longrightarrow> cbc_core k [] = ([], k)"
  by (simp add: cbc_core_def mem_write_def des_good_def)

end

lemma des_cbc_cipher_core:
  assumes "8 dvd length a" "length (iv k) = 16" "cipher_data k = Some ks"
  shows "des_cbc_cipher k (Some a) = (let (x, k') = des.cbc_core ks k a in Some (1, x, k'))"
proof -
  have "DES_ncbc_encrypt ks (encrypt k) inp (length inp) v = Some (des.cbc_bytes ks (encrypt k) v inp)"
    if "8 dvd length inp" "length v = 8" for inp v
    using des_cbc_whole [OF that des.block_cipher_total_axioms] by (simp add: DES_ncbc_encrypt_def)
  then show ?thesis using assms des.chunks_whole [where f = "\<lambda>i n v. DES_ncbc_encrypt ks (encrypt k) i n v"]
    by (simp add: des_cbc_cipher_def des.cbc_core_def split: prod.splits)
qed

lemma des_ede3_cbc_cipher_core:
  assumes "8 dvd length a" "length (iv k) = 16" "cipher_data k = Some (ks1, ks2, ks3)"
  shows "des_ede3_cbc_cipher k (Some a) = (let (x, k') = des3.cbc_core ks1 ks2 ks3 k a in Some (1, x, k'))"
proof -
  have "DES_ede3_cbc_encrypt ks1 ks2 ks3 (encrypt k) inp (length inp) v
      = Some (des3.cbc_bytes ks1 ks2 ks3 (encrypt k) v inp)"
    if "8 dvd length inp" "length v = 8" for inp v
    using des_cbc_whole [OF that des3.block_cipher_total_axioms] by (simp add: DES_ede3_cbc_encrypt_def)
  then show ?thesis
    using assms des3.chunks_whole [where f = "\<lambda>i n v. DES_ede3_cbc_encrypt ks1 ks2 ks3 (encrypt k) i n v"]
    by (simp add: des_ede3_cbc_cipher_def des3.cbc_core_def split: prod.splits)
qed


lemma EVP_des_cbc_fields [simp]:
  "block_size EVP_des_cbc = 8" "key_size EVP_des_cbc = 8" "iv_len EVP_des_cbc = 8" "has_data EVP_des_cbc" "cipher_flags EVP_des_cbc = 2"
  "init_fn EVP_des_cbc = des_init_key" "cipher_fn EVP_des_cbc = des_cbc_cipher"
  by (simp_all add: EVP_des_cbc_def)

interpretation des_cbc: padded_cipher EVP_des_cbc des_good
proof unfold_locales
  fix k :: "DES_key_schedule cipher_core" and a b x :: bytes and k'
  note fn = EVP_des_cbc_fields
  show "cipher_flags EVP_des_cbc AND EVP_CIPH_FLAG_CUSTOM_CIPHER = 0"
    "block_size EVP_des_cbc = 8 \<or> block_size EVP_des_cbc = 16"
    by simp_all
  assume good: "des_good k"
  then obtain ks where ks: "cipher_data k = Some ks" "length (iv k) = 16" by (auto simp: des_good_def)
  have run: "blocks_fn EVP_des_cbc j y = des.cbc_core ks j y"
    if "8 dvd length y" "length (iv j) = 16" "cipher_data j = Some ks" for j y
    using des_cbc_cipher_core [OF that] by (simp add: blocks_fn_def fn split: prod.splits)
  show "des_good (set_dir e k)" for e using good by (simp add: des_good_def set_dir_def)
  show "blocks_fn EVP_des_cbc k [] = ([], k)" using run ks des.cbc_core_Nil [OF good] by simp
  assume a: "block_size EVP_des_cbc dvd length a"
  obtain u k1 where u: "des.cbc_core ks k a = (u, k1)" by fastforce
  note st = des.cbc_core_step [OF refl good a [unfolded fn] u]
  show "\<exists>out k'. cipher_fn EVP_des_cbc k (Some a) = Some (1, out, k') \<and> length out = length a
      \<and> des_good k' \<and> encrypt k' = encrypt k"
    using des_cbc_cipher_core [of a k ks] ks a u st by (simp add: fn)
  show "blocks_fn EVP_des_cbc k (a @ b)
      = (let (x, k1) = blocks_fn EVP_des_cbc k a; (y, k2) = blocks_fn EVP_des_cbc k1 b in (x @ y, k2))"
    if b: "block_size EVP_des_cbc dvd length b"
    using des.cbc_core_append [OF refl good a [unfolded fn] b [unfolded fn], of ks] a b ks u st
    by (simp add: run fn des_good_def)
  show "blocks_fn EVP_des_cbc (set_dir False k) x = (a, set_dir False k')"
    if "encrypt k" "blocks_fn EVP_des_cbc k a = (x, k')"
    using des.cbc_core_undo [OF refl good a [unfolded fn] u that(1)] that a ks u st
    by (simp add: run fn set_dir_def)
qed

lemma EVP_des_ede3_cbc_fields [simp]:
  "block_size EVP_des_ede3_cbc = 8" "key_size EVP_des_ede3_cbc = 24" "iv_len EVP_des_ede3_cbc = 8" "has_data EVP_des_ede3_cbc" "cipher_flags EVP_des_ede3_cbc = 2"
  "init_fn EVP_des_ede3_cbc = des_ede3_init_key" "cipher_fn EVP_des_ede3_cbc = des_ede3_cbc_cipher"
  by (simp_all add: EVP_des_ede3_cbc_def)

interpretation des_ede3_cbc: padded_cipher EVP_des_ede3_cbc des_good
proof unfold_locales
  fix k :: "DES_EDE_KEY cipher_core" and a b x :: bytes and k'
  note fn = EVP_des_ede3_cbc_fields
  show "cipher_flags EVP_des_ede3_cbc AND EVP_CIPH_FLAG_CUSTOM_CIPHER = 0"
    "block_size EVP_des_ede3_cbc = 8 \<or> block_size EVP_des_ede3_cbc = 16"
    by simp_all
  assume good: "des_good k"
  then obtain ks1 ks2 ks3 where ks: "cipher_data k = Some (ks1, ks2, ks3)" "length (iv k) = 16"
    by (auto simp: des_good_def)
  have run: "blocks_fn EVP_des_ede3_cbc j y = des3.cbc_core ks1 ks2 ks3 j y"
    if "8 dvd length y" "length (iv j) = 16" "cipher_data j = Some (ks1, ks2, ks3)" for j y
    using des_ede3_cbc_cipher_core [OF that] by (simp add: blocks_fn_def fn split: prod.splits)
  show "des_good (set_dir e k)" for e using good by (simp add: des_good_def set_dir_def)
  show "blocks_fn EVP_des_ede3_cbc k [] = ([], k)" using run ks des3.cbc_core_Nil [OF good] by simp
  assume a: "block_size EVP_des_ede3_cbc dvd length a"
  obtain u k1 where u: "des3.cbc_core ks1 ks2 ks3 k a = (u, k1)" by fastforce
  note st = des3.cbc_core_step [OF refl good a [unfolded fn] u]
  show "\<exists>out k'. cipher_fn EVP_des_ede3_cbc k (Some a) = Some (1, out, k') \<and> length out = length a
      \<and> des_good k' \<and> encrypt k' = encrypt k"
    using des_ede3_cbc_cipher_core [of a k ks1 ks2 ks3] ks a u st by (simp add: fn)
  show "blocks_fn EVP_des_ede3_cbc k (a @ b)
      = (let (x, k1) = blocks_fn EVP_des_ede3_cbc k a; (y, k2) = blocks_fn EVP_des_ede3_cbc k1 b in (x @ y, k2))"
    if b: "block_size EVP_des_ede3_cbc dvd length b"
    using des3.cbc_core_append [OF refl good a [unfolded fn] b [unfolded fn], of ks1 ks2 ks3] a b ks u st
    by (simp add: run fn des_good_def)
  show "blocks_fn EVP_des_ede3_cbc (set_dir False k) x = (a, set_dir False k')"
    if "encrypt k" "blocks_fn EVP_des_ede3_cbc k a = (x, k')"
    using des3.cbc_core_undo [OF refl good a [unfolded fn] u that(1)] that a ks u st
    by (simp add: run fn set_dir_def)
qed


section \<open>Properties\<close>

text \<open>A complete use of the interface: initialise, update with each piece, finish.\<close>

definition evp_message ::
  "'d EVP_CIPHER \<Rightarrow> bool \<Rightarrow> bytes \<Rightarrow> bytes \<Rightarrow> bytes list \<Rightarrow> bytes option" where
  "evp_message c enc key ivec pieces = do {
     (ok, ctx) \<leftarrow> EVP_CipherInit_ex True EVP_CIPHER_CTX_init (Some c) (Some key) (Some ivec) (Some enc);
     (if ok then Some () else None);
     (out, ctx) \<leftarrow> evp_updates EVP_CipherUpdate ctx pieces;
     (ok, n, last, ctx) \<leftarrow> EVP_CipherFinal_ex ctx;
     (if ok then Some () else None);
     n \<leftarrow> n;
     Some (out @ take (nat n) last)
   }"

lemma des_init:
  assumes "length ivec = 8"
  shows "\<exists>ctx. EVP_CipherInit_ex True EVP_CIPHER_CTX_init (Some EVP_des_cbc) (Some key) (Some ivec) (Some enc)
      = Some (True, ctx) \<and> des_cbc.ready ctx \<and> buf_len ctx = 0 \<and> \<not> final_used ctx
      \<and> core ctx = \<lparr>cipher_data = Some (DES_set_key key), encrypt = enc,
          oiv = ivec @ replicate 8 0, iv = ivec @ replicate 8 0, num = 0\<rparr>"
  using assms
  by (simp add: EVP_CipherInit_ex_def cipher_init_select_def cipher_init_iv_def EVP_CIPHER_CTX_init_def
      des_init_key_def des_cbc.ready_def Let_def mem_write_def)

lemma des3_init:
  assumes "length ivec = 8"
  shows "\<exists>ctx. EVP_CipherInit_ex True EVP_CIPHER_CTX_init (Some EVP_des_ede3_cbc) (Some key) (Some ivec) (Some enc)
      = Some (True, ctx) \<and> des_ede3_cbc.ready ctx \<and> buf_len ctx = 0 \<and> \<not> final_used ctx
      \<and> core ctx = \<lparr>cipher_data = Some (DES_set_key key, DES_set_key (drop 8 key), DES_set_key (drop 16 key)),
          encrypt = enc, oiv = ivec @ replicate 8 0, iv = ivec @ replicate 8 0, num = 0\<rparr>"
  using assms
  by (simp add: EVP_CipherInit_ex_def cipher_init_select_def cipher_init_iv_def EVP_CIPHER_CTX_init_def
      des_ede3_init_key_def des_ede3_cbc.ready_def Let_def mem_write_def)


context padded_cipher
begin

lemma message_roundtrip:
  assumes init: "\<And>e. EVP_CipherInit_ex True EVP_CIPHER_CTX_init (Some c) (Some key) (Some ivec) (Some e)
        = Some (True, ctx e) \<and> ready (ctx e) \<and> buf_len (ctx e) = 0 \<and> \<not> final_used (ctx e)"
    and good: "good (core (ctx True))" "encrypt (core (ctx True))"
    and dir: "core (ctx False) = set_dir False (core (ctx True))"
    and fits: "list_all update_fits xs"
  shows "\<exists>ct. evp_message c True key ivec xs = Some ct
      \<and> ct = fst (blocks_fn c (core (ctx True)) (concat xs @ padding bs (concat xs)))
      \<and> length ct = bs * (length (concat xs) div bs + 1)
      \<and> (\<forall>ys. concat ys = ct \<longrightarrow> list_all update_fits ys \<longrightarrow> evp_message c False key ivec ys = Some (concat xs))"
proof -
  have i: "ready (ctx e)" "buf_len (ctx e) = 0" "\<not> final_used (ctx e)" for e using init [of e] by auto
  obtain o1 c1 o2 c2 where e: "evp_updates EVP_CipherUpdate (ctx True) xs = Some (o1, c1)"
    "o1 @ o2 = fst (blocks_fn c (core (ctx True)) (concat xs @ padding bs (concat xs)))"
    "EVP_CipherFinal_ex c1 = Some (True, Some (int (length o2)), o2, c2)"
    "length (o1 @ o2) = bs * (length (concat xs) div bs + 1)"
    and d: "\<And>ys. concat ys = o1 @ o2 \<Longrightarrow> list_all update_fits ys \<Longrightarrow> (\<exists>p1 d1 p2. evp_updates EVP_CipherUpdate (ctx False) ys = Some (p1, d1)
            \<and> EVP_CipherFinal_ex d1 = Some (True, Some (int (length p2)), p2, d1) \<and> p1 @ p2 = concat xs)"
    using stream_roundtrip [of "ctx True" "ctx False" xs, OF i(1) good(1) i(2) good(2) i(1) dir i(2,3) fits]
    by blast
  have "evp_message c False key ivec ys = Some (concat xs)" if "concat ys = o1 @ o2" "list_all update_fits ys" for ys
    using d [OF that] init [of False] by (auto simp: evp_message_def)
  then show ?thesis using e init [of True]
    by (intro exI [of _ "o1 @ o2"]) (simp add: evp_message_def)
qed

end

lemma des_message_roundtrip:
  assumes "length ivec = 8"
  shows "\<exists>f. \<forall>xs. list_all update_fits xs \<longrightarrow> (\<exists>ct. evp_message EVP_des_cbc True key ivec xs = Some ct \<and> ct = f (concat xs)
      \<and> length ct = 8 * (length (concat xs) div 8 + 1)
      \<and> (\<forall>ys. concat ys = ct \<longrightarrow> list_all update_fits ys \<longrightarrow>
           evp_message EVP_des_cbc False key ivec ys = Some (concat xs)))"
proof -
  obtain ctx where c: "\<And>e. EVP_CipherInit_ex True EVP_CIPHER_CTX_init (Some EVP_des_cbc) (Some key) (Some ivec) (Some e)
      = Some (True, ctx e) \<and> des_cbc.ready (ctx e) \<and> buf_len (ctx e) = 0 \<and> \<not> final_used (ctx e)
      \<and> core (ctx e) = \<lparr>cipher_data = Some (DES_set_key key), encrypt = e,
          oiv = ivec @ replicate 8 0, iv = ivec @ replicate 8 0, num = 0\<rparr>"
    using des_init [OF assms, of key] by metis
  show ?thesis
    using des_cbc.message_roundtrip [of key ivec ctx] c assms
    by (intro exI [of _ "\<lambda>d. fst (blocks_fn EVP_des_cbc (core (ctx True)) (d @ padding 8 d))"])
       (simp add: des_good_def set_dir_def)
qed

lemma des3_message_roundtrip:
  assumes "length ivec = 8"
  shows "\<exists>f. \<forall>xs. list_all update_fits xs \<longrightarrow> (\<exists>ct. evp_message EVP_des_ede3_cbc True key ivec xs = Some ct \<and> ct = f (concat xs)
      \<and> length ct = 8 * (length (concat xs) div 8 + 1)
      \<and> (\<forall>ys. concat ys = ct \<longrightarrow> list_all update_fits ys \<longrightarrow>
           evp_message EVP_des_ede3_cbc False key ivec ys = Some (concat xs)))"
proof -
  obtain ctx where c: "\<And>e. EVP_CipherInit_ex True EVP_CIPHER_CTX_init (Some EVP_des_ede3_cbc) (Some key) (Some ivec) (Some e)
      = Some (True, ctx e) \<and> des_ede3_cbc.ready (ctx e) \<and> buf_len (ctx e) = 0 \<and> \<not> final_used (ctx e)
      \<and> core (ctx e) = \<lparr>cipher_data = Some (DES_set_key key, DES_set_key (drop 8 key), DES_set_key (drop 16 key)),
          encrypt = e, oiv = ivec @ replicate 8 0, iv = ivec @ replicate 8 0, num = 0\<rparr>"
    using des3_init [OF assms, of key] by metis
  show ?thesis
    using des_ede3_cbc.message_roundtrip [of key ivec ctx] c assms
    by (intro exI [of _ "\<lambda>d. fst (blocks_fn EVP_des_ede3_cbc (core (ctx True)) (d @ padding 8 d))"])
       (simp add: des_good_def set_dir_def)
qed

text \<open>
  C11: A message through the EVP cipher interface.  Whatever pieces a message is cut into, encrypting
  it with EVP_CipherInit_ex, EVP_CipherUpdate and EVP_CipherFinal_ex under DES-CBC or
  triple-DES-CBC succeeds and gives the same ciphertext, one padded block longer than the whole
  blocks of the message; decrypting that ciphertext, cut into any other pieces, gives the message
  back.  No call reads past its input, no internal buffer overflows and no \<^verbatim>\<open>int\<close> of the
  code does, when each piece leaves room for two blocks below the largest \<^verbatim>\<open>int\<close>.
\<close>
theorem evp_message_roundtrip:
  assumes "length ivec = 8" "concat xs = concat zs" "list_all update_fits xs" "list_all update_fits zs"
  shows "(\<exists>ct. evp_message EVP_des_cbc True key ivec xs = Some ct
        \<and> evp_message EVP_des_cbc True key ivec zs = Some ct
        \<and> length ct = 8 * (length (concat xs) div 8 + 1)
        \<and> (\<forall>ys. concat ys = ct \<longrightarrow> list_all update_fits ys \<longrightarrow> evp_message EVP_des_cbc False key ivec ys = Some (concat xs)))
    \<and> (\<exists>ct. evp_message EVP_des_ede3_cbc True key ivec xs = Some ct
        \<and> evp_message EVP_des_ede3_cbc True key ivec zs = Some ct
        \<and> length ct = 8 * (length (concat xs) div 8 + 1)
        \<and> (\<forall>ys. concat ys = ct \<longrightarrow> list_all update_fits ys \<longrightarrow> evp_message EVP_des_ede3_cbc False key ivec ys = Some (concat xs)))"
proof -
  obtain f where f: "\<And>xs. list_all update_fits xs \<Longrightarrow> evp_message EVP_des_cbc True key ivec xs = Some (f (concat xs))
      \<and> length (f (concat xs)) = 8 * (length (concat xs) div 8 + 1)
      \<and> (\<forall>ys. concat ys = f (concat xs) \<longrightarrow> list_all update_fits ys \<longrightarrow> evp_message EVP_des_cbc False key ivec ys = Some (concat xs))"
    using des_message_roundtrip [OF assms(1), of key] by metis
  obtain g where g: "\<And>xs. list_all update_fits xs \<Longrightarrow> evp_message EVP_des_ede3_cbc True key ivec xs = Some (g (concat xs))
      \<and> length (g (concat xs)) = 8 * (length (concat xs) div 8 + 1)
      \<and> (\<forall>ys. concat ys = g (concat xs) \<longrightarrow> list_all update_fits ys \<longrightarrow> evp_message EVP_des_ede3_cbc False key ivec ys = Some (concat xs))"
    using des3_message_roundtrip [OF assms(1), of key] by metis
  show ?thesis using f [OF assms(3)] f [OF assms(4)] g [OF assms(3)] g [OF assms(4)] assms(2)
    by (intro conjI exI [of _ "f (concat xs)"] exI [of _ "g (concat xs)"]) simp_all
qed

theorem evp_message_roundtrip_witness:
  "(\<exists>ct. evp_message EVP_des_cbc True [1, 2, 3, 4, 5, 6, 7, 8] (replicate 8 9) [[1, 2], [3]] = Some ct
        \<and> evp_message EVP_des_cbc True [1, 2, 3, 4, 5, 6, 7, 8] (replicate 8 9) [[1], [2, 3], []] = Some ct
        \<and> length ct = 8 * (length (concat [[1 :: u8, 2], [3]]) div 8 + 1)
        \<and> (\<forall>ys. concat ys = ct \<longrightarrow> list_all update_fits ys \<longrightarrow>
             evp_message EVP_des_cbc False [1, 2, 3, 4, 5, 6, 7, 8] (replicate 8 9) ys = Some (concat [[1, 2], [3]])))
    \<and> (\<exists>ct. evp_message EVP_des_ede3_cbc True [1, 2, 3, 4, 5, 6, 7, 8] (replicate 8 9) [[1, 2], [3]] = Some ct
        \<and> evp_message EVP_des_ede3_cbc True [1, 2, 3, 4, 5, 6, 7, 8] (replicate 8 9) [[1], [2, 3], []] = Some ct
        \<and> length ct = 8 * (length (concat [[1 :: u8, 2], [3]]) div 8 + 1)
        \<and> (\<forall>ys. concat ys = ct \<longrightarrow> list_all update_fits ys \<longrightarrow>
             evp_message EVP_des_ede3_cbc False [1, 2, 3, 4, 5, 6, 7, 8] (replicate 8 9) ys = Some (concat [[1, 2], [3]])))"
  by (rule evp_message_roundtrip) (simp_all add: update_fits_def)

text \<open>
  C37: What EVP_DecryptFinal_ex accepts.  With padding on, a cipher with blocks of 2 to 32 bytes
  and everything but a final block consumed, it succeeds exactly if the block held back ends in n
  bytes of value n for some n from 1 to the block size, and then releases exactly the bytes before
  them; on every other block, and when the input was empty or not a whole number of blocks, it
  returns failure and releases nothing.
\<close>
theorem decrypt_final_accepts_padding:
  assumes "cipher ctx = Some c" "cipher_flags c AND EVP_CIPH_FLAG_CUSTOM_CIPHER = 0"
    "ctx_flags ctx AND EVP_CIPH_NO_PADDING = 0" "1 < block_size c" "block_size c \<le> 32"
    "length (final ctx) = 32"
  shows "\<exists>ok n out. EVP_DecryptFinal_ex ctx = Some (ok, Some (int n), out, ctx) \<and> n = length out
    \<and> (if buf_len ctx = 0 \<and> final_used ctx
          \<and> (\<exists>m. 0 < m \<and> m \<le> block_size c
               \<and> take (block_size c) (final ctx)
                   = take (block_size c - m) (final ctx) @ replicate m (word_of_nat m))
       then ok \<and> (\<exists>m. 0 < m \<and> m \<le> block_size c \<and> out @ replicate m (word_of_nat m) = take (block_size c) (final ctx))
       else \<not> ok \<and> out = [])"
proof -
  let ?b = "block_size c" and ?f = "final ctx"
  let ?n = "unat (?f ! (?b - 1))"
  have tail: "take ?b ?f = take (?b - m) ?f @ replicate m (word_of_nat m) \<longleftrightarrow>
      (\<forall>i. ?b - m \<le> i \<and> i < ?b \<longrightarrow> unat (?f ! i) = m)" if "m \<le> ?b" for m
  proof -
    have "m < 256" "length (take ?b ?f) = ?b" using that assms(5,6) by auto
    then show ?thesis using that assms(5,6)
      by (subst list_eq_iff_nth_eq) (force simp: nth_append word_unat_eq_iff unat_of_nat)
  qed
  have pl: "padding_loop ?f ?n ?b ?n \<longleftrightarrow> take ?b ?f = take (?b - ?n) ?f @ replicate ?n (word_of_nat ?n)"
    if "?n \<le> ?b" using padding_loop_replicate [OF that] tail [OF that] assms(5,6) by simp
  have only: "m = ?n" if "0 < m" "m \<le> ?b"
    "take ?b ?f = take (?b - m) ?f @ replicate m (word_of_nat m)" for m
    using that tail [OF that(2)] assms(4) by (auto simp: Let_def)
  have fin: "EVP_DecryptFinal_ex ctx =
      (if buf_len ctx \<noteq> 0 \<or> \<not> final_used ctx \<or> ?n = 0 \<or> ?b < ?n \<or> \<not> padding_loop ?f ?n ?b ?n
       then Some (False, Some 0, [], ctx)
       else Some (True, Some (int (?b - ?n)), take (?b - ?n) ?f, ctx))"
    using assms(1-5) by (simp add: EVP_DecryptFinal_ex_def Let_def)
  show ?thesis
  proof (cases "buf_len ctx = 0 \<and> final_used ctx \<and> 0 < ?n \<and> ?n \<le> ?b \<and> padding_loop ?f ?n ?b ?n")
    case True
    then show ?thesis using fin pl assms(5,6)
      by (intro exI [of _ True] exI [of _ "?b - ?n"] exI [of _ "take (?b - ?n) ?f"])
         (auto simp: min_def intro!: exI [of _ ?n])
  next
    case False
    then have "EVP_DecryptFinal_ex ctx = Some (False, Some (int 0), [], ctx)" using fin by auto
    moreover have "\<not> (buf_len ctx = 0 \<and> final_used ctx \<and> (\<exists>m. 0 < m \<and> m \<le> ?b
        \<and> take ?b ?f = take (?b - m) ?f @ replicate m (word_of_nat m)))"
      using False only pl by metis
    ultimately show ?thesis by (intro exI [of _ False] exI [of _ 0] exI [of _ "[]"]) (simp only: if_False, simp)
  qed
qed


definition padded_ctx :: "DES_key_schedule EVP_CIPHER_CTX" where
  "padded_ctx = EVP_CIPHER_CTX_init\<lparr>cipher := Some EVP_des_cbc, final_used := True,
     final := [1, 2, 3, 4, 5, 3, 3, 3] @ replicate 24 0\<rparr>"

theorem decrypt_final_accepts_padding_witness:
  "\<exists>ok n out. EVP_DecryptFinal_ex padded_ctx = Some (ok, Some (int n), out, padded_ctx) \<and> n = length out
    \<and> (if buf_len padded_ctx = 0 \<and> final_used padded_ctx
          \<and> (\<exists>m. 0 < m \<and> m \<le> block_size EVP_des_cbc
               \<and> take (block_size EVP_des_cbc) (final padded_ctx)
                   = take (block_size EVP_des_cbc - m) (final padded_ctx) @ replicate m (word_of_nat m))
       then ok \<and> (\<exists>m. 0 < m \<and> m \<le> block_size EVP_des_cbc
               \<and> out @ replicate m (word_of_nat m) = take (block_size EVP_des_cbc) (final padded_ctx))
       else \<not> ok \<and> out = [])"
  by (rule decrypt_final_accepts_padding)
     (simp_all add: padded_ctx_def EVP_CIPHER_CTX_init_def)

end
