(* ===== verification/Md32.thy ===== *)
theory Md32
  imports Prelude
begin

unbundle bit_operations_syntax

text \<open>
  The block collector that MD5, SHA-1 and SHA-256 share
  (\<^verbatim>\<open>crypto/digest/md32_common.h\<close>), for any chaining value and any block function, and
  the abstract machine it implements: a chaining value and the bytes that wait for a block.

  The parameters a hash function sets by macros are the record \<open>md32\<close>; its
  \<open>make_string\<close> is None where \<^verbatim>\<open>HASH_MAKE_STRING\<close> makes the final function return 0.  The fields
  \<^verbatim>\<open>Nl\<close> and \<^verbatim>\<open>Nh\<close> are 32-bit words and wrap as in the code; the lemmas show
  that together they count bits modulo \<open>2 ^ 64\<close>.
\<close>

section \<open>The abstract machine\<close>

text \<open>\<open>n\<close> blocks of \<open>cb\<close> bytes from the front of a byte string.\<close>

fun hash_blocks :: "('h \<Rightarrow> bytes \<Rightarrow> 'h) \<Rightarrow> nat \<Rightarrow> 'h \<Rightarrow> bytes \<Rightarrow> nat \<Rightarrow> 'h" where
  "hash_blocks blk cb h data 0 = h"
| "hash_blocks blk cb h data (Suc n) = hash_blocks blk cb (blk h (take cb data)) (drop cb data) n"

lemma hash_blocks_add:
  "hash_blocks blk cb h data (m + n)
     = hash_blocks blk cb (hash_blocks blk cb h data m) (drop (m * cb) data) n"
  by (induction m arbitrary: h data) (auto simp: add.commute)

lemma hash_blocks_append:
  "n * cb \<le> length xs \<Longrightarrow> hash_blocks blk cb h (xs @ ys) n = hash_blocks blk cb h xs n"
  by (induction n arbitrary: h xs) auto

definition md_feed :: "('h \<Rightarrow> bytes \<Rightarrow> 'h) \<Rightarrow> nat \<Rightarrow> 'h \<times> bytes \<Rightarrow> bytes \<Rightarrow> 'h \<times> bytes" where
  "md_feed blk cb st data =
     (case st of (h, pend) \<Rightarrow>
        let all = pend @ data; n = length all div cb
        in (hash_blocks blk cb h all n, drop (n * cb) all))"

lemma md_feed_Nil: "length pend < cb \<Longrightarrow> md_feed blk cb (h, pend) [] = (h, pend)"
  by (simp add: md_feed_def)

lemma md_feed_short:
  "length pend + length data < cb \<Longrightarrow> md_feed blk cb (h, pend) data = (h, pend @ data)"
  by (simp add: md_feed_def)

lemma md_feed_block:
  assumes "0 < cb" and l: "length (pend @ data) = cb"
  shows "md_feed blk cb (h, pend) data = (blk h (pend @ data), [])"
proof -
  have "take cb (pend @ data) = pend @ data" "drop cb (pend @ data) = []"
    using l by (simp_all only: take_all drop_all order_refl)
  then show ?thesis using assms(1) unfolding md_feed_def prod.case Let_def l by simp
qed

lemma md_feed_feed:
  assumes "0 < cb"
  shows "md_feed blk cb (md_feed blk cb (h, pend) xs) ys = md_feed blk cb (h, pend) (xs @ ys)"
proof -
  let ?a = "pend @ xs"
  let ?n = "length ?a div cb"
  let ?r = "drop (?n * cb) ?a @ ys"
  let ?m = "length ?r div cb"
  have le: "?n * cb \<le> length ?a" by simp
  have "length ?r + ?n * cb = length (?a @ ys)"
    using le unfolding length_append length_drop by linarith
  then have "length (?a @ ys) div cb = (length ?r + ?n * cb) div cb" by (simp only:)
  then have len: "length (?a @ ys) div cb = ?n + ?m"
    using assms by (simp only: div_mult_self1 neq0_conv)
  have d: "drop (?n * cb) (?a @ ys) = ?r" using le by simp
  have "hash_blocks blk cb h (?a @ ys) (?n + ?m) = hash_blocks blk cb (hash_blocks blk cb h ?a ?n) ?r ?m"
    unfolding hash_blocks_add d hash_blocks_append [OF le] ..
  moreover have "drop ((?n + ?m) * cb) (?a @ ys) = drop (?m * cb) ?r"
    using drop_drop [of "?m * cb" "?n * cb" "?a @ ys"]
    unfolding d by (simp only: add_mult_distrib add.commute)
  ultimately show ?thesis
    unfolding md_feed_def prod.case Let_def append_assoc [symmetric] len by simp
qed

lemma hash_blocks_cong:
  "n * cb \<le> length data \<Longrightarrow> (\<And>h d. length d = cb \<Longrightarrow> blk h d = blk' h d)
    \<Longrightarrow> hash_blocks blk cb h data n = hash_blocks blk' cb h data n"
  by (induction n arbitrary: h data) simp_all

text \<open>The padding of the Merkle-Damgard construction, and the hash of a message.\<close>

definition md_padding :: "nat \<Rightarrow> nat \<Rightarrow> (nat \<Rightarrow> bytes) \<Rightarrow> nat \<Rightarrow> bytes" where
  "md_padding cb lb enc len =
     0x80 # replicate ((cb - (len + 1 + lb) mod cb) mod cb) 0 @ enc (8 * len)"

definition md_hash ::
  "('h \<Rightarrow> bytes \<Rightarrow> 'h) \<Rightarrow> nat \<Rightarrow> nat \<Rightarrow> (nat \<Rightarrow> bytes) \<Rightarrow> 'h \<Rightarrow> bytes \<Rightarrow> 'h" where
  "md_hash blk cb lb enc h0 msg =
     (let m = msg @ md_padding cb lb enc (length msg) in hash_blocks blk cb h0 m (length m div cb))"

lemma md_hash_cong:
  "(\<And>h d. length d = cb \<Longrightarrow> blk h d = blk' h d) \<Longrightarrow> md_hash blk cb lb enc h0 msg = md_hash blk' cb lb enc h0 msg"
  unfolding md_hash_def Let_def by (rule hash_blocks_cong) simp_all

lemma md_hash_feed:
  assumes "0 < cb"
  shows "md_hash blk cb lb enc h0 msg
    = fst (md_feed blk cb (md_feed blk cb (h0, []) msg) (md_padding cb lb enc (length msg)))"
  unfolding md_feed_feed [OF assms] by (simp add: md_hash_def md_feed_def Let_def)

lemma md_padding_short:
  assumes "len mod cb + 1 + lb \<le> cb"
  shows "md_padding cb lb enc len
    = 0x80 # replicate (cb - lb - 1 - len mod cb) 0 @ enc (8 * len)"
proof -
  have "(len + 1 + lb) mod cb = (len mod cb + 1 + lb) mod cb"
    unfolding add.assoc by (simp only: mod_add_left_eq)
  then have "(cb - (len + 1 + lb) mod cb) mod cb = cb - lb - 1 - len mod cb"
    using assms by (cases "len mod cb + 1 + lb = cb") simp_all
  then show ?thesis by (simp only: md_padding_def)
qed

lemma mod_wrap: "b \<le> x \<Longrightarrow> x < 2 * b \<Longrightarrow> x mod b = x - (b :: nat)"
  by (simp add: le_mod_geq)

lemma md_padding_long:
  assumes "cb < len mod cb + 1 + lb" "lb < cb"
  shows "md_padding cb lb enc len
    = (0x80 # replicate (cb - 1 - len mod cb) 0) @ replicate (cb - lb) 0 @ enc (8 * len)"
proof -
  have lt: "len mod cb < cb" using assms(2) by (intro mod_less_divisor) simp
  have "(len + 1 + lb) mod cb = (len mod cb + 1 + lb) mod cb"
    unfolding add.assoc by (simp only: mod_add_left_eq)
  also have "\<dots> = len mod cb + 1 + lb - cb"
    using mod_wrap [of cb "len mod cb + 1 + lb"] assms lt by simp
  finally have "(len + 1 + lb) mod cb = len mod cb + 1 + lb - cb" .
  moreover have "cb - (len mod cb + 1 + lb - cb) < cb"
    and "cb - (len mod cb + 1 + lb - cb) = (cb - 1 - len mod cb) + (cb - lb)"
    using assms lt by arith+
  ultimately have "(cb - (len + 1 + lb) mod cb) mod cb = (cb - 1 - len mod cb) + (cb - lb)"
    by (simp only: mod_less)
  then show ?thesis by (simp only: md_padding_def replicate_add append_Cons append_assoc)
qed

text \<open>The rest of a message and its padding fill one block or two.\<close>

lemma md_feed_padding:
  assumes l: "length pend = len mod cb" and lb: "lb < cb" and e: "length (enc (8 * len)) = lb"
  shows "md_feed blk cb (h, pend) (md_padding cb lb enc len)
    = (if length pend + 1 + lb \<le> cb
       then (blk h (pend @ 0x80 # replicate (cb - lb - 1 - length pend) 0 @ enc (8 * len)), [])
       else (blk (blk h (pend @ 0x80 # replicate (cb - 1 - length pend) 0))
              (replicate (cb - lb) 0 @ enc (8 * len)), []))"
proof (cases "length pend + 1 + lb \<le> cb")
  case True
  then show ?thesis
    using md_padding_short [of len cb lb enc] lb e unfolding l [symmetric]
    by (simp add: md_feed_block)
next
  case False
  have lt: "length pend < cb" unfolding l using lb by (intro mod_less_divisor) simp
  have cb: "0 < cb" using lb by simp
  have p: "md_padding cb lb enc len
      = (0x80 # replicate (cb - 1 - length pend) 0) @ replicate (cb - lb) 0 @ enc (8 * len)"
    unfolding l using False l lb by (intro md_padding_long) simp_all
  show ?thesis
    unfolding p md_feed_feed [OF cb, symmetric]
    using False lt lb e by (simp add: md_feed_block)
qed

section \<open>The collector\<close>

record 'h md32 =
  md_block :: "'h \<Rightarrow> bytes \<Rightarrow> 'h"
  data_order_big :: bool
  make_string :: "'h \<Rightarrow> bytes option"

(* src: include/openssl/sha.h@100-105 sha_state_st *)
record 'h md32_ctx =
  hval :: 'h
  Nl :: u32
  Nh :: u32
  cdata :: bytes
  num :: nat

abbreviation HASH_CBLOCK :: nat where "HASH_CBLOCK \<equiv> 64"

(* src: crypto/digest/md32_common.h@225-231 HOST_l2c *)
definition HOST_l2c :: "bool \<Rightarrow> u32 \<Rightarrow> bytes" where
  "HOST_l2c big l =
     (let bs = [ucast (drop_bit 24 l), ucast (drop_bit 16 l), ucast (drop_bit 8 l), ucast l]
      in if big then bs else rev bs)"

(* src: crypto/digest/md32_common.h@218-224 HOST_c2l *)
definition HOST_c2l :: "bool \<Rightarrow> bytes \<Rightarrow> u32" where
  "HOST_c2l big c =
     (let b = (\<lambda>i. ucast (c ! i) :: u32)
      in if big then push_bit 24 (b 0) OR push_bit 16 (b 1) OR push_bit 8 (b 2) OR b 3
         else b 0 OR push_bit 8 (b 1) OR push_bit 16 (b 2) OR push_bit 24 (b 3))"

text \<open>The bit count; \<open>len\<close> is a size_t.\<close>

(* src: crypto/digest/md32_common.h@265-273 HASH_UPDATE *)
definition md32_count :: "nat \<Rightarrow> 'h md32_ctx \<Rightarrow> 'h md32_ctx" where
  "md32_count len c =
     (let l = Nl c + push_bit 3 (word_of_nat len);
          nh = (if l < Nl c then Nh c + 1 else Nh c)
      in c\<lparr>Nl := l, Nh := nh + word_of_nat (len div 2 ^ 29)\<rparr>)"

text \<open>What follows the bytes left over from the last call: whole blocks, and a new rest.\<close>

(* src: crypto/digest/md32_common.h@298-313 HASH_UPDATE *)
definition md32_update_rest :: "'h md32 \<Rightarrow> 'h md32_ctx \<Rightarrow> bytes \<Rightarrow> 'h md32_ctx" where
  "md32_update_rest m c data =
     (let n = length data div HASH_CBLOCK;
          c = (if 0 < n then c\<lparr>hval := hash_blocks (md_block m) HASH_CBLOCK (hval c) data n\<rparr> else c);
          data = drop (n * HASH_CBLOCK) data
      in if data \<noteq> [] then c\<lparr>num := length data, cdata := mem_write (cdata c) 0 data\<rparr> else c)"

(* src: crypto/digest/md32_common.h@258-314 HASH_UPDATE *)
definition HASH_UPDATE :: "'h md32 \<Rightarrow> 'h md32_ctx \<Rightarrow> bytes \<Rightarrow> 'h md32_ctx" where
  "HASH_UPDATE m c data =
     (if data = [] then c
      else
        let c = md32_count (length data) c; n = num c
        in if n \<noteq> 0 then
             if HASH_CBLOCK \<le> length data \<or> HASH_CBLOCK \<le> length data + n then
               let k = HASH_CBLOCK - n;
                   p = mem_write (cdata c) n (take k data);
                   c = c\<lparr>hval := md_block m (hval c) p, num := 0, cdata := replicate HASH_CBLOCK 0\<rparr>
               in md32_update_rest m c (drop k data)
             else c\<lparr>cdata := mem_write (cdata c) n data, num := n + length data\<rparr>
           else md32_update_rest m c data)"

(* src: crypto/digest/md32_common.h@317-320 HASH_TRANSFORM *)
definition HASH_TRANSFORM :: "'h md32 \<Rightarrow> 'h md32_ctx \<Rightarrow> bytes \<Rightarrow> 'h md32_ctx" where
  "HASH_TRANSFORM m c data = c\<lparr>hval := hash_blocks (md_block m) HASH_CBLOCK (hval c) data 1\<rparr>"

(* src: crypto/digest/md32_common.h@323-359 HASH_FINAL *)
definition HASH_FINAL :: "'h md32 \<Rightarrow> 'h md32_ctx \<Rightarrow> bytes option \<times> 'h md32_ctx" where
  "HASH_FINAL m c =
     (let p = mem_write (cdata c) (num c) [0x80];
          n = num c + 1;
          (p, n, h) =
            (if HASH_CBLOCK - 8 < n then
               let p = mem_write p n (replicate (HASH_CBLOCK - n) 0)
               in (p, 0, md_block m (hval c) p)
             else (p, n, hval c));
          p = mem_write p n (replicate (HASH_CBLOCK - 8 - n) 0);
          p = (if data_order_big m
               then mem_write p (HASH_CBLOCK - 8) (HOST_l2c True (Nh c) @ HOST_l2c True (Nl c))
               else mem_write p (HASH_CBLOCK - 8) (HOST_l2c False (Nl c) @ HOST_l2c False (Nh c)));
          h = md_block m h p
      in (make_string m h, c\<lparr>hval := h, num := 0, cdata := replicate HASH_CBLOCK 0\<rparr>))"


section \<open>The collector implements the machine\<close>

text \<open>
  A context stands for the chaining value, the bytes that wait, and the number of bits so far
  modulo \<open>2 ^ 64\<close>.
\<close>

definition md32_ok :: "'h md32_ctx \<Rightarrow> bool" where
  "md32_ok c \<longleftrightarrow> length (cdata c) = 64 \<and> num c < 64"

definition md32_abs :: "'h md32_ctx \<Rightarrow> 'h \<times> bytes" where
  "md32_abs c = (hval c, take (num c) (cdata c))"

definition md32_bits :: "'h md32_ctx \<Rightarrow> nat" where
  "md32_bits c = unat (Nh c) * 2 ^ 32 + unat (Nl c)"

lemma word_plus_carry:
  fixes a b :: "'w::len word"
  shows "unat a + unat b = (if a + b < a then 2 ^ LENGTH('w) else 0) + unat (a + b)"
proof (cases "unat a + unat b < 2 ^ LENGTH('w)")
  case True
  then have "unat (a + b) = unat a + unat b" by (simp add: unat_add_lem [symmetric])
  then show ?thesis by (simp add: word_less_nat_alt)
next
  case False
  have lt: "unat a < 2 ^ LENGTH('w)" "unat b < 2 ^ LENGTH('w)" by simp_all
  then have e: "unat (a + b) = unat a + unat b - 2 ^ LENGTH('w)"
    using False unfolding unat_word_ariths by (intro mod_wrap) linarith+
  then have "a + b < a" unfolding word_less_nat_alt using lt False by linarith
  then show ?thesis using e False by simp
qed

text \<open>Two words count bits modulo twice their width.\<close>

lemma count_bits:
  fixes nl nh :: "'w::len word" and len :: nat
  assumes "3 \<le> LENGTH('w)"
  defines "l \<equiv> nl + push_bit 3 (word_of_nat len)"
  shows "unat ((if l < nl then nh + 1 else nh) + word_of_nat (len div 2 ^ (LENGTH('w) - 3))) * 2 ^ LENGTH('w) + unat l
    = (unat nh * 2 ^ LENGTH('w) + unat nl + 8 * len) mod (2 ^ LENGTH('w) * 2 ^ LENGTH('w))"
proof -
  let ?W = "2 ^ LENGTH('w) :: nat"
  let ?b = "push_bit 3 (word_of_nat len) :: 'w word"
  let ?hi = "len div 2 ^ (LENGTH('w) - 3)"
  let ?c = "if l < nl then 1 else 0 :: nat"
  have W: "?W = 8 * 2 ^ (LENGTH('w) - 3)"
    using assms(1) power_add [of "2 :: nat" 3 "LENGTH('w) - 3"] by simp
  have b: "unat ?b = 8 * len mod ?W"
    by (simp add: push_bit_eq_mult unat_word_ariths unat_of_nat take_bit_eq_mod mod_simps mult.commute)
  have "8 * len div ?W = ?hi" unfolding W div_mult2_eq by simp
  then have e: "8 * len = ?hi * ?W + unat ?b"
    using div_mult_mod_eq [of "8 * len" ?W] by (simp only: b)
  have nl: "unat nl + unat ?b = ?c * ?W + unat l"
    unfolding l_def using word_plus_carry [of nl ?b] by simp
  have nh: "unat ((if l < nl then nh + 1 else nh) + word_of_nat ?hi) = (unat nh + ?c + ?hi) mod ?W"
    by (simp add: unat_word_ariths unat_of_nat mod_simps)
  have total: "unat nh * ?W + unat nl + 8 * len = (unat nh + ?c + ?hi) * ?W + unat l"
    using nl unfolding add_mult_distrib by (subst e) linarith
  have m: "(x * ?W + unat l) mod (?W * ?W) = (x mod ?W) * ?W + unat l" for x
    using mod_mult2_eq [of "x * ?W + unat l" ?W ?W] by simp
  show ?thesis unfolding nh total m ..
qed

lemma md32_count_bits:
  "md32_bits (md32_count len c) = (md32_bits c + 8 * len) mod 2 ^ 64"
  using count_bits [where nl = "Nl c" and nh = "Nh c" and len = len]
  by (simp add: md32_bits_def md32_count_def Let_def)

lemma md32_count_fields [simp]:
  "hval (md32_count n c) = hval c" "cdata (md32_count n c) = cdata c" "num (md32_count n c) = num c"
  by (simp_all add: md32_count_def Let_def)

lemma md32_update_rest_spec:
  assumes "md32_ok c" "num c = 0"
  shows "md32_abs (md32_update_rest m c data) = md_feed (md_block m) 64 (hval c, []) data
    \<and> md32_ok (md32_update_rest m c data) \<and> md32_bits (md32_update_rest m c data) = md32_bits c"
proof -
  let ?n = "length data div 64"
  let ?r = "drop (?n * 64) data"
  have lr: "length ?r = length data mod 64" by (simp add: minus_div_mult_eq_mod)
  have "take (length ?r) (mem_write (cdata c) 0 ?r) = ?r"
    by (simp add: mem_write_def)
  moreover have lt: "length ?r < 64" unfolding lr by simp
  moreover have "length (mem_write (cdata c) 0 ?r) = 64"
    using assms(1) lt by (subst length_mem_write) (auto simp: md32_ok_def)
  ultimately show ?thesis using assms
    by (auto simp: md32_update_rest_def md_feed_def md32_abs_def md32_ok_def md32_bits_def Let_def)
qed

lemma HASH_UPDATE_spec:
  assumes ok: "md32_ok c"
  shows "md32_abs (HASH_UPDATE m c data) = md_feed (md_block m) 64 (md32_abs c) data
    \<and> md32_ok (HASH_UPDATE m c data)
    \<and> md32_bits (HASH_UPDATE m c data) mod 2 ^ 64 = (md32_bits c + 8 * length data) mod 2 ^ 64"
proof -
  let ?c = "md32_count (length data) c"
  let ?n = "num c"
  let ?pend = "take ?n (cdata c)"
  have l: "length ?pend = ?n" "?n < 64" "length (cdata c) = 64" using ok by (auto simp: md32_ok_def)
  have okc: "md32_ok ?c" using ok by (simp add: md32_ok_def)
  have bits: "md32_bits ?c = (md32_bits c + 8 * length data) mod 2 ^ 64" by (rule md32_count_bits)
  show ?thesis
  proof (cases "data = []")
    case True
    then show ?thesis using ok l by (simp add: HASH_UPDATE_def md32_abs_def md_feed_Nil)
  next
    case d: False
    show ?thesis
    proof (cases "?n = 0")
      case True
      then have "HASH_UPDATE m c data = md32_update_rest m ?c data"
        using d by (simp add: HASH_UPDATE_def Let_def)
      then show ?thesis using md32_update_rest_spec [OF okc, of m data] True bits
        by (simp add: md32_abs_def)
    next
      case n: False
      show ?thesis
      proof (cases "64 \<le> length data + ?n")
        case False
        have "take (?n + length data) (mem_write (cdata c) ?n data) = ?pend @ data"
          using l by (simp add: take_mem_write_upto)
        then show ?thesis using d n False l bits
          by (simp add: HASH_UPDATE_def Let_def md32_abs_def md32_ok_def md32_bits_def md_feed_short)
      next
        case True
        let ?k = "64 - ?n"
        let ?p = "mem_write (cdata c) ?n (take ?k data)"
        let ?c2 = "?c\<lparr>hval := md_block m (hval c) ?p, num := 0, cdata := replicate 64 0\<rparr>"
        have p: "?p = ?pend @ take ?k data" using l True by (simp add: mem_write_def)
        have lp: "length (?pend @ take ?k data) = 64" using l True by simp
        have e: "HASH_UPDATE m c data = md32_update_rest m ?c2 (drop ?k data)"
          using d n True by (simp add: HASH_UPDATE_def Let_def)
        have ok2: "md32_ok ?c2" by (simp add: md32_ok_def)
        have "md_feed (md_block m) 64 (hval c, ?pend) (take ?k data) = (md_block m (hval c) ?p, [])"
          unfolding p by (rule md_feed_block [OF _ lp]) simp
        then have "md_feed (md_block m) 64 (md32_abs c) data
            = md_feed (md_block m) 64 (md_block m (hval c) ?p, []) (drop ?k data)"
          using md_feed_feed [of 64 "md_block m" "hval c" ?pend "take ?k data" "drop ?k data"]
          by (simp add: md32_abs_def)
        moreover have "md32_bits ?c2 = md32_bits ?c" by (simp add: md32_bits_def)
        ultimately show ?thesis using md32_update_rest_spec [OF ok2, of m "drop ?k data"] e bits
          by simp
      qed
    qed
  qed
qed

text \<open>The length at the end of the padding: eight bytes, in the order of the hash.\<close>

definition md32_length :: "bool \<Rightarrow> nat \<Rightarrow> bytes" where
  "md32_length big n =
     (let bs = map (\<lambda>i. word_of_nat (n div 2 ^ (8 * i)) :: u8) [0..<8] in if big then rev bs else bs)"

lemma length_md32_length [simp]: "length (md32_length big n) = 8"
  by (simp add: md32_length_def Let_def)

lemma word_of_nat_div_mod:
  assumes "k \<le> 56"
  shows "(word_of_nat ((n mod 2 ^ 64) div 2 ^ k) :: u8) = word_of_nat (n div 2 ^ k)"
proof -
  have "drop_bit k (take_bit 64 n) = take_bit (64 - k) (drop_bit k n)" by (simp add: drop_bit_take_bit)
  moreover have "take_bit 8 (take_bit (64 - k) (drop_bit k n)) = take_bit 8 (drop_bit k n)"
    using assms by simp
  ultimately show ?thesis
    by (simp only: drop_bit_eq_div [symmetric] take_bit_eq_mod [symmetric] word_of_nat_eq_iff)
      (simp add: take_bit_drop_bit)
qed

lemma ucast_drop_bit_nat: "(ucast (drop_bit k (l :: 'w::len word)) :: u8) = word_of_nat (unat l div 2 ^ k)"
proof -
  have "(ucast (drop_bit k l) :: u8) = word_of_nat (unat (drop_bit k l))" by simp
  then show ?thesis by (simp only: unat_drop_bit_eq) (simp only: drop_bit_eq_div)
qed

lemma word_of_nat_halves:
  assumes "k \<le> 24" "l < 2 ^ 32"
  shows "(word_of_nat ((h * 2 ^ 32 + l) div 2 ^ k) :: u8) = word_of_nat (l div 2 ^ k)"
    and "(word_of_nat ((h * 2 ^ 32 + l) div 2 ^ (k + 32)) :: u8) = word_of_nat (h div 2 ^ k)"
proof -
  have p: "(2 :: nat) ^ 32 = 2 ^ (24 - k) * 2 ^ 8 * 2 ^ k" using assms(1) by (simp flip: power_add)
  have "(h * 2 ^ 32 + l) div 2 ^ k = h * (2 ^ (24 - k) * 2 ^ 8) + l div 2 ^ k"
    unfolding p by (simp flip: mult.assoc)
  moreover have "(word_of_nat (2 ^ (24 - k) * 2 ^ 8) :: u8) = 0" by (subst word_of_nat_eq_0_iff) simp
  ultimately show "(word_of_nat ((h * 2 ^ 32 + l) div 2 ^ k) :: u8) = word_of_nat (l div 2 ^ k)"
    by (simp only: of_nat_add of_nat_mult [of h] mult_zero_right add_0_left)
  have "(h * 2 ^ 32 + l) div 2 ^ (k + 32) = (h * 2 ^ 32 + l) div 2 ^ 32 div 2 ^ k"
    by (simp only: div_mult2_eq [symmetric] power_add mult.commute)
  then show "(word_of_nat ((h * 2 ^ 32 + l) div 2 ^ (k + 32)) :: u8) = word_of_nat (h div 2 ^ k)"
    using assms(2) by simp
qed

lemma md32_length_halves:
  assumes "unat nh * 2 ^ 32 + unat nl = n mod 2 ^ 64"
  shows "md32_length big n
    = (if big then HOST_l2c True nh @ HOST_l2c True nl else HOST_l2c False nl @ HOST_l2c False nh)"
proof -
  have lt: "unat nl < 2 ^ 32" using unsigned_less [of nl] by simp
  have lo: "(word_of_nat (n div 2 ^ k) :: u8) = ucast (drop_bit k nl)" if "k \<le> 24" for k
    using that word_of_nat_halves(1) [OF that lt]
    by (subst word_of_nat_div_mod [symmetric]) (simp_all only: ucast_drop_bit_nat assms [symmetric])
  have hi: "(word_of_nat (n div 2 ^ (k + 32)) :: u8) = ucast (drop_bit k nh)" if "k \<le> 24" for k
    using that word_of_nat_halves(2) [OF that lt]
    by (subst word_of_nat_div_mod [symmetric]) (simp_all only: ucast_drop_bit_nat assms [symmetric])
  have u: "[0 ..< 8] = [0, 1, 2, 3, 4, 5, 6, 7 :: nat]" by (simp add: upt_rec)
  show ?thesis
    using lo [of 0] lo [of 8] lo [of 16] lo [of 24] hi [of 0] hi [of 8] hi [of 16] hi [of 24]
    by (simp add: md32_length_def HOST_l2c_def u Let_def)
qed

text \<open>
  \<open>md32_holds m h0 c msg\<close>: the context \<open>c\<close> has taken in the message \<open>msg\<close> since it
  started from the chaining value \<open>h0\<close>.
\<close>

definition md32_holds :: "'h md32 \<Rightarrow> 'h \<Rightarrow> 'h md32_ctx \<Rightarrow> bytes \<Rightarrow> bool" where
  "md32_holds m h0 c msg \<longleftrightarrow>
     md32_ok c \<and> md32_abs c = md_feed (md_block m) 64 (h0, []) msg
       \<and> md32_bits c = 8 * length msg mod 2 ^ 64"

lemma md32_bits_less: "md32_bits c < 2 ^ 64"
proof -
  have "unat w < 2 ^ 32" for w :: u32 using unsigned_less [of w] by simp
  from this [of "Nl c"] this [of "Nh c"] show ?thesis by (simp add: md32_bits_def)
qed

lemma md32_holds_update:
  assumes "md32_holds m h0 c xs"
  shows "md32_holds m h0 (HASH_UPDATE m c ys) (xs @ ys)"
proof -
  have "md32_bits (HASH_UPDATE m c ys) = md32_bits (HASH_UPDATE m c ys) mod 2 ^ 64"
    by (rule mod_less [OF md32_bits_less, symmetric])
  also have "\<dots> = (8 * length xs mod 2 ^ 64 + 8 * length ys) mod 2 ^ 64"
    using HASH_UPDATE_spec [of c m ys] assms by (simp only: md32_holds_def)
  also have "\<dots> = 8 * length (xs @ ys) mod 2 ^ 64"
    by (simp only: mod_add_left_eq length_append distrib_left)
  finally show ?thesis
    using HASH_UPDATE_spec [of c m ys] assms
    by (simp only: md32_holds_def md_feed_feed zero_less_numeral)
qed

lemma md_feed_pending:
  "snd (md_feed blk cb (h, pend) xs) = drop ((length (pend @ xs) div cb) * cb) (pend @ xs)"
  by (simp add: md_feed_def Let_def)

lemma HASH_FINAL_spec:
  assumes "md32_holds m h0 c msg"
  shows "HASH_FINAL m c =
    (let h = md_hash (md_block m) 64 8 (md32_length (data_order_big m)) h0 msg
     in (make_string m h, c\<lparr>hval := h, num := 0, cdata := replicate 64 0\<rparr>))"
proof -
  let ?enc = "md32_length (data_order_big m)"
  let ?n = "num c"
  let ?pend = "take ?n (cdata c)"
  let ?x = "?enc (8 * length msg)"
  have ok: "length (cdata c) = 64" "?n < 64" and abs: "md_feed (md_block m) 64 (h0, []) msg = (hval c, ?pend)"
    and bits: "unat (Nh c) * 2 ^ 32 + unat (Nl c) = 8 * length msg mod 2 ^ 64"
    using assms by (simp_all add: md32_holds_def md32_ok_def md32_abs_def md32_bits_def)
  have l: "length ?pend = ?n" using ok by simp
  have "?pend = drop (length msg div 64 * 64) msg"
    using md_feed_pending [of "md_block m" 64 h0 "[]" msg] unfolding abs by simp
  then have n: "?n = length msg mod 64"
    using l by (simp add: minus_div_mult_eq_mod)
  have x: "?x = (if data_order_big m then HOST_l2c True (Nh c) @ HOST_l2c True (Nl c)
      else HOST_l2c False (Nl c) @ HOST_l2c False (Nh c))"
    by (rule md32_length_halves [OF bits])
  have lx: "length ?x = 8" by simp
  have h: "md_hash (md_block m) 64 8 ?enc h0 msg
      = fst (md_feed (md_block m) 64 (hval c, ?pend) (md_padding 64 8 ?enc (length msg)))"
    by (simp only: md_hash_feed zero_less_numeral abs)
  have feed: "md_feed (md_block m) 64 (hval c, ?pend) (md_padding 64 8 ?enc (length msg))
      = (if ?n \<le> 55 then (md_block m (hval c) (?pend @ 0x80 # replicate (55 - ?n) 0 @ ?x), [])
         else (md_block m (md_block m (hval c) (?pend @ 0x80 # replicate (63 - ?n) 0))
                (replicate 56 0 @ ?x), []))"
    using md_feed_padding [of ?pend "length msg" 64 8 ?enc "md_block m" "hval c"] l n lx by simp
  show ?thesis
  proof (cases "?n \<le> 55")
    case True
    have w: "mem_write (mem_write (mem_write (cdata c) ?n [0x80]) (?n + 1) (replicate (55 - ?n) 0)) 56 ?x
        = ?pend @ 0x80 # replicate (55 - ?n) 0 @ ?x"
      using ok True lx Suc_diff_le [of ?n 55] by (simp add: mem_write_def)
    show ?thesis
      by (cases "data_order_big m") (use True feed h w x in \<open>simp_all add: HASH_FINAL_def Let_def\<close>)
  next
    case False
    have w: "mem_write (mem_write (cdata c) ?n [0x80]) (?n + 1) (replicate (63 - ?n) 0)
        = ?pend @ 0x80 # replicate (63 - ?n) 0"
      using ok False by (simp add: mem_write_def)
    have "mem_write (mem_write p 0 (replicate 56 0)) 56 ?x = replicate 56 0 @ ?x"
      if "length p = 64" for p
      using that lx by (simp add: mem_write_def)
    note w2 = this [of "?pend @ 0x80 # replicate (63 - ?n) 0"]
    have "length (?pend @ 0x80 # replicate (63 - ?n) 0) = 64" using ok by simp
    note w2 = w2 [OF this]
    show ?thesis
      by (cases "data_order_big m") (use False feed h w w2 x in \<open>simp_all add: HASH_FINAL_def Let_def\<close>)
  qed
qed

definition md32_init :: "'h \<Rightarrow> 'h md32_ctx" where
  "md32_init h = \<lparr>hval = h, Nl = 0, Nh = 0, cdata = replicate 64 0, num = 0\<rparr>"

lemma md32_holds_init: "md32_holds m h (md32_init h) []"
  by (simp add: md32_holds_def md32_ok_def md32_abs_def md32_bits_def md32_init_def md_feed_Nil)

section \<open>Bytes and words\<close>

lemma be_bytes_8: "be_bytes 8 n = md32_length True n"
proof -
  have e: "(8 :: nat) = Suc (Suc (Suc (Suc (Suc (Suc (Suc (Suc 0)))))))" by simp
  have u: "[0 ..< 8] = [0, 1, 2, 3, 4, 5, 6, 7 :: nat]" by (simp add: upt_rec)
  show ?thesis unfolding md32_length_def u Let_def
    by (subst e) (simp only: be_bytes.simps div_mult2_eq [symmetric], simp)
qed

lemma be_bytes_4: "be_bytes 4 (unat w) = HOST_l2c True w"
proof -
  have e: "(4 :: nat) = Suc (Suc (Suc (Suc 0)))" by simp
  have "ucast (drop_bit k w) = (word_of_nat (unat w div 2 ^ k) :: u8)" for k by (rule ucast_drop_bit_nat)
  from this [of 24] this [of 16] this [of 8] this [of 0] show ?thesis unfolding HOST_l2c_def
    by (subst e) (simp only: be_bytes.simps div_mult2_eq [symmetric] Let_def if_True, simp)
qed

lemma word_snoc_byte:
  "(word_of_nat (n * 256 + unat (b :: u8)) :: 'w::len word) = push_bit 8 (word_of_nat n) OR ucast b"
proof -
  have "(word_of_nat (n * 256 + unat b) :: 'w word) = push_bit 8 (word_of_nat n) + ucast b"
    by (simp add: push_bit_eq_mult mult.commute)
  also have "\<dots> = push_bit 8 (word_of_nat n) OR ucast b"
    by (rule disjunctive_add_eq_or, rule bit_word_eqI)
      (auto simp: bit_simps dest: bit_imp_le_length)
  finally show ?thesis .
qed

lemma be_bytes_add: "be_bytes (k + m) n = be_bytes k (n div 256 ^ m) @ be_bytes m n"
  by (induction m arbitrary: n) (simp_all add: div_mult2_eq)

text \<open>A word from its bytes, most significant first.\<close>

definition word_of_be :: "bytes \<Rightarrow> 'w::len word" where
  "word_of_be bs = word_of_nat (be_nat bs)"

lemma word_of_be_snoc: "(word_of_be (bs @ [b]) :: 'w::len word) = push_bit 8 (word_of_be bs) OR ucast b"
  by (simp only: word_of_be_def be_nat_acc_append be_nat_acc.simps word_snoc_byte)

lemma word_of_be_Nil: "word_of_be [] = 0"
  by (simp add: word_of_be_def)

lemma list4: "length c = 4 \<Longrightarrow> c = [c ! 0, c ! 1, c ! 2, c ! 3]"
  by (rule nth_equalityI) (auto simp: less_Suc_eq numeral_eq_Suc)

lemma HOST_c2l_be:
  assumes "length c = 4"
  shows "HOST_c2l True c = word_of_be c" and "HOST_c2l False c = word_of_be (rev c)"
proof -
  have w: "(word_of_be [x, y, z, w] :: u32)
      = push_bit 24 (ucast x) OR push_bit 16 (ucast y) OR push_bit 8 (ucast z) OR ucast w" for x y z w
    using word_of_be_snoc [of "[]" x, where 'w = 32] word_of_be_snoc [of "[x]" y, where 'w = 32]
      word_of_be_snoc [of "[x, y]" z, where 'w = 32] word_of_be_snoc [of "[x, y, z]" w, where 'w = 32]
    by (simp add: word_of_be_Nil push_bit_or push_bit_push_bit or.assoc)
  show "HOST_c2l True c = word_of_be c"
    by (subst (2) list4 [OF assms]) (simp add: HOST_c2l_def w)
  show "HOST_c2l False c = word_of_be (rev c)"
    by (subst (2) list4 [OF assms]) (simp add: HOST_c2l_def w or.commute or.left_commute)
qed

section \<open>A hash taken in pieces\<close>

text \<open>
  The contract of a message digest: \<open>holds s msg\<close> says that the state \<open>s\<close> has taken in
  \<open>msg\<close>.  An update takes an input \<open>d\<close> whose bytes are \<open>input d\<close>.  A client sees no
  difference between one update and many.
\<close>

locale stream_hash =
  fixes init :: 's
    and update :: "'s \<Rightarrow> 'i \<Rightarrow> 's"
    and finish :: "'s \<Rightarrow> bytes option"
    and input :: "'i \<Rightarrow> bytes"
    and hash :: "bytes \<Rightarrow> bytes"
    and holds :: "'s \<Rightarrow> bytes \<Rightarrow> bool"
  assumes holds_init: "holds init []"
    and holds_update: "holds s xs \<Longrightarrow> holds (update s d) (xs @ input d)"
    and finish_holds: "holds s xs \<Longrightarrow> finish s = Some (hash xs)"
begin

lemma holds_fold: "holds s xs \<Longrightarrow> holds (fold (\<lambda>d s. update s d) ds s) (xs @ concat (map input ds))"
proof (induction ds arbitrary: s xs)
  case (Cons d ds)
  then show ?case using Cons.IH [OF holds_update [OF Cons.prems, of d]] by simp
qed simp

lemma stream: "finish (fold (\<lambda>d s. update s d) ds init) = Some (hash (concat (map input ds)))"
  using finish_holds [OF holds_fold [OF holds_init, of ds]] by simp

lemma one_shot: "finish (update init d) = Some (hash (input d))"
  using stream [of "[d]"] by simp

end

end
