(* ===== verification/Fips180.thy ===== *)
theory Fips180
  imports Md32
begin

unbundle bit_operations_syntax

text \<open>
  What FIPS 180-4 says of the SHA-2 functions, independently of the code: the functions Ch and
  Maj, and the constants of the rounds and the initial hash values as the first bits of the
  fractions of square and cube roots of the first primes.  The roots are computed bit by bit;
  \<open>root_frac_eq\<close> shows that a table holds them by checking two powers for each entry.
\<close>

section \<open>Functions\<close>

definition fips_Ch :: "'a::len word \<Rightarrow> 'a word \<Rightarrow> 'a word \<Rightarrow> 'a word" where
  "fips_Ch x y z = (x AND y) XOR (NOT x AND z)"

definition fips_Maj :: "'a::len word \<Rightarrow> 'a word \<Rightarrow> 'a word \<Rightarrow> 'a word" where
  "fips_Maj x y z = (x AND y) XOR (x AND z) XOR (y AND z)"

text \<open>Bit by bit, \<open>x\<close> chooses between \<open>y\<close> and \<open>z\<close>, and two of three win.\<close>

lemma bit_fips_Ch: "n < LENGTH('a) \<Longrightarrow> bit (fips_Ch x y (z :: 'a::len word)) n = (if bit x n then bit y n else bit z n)"
  by (auto simp: fips_Ch_def bit_simps)

lemma bit_fips_Maj: "bit (fips_Maj x y z) n \<longleftrightarrow>
    2 \<le> of_bool (bit x n) + of_bool (bit y n) + (of_bool (bit z n) :: nat)"
  by (auto simp: fips_Maj_def bit_simps)

section \<open>Roots of primes\<close>

text \<open>The primes below \<open>n\<close>, for \<open>n\<close> up to \<open>23 ^ 2\<close>: a number there that is not prime has a divisor below 23.\<close>

definition primes_below :: "nat \<Rightarrow> nat list" where
  "primes_below n = filter (\<lambda>p. list_all (\<lambda>d. p = d \<or> p mod d \<noteq> 0) [2, 3, 5, 7, 11, 13, 17, 19]) [2 ..< n]"

text \<open>The largest number of \<open>b\<close> bits whose \<open>k\<close>-th power is at most \<open>n\<close>.\<close>

definition iroot :: "nat \<Rightarrow> nat \<Rightarrow> nat \<Rightarrow> nat" where
  "iroot k b n = fold (\<lambda>i r. if (r + 2 ^ i) ^ k \<le> n then r + 2 ^ i else r) (rev [0 ..< b]) 0"

text \<open>The first \<open>w\<close> bits of the fraction of the \<open>k\<close>-th root of \<open>p\<close>.\<close>

definition root_frac :: "nat \<Rightarrow> nat \<Rightarrow> nat \<Rightarrow> nat" where
  "root_frac k w p = iroot k (w + 5) (p * 2 ^ (k * w)) mod 2 ^ w"

lemma iroot_step:
  fixes r :: nat
  assumes r: "r ^ k \<le> n" "n < (r + 1) ^ k"
  shows "(if (r div 2 ^ Suc i * 2 ^ Suc i + 2 ^ i) ^ k \<le> n then r div 2 ^ Suc i * 2 ^ Suc i + 2 ^ i
          else r div 2 ^ Suc i * 2 ^ Suc i) = r div 2 ^ i * 2 ^ i"
proof -
  define q where "q = r div 2 ^ i"
  have d: "r div 2 ^ Suc i = q div 2" by (simp add: q_def div_mult2_eq [symmetric] mult.commute)
  have "r = q * 2 ^ i + r mod 2 ^ i" "r mod 2 ^ i < 2 ^ i"
    using div_mult_mod_eq [of r "2 ^ i", symmetric] unfolding q_def by simp_all
  then have bounds: "q * 2 ^ i \<le> r" "r < (q + 1) * 2 ^ i" unfolding add_mult_distrib mult_1 by linarith+
  show ?thesis
  proof (cases "even q")
    case True
    then have e: "q div 2 * 2 ^ Suc i = q * 2 ^ i" by auto
    have "\<not> (q * 2 ^ i + 2 ^ i) ^ k \<le> n"
    proof -
      have "r + 1 \<le> q * 2 ^ i + 2 ^ i" using bounds(2) by simp
      then have "(r + 1) ^ k \<le> (q * 2 ^ i + 2 ^ i) ^ k" by (rule power_mono) simp
      then show ?thesis using r(2) by linarith
    qed
    then show ?thesis unfolding d e q_def [symmetric] by simp
  next
    case False
    then have e: "q div 2 * 2 ^ Suc i + 2 ^ i = q * 2 ^ i"
      by (auto elim!: oddE simp: algebra_simps)
    have "(q * 2 ^ i) ^ k \<le> r ^ k" by (rule power_mono [OF bounds(1)]) simp
    then show ?thesis using r(1) unfolding d e by (simp add: q_def)
  qed
qed

lemma iroot_unique:
  assumes "r ^ k \<le> n" "n < (r + 1) ^ k" "r < 2 ^ b"
  shows "iroot k b n = r"
proof -
  have "fold (\<lambda>i r. if (r + 2 ^ i) ^ k \<le> n then r + 2 ^ i else r) (rev [j ..< j + m]) (r div 2 ^ (j + m) * 2 ^ (j + m))
      = r div 2 ^ j * 2 ^ j" for j m
  proof (induction m)
    case (Suc m)
    have u: "rev [j ..< Suc (j + m)] = (j + m) # rev [j ..< j + m]" by simp
    show ?case
      unfolding add_Suc_right u fold_simps iroot_step [OF assms(1,2), of "j + m"] by (rule Suc)
  qed simp
  from this [of 0 b] show ?thesis using assms(3) by (simp add: iroot_def)
qed

text \<open>\<open>c\<close> is the fraction of a root whose integer part is \<open>a\<close>.\<close>

definition is_frac :: "nat \<Rightarrow> nat \<Rightarrow> nat \<Rightarrow> nat \<Rightarrow> nat \<Rightarrow> bool" where
  "is_frac k w p a c \<longleftrightarrow>
     c < 2 ^ w \<and> a < 32 \<and> (a * 2 ^ w + c) ^ k \<le> p * 2 ^ (k * w) \<and> p * 2 ^ (k * w) < (a * 2 ^ w + c + 1) ^ k"

lemma root_frac_eq: "is_frac k w p a c \<Longrightarrow> root_frac k w p = c"
proof -
  assume f: "is_frac k w p a c"
  have "a * 2 ^ w + c < (a + 1) * 2 ^ w" using f by (simp add: is_frac_def)
  also have "\<dots> \<le> 32 * 2 ^ w" by (rule mult_le_mono1) (use f in \<open>simp add: is_frac_def\<close>)
  finally have "iroot k (w + 5) (p * 2 ^ (k * w)) = a * 2 ^ w + c"
    by (intro iroot_unique) (use f in \<open>simp_all add: is_frac_def power_add mult.commute\<close>)
  then show ?thesis using f by (simp add: root_frac_def is_frac_def)
qed

lemma map_root_frac: "list_all2 (\<lambda>p (a, c). is_frac k w p a c) ps acs \<Longrightarrow> map (root_frac k w) ps = map snd acs"
  by (induction rule: list_all2_induct) (auto simp: root_frac_eq)

lemma primes_410: "primes_below 410 =
    [2, 3, 5, 7, 11, 13, 17, 19, 23, 29, 31, 37, 41, 43, 47, 53,
     59, 61, 67, 71, 73, 79, 83, 89, 97, 101, 103, 107, 109, 113, 127, 131,
     137, 139, 149, 151, 157, 163, 167, 173, 179, 181, 191, 193, 197, 199, 211, 223,
     227, 229, 233, 239, 241, 251, 257, 263, 269, 271, 277, 281, 283, 293, 307, 311,
     313, 317, 331, 337, 347, 349, 353, 359, 367, 373, 379, 383, 389, 397, 401, 409]"
  by (simp add: primes_below_def upt_rec)

text \<open>The constants of the rounds and the initial values.\<close>

definition fips_K256 :: "u32 list" where
  "fips_K256 = map (\<lambda>p. word_of_nat (root_frac 3 32 p)) (take 64 (primes_below 410))"

definition fips_K512 :: "u64 list" where
  "fips_K512 = map (\<lambda>p. word_of_nat (root_frac 3 64 p)) (primes_below 410)"

definition fips_H256 :: "u32 list" where
  "fips_H256 = map (\<lambda>p. word_of_nat (root_frac 2 32 p)) (take 8 (primes_below 410))"

definition fips_H512 :: "u64 list" where
  "fips_H512 = map (\<lambda>p. word_of_nat (root_frac 2 64 p)) (take 8 (primes_below 410))"

definition fips_H384 :: "u64 list" where
  "fips_H384 = map (\<lambda>p. word_of_nat (root_frac 2 64 p)) (take 8 (drop 8 (primes_below 410)))"

text \<open>SHA-224 starts from the second 32 bits of the fractions of the ninth to the sixteenth prime.\<close>

definition fips_H224 :: "u32 list" where
  "fips_H224 = map (\<lambda>p. word_of_nat (root_frac 2 64 p mod 2 ^ 32)) (take 8 (drop 8 (primes_below 410)))"

text \<open>Their values.\<close>

lemma sqrt_fractions_64:
  "map (root_frac 2 64) (take 16 (primes_below 410)) = map snd [(1 :: nat, 0x6a09e667f3bcc908),
     (1, 0xbb67ae8584caa73b),
     (2, 0x3c6ef372fe94f82b),
     (2, 0xa54ff53a5f1d36f1),
     (3, 0x510e527fade682d1),
     (3, 0x9b05688c2b3e6c1f),
     (4, 0x1f83d9abfb41bd6b),
     (4, 0x5be0cd19137e2179),
     (4, 0xcbbb9d5dc1059ed8),
     (5, 0x629a292a367cd507),
     (5, 0x9159015a3070dd17),
     (6, 0x152fecd8f70e5939),
     (6, 0x67332667ffc00b31),
     (6, 0x8eb44a8768581511),
     (6, 0xdb0c2e0d64f98fa7),
     (7, 0x47b5481dbefa4fa4)]"
  unfolding primes_410 by (intro map_root_frac) (simp add: is_frac_def)

lemma sqrt_fractions_32:
  "map (root_frac 2 32) (take 8 (primes_below 410)) = map snd [(1 :: nat, 0x6a09e667), (1, 0xbb67ae85), (2, 0x3c6ef372), (2, 0xa54ff53a), (3, 0x510e527f), (3, 0x9b05688c), (4, 0x1f83d9ab), (4, 0x5be0cd19)]"
  unfolding primes_410 by (intro map_root_frac) (simp add: is_frac_def)

lemma fips_H512_eq: "fips_H512 =
    [0x6a09e667f3bcc908, 0xbb67ae8584caa73b, 0x3c6ef372fe94f82b, 0xa54ff53a5f1d36f1, 0x510e527fade682d1, 0x9b05688c2b3e6c1f, 0x1f83d9abfb41bd6b, 0x5be0cd19137e2179]"
  using sqrt_fractions_64 unfolding fips_H512_def primes_410 by simp

lemma fips_H384_eq: "fips_H384 =
    [0xcbbb9d5dc1059ed8, 0x629a292a367cd507, 0x9159015a3070dd17, 0x152fecd8f70e5939, 0x67332667ffc00b31, 0x8eb44a8768581511, 0xdb0c2e0d64f98fa7, 0x47b5481dbefa4fa4]"
  using sqrt_fractions_64 unfolding fips_H384_def primes_410 by simp

lemma fips_H256_eq: "fips_H256 =
    [0x6a09e667, 0xbb67ae85, 0x3c6ef372, 0xa54ff53a, 0x510e527f, 0x9b05688c, 0x1f83d9ab, 0x5be0cd19]"
  using sqrt_fractions_32 unfolding fips_H256_def primes_410 by simp

lemma fips_H224_eq: "fips_H224 =
    [0xc1059ed8, 0x367cd507, 0x3070dd17, 0xf70e5939, 0xffc00b31, 0x68581511, 0x64f98fa7, 0xbefa4fa4]"
  using sqrt_fractions_64 unfolding fips_H224_def primes_410 by simp

end
