(* ===== verification/Sha2.thy ===== *)
theory Sha2
  imports Md32 Fips180
begin

unbundle bit_operations_syntax

text \<open>
  What \<^verbatim>\<open>crypto/sha/sha256.c\<close> and \<^verbatim>\<open>crypto/sha/sha512.c\<close> have in common: the two
  files differ in the width of a word, the four sigma functions, the table of constants and the
  number of rounds, which here are the record \<open>sha2\<close>.

  The code renames its eight registers from one round to the next instead of moving them, and
  keeps the message schedule in a window of sixteen words.  The reference is the compression
  function as FIPS 180-4 writes it, with a full schedule and registers that move; the lemmas
  show that the code computes it.
\<close>

section \<open>Rotations\<close>

(* src: crypto/digest/md32_common.h@153-155 ROTATE *)
definition md32_ROTATE :: "'a::len word \<Rightarrow> nat \<Rightarrow> 'a word" where
  "md32_ROTATE a n = push_bit n a OR drop_bit (LENGTH('a) - n) a"

lemma md32_ROTATE_rotr:
  fixes a :: "'a::len word"
  assumes "0 < n" "n < LENGTH('a)"
  shows "md32_ROTATE a n = word_rotr (LENGTH('a) - n) a"
proof (rule bit_word_eqI)
  fix i assume i: "i < LENGTH('a)"
  show "bit (md32_ROTATE a n) i = bit (word_rotr (LENGTH('a) - n) a) i"
  proof (cases "n \<le> i")
    case True
    have "(i + (LENGTH('a) - n)) mod LENGTH('a) = (LENGTH('a) + (i - n)) mod LENGTH('a)"
      using True assms by (intro arg_cong [where f = "\<lambda>x. x mod _"]) simp
    then have "(i + (LENGTH('a) - n)) mod LENGTH('a) = i - n" using i by simp
    moreover have "\<not> bit a (LENGTH('a) - n + i)"
      using True assms by (intro notI) (auto dest: bit_imp_le_length)
    ultimately show ?thesis using i True
      by (auto simp: md32_ROTATE_def bit_simps)
  next
    case False
    then have "i + (LENGTH('a) - n) < LENGTH('a)" using assms by simp
    then have "(i + (LENGTH('a) - n)) mod LENGTH('a) = i + (LENGTH('a) - n)" by simp
    then show ?thesis using i False
      by (auto simp: md32_ROTATE_def bit_simps add.commute)
  qed
qed

section \<open>Rounds\<close>

record 'w sha2 =
  Sigma0 :: "'w \<Rightarrow> 'w"
  Sigma1 :: "'w \<Rightarrow> 'w"
  sigma0 :: "'w \<Rightarrow> 'w"
  sigma1 :: "'w \<Rightarrow> 'w"
  Ktab :: "'w list"

type_synonym 'w regs = "'w \<times> 'w \<times> 'w \<times> 'w \<times> 'w \<times> 'w \<times> 'w \<times> 'w"

(* src: crypto/sha/sha256.c@211 Ch *)
definition Ch :: "'a::len word \<Rightarrow> 'a word \<Rightarrow> 'a word \<Rightarrow> 'a word" where
  "Ch x y z = (x AND y) XOR (NOT x AND z)"

(* src: crypto/sha/sha256.c@212 Maj *)
definition Maj :: "'a::len word \<Rightarrow> 'a word \<Rightarrow> 'a word \<Rightarrow> 'a word" where
  "Maj x y z = (x AND y) XOR (x AND z) XOR (y AND z)"

text \<open>
  A round assigns \<open>d\<close> and \<open>h\<close>: it returns these two.
\<close>

(* src: crypto/sha/sha256.c@214-220 ROUND_00_15 *)
definition ROUND_00_15 ::
  "'a::len word sha2 \<Rightarrow> nat \<Rightarrow> 'a word \<Rightarrow> 'a word \<Rightarrow> 'a word \<Rightarrow> 'a word \<Rightarrow> 'a word \<Rightarrow> 'a word
     \<Rightarrow> 'a word \<Rightarrow> 'a word \<Rightarrow> 'a word \<Rightarrow> 'a word \<times> 'a word" where
  "ROUND_00_15 p i T1 a b c d e f g h =
     (let T1 = T1 + (h + Sigma1 p e + Ch e f g + Ktab p ! i);
          h = Sigma0 p a + Maj a b c;
          d = d + T1;
          h = h + T1
      in (d, h))"

(* src: crypto/sha/sha256.c@222-230 ROUND_16_63 *)
definition ROUND_16_63 ::
  "'a::len word sha2 \<Rightarrow> nat \<Rightarrow> 'a word \<Rightarrow> 'a word \<Rightarrow> 'a word \<Rightarrow> 'a word \<Rightarrow> 'a word
     \<Rightarrow> 'a word \<Rightarrow> 'a word \<Rightarrow> 'a word \<Rightarrow> 'a word list \<Rightarrow> 'a word \<times> 'a word \<times> 'a word list" where
  "ROUND_16_63 p i a b c d e f g h X =
     (let s0 = sigma0 p (X ! ((i + 1) mod 16));
          s1 = sigma1 p (X ! ((i + 14) mod 16));
          X = X[i mod 16 := X ! (i mod 16) + (s0 + s1 + X ! ((i + 9) mod 16))];
          T1 = X ! (i mod 16);
          (d, h) = ROUND_00_15 p i T1 a b c d e f g h
      in (d, h, X))"

text \<open>A round that takes the word of the window its number names.\<close>

definition ROUND_load ::
  "'a::len word sha2 \<Rightarrow> nat \<Rightarrow> 'a word \<Rightarrow> 'a word \<Rightarrow> 'a word \<Rightarrow> 'a word \<Rightarrow> 'a word
     \<Rightarrow> 'a word \<Rightarrow> 'a word \<Rightarrow> 'a word \<Rightarrow> 'a word list \<Rightarrow> 'a word \<times> 'a word \<times> 'a word list" where
  "ROUND_load p i a b c d e f g h X =
     (let (d, h) = ROUND_00_15 p i (X ! i) a b c d e f g h in (d, h, X))"

text \<open>Eight rounds, after which every register has its own name again.\<close>

(* src: crypto/sha/sha256.c@344-351 sha256_block_data_order *)
definition rounds8 ::
  "(nat \<Rightarrow> 'a word \<Rightarrow> 'a word \<Rightarrow> 'a word \<Rightarrow> 'a word \<Rightarrow> 'a word \<Rightarrow> 'a word \<Rightarrow> 'a word \<Rightarrow> 'a word
       \<Rightarrow> 'a word list \<Rightarrow> 'a word \<times> 'a word \<times> 'a word list)
     \<Rightarrow> nat \<Rightarrow> 'a::len word regs \<times> 'a word list \<Rightarrow> 'a word regs \<times> 'a word list" where
  "rounds8 rnd i st =
     (let ((a, b, c, d, e, f, g, h), X) = st;
          (d, h, X) = rnd (i + 0) a b c d e f g h X;
          (c, g, X) = rnd (i + 1) h a b c d e f g X;
          (b, f, X) = rnd (i + 2) g h a b c d e f X;
          (a, e, X) = rnd (i + 3) f g h a b c d e X;
          (h, d, X) = rnd (i + 4) e f g h a b c d X;
          (g, c, X) = rnd (i + 5) d e f g h a b c X;
          (f, b, X) = rnd (i + 6) c d e f g h a b X;
          (e, a, X) = rnd (i + 7) b c d e f g h a X
      in ((a, b, c, d, e, f, g, h), X))"

section \<open>The compression function of the standard\<close>

function sha2_W :: "'a::len word sha2 \<Rightarrow> 'a word list \<Rightarrow> nat \<Rightarrow> 'a word" where
  "sha2_W p M t =
     (if t < 16 then M ! t
      else sigma1 p (sha2_W p M (t - 2)) + sha2_W p M (t - 7)
         + sigma0 p (sha2_W p M (t - 15)) + sha2_W p M (t - 16))"
  by pat_completeness auto
termination by (relation "measure (\<lambda>(p, M, t). t)") auto

declare sha2_W.simps [simp del]

definition sha2_step :: "'a::len word sha2 \<Rightarrow> 'a word list \<Rightarrow> nat \<Rightarrow> 'a word regs \<Rightarrow> 'a word regs" where
  "sha2_step p M t st =
     (let (a, b, c, d, e, f, g, h) = st;
          T1 = h + Sigma1 p e + fips_Ch e f g + Ktab p ! t + sha2_W p M t;
          T2 = Sigma0 p a + fips_Maj a b c
      in (T1 + T2, a, b, c, d + T1, e, f, g))"

definition regs_add :: "'a::len word regs \<Rightarrow> 'a word regs \<Rightarrow> 'a word regs" where
  "regs_add u v =
     (let (a, b, c, d, e, f, g, h) = u; (a', b', c', d', e', f', g', h') = v
      in (a + a', b + b', c + c', d + d', e + e', f + f', g + g', h + h'))"

definition sha2_compress :: "'a::len word sha2 \<Rightarrow> nat \<Rightarrow> 'a word regs \<Rightarrow> 'a word list \<Rightarrow> 'a word regs" where
  "sha2_compress p rounds st M = regs_add st (fold (sha2_step p M) [0 ..< rounds] st)"

section \<open>Renaming registers is moving them\<close>

definition moved ::
  "(nat \<Rightarrow> 'a word \<Rightarrow> 'a word \<Rightarrow> 'a word \<Rightarrow> 'a word \<Rightarrow> 'a word \<Rightarrow> 'a word \<Rightarrow> 'a word \<Rightarrow> 'a word
       \<Rightarrow> 'a word list \<Rightarrow> 'a word \<times> 'a word \<times> 'a word list)
     \<Rightarrow> nat \<Rightarrow> 'a::len word regs \<times> 'a word list \<Rightarrow> 'a word regs \<times> 'a word list" where
  "moved rnd i st =
     (let ((a, b, c, d, e, f, g, h), X) = st; (d, h, X) = rnd i a b c d e f g h X
      in ((h, a, b, c, d, e, f, g), X))"

lemma upt8: "[i ..< i + 8] = [i, i + 1, i + 2, i + 3, i + 4, i + 5, i + 6, i + 7]" for i :: nat
  by (simp add: upt_rec)

lemma rounds8_moved: "rounds8 rnd i st = fold (moved rnd) [i ..< i + 8] st"
  unfolding upt8
  by (simp add: rounds8_def moved_def Let_def split: prod.split)

text \<open>
  The window: after the rounds below \<open>t\<close> it holds the last sixteen words of the schedule.
\<close>

definition window :: "(nat \<Rightarrow> 'w) \<Rightarrow> nat \<Rightarrow> 'w list \<Rightarrow> bool" where
  "window W t X \<longleftrightarrow> length X = 16 \<and> (\<forall>j. t - 16 \<le> j \<and> j < t \<longrightarrow> X ! (j mod 16) = W j)"

lemma window_16: "length M = 16 \<Longrightarrow> (\<And>t. t < 16 \<Longrightarrow> W t = M ! t) \<Longrightarrow> window W 16 M"
  by (simp add: window_def)

lemma window_look:
  assumes "window W t X" "16 \<le> t" "k < 16"
  shows "X ! ((t + k) mod 16) = W (t + k - 16)"
proof -
  have "(t + k) mod 16 = (t + k - 16) mod 16" using assms(2) by (simp add: le_mod_geq)
  moreover have "t - 16 \<le> t + k - 16" "t + k - 16 < t" using assms(2,3) by arith+
  then have "X ! ((t + k - 16) mod 16) = W (t + k - 16)"
    using assms(1) by (simp only: window_def)
  ultimately show ?thesis by simp
qed

lemma window_update:
  assumes "window W t X" "16 \<le> t"
  shows "window W (Suc t) (X[t mod 16 := W t])"
  unfolding window_def
proof (intro conjI allI impI)
  show "length (X[t mod 16 := W t]) = 16" using assms(1) by (simp add: window_def)
  fix j assume j: "Suc t - 16 \<le> j \<and> j < Suc t"
  show "X[t mod 16 := W t] ! (j mod 16) = W j"
  proof (cases "j = t")
    case True
    then show ?thesis using assms(1) by (simp add: window_def)
  next
    case False
    have "j mod 16 \<noteq> t mod 16"
    proof
      assume "j mod 16 = t mod 16"
      then have "16 dvd t - j" using j by (simp flip: mod_eq_dvd_iff_nat)
      then show False using j False by (auto dest: dvd_imp_le)
    qed
    moreover have "t - 16 \<le> j" "j < t" using j False by auto
    ultimately show ?thesis using assms(1) by (simp add: window_def)
  qed
qed

lemma sha2_window:
  assumes "window (sha2_W p M) t X" "16 \<le> t"
  shows "X ! (t mod 16) + (sigma0 p (X ! ((t + 1) mod 16)) + sigma1 p (X ! ((t + 14) mod 16))
           + X ! ((t + 9) mod 16)) = sha2_W p M t"
  using window_look [OF assms, of 0] window_look [OF assms, of 1] window_look [OF assms, of 14]
    window_look [OF assms, of 9] assms(2)
  by (subst sha2_W.simps) (simp add: ac_simps numeral_2_eq_2)

lemma Ch_fips: "Ch = fips_Ch"
  by (intro ext) (simp add: Ch_def fips_Ch_def)

lemma Maj_fips: "Maj = fips_Maj"
  by (intro ext) (simp add: Maj_def fips_Maj_def)

lemma ROUND_step:
  assumes "w = sha2_W p M t"
  shows "(let (d', h') = ROUND_00_15 p t w a b c d e f g h in (h', a, b, c, d', e, f, g))
    = sha2_step p M t (a, b, c, d, e, f, g, h)"
  by (simp add: ROUND_00_15_def sha2_step_def Let_def assms Ch_fips Maj_fips ac_simps)

lemma moved_load:
  assumes "length M = 16" "t < 16"
  shows "moved (ROUND_load p) t (st, M) = (sha2_step p M t st, M)"
proof -
  obtain a b c d e f g h where st: "st = (a, b, c, d, e, f, g, h)" by (metis surj_pair)
  have "M ! t = sha2_W p M t" using assms by (simp add: sha2_W.simps)
  from ROUND_step [OF this, of a b c d e f g h] show ?thesis
    by (simp add: moved_def ROUND_load_def st Let_def split: prod.splits)
qed

lemma moved_window:
  assumes "window (sha2_W p M) t X" "16 \<le> t"
  shows "\<exists>X'. moved (ROUND_16_63 p) t (st, X) = (sha2_step p M t st, X') \<and> window (sha2_W p M) (Suc t) X'"
proof -
  obtain a b c d e f g h where st: "st = (a, b, c, d, e, f, g, h)" by (metis surj_pair)
  have l: "t mod 16 < length X" using assms(1) by (simp add: window_def)
  have "moved (ROUND_16_63 p) t (st, X) = (sha2_step p M t st, X[t mod 16 := sha2_W p M t])"
    using ROUND_step [OF refl, of p t M a b c d e f g h] l
    by (simp add: moved_def ROUND_16_63_def st Let_def sha2_window [OF assms, simplified] split: prod.splits)
  then show ?thesis using window_update [OF assms] by blast
qed

lemma fold_load:
  assumes "length M = 16" "n \<le> 16"
  shows "fold (moved (ROUND_load p)) [0 ..< n] (st, M) = (fold (sha2_step p M) [0 ..< n] st, M)"
  using assms(2) by (induction n) (simp_all add: moved_load assms(1))

lemma fold_window:
  assumes "window (sha2_W p M) 16 X"
  shows "\<exists>X'. fold (moved (ROUND_16_63 p)) [16 ..< 16 + n] (st, X)
           = (fold (sha2_step p M) [16 ..< 16 + n] st, X') \<and> window (sha2_W p M) (16 + n) X'"
proof (induction n)
  case 0
  then show ?case using assms by simp
next
  case (Suc n)
  then obtain X' where X: "fold (moved (ROUND_16_63 p)) [16 ..< 16 + n] (st, X)
      = (fold (sha2_step p M) [16 ..< 16 + n] st, X')" "window (sha2_W p M) (16 + n) X'" by blast
  have u: "[16 ..< 16 + Suc n] = [16 ..< 16 + n] @ [16 + n]"
    by (simp only: add_Suc_right upt_Suc_append le_add1)
  show ?case using moved_window [OF X(2), of "fold (sha2_step p M) [16 ..< 16 + n] st"] X(1)
    unfolding u fold_append by auto
qed

lemma sha2_W_16: "t < 16 \<Longrightarrow> sha2_W p M t = M ! t"
  by (simp add: sha2_W.simps)

lemma block_rounds:
  assumes "length M = 16"
  shows "fst (fold (moved (ROUND_16_63 p)) [16 ..< 16 + n]
            (fold (moved (ROUND_load p)) [0 ..< 16] (st, M)))
    = fold (sha2_step p M) [0 ..< 16 + n] st"
proof -
  have u: "[0 ..< 16 + n] = [0 ..< 16] @ [16 ..< 16 + n]" by (rule upt_add_eq_append) simp
  show ?thesis
    using fold_window [of p M M n "fold (sha2_step p M) [0 ..< 16] st", OF window_16 [OF assms sha2_W_16]]
    unfolding u fold_append comp_def fold_load [OF assms order_refl] by auto
qed

end
