(* ===== verification/Sha256.thy ===== *)
theory Sha256
  imports Sha2
begin

unbundle bit_operations_syntax

text \<open>
  SHA-256 and SHA-224 (\<^verbatim>\<open>crypto/sha/sha256.c\<close>), portable C code on a little-endian
  machine.  The functions are those of the collector in \<open>Md32\<close> with the block function of
  this file; the lemmas show that they compute the hash of FIPS 180-4 however the message is cut.
\<close>

section \<open>The block function\<close>

(* src: crypto/sha/sha256.c@188-201 K256 *)
definition K256 :: "u32 list" where
  "K256 = [
     0x428a2f98, 0x71374491, 0xb5c0fbcf, 0xe9b5dba5, 0x3956c25b, 0x59f111f1,
     0x923f82a4, 0xab1c5ed5, 0xd807aa98, 0x12835b01, 0x243185be, 0x550c7dc3,
     0x72be5d74, 0x80deb1fe, 0x9bdc06a7, 0xc19bf174, 0xe49b69c1, 0xefbe4786,
     0x0fc19dc6, 0x240ca1cc, 0x2de92c6f, 0x4a7484aa, 0x5cb0a9dc, 0x76f988da,
     0x983e5152, 0xa831c66d, 0xb00327c8, 0xbf597fc7, 0xc6e00bf3, 0xd5a79147,
     0x06ca6351, 0x14292967, 0x27b70a85, 0x2e1b2138, 0x4d2c6dfc, 0x53380d13,
     0x650a7354, 0x766a0abb, 0x81c2c92e, 0x92722c85, 0xa2bfe8a1, 0xa81a664b,
     0xc24b8b70, 0xc76c51a3, 0xd192e819, 0xd6990624, 0xf40e3585, 0x106aa070,
     0x19a4c116, 0x1e376c08, 0x2748774c, 0x34b0bcb5, 0x391c0cb3, 0x4ed8aa4a,
     0x5b9cca4f, 0x682e6ff3, 0x748f82ee, 0x78a5636f, 0x84c87814, 0x8cc70208,
     0x90befffa, 0xa4506ceb, 0xbef9a3f7, 0xc67178f2]"

(* src: crypto/sha/sha256.c@206-209 Sigma0, Sigma1, sigma0, sigma1 *)
definition sha256_p :: "u32 sha2" where
  "sha256_p = \<lparr>
     Sigma0 = (\<lambda>x. md32_ROTATE x 30 XOR md32_ROTATE x 19 XOR md32_ROTATE x 10),
     Sigma1 = (\<lambda>x. md32_ROTATE x 26 XOR md32_ROTATE x 21 XOR md32_ROTATE x 7),
     sigma0 = (\<lambda>x. md32_ROTATE x 25 XOR md32_ROTATE x 14 XOR drop_bit 3 x),
     sigma1 = (\<lambda>x. md32_ROTATE x 15 XOR md32_ROTATE x 13 XOR drop_bit 10 x),
     Ktab = K256\<rparr>"

text \<open>The sixteen words of a block, which the code reads one before each of the first rounds.\<close>

(* src: crypto/sha/sha256.c@293-294 sha256_block_data_order *)
definition sha256_load :: "bytes \<Rightarrow> u32 list" where
  "sha256_load data = map (\<lambda>i. HOST_c2l True (take 4 (drop (4 * i) data))) [0 ..< 16]"

text \<open>One pass of the loop over the blocks.\<close>

(* src: crypto/sha/sha256.c@242-362 sha256_block_data_order *)
definition sha256_block :: "u32 regs \<Rightarrow> bytes \<Rightarrow> u32 regs" where
  "sha256_block hh data =
     (let st = (hh, sha256_load data);
          st = rounds8 (ROUND_load sha256_p) 0 st;
          st = rounds8 (ROUND_load sha256_p) 8 st;
          st = fold (\<lambda>i. rounds8 (ROUND_16_63 sha256_p) i) [16, 24, 32, 40, 48, 56] st
      in regs_add hh (fst st))"

section \<open>Contexts\<close>

(* src: include/openssl/sha.h@159-164 sha256_state_st *)
record SHA256_CTX =
  sha256_c :: "u32 regs md32_ctx"
  md_len :: nat

abbreviation SHA224_DIGEST_LENGTH :: nat where "SHA224_DIGEST_LENGTH \<equiv> 28"
abbreviation SHA256_DIGEST_LENGTH :: nat where "SHA256_DIGEST_LENGTH \<equiv> 32"

definition regs_list :: "'w regs \<Rightarrow> 'w list" where
  "regs_list r = (let (a, b, c, d, e, f, g, h) = r in [a, b, c, d, e, f, g, h])"

(* src: crypto/sha/sha256.c@147-173 HASH_MAKE_STRING *)
definition sha256_make_string :: "nat \<Rightarrow> u32 regs \<Rightarrow> bytes option" where
  "sha256_make_string len h =
     (let words = (\<lambda>n. concat (map (HOST_l2c True) (take n (regs_list h))))
      in if len = SHA224_DIGEST_LENGTH then Some (words (SHA224_DIGEST_LENGTH div 4))
         else if len = SHA256_DIGEST_LENGTH then Some (words (SHA256_DIGEST_LENGTH div 4))
         else if SHA256_DIGEST_LENGTH < len then None
         else Some (words (len div 4)))"

(* src: crypto/sha/sha256.c@175-180 SHA256_Update, SHA256_Final *)
definition sha256_md :: "nat \<Rightarrow> u32 regs md32" where
  "sha256_md len = \<lparr>md_block = sha256_block, data_order_big = True, make_string = sha256_make_string len\<rparr>"

(* src: crypto/sha/sha256.c@69-81 SHA224_Init *)
definition SHA224_Init :: SHA256_CTX where
  "SHA224_Init =
     \<lparr>sha256_c = md32_init (0xc1059ed8, 0x367cd507, 0x3070dd17, 0xf70e5939,
        0xffc00b31, 0x68581511, 0x64f98fa7, 0xbefa4fa4),
      md_len = SHA224_DIGEST_LENGTH\<rparr>"

(* src: crypto/sha/sha256.c@83-95 SHA256_Init *)
definition SHA256_Init :: SHA256_CTX where
  "SHA256_Init =
     \<lparr>sha256_c = md32_init (0x6a09e667, 0xbb67ae85, 0x3c6ef372, 0xa54ff53a,
        0x510e527f, 0x9b05688c, 0x1f83d9ab, 0x5be0cd19),
      md_len = SHA256_DIGEST_LENGTH\<rparr>"

(* src: crypto/sha/sha256.c@176 SHA256_Update *)
definition SHA256_Update :: "SHA256_CTX \<Rightarrow> bytes \<Rightarrow> SHA256_CTX" where
  "SHA256_Update c data = c\<lparr>sha256_c := HASH_UPDATE (sha256_md (md_len c)) (sha256_c c) data\<rparr>"

(* src: crypto/sha/sha256.c@178 SHA256_Final *)
definition SHA256_Final :: "SHA256_CTX \<Rightarrow> bytes option \<times> SHA256_CTX" where
  "SHA256_Final c =
     (let (out, c') = HASH_FINAL (sha256_md (md_len c)) (sha256_c c) in (out, c\<lparr>sha256_c := c'\<rparr>))"

(* src: crypto/sha/sha256.c@177 SHA256_Transform *)
definition SHA256_Transform :: "SHA256_CTX \<Rightarrow> bytes \<Rightarrow> SHA256_CTX" where
  "SHA256_Transform c data = c\<lparr>sha256_c := HASH_TRANSFORM (sha256_md (md_len c)) (sha256_c c) data\<rparr>"

(* src: crypto/sha/sha256.c@127-129 SHA224_Update *)
definition SHA224_Update :: "SHA256_CTX \<Rightarrow> bytes \<Rightarrow> SHA256_CTX" where
  "SHA224_Update = SHA256_Update"

(* src: crypto/sha/sha256.c@131-133 SHA224_Final *)
definition SHA224_Final :: "SHA256_CTX \<Rightarrow> bytes option \<times> SHA256_CTX" where
  "SHA224_Final = SHA256_Final"

(* src: crypto/sha/sha256.c@97-110 SHA224 *)
definition SHA224 :: "bytes \<Rightarrow> bytes option" where
  "SHA224 data = fst (SHA256_Final (SHA256_Update SHA224_Init data))"

(* src: crypto/sha/sha256.c@112-125 SHA256 *)
definition SHA256 :: "bytes \<Rightarrow> bytes option" where
  "SHA256 data = fst (SHA256_Final (SHA256_Update SHA256_Init data))"

section \<open>The hash of the standard\<close>

definition sha256_fips_p :: "u32 sha2" where
  "sha256_fips_p = \<lparr>
     Sigma0 = (\<lambda>x. word_rotr 2 x XOR word_rotr 13 x XOR word_rotr 22 x),
     Sigma1 = (\<lambda>x. word_rotr 6 x XOR word_rotr 11 x XOR word_rotr 25 x),
     sigma0 = (\<lambda>x. word_rotr 7 x XOR word_rotr 18 x XOR drop_bit 3 x),
     sigma1 = (\<lambda>x. word_rotr 17 x XOR word_rotr 19 x XOR drop_bit 10 x),
     Ktab = fips_K256\<rparr>"

text \<open>The words of a block, big-endian.\<close>

definition block_words :: "nat \<Rightarrow> bytes \<Rightarrow> 'w::len word list" where
  "block_words k data = map (\<lambda>i. word_of_be (take k (drop (k * i) data))) [0 ..< 16]"

definition sha256_fips :: "u32 regs \<Rightarrow> nat \<Rightarrow> bytes \<Rightarrow> bytes" where
  "sha256_fips h0 n msg =
     (let h = md_hash (\<lambda>h data. sha2_compress sha256_fips_p 64 h (block_words 4 data)) 64 8 (be_bytes 8) h0 msg
      in concat (map (\<lambda>w. be_bytes 4 (unat w)) (take n (regs_list h))))"

text \<open>The table of the code and its initial values are those of the standard.\<close>

lemma K256_fips: "K256 = fips_K256"
proof -
  let ?as = "map (\<lambda>p. if p < 8 then 1 else if p < 27 then 2 else if p < 64 then 3 else if p < 125 then 4
    else if p < 216 then 5 else if p < 343 then 6 else 7 :: nat) (take 64 (primes_below 410))"
  have "list_all2 (\<lambda>p (a, c). is_frac 3 32 p a c) (take 64 (primes_below 410)) (zip ?as (map unat K256))"
    unfolding primes_410 K256_def by (simp add: is_frac_def)
  then have "map (root_frac 3 32) (take 64 (primes_below 410)) = map snd (zip ?as (map unat K256))" by (rule map_root_frac)
  also have "\<dots> = map unat K256" by (rule map_snd_zip) (simp add: primes_410 K256_def)
  finally have "map word_of_nat (map (root_frac 3 32) (take 64 (primes_below 410))) = map word_of_nat (map unat K256)" by (rule arg_cong)
  also have "\<dots> = K256" by (simp add: map_idI)
  finally show ?thesis by (simp add: fips_K256_def comp_def)
qed

lemma sha256_p_fips: "sha256_p = sha256_fips_p"
  by (simp add: sha256_p_def sha256_fips_p_def md32_ROTATE_rotr K256_fips)

lemma sha256_load_words:
  "64 \<le> length data \<Longrightarrow> sha256_load data = block_words 4 data"
  by (simp add: sha256_load_def block_words_def HOST_c2l_be)

lemma sha256_block_fips:
  assumes "64 \<le> length data"
  shows "sha256_block h data = sha2_compress sha256_fips_p 64 h (block_words 4 data)"
proof -
  let ?M = "block_words 4 data :: u32 list"
  have l: "length ?M = 16" by (simp add: block_words_def)
  let ?r = "moved (ROUND_16_63 sha256_fips_p)"
  have r1: "rounds8 (ROUND_load p) 8 (rounds8 (ROUND_load p) 0 st) = fold (moved (ROUND_load p)) [0 ..< 16] st"
    for p :: "u32 sha2" and st
    using upt_add_eq_append [of 0 8 8] by (simp only: rounds8_moved add_0 fold_append comp_def) simp
  have "fold (\<lambda>i. rounds8 rnd i) [16, 24, 32, 40, 48, 56] st = fold (moved rnd) [16 ..< 16 + 48] st" for rnd and st :: "u32 regs \<times> u32 list"
  proof -
    have "[16 ..< 16 + 48] = [16 ..< 16 + 8] @ [24 ..< 24 + 8] @ [32 ..< 32 + 8] @ [40 ..< 40 + 8] @ [48 ..< 48 + 8] @ [56 ..< 56 + 8 :: nat]"
      by (simp add: upt_rec)
    then show ?thesis by (simp only: fold_append comp_def fold.simps rounds8_moved id_apply)
  qed
  note r2 = this
  show ?thesis
    unfolding sha256_block_def Let_def sha256_p_fips sha256_load_words [OF assms] r1 r2 sha2_compress_def
    using block_rounds [OF l, of sha256_fips_p 48 h] by simp
qed

section \<open>The functions compute the hash\<close>

definition sha256_holds :: "nat \<Rightarrow> u32 regs \<Rightarrow> SHA256_CTX \<Rightarrow> bytes \<Rightarrow> bool" where
  "sha256_holds n h0 c msg \<longleftrightarrow> md_len c = 4 * n \<and> md32_holds (sha256_md (4 * n)) h0 (sha256_c c) msg"

lemma sha256_holds_update:
  "sha256_holds n h0 c xs \<Longrightarrow> sha256_holds n h0 (SHA256_Update c ys) (xs @ ys)"
  by (simp add: sha256_holds_def SHA256_Update_def md32_holds_update)

lemma sha256_make_string_words:
  "n \<le> 8 \<Longrightarrow> sha256_make_string (4 * n) h = Some (concat (map (\<lambda>w. be_bytes 4 (unat w)) (take n (regs_list h))))"
  by (simp add: sha256_make_string_def be_bytes_4 Let_def)

lemma sha256_holds_final:
  assumes "sha256_holds n h0 c msg" "n \<le> 8"
  shows "fst (SHA256_Final c) = Some (sha256_fips h0 n msg)"
proof -
  have m: "md_len c = 4 * n" and h: "md32_holds (sha256_md (4 * n)) h0 (sha256_c c) msg"
    using assms(1) by (simp_all add: sha256_holds_def)
  have b: "md32_length True = be_bytes 8" by (rule ext) (rule be_bytes_8 [symmetric])
  have e: "md_hash sha256_block 64 8 (be_bytes 8) h0 msg
      = md_hash (\<lambda>h data. sha2_compress sha256_fips_p 64 h (block_words 4 data)) 64 8 (be_bytes 8) h0 msg"
    by (rule md_hash_cong) (simp add: sha256_block_fips)
  have "fst (SHA256_Final c) = sha256_make_string (4 * n) (md_hash sha256_block 64 8 (be_bytes 8) h0 msg)"
    using HASH_FINAL_spec [OF h] by (simp add: SHA256_Final_def m Let_def sha256_md_def b)
  then show ?thesis
    by (simp only: e sha256_make_string_words [OF assms(2)] sha256_fips_def Let_def)
qed

definition list_regs :: "'w list \<Rightarrow> 'w regs" where
  "list_regs xs = (xs ! 0, xs ! 1, xs ! 2, xs ! 3, xs ! 4, xs ! 5, xs ! 6, xs ! 7)"

definition sha256_H0 :: "u32 regs" where "sha256_H0 = list_regs fips_H256"
definition sha224_H0 :: "u32 regs" where "sha224_H0 = list_regs fips_H224"

lemma sha256_holds_init:
  "sha256_holds n h \<lparr>sha256_c = md32_init h, md_len = 4 * n\<rparr> []"
  by (simp add: sha256_holds_def md32_holds_init)

lemma SHA256_Init_eq: "SHA256_Init = \<lparr>sha256_c = md32_init sha256_H0, md_len = 4 * 8\<rparr>"
  by (simp add: sha256_H0_def SHA256_Init_def fips_H256_eq list_regs_def)

lemma SHA224_Init_eq: "SHA224_Init = \<lparr>sha256_c = md32_init sha224_H0, md_len = 4 * 7\<rparr>"
  by (simp add: sha224_H0_def SHA224_Init_def fips_H224_eq list_regs_def)

lemma sha256_H0_code: "hval (sha256_c SHA256_Init) = sha256_H0" "hval (sha256_c SHA224_Init) = sha224_H0"
  unfolding SHA256_Init_eq SHA224_Init_eq by (simp_all add: md32_init_def)

interpretation sha256: stream_hash SHA256_Init SHA256_Update "\<lambda>c. fst (SHA256_Final c)"
    id "sha256_fips sha256_H0 8" "sha256_holds 8 sha256_H0"
  by unfold_locales
    (simp_all only: SHA256_Init_eq sha256_holds_init id_apply sha256_holds_update sha256_holds_final order_refl)

interpretation sha224: stream_hash SHA224_Init SHA224_Update "\<lambda>c. fst (SHA224_Final c)"
    id "sha256_fips sha224_H0 7" "sha256_holds 7 sha224_H0"
  unfolding SHA224_Update_def SHA224_Final_def
  by unfold_locales
    (simp_all add: sha256_holds_update sha256_holds_final, simp only: SHA224_Init_eq sha256_holds_init)

text \<open>
  C8: SHA-256 and SHA-224 compute the hash of FIPS 180-4 for every message, in whatever pieces
  the message is given to the update function (empty pieces, pieces that straddle blocks, whole
  blocks), and so do the one-call functions.  The reference is independent of the code's tables:
  it has the round constants and initial values as the fractions of roots of primes, its own Ch and
  Maj, the compression function with a full message schedule and right rotations, and the padding as
  one formula.
\<close>
theorem sha256_is_fips:
  "fst (SHA256_Final (fold (\<lambda>d c. SHA256_Update c d) ds SHA256_Init)) = Some (sha256_fips sha256_H0 8 (concat ds))
   \<and> SHA256 msg = Some (sha256_fips sha256_H0 8 msg)
   \<and> fst (SHA224_Final (fold (\<lambda>d c. SHA224_Update c d) ds SHA224_Init)) = Some (sha256_fips sha224_H0 7 (concat ds))
   \<and> SHA224 msg = Some (sha256_fips sha224_H0 7 msg)"
  using sha256.stream [of ds] sha224.stream [of ds] sha256.one_shot [of msg] sha224.one_shot [of msg]
  by (simp add: SHA256_def SHA224_def SHA224_Update_def SHA224_Final_def)

text \<open>
  A context whose digest length is longer than 32 bytes makes the final function fail, and
  the context is left ready for a new message; every shorter length that is a multiple of four
  gives so many bytes.
\<close>
lemma sha256_final_length:
  "(32 < md_len c \<longrightarrow> fst (SHA256_Final c) = None)
   \<and> (md_len c \<le> 32 \<longrightarrow> map_option length (fst (SHA256_Final c)) = Some (4 * (md_len c div 4)))
   \<and> num (sha256_c (snd (SHA256_Final c))) = 0 \<and> cdata (sha256_c (snd (SHA256_Final c))) = replicate 64 0"
proof -
  have l: "length (HOST_l2c True w) = 4" for w by (simp add: HOST_l2c_def)
  have w: "length (concat (map (HOST_l2c True) ws)) = 4 * length ws" for ws
    by (induction ws) (simp_all add: l)
  have r: "length (regs_list h) = 8" for h :: "u32 regs"
    by (simp add: regs_list_def split: prod.split)
  have "length (concat (map (HOST_l2c True) (take (md_len c div 4) (regs_list h)))) = 4 * (md_len c div 4)"
    if "md_len c \<le> 32" for h using that by (simp add: w r)
  then show ?thesis
    by (auto simp: SHA256_Final_def HASH_FINAL_def sha256_md_def sha256_make_string_def Let_def w r
        split: prod.split)
qed

end
