(* ===== verification/Sha512.thy ===== *)
theory Sha512
  imports Sha256
begin

unbundle bit_operations_syntax

text \<open>
  SHA-512 and SHA-384 (\<^verbatim>\<open>crypto/sha/sha512.c\<close>), portable C code on a 64-bit machine that
  may not read words from unaligned addresses.  The file has a collector of its own, with blocks
  of 128 bytes and a 128-bit count, and takes the address of the data into account; the address
  is an argument of the update and transform functions here.
\<close>

section \<open>The block function\<close>

(* src: crypto/sha/sha512.c@311-338 K512 *)
definition K512 :: "u64 list" where
  "K512 = [
     0x428a2f98d728ae22, 0x7137449123ef65cd, 0xb5c0fbcfec4d3b2f, 0xe9b5dba58189dbbc,
     0x3956c25bf348b538, 0x59f111f1b605d019, 0x923f82a4af194f9b, 0xab1c5ed5da6d8118,
     0xd807aa98a3030242, 0x12835b0145706fbe, 0x243185be4ee4b28c, 0x550c7dc3d5ffb4e2,
     0x72be5d74f27b896f, 0x80deb1fe3b1696b1, 0x9bdc06a725c71235, 0xc19bf174cf692694,
     0xe49b69c19ef14ad2, 0xefbe4786384f25e3, 0x0fc19dc68b8cd5b5, 0x240ca1cc77ac9c65,
     0x2de92c6f592b0275, 0x4a7484aa6ea6e483, 0x5cb0a9dcbd41fbd4, 0x76f988da831153b5,
     0x983e5152ee66dfab, 0xa831c66d2db43210, 0xb00327c898fb213f, 0xbf597fc7beef0ee4,
     0xc6e00bf33da88fc2, 0xd5a79147930aa725, 0x06ca6351e003826f, 0x142929670a0e6e70,
     0x27b70a8546d22ffc, 0x2e1b21385c26c926, 0x4d2c6dfc5ac42aed, 0x53380d139d95b3df,
     0x650a73548baf63de, 0x766a0abb3c77b2a8, 0x81c2c92e47edaee6, 0x92722c851482353b,
     0xa2bfe8a14cf10364, 0xa81a664bbc423001, 0xc24b8b70d0f89791, 0xc76c51a30654be30,
     0xd192e819d6ef5218, 0xd69906245565a910, 0xf40e35855771202a, 0x106aa07032bbd1b8,
     0x19a4c116b8d2d0c8, 0x1e376c085141ab53, 0x2748774cdf8eeb99, 0x34b0bcb5e19b48a8,
     0x391c0cb3c5c95a63, 0x4ed8aa4ae3418acb, 0x5b9cca4f7763e373, 0x682e6ff3d6b2b8a3,
     0x748f82ee5defb2fc, 0x78a5636f43172f60, 0x84c87814a1f0ab72, 0x8cc702081a6439ec,
     0x90befffa23631e28, 0xa4506cebde82bde9, 0xbef9a3f7b2c67915, 0xc67178f2e372532b,
     0xca273eceea26619c, 0xd186b8c721c0c207, 0xeada7dd6cde0eb1e, 0xf57d4f7fee6ed178,
     0x06f067aa72176fba, 0x0a637dc5a2c898a6, 0x113f9804bef90dae, 0x1b710b35131c471b,
     0x28db77f523047d84, 0x32caab7b40c72493, 0x3c9ebe0a15c9bebc, 0x431d67c49c100d4c,
     0x4cc5d4becb3e42b6, 0x597f299cfc657e2a, 0x5fcb6fab3ad6faec, 0x6c44198c4a475817]"

(* src: crypto/sha/sha512.c@414 ROTR *)
definition ROTR :: "u64 \<Rightarrow> nat \<Rightarrow> u64" where
  "ROTR x s = drop_bit s x OR push_bit (64 - s) x"

(* src: crypto/sha/sha512.c@417-420 Sigma0, Sigma1, sigma0, sigma1 *)
definition sha512_p :: "u64 sha2" where
  "sha512_p = \<lparr>
     Sigma0 = (\<lambda>x. ROTR x 28 XOR ROTR x 34 XOR ROTR x 39),
     Sigma1 = (\<lambda>x. ROTR x 14 XOR ROTR x 18 XOR ROTR x 41),
     sigma0 = (\<lambda>x. ROTR x 1 XOR ROTR x 8 XOR drop_bit 7 x),
     sigma1 = (\<lambda>x. ROTR x 19 XOR ROTR x 61 XOR drop_bit 6 x),
     Ktab = K512\<rparr>"

(* src: crypto/sha/sha512.c@406-410 PULL64 *)
definition PULL64 :: "bytes \<Rightarrow> u64" where
  "PULL64 x =
     (let B = (\<lambda>j. push_bit ((7 - j) * 8) (ucast (x ! j)) :: u64)
      in B 0 OR B 1 OR B 2 OR B 3 OR B 4 OR B 5 OR B 6 OR B 7)"

text \<open>The sixteen words of a block, which the code reads one before each of the first rounds.\<close>

(* src: crypto/sha/sha512.c@523 sha512_block_data_order *)
definition sha512_load :: "bytes \<Rightarrow> u64 list" where
  "sha512_load data = map (\<lambda>i. PULL64 (take 8 (drop (8 * i) data))) [0 ..< 16]"

(* src: crypto/sha/sha512.c@495-503 ROUND_16_80 *)
definition ROUND_16_80 ::
  "'a::len word sha2 \<Rightarrow> nat \<Rightarrow> nat \<Rightarrow> 'a word \<Rightarrow> 'a word \<Rightarrow> 'a word \<Rightarrow> 'a word \<Rightarrow> 'a word
     \<Rightarrow> 'a word \<Rightarrow> 'a word \<Rightarrow> 'a word \<Rightarrow> 'a word list \<Rightarrow> 'a word \<times> 'a word \<times> 'a word list" where
  "ROUND_16_80 p i j a b c d e f g h X =
     (let s0 = sigma0 p (X ! ((j + 1) mod 16));
          s1 = sigma1 p (X ! ((j + 14) mod 16));
          X = X[j mod 16 := X ! (j mod 16) + (s0 + s1 + X ! ((j + 9) mod 16))];
          T1 = X ! (j mod 16);
          (d, h) = ROUND_00_15 p (i + j) T1 a b c d e f g h
      in (d, h, X))"

(* src: crypto/sha/sha512.c@512-585 sha512_block_data_order *)
definition sha512_block :: "u64 regs \<Rightarrow> bytes \<Rightarrow> u64 regs" where
  "sha512_block hh data =
     (let st = (hh, sha512_load data);
          st = rounds8 (ROUND_load sha512_p) 0 st;
          st = rounds8 (ROUND_load sha512_p) 8 st;
          st = fold (\<lambda>i st. rounds8 (ROUND_16_80 sha512_p i) 8 (rounds8 (ROUND_16_80 sha512_p i) 0 st))
                 [16, 32, 48, 64] st
      in regs_add hh (fst st))"

section \<open>Contexts\<close>

text \<open>The buffer is a union of sixteen words and of bytes: 128 bytes, though \<open>p\<close> is declared with 64.\<close>

(* src: include/openssl/sha.h@224-232 sha512_state_st *)
record SHA512_CTX =
  sha_h :: "u64 regs"
  sha_Nl :: u64
  sha_Nh :: u64
  sha_u :: bytes
  sha_num :: nat
  sha_md_len :: nat

abbreviation SHA384_DIGEST_LENGTH :: nat where "SHA384_DIGEST_LENGTH \<equiv> 48"
abbreviation SHA512_DIGEST_LENGTH :: nat where "SHA512_DIGEST_LENGTH \<equiv> 64"

text \<open>Initialisation leaves the buffer as it was: \<open>u\<close> is what the memory held.\<close>

(* src: crypto/sha/sha512.c@94-109 SHA384_Init *)
definition SHA384_Init :: "bytes \<Rightarrow> SHA512_CTX" where
  "SHA384_Init u =
     \<lparr>sha_h = (0xcbbb9d5dc1059ed8, 0x629a292a367cd507, 0x9159015a3070dd17, 0x152fecd8f70e5939,
        0x67332667ffc00b31, 0x8eb44a8768581511, 0xdb0c2e0d64f98fa7, 0x47b5481dbefa4fa4),
      sha_Nl = 0, sha_Nh = 0, sha_u = u, sha_num = 0, sha_md_len = SHA384_DIGEST_LENGTH\<rparr>"

(* src: crypto/sha/sha512.c@112-127 SHA512_Init *)
definition SHA512_Init :: "bytes \<Rightarrow> SHA512_CTX" where
  "SHA512_Init u =
     \<lparr>sha_h = (0x6a09e667f3bcc908, 0xbb67ae8584caa73b, 0x3c6ef372fe94f82b, 0xa54ff53a5f1d36f1,
        0x510e527fade682d1, 0x9b05688c2b3e6c1f, 0x1f83d9abfb41bd6b, 0x5be0cd19137e2179),
      sha_Nl = 0, sha_Nh = 0, sha_u = u, sha_num = 0, sha_md_len = SHA512_DIGEST_LENGTH\<rparr>"

(* src: crypto/sha/sha512.c@174-182 SHA512_Transform *)
definition SHA512_Transform :: "nat \<Rightarrow> SHA512_CTX \<Rightarrow> bytes \<Rightarrow> SHA512_CTX" where
  "SHA512_Transform addr c data =
     (let (c, data) =
        (if addr mod 8 \<noteq> 0 then
           let c = c\<lparr>sha_u := mem_write (sha_u c) 0 (take 64 data)\<rparr> in (c, sha_u c)
         else (c, data))
      in c\<lparr>sha_h := hash_blocks sha512_block 128 (sha_h c) data 1\<rparr>)"

(* src: crypto/sha/sha512.c@192-199 SHA512_Update *)
definition sha512_count :: "nat \<Rightarrow> SHA512_CTX \<Rightarrow> SHA512_CTX" where
  "sha512_count len c =
     (let l = sha_Nl c + push_bit 3 (word_of_nat len);
          nh = (if l < sha_Nl c then sha_Nh c + 1 else sha_Nh c)
      in c\<lparr>sha_Nh := nh + word_of_nat (len div 2 ^ 61), sha_Nl := l\<rparr>)"

text \<open>Whole blocks at an unaligned address go through the buffer one by one.\<close>

(* src: crypto/sha/sha512.c@219-221 SHA512_Update *)
function sha512_copy_blocks :: "SHA512_CTX \<Rightarrow> bytes \<Rightarrow> SHA512_CTX \<times> bytes" where
  "sha512_copy_blocks c data =
     (if 128 \<le> length data then
        let c = c\<lparr>sha_u := mem_write (sha_u c) 0 (take 128 data)\<rparr>;
            c = c\<lparr>sha_h := sha512_block (sha_h c) (sha_u c)\<rparr>
        in sha512_copy_blocks c (drop 128 data)
      else (c, data))"
  by pat_completeness auto
termination by (relation "measure (\<lambda>(c, data). length data)") auto

declare sha512_copy_blocks.simps [simp del]

(* src: crypto/sha/sha512.c@216-233 SHA512_Update *)
definition sha512_update_rest :: "nat \<Rightarrow> SHA512_CTX \<Rightarrow> bytes \<Rightarrow> SHA512_CTX" where
  "sha512_update_rest addr c data =
     (let (c, data) =
        (if 128 \<le> length data then
           if addr mod 8 \<noteq> 0 then sha512_copy_blocks c data
           else
             let n = length data div 128
             in (c\<lparr>sha_h := hash_blocks sha512_block 128 (sha_h c) data n\<rparr>, drop (n * 128) data)
         else (c, data))
      in if data \<noteq> [] then c\<lparr>sha_u := mem_write (sha_u c) 0 data, sha_num := length data\<rparr> else c)"

(* src: crypto/sha/sha512.c@184-234 SHA512_Update *)
definition SHA512_Update :: "SHA512_CTX \<Rightarrow> nat \<times> bytes \<Rightarrow> SHA512_CTX" where
  "SHA512_Update c inp =
     (let (addr, data) = inp
      in if data = [] then c
         else
           let c = sha512_count (length data) c
           in if sha_num c \<noteq> 0 then
                let n = 128 - sha_num c
                in if length data < n then
                     c\<lparr>sha_u := mem_write (sha_u c) (sha_num c) data, sha_num := sha_num c + length data\<rparr>
                   else
                     let c = c\<lparr>sha_u := mem_write (sha_u c) (sha_num c) (take n data), sha_num := 0\<rparr>;
                         c = c\<lparr>sha_h := sha512_block (sha_h c) (sha_u c)\<rparr>
                     in sha512_update_rest (addr + n) c (drop n data)
              else sha512_update_rest addr c data)"

text \<open>Eight bytes of a word, most significant first.\<close>

(* src: crypto/sha/sha512.c@282-289 SHA512_Final *)
definition put64 :: "u64 \<Rightarrow> bytes" where
  "put64 t =
     [ucast (drop_bit 56 t), ucast (drop_bit 48 t), ucast (drop_bit 40 t), ucast (drop_bit 32 t),
      ucast (drop_bit 24 t), ucast (drop_bit 16 t), ucast (drop_bit 8 t), ucast t]"

text \<open>\<open>md_null\<close>: the caller passes no buffer.\<close>

(* src: crypto/sha/sha512.c@236-308 SHA512_Final *)
definition SHA512_Final :: "bool \<Rightarrow> SHA512_CTX \<Rightarrow> bytes option \<times> SHA512_CTX" where
  "SHA512_Final md_null c =
     (let p = mem_write (sha_u c) (sha_num c) [0x80];
          n = sha_num c + 1;
          (p, n, h) =
            (if 128 - 16 < n then
               let p = mem_write p n (replicate (128 - n) 0)
               in (p, 0, sha512_block (sha_h c) p)
             else (p, n, sha_h c));
          p = mem_write p n (replicate (128 - 16 - n) 0);
          p = mem_write p (128 - 16) (put64 (sha_Nh c) @ put64 (sha_Nl c));
          h = sha512_block h p;
          words = (\<lambda>n. concat (map put64 (take n (regs_list h))))
      in (if md_null then None
          else if sha_md_len c = SHA384_DIGEST_LENGTH then Some (words (SHA384_DIGEST_LENGTH div 8))
          else if sha_md_len c = SHA512_DIGEST_LENGTH then Some (words (SHA512_DIGEST_LENGTH div 8))
          else None,
          c\<lparr>sha_h := h, sha_u := p\<rparr>))"

(* src: crypto/sha/sha512.c@170-172 SHA384_Update *)
definition SHA384_Update :: "SHA512_CTX \<Rightarrow> nat \<times> bytes \<Rightarrow> SHA512_CTX" where
  "SHA384_Update = SHA512_Update"

(* src: crypto/sha/sha512.c@166-168 SHA384_Final *)
definition SHA384_Final :: "bool \<Rightarrow> SHA512_CTX \<Rightarrow> bytes option \<times> SHA512_CTX" where
  "SHA384_Final = SHA512_Final"

(* src: crypto/sha/sha512.c@129-143 SHA384 *)
definition SHA384 :: "bytes \<Rightarrow> nat \<times> bytes \<Rightarrow> bytes option" where
  "SHA384 u inp = fst (SHA512_Final False (SHA512_Update (SHA384_Init u) inp))"

(* src: crypto/sha/sha512.c@145-158 SHA512 *)
definition SHA512 :: "bytes \<Rightarrow> nat \<times> bytes \<Rightarrow> bytes option" where
  "SHA512 u inp = fst (SHA512_Final False (SHA512_Update (SHA512_Init u) inp))"

section \<open>The block function is that of the standard\<close>

definition sha512_fips_p :: "u64 sha2" where
  "sha512_fips_p = \<lparr>
     Sigma0 = (\<lambda>x. word_rotr 28 x XOR word_rotr 34 x XOR word_rotr 39 x),
     Sigma1 = (\<lambda>x. word_rotr 14 x XOR word_rotr 18 x XOR word_rotr 41 x),
     sigma0 = (\<lambda>x. word_rotr 1 x XOR word_rotr 8 x XOR drop_bit 7 x),
     sigma1 = (\<lambda>x. word_rotr 19 x XOR word_rotr 61 x XOR drop_bit 6 x),
     Ktab = fips_K512\<rparr>"

definition sha512_fips :: "u64 regs \<Rightarrow> nat \<Rightarrow> bytes \<Rightarrow> bytes" where
  "sha512_fips h0 n msg =
     (let h = md_hash (\<lambda>h data. sha2_compress sha512_fips_p 80 h (block_words 8 data)) 128 16 (be_bytes 16) h0 msg
      in concat (map (\<lambda>w. be_bytes 8 (unat w)) (take n (regs_list h))))"

lemma ROTR_rotr: "0 < n \<Longrightarrow> n < 64 \<Longrightarrow> ROTR x n = word_rotr n x"
  using md32_ROTATE_rotr [of "64 - n" x] by (simp add: ROTR_def md32_ROTATE_def or.commute)

lemma K512_fips: "K512 = fips_K512"
proof -
  let ?as = "map (\<lambda>p. if p < 8 then 1 else if p < 27 then 2 else if p < 64 then 3 else if p < 125 then 4
    else if p < 216 then 5 else if p < 343 then 6 else 7 :: nat) (primes_below 410)"
  have "list_all2 (\<lambda>p (a, c). is_frac 3 64 p a c) (primes_below 410) (zip ?as (map unat K512))"
    unfolding primes_410 K512_def by (simp add: is_frac_def)
  then have "map (root_frac 3 64) (primes_below 410) = map snd (zip ?as (map unat K512))" by (rule map_root_frac)
  also have "\<dots> = map unat K512" by (rule map_snd_zip) (simp add: primes_410 K512_def)
  finally have "map word_of_nat (map (root_frac 3 64) (primes_below 410)) = map word_of_nat (map unat K512)" by (rule arg_cong)
  also have "\<dots> = K512" by (simp add: map_idI)
  finally show ?thesis by (simp add: fips_K512_def comp_def)
qed

lemma sha512_p_fips: "sha512_p = sha512_fips_p"
  by (simp add: sha512_p_def sha512_fips_p_def ROTR_rotr K512_fips)

lemma list8: "length c = 8 \<Longrightarrow> c = [c ! 0, c ! 1, c ! 2, c ! 3, c ! 4, c ! 5, c ! 6, c ! 7]"
  by (rule nth_equalityI) (auto simp: less_Suc_eq numeral_eq_Suc)

lemma PULL64_be:
  assumes "length c = 8"
  shows "PULL64 c = word_of_be c"
proof -
  have w: "(word_of_be [a, b, c, d, e, f, g, h] :: u64) = PULL64 [a, b, c, d, e, f, g, h]" for a b c d e f g h
    using word_of_be_snoc [of "[]" a, where 'w = 64] word_of_be_snoc [of "[a]" b, where 'w = 64]
      word_of_be_snoc [of "[a, b]" c, where 'w = 64] word_of_be_snoc [of "[a, b, c]" d, where 'w = 64]
      word_of_be_snoc [of "[a, b, c, d]" e, where 'w = 64] word_of_be_snoc [of "[a, b, c, d, e]" f, where 'w = 64]
      word_of_be_snoc [of "[a, b, c, d, e, f]" g, where 'w = 64] word_of_be_snoc [of "[a, b, c, d, e, f, g]" h, where 'w = 64]
    by (simp add: PULL64_def word_of_be_Nil push_bit_or push_bit_push_bit or.assoc)
  show ?thesis by (subst (1 2) list8 [OF assms]) (rule w [symmetric])
qed

lemma sha512_load_words: "128 \<le> length data \<Longrightarrow> sha512_load data = block_words 8 data"
  by (simp add: sha512_load_def block_words_def PULL64_be)

lemma ROUND_16_80_63: "16 dvd i \<Longrightarrow> ROUND_16_80 p i j = ROUND_16_63 p (i + j)"
  by (intro ext) (auto simp: ROUND_16_80_def ROUND_16_63_def Let_def add.assoc elim!: dvdE)

lemma rounds8_shift: "rounds8 (\<lambda>j. rnd (i + j)) k st = rounds8 rnd (i + k) st"
  by (simp add: rounds8_def add.assoc)

lemma sha512_block_fips:
  assumes "128 \<le> length data"
  shows "sha512_block h data = sha2_compress sha512_fips_p 80 h (block_words 8 data)"
proof -
  let ?M = "block_words 8 data :: u64 list"
  have l: "length ?M = 16" by (simp add: block_words_def)
  have r1: "rounds8 (ROUND_load p) 8 (rounds8 (ROUND_load p) 0 st) = fold (moved (ROUND_load p)) [0 ..< 16] st"
    for p :: "u64 sha2" and st
    using upt_add_eq_append [of 0 8 8] by (simp only: rounds8_moved add_0 fold_append comp_def) simp
  let ?rnd = "ROUND_16_63 sha512_fips_p"
  have e: "rounds8 (ROUND_16_80 sha512_fips_p i) 8 (rounds8 (ROUND_16_80 sha512_fips_p i) 0 st)
      = fold (moved ?rnd) ([i ..< i + 8] @ [i + 8 ..< i + 8 + 8]) st" if "16 dvd i" for i st
  proof -
    have "ROUND_16_80 sha512_fips_p i = (\<lambda>j. ?rnd (i + j))"
      using ROUND_16_80_63 [OF that] by blast
    then show ?thesis by (simp only: rounds8_shift rounds8_moved add_0_right fold_append comp_def)
  qed
  have u: "[16 ..< 16 + 64 :: nat] = ([16 ..< 16 + 8] @ [16 + 8 ..< 16 + 8 + 8]) @ ([32 ..< 32 + 8] @ [32 + 8 ..< 32 + 8 + 8])
      @ ([48 ..< 48 + 8] @ [48 + 8 ..< 48 + 8 + 8]) @ ([64 ..< 64 + 8] @ [64 + 8 ..< 64 + 8 + 8])"
    by (simp add: upt_rec)
  have d: "16 dvd (16 :: nat)" "16 dvd (32 :: nat)" "16 dvd (48 :: nat)" "16 dvd (64 :: nat)" by simp_all
  have r2: "fold (\<lambda>i st. rounds8 (ROUND_16_80 sha512_fips_p i) 8 (rounds8 (ROUND_16_80 sha512_fips_p i) 0 st))
      [16, 32, 48, 64] st = fold (moved ?rnd) [16 ..< 16 + 64] st" for st
    unfolding fold.simps id_apply comp_def e [OF d(1)] e [OF d(2)] e [OF d(3)] e [OF d(4)] u
    by (simp only: fold_append comp_def)
  show ?thesis
    unfolding sha512_block_def Let_def sha512_p_fips sha512_load_words [OF assms] r1 r2 sha2_compress_def
    using block_rounds [OF l, of sha512_fips_p 64 h] by simp
qed

section \<open>The collector\<close>

definition sha512_bits :: "SHA512_CTX \<Rightarrow> nat" where
  "sha512_bits c = unat (sha_Nh c) * 2 ^ 64 + unat (sha_Nl c)"

definition sha512_ok :: "SHA512_CTX \<Rightarrow> bool" where
  "sha512_ok c \<longleftrightarrow> length (sha_u c) = 128 \<and> sha_num c < 128"

definition sha512_abs :: "SHA512_CTX \<Rightarrow> u64 regs \<times> bytes" where
  "sha512_abs c = (sha_h c, take (sha_num c) (sha_u c))"

lemma sha512_count_bits:
  "sha512_bits (sha512_count len c) = (sha512_bits c + 8 * len) mod (2 ^ 64 * 2 ^ 64)"
  using count_bits [where nl = "sha_Nl c" and nh = "sha_Nh c" and len = len]
  by (simp add: sha512_bits_def sha512_count_def Let_def)

lemma sha512_count_fields [simp]:
  "sha_h (sha512_count n c) = sha_h c" "sha_u (sha512_count n c) = sha_u c"
  "sha_num (sha512_count n c) = sha_num c" "sha_md_len (sha512_count n c) = sha_md_len c"
  by (simp_all add: sha512_count_def Let_def)

lemma sha512_copy_blocks_spec:
  assumes "length (sha_u c) = 128"
  shows "\<exists>u. sha512_copy_blocks c data =
      (c\<lparr>sha_h := hash_blocks sha512_block 128 (sha_h c) data (length data div 128), sha_u := u\<rparr>,
       drop (length data div 128 * 128) data) \<and> length u = 128"
  using assms
proof (induction c data rule: sha512_copy_blocks.induct)
  case (1 c data)
  show ?case
  proof (cases "128 \<le> length data")
    case False
    then have "length data div 128 = 0" by simp
    then show ?thesis using False 1(2)
      by (subst sha512_copy_blocks.simps) (auto intro: exI [of _ "sha_u c"])
  next
    case True
    let ?u = "mem_write (sha_u c) 0 (take 128 data)"
    have u: "?u = take 128 data" using True 1(2) by (simp add: mem_write_def)
    have d: "length data div 128 = Suc (length (drop 128 data) div 128)"
      using True by (simp add: le_div_geq)
    let ?c = "c\<lparr>sha_u := ?u, sha_h := sha512_block (sha_h c) ?u\<rparr>"
    have "\<exists>u. sha512_copy_blocks ?c (drop 128 data) =
        (?c\<lparr>sha_h := hash_blocks sha512_block 128 (sha_h ?c) (drop 128 data) (length (drop 128 data) div 128), sha_u := u\<rparr>,
         drop (length (drop 128 data) div 128 * 128) (drop 128 data)) \<and> length u = 128"
      using 1(1) [OF True refl refl] True 1(2) u by simp
    then show ?thesis using True
      by (subst sha512_copy_blocks.simps) (auto simp: Let_def u d add.commute)
  qed
qed

lemma sha512_update_rest_spec:
  assumes "sha512_ok c" "sha_num c = 0"
  shows "sha512_abs (sha512_update_rest addr c data) = md_feed sha512_block 128 (sha_h c, []) data
    \<and> sha512_ok (sha512_update_rest addr c data)
    \<and> sha512_bits (sha512_update_rest addr c data) = sha512_bits c
    \<and> sha_md_len (sha512_update_rest addr c data) = sha_md_len c"
proof -
  let ?n = "length data div 128"
  let ?r = "drop (?n * 128) data"
  let ?h = "hash_blocks sha512_block 128 (sha_h c) data ?n"
  have u: "length (sha_u c) = 128" using assms by (simp add: sha512_ok_def)
  obtain u' where u': "length u' = 128" and e: "sha512_update_rest addr c data =
      (let c = c\<lparr>sha_h := ?h, sha_u := u'\<rparr>
       in if ?r \<noteq> [] then c\<lparr>sha_u := mem_write u' 0 ?r, sha_num := length ?r\<rparr> else c)"
  proof (cases "128 \<le> length data")
    case False
    then have "?n = 0" by simp
    then show ?thesis using False u
      by (intro that [of "sha_u c"]) (simp_all add: sha512_update_rest_def Let_def)
  next
    case True
    show ?thesis
    proof (cases "addr mod 8 = 0")
      case al: True
      show ?thesis using True al u
        by (intro that [of "sha_u c"]) (simp_all add: sha512_update_rest_def Let_def)
    next
      case al: False
      obtain u' where "length u' = 128" "sha512_copy_blocks c data = (c\<lparr>sha_h := ?h, sha_u := u'\<rparr>, ?r)"
        using sha512_copy_blocks_spec [OF u, of data] by blast
      then show ?thesis using True al
        by (intro that [of u']) (simp_all add: sha512_update_rest_def Let_def)
    qed
  qed
  have lr: "length ?r = length data mod 128" by (simp add: minus_div_mult_eq_mod)
  have "take (length ?r) (mem_write u' 0 ?r) = ?r" by (simp add: mem_write_def)
  moreover have lt: "length ?r < 128" unfolding lr by simp
  moreover have "length (mem_write u' 0 ?r) = 128"
    using u' lt by (subst length_mem_write) simp_all
  ultimately show ?thesis using assms u'
    unfolding e by (auto simp: md_feed_def sha512_abs_def sha512_ok_def sha512_bits_def Let_def)
qed

lemma SHA512_Update_spec:
  assumes ok: "sha512_ok c"
  shows "sha512_abs (SHA512_Update c (addr, data)) = md_feed sha512_block 128 (sha512_abs c) data
    \<and> sha512_ok (SHA512_Update c (addr, data))
    \<and> sha512_bits (SHA512_Update c (addr, data)) mod (2 ^ 64 * 2 ^ 64) = (sha512_bits c + 8 * length data) mod (2 ^ 64 * 2 ^ 64)
    \<and> sha_md_len (SHA512_Update c (addr, data)) = sha_md_len c"
proof -
  let ?c = "sha512_count (length data) c"
  let ?n = "sha_num c"
  let ?pend = "take ?n (sha_u c)"
  have l: "length ?pend = ?n" "?n < 128" "length (sha_u c) = 128" using ok by (auto simp: sha512_ok_def)
  have okc: "sha512_ok ?c" using ok by (simp add: sha512_ok_def)
  have bits: "sha512_bits ?c = (sha512_bits c + 8 * length data) mod (2 ^ 64 * 2 ^ 64)" by (rule sha512_count_bits)
  show ?thesis
  proof (cases "data = []")
    case True
    then show ?thesis using ok l by (simp add: SHA512_Update_def sha512_abs_def md_feed_Nil)
  next
    case d: False
    show ?thesis
    proof (cases "?n = 0")
      case True
      then have "SHA512_Update c (addr, data) = sha512_update_rest addr ?c data"
        using d by (simp add: SHA512_Update_def Let_def)
      then show ?thesis using sha512_update_rest_spec [OF okc, of addr data] True bits
        by (simp add: sha512_abs_def)
    next
      case n: False
      show ?thesis
      proof (cases "length data < 128 - ?n")
        case True
        have "take (?n + length data) (mem_write (sha_u c) ?n data) = ?pend @ data"
          using l True by (simp add: take_mem_write_upto)
        then show ?thesis using d n True l bits
          by (simp add: SHA512_Update_def Let_def sha512_abs_def sha512_ok_def sha512_bits_def md_feed_short)
      next
        case False
        let ?k = "128 - ?n"
        let ?p = "mem_write (sha_u c) ?n (take ?k data)"
        let ?c2 = "?c\<lparr>sha_u := ?p, sha_num := 0, sha_h := sha512_block (sha_h c) ?p\<rparr>"
        have p: "?p = ?pend @ take ?k data" using l False by (simp add: mem_write_def)
        have lp: "length (?pend @ take ?k data) = 128" using l False by simp
        have e: "SHA512_Update c (addr, data) = sha512_update_rest (addr + ?k) ?c2 (drop ?k data)"
          using d n False by (simp add: SHA512_Update_def Let_def)
        have ok2: "sha512_ok ?c2" using lp p by (simp add: sha512_ok_def)
        have "md_feed sha512_block 128 (sha_h c, ?pend) (take ?k data) = (sha512_block (sha_h c) ?p, [])"
          unfolding p by (rule md_feed_block [OF _ lp]) simp
        then have "md_feed sha512_block 128 (sha512_abs c) data
            = md_feed sha512_block 128 (sha512_block (sha_h c) ?p, []) (drop ?k data)"
          using md_feed_feed [of 128 sha512_block "sha_h c" ?pend "take ?k data" "drop ?k data"]
          by (simp add: sha512_abs_def)
        moreover have "sha512_bits ?c2 = sha512_bits ?c" by (simp add: sha512_bits_def)
        ultimately show ?thesis using sha512_update_rest_spec [OF ok2, of "addr + ?k" "drop ?k data"] e bits
          by simp
      qed
    qed
  qed
qed

definition sha512_holds :: "nat \<Rightarrow> u64 regs \<Rightarrow> SHA512_CTX \<Rightarrow> bytes \<Rightarrow> bool" where
  "sha512_holds n h0 c msg \<longleftrightarrow>
     sha_md_len c = 8 * n \<and> sha512_ok c \<and> sha512_abs c = md_feed sha512_block 128 (h0, []) msg
       \<and> sha512_bits c = 8 * length msg mod (2 ^ 64 * 2 ^ 64)"

lemma sha512_bits_less: "sha512_bits c < 2 ^ 64 * 2 ^ 64"
proof -
  have "unat w < 2 ^ 64" for w :: u64 using unsigned_less [of w] by simp
  from this [of "sha_Nl c"] this [of "sha_Nh c"] show ?thesis by (simp add: sha512_bits_def)
qed

lemma sha512_holds_update:
  assumes "sha512_holds n h0 c xs"
  shows "sha512_holds n h0 (SHA512_Update c d) (xs @ snd d)"
proof -
  obtain addr ys where d: "d = (addr, ys)" by (cases d)
  let ?c = "SHA512_Update c (addr, ys)"
  have ok: "sha512_ok c" using assms by (simp add: sha512_holds_def)
  have "sha512_bits ?c = sha512_bits ?c mod (2 ^ 64 * 2 ^ 64)"
    by (rule mod_less [OF sha512_bits_less, symmetric])
  also have "\<dots> = (8 * length xs mod (2 ^ 64 * 2 ^ 64) + 8 * length ys) mod (2 ^ 64 * 2 ^ 64)"
    using SHA512_Update_spec [OF ok, of addr ys] assms by (simp only: sha512_holds_def)
  also have "\<dots> = 8 * length (xs @ ys) mod (2 ^ 64 * 2 ^ 64)"
    by (simp only: mod_add_left_eq length_append distrib_left)
  finally show ?thesis
    using SHA512_Update_spec [OF ok, of addr ys] assms
    by (simp only: sha512_holds_def md_feed_feed zero_less_numeral d snd_conv)
qed

lemma put64_be: "put64 w = be_bytes 8 (unat w)"
proof -
  have u: "[0 ..< 8] = [0, 1, 2, 3, 4, 5, 6, 7 :: nat]" by (simp add: upt_rec)
  have "ucast (drop_bit k w) = (word_of_nat (unat w div 2 ^ k) :: u8)" for k by (rule ucast_drop_bit_nat)
  from this [of 56] this [of 48] this [of 40] this [of 32] this [of 24] this [of 16] this [of 8] this [of 0]
  show ?thesis by (simp add: put64_def be_bytes_8 md32_length_def u Let_def)
qed

lemma be_bytes_16_halves:
  assumes "unat nh * 2 ^ 64 + unat (nl :: u64) = n mod (2 ^ 64 * 2 ^ 64)"
  shows "be_bytes 16 n = put64 nh @ put64 nl"
proof -
  have lt: "unat nl < 2 ^ 64" using unsigned_less [of nl] by simp
  have m: "n mod (2 ^ 64 * 2 ^ 64) = 2 ^ 64 * (n div 2 ^ 64 mod 2 ^ 64) + n mod 2 ^ 64"
    by (rule mod_mult2_eq)
  have lo: "n mod 2 ^ 64 = unat nl"
    using arg_cong [OF assms, of "\<lambda>x. x mod 2 ^ 64"] lt unfolding m by simp
  have hi: "n div 2 ^ 64 mod 2 ^ 64 = unat nh"
    using assms unfolding m lo by simp
  have p: "(256 :: nat) ^ 8 = 2 ^ 64" by simp
  have "be_bytes 16 n = be_bytes 8 (n div 2 ^ 64) @ be_bytes 8 n"
    using be_bytes_add [of 8 8 n] unfolding p by simp
  also have "\<dots> = be_bytes 8 (n div 2 ^ 64 mod 256 ^ 8) @ be_bytes 8 (n mod 256 ^ 8)"
    by (simp only: be_bytes_mod)
  finally show ?thesis unfolding p hi lo put64_be .
qed

lemma SHA512_Final_hash:
  assumes "sha512_holds n h0 c msg"
  shows "sha_h (snd (SHA512_Final md_null c)) = md_hash sha512_block 128 16 (be_bytes 16) h0 msg"
proof -
  let ?n = "sha_num c"
  let ?pend = "take ?n (sha_u c)"
  let ?x = "be_bytes 16 (8 * length msg)"
  have ok: "length (sha_u c) = 128" "?n < 128" and abs: "md_feed sha512_block 128 (h0, []) msg = (sha_h c, ?pend)"
    and bits: "unat (sha_Nh c) * 2 ^ 64 + unat (sha_Nl c) = 8 * length msg mod (2 ^ 64 * 2 ^ 64)"
    using assms by (simp_all add: sha512_holds_def sha512_ok_def sha512_abs_def sha512_bits_def)
  have l: "length ?pend = ?n" using ok by simp
  have "?pend = drop (length msg div 128 * 128) msg"
    using md_feed_pending [of sha512_block 128 h0 "[]" msg] unfolding abs by simp
  then have n: "?n = length msg mod 128"
    using l by (simp add: minus_div_mult_eq_mod)
  have x: "put64 (sha_Nh c) @ put64 (sha_Nl c) = ?x" by (rule be_bytes_16_halves [OF bits, symmetric])
  have lx: "length ?x = 16" by simp
  have h: "md_hash sha512_block 128 16 (be_bytes 16) h0 msg
      = fst (md_feed sha512_block 128 (sha_h c, ?pend) (md_padding 128 16 (be_bytes 16) (length msg)))"
    by (simp only: md_hash_feed zero_less_numeral abs)
  have feed: "md_feed sha512_block 128 (sha_h c, ?pend) (md_padding 128 16 (be_bytes 16) (length msg))
      = (if ?n \<le> 111 then (sha512_block (sha_h c) (?pend @ 0x80 # replicate (111 - ?n) 0 @ ?x), [])
         else (sha512_block (sha512_block (sha_h c) (?pend @ 0x80 # replicate (127 - ?n) 0))
                (replicate 112 0 @ ?x), []))"
    using md_feed_padding [of ?pend "length msg" 128 16 "be_bytes 16" sha512_block "sha_h c"] l n lx by simp
  show ?thesis
  proof (cases "?n \<le> 111")
    case True
    have "mem_write (mem_write (mem_write (sha_u c) ?n [0x80]) (?n + 1) (replicate (111 - ?n) 0)) 112 ?x
        = ?pend @ 0x80 # replicate (111 - ?n) 0 @ ?x"
      using ok True lx Suc_diff_le [of ?n 111] by (simp add: mem_write_def)
    then show ?thesis using True feed h by (simp add: SHA512_Final_def Let_def x)
  next
    case False
    have w: "mem_write (mem_write (sha_u c) ?n [0x80]) (?n + 1) (replicate (127 - ?n) 0)
        = ?pend @ 0x80 # replicate (127 - ?n) 0"
      using ok False by (simp add: mem_write_def)
    have "mem_write (mem_write p 0 (replicate 112 0)) 112 ?x = replicate 112 0 @ ?x"
      if "length p = 128" for p
      using that lx by (simp add: mem_write_def)
    note w2 = this [of "?pend @ 0x80 # replicate (127 - ?n) 0"]
    have "length (?pend @ 0x80 # replicate (127 - ?n) 0) = 128" using ok by simp
    note w2 = w2 [OF this]
    show ?thesis using False feed h w w2 by (simp add: SHA512_Final_def Let_def x)
  qed
qed

lemma sha512_holds_final:
  assumes "sha512_holds n h0 c msg" "n = 6 \<or> n = 8"
  shows "fst (SHA512_Final False c) = Some (sha512_fips h0 n msg)"
proof -
  have e: "md_hash sha512_block 128 16 (be_bytes 16) h0 msg
      = md_hash (\<lambda>h data. sha2_compress sha512_fips_p 80 h (block_words 8 data)) 128 16 (be_bytes 16) h0 msg"
    by (rule md_hash_cong) (simp add: sha512_block_fips)
  have "fst (SHA512_Final False c) = Some (concat (map put64 (take n (regs_list (sha_h (snd (SHA512_Final False c)))))))"
    using assms by (auto simp: sha512_holds_def SHA512_Final_def Let_def split: prod.splits)
  then show ?thesis
    unfolding SHA512_Final_hash [OF assms(1)] e put64_be sha512_fips_def Let_def .
qed

definition sha512_H0 :: "u64 regs" where "sha512_H0 = list_regs fips_H512"
definition sha384_H0 :: "u64 regs" where "sha384_H0 = list_regs fips_H384"

lemma sha512_H0_code: "sha_h (SHA512_Init u) = sha512_H0" "sha_h (SHA384_Init u) = sha384_H0"
  by (simp_all add: sha512_H0_def sha384_H0_def SHA512_Init_def SHA384_Init_def list_regs_def fips_H512_eq fips_H384_eq)

text \<open>What the memory of a new context holds.\<close>

definition stale :: "bytes \<Rightarrow> bytes" where
  "stale u = take 128 (u @ replicate 128 0)"

lemma stale_id: "length u = 128 \<Longrightarrow> stale u = u"
  by (simp add: stale_def)

lemma sha512_holds_init:
  "length u = 128 \<Longrightarrow> sha512_holds 8 sha512_H0 (SHA512_Init u) []"
  "length u = 128 \<Longrightarrow> sha512_holds 6 sha384_H0 (SHA384_Init u) []"
  unfolding sha512_holds_def sha512_abs_def sha512_H0_code
  by (simp_all add: sha512_ok_def sha512_bits_def SHA512_Init_def SHA384_Init_def md_feed_Nil)

interpretation sha512: stream_hash "SHA512_Init (stale u)" SHA512_Update "\<lambda>c. fst (SHA512_Final False c)"
    snd "sha512_fips sha512_H0 8" "sha512_holds 8 sha512_H0" for u
  by unfold_locales (auto simp: stale_def intro: sha512_holds_init sha512_holds_update sha512_holds_final)

interpretation sha384: stream_hash "SHA384_Init (stale u)" SHA384_Update "\<lambda>c. fst (SHA384_Final False c)"
    snd "sha512_fips sha384_H0 6" "sha512_holds 6 sha384_H0" for u
  unfolding SHA384_Update_def SHA384_Final_def
  by unfold_locales (auto simp: stale_def intro: sha512_holds_init sha512_holds_update sha512_holds_final)

text \<open>
  C18: SHA-512 and SHA-384 compute the hash of FIPS 180-4 for every message, in whatever pieces and
  at whatever addresses it is given to the update function, and whatever the memory of the context
  held before, which the initialisation does not clear.  The reference has its own Ch and Maj, and
  its constants are the fractions of roots of primes.
\<close>
theorem sha512_is_fips:
  assumes "length u = 128"
  shows "fst (SHA512_Final False (fold (\<lambda>d c. SHA512_Update c d) ds (SHA512_Init u)))
      = Some (sha512_fips sha512_H0 8 (concat (map snd ds)))
   \<and> SHA512 u (addr, msg) = Some (sha512_fips sha512_H0 8 msg)
   \<and> fst (SHA384_Final False (fold (\<lambda>d c. SHA384_Update c d) ds (SHA384_Init u)))
      = Some (sha512_fips sha384_H0 6 (concat (map snd ds)))
   \<and> SHA384 u (addr, msg) = Some (sha512_fips sha384_H0 6 msg)"
  using sha512.stream [where u = u and ds = ds] sha384.stream [where u = u and ds = ds]
    sha512.one_shot [where u = u and d = "(addr, msg)"] sha384.one_shot [where u = u and d = "(addr, msg)"]
  by (simp add: stale_id [OF assms] SHA512_def SHA384_def SHA384_Update_def SHA384_Final_def)

theorem sha512_is_fips_witness:
  "SHA512 (replicate 128 7) (3, [0x61, 0x62, 0x63]) = Some (sha512_fips sha512_H0 8 [0x61, 0x62, 0x63])"
  using sha512_is_fips [of "replicate 128 7" "[]" 3 "[0x61, 0x62, 0x63]"] by (simp only: length_replicate)

section \<open>A single block at an unaligned address\<close>

text \<open>
  \<^verbatim>\<open>SHA512_Transform\<close> hashes the block it is given when the block is at an aligned
  address.  At any other address it copies only the 64 bytes the member \<^verbatim>\<open>p\<close> is declared
  with, so it hashes the first half of the block followed by the stale second half of the buffer:
  the result does not depend on the second half of the input.
\<close>
theorem sha512_transform_half:
  assumes "length (sha_u c) = 128" "length data = 128"
  shows "sha_h (SHA512_Transform addr c data) =
    sha2_compress sha512_fips_p 80 (sha_h c)
      (block_words 8 (if addr mod 8 = 0 then data else take 64 data @ drop 64 (sha_u c)))"
  using assms by (simp add: SHA512_Transform_def mem_write_def sha512_block_fips)

theorem sha512_transform_half_witness:
  "sha_h (SHA512_Transform 1 (SHA512_Init (replicate 128 0)) (replicate 64 1 @ replicate 64 2))
     = sha_h (SHA512_Transform 8 (SHA512_Init (replicate 128 0)) (replicate 64 1 @ replicate 64 0))"
proof -
  have "drop 64 (replicate 128 (0 :: u8)) = replicate 64 0" by (simp only: drop_replicate) simp
  then show ?thesis
    using sha512_transform_half [of "SHA512_Init (replicate 128 0)" "replicate 64 1 @ replicate 64 2" 1]
      sha512_transform_half [of "SHA512_Init (replicate 128 0)" "replicate 64 1 @ replicate 64 0" 8]
    by (simp add: SHA512_Init_def)
qed

end
