(* ===== verification/Sha1.thy ===== *)
theory Sha1
  imports Sha256
begin

unbundle bit_operations_syntax

text \<open>
  SHA-1 (\<^verbatim>\<open>crypto/sha/sha1.c\<close>), portable C code on a little-endian machine.  The block
  function renames six registers from round to round, keeps the schedule in sixteen words and
  rewrites the round functions; the lemmas show that it computes the SHA-1 of FIPS 180-4.
\<close>

section \<open>The block function\<close>

type_synonym sha1_h = "u32 \<times> u32 \<times> u32 \<times> u32 \<times> u32"

(* src: crypto/sha/sha1.c@130-133 K_00_19, K_20_39, K_40_59, K_60_79 *)
definition sha1_K :: "nat \<Rightarrow> u32" where
  "sha1_K i = (if i < 20 then 0x5a827999 else if i < 40 then 0x6ed9eba1 else if i < 60 then 0x8f1bbcdc else 0xca62c1d6)"

(* src: crypto/sha/sha1.c@140 F_00_19 *)
definition F_00_19 :: "u32 \<Rightarrow> u32 \<Rightarrow> u32 \<Rightarrow> u32" where
  "F_00_19 b c d = ((c XOR d) AND b) XOR d"

(* src: crypto/sha/sha1.c@141 F_20_39 *)
definition F_20_39 :: "u32 \<Rightarrow> u32 \<Rightarrow> u32 \<Rightarrow> u32" where
  "F_20_39 b c d = b XOR c XOR d"

(* src: crypto/sha/sha1.c@142 F_40_59 *)
definition F_40_59 :: "u32 \<Rightarrow> u32 \<Rightarrow> u32 \<Rightarrow> u32" where
  "F_40_59 b c d = (b AND c) OR ((b OR c) AND d)"

(* src: crypto/sha/sha1.c@143 F_60_79 *)
definition F_60_79 :: "u32 \<Rightarrow> u32 \<Rightarrow> u32 \<Rightarrow> u32" where
  "F_60_79 b c d = F_20_39 b c d"

text \<open>The word of the window a round of the second and later groups makes; it replaces one of the sixteen.\<close>

(* src: crypto/sha/sha1.c@120-121 Xupdate *)
definition Xupdate :: "nat \<Rightarrow> u32 list \<Rightarrow> u32 \<times> u32 list" where
  "Xupdate i X =
     (let a = X ! (i mod 16) XOR X ! ((i + 2) mod 16) XOR X ! ((i + 8) mod 16) XOR X ! ((i + 13) mod 16);
          a = md32_ROTATE a 1
      in (a, X[i mod 16 := a]))"

text \<open>A round assigns \<open>f\<close> and \<open>b\<close>: it returns these two and the window.\<close>

(* src: crypto/sha/sha1.c@145-147 BODY_00_15 *)
definition BODY_00_15 :: "nat \<Rightarrow> u32 \<Rightarrow> u32 \<Rightarrow> u32 \<Rightarrow> u32 \<Rightarrow> u32 \<Rightarrow> u32 list \<Rightarrow> u32 \<times> u32 \<times> u32 list" where
  "BODY_00_15 i a b c d e X =
     (let f = X ! i + e + 0x5a827999 + md32_ROTATE a 5 + F_00_19 b c d; b = md32_ROTATE b 30
      in (f, b, X))"

(* src: crypto/sha/sha1.c@149-152 BODY_16_19 *)
definition BODY_16_19 :: "nat \<Rightarrow> u32 \<Rightarrow> u32 \<Rightarrow> u32 \<Rightarrow> u32 \<Rightarrow> u32 \<Rightarrow> u32 list \<Rightarrow> u32 \<times> u32 \<times> u32 list" where
  "BODY_16_19 i a b c d e X =
     (let (f, X) = Xupdate i X;
          f = f + (e + 0x5a827999 + md32_ROTATE a 5 + F_00_19 b c d); b = md32_ROTATE b 30
      in (f, b, X))"

(* src: crypto/sha/sha1.c@154-162 BODY_20_31, BODY_32_39 *)
definition BODY_20_39 :: "nat \<Rightarrow> u32 \<Rightarrow> u32 \<Rightarrow> u32 \<Rightarrow> u32 \<Rightarrow> u32 \<Rightarrow> u32 list \<Rightarrow> u32 \<times> u32 \<times> u32 list" where
  "BODY_20_39 i a b c d e X =
     (let (f, X) = Xupdate i X;
          f = f + (e + 0x6ed9eba1 + md32_ROTATE a 5 + F_20_39 b c d); b = md32_ROTATE b 30
      in (f, b, X))"

(* src: crypto/sha/sha1.c@164-167 BODY_40_59 *)
definition BODY_40_59 :: "nat \<Rightarrow> u32 \<Rightarrow> u32 \<Rightarrow> u32 \<Rightarrow> u32 \<Rightarrow> u32 \<Rightarrow> u32 list \<Rightarrow> u32 \<times> u32 \<times> u32 list" where
  "BODY_40_59 i a b c d e X =
     (let (f, X) = Xupdate i X;
          f = f + (e + 0x8f1bbcdc + md32_ROTATE a 5 + F_40_59 b c d); b = md32_ROTATE b 30
      in (f, b, X))"

(* src: crypto/sha/sha1.c@169-172 BODY_60_79 *)
definition BODY_60_79 :: "nat \<Rightarrow> u32 \<Rightarrow> u32 \<Rightarrow> u32 \<Rightarrow> u32 \<Rightarrow> u32 \<Rightarrow> u32 list \<Rightarrow> u32 \<times> u32 \<times> u32 list" where
  "BODY_60_79 i a b c d e X =
     (let (f, X) = Xupdate i X;
          f = X ! (i mod 16) + e + 0xca62c1d6 + md32_ROTATE a 5 + F_60_79 b c d; b = md32_ROTATE b 30
      in (f, b, X))"

text \<open>The macro the \<open>i\<close>-th round is written with.\<close>

(* src: crypto/sha/sha1.c@294-361 sha1_block_data_order *)
definition sha1_body :: "nat \<Rightarrow> u32 \<Rightarrow> u32 \<Rightarrow> u32 \<Rightarrow> u32 \<Rightarrow> u32 \<Rightarrow> u32 list \<Rightarrow> u32 \<times> u32 \<times> u32 list" where
  "sha1_body i =
     (if i < 16 then BODY_00_15 i else if i < 20 then BODY_16_19 i else if i < 40 then BODY_20_39 i
      else if i < 60 then BODY_40_59 i else BODY_60_79 i)"

text \<open>Six rounds, after which every register has its own name again.\<close>

(* src: crypto/sha/sha1.c@305-310 sha1_block_data_order *)
definition rounds6 ::
  "(nat \<Rightarrow> u32 \<Rightarrow> u32 \<Rightarrow> u32 \<Rightarrow> u32 \<Rightarrow> u32 \<Rightarrow> u32 list \<Rightarrow> u32 \<times> u32 \<times> u32 list)
     \<Rightarrow> nat \<Rightarrow> sha1_h \<times> u32 list \<Rightarrow> sha1_h \<times> u32 list" where
  "rounds6 rnd i st =
     (let ((A, B, C, D, E), X) = st;
          (T, B, X) = rnd i A B C D E X;
          (E, A, X) = rnd (i + 1) T A B C D X;
          (D, T, X) = rnd (i + 2) E T A B C X;
          (C, E, X) = rnd (i + 3) D E T A B X;
          (B, D, X) = rnd (i + 4) C D E T A X;
          (A, C, X) = rnd (i + 5) B C D E T X
      in ((A, B, C, D, E), X))"

(* src: crypto/sha/sha1.c@227-376 sha1_block_data_order *)
definition sha1_block :: "sha1_h \<Rightarrow> bytes \<Rightarrow> sha1_h" where
  "sha1_block hh data =
     (let st = (hh, sha256_load data);
          st = fold (rounds6 sha1_body) [0, 6, 12, 18, 24, 30, 36, 42, 48, 54, 60, 66, 72] st;
          ((A, B, C, D, E), X) = st;
          (T, B, X) = sha1_body 78 A B C D E X;
          (E, A, X) = sha1_body 79 T A B C D X;
          (h0, h1, h2, h3, h4) = hh
      in (h0 + E, h1 + T, h2 + A, h3 + B, h4 + C))"

section \<open>Contexts\<close>

(* src: crypto/sha/sha1.c@101-114 HASH_MAKE_STRING *)
definition sha1_make_string :: "sha1_h \<Rightarrow> bytes option" where
  "sha1_make_string h =
     (let (h0, h1, h2, h3, h4) = h
      in Some (HOST_l2c True h0 @ HOST_l2c True h1 @ HOST_l2c True h2 @ HOST_l2c True h3 @ HOST_l2c True h4))"

(* src: crypto/sha/sha1.c@96-100 DATA_ORDER, HASH_CTX, HASH_MAKE_STRING *)
definition sha1_md :: "sha1_h md32" where
  "sha1_md = \<lparr>md_block = sha1_block, data_order_big = True, make_string = sha1_make_string\<rparr>"

(* src: crypto/sha/sha1.c@69-77 SHA1_Init *)
definition SHA1_Init :: "sha1_h md32_ctx" where
  "SHA1_Init = md32_init (0x67452301, 0xefcdab89, 0x98badcfe, 0x10325476, 0xc3d2e1f0)"

(* src: crypto/sha/sha1.c@116 SHA1_Update *)
definition SHA1_Update :: "sha1_h md32_ctx \<Rightarrow> bytes \<Rightarrow> sha1_h md32_ctx" where
  "SHA1_Update = HASH_UPDATE sha1_md"

(* src: crypto/sha/sha1.c@118 SHA1_Final *)
definition SHA1_Final :: "sha1_h md32_ctx \<Rightarrow> bytes option \<times> sha1_h md32_ctx" where
  "SHA1_Final = HASH_FINAL sha1_md"

(* src: crypto/sha/sha1.c@79-94 SHA1 *)
definition SHA1 :: "bytes \<Rightarrow> bytes option" where
  "SHA1 data = fst (SHA1_Final (SHA1_Update SHA1_Init data))"

section \<open>The hash of the standard\<close>

function sha1_W :: "u32 list \<Rightarrow> nat \<Rightarrow> u32" where
  "sha1_W M t =
     (if t < 16 then M ! t
      else word_rotl 1 (sha1_W M (t - 3) XOR sha1_W M (t - 8) XOR sha1_W M (t - 14) XOR sha1_W M (t - 16)))"
  by pat_completeness auto
termination by (relation "measure (\<lambda>(M, t). t)") auto

declare sha1_W.simps [simp del]

definition sha1_f :: "nat \<Rightarrow> u32 \<Rightarrow> u32 \<Rightarrow> u32 \<Rightarrow> u32" where
  "sha1_f t x y z =
     (if t < 20 then (x AND y) XOR (NOT x AND z)
      else if t < 40 then x XOR y XOR z
      else if t < 60 then (x AND y) XOR (x AND z) XOR (y AND z)
      else x XOR y XOR z)"

definition sha1_step :: "u32 list \<Rightarrow> nat \<Rightarrow> sha1_h \<Rightarrow> sha1_h" where
  "sha1_step M t st =
     (let (a, b, c, d, e) = st
      in (word_rotl 5 a + sha1_f t b c d + e + sha1_K t + sha1_W M t, a, word_rotl 30 b, c, d))"

definition sha1_compress :: "sha1_h \<Rightarrow> u32 list \<Rightarrow> sha1_h" where
  "sha1_compress h M =
     (let (h0, h1, h2, h3, h4) = h; (a, b, c, d, e) = fold (sha1_step M) [0 ..< 80] h
      in (h0 + a, h1 + b, h2 + c, h3 + d, h4 + e))"

definition sha1_fips :: "bytes \<Rightarrow> bytes" where
  "sha1_fips msg =
     (let (h0, h1, h2, h3, h4) =
        md_hash (\<lambda>h data. sha1_compress h (block_words 4 data)) 64 8 (be_bytes 8)
          (0x67452301, 0xefcdab89, 0x98badcfe, 0x10325476, 0xc3d2e1f0) msg
      in concat (map (\<lambda>w. be_bytes 4 (unat w)) [h0, h1, h2, h3, h4]))"

section \<open>The code computes it\<close>

definition moved6 ::
  "(nat \<Rightarrow> u32 \<Rightarrow> u32 \<Rightarrow> u32 \<Rightarrow> u32 \<Rightarrow> u32 \<Rightarrow> u32 list \<Rightarrow> u32 \<times> u32 \<times> u32 list)
     \<Rightarrow> nat \<Rightarrow> sha1_h \<times> u32 list \<Rightarrow> sha1_h \<times> u32 list" where
  "moved6 rnd i st =
     (let ((a, b, c, d, e), X) = st; (f, b, X) = rnd i a b c d e X in ((f, a, b, c, d), X))"

lemma rounds6_moved: "rounds6 rnd i st = fold (moved6 rnd) [i, i + 1, i + 2, i + 3, i + 4, i + 5] st"
  by (simp add: rounds6_def moved6_def Let_def split: prod.split)

lemma F_sha1_f:
  "F_00_19 b c d = (b AND c) XOR (NOT b AND d)"
  "F_40_59 b c d = (b AND c) XOR (b AND d) XOR (c AND d)"
  by (rule bit_word_eqI; auto simp: F_00_19_def F_40_59_def bit_simps)+

lemma rotate_rotl: "0 < n \<Longrightarrow> n < 32 \<Longrightarrow> md32_ROTATE (a :: u32) n = word_rotl n a"
  by (simp add: md32_ROTATE_rotr word_rotl_eq_word_rotr)

lemma Xupdate_window:
  assumes "window (sha1_W M) t X" "16 \<le> t"
  shows "Xupdate t X = (sha1_W M t, X[t mod 16 := sha1_W M t])"
proof -
  have "md32_ROTATE (X ! (t mod 16) XOR X ! ((t + 2) mod 16) XOR X ! ((t + 8) mod 16) XOR X ! ((t + 13) mod 16)) 1
      = sha1_W M t"
    using window_look [OF assms, of 0] window_look [OF assms, of 2] window_look [OF assms, of 8]
      window_look [OF assms, of 13] assms(2)
    by (subst sha1_W.simps) (simp add: rotate_rotl xor.commute xor.left_commute)
  then show ?thesis by (simp only: Xupdate_def Let_def)
qed

definition sha1_inv :: "u32 list \<Rightarrow> nat \<Rightarrow> u32 list \<Rightarrow> bool" where
  "sha1_inv M t X \<longleftrightarrow> (if t \<le> 16 then X = M else window (sha1_W M) t X)"

lemma moved6_step:
  assumes "length M = 16" "sha1_inv M t X" "t < 80"
  shows "\<exists>X'. moved6 sha1_body t (st, X) = (sha1_step M t st, X') \<and> sha1_inv M (Suc t) X'"
proof -
  obtain a b c d e where st: "st = (a, b, c, d, e)" by (metis surj_pair)
  show ?thesis
  proof (cases "t < 16")
    case True
    then have "sha1_W M t = M ! t" by (simp add: sha1_W.simps)
    then show ?thesis using assms True
      by (simp add: moved6_def sha1_body_def BODY_00_15_def sha1_step_def st Let_def sha1_inv_def
          F_sha1_f sha1_f_def sha1_K_def rotate_rotl ac_simps)
  next
    case False
    have w: "window (sha1_W M) t X"
      using assms False window_16 [OF assms(1), of "sha1_W M"]
      by (cases "t = 16") (auto simp: sha1_inv_def sha1_W.simps)
    have l: "t mod 16 < length X" using w by (simp add: window_def)
    have "moved6 sha1_body t (st, X) = (sha1_step M t st, X[t mod 16 := sha1_W M t])"
      using False assms(3) l Xupdate_window [OF w]
      by (simp add: moved6_def sha1_body_def BODY_16_19_def BODY_20_39_def BODY_40_59_def BODY_60_79_def
          sha1_step_def st Let_def F_sha1_f F_20_39_def F_60_79_def sha1_f_def sha1_K_def rotate_rotl ac_simps)
    then show ?thesis using window_update [OF w] False by (simp add: sha1_inv_def)
  qed
qed

lemma fold_moved6:
  assumes "length M = 16" "n \<le> 80"
  shows "\<exists>X'. fold (moved6 sha1_body) [0 ..< n] (st, M) = (fold (sha1_step M) [0 ..< n] st, X') \<and> sha1_inv M n X'"
  using assms(2)
proof (induction n)
  case 0
  then show ?case by (simp add: sha1_inv_def)
next
  case (Suc n)
  then obtain X' where "fold (moved6 sha1_body) [0 ..< n] (st, M) = (fold (sha1_step M) [0 ..< n] st, X')"
    "sha1_inv M n X'" by auto
  then show ?case using moved6_step [OF assms(1), of n X' "fold (sha1_step M) [0 ..< n] st"] Suc.prems
    by auto
qed

lemma sha1_block_fips:
  assumes "64 \<le> length data"
  shows "sha1_block h data = sha1_compress h (block_words 4 data)"
proof -
  let ?M = "block_words 4 data :: u32 list"
  have l: "length ?M = 16" by (simp add: block_words_def)
  have u: "[0 ..< 80] = concat (map (\<lambda>i. [i, i + 1, i + 2, i + 3, i + 4, i + 5])
      [0, 6, 12, 18, 24, 30, 36, 42, 48, 54, 60, 66, 72]) @ [78, 79 :: nat]"
    by (simp add: upt_rec)
  have f: "fold (rounds6 rnd) is st = fold (moved6 rnd) (concat (map (\<lambda>i. [i, i + 1, i + 2, i + 3, i + 4, i + 5]) is)) st"
    for rnd "is" st
    by (induction "is" arbitrary: st) (simp_all only: fold.simps concat.simps list.map rounds6_moved fold_append id_apply comp_def)
  obtain h0 h1 h2 h3 h4 where h: "h = (h0, h1, h2, h3, h4)" by (metis surj_pair)
  define R where "R = fold (sha1_step ?M) [0 ..< 80] h"
  define S where "S = fold (rounds6 sha1_body) [0, 6, 12, 18, 24, 30, 36, 42, 48, 54, 60, 66, 72] (h, ?M)"
  obtain X' where "fold (moved6 sha1_body) [0 ..< 80] (h, ?M) = (R, X')"
    using fold_moved6 [OF l order_refl] unfolding R_def by blast
  then have e: "moved6 sha1_body 79 (moved6 sha1_body 78 S) = (R, X')"
    unfolding u fold_append comp_def f [symmetric] S_def by (simp only: fold.simps comp_def id_apply)
  obtain a b c d e' X where S: "S = ((a, b, c, d, e'), X)" by (metis surj_pair)
  show ?thesis
    using e unfolding sha1_block_def sha1_compress_def sha256_load_words [OF assms] R_def [symmetric] S_def [symmetric] S Let_def
    by (auto simp: h moved6_def Let_def split: prod.splits)
qed

definition sha1_holds :: "sha1_h md32_ctx \<Rightarrow> bytes \<Rightarrow> bool" where
  "sha1_holds = md32_holds sha1_md (0x67452301, 0xefcdab89, 0x98badcfe, 0x10325476, 0xc3d2e1f0)"

lemma sha1_holds_final:
  assumes "sha1_holds c msg"
  shows "fst (SHA1_Final c) = Some (sha1_fips msg)"
proof -
  have b: "md32_length True = be_bytes 8" by (rule ext) (rule be_bytes_8 [symmetric])
  have e: "md_hash sha1_block 64 8 (be_bytes 8) h0 msg
      = md_hash (\<lambda>h data. sha1_compress h (block_words 4 data)) 64 8 (be_bytes 8) h0 msg" for h0
    by (rule md_hash_cong) (simp add: sha1_block_fips)
  show ?thesis
    using HASH_FINAL_spec [OF assms [unfolded sha1_holds_def]]
    by (simp add: SHA1_Final_def Let_def sha1_md_def b e sha1_make_string_def sha1_fips_def be_bytes_4 split: prod.split)
qed

interpretation sha1: stream_hash SHA1_Init SHA1_Update "\<lambda>c. fst (SHA1_Final c)" id sha1_fips sha1_holds
  by unfold_locales
    (auto simp: sha1_holds_def SHA1_Init_def SHA1_Update_def intro: md32_holds_init md32_holds_update
      sha1_holds_final [unfolded sha1_holds_def])

text \<open>
  C35: SHA-1 computes the hash of FIPS 180-4 for every message, in whatever pieces the message is
  given to the update function, and so does the one-call function.
\<close>
theorem sha1_is_fips:
  "fst (SHA1_Final (fold (\<lambda>d c. SHA1_Update c d) ds SHA1_Init)) = Some (sha1_fips (concat ds))
   \<and> SHA1 msg = Some (sha1_fips msg)"
  using sha1.stream [of ds] sha1.one_shot [of msg] by (simp add: SHA1_def)

end
