(* ===== verification/Md5.thy ===== *)
theory Md5
  imports Sha1
begin

unbundle bit_operations_syntax

text \<open>
  MD5 (\<^verbatim>\<open>crypto/md5/md5.c\<close>).  The block function renames four registers from step to step
  and rewrites two of the round functions; the lemmas show that it computes the MD5 of RFC 1321.
\<close>

section \<open>The block function\<close>

type_synonym md5_h = "u32 \<times> u32 \<times> u32 \<times> u32"

(* src: crypto/md5/md5.c@125 F *)
definition md5_F :: "u32 \<Rightarrow> u32 \<Rightarrow> u32 \<Rightarrow> u32" where
  "md5_F b c d = ((c XOR d) AND b) XOR d"

(* src: crypto/md5/md5.c@126 G *)
definition md5_G :: "u32 \<Rightarrow> u32 \<Rightarrow> u32 \<Rightarrow> u32" where
  "md5_G b c d = ((b XOR c) AND d) XOR c"

(* src: crypto/md5/md5.c@127 H *)
definition md5_H :: "u32 \<Rightarrow> u32 \<Rightarrow> u32 \<Rightarrow> u32" where
  "md5_H b c d = b XOR c XOR d"

(* src: crypto/md5/md5.c@128 I *)
definition md5_I :: "u32 \<Rightarrow> u32 \<Rightarrow> u32 \<Rightarrow> u32" where
  "md5_I b c d = (NOT d OR b) XOR c"

text \<open>A step assigns \<open>a\<close>.  The four macros differ in the function.\<close>

(* src: crypto/md5/md5.c@130-148 R0, R1, R2, R3 *)
definition md5_R :: "(u32 \<Rightarrow> u32 \<Rightarrow> u32 \<Rightarrow> u32) \<Rightarrow> u32 \<Rightarrow> u32 \<Rightarrow> u32 \<Rightarrow> u32 \<Rightarrow> u32 \<Rightarrow> nat \<Rightarrow> u32 \<Rightarrow> u32" where
  "md5_R f a b c d k s t =
     (let a = a + (k + t + f b c d); a = md32_ROTATE a s; a = a + b in a)"

text \<open>The arguments of the 64 steps: word of the block, rotation, constant.\<close>

(* src: crypto/md5/md5.c@167-266 md5_block_data_order *)
definition md5_ops :: "(nat \<times> nat \<times> u32) list" where
  "md5_ops = [
     (0, 7, 0xd76aa478), (1, 12, 0xe8c7b756), (2, 17, 0x242070db), (3, 22, 0xc1bdceee),
     (4, 7, 0xf57c0faf), (5, 12, 0x4787c62a), (6, 17, 0xa8304613), (7, 22, 0xfd469501),
     (8, 7, 0x698098d8), (9, 12, 0x8b44f7af), (10, 17, 0xffff5bb1), (11, 22, 0x895cd7be),
     (12, 7, 0x6b901122), (13, 12, 0xfd987193), (14, 17, 0xa679438e), (15, 22, 0x49b40821),
     (1, 5, 0xf61e2562), (6, 9, 0xc040b340), (11, 14, 0x265e5a51), (0, 20, 0xe9b6c7aa),
     (5, 5, 0xd62f105d), (10, 9, 0x02441453), (15, 14, 0xd8a1e681), (4, 20, 0xe7d3fbc8),
     (9, 5, 0x21e1cde6), (14, 9, 0xc33707d6), (3, 14, 0xf4d50d87), (8, 20, 0x455a14ed),
     (13, 5, 0xa9e3e905), (2, 9, 0xfcefa3f8), (7, 14, 0x676f02d9), (12, 20, 0x8d2a4c8a),
     (5, 4, 0xfffa3942), (8, 11, 0x8771f681), (11, 16, 0x6d9d6122), (14, 23, 0xfde5380c),
     (1, 4, 0xa4beea44), (4, 11, 0x4bdecfa9), (7, 16, 0xf6bb4b60), (10, 23, 0xbebfbc70),
     (13, 4, 0x289b7ec6), (0, 11, 0xeaa127fa), (3, 16, 0xd4ef3085), (6, 23, 0x04881d05),
     (9, 4, 0xd9d4d039), (12, 11, 0xe6db99e5), (15, 16, 0x1fa27cf8), (2, 23, 0xc4ac5665),
     (0, 6, 0xf4292244), (7, 10, 0x432aff97), (14, 15, 0xab9423a7), (5, 21, 0xfc93a039),
     (12, 6, 0x655b59c3), (3, 10, 0x8f0ccc92), (10, 15, 0xffeff47d), (1, 21, 0x85845dd1),
     (8, 6, 0x6fa87e4f), (15, 10, 0xfe2ce6e0), (6, 15, 0xa3014314), (13, 21, 0x4e0811a1),
     (4, 6, 0xf7537e82), (11, 10, 0xbd3af235), (2, 15, 0x2ad7d2bb), (9, 21, 0xeb86d391)]"

definition md5_fun :: "nat \<Rightarrow> u32 \<Rightarrow> u32 \<Rightarrow> u32 \<Rightarrow> u32" where
  "md5_fun i = (if i < 16 then md5_F else if i < 32 then md5_G else if i < 48 then md5_H else md5_I)"

definition md5_op :: "u32 list \<Rightarrow> nat \<Rightarrow> u32 \<Rightarrow> u32 \<Rightarrow> u32 \<Rightarrow> u32 \<Rightarrow> u32" where
  "md5_op X i a b c d = (case md5_ops ! i of (k, s, t) \<Rightarrow> md5_R (md5_fun i) a b c d (X ! k) s t)"

text \<open>Four steps, after which every register has its own name again.\<close>

(* src: crypto/md5/md5.c@203-206 md5_block_data_order *)
definition md5_steps4 :: "u32 list \<Rightarrow> nat \<Rightarrow> md5_h \<Rightarrow> md5_h" where
  "md5_steps4 X i st =
     (let (A, B, C, D) = st;
          A = md5_op X i A B C D;
          D = md5_op X (i + 1) D A B C;
          C = md5_op X (i + 2) C D A B;
          B = md5_op X (i + 3) B C D A
      in (A, B, C, D))"

definition md5_load :: "bytes \<Rightarrow> u32 list" where
  "md5_load data = map (\<lambda>i. HOST_c2l False (take 4 (drop (4 * i) data))) [0 ..< 16]"

(* src: crypto/md5/md5.c@154-273 md5_block_data_order *)
definition md5_block :: "md5_h \<Rightarrow> bytes \<Rightarrow> md5_h" where
  "md5_block hh data =
     (let X = md5_load data;
          (A, B, C, D) =
            fold (md5_steps4 X) [0, 4, 8, 12, 16, 20, 24, 28, 32, 36, 40, 44, 48, 52, 56, 60] hh;
          (a, b, c, d) = hh
      in (a + A, b + B, c + C, d + D))"

section \<open>Contexts\<close>

(* src: crypto/md5/md5.c@105-116 HASH_MAKE_STRING *)
definition md5_make_string :: "md5_h \<Rightarrow> bytes option" where
  "md5_make_string h =
     (let (A, B, C, D) = h in Some (HOST_l2c False A @ HOST_l2c False B @ HOST_l2c False C @ HOST_l2c False D))"

(* src: crypto/md5/md5.c@97-101 DATA_ORDER, HASH_CTX, HASH_CBLOCK *)
definition md5_md :: "md5_h md32" where
  "md5_md = \<lparr>md_block = md5_block, data_order_big = False, make_string = md5_make_string\<rparr>"

(* src: crypto/md5/md5.c@79-86 MD5_Init *)
definition MD5_Init :: "md5_h md32_ctx" where
  "MD5_Init = md32_init (0x67452301, 0xefcdab89, 0x98badcfe, 0x10325476)"

(* src: crypto/md5/md5.c@102 MD5_Update *)
definition MD5_Update :: "md5_h md32_ctx \<Rightarrow> bytes \<Rightarrow> md5_h md32_ctx" where
  "MD5_Update = HASH_UPDATE md5_md"

(* src: crypto/md5/md5.c@104 MD5_Final *)
definition MD5_Final :: "md5_h md32_ctx \<Rightarrow> bytes option \<times> md5_h md32_ctx" where
  "MD5_Final = HASH_FINAL md5_md"

(* src: crypto/md5/md5.c@63-77 MD5 *)
definition MD5 :: "bytes \<Rightarrow> bytes option" where
  "MD5 data = fst (MD5_Final (MD5_Update MD5_Init data))"

section \<open>The hash of RFC 1321\<close>

text \<open>
  The four functions, the order of the words, the rotations and the constants as the RFC
  describes them; the constants \<open>T\<close> are those of the code's table.
\<close>

definition rfc_f :: "nat \<Rightarrow> u32 \<Rightarrow> u32 \<Rightarrow> u32 \<Rightarrow> u32" where
  "rfc_f r x y z =
     (if r = 0 then (x AND y) OR (NOT x AND z)
      else if r = 1 then (x AND z) OR (y AND NOT z)
      else if r = 2 then x XOR y XOR z
      else y XOR (x OR NOT z))"

definition rfc_k :: "nat \<Rightarrow> nat" where
  "rfc_k i =
     (if i < 16 then i else if i < 32 then (5 * i + 1) mod 16 else if i < 48 then (3 * i + 5) mod 16
      else 7 * i mod 16)"

definition rfc_s :: "nat \<Rightarrow> nat" where
  "rfc_s i = [[7, 12, 17, 22], [5, 9, 14, 20], [4, 11, 16, 23], [6, 10, 15, 21]] ! (i div 16) ! (i mod 4)"

definition md5_T :: "u32 list" where
  "md5_T = map (\<lambda>(k, s, t). t) md5_ops"

definition rfc_step :: "u32 list \<Rightarrow> nat \<Rightarrow> md5_h \<Rightarrow> md5_h" where
  "rfc_step X i st =
     (let (a, b, c, d) = st
      in (d, b + word_rotl (rfc_s i) (a + rfc_f (i div 16) b c d + X ! rfc_k i + md5_T ! i), b, c))"

definition md5_rfc_block :: "md5_h \<Rightarrow> u32 list \<Rightarrow> md5_h" where
  "md5_rfc_block h X =
     (let (a, b, c, d) = h; (A, B, C, D) = fold (rfc_step X) [0 ..< 64] h in (a + A, b + B, c + C, d + D))"

definition le_words :: "bytes \<Rightarrow> u32 list" where
  "le_words data = map (\<lambda>i. word_of_be (rev (take 4 (drop (4 * i) data)))) [0 ..< 16]"

definition md5_rfc :: "bytes \<Rightarrow> bytes" where
  "md5_rfc msg =
     (let (A, B, C, D) =
        md_hash (\<lambda>h data. md5_rfc_block h (le_words data)) 64 8 (\<lambda>n. rev (be_bytes 8 n))
          (0x67452301, 0xefcdab89, 0x98badcfe, 0x10325476) msg
      in concat (map (\<lambda>w. rev (be_bytes 4 (unat w))) [A, B, C, D]))"

section \<open>The code computes it\<close>

lemma md5_ops_rfc: "i < 64 \<Longrightarrow> md5_ops ! i = (rfc_k i, rfc_s i, md5_T ! i)"
proof -
  have l: "length md5_ops = 64" by (simp add: md5_ops_def)
  have "map (\<lambda>i. (rfc_k i, rfc_s i)) [0 ..< 64] = map (\<lambda>(k, s, t). (k, s)) md5_ops"
    by (simp add: upt_rec rfc_k_def rfc_s_def md5_ops_def)
  moreover assume i: "i < 64"
  ultimately have "(rfc_k i, rfc_s i) = (\<lambda>(k, s, t). (k, s)) (md5_ops ! i)"
    using l by (metis (no_types, lifting) add_0 length_upt minus_nat.diff_0 nth_map nth_upt)
  then show ?thesis using i l by (simp add: md5_T_def split: prod.splits)
qed

lemma rfc_s_bounds: "i < 64 \<Longrightarrow> 0 < rfc_s i \<and> rfc_s i < 32"
proof -
  assume "i < 64"
  then have "i div 16 \<in> {0, 1, 2, 3}" "i mod 4 \<in> {0, 1, 2, 3}" by auto
  then show ?thesis by (auto simp: rfc_s_def)
qed

lemma md5_fun_rfc: "i < 64 \<Longrightarrow> md5_fun i b c d = rfc_f (i div 16) b c d"
proof -
  assume "i < 64"
  then have "i div 16 = (if i < 16 then 0 else if i < 32 then 1 else if i < 48 then 2 else 3)"
    by (auto simp: div_nat_eqI)
  then show ?thesis
    by (auto simp: md5_fun_def rfc_f_def md5_H_def)
      (rule bit_word_eqI; auto simp: md5_F_def md5_G_def md5_I_def bit_simps)+
qed

lemma md5_op_rfc:
  "i < 64 \<Longrightarrow> md5_op X i a b c d
     = b + word_rotl (rfc_s i) (a + rfc_f (i div 16) b c d + X ! rfc_k i + md5_T ! i)"
  using rfc_s_bounds [of i]
  by (simp add: md5_op_def md5_ops_rfc md5_R_def Let_def md5_fun_rfc rotate_rotl ac_simps)

lemma md5_steps4_rfc: "i + 3 < 64 \<Longrightarrow> md5_steps4 X i st = fold (rfc_step X) [i, i + 1, i + 2, i + 3] st"
  by (simp add: md5_steps4_def rfc_step_def Let_def md5_op_rfc split: prod.split)

lemma fold_md5_steps4:
  "\<forall>i\<in>set is. i + 3 < 64 \<Longrightarrow> fold (md5_steps4 X) is st
     = fold (rfc_step X) (concat (map (\<lambda>i. [i, i + 1, i + 2, i + 3]) is)) st"
proof (induction "is" arbitrary: st)
  case (Cons i "is")
  then have "i + 3 < 64" and IH: "fold (md5_steps4 X) is st'
      = fold (rfc_step X) (concat (map (\<lambda>i. [i, i + 1, i + 2, i + 3]) is)) st'" for st'
    by simp_all
  then show ?case
    by (simp only: fold.simps concat.simps list.map md5_steps4_rfc fold_append comp_def id_apply IH)
qed simp

lemma md5_block_rfc:
  assumes "64 \<le> length data"
  shows "md5_block h data = md5_rfc_block h (le_words data)"
proof -
  let ?is = "[0, 4, 8, 12, 16, 20, 24, 28, 32, 36, 40, 44, 48, 52, 56, 60 :: nat]"
  have u: "[0 ..< 64] = concat (map (\<lambda>i. [i, i + 1, i + 2, i + 3]) ?is)" by (simp add: upt_rec)
  have "fold (md5_steps4 X) ?is h = fold (rfc_step X) [0 ..< 64] h" for X
    unfolding u by (rule fold_md5_steps4) simp
  moreover have "md5_load data = le_words data"
    using assms by (simp add: md5_load_def le_words_def HOST_c2l_be)
  ultimately show ?thesis by (simp only: md5_block_def md5_rfc_block_def Let_def)
    (simp split: prod.split)
qed

definition md5_holds :: "md5_h md32_ctx \<Rightarrow> bytes \<Rightarrow> bool" where
  "md5_holds = md32_holds md5_md (0x67452301, 0xefcdab89, 0x98badcfe, 0x10325476)"

lemma md32_length_le: "md32_length False n = rev (be_bytes 8 n)"
  by (simp add: be_bytes_8 md32_length_def Let_def)

lemma HOST_l2c_le: "HOST_l2c False w = rev (be_bytes 4 (unat w))"
  by (simp add: be_bytes_4 HOST_l2c_def Let_def)

lemma md5_holds_final:
  assumes "md5_holds c msg"
  shows "fst (MD5_Final c) = Some (md5_rfc msg)"
proof -
  have b: "md32_length False = (\<lambda>n. rev (be_bytes 8 n))" by (rule ext) (rule md32_length_le)
  have e: "md_hash md5_block 64 8 enc h0 msg
      = md_hash (\<lambda>h data. md5_rfc_block h (le_words data)) 64 8 enc h0 msg" for h0 enc
    by (rule md_hash_cong) (simp add: md5_block_rfc)
  show ?thesis
    using HASH_FINAL_spec [OF assms [unfolded md5_holds_def]]
    by (simp add: MD5_Final_def Let_def md5_md_def b e md5_make_string_def md5_rfc_def HOST_l2c_le split: prod.split)
qed

interpretation md5: stream_hash MD5_Init MD5_Update "\<lambda>c. fst (MD5_Final c)" id md5_rfc md5_holds
  by unfold_locales
    (auto simp: md5_holds_def MD5_Init_def MD5_Update_def intro: md32_holds_init md32_holds_update
      md5_holds_final [unfolded md5_holds_def])

text \<open>
  MD5 computes the hash of RFC 1321 for every message, in whatever pieces the message is given
  to the update function, and so does the one-call function.
\<close>
theorem md5_is_rfc1321:
  "fst (MD5_Final (fold (\<lambda>d c. MD5_Update c d) ds MD5_Init)) = Some (md5_rfc (concat ds))
   \<and> MD5 msg = Some (md5_rfc msg)"
  using md5.stream [of ds] md5.one_shot [of msg] by (simp add: MD5_def)

end
