(* ===== verification/Digest.thy ===== *)
theory Digest
  imports Sha512 Md5 "HOL-Library.Monad_Syntax"
begin

unbundle bit_operations_syntax

text \<open>
  The common interface of the message digests (\<^verbatim>\<open>crypto/digest/digest.c\<close>,
  \<^verbatim>\<open>digests.c\<close>, \<^verbatim>\<open>internal.h\<close>): contexts that point to the state of one of
  six hash functions.

  A method table is a constant of the program, and contexts compare its address: it is one of
  the constructors of \<open>evp_md\<close>.  The memory behind \<^verbatim>\<open>md_data\<close> is a state of one
  hash function or bytes that no function has set up yet, and the pointer may be null or left
  behind by a call to free; what C leaves undefined is None.  Contexts have no
  \<^verbatim>\<open>pctx_ops\<close>: the hooks of public-key operations are left out.
\<close>

section \<open>The six hash functions\<close>

(* src: crypto/digest/internal.h@67-95 env_md_st *)
datatype evp_md = EVP_md5 | EVP_sha1 | EVP_sha224 | EVP_sha256 | EVP_sha384 | EVP_sha512

datatype md_state =
  MdMem bytes
| MdMD5 "md5_h md32_ctx"
| MdSHA1 "sha1_h md32_ctx"
| MdSHA256 SHA256_CTX
| MdSHA512 SHA512_CTX

text \<open>The bytes at the place of the buffer of a SHA-512 context.\<close>

fun md_stale :: "md_state \<Rightarrow> bytes" where
  "md_stale (MdMem m) = stale m"
| "md_stale (MdSHA512 c) = sha_u c"
| "md_stale _ = replicate 128 0"

(* src: crypto/digest/digests.c@66-159 md5_init, sha1_init, sha224_init, sha256_init, sha384_init, sha512_init *)
fun md_init :: "evp_md \<Rightarrow> md_state \<Rightarrow> md_state" where
  "md_init EVP_md5 _ = MdMD5 MD5_Init"
| "md_init EVP_sha1 _ = MdSHA1 SHA1_Init"
| "md_init EVP_sha224 _ = MdSHA256 SHA224_Init"
| "md_init EVP_sha256 _ = MdSHA256 SHA256_Init"
| "md_init EVP_sha384 st = MdSHA512 (SHA384_Init (md_stale st))"
| "md_init EVP_sha512 st = MdSHA512 (SHA512_Init (md_stale st))"

(* src: crypto/digest/digests.c@68-163 md5_update, sha1_update, sha224_update, sha256_update, sha384_update, sha512_update *)
fun md_update :: "evp_md \<Rightarrow> md_state \<Rightarrow> nat \<times> bytes \<Rightarrow> md_state option" where
  "md_update EVP_md5 (MdMD5 c) inp = Some (MdMD5 (MD5_Update c (snd inp)))"
| "md_update EVP_sha1 (MdSHA1 c) inp = Some (MdSHA1 (SHA1_Update c (snd inp)))"
| "md_update EVP_sha224 (MdSHA256 c) inp = Some (MdSHA256 (SHA224_Update c (snd inp)))"
| "md_update EVP_sha256 (MdSHA256 c) inp = Some (MdSHA256 (SHA256_Update c (snd inp)))"
| "md_update EVP_sha384 (MdSHA512 c) inp = Some (MdSHA512 (SHA384_Update c inp))"
| "md_update EVP_sha512 (MdSHA512 c) inp = Some (MdSHA512 (SHA512_Update c inp))"
| "md_update _ _ _ = None"

(* src: crypto/digest/digests.c@72-167 md5_final, sha1_final, sha224_final, sha256_final, sha384_final, sha512_final *)
fun md_final :: "evp_md \<Rightarrow> md_state \<Rightarrow> bytes option option" where
  "md_final EVP_md5 (MdMD5 c) = Some (fst (MD5_Final c))"
| "md_final EVP_sha1 (MdSHA1 c) = Some (fst (SHA1_Final c))"
| "md_final EVP_sha224 (MdSHA256 c) = Some (fst (SHA224_Final c))"
| "md_final EVP_sha256 (MdSHA256 c) = Some (fst (SHA256_Final c))"
| "md_final EVP_sha384 (MdSHA512 c) = Some (fst (SHA384_Final False c))"
| "md_final EVP_sha512 (MdSHA512 c) = Some (fst (SHA512_Final False c))"
| "md_final _ _ = None"

(* src: crypto/digest/digests.c@76-173 md5_md, sha1_md, sha224_md, sha256_md, sha384_md, sha512_md *)
fun md_size :: "evp_md \<Rightarrow> nat" where
  "md_size EVP_md5 = 16"
| "md_size EVP_sha1 = 20"
| "md_size EVP_sha224 = 28"
| "md_size EVP_sha256 = 32"
| "md_size EVP_sha384 = 48"
| "md_size EVP_sha512 = 64"

(* src: crypto/digest/digests.c@76-173 md5_md, sha1_md, sha224_md, sha256_md, sha384_md, sha512_md *)
fun block_size :: "evp_md \<Rightarrow> nat" where
  "block_size EVP_md5 = 64"
| "block_size EVP_sha1 = 64"
| "block_size EVP_sha224 = 64"
| "block_size EVP_sha256 = 64"
| "block_size EVP_sha384 = 128"
| "block_size EVP_sha512 = 128"

text \<open>\<^verbatim>\<open>sizeof\<close> of the context of the hash function.\<close>

(* src: crypto/digest/digests.c@76-173 md5_md, sha1_md, sha224_md, sha256_md, sha384_md, sha512_md *)
fun ctx_size :: "evp_md \<Rightarrow> nat" where
  "ctx_size EVP_md5 = 92"
| "ctx_size EVP_sha1 = 96"
| "ctx_size EVP_sha224 = 112"
| "ctx_size EVP_sha256 = 112"
| "ctx_size EVP_sha384 = 216"
| "ctx_size EVP_sha512 = 216"

(* src: crypto/digest/digests.c@182-198 nid_to_digest_mapping *)
definition nid_to_digest_mapping :: "(nat \<times> evp_md) list" where
  "nid_to_digest_mapping =
     [(4, EVP_md5), (64, EVP_sha1), (675, EVP_sha224), (672, EVP_sha256), (673, EVP_sha384), (674, EVP_sha512),
      (66, EVP_sha1), (113, EVP_sha1), (416, EVP_sha1), (8, EVP_md5), (65, EVP_sha1), (671, EVP_sha224),
      (668, EVP_sha256), (669, EVP_sha384), (670, EVP_sha512)]"

(* src: crypto/digest/digests.c@200-211 EVP_get_digestbynid *)
definition EVP_get_digestbynid :: "nat \<Rightarrow> evp_md option" where
  "EVP_get_digestbynid nid = map_of nid_to_digest_mapping nid"

section \<open>Contexts\<close>

datatype md_ptr = MdNull | MdFreed | MdPtr md_state

(* src: include/openssl/digest.h@237-256 env_md_ctx_st *)
record EVP_MD_CTX =
  digest :: "evp_md option"
  flags :: u32
  md_data :: md_ptr
  update :: "evp_md option"

definition EVP_MD_CTX_FLAG_NO_INIT :: u32 where "EVP_MD_CTX_FLAG_NO_INIT = 1"

text \<open>
  Every operation is None where the code reads or frees through a pointer that is null or freed.
  \<open>mem\<close> is what malloc returns: nothing, or memory with some content.
\<close>

type_synonym malloc_md = "bytes option"

(* src: crypto/digest/digest.c EVP_MD_CTX_init *)
definition EVP_MD_CTX_init :: EVP_MD_CTX where
  "EVP_MD_CTX_init = \<lparr>digest = None, flags = 0, md_data = MdNull, update = None\<rparr>"

(* src: crypto/digest/digest.c EVP_MD_CTX_cleanup *)
definition EVP_MD_CTX_cleanup :: "EVP_MD_CTX \<Rightarrow> EVP_MD_CTX option" where
  "EVP_MD_CTX_cleanup ctx =
     (if digest ctx \<noteq> None \<and> md_data ctx = MdFreed then None else Some EVP_MD_CTX_init)"

(* src: crypto/digest/digest.c EVP_MD_CTX_copy_ex *)
definition EVP_MD_CTX_copy_ex :: "malloc_md \<Rightarrow> EVP_MD_CTX \<Rightarrow> EVP_MD_CTX \<Rightarrow> (bool \<times> EVP_MD_CTX) option" where
  "EVP_MD_CTX_copy_ex mem out inp =
     (if digest inp = None then Some (False, out)
      else
        let (tmp_buf, out) =
          (if digest out = digest inp then (md_data out, out\<lparr>md_data := MdNull\<rparr>) else (MdNull, out))
        in case EVP_MD_CTX_cleanup out of
             None \<Rightarrow> None
           | Some _ \<Rightarrow>
               (case md_data inp of
                  MdNull \<Rightarrow> Some (True, inp)
                | MdFreed \<Rightarrow> None
                | MdPtr st \<Rightarrow>
                    (case tmp_buf of
                       MdFreed \<Rightarrow> None
                     | MdPtr _ \<Rightarrow> Some (True, inp)
                     | MdNull \<Rightarrow> if mem = None then Some (False, inp\<lparr>md_data := MdNull\<rparr>) else Some (True, inp))))"

(* src: crypto/digest/digest.c EVP_MD_CTX_copy *)
definition EVP_MD_CTX_copy :: "malloc_md \<Rightarrow> EVP_MD_CTX \<Rightarrow> (bool \<times> EVP_MD_CTX) option" where
  "EVP_MD_CTX_copy mem inp = EVP_MD_CTX_copy_ex mem EVP_MD_CTX_init inp"

(* src: crypto/digest/digest.c EVP_DigestInit_ex *)
definition EVP_DigestInit_ex :: "malloc_md \<Rightarrow> EVP_MD_CTX \<Rightarrow> evp_md \<Rightarrow> (bool \<times> EVP_MD_CTX) option" where
  "EVP_DigestInit_ex mem ctx type =
     (let no_init = (flags ctx AND EVP_MD_CTX_FLAG_NO_INIT \<noteq> 0);
          go = (\<lambda>ctx.
            if no_init then Some (True, ctx)
            else case md_data ctx of
                MdPtr st \<Rightarrow> Some (True, ctx\<lparr>md_data := MdPtr (md_init type st)\<rparr>)
              | _ \<Rightarrow> None)
      in if digest ctx \<noteq> Some type then
           if digest ctx \<noteq> None \<and> md_data ctx = MdFreed then None
           else
             let ctx = (if digest ctx \<noteq> None \<and> md_data ctx \<noteq> MdNull then ctx\<lparr>md_data := MdFreed\<rparr> else ctx);
                 ctx = ctx\<lparr>digest := Some type\<rparr>
             in if no_init then go ctx
                else
                  let ctx = ctx\<lparr>update := Some type\<rparr>
                  in case mem of
                       None \<Rightarrow> Some (False, ctx\<lparr>md_data := MdNull\<rparr>)
                     | Some m \<Rightarrow> go (ctx\<lparr>md_data := MdPtr (MdMem m)\<rparr>)
         else go ctx)"

(* src: crypto/digest/digest.c EVP_DigestInit *)
definition EVP_DigestInit :: "malloc_md \<Rightarrow> evp_md \<Rightarrow> (bool \<times> EVP_MD_CTX) option" where
  "EVP_DigestInit mem type = EVP_DigestInit_ex mem EVP_MD_CTX_init type"

(* src: crypto/digest/digest.c EVP_DigestUpdate *)
definition EVP_DigestUpdate :: "EVP_MD_CTX \<Rightarrow> nat \<times> bytes \<Rightarrow> EVP_MD_CTX option" where
  "EVP_DigestUpdate ctx inp =
     (case (update ctx, md_data ctx) of
        (Some u, MdPtr st) \<Rightarrow> map_option (\<lambda>st. ctx\<lparr>md_data := MdPtr st\<rparr>) (md_update u st inp)
      | _ \<Rightarrow> None)"

text \<open>The digest (nothing if the final function fails) and its size; the state is wiped.\<close>

(* src: crypto/digest/digest.c EVP_DigestFinal_ex *)
definition EVP_DigestFinal_ex :: "EVP_MD_CTX \<Rightarrow> (bytes option \<times> nat \<times> EVP_MD_CTX) option" where
  "EVP_DigestFinal_ex ctx =
     (case (digest ctx, md_data ctx) of
        (Some d, MdPtr st) \<Rightarrow>
          if \<not> md_size d \<le> 64 then None
          else map_option (\<lambda>out. (out, md_size d, ctx\<lparr>md_data := MdPtr (MdMem (replicate (ctx_size d) 0))\<rparr>)) (md_final d st)
      | _ \<Rightarrow> None)"

(* src: crypto/digest/digest.c EVP_DigestFinal *)
definition EVP_DigestFinal :: "EVP_MD_CTX \<Rightarrow> (bytes option \<times> nat \<times> EVP_MD_CTX) option" where
  "EVP_DigestFinal ctx =
     do { (ret, size, ctx) \<leftarrow> EVP_DigestFinal_ex ctx; ctx \<leftarrow> EVP_MD_CTX_cleanup ctx; Some (ret, size, ctx) }"

(* src: crypto/digest/digest.c EVP_Digest *)
definition EVP_Digest :: "malloc_md \<Rightarrow> nat \<times> bytes \<Rightarrow> evp_md \<Rightarrow> bytes option option" where
  "EVP_Digest mem inp type =
     do { (ok, ctx) \<leftarrow> EVP_DigestInit_ex mem EVP_MD_CTX_init type;
          if \<not> ok then do { _ \<leftarrow> EVP_MD_CTX_cleanup ctx; Some None }
          else do {
            ctx \<leftarrow> EVP_DigestUpdate ctx inp;
            (out, _, ctx) \<leftarrow> EVP_DigestFinal_ex ctx;
            _ \<leftarrow> EVP_MD_CTX_cleanup ctx;
            Some out } }"

(* src: crypto/digest/digest.c EVP_MD_CTX_size *)
definition EVP_MD_CTX_size :: "EVP_MD_CTX \<Rightarrow> nat option" where
  "EVP_MD_CTX_size ctx = map_option md_size (digest ctx)"

(* src: crypto/digest/digest.c EVP_MD_CTX_block_size *)
definition EVP_MD_CTX_block_size :: "EVP_MD_CTX \<Rightarrow> nat option" where
  "EVP_MD_CTX_block_size ctx = map_option block_size (digest ctx)"

(* src: crypto/digest/digest.c EVP_MD_CTX_set_flags *)
definition EVP_MD_CTX_set_flags :: "EVP_MD_CTX \<Rightarrow> u32 \<Rightarrow> EVP_MD_CTX" where
  "EVP_MD_CTX_set_flags ctx fl = ctx\<lparr>flags := flags ctx OR fl\<rparr>"

(* src: crypto/digest/digest.c EVP_MD_CTX_clear_flags *)
definition EVP_MD_CTX_clear_flags :: "EVP_MD_CTX \<Rightarrow> u32 \<Rightarrow> EVP_MD_CTX" where
  "EVP_MD_CTX_clear_flags ctx fl = ctx\<lparr>flags := flags ctx AND NOT fl\<rparr>"

(* src: crypto/digest/digest.c EVP_MD_CTX_test_flags *)
definition EVP_MD_CTX_test_flags :: "EVP_MD_CTX \<Rightarrow> u32 \<Rightarrow> u32" where
  "EVP_MD_CTX_test_flags ctx fl = flags ctx AND fl"

section \<open>Every digest is a streaming hash\<close>

definition md_hash_of :: "evp_md \<Rightarrow> bytes \<Rightarrow> bytes" where
  "md_hash_of d =
     (case d of EVP_md5 \<Rightarrow> md5_rfc | EVP_sha1 \<Rightarrow> sha1_fips
      | EVP_sha224 \<Rightarrow> sha256_fips sha224_H0 7 | EVP_sha256 \<Rightarrow> sha256_fips sha256_H0 8
      | EVP_sha384 \<Rightarrow> sha512_fips sha384_H0 6 | EVP_sha512 \<Rightarrow> sha512_fips sha512_H0 8)"

fun md_holds :: "evp_md \<Rightarrow> md_state \<Rightarrow> bytes \<Rightarrow> bool" where
  "md_holds EVP_md5 (MdMD5 c) = md5_holds c"
| "md_holds EVP_sha1 (MdSHA1 c) = sha1_holds c"
| "md_holds EVP_sha224 (MdSHA256 c) = sha256_holds 7 sha224_H0 c"
| "md_holds EVP_sha256 (MdSHA256 c) = sha256_holds 8 sha256_H0 c"
| "md_holds EVP_sha384 (MdSHA512 c) = sha512_holds 6 sha384_H0 c"
| "md_holds EVP_sha512 (MdSHA512 c) = sha512_holds 8 sha512_H0 c"
| "md_holds _ _ = (\<lambda>_. False)"

text \<open>Memory that a context of the digest may be initialised in.\<close>

definition md_mem_ok :: "md_state \<Rightarrow> bool" where
  "md_mem_ok st \<longleftrightarrow> length (md_stale st) = 128"

lemma md_mem_ok_MdMem [simp]: "md_mem_ok (MdMem m)"
  by (simp add: md_mem_ok_def stale_def)

lemma md_holds_mem_ok: "md_holds d st msg \<Longrightarrow> md_mem_ok st"
  by (cases d; cases st) (simp_all add: md_mem_ok_def sha512_holds_def sha512_ok_def)

lemma md_holds_init: "md_mem_ok st \<Longrightarrow> md_holds d (md_init d st) []"
  using md5.holds_init sha1.holds_init sha224.holds_init sha256.holds_init
  by (cases d) (simp_all add: md_mem_ok_def sha512_holds_init)

lemma md_holds_update:
  "md_holds d st xs \<Longrightarrow> \<exists>st'. md_update d st inp = Some st' \<and> md_holds d st' (xs @ snd inp)"
  using md5.holds_update [of _ xs "snd inp"] sha1.holds_update [of _ xs "snd inp"]
    sha224.holds_update [of _ xs "snd inp"] sha256.holds_update [of _ xs "snd inp"]
    sha384.holds_update [of _ xs inp] sha512.holds_update [of _ xs inp]
  by (cases d; cases st) simp_all

lemma md_final_holds: "md_holds d st msg \<Longrightarrow> md_final d st = Some (Some (md_hash_of d msg))"
  using md5.finish_holds [of _ msg] sha1.finish_holds [of _ msg] sha224.finish_holds [of _ msg]
    sha256.finish_holds [of _ msg] sha384.finish_holds [of _ msg] sha512.finish_holds [of _ msg]
  by (cases d; cases st) (simp_all add: md_hash_of_def)

lemma length_md_hash_of [simp]: "length (md_hash_of d msg) = md_size d"
proof -
  have c: "length (concat (map f xs)) = k * length xs" if "\<And>x. length (f x) = k" for f :: "'a \<Rightarrow> bytes" and xs k
    by (induction xs) (simp_all add: that)
  have r: "length (regs_list h) = 8" for h :: "'b regs" by (simp add: regs_list_def split: prod.split)
  show ?thesis
    by (cases d) (simp_all add: md_hash_of_def md5_rfc_def sha1_fips_def sha256_fips_def sha512_fips_def Let_def
        c [of _ 4] c [of _ 8] r split: prod.split)
qed

section \<open>Contexts that hold a message\<close>

definition evp_holds :: "evp_md \<Rightarrow> EVP_MD_CTX \<Rightarrow> bytes \<Rightarrow> bool" where
  "evp_holds d ctx msg \<longleftrightarrow>
     digest ctx = Some d \<and> update ctx = Some d \<and> flags ctx AND EVP_MD_CTX_FLAG_NO_INIT = 0
       \<and> (\<exists>st. md_data ctx = MdPtr st \<and> md_holds d st msg)"

text \<open>Contexts that may be initialised: fresh ones, and those a digest has been used with.\<close>

definition evp_ready :: "EVP_MD_CTX \<Rightarrow> bool" where
  "evp_ready ctx \<longleftrightarrow>
     flags ctx AND EVP_MD_CTX_FLAG_NO_INIT = 0 \<and> md_data ctx \<noteq> MdFreed
       \<and> (\<forall>d. digest ctx = Some d \<longrightarrow> update ctx = Some d \<and> (\<exists>st. md_data ctx = MdPtr st \<and> md_mem_ok st))"

lemma evp_ready_init [simp]: "evp_ready EVP_MD_CTX_init"
  by (simp add: evp_ready_def EVP_MD_CTX_init_def)

lemma evp_holds_ready: "evp_holds d ctx msg \<Longrightarrow> evp_ready ctx"
  using md_holds_mem_ok by (fastforce simp: evp_holds_def evp_ready_def)

lemma EVP_DigestInit_ex_holds:
  assumes "evp_ready ctx"
  shows "\<exists>ctx'. EVP_DigestInit_ex (Some m) ctx d = Some (True, ctx') \<and> evp_holds d ctx' []"
proof (cases "digest ctx = Some d")
  case True
  then obtain st where "md_data ctx = MdPtr st" "md_mem_ok st" "update ctx = Some d"
    using assms by (auto simp: evp_ready_def)
  then show ?thesis using True assms md_holds_init [of st d]
    by (auto simp: EVP_DigestInit_ex_def evp_holds_def evp_ready_def Let_def)
next
  case False
  then show ?thesis using assms md_holds_init [of "MdMem m" d]
    by (auto simp: EVP_DigestInit_ex_def evp_holds_def evp_ready_def Let_def)
qed

lemma EVP_DigestUpdate_holds:
  assumes "evp_holds d ctx msg"
  shows "\<exists>ctx'. EVP_DigestUpdate ctx inp = Some ctx' \<and> evp_holds d ctx' (msg @ snd inp)"
  using assms md_holds_update [of d _ msg inp]
  by (fastforce simp: evp_holds_def EVP_DigestUpdate_def)

lemma md_size_le: "md_size d \<le> 64"
  by (cases d) simp_all

lemma EVP_DigestFinal_ex_holds:
  assumes "evp_holds d ctx msg"
  shows "\<exists>ctx'. EVP_DigestFinal_ex ctx = Some (Some (md_hash_of d msg), md_size d, ctx') \<and> evp_ready ctx'
    \<and> digest ctx' = Some d"
  using assms md_final_holds [of d _ msg] md_size_le [of d]
  by (auto simp: evp_holds_def EVP_DigestFinal_ex_def evp_ready_def)

lemma EVP_MD_CTX_copy_ex_holds:
  assumes "evp_holds d inp msg" "evp_ready out"
  shows "\<exists>out'. EVP_MD_CTX_copy_ex (Some m) out inp = Some (True, out') \<and> evp_holds d out' msg"
  using assms
  by (auto simp: evp_holds_def evp_ready_def EVP_MD_CTX_copy_ex_def EVP_MD_CTX_cleanup_def Let_def
      split: md_ptr.split)

primrec EVP_updates :: "EVP_MD_CTX \<Rightarrow> (nat \<times> bytes) list \<Rightarrow> EVP_MD_CTX option" where
  "EVP_updates ctx [] = Some ctx"
| "EVP_updates ctx (d # ds) = do { ctx \<leftarrow> EVP_DigestUpdate ctx d; EVP_updates ctx ds }"

lemma EVP_updates_holds:
  "evp_holds d ctx msg \<Longrightarrow> \<exists>ctx'. EVP_updates ctx ds = Some ctx' \<and> evp_holds d ctx' (msg @ concat (map snd ds))"
proof (induction ds arbitrary: ctx msg)
  case (Cons x ds)
  obtain ctx' where "EVP_DigestUpdate ctx x = Some ctx'" "evp_holds d ctx' (msg @ snd x)"
    using EVP_DigestUpdate_holds [OF Cons.prems] by blast
  then show ?case using Cons.IH [of ctx' "msg @ snd x"] by simp
qed simp

text \<open>The interface as a contract: a fresh context, updates, and the final call.\<close>

definition evp_fresh :: "evp_md \<Rightarrow> bytes \<Rightarrow> EVP_MD_CTX" where
  "evp_fresh d m = snd (the (EVP_DigestInit (Some m) d))"

lemma evp_fresh_holds: "EVP_DigestInit (Some m) d = Some (True, evp_fresh d m) \<and> evp_holds d (evp_fresh d m) []"
  using EVP_DigestInit_ex_holds [OF evp_ready_init, of m d] by (auto simp: evp_fresh_def EVP_DigestInit_def)

interpretation evp: stream_hash "evp_fresh d m" "\<lambda>c inp. the (EVP_DigestUpdate c inp)"
    "\<lambda>c. fst (the (EVP_DigestFinal_ex c))" snd "md_hash_of d" "evp_holds d" for d m
proof unfold_locales
  show "evp_holds d (evp_fresh d m) []" using evp_fresh_holds by blast
  show "evp_holds d (the (EVP_DigestUpdate c inp)) (xs @ snd inp)" if "evp_holds d c xs" for c xs inp
    using EVP_DigestUpdate_holds [OF that, of inp] by auto
  show "fst (the (EVP_DigestFinal_ex c)) = Some (md_hash_of d xs)" if "evp_holds d c xs" for c xs
    using EVP_DigestFinal_ex_holds [OF that] by auto
qed

lemma EVP_updates_fold:
  "evp_holds d c msg \<Longrightarrow> EVP_updates c ds = Some (fold (\<lambda>inp c. the (EVP_DigestUpdate c inp)) ds c)"
proof (induction ds arbitrary: c msg)
  case (Cons x ds)
  obtain c' where "EVP_DigestUpdate c x = Some c'" "evp_holds d c' (msg @ snd x)"
    using EVP_DigestUpdate_holds [OF Cons.prems] by blast
  then show ?case using Cons.IH [of c' "msg @ snd x"] by simp
qed simp

lemma EVP_Digest_eq: "EVP_Digest mem inp d = Some (map_option (\<lambda>_. md_hash_of d (snd inp)) mem)"
proof (cases mem)
  case None
  then show ?thesis
    by (simp add: EVP_Digest_def EVP_DigestInit_ex_def EVP_MD_CTX_init_def EVP_MD_CTX_cleanup_def)
next
  case (Some m')
  obtain c where c: "EVP_DigestInit_ex (Some m') EVP_MD_CTX_init d = Some (True, c)" "evp_holds d c []"
    using EVP_DigestInit_ex_holds [OF evp_ready_init] by blast
  obtain c' where c': "EVP_DigestUpdate c inp = Some c'" "evp_holds d c' (snd inp)"
    using EVP_DigestUpdate_holds [OF c(2), of inp] by auto
  obtain c'' where "EVP_DigestFinal_ex c' = Some (Some (md_hash_of d (snd inp)), md_size d, c'')" "evp_ready c''"
    using EVP_DigestFinal_ex_holds [OF c'(2)] by blast
  then show ?thesis using c c' Some
    by (simp add: EVP_Digest_def EVP_MD_CTX_cleanup_def evp_ready_def)
qed

text \<open>
  For each of the six digests, a context that is set up over any memory, fed any pieces and
  finished gives the hash the standard defines for the digest, with its size, without ever
  touching memory it may not; so does the one-call function, which fails exactly when there is no
  memory.
\<close>
theorem evp_digest_correct:
  "(do { (ok, ctx) \<leftarrow> EVP_DigestInit (Some m) d;
         ctx \<leftarrow> EVP_updates ctx ds;
         (out, size, ctx) \<leftarrow> EVP_DigestFinal ctx;
         Some (ok, out, size, ctx) })
     = Some (True, Some (md_hash_of d (concat (map snd ds))), md_size d, EVP_MD_CTX_init)
   \<and> EVP_Digest mem inp d = Some (map_option (\<lambda>_. md_hash_of d (snd inp)) mem)
   \<and> length (md_hash_of d (snd inp)) = md_size d"
proof -
  have u: "EVP_updates (evp_fresh d m) ds = Some (fold (\<lambda>inp c. the (EVP_DigestUpdate c inp)) ds (evp_fresh d m))"
    using EVP_updates_fold evp_fresh_holds by blast
  have h: "evp_holds d (fold (\<lambda>inp c. the (EVP_DigestUpdate c inp)) ds (evp_fresh d m)) (concat (map snd ds))"
    using evp.holds_fold [OF evp.holds_init, of d ds m] by simp
  obtain c'' where "EVP_DigestFinal_ex (fold (\<lambda>inp c. the (EVP_DigestUpdate c inp)) ds (evp_fresh d m))
      = Some (Some (md_hash_of d (concat (map snd ds))), md_size d, c'')" "evp_ready c''"
    using EVP_DigestFinal_ex_holds [OF h] by blast
  then show ?thesis using u conjunct1 [OF evp_fresh_holds [of m d]]
    by (simp add: EVP_Digest_eq EVP_DigestFinal_def EVP_MD_CTX_cleanup_def evp_ready_def)
qed

text \<open>
  When there is no memory for the state of a digest, \<^verbatim>\<open>EVP_DigestInit_ex\<close> fails but
  has already recorded the digest: a second attempt with the same digest, with memory or without,
  skips the allocation and writes through a null pointer.
\<close>
theorem digest_init_retry_crashes:
  assumes "flags ctx AND EVP_MD_CTX_FLAG_NO_INIT = 0" "digest ctx \<noteq> Some d" "md_data ctx \<noteq> MdFreed"
  shows "\<exists>ctx'. EVP_DigestInit_ex None ctx d = Some (False, ctx') \<and> EVP_DigestInit_ex mem ctx' d = None"
  using assms by (auto simp: EVP_DigestInit_ex_def Let_def)

theorem digest_init_retry_crashes_witness:
  "\<exists>ctx'. EVP_DigestInit_ex None EVP_MD_CTX_init EVP_sha256 = Some (False, ctx')
     \<and> EVP_DigestInit_ex (Some []) ctx' EVP_sha256 = None"
  by (rule digest_init_retry_crashes) (simp_all add: EVP_MD_CTX_init_def)

end
