(* ===== verification/Hmac.thy ===== *)
theory Hmac
  imports Digest
begin

unbundle bit_operations_syntax

text \<open>
  HMAC (\<^verbatim>\<open>crypto/hmac/hmac.c\<close>) over the digests of \<open>Digest\<close>.  \<open>mem n\<close> is what the
  \<open>n\<close>-th allocation of a call returns, \<open>loc\<close> the address of its local arrays; None is
  a failed assertion or an access C leaves undefined.
\<close>

section \<open>The operations\<close>

abbreviation HMAC_MAX_MD_CBLOCK :: nat where "HMAC_MAX_MD_CBLOCK \<equiv> 128"

(* src: include/openssl/hmac.h@144-151 hmac_ctx_st *)
record HMAC_CTX =
  h_md :: "evp_md option"
  md_ctx :: EVP_MD_CTX
  i_ctx :: EVP_MD_CTX
  o_ctx :: EVP_MD_CTX
  key_length :: nat
  hkey :: bytes

(* src: crypto/hmac/hmac.c HMAC_CTX_init *)
definition HMAC_CTX_init :: "HMAC_CTX \<Rightarrow> HMAC_CTX" where
  "HMAC_CTX_init ctx = ctx\<lparr>i_ctx := EVP_MD_CTX_init, o_ctx := EVP_MD_CTX_init, md_ctx := EVP_MD_CTX_init\<rparr>"

text \<open>
  The call that wipes the context gives the size of a pointer, so it reaches \<open>md\<close> only,
  the first field, and not the key.
\<close>

(* src: crypto/hmac/hmac.c HMAC_CTX_cleanup *)
definition HMAC_CTX_cleanup :: "HMAC_CTX \<Rightarrow> HMAC_CTX option" where
  "HMAC_CTX_cleanup ctx =
     do { i \<leftarrow> EVP_MD_CTX_cleanup (i_ctx ctx);
          oc \<leftarrow> EVP_MD_CTX_cleanup (o_ctx ctx);
          m \<leftarrow> EVP_MD_CTX_cleanup (md_ctx ctx);
          Some (ctx\<lparr>i_ctx := i, o_ctx := oc, md_ctx := m, h_md := None\<rparr>) }"

text \<open>The key, hashed when it is longer than a block, and zeros after it.\<close>

(* src: crypto/hmac/hmac.c@113-131 HMAC_Init_ex *)
definition hmac_set_key :: "(nat \<Rightarrow> malloc_md) \<Rightarrow> HMAC_CTX \<Rightarrow> evp_md \<Rightarrow> nat \<times> bytes \<Rightarrow> (bool \<times> HMAC_CTX) option" where
  "hmac_set_key mem ctx md key =
     (if \<not> block_size md \<le> HMAC_MAX_MD_CBLOCK then None
      else do {
        (ok, ctx) \<leftarrow>
          (if block_size md < length (snd key) then do {
             (ok, c) \<leftarrow> EVP_DigestInit_ex (mem 0) (md_ctx ctx) md;
             if \<not> ok then Some (False, ctx\<lparr>md_ctx := c\<rparr>)
             else do {
               c \<leftarrow> EVP_DigestUpdate c key;
               (out, n, c) \<leftarrow> EVP_DigestFinal_ex c;
               case out of
                 None \<Rightarrow> Some (False, ctx\<lparr>md_ctx := c, key_length := n\<rparr>)
               | Some h \<Rightarrow> Some (True, ctx\<lparr>md_ctx := c, hkey := mem_write (hkey ctx) 0 h, key_length := n\<rparr>) } }
           else if \<not> length (snd key) \<le> HMAC_MAX_MD_CBLOCK then None
           else Some (True, ctx\<lparr>hkey := mem_write (hkey ctx) 0 (snd key), key_length := length (snd key)\<rparr>));
        if \<not> ok then Some (False, ctx)
        else Some (True,
          if key_length ctx \<noteq> HMAC_MAX_MD_CBLOCK
          then ctx\<lparr>hkey := mem_write (hkey ctx) (key_length ctx) (replicate (HMAC_MAX_MD_CBLOCK - key_length ctx) 0)\<rparr>
          else ctx) })"

text \<open>One of the two inner contexts, which starts from a block of the key under a mask.\<close>

(* src: crypto/hmac/hmac.c@134-140 HMAC_Init_ex *)
definition hmac_pad :: "malloc_md \<Rightarrow> nat \<Rightarrow> u8 \<Rightarrow> bytes \<Rightarrow> EVP_MD_CTX \<Rightarrow> evp_md \<Rightarrow> (bool \<times> EVP_MD_CTX) option" where
  "hmac_pad mem loc pad key c md =
     do { (ok, c) \<leftarrow> EVP_DigestInit_ex mem c md;
          if \<not> ok then Some (False, c)
          else do {
            c \<leftarrow> EVP_DigestUpdate c (loc, take (block_size md) (map (\<lambda>k. pad XOR k) key));
            Some (True, c) } }"

(* src: crypto/hmac/hmac.c HMAC_Init_ex *)
definition HMAC_Init_ex ::
  "(nat \<Rightarrow> malloc_md) \<Rightarrow> nat \<Rightarrow> HMAC_CTX \<Rightarrow> (nat \<times> bytes) option \<Rightarrow> evp_md option \<Rightarrow> (bool \<times> HMAC_CTX) option" where
  "HMAC_Init_ex mem loc ctx key md =
     (let reset = (md \<noteq> None \<or> key \<noteq> None);
          ctx = (if md \<noteq> None then ctx\<lparr>h_md := md\<rparr> else ctx)
      in do {
        (ok, ctx) \<leftarrow>
          (if \<not> reset then Some (True, ctx)
           else case h_md ctx of
               None \<Rightarrow> None
             | Some d \<Rightarrow> do {
                 (ok, ctx) \<leftarrow> (case key of None \<Rightarrow> Some (True, ctx) | Some k \<Rightarrow> hmac_set_key mem ctx d k);
                 if \<not> ok then Some (False, ctx)
                 else do {
                   (ok, c) \<leftarrow> hmac_pad (mem 1) loc 0x36 (hkey ctx) (i_ctx ctx) d;
                   if \<not> ok then Some (False, ctx\<lparr>i_ctx := c\<rparr>)
                   else do {
                     (ok, c') \<leftarrow> hmac_pad (mem 2) loc 0x5c (hkey ctx) (o_ctx ctx) d;
                     Some (ok, ctx\<lparr>i_ctx := c, o_ctx := c'\<rparr>) } } });
        if \<not> ok then Some (False, ctx)
        else do {
          (ok, c) \<leftarrow> EVP_MD_CTX_copy_ex (mem 3) (md_ctx ctx) (i_ctx ctx);
          Some (ok, ctx\<lparr>md_ctx := c\<rparr>) } })"

text \<open>
  \<^verbatim>\<open>HMAC_Init\<close> takes the length of the key as an \<^verbatim>\<open>int\<close>, which becomes a size_t again in the
  call.  \<open>key\<close> is the buffer the pointer gives, so a length beyond its end is a read the code
  does not check.
\<close>

(* src: crypto/hmac/hmac.c HMAC_Init *)
definition HMAC_Init ::
  "(nat \<Rightarrow> malloc_md) \<Rightarrow> nat \<Rightarrow> HMAC_CTX \<Rightarrow> (nat \<times> bytes) option \<Rightarrow> int \<Rightarrow> evp_md option \<Rightarrow> (bool \<times> HMAC_CTX) option" where
  "HMAC_Init mem loc ctx key key_len md =
     (let ctx = (if key \<noteq> None \<and> md \<noteq> None then HMAC_CTX_init ctx else ctx) in
      case key of
        None \<Rightarrow> HMAC_Init_ex mem loc ctx None md
      | Some (a, k) \<Rightarrow>
          let n = size_of_int key_len in
          if length k < n then None else HMAC_Init_ex mem loc ctx (Some (a, take n k)) md)"

(* src: crypto/hmac/hmac.c HMAC_Update *)
definition HMAC_Update :: "HMAC_CTX \<Rightarrow> nat \<times> bytes \<Rightarrow> HMAC_CTX option" where
  "HMAC_Update ctx inp = map_option (\<lambda>c. ctx\<lparr>md_ctx := c\<rparr>) (EVP_DigestUpdate (md_ctx ctx) inp)"

text \<open>The code and its length, which is 0 when the call fails.\<close>

(* src: crypto/hmac/hmac.c HMAC_Final *)
definition HMAC_Final :: "malloc_md \<Rightarrow> nat \<Rightarrow> HMAC_CTX \<Rightarrow> (bytes option \<times> nat \<times> HMAC_CTX) option" where
  "HMAC_Final mem loc ctx =
     do { (buf, n, c) \<leftarrow> EVP_DigestFinal_ex (md_ctx ctx);
          case buf of
            None \<Rightarrow> Some (None, 0, ctx\<lparr>md_ctx := c\<rparr>)
          | Some buf \<Rightarrow> do {
              (ok, c) \<leftarrow> EVP_MD_CTX_copy_ex mem c (o_ctx ctx);
              if \<not> ok then Some (None, 0, ctx\<lparr>md_ctx := c\<rparr>)
              else do {
                c \<leftarrow> EVP_DigestUpdate c (loc, take n buf);
                (out, len, c) \<leftarrow> EVP_DigestFinal_ex c;
                Some (out, if out = None then 0 else len, ctx\<lparr>md_ctx := c\<rparr>) } } }"

(* src: crypto/hmac/hmac.c HMAC_size *)
definition HMAC_size :: "HMAC_CTX \<Rightarrow> nat option" where
  "HMAC_size ctx = map_option md_size (h_md ctx)"

(* src: crypto/hmac/hmac.c HMAC_CTX_copy *)
definition HMAC_CTX_copy :: "(nat \<Rightarrow> malloc_md) \<Rightarrow> HMAC_CTX \<Rightarrow> HMAC_CTX \<Rightarrow> (bool \<times> HMAC_CTX) option" where
  "HMAC_CTX_copy mem dest src =
     do { (ok, c) \<leftarrow> EVP_MD_CTX_copy (mem 0) (i_ctx src);
          let dest = dest\<lparr>i_ctx := c\<rparr>;
          if \<not> ok then Some (False, dest)
          else do {
            (ok, c) \<leftarrow> EVP_MD_CTX_copy (mem 1) (o_ctx src);
            let dest = dest\<lparr>o_ctx := c\<rparr>;
            if \<not> ok then Some (False, dest)
            else do {
              (ok, c) \<leftarrow> EVP_MD_CTX_copy (mem 2) (md_ctx src);
              let dest = dest\<lparr>md_ctx := c\<rparr>;
              if \<not> ok then Some (False, dest)
              else Some (True, dest\<lparr>hkey := hkey src, key_length := key_length src, h_md := h_md src\<rparr>) } } }"

text \<open>
  \<open>stack\<close> is what the local context holds before it is initialised.  The size_t length of the
  key is narrowed by the call of \<^verbatim>\<open>HMAC_Init\<close>.
\<close>

(* src: crypto/hmac/hmac.c HMAC *)
definition HMAC ::
  "(nat \<Rightarrow> malloc_md) \<Rightarrow> nat \<Rightarrow> HMAC_CTX \<Rightarrow> evp_md option \<Rightarrow> (nat \<times> bytes) option \<Rightarrow> nat \<times> bytes \<Rightarrow> bytes option option" where
  "HMAC mem loc stack md key data =
     do { (ok, ctx) \<leftarrow> HMAC_Init mem loc (HMAC_CTX_init stack) key (int_of_size (case key of None \<Rightarrow> 0 | Some k \<Rightarrow> length (snd k))) md;
          (out, ctx) \<leftarrow>
            (if \<not> ok then Some (None, ctx)
             else do {
               ctx \<leftarrow> HMAC_Update ctx data;
               (out, n, ctx) \<leftarrow> HMAC_Final (mem 4) loc ctx;
               Some (out, ctx) });
          _ \<leftarrow> HMAC_CTX_cleanup ctx;
          Some out }"

section \<open>HMAC as RFC 2104 defines it\<close>

definition rfc2104_key :: "evp_md \<Rightarrow> bytes \<Rightarrow> bytes" where
  "rfc2104_key d key =
     (let k = (if block_size d < length key then md_hash_of d key else key)
      in k @ replicate (block_size d - length k) 0)"

definition hmac_of_block :: "evp_md \<Rightarrow> bytes \<Rightarrow> bytes \<Rightarrow> bytes" where
  "hmac_of_block d k0 msg =
     md_hash_of d (map (\<lambda>k. 0x5c XOR k) k0 @ md_hash_of d (map (\<lambda>k. 0x36 XOR k) k0 @ msg))"

definition hmac_rfc2104 :: "evp_md \<Rightarrow> bytes \<Rightarrow> bytes \<Rightarrow> bytes" where
  "hmac_rfc2104 d key msg = hmac_of_block d (rfc2104_key d key) msg"

section \<open>The code computes it\<close>

lemma md_size_block: "md_size d < block_size d" "block_size d \<le> 128"
  by (cases d; simp)+

text \<open>A context set up with the block \<open>k0\<close> of a key, and one that has taken in \<open>msg\<close>.\<close>

definition hmac_keyed :: "evp_md \<Rightarrow> bytes \<Rightarrow> HMAC_CTX \<Rightarrow> bool" where
  "hmac_keyed d k0 ctx \<longleftrightarrow>
     h_md ctx = Some d \<and> evp_ready (md_ctx ctx)
       \<and> evp_holds d (i_ctx ctx) (map (\<lambda>k. 0x36 XOR k) k0) \<and> evp_holds d (o_ctx ctx) (map (\<lambda>k. 0x5c XOR k) k0)"

definition hmac_holds :: "evp_md \<Rightarrow> bytes \<Rightarrow> HMAC_CTX \<Rightarrow> bytes \<Rightarrow> bool" where
  "hmac_holds d k0 ctx msg \<longleftrightarrow>
     hmac_keyed d k0 ctx \<and> evp_holds d (md_ctx ctx) (map (\<lambda>k. 0x36 XOR k) k0 @ msg)"

lemma hmac_set_key_block:
  assumes "evp_ready (md_ctx ctx)" "length (hkey ctx) = 128" "\<And>n. mem n \<noteq> None"
  shows "\<exists>ctx'. hmac_set_key mem ctx d key = Some (True, ctx')
    \<and> take (block_size d) (hkey ctx') = rfc2104_key d (snd key) \<and> length (hkey ctx') = 128
    \<and> evp_ready (md_ctx ctx') \<and> i_ctx ctx' = i_ctx ctx \<and> o_ctx ctx' = o_ctx ctx \<and> h_md ctx' = h_md ctx"
proof (cases "block_size d < length (snd key)")
  case True
  obtain m where m: "mem 0 = Some m" using assms(3) [of 0] by blast
  obtain c where c: "EVP_DigestInit_ex (mem 0) (md_ctx ctx) d = Some (True, c)" "evp_holds d c []"
    using EVP_DigestInit_ex_holds [OF assms(1)] m by metis
  obtain c' where c': "EVP_DigestUpdate c key = Some c'" "evp_holds d c' (snd key)"
    using EVP_DigestUpdate_holds [OF c(2), of key] by auto
  obtain c'' where c'': "EVP_DigestFinal_ex c' = Some (Some (md_hash_of d (snd key)), md_size d, c'')" "evp_ready c''"
    using EVP_DigestFinal_ex_holds [OF c'(2)] by blast
  have "md_size d \<noteq> 128" "md_size d \<le> 128" using md_size_block [of d] by simp_all
  then show ?thesis
    using True c c' c'' assms(2) md_size_block [of d]
    by (simp add: hmac_set_key_def rfc2104_key_def Let_def mem_write_def)
next
  case False
  then have "length (snd key) \<le> 128" using md_size_block(2) [of d] by simp
  then show ?thesis using False assms md_size_block(2) [of d]
    by (auto simp: hmac_set_key_def rfc2104_key_def Let_def mem_write_def)
qed

lemma hmac_pad_holds:
  assumes "evp_ready c" "mem \<noteq> None"
  shows "\<exists>c'. hmac_pad mem loc pad key c d = Some (True, c')
    \<and> evp_holds d c' (map (\<lambda>k. pad XOR k) (take (block_size d) key))"
proof -
  obtain m where m: "mem = Some m" using assms(2) by blast
  obtain c1 where c1: "EVP_DigestInit_ex mem c d = Some (True, c1)" "evp_holds d c1 []"
    using EVP_DigestInit_ex_holds [OF assms(1)] m by metis
  show ?thesis
    using EVP_DigestUpdate_holds [OF c1(2), of "(loc, take (block_size d) (map (\<lambda>k. pad XOR k) key))"] c1(1)
    by (auto simp: hmac_pad_def take_map)
qed

lemma HMAC_Init_ex_reset:
  assumes "evp_ready (md_ctx ctx)" "evp_ready (i_ctx ctx)" "evp_ready (o_ctx ctx)" "length (hkey ctx) = 128"
    and mem: "\<And>n. mem n \<noteq> None"
  shows "\<exists>ctx'. HMAC_Init_ex mem loc ctx key (Some d) = Some (True, ctx')
    \<and> hmac_holds d (case key of None \<Rightarrow> take (block_size d) (hkey ctx) | Some k \<Rightarrow> rfc2104_key d (snd k)) ctx' []"
proof -
  let ?k0 = "case key of None \<Rightarrow> take (block_size d) (hkey ctx) | Some k \<Rightarrow> rfc2104_key d (snd k)"
  let ?c = "ctx\<lparr>h_md := Some d\<rparr>"
  obtain c1 where c1: "(case key of None \<Rightarrow> Some (True, ?c) | Some k \<Rightarrow> hmac_set_key mem ?c d k) = Some (True, c1)"
    "take (block_size d) (hkey c1) = ?k0" "evp_ready (md_ctx c1)" "evp_ready (i_ctx c1)" "evp_ready (o_ctx c1)"
    "h_md c1 = Some d"
  proof (cases key)
    case None
    then show thesis using assms by (intro that [of ?c]) simp_all
  next
    case (Some k)
    then show thesis using hmac_set_key_block [of ?c mem d k] assms by (auto intro: that)
  qed
  obtain i where i: "hmac_pad (mem 1) loc 0x36 (hkey c1) (i_ctx c1) d = Some (True, i)"
    "evp_holds d i (map (\<lambda>k. 0x36 XOR k) ?k0)"
    using hmac_pad_holds [OF c1(4) mem] c1(2) by metis
  obtain oc where oc: "hmac_pad (mem 2) loc 0x5c (hkey c1) (o_ctx c1) d = Some (True, oc)"
    "evp_holds d oc (map (\<lambda>k. 0x5c XOR k) ?k0)"
    using hmac_pad_holds [OF c1(5) mem] c1(2) by metis
  obtain m where "mem 3 = Some m" using mem [of 3] by blast
  then obtain c where c: "EVP_MD_CTX_copy_ex (mem 3) (md_ctx c1) i = Some (True, c)"
    "evp_holds d c (map (\<lambda>k. 0x36 XOR k) ?k0)"
    using EVP_MD_CTX_copy_ex_holds [OF i(2) c1(3)] by metis
  show ?thesis
    using c1 i oc c evp_holds_ready [OF c(2)]
    by (simp add: HMAC_Init_ex_def hmac_holds_def hmac_keyed_def Let_def)
qed

lemma HMAC_Init_ex_restart:
  assumes "hmac_keyed d k0 ctx" "\<And>n. mem n \<noteq> None"
  shows "\<exists>ctx'. HMAC_Init_ex mem loc ctx None None = Some (True, ctx') \<and> hmac_holds d k0 ctx' []"
proof -
  obtain m where "mem 3 = Some m" using assms(2) [of 3] by blast
  then obtain c where "EVP_MD_CTX_copy_ex (mem 3) (md_ctx ctx) (i_ctx ctx) = Some (True, c)"
    "evp_holds d c (map (\<lambda>k. 0x36 XOR k) k0)"
    using EVP_MD_CTX_copy_ex_holds assms(1) unfolding hmac_keyed_def by metis
  then show ?thesis using assms(1) evp_holds_ready
    by (auto simp: HMAC_Init_ex_def hmac_holds_def hmac_keyed_def Let_def)
qed

lemma HMAC_Update_holds:
  assumes "hmac_holds d k0 ctx msg"
  shows "\<exists>ctx'. HMAC_Update ctx inp = Some ctx' \<and> hmac_holds d k0 ctx' (msg @ snd inp)"
proof -
  obtain c where "EVP_DigestUpdate (md_ctx ctx) inp = Some c" "evp_holds d c (map (\<lambda>k. 0x36 XOR k) k0 @ msg @ snd inp)"
    using EVP_DigestUpdate_holds [of d "md_ctx ctx" _ inp] assms unfolding hmac_holds_def by fastforce
  then show ?thesis using assms evp_holds_ready
    by (auto simp: HMAC_Update_def hmac_holds_def hmac_keyed_def)
qed

lemma HMAC_Final_holds:
  assumes "hmac_holds d k0 ctx msg" "mem \<noteq> None"
  shows "\<exists>ctx'. HMAC_Final mem loc ctx = Some (Some (hmac_of_block d k0 msg), md_size d, ctx') \<and> hmac_keyed d k0 ctx'"
proof -
  let ?in = "md_hash_of d (map (\<lambda>k. 0x36 XOR k) k0 @ msg)"
  obtain m where m: "mem = Some m" using assms(2) by blast
  have h: "evp_holds d (md_ctx ctx) (map (\<lambda>k. 0x36 XOR k) k0 @ msg)"
    and k: "hmac_keyed d k0 ctx" "evp_holds d (o_ctx ctx) (map (\<lambda>k. 0x5c XOR k) k0)"
    using assms(1) by (simp_all add: hmac_holds_def hmac_keyed_def)
  obtain c1 where c1: "EVP_DigestFinal_ex (md_ctx ctx) = Some (Some ?in, md_size d, c1)" "evp_ready c1"
    using EVP_DigestFinal_ex_holds [OF h] by blast
  obtain c2 where c2: "EVP_MD_CTX_copy_ex mem c1 (o_ctx ctx) = Some (True, c2)"
    "evp_holds d c2 (map (\<lambda>k. 0x5c XOR k) k0)"
    using EVP_MD_CTX_copy_ex_holds [OF k(2) c1(2)] m by metis
  obtain c3 where c3: "EVP_DigestUpdate c2 (loc, ?in) = Some c3"
    "evp_holds d c3 (map (\<lambda>k. 0x5c XOR k) k0 @ ?in)"
    using EVP_DigestUpdate_holds [OF c2(2), of "(loc, ?in)"] by auto
  obtain c4 where "EVP_DigestFinal_ex c3 = Some (Some (hmac_of_block d k0 msg), md_size d, c4)" "evp_ready c4"
    using EVP_DigestFinal_ex_holds [OF c3(2)] unfolding hmac_of_block_def by blast
  then show ?thesis using c1 c2 c3 k(1)
    by (simp add: HMAC_Final_def hmac_keyed_def)
qed

primrec HMAC_updates :: "HMAC_CTX \<Rightarrow> (nat \<times> bytes) list \<Rightarrow> HMAC_CTX option" where
  "HMAC_updates ctx [] = Some ctx"
| "HMAC_updates ctx (d # ds) = do { ctx \<leftarrow> HMAC_Update ctx d; HMAC_updates ctx ds }"

lemma HMAC_updates_holds:
  "hmac_holds d k0 ctx msg \<Longrightarrow> \<exists>ctx'. HMAC_updates ctx ds = Some ctx' \<and> hmac_holds d k0 ctx' (msg @ concat (map snd ds))"
proof (induction ds arbitrary: ctx msg)
  case (Cons x ds)
  obtain ctx' where "HMAC_Update ctx x = Some ctx'" "hmac_holds d k0 ctx' (msg @ snd x)"
    using HMAC_Update_holds [OF Cons.prems] by blast
  then show ?case using Cons.IH [of ctx' "msg @ snd x"] by simp
qed simp

lemma HMAC_CTX_cleanup_keyed:
  "hmac_keyed d k0 ctx \<Longrightarrow> \<exists>ctx'. HMAC_CTX_cleanup ctx = Some ctx' \<and> hkey ctx' = hkey ctx"
  using evp_holds_ready [of d "i_ctx ctx"] evp_holds_ready [of d "o_ctx ctx"]
  by (auto simp: hmac_keyed_def HMAC_CTX_cleanup_def EVP_MD_CTX_cleanup_def evp_ready_def)

text \<open>What a key given with its own length, or no key, leaves to hash.\<close>

abbreviation key_int_len :: "(nat \<times> bytes) option \<Rightarrow> int" where
  "key_int_len key \<equiv> int_of_size (case key of None \<Rightarrow> 0 | Some k \<Rightarrow> length (snd k))"

abbreviation key_is_int :: "(nat \<times> bytes) option \<Rightarrow> bool" where
  "key_is_int key \<equiv> \<forall>k. key = Some k \<longrightarrow> length (snd k) < 2147483648"

lemma HMAC_Init_int_key:
  assumes "key_is_int key"
  shows "HMAC_Init mem loc ctx key (key_int_len key) md =
    HMAC_Init_ex mem loc (if key \<noteq> None \<and> md \<noteq> None then HMAC_CTX_init ctx else ctx) key md"
  using assms by (cases key) (auto simp: HMAC_Init_def int_of_size_small size_of_int_small)

lemma HMAC_Init_reset:
  assumes "length (hkey stack) = 128" "key_is_int key" "\<And>n. mem n \<noteq> None"
  shows "\<exists>ctx'. HMAC_Init mem loc (HMAC_CTX_init stack) key (key_int_len key) (Some d) = Some (True, ctx')
    \<and> hmac_holds d (case key of None \<Rightarrow> take (block_size d) (hkey stack) | Some k \<Rightarrow> rfc2104_key d (snd k)) ctx' []"
  unfolding HMAC_Init_int_key [OF assms(2)]
  using HMAC_Init_ex_reset [of "HMAC_CTX_init stack" mem loc key d] assms(1,3)
  by (cases key) (simp_all add: HMAC_CTX_init_def)

lemma HMAC_one_shot:
  assumes "length (hkey stack) = 128" "key_is_int key" "\<And>n. mem n \<noteq> None"
  shows "HMAC mem loc stack (Some d) key data = Some (Some (hmac_of_block d
    (case key of None \<Rightarrow> take (block_size d) (hkey stack) | Some k \<Rightarrow> rfc2104_key d (snd k)) (snd data)))"
proof -
  let ?k0 = "case key of None \<Rightarrow> take (block_size d) (hkey stack) | Some k \<Rightarrow> rfc2104_key d (snd k)"
  obtain c where c: "HMAC_Init mem loc (HMAC_CTX_init stack) key (key_int_len key) (Some d) = Some (True, c)" "hmac_holds d ?k0 c []"
    using HMAC_Init_reset [where mem = mem, OF assms] by blast
  obtain c1 where c1: "HMAC_Update c data = Some c1" "hmac_holds d ?k0 c1 (snd data)"
    using HMAC_Update_holds [OF c(2), of data] by auto
  obtain c2 where c2: "HMAC_Final (mem 4) loc c1 = Some (Some (hmac_of_block d ?k0 (snd data)), md_size d, c2)"
    "hmac_keyed d ?k0 c2"
    using HMAC_Final_holds [OF c1(2) assms(3)] by blast
  then show ?thesis using c(1) c1(1) HMAC_CTX_cleanup_keyed [OF c2(2)]
    by (auto simp: HMAC_def)
qed

text \<open>
  C7: HMAC over each of the six digests is the function of RFC 2104, for keys shorter than, as long
  as and longer than a block: in one call, in any pieces, and again for a second message when the
  context is restarted without giving the key.  What the memory of the context held before makes no
  difference.  The key has fewer than 2^31 bytes, the lengths an \<^verbatim>\<open>int\<close> holds:
  \<open>hmac_long_key_narrowed\<close> shows what \<^verbatim>\<open>HMAC\<close> computes from a longer one.
\<close>
theorem hmac_is_rfc2104:
  assumes "length (hkey ctx) = 128" "length (snd key) < 2147483648" "\<And>n. mem n \<noteq> None"
  shows "HMAC mem loc ctx (Some d) (Some key) data = Some (Some (hmac_rfc2104 d (snd key) (snd data)))
    \<and> (do { (ok, c) \<leftarrow> HMAC_Init mem loc (HMAC_CTX_init ctx) (Some key) (int (length (snd key))) (Some d);
            c \<leftarrow> HMAC_updates c ds;
            (out, n, c) \<leftarrow> HMAC_Final (mem 4) loc c;
            (ok', c) \<leftarrow> HMAC_Init_ex mem loc c None None;
            c \<leftarrow> HMAC_updates c es;
            (out', n', c) \<leftarrow> HMAC_Final (mem 4) loc c;
            Some (out, n, out', n') })
        = Some (Some (hmac_rfc2104 d (snd key) (concat (map snd ds))), md_size d,
                Some (hmac_rfc2104 d (snd key) (concat (map snd es))), md_size d)"
proof
  have k: "key_is_int (Some key)" "key_int_len (Some key) = int (length (snd key))"
    using assms(2) by (simp_all add: int_of_size_small)
  show "HMAC mem loc ctx (Some d) (Some key) data = Some (Some (hmac_rfc2104 d (snd key) (snd data)))"
    using HMAC_one_shot [where mem = mem and loc = loc and d = d and key = "Some key" and data = data, OF assms(1) k(1) assms(3)] by (simp add: hmac_rfc2104_def)
  let ?k0 = "rfc2104_key d (snd key)"
  obtain c where c: "HMAC_Init mem loc (HMAC_CTX_init ctx) (Some key) (int (length (snd key))) (Some d) = Some (True, c)" "hmac_holds d ?k0 c []"
    using HMAC_Init_reset [where mem = mem and loc = loc and d = d and key = "Some key", OF assms(1) k(1) assms(3)] k(2) by auto
  obtain c1 where c1: "HMAC_updates c ds = Some c1" "hmac_holds d ?k0 c1 (concat (map snd ds))"
    using HMAC_updates_holds [OF c(2), of ds] by auto
  obtain c2 where c2: "HMAC_Final (mem 4) loc c1 = Some (Some (hmac_of_block d ?k0 (concat (map snd ds))), md_size d, c2)"
    "hmac_keyed d ?k0 c2"
    using HMAC_Final_holds [OF c1(2) assms(3)] by blast
  obtain c3 where c3: "HMAC_Init_ex mem loc c2 None None = Some (True, c3)" "hmac_holds d ?k0 c3 []"
    using HMAC_Init_ex_restart [where mem = mem, OF c2(2) assms(3)] by blast
  obtain c4 where c4: "HMAC_updates c3 es = Some c4" "hmac_holds d ?k0 c4 (concat (map snd es))"
    using HMAC_updates_holds [OF c3(2), of es] by auto
  obtain c5 where c5: "HMAC_Final (mem 4) loc c4 = Some (Some (hmac_of_block d ?k0 (concat (map snd es))), md_size d, c5)"
    using HMAC_Final_holds [OF c4(2) assms(3)] by blast
  show "(do { (ok, c) \<leftarrow> HMAC_Init mem loc (HMAC_CTX_init ctx) (Some key) (int (length (snd key))) (Some d);
            c \<leftarrow> HMAC_updates c ds;
            (out, n, c) \<leftarrow> HMAC_Final (mem 4) loc c;
            (ok', c) \<leftarrow> HMAC_Init_ex mem loc c None None;
            c \<leftarrow> HMAC_updates c es;
            (out', n', c) \<leftarrow> HMAC_Final (mem 4) loc c;
            Some (out, n, out', n') })
        = Some (Some (hmac_rfc2104 d (snd key) (concat (map snd ds))), md_size d,
                Some (hmac_rfc2104 d (snd key) (concat (map snd es))), md_size d)"
    by (simp add: c(1) c1(1) c2(1) c3(1) c4(1) c5 hmac_rfc2104_def)
qed

text \<open>A context of the stack whose memory holds \<open>b\<close> everywhere.\<close>

definition hmac_stack :: "u8 \<Rightarrow> HMAC_CTX" where
  "hmac_stack b = \<lparr>h_md = None, md_ctx = EVP_MD_CTX_init, i_ctx = EVP_MD_CTX_init, o_ctx = EVP_MD_CTX_init,
     key_length = 0, hkey = replicate 128 b\<rparr>"

theorem hmac_is_rfc2104_witness:
  "HMAC (\<lambda>_. Some []) 0 (hmac_stack 7) (Some EVP_sha256) (Some (0, [1, 2, 3])) (5, [4, 5])
     = Some (Some (hmac_rfc2104 EVP_sha256 [1, 2, 3] [4, 5]))"
  using hmac_is_rfc2104 [where ctx = "hmac_stack 7" and mem = "\<lambda>_. Some []" and loc = 0 and d = EVP_sha256
    and key = "(0, [1, 2, 3])" and data = "(5, [4, 5])"]
  by (simp add: hmac_stack_def)

text \<open>
  Given a digest and no key, \<^verbatim>\<open>HMAC\<close> does not fail: it takes the key from memory
  nothing has written, whatever the stack held.  And cleaning up a context leaves the key in it.
\<close>
theorem hmac_key_memory:
  assumes "length (hkey stack) = 128" "\<And>n. mem n \<noteq> None" "hmac_keyed d k0 ctx"
  shows "HMAC mem loc stack (Some d) None data = Some (Some (hmac_of_block d (take (block_size d) (hkey stack)) (snd data)))
    \<and> map_option hkey (HMAC_CTX_cleanup ctx) = Some (hkey ctx)"
  using HMAC_one_shot [where mem = mem and loc = loc and d = d and key = None and data = data, OF assms(1) _ assms(2)] HMAC_CTX_cleanup_keyed [OF assms(3)]
  by auto

definition hmac_fresh :: "evp_md \<Rightarrow> HMAC_CTX" where
  "hmac_fresh d = snd (the (HMAC_Init (\<lambda>_. Some []) 0 (HMAC_CTX_init (hmac_stack 0)) (Some (0, [])) 0 (Some d)))"

lemma hmac_fresh_keyed: "hmac_keyed d (rfc2104_key d []) (hmac_fresh d)"
  using HMAC_Init_reset [where stack = "hmac_stack 0" and mem = "\<lambda>_. Some []" and loc = 0 and key = "Some (0, [])" and d = d]
  by (auto simp: hmac_fresh_def hmac_stack_def hmac_holds_def int_of_size_small)

theorem hmac_key_memory_witness:
  "HMAC (\<lambda>_. Some []) 0 (hmac_stack 7) (Some EVP_sha1) None (0, [])
     = Some (Some (hmac_of_block EVP_sha1 (take 64 (replicate 128 7)) []))"
  using hmac_key_memory [where stack = "hmac_stack 7" and mem = "\<lambda>_. Some []" and d = EVP_sha1 and loc = 0
    and data = "(0, [])", OF _ _ hmac_fresh_keyed]
  by (simp add: hmac_stack_def del: take_replicate)

text \<open>
  A key of 2^32 bytes and \<open>n\<close> more loses all but its first \<open>n\<close> bytes when
  \<^verbatim>\<open>HMAC\<close> hands its length to \<^verbatim>\<open>HMAC_Init\<close>; one of between 2^31 and
  2^32 bytes becomes a length no buffer has.
\<close>
theorem hmac_long_key_narrowed:
  assumes "length (hkey stack) = 128" "\<And>n. mem n \<noteq> None" "n < 2147483648" "length k = 4294967296 + n"
    and "2147483648 \<le> length k'" "length k' < 4294967296"
  shows "HMAC mem loc stack (Some d) (Some (a, k)) data = Some (Some (hmac_rfc2104 d (take n k) (snd data)))
    \<and> HMAC mem loc stack (Some d) (Some (a, k')) data = None"
proof
  have "(word_of_nat (length k) :: 32 word) = word_of_nat n"
    using assms(4) by (simp add: word_eq_iff_unsigned unsigned_of_nat take_bit_eq_mod)
  then have n: "int_of_size (length k) = int n"
    using int_of_size_small [OF assms(3)] by (simp add: int_of_size_def)
  have t: "HMAC mem loc stack (Some d) (Some (a, k)) data = HMAC mem loc stack (Some d) (Some (a, take n k)) data"
    using assms(3,4) n by (simp add: HMAC_def HMAC_Init_def size_of_int_small int_of_size_small min_def)
  show "HMAC mem loc stack (Some d) (Some (a, k)) data = Some (Some (hmac_rfc2104 d (take n k) (snd data)))"
    unfolding t using HMAC_one_shot [where mem = mem and loc = loc and d = d and key = "Some (a, take n k)" and data = data,
      OF assms(1) _ assms(2)] assms(3,4) by (simp add: hmac_rfc2104_def)
  have "length k' div 2147483648 = 1" using assms(5,6) by simp
  then have "int (length k') div 2147483648 = 1" using assms(5,6) by linarith
  then have "int_of_size (length k') = int (length k') - 4294967296"
    using assms(5,6) by (simp add: int_of_size_def signed_of_nat signed_take_bit_eq_take_bit_minus bit_iff_odd take_bit_eq_mod)
  then have "size_of_int (int_of_size (length k')) = nat (int (length k') - 4294967296 + 18446744073709551616)"
    using mod_add_self2 [of "int (length k') - 4294967296" 18446744073709551616] assms(5,6)
    by (simp add: size_of_int_def)
  then have "length k' < size_of_int (int_of_size (length k'))" using assms(5) by simp
  then show "HMAC mem loc stack (Some d) (Some (a, k')) data = None"
    by (simp add: HMAC_def HMAC_Init_def Let_def)
qed

end
