(* ===== verification/Bn.thy ===== *)
theory Bn
  imports Md32
begin

unbundle bit_operations_syntax

text \<open>
  Arithmetic on arrays of 64-bit words (\<^verbatim>\<open>crypto/bn/generic.c\<close>, the part of
  \<^verbatim>\<open>mul.c\<close> that multiplies without recursion, and \<^verbatim>\<open>cmp.c\<close>), as compiled
  without assembly and without a 128-bit type: products of words are put together from products
  of 32-bit halves, and the quotient of two words by one is found half a word at a time.

  Every loop reads a word before it writes the word of the same index, so the models return the
  words written and hold also where the result array is one of the arguments.
\<close>

section \<open>Numbers\<close>

text \<open>The value of an array, least significant word first.\<close>

primrec bn_val :: "u64 list \<Rightarrow> nat" where
  "bn_val [] = 0"
| "bn_val (w # ws) = unat w + 2 ^ 64 * bn_val ws"

abbreviation BN_BITS2 :: nat where "BN_BITS2 \<equiv> 64"

lemma bn_val_append: "bn_val (xs @ ys) = bn_val xs + 2 ^ (64 * length xs) * bn_val ys"
  by (induction xs) (simp_all add: power_add algebra_simps)

lemma bn_val_bound: "bn_val xs < 2 ^ (64 * length xs)"
proof (induction xs)
  case (Cons x xs)
  have "unat x < 2 ^ 64" using unsigned_less [of x] by simp
  moreover have "bn_val xs + 1 \<le> 2 ^ (64 * length xs)" using Cons by simp
  then have "2 ^ 64 * (bn_val xs + 1) \<le> 2 ^ 64 * 2 ^ (64 * length xs)" by (intro mult_le_mono2)
  ultimately have "unat x + 2 ^ 64 * bn_val xs < 2 ^ 64 * 2 ^ (64 * length xs)"
    unfolding distrib_left by linarith
  then show ?case by (simp add: power_add)
qed simp

lemma bn_val_replicate [simp]: "bn_val (replicate n 0) = 0"
  by (induction n) simp_all

section \<open>Products of words\<close>

(* src: crypto/bn/generic.c@165 LBITS *)
definition LBITS :: "u64 \<Rightarrow> u64" where
  "LBITS a = a AND 0xffffffff"

(* src: crypto/bn/generic.c@166 HBITS *)
definition HBITS :: "u64 \<Rightarrow> u64" where
  "HBITS a = drop_bit 32 a AND 0xffffffff"

(* src: crypto/bn/generic.c@167 L2HBITS *)
definition L2HBITS :: "u64 \<Rightarrow> u64" where
  "L2HBITS a = push_bit 32 a"

(* src: crypto/bn/generic.c@173-193 mul64 *)
definition mul64 :: "u64 \<Rightarrow> u64 \<Rightarrow> u64 \<Rightarrow> u64 \<Rightarrow> u64 \<times> u64" where
  "mul64 l h bl bh =
     (let lt = l; ht = h;
          m = bh * lt;
          lt = bl * lt;
          m1 = bl * ht;
          ht = bh * ht;
          m = m + m1;
          ht = (if m < m1 then ht + L2HBITS 1 else ht);
          ht = ht + HBITS m;
          m1 = L2HBITS m;
          lt = lt + m1;
          ht = (if lt < m1 then ht + 1 else ht)
      in (lt, ht))"

(* src: crypto/bn/generic.c@195-212 sqr64 *)
definition sqr64 :: "u64 \<Rightarrow> u64 \<times> u64" where
  "sqr64 inp =
     (let h = inp;
          l = LBITS h;
          h = HBITS h;
          m = l * h;
          l = l * l;
          h = h * h;
          h = h + drop_bit 31 (m AND 0xffffffff80000000);
          m = push_bit 33 (m AND 0xffffffff);
          l = l + m;
          h = (if l < m then h + 1 else h)
      in (l, h))"

text \<open>One word of a row: the new word and the carry.\<close>

(* src: crypto/bn/generic.c@214-233 mul_add *)
definition mul_add :: "u64 \<Rightarrow> u64 \<Rightarrow> u64 \<Rightarrow> u64 \<Rightarrow> u64 \<Rightarrow> u64 \<times> u64" where
  "mul_add r a bl bh c =
     (let (l, h) = mul64 (LBITS a) (HBITS a) bl bh;
          l = l + c;
          h = (if l < c then h + 1 else h);
          c = r;
          l = l + c;
          h = (if l < c then h + 1 else h)
      in (l, h))"

(* src: crypto/bn/generic.c@235-251 mul *)
definition mul_word :: "u64 \<Rightarrow> u64 \<Rightarrow> u64 \<Rightarrow> u64 \<Rightarrow> u64 \<times> u64" where
  "mul_word a bl bh c =
     (let (l, h) = mul64 (LBITS a) (HBITS a) bl bh;
          l = l + c;
          h = (if l < c then h + 1 else h)
      in (l, h))"

section \<open>Loops over words\<close>

text \<open>Four words at a time, then one at a time; \<open>step\<close> takes the carry and gives it back.\<close>

fun words_loop :: "('c \<Rightarrow> 'x \<Rightarrow> 'y \<times> 'c) \<Rightarrow> 'c \<Rightarrow> 'x list \<Rightarrow> 'y list \<times> 'c" where
  "words_loop step c (x0 # x1 # x2 # x3 # xs) =
     (let (y0, c) = step c x0; (y1, c) = step c x1; (y2, c) = step c x2; (y3, c) = step c x3;
          (ys, c) = words_loop step c xs
      in (y0 # y1 # y2 # y3 # ys, c))"
| "words_loop step c (x # xs) = (let (y, c) = step c x; (ys, c) = words_loop step c xs in (y # ys, c))"
| "words_loop step c [] = ([], c)"

(* src: crypto/bn/generic.c@336-365 bn_mul_add_words *)
definition bn_mul_add_words :: "u64 list \<Rightarrow> u64 list \<Rightarrow> u64 \<Rightarrow> u64 list \<times> u64" where
  "bn_mul_add_words rp ap w = words_loop (\<lambda>c (r, a). mul_add r a (LBITS w) (HBITS w) c) 0 (zip rp ap)"

(* src: crypto/bn/generic.c@367-395 bn_mul_words *)
definition bn_mul_words :: "u64 list \<Rightarrow> u64 \<Rightarrow> u64 list \<times> u64" where
  "bn_mul_words ap w = words_loop (\<lambda>c a. mul_word a (LBITS w) (HBITS w) c) 0 ap"

(* src: crypto/bn/generic.c@397-418 bn_sqr_words *)
definition bn_sqr_words :: "u64 list \<Rightarrow> u64 list" where
  "bn_sqr_words a = concat (map (\<lambda>(l, h). [l, h]) (fst (words_loop (\<lambda>(c :: unit) a. (sqr64 a, c)) () a)))"

(* src: crypto/bn/generic.c@544-597 bn_add_words *)
definition bn_add_words :: "u64 list \<Rightarrow> u64 list \<Rightarrow> u64 list \<times> u64" where
  "bn_add_words a b =
     words_loop (\<lambda>c (t, b).
       let t = t + c;
           c = (if t < c then 1 else 0);
           l = t + b;
           c = c + (if l < t then 1 else 0)
       in (l, c)) 0 (zip a b)"

(* src: crypto/bn/generic.c@601-652 bn_sub_words *)
definition bn_sub_words :: "u64 list \<Rightarrow> u64 list \<Rightarrow> u64 list \<times> u64" where
  "bn_sub_words a b =
     words_loop (\<lambda>c (t1, t2). (t1 - t2 - c, if t1 \<noteq> t2 then (if t1 < t2 then 1 else 0) else c)) 0 (zip a b)"

section \<open>Word operations are exact\<close>

text \<open>A number of two words.\<close>

definition dval :: "u64 \<times> u64 \<Rightarrow> nat" where
  "dval p = unat (fst p) + 2 ^ 64 * unat (snd p)"

abbreviation B2 :: nat where "B2 \<equiv> 2 ^ 64 * 2 ^ 64"

lemma unat64: "unat (w :: u64) < 2 ^ 64"
  using unsigned_less [of w] by simp

lemma plus_carry64: "unat a + unat b = (if a + b < a then 2 ^ 64 else 0) + unat (a + b)" for a b :: u64
  using word_plus_carry [of a b] by simp

lemma minus_borrow64: "unat (x - y) + unat y = unat x + (if x < y then 2 ^ 64 else 0)" for x y :: u64
  using plus_carry64 [of y "x - y"] by (auto simp: add.commute word_less_nat_alt)

lemma dval_less: "dval p < B2"
  using unat64 [of "fst p"] unat64 [of "snd p"] by (simp add: dval_def)

lemma dval_add_high: "dval (l, h + x) mod B2 = (dval (l, h) + 2 ^ 64 * unat x) mod B2"
proof -
  have "dval (l, h + x) = unat l + 2 ^ 64 * ((unat h + unat x) mod 2 ^ 64)"
    by (simp add: dval_def unat_word_ariths)
  also have "\<dots> = unat l + (2 ^ 64 * (unat h + unat x)) mod B2" by (simp only: mult_mod_right)
  finally have "dval (l, h + x) mod B2 = (unat l + 2 ^ 64 * (unat h + unat x)) mod B2"
    by (simp only: mod_add_right_eq)
  then show ?thesis by (simp only: dval_def fst_conv snd_conv distrib_left add.assoc)
qed

lemma dval_add_low:
  "dval (l + m, if l + m < m then h + 1 else h) mod B2 = (dval (l, h) + unat m) mod B2"
proof -
  have c: "unat m + unat l = (if m + l < m then 2 ^ 64 else 0) + unat (m + l)"
    by (rule plus_carry64)
  show ?thesis
  proof (cases "l + m < m")
    case True
    then have e: "unat l + unat m = 2 ^ 64 + unat (l + m)" using c by (simp add: add.commute)
    have "dval (l + m, h + 1) mod B2 = (dval (l + m, h) + 2 ^ 64) mod B2"
      using dval_add_high [of "l + m" h 1] by simp
    also have "dval (l + m, h) + 2 ^ 64 = dval (l, h) + unat m"
      unfolding dval_def fst_conv snd_conv using e by linarith
    finally show ?thesis using True by simp
  next
    case False
    then have "unat l + unat m = unat (l + m)" using c by (simp add: add.commute)
    then have "dval (l + m, h) = dval (l, h) + unat m"
      unfolding dval_def fst_conv snd_conv by linarith
    then show ?thesis using False by simp
  qed
qed

lemma unat_LBITS: "unat (LBITS a) = unat a mod 2 ^ 32"
proof -
  have "LBITS a = take_bit 32 a"
    by (simp add: LBITS_def take_bit_eq_mask mask_eq_exp_minus_1)
  then show ?thesis by (simp only: unsigned_take_bit_eq) (simp only: take_bit_eq_mod)
qed

lemma unat_HBITS: "unat (HBITS a) = unat a div 2 ^ 32"
proof -
  have d: "unat (drop_bit 32 a) = unat a div 2 ^ 32"
    by (simp only: unat_drop_bit_eq) (simp only: drop_bit_eq_div)
  have "unat a div 2 ^ 32 < 2 ^ 32" using unat64 [of a] by (simp add: less_mult_imp_div_less)
  moreover have "HBITS a = take_bit 32 (drop_bit 32 a)"
    by (simp add: HBITS_def take_bit_eq_mask mask_eq_exp_minus_1)
  ultimately show ?thesis by (simp only: unsigned_take_bit_eq d) (simp only: take_bit_eq_mod mod_less)
qed

lemma unat_L2HBITS: "unat (L2HBITS a) = unat a mod 2 ^ 32 * 2 ^ 32"
proof -
  have "unat (L2HBITS a) = unat a * 2 ^ 32 mod 2 ^ 64"
    by (simp add: L2HBITS_def push_bit_eq_mult unat_word_ariths mult.commute)
  also have "\<dots> = unat a mod 2 ^ 32 * 2 ^ 32"
    using mult_mod_left [of "unat a" "2 ^ 32" "2 ^ 32"] by (simp flip: power_add)
  finally show ?thesis .
qed

lemma LBITS_less: "unat (LBITS a) < 2 ^ 32" and HBITS_less: "unat (HBITS a) < 2 ^ 32"
  using unat64 [of a] by (simp_all add: unat_LBITS unat_HBITS less_mult_imp_div_less)

lemma LBITS_HBITS: "unat (LBITS a) + 2 ^ 32 * unat (HBITS a) = unat a"
  unfolding unat_LBITS unat_HBITS by simp

lemma unat_mult_small:
  assumes "unat (a :: u64) < 2 ^ 32" "unat b < 2 ^ 32"
  shows "unat (a * b) = unat a * unat b"
proof -
  have "unat a * unat b < 2 ^ 32 * 2 ^ 32" using assms by (intro mult_strict_mono) simp_all
  then show ?thesis by (simp add: unat_mult_lem [THEN iffD1])
qed

lemma mul64_exact:
  assumes "unat l < 2 ^ 32" "unat h < 2 ^ 32" "unat bl < 2 ^ 32" "unat bh < 2 ^ 32"
  shows "dval (mul64 l h bl bh) = (unat l + 2 ^ 32 * unat h) * (unat bl + 2 ^ 32 * unat bh)"
proof -
  let ?P = "(unat l + 2 ^ 32 * unat h) * (unat bl + 2 ^ 32 * unat bh)"
  define m where "m = bh * l + bl * h"
  define ht where "ht = (if m < bl * h then bh * h + L2HBITS 1 else bh * h)"
  have r: "mul64 l h bl bh = (bl * l + L2HBITS m,
      if bl * l + L2HBITS m < L2HBITS m then ht + HBITS m + 1 else ht + HBITS m)"
    by (simp add: mul64_def Let_def m_def ht_def)
  have M: "unat (bh * l) + unat (bl * h) = (if m < bl * h then 2 ^ 64 else 0) + unat m"
    using plus_carry64 [of "bl * h" "bh * l"] by (simp only: m_def add.commute)
  have one: "unat (L2HBITS 1) = 2 ^ 32" by (simp add: unat_L2HBITS)
  have ht: "dval (x, ht) mod B2 = (dval (x, bh * h) + (if m < bl * h then 2 ^ 64 * 2 ^ 32 else 0)) mod B2" for x
    using dval_add_high [of x "bh * h" "L2HBITS 1"] by (simp only: ht_def one) simp
  have "dval (mul64 l h bl bh) mod B2 = (dval (bl * l, ht + HBITS m) + unat (L2HBITS m)) mod B2"
    unfolding r by (rule dval_add_low)
  also have "\<dots> = (dval (bl * l, ht) + 2 ^ 64 * unat (HBITS m) + unat (L2HBITS m)) mod B2"
    by (rule mod_add_cong [OF dval_add_high refl])
  also have "\<dots> = (dval (bl * l, bh * h) + (if m < bl * h then 2 ^ 64 * 2 ^ 32 else 0)
      + (2 ^ 64 * unat (HBITS m) + unat (L2HBITS m))) mod B2"
    unfolding add.assoc by (rule mod_add_cong [OF ht refl, unfolded add.assoc])
  also have "2 ^ 64 * unat (HBITS m) + unat (L2HBITS m) = 2 ^ 32 * unat m"
    using LBITS_HBITS [of m] unfolding unat_L2HBITS unat_LBITS by simp
  also have "dval (bl * l, bh * h) + (if m < bl * h then 2 ^ 64 * 2 ^ 32 else 0) + 2 ^ 32 * unat m
      = dval (bl * l, bh * h) + 2 ^ 32 * (unat (bh * l) + unat (bl * h))"
    unfolding M by simp
  also have "\<dots> = ?P"
    unfolding dval_def fst_conv snd_conv
    by (simp only: unat_mult_small [OF assms(3,1)] unat_mult_small [OF assms(3,2)]
        unat_mult_small [OF assms(4,1)] unat_mult_small [OF assms(4,2)]) (simp add: algebra_simps)
  finally have e: "dval (mul64 l h bl bh) mod B2 = ?P mod B2" .
  have "unat l + 2 ^ 32 * unat h < 2 ^ 64" "unat bl + 2 ^ 32 * unat bh < 2 ^ 64" using assms by simp_all
  then have "?P < B2" by (intro mult_strict_mono) simp_all
  then show ?thesis using e dval_less by (simp only: mod_less)
qed

lemma mul64_words: "dval (mul64 (LBITS a) (HBITS a) (LBITS w) (HBITS w)) = unat a * unat w"
  using mul64_exact [OF LBITS_less HBITS_less LBITS_less HBITS_less] by (simp only: LBITS_HBITS)

lemma mul_word_exact: "dval (mul_word a (LBITS w) (HBITS w) c) = unat a * unat w + unat c"
proof -
  obtain l h where m: "mul64 (LBITS a) (HBITS a) (LBITS w) (HBITS w) = (l, h)" by fastforce
  have "dval (mul_word a (LBITS w) (HBITS w) c) mod B2 = (dval (l, h) + unat c) mod B2"
    using dval_add_low [of l c h] by (simp add: mul_word_def m Let_def)
  moreover have "dval (l, h) = unat a * unat w" using mul64_words [of a w] m by simp
  moreover have "unat a * unat w + unat c < B2"
  proof -
    have "unat a * unat w \<le> (2 ^ 64 - 1) * (2 ^ 64 - 1)"
      using unat64 [of a] unat64 [of w] by (intro mult_le_mono) simp_all
    then show ?thesis using unat64 [of c] by simp
  qed
  ultimately show ?thesis using dval_less by (simp only: mod_less)
qed

lemma mul_add_exact: "dval (mul_add r a (LBITS w) (HBITS w) c) = unat r + unat a * unat w + unat c"
proof -
  obtain l h where m: "mul64 (LBITS a) (HBITS a) (LBITS w) (HBITS w) = (l, h)" by fastforce
  let ?h = "if l + c < c then h + 1 else h"
  have "dval (mul_add r a (LBITS w) (HBITS w) c) mod B2 = (dval (l + c, ?h) + unat r) mod B2"
    using dval_add_low [of "l + c" r ?h] by (simp only: mul_add_def m Let_def prod.case)
  also have "\<dots> = (dval (l, h) + unat c + unat r) mod B2"
    by (rule mod_add_cong [OF dval_add_low refl])
  also have "dval (l, h) = unat a * unat w" using mul64_words [of a w] m by simp
  finally have e: "dval (mul_add r a (LBITS w) (HBITS w) c) mod B2 = (unat a * unat w + unat c + unat r) mod B2" .
  have "unat a * unat w \<le> (2 ^ 64 - 1) * (2 ^ 64 - 1)"
    using unat64 [of a] unat64 [of w] by (intro mult_le_mono) simp_all
  then have "unat a * unat w + unat c + unat r < B2" using unat64 [of c] unat64 [of r] by simp
  then show ?thesis using e dval_less by (simp only: mod_less add.commute add.left_commute)
qed

lemma sqr64_exact: "dval (sqr64 a) = unat a * unat a"
proof -
  let ?l = "LBITS a" and ?h = "HBITS a"
  define m where "m = ?l * ?h"
  have m: "unat m = unat ?l * unat ?h"
    unfolding m_def by (rule unat_mult_small [OF LBITS_less HBITS_less])
  have x: "unat (drop_bit 31 (m AND 0xffffffff80000000)) = unat m div 2 ^ 31"
  proof -
    have "(0xffffffff80000000 :: u64) = NOT (mask 31)" by (simp add: mask_eq_exp_minus_1)
    moreover have "drop_bit 31 (m AND NOT (mask 31)) = drop_bit 31 m"
      by (rule bit_word_eqI) (auto simp: bit_simps dest: bit_imp_le_length)
    ultimately have "drop_bit 31 (m AND 0xffffffff80000000) = drop_bit 31 m" by (simp only:)
    then show ?thesis by (simp only: unat_drop_bit_eq) (simp only: drop_bit_eq_div)
  qed
  have y: "unat (push_bit 33 (m AND 0xffffffff)) = unat m mod 2 ^ 31 * 2 ^ 33"
  proof -
    have "(0xffffffff :: u64) = mask 32" by (simp add: mask_eq_exp_minus_1)
    moreover have "push_bit 33 (m AND mask 32) = push_bit 33 (take_bit 31 m)"
      by (rule bit_word_eqI) (auto simp: bit_simps)
    ultimately have "push_bit 33 (m AND 0xffffffff) = push_bit 33 (take_bit 31 m)" by (simp only:)
    moreover have "unat (push_bit 33 (take_bit 31 m)) = unat (take_bit 31 m) * 2 ^ 33"
    proof -
      have "unat (take_bit 31 m) < 2 ^ 31" unfolding unsigned_take_bit_eq by (rule take_bit_nat_less_exp)
      then have "unat (take_bit 31 m) * 2 ^ 33 < 2 ^ 64" by simp
      then show ?thesis by (simp add: push_bit_eq_mult unat_word_ariths mult.commute)
    qed
    ultimately show ?thesis by (simp only: unsigned_take_bit_eq) (simp only: take_bit_eq_mod)
  qed
  have high: "dval (u, v + drop_bit 31 (m AND 0xffffffff80000000)) mod B2
      = (dval (u, v) + 2 ^ 64 * (unat m div 2 ^ 31)) mod B2" for u v
    using dval_add_high [of u v "drop_bit 31 (m AND 0xffffffff80000000)"] unfolding x .
  have "dval (sqr64 a) mod B2 = (dval (?l * ?l, ?h * ?h + drop_bit 31 (m AND 0xffffffff80000000))
      + unat (push_bit 33 (m AND 0xffffffff))) mod B2"
    using dval_add_low by (simp only: sqr64_def Let_def m_def)
  also have "\<dots> = (dval (?l * ?l, ?h * ?h) + 2 ^ 64 * (unat m div 2 ^ 31) + unat m mod 2 ^ 31 * 2 ^ 33) mod B2"
    unfolding y by (rule mod_add_cong [OF high refl])
  finally have e1: "dval (sqr64 a) mod B2
      = (dval (?l * ?l, ?h * ?h) + 2 ^ 64 * (unat m div 2 ^ 31) + unat m mod 2 ^ 31 * 2 ^ 33) mod B2" .
  have "2 ^ 64 * (unat m div 2 ^ 31) + unat m mod 2 ^ 31 * 2 ^ 33 = 2 ^ 33 * unat m"
  proof -
    have "2 ^ 64 * q + r * 2 ^ 33 = 2 ^ 33 * (q * 2 ^ 31 + r)" for q r :: nat by simp
    then show ?thesis by (simp only: div_mult_mod_eq)
  qed
  then have "dval (?l * ?l, ?h * ?h) + 2 ^ 64 * (unat m div 2 ^ 31) + unat m mod 2 ^ 31 * 2 ^ 33
      = dval (?l * ?l, ?h * ?h) + 2 ^ 33 * unat m"
    by (simp only: add.assoc)
  also have "\<dots> = (unat ?l + 2 ^ 32 * unat ?h) * (unat ?l + 2 ^ 32 * unat ?h)"
    unfolding dval_def fst_conv snd_conv m
    by (simp only: unat_mult_small [OF LBITS_less LBITS_less] unat_mult_small [OF HBITS_less HBITS_less])
      (simp add: algebra_simps)
  finally have e: "dval (sqr64 a) mod B2 = unat a * unat a mod B2" unfolding e1 LBITS_HBITS by (rule arg_cong)
  have "unat a * unat a < B2" using unat64 [of a] by (intro mult_strict_mono) simp_all
  then show ?thesis using e dval_less by (simp only: mod_less)
qed

section \<open>Rows\<close>

text \<open>The unrolled loop is the plain one.\<close>

lemma words_loop_Cons:
  "words_loop step c (x # xs) = (let (y, c) = step c x; (ys, c) = words_loop step c xs in (y # ys, c))"
proof (induction xs arbitrary: c x rule: length_induct)
  case (1 xs)
  show ?case
  proof (cases "length xs < 3")
    case True
    then consider "xs = []" | a where "xs = [a]" | a b where "xs = [a, b]"
      by (cases xs rule: remdups_adj.cases) (auto simp: less_Suc_eq numeral_eq_Suc length_Suc_conv)
    then show ?thesis by cases simp_all
  next
    case False
    then obtain a b d ys where xs: "xs = a # b # d # ys"
      by (cases xs rule: remdups_adj.cases; cases "tl (tl xs)") auto
    have "words_loop step c (a # b # d # ys)
        = (let (y, c) = step c a; (ys, c) = words_loop step c (b # d # ys) in (y # ys, c))"
      "words_loop step c (b # d # ys) = (let (y, c) = step c b; (ys, c) = words_loop step c (d # ys) in (y # ys, c))"
      "words_loop step c (d # ys) = (let (y, c) = step c d; (ys, c) = words_loop step c ys in (y # ys, c))" for c
      using 1 by (simp_all add: xs)
    then show ?thesis unfolding xs by (simp add: Let_def split: prod.split)
  qed
qed

text \<open>The sum of what the words stand for, each at its place.\<close>

primrec wsum :: "('x \<Rightarrow> nat) \<Rightarrow> 'x list \<Rightarrow> nat" where
  "wsum f [] = 0"
| "wsum f (x # xs) = f x + 2 ^ 64 * wsum f xs"

lemma words_loop_val:
  fixes step :: "u64 \<Rightarrow> 'x \<Rightarrow> u64 \<times> u64"
  assumes "\<And>c x. P c \<Longrightarrow> x \<in> set xs \<Longrightarrow> dval (step c x) = f x + unat c \<and> P (snd (step c x))"
    and "words_loop step c xs = (ys, c')" "P c"
  shows "bn_val ys + 2 ^ (64 * length xs) * unat c' = wsum f xs + unat c \<and> length ys = length xs \<and> P c'"
  using assms
proof (induction xs arbitrary: c ys)
  case (Cons x xs)
  obtain y c1 where y: "step c x = (y, c1)" by fastforce
  obtain zs where zs: "words_loop step c1 xs = (zs, c')" "ys = y # zs"
    using Cons.prems(2) y by (auto simp: words_loop_Cons split: prod.splits)
  have P: "P c1" and d: "unat y + 2 ^ 64 * unat c1 = f x + unat c"
    using Cons.prems(1) [of c x] Cons.prems(3) y by (auto simp: dval_def)
  have IH: "bn_val zs + 2 ^ (64 * length xs) * unat c' = wsum f xs + unat c1" "length zs = length xs" "P c'"
    using Cons.IH [OF _ zs(1) P] Cons.prems(1) by auto
  have "bn_val ys + 2 ^ (64 * length (x # xs)) * unat c'
      = unat y + 2 ^ 64 * (bn_val zs + 2 ^ (64 * length xs) * unat c')"
    by (simp add: zs(2) power_add algebra_simps)
  also have "\<dots> = wsum f (x # xs) + unat c"
    unfolding IH(1) using d by (simp add: algebra_simps)
  finally show ?case using IH zs(2) by simp
qed simp

lemma wsum_unat: "wsum (\<lambda>a. unat a * k) xs = bn_val xs * k"
  by (induction xs) (simp_all add: algebra_simps)

lemma wsum_zip:
  "length xs = length ys \<Longrightarrow> wsum (\<lambda>(x, y). unat x + unat y * k) (zip xs ys) = bn_val xs + bn_val ys * k"
  by (induction xs ys rule: list_induct2) (simp_all add: algebra_simps)

lemma bn_mul_words_val:
  assumes "bn_mul_words ap w = (rp, c)"
  shows "bn_val rp + 2 ^ (64 * length ap) * unat c = bn_val ap * unat w \<and> length rp = length ap"
  using words_loop_val [where P = "\<lambda>_. True" and f = "\<lambda>a. unat a * unat w", OF _ assms [unfolded bn_mul_words_def]]
  by (simp add: mul_word_exact wsum_unat)

lemma bn_mul_add_words_val:
  assumes "bn_mul_add_words rp ap w = (rp', c)" "length rp = length ap"
  shows "bn_val rp' + 2 ^ (64 * length ap) * unat c = bn_val rp + bn_val ap * unat w \<and> length rp' = length ap"
  using words_loop_val [where P = "\<lambda>_. True" and f = "\<lambda>(r, a). unat r + unat a * unat w",
      OF _ assms(1) [unfolded bn_mul_add_words_def]] assms(2)
  by (simp add: mul_add_exact wsum_zip split: prod.split)

lemma add_step:
  fixes t b c :: u64
  assumes "unat c \<le> 1"
  shows "dval (t + c + b, (if t + c < c then 1 else 0) + (if t + c + b < t + c then 1 else 0)) = unat t + unat b + unat c
    \<and> unat ((if t + c < c then 1 else 0) + (if t + c + b < t + c then 1 else 0) :: u64) \<le> 1"
proof -
  have e1: "unat t + unat c = (if t + c < c then 2 ^ 64 else 0) + unat (t + c)"
    using plus_carry64 [of c t] by (simp add: add.commute)
  have e2: "unat (t + c) + unat b = (if t + c + b < t + c then 2 ^ 64 else 0) + unat (t + c + b)"
    by (rule plus_carry64)
  have "\<not> (t + c < c \<and> t + c + b < t + c)"
    using e1 e2 unat64 [of t] unat64 [of b] unat64 [of "t + c + b"] assms by (auto split: if_splits)
  then show ?thesis using e1 e2 by (auto simp: dval_def)
qed

lemma bn_add_words_val:
  assumes "bn_add_words a b = (r, c)" "length a = length b"
  shows "bn_val r + 2 ^ (64 * length a) * unat c = bn_val a + bn_val b \<and> length r = length a \<and> unat c \<le> 1"
proof -
  have "bn_val r + 2 ^ (64 * length (zip a b)) * unat c = wsum (\<lambda>(t, b). unat t + unat b * 1) (zip a b) + unat (0 :: u64)
      \<and> length r = length (zip a b) \<and> unat c \<le> 1"
  proof (rule words_loop_val [where P = "\<lambda>c. unat c \<le> 1", OF _ assms(1) [unfolded bn_add_words_def Let_def]])
    fix c :: u64 and x :: "u64 \<times> u64"
    assume "unat c \<le> 1"
    then show "dval (case x of (t, b) \<Rightarrow> (t + c + b, (if t + c < c then 1 else 0) + (if t + c + b < t + c then 1 else 0)))
        = (case x of (t, b) \<Rightarrow> unat t + unat b * 1) + unat c
      \<and> unat (snd (case x of (t, b) \<Rightarrow> (t + c + b, (if t + c < c then 1 else 0 :: u64) + (if t + c + b < t + c then 1 else 0)))) \<le> 1"
      unfolding prod.case_eq_if snd_conv mult_1_right by (rule add_step)
  qed simp
  then show ?thesis using assms(2) wsum_zip [of a b 1] by simp
qed

text \<open>A borrow: the difference of two arrays, made positive.\<close>

lemma sub_step:
  fixes t1 t2 c :: u64
  assumes "unat c \<le> 1"
  defines "c' \<equiv> if t1 \<noteq> t2 then (if t1 < t2 then 1 else 0) else c"
  shows "unat (t1 - t2 - c) + unat t2 + unat c = unat t1 + 2 ^ 64 * unat c' \<and> unat c' \<le> 1"
proof -
  note s = minus_borrow64
  have "c = 0 \<or> c = 1"
    using assms(1) by (auto simp: word_unat_eq_iff le_Suc_eq)
  then show ?thesis
    using s [of t1 t2] s [of "t1 - t2" c] unat64 [of t1] unat64 [of t2]
    by (auto simp: c'_def word_less_nat_alt word_unat_eq_iff split: if_splits)
qed

lemma bn_sub_loop_val:
  assumes "words_loop (\<lambda>c (t1, t2). (t1 - t2 - c, if t1 \<noteq> t2 then (if t1 < t2 then 1 else 0) else c)) c (zip a b) = (r, c')"
    and "length a = length b" "unat (c :: u64) \<le> 1"
  shows "bn_val r + bn_val b + unat c = bn_val a + 2 ^ (64 * length a) * unat c' \<and> length r = length a \<and> unat c' \<le> 1"
  using assms(2,1,3)
proof (induction a b arbitrary: c r rule: list_induct2)
  case (Cons x xs y ys)
  let ?c1 = "if x \<noteq> y then (if x < y then 1 else 0) else c"
  obtain zs where zs: "words_loop (\<lambda>c (t1, t2). (t1 - t2 - c, if t1 \<noteq> t2 then (if t1 < t2 then 1 else 0) else c)) ?c1 (zip xs ys) = (zs, c')"
    "r = (x - y - c) # zs"
    using Cons.prems(1) by (auto simp: words_loop_Cons split: prod.splits)
  note st = sub_step [OF Cons.prems(2), of x y]
  have IH: "bn_val zs + bn_val ys + unat ?c1 = bn_val xs + 2 ^ (64 * length xs) * unat c'" "length zs = length xs" "unat c' \<le> 1"
    using Cons.IH [OF zs(1)] st by auto
  have "bn_val r + bn_val (y # ys) + unat c
      = unat (x - y - c) + unat y + unat c + 2 ^ 64 * (bn_val zs + bn_val ys)"
    unfolding zs(2) by simp
  also have "\<dots> = unat x + 2 ^ 64 * (bn_val zs + bn_val ys + unat ?c1)"
    unfolding distrib_left using st by linarith
  finally show ?case unfolding IH(1) using IH(2,3) zs(2) by (simp add: power_add algebra_simps)
qed simp

lemma bn_sub_words_val:
  assumes "bn_sub_words a b = (r, c)" "length a = length b"
  shows "bn_val r + bn_val b = bn_val a + 2 ^ (64 * length a) * unat c \<and> length r = length a \<and> unat c \<le> 1"
  using bn_sub_loop_val [OF assms(1) [unfolded bn_sub_words_def] assms(2)] by simp

section \<open>Products of arrays\<close>

text \<open>
  The rows of a product after the first: the array \<open>r\<close> from the word the last row began at, the
  longer factor and the words of the shorter one that are left.
\<close>

fun mul_rows :: "u64 list \<Rightarrow> u64 list \<Rightarrow> u64 list \<Rightarrow> u64 list" where
  "mul_rows (r0 # r) a (w # b) =
     (let (ws, c) = bn_mul_add_words (take (length a) r) a w
      in r0 # mul_rows (ws @ c # drop (length a + 1) r) a b)"
| "mul_rows r a b = r"

(* src: crypto/bn/mul.c@80-106 bn_mul_normal *)
definition mul_longer :: "u64 list \<Rightarrow> u64 list \<Rightarrow> u64 list \<Rightarrow> u64 list" where
  "mul_longer r a b =
     (case b of
        [] \<Rightarrow> fst (bn_mul_words a 0) @ drop (length a) r
      | b0 # bs \<Rightarrow>
          (let (ws, c) = bn_mul_words a b0
           in mul_rows (ws @ c # drop (length a + 1) r) a bs))"

(* src: crypto/bn/mul.c@64-79 bn_mul_normal *)
definition bn_mul_normal :: "u64 list \<Rightarrow> u64 list \<Rightarrow> u64 list \<Rightarrow> u64 list" where
  "bn_mul_normal r a b = (if length a < length b then mul_longer r b a else mul_longer r a b)"

text \<open>The low half only: row \<open>i\<close> stops at the end of the array and its carry is lost.\<close>

fun mul_low_rows :: "u64 list \<Rightarrow> u64 list \<Rightarrow> u64 list \<Rightarrow> u64 list" where
  "mul_low_rows (r0 # r) a (w # b) =
     (let (ws, c) = bn_mul_add_words r (take (length r) a) w in r0 # mul_low_rows ws a b)"
| "mul_low_rows r a b = r"

(* src: crypto/bn/mul.c@109-134 bn_mul_low_normal *)
definition bn_mul_low_normal :: "u64 list \<Rightarrow> u64 list \<Rightarrow> u64 list" where
  "bn_mul_low_normal a b = mul_low_rows (fst (bn_mul_words a (b ! 0))) a (tl b)"

lemma mul_rows_val:
  "length a + 1 + length b \<le> length r \<Longrightarrow>
   bn_val (take (length a + 1 + length b) (mul_rows r a b))
     = bn_val (take (length a + 1) r) + 2 ^ 64 * (bn_val a * bn_val b)
   \<and> length (mul_rows r a b) = length r
   \<and> drop (length a + 1 + length b) (mul_rows r a b) = drop (length a + 1 + length b) r"
proof (induction r a b rule: mul_rows.induct)
  case (1 r0 r a w b)
  obtain ws c where ws: "bn_mul_add_words (take (length a) r) a w = (ws, c)" by fastforce
  have l: "length (take (length a) r) = length a" using 1(2) by simp
  note v = bn_mul_add_words_val [OF ws l]
  let ?r = "ws @ c # drop (length a + 1) r"
  have lr: "length ?r = length r" using 1(2) v by simp
  have IH: "bn_val (take (length a + 1 + length b) (mul_rows ?r a b))
      = bn_val (take (length a + 1) ?r) + 2 ^ 64 * (bn_val a * bn_val b)"
    "length (mul_rows ?r a b) = length ?r"
    "drop (length a + 1 + length b) (mul_rows ?r a b) = drop (length a + 1 + length b) ?r"
    using 1(1) [OF ws [symmetric] refl] 1(2) lr by auto
  have "take (length a + 1) ?r = ws @ [c]" using v by simp
  then have "bn_val (take (length a + 1) ?r) = bn_val (take (length a) r) + bn_val a * unat w"
    using v by (simp add: bn_val_append)
  moreover have "drop (length a + 1 + length b) ?r = drop (length a + 1 + length b) r"
    using v by (simp add: add.commute)
  ultimately show ?case using IH lr by (simp add: ws algebra_simps)
qed simp_all

lemma mul_longer_val:
  assumes "length a + length b \<le> length r"
  shows "bn_val (take (length a + length b) (mul_longer r a b)) = bn_val a * bn_val b
    \<and> length (mul_longer r a b) = length r
    \<and> drop (length a + length b) (mul_longer r a b) = drop (length a + length b) r"
proof (cases b)
  case Nil
  obtain ws c where ws: "bn_mul_words a 0 = (ws, c)" by fastforce
  show ?thesis using bn_mul_words_val [OF ws] assms Nil by (simp add: mul_longer_def ws)
next
  case (Cons b0 bs)
  obtain ws c where ws: "bn_mul_words a b0 = (ws, c)" by fastforce
  note v = bn_mul_words_val [OF ws]
  have "bn_val (take (length a + 1) (ws @ c # drop (length a + 1) r)) = bn_val a * unat b0"
    using v by (simp add: bn_val_append)
  then show ?thesis
    using mul_rows_val [of a bs "ws @ c # drop (length a + 1) r"] v assms Cons
    by (simp add: mul_longer_def ws algebra_simps)
qed

lemma bn_mul_normal_val:
  assumes "length a + length b \<le> length r"
  shows "bn_val (take (length a + length b) (bn_mul_normal r a b)) = bn_val a * bn_val b
    \<and> length (bn_mul_normal r a b) = length r
    \<and> drop (length a + length b) (bn_mul_normal r a b) = drop (length a + length b) r"
  using mul_longer_val [of a b r] mul_longer_val [of b a r] assms
  by (simp add: bn_mul_normal_def add.commute mult.commute)

lemma bn_val_take: "bn_val (take n xs) = bn_val xs mod 2 ^ (64 * n)"
proof (cases "n \<le> length xs")
  case True
  have "bn_val xs = bn_val (take n xs @ drop n xs)" by simp
  also have "\<dots> = bn_val (take n xs) + 2 ^ (64 * n) * bn_val (drop n xs)"
    unfolding bn_val_append using True by (simp add: min_def)
  finally have "bn_val xs mod 2 ^ (64 * n) = bn_val (take n xs) mod 2 ^ (64 * n)"
    by (simp only: mod_mult_self2)
  moreover have "bn_val (take n xs) < 2 ^ (64 * n)"
    using bn_val_bound [of "take n xs"] True by (simp add: min_absorb2)
  ultimately show ?thesis by simp
next
  case False
  then have "bn_val xs < 2 ^ (64 * n)"
    by (intro less_le_trans [OF bn_val_bound]) simp
  then show ?thesis using False by simp
qed

lemma add_mod_scaled:
  fixes x y N M :: nat
  assumes "x < N" "0 < M"
  shows "(x + N * y) mod (N * M) = x + N * (y mod M)"
proof -
  have "(x + N * y) mod (N * M) = N * ((x + N * y) div N mod M) + (x + N * y) mod N"
    by (rule mod_mult2_eq)
  then show ?thesis using assms by simp
qed

lemma mul_low_rows_val:
  "length r \<le> length a \<Longrightarrow> length b < length r \<Longrightarrow>
   bn_val (mul_low_rows r a b) = (bn_val r + 2 ^ 64 * (bn_val a * bn_val b)) mod 2 ^ (64 * length r)
   \<and> length (mul_low_rows r a b) = length r"
proof (induction r a b rule: mul_low_rows.induct)
  case (1 r0 r a w b)
  obtain ws c where ws: "bn_mul_add_words r (take (length r) a) w = (ws, c)" by fastforce
  let ?n = "length r" and ?M = "2 ^ (64 * length r) :: nat"
  have l: "length (take ?n a) = ?n" using 1(2) by simp
  have v: "bn_val ws + ?M * unat c = bn_val r + bn_val (take ?n a) * unat w" "length ws = ?n"
    using bn_mul_add_words_val [OF ws] l by simp_all
  have "bn_val ws mod ?M = (bn_val ws + ?M * unat c) mod ?M" by simp
  also have "\<dots> = (bn_val r + bn_val a * unat w) mod ?M"
    unfolding v(1) bn_val_take by (metis mod_add_right_eq mod_mult_left_eq)
  finally have w: "bn_val ws mod ?M = (bn_val r + bn_val a * unat w) mod ?M" .
  have IH: "bn_val (mul_low_rows ws a b) = (bn_val ws + 2 ^ 64 * (bn_val a * bn_val b)) mod ?M"
    "length (mul_low_rows ws a b) = length ws"
    using 1(1) [OF ws [symmetric] refl] 1(2,3) v(2) by auto
  have IH': "bn_val (mul_low_rows ws a b)
      = (bn_val r + bn_val a * unat w + 2 ^ 64 * (bn_val a * bn_val b)) mod ?M"
    unfolding IH(1) by (rule mod_add_cong [OF w refl])
  have "bn_val (mul_low_rows (r0 # r) a (w # b))
      = unat r0 + 2 ^ 64 * ((bn_val r + bn_val a * unat w + 2 ^ 64 * (bn_val a * bn_val b)) mod ?M)"
    by (simp add: ws IH')
  also have "\<dots> = (unat r0 + 2 ^ 64 * (bn_val r + bn_val a * unat w + 2 ^ 64 * (bn_val a * bn_val b))) mod (2 ^ 64 * ?M)"
    using unat64 [of r0] by (intro add_mod_scaled [symmetric]) simp_all
  finally show ?case using IH(2) v(2) by (simp add: ws power_add algebra_simps)
qed (simp_all add: mod_less [OF bn_val_bound])

lemma bn_mul_low_normal_val:
  assumes "length a = length b" "b \<noteq> []"
  shows "bn_val (bn_mul_low_normal a b) = bn_val a * bn_val b mod 2 ^ (64 * length a)
    \<and> length (bn_mul_low_normal a b) = length a"
proof -
  obtain w bs where b: "b = w # bs" using assms(2) by (cases b) auto
  obtain ws c where ws: "bn_mul_words a w = (ws, c)" by fastforce
  let ?M = "2 ^ (64 * length a) :: nat"
  have v: "bn_val ws + ?M * unat c = bn_val a * unat w" "length ws = length a"
    using bn_mul_words_val [OF ws] by simp_all
  have "bn_val ws mod ?M = (bn_val ws + ?M * unat c) mod ?M" by simp
  then have "bn_val ws mod ?M = (bn_val a * unat w) mod ?M" unfolding v(1) .
  from mod_add_cong [OF this refl, of "2 ^ 64 * (bn_val a * bn_val bs)"]
  show ?thesis
    using mul_low_rows_val [of ws a bs] v(2) assms
    by (simp add: bn_mul_low_normal_def b ws algebra_simps)
qed

section \<open>Comparison\<close>

text \<open>The words below \<open>i\<close>, from the highest down.\<close>

primrec cmp_down :: "u64 list \<Rightarrow> u64 list \<Rightarrow> nat \<Rightarrow> int" where
  "cmp_down a b 0 = 0"
| "cmp_down a b (Suc i) =
     (if a ! i \<noteq> b ! i then (if b ! i < a ! i then 1 else -1) else cmp_down a b i)"

(* src: crypto/bn/cmp.c@131-152 bn_cmp_words *)
definition bn_cmp_words :: "u64 list \<Rightarrow> u64 list \<Rightarrow> nat \<Rightarrow> int" where
  "bn_cmp_words a b n =
     (let aa = a ! (n - 1); bb = b ! (n - 1)
      in if aa \<noteq> bb then (if bb < aa then 1 else -1) else cmp_down a b (n - 1))"

lemma cmp_down_val:
  "i \<le> length a \<Longrightarrow> i \<le> length b \<Longrightarrow>
   cmp_down a b i = sgn (int (bn_val (take i a)) - int (bn_val (take i b)))"
proof (induction i)
  case (Suc i)
  have t: "bn_val (take (Suc i) xs) = bn_val (take i xs) + 2 ^ (64 * i) * unat (xs ! i)"
    "bn_val (take i xs) < 2 ^ (64 * i)" if "Suc i \<le> length xs" for xs
    using that bn_val_bound [of "take i xs"] by (simp_all add: take_Suc_conv_app_nth bn_val_append)
  have less: "bn_val (take (Suc i) xs) < bn_val (take (Suc i) ys)"
    if "xs ! i < ys ! i" "Suc i \<le> length xs" "Suc i \<le> length ys" for xs ys
  proof -
    have "unat (xs ! i) + 1 \<le> unat (ys ! i)" using that(1) by (simp add: word_less_nat_alt)
    then have "2 ^ (64 * i) * (unat (xs ! i) + 1) \<le> 2 ^ (64 * i) * unat (ys ! i)"
      by (intro mult_le_mono2)
    then show ?thesis using t [OF that(2)] t [OF that(3)] by simp
  qed
  consider "a ! i < b ! i" | "b ! i < a ! i" | "a ! i = b ! i" by (metis linorder_neqE)
  then show ?case
  proof cases
    case 1
    then have "\<not> b ! i < a ! i" "a ! i \<noteq> b ! i" by simp_all
    then show ?thesis using less [OF 1 Suc.prems] by simp
  next
    case 2
    then have "a ! i \<noteq> b ! i" by simp
    then show ?thesis using 2 less [OF 2 Suc.prems(2,1)] by simp
  next
    case 3
    then show ?thesis using Suc t(1) [of a] t(1) [of b] by simp
  qed
qed simp

lemma bn_cmp_words_val:
  assumes "0 < n" "n \<le> length a" "n \<le> length b"
  shows "bn_cmp_words a b n = sgn (int (bn_val (take n a)) - int (bn_val (take n b)))"
proof -
  have "bn_cmp_words a b n = cmp_down a b n"
    using assms(1) by (cases n) (simp_all add: bn_cmp_words_def)
  then show ?thesis using cmp_down_val assms by simp
qed

end
