(* ===== verification/BnComba.thy ===== *)
theory BnComba
  imports Bn
begin

text \<open>
  Products column by column (\<^verbatim>\<open>bn_mul_comba4\<close>, \<^verbatim>\<open>bn_mul_comba8\<close>, \<^verbatim>\<open>bn_sqr_comba4\<close> and
  \<^verbatim>\<open>bn_sqr_comba8\<close> of \<^verbatim>\<open>crypto/bn/generic.c\<close>): all products that go to one word of the
  result are added into a three-word accumulator, whose lowest word is then stored and whose
  others move down.
\<close>

section \<open>The accumulator\<close>

type_synonym acc3 = "u64 \<times> u64 \<times> u64"

(* src: crypto/bn/generic.c@775-786 mul_add_c *)
definition mul_add_c :: "u64 \<Rightarrow> u64 \<Rightarrow> acc3 \<Rightarrow> acc3" where
  "mul_add_c a b c =
     (let (c0, c1, c2) = c;
          (t1, t2) = mul64 (LBITS a) (HBITS a) (LBITS b) (HBITS b);
          c0 = c0 + t1;
          t2 = (if c0 < t1 then t2 + 1 else t2);
          c1 = c1 + t2;
          c2 = (if c1 < t2 then c2 + 1 else c2)
      in (c0, c1, c2))"

(* src: crypto/bn/generic.c@788-805 mul_add_c2 *)
definition mul_add_c2 :: "u64 \<Rightarrow> u64 \<Rightarrow> acc3 \<Rightarrow> acc3" where
  "mul_add_c2 a b c =
     (let (c0, c1, c2) = c;
          (t1, t2) = mul64 (LBITS a) (HBITS a) (LBITS b) (HBITS b);
          c2 = (if bit t2 63 then c2 + 1 else c2);
          t2 = t2 + t2;
          t2 = (if bit t1 63 then t2 + 1 else t2);
          t1 = t1 + t1;
          c0 = c0 + t1;
          (t2, c2) = (if c0 < t1 then (t2 + 1, if t2 + 1 = 0 then c2 + 1 else c2) else (t2, c2));
          c1 = c1 + t2;
          c2 = (if c1 < t2 then c2 + 1 else c2)
      in (c0, c1, c2))"

(* src: crypto/bn/generic.c@807-814 sqr_add_c *)
definition sqr_add_c :: "u64 \<Rightarrow> acc3 \<Rightarrow> acc3" where
  "sqr_add_c a c =
     (let (c0, c1, c2) = c;
          (t1, t2) = sqr64 a;
          c0 = c0 + t1;
          t2 = (if c0 < t1 then t2 + 1 else t2);
          c1 = c1 + t2;
          c2 = (if c1 < t2 then c2 + 1 else c2)
      in (c0, c1, c2))"

section \<open>Columns\<close>

text \<open>
  A column is the list of the products added into it; after it the accumulator's lowest word is
  stored and cleared, which makes the word the highest one of the next column.
\<close>

fun comba_columns :: "(acc3 \<Rightarrow> acc3) list list \<Rightarrow> acc3 \<Rightarrow> u64 list" where
  "comba_columns [] (c0, c1, c2) = [c0]"
| "comba_columns (col # cols) c =
     (let (c0, c1, c2) = fold (\<lambda>p. p) col c in c0 # comba_columns cols (c1, c2, 0))"

(* src: crypto/bn/generic.c bn_mul_comba4 *)
definition bn_mul_comba4 :: "u64 list \<Rightarrow> u64 list \<Rightarrow> u64 list" where
  "bn_mul_comba4 a b =
     (let m = (\<lambda>(i, j). mul_add_c (a ! i) (b ! j)) in comba_columns (map (map m)
       [[(0, 0)],
        [(0, 1), (1, 0)],
        [(2, 0), (1, 1), (0, 2)],
        [(0, 3), (1, 2), (2, 1), (3, 0)],
        [(3, 1), (2, 2), (1, 3)],
        [(2, 3), (3, 2)],
        [(3, 3)]]) (0, 0, 0))"

(* src: crypto/bn/generic.c bn_mul_comba8 *)
definition bn_mul_comba8 :: "u64 list \<Rightarrow> u64 list \<Rightarrow> u64 list" where
  "bn_mul_comba8 a b =
     (let m = (\<lambda>(i, j). mul_add_c (a ! i) (b ! j)) in comba_columns (map (map m)
       [[(0, 0)],
        [(0, 1), (1, 0)],
        [(2, 0), (1, 1), (0, 2)],
        [(0, 3), (1, 2), (2, 1), (3, 0)],
        [(4, 0), (3, 1), (2, 2), (1, 3), (0, 4)],
        [(0, 5), (1, 4), (2, 3), (3, 2), (4, 1), (5, 0)],
        [(6, 0), (5, 1), (4, 2), (3, 3), (2, 4), (1, 5), (0, 6)],
        [(0, 7), (1, 6), (2, 5), (3, 4), (4, 3), (5, 2), (6, 1), (7, 0)],
        [(7, 1), (6, 2), (5, 3), (4, 4), (3, 5), (2, 6), (1, 7)],
        [(2, 7), (3, 6), (4, 5), (5, 4), (6, 3), (7, 2)],
        [(7, 3), (6, 4), (5, 5), (4, 6), (3, 7)],
        [(4, 7), (5, 6), (6, 5), (7, 4)],
        [(7, 5), (6, 6), (5, 7)],
        [(6, 7), (7, 6)],
        [(7, 7)]]) (0, 0, 0))"

(* src: crypto/bn/generic.c bn_sqr_comba4 *)
definition bn_sqr_comba4 :: "u64 list \<Rightarrow> u64 list" where
  "bn_sqr_comba4 a =
     (let s = (\<lambda>i. sqr_add_c (a ! i)); d = (\<lambda>i j. mul_add_c2 (a ! i) (a ! j)) in comba_columns
       [[s 0],
        [d 1 0],
        [s 1, d 2 0],
        [d 3 0, d 2 1],
        [s 2, d 3 1],
        [d 3 2],
        [s 3]] (0, 0, 0))"

(* src: crypto/bn/generic.c bn_sqr_comba8 *)
definition bn_sqr_comba8 :: "u64 list \<Rightarrow> u64 list" where
  "bn_sqr_comba8 a =
     (let s = (\<lambda>i. sqr_add_c (a ! i)); d = (\<lambda>i j. mul_add_c2 (a ! i) (a ! j)) in comba_columns
       [[s 0],
        [d 1 0],
        [s 1, d 2 0],
        [d 3 0, d 2 1],
        [s 2, d 3 1, d 4 0],
        [d 5 0, d 4 1, d 3 2],
        [s 3, d 4 2, d 5 1, d 6 0],
        [d 7 0, d 6 1, d 5 2, d 4 3],
        [s 4, d 5 3, d 6 2, d 7 1],
        [d 7 2, d 6 3, d 5 4],
        [s 5, d 6 4, d 7 3],
        [d 7 4, d 6 5],
        [s 6, d 7 5],
        [d 7 6],
        [s 7]] (0, 0, 0))"

section \<open>The accumulator is exact\<close>

definition tval :: "acc3 \<Rightarrow> nat" where
  "tval c = unat (fst c) + 2 ^ 64 * unat (fst (snd c)) + B2 * unat (snd (snd c))"

text \<open>A step that adds the number \<open>k\<close>, as long as the highest word has room for two carries.\<close>

definition adds :: "(acc3 \<Rightarrow> acc3) \<Rightarrow> nat \<Rightarrow> bool" where
  "adds p k \<longleftrightarrow> k \<le> 2 * ((2 ^ 64 - 1) * (2 ^ 64 - 1)) \<and>
     (\<forall>c. unat (snd (snd c)) + 3 < 2 ^ 64 \<longrightarrow> tval (p c) = tval c + k)"

lemma unat_succ64: "unat (x :: u64) + 1 < 2 ^ 64 \<Longrightarrow> unat (x + 1) = unat x + 1"
  by (simp add: unat_word_ariths)

lemma product_words: "unat a * unat b \<le> (2 ^ 64 - 1) * (2 ^ 64 - 1)" for a b :: u64
  using unat64 [of a] unat64 [of b] by (intro mult_le_mono) simp_all

lemma high_word_room: "dval (t1, t2) \<le> (2 ^ 64 - 1) * (2 ^ 64 - 1) \<Longrightarrow> unat t2 + 1 < 2 ^ 64"
proof (rule ccontr)
  assume d: "dval (t1, t2) \<le> (2 ^ 64 - 1) * (2 ^ 64 - 1)" and "\<not> unat t2 + 1 < 2 ^ 64"
  then have "2 ^ 64 * (2 ^ 64 - 1) \<le> 2 ^ 64 * unat t2" by (intro mult_le_mono2) simp
  then show False using d by (simp add: dval_def)
qed

lemma add3_exact:
  fixes t1 t2 c0 c1 c2 :: u64
  assumes "dval (t1, t2) \<le> (2 ^ 64 - 1) * (2 ^ 64 - 1)" "unat c2 + 1 < 2 ^ 64"
  defines "t \<equiv> if c0 + t1 < t1 then t2 + 1 else t2"
  shows "tval (c0 + t1, c1 + t, if c1 + t < t then c2 + 1 else c2) = tval (c0, c1, c2) + dval (t1, t2)"
proof -
  have t: "unat t = unat t2 + (if c0 + t1 < t1 then 1 else 0)"
    using unat_succ64 [OF high_word_room [OF assms(1)]] by (simp add: t_def)
  have e: "unat t1 + unat c0 = (if c0 + t1 < t1 then 2 ^ 64 else 0) + unat (c0 + t1)"
    using plus_carry64 [of t1 c0] by (simp only: add.commute)
  have f: "unat t + unat c1 = (if c1 + t < t then 2 ^ 64 else 0) + unat (c1 + t)"
    using plus_carry64 [of t c1] by (simp only: add.commute)
  have g: "unat (if c1 + t < t then c2 + 1 else c2) = unat c2 + (if c1 + t < t then 1 else 0)"
    using unat_succ64 [OF assms(2)] by simp
  have m: "2 ^ 64 * (unat t + unat c1) = (if c1 + t < t then B2 else 0) + 2 ^ 64 * unat (c1 + t)"
    unfolding f by simp
  show ?thesis
    unfolding tval_def dval_def fst_conv snd_conv g distrib_left using e m t
    by (simp split: if_splits)
qed

lemma mul_add_c_adds: "adds (mul_add_c a b) (unat a * unat b)"
proof -
  have "tval (mul_add_c a b (c0, c1, c2)) = tval (c0, c1, c2) + unat a * unat b" if "unat c2 + 3 < 2 ^ 64" for c0 c1 c2
  proof -
    obtain t1 t2 where t: "mul64 (LBITS a) (HBITS a) (LBITS b) (HBITS b) = (t1, t2)" by fastforce
    have d: "dval (t1, t2) = unat a * unat b" using mul64_words [of a b] t by simp
    have h: "dval (t1, t2) \<le> (2 ^ 64 - 1) * (2 ^ 64 - 1)" unfolding d by (rule product_words)
    have "tval (mul_add_c a b (c0, c1, c2)) = tval (c0, c1, c2) + dval (t1, t2)"
      using that by (simp only: mul_add_c_def Let_def prod.case t) (intro add3_exact [OF h], simp)
    then show ?thesis using d by simp
  qed
  then show ?thesis using product_words [of a b] unfolding adds_def by auto
qed

lemma sqr_add_c_adds: "adds (sqr_add_c a) (unat a * unat a)"
proof -
  have "tval (sqr_add_c a (c0, c1, c2)) = tval (c0, c1, c2) + unat a * unat a" if "unat c2 + 3 < 2 ^ 64" for c0 c1 c2
  proof -
    obtain t1 t2 where t: "sqr64 a = (t1, t2)" by fastforce
    have d: "dval (t1, t2) = unat a * unat a" using sqr64_exact [of a] t by simp
    have h: "dval (t1, t2) \<le> (2 ^ 64 - 1) * (2 ^ 64 - 1)" unfolding d by (rule product_words)
    have "tval (sqr_add_c a (c0, c1, c2)) = tval (c0, c1, c2) + dval (t1, t2)"
      using that by (simp only: sqr_add_c_def Let_def prod.case t) (intro add3_exact [OF h], simp)
    then show ?thesis using d by simp
  qed
  then show ?thesis using product_words [of a a] unfolding adds_def by auto
qed

lemma top_bit64: "bit x 63 \<longleftrightarrow> 2 ^ 63 \<le> unat x" for x :: u64
proof -
  have "bit x 63 \<longleftrightarrow> odd (unat x div 2 ^ 63)"
    using bit_unsigned_iff [where 'a = nat, of x 63] bit_iff_odd [of "unat x" 63] by (auto dest: bit_imp_le_length)
  moreover have "unat x div 2 ^ 63 < 2" using unat64 [of x] by (simp add: less_mult_imp_div_less)
  ultimately show ?thesis by (auto simp: less_2_cases_iff div_eq_0_iff)
qed

lemma double64: "unat (x + x) + (if bit x 63 then 2 ^ 64 else 0) = 2 * unat x" for x :: u64
  using plus_carry64 [of x x] unat64 [of x] top_bit64 [of x] unat64 [of "x + x"]
  by (auto simp: word_less_nat_alt split: if_splits)

lemma mul_add_c2_adds: "adds (mul_add_c2 a b) (2 * (unat a * unat b))"
proof -
  have "tval (mul_add_c2 a b (c0, c1, c2)) = tval (c0, c1, c2) + 2 * (unat a * unat b)" if c2: "unat c2 + 3 < 2 ^ 64" for c0 c1 c2
  proof -
    obtain t1 t2 where t: "mul64 (LBITS a) (HBITS a) (LBITS b) (HBITS b) = (t1, t2)" by fastforce
    have d: "dval (t1, t2) = unat a * unat b" using mul64_words [of a b] t by simp
    define k2 where "k2 = (if bit t2 63 then c2 + 1 else c2)"
    define u2 where "u2 = (if bit t1 63 then t2 + t2 + 1 else t2 + t2)"
    define u1 where "u1 = t1 + t1"
    define v2 where "v2 = (if c0 + u1 < u1 then u2 + 1 else u2)"
    define w2 where "w2 = (if c0 + u1 < u1 then (if u2 + 1 = 0 then k2 + 1 else k2) else k2)"
    have r: "mul_add_c2 a b (c0, c1, c2) = (c0 + u1, c1 + v2, if c1 + v2 < v2 then w2 + 1 else w2)"
      by (simp add: mul_add_c2_def Let_def t k2_def u2_def u1_def v2_def w2_def)
    have o1: "unat x + 1 < 2 ^ 64" if "x = y + y" for x y :: u64
    proof -
      have "even (unat x)"
        using double64 [of y, folded that] by (cases "bit y 63") (simp_all, presburger+)
      then have "unat x \<noteq> 2 ^ 64 - 1" by auto
      then show ?thesis using unat64 [of x] by simp
    qed
    have u2: "unat u2 = unat (t2 + t2) + (if bit t1 63 then 1 else 0)"
      using unat_succ64 [OF o1 [OF refl], of t2] by (simp add: u2_def)
    have k2: "unat k2 = unat c2 + (if bit t2 63 then 1 else 0)"
      using unat_succ64 [of c2] c2 by (simp add: k2_def)
    have w2: "unat w2 = unat k2 + (if c0 + u1 < u1 \<and> u2 + 1 = 0 then 1 else 0)"
      using unat_succ64 [of k2] c2 k2 by (simp add: w2_def)
    have s: "unat (u2 + 1) + (if u2 + 1 = 0 then 2 ^ 64 else 0) = unat u2 + 1"
      using plus_carry64 [of 1 u2] by (auto simp: add.commute word_less_nat_alt unat_eq_zero)
    have v2: "unat v2 + (if c0 + u1 < u1 \<and> u2 + 1 = 0 then 2 ^ 64 else 0) = unat u2 + (if c0 + u1 < u1 then 1 else 0)"
      using s by (simp add: v2_def)
    have z2: "unat (if c1 + v2 < v2 then w2 + 1 else w2) = unat w2 + (if c1 + v2 < v2 then 1 else 0)"
      using unat_succ64 [of w2] c2 k2 w2 by simp
    have e: "unat u1 + unat c0 = (if c0 + u1 < u1 then 2 ^ 64 else 0) + unat (c0 + u1)"
      using plus_carry64 [of u1 c0] by (simp only: add.commute)
    have f: "unat v2 + unat c1 = (if c1 + v2 < v2 then 2 ^ 64 else 0) + unat (c1 + v2)"
      using plus_carry64 [of v2 c1] by (simp only: add.commute)
    have "tval (mul_add_c2 a b (c0, c1, c2)) = tval (c0, c1, c2) + 2 * dval (t1, t2)"
      unfolding r tval_def dval_def fst_conv snd_conv z2 w2 k2
      using e f v2 u2 double64 [of t1, folded u1_def] double64 [of t2]
      by (simp split: if_splits)
    then show ?thesis using d by simp
  qed
  then show ?thesis using product_words [of a b] unfolding adds_def by auto
qed

section \<open>The sum of the columns\<close>

lemma fold_adds:
  assumes "list_all2 adds ps ks" "length ks \<le> n" "n \<le> 8" "tval c < B2 + (8 - n) * (2 * B2)"
  shows "tval (fold (\<lambda>p. p) ps c) = tval c + sum_list ks"
  using assms
proof (induction ps ks arbitrary: c n rule: list_all2_induct)
  case (Cons p ps k ks)
  have n: "0 < n" using Cons.prems by simp
  have "B2 * unat (snd (snd c)) \<le> tval c" by (simp add: tval_def)
  also have "\<dots> < B2 * 17" using Cons.prems(3) n by (intro less_le_trans [OF Cons.prems(3)]) simp
  finally have "unat (snd (snd c)) < 17" by simp
  then have p: "tval (p c) = tval c + k" "k \<le> 2 * ((2 ^ 64 - 1) * (2 ^ 64 - 1))"
    using Cons.hyps(1) unfolding adds_def by (simp_all del: split_paired_All)
  have "tval (p c) < B2 + (8 - (n - 1)) * (2 * B2)"
  proof -
    have "8 - (n - 1) = (8 - n) + 1" using n Cons.prems(2) by simp
    then have "(8 - (n - 1)) * (2 * B2) = (8 - n) * (2 * B2) + 2 * B2" by (simp only: distrib_right mult_1)
    then show ?thesis using p Cons.prems(3) by simp
  qed
  then show ?case using Cons.IH [of "n - 1" "p c"] p Cons.prems by simp
qed simp

lemma comba_columns_val:
  assumes "list_all2 (list_all2 adds) cols ks" "\<forall>k \<in> set ks. length k \<le> 8" "snd (snd c) = 0"
  shows "bn_val (comba_columns cols c) = (tval c + wsum sum_list ks) mod (2 ^ 64 * 2 ^ (64 * length cols))
    \<and> length (comba_columns cols c) = length cols + 1"
  using assms
proof (induction cols ks arbitrary: c rule: list_all2_induct)
  case Nil
  obtain c0 c1 where c: "c = (c0, c1, 0)" using Nil.prems(2) by (cases c) auto
  have "tval c = unat c0 + 2 ^ 64 * unat c1" by (simp add: c tval_def)
  then show ?case using unat64 [of c0] by (simp add: c)
next
  case (Cons col cols k ks)
  obtain c0 c1 c2 where f: "fold (\<lambda>p. p) col c = (c0, c1, c2)" by (cases "fold (\<lambda>p. p) col c") auto
  have "tval c < B2" using dval_less [of "(fst c, fst (snd c))"] Cons.prems(2) by (simp add: tval_def dval_def)
  then have t: "tval (c0, c1, c2) = tval c + sum_list k"
    using fold_adds [OF Cons.hyps(1), of 8 c] Cons.prems(1) f by simp
  have IH: "bn_val (comba_columns cols (c1, c2, 0)) = (tval (c1, c2, 0) + wsum sum_list ks) mod (2 ^ 64 * 2 ^ (64 * length cols))"
    "length (comba_columns cols (c1, c2, 0)) = length cols + 1"
    using Cons.IH [of "(c1, c2, 0)"] Cons.prems(1) by auto
  have "tval (c0, c1, c2) = unat c0 + 2 ^ 64 * tval (c1, c2, 0)" by (simp add: tval_def)
  then have s: "tval c + wsum sum_list (k # ks) = unat c0 + 2 ^ 64 * (tval (c1, c2, 0) + wsum sum_list ks)"
    using t by simp
  have "bn_val (comba_columns (col # cols) c)
      = unat c0 + 2 ^ 64 * ((tval (c1, c2, 0) + wsum sum_list ks) mod (2 ^ 64 * 2 ^ (64 * length cols)))"
    by (simp add: f IH)
  also have "\<dots> = (tval c + wsum sum_list (k # ks)) mod (2 ^ 64 * (2 ^ 64 * 2 ^ (64 * length cols)))"
    unfolding s using unat64 [of c0] by (intro add_mod_scaled [symmetric]) simp_all
  finally show ?case using IH(2) by (simp add: f power_add mult.assoc)
qed

lemmas comba_adds = mul_add_c_adds sqr_add_c_adds mul_add_c2_adds

lemma comba_columns_eq:
  assumes "list_all2 (list_all2 adds) cols ks" "\<forall>k \<in> set ks. length k \<le> 8" "length cols = n" "N = n + 1"
  shows "bn_val (comba_columns cols (0, 0, 0)) = (tval (0, 0, 0) + wsum sum_list ks) mod (2 ^ 64 * 2 ^ (64 * n))
    \<and> length (comba_columns cols (0, 0, 0)) = N"
  using comba_columns_val [OF assms(1,2), of "(0, 0, 0)"] assms(3,4) by simp

lemma length_4E:
  assumes "length xs = 4"
  obtains x0 x1 x2 x3 where "xs = [x0, x1, x2, x3]"
  using assms by (auto simp: numeral_eq_Suc length_Suc_conv)

lemma length_8E:
  assumes "length xs = 8"
  obtains x0 x1 x2 x3 x4 x5 x6 x7 where "xs = [x0, x1, x2, x3, x4, x5, x6, x7]"
  using assms by (auto simp: numeral_eq_Suc length_Suc_conv)

lemma product_bound:
  assumes "length xs = n" "length ys = n"
  shows "bn_val xs * bn_val ys < 2 ^ (64 * n) * 2 ^ (64 * n)"
  using bn_val_bound [of xs] bn_val_bound [of ys] assms by (intro mult_strict_mono) simp_all

lemma bn_mul_comba4_val:
  assumes "length a = 4" "length b = 4"
  shows "bn_val (bn_mul_comba4 a b) = bn_val a * bn_val b \<and> length (bn_mul_comba4 a b) = 8"
proof -
  obtain a0 a1 a2 a3 where a: "a = [a0, a1, a2, a3]" using assms(1) by (rule length_4E)
  obtain b0 b1 b2 b3 where b: "b = [b0, b1, b2, b3]" using assms(2) by (rule length_4E)
  let ?k = "\<lambda>(i, j). unat (a ! i) * unat (b ! j)"
  let ?ks = "map (map ?k)
       [[(0, 0)], [(0, 1), (1, 0)], [(2, 0), (1, 1), (0, 2)], [(0, 3), (1, 2), (2, 1), (3, 0)],
        [(3, 1), (2, 2), (1, 3)], [(2, 3), (3, 2)], [(3, 3)]]"
  have "wsum sum_list ?ks = bn_val a * bn_val b"
    by (simp add: a b algebra_simps)
  moreover have "bn_val a * bn_val b < 2 ^ 64 * 2 ^ (64 * 7)"
    using product_bound [OF assms] by simp
  moreover have "bn_val (bn_mul_comba4 a b) = (tval (0, 0, 0) + wsum sum_list ?ks) mod (2 ^ 64 * 2 ^ (64 * 7))
      \<and> length (bn_mul_comba4 a b) = 8"
    unfolding bn_mul_comba4_def Let_def
    by (rule comba_columns_eq [where ks = ?ks]) (simp_all add: comba_adds)
  ultimately show ?thesis by (simp add: tval_def)
qed

lemma bn_sqr_comba4_val:
  assumes "length a = 4"
  shows "bn_val (bn_sqr_comba4 a) = bn_val a * bn_val a \<and> length (bn_sqr_comba4 a) = 8"
proof -
  obtain a0 a1 a2 a3 where a: "a = [a0, a1, a2, a3]" using assms(1) by (rule length_4E)
  let ?s = "\<lambda>i. unat (a ! i) * unat (a ! i)" and ?d = "\<lambda>i j. 2 * (unat (a ! i) * unat (a ! j))"
  let ?ks = "[[?s 0], [?d 1 0], [?s 1, ?d 2 0], [?d 3 0, ?d 2 1], [?s 2, ?d 3 1], [?d 3 2], [?s 3]]"
  have "wsum sum_list ?ks = bn_val a * bn_val a"
    by (simp add: a algebra_simps)
  moreover have "bn_val a * bn_val a < 2 ^ 64 * 2 ^ (64 * 7)"
    using product_bound [OF assms assms] by simp
  moreover have "bn_val (bn_sqr_comba4 a) = (tval (0, 0, 0) + wsum sum_list ?ks) mod (2 ^ 64 * 2 ^ (64 * 7))
      \<and> length (bn_sqr_comba4 a) = 8"
    unfolding bn_sqr_comba4_def Let_def
    by (rule comba_columns_eq [where ks = ?ks]) (simp_all add: comba_adds)
  ultimately show ?thesis by (simp add: tval_def)
qed

lemma bn_mul_comba8_val:
  assumes "length a = 8" "length b = 8"
  shows "bn_val (bn_mul_comba8 a b) = bn_val a * bn_val b \<and> length (bn_mul_comba8 a b) = 16"
proof -
  obtain a0 a1 a2 a3 a4 a5 a6 a7 where a: "a = [a0, a1, a2, a3, a4, a5, a6, a7]" using assms(1) by (rule length_8E)
  obtain b0 b1 b2 b3 b4 b5 b6 b7 where b: "b = [b0, b1, b2, b3, b4, b5, b6, b7]" using assms(2) by (rule length_8E)
  let ?k = "\<lambda>(i, j). unat (a ! i) * unat (b ! j)"
  let ?ks = "map (map ?k)
       [[(0, 0)],
        [(0, 1), (1, 0)],
        [(2, 0), (1, 1), (0, 2)],
        [(0, 3), (1, 2), (2, 1), (3, 0)],
        [(4, 0), (3, 1), (2, 2), (1, 3), (0, 4)],
        [(0, 5), (1, 4), (2, 3), (3, 2), (4, 1), (5, 0)],
        [(6, 0), (5, 1), (4, 2), (3, 3), (2, 4), (1, 5), (0, 6)],
        [(0, 7), (1, 6), (2, 5), (3, 4), (4, 3), (5, 2), (6, 1), (7, 0)],
        [(7, 1), (6, 2), (5, 3), (4, 4), (3, 5), (2, 6), (1, 7)],
        [(2, 7), (3, 6), (4, 5), (5, 4), (6, 3), (7, 2)],
        [(7, 3), (6, 4), (5, 5), (4, 6), (3, 7)],
        [(4, 7), (5, 6), (6, 5), (7, 4)],
        [(7, 5), (6, 6), (5, 7)],
        [(6, 7), (7, 6)],
        [(7, 7)]]"
  have "wsum sum_list ?ks = bn_val a * bn_val b"
    by (simp add: a b algebra_simps)
  moreover have "bn_val a * bn_val b < 2 ^ 64 * 2 ^ (64 * 15)"
    using product_bound [OF assms] by simp
  moreover have "bn_val (bn_mul_comba8 a b) = (tval (0, 0, 0) + wsum sum_list ?ks) mod (2 ^ 64 * 2 ^ (64 * 15))
      \<and> length (bn_mul_comba8 a b) = 16"
    unfolding bn_mul_comba8_def Let_def
    by (rule comba_columns_eq [where ks = ?ks]) (simp_all add: comba_adds)
  ultimately show ?thesis by (simp only: mod_less tval_def) simp
qed

lemma bn_sqr_comba8_val:
  assumes "length a = 8"
  shows "bn_val (bn_sqr_comba8 a) = bn_val a * bn_val a \<and> length (bn_sqr_comba8 a) = 16"
proof -
  obtain a0 a1 a2 a3 a4 a5 a6 a7 where a: "a = [a0, a1, a2, a3, a4, a5, a6, a7]" using assms(1) by (rule length_8E)
  let ?s = "\<lambda>i. unat (a ! i) * unat (a ! i)" and ?d = "\<lambda>i j. 2 * (unat (a ! i) * unat (a ! j))"
  let ?ks = "[[?s 0],
        [?d 1 0],
        [?s 1, ?d 2 0],
        [?d 3 0, ?d 2 1],
        [?s 2, ?d 3 1, ?d 4 0],
        [?d 5 0, ?d 4 1, ?d 3 2],
        [?s 3, ?d 4 2, ?d 5 1, ?d 6 0],
        [?d 7 0, ?d 6 1, ?d 5 2, ?d 4 3],
        [?s 4, ?d 5 3, ?d 6 2, ?d 7 1],
        [?d 7 2, ?d 6 3, ?d 5 4],
        [?s 5, ?d 6 4, ?d 7 3],
        [?d 7 4, ?d 6 5],
        [?s 6, ?d 7 5],
        [?d 7 6],
        [?s 7]]"
  have "wsum sum_list ?ks = bn_val a * bn_val a"
    by (simp add: a algebra_simps)
  moreover have "bn_val a * bn_val a < 2 ^ 64 * 2 ^ (64 * 15)"
    using product_bound [OF assms assms] by simp
  moreover have "bn_val (bn_sqr_comba8 a) = (tval (0, 0, 0) + wsum sum_list ?ks) mod (2 ^ 64 * 2 ^ (64 * 15))
      \<and> length (bn_sqr_comba8 a) = 16"
    unfolding bn_sqr_comba8_def Let_def
    by (rule comba_columns_eq [where ks = ?ks]) (simp_all add: comba_adds)
  ultimately show ?thesis by (simp only: mod_less tval_def) simp
qed

text \<open>
  C24: The products of words are exact. bn_mul_normal leaves the product of two numbers of any lengths
  in the low words of its result and does not touch the words above, bn_mul_low_normal leaves the low
  half of the product, and the column-wise products and squares of four and eight words, whose three
  carry words rotate, give the same number.
\<close>
theorem bn_products_exact:
  assumes "length a + length b \<le> length r" "length c = length d" "c \<noteq> []"
    "length e = 4" "length f = 4" "length g = 8" "length h = 8"
  shows "bn_val (take (length a + length b) (bn_mul_normal r a b)) = bn_val a * bn_val b
    \<and> drop (length a + length b) (bn_mul_normal r a b) = drop (length a + length b) r
    \<and> bn_val (bn_mul_low_normal c d) = bn_val c * bn_val d mod 2 ^ (64 * length c)
    \<and> bn_val (bn_mul_comba4 e f) = bn_val e * bn_val f
    \<and> bn_val (bn_mul_comba8 g h) = bn_val g * bn_val h
    \<and> bn_val (bn_sqr_comba4 e) = bn_val e * bn_val e
    \<and> bn_val (bn_sqr_comba8 g) = bn_val g * bn_val g"
proof -
  have "d \<noteq> []" using assms(2,3) by auto
  then show ?thesis
    using bn_mul_normal_val [OF assms(1)] bn_mul_low_normal_val [OF assms(2)] bn_mul_comba4_val [OF assms(4,5)]
      bn_mul_comba8_val [OF assms(6,7)] bn_sqr_comba4_val [OF assms(4)] bn_sqr_comba8_val [OF assms(6)]
    by blast
qed

theorem bn_products_exact_witness:
  "bn_val (take (length [7 :: u64] + length [5 :: u64, 6]) (bn_mul_normal [9, 9, 9, 9] [7] [5, 6]))
    = bn_val [7] * bn_val [5, 6]"
  by (rule bn_products_exact [where c = "[1]" and d = "[2]" and e = "replicate 4 (- 1)"
        and f = "replicate 4 2" and g = "replicate 8 3" and h = "replicate 8 4", THEN conjunct1]) simp_all

end
