(* ===== verification/BnDiv.thy ===== *)
theory BnDiv
  imports Bn
begin

unbundle bit_operations_syntax

text \<open>
  The length of a word in bits (\<^verbatim>\<open>BN_num_bits_word\<close> of \<^verbatim>\<open>crypto/bn/bn.c\<close>) and the quotient of a
  number of two words by a word (\<^verbatim>\<open>bn_div_words\<close> of \<^verbatim>\<open>crypto/bn/generic.c\<close>).
\<close>

section \<open>The length of a word\<close>

definition num_bits_table :: "nat list" where
  "num_bits_table =
     [0, 1, 2, 2, 3, 3, 3, 3, 4, 4, 4, 4, 4, 4, 4, 4, 5, 5, 5, 5, 5, 5, 5, 5,
      5, 5, 5, 5, 5, 5, 5, 5, 6, 6, 6, 6, 6, 6, 6, 6, 6, 6, 6, 6, 6, 6, 6, 6,
      6, 6, 6, 6, 6, 6, 6, 6, 6, 6, 6, 6, 6, 6, 6, 6, 7, 7, 7, 7, 7, 7, 7, 7,
      7, 7, 7, 7, 7, 7, 7, 7, 7, 7, 7, 7, 7, 7, 7, 7, 7, 7, 7, 7, 7, 7, 7, 7,
      7, 7, 7, 7, 7, 7, 7, 7, 7, 7, 7, 7, 7, 7, 7, 7, 7, 7, 7, 7, 7, 7, 7, 7,
      7, 7, 7, 7, 7, 7, 7, 7, 8, 8, 8, 8, 8, 8, 8, 8, 8, 8, 8, 8, 8, 8, 8, 8,
      8, 8, 8, 8, 8, 8, 8, 8, 8, 8, 8, 8, 8, 8, 8, 8, 8, 8, 8, 8, 8, 8, 8, 8,
      8, 8, 8, 8, 8, 8, 8, 8, 8, 8, 8, 8, 8, 8, 8, 8, 8, 8, 8, 8, 8, 8, 8, 8,
      8, 8, 8, 8, 8, 8, 8, 8, 8, 8, 8, 8, 8, 8, 8, 8, 8, 8, 8, 8, 8, 8, 8, 8,
      8, 8, 8, 8, 8, 8, 8, 8, 8, 8, 8, 8, 8, 8, 8, 8, 8, 8, 8, 8, 8, 8, 8, 8,
      8, 8, 8, 8, 8, 8, 8, 8, 8, 8, 8, 8, 8, 8, 8, 8]"

(* src: crypto/bn/bn.c BN_num_bits_word *)
definition BN_num_bits_word :: "u64 \<Rightarrow> nat" where
  "BN_num_bits_word l =
     (if l AND 0xffffffff00000000 \<noteq> 0
      then if l AND 0xffff000000000000 \<noteq> 0
           then if l AND 0xff00000000000000 \<noteq> 0 then num_bits_table ! unat (drop_bit 56 l) + 56
                else num_bits_table ! unat (drop_bit 48 l) + 48
           else if l AND 0x0000ff0000000000 \<noteq> 0 then num_bits_table ! unat (drop_bit 40 l) + 40
                else num_bits_table ! unat (drop_bit 32 l) + 32
      else if l AND 0xffff0000 \<noteq> 0
           then if l AND 0xff000000 \<noteq> 0 then num_bits_table ! unat (drop_bit 24 l) + 24
                else num_bits_table ! unat (drop_bit 16 l) + 16
           else if l AND 0xff00 \<noteq> 0 then num_bits_table ! unat (drop_bit 8 l) + 8
                else num_bits_table ! unat l)"

definition is_num_bits :: "nat \<Rightarrow> nat \<Rightarrow> bool" where
  "is_num_bits n v \<longleftrightarrow> v < 2 ^ n \<and> (n = 0 \<or> 2 ^ (n - 1) \<le> v)"

lemma num_bits_table: "k < 256 \<Longrightarrow> is_num_bits (num_bits_table ! k) k"
proof -
  have "list_all (\<lambda>(k, n). is_num_bits n k) (enumerate 0 num_bits_table)"
    by (simp add: num_bits_table_def is_num_bits_def)
  moreover have l: "length num_bits_table = 256" by (simp add: num_bits_table_def)
  moreover assume "k < 256"
  ultimately show ?thesis by (auto simp: list_all_length nth_enumerate_eq)
qed

lemma is_num_bits_shift:
  assumes "is_num_bits n (v div 2 ^ k)" "0 < v div 2 ^ k"
  shows "is_num_bits (n + k) v"
proof -
  have n: "0 < n" using assms by (cases n) (auto simp: is_num_bits_def)
  have "v div 2 ^ k + 1 \<le> 2 ^ n" using assms(1) by (simp add: is_num_bits_def)
  then have "(v div 2 ^ k + 1) * 2 ^ k \<le> 2 ^ n * 2 ^ k" by (rule mult_le_mono1)
  moreover have "v < (v div 2 ^ k + 1) * 2 ^ k"
    by (simp add: dividend_less_div_times)
  moreover have "2 ^ (n - 1) * 2 ^ k \<le> v"
  proof -
    have "2 ^ (n - 1) * 2 ^ k \<le> v div 2 ^ k * 2 ^ k"
      using assms(1) n by (simp add: is_num_bits_def)
    also have "\<dots> \<le> v" by simp
    finally show ?thesis .
  qed
  ultimately show ?thesis using n by (simp add: is_num_bits_def power_add [symmetric])
qed

lemma unat_drop_bit64: "unat (drop_bit n (l :: u64)) = unat l div 2 ^ n"
  by (simp only: unat_drop_bit_eq) (simp only: drop_bit_eq_div)

lemma and_mask_zero: "l AND push_bit n (mask k) = 0 \<longleftrightarrow> unat l div 2 ^ n mod 2 ^ k = 0" for l :: u64
proof -
  have "l AND push_bit n (mask k) = push_bit n (take_bit k (drop_bit n l))"
    by (rule bit_word_eqI) (auto simp: bit_simps)
  moreover have "push_bit n (take_bit k (drop_bit n l)) = 0 \<longleftrightarrow> take_bit k (drop_bit n l) = 0"
  proof
    assume *: "push_bit n (take_bit k (drop_bit n l)) = 0"
    show "take_bit k (drop_bit n l) = 0"
    proof (rule bit_word_eqI)
      fix m
      assume "m < LENGTH(64)"
      have "\<not> bit (push_bit n (take_bit k (drop_bit n l))) (n + m)" unfolding * by simp
      then show "bit (take_bit k (drop_bit n l)) m = bit (0 :: u64) m"
        by (auto simp: bit_simps dest: bit_imp_le_length)
    qed
  qed simp
  moreover have "unat (take_bit k (drop_bit n l)) = unat l div 2 ^ n mod 2 ^ k"
    by (simp only: unsigned_take_bit_eq unat_drop_bit64) (simp only: take_bit_eq_mod)
  ultimately show ?thesis by (metis unat_eq_zero)
qed

lemma num_bits_masks:
  "(0xffffffff00000000 :: u64) = push_bit 32 (mask 32)" "(0xffff000000000000 :: u64) = push_bit 48 (mask 16)"
  "(0xff00000000000000 :: u64) = push_bit 56 (mask 8)" "(0x0000ff0000000000 :: u64) = push_bit 40 (mask 8)"
  "(0xffff0000 :: u64) = push_bit 16 (mask 16)" "(0xff000000 :: u64) = push_bit 24 (mask 8)"
  "(0xff00 :: u64) = push_bit 8 (mask 8)"
  by (simp_all add: mask_eq_exp_minus_1)

text \<open>In a chain of tests every mask asks whether the word reaches its lowest bit.\<close>

lemma mask_reaches:
  fixes l :: u64
  assumes "unat l < 2 ^ (n + k)"
  shows "l AND push_bit n (mask k) \<noteq> 0 \<longleftrightarrow> 0 < unat l div 2 ^ n"
proof -
  have "unat l div 2 ^ n < 2 ^ k" using assms by (simp add: less_mult_imp_div_less power_add mult.commute)
  then show ?thesis unfolding and_mask_zero by simp
qed

lemma BN_num_bits_word_val: "is_num_bits (BN_num_bits_word l) (unat l)"
proof -
  have top: "is_num_bits (num_bits_table ! unat (drop_bit k l) + k) (unat l)"
    if "unat l < 2 ^ (k + 8)" "0 < unat l div 2 ^ k" for k
  proof -
    have "unat l div 2 ^ k < 2 ^ 8" using that(1) by (simp add: less_mult_imp_div_less power_add mult.commute)
    then have "is_num_bits (num_bits_table ! (unat l div 2 ^ k)) (unat l div 2 ^ k)"
      by (intro num_bits_table) simp
    then show ?thesis unfolding unat_drop_bit64 using that(2) by (rule is_num_bits_shift)
  qed
  have small: "unat l < 2 ^ k" if "\<not> 0 < unat l div 2 ^ k" for k
    using that by (simp add: div_eq_0_iff)
  have l64: "unat l < 2 ^ (32 + 32)" "unat l < 2 ^ (48 + 16)" "unat l < 2 ^ (56 + 8)"
    using unat64 [of l] by simp_all
  show ?thesis
  proof (cases "0 < unat l div 2 ^ 32")
    case c32: True
    show ?thesis
    proof (cases "0 < unat l div 2 ^ 48")
      case c48: True
      show ?thesis
        using c32 c48 top [of 56] top [of 48] small [of 56] l64
        by (simp only: BN_num_bits_word_def num_bits_masks mask_reaches [OF l64(1)] mask_reaches [OF l64(2)]
            mask_reaches [OF l64(3)] if_True) (cases "0 < unat l div 2 ^ 56"; simp)
    next
      case c48: False
      then have l: "unat l < 2 ^ (40 + 8)" using small by simp
      show ?thesis
        using c32 c48 top [of 40] top [of 32] small [of 40] l
        by (simp only: BN_num_bits_word_def num_bits_masks mask_reaches [OF l64(1)] mask_reaches [OF l64(2)]
            mask_reaches [OF l] if_True if_False) (cases "0 < unat l div 2 ^ 40"; simp)
    qed
  next
    case c32: False
    then have l32: "unat l < 2 ^ (16 + 16)" "unat l < 2 ^ (24 + 8)" using small [of 32] by simp_all
    show ?thesis
    proof (cases "0 < unat l div 2 ^ 16")
      case c16: True
      show ?thesis
        using c32 c16 top [of 24] top [of 16] small [of 24] l32
        by (simp only: BN_num_bits_word_def num_bits_masks mask_reaches [OF l64(1)] mask_reaches [OF l32(1)]
            mask_reaches [OF l32(2)] if_True if_False) (cases "0 < unat l div 2 ^ 24"; simp)
    next
      case c16: False
      then have l16: "unat l < 2 ^ (8 + 8)" using small [of 16] by simp
      show ?thesis
      proof (cases "0 < unat l div 2 ^ 8")
        case c8: True
        then show ?thesis
          using c32 c16 top [of 8] l16
          by (simp only: BN_num_bits_word_def num_bits_masks mask_reaches [OF l64(1)] mask_reaches [OF l32(1)]
              mask_reaches [OF l16] if_True if_False)
      next
        case c8: False
        then have "is_num_bits (num_bits_table ! unat l) (unat l)"
          using small [of 8] by (intro num_bits_table) simp
        then show ?thesis
          using c32 c16 c8
          by (simp only: BN_num_bits_word_def num_bits_masks mask_reaches [OF l64(1)] mask_reaches [OF l32(1)]
              mask_reaches [OF l16] if_True if_False)
      qed
    qed
  qed
qed

lemma num_bits_unique: "is_num_bits m v \<Longrightarrow> is_num_bits n v \<Longrightarrow> m = n"
proof -
  have "\<not> m < n" if "is_num_bits m v" "is_num_bits n v" for m n
  proof
    assume "m < n"
    then have "(2 :: nat) ^ m \<le> 2 ^ (n - 1)" by (intro power_increasing) simp_all
    moreover have "v < 2 ^ m" "2 ^ (n - 1) \<le> v"
      using that \<open>m < n\<close> by (simp_all add: is_num_bits_def)
    ultimately show False by linarith
  qed
  then show "is_num_bits m v \<Longrightarrow> is_num_bits n v \<Longrightarrow> m = n" by (metis linorder_neqE_nat)
qed

section \<open>Division of two words by one\<close>

text \<open>
  The digit \<open>q\<close> is lowered until its product with the divisor fits. \<open>None\<close> is a loop without end;
  it does not occur.
\<close>

partial_function (option) div_adjust :: "u64 \<Rightarrow> u64 \<Rightarrow> u64 \<Rightarrow> u64 \<Rightarrow> u64 \<Rightarrow> u64 \<Rightarrow> u64 \<Rightarrow> (u64 \<times> u64 \<times> u64) option" where
  "div_adjust h l dh dl q thi tlo =
     (let t = h - thi
      in if t AND 0xffffffff00000000 \<noteq> 0 \<or> tlo \<le> push_bit 32 t OR drop_bit 32 (l AND 0xffffffff00000000)
         then Some (q, thi, tlo)
         else div_adjust h l dh dl (q - 1) (thi - dh) (tlo - dl))"

text \<open>One digit of the quotient: the digit and what is left of the two words.\<close>

(* src: crypto/bn/generic.c@452-485 bn_div_words *)
definition div_digit :: "u64 \<Rightarrow> u64 \<Rightarrow> u64 \<Rightarrow> (u64 \<times> u64 \<times> u64) option" where
  "div_digit h l d =
     (let dh = drop_bit 32 (d AND 0xffffffff00000000);
          dl = d AND 0xffffffff;
          q = (if drop_bit 32 h = dh then 0xffffffff else h div dh)
      in case div_adjust h l dh dl q (q * dh) (dl * q) of
           None \<Rightarrow> None
         | Some (q, thi, tlo) \<Rightarrow>
             (let t = drop_bit 32 tlo;
                  tlo = push_bit 32 tlo AND 0xffffffff00000000;
                  thi = thi + t;
                  thi = (if l < tlo then thi + 1 else thi);
                  l = l - tlo;
                  (h, q) = (if h < thi then (h + d, q - 1) else (h, q));
                  h = h - thi
              in Some (q, h, l)))"

(* src: crypto/bn/generic.c@431-498 bn_div_words *)
definition bn_div_words :: "u64 \<Rightarrow> u64 \<Rightarrow> u64 \<Rightarrow> u64 option" where
  "bn_div_words h l d =
     (if d = 0 then Some 0xffffffffffffffff
      else if \<not> (BN_num_bits_word d = 64 \<or> h \<le> push_bit (BN_num_bits_word d) 1) then None
      else
        (let i = 64 - BN_num_bits_word d;
             h = (if d \<le> h then h - d else h);
             (h, l, d) = (if i \<noteq> 0 then (push_bit i h OR drop_bit (64 - i) l, push_bit i l, push_bit i d)
                          else (h, l, d))
         in case div_digit h l d of
              None \<Rightarrow> None
            | Some (q, h, l) \<Rightarrow>
                (let ret = push_bit 32 q;
                     h = push_bit 32 h OR drop_bit 32 l;
                     l = push_bit 32 (l AND 0xffffffff)
                 in case div_digit h l d of
                      None \<Rightarrow> None
                    | Some (q, h, l) \<Rightarrow> Some (ret OR q))))"

lemma push_bit64: "k \<le> 64 \<Longrightarrow> unat (push_bit k (x :: u64)) = unat x mod 2 ^ (64 - k) * 2 ^ k"
proof -
  assume k: "k \<le> 64"
  have "unat (push_bit k x) = unat x * 2 ^ k mod 2 ^ 64"
    by (simp only: unsigned_push_bit_eq) (simp add: push_bit_eq_mult take_bit_eq_mod)
  also have "(2 :: nat) ^ 64 = 2 ^ (64 - k) * 2 ^ k" using k by (simp flip: power_add)
  finally show ?thesis by (simp only: mult_mod_left)
qed

lemma join64:
  fixes x y :: u64
  assumes "unat y < 2 ^ k" "k \<le> 64"
  shows "unat (push_bit k x OR y) = unat x mod 2 ^ (64 - k) * 2 ^ k + unat y"
proof -
  have "y = take_bit k y"
    using assms(1) by (intro word_unat_eq_iff [THEN iffD2]) (simp add: unsigned_take_bit_eq take_bit_nat_eq_self)
  then have "push_bit k x AND y = push_bit k x AND take_bit k y" by (rule arg_cong)
  also have "\<dots> = 0" by (rule bit_word_eqI) (auto simp: bit_simps)
  finally have "push_bit k x OR y = push_bit k x + y"
    using word_plus_and_or [of "push_bit k x" y] by simp
  moreover have "unat (push_bit k x) + unat y < 2 ^ 64"
  proof -
    have "unat x mod 2 ^ (64 - k) + 1 \<le> 2 ^ (64 - k)" by (simp add: Suc_leI)
    then have "(unat x mod 2 ^ (64 - k) + 1) * 2 ^ k \<le> 2 ^ (64 - k) * 2 ^ k" by (rule mult_le_mono1)
    also have "\<dots> = 2 ^ 64" using assms(2) by (simp flip: power_add)
    finally show ?thesis using assms(1) push_bit64 [OF assms(2), of x] by (simp add: distrib_right)
  qed
  ultimately show ?thesis using push_bit64 [OF assms(2), of x] by (simp add: unat_word_ariths)
qed

lemma drop_high: "drop_bit 32 (l AND 0xffffffff00000000) = drop_bit 32 l" for l :: u64
proof -
  have "drop_bit 32 (l AND push_bit 32 (mask 32)) = drop_bit 32 l"
    by (rule bit_word_eqI) (auto simp: bit_simps dest: bit_imp_le_length)
  then show ?thesis by (simp only: num_bits_masks)
qed

lemma high_half: "t AND 0xffffffff00000000 \<noteq> 0 \<longleftrightarrow> 2 ^ 32 \<le> unat t" for t :: u64
proof -
  have "unat t < 2 ^ (32 + 32)" using unat64 [of t] by simp
  from mask_reaches [OF this] show ?thesis
    unfolding num_bits_masks by (auto simp: div_greater_zero_iff)
qed

lemma drop_HBITS: "drop_bit 32 (d :: u64) = HBITS d"
  by (rule word_unat_eq_iff [THEN iffD2]) (simp only: unat_drop_bit64 unat_HBITS)

lemma div_adjust_val:
  fixes h l d q :: u64
  defines "H \<equiv> unat h * 2 ^ 32 + unat l div 2 ^ 32"
  assumes "0 < unat d" "unat q < 2 ^ 32" "unat q * unat (HBITS d) \<le> unat h" "H div unat d \<le> unat q"
  shows "\<exists>q'. div_adjust h l (HBITS d) (LBITS d) q (q * HBITS d) (LBITS d * q)
      = Some (q', q' * HBITS d, LBITS d * q') \<and> unat q' = H div unat d"
  using assms(3-)
proof (induction "unat q" arbitrary: q rule: less_induct)
  case less
  let ?Q = "unat q" and ?dh = "HBITS d" and ?dl = "LBITS d"
  let ?t = "h - q * ?dh"
  have D: "unat d = unat ?dh * 2 ^ 32 + unat ?dl"
    using LBITS_HBITS [of d] by simp
  have qh: "unat (q * ?dh) = ?Q * unat ?dh" and ql: "unat (?dl * q) = unat ?dl * ?Q"
    by (rule unat_mult_small [OF less.prems(1) HBITS_less], rule unat_mult_small [OF LBITS_less less.prems(1)])
  have t: "unat ?t + ?Q * unat ?dh = unat h"
    using qh less.prems(2) by (simp add: unat_sub word_le_nat_alt)
  have QD: "?Q * unat d \<le> H \<longleftrightarrow> unat ?dl * ?Q \<le> unat ?t * 2 ^ 32 + unat l div 2 ^ 32"
    unfolding H_def D t [symmetric] by (simp add: distrib_left distrib_right mult_ac)
  have fits: "?Q * unat d \<le> H" if "2 ^ 32 \<le> unat ?t"
  proof -
    have "unat ?dl * ?Q \<le> 2 ^ 32 * 2 ^ 32"
      using LBITS_less [of d] less.prems(1) by (intro mult_le_mono) simp_all
    also have "\<dots> \<le> unat ?t * 2 ^ 32" using that by (intro mult_le_mono1)
    finally show ?thesis unfolding QD by simp
  qed
  have c: "?t AND 0xffffffff00000000 \<noteq> 0 \<or> ?dl * q \<le> push_bit 32 ?t OR drop_bit 32 (l AND 0xffffffff00000000)
      \<longleftrightarrow> ?Q * unat d \<le> H"
  proof (cases "2 ^ 32 \<le> unat ?t")
    case True
    then show ?thesis using fits high_half [of ?t] by simp
  next
    case False
    have "unat (push_bit 32 ?t OR drop_bit 32 l) = unat ?t * 2 ^ 32 + unat l div 2 ^ 32"
      using False unat64 [of l] by (subst join64) (simp_all add: unat_drop_bit64 less_mult_imp_div_less)
    then show ?thesis
      using False high_half [of ?t] ql unfolding QD drop_high word_le_nat_alt by simp
  qed
  show ?case
  proof (cases "?Q * unat d \<le> H")
    case True
    then have "?Q \<le> H div unat d" using assms(2) by (simp add: less_eq_div_iff_mult_less_eq)
    then have "?Q = H div unat d" using less.prems(3) by simp
    then show ?thesis using True c by (subst div_adjust.simps) (auto simp: Let_def)
  next
    case False
    then have less': "H div unat d < ?Q" using assms(2) by (simp add: div_less_iff_less_mult)
    then have q1: "unat (q - 1) = ?Q - 1" by (simp add: unat_sub word_le_nat_alt)
    have "\<exists>q'. div_adjust h l ?dh ?dl (q - 1) ((q - 1) * ?dh) (?dl * (q - 1))
        = Some (q', q' * ?dh, ?dl * q') \<and> unat q' = H div unat d"
    proof (rule less.hyps)
      show "unat (q - 1) < ?Q" "unat (q - 1) < 2 ^ 32" "H div unat d \<le> unat (q - 1)"
        using q1 less' less.prems(1) by auto
      have "unat (q - 1) * unat ?dh \<le> ?Q * unat ?dh" unfolding q1 by (intro mult_le_mono1) simp
      then show "unat (q - 1) * unat ?dh \<le> unat h" by (rule order_trans [OF _ less.prems(2)])
    qed
    moreover have "q * ?dh - ?dh = (q - 1) * ?dh" "?dl * q - ?dl = ?dl * (q - 1)"
      by (simp_all add: algebra_simps)
    ultimately show ?thesis using False c by (subst div_adjust.simps) (auto simp: Let_def)
  qed
qed

lemma first_digit:
  fixes h l d :: u64
  defines "H \<equiv> unat h * 2 ^ 32 + unat l div 2 ^ 32"
    and "q \<equiv> if drop_bit 32 h = HBITS d then 0xffffffff else h div HBITS d"
  assumes "unat h < unat d"
  shows "unat q < 2 ^ 32 \<and> unat q * unat (HBITS d) \<le> unat h \<and> H div unat d \<le> unat q"
proof -
  let ?dh = "unat (HBITS d)"
  have hh: "drop_bit 32 h = HBITS d \<longleftrightarrow> unat h div 2 ^ 32 = ?dh"
    by (simp only: word_unat_eq_iff unat_drop_bit64)
  have le: "unat h div 2 ^ 32 \<le> ?dh"
    unfolding unat_HBITS using assms(3) by (intro div_le_mono) simp
  have "H < unat d * 2 ^ 32"
  proof -
    have "unat l div 2 ^ 32 < 2 ^ 32" using unat64 [of l] by (simp add: less_mult_imp_div_less)
    moreover have "(unat h + 1) * 2 ^ 32 \<le> unat d * 2 ^ 32" using assms(3) by (intro mult_le_mono1) simp
    ultimately show ?thesis by (simp add: H_def)
  qed
  then have H: "H div unat d < 2 ^ 32" by (simp add: less_mult_imp_div_less mult.commute)
  show ?thesis
  proof (cases "unat h div 2 ^ 32 = ?dh")
    case True
    then have q: "unat q = 2 ^ 32 - 1" unfolding q_def hh by simp
    have "(2 ^ 32 - 1) * ?dh \<le> 2 ^ 32 * (unat h div 2 ^ 32)" unfolding True by simp
    also have "\<dots> \<le> unat h" by simp
    finally show ?thesis using H q by simp
  next
    case False
    then have dh: "unat h div 2 ^ 32 < ?dh" and q: "unat q = unat h div ?dh"
      using le unfolding q_def hh by (simp_all add: unat_div)
    have "unat h < ?dh * 2 ^ 32" using dh by (simp add: div_less_iff_less_mult)
    then have "unat q < 2 ^ 32" unfolding q by (simp add: less_mult_imp_div_less mult.commute)
    moreover have "H div unat d \<le> unat h div ?dh"
    proof -
      let ?k = "H div unat d"
      have "?k * (?dh * 2 ^ 32) \<le> ?k * unat d"
        using LBITS_HBITS [of d] by (intro mult_le_mono2) simp
      also have "\<dots> \<le> H" by simp
      finally have "?k * ?dh * 2 ^ 32 \<le> H" by (simp add: mult.assoc)
      then have "?k * ?dh * 2 ^ 32 div 2 ^ 32 \<le> H div 2 ^ 32" by (rule div_le_mono)
      moreover have "H div 2 ^ 32 = unat h"
        using unat64 [of l] by (simp add: H_def less_mult_imp_div_less)
      ultimately have "?k * ?dh \<le> unat h" by simp
      then show ?thesis using dh by (simp add: less_eq_div_iff_mult_less_eq)
    qed
    ultimately show ?thesis unfolding q by simp
  qed
qed

text \<open>A digit is the quotient of the three upper halves, and the rest is what it leaves.\<close>

lemma div_digit_val:
  fixes h l d :: u64
  defines "H \<equiv> unat h * 2 ^ 32 + unat l div 2 ^ 32"
  assumes "unat h < unat d"
  shows "\<exists>q h' l'. div_digit h l d = Some (q, h', l') \<and> unat q = H div unat d
    \<and> unat h' * 2 ^ 64 + unat l' = H mod unat d * 2 ^ 32 + unat l mod 2 ^ 32"
proof -
  have d: "0 < unat d" using assms(2) by simp
  define q0 where "q0 = (if drop_bit 32 h = HBITS d then 0xffffffff else h div HBITS d)"
  obtain q where q: "div_adjust h l (HBITS d) (LBITS d) q0 (q0 * HBITS d) (LBITS d * q0)
      = Some (q, q * HBITS d, LBITS d * q)" "unat q = H div unat d"
    using div_adjust_val [OF d, of q0 h l] first_digit [OF assms(2), of l] unfolding H_def q0_def by blast
  let ?Q = "unat q"
  have q32: "?Q < 2 ^ 32"
    using first_digit [OF assms(2), of l] unfolding q(2) H_def by (auto intro: le_less_trans)
  define T where "T = LBITS d * q"
  define thi where "thi = q * HBITS d + drop_bit 32 T"
  define tlo where "tlo = push_bit 32 T AND 0xffffffff00000000"
  have T: "unat T = unat (LBITS d) * ?Q" unfolding T_def by (rule unat_mult_small [OF LBITS_less q32])
  have qh: "unat (q * HBITS d) = ?Q * unat (HBITS d)" by (rule unat_mult_small [OF q32 HBITS_less])
  have "push_bit 32 T AND push_bit 32 (mask 32) = push_bit 32 T"
    by (rule bit_word_eqI) (auto simp: bit_simps)
  then have tlo: "unat tlo = unat T mod 2 ^ 32 * 2 ^ 32"
    using push_bit64 [of 32 T] unfolding tlo_def num_bits_masks by simp
  have QH: "?Q * unat d \<le> H" unfolding q(2) by simp
  have QD: "?Q * unat d = ?Q * unat (HBITS d) * 2 ^ 32 + unat T"
    unfolding T LBITS_HBITS [of d, symmetric] by (simp only: distrib_left mult_ac add_ac)
  have V: "unat h * 2 ^ 64 + unat l = H * 2 ^ 32 + unat l mod 2 ^ 32"
  proof -
    have "h * 2 ^ 64 + (y * 2 ^ 32 + z) = (h * 2 ^ 32 + y) * 2 ^ 32 + z" for h y z :: nat by simp
    then show ?thesis unfolding H_def by (metis div_mult_mod_eq)
  qed
  have P: "?Q * unat d * 2 ^ 32 = (?Q * unat (HBITS d) + unat T div 2 ^ 32) * 2 ^ 64 + unat tlo"
  proof -
    have "(x * 2 ^ 32 + (y * 2 ^ 32 + z)) * 2 ^ 32 = (x + y) * 2 ^ 64 + z * 2 ^ 32" for x y z :: nat by simp
    then show ?thesis unfolding QD tlo by (metis div_mult_mod_eq)
  qed
  have R: "H * 2 ^ 32 = ?Q * unat d * 2 ^ 32 + H mod unat d * 2 ^ 32"
    unfolding q(2) distrib_right [symmetric] div_mult_mod_eq ..
  have le: "(?Q * unat (HBITS d) + unat T div 2 ^ 32) * 2 ^ 64 + unat tlo \<le> unat h * 2 ^ 64 + unat l"
    unfolding V P [symmetric] R by simp
  have u: "?Q * unat (HBITS d) + unat T div 2 ^ 32 + (if unat l < unat tlo then 1 else 0) \<le> unat h"
    using le unat64 [of l] unat64 [of tlo] by auto
  have thi: "unat thi = ?Q * unat (HBITS d) + unat T div 2 ^ 32"
  proof -
    have "unat (q * HBITS d) + unat (drop_bit 32 T) < 2 ^ 64"
      unfolding qh unat_drop_bit64 using u unat64 [of h] by simp
    then have "unat thi = unat (q * HBITS d) + unat (drop_bit 32 T)"
      unfolding thi_def by (intro unat_add_lem [THEN iffD1]) simp
    then show ?thesis unfolding qh unat_drop_bit64 .
  qed
  define thi' where "thi' = (if l < tlo then thi + 1 else thi)"
  have thi': "unat thi' = unat thi + (if unat l < unat tlo then 1 else 0)"
  proof (cases "unat l < unat tlo")
    case True
    then have "unat thi + 1 < 2 ^ 64" using u thi unat64 [of h] by simp
    then have "unat (thi + 1) = unat thi + 1" by (simp add: unat_word_ariths)
    then show ?thesis using True by (simp add: thi'_def word_less_nat_alt)
  qed (simp add: thi'_def word_less_nat_alt)
  have nb: "\<not> h < thi'" using u unfolding word_less_nat_alt thi' thi by simp
  have r: "div_digit h l d = Some (q, h - thi', l - tlo)"
  proof -
    have hd: "drop_bit 32 (d AND 0xffffffff00000000) = HBITS d" by (rule trans [OF drop_high drop_HBITS])
    show ?thesis
      unfolding div_digit_def Let_def hd LBITS_def [symmetric] q0_def [symmetric] q(1) option.case prod.case
        T_def [symmetric] tlo_def [symmetric] thi_def [symmetric] thi'_def [symmetric] if_not_P [OF nb] ..
  qed
  note s = minus_borrow64 [unfolded word_less_nat_alt]
  have "unat (h - thi') * 2 ^ 64 + unat (l - tlo) + (?Q * unat d * 2 ^ 32) = unat h * 2 ^ 64 + unat l"
  proof -
    have "unat (h - thi') + unat thi' = unat h" using s [of h thi'] nb by (simp add: word_less_nat_alt)
    then have a: "unat (h - thi') * 2 ^ 64 + unat thi' * 2 ^ 64 = unat h * 2 ^ 64"
      by (simp only: flip: distrib_right)
    show ?thesis unfolding P thi [symmetric]
    proof (cases "unat l < unat tlo")
      case True
      then have "unat (l - tlo) + unat tlo = unat l + 2 ^ 64" "unat thi' * 2 ^ 64 = unat thi * 2 ^ 64 + 2 ^ 64"
        using s [of l tlo] thi' by simp_all
      then show "unat (h - thi') * 2 ^ 64 + unat (l - tlo) + (unat thi * 2 ^ 64 + unat tlo) = unat h * 2 ^ 64 + unat l"
        using a by linarith
    next
      case False
      then have "unat (l - tlo) + unat tlo = unat l" "unat thi' * 2 ^ 64 = unat thi * 2 ^ 64"
        using s [of l tlo] thi' by simp_all
      then show "unat (h - thi') * 2 ^ 64 + unat (l - tlo) + (unat thi * 2 ^ 64 + unat tlo) = unat h * 2 ^ 64 + unat l"
        using a by linarith
    qed
  qed
  then show ?thesis using r q(2) V R by simp
qed

text \<open>Two digits.\<close>

lemma div_two_digits:
  fixes V d H :: nat
  assumes "H = V div 2 ^ 32"
  shows "V div d = H div d * 2 ^ 32 + (H mod d * 2 ^ 32 + V mod 2 ^ 32) div d"
proof (cases "d = 0")
  case False
  have "V = H * 2 ^ 32 + V mod 2 ^ 32" unfolding assms by simp
  also have "\<dots> = d * (H div d * 2 ^ 32) + (H mod d * 2 ^ 32 + V mod 2 ^ 32)"
  proof -
    have "(d * a + b) * 2 ^ 32 + c = d * (a * 2 ^ 32) + (b * 2 ^ 32 + c)" for a b c :: nat
      by (simp add: algebra_simps)
    then show ?thesis by (metis mult_div_mod_eq)
  qed
  finally have "V div d = (d * (H div d * 2 ^ 32) + (H mod d * 2 ^ 32 + V mod 2 ^ 32)) div d" by (rule arg_cong)
  then show ?thesis using False by simp
qed simp

lemma div_words_normal:
  fixes h l d :: u64
  assumes "unat h < unat d"
  shows "\<exists>r. (case div_digit h l d of
              None \<Rightarrow> None
            | Some (q, h, l) \<Rightarrow>
                (let ret = push_bit 32 q;
                     h = push_bit 32 h OR drop_bit 32 l;
                     l = push_bit 32 (l AND 0xffffffff)
                 in case div_digit h l d of
                      None \<Rightarrow> None
                    | Some (q, h, l) \<Rightarrow> Some (ret OR q))) = Some r
    \<and> unat r = (unat h * 2 ^ 64 + unat l) div unat d"
proof -
  let ?V = "unat h * 2 ^ 64 + unat l" and ?H = "unat h * 2 ^ 32 + unat l div 2 ^ 32"
  let ?R = "?H mod unat d"
  have H: "?H = ?V div 2 ^ 32"
  proof -
    have "?V = unat h * 2 ^ 32 * 2 ^ 32 + unat l" by simp
    moreover have "(unat h * 2 ^ 32 * 2 ^ 32 + unat l) div 2 ^ 32 = unat h * 2 ^ 32 + unat l div 2 ^ 32"
      by (rule div_mult_self3) simp
    ultimately show ?thesis by simp
  qed
  obtain q1 h1 l1 where 1: "div_digit h l d = Some (q1, h1, l1)" "unat q1 = ?H div unat d"
    "unat h1 * 2 ^ 64 + unat l1 = ?R * 2 ^ 32 + unat l mod 2 ^ 32"
    using div_digit_val [OF assms, of l] by blast
  define h2 where "h2 = push_bit 32 h1 OR drop_bit 32 l1"
  define l2 where "l2 = push_bit 32 (LBITS l1)"
  have R: "?R < 2 ^ 64" using unat64 [of d] assms by (intro less_trans [OF mod_less_divisor]) simp_all
  have h2: "unat h2 = ?R"
  proof -
    have m: "(x * 2 ^ 32 + y) div 2 ^ 32 = x" if "y < 2 ^ 32" for x y :: nat
      using that by simp
    have "?R = (?R * 2 ^ 32 + unat l mod 2 ^ 32) div 2 ^ 32" by (rule m [symmetric]) simp
    also have "\<dots> = (unat h1 * 2 ^ 64 + unat l1) div 2 ^ 32" unfolding 1(3) ..
    also have "unat h1 * 2 ^ 64 + unat l1 = unat h1 * 2 ^ 32 * 2 ^ 32 + unat l1" by simp
    also have "\<dots> div 2 ^ 32 = unat h1 * 2 ^ 32 + unat l1 div 2 ^ 32" by (rule div_mult_self3) simp
    finally have e: "?R = unat h1 * 2 ^ 32 + unat l1 div 2 ^ 32" .
    then have "unat h1 < 2 ^ 32" using R by auto
    then show ?thesis
      unfolding h2_def using unat64 [of l1] e
      by (subst join64) (simp_all add: unat_drop_bit64 less_mult_imp_div_less)
  qed
  have l2: "unat l2 = unat l mod 2 ^ 32 * 2 ^ 32"
  proof -
    have "unat l1 mod 2 ^ 32 = (unat h1 * 2 ^ 64 + unat l1) mod 2 ^ 32"
      by (simp add: mod_add_left_eq [symmetric] mult_mod_right [symmetric])
    also have "\<dots> = unat l mod 2 ^ 32" unfolding 1(3) by simp
    finally show ?thesis
      unfolding l2_def using push_bit64 [of 32 "LBITS l1"] by (simp add: unat_LBITS)
  qed
  have "unat h2 < unat d" unfolding h2 using assms by simp
  from div_digit_val [OF this, of l2] obtain q2 h3 l3
    where 2: "div_digit h2 l2 d = Some (q2, h3, l3)" "unat q2 = (?R * 2 ^ 32 + unat l mod 2 ^ 32) div unat d"
    unfolding h2 l2 by auto
  have q1: "unat q1 < 2 ^ 32" using first_digit [OF assms, of l] unfolding 1(2) by (auto intro: le_less_trans)
  have "unat q2 < 2 ^ 32"
    using first_digit [OF \<open>unat h2 < unat d\<close>, of l2] unfolding 2(2) h2 l2 by (auto intro: le_less_trans)
  then have "unat (push_bit 32 q1 OR q2) = unat q1 * 2 ^ 32 + unat q2"
    using q1 by (subst join64) simp_all
  moreover have "?V div unat d = unat q1 * 2 ^ 32 + unat q2"
  proof -
    have "?V = unat h * 2 ^ 32 * 2 ^ 32 + unat l" by simp
    then have "?V mod 2 ^ 32 = unat l mod 2 ^ 32" by (simp only: mod_mult_self3)
    then show ?thesis unfolding 1(2) 2(2) using div_two_digits [OF H, of "unat d"] by (simp only:)
  qed
  ultimately show ?thesis
    using 1(1) 2(1) unfolding h2_def l2_def LBITS_def by (simp add: Let_def)
qed

text \<open>
  The assertion at the start, for the build that keeps it: no power of two of a word lies above
  the divisor and below the high word.
\<close>

lemma bn_div_words_assert:
  assumes "0 < unat d"
  shows "BN_num_bits_word d = 64 \<or> (h :: u64) \<le> push_bit (BN_num_bits_word d) 1
    \<longleftrightarrow> \<not> (\<exists>k < 64. unat d < 2 ^ k \<and> 2 ^ k < unat h)"
proof -
  let ?n = "BN_num_bits_word d"
  have n: "unat d < 2 ^ ?n" "2 ^ (?n - 1) \<le> unat d" "0 < ?n"
    using BN_num_bits_word_val [of d] assms by (auto simp: is_num_bits_def intro: Suc_leI gr0I)
  have "?n - 1 < 64"
    using order.strict_trans1 [OF n(2) unat64 [of d]] power_less_imp_less_exp [of "2 :: nat" "?n - 1" 64] by simp
  then have n64: "?n \<le> 64" using n(3) by simp
  have least: "?n \<le> k" if "unat d < 2 ^ k" for k
  proof -
    have "(2 :: nat) ^ (?n - 1) < 2 ^ k" using n(2) that by (rule order.strict_trans1)
    then show ?thesis using power_less_imp_less_exp [of "2 :: nat" "?n - 1" k] n(3) by simp
  qed
  show ?thesis
  proof (cases "?n = 64")
    case True
    then show ?thesis using least by force
  next
    case False
    then have lt: "?n < 64" using n64 by simp
    define w :: u64 where "w = push_bit ?n 1"
    have p: "unat w = 2 ^ ?n"
      using n64 lt push_bit64 [of ?n 1] unfolding w_def by (cases "64 - ?n") simp_all
    have "(\<exists>k < 64. unat d < 2 ^ k \<and> 2 ^ k < unat h) \<longleftrightarrow> 2 ^ ?n < unat h"
    proof
      assume "\<exists>k < 64. unat d < 2 ^ k \<and> 2 ^ k < unat h"
      then obtain k where k: "unat d < 2 ^ k" "2 ^ k < unat h" by blast
      have "(2 :: nat) ^ ?n \<le> 2 ^ k" using least [OF k(1)] by (rule power_increasing) simp
      then show "2 ^ ?n < unat h" using k(2) by (rule order.strict_trans1)
    qed (use n(1) lt in blast)
    moreover have "h \<le> push_bit ?n 1 \<longleftrightarrow> \<not> 2 ^ ?n < unat h"
      using p unfolding w_def [symmetric] word_le_nat_alt by (simp only: not_less)
    ultimately show ?thesis using False by blast
  qed
qed

lemma bn_div_words_val:
  assumes "0 < unat d" "unat h < 2 * unat d" "\<not> (\<exists>k < 64. unat d < 2 ^ k \<and> 2 ^ k < unat h)"
  shows "\<exists>r. bn_div_words h l d = Some r \<and> unat r = (unat h * 2 ^ 64 + unat l) div unat d mod 2 ^ 64"
proof -
  let ?n = "BN_num_bits_word d"
  let ?i = "64 - ?n"
  have n: "unat d < 2 ^ ?n" "2 ^ (?n - 1) \<le> unat d" "0 < ?n"
    using BN_num_bits_word_val [of d] assms(1) by (auto simp: is_num_bits_def intro: Suc_leI gr0I)
  have "?n - 1 < 64"
    using order.strict_trans1 [OF n(2) unat64 [of d]] power_less_imp_less_exp [of "2 :: nat" "?n - 1" 64] by simp
  then have n64: "?n \<le> 64" using n(3) by simp
  define h1 where "h1 = (if d \<le> h then h - d else h)"
  have h1: "unat h1 < unat d" "unat h = unat h1 + (if d \<le> h then unat d else 0)"
    using assms(2) by (auto simp: h1_def word_le_nat_alt unat_sub)
  let ?V = "unat h1 * 2 ^ 64 + unat l"
  define h2 where "h2 = (if ?i \<noteq> 0 then push_bit ?i h1 OR drop_bit (64 - ?i) l else h1)"
  define l2 where "l2 = (if ?i \<noteq> 0 then push_bit ?i l else l)"
  define d2 where "d2 = (if ?i \<noteq> 0 then push_bit ?i d else d)"
  have d2: "unat d2 = unat d * 2 ^ ?i"
    using n(1) n64 push_bit64 [of ?i d] by (auto simp: d2_def)
  have l2: "unat l2 = unat l mod 2 ^ ?n * 2 ^ ?i"
    using n64 push_bit64 [of ?i l] unat64 [of l] by (auto simp: l2_def)
  have h2: "unat h2 = unat h1 * 2 ^ ?i + unat l div 2 ^ ?n"
  proof (cases "?i = 0")
    case True
    then show ?thesis using n64 unat64 [of l] by (simp add: h2_def)
  next
    case False
    have "unat l div 2 ^ ?n < 2 ^ ?i"
    proof (rule less_mult_imp_div_less)
      have "(2 :: nat) ^ ?i * 2 ^ ?n = 2 ^ 64" using n64 by (simp flip: power_add)
      then show "unat l < 2 ^ ?i * 2 ^ ?n" using unat64 [of l] by simp
    qed
    moreover have "unat h1 < 2 ^ ?n" using h1(1) n(1) by simp
    ultimately show ?thesis
      using False n64 by (simp add: h2_def) (subst join64, simp_all add: unat_drop_bit64)
  qed
  have V: "unat h2 * 2 ^ 64 + unat l2 = ?V * 2 ^ ?i"
  proof -
    have e: "(2 :: nat) ^ 64 = 2 ^ ?n * 2 ^ ?i" using n64 by (simp flip: power_add)
    have "unat h2 * 2 ^ 64 + unat l2
        = unat h1 * 2 ^ ?i * 2 ^ 64 + (unat l div 2 ^ ?n * 2 ^ ?n + unat l mod 2 ^ ?n) * 2 ^ ?i"
      unfolding h2 l2 distrib_right e by (simp only: mult.assoc add.assoc)
    then show ?thesis unfolding div_mult_mod_eq by (simp add: algebra_simps)
  qed
  have less: "unat h2 < unat d2"
  proof -
    have "(unat h1 + 1) * 2 ^ 64 \<le> unat d * 2 ^ 64" using h1(1) by (intro mult_le_mono1) simp
    then have "?V < unat d * 2 ^ 64" using unat64 [of l] by (simp add: distrib_right)
    then have "?V * 2 ^ ?i < unat d * 2 ^ 64 * 2 ^ ?i" by simp
    then have "unat h2 * 2 ^ 64 < unat d2 * 2 ^ 64" unfolding V [symmetric] d2 by (simp add: mult_ac)
    then show ?thesis by simp
  qed
  have nz: "d \<noteq> 0" using assms(1) by auto
  have ok: "\<not> \<not> (?n = 64 \<or> h \<le> push_bit ?n 1)"
    using bn_div_words_assert [OF assms(1), of h] assms(3) by simp
  obtain r where r: "bn_div_words h l d = Some r" "unat r = (unat h2 * 2 ^ 64 + unat l2) div unat d2"
  proof -
    have "bn_div_words h l d = (case div_digit h2 l2 d2 of
              None \<Rightarrow> None
            | Some (q, h, l) \<Rightarrow>
                (let ret = push_bit 32 q;
                     h = push_bit 32 h OR drop_bit 32 l;
                     l = push_bit 32 (l AND 0xffffffff)
                 in case div_digit h l d2 of
                      None \<Rightarrow> None
                    | Some (q, h, l) \<Rightarrow> Some (ret OR q)))"
    proof -
      have t: "(if ?i \<noteq> 0 then (push_bit ?i h1 OR drop_bit (64 - ?i) l, push_bit ?i l, push_bit ?i d) else (h1, l, d))
          = (h2, l2, d2)"
        by (simp add: h2_def l2_def d2_def)
      show ?thesis
        unfolding bn_div_words_def Let_def h1_def [symmetric] t prod.case using nz ok by (simp only: if_False)
    qed
    then show thesis using div_words_normal [OF less, of l2] that by metis
  qed
  have "unat r = ?V div unat d" unfolding r(2) V d2 by simp
  moreover have "(unat h * 2 ^ 64 + unat l) div unat d = ?V div unat d + (if d \<le> h then 2 ^ 64 else 0)"
  proof (cases "d \<le> h")
    case True
    then have "unat h * 2 ^ 64 + unat l = ?V + unat d * 2 ^ 64" using h1(2) by simp
    then show ?thesis using True assms(1) by (simp only: div_mult_self2) simp
  qed (simp add: h1(2))
  moreover have "unat r < 2 ^ 64" by (rule unat64)
  ultimately show ?thesis using r(1) by simp
qed

text \<open>
  C25: bn_div_words divides two words by one.  For every non-zero divisor d, normalised or not: when
  a power of two lies above d and below the high word h, the assertion of the code fails; for every
  other h below 2 d, the loops that correct a trial digit end and the result is the low word of the
  quotient of h * 2 ^ 64 + l by d, which is the quotient itself when h is below d, an h the
  assertion never refuses.  A divisor of 0 gives a word of ones.
\<close>
theorem bn_div_words_correct:
  shows "(0 < unat d \<longrightarrow> (\<exists>k < 64. unat d < 2 ^ k \<and> 2 ^ k < unat h) \<longrightarrow> bn_div_words h l d = None)
    \<and> (0 < unat d \<longrightarrow> unat h < 2 * unat d \<longrightarrow> \<not> (\<exists>k < 64. unat d < 2 ^ k \<and> 2 ^ k < unat h) \<longrightarrow>
      (\<exists>r. bn_div_words h l d = Some r \<and> unat r = (unat h * 2 ^ 64 + unat l) div unat d mod 2 ^ 64))
    \<and> (unat h < unat d \<longrightarrow> (\<exists>r. bn_div_words h l d = Some r \<and> unat r = (unat h * 2 ^ 64 + unat l) div unat d))
    \<and> bn_div_words h l 0 = Some (- 1)"
proof (intro conjI impI)
  assume d: "0 < unat d" and e: "\<exists>k < 64. unat d < 2 ^ k \<and> 2 ^ k < unat h"
  show "bn_div_words h l d = None"
    using bn_div_words_assert [OF d, of h] e d by (auto simp: bn_div_words_def)
next
  assume "0 < unat d" "unat h < 2 * unat d" "\<not> (\<exists>k < 64. unat d < 2 ^ k \<and> 2 ^ k < unat h)"
  then show "\<exists>r. bn_div_words h l d = Some r \<and> unat r = (unat h * 2 ^ 64 + unat l) div unat d mod 2 ^ 64"
    by (rule bn_div_words_val)
next
  assume hd: "unat h < unat d"
  have "\<not> (\<exists>k < 64. unat d < 2 ^ k \<and> 2 ^ k < unat h)" using hd by (meson less_asym less_trans)
  then obtain r where r: "bn_div_words h l d = Some r" "unat r = (unat h * 2 ^ 64 + unat l) div unat d mod 2 ^ 64"
    using bn_div_words_val [of d h l] hd by auto
  have "unat l < 2 ^ 64" using unsigned_less [of l, where 'a = nat] by simp
  then have "unat h * 2 ^ 64 + unat l < (unat h + 1) * 2 ^ 64"
    by (simp only: distrib_right mult_1 nat_add_left_cancel_less)
  also have "\<dots> \<le> unat d * 2 ^ 64" using hd by (intro mult_right_mono) simp_all
  finally have "(unat h * 2 ^ 64 + unat l) div unat d < 2 ^ 64" by (simp only: less_mult_imp_div_less mult.commute)
  then show "\<exists>r. bn_div_words h l d = Some r \<and> unat r = (unat h * 2 ^ 64 + unat l) div unat d"
    using r by (metis mod_less)
next
  show "bn_div_words h l 0 = Some (- 1)" by (simp add: bn_div_words_def)
qed

theorem bn_div_words_correct_witness:
  "(\<exists>r. bn_div_words 1 5 7 = Some r \<and> unat r = (2 ^ 64 + 5) div 7) \<and> bn_div_words 10 0 7 = None"
proof -
  have "\<exists>k < 64. unat (7 :: u64) < 2 ^ k \<and> 2 ^ k < unat (10 :: u64)" by (intro exI [of _ 3]) simp
  then show ?thesis using bn_div_words_correct [of 7 1 5] bn_div_words_correct [of 7 10 0] by simp
qed

text \<open>
  The one pair the assertion lets through with a high word not below 2 d is \<open>h = 2 d\<close> for a power
  of two d, where one subtraction of d does not bring h below d: the result saturates.
\<close>
lemma bn_div_words_twice: "bn_div_words 2 0 1 = Some (- 1)"
proof -
  have "BN_num_bits_word 1 = 1" by code_simp
  then show ?thesis by (simp add: bn_div_words_def div_digit_def div_adjust.simps Let_def)
qed

end
