(* ===== verification/Bignum.thy ===== *)
theory Bignum
  imports BnDiv
begin

unbundle bit_operations_syntax

text \<open>
  Integers of any size: the structure \<^verbatim>\<open>BIGNUM\<close>, its memory, its tests and its comparisons
  (\<^verbatim>\<open>crypto/bn/bn.c\<close>, \<^verbatim>\<open>crypto/bn/cmp.c\<close> and the fields in \<^verbatim>\<open>include/openssl/bn.h\<close>).

  An operation that can fail returns the number it was writing, as the failure left it, and the
  error it pushed. Its result and its arguments may be one object: no operation modelled here reads
  a word of an argument after it has written the word of the same index of its result.
\<close>

section \<open>The structure\<close>

text \<open>
  \<^verbatim>\<open>d\<close> holds \<^verbatim>\<open>dmax\<close> words, of which the lower \<^verbatim>\<open>top\<close> are the number; the others are whatever they
  were.
\<close>

(* src: include/openssl/bn.h@775-782 bignum_st *)
record bignum =
  bn_d :: "u64 list"
  bn_top :: nat
  bn_neg :: bool
  bn_flags :: u32

datatype bn_error =
    BN_R_BIGNUM_TOO_LONG
  | BN_R_EXPAND_ON_STATIC_BIGNUM_DATA
  | ERR_R_MALLOC_FAILURE
  | BN_R_ARG2_LT_ARG3
  | BN_no_reason

text \<open>What an operation leaves in its result, and \<open>None\<close> where it returned 1.\<close>

type_synonym bn_result = "bignum \<times> bn_error option"

definition bn_then :: "bn_result \<Rightarrow> (bignum \<Rightarrow> bn_result) \<Rightarrow> bn_result" where
  "bn_then m f = (case m of (b, None) \<Rightarrow> f b | (b, Some e) \<Rightarrow> (b, Some e))"

lemma bn_then_simps [simp]:
  "bn_then (b, None) f = f b" "bn_then (b, Some e) f = (b, Some e)"
  by (simp_all add: bn_then_def)

definition BN_FLG_MALLOCED :: u32 where "BN_FLG_MALLOCED = 0x01"
definition BN_FLG_STATIC_DATA :: u32 where "BN_FLG_STATIC_DATA = 0x02"
definition BN_FLG_CONSTTIME :: u32 where "BN_FLG_CONSTTIME = 0x04"

section \<open>Memory\<close>

text \<open>The allocator: the words a block of the given size starts with, or \<open>None\<close>.\<close>

type_synonym bn_malloc = "nat \<Rightarrow> (nat \<Rightarrow> u64) option"

(* src: crypto/bn/bn.c bn_wexpand *)
definition bn_wexpand :: "bn_malloc \<Rightarrow> bignum \<Rightarrow> nat \<Rightarrow> bn_result" where
  "bn_wexpand M bn words =
     (if words \<le> length (bn_d bn) then (bn, None)
      else if (2 ^ 31 - 1) div (4 * 64) < words then (bn, Some BN_R_BIGNUM_TOO_LONG)
      else if bn_flags bn AND BN_FLG_STATIC_DATA \<noteq> 0 then (bn, Some BN_R_EXPAND_ON_STATIC_BIGNUM_DATA)
      else case M words of
             None \<Rightarrow> (bn, Some ERR_R_MALLOC_FAILURE)
           | Some w \<Rightarrow> (bn\<lparr>bn_d := take (bn_top bn) (bn_d bn) @ map w [bn_top bn ..< words]\<rparr>, None))"

(* src: crypto/bn/bn.c bn_expand *)
definition bn_expand :: "bn_malloc \<Rightarrow> bignum \<Rightarrow> nat \<Rightarrow> bn_result" where
  "bn_expand M bn bits = bn_wexpand M bn ((bits + 64 - 1) div 64)"

(* src: crypto/bn/bn.c BN_init *)
definition BN_init :: bignum where
  "BN_init = \<lparr>bn_d = [], bn_top = 0, bn_neg = False, bn_flags = 0\<rparr>"

text \<open>A new number; \<open>ok\<close> says whether its structure could be allocated.\<close>

(* src: crypto/bn/bn.c BN_new *)
definition BN_new :: "bool \<Rightarrow> bignum option" where
  "BN_new ok = (if ok then Some (BN_init\<lparr>bn_flags := BN_FLG_MALLOCED\<rparr>) else None)"

(* src: crypto/bn/bn.c BN_copy *)
definition BN_copy :: "bn_malloc \<Rightarrow> bignum \<Rightarrow> bignum \<Rightarrow> bn_result" where
  "BN_copy M dest src =
     bn_then (bn_wexpand M dest (bn_top src)) (\<lambda>dest.
       (dest\<lparr>bn_d := take (bn_top src) (bn_d src) @ drop (bn_top src) (bn_d dest),
             bn_top := bn_top src, bn_neg := bn_neg src\<rparr>, None))"

(* src: crypto/bn/bn.c BN_dup *)
definition BN_dup :: "bool \<Rightarrow> bn_malloc \<Rightarrow> bignum \<Rightarrow> bignum option" where
  "BN_dup ok M src =
     (case BN_new ok of
        None \<Rightarrow> None
      | Some copy \<Rightarrow> (case BN_copy M copy src of (copy, None) \<Rightarrow> Some copy | (_, Some _) \<Rightarrow> None))"

(* src: crypto/bn/bn.c BN_clear *)
definition BN_clear :: "bignum \<Rightarrow> bignum" where
  "BN_clear bn = bn\<lparr>bn_d := replicate (length (bn_d bn)) 0, bn_top := 0, bn_neg := False\<rparr>"

(* src: crypto/bn/bn.c BN_value_one *)
definition BN_value_one :: bignum where
  "BN_value_one = \<lparr>bn_d = [1], bn_top = 1, bn_neg = False, bn_flags = BN_FLG_STATIC_DATA\<rparr>"

text \<open>The copy shares the words of the original, and so may not let go of them.\<close>

(* src: crypto/bn/bn.c BN_with_flags *)
definition BN_with_flags :: "bignum \<Rightarrow> u32 \<Rightarrow> bignum" where
  "BN_with_flags inp flags =
     inp\<lparr>bn_flags := (bn_flags inp AND NOT BN_FLG_MALLOCED) OR (BN_FLG_STATIC_DATA OR flags)\<rparr>"

(* src: crypto/bn/bn.c BN_get_flags *)
definition BN_get_flags :: "bignum \<Rightarrow> u32 \<Rightarrow> u32" where
  "BN_get_flags bn flags = bn_flags bn AND flags"

(* src: crypto/bn/bn.c BN_set_flags *)
definition BN_set_flags :: "bignum \<Rightarrow> u32 \<Rightarrow> bignum" where
  "BN_set_flags bn flags = bn\<lparr>bn_flags := bn_flags bn OR flags\<rparr>"

section \<open>Small operations\<close>

primrec correct_top :: "u64 list \<Rightarrow> nat \<Rightarrow> nat" where
  "correct_top d 0 = 0"
| "correct_top d (Suc n) = (if d ! n \<noteq> 0 then Suc n else correct_top d n)"

(* src: crypto/bn/bn.c bn_correct_top *)
definition bn_correct_top :: "bignum \<Rightarrow> bignum" where
  "bn_correct_top bn = bn\<lparr>bn_top := correct_top (bn_d bn) (bn_top bn)\<rparr>"

(* src: crypto/bn/bn.c BN_zero *)
definition BN_zero :: "bignum \<Rightarrow> bignum" where
  "BN_zero bn = bn\<lparr>bn_top := 0, bn_neg := False\<rparr>"

(* src: crypto/bn/bn.c BN_set_word *)
definition BN_set_word :: "bn_malloc \<Rightarrow> bignum \<Rightarrow> u64 \<Rightarrow> bn_result" where
  "BN_set_word M bn v =
     (if v = 0 then (BN_zero bn, None)
      else bn_then (bn_wexpand M bn 1) (\<lambda>bn.
        (bn\<lparr>bn_neg := False, bn_d := (bn_d bn)[0 := v], bn_top := 1\<rparr>, None)))"

(* src: crypto/bn/bn.c BN_one *)
definition BN_one :: "bn_malloc \<Rightarrow> bignum \<Rightarrow> bn_result" where
  "BN_one M bn = BN_set_word M bn 1"

(* src: crypto/bn/cmp.c BN_is_zero *)
definition BN_is_zero :: "bignum \<Rightarrow> bool" where
  "BN_is_zero bn \<longleftrightarrow> bn_top bn = 0"

(* src: crypto/bn/bn.c BN_num_bits *)
definition BN_num_bits :: "bignum \<Rightarrow> nat" where
  "BN_num_bits bn =
     (if BN_is_zero bn then 0
      else (bn_top bn - 1) * 64 + BN_num_bits_word (bn_d bn ! (bn_top bn - 1)))"

(* src: crypto/bn/bn.c BN_num_bytes *)
definition BN_num_bytes :: "bignum \<Rightarrow> nat" where
  "BN_num_bytes bn = (BN_num_bits bn + 7) div 8"

(* src: crypto/bn/bn.c BN_is_negative *)
definition BN_is_negative :: "bignum \<Rightarrow> bool" where
  "BN_is_negative bn = bn_neg bn"

(* src: crypto/bn/bn.c BN_set_negative *)
definition BN_set_negative :: "bignum \<Rightarrow> bool \<Rightarrow> bignum" where
  "BN_set_negative bn sign = bn\<lparr>bn_neg := sign \<and> \<not> BN_is_zero bn\<rparr>"

(* src: crypto/bn/convert.c BN_get_word *)
definition BN_get_word :: "bignum \<Rightarrow> u64" where
  "BN_get_word bn = (if bn_top bn = 0 then 0 else if bn_top bn = 1 then bn_d bn ! 0 else 0xffffffffffffffff)"

section \<open>Comparison\<close>

(* src: crypto/bn/cmp.c BN_ucmp *)
definition BN_ucmp :: "bignum \<Rightarrow> bignum \<Rightarrow> int" where
  "BN_ucmp a b =
     (let i = int (bn_top a) - int (bn_top b)
      in if i \<noteq> 0 then i else cmp_down (bn_d a) (bn_d b) (bn_top a))"

primrec cmp_signed :: "int \<Rightarrow> int \<Rightarrow> u64 list \<Rightarrow> u64 list \<Rightarrow> nat \<Rightarrow> int" where
  "cmp_signed gt lt a b 0 = 0"
| "cmp_signed gt lt a b (Suc i) =
     (if b ! i < a ! i then gt else if a ! i < b ! i then lt else cmp_signed gt lt a b i)"

(* src: crypto/bn/cmp.c BN_cmp *)
definition BN_cmp :: "bignum option \<Rightarrow> bignum option \<Rightarrow> int" where
  "BN_cmp a b =
     (case (a, b) of
        (Some a, Some b) \<Rightarrow>
          (if bn_neg a \<noteq> bn_neg b then (if bn_neg a then -1 else 1)
           else let (gt, lt) = (if \<not> bn_neg a then (1, -1) else (-1, 1))
                in if bn_top b < bn_top a then gt
                   else if bn_top a < bn_top b then lt
                   else cmp_signed gt lt (bn_d a) (bn_d b) (bn_top a))
      | (Some _, None) \<Rightarrow> -1
      | (None, Some _) \<Rightarrow> 1
      | (None, None) \<Rightarrow> 0)"

(* src: crypto/bn/cmp.c bn_cmp_part_words *)
definition bn_cmp_part_words :: "u64 list \<Rightarrow> u64 list \<Rightarrow> nat \<Rightarrow> int \<Rightarrow> int" where
  "bn_cmp_part_words a b cl dl =
     (if dl < 0 \<and> list_ex (\<lambda>w. w \<noteq> 0) (take (nat (- dl)) (drop cl b)) then -1
      else if 0 < dl \<and> list_ex (\<lambda>w. w \<noteq> 0) (take (nat dl) (drop cl a)) then 1
      else bn_cmp_words a b cl)"

(* src: crypto/bn/cmp.c BN_abs_is_word *)
definition BN_abs_is_word :: "bignum \<Rightarrow> u64 \<Rightarrow> bool" where
  "BN_abs_is_word bn w =
     (if bn_top bn = 1 then bn_d bn ! 0 = w else if bn_top bn = 0 then w = 0 else False)"

(* src: crypto/bn/cmp.c BN_is_one *)
definition BN_is_one :: "bignum \<Rightarrow> bool" where
  "BN_is_one bn \<longleftrightarrow> \<not> bn_neg bn \<and> BN_abs_is_word bn 1"

(* src: crypto/bn/cmp.c BN_is_word *)
definition BN_is_word :: "bignum \<Rightarrow> u64 \<Rightarrow> bool" where
  "BN_is_word bn w \<longleftrightarrow> BN_abs_is_word bn w \<and> (w = 0 \<or> \<not> bn_neg bn)"

(* src: crypto/bn/cmp.c BN_is_odd *)
definition BN_is_odd :: "bignum \<Rightarrow> bool" where
  "BN_is_odd bn \<longleftrightarrow> 0 < bn_top bn \<and> bn_d bn ! 0 AND 1 = 1"

section \<open>The integer a number stands for\<close>

definition bn_words :: "bignum \<Rightarrow> u64 list" where
  "bn_words bn = take (bn_top bn) (bn_d bn)"

definition bn_abs :: "bignum \<Rightarrow> nat" where
  "bn_abs bn = bn_val (bn_words bn)"

definition bn_int :: "bignum \<Rightarrow> int" where
  "bn_int bn = (if bn_neg bn then - int (bn_abs bn) else int (bn_abs bn))"

text \<open>The words in use are allocated and the highest is not zero; zero has no sign.\<close>

definition bn_ok :: "bignum \<Rightarrow> bool" where
  "bn_ok bn \<longleftrightarrow> bn_top bn \<le> length (bn_d bn) \<and> (bn_top bn = 0 \<or> bn_d bn ! (bn_top bn - 1) \<noteq> 0)"

definition bn_wf :: "bignum \<Rightarrow> bool" where
  "bn_wf bn \<longleftrightarrow> bn_ok bn \<and> (bn_neg bn \<longrightarrow> bn_top bn \<noteq> 0)"

lemma bn_abs_bounds:
  assumes "bn_ok bn"
  shows "bn_abs bn < 2 ^ (64 * bn_top bn)" "0 < bn_top bn \<Longrightarrow> 2 ^ (64 * (bn_top bn - 1)) \<le> bn_abs bn"
proof -
  have l: "length (bn_words bn) = bn_top bn" using assms by (simp add: bn_ok_def bn_words_def)
  show "bn_abs bn < 2 ^ (64 * bn_top bn)"
    using bn_val_bound [of "bn_words bn"] by (simp add: bn_abs_def l)
  show "2 ^ (64 * (bn_top bn - 1)) \<le> bn_abs bn" if pos: "0 < bn_top bn"
  proof -
    obtain n where n: "bn_top bn = Suc n" using pos by (cases "bn_top bn") auto
    have "0 < unat (bn_d bn ! n)" using assms n by (simp add: bn_ok_def unat_gt_0)
    then have "2 ^ (64 * n) * 1 \<le> 2 ^ (64 * n) * unat (bn_d bn ! n)" by (intro mult_le_mono2) simp
    moreover have "bn_abs bn = bn_val (take n (bn_d bn)) + 2 ^ (64 * n) * unat (bn_d bn ! n)"
      using assms n by (simp add: bn_abs_def bn_words_def bn_ok_def take_Suc_conv_app_nth bn_val_append)
    ultimately have "2 ^ (64 * n) \<le> bn_abs bn" by linarith
    then show ?thesis using n by simp
  qed
qed

text \<open>Conversely, words that reach their highest place make a number.\<close>

lemma bn_okI:
  assumes "bn_top bn \<le> length (bn_d bn)" "0 < bn_top bn \<Longrightarrow> 2 ^ (64 * (bn_top bn - 1)) \<le> bn_abs bn"
  shows "bn_ok bn"
proof (cases "bn_top bn")
  case (Suc n)
  have "bn_d bn ! n \<noteq> 0"
  proof
    assume "bn_d bn ! n = 0"
    then have "bn_abs bn = bn_val (take n (bn_d bn))"
      using assms(1) Suc by (simp add: bn_abs_def bn_words_def take_Suc_conv_app_nth bn_val_append)
    also have "\<dots> < 2 ^ (64 * n)"
      using bn_val_bound [of "take n (bn_d bn)"] assms(1) Suc by (simp add: min_absorb2)
    finally show False using assms(2) Suc by simp
  qed
  then show ?thesis using assms(1) Suc by (simp add: bn_ok_def)
qed (simp add: bn_ok_def)

lemma bn_abs_zero:
  assumes "bn_ok bn"
  shows "bn_abs bn = 0 \<longleftrightarrow> bn_top bn = 0"
proof (cases "bn_top bn = 0")
  case False
  have "0 < (2 :: nat) ^ (64 * (bn_top bn - 1))" by simp
  also have "\<dots> \<le> bn_abs bn" using bn_abs_bounds(2) [OF assms] False by simp
  finally show ?thesis using False by simp
qed (simp add: bn_abs_def bn_words_def)

lemma bn_top_less_abs:
  assumes "bn_ok a" "bn_ok b" "bn_top a < bn_top b"
  shows "bn_abs a < bn_abs b"
proof -
  have "bn_abs a < 2 ^ (64 * bn_top a)" by (rule bn_abs_bounds(1) [OF assms(1)])
  also have "\<dots> \<le> 2 ^ (64 * (bn_top b - 1))" using assms(3) by (intro power_increasing) simp_all
  also have "\<dots> \<le> bn_abs b" using bn_abs_bounds(2) [OF assms(2)] assms(3) by simp
  finally show ?thesis .
qed

lemma correct_top_val:
  "n \<le> length d \<Longrightarrow> bn_val (take (correct_top d n) d) = bn_val (take n d) \<and> correct_top d n \<le> n
    \<and> (correct_top d n = 0 \<or> d ! (correct_top d n - 1) \<noteq> 0)"
  by (induction n) (auto simp: take_Suc_conv_app_nth bn_val_append)

lemma bn_correct_top_ok:
  assumes "bn_top bn \<le> length (bn_d bn)"
  shows "bn_ok (bn_correct_top bn)" "bn_abs (bn_correct_top bn) = bn_abs bn"
  using correct_top_val [OF assms] assms by (auto simp: bn_correct_top_def bn_ok_def bn_abs_def bn_words_def)

lemma bn_correct_top_fields [simp]:
  "bn_neg (bn_correct_top bn) = bn_neg bn" "bn_d (bn_correct_top bn) = bn_d bn"
  "bn_flags (bn_correct_top bn) = bn_flags bn"
  by (simp_all add: bn_correct_top_def)

lemma bn_wexpand_cases:
  assumes "bn_wexpand M bn n = (bn', e)" "bn_top bn \<le> length (bn_d bn)"
  shows "bn_top bn' = bn_top bn" "bn_neg bn' = bn_neg bn" "bn_flags bn' = bn_flags bn"
    "bn_words bn' = bn_words bn" "bn_top bn' \<le> length (bn_d bn')"
    "e = None \<Longrightarrow> n \<le> length (bn_d bn')" "e \<noteq> None \<Longrightarrow> bn' = bn"
  using assms by (auto simp: bn_wexpand_def bn_words_def split: if_splits option.splits)

lemma cmp_signed_down:
  "cmp_signed gt lt a b n = (if cmp_down a b n = 0 then 0 else if 0 < cmp_down a b n then gt else lt)"
  by (induction n) auto

lemma bn_words_cmp:
  assumes "bn_ok a" "bn_ok b" "bn_top a = bn_top b"
  shows "cmp_down (bn_d a) (bn_d b) (bn_top a) = sgn (int (bn_abs a) - int (bn_abs b))"
  using cmp_down_val [of "bn_top a" "bn_d a" "bn_d b"] assms by (simp add: bn_ok_def bn_abs_def bn_words_def)

lemma BN_ucmp_val:
  assumes "bn_ok a" "bn_ok b"
  shows "sgn (BN_ucmp a b) = sgn (int (bn_abs a) - int (bn_abs b))"
proof (cases "bn_top a" "bn_top b" rule: linorder_cases)
  case equal
  then show ?thesis using bn_words_cmp [OF assms] by (simp add: BN_ucmp_def)
next
  case less
  then show ?thesis using bn_top_less_abs [OF assms] by (simp add: BN_ucmp_def)
next
  case greater
  then show ?thesis using bn_top_less_abs [OF assms(2,1)] by (simp add: BN_ucmp_def)
qed

lemma BN_ucmp_less: "bn_ok a \<Longrightarrow> bn_ok b \<Longrightarrow> BN_ucmp a b < 0 \<longleftrightarrow> bn_abs a < bn_abs b"
  using BN_ucmp_val [of a b] by (auto simp: sgn_if split: if_splits)

lemma BN_cmp_val:
  assumes "bn_wf a" "bn_wf b"
  shows "BN_cmp (Some a) (Some b) = sgn (bn_int a - bn_int b)"
proof -
  have ok: "bn_ok a" "bn_ok b" using assms by (auto simp: bn_wf_def)
  have pos: "0 < bn_abs a" if "bn_neg a" "bn_wf a" for a
    using that bn_abs_zero [of a] by (auto simp: bn_wf_def)
  show ?thesis
  proof (cases "bn_neg a = bn_neg b")
    case False
    then show ?thesis using pos [OF _ assms(1)] pos [OF _ assms(2)] by (auto simp: BN_cmp_def bn_int_def)
  next
    case True
    then show ?thesis
      using bn_words_cmp [OF ok] bn_top_less_abs [OF ok] bn_top_less_abs [OF ok(2,1)]
      by (cases "bn_top a" "bn_top b" rule: linorder_cases)
        (auto simp: BN_cmp_def bn_int_def cmp_signed_down sgn_if)
  qed
qed

text \<open>
  Comparing canonical numbers: the sign of BN_ucmp is that of the difference of the
  magnitudes and BN_cmp that of the integers; a null pointer comes after every number, and BN_is_zero
  holds exactly of 0.
\<close>
theorem BN_cmp_correct:
  assumes "bn_wf a" "bn_wf b"
  shows "BN_cmp (Some a) (Some b) = sgn (bn_int a - bn_int b)
    \<and> sgn (BN_ucmp a b) = sgn (\<bar>bn_int a\<bar> - \<bar>bn_int b\<bar>)
    \<and> BN_cmp (Some a) None = - 1 \<and> BN_cmp None (Some a) = 1
    \<and> (BN_is_zero a \<longleftrightarrow> bn_int a = 0)"
proof (intro conjI)
  have ok: "bn_ok a" "bn_ok b" using assms by (auto simp: bn_wf_def)
  show "BN_cmp (Some a) (Some b) = sgn (bn_int a - bn_int b)" using assms by (rule BN_cmp_val)
  show "sgn (BN_ucmp a b) = sgn (\<bar>bn_int a\<bar> - \<bar>bn_int b\<bar>)"
    using BN_ucmp_val [OF ok] by (simp add: bn_int_def)
  show "BN_is_zero a \<longleftrightarrow> bn_int a = 0"
    using bn_abs_zero [OF ok(1)] by (auto simp: BN_is_zero_def bn_int_def)
qed (simp_all add: BN_cmp_def)

theorem BN_cmp_correct_witness:
  "BN_cmp (Some \<lparr>bn_d = [5, 1], bn_top = 2, bn_neg = True, bn_flags = 0\<rparr>)
     (Some \<lparr>bn_d = [5, 0], bn_top = 1, bn_neg = False, bn_flags = 0\<rparr>) = - 1"
  using BN_cmp_correct [where a = "\<lparr>bn_d = [5, 1], bn_top = 2, bn_neg = True, bn_flags = 0\<rparr>"
      and b = "\<lparr>bn_d = [5, 0], bn_top = 1, bn_neg = False, bn_flags = 0\<rparr>"]
  by (simp add: bn_int_def bn_abs_def bn_words_def bn_wf_def bn_ok_def)

end
