(* ===== verification/BnAdd.thy ===== *)
theory BnAdd
  imports Bignum
begin

text \<open>
  Addition and subtraction (\<^verbatim>\<open>crypto/bn/add.c\<close>): of magnitudes, of signed numbers, and of a number
  and a word in place.
\<close>

section \<open>Magnitudes\<close>

text \<open>A carry and a borrow on their way up; the first is \<open>True\<close> where it left the words.\<close>

primrec inc_words :: "u64 list \<Rightarrow> u64 list \<times> bool" where
  "inc_words [] = ([], True)"
| "inc_words (t1 # ts) =
     (let t2 = t1 + 1
      in if t2 \<noteq> 0 then (t2 # ts, False) else let (ts, c) = inc_words ts in (t2 # ts, c))"

primrec dec_words :: "u64 list \<Rightarrow> u64 list" where
  "dec_words [] = []"
| "dec_words (t1 # ts) = (t1 - 1) # (if t1 \<noteq> 0 then ts else dec_words ts)"

(* src: crypto/bn/add.c BN_uadd *)
definition BN_uadd :: "bn_malloc \<Rightarrow> bignum \<Rightarrow> bignum \<Rightarrow> bignum \<Rightarrow> bn_result" where
  "BN_uadd M r a b =
     (let (a, b) = (if bn_top a < bn_top b then (b, a) else (a, b));
          max = bn_top a; min = bn_top b
      in bn_then (bn_wexpand M r (max + 1)) (\<lambda>r.
           let (ws, carry) = bn_add_words (take min (bn_d a)) (take min (bn_d b));
               rest = take (max - min) (drop min (bn_d a));
               (rest, carry) = (if carry \<noteq> 0 then inc_words rest else (rest, False))
           in if carry
              then (r\<lparr>bn_d := ws @ rest @ 1 # drop (max + 1) (bn_d r), bn_top := max + 1, bn_neg := False\<rparr>, None)
              else (r\<lparr>bn_d := ws @ rest @ drop max (bn_d r), bn_top := max, bn_neg := False\<rparr>, None)))"

primrec usub_words :: "bool \<Rightarrow> (u64 \<times> u64) list \<Rightarrow> u64 list \<times> bool" where
  "usub_words carry [] = ([], carry)"
| "usub_words carry (t # ts) =
     (let (t1, t2) = t;
          (w, carry) = (if carry then (t1 - t2 - 1, t1 \<le> t2) else (t1 - t2, t1 < t2));
          (ws, carry) = usub_words carry ts
      in (w # ws, carry))"

(* src: crypto/bn/add.c BN_usub *)
definition BN_usub :: "bn_malloc \<Rightarrow> bignum \<Rightarrow> bignum \<Rightarrow> bignum \<Rightarrow> bn_result" where
  "BN_usub M r a b =
     (let max = bn_top a; min = bn_top b
      in if max < min then (r, Some BN_R_ARG2_LT_ARG3)
         else bn_then (bn_wexpand M r max) (\<lambda>r.
           let (ws, carry) = usub_words False (zip (take min (bn_d a)) (take min (bn_d b)));
               rest = take (max - min) (drop min (bn_d a))
           in if carry \<and> max = min then (r\<lparr>bn_d := ws @ drop min (bn_d r)\<rparr>, Some BN_no_reason)
              else (bn_correct_top (r\<lparr>bn_d := ws @ (if carry then dec_words rest else rest) @ drop max (bn_d r),
                                      bn_top := max, bn_neg := False\<rparr>), None)))"

section \<open>Signed numbers\<close>

definition set_neg :: "bool \<Rightarrow> bignum \<Rightarrow> bn_result" where
  "set_neg n r = (r\<lparr>bn_neg := n\<rparr>, None)"

(* src: crypto/bn/add.c BN_add *)
definition BN_add :: "bn_malloc \<Rightarrow> bignum \<Rightarrow> bignum \<Rightarrow> bignum \<Rightarrow> bn_result" where
  "BN_add M r a b =
     (let a_neg = bn_neg a
      in if a_neg \<noteq> bn_neg b
         then let (a, b) = (if a_neg then (b, a) else (a, b))
              in if BN_ucmp a b < 0 then bn_then (BN_usub M r b a) (set_neg True)
                 else bn_then (BN_usub M r a b) (set_neg False)
         else let (r, ret) = BN_uadd M r a b in (r\<lparr>bn_neg := a_neg\<rparr>, ret))"

(* src: crypto/bn/add.c BN_sub *)
definition BN_sub :: "bn_malloc \<Rightarrow> bignum \<Rightarrow> bignum \<Rightarrow> bignum \<Rightarrow> bn_result" where
  "BN_sub M r a b =
     (let (a, b, add, neg) =
        (if bn_neg a then if bn_neg b then (b, a, False, False) else (a, b, True, True)
         else if bn_neg b then (a, b, True, False) else (a, b, False, False))
      in if add then bn_then (BN_uadd M r a b) (set_neg neg)
         else bn_then (bn_wexpand M r (max (bn_top a) (bn_top b))) (\<lambda>r.
           if BN_ucmp a b < 0 then bn_then (BN_usub M r b a) (set_neg True)
           else bn_then (BN_usub M r a b) (set_neg False)))"

section \<open>A number and a word\<close>

text \<open>The words below \<open>i\<close> done, \<open>n\<close> still to visit.\<close>

primrec add_word_loop :: "u64 list \<Rightarrow> u64 \<Rightarrow> u64 list \<times> u64" where
  "add_word_loop [] w = ([], w)"
| "add_word_loop (d # ds) w =
     (if w = 0 then (d # ds, 0)
      else let l = d + w; (ds, w) = add_word_loop ds (if l < w then 1 else 0) in (l # ds, w))"

text \<open>The words with \<open>w\<close> taken off, and the index of the last word written; a borrow that leaves
  the number, which the callers exclude, reads beyond it.\<close>

primrec sub_word_loop :: "u64 list \<Rightarrow> u64 \<Rightarrow> (u64 list \<times> nat) option" where
  "sub_word_loop [] w = None"
| "sub_word_loop (d # ds) w =
     (if w \<le> d then Some ((d - w) # ds, 0)
      else case sub_word_loop ds 1 of
             None \<Rightarrow> None
           | Some (ds, i) \<Rightarrow> Some ((d - w) # ds, i + 1))"

text \<open>The branches for a positive number; the others call them with the sign turned.\<close>

(* src: crypto/bn/add.c@186-199 BN_add_word *)
definition add_word_pos :: "bn_malloc \<Rightarrow> bignum \<Rightarrow> u64 \<Rightarrow> bn_result" where
  "add_word_pos M a w =
     (let (ws, w) = add_word_loop (take (bn_top a) (bn_d a)) w;
          a = a\<lparr>bn_d := ws @ drop (bn_top a) (bn_d a)\<rparr>
      in if w \<noteq> 0
         then bn_then (bn_wexpand M a (bn_top a + 1)) (\<lambda>a.
                (a\<lparr>bn_top := bn_top a + 1, bn_d := (bn_d a)[bn_top a := w]\<rparr>, None))
         else (a, None))"

(* src: crypto/bn/add.c@371-393 BN_sub_word *)
definition sub_word_pos :: "bignum \<Rightarrow> u64 \<Rightarrow> bn_result option" where
  "sub_word_pos a w =
     (if bn_top a = 1 \<and> bn_d a ! 0 < w
      then Some (a\<lparr>bn_d := (bn_d a)[0 := w - bn_d a ! 0], bn_neg := True\<rparr>, None)
      else case sub_word_loop (take (bn_top a) (bn_d a)) w of
             None \<Rightarrow> None
           | Some (ws, i) \<Rightarrow>
               (let a = a\<lparr>bn_d := ws @ drop (bn_top a) (bn_d a)\<rparr>
                in Some (if bn_d a ! i = 0 \<and> i = bn_top a - 1 then a\<lparr>bn_top := bn_top a - 1\<rparr> else a, None)))"

(* src: crypto/bn/add.c BN_add_word *)
definition BN_add_word :: "bn_malloc \<Rightarrow> bignum \<Rightarrow> u64 \<Rightarrow> bn_result option" where
  "BN_add_word M a w =
     (if w = 0 then Some (a, None)
      else if BN_is_zero a then Some (BN_set_word M a w)
      else if bn_neg a
      then case sub_word_pos (a\<lparr>bn_neg := False\<rparr>) w of
             None \<Rightarrow> None
           | Some (a, i) \<Rightarrow> Some (if BN_is_zero a then a else a\<lparr>bn_neg := \<not> bn_neg a\<rparr>, i)
      else Some (add_word_pos M a w))"

(* src: crypto/bn/add.c BN_sub_word *)
definition BN_sub_word :: "bn_malloc \<Rightarrow> bignum \<Rightarrow> u64 \<Rightarrow> bn_result option" where
  "BN_sub_word M a w =
     (if w = 0 then Some (a, None)
      else if BN_is_zero a
      then Some (let (a, i) = BN_set_word M a w in (if i = None then BN_set_negative a True else a, i))
      else if bn_neg a then Some (let (a, i) = add_word_pos M (a\<lparr>bn_neg := False\<rparr>) w in (a\<lparr>bn_neg := True\<rparr>, i))
      else sub_word_pos a w)"

section \<open>Magnitudes are exact\<close>

lemma inc_words_val:
  "inc_words ts = (rs, c) \<Longrightarrow>
   bn_val rs + (if c then 2 ^ (64 * length ts) else 0) = bn_val ts + 1 \<and> length rs = length ts"
proof (induction ts arbitrary: rs)
  case (Cons t ts)
  have s: "unat (t + 1) + (if t + 1 = 0 then 2 ^ 64 else 0) = unat t + 1"
    using plus_carry64 [of 1 t] by (auto simp: add.commute word_less_nat_alt unat_eq_zero)
  show ?case
  proof (cases "t + 1 = 0")
    case True
    obtain qs where q: "inc_words ts = (qs, c)" "rs = (t + 1) # qs"
      using Cons.prems True by (auto simp: Let_def split: prod.splits)
    have "2 ^ 64 * (bn_val qs + (if c then 2 ^ (64 * length ts) else 0)) = 2 ^ 64 * (bn_val ts + 1)"
      using Cons.IH [OF q(1)] by simp
    then show ?thesis using s True q Cons.IH [OF q(1)] by (auto simp: power_add)
  next
    case False
    then show ?thesis using Cons.prems s by (auto simp: Let_def)
  qed
qed simp

lemma dec_words_val:
  "0 < bn_val ts \<Longrightarrow> bn_val (dec_words ts) + 1 = bn_val ts"
proof (induction ts)
  case (Cons t ts)
  show ?case
  proof (cases "t = 0")
    case True
    then have "bn_val (dec_words ts) + 1 = bn_val ts" using Cons by simp
    then have "2 ^ 64 * bn_val ts = 2 ^ 64 * bn_val (dec_words ts) + 2 ^ 64"
      by (metis distrib_left mult_1_right)
    moreover have "unat (0 - 1 :: u64) = 2 ^ 64 - 1" by (simp add: unsigned_minus_1_eq_mask mask_eq_exp_minus_1)
    ultimately show ?thesis using True by simp
  next
    case False
    then have "unat t \<noteq> 0" by (simp add: unat_eq_zero)
    then have "unat (t - 1) = unat t - 1" "0 < unat t"
      using minus_borrow64 [of t 1] by (auto simp: word_less_nat_alt)
    then show ?thesis using False by simp
  qed
qed simp

lemma length_dec_words [simp]: "length (dec_words ts) = length ts"
  by (induction ts) simp_all

lemma usub_words_val:
  "length xs = length ys \<Longrightarrow> usub_words c (zip xs ys) = (rs, c') \<Longrightarrow>
   bn_val rs + bn_val ys + of_bool c = bn_val xs + 2 ^ (64 * length xs) * of_bool c' \<and> length rs = length xs"
proof (induction xs ys arbitrary: c rs rule: list_induct2)
  case (Cons x xs y ys)
  let ?w = "if c then x - y - 1 else x - y" and ?c = "if c then x \<le> y else x < y"
  obtain zs where z: "usub_words ?c (zip xs ys) = (zs, c')" "rs = ?w # zs"
    using Cons.prems by (auto split: prod.splits if_splits)
  note s = minus_borrow64
  have w: "unat ?w + unat y + of_bool c = unat x + 2 ^ 64 * of_bool ?c"
    using s [of x y] s [of "x - y" 1] unat64 [of x] unat64 [of y]
    by (auto simp: word_less_nat_alt word_le_nat_alt split: if_splits)
  note IH = Cons.IH [OF z(1)]
  have "bn_val rs + bn_val (y # ys) + of_bool c
      = (unat ?w + unat y + of_bool c) + 2 ^ 64 * (bn_val zs + bn_val ys)"
    unfolding z(2) by simp
  also have "\<dots> = unat x + 2 ^ 64 * (bn_val zs + bn_val ys + of_bool ?c)"
    unfolding w by simp
  finally show ?case using IH z(2) by (simp add: power_add algebra_simps)
qed simp

lemma bn_words_split:
  assumes "n \<le> bn_top a" "bn_top a \<le> length (bn_d a)"
  shows "bn_val (take n (bn_d a)) + 2 ^ (64 * n) * bn_val (take (bn_top a - n) (drop n (bn_d a))) = bn_abs a"
proof -
  have "take (bn_top a) (bn_d a) = take n (bn_d a) @ take (bn_top a - n) (drop n (bn_d a))"
    using assms(1) by (metis le_add_diff_inverse take_add)
  then show ?thesis using assms by (simp add: bn_abs_def bn_words_def bn_val_append min_absorb2)
qed

text \<open>The sum of magnitudes, for arguments of any lengths.\<close>

lemma uadd_words:
  assumes a: "bn_ok a" and b: "bn_ok b" and le: "bn_top b \<le> bn_top a"
    and ws: "bn_add_words (take (bn_top b) (bn_d a)) (take (bn_top b) (bn_d b)) = (ws, c)"
    and rest: "(if c \<noteq> 0 then inc_words (take (bn_top a - bn_top b) (drop (bn_top b) (bn_d a)))
        else (take (bn_top a - bn_top b) (drop (bn_top b) (bn_d a)), False)) = (rs, c')"
  shows "bn_val (ws @ rs) + (if c' then 2 ^ (64 * bn_top a) else 0) = bn_abs a + bn_abs b
    \<and> length ws = bn_top b \<and> length rs = bn_top a - bn_top b"
proof -
  let ?m = "bn_top b" and ?r = "take (bn_top a - bn_top b) (drop (bn_top b) (bn_d a))"
  have la: "bn_top a \<le> length (bn_d a)" and lb: "?m \<le> length (bn_d b)" using a b by (simp_all add: bn_ok_def)
  have w: "bn_val ws + 2 ^ (64 * ?m) * unat c = bn_val (take ?m (bn_d a)) + bn_abs b" "length ws = ?m" "unat c \<le> 1"
    using bn_add_words_val [OF ws] la lb le by (auto simp: bn_abs_def bn_words_def min_absorb2)
  have "bn_val rs + (if c' then 2 ^ (64 * (bn_top a - ?m)) else 0) = bn_val ?r + unat c \<and> length rs = bn_top a - ?m"
  proof (cases "c = 0")
    case False
    then have "unat c = 1" using w(3) by (simp add: le_Suc_eq unat_eq_zero)
    moreover have lr: "length ?r = bn_top a - ?m" using la by simp
    moreover have "inc_words ?r = (rs, c')" using False rest by simp
    note inc_words_val [OF this, unfolded lr]
    ultimately show ?thesis by simp
  qed (use rest la in auto)
  then have r: "bn_val rs + (if c' then 2 ^ (64 * (bn_top a - ?m)) else 0) = bn_val ?r + unat c"
    and lr: "length rs = bn_top a - ?m" by blast+
  have "(if c' then 2 ^ (64 * bn_top a) else 0) = 2 ^ (64 * ?m) * (if c' then 2 ^ (64 * (bn_top a - ?m)) else 0 :: nat)"
  proof -
    have "64 * bn_top a = 64 * ?m + 64 * (bn_top a - ?m)" using le by simp
    then show ?thesis by (simp only: power_add) simp
  qed
  then have "bn_val (ws @ rs) + (if c' then 2 ^ (64 * bn_top a) else 0)
      = bn_val ws + 2 ^ (64 * ?m) * (bn_val rs + (if c' then 2 ^ (64 * (bn_top a - ?m)) else 0))"
    using w(2) by (simp add: bn_val_append distrib_left)
  also have "\<dots> = (bn_val ws + 2 ^ (64 * ?m) * unat c) + 2 ^ (64 * ?m) * bn_val ?r"
    unfolding r by (simp add: distrib_left)
  also have "\<dots> = bn_abs a + bn_abs b"
    unfolding w(1) using bn_words_split [OF le la] by simp
  finally show ?thesis using w(2) lr by blast
qed

text \<open>What the writer of a result needs of the memory.\<close>

definition bn_room :: "bn_malloc \<Rightarrow> bignum \<Rightarrow> nat \<Rightarrow> bool" where
  "bn_room M r n \<longleftrightarrow> snd (bn_wexpand M r n) = None"

lemma bn_room_enough: "n \<le> length (bn_d r) \<Longrightarrow> bn_room M r n"
  by (simp add: bn_room_def bn_wexpand_def)

lemma BN_uadd_val:
  assumes "bn_ok a" "bn_ok b" "bn_top r \<le> length (bn_d r)" "bn_room M r (max (bn_top a) (bn_top b) + 1)"
  shows "\<exists>r'. BN_uadd M r a b = (r', None) \<and> bn_ok r' \<and> bn_abs r' = bn_abs a + bn_abs b \<and> \<not> bn_neg r'
    \<and> bn_flags r' = bn_flags r"
proof -
  have *: "\<exists>r'. bn_then (bn_wexpand M r (bn_top a + 1)) (\<lambda>r.
           let (ws, carry) = bn_add_words (take (bn_top b) (bn_d a)) (take (bn_top b) (bn_d b));
               rest = take (bn_top a - bn_top b) (drop (bn_top b) (bn_d a));
               (rest, carry) = (if carry \<noteq> 0 then inc_words rest else (rest, False))
           in if carry
              then (r\<lparr>bn_d := ws @ rest @ 1 # drop (bn_top a + 1) (bn_d r), bn_top := bn_top a + 1, bn_neg := False\<rparr>, None)
              else (r\<lparr>bn_d := ws @ rest @ drop (bn_top a) (bn_d r), bn_top := bn_top a, bn_neg := False\<rparr>, None)) = (r', None)
      \<and> bn_ok r' \<and> bn_abs r' = bn_abs a + bn_abs b \<and> \<not> bn_neg r' \<and> bn_flags r' = bn_flags r"
    if a: "bn_ok a" and b: "bn_ok b" and le: "bn_top b \<le> bn_top a" and room: "bn_room M r (bn_top a + 1)" for a b
  proof -
    obtain r1 where r1: "bn_wexpand M r (bn_top a + 1) = (r1, None)"
      using room by (cases "bn_wexpand M r (bn_top a + 1)") (auto simp: bn_room_def)
    have len: "bn_top a + 1 \<le> length (bn_d r1)" and fl: "bn_flags r1 = bn_flags r"
      using bn_wexpand_cases [OF r1 assms(3)] by auto
    let ?rest = "take (bn_top a - bn_top b) (drop (bn_top b) (bn_d a))"
    obtain ws c where ws: "bn_add_words (take (bn_top b) (bn_d a)) (take (bn_top b) (bn_d b)) = (ws, c)" by fastforce
    obtain rs c' where rs: "(if c \<noteq> 0 then inc_words ?rest else (?rest, False)) = (rs, c')" by fastforce
    note v = uadd_words [OF a b le ws rs]
    let ?r = "if c' then r1\<lparr>bn_d := ws @ rs @ 1 # drop (bn_top a + 1) (bn_d r1), bn_top := bn_top a + 1, bn_neg := False\<rparr>
      else r1\<lparr>bn_d := ws @ rs @ drop (bn_top a) (bn_d r1), bn_top := bn_top a, bn_neg := False\<rparr>"
    have words: "bn_words ?r = ws @ rs @ (if c' then [1] else [])" and top: "bn_top ?r \<le> length (bn_d ?r)"
      using v len le by (auto simp: bn_words_def)
    have abs: "bn_abs ?r = bn_abs a + bn_abs b"
    proof -
      have "bn_val ((ws @ rs) @ [1]) = bn_val (ws @ rs) + 2 ^ (64 * bn_top a)"
        using v le unfolding bn_val_append by simp
      then show ?thesis using v unfolding bn_abs_def words by auto
    qed
    have "bn_ok ?r"
    proof (rule bn_okI [OF top])
      assume "0 < bn_top ?r"
      show "2 ^ (64 * (bn_top ?r - 1)) \<le> bn_abs ?r"
      proof (cases c')
        case True
        then show ?thesis unfolding abs using v by auto
      next
        case False
        then show ?thesis unfolding abs using bn_abs_bounds(2) [OF a] \<open>0 < bn_top ?r\<close> by auto
      qed
    qed
    then show ?thesis using r1 ws rs abs fl by (intro exI [of _ ?r]) (auto simp: Let_def)
  qed
  show ?thesis
    using * [OF assms(1,2)] * [OF assms(2,1)] assms(4) unfolding BN_uadd_def
    by (cases "bn_top a < bn_top b") (simp_all add: add.commute Let_def max_def)
qed

lemma BN_usub_val:
  assumes "bn_ok a" "bn_ok b" "bn_abs b \<le> bn_abs a" "bn_top r \<le> length (bn_d r)" "bn_room M r (bn_top a)"
  shows "\<exists>r'. BN_usub M r a b = (r', None) \<and> bn_ok r' \<and> bn_abs r' = bn_abs a - bn_abs b \<and> \<not> bn_neg r'
    \<and> bn_flags r' = bn_flags r"
proof -
  have le: "bn_top b \<le> bn_top a" using bn_top_less_abs [OF assms(1,2)] assms(3) by (meson leD leI)
  have la: "bn_top a \<le> length (bn_d a)" and lb: "bn_top b \<le> length (bn_d b)" using assms(1,2) by (simp_all add: bn_ok_def)
  obtain r1 where r1: "bn_wexpand M r (bn_top a) = (r1, None)"
    using assms(5) by (cases "bn_wexpand M r (bn_top a)") (auto simp: bn_room_def)
  have len: "bn_top a \<le> length (bn_d r1)" and fl: "bn_flags r1 = bn_flags r"
    using bn_wexpand_cases [OF r1 assms(4)] by auto
  let ?m = "bn_top b" and ?rest = "take (bn_top a - bn_top b) (drop (bn_top b) (bn_d a))"
  obtain ws c where ws: "usub_words False (zip (take ?m (bn_d a)) (take ?m (bn_d b))) = (ws, c)" by fastforce
  have w: "bn_val ws + bn_abs b = bn_val (take ?m (bn_d a)) + 2 ^ (64 * ?m) * of_bool c" "length ws = ?m"
    using usub_words_val [OF _ ws] la lb le by (simp_all add: bn_abs_def bn_words_def min_absorb2)
  have split: "bn_val (take ?m (bn_d a)) + 2 ^ (64 * ?m) * bn_val ?rest = bn_abs a"
    by (rule bn_words_split [OF le la])
  have wl: "bn_val ws < 2 ^ (64 * ?m)" using bn_val_bound [of ws] w(2) by simp
  define rs where "rs = (if c then dec_words ?rest else ?rest)"
  have pos: "0 < bn_val ?rest" if c
    using that w(1) split assms(3) wl by (cases "bn_val ?rest") auto
  have lr: "length rs = bn_top a - ?m" using la by (simp add: rs_def)
  have rs: "bn_val rs + of_bool c = bn_val ?rest"
    using dec_words_val [OF pos] by (simp add: rs_def)
  have "bn_val (ws @ rs) + bn_abs b = bn_abs a"
    unfolding split [symmetric] rs [symmetric] using w by (simp add: bn_val_append distrib_left)
  then have val: "bn_val (ws @ rs) = bn_abs a - bn_abs b" by simp
  let ?r = "r1\<lparr>bn_d := ws @ rs @ drop (bn_top a) (bn_d r1), bn_top := bn_top a, bn_neg := False\<rparr>"
  have top: "bn_top ?r \<le> length (bn_d ?r)" and words: "bn_words ?r = ws @ rs"
    using len w(2) lr le by (simp_all add: bn_words_def)
  have ne: "\<not> (c \<and> bn_top a = ?m)" using pos by auto
  have "BN_usub M r a b = (bn_correct_top ?r, None)"
    using le r1 ws ne by (auto simp: BN_usub_def Let_def rs_def)
  then show ?thesis
    using bn_correct_top_ok [OF top] val words fl by (simp add: bn_abs_def)
qed

section \<open>Signed sums and differences\<close>

lemma bn_wfI: "bn_ok r \<Longrightarrow> (bn_neg r \<Longrightarrow> 0 < bn_abs r) \<Longrightarrow> bn_wf r"
  using bn_abs_zero [of r] by (auto simp: bn_wf_def)

lemma bn_wf_pos: "bn_wf r \<Longrightarrow> bn_neg r \<Longrightarrow> 0 < bn_abs r"
  using bn_abs_zero [of r] by (auto simp: bn_wf_def)

lemma bn_neg_fields [simp]:
  "bn_ok (r\<lparr>bn_neg := n\<rparr>) = bn_ok r" "bn_abs (r\<lparr>bn_neg := n\<rparr>) = bn_abs r"
  by (simp_all add: bn_ok_def bn_abs_def bn_words_def)

lemma sub_signed:
  assumes "bn_ok a" "bn_ok b" "bn_top r \<le> length (bn_d r)"
    and "bn_room M r (bn_top a)" "bn_room M r (bn_top b)"
  shows "\<exists>r'. (if BN_ucmp a b < 0 then bn_then (BN_usub M r b a) (set_neg True)
      else bn_then (BN_usub M r a b) (set_neg False)) = (r', None)
    \<and> bn_wf r' \<and> bn_int r' = int (bn_abs a) - int (bn_abs b)"
proof (cases "bn_abs a < bn_abs b")
  case True
  obtain r' where r': "BN_usub M r b a = (r', None)" "bn_ok r'" "bn_abs r' = bn_abs b - bn_abs a"
    using BN_usub_val [OF assms(2,1) _ assms(3,5)] True by auto
  have "bn_wf (r'\<lparr>bn_neg := True\<rparr>)" using r' True by (intro bn_wfI) auto
  then show ?thesis
    using True BN_ucmp_less [OF assms(1,2)] r' by (simp add: set_neg_def bn_int_def of_nat_diff)
next
  case False
  obtain r' where r': "BN_usub M r a b = (r', None)" "bn_ok r'" "bn_abs r' = bn_abs a - bn_abs b"
    using BN_usub_val [OF assms(1,2) _ assms(3,4)] False by auto
  have "bn_wf (r'\<lparr>bn_neg := False\<rparr>)" using r' by (intro bn_wfI) auto
  then show ?thesis
    using False BN_ucmp_less [OF assms(1,2)] r' by (simp add: set_neg_def bn_int_def of_nat_diff)
qed

lemma add_signed:
  assumes "bn_ok a" "bn_ok b" "bn_top r \<le> length (bn_d r)"
    and "bn_room M r (max (bn_top a) (bn_top b) + 1)" "n \<Longrightarrow> 0 < bn_abs a + bn_abs b"
  shows "\<exists>r'. BN_uadd M r a b = (r', None) \<and> bn_wf (r'\<lparr>bn_neg := n\<rparr>)
    \<and> bn_int (r'\<lparr>bn_neg := n\<rparr>) = (if n then - 1 else 1) * (int (bn_abs a) + int (bn_abs b))"
proof -
  obtain r' where r': "BN_uadd M r a b = (r', None)" "bn_ok r'" "bn_abs r' = bn_abs a + bn_abs b"
    using BN_uadd_val [OF assms(1-4)] by auto
  have "bn_wf (r'\<lparr>bn_neg := n\<rparr>)" using r' assms(5) by (intro bn_wfI) auto
  then show ?thesis using r' by (simp add: bn_int_def)
qed

text \<open>
  C10: BN_add is addition of integers. For canonical numbers a and b of any signs and lengths, and a
  result object that is or can be made large enough, it returns 1, and the result is the canonical
  form of a + b (no leading zero word, no negative zero).
\<close>
theorem BN_add_correct:
  assumes "bn_wf a" "bn_wf b" "bn_top r \<le> length (bn_d r)"
    and "\<And>n. n \<le> max (bn_top a) (bn_top b) + 1 \<Longrightarrow> bn_room M r n"
  shows "\<exists>r'. BN_add M r a b = (r', None) \<and> bn_wf r' \<and> bn_int r' = bn_int a + bn_int b"
proof -
  have ok: "bn_ok a" "bn_ok b" using assms by (auto simp: bn_wf_def)
  have room: "bn_room M r (bn_top a)" "bn_room M r (bn_top b)" "bn_room M r (max (bn_top a) (bn_top b) + 1)"
    using assms(4) by auto
  have pos: "bn_neg a \<Longrightarrow> 0 < bn_abs a + bn_abs b" using bn_wf_pos [OF assms(1)] by simp
  show ?thesis
  proof (cases "bn_neg a = bn_neg b")
    case True
    from add_signed [OF ok assms(3) room(3) pos] obtain r'
      where r': "BN_uadd M r a b = (r', None)" "bn_wf (r'\<lparr>bn_neg := bn_neg a\<rparr>)"
        "bn_int (r'\<lparr>bn_neg := bn_neg a\<rparr>) = (if bn_neg a then - 1 else 1) * (int (bn_abs a) + int (bn_abs b))"
      by blast
    have "BN_add M r a b = (r'\<lparr>bn_neg := bn_neg a\<rparr>, None)"
      unfolding BN_add_def Let_def r'(1) using True by simp
    moreover have "bn_int (r'\<lparr>bn_neg := bn_neg a\<rparr>) = bn_int a + bn_int b"
      using r'(3) True by (simp add: bn_int_def split: if_splits)
    ultimately show ?thesis using r'(2) by blast
  next
    case False
    show ?thesis
    proof (cases "bn_neg a")
      case True
      then show ?thesis
        using sub_signed [OF ok(2,1) assms(3) room(2,1)] False by (simp add: BN_add_def bn_int_def)
    next
      case nonneg: False
      then show ?thesis
        using sub_signed [OF ok assms(3) room(1,2)] False by (simp add: BN_add_def bn_int_def)
    qed
  qed
qed

theorem BN_add_correct_witness:
  "\<exists>r'. BN_add (\<lambda>n. Some (\<lambda>_. 7)) BN_init
      \<lparr>bn_d = [0xffffffffffffffff], bn_top = 1, bn_neg = False, bn_flags = 0\<rparr> BN_value_one = (r', None)
    \<and> bn_wf r' \<and> bn_int r' = 2 ^ 64"
  using BN_add_correct [where r = BN_init and b = BN_value_one and M = "\<lambda>n. Some (\<lambda>_. 7)"
      and a = "\<lparr>bn_d = [0xffffffffffffffff], bn_top = 1, bn_neg = False, bn_flags = 0\<rparr>"]
  by (simp add: bn_wf_def bn_ok_def BN_value_one_def BN_init_def bn_room_def bn_wexpand_def
      bn_int_def bn_abs_def bn_words_def)

text \<open>
  BN_sub is subtraction of integers, for canonical numbers of any signs and lengths, and its
  result is canonical; in particular a - a is zero without a sign.
\<close>
theorem BN_sub_correct:
  assumes "bn_wf a" "bn_wf b" "bn_top r \<le> length (bn_d r)"
    and "\<And>n. n \<le> max (bn_top a) (bn_top b) + 1 \<Longrightarrow> bn_room M r n"
  shows "\<exists>r'. BN_sub M r a b = (r', None) \<and> bn_wf r' \<and> bn_int r' = bn_int a - bn_int b"
proof -
  have ok: "bn_ok a" "bn_ok b" using assms by (auto simp: bn_wf_def)
  let ?n = "max (bn_top a) (bn_top b)"
  have room: "bn_room M r ?n" "bn_room M r (?n + 1)"
    by (rule assms(4), rule le_add1) (rule assms(4), rule order_refl)
  show ?thesis
  proof (cases "bn_neg a = bn_neg b")
    case True
    obtain r1 where r1: "bn_wexpand M r ?n = (r1, None)"
      using room(1) by (cases "bn_wexpand M r ?n") (auto simp: bn_room_def)
    have len: "?n \<le> length (bn_d r1)" and top: "bn_top r1 \<le> length (bn_d r1)"
      using bn_wexpand_cases [OF r1 assms(3)] by auto
    have "bn_room M r1 (bn_top a)" "bn_room M r1 (bn_top b)"
      using len by (auto intro: bn_room_enough)
    from sub_signed [OF ok top this] sub_signed [OF ok(2,1) top this(2,1)]
    show ?thesis
      using True r1 by (cases "bn_neg a") (simp_all add: BN_sub_def bn_int_def max.commute)
  next
    case False
    have pos: "bn_neg a \<Longrightarrow> 0 < bn_abs a + bn_abs b" using bn_wf_pos [OF assms(1)] by simp
    from add_signed [OF ok assms(3) room(2) pos] obtain r'
      where r': "BN_uadd M r a b = (r', None)" "bn_wf (r'\<lparr>bn_neg := bn_neg a\<rparr>)"
        "bn_int (r'\<lparr>bn_neg := bn_neg a\<rparr>) = (if bn_neg a then - 1 else 1) * (int (bn_abs a) + int (bn_abs b))"
      by blast
    have "BN_sub M r a b = (r'\<lparr>bn_neg := bn_neg a\<rparr>, None)"
      using False r'(1) by (cases "bn_neg a") (simp_all add: BN_sub_def set_neg_def)
    moreover have "bn_int (r'\<lparr>bn_neg := bn_neg a\<rparr>) = bn_int a - bn_int b"
      using r'(3) False by (auto simp: bn_int_def split: if_splits)
    ultimately show ?thesis using r'(2) by blast
  qed
qed

theorem BN_sub_correct_witness:
  "\<exists>r'. BN_sub (\<lambda>n. Some (\<lambda>_. 7)) BN_init BN_value_one
      \<lparr>bn_d = [0, 1, 5], bn_top = 2, bn_neg = False, bn_flags = 0\<rparr> = (r', None)
    \<and> bn_wf r' \<and> bn_int r' = 1 - 2 ^ 64"
  using BN_sub_correct [where r = BN_init and a = BN_value_one and M = "\<lambda>n. Some (\<lambda>_. 7)"
      and b = "\<lparr>bn_d = [0, 1, 5], bn_top = 2, bn_neg = False, bn_flags = 0\<rparr>"]
  by (simp add: bn_wf_def bn_ok_def BN_value_one_def BN_init_def bn_room_def bn_wexpand_def
      bn_int_def bn_abs_def bn_words_def)

section \<open>Numbers and words\<close>

lemma add_word_loop_val:
  "add_word_loop ds w = (rs, w') \<Longrightarrow>
   bn_val rs + 2 ^ (64 * length ds) * unat w' = bn_val ds + unat w \<and> length rs = length ds"
proof (induction ds arbitrary: w rs)
  case (Cons d ds)
  show ?case
  proof (cases "w = 0")
    case False
    let ?c = "if d + w < w then 1 else 0 :: u64"
    obtain qs where q: "add_word_loop ds ?c = (qs, w')" "rs = (d + w) # qs"
      using Cons.prems False by (auto simp: Let_def split: prod.splits)
    note IH = Cons.IH [OF q(1)]
    have s: "unat d + unat w = 2 ^ 64 * unat ?c + unat (d + w)"
      using plus_carry64 [of w d] by (simp add: add.commute)
    have "bn_val rs + 2 ^ (64 * length (d # ds)) * unat w'
        = unat (d + w) + 2 ^ 64 * (bn_val qs + 2 ^ (64 * length ds) * unat w')"
      unfolding q(2) by (simp add: power_add algebra_simps)
    also have "\<dots> = unat (d + w) + 2 ^ 64 * (bn_val ds + unat ?c)"
      using IH by simp
    also have "\<dots> = bn_val (d # ds) + unat w" using s by (simp add: distrib_left)
    finally show ?thesis using IH q(2) by simp
  qed (use Cons.prems in auto)
qed simp

lemma sub_word_loop_val:
  "unat w \<le> bn_val ds \<Longrightarrow> w \<noteq> 0 \<Longrightarrow>
   \<exists>rs i. sub_word_loop ds w = Some (rs, i) \<and> bn_val rs + unat w = bn_val ds \<and> length rs = length ds
     \<and> i < length ds \<and> (\<forall>j. i < j \<longrightarrow> j < length ds \<longrightarrow> rs ! j = ds ! j) \<and> (0 < i \<longrightarrow> rs ! (i - 1) \<noteq> 0)"
proof (induction ds arbitrary: w)
  case (Cons d ds)
  show ?case
  proof (cases "w \<le> d")
    case True
    then have "unat (d - w) + unat w = unat d" using minus_borrow64 [of d w] by simp
    then show ?thesis using True by (auto simp: nth_Cons split: nat.split)
  next
    case False
    then have s: "unat (d - w) + unat w = unat d + 2 ^ 64" using minus_borrow64 [of d w] by simp
    have "0 < bn_val ds" using Cons.prems False by (cases "bn_val ds") (auto simp: word_le_nat_alt)
    then obtain rs i where r: "sub_word_loop ds 1 = Some (rs, i)" "bn_val rs + 1 = bn_val ds" "length rs = length ds"
      "i < length ds" "\<forall>j. i < j \<longrightarrow> j < length ds \<longrightarrow> rs ! j = ds ! j" "0 < i \<longrightarrow> rs ! (i - 1) \<noteq> 0"
      using Cons.IH [of 1] by auto
    have "d - w \<noteq> 0" using False by auto
    have "bn_val ((d - w) # rs) + unat w = unat d + 2 ^ 64 * (bn_val rs + 1)" using s by simp
    then show ?thesis
      using False r \<open>d - w \<noteq> 0\<close> by (auto simp: nth_Cons less_Suc_eq_0_disj split: nat.split)
  qed
qed (simp add: unat_eq_zero)

lemma add_word_pos_val:
  assumes "bn_ok a" "bn_room M a (bn_top a + 1)" "bn_top a \<noteq> 0"
  shows "\<exists>r. add_word_pos M a w = (r, None) \<and> bn_ok r \<and> bn_abs r = bn_abs a + unat w \<and> bn_neg r = bn_neg a"
proof -
  have la: "bn_top a \<le> length (bn_d a)" using assms(1) by (simp add: bn_ok_def)
  obtain ws w' where ws: "add_word_loop (take (bn_top a) (bn_d a)) w = (ws, w')" by fastforce
  have v: "bn_val ws + 2 ^ (64 * bn_top a) * unat w' = bn_abs a + unat w" "length ws = bn_top a"
    using add_word_loop_val [OF ws] la by (simp_all add: bn_abs_def bn_words_def min_absorb2)
  let ?a = "a\<lparr>bn_d := ws @ drop (bn_top a) (bn_d a)\<rparr>"
  show ?thesis
  proof (cases "w' = 0")
    case True
    have abs: "bn_abs ?a = bn_abs a + unat w" using v True by (simp add: bn_abs_def bn_words_def)
    have "bn_ok ?a"
    proof (rule bn_okI)
      show "2 ^ (64 * (bn_top ?a - 1)) \<le> bn_abs ?a" if "0 < bn_top ?a"
        unfolding abs using bn_abs_bounds(2) [OF assms(1)] that by simp
    qed (use v la in simp)
    then show ?thesis using ws True abs by (simp add: add_word_pos_def)
  next
    case False
    have "bn_room M ?a (bn_top ?a + 1)"
      using assms(2) v(2) la by (auto simp: bn_room_def bn_wexpand_def split: if_splits option.splits)
    then obtain r1 where r1: "bn_wexpand M ?a (bn_top a + 1) = (r1, None)"
      by (cases "bn_wexpand M ?a (bn_top a + 1)") (auto simp: bn_room_def)
    have top: "bn_top ?a \<le> length (bn_d ?a)" using v la by simp
    have e: "bn_top r1 = bn_top a" "bn_words r1 = ws" "bn_top a + 1 \<le> length (bn_d r1)" "bn_neg r1 = bn_neg a"
      using bn_wexpand_cases [OF r1 top] v(2) by (auto simp: bn_words_def)
    let ?r = "r1\<lparr>bn_top := bn_top r1 + 1, bn_d := (bn_d r1)[bn_top r1 := w']\<rparr>"
    have "bn_words ?r = ws @ [w']"
      using e by (simp add: bn_words_def take_Suc_conv_app_nth)
    then have abs: "bn_abs ?r = bn_abs a + unat w"
      unfolding bn_abs_def using v by (simp add: bn_val_append bn_abs_def)
    have "bn_ok ?r" using e False by (simp add: bn_ok_def)
    then show ?thesis using ws False r1 abs e by (auto simp: add_word_pos_def intro!: exI [of _ ?r])
  qed
qed

lemma sub_word_pos_val:
  assumes "bn_ok a" "bn_top a \<noteq> 0" "\<not> bn_neg a" "w \<noteq> 0"
  shows "\<exists>r. sub_word_pos a w = Some (r, None) \<and> bn_wf r \<and> bn_int r = bn_int a - int (unat w)"
proof (cases "bn_top a = 1 \<and> bn_d a ! 0 < w")
  case True
  have la: "bn_top a \<le> length (bn_d a)" using assms(1) by (simp add: bn_ok_def)
  then obtain d ds where d: "bn_d a = d # ds" using True by (cases "bn_d a") auto
  have "unat (w - d) + unat d = unat w" using True d minus_borrow64 [of w d] by (simp add: not_less_iff_gr_or_eq)
  then have "int (unat (w - d)) + int (unat d) = int (unat w)" by (simp only: flip: of_nat_add)
  moreover have "w - d \<noteq> 0" using True d by auto
  ultimately show ?thesis
    using True d assms(3)
    by (auto simp: sub_word_pos_def bn_wf_def bn_ok_def bn_int_def bn_abs_def bn_words_def)
next
  case False
  have la: "bn_top a \<le> length (bn_d a)" using assms(1) by (simp add: bn_ok_def)
  have le: "unat w \<le> bn_abs a"
  proof (cases "bn_top a = 1")
    case True
    then obtain d ds where d: "bn_d a = d # ds" using la by (cases "bn_d a") auto
    then show ?thesis using True False by (simp add: bn_abs_def bn_words_def word_less_nat_alt)
  next
    case False
    then have "(2 :: nat) ^ 64 \<le> 2 ^ (64 * (bn_top a - 1))" using assms(2) by (intro power_increasing) simp_all
    then show ?thesis using bn_abs_bounds(2) [OF assms(1)] assms(2) unat64 [of w] by simp
  qed
  obtain ws i where r: "sub_word_loop (take (bn_top a) (bn_d a)) w = Some (ws, i)"
    "bn_val ws + unat w = bn_abs a" "length ws = bn_top a" "i < bn_top a"
    "\<forall>j. i < j \<longrightarrow> j < bn_top a \<longrightarrow> ws ! j = bn_d a ! j" "0 < i \<longrightarrow> ws ! (i - 1) \<noteq> 0"
    using sub_word_loop_val [of w "take (bn_top a) (bn_d a)"] le la assms(4)
    by (auto simp: bn_abs_def bn_words_def min_absorb2)
  let ?a = "a\<lparr>bn_d := ws @ drop (bn_top a) (bn_d a)\<rparr>"
  have absa: "bn_abs ?a = bn_val ws" using r(3) by (simp add: bn_abs_def bn_words_def)
  have nth: "j < bn_top a \<Longrightarrow> bn_d ?a ! j = ws ! j" for j using r(3) by (simp add: nth_append)
  let ?r = "if bn_d ?a ! i = 0 \<and> i = bn_top a - 1 then ?a\<lparr>bn_top := bn_top a - 1\<rparr> else ?a"
  have "bn_ok ?r \<and> bn_abs ?r = bn_val ws"
  proof (cases "ws ! i = 0 \<and> i = bn_top a - 1")
    case True
    have "ws = take i ws @ [ws ! i]"
      using True r(3,4) by (metis Suc_pred' append_take_drop_id hd_drop_conv_nth take_Suc_conv_app_nth
          take_all le_refl assms(2) neq0_conv)
    then have "bn_val ws = bn_val (take i ws)" using True by (metis add_0_right bn_val.simps bn_val_append mult_0_right unsigned_0)
    moreover have "bn_abs ?r = bn_val (take i ws)"
    proof -
      have "ws ! (bn_top a - 1) = 0" "i = bn_top a - 1" using True by auto
      then show ?thesis using r(3,4) nth [OF r(4)] by (simp add: bn_abs_def bn_words_def)
    qed
    moreover have "bn_ok ?r" using True r(3,4,6) nth [OF r(4)] nth [of "i - 1"] la by (auto simp: bn_ok_def)
    ultimately show ?thesis by simp
  next
    case False
    have "bn_d ?a ! (bn_top a - 1) \<noteq> 0"
    proof (cases "i = bn_top a - 1")
      case True
      then show ?thesis using False nth [OF r(4)] by simp
    next
      case i: False
      then have "ws ! (bn_top a - 1) = bn_d a ! (bn_top a - 1)" using r(4,5) by simp
      then show ?thesis using nth [of "bn_top a - 1"] assms(1,2) by (simp add: bn_ok_def)
    qed
    then show ?thesis using False nth [OF r(4)] r(3) la absa by (auto simp: bn_ok_def)
  qed
  moreover have "\<not> bn_neg ?r" using assms(3) by simp
  moreover have "sub_word_pos a w = Some (?r, None)"
    using False r(1) by (auto simp: sub_word_pos_def Let_def)
  moreover have "int (bn_abs a) = int (bn_val ws) + int (unat w)"
    unfolding r(2) [symmetric] by simp
  ultimately show ?thesis
    using assms(3) by (intro exI [of _ ?r]) (simp add: bn_wf_def bn_int_def)
qed

text \<open>
  BN_add_word and BN_sub_word add and subtract a word from any integer, in place. For a canonical
  number with room for one more word they end, return 1 and leave the canonical form of a + w and
  a - w, also where the sign changes.
\<close>
theorem BN_word_correct:
  assumes "bn_wf a" "\<And>b. length (bn_d b) = length (bn_d a) \<Longrightarrow> bn_flags b = bn_flags a \<Longrightarrow> bn_room M b (bn_top a + 1)"
  shows "\<exists>r s. BN_add_word M a w = Some (r, None) \<and> bn_wf r \<and> bn_int r = bn_int a + int (unat w)
    \<and> BN_sub_word M a w = Some (s, None) \<and> bn_wf s \<and> bn_int s = bn_int a - int (unat w)"
proof -
  have ok: "bn_ok a" using assms(1) by (simp add: bn_wf_def)
  consider "w = 0" | "w \<noteq> 0" "bn_top a = 0" | "w \<noteq> 0" "bn_top a \<noteq> 0" "bn_neg a" | "w \<noteq> 0" "bn_top a \<noteq> 0" "\<not> bn_neg a"
    by blast
  then show ?thesis
  proof cases
    case 1
    then show ?thesis using assms(1) by (simp add: BN_add_word_def BN_sub_word_def)
  next
    case 2
    have "bn_room M a 1" using assms(2) [of a] 2 by simp
    then obtain r1 where r1: "bn_wexpand M a 1 = (r1, None)" by (cases "bn_wexpand M a 1") (auto simp: bn_room_def)
    have "1 \<le> length (bn_d r1)" using bn_wexpand_cases [OF r1] 2(2) by simp
    then obtain d ds where d: "bn_d r1 = d # ds" by (cases "bn_d r1") auto
    have "bn_abs a = 0" "\<not> bn_neg a" using 2 assms(1) by (simp_all add: bn_abs_def bn_words_def bn_wf_def)
    then show ?thesis
      using 2 r1 d
      by (simp add: BN_add_word_def BN_sub_word_def BN_is_zero_def BN_set_word_def BN_set_negative_def
          bn_wf_def bn_ok_def bn_int_def bn_abs_def bn_words_def)
  next
    case 3
    let ?a = "a\<lparr>bn_neg := False\<rparr>"
    have oka: "bn_ok ?a" "bn_top ?a \<noteq> 0" "\<not> bn_neg ?a" using ok 3 by simp_all
    obtain s where s: "sub_word_pos ?a w = Some (s, None)" "bn_wf s" "bn_int s = bn_int ?a - int (unat w)"
      using sub_word_pos_val [OF oka 3(1)] by blast
    let ?s = "if BN_is_zero s then s else s\<lparr>bn_neg := \<not> bn_neg s\<rparr>"
    have "bn_wf ?s" using s(2) by (auto simp: bn_wf_def bn_ok_def BN_is_zero_def)
    moreover have "bn_int ?s = - bn_int s"
      by (auto simp: bn_int_def bn_abs_def bn_words_def BN_is_zero_def)
    moreover have "bn_int ?a = - bn_int a" using 3 by (simp add: bn_int_def)
    moreover have "BN_add_word M a w = Some (?s, None)"
      using 3 s(1) by (simp add: BN_add_word_def BN_is_zero_def)
    ultimately have add: "BN_add_word M a w = Some (?s, None)" "bn_wf ?s" "bn_int ?s = bn_int a + int (unat w)"
      using s(3) by simp_all
    have "bn_room M ?a (bn_top ?a + 1)" using assms(2) [of ?a] by simp
    from add_word_pos_val [OF oka(1) this oka(2), of w] obtain r
      where r: "add_word_pos M ?a w = (r, None)" "bn_ok r" "bn_abs r = bn_abs ?a + unat w" "\<not> bn_neg r"
      by auto
    have "0 < unat w" using 3(1) by (simp add: unat_gt_0)
    then have "bn_wf (r\<lparr>bn_neg := True\<rparr>)" using r(2,3) by (intro bn_wfI) auto
    moreover have "bn_int (r\<lparr>bn_neg := True\<rparr>) = bn_int a - int (unat w)"
      using r(3) 3 by (simp add: bn_int_def)
    moreover have "BN_sub_word M a w = Some (r\<lparr>bn_neg := True\<rparr>, None)"
      using 3 r(1) by (simp add: BN_sub_word_def BN_is_zero_def)
    ultimately show ?thesis using add by blast
  next
    case 4
    have "bn_room M a (bn_top a + 1)" using assms(2) [of a] by simp
    from add_word_pos_val [OF ok this 4(2), of w] obtain r
      where r: "add_word_pos M a w = (r, None)" "bn_ok r" "bn_abs r = bn_abs a + unat w" "\<not> bn_neg r"
      using 4 by auto
    moreover have "bn_wf r" using r by (intro bn_wfI) auto
    moreover obtain s where "sub_word_pos a w = Some (s, None)" "bn_wf s" "bn_int s = bn_int a - int (unat w)"
      using sub_word_pos_val [OF ok 4(2,3,1)] by blast
    ultimately show ?thesis
      using 4 by (simp add: BN_add_word_def BN_sub_word_def BN_is_zero_def bn_int_def)
  qed
qed

theorem BN_word_correct_witness:
  "\<exists>r s. BN_add_word (\<lambda>n. None) \<lparr>bn_d = [1, 0], bn_top = 1, bn_neg = True, bn_flags = 0\<rparr> 5 = Some (r, None)
      \<and> bn_wf r \<and> bn_int r = 4
    \<and> BN_sub_word (\<lambda>n. None) \<lparr>bn_d = [1, 0], bn_top = 1, bn_neg = True, bn_flags = 0\<rparr> 5 = Some (s, None)
      \<and> bn_wf s \<and> bn_int s = - 6"
  using BN_word_correct [where M = "\<lambda>n. None" and w = 5
      and a = "\<lparr>bn_d = [1, 0], bn_top = 1, bn_neg = True, bn_flags = 0\<rparr>"]
  by (simp add: bn_room_enough bn_int_def bn_abs_def bn_words_def bn_wf_def bn_ok_def)

end
