(* ===== verification/BnShift.thy ===== *)
theory BnShift
  imports BnAdd
begin

unbundle bit_operations_syntax

text \<open>
  Shifts and single bits (\<^verbatim>\<open>crypto/bn/shift.c\<close>).
\<close>

section \<open>Left\<close>

text \<open>
  The loops go down from word \<open>k\<close>, so that a number can be shifted in place: word \<open>i\<close> is read before
  any word that it shares with the result is overwritten.
\<close>

primrec lshift_copy :: "u64 list \<Rightarrow> nat \<Rightarrow> u64 list \<Rightarrow> nat \<Rightarrow> u64 list" where
  "lshift_copy f nw t 0 = t"
| "lshift_copy f nw t (Suc i) = lshift_copy f nw (t[nw + i := f ! i]) i"

primrec lshift_bits :: "u64 list \<Rightarrow> nat \<Rightarrow> nat \<Rightarrow> u64 list \<Rightarrow> nat \<Rightarrow> u64 list" where
  "lshift_bits f nw lb t 0 = t"
| "lshift_bits f nw lb t (Suc i) =
     lshift_bits f nw lb (t[nw + i + 1 := t ! (nw + i + 1) OR drop_bit (64 - lb) (f ! i),
                            nw + i := push_bit lb (f ! i)]) i"

(* src: crypto/bn/shift.c BN_lshift *)
definition BN_lshift :: "bn_malloc \<Rightarrow> bignum \<Rightarrow> bignum \<Rightarrow> nat \<Rightarrow> bn_result" where
  "BN_lshift M r a n =
     (let nw = n div 64; tp = bn_top a
      in bn_then (bn_wexpand M (r\<lparr>bn_neg := bn_neg a\<rparr>) (tp + nw + 1)) (\<lambda>r.
           let lb = n mod 64;
               t = (bn_d r)[tp + nw := 0];
               t = (if lb = 0 then lshift_copy (bn_d a) nw t tp else lshift_bits (bn_d a) nw lb t tp)
           in (bn_correct_top (r\<lparr>bn_d := replicate nw 0 @ drop nw t, bn_top := tp + nw + 1\<rparr>), None)))"

primrec lshift1_words :: "u64 \<Rightarrow> u64 list \<Rightarrow> u64 list \<times> u64" where
  "lshift1_words c [] = ([], c)"
| "lshift1_words c (t # ts) =
     (let (ws, c') = lshift1_words (if bit t 63 then 1 else 0) ts in ((push_bit 1 t OR c) # ws, c'))"

(* src: crypto/bn/shift.c BN_lshift1 *)
definition BN_lshift1 :: "bn_malloc \<Rightarrow> bignum \<Rightarrow> bignum \<Rightarrow> bn_result" where
  "BN_lshift1 M r a =
     bn_then (bn_wexpand M (r\<lparr>bn_neg := bn_neg a\<rparr>) (bn_top a + 1)) (\<lambda>r.
       let tp = bn_top a; (ws, c) = lshift1_words 0 (take tp (bn_d a))
       in if c \<noteq> 0 then (r\<lparr>bn_d := ws @ 1 # drop (tp + 1) (bn_d r), bn_top := tp + 1\<rparr>, None)
          else (r\<lparr>bn_d := ws @ drop tp (bn_d r), bn_top := tp\<rparr>, None))"

section \<open>Right\<close>

fun rshift_bits :: "nat \<Rightarrow> u64 list \<Rightarrow> u64 list" where
  "rshift_bits rb (l # l' # f) = (drop_bit rb l OR push_bit (64 - rb) l') # rshift_bits rb (l' # f)"
| "rshift_bits rb [l] = (if drop_bit rb l \<noteq> 0 then [drop_bit rb l] else [])"
| "rshift_bits rb [] = []"

(* src: crypto/bn/shift.c BN_rshift *)
definition BN_rshift :: "bn_malloc \<Rightarrow> bignum \<Rightarrow> bignum \<Rightarrow> nat \<Rightarrow> bn_result" where
  "BN_rshift M r a n =
     (let nw = n div 64; rb = n mod 64
      in if bn_top a \<le> nw \<or> bn_top a = 0 then (BN_zero r, None)
         else let i = (BN_num_bits a + 63 - n) div 64
         in bn_then (bn_wexpand M (r\<lparr>bn_neg := bn_neg a\<rparr>) i) (\<lambda>r.
              let f = take (bn_top a - nw) (drop nw (bn_d a));
                  ws = (if rb = 0 then f else rshift_bits rb f)
              in (r\<lparr>bn_d := ws @ drop (length ws) (bn_d r), bn_top := i\<rparr>, None)))"

text \<open>From the highest word down, with the bit that falls out.\<close>

primrec rshift1_words :: "u64 list \<Rightarrow> u64 list \<times> u64" where
  "rshift1_words [] = ([], 0)"
| "rshift1_words (t # ts) =
     (let (ws, c) = rshift1_words ts
      in ((drop_bit 1 t OR c) # ws, if t AND 1 = 1 then 0x8000000000000000 else 0))"

(* src: crypto/bn/shift.c BN_rshift1 *)
definition BN_rshift1 :: "bn_malloc \<Rightarrow> bignum \<Rightarrow> bignum \<Rightarrow> bn_result" where
  "BN_rshift1 M r a =
     (if BN_is_zero a then (BN_zero r, None)
      else let i = bn_top a; j = (if bn_d a ! (i - 1) = 1 then i - 1 else i)
      in bn_then (bn_wexpand M r j) (\<lambda>r.
           let ws = fst (rshift1_words (take i (bn_d a)));
               n = (if drop_bit 1 (bn_d a ! (i - 1)) \<noteq> 0 then i else i - 1)
           in (r\<lparr>bn_neg := bn_neg a, bn_d := take n ws @ drop n (bn_d r), bn_top := j\<rparr>, None)))"

section \<open>Bits\<close>

text \<open>The index of a bit is an \<^verbatim>\<open>int\<close>; the functions return 0 for a negative one.\<close>

(* src: crypto/bn/shift.c BN_set_bit *)
definition BN_set_bit :: "bn_malloc \<Rightarrow> bignum \<Rightarrow> int \<Rightarrow> bn_result" where
  "BN_set_bit M a n =
     (if n < 0 then (a, Some BN_no_reason)
      else let i = nat n div 64; j = nat n mod 64
      in bn_then (if bn_top a \<le> i
                  then bn_then (bn_wexpand M a (i + 1)) (\<lambda>a.
                    (a\<lparr>bn_d := take (bn_top a) (bn_d a) @ replicate (i + 1 - bn_top a) 0 @ drop (i + 1) (bn_d a),
                       bn_top := i + 1\<rparr>, None))
                  else (a, None)) (\<lambda>a.
           (a\<lparr>bn_d := (bn_d a)[i := bn_d a ! i OR push_bit j 1]\<rparr>, None)))"

(* src: crypto/bn/shift.c BN_clear_bit *)
definition BN_clear_bit :: "bignum \<Rightarrow> int \<Rightarrow> bignum \<times> bool" where
  "BN_clear_bit a n =
     (if n < 0 then (a, False)
      else let i = nat n div 64; j = nat n mod 64
      in if bn_top a \<le> i then (a, False)
         else (bn_correct_top (a\<lparr>bn_d := (bn_d a)[i := bn_d a ! i AND NOT (push_bit j 1)]\<rparr>), True))"

(* src: crypto/bn/shift.c BN_is_bit_set *)
definition BN_is_bit_set :: "bignum \<Rightarrow> int \<Rightarrow> bool" where
  "BN_is_bit_set a n =
     (if n < 0 then False
      else let i = nat n div 64; j = nat n mod 64
      in if bn_top a \<le> i then False else drop_bit j (bn_d a ! i) AND 1 = 1)"

(* src: crypto/bn/shift.c BN_mask_bits *)
definition BN_mask_bits :: "bignum \<Rightarrow> int \<Rightarrow> bignum \<times> bool" where
  "BN_mask_bits a n =
     (if n < 0 then (a, False)
      else let w = nat n div 64; b = nat n mod 64
      in if bn_top a \<le> w then (a, False)
         else let a = (if b = 0 then a\<lparr>bn_top := w\<rparr>
                       else a\<lparr>bn_top := w + 1,
                              bn_d := (bn_d a)[w := bn_d a ! w AND NOT (push_bit b 0xffffffffffffffff)]\<rparr>)
         in (bn_correct_top a, True))"

section \<open>A left shift multiplies\<close>

lemma lshift_copy_val:
  "nw + k \<le> length t \<Longrightarrow> k \<le> length f \<Longrightarrow>
   length (lshift_copy f nw t k) = length t
   \<and> (\<forall>i < length t. lshift_copy f nw t k ! i = (if nw \<le> i \<and> i < nw + k then f ! (i - nw) else t ! i))"
proof (induction k arbitrary: t)
  case (Suc k)
  then show ?case using Suc.IH [of "t[nw + k := f ! k]"] by (auto simp: nth_list_update less_Suc_eq)
qed auto

lemma unat_or_disjoint:
  fixes x y :: u64
  assumes "x AND y = 0"
  shows "unat (x OR y) = unat x + unat y"
proof -
  have "unat x AND unat y = 0" using assms by (simp flip: unsigned_and_eq)
  then show ?thesis by (simp add: unsigned_or_eq disjunctive_add_eq_or)
qed

text \<open>A word shifted and the bits it loses are the word times a power.\<close>

lemma split_shift:
  fixes x :: u64
  assumes "0 < lb" "lb < 64"
  shows "unat (push_bit lb x) + 2 ^ 64 * unat (drop_bit (64 - lb) x) = unat x * 2 ^ lb"
proof -
  have p: "unat (push_bit lb x) = unat x mod 2 ^ (64 - lb) * 2 ^ lb"
    using assms by (intro push_bit64) simp
  have "(2 :: nat) ^ 64 = 2 ^ (64 - lb) * 2 ^ lb" using assms by (simp flip: power_add)
  then have "2 ^ 64 * unat (drop_bit (64 - lb) x) = unat x div 2 ^ (64 - lb) * 2 ^ (64 - lb) * 2 ^ lb"
    by (simp only: unat_drop_bit64 mult_ac)
  then have "unat (push_bit lb x) + 2 ^ 64 * unat (drop_bit (64 - lb) x)
      = (unat x mod 2 ^ (64 - lb) + unat x div 2 ^ (64 - lb) * 2 ^ (64 - lb)) * 2 ^ lb"
    unfolding p by (simp only: distrib_right)
  then show ?thesis by (simp only: mod_div_mult_eq)
qed

lemma or_low_bits:
  fixes x y :: u64
  assumes "take_bit lb x = 0" "unat y < 2 ^ lb"
  shows "unat (x OR y) = unat x + unat y"
proof -
  have "y = take_bit lb y"
    using assms(2) by (intro word_unat_eq_iff [THEN iffD2]) (simp add: unsigned_take_bit_eq take_bit_nat_eq_self)
  then have "x AND y = x AND take_bit lb y" by (rule arg_cong)
  also have "\<dots> = take_bit lb x AND y" by (rule bit_word_eqI) (auto simp: bit_simps)
  also have "\<dots> = 0" unfolding assms(1) by simp
  finally have "x AND y = 0" .
  then show ?thesis by (rule unat_or_disjoint)
qed

text \<open>
  The words from \<open>nw\<close> to \<open>nw + k\<close> after the loop; the highest already holds bits of the word that was
  shifted before.
\<close>

lemma lshift_bits_val:
  assumes "0 < lb" "lb < 64"
  shows "nw + k < length t \<Longrightarrow> k \<le> length f \<Longrightarrow> take_bit lb (t ! (nw + k)) = 0 \<Longrightarrow>
    length (lshift_bits f nw lb t k) = length t
    \<and> bn_val (take (k + 1) (drop nw (lshift_bits f nw lb t k)))
      = bn_val (take k f) * 2 ^ lb + 2 ^ (64 * k) * unat (t ! (nw + k))
    \<and> drop (nw + k + 1) (lshift_bits f nw lb t k) = drop (nw + k + 1) t"
proof (induction k arbitrary: t)
  case 0
  then show ?case by (simp add: take_Suc_conv_app_nth)
next
  case (Suc k)
  let ?u = "t ! (nw + k + 1) OR drop_bit (64 - lb) (f ! k)"
  let ?t = "t[nw + k + 1 := ?u, nw + k := push_bit lb (f ! k)]"
  let ?r = "lshift_bits f nw lb t (Suc k)"
  have r: "?r = lshift_bits f nw lb ?t k" by simp
  have "take_bit lb (push_bit lb (f ! k)) = 0" by (rule bit_word_eqI) (auto simp: bit_simps)
  then have IH: "length ?r = length t"
    "bn_val (take (k + 1) (drop nw ?r)) = bn_val (take k f) * 2 ^ lb + 2 ^ (64 * k) * unat (push_bit lb (f ! k))"
    "drop (nw + k + 1) ?r = drop (nw + k + 1) ?t"
    using Suc.IH [of ?t] Suc.prems unfolding r by simp_all
  have lt: "nw + k + 1 < length ?r" using IH(1) Suc.prems by simp
  have "?r ! (nw + k + 1) = drop (nw + k + 1) ?r ! 0" using lt by simp
  also have "\<dots> = ?u" unfolding IH(3) using Suc.prems by simp
  finally have top: "?r ! (nw + k + 1) = ?u" .
  have small: "unat (drop_bit (64 - lb) (f ! k)) < 2 ^ lb"
    using unat64 [of "f ! k"] assms by (simp add: unat_drop_bit64 less_mult_imp_div_less flip: power_add)
  have u: "unat ?u = unat (t ! (nw + k + 1)) + unat (drop_bit (64 - lb) (f ! k))"
    using or_low_bits [OF _ small] Suc.prems(3) by simp
  have "take (Suc k + 1) (drop nw ?r) = take (k + 1) (drop nw ?r) @ [?u]"
    using lt top by (simp add: take_Suc_conv_app_nth add.commute)
  then have "bn_val (take (Suc k + 1) (drop nw ?r))
      = bn_val (take (k + 1) (drop nw ?r)) + 2 ^ (64 * (k + 1)) * unat ?u"
    using lt by (simp only: bn_val_append) (simp add: min_absorb2)
  also have "\<dots> = bn_val (take k f) * 2 ^ lb + 2 ^ (64 * k) * (unat (push_bit lb (f ! k)) + 2 ^ 64 * unat (drop_bit (64 - lb) (f ! k)))
      + 2 ^ (64 * Suc k) * unat (t ! (nw + Suc k))"
    unfolding IH(2) u by (simp add: distrib_left power_add)
  also have "\<dots> = bn_val (take (Suc k) f) * 2 ^ lb + 2 ^ (64 * Suc k) * unat (t ! (nw + Suc k))"
    unfolding split_shift [OF assms] using Suc.prems(2)
    by (simp add: take_Suc_conv_app_nth bn_val_append distrib_right mult.assoc)
  finally have v: "bn_val (take (Suc k + 1) (drop nw ?r))
      = bn_val (take (Suc k) f) * 2 ^ lb + 2 ^ (64 * Suc k) * unat (t ! (nw + Suc k))" .
  have "drop (nw + Suc k + 1) ?r = drop 1 (drop (nw + k + 1) ?r)" by simp
  also have "\<dots> = drop (nw + Suc k + 1) t" unfolding IH(3) by simp
  finally show ?case using v IH(1) by simp
qed

lemma bn_roomE:
  assumes "bn_room M r n" "bn_top r \<le> length (bn_d r)"
  obtains r1 where "bn_wexpand M r n = (r1, None)" "n \<le> length (bn_d r1)" "bn_top r1 \<le> length (bn_d r1)"
    "bn_neg r1 = bn_neg r" "bn_words r1 = bn_words r" "bn_top r1 = bn_top r"
proof -
  obtain r1 where r1: "bn_wexpand M r n = (r1, None)"
    using assms(1) by (cases "bn_wexpand M r n") (auto simp: bn_room_def)
  show thesis
    by (rule that [OF r1]) (use bn_wexpand_cases [OF r1 assms(2)] in simp_all)
qed

lemma bn_room_neg [simp]: "bn_room M (r\<lparr>bn_neg := b\<rparr>) n = bn_room M r n"
  by (auto simp: bn_room_def bn_wexpand_def split: option.splits)

lemma lshift_words:
  assumes "k \<le> length f" "k + nw + 1 \<le> length d" "lb < 64"
  defines "t \<equiv> if lb = 0 then lshift_copy f nw (d[k + nw := 0]) k else lshift_bits f nw lb (d[k + nw := 0]) k"
  shows "length t = length d \<and> bn_val (take (k + 1) (drop nw t)) = bn_val (take k f) * 2 ^ lb"
proof (cases "lb = 0")
  case True
  let ?d = "d[k + nw := 0]"
  note c = lshift_copy_val [of nw k ?d f]
  have t: "t = lshift_copy f nw ?d k" using True by (simp add: t_def)
  have l: "length t = length d" using c assms unfolding t by simp
  have "take (k + 1) (drop nw t) = take k f @ [0]"
  proof (rule nth_equalityI)
    fix i assume "i < length (take (k + 1) (drop nw t))"
    then show "take (k + 1) (drop nw t) ! i = (take k f @ [0]) ! i"
      using c assms(1,2) l unfolding t by (auto simp: nth_append less_Suc_eq add.commute)
  qed (use assms l in auto)
  then show ?thesis using l True by (simp add: bn_val_append)
next
  case False
  then show ?thesis
    using lshift_bits_val [of lb nw k "d[k + nw := 0]" f] assms by (simp add: t_def add.commute)
qed

text \<open>
  BN_lshift multiplies by a power of two: for a canonical number, any shift, and a result object
  that can hold it, it returns 1 and the result is the canonical form of a * 2^n.
\<close>
theorem BN_lshift_correct:
  assumes "bn_wf a" "bn_top r \<le> length (bn_d r)" "bn_room M r (bn_top a + n div 64 + 1)"
  shows "\<exists>r'. BN_lshift M r a n = (r', None) \<and> bn_wf r' \<and> bn_int r' = bn_int a * 2 ^ n"
proof -
  let ?nw = "n div 64" and ?lb = "n mod 64" and ?top = "bn_top a"
  obtain r1 where r1: "bn_wexpand M (r\<lparr>bn_neg := bn_neg a\<rparr>) (?top + ?nw + 1) = (r1, None)"
    "?top + ?nw + 1 \<le> length (bn_d r1)" "bn_neg r1 = bn_neg a"
    using bn_roomE [of M "r\<lparr>bn_neg := bn_neg a\<rparr>" "?top + ?nw + 1"] assms(2,3) by auto
  define t where "t = (if ?lb = 0 then lshift_copy (bn_d a) ?nw ((bn_d r1)[?top + ?nw := 0]) ?top
      else lshift_bits (bn_d a) ?nw ?lb ((bn_d r1)[?top + ?nw := 0]) ?top)"
  have ok: "bn_ok a" and "?top \<le> length (bn_d a)" using assms(1) by (simp_all add: bn_wf_def bn_ok_def)
  then have t: "length t = length (bn_d r1)" "bn_val (take (?top + 1) (drop ?nw t)) = bn_abs a * 2 ^ ?lb"
    using lshift_words [of ?top "bn_d a" ?nw "bn_d r1" ?lb] r1(2)
    by (simp_all add: t_def bn_abs_def bn_words_def)
  let ?r = "r1\<lparr>bn_d := replicate ?nw 0 @ drop ?nw t, bn_top := ?top + ?nw + 1\<rparr>"
  have top: "bn_top ?r \<le> length (bn_d ?r)" using r1(2) t(1) by simp
  have "bn_words ?r = replicate ?nw 0 @ take (?top + 1) (drop ?nw t)"
    by (simp add: bn_words_def)
  then have "bn_abs ?r = 2 ^ (64 * ?nw) * (bn_abs a * 2 ^ ?lb)"
    unfolding bn_abs_def by (simp only: bn_val_append t(2) [unfolded bn_abs_def]) simp
  also have "\<dots> = bn_abs a * (2 ^ (64 * ?nw) * 2 ^ ?lb)" by simp
  also have "\<dots> = bn_abs a * 2 ^ n" by (simp flip: power_add)
  finally have abs: "bn_abs ?r = bn_abs a * 2 ^ n" .
  have "BN_lshift M r a n = (bn_correct_top ?r, None)"
    using r1(1) by (simp add: BN_lshift_def Let_def t_def)
  moreover have "bn_wf (bn_correct_top ?r)"
    using bn_correct_top_ok [OF top] abs bn_wf_pos [OF assms(1)] r1(3) by (intro bn_wfI) auto
  moreover have "bn_int (bn_correct_top ?r) = bn_int a * 2 ^ n"
    using bn_correct_top_ok(2) [OF top] abs r1(3) by (simp add: bn_int_def)
  ultimately show ?thesis by blast
qed

theorem BN_lshift_correct_witness:
  "\<exists>r'. BN_lshift (\<lambda>n. Some (\<lambda>_. 7)) BN_init (BN_value_one\<lparr>bn_neg := True\<rparr>) 100 = (r', None)
    \<and> bn_wf r' \<and> bn_int r' = - (2 ^ 100)"
  using BN_lshift_correct [where r = BN_init and a = "BN_value_one\<lparr>bn_neg := True\<rparr>" and M = "\<lambda>n. Some (\<lambda>_. 7)" and n = 100]
  by (simp add: bn_wf_def bn_ok_def BN_value_one_def BN_init_def bn_room_def bn_wexpand_def
      bn_int_def bn_abs_def bn_words_def)

section \<open>A right shift divides\<close>

lemma join_shift:
  fixes l l' :: u64
  assumes "0 < rb" "rb < 64"
  shows "unat (drop_bit rb l OR push_bit (64 - rb) l') = unat l div 2 ^ rb + unat l' mod 2 ^ rb * 2 ^ (64 - rb)"
proof -
  have "unat (push_bit (64 - rb) l' OR drop_bit rb l) = unat l' mod 2 ^ (64 - (64 - rb)) * 2 ^ (64 - rb) + unat (drop_bit rb l)"
    using unat64 [of l] assms
    by (intro join64) (simp_all add: unat_drop_bit64 less_mult_imp_div_less flip: power_add)
  then show ?thesis using assms by (simp add: or.commute unat_drop_bit64)
qed

lemma rshift_bits_val:
  "0 < rb \<Longrightarrow> rb < 64 \<Longrightarrow> f \<noteq> [] \<Longrightarrow> bn_val (rshift_bits rb f) = bn_val f div 2 ^ rb
    \<and> length (rshift_bits rb f) = (if unat (last f) div 2 ^ rb = 0 then length f - 1 else length f)"
proof (induction rb f rule: rshift_bits.induct)
  case (1 rb l l' f)
  let ?V = "bn_val (l' # f)"
  have p: "(2 :: nat) ^ 64 = 2 ^ (64 - rb) * 2 ^ rb" using 1(2,3) by (simp flip: power_add)
  have IH: "bn_val (rshift_bits rb (l' # f)) = ?V div 2 ^ rb"
    "length (rshift_bits rb (l' # f)) = (if unat (last (l' # f)) div 2 ^ rb = 0 then length (l' # f) - 1 else length (l' # f))"
    using 1 by auto
  have m: "unat l' mod 2 ^ rb = ?V mod 2 ^ rb"
  proof -
    have "?V = unat l' + 2 ^ (64 - rb) * bn_val f * 2 ^ rb" using p by simp
    then show ?thesis by (simp only: mod_mult_self1)
  qed
  have "bn_val (l # l' # f) = unat l + 2 ^ 64 * ?V" by (rule bn_val.simps)
  then have "bn_val (l # l' # f) = unat l + 2 ^ (64 - rb) * ?V * 2 ^ rb" unfolding p by (simp only: mult_ac)
  then have "bn_val (l # l' # f) div 2 ^ rb = (unat l + 2 ^ (64 - rb) * ?V * 2 ^ rb) div 2 ^ rb" by (rule arg_cong)
  also have "\<dots> = 2 ^ (64 - rb) * ?V + unat l div 2 ^ rb"
    by (rule div_mult_self1) simp
  also have "2 ^ (64 - rb) * ?V = 2 ^ (64 - rb) * (?V mod 2 ^ rb + ?V div 2 ^ rb * 2 ^ rb)"
    by (simp only: mod_div_mult_eq)
  also have "\<dots> = ?V mod 2 ^ rb * 2 ^ (64 - rb) + 2 ^ 64 * (?V div 2 ^ rb)"
    unfolding p by (simp only: distrib_left mult_ac)
  finally have "bn_val (l # l' # f) div 2 ^ rb = bn_val (rshift_bits rb (l # l' # f))"
    using join_shift [OF 1(2,3), of l l'] IH(1) m by simp
  then show ?case using IH(2) by simp
next
  case (2 rb l)
  have "drop_bit rb l = 0 \<longleftrightarrow> unat l div 2 ^ rb = 0"
    by (simp only: word_unat_eq_iff unat_drop_bit64 unsigned_0)
  then show ?case by (auto simp: unat_drop_bit64)
qed simp

lemma BN_num_bits_val:
  assumes "bn_ok a"
  shows "is_num_bits (BN_num_bits a) (bn_abs a)"
proof (cases "bn_top a")
  case 0
  then show ?thesis by (simp add: BN_num_bits_def BN_is_zero_def is_num_bits_def bn_abs_def bn_words_def)
next
  case (Suc m)
  let ?w = "bn_d a ! m" and ?lo = "bn_val (take m (bn_d a))"
  have len: "m < length (bn_d a)" and w: "?w \<noteq> 0" using assms Suc by (simp_all add: bn_ok_def)
  have lo: "?lo < 2 ^ (64 * m)" using bn_val_bound [of "take m (bn_d a)"] len by (simp add: min_absorb2)
  have abs: "bn_abs a = ?lo + unat ?w * 2 ^ (64 * m)"
    using len Suc by (simp add: bn_abs_def bn_words_def take_Suc_conv_app_nth bn_val_append)
  then have d: "bn_abs a div 2 ^ (64 * m) = unat ?w" using lo by simp
  have "is_num_bits (BN_num_bits_word ?w + 64 * m) (bn_abs a)"
    by (rule is_num_bits_shift) (use BN_num_bits_word_val [of ?w] w in \<open>simp_all add: d unat_gt_0\<close>)
  then show ?thesis using Suc by (simp add: BN_num_bits_def BN_is_zero_def add.commute mult.commute)
qed

lemma num_bits_words:
  assumes "is_num_bits N v" "i = (N + 63 - n) div 64" "0 < i"
  shows "2 ^ (64 * (i - 1)) \<le> v div 2 ^ n"
proof -
  have "64 * i \<le> N + 63 - n" unfolding assms(2) by simp
  then have l: "n + 64 * (i - 1) \<le> N - 1" "0 < N" using assms(3) by auto
  have "2 ^ (64 * (i - 1)) * 2 ^ n = (2 :: nat) ^ (n + 64 * (i - 1))" by (simp add: power_add mult.commute)
  also have "\<dots> \<le> 2 ^ (N - 1)" using l(1) by (intro power_increasing) simp_all
  also have "\<dots> \<le> v" using assms(1) l(2) by (simp add: is_num_bits_def)
  finally have "2 ^ (64 * (i - 1)) * 2 ^ n \<le> v" .
  then show ?thesis by (simp add: less_eq_div_iff_mult_less_eq)
qed

lemma bn_val_drop: "bn_val (drop k xs) = bn_val xs div 2 ^ (64 * k)"
proof (cases "k \<le> length xs")
  case True
  have "bn_val xs = bn_val (take k xs @ drop k xs)" by simp
  also have "\<dots> = bn_val (take k xs) + bn_val (drop k xs) * 2 ^ (64 * k)"
    unfolding bn_val_append using True by (simp add: min_absorb2)
  finally show ?thesis using bn_val_bound [of "take k xs"] True by (simp add: min_absorb2)
next
  case False
  then have "bn_val xs < 2 ^ (64 * k)" by (intro less_le_trans [OF bn_val_bound]) simp
  then show ?thesis using False by simp
qed

text \<open>How many words are left.\<close>

lemma rshift_length:
  assumes "is_num_bits nb w" "0 < nb" "nb \<le> 64" "rb < 64" "nw < k"
  shows "((k - 1) * 64 + nb + 63 - (nw * 64 + rb)) div 64 = (if w div 2 ^ rb = 0 then k - nw - 1 else k - nw)"
proof -
  have e: "(k - 1) * 64 + nb + 63 - (nw * 64 + rb) = (k - nw - 1) * 64 + (nb + 63 - rb)"
    using assms by (auto simp: diff_mult_distrib)
  have "w div 2 ^ rb = 0 \<longleftrightarrow> nb \<le> rb"
  proof
    assume "w div 2 ^ rb = 0"
    then have "w < 2 ^ rb" by (simp add: div_eq_0_iff)
    moreover have "2 ^ (nb - 1) \<le> w" using assms(1,2) by (simp add: is_num_bits_def)
    ultimately have "(2 :: nat) ^ (nb - 1) < 2 ^ rb" by (rule le_less_trans [rotated])
    then have "nb - 1 < rb" by (rule power_less_imp_less_exp [rotated]) simp
    then show "nb \<le> rb" by simp
  next
    assume "nb \<le> rb"
    then have "(2 :: nat) ^ nb \<le> 2 ^ rb" by (intro power_increasing) simp_all
    then have "w < 2 ^ rb" using assms(1) less_le_trans unfolding is_num_bits_def by blast
    then show "w div 2 ^ rb = 0" by simp
  qed
  moreover have "(nb + 63 - rb) div 64 = (if nb \<le> rb then 0 else 1)"
    using assms by (auto simp: div_eq_0_iff intro: div_nat_eqI)
  ultimately show ?thesis
    unfolding e using assms(5) by (simp add: div_mult_self3)
qed

lemma last_take_drop: "nw < k \<Longrightarrow> k \<le> length d \<Longrightarrow> last (take (k - nw) (drop nw d)) = d ! (k - 1)"
  by (simp add: last_conv_nth min_absorb2)

lemma BN_num_bits_word_bounds: "w \<noteq> 0 \<Longrightarrow> 0 < BN_num_bits_word w \<and> BN_num_bits_word w \<le> 64"
proof -
  assume "w \<noteq> 0"
  then have p: "0 < BN_num_bits_word w"
    using BN_num_bits_word_val [of w] by (cases "BN_num_bits_word w") (auto simp: is_num_bits_def unat_eq_zero)
  then have "2 ^ (BN_num_bits_word w - 1) \<le> unat w" using BN_num_bits_word_val [of w] by (simp add: is_num_bits_def)
  then have "(2 :: nat) ^ (BN_num_bits_word w - 1) < 2 ^ 64" using unat64 [of w] by (rule le_less_trans)
  then have "BN_num_bits_word w - 1 < 64" by (rule power_less_imp_less_exp [rotated]) simp
  then show ?thesis using p by simp
qed

text \<open>The words of a quotient, and how many there are.\<close>

lemma rshift_words:
  assumes "bn_ok a" "nw < bn_top a" "rb < 64"
  defines "f \<equiv> take (bn_top a - nw) (drop nw (bn_d a))"
  defines "ws \<equiv> if rb = 0 then f else rshift_bits rb f"
  shows "bn_val ws = bn_abs a div 2 ^ (nw * 64 + rb)
    \<and> length ws = (BN_num_bits a + 63 - (nw * 64 + rb)) div 64"
proof -
  let ?k = "bn_top a"
  have len: "?k \<le> length (bn_d a)" using assms(1) by (simp add: bn_ok_def)
  have lf: "length f = ?k - nw" "f \<noteq> []" using len assms(2) by (auto simp: f_def)
  have "f = drop nw (bn_words a)" by (simp add: f_def bn_words_def drop_take)
  then have fv: "bn_val f = bn_abs a div 2 ^ (64 * nw)" by (simp add: bn_val_drop bn_abs_def)
  have last: "last f = bn_d a ! (?k - 1)"
    unfolding f_def using assms(2) len by (rule last_take_drop)
  have w: "last f \<noteq> 0" unfolding last using assms(1,2) by (auto simp: bn_ok_def)
  have ws: "bn_val ws = bn_val f div 2 ^ rb \<and> length ws = (if unat (last f) div 2 ^ rb = 0 then length f - 1 else length f)"
  proof (cases "rb = 0")
    case True
    then show ?thesis using w by (simp add: ws_def unat_eq_zero)
  next
    case False
    then show ?thesis using rshift_bits_val [of rb f] assms(3) lf(2) by (simp add: ws_def)
  qed
  have "bn_val ws = bn_abs a div (2 ^ (64 * nw) * 2 ^ rb)" using ws unfolding fv by (simp only: div_mult2_eq)
  also have "(2 :: nat) ^ (64 * nw) * 2 ^ rb = 2 ^ (nw * 64 + rb)" by (simp add: power_add mult.commute)
  finally have val: "bn_val ws = bn_abs a div 2 ^ (nw * 64 + rb)" .
  have bits: "(?k - 1) * 64 + BN_num_bits_word (last f) = BN_num_bits a"
    using assms(2) unfolding last by (simp add: BN_num_bits_def BN_is_zero_def)
  have b: "0 < BN_num_bits_word (last f)" "BN_num_bits_word (last f) \<le> 64"
    using BN_num_bits_word_bounds [OF w] by simp_all
  have "length ws = (BN_num_bits a + 63 - (nw * 64 + rb)) div 64"
    using rshift_length [OF BN_num_bits_word_val b assms(3,2)] ws lf(1) unfolding bits by simp
  then show ?thesis using val by blast
qed

text \<open>
  BN_rshift divides: for a canonical number, any shift, and a result object that can hold it, it
  returns 1, no word of the result is missing or superfluous, and its magnitude is the quotient of
  that of the argument by 2^n. Its sign is that of the argument unless all the words were shifted
  out, so a negative number can become a zero with a sign.
\<close>
theorem BN_rshift_correct:
  assumes "bn_ok a" "bn_top r \<le> length (bn_d r)" "bn_room M r ((BN_num_bits a + 63 - n) div 64)"
  shows "\<exists>r'. BN_rshift M r a n = (r', None) \<and> bn_ok r' \<and> bn_abs r' = bn_abs a div 2 ^ n
    \<and> bn_neg r' = (bn_neg a \<and> n div 64 < bn_top a)"
proof (cases "bn_top a \<le> n div 64 \<or> bn_top a = 0")
  case True
  have "bn_abs a < 2 ^ n"
  proof (cases "bn_top a = 0")
    case True
    then show ?thesis by (simp add: bn_abs_def bn_words_def)
  next
    case False
    then have "(2 :: nat) ^ (64 * bn_top a) \<le> 2 ^ n" using True by (intro power_increasing) simp_all
    then show ?thesis by (rule less_le_trans [OF bn_abs_bounds(1) [OF assms(1)]])
  qed
  moreover have "\<not> n div 64 < bn_top a" using True by auto
  ultimately show ?thesis
    using True by (simp add: BN_rshift_def BN_zero_def bn_ok_def bn_abs_def bn_words_def)
next
  case False
  define nw rb where "nw = n div 64" and "rb = n mod 64"
  have n: "nw * 64 + rb = n" by (simp add: nw_def rb_def)
  define i where "i = (BN_num_bits a + 63 - n) div 64"
  define ws where "ws = (if rb = 0 then take (bn_top a - nw) (drop nw (bn_d a))
      else rshift_bits rb (take (bn_top a - nw) (drop nw (bn_d a))))"
  have nw: "nw < bn_top a" "rb < 64" using False by (simp_all add: nw_def rb_def)
  have val: "bn_val ws = bn_abs a div 2 ^ n" and li: "length ws = i"
    using rshift_words [OF assms(1) nw] unfolding n ws_def i_def by blast+
  obtain r1 where r1: "bn_wexpand M (r\<lparr>bn_neg := bn_neg a\<rparr>) i = (r1, None)"
    "i \<le> length (bn_d r1)" "bn_neg r1 = bn_neg a"
    using bn_roomE [of M "r\<lparr>bn_neg := bn_neg a\<rparr>" i] assms(2,3) unfolding i_def by auto
  let ?r = "r1\<lparr>bn_d := ws @ drop (length ws) (bn_d r1), bn_top := i\<rparr>"
  have abs: "bn_abs ?r = bn_abs a div 2 ^ n"
    using val li by (simp add: bn_abs_def bn_words_def)
  have "bn_ok ?r"
  proof (rule bn_okI)
    show "2 ^ (64 * (bn_top ?r - 1)) \<le> bn_abs ?r" if "0 < bn_top ?r"
      unfolding abs using num_bits_words [OF BN_num_bits_val [OF assms(1)] i_def] that by simp
  qed (use r1(2) li in simp)
  moreover have "BN_rshift M r a n = (?r, None)"
    unfolding BN_rshift_def Let_def nw_def [symmetric] rb_def [symmetric] i_def [symmetric] ws_def [symmetric] r1(1)
    using nw by simp
  moreover have "bn_neg ?r = (bn_neg a \<and> nw < bn_top a)" using r1(3) nw by simp
  ultimately show ?thesis using abs unfolding nw_def by blast
qed

theorem BN_rshift_correct_witness:
  "\<exists>r'. BN_rshift (\<lambda>n. Some (\<lambda>_. 7)) BN_init \<lparr>bn_d = [0, 5], bn_top = 2, bn_neg = True, bn_flags = 0\<rparr> 65 = (r', None)
    \<and> bn_ok r' \<and> bn_abs r' = 2 \<and> bn_neg r'"
proof -
  let ?a = "\<lparr>bn_d = [0, 5], bn_top = 2, bn_neg = True, bn_flags = 0\<rparr>"
  have "bn_room (\<lambda>n. Some (\<lambda>_. 7)) BN_init ((BN_num_bits ?a + 63 - 65) div 64)"
    by (simp add: BN_num_bits_def BN_is_zero_def BN_num_bits_word_def num_bits_table_def
        bn_room_def bn_wexpand_def BN_init_def)
  from BN_rshift_correct [OF _ _ this] show ?thesis
    by (simp add: bn_ok_def BN_init_def bn_abs_def bn_words_def)
qed

text \<open>A negative number shifted to nothing: zero with a sign, which compares as less than zero.\<close>

lemma BN_rshift_negative_zero:
  "let (r, e) = BN_rshift (\<lambda>n. None) BN_init (BN_value_one\<lparr>bn_neg := True\<rparr>) 1
   in e = None \<and> BN_is_zero r \<and> bn_neg r \<and> BN_cmp (Some r) (Some BN_init) = -1"
  by (simp add: BN_rshift_def BN_value_one_def BN_init_def BN_num_bits_def BN_is_zero_def bn_wexpand_def
      BN_num_bits_word_def num_bits_table_def BN_cmp_def Let_def)

section \<open>By one bit\<close>

lemma lshift1_words_val:
  "unat c \<le> 1 \<Longrightarrow> lshift1_words c ts = (ws, c') \<Longrightarrow>
   bn_val ws + 2 ^ (64 * length ts) * unat c' = 2 * bn_val ts + unat c \<and> length ws = length ts \<and> unat c' \<le> 1"
proof (induction ts arbitrary: c ws)
  case (Cons t ts)
  let ?c = "if bit t 63 then 1 else 0 :: u64"
  obtain vs where v: "lshift1_words ?c ts = (vs, c')" "ws = (push_bit 1 t OR c) # vs"
    using Cons.prems(2) by (auto split: prod.splits)
  have c1: "unat ?c \<le> 1" by simp
  note IH = Cons.IH [OF c1 v(1)]
  have tb: "take_bit 1 (push_bit 1 t) = 0" by (rule bit_word_eqI) (auto simp: bit_simps)
  have "unat c < 2 ^ 1" using Cons.prems(1) by simp
  note o = or_low_bits [OF tb this]
  have "?c = drop_bit 63 t"
  proof (rule bit_word_eqI)
    fix n
    show "bit ?c n = bit (drop_bit 63 t) n"
      by (cases "n = 0") (auto simp: bit_simps bit_1_iff dest: bit_imp_le_length)
  qed
  then have s: "unat (push_bit 1 t) + 2 ^ 64 * unat ?c = 2 * unat t"
    using split_shift [of 1 t] by simp
  have "bn_val ws + 2 ^ (64 * length (t # ts)) * unat c'
      = unat (push_bit 1 t OR c) + 2 ^ 64 * (bn_val vs + 2 ^ (64 * length ts) * unat c')"
    unfolding v(2) by (simp add: power_add algebra_simps)
  also have "\<dots> = unat (push_bit 1 t) + unat c + 2 ^ 64 * (2 * bn_val ts + unat ?c)"
    using IH unfolding o by simp
  also have "\<dots> = 2 * bn_val (t # ts) + unat c" using s by (simp add: distrib_left)
  finally show ?case using IH v(2) by simp
qed simp

lemma rshift1_words_val:
  "rshift1_words ts = (ws, c) \<Longrightarrow>
   2 * bn_val ws + bn_val ts mod 2 = bn_val ts \<and> length ws = length ts \<and> unat c = bn_val ts mod 2 * 2 ^ 63"
proof (induction ts arbitrary: ws c)
  case (Cons t ts)
  obtain vs c' where v: "rshift1_words ts = (vs, c')" by fastforce
  have ws: "ws = (drop_bit 1 t OR c') # vs" "c = (if t AND 1 = 1 then 0x8000000000000000 else 0)"
    using Cons.prems v by simp_all
  note IH = Cons.IH [OF v]
  have odd: "t AND 1 = 1 \<longleftrightarrow> odd (unat t)"
    using bit_unsigned_iff [where 'a = nat, of t 0] by (simp add: bit_0 and_one_eq mod_2_eq_odd)
  have parity: "bn_val (t # ts) mod 2 = unat t mod 2"
  proof -
    have "bn_val (t # ts) = unat t + 2 * (2 ^ 63 * bn_val ts)" by simp
    then show ?thesis by (simp only: mod_mult_self2)
  qed
  have "take_bit 63 c' = 0"
  proof (rule word_unat_eq_iff [THEN iffD2])
    have "unat (take_bit 63 c') = unat c' mod 2 ^ 63"
      by (simp only: unsigned_take_bit_eq) (simp only: take_bit_eq_mod)
    also have "\<dots> = 0" using IH by simp
    finally show "unat (take_bit 63 c') = unat (0 :: u64)" by simp
  qed
  moreover have "unat (drop_bit 1 t) < 2 ^ 63" using unat64 [of t] by (simp add: unat_drop_bit64 less_mult_imp_div_less)
  ultimately have o: "unat (drop_bit 1 t OR c') = unat t div 2 + unat c'"
    using or_low_bits [of 63 c' "drop_bit 1 t"] by (simp add: or.commute unat_drop_bit64)
  have "2 * bn_val ws = 2 * (unat t div 2) + 2 ^ 64 * (bn_val ts mod 2) + 2 ^ 64 * (2 * bn_val vs)"
    using IH unfolding ws(1) bn_val.simps o by simp
  also have "\<dots> = 2 * (unat t div 2) + 2 ^ 64 * (2 * bn_val vs + bn_val ts mod 2)" by (simp only: distrib_left add_ac)
  also have "\<dots> = 2 * (unat t div 2) + 2 ^ 64 * bn_val ts" using IH by simp
  finally have "2 * bn_val ws + unat t mod 2 = bn_val (t # ts)" by simp
  moreover have "unat c = unat t mod 2 * 2 ^ 63" unfolding ws(2) odd by (simp add: mod_2_eq_odd)
  ultimately show ?case using IH ws(1) unfolding parity by simp
qed simp

text \<open>
  BN_lshift1 and BN_rshift1 double and halve the magnitude of any canonical number, keep its
  sign, and give numbers without leading zero words.
\<close>
lemma BN_shift1_correct:
  assumes "bn_ok a" "bn_top r \<le> length (bn_d r)" "\<And>n. n \<le> bn_top a + 1 \<Longrightarrow> bn_room M r n"
  shows "\<exists>s t. BN_lshift1 M r a = (s, None) \<and> bn_ok s \<and> bn_abs s = 2 * bn_abs a \<and> bn_neg s = bn_neg a
    \<and> BN_rshift1 M r a = (t, None) \<and> bn_ok t \<and> bn_abs t = bn_abs a div 2 \<and> bn_neg t = (bn_neg a \<and> bn_top a \<noteq> 0)"
proof -
  let ?k = "bn_top a"
  have len: "?k \<le> length (bn_d a)" using assms(1) by (simp add: bn_ok_def)
  have w: "bn_val (take ?k (bn_d a)) = bn_abs a" by (simp add: bn_abs_def bn_words_def)
  have "\<exists>s. BN_lshift1 M r a = (s, None) \<and> bn_ok s \<and> bn_abs s = 2 * bn_abs a \<and> bn_neg s = bn_neg a"
  proof -
    obtain ws c where ws: "lshift1_words 0 (take ?k (bn_d a)) = (ws, c)" by fastforce
    have v: "bn_val ws + 2 ^ (64 * ?k) * unat c = 2 * bn_abs a" "length ws = ?k" "unat c \<le> 1"
      using lshift1_words_val [OF _ ws] len w by (simp_all add: min_absorb2)
    obtain r1 where r1: "bn_wexpand M (r\<lparr>bn_neg := bn_neg a\<rparr>) (?k + 1) = (r1, None)"
      "?k + 1 \<le> length (bn_d r1)" "bn_neg r1 = bn_neg a"
      using bn_roomE [of M "r\<lparr>bn_neg := bn_neg a\<rparr>" "?k + 1"] assms(2,3) by auto
    let ?s = "if c \<noteq> 0 then r1\<lparr>bn_d := ws @ 1 # drop (?k + 1) (bn_d r1), bn_top := ?k + 1\<rparr>
      else r1\<lparr>bn_d := ws @ drop ?k (bn_d r1), bn_top := ?k\<rparr>"
    have c: "unat c = (if c \<noteq> 0 then 1 else 0)" using v(3) by (auto simp: le_Suc_eq unat_eq_zero)
    have words: "bn_words ?s = ws @ (if c \<noteq> 0 then [1] else [])" using v(2) by (simp add: bn_words_def)
    have abs: "bn_abs ?s = 2 * bn_abs a"
      unfolding bn_abs_def words bn_val_append v(1) [symmetric, unfolded bn_abs_def] c v(2) by simp
    have "bn_ok ?s"
    proof (rule bn_okI)
      show "bn_top ?s \<le> length (bn_d ?s)" using v(2) r1(2) by auto
      assume "0 < bn_top ?s"
      show "2 ^ (64 * (bn_top ?s - 1)) \<le> bn_abs ?s"
      proof (cases "c = 0")
        case True
        then show ?thesis unfolding abs using bn_abs_bounds(2) [OF assms(1)] \<open>0 < bn_top ?s\<close> by simp
      next
        case False
        then have "2 ^ (64 * ?k) \<le> 2 * bn_abs a" using v(1) c by (metis le_add2 mult_1_right)
        then show ?thesis unfolding abs using False by simp
      qed
    qed
    moreover have "BN_lshift1 M r a = (?s, None)" using r1(1) ws by (simp add: BN_lshift1_def Let_def)
    ultimately show ?thesis using abs r1(3) by (intro exI [of _ ?s]) simp
  qed
  moreover have "\<exists>t. BN_rshift1 M r a = (t, None) \<and> bn_ok t \<and> bn_abs t = bn_abs a div 2 \<and> bn_neg t = (bn_neg a \<and> bn_top a \<noteq> 0)"
  proof (cases "?k")
    case 0
    then show ?thesis by (simp add: BN_rshift1_def BN_is_zero_def BN_zero_def bn_ok_def bn_abs_def bn_words_def)
  next
    case (Suc m)
    obtain ws c where ws: "rshift1_words (take ?k (bn_d a)) = (ws, c)" by fastforce
    have v: "2 * bn_val ws + bn_abs a mod 2 = bn_abs a" "length ws = ?k"
      using rshift1_words_val [OF ws] len w by (simp_all add: min_absorb2)
    then have half: "bn_val ws = bn_abs a div 2" by linarith
    let ?j = "if bn_d a ! m = 1 then m else ?k" and ?n = "if drop_bit 1 (bn_d a ! m) \<noteq> 0 then ?k else m"
    have top: "bn_d a ! m \<noteq> 0" using assms(1) Suc by (simp add: bn_ok_def)
    have u: "unat (bn_d a ! m) \<noteq> 0" "bn_d a ! m = 1 \<longleftrightarrow> unat (bn_d a ! m) = 1"
      using top by (simp_all only: word_unat_eq_iff unsigned_0 unsigned_1 not_False_eq_True)
    have "drop_bit 1 (bn_d a ! m) = 0 \<longleftrightarrow> unat (bn_d a ! m) div 2 ^ 1 = 0"
      by (simp only: word_unat_eq_iff unat_drop_bit64 unsigned_0)
    also have "\<dots> \<longleftrightarrow> bn_d a ! m = 1"
    proof -
      have "x div 2 ^ 1 = 0 \<longleftrightarrow> x = 1" if "x \<noteq> 0" for x :: nat using that by auto
      then show ?thesis using u by blast
    qed
    finally have nz: "drop_bit 1 (bn_d a ! m) = 0 \<longleftrightarrow> bn_d a ! m = 1" .
    have lo: "bn_val (take m ws) = bn_val ws" if "bn_d a ! m = 1"
    proof -
      have "bn_abs a = bn_val (take m (bn_d a)) + 2 ^ (64 * m)"
        using len Suc that by (simp add: bn_abs_def bn_words_def take_Suc_conv_app_nth bn_val_append)
      also have "\<dots> < 2 * 2 ^ (64 * m)"
        using bn_val_bound [of "take m (bn_d a)"] len Suc by (simp add: min_absorb2)
      finally have "bn_val ws < 2 ^ (64 * m)" unfolding half by linarith
      then show ?thesis by (simp add: bn_val_take)
    qed
    obtain r1 where r1: "bn_wexpand M r ?j = (r1, None)" "?j \<le> length (bn_d r1)"
      using bn_roomE [of M r ?j] assms(2,3) Suc by auto
    let ?t = "r1\<lparr>bn_neg := bn_neg a, bn_d := take ?j ws @ drop ?j (bn_d r1), bn_top := ?j\<rparr>"
    have "bn_words ?t = take ?j ws" using v(2) Suc by (simp add: bn_words_def)
    then have abs: "bn_abs ?t = bn_abs a div 2" using lo half v(2) by (simp add: bn_abs_def)
    have "bn_ok ?t"
    proof (rule bn_okI)
      show "bn_top ?t \<le> length (bn_d ?t)" using v(2) r1(2) Suc by auto
      assume j: "0 < bn_top ?t"
      show "2 ^ (64 * (bn_top ?t - 1)) \<le> bn_abs ?t"
      proof (cases "bn_d a ! m = 1")
        case True
        have "2 ^ (64 * m) \<le> bn_abs a" using bn_abs_bounds(2) [OF assms(1)] Suc by simp
        moreover have "64 * (m - 1) + 1 \<le> 64 * m" using j True by simp
        then have "(2 :: nat) ^ (64 * (m - 1) + 1) \<le> 2 ^ (64 * m)" by (intro power_increasing) simp_all
        ultimately show ?thesis unfolding abs using True by simp
      next
        case False
        then have "2 \<le> unat (bn_d a ! m)" using u by linarith
        then have "2 ^ (64 * m) * 2 \<le> 2 ^ (64 * m) * unat (bn_d a ! m)" by (rule mult_le_mono2)
        moreover have "bn_abs a = bn_val (take m (bn_d a)) + 2 ^ (64 * m) * unat (bn_d a ! m)"
          using len Suc by (simp add: bn_abs_def bn_words_def take_Suc_conv_app_nth bn_val_append)
        ultimately have "2 ^ (64 * m) * 2 \<le> bn_abs a" by linarith
        then show ?thesis unfolding abs using False Suc by simp
      qed
    qed
    moreover have "BN_rshift1 M r a = (?t, None)"
      using r1(1) ws nz Suc by (cases "bn_d a ! m = 1") (simp_all add: BN_rshift1_def BN_is_zero_def Let_def)
    ultimately show ?thesis using abs Suc by (intro exI [of _ ?t]) simp
  qed
  ultimately show ?thesis by blast
qed

lemma BN_shift1_correct_witness:
  "\<exists>s t. BN_lshift1 (\<lambda>n. Some (\<lambda>_. 7)) BN_init BN_value_one = (s, None) \<and> bn_ok s \<and> bn_abs s = 2 \<and> \<not> bn_neg s
    \<and> BN_rshift1 (\<lambda>n. Some (\<lambda>_. 7)) BN_init BN_value_one = (t, None) \<and> bn_ok t \<and> bn_abs t = 0 \<and> \<not> bn_neg t"
  using BN_shift1_correct [where r = BN_init and a = BN_value_one and M = "\<lambda>n. Some (\<lambda>_. 7)"]
  by (simp add: bn_ok_def BN_value_one_def BN_init_def bn_room_def bn_wexpand_def bn_abs_def bn_words_def)

section \<open>Single bits\<close>

lemma bit_bn_val: "bit (bn_val ws) n \<longleftrightarrow> n div 64 < length ws \<and> bit (ws ! (n div 64)) (n mod 64)"
proof -
  define i j where "i = n div 64" and "j = n mod 64"
  have n: "64 * i + j = n" and j: "j < 64" by (simp_all add: i_def j_def)
  have "bn_val ws div 2 ^ n = bn_val (drop i ws) div 2 ^ j"
    unfolding bn_val_drop n [symmetric] power_add div_mult2_eq ..
  then have b: "bit (bn_val ws) n \<longleftrightarrow> bit (bn_val (drop i ws)) j" by (simp only: bit_iff_odd)
  show ?thesis
  proof (cases "i < length ws")
    case True
    then have "drop i ws = ws ! i # drop (Suc i) ws" by (simp add: Cons_nth_drop_Suc)
    then have "bn_val (drop i ws) = unat (ws ! i) + 2 ^ 64 * bn_val (drop (Suc i) ws)" by simp
    also have "(2 :: nat) ^ 64 = 2 * 2 ^ (63 - j) * 2 ^ j" using j by (simp flip: power_Suc power_add)
    finally have "bn_val (drop i ws) = unat (ws ! i) + 2 * 2 ^ (63 - j) * bn_val (drop (Suc i) ws) * 2 ^ j"
      by (simp only: mult_ac)
    then have "bn_val (drop i ws) div 2 ^ j = (unat (ws ! i) + 2 * 2 ^ (63 - j) * bn_val (drop (Suc i) ws) * 2 ^ j) div 2 ^ j"
      by (rule arg_cong)
    also have "\<dots> = 2 * 2 ^ (63 - j) * bn_val (drop (Suc i) ws) + unat (ws ! i) div 2 ^ j"
      by (rule div_mult_self1) simp
    finally have "bit (bn_val (drop i ws)) j \<longleftrightarrow> bit (unat (ws ! i)) j" by (simp add: bit_iff_odd)
    then have "bit (bn_val (drop i ws)) j \<longleftrightarrow> bit (ws ! i) j" using j by (simp add: bit_unsigned_iff)
    then show ?thesis using b True unfolding i_def [symmetric] j_def [symmetric] by simp
  next
    case False
    then show ?thesis using b unfolding i_def [symmetric] by simp
  qed
qed

lemma bit_bn_abs:
  assumes "bn_top a \<le> length (bn_d a)"
  shows "bit (bn_abs a) n \<longleftrightarrow> n div 64 < bn_top a \<and> bit (bn_d a ! (n div 64)) (n mod 64)"
  using assms unfolding bn_abs_def bit_bn_val by (auto simp: bn_words_def)

lemma word_bit_test: "drop_bit j w AND 1 = 1 \<longleftrightarrow> bit w j" for w :: u64
  by (simp add: and_one_eq bit_iff_odd_drop_bit mod_2_eq_odd)

text \<open>Bits of a number with one word changed.\<close>

lemma bit_bn_update:
  assumes "bn_top a \<le> length (bn_d a)" "i < bn_top a"
  shows "bit (bn_abs (a\<lparr>bn_d := (bn_d a)[i := w]\<rparr>)) n
    \<longleftrightarrow> (if n div 64 = i then bit w (n mod 64) else bit (bn_abs a) n)"
  using assms by (simp add: bit_bn_abs nth_list_update)

lemma BN_is_bit_set_val:
  assumes "bn_ok a"
  shows "BN_is_bit_set a (int n) = bit (bn_abs a) n"
  using assms by (simp add: BN_is_bit_set_def Let_def word_bit_test bit_bn_abs bn_ok_def)

lemma BN_set_bit_val:
  assumes "bn_ok a" "bn_room M a (n div 64 + 1)"
  shows "\<exists>s. BN_set_bit M a (int n) = (s, None) \<and> bn_ok s \<and> bn_abs s = set_bit n (bn_abs a) \<and> bn_neg s = bn_neg a"
proof -
  define i j where "i = n div 64" and "j = n mod 64"
  have j: "j < 64" and room: "bn_room M a (i + 1)" using assms(2) by (simp_all add: i_def j_def)
  have len: "bn_top a \<le> length (bn_d a)" using assms(1) by (simp add: bn_ok_def)
  define w where "w = (push_bit j 1 :: u64)"
  have wb: "bit w m \<longleftrightarrow> m = j" if "m < 64" for m using that j by (auto simp: w_def bit_simps)
  have grown: "\<exists>b. (if bn_top a \<le> i
                  then bn_then (bn_wexpand M a (i + 1)) (\<lambda>a.
                    (a\<lparr>bn_d := take (bn_top a) (bn_d a) @ replicate (i + 1 - bn_top a) 0 @ drop (i + 1) (bn_d a),
                       bn_top := i + 1\<rparr>, None))
                  else (a, None)) = (b, None)
      \<and> i < bn_top b \<and> bn_top b \<le> length (bn_d b) \<and> bn_abs b = bn_abs a \<and> bn_neg b = bn_neg a
      \<and> (bn_top b - 1 = i \<or> bn_d b ! (bn_top b - 1) \<noteq> 0)"
  proof (cases "bn_top a \<le> i")
    case True
    obtain b where b: "bn_wexpand M a (i + 1) = (b, None)" "i + 1 \<le> length (bn_d b)" "bn_neg b = bn_neg a"
      "bn_words b = bn_words a" "bn_top b = bn_top a"
      using bn_roomE [OF room len] by metis
    let ?b = "b\<lparr>bn_d := take (bn_top b) (bn_d b) @ replicate (i + 1 - bn_top b) 0 @ drop (i + 1) (bn_d b), bn_top := i + 1\<rparr>"
    have "bn_words ?b = bn_words a @ replicate (i + 1 - bn_top a) 0"
      using True b len by (simp add: bn_words_def min_absorb2)
    then have "bn_abs ?b = bn_abs a" by (simp add: bn_abs_def bn_val_append)
    then show ?thesis using True b by simp
  next
    case False
    then show ?thesis using assms(1) len by (simp add: bn_ok_def)
  qed
  obtain b where b: "(if bn_top a \<le> i
                  then bn_then (bn_wexpand M a (i + 1)) (\<lambda>a.
                    (a\<lparr>bn_d := take (bn_top a) (bn_d a) @ replicate (i + 1 - bn_top a) 0 @ drop (i + 1) (bn_d a),
                       bn_top := i + 1\<rparr>, None))
                  else (a, None)) = (b, None)"
      "i < bn_top b" "bn_top b \<le> length (bn_d b)" "bn_abs b = bn_abs a" "bn_neg b = bn_neg a"
      "bn_top b - 1 = i \<or> bn_d b ! (bn_top b - 1) \<noteq> 0"
    using grown by blast
  let ?s = "b\<lparr>bn_d := (bn_d b)[i := bn_d b ! i OR w]\<rparr>"
  have "bn_abs ?s = set_bit n (bn_abs a)"
  proof (rule bit_eqI)
    fix m
    have "m = n \<longleftrightarrow> m div 64 = i \<and> m mod 64 = j" unfolding i_def j_def by (metis div_mult_mod_eq)
    moreover have "bit (bn_abs b) m \<longleftrightarrow> m div 64 < bn_top b \<and> bit (bn_d b ! (m div 64)) (m mod 64)"
      by (rule bit_bn_abs [OF b(3)])
    ultimately show "bit (bn_abs ?s) m = bit (set_bit n (bn_abs a)) m"
      unfolding bit_bn_update [OF b(3,2)] using b(2,4) wb [of "m mod 64"]
      by (auto simp: bit_set_bit_iff bit_or_iff)
  qed
  moreover have "bn_ok ?s"
  proof -
    have "bn_d b ! i OR w \<noteq> 0"
    proof
      assume "bn_d b ! i OR w = 0"
      then have "\<not> bit (bn_d b ! i OR w) j" by simp
      then show False using wb [OF j] by (simp add: bit_or_iff)
    qed
    then show ?thesis using b(2,3,6) by (auto simp: bn_ok_def nth_list_update)
  qed
  moreover have "BN_set_bit M a (int n) = (?s, None)"
    unfolding BN_set_bit_def Let_def nat_int i_def [symmetric] j_def [symmetric] b(1) w_def [symmetric] by simp
  ultimately show ?thesis using b(5) by (intro exI [of _ ?s]) simp
qed

lemma BN_clear_bit_val:
  assumes "bn_ok a"
  shows "case BN_clear_bit a (int n) of (c, r) \<Rightarrow>
    bn_ok c \<and> bn_abs c = unset_bit n (bn_abs a) \<and> r = (n div 64 < bn_top a)"
proof -
  have len: "bn_top a \<le> length (bn_d a)" using assms by (simp add: bn_ok_def)
  show ?thesis
  proof (cases "bn_top a \<le> n div 64")
    case True
    have "bn_abs a = unset_bit n (bn_abs a)"
      by (rule bit_eqI) (use True in \<open>auto simp: bit_unset_bit_iff bit_bn_abs [OF len]\<close>)
    then show ?thesis using True assms by (simp add: BN_clear_bit_def)
  next
    case False
    let ?w = "push_bit (n mod 64) 1 :: u64"
    let ?c = "a\<lparr>bn_d := (bn_d a)[n div 64 := bn_d a ! (n div 64) AND NOT ?w]\<rparr>"
    have lt: "n div 64 < bn_top a" using False by simp
    have "bn_abs ?c = unset_bit n (bn_abs a)"
    proof (rule bit_eqI)
      fix m
      have "m = n \<longleftrightarrow> m div 64 = n div 64 \<and> m mod 64 = n mod 64" by (metis div_mult_mod_eq)
      moreover have "bit ?w (m mod 64) \<longleftrightarrow> m mod 64 = n mod 64" by (auto simp: bit_simps)
      ultimately show "bit (bn_abs ?c) m = bit (unset_bit n (bn_abs a)) m"
        unfolding bit_bn_update [OF len lt] using lt
        by (auto simp: bit_unset_bit_iff bit_and_iff bit_not_iff bit_bn_abs [OF len])
    qed
    moreover have "bn_top ?c \<le> length (bn_d ?c)" using len by simp
    ultimately show ?thesis
      using bn_correct_top_ok [of ?c] lt by (simp add: BN_clear_bit_def Let_def)
  qed
qed

lemma BN_mask_bits_val:
  assumes "bn_ok a"
  shows "case BN_mask_bits a (int n) of (m, r) \<Rightarrow>
    bn_ok m \<and> bn_abs m = take_bit n (bn_abs a) \<and> r = (n div 64 < bn_top a)"
proof -
  have len: "bn_top a \<le> length (bn_d a)" using assms by (simp add: bn_ok_def)
  show ?thesis
  proof (cases "bn_top a \<le> n div 64")
    case True
    have "bn_abs a = take_bit n (bn_abs a)"
    proof (rule bit_eqI)
      fix m
      have "m < n" if "m div 64 < bn_top a" using that True by (metis div_le_mono leD leI le_trans)
      then show "bit (bn_abs a) m = bit (take_bit n (bn_abs a)) m"
        by (auto simp: bit_take_bit_iff bit_bn_abs [OF len])
    qed
    then show ?thesis using True assms by (simp add: BN_mask_bits_def)
  next
    case False
    define w b where "w = n div 64" and "b = n mod 64"
    have n: "w * 64 + b = n" and w: "w < bn_top a" and b: "b < 64" using False by (simp_all add: w_def b_def)
    let ?m = "if b = 0 then a\<lparr>bn_top := w\<rparr>
      else a\<lparr>bn_top := w + 1, bn_d := (bn_d a)[w := bn_d a ! w AND NOT (push_bit b 0xffffffffffffffff)]\<rparr>"
    have top: "bn_top ?m \<le> length (bn_d ?m)" using w len by simp
    have "bn_abs ?m = take_bit n (bn_abs a)"
    proof (rule bit_eqI)
      fix m :: nat
      define i j where "i = m div 64" and "j = m mod 64"
      have m: "i * 64 + j = m" and j: "j < 64" by (simp_all add: i_def j_def)
      have ones: "bit (push_bit b 0xffffffffffffffff :: u64) j \<longleftrightarrow> b \<le> j"
      proof -
        have c: "(0xffffffffffffffff :: u64) = mask 64" by (simp add: mask_eq_exp_minus_1)
        have "bit (push_bit b (mask 64 :: u64)) j \<longleftrightarrow> b \<le> j"
          using j by (auto simp: bit_push_bit_iff bit_mask_iff)
        then show ?thesis by (simp only: c)
      qed
      have less: "m < n \<longleftrightarrow> i < w \<or> (i = w \<and> j < b)" unfolding m [symmetric] n [symmetric] using b j by auto
      show "bit (bn_abs ?m) m = bit (take_bit n (bn_abs a)) m"
        unfolding bit_bn_abs [OF top] bit_take_bit_iff bit_bn_abs [OF len] less i_def [symmetric] j_def [symmetric]
        using w len ones j by (auto simp: nth_list_update bit_and_iff bit_not_iff)
    qed
    then show ?thesis
      using bn_correct_top_ok [OF top] w
      unfolding BN_mask_bits_def Let_def nat_int w_def [symmetric] b_def [symmetric] by simp
  qed
qed

text \<open>
  BN_is_bit_set, BN_set_bit, BN_clear_bit and BN_mask_bits work on the binary digits of the
  magnitude: the first reads bit n, the second sets it (growing the number where it lies beyond the
  words in use), the third clears it, and the last keeps the digits below n. All keep the number free
  of leading zero words; the last two return 0 and do nothing when n lies beyond its words.
\<close>
theorem BN_bits_correct:
  assumes "bn_ok a" "bn_room M a (n div 64 + 1)"
  shows "BN_is_bit_set a (int n) = bit (bn_abs a) n
    \<and> (\<exists>s. BN_set_bit M a (int n) = (s, None) \<and> bn_ok s \<and> bn_abs s = set_bit n (bn_abs a) \<and> bn_neg s = bn_neg a)
    \<and> (case BN_clear_bit a (int n) of (c, r) \<Rightarrow>
        bn_ok c \<and> bn_abs c = unset_bit n (bn_abs a) \<and> r = (n div 64 < bn_top a))
    \<and> (case BN_mask_bits a (int n) of (m, r) \<Rightarrow>
        bn_ok m \<and> bn_abs m = take_bit n (bn_abs a) \<and> r = (n div 64 < bn_top a))"
  by (intro conjI BN_is_bit_set_val [OF assms(1)] BN_set_bit_val [OF assms] BN_clear_bit_val [OF assms(1)]
      BN_mask_bits_val [OF assms(1)])

theorem BN_bits_correct_witness:
  "\<exists>s. BN_set_bit (\<lambda>n. Some (\<lambda>_. 7)) BN_value_one (int 3) = (s, None) \<and> bn_abs s = set_bit 3 1"
  using BN_bits_correct [where a = BN_value_one and n = 3 and M = "\<lambda>n. Some (\<lambda>_. 7)"]
  by (auto simp: bn_ok_def BN_value_one_def bn_room_def bn_wexpand_def bn_abs_def bn_words_def)

end
