(* ===== verification/BnConvert.thy ===== *)
theory BnConvert
  imports BnShift
begin

unbundle bit_operations_syntax

text \<open>
  Numbers as bytes and as text (\<^verbatim>\<open>crypto/bn/convert.c\<close>), with the multiplication by a word the
  decimal reader uses (\<^verbatim>\<open>BN_mul_word\<close> of \<^verbatim>\<open>crypto/bn/mul.c\<close>).
\<close>

section \<open>Bytes\<close>

text \<open>
  The bytes left, the word being put together, how many bytes it still lacks less one, and the words
  not written yet, an \<^verbatim>\<open>unsigned\<close> that each whole word decrements.  None is a store outside
  the words of the number.
\<close>

(* src: crypto/bn/convert.c@97-104 BN_bin2bn *)
fun bin2bn_loop :: "bytes \<Rightarrow> u64 \<Rightarrow> nat \<Rightarrow> nat \<Rightarrow> u64 list \<Rightarrow> u64 list option" where
  "bin2bn_loop [] word m n d = Some d"
| "bin2bn_loop (b # bs) word m n d =
     (let word = push_bit 8 word OR ucast b
      in if m = 0 then
           let n = (n + 4294967295) mod 4294967296
           in if n < length d then bin2bn_loop bs 0 7 n (d[n := word]) else None
         else bin2bn_loop bs word (m - 1) n d)"

text \<open>
  Into a given number; \<^verbatim>\<open>BN_bin2bn\<close> with a null result makes one first.  The number of words is
  an \<^verbatim>\<open>unsigned\<close> too.
\<close>

(* src: crypto/bn/convert.c@79-109 BN_bin2bn *)
definition BN_bin2bn_into :: "bn_malloc \<Rightarrow> bytes \<Rightarrow> bignum \<Rightarrow> bn_result option" where
  "BN_bin2bn_into M bs ret =
     (if bs = [] then Some (ret\<lparr>bn_top := 0\<rparr>, None)
      else let num_words = ((length bs - 1) div 8 + 1) mod 4294967296; m = (length bs - 1) mod 8
      in case bn_wexpand M ret num_words of
           (ret, Some e) \<Rightarrow> Some (ret, Some e)
         | (ret, None) \<Rightarrow>
             map_option (\<lambda>d. (bn_correct_top (ret\<lparr>bn_d := d, bn_top := num_words, bn_neg := False\<rparr>), None))
               (bin2bn_loop bs 0 m num_words (bn_d ret)))"

(* src: crypto/bn/convert.c BN_bin2bn *)
definition BN_bin2bn :: "bool \<Rightarrow> bn_malloc \<Rightarrow> bytes \<Rightarrow> bignum option \<Rightarrow> bignum option option" where
  "BN_bin2bn ok M bs ret =
     (case (case ret of None \<Rightarrow> BN_new ok | Some r \<Rightarrow> Some r) of
        None \<Rightarrow> Some None
      | Some ret \<Rightarrow> map_option (\<lambda>(r, e). if e = None then Some r else None) (BN_bin2bn_into M bs ret))"

(* src: crypto/bn/convert.c BN_bn2bin *)
definition BN_bn2bin :: "bignum \<Rightarrow> bytes" where
  "BN_bn2bin inp =
     map (\<lambda>i. ucast (drop_bit (8 * (i mod 8)) (bn_d inp ! (i div 8))) AND 0xff) (rev [0 ..< BN_num_bytes inp])"

text \<open>
  Writing to a given length without branches on the number: masks choose the word to read, and
  whether to use it. \<^verbatim>\<open>size_t\<close> is 64 bits wide here.
\<close>

(* src: crypto/bn/convert.c constant_time_select_ulong *)
definition constant_time_select_ulong :: "u64 \<Rightarrow> u64 \<Rightarrow> u64 \<Rightarrow> u64" where
  "constant_time_select_ulong v x y = (let m = v - 1 in (NOT m AND x) OR (m AND y))"

(* src: crypto/bn/convert.c constant_time_le_size_t *)
definition constant_time_le_size_t :: "u64 \<Rightarrow> u64 \<Rightarrow> u64" where
  "constant_time_le_size_t x y = drop_bit 63 (x - y - 1) AND 1"

(* src: crypto/bn/convert.c read_word_padded *)
definition read_word_padded :: "bignum \<Rightarrow> u64 \<Rightarrow> u64" where
  "read_word_padded inp i =
     (let dmax = word_of_nat (length (bn_d inp));
          l = bn_d inp ! unat (constant_time_select_ulong (constant_time_le_size_t dmax i) (dmax - 1) i)
      in constant_time_select_ulong (constant_time_le_size_t (word_of_nat (bn_top inp)) i) 0 l)"

(* src: crypto/bn/convert.c BN_bn2bin_padded *)
definition BN_bn2bin_padded :: "nat \<Rightarrow> bignum \<Rightarrow> bytes option" where
  "BN_bn2bin_padded len inp =
     (if BN_is_zero inp then Some (replicate len 0)
      else if (len + 7) div 8 < bn_top inp then None
      else if len mod 8 \<noteq> 0 \<and> drop_bit (8 * (len mod 8)) (read_word_padded inp (word_of_nat (len div 8))) \<noteq> 0 then None
      else Some (map (\<lambda>i. ucast (drop_bit (8 * (i mod 8)) (read_word_padded inp (word_of_nat (i div 8)))) AND 0xff)
                     (rev [0 ..< len])))"

section \<open>Text\<close>

text \<open>Characters are bytes; a string is given without its closing zero byte.\<close>

(* src: crypto/bn/convert.c@191 hextable *)
definition hextable :: bytes where
  "hextable = [48, 49, 50, 51, 52, 53, 54, 55, 56, 57, 97, 98, 99, 100, 101, 102]"

definition isdigit :: "u8 \<Rightarrow> bool" where
  "isdigit c \<longleftrightarrow> 48 \<le> c \<and> c \<le> 57"

definition isxdigit :: "u8 \<Rightarrow> bool" where
  "isxdigit c \<longleftrightarrow> isdigit c \<or> 97 \<le> c \<and> c \<le> 102 \<or> 65 \<le> c \<and> c \<le> 70"

primrec hex_out :: "bool \<Rightarrow> bytes \<Rightarrow> bytes" where
  "hex_out z [] = []"
| "hex_out z (v # vs) =
     (if z \<or> v \<noteq> 0 then hextable ! unat (drop_bit 4 v) # hextable ! unat (v AND 0x0f) # hex_out True vs
      else hex_out z vs)"

text \<open>The bytes of a word, the highest first.\<close>

definition word_bytes :: "u64 \<Rightarrow> bytes" where
  "word_bytes w = map (\<lambda>j. ucast (drop_bit j w) AND 0xff) [56, 48, 40, 32, 24, 16, 8, 0]"

text \<open>The size of the buffer and what is written to it; \<open>ok\<close> says whether it could be allocated.\<close>

(* src: crypto/bn/convert.c BN_bn2hex *)
definition BN_bn2hex :: "bool \<Rightarrow> bignum \<Rightarrow> (nat \<times> bytes) option" where
  "BN_bn2hex ok bn =
     (if \<not> ok then None
      else Some (bn_top bn * 8 * 2 + 2,
                 (if bn_neg bn then [45] else []) @ (if BN_is_zero bn then [48] else [])
                 @ hex_out False (concat (map word_bytes (rev (take (bn_top bn) (bn_d bn))))) @ [0]))"

definition hex_digit :: "u8 \<Rightarrow> u64" where
  "hex_digit c =
     (if 48 \<le> c \<and> c \<le> 57 then ucast c - 48
      else if 97 \<le> c \<and> c \<le> 102 then ucast c - 97 + 10
      else if 65 \<le> c \<and> c \<le> 70 then ucast c - 65 + 10
      else 0)"

definition hex_word :: "bytes \<Rightarrow> u64" where
  "hex_word cs = foldl (\<lambda>l c. push_bit 4 l OR hex_digit c) 0 cs"

text \<open>Sixteen digits to a word, from the end.\<close>

function hex_words :: "bytes \<Rightarrow> u64 list" where
  "hex_words cs =
     (if cs = [] then []
      else let k = length cs - 16 in hex_word (drop k cs) # hex_words (take k cs))"
  by auto
termination by (relation "measure length") auto

declare hex_words.simps [simp del]

(* src: crypto/bn/convert.c decode_hex *)
definition decode_hex :: "bignum \<Rightarrow> bytes \<Rightarrow> bignum" where
  "decode_hex bn cs =
     (let ws = hex_words cs in bn\<lparr>bn_d := ws @ drop (length ws) (bn_d bn), bn_top := length ws\<rparr>)"

(* src: crypto/bn/mul.c BN_mul_word *)
definition BN_mul_word :: "bn_malloc \<Rightarrow> bignum \<Rightarrow> u64 \<Rightarrow> bn_result" where
  "BN_mul_word M bn w =
     (if bn_top bn = 0 then (bn, None)
      else if w = 0 then (BN_zero bn, None)
      else let (ws, ll) = bn_mul_words (take (bn_top bn) (bn_d bn)) w;
               bn = bn\<lparr>bn_d := ws @ drop (bn_top bn) (bn_d bn)\<rparr>
      in if ll \<noteq> 0
         then bn_then (bn_wexpand M bn (bn_top bn + 1)) (\<lambda>bn.
                (bn\<lparr>bn_d := (bn_d bn)[bn_top bn := ll], bn_top := bn_top bn + 1\<rparr>, None))
         else (bn, None))"

text \<open>
  The decimal reader runs to the end of the string, not to the end of the digits. The results of the
  two operations are ignored.
\<close>

primrec dec_loop :: "bn_malloc \<Rightarrow> bignum \<Rightarrow> u64 \<Rightarrow> nat \<Rightarrow> bytes \<Rightarrow> bignum option" where
  "dec_loop M bn l j [] = Some bn"
| "dec_loop M bn l j (c # cs) =
     (let l = l * 10; l = l + (scast c - 48)
      in if j + 1 = 19
         then case BN_add_word M (fst (BN_mul_word M bn 10000000000000000000)) l of
                None \<Rightarrow> None
              | Some (bn, _) \<Rightarrow> dec_loop M bn 0 0 cs
         else dec_loop M bn l (j + 1) cs)"

(* src: crypto/bn/convert.c decode_dec *)
definition decode_dec :: "bn_malloc \<Rightarrow> bignum \<Rightarrow> bytes \<Rightarrow> nat \<Rightarrow> bignum option" where
  "decode_dec M bn cs i = (let j = 19 - i mod 19; j = (if j = 19 then 0 else j) in dec_loop M bn 0 j cs)"

text \<open>
  What \<^verbatim>\<open>BN_hex2bn\<close> and \<^verbatim>\<open>BN_dec2bn\<close> return and leave in a number they were given, for a string that
  is not empty; a null \<^verbatim>\<open>outp\<close> only counts, and a null \<^verbatim>\<open>*outp\<close> is a new number.
\<close>

datatype bn_radix = Hex | Dec

(* src: crypto/bn/convert.c bn_x2bn *)
definition bn_x2bn :: "bn_radix \<Rightarrow> bn_malloc \<Rightarrow> bignum \<Rightarrow> bytes \<Rightarrow> (nat \<times> bignum) option" where
  "bn_x2bn radix M ret inp =
     (if inp = [] then Some (0, ret)
      else let neg = hd inp = 45; cs = (if neg then tl inp else inp);
               i = length (takeWhile (case radix of Hex \<Rightarrow> isxdigit | Dec \<Rightarrow> isdigit) cs);
               num = i + of_bool neg
      in case bn_expand M (BN_zero ret\<lparr>bn_neg := neg\<rparr>) (i * 4) of
           (ret, Some _) \<Rightarrow> Some (0, ret)
         | (ret, None) \<Rightarrow>
             (case radix of
                Hex \<Rightarrow> Some (num, bn_correct_top (decode_hex ret (take i cs)))
              | Dec \<Rightarrow> map_option (\<lambda>r. (num, bn_correct_top r)) (decode_dec M ret cs i)))"

(* src: crypto/bn/convert.c BN_hex2bn *)
definition BN_hex2bn :: "bn_malloc \<Rightarrow> bignum \<Rightarrow> bytes \<Rightarrow> (nat \<times> bignum) option" where
  "BN_hex2bn = bn_x2bn Hex"

(* src: crypto/bn/convert.c BN_dec2bn *)
definition BN_dec2bn :: "bn_malloc \<Rightarrow> bignum \<Rightarrow> bytes \<Rightarrow> (nat \<times> bignum) option" where
  "BN_dec2bn = bn_x2bn Dec"

text \<open>The sign is set again at the end.\<close>

(* src: crypto/bn/convert.c BN_asc2bn *)
definition BN_asc2bn :: "bn_malloc \<Rightarrow> bignum \<Rightarrow> bytes \<Rightarrow> (bool \<times> bignum) option" where
  "BN_asc2bn M r orig =
     (let inp = (if orig \<noteq> [] \<and> hd orig = 45 then tl orig else orig)
      in case (if 2 \<le> length inp \<and> inp ! 0 = 48 \<and> (inp ! 1 = 88 \<or> inp ! 1 = 120) then BN_hex2bn M r (drop 2 inp)
               else BN_dec2bn M r inp) of
           None \<Rightarrow> None
         | Some (0, r) \<Rightarrow> Some (False, r)
         | Some (Suc _, r) \<Rightarrow> Some (True, if orig \<noteq> [] \<and> hd orig = 45 then r\<lparr>bn_neg := True\<rparr> else r))"

section \<open>Reading and writing bytes\<close>

lemma shift_in_byte:
  assumes "unat word < 256 ^ 7"
  shows "unat (push_bit 8 word OR ucast (b :: u8) :: u64) = unat word * 256 + unat b"
proof -
  have b: "unat (ucast b :: u64) = unat b"
  proof -
    have "unat b < 2 ^ 64" by (rule less_trans [OF unat_u8_less]) simp
    then show ?thesis by (simp add: unsigned_ucast_eq take_bit_nat_eq_self)
  qed
  have "unat (push_bit 8 word OR ucast b) = unat word mod 2 ^ (64 - 8) * 2 ^ 8 + unat (ucast b :: u64)"
    by (intro join64) (simp_all add: b)
  then show ?thesis using assms b by simp
qed

lemma bin2bn_loop_val:
  "length bs + 7 = 8 * n + m \<Longrightarrow> m \<le> 7 \<Longrightarrow> n \<le> length d \<Longrightarrow> n < 4294967296 \<Longrightarrow> unat word < 256 ^ (7 - m) \<Longrightarrow>
   \<exists>r. bin2bn_loop bs word m n d = Some r \<and> bn_val (take n r) = be_nat_acc (unat word) bs
   \<and> length r = length d \<and> drop n r = drop n d"
proof (induction bs arbitrary: word m n d)
  case Nil
  have "m = 7" "n = 0" using Nil.prems(1,2) by (simp_all, presburger+)
  then show ?case using Nil by simp
next
  case (Cons b bs)
  let ?w = "push_bit 8 word OR ucast b :: u64"
  have "(256 :: nat) ^ (7 - m) \<le> 256 ^ 7" by (intro power_increasing) simp_all
  then have w: "unat ?w = unat word * 256 + unat b" using Cons.prems(5) by (intro shift_in_byte) simp
  show ?case
  proof (cases "m = 0")
    case True
    have n: "0 < n" using Cons.prems(1) True by simp
    let ?d = "d[n - 1 := ?w]"
    obtain r where r: "bin2bn_loop bs 0 7 (n - 1) ?d = Some r"
      and IH: "bn_val (take (n - 1) r) = be_nat bs" "length r = length d" "drop (n - 1) r = drop (n - 1) ?d"
    proof -
      have "length bs + 7 = 8 * (n - 1) + 7" using Cons.prems(1) True n by simp
      moreover have "n - 1 \<le> length ?d" "n - 1 < 4294967296" using Cons.prems(3,4) by simp_all
      ultimately show ?thesis using Cons.IH [of "n - 1" 7 ?d 0] that by auto
    qed
    have dec: "(n + 4294967295) mod 4294967296 = n - 1"
    proof -
      have "n + 4294967295 = 4294967296 + (n - 1)" using n by simp
      then have "(n + 4294967295) mod 4294967296 = (n - 1) mod 4294967296" by (simp only: mod_add_self1)
      then show ?thesis using Cons.prems(4) by simp
    qed
    have "n - 1 < length d" using Cons.prems(3) n by simp
    then have loop: "bin2bn_loop (b # bs) word m n d = Some r" using r True dec by (simp add: Let_def)
    have lt: "n - 1 < length r" using IH(2) Cons.prems(3) n by simp
    have "r ! (n - 1) = drop (n - 1) r ! 0" using lt by simp
    also have "\<dots> = ?w" unfolding IH(3) using Cons.prems(3) n by simp
    finally have top: "r ! (n - 1) = ?w" .
    have "take n r = take (n - 1) r @ [?w]"
      using take_Suc_conv_app_nth [OF lt] top n by simp
    then have "bn_val (take n r) = be_nat bs + 2 ^ (64 * (n - 1)) * unat ?w"
      using IH(1) lt by (simp add: bn_val_append min_absorb2)
    moreover have "(2 :: nat) ^ (64 * (n - 1)) = 256 ^ length bs"
    proof -
      have "64 * (n - 1) = 8 * length bs" using Cons.prems(1) True n by simp
      then show ?thesis by (simp only: power_mult) simp
    qed
    ultimately have "bn_val (take n r) = be_nat_acc (unat ?w) bs"
      using be_nat_acc_eq [of "unat ?w" bs] by (simp add: mult.commute)
    moreover have "drop n r = drop n d"
    proof -
      have "drop n r = drop 1 (drop (n - 1) r)" using n by simp
      then show ?thesis unfolding IH(3) using n by simp
    qed
    ultimately show ?thesis using loop IH(2) w by auto
  next
    case False
    have "unat word + 1 \<le> 256 ^ (7 - m)" using Cons.prems(5) by simp
    then have "(unat word + 1) * 256 \<le> 256 ^ (7 - m) * 256" by (rule mult_le_mono1)
    also have "(256 :: nat) ^ (7 - m) * 256 = 256 ^ (7 - (m - 1))"
    proof -
      have "7 - (m - 1) = Suc (7 - m)" using Cons.prems(2) False by simp
      then show ?thesis by (simp only: power_Suc2)
    qed
    finally have le: "(unat word + 1) * 256 \<le> 256 ^ (7 - (m - 1))" .
    have "unat ?w < (unat word + 1) * 256" unfolding w using unat_u8_less [of b] by simp
    then have "unat ?w < 256 ^ (7 - (m - 1))" using le by (rule less_le_trans)
    then show ?thesis
      using Cons.IH [of n "m - 1" d ?w] Cons.prems False w by (simp add: Let_def)
  qed
qed

lemma BN_bin2bn_into_val:
  assumes "bn_top r \<le> length (bn_d r)" "bn_room M r ((length bs - 1) div 8 + 1)" "bs \<noteq> []" "length bs < 4294967296"
  shows "\<exists>r'. BN_bin2bn_into M bs r = Some (r', None) \<and> bn_ok r' \<and> bn_abs r' = be_nat bs \<and> \<not> bn_neg r'"
proof -
  let ?n = "(length bs - 1) div 8 + 1" and ?m = "(length bs - 1) mod 8"
  have n: "?n < 4294967296" using assms(4) by simp
  obtain r1 where r1: "bn_wexpand M r ?n = (r1, None)" "?n \<le> length (bn_d r1)"
    using bn_roomE [OF assms(2,1)] by blast
  have "length bs - 1 = 8 * ((length bs - 1) div 8) + ?m" by simp
  then have l: "length bs + 7 = 8 * ?n + ?m" using assms(3) by (cases bs) auto
  obtain d where d: "bin2bn_loop bs 0 ?m ?n (bn_d r1) = Some d"
    and v: "bn_val (take ?n d) = be_nat bs" "length d = length (bn_d r1)"
    proof -
    have "?m \<le> 7" using mod_less_divisor [of 8 "length bs - 1"] by linarith
    then show ?thesis using bin2bn_loop_val [OF l _ r1(2) n, of 0] that by auto
  qed
  let ?r = "r1\<lparr>bn_d := d, bn_top := ?n, bn_neg := False\<rparr>"
  have top: "bn_top ?r \<le> length (bn_d ?r)" using v(2) r1(2) by simp
  have "bn_abs ?r = be_nat bs" using v(1) by (simp add: bn_abs_def bn_words_def)
  moreover have "BN_bin2bn_into M bs r = Some (bn_correct_top ?r, None)"
    using assms(3) r1(1) d mod_less [OF n] by (simp add: BN_bin2bn_into_def Let_def)
  ultimately show ?thesis using bn_correct_top_ok [OF top] by simp
qed

text \<open>A byte of the number.\<close>

lemma bn_byte:
  assumes "bn_top a \<le> length (bn_d a)" "i div 8 < bn_top a"
  shows "unat (drop_bit (8 * (i mod 8)) (bn_d a ! (i div 8))) mod 256 = bn_abs a div 256 ^ i mod 256"
proof -
  have "take_bit 8 (unat (drop_bit (8 * (i mod 8)) (bn_d a ! (i div 8)))) = take_bit 8 (drop_bit (8 * i) (bn_abs a))"
  proof (rule bit_eqI)
    fix k
    have d: "(8 * i + k) div 64 = i div 8" "(8 * i + k) mod 64 = 8 * (i mod 8) + k" if "k < 8"
    proof -
      have "8 * i + k = 64 * (i div 8) + (8 * (i mod 8) + k)"
      proof -
        have "i = 8 * (i div 8) + i mod 8" by simp
        then show ?thesis by linarith
      qed
      moreover have "8 * (i mod 8) + k < 64" using that mod_less_divisor [of 8 i] by linarith
      ultimately show "(8 * i + k) div 64 = i div 8" "(8 * i + k) mod 64 = 8 * (i mod 8) + k"
        by (simp_all only: div_mult_self4 mod_mult_self4 div_less mod_less)
    qed
    have "8 * (i mod 8) + k < 64" if "k < 8" using that mod_less_divisor [of 8 i] by linarith
    then show "bit (take_bit 8 (unat (drop_bit (8 * (i mod 8)) (bn_d a ! (i div 8))))) k
        = bit (take_bit 8 (drop_bit (8 * i) (bn_abs a))) k"
      using d assms(2) by (auto simp: bit_take_bit_iff bit_drop_bit_eq bit_unsigned_iff bit_bn_abs [OF assms(1)])
  qed
  then have "unat (drop_bit (8 * (i mod 8)) (bn_d a ! (i div 8))) mod 2 ^ 8 = bn_abs a div 2 ^ (8 * i) mod 2 ^ 8"
    unfolding take_bit_eq_mod drop_bit_eq_div .
  then show ?thesis by (simp add: power_mult)
qed

lemma word_of_nat_u8_mod: "(word_of_nat (n mod 256) :: u8) = word_of_nat n"
  by (rule word_unat_eq_iff [THEN iffD2]) simp

lemma ucast_byte: "ucast (x :: u64) AND 0xff = (word_of_nat (unat x mod 256) :: u8)"
proof -
  have "(0xff :: u8) = - 1" by simp
  then have "ucast x AND 0xff = (ucast x :: u8)" by (simp only: and.right_neutral)
  then show ?thesis unfolding word_of_nat_u8_mod by simp
qed

lemma be_bytes_map: "be_bytes k n = map (\<lambda>i. word_of_nat (n div 256 ^ i mod 256)) (rev [0 ..< k])"
proof (induction k arbitrary: n)
  case (Suc k)
  have e: "n div 256 ^ Suc i = n div 256 div 256 ^ i" for i by (simp only: power_Suc div_mult2_eq)
  have "rev [0 ..< Suc k] = map Suc (rev [0 ..< k]) @ [0]"
    by (simp only: upt_conv_Cons zero_less_Suc rev.simps rev_map [symmetric] map_Suc_upt [symmetric])
  then show ?case unfolding be_bytes.simps Suc by (simp add: e word_of_nat_u8_mod del: power_Suc)
qed simp

lemma BN_num_bytes_bound:
  assumes "bn_ok a"
  shows "bn_abs a < 256 ^ BN_num_bytes a" "BN_num_bytes a \<le> 8 * bn_top a"
proof -
  have b: "is_num_bits (BN_num_bits a) (bn_abs a)" by (rule BN_num_bits_val [OF assms])
  have "bn_abs a < 2 ^ BN_num_bits a" using b by (simp add: is_num_bits_def)
  also have "\<dots> \<le> 2 ^ (8 * BN_num_bytes a)" by (intro power_increasing) (simp_all add: BN_num_bytes_def)
  also have "\<dots> = 256 ^ BN_num_bytes a" by (simp add: power_mult)
  finally show "bn_abs a < 256 ^ BN_num_bytes a" .
  have "BN_num_bits a \<le> 64 * bn_top a"
  proof (cases "BN_num_bits a = 0")
    case False
    then have "2 ^ (BN_num_bits a - 1) \<le> bn_abs a" using b by (simp add: is_num_bits_def)
    then have "(2 :: nat) ^ (BN_num_bits a - 1) < 2 ^ (64 * bn_top a)"
      using bn_abs_bounds(1) [OF assms] by (rule le_less_trans)
    then have "BN_num_bits a - 1 < 64 * bn_top a" by (rule power_less_imp_less_exp [rotated]) simp
    then show ?thesis by simp
  qed simp
  then show "BN_num_bytes a \<le> 8 * bn_top a" by (simp add: BN_num_bytes_def)
qed

lemma BN_bn2bin_val:
  assumes "bn_ok a"
  shows "BN_bn2bin a = be_bytes (BN_num_bytes a) (bn_abs a)"
proof -
  have len: "bn_top a \<le> length (bn_d a)" using assms by (simp add: bn_ok_def)
  have "i div 8 < bn_top a" if "i < BN_num_bytes a" for i
    using that BN_num_bytes_bound(2) [OF assms] by (simp add: less_mult_imp_div_less mult.commute)
  then show ?thesis
    unfolding BN_bn2bin_def be_bytes_map ucast_byte using bn_byte [OF len] by simp
qed

text \<open>
  C34: The binary form.  BN_bn2bin writes the magnitude of a number in exactly BN_num_bytes bytes, most
  significant first and none of them superfluous, the number 0 as no bytes at all.  BN_bin2bn, into a given number
  or a new one, reads back from any bytes, leading zeros included, the number they stand for, not
  negative; from no bytes it sets the magnitude of the given number to 0 and leaves its sign.
\<close>
theorem bn_bin_roundtrip:
  assumes "bn_ok a" "(case ret of None \<Rightarrow> BN_new ok | Some r \<Rightarrow> Some r) = Some r"
    and "bn_top r \<le> length (bn_d r)" "bn_room M r ((length bs - 1) div 8 + 1)" "length bs < 4294967296"
  shows "length (BN_bn2bin a) = BN_num_bytes a \<and> be_nat (BN_bn2bin a) = bn_abs a
    \<and> (BN_bn2bin a = [] \<longleftrightarrow> bn_abs a = 0) \<and> (BN_bn2bin a = [] \<or> hd (BN_bn2bin a) \<noteq> 0)
    \<and> (\<exists>r'. BN_bin2bn ok M bs ret = Some (Some r') \<and> bn_ok r' \<and> bn_abs r' = be_nat bs
        \<and> be_nat (BN_bn2bin r') = be_nat bs
        \<and> (if bs = [] then r' = r\<lparr>bn_top := 0\<rparr> else bn_wf r' \<and> bn_int r' = int (be_nat bs)))"
proof -
  have w: "be_nat (BN_bn2bin a) = bn_abs a" if "bn_ok a" for a
    unfolding BN_bn2bin_val [OF that] by (rule be_nat_be_bytes_small [OF BN_num_bytes_bound(1) [OF that]])
  have l: "length (BN_bn2bin a) = BN_num_bytes a" by (simp add: BN_bn2bin_val [OF assms(1)])
  have hd: "hd (BN_bn2bin a) \<noteq> 0" if ne: "BN_bn2bin a \<noteq> []"
  proof -
    have pos: "0 < BN_num_bits a" using ne l by (auto simp: BN_num_bytes_def intro: Suc_leI gr0I)
    then have "2 ^ (BN_num_bits a - 1) \<le> bn_abs a"
      using BN_num_bits_val [OF assms(1)] by (simp add: is_num_bits_def)
    moreover have "8 * (BN_num_bytes a - 1) \<le> BN_num_bits a - 1" using pos by (simp add: BN_num_bytes_def)
    then have "(2 :: nat) ^ (8 * (BN_num_bytes a - 1)) \<le> 2 ^ (BN_num_bits a - 1)" by (intro power_increasing) simp_all
    ultimately have "256 ^ (BN_num_bytes a - 1) \<le> bn_abs a" by (simp add: power_mult)
    then show ?thesis using be_nat_ge_iff_hd [OF ne] w [OF assms(1)] l by simp
  qed
  have z: "BN_bn2bin a = [] \<longleftrightarrow> bn_abs a = 0"
  proof
    assume "bn_abs a = 0"
    then have "\<not> 256 ^ (length (BN_bn2bin a) - 1) \<le> be_nat (BN_bn2bin a)" using w [OF assms(1)] by simp
    then show "BN_bn2bin a = []" using be_nat_ge_iff_hd [of "BN_bn2bin a"] hd by blast
  qed (use w [OF assms(1)] in simp)
  have "\<exists>r'. BN_bin2bn ok M bs ret = Some (Some r') \<and> bn_ok r' \<and> bn_abs r' = be_nat bs
        \<and> (if bs = [] then r' = r\<lparr>bn_top := 0\<rparr> else bn_wf r' \<and> bn_int r' = int (be_nat bs))"
  proof (cases "bs = []")
    case True
    then show ?thesis using assms(2) by (auto simp: BN_bin2bn_def BN_bin2bn_into_def bn_ok_def bn_abs_def bn_words_def)
  next
    case False
    obtain r' where "BN_bin2bn_into M bs r = Some (r', None)" "bn_ok r'" "bn_abs r' = be_nat bs" "\<not> bn_neg r'"
      using BN_bin2bn_into_val [OF assms(3,4) False assms(5)] by blast
    then show ?thesis using assms(2) False by (auto simp: BN_bin2bn_def bn_wf_def bn_int_def)
  qed
  then show ?thesis using l w hd z assms(1) by metis
qed

theorem bn_bin_roundtrip_witness:
  "\<exists>r'. BN_bin2bn True (\<lambda>n. Some (\<lambda>_. 7)) [0, 1, 2] None = Some (Some r') \<and> bn_int r' = 258"
proof -
  let ?M = "\<lambda>n :: nat. Some (\<lambda>_ :: nat. 7 :: u64)" and ?r = "BN_init\<lparr>bn_flags := BN_FLG_MALLOCED\<rparr>"
  have "bn_ok BN_value_one" "(case None of None \<Rightarrow> BN_new True | Some r \<Rightarrow> Some r) = Some ?r"
    "bn_top ?r \<le> length (bn_d ?r)" "bn_room ?M ?r ((length [0, 1, 2 :: u8] - 1) div 8 + 1)"
    by (simp_all add: bn_ok_def BN_value_one_def BN_new_def BN_init_def bn_room_def bn_wexpand_def
        BN_FLG_MALLOCED_def BN_FLG_STATIC_DATA_def)
  from bn_bin_roundtrip [OF this] show ?thesis by auto
qed

section \<open>The writer without branches\<close>

lemma constant_time_select:
  "constant_time_select_ulong 1 x y = x" "constant_time_select_ulong 0 x y = y"
  by (simp_all add: constant_time_select_ulong_def)

lemma constant_time_le:
  assumes "unat x < 2 ^ 63" "unat y < 2 ^ 63"
  shows "constant_time_le_size_t x y = (if x \<le> y then 1 else 0)"
proof -
  have u: "unat (x - y - 1) = (if x \<le> y then 2 ^ 64 + unat x - unat y - 1 else unat x - unat y - 1)"
    using minus_borrow64 [of x y] minus_borrow64 [of "x - y" 1] assms
    by (auto simp: word_le_nat_alt word_less_nat_alt split: if_splits)
  have "unat (drop_bit 63 (x - y - 1)) = (if x \<le> y then 1 else 0)"
    unfolding unat_drop_bit64 u using assms by (auto simp: word_le_nat_alt intro!: div_nat_eqI)
  then have "drop_bit 63 (x - y - 1) = (if x \<le> y then 1 else 0)"
    by (auto simp: word_unat_eq_iff split: if_splits)
  then show ?thesis by (simp add: constant_time_le_size_t_def)
qed

lemma unat_of_small: "n < 2 ^ 63 \<Longrightarrow> unat (word_of_nat n :: u64) = n"
  by (simp add: unat_of_nat take_bit_nat_eq_self)

lemma read_word_padded_val:
  assumes "bn_ok a" "0 < bn_top a" "length (bn_d a) < 2 ^ 63" "i < 2 ^ 63"
  shows "read_word_padded a (word_of_nat i) = (if i < bn_top a then bn_d a ! i else 0)"
proof -
  have top: "bn_top a \<le> length (bn_d a)" "bn_top a < 2 ^ 63" using assms(1,3) by (simp_all add: bn_ok_def)
  have le: "constant_time_le_size_t (word_of_nat m) (word_of_nat i) = (if m \<le> i then 1 else 0)" if "m < 2 ^ 63" for m
    using constant_time_le [of "word_of_nat m" "word_of_nat i"] that assms(4)
    by (simp add: unat_of_small word_le_nat_alt)
  show ?thesis
    unfolding read_word_padded_def Let_def le [OF assms(3)] le [OF top(2)]
    using top assms(4) by (simp add: constant_time_select unat_of_small)
qed

lemma padded_byte:
  assumes "bn_ok a"
  shows "(word_of_nat (unat (drop_bit (8 * (i mod 8)) (if i div 8 < bn_top a then bn_d a ! (i div 8) else 0)) mod 256) :: u8)
    = word_of_nat (bn_abs a div 256 ^ i mod 256)"
proof (cases "i div 8 < bn_top a")
  case True
  have "bn_top a \<le> length (bn_d a)" using assms by (simp add: bn_ok_def)
  from bn_byte [OF this True] show ?thesis using True by simp
next
  case False
  have "bn_abs a < 2 ^ (64 * bn_top a)" by (rule bn_abs_bounds(1) [OF assms])
  also have "\<dots> \<le> 2 ^ (64 * (i div 8))" using False by (intro power_increasing) simp_all
  also have "\<dots> \<le> 2 ^ (8 * i)"
  proof (rule power_increasing)
    have "8 * (i div 8) \<le> i" by simp
    then show "64 * (i div 8) \<le> 8 * i" by linarith
  qed simp
  finally have "bn_abs a div 256 ^ i = 0" by (simp add: power_mult)
  then show ?thesis using False by simp
qed

text \<open>The two tests ask whether the number fits.\<close>

lemma padded_fits:
  assumes "bn_ok a" "0 < bn_top a"
  shows "bn_abs a < 256 ^ len \<longleftrightarrow> bn_top a \<le> (len + 7) div 8
    \<and> (len mod 8 \<noteq> 0 \<longrightarrow> drop_bit (8 * (len mod 8)) (if len div 8 < bn_top a then bn_d a ! (len div 8) else 0) = 0)"
proof -
  define q m where "q = len div 8" and "m = len mod 8"
  have len: "len = 8 * q + m" and m: "m < 8" by (simp_all add: q_def m_def)
  have top: "bn_top a \<le> length (bn_d a)" using assms(1) by (simp add: bn_ok_def)
  have p: "256 ^ len = 2 ^ (64 * q) * (2 ^ (8 * m) :: nat)"
  proof -
    have "(256 :: nat) ^ len = (2 ^ 8) ^ len" by simp
    also have "\<dots> = 2 ^ (8 * len)" by (simp only: power_mult)
    also have "8 * len = 64 * q + 8 * m" using len by simp
    finally show ?thesis by (simp only: power_add)
  qed
  have up: "(len + 7) div 8 = (if m = 0 then q else q + 1)" unfolding len using m by auto
  have le: "bn_top a \<le> k" if "bn_abs a < 2 ^ (64 * k)" for k
  proof (rule ccontr)
    assume "\<not> bn_top a \<le> k"
    then have "(2 :: nat) ^ (64 * k) \<le> 2 ^ (64 * (bn_top a - 1))" by (intro power_increasing) simp_all
    also have "\<dots> \<le> bn_abs a" by (rule bn_abs_bounds(2) [OF assms])
    finally show False using that by simp
  qed
  have less: "bn_abs a < 2 ^ (64 * k)" if "bn_top a \<le> k" for k
  proof -
    have "(2 :: nat) ^ (64 * bn_top a) \<le> 2 ^ (64 * k)" using that by (intro power_increasing) simp_all
    then show ?thesis by (rule less_le_trans [OF bn_abs_bounds(1) [OF assms(1)]])
  qed
  have "bn_abs a < 256 ^ len \<longleftrightarrow> bn_top a \<le> (if m = 0 then q else q + 1)
    \<and> (m \<noteq> 0 \<longrightarrow> drop_bit (8 * m) (if q < bn_top a then bn_d a ! q else 0) = 0)"
  proof (cases "m = 0")
    case True
    then show ?thesis using p le [of q] less [of q] by auto
  next
    case False
    show ?thesis
    proof (cases "bn_top a \<le> q")
      case True
      then show ?thesis using less [of q] False p by (auto intro: less_le_trans)
    next
      case q: False
      show ?thesis
      proof (cases "bn_top a = q + 1")
        case True
        let ?w = "bn_d a ! q"
        have "bn_abs a = bn_val (take q (bn_d a)) + 2 ^ (64 * q) * unat ?w"
          using True top by (simp add: bn_abs_def bn_words_def take_Suc_conv_app_nth bn_val_append)
        moreover have "bn_val (take q (bn_d a)) < 2 ^ (64 * q)"
          using bn_val_bound [of "take q (bn_d a)"] True top by (simp add: min_absorb2)
        ultimately have "bn_abs a div 2 ^ (64 * q) = unat ?w" by simp
        then have "bn_abs a < 256 ^ len \<longleftrightarrow> unat ?w < 2 ^ (8 * m)"
          unfolding p using div_less_iff_less_mult [of "2 ^ (64 * q)" "bn_abs a" "2 ^ (8 * m)"] by (simp add: mult.commute)
        also have "\<dots> \<longleftrightarrow> drop_bit (8 * m) ?w = 0"
          by (simp only: word_unat_eq_iff unat_drop_bit64 unsigned_0 div_eq_0_iff) simp
        finally show ?thesis using True False by simp
      next
        case False
        then have "\<not> bn_top a \<le> q + 1" using q by simp
        moreover have "256 ^ len \<le> (2 :: nat) ^ (64 * (q + 1))"
        proof -
          have "8 * m \<le> 64" using m by simp
          then have "(2 :: nat) ^ (8 * m) \<le> 2 ^ 64" by (intro power_increasing) simp_all
          then have "2 ^ (64 * q) * 2 ^ (8 * m) \<le> 2 ^ (64 * q) * (2 :: nat) ^ 64" by (rule mult_le_mono2)
          then show ?thesis unfolding p by (simp add: power_add)
        qed
        ultimately show ?thesis using le [of "q + 1"] \<open>m \<noteq> 0\<close> by (auto dest: less_le_trans)
      qed
    qed
  qed
  then show ?thesis unfolding q_def [symmetric] m_def [symmetric] up .
qed

text \<open>
  C33: BN_bn2bin_padded, whose reads and masks never branch on the number, writes the magnitude in
  exactly len bytes, most significant first and padded with zeros, whatever the words above the
  number hold; and it returns 0 exactly when the number does not fit.
\<close>
theorem BN_bn2bin_padded_correct:
  assumes "bn_ok a" "length (bn_d a) < 2 ^ 63" "len < 2 ^ 63"
  shows "BN_bn2bin_padded len a = (if bn_abs a < 256 ^ len then Some (be_bytes len (bn_abs a)) else None)"
proof (cases "bn_top a = 0")
  case True
  have "be_bytes len 0 = replicate len 0"
    by (induction len) (simp_all add: replicate_append_same)
  then show ?thesis using True by (simp add: BN_bn2bin_padded_def BN_is_zero_def bn_abs_def bn_words_def)
next
  case False
  then have pos: "0 < bn_top a" by simp
  have r: "read_word_padded a (word_of_nat i) = (if i < bn_top a then bn_d a ! i else 0)" if "i < 2 ^ 63" for i
    by (rule read_word_padded_val [OF assms(1) pos assms(2) that])
  have l: "len div 8 < 2 ^ 63" using assms(3) by (rule le_less_trans [OF div_le_dividend])
  have bytes: "map (\<lambda>i. ucast (drop_bit (8 * (i mod 8)) (read_word_padded a (word_of_nat (i div 8)))) AND 0xff) (rev [0 ..< len])
      = be_bytes len (bn_abs a)"
    unfolding be_bytes_map
  proof (rule map_cong [OF refl])
    fix i assume "i \<in> set (rev [0 ..< len])"
    then have "i div 8 < 2 ^ 63" using assms(3) by (intro le_less_trans [OF div_le_dividend]) simp
    then show "ucast (drop_bit (8 * (i mod 8)) (read_word_padded a (word_of_nat (i div 8)))) AND 0xff
        = (word_of_nat (bn_abs a div 256 ^ i mod 256) :: u8)"
      unfolding ucast_byte r [OF \<open>i div 8 < 2 ^ 63\<close>] by (intro padded_byte [OF assms(1)])
  qed
  show ?thesis
    unfolding BN_bn2bin_padded_def bytes r [OF l] padded_fits [OF assms(1) pos] using False
    by (auto simp: BN_is_zero_def not_le)
qed

theorem BN_bn2bin_padded_correct_witness:
  "BN_bn2bin_padded 3 \<lparr>bn_d = [0x1234, 7, 7], bn_top = 1, bn_neg = False, bn_flags = 0\<rparr> = Some (be_bytes 3 0x1234)"
  using BN_bn2bin_padded_correct [where a = "\<lparr>bn_d = [0x1234, 7, 7], bn_top = 1, bn_neg = False, bn_flags = 0\<rparr>" and len = 3]
  by (simp add: bn_ok_def bn_abs_def bn_words_def)

section \<open>Reading and writing hexadecimal\<close>

lemma hex_digit_hextable: "n < 16 \<Longrightarrow> isxdigit (hextable ! n) \<and> hex_digit (hextable ! n) = word_of_nat n"
proof -
  assume "n < 16"
  then have "n = 0 \<or> n = 1 \<or> n = 2 \<or> n = 3 \<or> n = 4 \<or> n = 5 \<or> n = 6 \<or> n = 7 \<or> n = 8 \<or> n = 9
    \<or> n = 10 \<or> n = 11 \<or> n = 12 \<or> n = 13 \<or> n = 14 \<or> n = 15" by presburger
  then show ?thesis
    by (elim disjE) (simp_all add: hextable_def hex_digit_def isxdigit_def isdigit_def word_le_nat_alt)
qed

lemma hex_digit_less: "unat (hex_digit c) < 16"
proof -
  have u: "unat (ucast c :: u64) = unat c" for c :: u8
  proof -
    have "unat c < 2 ^ 64" by (rule less_trans [OF unat_u8_less]) simp
    then show ?thesis by (simp add: unsigned_ucast_eq take_bit_nat_eq_self)
  qed
  have s: "unat (ucast c - k :: u64) = unat c - unat k" if "unat k \<le> unat c" for c :: u8 and k
    using that u [of c] by (simp add: unat_sub word_le_nat_alt)
  have a: "unat (x + 10 :: u64) = unat x + 10" if "unat x < 6" for x :: u64
    using that by (simp add: unat_word_ariths)
  show ?thesis
    using s [of 48 c] s [of 97 c] s [of 65 c] a [of "ucast c - 97"] a [of "ucast c - 65"]
    by (auto simp: hex_digit_def word_le_nat_alt)
qed

text \<open>The value of a string of digits.\<close>

definition hex_nat :: "bytes \<Rightarrow> nat" where
  "hex_nat cs = foldl (\<lambda>a c. a * 16 + unat (hex_digit c)) 0 cs"

lemma hex_foldl: "foldl (\<lambda>a c. a * 16 + unat (hex_digit c)) x cs = x * 16 ^ length cs + hex_nat cs"
proof (induction cs rule: rev_induct)
  case (snoc c cs)
  then show ?case by (simp add: hex_nat_def algebra_simps)
qed (simp add: hex_nat_def)

lemma hex_nat_append: "hex_nat (xs @ ys) = hex_nat xs * 16 ^ length ys + hex_nat ys"
  unfolding hex_nat_def [of "xs @ ys"] foldl_append hex_foldl [of _ ys] by (simp add: hex_nat_def)

lemma hex_nat_bound: "hex_nat cs < 16 ^ length cs"
proof (induction cs rule: rev_induct)
  case (snoc c cs)
  have "hex_nat (cs @ [c]) = hex_nat cs * 16 + unat (hex_digit c)"
    by (simp add: hex_nat_append) (simp add: hex_nat_def)
  moreover have "(hex_nat cs + 1) * 16 \<le> 16 ^ length cs * 16" using snoc by (intro mult_le_mono1) simp
  ultimately show ?case using hex_digit_less [of c] by simp
qed (simp add: hex_nat_def)

lemma hex_word_val: "length cs \<le> 16 \<Longrightarrow> unat (hex_word cs) = hex_nat cs"
proof (induction cs rule: rev_induct)
  case (snoc c cs)
  have IH: "unat (hex_word cs) = hex_nat cs" using snoc by simp
  have "hex_nat cs < 16 ^ length cs" by (rule hex_nat_bound)
  also have "\<dots> \<le> 16 ^ 15" using snoc.prems by (intro power_increasing) simp_all
  finally have small: "hex_nat cs < 2 ^ 60" by simp
  have "unat (push_bit 4 (hex_word cs) OR hex_digit c) = unat (hex_word cs) mod 2 ^ (64 - 4) * 2 ^ 4 + unat (hex_digit c)"
    using hex_digit_less [of c] by (intro join64) simp_all
  then have "unat (hex_word (cs @ [c])) = hex_nat cs * 16 + unat (hex_digit c)"
    using IH small by (simp add: hex_word_def)
  then show ?case by (simp add: hex_nat_append) (simp add: hex_nat_def)
qed (simp add: hex_word_def hex_nat_def)

lemma hex_words_val: "bn_val (hex_words cs) = hex_nat cs \<and> length (hex_words cs) = (length cs + 15) div 16"
proof (induction cs rule: hex_words.induct)
  case (1 cs)
  show ?case
  proof (cases "cs = []")
    case False
    let ?k = "length cs - 16"
    have IH: "bn_val (hex_words (take ?k cs)) = hex_nat (take ?k cs)"
      "length (hex_words (take ?k cs)) = (?k + 15) div 16"
      using 1 [OF False refl] by (simp_all add: min_absorb2)
    have w: "hex_words cs = hex_word (drop ?k cs) # hex_words (take ?k cs)"
      using False by (subst hex_words.simps) (simp add: Let_def)
    have d: "unat (hex_word (drop ?k cs)) = hex_nat (drop ?k cs)" by (rule hex_word_val) simp
    have "hex_nat cs = hex_nat (take ?k cs @ drop ?k cs)" by simp
    also have "\<dots> = hex_nat (take ?k cs) * 16 ^ length (drop ?k cs) + hex_nat (drop ?k cs)" by (rule hex_nat_append)
    also have "\<dots> = 2 ^ 64 * hex_nat (take ?k cs) + hex_nat (drop ?k cs)"
    proof (cases "16 \<le> length cs")
      case True
      then show ?thesis by simp
    next
      case False
      then have "hex_nat (take ?k cs) = 0" by (simp add: hex_nat_def)
      then show ?thesis by simp
    qed
    finally have "bn_val (hex_words cs) = hex_nat cs" unfolding w using IH(1) d by simp
    moreover have "length (hex_words cs) = (length cs + 15) div 16"
    proof -
      have "0 < length cs" using False by simp
      then have "1 + (length cs - 16 + 15) div 16 = (length cs + 15) div 16"
        by (cases "16 \<le> length cs") (simp_all add: div_if)
      then show ?thesis unfolding w using IH(2) by simp
    qed
    ultimately show ?thesis by blast
  qed (simp add: hex_words.simps hex_nat_def)
qed

lemma hex_out_val:
  "hex_nat (hex_out z vs) = be_nat vs \<and> (\<forall>c \<in> set (hex_out z vs). isxdigit c) \<and> length (hex_out z vs) \<le> 2 * length vs"
proof (induction vs arbitrary: z)
  case (Cons v vs)
  show ?case
  proof (cases "z \<or> v \<noteq> 0")
    case True
    have hi: "unat (drop_bit 4 v) = unat v div 16" "unat v div 16 < 16"
      using unat_u8_less [of v] by (simp_all only: unat_drop_bit_eq) (simp_all add: drop_bit_eq_div less_mult_imp_div_less)
    have lo: "unat (v AND 0x0f) = unat v mod 16"
      using and_mask_unat [of v 4] by (simp add: mask_eq_exp_minus_1)
    have d: "isxdigit (hextable ! n)" "unat (hex_digit (hextable ! n)) = n" if "n < 16" for n
      using hex_digit_hextable [OF that] that by (auto simp: unat_of_nat take_bit_nat_eq_self)
    have "hex_nat ([hextable ! (unat v div 16), hextable ! (unat v mod 16)]) = unat v"
      using d [OF hi(2)] d [of "unat v mod 16"] by (simp add: hex_nat_def)
    moreover have "hex_out z (v # vs) = [hextable ! (unat v div 16), hextable ! (unat v mod 16)] @ hex_out True vs"
      using True hi lo by simp
    ultimately have "hex_nat (hex_out z (v # vs)) = unat v * 16 ^ length (hex_out True vs) + be_nat vs"
      using Cons [of True] by (simp only: hex_nat_append)
    moreover have "length (hex_out True xs) = 2 * length xs" for xs :: bytes by (induction xs) simp_all
    ultimately have "hex_nat (hex_out z (v # vs)) = be_nat (v # vs)"
      using be_nat_acc_eq [of "unat v" vs] by (simp add: power_mult)
    then show ?thesis using Cons [of True] True d [OF hi(2)] d [of "unat v mod 16"] hi lo by simp
  next
    case False
    then show ?thesis using Cons [of z] by auto
  qed
qed (simp add: hex_nat_def)

lemma word_bytes_be: "word_bytes w = be_bytes 8 (unat w)"
  unfolding word_bytes_def be_bytes_map ucast_byte unat_drop_bit64
  by (simp add: upt_conv_Cons)

lemma length_word_bytes: "length (word_bytes w) = 8"
  by (simp add: word_bytes_def)

lemma be_nat_words: "be_nat (concat (map word_bytes (rev ws))) = bn_val ws
  \<and> length (concat (map word_bytes (rev ws))) = 8 * length ws"
proof (induction ws)
  case (Cons w ws)
  have "unat w < 256 ^ 8" using unat64 [of w] by simp
  then have "be_nat (word_bytes w) = unat w" unfolding word_bytes_be by (rule be_nat_be_bytes_small)
  then have "be_nat (concat (map word_bytes (rev (w # ws)))) = bn_val ws * 256 ^ 8 + unat w"
    using Cons be_nat_acc_eq [of "bn_val ws" "word_bytes w"] by (simp add: be_nat_acc_append length_word_bytes)
  then show ?case using Cons by (simp add: length_word_bytes)
qed simp

lemma BN_bn2hex_val:
  assumes "bn_wf a"
  shows "\<exists>ds. BN_bn2hex True a = Some (16 * bn_top a + 2, (if bn_neg a then [45] else []) @ ds @ [0])
    \<and> ds \<noteq> [] \<and> (\<forall>c \<in> set ds. isxdigit c) \<and> hex_nat ds = bn_abs a
    \<and> length ds \<le> max 1 (16 * bn_top a)"
proof (cases "bn_top a = 0")
  case True
  then show ?thesis
    using assms by (intro exI [of _ "[48]"])
      (simp add: BN_bn2hex_def BN_is_zero_def bn_wf_def isxdigit_def isdigit_def hex_nat_def hex_digit_def bn_abs_def bn_words_def)
next
  case False
  let ?bs = "concat (map word_bytes (rev (take (bn_top a) (bn_d a))))"
  have ok: "bn_ok a" using assms by (simp add: bn_wf_def)
  then have l: "length (take (bn_top a) (bn_d a)) = bn_top a" by (simp add: bn_ok_def)
  have v: "hex_nat (hex_out False ?bs) = bn_abs a" "\<forall>c \<in> set (hex_out False ?bs). isxdigit c"
    "length (hex_out False ?bs) \<le> 16 * bn_top a"
    using hex_out_val [of False ?bs] be_nat_words [of "take (bn_top a) (bn_d a)"] l
    by (simp_all add: bn_abs_def bn_words_def)
  have "0 < bn_abs a" using bn_abs_zero [OF ok] False by simp
  then have "hex_out False ?bs \<noteq> []" using v(1) by (auto simp: hex_nat_def)
  then show ?thesis
    using v False by (intro exI [of _ "hex_out False ?bs"]) (simp add: BN_bn2hex_def BN_is_zero_def)
qed

lemma bn_room_top [simp]: "bn_room M (r\<lparr>bn_top := t\<rparr>) n = bn_room M r n"
  by (auto simp: bn_room_def bn_wexpand_def split: option.splits)

lemma hex_word_count: "(k * 4 + 64 - 1) div 64 = (k + 15) div 16" for k :: nat
proof -
  have "(k * 4 + 63) div (4 * 16) = (k * 4 + 63) div 4 div 16" by (rule div_mult2_eq)
  moreover have "(k * 4 + 63) div 4 = k + 15" by simp
  ultimately show ?thesis by simp
qed

lemma BN_hex2bn_val:
  assumes "ds \<noteq> []" "\<forall>c \<in> set ds. isxdigit c" "bn_room M r ((length ds + 15) div 16)"
  shows "\<exists>r'. BN_hex2bn M r ((if neg then [45] else []) @ ds) = Some (length ds + of_bool neg, r')
    \<and> bn_ok r' \<and> bn_abs r' = hex_nat ds \<and> bn_neg r' = neg"
proof -
  let ?in = "(if neg then [45] else []) @ ds" and ?z = "BN_zero r\<lparr>bn_neg := neg\<rparr>"
  have hd: "hd ds \<noteq> 45" using assms(1,2) by (cases ds) (auto simp: isxdigit_def isdigit_def word_le_nat_alt)
  then have neg: "(hd ?in = 45) = neg" "(if neg then tl ?in else ?in) = ds" "(?in = []) = False" using assms(1) by auto
  have tw: "takeWhile isxdigit ds = ds" using assms(2) by (simp add: takeWhile_eq_all_conv)
  have w: "(length ds * 4 + 64 - 1) div 64 = (length ds + 15) div 16"
    by (rule hex_word_count)
  have "bn_room M ?z ((length ds + 15) div 16)" using assms(3) by (simp add: BN_zero_def)
  moreover have "bn_top ?z \<le> length (bn_d ?z)" by (simp add: BN_zero_def)
  ultimately obtain r1 where r1: "bn_wexpand M ?z ((length ds + 15) div 16) = (r1, None)"
    "(length ds + 15) div 16 \<le> length (bn_d r1)" "bn_neg r1 = bn_neg ?z"
    using bn_roomE by metis
  then have r1n: "bn_neg r1 = neg" by simp
  let ?r = "decode_hex r1 ds"
  have h: "bn_val (hex_words ds) = hex_nat ds" "length (hex_words ds) = (length ds + 15) div 16"
    using hex_words_val [of ds] by blast+
  have top: "bn_top ?r \<le> length (bn_d ?r)" using r1(2) h(2) by (simp add: decode_hex_def Let_def)
  have abs: "bn_abs ?r = hex_nat ds" using h(1) by (simp add: decode_hex_def Let_def bn_abs_def bn_words_def)
  have "BN_hex2bn M r ?in = Some (length ds + of_bool neg, bn_correct_top ?r)"
    by (simp only: BN_hex2bn_def bn_x2bn_def Let_def bn_radix.case neg tw bn_expand_def w r1(1) prod.case option.case
        if_False take_all le_refl)
  moreover have "bn_neg ?r = neg" using r1n by (simp add: decode_hex_def Let_def)
  ultimately show ?thesis using bn_correct_top_ok [OF top] abs by simp
qed

text \<open>
  The hexadecimal form: for every canonical number BN_bn2hex stays inside the buffer it allocates
  and writes a string that BN_hex2bn reads back, whole, to the same integer.
\<close>
theorem bn_hex_roundtrip:
  assumes "bn_wf a" "\<And>n. n \<le> max 1 (bn_top a) \<Longrightarrow> bn_room M r n"
  shows "\<exists>size cs r'. BN_bn2hex True a = Some (size, cs @ [0]) \<and> length cs + 1 \<le> size
    \<and> BN_hex2bn M r cs = Some (length cs, r') \<and> bn_wf r' \<and> bn_int r' = bn_int a"
proof -
  obtain ds where ds: "BN_bn2hex True a = Some (16 * bn_top a + 2, (if bn_neg a then [45] else []) @ ds @ [0])"
    "ds \<noteq> []" "\<forall>c \<in> set ds. isxdigit c" "hex_nat ds = bn_abs a" "length ds \<le> max 1 (16 * bn_top a)"
    using BN_bn2hex_val [OF assms(1)] by blast
  have "(length ds + 15) div 16 \<le> max 1 (bn_top a)" using ds(5) by (cases "bn_top a") auto
  then obtain r' where r': "BN_hex2bn M r ((if bn_neg a then [45] else []) @ ds) = Some (length ds + of_bool (bn_neg a), r')"
    "bn_ok r'" "bn_abs r' = bn_abs a" "bn_neg r' = bn_neg a"
    using BN_hex2bn_val [OF ds(2,3) assms(2), of "bn_neg a"] ds(4) by auto
  have "bn_wf r'" using r' bn_wf_pos [OF assms(1)] by (intro bn_wfI) auto
  moreover have "bn_int r' = bn_int a" using r' by (simp add: bn_int_def)
  moreover have "bn_neg a \<Longrightarrow> bn_top a \<noteq> 0" using assms(1) by (simp add: bn_wf_def)
  then have "length ((if bn_neg a then [45] else []) @ ds) + 1 \<le> 16 * bn_top a + 2" using ds(5) by auto
  ultimately show ?thesis using ds(1) r'(1) by (intro exI [of _ "16 * bn_top a + 2"]
        exI [of _ "(if bn_neg a then [45] else []) @ ds"] exI [of _ r']) auto
qed

theorem bn_hex_roundtrip_witness:
  "\<exists>size cs r'. BN_bn2hex True BN_value_one = Some (size, cs @ [0]) \<and> length cs + 1 \<le> size
    \<and> BN_hex2bn (\<lambda>n. Some (\<lambda>_. 7)) BN_init cs = Some (length cs, r') \<and> bn_wf r' \<and> bn_int r' = 1"
  using bn_hex_roundtrip [where a = BN_value_one and r = BN_init and M = "\<lambda>n. Some (\<lambda>_. 7)"]
  by (simp add: bn_wf_def bn_ok_def BN_value_one_def BN_init_def bn_room_def bn_wexpand_def bn_int_def bn_abs_def bn_words_def)

text \<open>
  A zero with a sign takes one byte more than there is. \<^verbatim>\<open>BN_hex2bn\<close> makes one of the string -0.
\<close>

lemma bn2hex_negative_zero:
  assumes "bn_top a = 0" "bn_neg a"
  shows "BN_bn2hex True a = Some (2, [45, 48, 0])"
  using assms by (simp add: BN_bn2hex_def BN_is_zero_def)

lemma hex2bn_negative_zero:
  "map_option (\<lambda>(n, r). (n, bn_top r, bn_neg r)) (BN_hex2bn (\<lambda>n. Some (\<lambda>_. 7)) BN_init [45, 48]) = Some (2, 0, True)"
proof -
  obtain r where "BN_hex2bn (\<lambda>n. Some (\<lambda>_. 7)) BN_init ((if True then [45] else []) @ [48]) = Some (length [48 :: u8] + of_bool True, r)"
    "bn_ok r" "bn_abs r = hex_nat [48]" "bn_neg r = True"
    using BN_hex2bn_val [of "[48]" "\<lambda>n. Some (\<lambda>_. 7)" BN_init True]
    by (auto simp: isxdigit_def isdigit_def bn_room_def bn_wexpand_def BN_init_def)
  moreover have "hex_nat [48] = 0" by (simp add: hex_nat_def hex_digit_def)
  ultimately show ?thesis using bn_abs_zero [of r] by simp
qed

section \<open>Reading decimal\<close>

lemma BN_mul_word_val:
  assumes "bn_ok a" "w \<noteq> 0" "bn_abs a * unat w < 2 ^ (64 * length (bn_d a))"
  shows "\<exists>r. BN_mul_word M a w = (r, None) \<and> bn_ok r \<and> bn_abs r = bn_abs a * unat w \<and> bn_neg r = bn_neg a
    \<and> length (bn_d r) = length (bn_d a)"
proof (cases "bn_top a = 0")
  case True
  then show ?thesis using assms(1) by (simp add: BN_mul_word_def bn_abs_def bn_words_def)
next
  case False
  have len: "bn_top a \<le> length (bn_d a)" using assms(1) by (simp add: bn_ok_def)
  obtain ws ll where ws: "bn_mul_words (take (bn_top a) (bn_d a)) w = (ws, ll)" by fastforce
  have v: "bn_val ws + 2 ^ (64 * bn_top a) * unat ll = bn_abs a * unat w" "length ws = bn_top a"
    using bn_mul_words_val [OF ws] len by (simp_all add: bn_abs_def bn_words_def min_absorb2)
  have ge: "bn_abs a \<le> bn_abs a * unat w" using assms(2) by (cases "unat w") (auto simp: unat_eq_zero)
  let ?a = "a\<lparr>bn_d := ws @ drop (bn_top a) (bn_d a)\<rparr>"
  show ?thesis
  proof (cases "ll = 0")
    case True
    have abs: "bn_abs ?a = bn_abs a * unat w" using v True by (simp add: bn_abs_def bn_words_def)
    have "bn_ok ?a"
    proof (rule bn_okI)
      show "2 ^ (64 * (bn_top ?a - 1)) \<le> bn_abs ?a" if "0 < bn_top ?a"
        unfolding abs using bn_abs_bounds(2) [OF assms(1)] that by (intro order_trans [OF _ ge]) simp
    qed (use v len in simp)
    then show ?thesis using ws True abs False v(2) len by (simp add: BN_mul_word_def assms(2))
  next
    case ll: False
    have room: "bn_top a + 1 \<le> length (bn_d a)"
    proof (rule ccontr)
      assume "\<not> bn_top a + 1 \<le> length (bn_d a)"
      then have "length (bn_d a) = bn_top a" using len by simp
      then have lt: "bn_abs a * unat w < 2 ^ (64 * bn_top a)" using assms(3) by simp
      have "0 < unat ll" using ll by (simp add: unat_gt_0)
      then have "2 ^ (64 * bn_top a) * 1 \<le> 2 ^ (64 * bn_top a) * unat ll" by (intro mult_le_mono2) simp
      also have "\<dots> \<le> bn_abs a * unat w" unfolding v(1) [symmetric] by simp
      finally show False using lt by simp
    qed
    let ?r = "?a\<lparr>bn_d := (bn_d ?a)[bn_top a := ll], bn_top := bn_top a + 1\<rparr>"
    have "bn_wexpand M ?a (bn_top a + 1) = (?a, None)"
      using room v(2) len by (simp add: bn_wexpand_def)
    then have r: "BN_mul_word M a w = (?r, None)"
      using ws False ll by (simp add: BN_mul_word_def assms(2))
    have "bn_words ?r = ws @ [ll]"
      using v(2) room by (simp add: bn_words_def take_Suc_conv_app_nth)
    then have abs: "bn_abs ?r = bn_abs a * unat w"
      unfolding bn_abs_def using v by (simp add: bn_val_append bn_abs_def)
    have "bn_ok ?r" using v(2) room ll by (simp add: bn_ok_def)
    then show ?thesis using r abs v(2) len by simp
  qed
qed

lemma add_word_pos_fits:
  assumes "bn_ok a" "bn_top a \<noteq> 0" "bn_abs a + unat w < 2 ^ (64 * length (bn_d a))"
  shows "\<exists>r. add_word_pos M a w = (r, None) \<and> bn_ok r \<and> bn_abs r = bn_abs a + unat w \<and> bn_neg r = bn_neg a
    \<and> length (bn_d r) = length (bn_d a)"
proof -
  have len: "bn_top a \<le> length (bn_d a)" using assms(1) by (simp add: bn_ok_def)
  obtain ws c where ws: "add_word_loop (take (bn_top a) (bn_d a)) w = (ws, c)" by fastforce
  have v: "bn_val ws + 2 ^ (64 * bn_top a) * unat c = bn_abs a + unat w" "length ws = bn_top a"
    using add_word_loop_val [OF ws] len by (simp_all add: bn_abs_def bn_words_def min_absorb2)
  show ?thesis
  proof (cases "bn_top a + 1 \<le> length (bn_d a)")
    case True
    from add_word_pos_val [OF assms(1) bn_room_enough [OF True] assms(2), of M w] obtain r
      where r: "add_word_pos M a w = (r, None)" "bn_ok r" "bn_abs r = bn_abs a + unat w" "bn_neg r = bn_neg a"
      by blast
    moreover have "length (bn_d r) = length (bn_d a)"
      using r(1) ws v(2) True by (auto simp: add_word_pos_def bn_wexpand_def Let_def split: if_splits)
    ultimately show ?thesis by blast
  next
    case False
    then have full: "length (bn_d a) = bn_top a" using len by simp
    have "c = 0"
    proof (rule ccontr)
      assume "c \<noteq> 0"
      then have "0 < unat c" by (simp add: unat_gt_0)
      then have "2 ^ (64 * bn_top a) * 1 \<le> 2 ^ (64 * bn_top a) * unat c" by (intro mult_le_mono2) simp
      also have "\<dots> \<le> bn_abs a + unat w" unfolding v(1) [symmetric] by simp
      finally show False using assms(3) full by simp
    qed
    let ?a = "a\<lparr>bn_d := ws @ drop (bn_top a) (bn_d a)\<rparr>"
    have abs: "bn_abs ?a = bn_abs a + unat w" using v \<open>c = 0\<close> by (simp add: bn_abs_def bn_words_def)
    have "bn_ok ?a"
    proof (rule bn_okI)
      show "2 ^ (64 * (bn_top ?a - 1)) \<le> bn_abs ?a" if "0 < bn_top ?a"
        unfolding abs using bn_abs_bounds(2) [OF assms(1)] that by simp
    qed (use v len in simp)
    then show ?thesis using ws \<open>c = 0\<close> abs v(2) len by (simp add: add_word_pos_def)
  qed
qed

text \<open>The number so far: its magnitude, and a sign as long as it is zero.\<close>

definition dec_state :: "bool \<Rightarrow> nat \<Rightarrow> nat \<Rightarrow> bignum \<Rightarrow> bool" where
  "dec_state s n v r \<longleftrightarrow> bn_ok r \<and> bn_abs r = v \<and> bn_neg r = (s \<and> v = 0) \<and> length (bn_d r) = n"

lemma dec_state_add:
  assumes "dec_state s n v r" "v + unat w < 2 ^ (64 * n)"
  shows "\<exists>r'. BN_add_word M r w = Some (r', None) \<and> dec_state s n (v + unat w) r'"
proof -
  have r: "bn_ok r" "bn_abs r = v" "bn_neg r = (s \<and> v = 0)" "length (bn_d r) = n"
    using assms(1) by (simp_all add: dec_state_def)
  have z: "v = 0 \<longleftrightarrow> bn_top r = 0" using bn_abs_zero [OF r(1)] r(2) by simp
  show ?thesis
  proof (cases "w = 0")
    case True
    then show ?thesis using assms(1) by (simp add: BN_add_word_def)
  next
    case w: False
    show ?thesis
    proof (cases "bn_top r = 0")
      case True
      have "0 < n"
      proof (rule ccontr)
        assume "\<not> 0 < n"
        then have "unat w < 1" using assms(2) by simp
        then show False using w by (simp add: unat_eq_zero)
      qed
      then obtain d ds where d: "bn_d r = d # ds" using r(4) by (cases "bn_d r") auto
      have "0 < unat w" using w by (simp add: unat_gt_0)
      then show ?thesis
        using True w z d r(4)
        by (simp add: BN_add_word_def BN_is_zero_def BN_set_word_def bn_wexpand_def dec_state_def bn_ok_def bn_abs_def bn_words_def)
    next
      case False
      then have "\<not> bn_neg r" using r(3) z by simp
      moreover obtain r' where "add_word_pos M r w = (r', None)" "bn_ok r'" "bn_abs r' = v + unat w" "bn_neg r' = bn_neg r"
        "length (bn_d r') = n"
        using add_word_pos_fits [OF r(1) False, of w M] r assms(2) by auto
      ultimately show ?thesis
        using w False z by (simp add: BN_add_word_def BN_is_zero_def dec_state_def)
    qed
  qed
qed

lemma dec_state_mul:
  assumes "dec_state s n v r" "v * unat w < 2 ^ (64 * n)" "w \<noteq> 0"
  shows "dec_state s n (v * unat w) (fst (BN_mul_word M r w))"
proof -
  have r: "bn_ok r" "bn_abs r = v" "bn_neg r = (s \<and> v = 0)" "length (bn_d r) = n"
    using assms(1) by (simp_all add: dec_state_def)
  obtain r' where "BN_mul_word M r w = (r', None)" "bn_ok r'" "bn_abs r' = v * unat w" "bn_neg r' = bn_neg r" "length (bn_d r') = n"
    using BN_mul_word_val [OF r(1) assms(3), of M] r assms(2) by auto
  then show ?thesis using r(3) assms(3) by (simp add: dec_state_def unat_eq_zero)
qed

definition dec_digit :: "u8 \<Rightarrow> nat" where
  "dec_digit c = unat c - 48"

definition dec_acc :: "nat \<Rightarrow> bytes \<Rightarrow> nat" where
  "dec_acc = foldl (\<lambda>a c. a * 10 + dec_digit c)"

lemma dec_acc_simps [simp]: "dec_acc a [] = a" "dec_acc a (c # cs) = dec_acc (a * 10 + dec_digit c) cs"
  by (simp_all add: dec_acc_def)

lemma dec_acc_ge: "a \<le> dec_acc a cs"
proof (induction cs arbitrary: a)
  case (Cons c cs)
  have "a \<le> a * 10 + dec_digit c" by simp
  also have "\<dots> \<le> dec_acc (a * 10 + dec_digit c) cs" by (rule Cons)
  finally show ?case by simp
qed simp

lemma isdigit_val: "isdigit c \<Longrightarrow> dec_digit c < 10 \<and> scast c - 48 = (word_of_nat (dec_digit c) :: u64)"
proof -
  assume c: "isdigit c"
  then have le: "48 \<le> unat c" "unat c \<le> 57" by (simp_all add: isdigit_def word_le_nat_alt)
  then have b: "\<not> bit c 7" by (simp add: u8_bit_7)
  have "sint c = uint c"
  proof (rule bit_eqI)
    fix n
    have "n = 7" if "bit c n" "7 \<le> n" using bit_imp_le_length [OF that(1)] that(2) by simp
    then show "bit (sint c) n = bit (uint c) n"
      using b by (auto simp: bit_simps min_def not_le)
  qed
  then have "sint c = int (unat c)" by simp
  then have "(scast c :: u64) = word_of_nat (unat c)" by (simp add: scast_eq)
  then show ?thesis using le by (simp add: dec_digit_def of_nat_diff)
qed

lemma unat_of_nat64: "n < 2 ^ 64 \<Longrightarrow> unat (word_of_nat n :: u64) = n"
  by (simp add: unat_of_nat take_bit_nat_eq_self)

text \<open>
  The loop: \<open>v\<close> is in the number and \<open>l\<close> is the block being read, of which \<open>j\<close> digits count as read.
\<close>

lemma dec_loop_val:
  assumes "dec_state s n v r" "unat l < 10 ^ j" "j < 19" "(j + length cs) mod 19 = 0"
    and "\<forall>c \<in> set cs. isdigit c" "dec_acc (v * 10 ^ j + unat l) cs < 2 ^ (64 * n)"
  shows "\<exists>r'. dec_loop M r l j cs = Some r' \<and> dec_state s n (dec_acc (v * 10 ^ j + unat l) cs) r'"
  using assms
proof (induction cs arbitrary: v r l j)
  case Nil
  then have "j = 0" by simp
  then show ?case using Nil by simp
next
  case (Cons c cs)
  have c: "dec_digit c < 10" "scast c - 48 = (word_of_nat (dec_digit c) :: u64)"
    using isdigit_val [of c] Cons.prems(5) by auto
  let ?l = "l * 10 + (scast c - 48)" and ?k = "unat l * 10 + dec_digit c"
  have k: "?k < 10 ^ (j + 1)"
  proof -
    have "(unat l + 1) * 10 \<le> 10 ^ j * 10" using Cons.prems(2) by (intro mult_le_mono1) simp
    then show ?thesis using c(1) by simp
  qed
  also have "\<dots> \<le> (10 :: nat) ^ 19" using Cons.prems(3) by (intro power_increasing) simp_all
  finally have small: "?k < 2 ^ 64" by simp
  have e: "?l = word_of_nat ?k" by (simp add: c(2))
  have l: "unat ?l = ?k" unfolding e by (rule unat_of_nat64 [OF small])
  have acc: "dec_acc (v * 10 ^ j + unat l) (c # cs) = dec_acc (v * 10 ^ (j + 1) + ?k) cs"
    by (simp add: algebra_simps)
  then have bound: "dec_acc (v * 10 ^ (j + 1) + ?k) cs < 2 ^ (64 * n)" using Cons.prems(6) by simp
  then have b: "v * 10 ^ (j + 1) + ?k < 2 ^ (64 * n)" by (rule le_less_trans [OF dec_acc_ge])
  have ds: "\<forall>c \<in> set cs. isdigit c" using Cons.prems(5) by simp
  show ?case
  proof (cases "j + 1 = 19")
    case True
    have w: "unat (10000000000000000000 :: u64) = 10 ^ (j + 1)" unfolding True by simp
    have "v * unat (10000000000000000000 :: u64) < 2 ^ (64 * n)" unfolding w using b by (rule le_less_trans [OF le_add1])
    from dec_state_mul [OF Cons.prems(1) this, of M]
    have m: "dec_state s n (v * 10 ^ (j + 1)) (fst (BN_mul_word M r 10000000000000000000))" unfolding w by simp
    obtain r1 where r1: "BN_add_word M (fst (BN_mul_word M r 10000000000000000000)) ?l = Some (r1, None)"
      "dec_state s n (v * 10 ^ (j + 1) + ?k) r1"
      using dec_state_add [OF m, of ?l M] b unfolding l by blast
    have "length cs mod 19 = 0"
    proof -
      have "j + length (c # cs) = 19 + length cs" using True by simp
      then show ?thesis using Cons.prems(4) by (simp only: mod_add_self1)
    qed
    then obtain r' where "dec_loop M r1 0 0 cs = Some r'" "dec_state s n (dec_acc (v * 10 ^ (j + 1) + ?k) cs) r'"
      using Cons.IH [OF r1(2), of 0 0] ds bound by auto
    then show ?thesis unfolding acc using True r1(1) by (simp add: Let_def)
  next
    case False
    then obtain r' where "dec_loop M r ?l (j + 1) cs = Some r'"
      "dec_state s n (dec_acc (v * 10 ^ (j + 1) + ?k) cs) r'"
      using Cons.IH [OF Cons.prems(1), of ?l "j + 1"] k Cons.prems(3,4) ds bound unfolding l by auto
    then show ?thesis unfolding acc using False by (simp add: Let_def)
  qed
qed

lemma dec_acc_bound: "\<forall>c \<in> set cs. isdigit c \<Longrightarrow> dec_acc 0 cs < 10 ^ length cs"
proof (induction cs rule: rev_induct)
  case (snoc c cs)
  have "dec_digit c < 10" using isdigit_val [of c] snoc.prems by simp
  moreover have "(dec_acc 0 cs + 1) * 10 \<le> 10 ^ length cs * 10" using snoc by (intro mult_le_mono1) simp
  moreover have "dec_acc 0 (cs @ [c]) = dec_acc 0 cs * 10 + dec_digit c" by (simp add: dec_acc_def)
  ultimately show ?case by simp
qed simp

definition dec_nat :: "bytes \<Rightarrow> nat" where
  "dec_nat = dec_acc 0"

lemma BN_dec2bn_val:
  assumes "ds \<noteq> []" "\<forall>c \<in> set ds. isdigit c" "bn_room M r ((length ds + 15) div 16)"
  shows "\<exists>r'. BN_dec2bn M r ((if neg then [45] else []) @ ds) = Some (length ds + of_bool neg, r')
    \<and> bn_ok r' \<and> bn_abs r' = dec_nat ds \<and> bn_neg r' = (neg \<and> dec_nat ds = 0)"
proof -
  let ?in = "(if neg then [45] else []) @ ds" and ?z = "BN_zero r\<lparr>bn_neg := neg\<rparr>" and ?n = "(length ds + 15) div 16"
  have hd: "hd ds \<noteq> 45" using assms(1,2) by (cases ds) (auto simp: isdigit_def word_le_nat_alt)
  then have neg: "(hd ?in = 45) = neg" "(if neg then tl ?in else ?in) = ds" "(?in = []) = False" using assms(1) by auto
  have tw: "takeWhile isdigit ds = ds" using assms(2) by (simp add: takeWhile_eq_all_conv)
  have w: "(length ds * 4 + 64 - 1) div 64 = ?n" by (rule hex_word_count)
  have "bn_room M ?z ?n" using assms(3) by (simp add: BN_zero_def)
  moreover have "bn_top ?z \<le> length (bn_d ?z)" by (simp add: BN_zero_def)
  ultimately obtain r1 where r1: "bn_wexpand M ?z ?n = (r1, None)" "?n \<le> length (bn_d r1)" "bn_neg r1 = bn_neg ?z"
    "bn_words r1 = bn_words ?z" "bn_top r1 = bn_top ?z"
    using bn_roomE by metis
  have z: "dec_state neg (length (bn_d r1)) 0 r1"
    using r1 by (simp add: dec_state_def bn_ok_def bn_abs_def bn_words_def BN_zero_def)
  let ?j = "let j = 19 - length ds mod 19 in if j = 19 then 0 else j"
  have j: "?j < 19" "(?j + length ds) mod 19 = 0"
  proof -
    have e: "length ds = 19 * (length ds div 19) + length ds mod 19" by simp
    have m: "length ds mod 19 < 19" by simp
    show "?j < 19" using m by (simp add: Let_def)
    show "(?j + length ds) mod 19 = 0"
    proof (cases "length ds mod 19 = 0")
      case False
      then have "?j = 19 - length ds mod 19" by (simp add: Let_def)
      then have "?j + length ds = 19 * (length ds div 19) + 19" using e m by linarith
      then show ?thesis by simp
    qed (simp add: Let_def)
  qed
  have bound: "dec_acc (0 * 10 ^ ?j + unat (0 :: u64)) ds < 2 ^ (64 * length (bn_d r1))"
  proof -
    have "dec_acc 0 ds < 10 ^ length ds" by (rule dec_acc_bound [OF assms(2)])
    also have "(10 :: nat) ^ length ds \<le> 16 ^ length ds" by (rule power_mono) simp_all
    also have "(16 :: nat) ^ length ds = (2 ^ 4) ^ length ds" by simp
    also have "\<dots> = 2 ^ (4 * length ds)" by (simp only: power_mult)
    also have "\<dots> \<le> 2 ^ (64 * length (bn_d r1))"
    proof (rule power_increasing)
      have "length ds \<le> 16 * ?n" by linarith
      then show "4 * length ds \<le> 64 * length (bn_d r1)" using r1(2) by linarith
    qed simp
    finally show ?thesis by simp
  qed
  obtain r' where r': "dec_loop M r1 0 ?j ds = Some r'" "dec_state neg (length (bn_d r1)) (dec_nat ds) r'"
    using dec_loop_val [OF z _ j assms(2) bound] by (auto simp: dec_nat_def)
  have "decode_dec M r1 ds (length ds) = Some r'" using r'(1) by (simp add: decode_dec_def Let_def)
  then have "BN_dec2bn M r ?in = Some (length ds + of_bool neg, bn_correct_top r')"
    by (simp only: BN_dec2bn_def bn_x2bn_def Let_def bn_radix.case neg tw bn_expand_def w r1(1) prod.case option.case
        if_False option.map)
  moreover have "bn_ok r'" "bn_abs r' = dec_nat ds" "bn_neg r' = (neg \<and> dec_nat ds = 0)"
    using r'(2) by (simp_all add: dec_state_def)
  moreover have "bn_top r' \<le> length (bn_d r')" using \<open>bn_ok r'\<close> by (simp add: bn_ok_def)
  ultimately show ?thesis using bn_correct_top_ok [of r'] by simp
qed

text \<open>
  The decimal reader. A string of digits of any length, read into a number with room for four
  bits a digit, gives the integer the digits stand for and never needs more memory. After a minus
  sign BN_dec2bn gives the same, positive integer (the sign survives only on zero), and BN_asc2bn the
  negative one.
\<close>
theorem bn_dec_correct:
  assumes "ds \<noteq> []" "\<forall>c \<in> set ds. isdigit c" "bn_room M r ((length ds + 15) div 16)"
  shows "(\<exists>p. BN_dec2bn M r ds = Some (length ds, p) \<and> bn_wf p \<and> bn_int p = int (dec_nat ds))
    \<and> (\<exists>q. BN_dec2bn M r (45 # ds) = Some (length ds + 1, q) \<and> bn_int q = int (dec_nat ds)
        \<and> bn_neg q = (dec_nat ds = 0))
    \<and> (\<exists>t. BN_asc2bn M r (45 # ds) = Some (True, t) \<and> bn_int t = - int (dec_nat ds))"
proof -
  obtain p where p: "BN_dec2bn M r ds = Some (length ds, p)" "bn_ok p" "bn_abs p = dec_nat ds" "\<not> bn_neg p"
    using BN_dec2bn_val [OF assms(1-3), of False] by auto
  obtain q where q: "BN_dec2bn M r (45 # ds) = Some (length ds + 1, q)" "bn_ok q" "bn_abs q = dec_nat ds"
    "bn_neg q = (dec_nat ds = 0)"
    using BN_dec2bn_val [OF assms(1-3), of True] by auto
  obtain k where k: "length ds = Suc k" using assms(1) by (cases ds) auto
  have x: "\<not> (2 \<le> length ds \<and> ds ! 0 = 48 \<and> (ds ! 1 = 88 \<or> ds ! 1 = 120))"
  proof
    assume *: "2 \<le> length ds \<and> ds ! 0 = 48 \<and> (ds ! 1 = 88 \<or> ds ! 1 = 120)"
    then have "ds ! 1 \<in> set ds" by (intro nth_mem) simp
    then have "isdigit (ds ! 1)" using assms(2) by blast
    then show False using * by (auto simp: isdigit_def word_le_nat_alt)
  qed
  have "BN_asc2bn M r (45 # ds) = Some (True, p\<lparr>bn_neg := True\<rparr>)"
    by (simp only: BN_asc2bn_def Let_def list.sel list.distinct simp_thms if_True if_not_P [OF x] p(1)
        option.case prod.case) (simp add: k)
  then show ?thesis
    using p q by (auto simp: bn_wf_def bn_int_def)
qed

theorem bn_dec_correct_witness:
  "\<exists>q. BN_dec2bn (\<lambda>n. Some (\<lambda>_. 7)) BN_init [45, 53] = Some (2, q) \<and> bn_int q = 5"
proof -
  have "dec_nat [53] = 5" by (simp add: dec_nat_def dec_digit_def)
  then show ?thesis
    using bn_dec_correct [where ds = "[53]" and r = BN_init and M = "\<lambda>n. Some (\<lambda>_. 7)"]
    by (auto simp: isdigit_def bn_room_def bn_wexpand_def BN_init_def)
qed

end
