(* ===== verification/TlsCbc.thy ===== *)
theory TlsCbc
  imports Prelude
begin

unbundle bit_operations_syntax

text \<open>
  CBC records of SSLv3 and TLS after decryption (\<^verbatim>\<open>ssl/s3_cbc.c\<close>): removing the padding and
  copying the MAC out of the record without a branch or a memory access that depends on where the
  padding starts.  A record's \<^verbatim>\<open>data\<close> and \<^verbatim>\<open>input\<close> are the memory from the pointer on,
  so advancing a pointer drops bytes.  The lemmas show that the masks compute the plain
  conditions, and the functions what a branching reader of the record would.
\<close>

section \<open>Masks\<close>

(* src: ssl/s3_cbc.c@77 DUPLICATE_MSB_TO_ALL *)
definition DUPLICATE_MSB_TO_ALL :: "u32 \<Rightarrow> u32" where
  "DUPLICATE_MSB_TO_ALL x = signed_drop_bit 31 x"

(* src: ssl/s3_cbc.c@78 DUPLICATE_MSB_TO_ALL_8 *)
definition DUPLICATE_MSB_TO_ALL_8 :: "u32 \<Rightarrow> u8" where
  "DUPLICATE_MSB_TO_ALL_8 x = ucast (DUPLICATE_MSB_TO_ALL x)"

(* src: ssl/s3_cbc.c@81-85 constant_time_lt *)
definition constant_time_lt :: "u32 \<Rightarrow> u32 \<Rightarrow> u32" where
  "constant_time_lt a b = DUPLICATE_MSB_TO_ALL (a - b)"

(* src: ssl/s3_cbc.c@88-92 constant_time_ge *)
definition constant_time_ge :: "u32 \<Rightarrow> u32 \<Rightarrow> u32" where
  "constant_time_ge a b = DUPLICATE_MSB_TO_ALL (NOT (a - b))"

(* src: ssl/s3_cbc.c@95-100 constant_time_eq_8 *)
definition constant_time_eq_8 :: "u32 \<Rightarrow> u32 \<Rightarrow> u8" where
  "constant_time_eq_8 a b = DUPLICATE_MSB_TO_ALL_8 ((a XOR b) - 1)"

text \<open>A word that is all ones or all zeros stands for a truth value.\<close>

definition mask_of :: "bool \<Rightarrow> 'a::len word" where
  "mask_of p = (if p then - 1 else 0)"

lemma bit_mask_of [bit_simps]: "bit (mask_of p :: 'a::len word) n \<longleftrightarrow> p \<and> n < LENGTH('a)"
  by (simp add: mask_of_def bit_simps)

lemma mask_of_simps [simp]:
  "mask_of p AND mask_of q = mask_of (p \<and> q)" "mask_of p OR mask_of q = mask_of (p \<or> q)"
  "NOT (mask_of p) = mask_of (\<not> p)" "x AND mask_of p = (if p then x else 0)"
  "mask_of p AND x = (if p then x else 0)" "mask_of True = - 1" "mask_of False = 0"
  by (simp_all add: mask_of_def)

lemma ucast_mask_of [simp]: "(ucast (mask_of p :: u32) :: u8) = mask_of p"
  by (rule bit_word_eqI) (auto simp: bit_simps)

lemma ucast_ones [simp]: "(ucast (- 1 :: u32) :: u8) = - 1"
  using ucast_mask_of [of True] by simp

lemma dup_msb_bit: "DUPLICATE_MSB_TO_ALL x = mask_of (bit x 31)"
  by (rule bit_word_eqI) (auto simp: DUPLICATE_MSB_TO_ALL_def bit_simps not_less_eq_eq le_Suc_eq)

lemma dup_msb: "DUPLICATE_MSB_TO_ALL x = mask_of (2 ^ 31 \<le> unat x)"
proof -
  have "unat x div 2 ^ 31 < 2" using unsigned_less [of x, where 'a = nat] by (simp add: less_mult_imp_div_less)
  then have "bit x 31 \<longleftrightarrow> 2 ^ 31 \<le> unat x"
    unfolding bit_iff_unat by (cases "unat x div 2 ^ 31 = 0") (auto simp: div_eq_0_iff)
  then show ?thesis by (simp only: dup_msb_bit)
qed

lemma unat_diff_msb:
  fixes a b :: u32
  assumes "unat a < 2 ^ 31" "unat b < 2 ^ 31"
  shows "2 ^ 31 \<le> unat (a - b) \<longleftrightarrow> a < b"
  using assms by (auto simp: unat_sub_if' word_less_nat_alt)

lemma constant_time_lt_mask:
  assumes "unat a < 2 ^ 31" "unat b < 2 ^ 31"
  shows "constant_time_lt a b = mask_of (a < b)"
  by (simp only: constant_time_lt_def dup_msb unat_diff_msb [OF assms])

lemma constant_time_ge_mask:
  assumes "unat a < 2 ^ 31" "unat b < 2 ^ 31"
  shows "constant_time_ge a b = mask_of (b \<le> a)"
proof -
  have "constant_time_ge a b = NOT (constant_time_lt a b)"
    by (rule bit_word_eqI) (auto simp: constant_time_ge_def constant_time_lt_def DUPLICATE_MSB_TO_ALL_def bit_simps)
  then show ?thesis using constant_time_lt_mask [OF assms] by (auto simp: mask_of_def)
qed

lemma xor_eq_0: "a XOR b = 0 \<longleftrightarrow> a = (b :: 'a::len word)"
  by (auto simp: bit_eq_iff bit_simps)

lemma constant_time_eq_8_mask:
  assumes "unat a < 2 ^ 31" "unat b < 2 ^ 31"
  shows "constant_time_eq_8 a b = mask_of (a = b)"
proof -
  have "take_bit 31 a = a" "take_bit 31 b = b" using assms
    by (simp_all only: word_unat_eq_iff unsigned_take_bit_eq take_bit_nat_eq_self)
  then have "take_bit 31 (a XOR b) = a XOR b" by simp
  then have lt: "unat (a XOR b) < 2 ^ 31"
    by (metis take_bit_nat_less_exp unsigned_take_bit_eq)
  have "2 ^ 31 \<le> unat ((a XOR b) - 1) \<longleftrightarrow> a XOR b = 0"
    using lt by (auto simp: unat_sub_if' word_unat_eq_iff)
  then show ?thesis
    by (simp add: constant_time_eq_8_def DUPLICATE_MSB_TO_ALL_8_def dup_msb xor_eq_0)
qed

section \<open>Removing the padding\<close>

(* src: include/openssl/ssl3.h@310-319 ssl3_record_st *)
record SSL3_RECORD =
  rr_type :: u32
  rr_length :: u32
  rr_data :: bytes
  rr_input :: bytes

text \<open>
  What \<^verbatim>\<open>tls1_cbc_remove_padding\<close> looks at in the connection: whether the version has an
  explicit IV, the options, the sequence number, the flags, and whether the cipher is an AEAD.
\<close>

record cbc_conn =
  explicit_iv :: bool
  options :: u32
  read_sequence :: bytes
  s3_flags :: u32
  aead_cipher :: bool

abbreviation SSL_OP_TLS_BLOCK_PADDING_BUG :: u32 where "SSL_OP_TLS_BLOCK_PADDING_BUG \<equiv> 0x200"
abbreviation TLS1_FLAGS_TLS_PADDING_BUG :: u32 where "TLS1_FLAGS_TLS_PADDING_BUG \<equiv> 8"

text \<open>The return value 1 or -1.\<close>

(* src: ssl/s3_cbc.c@130 ssl3_cbc_remove_padding *)
definition padding_result :: "u32 \<Rightarrow> int" where
  "padding_result good = sint ((good AND 1) OR (NOT good AND - 1))"

(* src: ssl/s3_cbc.c@110-131 ssl3_cbc_remove_padding *)

text \<open>One pass of the loop that compares the last bytes with the padding length.\<close>

(* src: ssl/s3_cbc.c@209-216 tls1_cbc_remove_padding *)
definition padding_check :: "SSL3_RECORD \<Rightarrow> u32 \<Rightarrow> nat \<Rightarrow> u32 \<Rightarrow> u32" where
  "padding_check r padding_length i good =
     (let m = ucast (constant_time_ge padding_length (word_of_nat i)) :: u8;
          b = rr_data r ! unat (rr_length r - 1 - word_of_nat i)
      in good AND NOT (ucast m AND (padding_length XOR ucast b)))"

(* src: ssl/s3_cbc.c@222-226 tls1_cbc_remove_padding *)
definition padding_verdict :: "u32 \<Rightarrow> u32" where
  "padding_verdict good =
     (let good = good AND drop_bit 4 good;
          good = good AND drop_bit 2 good;
          good = good AND drop_bit 1 good;
          good = push_bit 31 good
      in DUPLICATE_MSB_TO_ALL good)"

(* src: ssl/s3_cbc.c@173-187 tls1_cbc_remove_padding *)
definition padding_bug :: "cbc_conn \<Rightarrow> u32 \<Rightarrow> u32 \<times> cbc_conn" where
  "padding_bug s padding_length =
     (if options s AND SSL_OP_TLS_BLOCK_PADDING_BUG \<noteq> 0 then
        let s = (if read_sequence s = replicate 8 0 \<and> padding_length AND 1 = 0
                 then s\<lparr>s3_flags := s3_flags s OR TLS1_FLAGS_TLS_PADDING_BUG\<rparr> else s)
        in (if s3_flags s AND TLS1_FLAGS_TLS_PADDING_BUG \<noteq> 0 \<and> 0 < padding_length
            then padding_length - 1 else padding_length, s)
      else (padding_length, s))"

(* src: ssl/s3_cbc.c@144-229 tls1_cbc_remove_padding *)
definition tls1_cbc_remove_padding ::
  "cbc_conn \<Rightarrow> SSL3_RECORD \<Rightarrow> u32 \<Rightarrow> u32 \<Rightarrow> int \<times> cbc_conn \<times> SSL3_RECORD" where
  "tls1_cbc_remove_padding s r block_size mac_size =
     (let overhead = 1 + mac_size
      in if rr_length r < (if explicit_iv s then overhead + block_size else overhead) then (0, s, r)
         else
           let r = (if explicit_iv s
                    then r\<lparr>rr_data := drop (unat block_size) (rr_data r),
                           rr_input := drop (unat block_size) (rr_input r),
                           rr_length := rr_length r - block_size\<rparr>
                    else r);
               padding_length = ucast (rr_data r ! unat (rr_length r - 1));
               (padding_length, s) = padding_bug s padding_length
           in if aead_cipher s then (1, s, r\<lparr>rr_length := rr_length r - (padding_length + 1)\<rparr>)
              else
                let good = constant_time_ge (rr_length r) (overhead + padding_length);
                    to_check = (if rr_length r < 256 then rr_length r else 256);
                    good = fold (padding_check r padding_length) [0 ..< unat to_check] good;
                    good = padding_verdict good;
                    padding_length = good AND (padding_length + 1);
                    r = r\<lparr>rr_length := rr_length r - padding_length\<rparr>;
                    r = r\<lparr>rr_type := rr_type r OR push_bit 8 padding_length\<rparr>
                in (padding_result good, s, r))"

section \<open>What the padding functions accept\<close>

text \<open>
  The contents of a record, and what a branching reader takes off them: TLS wants every byte of the
  padding to be its length, SSLv3 wants no more than a block.
\<close>

definition rr_bytes :: "SSL3_RECORD \<Rightarrow> bytes" where
  "rr_bytes r = take (unat (rr_length r)) (rr_data r)"

definition tls_unpad :: "nat \<Rightarrow> bytes \<Rightarrow> nat option" where
  "tls_unpad mac_size xs =
     (let n = unat (last xs) + 1
      in if n + mac_size \<le> length xs \<and> drop (length xs - n) xs = replicate n (last xs) then Some n else None)"



definition rr_ok :: "SSL3_RECORD \<Rightarrow> bool" where
  "rr_ok r \<longleftrightarrow> unat (rr_length r) < 2 ^ 20 \<and> unat (rr_length r) \<le> length (rr_data r)"

lemma padding_result_mask [simp]: "padding_result (mask_of p) = (if p then 1 else - 1)"
  by (simp add: padding_result_def mask_of_def)

lemma padding_result_simps [simp]: "padding_result 0 = - 1" "padding_result (- 1) = 1"
  using padding_result_mask [of False] padding_result_mask [of True] by simp_all

lemma padding_verdict_mask: "padding_verdict x = mask_of (\<forall>n < 8. bit x n)"
proof -
  have "bit (push_bit 31 y) 31 \<longleftrightarrow> bit y 0" for y :: u32 by (simp add: bit_simps)
  moreover have "(\<forall>n < 8. bit x n) \<longleftrightarrow> bit x 0 \<and> bit x 1 \<and> bit x 2 \<and> bit x 3 \<and> bit x 4 \<and> bit x 5 \<and> bit x 6 \<and> bit x 7"
    by (simp add: numeral_eq_Suc All_less_Suc) blast
  ultimately show ?thesis
    by (simp add: padding_verdict_def Let_def dup_msb_bit bit_simps) (simp add: mask_of_def)
qed

lemma byte_mask: "(ucast (ucast (mask_of c :: u32) :: u8) :: u32) = (if c then mask 8 else 0)"
  by (rule bit_word_eqI) (auto simp: bit_simps)

lemma u32_of_nat [simp]: "n < 2 ^ 32 \<Longrightarrow> unat (word_of_nat n :: u32) = n"
  by (simp add: unat_of_nat)

lemma rr_index:
  fixes l :: u32
  assumes "i < unat l"
  shows "unat (l - 1 - word_of_nat i) = unat l - 1 - i"
proof -
  have "i < 2 ^ 32" using assms unsigned_less [of l, where 'a = nat] by simp
  then have i: "unat (word_of_nat i :: u32) = i" by simp
  have 1: "unat (l - 1) = unat l - 1" using assms by (simp add: unat_sub_if' split: if_splits)
  show ?thesis using assms unfolding unat_sub_if' [of "l - 1"] 1 i by simp
qed

lemma same_byte_bits:
  assumes "unat (P :: u32) < 256"
  shows "(\<forall>n < 8. \<not> bit (P XOR ucast (b :: u8)) n) \<longleftrightarrow> ucast b = P"
proof
  assume h: "\<forall>n < 8. \<not> bit (P XOR ucast b) n"
  have "take_bit 8 P = P" using assms by (simp add: word_unat_eq_iff unsigned_take_bit_eq take_bit_nat_eq_self)
  then have P: "bit P n \<longleftrightarrow> bit P n \<and> n < 8" for n by (metis bit_take_bit_iff)
  show "ucast b = P"
  proof (rule bit_word_eqI)
    fix n assume "n < LENGTH(32)"
    show "bit (ucast b :: u32) n \<longleftrightarrow> bit P n"
      using h P [of n] by (cases "n < 8") (auto simp: bit_simps dest: bit_imp_le_length)
  qed
qed simp

lemma padding_check_loop:
  assumes "k \<le> unat (rr_length r)" "unat P < 256" "k < 2 ^ 31"
  shows "(\<forall>n < 8. bit (fold (padding_check r P) [0 ..< k] (mask_of g)) n)
    \<longleftrightarrow> g \<and> (\<forall>i < k. i \<le> unat P \<longrightarrow> ucast (rr_data r ! (unat (rr_length r) - 1 - i)) = P)"
  using assms
proof (induction k)
  case 0
  then show ?case by (auto simp: bit_simps intro: exI [of _ 0])
next
  case (Suc k)
  let ?b = "rr_data r ! (unat (rr_length r) - 1 - k)"
  let ?g = "fold (padding_check r P) [0 ..< k] (mask_of g)"
  have m: "constant_time_ge P (word_of_nat k) = mask_of (k \<le> unat P)"
    using Suc.prems by (subst constant_time_ge_mask) (simp_all add: word_le_nat_alt)
  have e: "padding_check r P k ?g = ?g AND NOT ((if k \<le> unat P then mask 8 else 0) AND (P XOR ucast ?b))"
    using Suc.prems rr_index [of k "rr_length r"]
    by (simp only: padding_check_def Let_def m byte_mask Suc_le_eq)
  have "(\<forall>n < 8. bit (padding_check r P k ?g) n)
      \<longleftrightarrow> (\<forall>n < 8. bit ?g n) \<and> (k \<le> unat P \<longrightarrow> (\<forall>n < 8. \<not> bit (P XOR ucast ?b) n))"
    unfolding e by (auto simp: bit_simps)
  also have "\<dots> \<longleftrightarrow> g \<and> (\<forall>i < Suc k. i \<le> unat P \<longrightarrow> ucast (rr_data r ! (unat (rr_length r) - 1 - i)) = P)"
    unfolding same_byte_bits [OF Suc.prems(2)] using Suc by (auto simp: less_Suc_eq)
  finally show ?case by simp
qed


lemma rr_last:
  assumes "unat (rr_length r) \<le> length (rr_data r)" "0 < unat (rr_length r)"
  shows "rr_data r ! unat (rr_length r - 1) = last (rr_bytes r)"
proof -
  have "rr_bytes r \<noteq> []" "length (rr_bytes r) = unat (rr_length r)" using assms by (auto simp: rr_bytes_def)
  moreover have "unat (rr_length r - 1) = unat (rr_length r) - 1" using rr_index [of 0 "rr_length r"] assms by simp
  ultimately show ?thesis using assms by (simp add: last_conv_nth) (simp add: rr_bytes_def)
qed

lemma u32_add: "unat a + unat b < 2 ^ 32 \<Longrightarrow> unat (a + b :: u32) = unat a + unat b"
  by (simp add: unat_add_lem [symmetric])







text \<open>Padding of any length up to 255 that a sender adds is accepted and taken off again.\<close>

lemma tls_unpad_padded:
  assumes "p < 256" "mac_size \<le> length xs"
  shows "tls_unpad mac_size (xs @ replicate (Suc p) (word_of_nat p)) = Some (Suc p)"
  using assms by (simp add: tls_unpad_def Let_def)

text \<open>
  With the option that is meant to work around peers whose padding length counts itself, a record of
  such a peer is still refused: the length that is one too large is corrected, but every byte is
  then compared with the corrected value.
\<close>

lemma padding_bug_refused:
  assumes "rr_ok r" "unat mac_size < 2 ^ 20" "unat mac_size + 1 \<le> unat (rr_length r)"
    "\<not> explicit_iv s" "\<not> aead_cipher s" "last (rr_bytes r) \<noteq> 0"
    "options s AND SSL_OP_TLS_BLOCK_PADDING_BUG \<noteq> 0" "s3_flags s AND TLS1_FLAGS_TLS_PADDING_BUG \<noteq> 0"
    "read_sequence s \<noteq> replicate 8 0"
  shows "tls1_cbc_remove_padding s r block_size mac_size = (- 1, s, r)"
proof -
  let ?l = "unat (rr_length r)"
  let ?v = "last (rr_bytes r)"
  define p :: u32 where "p = ucast ?v - 1"
  have l: "?l < 2 ^ 20" "?l \<le> length (rr_data r)" using assms(1) by (auto simp: rr_ok_def)
  have "rr_data r ! unat (rr_length r - 1) = ?v" using l assms(3) by (intro rr_last) auto
  then have last: "rr_data r ! (?l - 1) = ?v" using rr_index [of 0 "rr_length r"] assms(3) by simp
  have v: "0 < unat ?v" using assms(6) by (simp add: unat_gt_0)
  then have p: "unat p = unat ?v - 1" by (simp add: p_def unat_sub_if' del: unat_gt_0)
  then have p256: "unat p < 256" using unat_u8_less [of ?v] by linarith
  have o: "unat (1 + mac_size) = 1 + unat mac_size" "unat (1 + mac_size + p) = 1 + unat mac_size + unat p"
    using assms(2) p256 by (simp_all add: u32_add)
  have g: "constant_time_ge (rr_length r) (1 + mac_size + p) = mask_of (1 + unat mac_size + unat p \<le> ?l)"
    using l o p256 assms(2) by (subst constant_time_ge_mask) (simp_all add: word_le_nat_alt)
  have k: "unat (if rr_length r < 256 then rr_length r else 256) = min ?l 256" by (auto simp: word_less_nat_alt)
  have "ucast ?v \<noteq> p" using p v by (metis diff_less less_numeral_extra(1) less_not_refl unat_ucast_u8_u32)
  then have n: "\<not> (\<forall>i < min ?l 256. i \<le> unat p \<longrightarrow> ucast (rr_data r ! (?l - 1 - i)) = p)"
    using last assms(3) by (auto intro!: exI [of _ 0])
  have loop: "(\<forall>n < 8. bit (fold (padding_check r p) [0 ..< min ?l 256] (mask_of b)) n) \<longleftrightarrow> False" for b
    using padding_check_loop [of "min ?l 256" r p b] p256 n by simp
  then have "padding_verdict (fold (padding_check r p) [0 ..< min ?l 256] (constant_time_ge (rr_length r) (1 + mac_size + p))) = mask_of False"
    unfolding g padding_verdict_mask by (simp only: loop)
  moreover have "0 < (ucast ?v :: u32)" using v by (simp only: word_less_nat_alt unat_ucast_u8_u32) simp
  moreover have "\<not> rr_length r < 1 + mac_size" using o(1) assms(3) by (simp add: word_less_nat_alt)
  ultimately show ?thesis
    using assms(4-9) last rr_index [of 0 "rr_length r"] assms(3) k
    by (simp add: tls1_cbc_remove_padding_def Let_def padding_bug_def add.assoc p_def [symmetric])
qed


section \<open>Copying the MAC\<close>

abbreviation EVP_MAX_MD_SIZE :: nat where "EVP_MAX_MD_SIZE \<equiv> 64"

text \<open>One pass of the scan: the MAC lands in the buffer, rotated.\<close>

(* src: ssl/s3_cbc.c@297-305 ssl3_cbc_copy_mac *)
definition copy_mac_scan :: "bytes \<Rightarrow> u32 \<Rightarrow> u32 \<Rightarrow> u32 \<Rightarrow> nat \<Rightarrow> bytes \<times> u32 \<Rightarrow> bytes \<times> u32" where
  "copy_mac_scan data mac_start mac_end md_size i st =
     (let (rotated_mac, j) = st;
          mac_started = ucast (constant_time_ge (word_of_nat i) mac_start) :: u8;
          mac_ended = ucast (constant_time_ge (word_of_nat i) mac_end) :: u8;
          b = data ! i;
          rotated_mac = rotated_mac[unat j := rotated_mac ! unat j OR (b AND mac_started AND NOT mac_ended)];
          j = j + 1
      in (rotated_mac, j AND constant_time_lt j md_size))"

text \<open>One pass of the loop that rotates it back; the access that only touches a cache line is left out.\<close>

(* src: ssl/s3_cbc.c@310-316 ssl3_cbc_copy_mac *)
definition copy_mac_rotate :: "bytes \<Rightarrow> u32 \<Rightarrow> bytes \<times> u32 \<Rightarrow> bytes \<times> u32" where
  "copy_mac_rotate rotated_mac md_size st =
     (let (out, rotate_offset) = st;
          out = out @ [rotated_mac ! unat rotate_offset];
          rotate_offset = rotate_offset + 1
      in (out, rotate_offset AND constant_time_lt rotate_offset md_size))"

text \<open>None is a failed assertion or a division by zero.\<close>

(* src: ssl/s3_cbc.c@250-313 ssl3_cbc_copy_mac *)
definition ssl3_cbc_copy_mac :: "SSL3_RECORD \<Rightarrow> u32 \<Rightarrow> u32 \<Rightarrow> bytes option" where
  "ssl3_cbc_copy_mac r md_size orig_len =
     (let mac_end = rr_length r;
          mac_start = mac_end - md_size;
          scan_start = (if md_size + 255 + 1 < orig_len then orig_len - (md_size + 255 + 1) else 0);
          div_spoiler = push_bit 24 (drop_bit 1 md_size);
          rotate_offset = (div_spoiler + mac_start - scan_start) mod md_size
      in if \<not> md_size \<le> orig_len \<or> \<not> unat md_size \<le> EVP_MAX_MD_SIZE \<or> md_size = 0 then None
         else
           let (rotated_mac, j) = fold (copy_mac_scan (rr_data r) mac_start mac_end md_size)
                 [unat scan_start ..< unat orig_len] (replicate (unat md_size) 0, 0)
           in Some (fst ((copy_mac_rotate rotated_mac md_size ^^ unat md_size) ([], rotate_offset))))"

text \<open>A counter that starts again at the size.\<close>

lemma next_mod:
  assumes "0 < unat m" "unat m \<le> 64" "unat j = x mod unat m"
  shows "unat ((j + 1) AND constant_time_lt (j + 1) m) = Suc x mod unat m"
proof -
  have lt: "x mod unat m < unat m" using assms(1) by simp
  have j1: "unat (j + 1) = Suc (x mod unat m)" using assms lt by (subst u32_add) simp_all
  have m: "constant_time_lt (j + 1) m = mask_of (Suc (x mod unat m) < unat m)"
    using j1 lt assms(2) by (subst constant_time_lt_mask) (simp_all add: word_less_nat_alt)
  show ?thesis unfolding m using j1 lt by (auto simp: mod_Suc)
qed

text \<open>Two positions of a window of the MAC's size share a slot only if they are the same.\<close>

lemma same_slot:
  assumes "a mod m = b mod m" "(a :: nat) \<le> b" "b < a + m"
  shows "a = b"
proof -
  have "m dvd b - a" using assms(1,2) by (metis mod_eq_dvd_iff_nat)
  then show ?thesis using assms(2,3) by (auto dest: dvd_imp_le)
qed

lemma copy_mac_scan_fold:
  assumes m: "0 < unat md" "unat md \<le> 64" and e: "unat me = unat ms + unat md"
    and b: "s + n < 2 ^ 31" "s \<le> unat ms" "unat me < 2 ^ 31"
  shows "\<exists>R j. fold (copy_mac_scan d ms me md) [s ..< s + n] (replicate (unat md) 0, 0) = (R, j)
    \<and> length R = unat md \<and> unat j = n mod unat md
    \<and> (\<forall>k. unat ms \<le> k \<longrightarrow> k < unat me \<longrightarrow> R ! ((k - s) mod unat md) = (if k < s + n then d ! k else 0))"
  using b(1)
proof (induction n)
  case 0
  then show ?case using m b(2) by (auto simp: mod_less_divisor)
next
  case (Suc n)
  then obtain R j where R: "fold (copy_mac_scan d ms me md) [s ..< s + n] (replicate (unat md) 0, 0) = (R, j)"
    "length R = unat md" "unat j = n mod unat md"
    "\<And>k. unat ms \<le> k \<Longrightarrow> k < unat me \<Longrightarrow> R ! ((k - s) mod unat md) = (if k < s + n then d ! k else 0)"
    by fastforce
  let ?i = "s + n"
  let ?x = "if unat ms \<le> ?i \<and> ?i < unat me then d ! ?i else 0"
  let ?R = "R[unat j := R ! unat j OR ?x]"
  have i: "unat (word_of_nat ?i :: u32) = ?i" using Suc.prems by (intro u32_of_nat) simp
  have ge: "constant_time_ge (word_of_nat ?i) w = mask_of (unat w \<le> ?i)" if "unat w < 2 ^ 31" for w
    using that Suc.prems i by (subst constant_time_ge_mask) (simp_all add: word_le_nat_alt)
  have "unat ms < 2 ^ 31" using e b(3) by linarith
  then have "copy_mac_scan d ms me md ?i (R, j) = (?R, (j + 1) AND constant_time_lt (j + 1) md)"
    using ge [of ms] ge [OF b(3)] by (simp add: copy_mac_scan_def Let_def del: of_nat_add)
  moreover have "[s ..< s + Suc n] = [s ..< s + n] @ [?i]" by simp
  ultimately have f: "fold (copy_mac_scan d ms me md) [s ..< s + Suc n] (replicate (unat md) 0, 0)
      = (?R, (j + 1) AND constant_time_lt (j + 1) md)"
    using R(1) by simp
  have j: "unat j = (?i - s) mod unat md" using R(3) by simp
  have "?R ! ((k - s) mod unat md) = (if k < s + Suc n then d ! k else 0)" if k: "unat ms \<le> k" "k < unat me" for k
  proof (cases "(k - s) mod unat md = unat j")
    case False
    then have "k \<noteq> ?i" using R(3) by auto
    then show ?thesis using False R(4) [OF k] by simp
  next
    case True
    have "k = ?i" if "unat ms \<le> ?i" "?i < unat me"
    proof (cases "k \<le> ?i")
      case le: True
      have "k - s = ?i - s" by (rule same_slot [where m = "unat md"]) (use True j le k that e b(2) in auto)
      then show ?thesis using k b(2) by simp
    next
      case False
      have "?i - s = k - s" by (rule same_slot [where m = "unat md"]) (use True j False k that e b(2) in auto)
      then show ?thesis using k b(2) by simp
    qed
    moreover have "k \<noteq> ?i" if "\<not> (unat ms \<le> ?i \<and> ?i < unat me)" using that k by auto
    ultimately show ?thesis
      using True R(2) R(4) [OF k] m(1) R(3) by (cases "unat ms \<le> ?i \<and> ?i < unat me") auto
  qed
  then show ?case using f R(2) next_mod [OF m R(3)]
    by (intro exI [of _ ?R] exI [of _ "(j + 1) AND constant_time_lt (j + 1) md"]) simp
qed

lemma copy_mac_rotate_pow:
  assumes m: "0 < unat md" "unat md \<le> 64" and r: "unat ro = k mod unat md"
  shows "\<exists>ro'. (copy_mac_rotate R md ^^ n) ([], ro) = (map (\<lambda>i. R ! ((k + i) mod unat md)) [0 ..< n], ro')
    \<and> unat ro' = (k + n) mod unat md"
proof (induction n)
  case (Suc n)
  then obtain ro' where "(copy_mac_rotate R md ^^ n) ([], ro) = (map (\<lambda>i. R ! ((k + i) mod unat md)) [0 ..< n], ro')"
    and u: "unat ro' = (k + n) mod unat md"
    by blast
  moreover have "copy_mac_rotate R md (xs, ro') = (xs @ [R ! unat ro'], (ro' + 1) AND constant_time_lt (ro' + 1) md)" for xs
    by (simp add: copy_mac_rotate_def Let_def)
  ultimately show ?case using next_mod [OF m u] by (auto simp: u)
qed (simp add: r)

lemma div_spoiler:
  assumes "even (unat md)" "unat md \<le> 64"
  shows "unat (push_bit 24 (drop_bit 1 md) :: u32) = unat md * 2 ^ 23"
proof -
  obtain h where h: "unat md = 2 * h" using assms(1) by auto
  have "unat (drop_bit 1 md) = h" by (simp only: unat_drop_bit_eq) (simp add: h drop_bit_eq_div)
  moreover have "unat (push_bit 24 (drop_bit 1 md)) = unat (drop_bit 1 md) * 2 ^ 24 mod 2 ^ 32"
    by (simp only: unsigned_push_bit_eq take_bit_eq_mod) (simp add: push_bit_eq_mult)
  moreover have "h * 2 ^ 24 < 2 ^ 32" using h assms(2) by simp
  ultimately show ?thesis using h by simp
qed

text \<open>
  C21: ssl3_cbc_copy_mac, whose scan and rotation touch the same memory whatever the record, copies the
  bytes of the MAC: those just before the secret end of the data. It holds for every even MAC size up
  to 64 and every amount of padding up to 256 bytes, and no assertion fails.
\<close>
theorem ssl3_cbc_copy_mac_correct:
  assumes "0 < unat md_size" "unat md_size \<le> 64" "even (unat md_size)"
    "unat md_size \<le> unat (rr_length r)" "rr_length r \<le> orig_len" "unat orig_len \<le> unat (rr_length r) + 256"
    "unat orig_len < 2 ^ 20" "unat orig_len \<le> length (rr_data r)"
  shows "ssl3_cbc_copy_mac r md_size orig_len
    = Some (take (unat md_size) (drop (unat (rr_length r) - unat md_size) (rr_data r)))"
proof -
  let ?m = "unat md_size" and ?e = "unat (rr_length r)" and ?o = "unat orig_len"
  let ?ms = "rr_length r - md_size"
  let ?ss = "if md_size + 255 + 1 < orig_len then orig_len - (md_size + 255 + 1) else 0"
  have eo: "?e \<le> ?o" using assms(5) by (simp add: word_le_nat_alt)
  have ms: "unat ?ms = ?e - ?m" using assms(4) by (simp add: unat_sub_if')
  have w: "unat (md_size + 255 + 1) = ?m + 256" using assms(2) by (subst u32_add; subst u32_add; simp)
  have ss: "unat ?ss = ?o - (?m + 256)"
    using w by (auto simp: word_less_nat_alt unat_sub_if')
  have s_ms: "unat ?ss \<le> unat ?ms" unfolding ss ms using assms(6) by simp
  have d: "unat (push_bit 24 (drop_bit 1 md_size)) = ?m * 2 ^ 23" using assms(3,2) by (rule div_spoiler)
  have "unat (push_bit 24 (drop_bit 1 md_size) + ?ms) = ?m * 2 ^ 23 + unat ?ms"
    using d ms assms(2,7) eo by (subst u32_add) simp_all
  then have "unat (push_bit 24 (drop_bit 1 md_size) + ?ms - ?ss) = ?m * 2 ^ 23 + unat ?ms - unat ?ss"
    using s_ms by (subst unat_sub_if') simp
  then have "unat (push_bit 24 (drop_bit 1 md_size) + ?ms - ?ss) = ?m * 2 ^ 23 + (unat ?ms - unat ?ss)"
    using s_ms by simp
  then have ro: "unat ((push_bit 24 (drop_bit 1 md_size) + ?ms - ?ss) mod md_size) = (unat ?ms - unat ?ss) mod ?m"
    by (simp only: unat_mod_distrib mod_mult_self4)
  have "unat ?ss + (?o - unat ?ss) = ?o" unfolding ss by simp
  then obtain R j where R: "fold (copy_mac_scan (rr_data r) ?ms (rr_length r) md_size) [unat ?ss ..< ?o] (replicate ?m 0, 0) = (R, j)"
    "length R = ?m" "\<And>k. unat ?ms \<le> k \<Longrightarrow> k < ?e \<Longrightarrow> R ! ((k - unat ?ss) mod ?m) = (if k < ?o then rr_data r ! k else 0)"
    using copy_mac_scan_fold [where md = md_size and me = "rr_length r" and ms = ?ms and s = "unat ?ss" and n = "?o - unat ?ss"
        and d = "rr_data r"] assms ms s_ms eo by fastforce
  obtain ro' where rot: "(copy_mac_rotate R md_size ^^ ?m) ([], (push_bit 24 (drop_bit 1 md_size) + ?ms - ?ss) mod md_size)
      = (map (\<lambda>i. R ! ((unat ?ms - unat ?ss + i) mod ?m)) [0 ..< ?m], ro')"
    using copy_mac_rotate_pow [OF assms(1,2) ro, of ?m R] by blast
  have "map (\<lambda>i. R ! ((unat ?ms - unat ?ss + i) mod ?m)) [0 ..< ?m] = take ?m (drop (?e - ?m) (rr_data r))"
  proof (rule nth_equalityI)
    fix i assume "i < length (map (\<lambda>i. R ! ((unat ?ms - unat ?ss + i) mod ?m)) [0 ..< ?m])"
    then have i: "i < ?m" by simp
    then have "R ! ((unat ?ms - unat ?ss + i) mod ?m) = rr_data r ! (unat ?ms + i)"
      using R(3) [of "unat ?ms + i"] ms assms(4) eo s_ms by simp
    then show "map (\<lambda>i. R ! ((unat ?ms - unat ?ss + i) mod ?m)) [0 ..< ?m] ! i = take ?m (drop (?e - ?m) (rr_data r)) ! i"
      using i ms assms(8) eo by simp
  qed (use assms(4,8) eo in simp)
  moreover have "md_size \<le> orig_len" "md_size \<noteq> 0"
    using assms(1,4) eo by (auto simp: word_le_nat_alt)
  ultimately show ?thesis
    using R(1) rot assms(2) by (simp add: ssl3_cbc_copy_mac_def Let_def)
qed

theorem ssl3_cbc_copy_mac_correct_witness:
  "ssl3_cbc_copy_mac \<lparr>rr_type = 23, rr_length = 5, rr_data = [1, 2, 3, 4, 5, 1, 1], rr_input = []\<rparr> 2 7 = Some [4, 5]"
  using ssl3_cbc_copy_mac_correct [of 2 "\<lparr>rr_type = 23, rr_length = 5, rr_data = [1, 2, 3, 4, 5, 1, 1], rr_input = []\<rparr>" 7]
  by simp

end
