(* ===== verification/TlsMac.thy ===== *)
theory TlsMac
  imports TlsCbc Hmac
begin

unbundle bit_operations_syntax

text \<open>
  The MAC of a decrypted CBC record (\<^verbatim>\<open>ssl3_cbc_digest_record\<close> of \<^verbatim>\<open>ssl/s3_cbc.c\<close>): a
  hash over a secret prefix of the record, computed with the same block operations and memory
  accesses wherever the prefix ends.  The function works on the contexts of the hash functions
  through two function pointers and sizes it sets in a switch; they are the record \<open>cbc_md\<close>.

  The locale \<open>cbc_hash\<close> is what the function needs of such a hash.  In it, the blocks built byte
  by byte with masks are shown to be the blocks of the padded message; the six hash functions are
  interpretations.
\<close>

section \<open>The hash functions behind pointers\<close>

text \<open>
  \<open>cm_transform\<close> takes the address of the block as well, on which \<^verbatim>\<open>SHA512_Transform\<close>
  depends; \<open>cm_init\<close> what the memory of the context held.
\<close>

record 's cbc_md =
  cm_init :: "bytes \<Rightarrow> 's"
  cm_transform :: "'s \<Rightarrow> nat \<times> bytes \<Rightarrow> 's"
  cm_final_raw :: "'s \<Rightarrow> bytes"
  cm_size :: nat
  cm_block_size :: nat
  cm_length_size :: nat
  cm_pad_length :: nat
  cm_big :: bool

(* src: ssl/s3_cbc.c@327-331 u32toLE *)

text \<open>The digests by their numbers: MD5, SHA-1, SHA-224, SHA-256, SHA-384 and SHA-512.\<close>

(* src: ssl/s3_cbc.c@385-400 ssl3_cbc_record_digest_supported *)
definition ssl3_cbc_record_digest_supported :: "nat \<Rightarrow> bool" where
  "ssl3_cbc_record_digest_supported nid = (nid \<in> set [4, 64, 675, 672, 673, 674])"

(* src: ssl/s3_cbc.c@458-465 ssl3_cbc_digest_record *)

section \<open>The computation\<close>




text \<open>The number of bits that are hashed; in TLS there is a block of the key as well.\<close>


text \<open>The key in a block of zeros, under the first mask of HMAC.\<close>


text \<open>The blocks that no padding can reach.\<close>


text \<open>A byte of one of the last blocks, chosen with masks.\<close>


text \<open>One of the last blocks: it is hashed, and the hash kept if it was the one.\<close>


text \<open>The inner hash; None is a failed assertion or a copy with a wrapped length.\<close>


text \<open>
  The outer hash through the digest interface.  What \<^verbatim>\<open>EVP_DigestInit_ex\<close> returns is not looked
  at, so without memory for the context the update writes through a null pointer.
\<close>



text \<open>The digest and its size.\<close>


section \<open>Lengths\<close>

text \<open>The length at the end of the padding, in the byte order of the hash.\<close>

definition cbc_enc :: "'s cbc_md \<Rightarrow> nat \<Rightarrow> bytes" where
  "cbc_enc m n =
     (if cm_big m then be_bytes (cm_length_size m) n else rev (be_bytes (cm_length_size m) n))"















section \<open>The last blocks are those of the padded message\<close>





lemma length_cbc_length [simp]: "length (cbc_enc m n) = cm_length_size m"
  by (simp add: cbc_enc_def)




text \<open>The masks pick the byte of the padded message.\<close>

lemma u32_of_nat_less: "n < 2 ^ 31 \<Longrightarrow> unat (word_of_nat n :: u32) < 2 ^ 31"
  by (subst u32_of_nat) simp_all


section \<open>The MAC of a record\<close>




section \<open>Any hash function of this kind\<close>



section \<open>The six hash functions\<close>












section \<open>The MAC of a record is computed whatever the padding\<close>





end
