(* ===== verification/Dtls1.thy ===== *)
theory Dtls1
  imports PQueue
begin

unbundle bit_operations_syntax

text \<open>
  Receiving DTLS records (\<^verbatim>\<open>ssl/d1_pkt.c\<close>): the window that tells a new record from one that
  was received before, the epochs, and the queue of records that came too early.  What decides that
  a record is genuine, its decryption and MAC, is a parameter.

  The window is a bitmap below the highest sequence number accepted; the lemmas show that it accepts
  exactly the records a receiver that remembers everything would accept within the last 64.
\<close>

section \<open>Saturating subtraction\<close>

(* src: ssl/d1_pkt.c@145-155 satsub64be *)
definition satsub_step :: "bool \<Rightarrow> int \<Rightarrow> int \<times> int \<Rightarrow> int \<times> int" where
  "satsub_step neg x st =
     (let (brw, sat) = st;
          brw = brw + x;
          sat = sat OR (if neg then NOT brw else brw)
      in (drop_bit 8 brw, sat))"

text \<open>
  On a little-endian machine the comparison as words is skipped.  The bytes are compared from the
  last to the first.
\<close>

(* src: ssl/d1_pkt.c satsub64be *)
definition satsub64be :: "bytes \<Rightarrow> bytes \<Rightarrow> int" where
  "satsub64be v1 v2 =
     (let ret = int (unat (v1 ! 7)) - int (unat (v2 ! 7));
          brw = drop_bit 8 ret;
          (brw, sat) = fold (\<lambda>i. satsub_step (ret AND 0x80 \<noteq> 0) (int (unat (v1 ! i)) - int (unat (v2 ! i))))
             (rev [0 ..< 7]) (brw, 0);
          brw = push_bit 8 brw
      in if sat AND 0xff \<noteq> 0 then brw OR 0x80 else brw + (ret AND 0xff))"

text \<open>The number a list of digits to the base 256 stands for, the least first; the digits may be negative.\<close>

fun digits :: "int list \<Rightarrow> int" where
  "digits [] = 0"
| "digits (x # xs) = x + 256 * digits xs"

lemma and_255: "(t :: int) AND 255 = t mod 256"
  using take_bit_eq_mask [of 8 t] by (simp add: mask_eq_exp_minus_1 take_bit_eq_mod)

lemma or_and_255: "((a :: int) OR b) AND 255 = 0 \<longleftrightarrow> a AND 255 = 0 \<and> b AND 255 = 0"
proof -
  have "(a OR b) AND 255 = (a AND 255) OR (b AND 255)" by (simp add: bit.conj_disj_distrib2)
  then show ?thesis by (simp add: or_eq_0_iff)
qed

lemma digit_carry:
  fixes Y y B :: int
  assumes "0 \<le> y" "y < 256"
  shows "256 * Y + y = 256 * B - 1 \<longleftrightarrow> Y = B - 1 \<and> y = 255"
proof
  assume e: "256 * Y + y = 256 * B - 1"
  have "\<not> Y \<le> B - 2" "\<not> B \<le> Y" using e assms by linarith+
  then show "Y = B - 1 \<and> y = 255" using e by linarith
qed simp

lemma satsub_fold:
  assumes "\<forall>x \<in> set xs. \<bar>x\<bar> \<le> 255" "brw = 0 \<or> brw = - 1"
  shows "\<exists>brw' sat' Y. fold (satsub_step neg) xs (brw, sat) = (brw', sat')
    \<and> (brw' = 0 \<or> brw' = - 1) \<and> 0 \<le> Y \<and> Y < 256 ^ length xs \<and> digits xs + brw = brw' * 256 ^ length xs + Y
    \<and> (sat' AND 255 = 0 \<longleftrightarrow> sat AND 255 = 0 \<and> Y = (if neg then 256 ^ length xs - 1 else 0))"
  using assms
proof (induction xs arbitrary: brw sat)
  case Nil
  then show ?case by auto
next
  case (Cons x xs)
  define t where "t = brw + x"
  define b where "b = t div 256"
  define y where "y = t mod 256"
  have t: "t = 256 * b + y" "0 \<le> y" "y < 256" by (simp_all add: b_def y_def)
  have b: "b = 0 \<or> b = - 1" using Cons.prems t by (auto simp: t_def)
  let ?s = "sat OR (if neg then NOT t else t)"
  obtain brw' sat' Y where ih: "fold (satsub_step neg) xs (b, ?s) = (brw', sat')"
    "brw' = 0 \<or> brw' = - 1" "0 \<le> Y" "Y < 256 ^ length xs" "digits xs + b = brw' * 256 ^ length xs + Y"
    "sat' AND 255 = 0 \<longleftrightarrow> ?s AND 255 = 0 \<and> Y = (if neg then 256 ^ length xs - 1 else 0)"
    using Cons.IH [of b ?s] Cons.prems(1) b by auto
  have step: "satsub_step neg x (brw, sat) = (b, ?s)"
    by (simp add: satsub_step_def Let_def t_def b_def drop_bit_eq_div)
  have "- 1 - t = (255 - y) + 256 * (- b - 1)" using t(1) by simp
  then have "(- 1 - t) mod 256 = (255 - y) mod 256" by (simp only: mod_mult_self2)
  then have "(- 1 - t) mod 256 = 255 - y" using t(2,3) by simp
  moreover have "NOT t = - 1 - t" by (simp add: not_int_def)
  ultimately have "NOT t AND 255 = 255 - y" by (simp only: and_255)
  moreover have "t AND 255 = y" by (simp only: and_255 y_def)
  ultimately have s: "?s AND 255 = 0 \<longleftrightarrow> sat AND 255 = 0 \<and> y = (if neg then 255 else 0)"
    by (cases neg) (auto simp only: or_and_255 if_True if_False)
  have "digits (x # xs) + brw = brw' * 256 ^ length (x # xs) + (256 * Y + y)"
    using ih(5) t by (simp add: t_def algebra_simps)
  moreover have "256 * Y + y < 256 ^ length (x # xs)" using ih(4) t(3) by simp
  moreover have "256 * Y + y = (if neg then 256 ^ length (x # xs) - 1 else 0)
      \<longleftrightarrow> Y = (if neg then 256 ^ length xs - 1 else 0) \<and> y = (if neg then 255 else 0)" (is ?carry)
  proof (cases neg)
    case True
    then show ?thesis using digit_carry [OF t(2,3), of Y "256 ^ length xs"] by simp
  next
    case False
    have "256 * Y + y = 0 \<longleftrightarrow> Y = 0 \<and> y = 0" using ih(3) t(2) by linarith
    then show ?thesis using False by simp
  qed
  ultimately show ?case
    using ih(1-3) t(2) step unfolding ih(6) s
    by (intro exI [of _ brw'] exI [of _ sat'] exI [of _ "256 * Y + y"] conjI) (simp_all add: ih(6) s conj_ac)
qed

lemma and_128: "(t :: int) AND 128 \<noteq> 0 \<longleftrightarrow> 128 \<le> t mod 256"
proof -
  have "t AND 128 = (t AND 255) AND 128" by (simp add: and.assoc)
  also have "\<dots> = t mod 256 AND 128" by (simp only: and_255)
  finally have e: "t AND 128 = t mod 256 AND 128" .
  define y where "y = t mod 256"
  have y: "0 \<le> y" "y < 256" by (simp_all add: y_def)
  have "(y AND 128 = 0) = (\<not> bit y 7)"
    using and_exp_eq_0_iff_not_bit [of y 7] by simp
  also have "bit y 7 = odd (y div 128)" by (simp add: bit_iff_odd)
  also have "odd (y div 128) \<longleftrightarrow> 128 \<le> y" using y by presburger
  finally show ?thesis by (simp add: e y_def)
qed

lemma list8_cases:
  assumes "length xs = 8"
  obtains a b c d e f g h where "xs = [a, b, c, d, e, f, g, h]"
  using assms by (auto simp: length_Suc_conv eval_nat_numeral)

lemma be_nat_diff8:
  assumes "length v = 8" "length w = 8"
  shows "int (be_nat v) - int (be_nat w) = (int (unat (v ! 7)) - int (unat (w ! 7)))
    + 256 * digits (map (\<lambda>i. int (unat (v ! i)) - int (unat (w ! i))) (rev [0 ..< 7]))"
  using assms by (elim list8_cases) (simp add: upt_rec)

text \<open>
  Away from the ends of the 64-bit range the difference saturates at 128 on both sides.  The sequence
  numbers of records have 48 bits, so this is always the case.
\<close>

lemma satsub64be_eq:
  assumes len: "length v = 8" "length w = 8" and small: "be_nat v < 2 ^ 63" "be_nat w < 2 ^ 63"
  shows "satsub64be v w = max (- 128) (min 128 (int (be_nat v) - int (be_nat w)))"
proof -
  define d where "d = (\<lambda>i. int (unat (v ! i)) - int (unat (w ! i)))"
  define ret where "ret = d 7"
  define neg where "neg = (ret AND 128 \<noteq> 0)"
  define b where "b = ret div 256"
  define y where "y = ret mod 256"
  define ds where "ds = map d (rev [0 ..< 7])"
  define D where "D = int (be_nat v) - int (be_nat w)"
  have r: "ret = 256 * b + y" "0 \<le> y" "y < 256" by (simp_all add: b_def y_def)
  have small_d: "\<bar>d i\<bar> \<le> 255" for i
  proof -
    have "unat (v ! i) < 256" "unat (w ! i) < 256" by simp_all
    then show ?thesis unfolding d_def by linarith
  qed
  have b: "b = 0 \<or> b = - 1" using r small_d [of 7] by (auto simp: ret_def)
  have "\<forall>x \<in> set ds. \<bar>x\<bar> \<le> 255" using small_d by (auto simp: ds_def)
  have len_ds: "length ds = 7" by (simp add: ds_def)
  obtain brw' sat' Y where f: "fold (satsub_step neg) ds (b, 0) = (brw', sat')"
    and brw': "brw' = 0 \<or> brw' = - 1" and Y: "0 \<le> Y" "Y < 256 ^ 7" "digits ds + b = brw' * 256 ^ 7 + Y"
    and sat': "sat' AND 255 = 0 \<longleftrightarrow> Y = (if neg then 256 ^ 7 - 1 else 0)"
    using satsub_fold [OF \<open>\<forall>x \<in> set ds. \<bar>x\<bar> \<le> 255\<close> b, of neg 0] unfolding len_ds by auto
  have "D = ret + 256 * digits ds" unfolding D_def ret_def d_def ds_def by (rule be_nat_diff8 [OF len])
  then have D: "D = 256 * (brw' * 256 ^ 7 + Y) + y" using Y(3) r(1) by simp
  have D_small: "\<bar>D\<bar> < 2 ^ 63" using small by (simp add: D_def)
  have neg: "neg \<longleftrightarrow> 128 \<le> y" by (simp only: neg_def and_128 y_def)
  have "fold (\<lambda>i. satsub_step (ret AND 128 \<noteq> 0) (int (unat (v ! i)) - int (unat (w ! i)))) (rev [0 ..< 7]) (b, 0)
      = (brw', sat')"
    using f by (simp only: ds_def fold_map neg_def d_def comp_def)
  then have s: "satsub64be v w = (if sat' AND 255 \<noteq> 0 then push_bit 8 brw' OR 128 else push_bit 8 brw' + y)"
    by (simp add: satsub64be_def Let_def ret_def d_def y_def and_255 b_def drop_bit_eq_div)
  have m [simp]: "NOT (mask 8 :: int) = - 256" by (simp add: mask_eq_exp_minus_1 not_int_def)
  have "satsub64be v w = max (- 128) (min 128 D)"
  proof (cases "brw' = 0")
    case True
    then show ?thesis using D D_small Y r neg sat' by (cases neg) (auto simp: s)
  next
    case False
    then show ?thesis using D D_small Y r neg sat' brw' by (cases neg) (auto simp: s)
  qed
  then show ?thesis by (simp add: D_def)
qed

section \<open>The window\<close>

(* src: include/openssl/dtls1.h@113-120 DTLS1_BITMAP *)
record DTLS1_BITMAP =
  bm_map :: u64
  max_seq_num :: bytes

(* src: ssl/d1_pkt.c@1520-1540 dtls1_record_replay_check *)
definition dtls1_record_replay_check :: "bytes \<Rightarrow> DTLS1_BITMAP \<Rightarrow> bool" where
  "dtls1_record_replay_check seq bm =
     (let cmp = satsub64be seq (max_seq_num bm) in
      if cmp > 0 then True
      else
        let shift = nat (- cmp) in
        if shift \<ge> 64 then False
        else if bm_map bm AND push_bit shift 1 \<noteq> 0 then False
        else True)"

(* src: ssl/d1_pkt.c@1543-1563 dtls1_record_bitmap_update *)
definition dtls1_record_bitmap_update :: "bytes \<Rightarrow> DTLS1_BITMAP \<Rightarrow> DTLS1_BITMAP" where
  "dtls1_record_bitmap_update seq bm =
     (let cmp = satsub64be seq (max_seq_num bm) in
      if cmp > 0 then
        let shift = nat cmp in
        \<lparr>bm_map = (if shift < 64 then push_bit shift (bm_map bm) OR 1 else 1), max_seq_num = seq\<rparr>
      else
        let shift = nat (- cmp) in
        if shift < 64 then bm\<lparr>bm_map := bm_map bm OR push_bit shift 1\<rparr> else bm)"

abbreviation bitmap_zero :: DTLS1_BITMAP where
  "bitmap_zero \<equiv> \<lparr>bm_map = 0, max_seq_num = replicate 8 0\<rparr>"

text \<open>
  A receiver that remembers every sequence number it has accepted, and takes what is new and less
  than 64 behind the highest.
\<close>

definition window_fresh :: "nat list \<Rightarrow> nat \<Rightarrow> bool" where
  "window_fresh seen n \<longleftrightarrow> n \<notin> set seen \<and> fold max seen 0 < n + 64"

text \<open>What the window has to do with that memory.\<close>

definition window_ok :: "DTLS1_BITMAP \<Rightarrow> nat list \<Rightarrow> bool" where
  "window_ok bm seen \<longleftrightarrow> length (max_seq_num bm) = 8 \<and> be_nat (max_seq_num bm) = fold max seen 0 \<and>
     fold max seen 0 < 2 ^ 48 \<and>
     (\<forall>i < 64. bit (bm_map bm) i \<longleftrightarrow> i \<le> fold max seen 0 \<and> fold max seen 0 - i \<in> set seen)"

lemma fold_max_ge: "n \<in> set seen \<Longrightarrow> n \<le> fold max seen 0"
  for n :: nat
  by (metis List.finite_set Max.set_eq_fold Max_ge list.set_intros(2) set_simps(2))

lemma window_ok_init: "window_ok bitmap_zero []"
  by (simp add: window_ok_def replicate_numeral_eq)

lemma and_push_bit_1: "(w AND push_bit n 1 \<noteq> 0) = bit w n" if "n < 64" for w :: u64
proof -
  have "w AND push_bit n 1 = (if bit w n then push_bit n 1 else 0)"
    by (rule bit_word_eqI) (use that in \<open>auto simp: bit_simps\<close>)
  moreover have "push_bit n (1 :: u64) \<noteq> 0"
  proof
    assume "push_bit n (1 :: u64) = 0"
    then have "bit (push_bit n (1 :: u64)) n = bit (0 :: u64) n" by (rule arg_cong)
    then show False using that by (simp add: bit_simps)
  qed
  ultimately show ?thesis by simp
qed

lemma dtls1_replay_check_fresh:
  assumes "window_ok bm seen" "length seq = 8" "be_nat seq < 2 ^ 48"
  shows "dtls1_record_replay_check seq bm \<longleftrightarrow> window_fresh seen (be_nat seq)"
proof -
  let ?m = "fold max seen 0" and ?n = "be_nat seq"
  have m: "length (max_seq_num bm) = 8" "be_nat (max_seq_num bm) = ?m" "?m < 2 ^ 48"
    and bits: "\<And>i. i < 64 \<Longrightarrow> bit (bm_map bm) i \<longleftrightarrow> i \<le> ?m \<and> ?m - i \<in> set seen"
    using assms(1) by (simp_all add: window_ok_def)
  have c: "satsub64be seq (max_seq_num bm) = max (- 128) (min 128 (int ?n - int ?m))"
    using satsub64be_eq [OF assms(2) m(1)] assms(3) m by simp
  show ?thesis
  proof (cases "?n > ?m")
    case True
    then have "?n \<notin> set seen" using fold_max_ge by fastforce
    then show ?thesis using True by (simp add: dtls1_record_replay_check_def c window_fresh_def)
  next
    case False
    define d where "d = ?m - ?n"
    have n: "?n = ?m - d" "d \<le> ?m" using False by (simp_all add: d_def)
    have c': "satsub64be seq (max_seq_num bm) = - int (min d 128)" using False by (simp add: c d_def)
    have "dtls1_record_replay_check seq bm \<longleftrightarrow> d < 64 \<and> \<not> bit (bm_map bm) d"
      unfolding dtls1_record_replay_check_def c' Let_def
      using and_push_bit_1 [of d "bm_map bm"] by (auto simp: min_def)
    also have "\<dots> \<longleftrightarrow> ?n \<notin> set seen \<and> d < 64" using bits [of d] n by auto
    also have "d < 64 \<longleftrightarrow> ?m < ?n + 64" using n by linarith
    finally show ?thesis by (simp add: window_fresh_def)
  qed
qed

lemma fold_max_snoc: "fold max (seen @ [n]) 0 = max n (fold max seen 0)"
  by simp

lemma dtls1_bitmap_update_ok:
  assumes "window_ok bm seen" "length seq = 8" "be_nat seq < 2 ^ 48"
  shows "window_ok (dtls1_record_bitmap_update seq bm) (seen @ [be_nat seq])"
proof -
  let ?m = "fold max seen 0" and ?n = "be_nat seq"
  have m: "length (max_seq_num bm) = 8" "be_nat (max_seq_num bm) = ?m" "?m < 2 ^ 48"
    and bits: "\<And>i. i < 64 \<Longrightarrow> bit (bm_map bm) i \<longleftrightarrow> i \<le> ?m \<and> ?m - i \<in> set seen"
    using assms(1) by (simp_all add: window_ok_def)
  have c: "satsub64be seq (max_seq_num bm) = max (- 128) (min 128 (int ?n - int ?m))"
    using satsub64be_eq [OF assms(2) m(1)] assms(3) m by simp
  show ?thesis
  proof (cases "?n > ?m")
    case True
    define d where "d = ?n - ?m"
    have n: "?n = ?m + d" "0 < d" using True by (simp_all add: d_def)
    have c': "satsub64be seq (max_seq_num bm) = int (min d 128)" using True by (simp add: c d_def)
    have u: "dtls1_record_bitmap_update seq bm
        = \<lparr>bm_map = (if d < 64 then push_bit d (bm_map bm) OR 1 else 1), max_seq_num = seq\<rparr>"
      unfolding dtls1_record_bitmap_update_def c' Let_def using n(2) by (auto simp: min_def)
    have "bit (if d < 64 then push_bit d (bm_map bm) OR 1 else 1) i \<longleftrightarrow> i \<le> ?n \<and> ?n - i \<in> set (seen @ [?n])"
      if i: "i < 64" for i
    proof (cases "i < d")
      case True
      have "?n - i \<notin> set seen" using True n fold_max_ge [of "?n - i" seen] by linarith
      then show ?thesis using True i n by (auto simp: bit_simps)
    next
      case False
      have "?n - i = ?m - (i - d)" "i \<le> ?n \<longleftrightarrow> i - d \<le> ?m" using False n by linarith+
      moreover have "?n - i = ?n \<longleftrightarrow> i = 0" using False n by linarith
      ultimately show ?thesis using False i n bits [of "i - d"] by (auto simp: bit_simps)
    qed
    then show ?thesis
      using assms(2,3) True by (simp add: u window_ok_def)
  next
    case False
    define d where "d = ?m - ?n"
    have n: "?n = ?m - d" "d \<le> ?m" using False by (simp_all add: d_def)
    have c': "satsub64be seq (max_seq_num bm) = - int (min d 128)" using False by (simp add: c d_def)
    have u: "dtls1_record_bitmap_update seq bm
        = (if d < 64 then bm\<lparr>bm_map := bm_map bm OR push_bit d 1\<rparr> else bm)"
      unfolding dtls1_record_bitmap_update_def c' Let_def by (auto simp: min_def)
    have e: "?m - i = ?n \<longleftrightarrow> i = d" if "i \<le> ?m" for i using n that by linarith
    have mx: "max ?n ?m = ?m" using False by simp
    have "bit (if d < 64 then bm_map bm OR push_bit d 1 else bm_map bm) i
        \<longleftrightarrow> i \<le> ?m \<and> ?m - i \<in> set (seen @ [?n])"
      if i: "i < 64" for i
      using bits [OF i] e [of i] n(2) i by (auto simp: bit_simps)
    then show ?thesis
      unfolding window_ok_def fold_max_snoc mx using m by (auto simp: u)
  qed
qed

section \<open>Records and epochs\<close>

text \<open>
  A record as it is read from the wire: the fields of its header, and its body.  The field
  \<open>rrec_seq_num\<close> is the copy of the sequence number that the replay check leaves behind; it is what
  the queues order the records by.
\<close>

(* src: include/openssl/ssl3.h@310-319 SSL3_RECORD *)
record dtls_record =
  rr_type :: u8
  rr_epoch :: u16
  rr_seq :: bytes
  rr_data :: bytes
  rrec_seq_num :: bytes

(* src: include/openssl/dtls1.h@145-149 record_pqueue *)
record record_pqueue =
  rp_epoch :: u16
  rp_q :: "dtls_record pqueue"

(* src: include/openssl/dtls1.h@187-205 dtls1_state_st *)
record dtls1_state =
  r_epoch :: u16
  bitmap :: DTLS1_BITMAP
  next_bitmap :: DTLS1_BITMAP
  unprocessed_rcds :: record_pqueue
  processed_rcds :: record_pqueue
  read_sequence :: bytes
  listen :: bool
  in_handshake :: bool

text \<open>
  Decryption and MAC are a parameter: from the epoch whose keys are in use, the sequence number and
  the type, and the body, they give the plaintext of a genuine record.
\<close>

type_synonym dtls_open = "u16 \<Rightarrow> bytes \<Rightarrow> u8 \<Rightarrow> bytes \<Rightarrow> bytes option"

definition SSL3_RT_ALERT :: u8 where "SSL3_RT_ALERT = 21"
definition SSL3_RT_HANDSHAKE :: u8 where "SSL3_RT_HANDSHAKE = 22"
definition SSL3_RT_MAX_PLAIN_LENGTH :: nat where "SSL3_RT_MAX_PLAIN_LENGTH = 16384"
definition SSL3_RT_MAX_ENCRYPTED_LENGTH :: nat where "SSL3_RT_MAX_ENCRYPTED_LENGTH = 16384 + 1024 + (256 + 64)"

(* src: ssl/d1_pkt.c@1633-1652 dtls1_get_bitmap *)
definition dtls1_get_bitmap :: "dtls1_state \<Rightarrow> dtls_record \<Rightarrow> (DTLS1_BITMAP \<times> bool) option" where
  "dtls1_get_bitmap s rr =
     (if rr_epoch rr = r_epoch s then Some (bitmap s, False)
      else if unat (rr_epoch rr) = unat (r_epoch s) + 1 \<and>
        (rr_type rr = SSL3_RT_HANDSHAKE \<or> rr_type rr = SSL3_RT_ALERT) then Some (next_bitmap s, True)
      else None)"

(* src: ssl/d1_pkt.c@1720-1740 dtls1_reset_seq_numbers *)
definition dtls1_reset_seq_numbers_read :: "dtls1_state \<Rightarrow> dtls1_state" where
  "dtls1_reset_seq_numbers_read s =
     s\<lparr>r_epoch := r_epoch s + 1, bitmap := next_bitmap s, next_bitmap := bitmap_zero,
       read_sequence := replicate 8 0\<rparr>"

(* src: ssl/d1_pkt.c@368-511 dtls1_process_record *)
definition dtls1_process_record :: "dtls_open \<Rightarrow> dtls1_state \<Rightarrow> dtls_record \<Rightarrow> (dtls_record \<times> dtls1_state) option" where
  "dtls1_process_record opn s rr =
     (if length (rr_data rr) > SSL3_RT_MAX_ENCRYPTED_LENGTH then None
      else case opn (r_epoch s) (drop 2 (read_sequence s)) (rr_type rr) (rr_data rr) of
          None \<Rightarrow> None
        | Some plain \<Rightarrow>
            if length plain > SSL3_RT_MAX_PLAIN_LENGTH then None
            else Some (rr\<lparr>rr_data := plain\<rparr>,
                  s\<lparr>bitmap := dtls1_record_bitmap_update (read_sequence s) (bitmap s)\<rparr>))"

text \<open>
  Memory does not run out here.  A record whose number is in the queue already is refused by
  \<open>pqueue_insert\<close>; the second component says whether the record was kept.
\<close>

(* src: ssl/d1_pkt.c@207-255 dtls1_buffer_record *)
definition dtls1_buffer_record :: "record_pqueue \<Rightarrow> dtls_record \<Rightarrow> bytes \<Rightarrow> record_pqueue \<times> bool" where
  "dtls1_buffer_record queue rr prio =
     (if pqueue_size (rp_q queue) \<ge> 100 then (queue, False)
      else case pitem_new True prio rr of
          None \<Rightarrow> (queue, False)
        | Some item \<Rightarrow>
            (case pqueue_insert (rp_q queue) item of
               (None, q) \<Rightarrow> (queue\<lparr>rp_q := q\<rparr>, False)
             | (Some _, q) \<Rightarrow> (queue\<lparr>rp_q := q\<rparr>, True)))"

(* src: ssl/d1_pkt.c@179-199 dtls1_copy_record *)
definition dtls1_copy_record :: "dtls1_state \<Rightarrow> dtls_record \<Rightarrow> dtls1_state" where
  "dtls1_copy_record s rr = s\<lparr>read_sequence := take 2 (read_sequence s) @ rr_seq rr\<rparr>"

text \<open>
  Retrieving a record takes it out of its queue; the two macros differ in the queue.
\<close>

(* src: ssl/d1_pkt.c@258-289 dtls1_retrieve_buffered_record *)
definition dtls1_get_unprocessed_record :: "dtls1_state \<Rightarrow> (dtls_record \<times> dtls1_state) option" where
  "dtls1_get_unprocessed_record s =
     (case pqueue_pop (rp_q (unprocessed_rcds s)) of
        (None, q) \<Rightarrow> None
      | (Some item, q) \<Rightarrow>
          Some (pitem_data item,
            dtls1_copy_record (s\<lparr>unprocessed_rcds := (unprocessed_rcds s)\<lparr>rp_q := q\<rparr>\<rparr>) (pitem_data item)))"

(* src: ssl/d1_pkt.c@258-289 dtls1_get_processed_record *)
definition dtls1_get_processed_record :: "dtls1_state \<Rightarrow> (dtls_record \<times> dtls1_state) option" where
  "dtls1_get_processed_record s =
     (case pqueue_pop (rp_q (processed_rcds s)) of
        (None, q) \<Rightarrow> None
      | (Some item, q) \<Rightarrow>
          Some (pitem_data item,
            dtls1_copy_record (s\<lparr>processed_rcds := (processed_rcds s)\<lparr>rp_q := q\<rparr>\<rparr>) (pitem_data item)))"

lemma pqueue_count_eq: "pqueue_count items n = length items + n"
  by (induction items arbitrary: n) simp_all

lemma get_unprocessed_smaller:
  "dtls1_get_unprocessed_record s = Some (rr, s') \<Longrightarrow>
     pqueue_size (rp_q (unprocessed_rcds s')) < pqueue_size (rp_q (unprocessed_rcds s))"
  by (auto simp: dtls1_get_unprocessed_record_def dtls1_copy_record_def pqueue_pop_def pqueue_size_def
      pqueue_count_eq split: list.splits prod.splits)

lemma process_record_queues:
  "dtls1_process_record opn s rr = Some (rr', s') \<Longrightarrow>
     unprocessed_rcds s' = unprocessed_rcds s \<and> processed_rcds s' = processed_rcds s"
  by (auto simp: dtls1_process_record_def split: if_splits option.splits)

text \<open>The loop stops at the first record that is not genuine, which the boolean tells.\<close>

(* src: ssl/d1_pkt.c@303-313 dtls1_process_buffered_records *)
function dtls1_process_loop :: "dtls_open \<Rightarrow> dtls1_state \<Rightarrow> bool \<times> dtls1_state" where
  "dtls1_process_loop opn s =
     (case dtls1_get_unprocessed_record s of
        None \<Rightarrow> (True, s)
      | Some (rr, s1) \<Rightarrow>
          (case dtls1_process_record opn s1 rr of
             None \<Rightarrow> (False, s1)
           | Some (rr', s2) \<Rightarrow>
               dtls1_process_loop opn
                 (s2\<lparr>processed_rcds := fst (dtls1_buffer_record (processed_rcds s2) rr' (rrec_seq_num rr'))\<rparr>)))"
  by auto
termination
  by (relation "measure (\<lambda>(opn, s). pqueue_size (rp_q (unprocessed_rcds s)))")
    (auto dest!: get_unprocessed_smaller process_record_queues)

declare dtls1_process_loop.simps [simp del]

(* src: ssl/d1_pkt.c@291-320 dtls1_process_buffered_records *)
definition dtls1_process_buffered_records :: "dtls_open \<Rightarrow> dtls1_state \<Rightarrow> dtls1_state" where
  "dtls1_process_buffered_records opn s =
     (if pqueue_peek (rp_q (unprocessed_rcds s)) \<noteq> None \<and> rp_epoch (unprocessed_rcds s) \<noteq> r_epoch s then s
      else
        let (all_done, s1) = (if pqueue_peek (rp_q (unprocessed_rcds s)) \<noteq> None
              then dtls1_process_loop opn s else (True, s)) in
        if \<not> all_done then s1
        else s1\<lparr>processed_rcds := (processed_rcds s1)\<lparr>rp_epoch := r_epoch s1\<rparr>,
               unprocessed_rcds := (unprocessed_rcds s1)\<lparr>rp_epoch := r_epoch s1 + 1\<rparr>\<rparr>)"

text \<open>
  One record whose header has the right version and length, from the match of its epoch on.  Its
  body may be looked at for a ClientHello before it is opened; an empty record is dropped whatever
  that says.  Without a result the next record is read.
\<close>

(* src: ssl/d1_pkt.c@638-688 dtls1_get_record *)
definition dtls1_get_record_step :: "dtls_open \<Rightarrow> dtls1_state \<Rightarrow> dtls_record \<Rightarrow> dtls_record option \<times> dtls1_state" where
  "dtls1_get_record_step opn s0 rr0 =
     (let s = s0\<lparr>read_sequence := take 2 (read_sequence s0) @ rr_seq rr0\<rparr> in
      case dtls1_get_bitmap s rr0 of
        None \<Rightarrow> (None, s)
      | Some (bm, is_next_epoch) \<Rightarrow>
          let hello = listen s \<and> rr_type rr0 = SSL3_RT_HANDSHAKE \<and> take 1 (rr_data rr0) = [1] in
          if \<not> hello \<and> \<not> dtls1_record_replay_check (read_sequence s) bm then (None, s)
          else
            let rr = (if hello then rr0 else rr0\<lparr>rrec_seq_num := read_sequence s\<rparr>) in
            if rr_data rr = [] then (None, s)
            else if is_next_epoch then
              (None,
                if in_handshake s \<and> \<not> listen s then
                  s\<lparr>unprocessed_rcds := fst (dtls1_buffer_record (unprocessed_rcds s) rr (rrec_seq_num rr))\<rparr>
                else s)
            else (case dtls1_process_record opn s rr of None \<Rightarrow> (None, s) | Some (rr', s') \<Rightarrow> (Some rr', s')))"

text \<open>The loop over the records that arrive; without one the call returns to try again.\<close>

(* src: ssl/d1_pkt.c@547-562 dtls1_get_record *)
fun dtls1_get_record_loop :: "dtls_open \<Rightarrow> dtls1_state \<Rightarrow> dtls_record list \<Rightarrow> dtls_record option \<times> dtls1_state \<times> dtls_record list" where
  "dtls1_get_record_loop opn s [] = (None, s, [])"
| "dtls1_get_record_loop opn s (rr # rest) =
     (case dtls1_get_record_step opn s rr of
        (None, s') \<Rightarrow> dtls1_get_record_loop opn s' rest
      | (Some rr', s') \<Rightarrow> (Some rr', s', rest))"

(* src: ssl/d1_pkt.c@527-546 dtls1_get_record *)
definition dtls1_get_record :: "dtls_open \<Rightarrow> dtls1_state \<Rightarrow> dtls_record list \<Rightarrow> dtls_record option \<times> dtls1_state \<times> dtls_record list" where
  "dtls1_get_record opn s incoming =
     (let s1 = dtls1_process_buffered_records opn s in
      case dtls1_get_processed_record s1 of
        Some (rr, s2) \<Rightarrow> (Some rr, s2, incoming)
      | None \<Rightarrow> dtls1_get_record_loop opn s1 incoming)"

section \<open>One epoch\<close>

text \<open>The records that calls of \<open>dtls1_get_record\<close> deliver, one after the other.\<close>

fun dtls1_reads :: "dtls_open \<Rightarrow> nat \<Rightarrow> dtls1_state \<Rightarrow> dtls_record list \<Rightarrow> dtls_record list" where
  "dtls1_reads opn 0 s incoming = []"
| "dtls1_reads opn (Suc n) s incoming =
     (case dtls1_get_record opn s incoming of
        (None, s', rest) \<Rightarrow> []
      | (Some rr, s', rest) \<Rightarrow> rr # dtls1_reads opn n s' rest)"

text \<open>
  The receiver that remembers everything: it opens what belongs to its epoch, is not empty and is
  fresh, and remembers the numbers of the genuine records.
\<close>

definition dtls_opened :: "dtls_open \<Rightarrow> u16 \<Rightarrow> dtls_record \<Rightarrow> bytes option" where
  "dtls_opened opn e rr =
     (if rr_epoch rr \<noteq> e \<or> rr_data rr = [] \<or> length (rr_data rr) > SSL3_RT_MAX_ENCRYPTED_LENGTH then None
      else case opn e (rr_seq rr) (rr_type rr) (rr_data rr) of
          None \<Rightarrow> None
        | Some plain \<Rightarrow> if length plain > SSL3_RT_MAX_PLAIN_LENGTH then None else Some plain)"

fun ideal_receiver :: "dtls_open \<Rightarrow> u16 \<Rightarrow> nat list \<Rightarrow> dtls_record list \<Rightarrow> (bytes \<times> bytes) list" where
  "ideal_receiver opn e seen [] = []"
| "ideal_receiver opn e seen (rr # rest) =
     (case dtls_opened opn e rr of
        None \<Rightarrow> ideal_receiver opn e seen rest
      | Some plain \<Rightarrow>
          if window_fresh seen (be_nat (rr_seq rr))
          then (rr_seq rr, plain) # ideal_receiver opn e (seen @ [be_nat (rr_seq rr)]) rest
          else ideal_receiver opn e seen rest)"

text \<open>
  What holds between two calls in one epoch: nothing is waiting that could be processed now, and
  the window has the numbers of the records delivered so far.
\<close>

definition epoch_ok :: "dtls1_state \<Rightarrow> nat list \<Rightarrow> bool" where
  "epoch_ok s seen \<longleftrightarrow> window_ok (bitmap s) seen \<and> \<not> listen s \<and> pq_items (rp_q (processed_rcds s)) = [] \<and>
     (pq_items (rp_q (unprocessed_rcds s)) = [] \<or> rp_epoch (unprocessed_rcds s) \<noteq> r_epoch s) \<and>
     length (read_sequence s) = 8 \<and> take 2 (read_sequence s) = [0, 0]"

lemma seq8:
  assumes "length seq = 6"
  shows "length ([0, 0] @ seq :: bytes) = 8" "be_nat ([0, 0] @ seq) = be_nat seq" "be_nat seq < 2 ^ 48"
  using assms be_nat_bound [of seq] by simp_all

lemma buffer_record_epoch: "rp_epoch (fst (dtls1_buffer_record q rr p)) = rp_epoch q"
  by (simp add: dtls1_buffer_record_def split: prod.split option.split)

lemma plus_1_neq: "(w :: u16) + 1 \<noteq> w"
  by simp

text \<open>A step on one record does what the ideal receiver does with it.\<close>

lemma get_record_step_ideal:
  assumes ok: "epoch_ok s seen" "rp_epoch (unprocessed_rcds s) \<noteq> r_epoch s" and len: "length (rr_seq rr) = 6"
    and step: "dtls1_get_record_step opn s rr = (res, s')"
  shows "r_epoch s' = r_epoch s \<and> rp_epoch (unprocessed_rcds s') \<noteq> r_epoch s' \<and>
    (case dtls_opened opn (r_epoch s) rr of
       Some plain \<Rightarrow>
         if window_fresh seen (be_nat (rr_seq rr)) then
           (\<exists>rr'. res = Some rr' \<and> rr_seq rr' = rr_seq rr \<and> rr_data rr' = plain) \<and> epoch_ok s' (seen @ [be_nat (rr_seq rr)])
         else res = None \<and> epoch_ok s' seen
     | None \<Rightarrow> res = None \<and> epoch_ok s' seen)"
proof -
  define sq where "sq = [0, 0] @ rr_seq rr"
  have t: "take 2 (read_sequence s) @ rr_seq rr = sq" using ok(1) by (simp add: epoch_ok_def sq_def)
  have w: "window_ok (bitmap s) seen" using ok(1) by (simp add: epoch_ok_def)
  have sq: "length sq = 8" "be_nat sq = be_nat (rr_seq rr)" "be_nat sq < 2 ^ 48" "take 2 sq = [0, 0]" "drop 2 sq = rr_seq rr"
    using seq8 [OF len] by (simp_all add: sq_def)
  note fresh = dtls1_replay_check_fresh [OF w sq(1,3)]
  note upd = dtls1_bitmap_update_ok [OF w sq(1,3)]
  show ?thesis
  proof (cases "rr_epoch rr = r_epoch s")
    case True
    then show ?thesis
      using step ok fresh upd sq
      by (auto simp: dtls1_get_record_step_def t Let_def dtls1_get_bitmap_def epoch_ok_def dtls_opened_def
          dtls1_process_record_def split: option.splits if_splits)
  next
    case False
    then show ?thesis
      using step ok sq
      by (auto simp: dtls1_get_record_step_def t Let_def dtls1_get_bitmap_def epoch_ok_def dtls_opened_def
          buffer_record_epoch split: option.splits if_splits)
  qed
qed

lemma process_buffered_idle:
  assumes "epoch_ok s seen"
  shows "\<exists>s'. dtls1_process_buffered_records opn s = s' \<and> epoch_ok s' seen \<and> r_epoch s' = r_epoch s \<and>
    rp_epoch (unprocessed_rcds s') \<noteq> r_epoch s' \<and> dtls1_get_processed_record s' = None"
  using assms
  by (auto simp: epoch_ok_def dtls1_process_buffered_records_def pqueue_peek_def dtls1_get_processed_record_def
      pqueue_pop_def split: list.splits)

lemma get_record_loop_ideal:
  assumes "epoch_ok s seen" "rp_epoch (unprocessed_rcds s) \<noteq> r_epoch s" "\<forall>rr \<in> set recs. length (rr_seq rr) = 6"
    "dtls1_get_record_loop opn s recs = (res, s', rest)"
  shows "r_epoch s' = r_epoch s \<and> length rest \<le> length recs \<and> (\<forall>rr \<in> set rest. length (rr_seq rr) = 6) \<and>
    (case res of
       None \<Rightarrow> ideal_receiver opn (r_epoch s) seen recs = []
     | Some rr \<Rightarrow> length rest < length recs \<and> epoch_ok s' (seen @ [be_nat (rr_seq rr)]) \<and>
         ideal_receiver opn (r_epoch s) seen recs
           = (rr_seq rr, rr_data rr) # ideal_receiver opn (r_epoch s) (seen @ [be_nat (rr_seq rr)]) rest)"
  using assms
proof (induction recs arbitrary: s)
  case Nil
  then show ?case by simp
next
  case (Cons rr recs)
  obtain res1 s1 where step: "dtls1_get_record_step opn s rr = (res1, s1)" by (cases "dtls1_get_record_step opn s rr")
  note one = get_record_step_ideal [OF Cons.prems(1,2) _ step]
  show ?case
  proof (cases res1)
    case None
    then have "dtls1_get_record_loop opn s1 recs = (res, s', rest)" using Cons.prems(4) step by simp
    with one None Cons.prems(3) Cons.IH [of s1] show ?thesis
      by (force split: option.splits if_splits)
  next
    case (Some rr1)
    then show ?thesis using one Cons.prems step by (auto split: option.splits if_splits)
  qed
qed

lemma dtls1_reads_ideal:
  assumes "epoch_ok s seen" "\<forall>rr \<in> set recs. length (rr_seq rr) = 6" "length recs \<le> n"
  shows "map (\<lambda>rr. (rr_seq rr, rr_data rr)) (dtls1_reads opn n s recs) = ideal_receiver opn (r_epoch s) seen recs"
  using assms
proof (induction n arbitrary: s seen recs)
  case 0
  then show ?case by simp
next
  case (Suc n)
  obtain s1 where s1: "dtls1_process_buffered_records opn s = s1" "epoch_ok s1 seen" "r_epoch s1 = r_epoch s"
    "rp_epoch (unprocessed_rcds s1) \<noteq> r_epoch s1" "dtls1_get_processed_record s1 = None"
    using process_buffered_idle [OF Suc.prems(1), of opn] by auto
  obtain res s' rest where l: "dtls1_get_record_loop opn s1 recs = (res, s', rest)"
    by (cases "dtls1_get_record_loop opn s1 recs") auto
  have "dtls1_get_record opn s recs = (res, s', rest)"
    by (simp add: dtls1_get_record_def s1 l)
  then show ?case
    using get_record_loop_ideal [OF s1(2,4) Suc.prems(2) l] Suc.IH [of s' _ rest] Suc.prems(3)
    by (auto simp: s1(3) split: option.splits)
qed

definition dtls1_epoch_start :: "u16 \<Rightarrow> dtls1_state" where
  "dtls1_epoch_start e =
     \<lparr>r_epoch = e, bitmap = bitmap_zero, next_bitmap = bitmap_zero,
      unprocessed_rcds = \<lparr>rp_epoch = 0, rp_q = \<lparr>pq_items = []\<rparr>\<rparr>,
      processed_rcds = \<lparr>rp_epoch = 0, rp_q = \<lparr>pq_items = []\<rparr>\<rparr>,
      read_sequence = replicate 8 0, listen = False, in_handshake = True\<rparr>"

lemma epoch_start_ok: "epoch_ok (dtls1_epoch_start e) [] \<and> r_epoch (dtls1_epoch_start e) = e"
  using window_ok_init by (simp add: epoch_ok_def dtls1_epoch_start_def numeral_2_eq_2 replicate_numeral_eq)






lemma fold_max_less: "0 < n \<Longrightarrow> \<forall>m \<in> set seen. m < n \<Longrightarrow> fold max seen 0 < n" for n :: nat
  by (metis List.finite_set Max.set_eq_fold Max_less_iff empty_not_insert finite_insert insert_iff list.simps(15))

lemma ideal_receiver_newest:
  assumes "\<forall>r \<in> set recs. be_nat (rr_seq r) < n \<or> dtls_opened opn e r = None" "\<forall>m \<in> set seen. m < n"
    "dtls_opened opn e rr = Some plain" "be_nat (rr_seq rr) = n"
  shows "\<exists>ds. ideal_receiver opn e seen (recs @ [rr]) = ds @ [(rr_seq rr, plain)]"
  using assms
proof (induction recs arbitrary: seen)
  case Nil
  have "fold max seen 0 < n + 64" using fold_max_less [of "n + 64" seen] Nil by fastforce
  then show ?case using Nil by (auto simp: window_fresh_def)
next
  case (Cons r recs)
  then have ih: "\<forall>m \<in> set sn. m < n \<Longrightarrow> \<exists>ds. ideal_receiver opn e sn (recs @ [rr]) = ds @ [(rr_seq rr, plain)]" for sn
    by simp
  show ?case
  proof (cases "dtls_opened opn e r = None \<or> \<not> window_fresh seen (be_nat (rr_seq r))")
    case True
    then show ?thesis using ih [of seen] Cons.prems(2) by (auto split: option.split)
  next
    case False
    then obtain p where p: "dtls_opened opn e r = Some p" "window_fresh seen (be_nat (rr_seq r))" by auto
    with Cons.prems(1,2) obtain ds where
      "ideal_receiver opn e (seen @ [be_nat (rr_seq r)]) (recs @ [rr]) = ds @ [(rr_seq rr, plain)]"
      using ih [of "seen @ [be_nat (rr_seq r)]"] by auto
    with p show ?thesis by (intro exI [of _ "(rr_seq r, p) # ds"]) simp
  qed
qed

text \<open>
  C22: A genuine record with a number above those of the genuine records before it is delivered,
  whatever came before it: nobody who cannot forge a record can make the receiver refuse the
  sender's next one.
\<close>
theorem dtls1_newest_delivered:
  assumes "\<forall>r \<in> set (recs @ [rr]). length (rr_seq r) = 6"
    "\<forall>r \<in> set recs. be_nat (rr_seq r) < be_nat (rr_seq rr) \<or> dtls_opened opn e r = None"
    "dtls_opened opn e rr = Some plain"
  shows "\<exists>ds. map (\<lambda>r. (rr_seq r, rr_data r)) (dtls1_reads opn (length (recs @ [rr])) (dtls1_epoch_start e) (recs @ [rr]))
    = ds @ [(rr_seq rr, plain)]"
  using dtls1_reads_ideal [OF conjunct1 [OF epoch_start_ok] assms(1) order.refl, of opn e]
    ideal_receiver_newest [OF assms(2) _ assms(3) refl, of "[]"] epoch_start_ok by simp

text \<open>A forged record with the number 255 does not keep 1 out.\<close>

lemma dtls1_newest_delivered_witness:
  "\<exists>ds. map (\<lambda>r. (rr_seq r, rr_data r)) (dtls1_reads (\<lambda>e sq t d. if d = [9] then None else Some d) 3 (dtls1_epoch_start 1)
     [\<lparr>rr_type = 23, rr_epoch = 1, rr_seq = [0,0,0,0,0,0], rr_data = [7], rrec_seq_num = []\<rparr>,
      \<lparr>rr_type = 23, rr_epoch = 1, rr_seq = [0,0,0,0,0,255], rr_data = [9], rrec_seq_num = []\<rparr>,
      \<lparr>rr_type = 23, rr_epoch = 1, rr_seq = [0,0,0,0,0,1], rr_data = [7], rrec_seq_num = []\<rparr>])
    = ds @ [([0,0,0,0,0,1], [7])]" (is "\<exists>ds. map _ (dtls1_reads ?opn 3 _ [?r1, ?r2, ?r3]) = _")
proof -
  have "\<forall>r \<in> set ([?r1, ?r2] @ [?r3]). length (rr_seq r) = 6"
    "\<forall>r \<in> set [?r1, ?r2]. be_nat (rr_seq r) < be_nat (rr_seq ?r3) \<or> dtls_opened ?opn 1 r = None"
    "dtls_opened ?opn 1 ?r3 = Some [7]"
    by (simp_all add: dtls_opened_def SSL3_RT_MAX_ENCRYPTED_LENGTH_def SSL3_RT_MAX_PLAIN_LENGTH_def)
  moreover have "length ([?r1, ?r2] @ [?r3]) = 3" "[?r1, ?r2] @ [?r3] = [?r1, ?r2, ?r3]" "rr_seq ?r3 = [0,0,0,0,0,1]" by simp_all
  ultimately show ?thesis using dtls1_newest_delivered [of "[?r1, ?r2]" ?r3 ?opn 1 "[7]"] by (simp only:)
qed

end
