(* ===== verification/DtlsEpoch.thy ===== *)
theory DtlsEpoch
  imports Dtls1
begin

text \<open>
  Records that arrive before the epoch they belong to (\<^verbatim>\<open>ssl/d1_pkt.c\<close>): how the queue of
  \<^theory_text>\<open>PQueue\<close> holds them until the keys change, and what is delivered then.
\<close>

section \<open>Collecting\<close>


text \<open>A record that is early in the epoch \<open>e\<close>.\<close>

definition early_record :: "u16 \<Rightarrow> dtls_record \<Rightarrow> bool" where
  "early_record e rr \<longleftrightarrow> unat (rr_epoch rr) = unat e + 1 \<and> (rr_type rr = SSL3_RT_HANDSHAKE \<or> rr_type rr = SSL3_RT_ALERT) \<and>
     rr_data rr \<noteq> [] \<and> length (rr_seq rr) = 6"

lemma pqueue_size_eq: "pqueue_size q = length (pq_items q)"
  by (simp add: pqueue_size_def pqueue_count_eq)

lemma pitem_new_seq: "length p = 8 \<Longrightarrow> pitem_new True p d = Some \<lparr>priority = Prio64 p, pitem_data = d\<rparr>"
  by (simp add: pitem_new_def mem_read_def)







section \<open>Processing what was collected\<close>









section \<open>Across the change of epoch\<close>






lemma early_epoch: "early_record e rr \<Longrightarrow> rr_epoch rr = e + 1"
proof -
  assume "early_record e rr"
  then have "unat (rr_epoch rr) = unat e + 1" by (simp add: early_record_def)
  then have "word_of_nat (unat (rr_epoch rr)) = (word_of_nat (unat e + 1) :: u16)" by (rule arg_cong)
  then show ?thesis by simp
qed







lemma dtls1_reads_2: "dtls1_reads opn 2 s incoming = dtls1_reads opn (Suc (Suc 0)) s incoming"
  by (simp add: numeral_2_eq_2)

section \<open>What goes wrong at the change of epoch\<close>

text \<open>
  The collected records pass no replay check when they are processed, and the loop stops at the first
  forged one.  The record behind it is then delivered twice when the network has another copy: the
  copy goes through the window, and the next call processes the collected one.
\<close>

lemma dtls1_buffered_replay:
  "let early = [\<lparr>rr_type = 22, rr_epoch = 2, rr_seq = [0,0,0,0,0,0], rr_data = [9], rrec_seq_num = []\<rparr>,
                \<lparr>rr_type = 22, rr_epoch = 2, rr_seq = [0,0,0,0,0,1], rr_data = [7], rrec_seq_num = []\<rparr>];
       opn = (\<lambda>e sq t d. if d = [9] then None else Some d);
       s1 = fst (snd (dtls1_get_record opn (dtls1_epoch_start 1) early))
   in map (\<lambda>rr. (rr_seq rr, rr_data rr))
        (dtls1_reads opn 2 (dtls1_reset_seq_numbers_read s1) [\<lparr>rr_type = 22, rr_epoch = 2, rr_seq = [0,0,0,0,0,1], rr_data = [7], rrec_seq_num = []\<rparr>])
      = [([0,0,0,0,0,1], [7]), ([0,0,0,0,0,1], [7])]"
  by (simp add: dtls1_process_loop.simps dtls1_get_record_def dtls1_process_buffered_records_def dtls1_epoch_start_def
      pqueue_peek_def pqueue_pop_def pqueue_insert_def pqueue_size_eq dtls1_get_processed_record_def
      dtls1_get_unprocessed_record_def dtls1_copy_record_def dtls1_process_record_def dtls1_get_record_step_def
      dtls1_get_bitmap_def dtls1_buffer_record_def dtls1_reset_seq_numbers_read_def dtls1_record_replay_check_def
      dtls1_record_bitmap_update_def satsub64be_eq replicate_numeral_eq pitem_new_seq dtls1_reads_2 Let_def
      SSL3_RT_MAX_ENCRYPTED_LENGTH_def SSL3_RT_MAX_PLAIN_LENGTH_def SSL3_RT_HANDSHAKE_def)

text \<open>
  The window of the next epoch is not updated until its keys come, so a duplicate of an early record
  always reaches the queue, which refuses it; the copy of the record is then lost without being freed.
\<close>

lemma dtls1_duplicate_refused:
  assumes "pqueue_ok (rp_q q)" "length prio = 8" "pqueue_content (rp_q q) (Prio64 prio) \<noteq> None"
  shows "dtls1_buffer_record q rr prio = (q, False)"
proof -
  have "pqueue_insert (rp_q q) \<lparr>priority = Prio64 prio, pitem_data = rr\<rparr> = (None, rp_q q)"
    using dtls_queue.ins_dup [of "rp_q q" "\<lparr>priority = Prio64 prio, pitem_data = rr\<rparr>"] assms
    by (simp add: pitem_ok_def)
  then show ?thesis using assms(2) by (simp add: dtls1_buffer_record_def pitem_new_seq)
qed

end
