(* ===== verification/RsaPkcs1.thy ===== *)
theory RsaPkcs1
  imports Prelude
begin

unbundle bit_operations_syntax

text \<open>
  PKCS#1 v1.5 padding (\<^verbatim>\<open>crypto/rsa/padding.c\<close>): the blocks with fixed padding for signatures, the
  ones with random padding for encryption, whose reader searches the end of the padding without a
  branch on secret bytes, and no padding at all.

  A function that writes a buffer of \<open>tlen\<close> bytes gives its contents; an error is the reason that is
  put into the error queue (a failing random source or digest puts none).  Lengths are below \<open>2 ^ 31\<close>, so that they fit the \<^verbatim>\<open>int\<close> and
  \<^verbatim>\<open>unsigned\<close> variables that hold them.
\<close>

section \<open>Blocks of type 1\<close>

datatype rsa_error =
  KEY_SIZE_TOO_SMALL | DATA_TOO_LARGE_FOR_KEY_SIZE | DATA_TOO_SMALL_FOR_KEY_SIZE | DATA_TOO_SMALL
| BLOCK_TYPE_IS_NOT_01 | BAD_FIXED_HEADER_DECRYPT | NULL_BEFORE_BLOCK_MISSING | BAD_PAD_BYTE_COUNT
| DATA_TOO_LARGE | EMPTY_PUBLIC_KEY | PKCS_DECODING_ERROR | RANDOM_FAILURE | MALLOC_FAILURE | DIGEST_FAILURE
| OAEP_DECODING_ERROR | SLEN_CHECK_FAILED | FIRST_OCTET_INVALID | LAST_OCTET_INVALID | SLEN_RECOVERY_FAILED
| BAD_SIGNATURE

(* src: crypto/rsa/internal.h@70 RSA_PKCS1_PADDING_SIZE *)
definition RSA_PKCS1_PADDING_SIZE :: nat where "RSA_PKCS1_PADDING_SIZE = 11"

(* src: crypto/rsa/padding.c@68-97 RSA_padding_add_PKCS1_type_1 *)
definition RSA_padding_add_PKCS1_type_1 :: "nat \<Rightarrow> bytes \<Rightarrow> rsa_error + bytes" where
  "RSA_padding_add_PKCS1_type_1 tlen inp =
     (if tlen < RSA_PKCS1_PADDING_SIZE then Inl KEY_SIZE_TOO_SMALL
      else if length inp > tlen - RSA_PKCS1_PADDING_SIZE then Inl DATA_TOO_LARGE_FOR_KEY_SIZE
      else Inr ([0, 1] @ replicate (tlen - 3 - length inp) 0xff @ [0] @ inp))"

text \<open>The scan gives the number of bytes before the first zero, or the number of all bytes.\<close>

(* src: crypto/rsa/padding.c@117-130 RSA_padding_check_PKCS1_type_1 *)
fun type_1_scan :: "bytes \<Rightarrow> nat \<Rightarrow> rsa_error + nat" where
  "type_1_scan [] i = Inr i"
| "type_1_scan (b # p) i =
     (if b \<noteq> 0xff then if b = 0 then Inr i else Inl BAD_FIXED_HEADER_DECRYPT
      else type_1_scan p (i + 1))"

(* src: crypto/rsa/padding.c@99-155 RSA_padding_check_PKCS1_type_1 *)
definition RSA_padding_check_PKCS1_type_1 :: "nat \<Rightarrow> bytes \<Rightarrow> rsa_error + bytes" where
  "RSA_padding_check_PKCS1_type_1 tlen inp =
     (if length inp < 2 then Inl DATA_TOO_SMALL
      else if inp ! 0 \<noteq> 0 \<or> inp ! 1 \<noteq> 1 then Inl BLOCK_TYPE_IS_NOT_01
      else
        let j = length inp - 2 in
        case type_1_scan (drop 2 inp) 0 of
          Inl e \<Rightarrow> Inl e
        | Inr i \<Rightarrow>
            if i = j then Inl NULL_BEFORE_BLOCK_MISSING
            else if i < 8 then Inl BAD_PAD_BYTE_COUNT
            else if j - (i + 1) > tlen then Inl DATA_TOO_LARGE
            else Inr (take (j - (i + 1)) (drop (2 + (i + 1)) inp)))"

section \<open>Blocks of type 2\<close>

text \<open>
  The random source is the list of the bytes it has left; it fails when it is asked for more.
\<close>

definition RAND_pseudo_bytes :: "nat \<Rightarrow> bytes \<Rightarrow> (bytes \<times> bytes) option" where
  "RAND_pseudo_bytes n rng = (if length rng < n then None else Some (take n rng, drop n rng))"

text \<open>A zero byte of the padding is drawn again until it is not zero.\<close>

(* src: crypto/rsa/padding.c@187-191 RSA_padding_add_PKCS1_type_2 *)
fun draw_nonzero :: "u8 \<Rightarrow> bytes \<Rightarrow> (u8 \<times> bytes) option" where
  "draw_nonzero b rng =
     (if b \<noteq> 0 then Some (b, rng)
      else case rng of [] \<Rightarrow> None | r # rs \<Rightarrow> draw_nonzero r rs)"

(* src: crypto/rsa/padding.c@186-193 RSA_padding_add_PKCS1_type_2 *)
fun nonzero_bytes :: "bytes \<Rightarrow> bytes \<Rightarrow> (bytes \<times> bytes) option" where
  "nonzero_bytes [] rng = Some ([], rng)"
| "nonzero_bytes (b # p) rng =
     (case draw_nonzero b rng of None \<Rightarrow> None
      | Some (b', rng') \<Rightarrow> map_option (\<lambda>(p', rng''). (b' # p', rng'')) (nonzero_bytes p rng'))"

(* src: crypto/rsa/padding.c@157-199 RSA_padding_add_PKCS1_type_2 *)
definition RSA_padding_add_PKCS1_type_2 :: "bytes \<Rightarrow> nat \<Rightarrow> bytes \<Rightarrow> rsa_error + bytes \<times> bytes" where
  "RSA_padding_add_PKCS1_type_2 rng tlen inp =
     (if tlen < RSA_PKCS1_PADDING_SIZE then Inl KEY_SIZE_TOO_SMALL
      else if length inp > tlen - RSA_PKCS1_PADDING_SIZE then Inl DATA_TOO_LARGE_FOR_KEY_SIZE
      else case RAND_pseudo_bytes (tlen - 3 - length inp) rng of
          None \<Rightarrow> Inl RANDOM_FAILURE
        | Some (p, rng) \<Rightarrow>
            (case nonzero_bytes p rng of
               None \<Rightarrow> Inl RANDOM_FAILURE
             | Some (p, rng) \<Rightarrow> Inr ([0, 2] @ p @ [0] @ inp, rng)))"

text \<open>Values of the C type \<^verbatim>\<open>int\<close> are 32-bit words, compared and shifted as signed numbers.\<close>

(* src: crypto/rsa/padding.c@202-209 constant_time_byte_eq *)
definition constant_time_byte_eq :: "u8 \<Rightarrow> u8 \<Rightarrow> u32" where
  "constant_time_byte_eq a b =
     (let z = NOT (a XOR b);
          z = z AND drop_bit 4 z;
          z = z AND drop_bit 2 z;
          z = z AND drop_bit 1 z
      in ucast z)"

(* src: crypto/rsa/padding.c@213-215 constant_time_select *)
definition constant_time_select :: "u32 \<Rightarrow> u32 \<Rightarrow> u32 \<Rightarrow> u32" where
  "constant_time_select v x y = (NOT (v - 1) AND x) OR ((v - 1) AND y)"

(* src: crypto/rsa/padding.c@219-221 constant_time_le *)
definition constant_time_le :: "u32 \<Rightarrow> u32 \<Rightarrow> u32" where
  "constant_time_le x y = signed_drop_bit 31 (x - y - 1) AND 1"

(* src: crypto/rsa/padding.c@240-246 RSA_message_index_PKCS1_type_2 *)
definition index_step :: "bytes \<Rightarrow> nat \<Rightarrow> u32 \<times> u32 \<Rightarrow> u32 \<times> u32" where
  "index_step inp i st =
     (let (zero_index, looking_for_index) = st;
          equals0 = constant_time_byte_eq (inp ! i) 0
      in (constant_time_select (looking_for_index AND equals0) (word_of_nat i) zero_index,
          constant_time_select equals0 0 looking_for_index))"

text \<open>The result and the index, if there is one.\<close>

(* src: crypto/rsa/padding.c@223-260 RSA_message_index_PKCS1_type_2 *)
definition RSA_message_index_PKCS1_type_2 :: "bytes \<Rightarrow> u32 \<times> nat option" where
  "RSA_message_index_PKCS1_type_2 inp =
     (if length inp < RSA_PKCS1_PADDING_SIZE then (0, None)
      else
        let first_byte_is_zero = constant_time_byte_eq (inp ! 0) 0;
            second_byte_is_two = constant_time_byte_eq (inp ! 1) 2;
            (zero_index, looking_for_index) = fold (index_step inp) [2 ..< length inp] (0, 1);
            valid_index = first_byte_is_zero;
            valid_index = valid_index AND second_byte_is_two;
            valid_index = valid_index AND NOT looking_for_index;
            valid_index = valid_index AND constant_time_le (2 + 8) zero_index
        in (valid_index, Some (unat (zero_index + 1))))"

(* src: crypto/rsa/padding.c@262-292 RSA_padding_check_PKCS1_type_2 *)
definition RSA_padding_check_PKCS1_type_2 :: "nat \<Rightarrow> bytes \<Rightarrow> rsa_error + bytes" where
  "RSA_padding_check_PKCS1_type_2 tlen inp =
     (if length inp = 0 then Inl EMPTY_PUBLIC_KEY
      else case RSA_message_index_PKCS1_type_2 inp of
          (valid_index, msg_index) \<Rightarrow>
            if valid_index = 0 then Inl PKCS_DECODING_ERROR
            else case msg_index of
                None \<Rightarrow> Inl PKCS_DECODING_ERROR
              | Some k \<Rightarrow>
                  if length inp - k > tlen then Inl PKCS_DECODING_ERROR
                  else Inr (take (length inp - k) (drop k inp)))"

section \<open>No padding\<close>

(* src: crypto/rsa/padding.c@294-309 RSA_padding_add_none *)
definition RSA_padding_add_none :: "nat \<Rightarrow> bytes \<Rightarrow> rsa_error + bytes" where
  "RSA_padding_add_none tlen inp =
     (if length inp > tlen then Inl DATA_TOO_LARGE_FOR_KEY_SIZE
      else if length inp < tlen then Inl DATA_TOO_SMALL_FOR_KEY_SIZE
      else Inr inp)"

(* src: crypto/rsa/padding.c@311-320 RSA_padding_check_none *)
definition RSA_padding_check_none :: "nat \<Rightarrow> bytes \<Rightarrow> rsa_error + bytes" where
  "RSA_padding_check_none tlen inp = (if length inp > tlen then Inl DATA_TOO_LARGE else Inr inp)"

section \<open>Type 1: the reader accepts exactly the written blocks\<close>

lemma type_1_scan_iff:
  "type_1_scan xs i = Inr r \<longleftrightarrow>
     (\<exists>k. r = i + k \<and> (xs = replicate k 0xff \<or> (\<exists>ys. xs = replicate k 0xff @ 0 # ys)))"
proof (induction xs arbitrary: i)
  case (Cons b xs)
  show ?case
  proof (cases "b = 0xff")
    case True
    have "(\<exists>k. r = i + k \<and> (b # xs = replicate k 0xff \<or> (\<exists>ys. b # xs = replicate k 0xff @ 0 # ys)))
        \<longleftrightarrow> (\<exists>k. r = i + Suc k \<and> (xs = replicate k 0xff \<or> (\<exists>ys. xs = replicate k 0xff @ 0 # ys)))" (is "?l = ?r")
    proof
      assume ?l
      then obtain k where k: "r = i + k" "b # xs = replicate k 0xff \<or> (\<exists>ys. b # xs = replicate k 0xff @ 0 # ys)" by blast
      then show ?r using True by (cases k) auto
    next
      assume ?r
      then obtain k where "r = i + Suc k" "xs = replicate k 0xff \<or> (\<exists>ys. xs = replicate k 0xff @ 0 # ys)" by blast
      then show ?l using True by (intro exI [of _ "Suc k"]) auto
    qed
    then show ?thesis using True Cons.IH [of "i + 1"] by simp
  next
    case False
    have "(\<exists>k. r = i + k \<and> (b # xs = replicate k 0xff \<or> (\<exists>ys. b # xs = replicate k 0xff @ 0 # ys))) \<longleftrightarrow> r = i \<and> b = 0"
    proof
      assume "\<exists>k. r = i + k \<and> (b # xs = replicate k 0xff \<or> (\<exists>ys. b # xs = replicate k 0xff @ 0 # ys))"
      then obtain k where "r = i + k" "b # xs = replicate k 0xff \<or> (\<exists>ys. b # xs = replicate k 0xff @ 0 # ys)" by blast
      then show "r = i \<and> b = 0" using False by (cases k) auto
    qed auto
    then show ?thesis using False by auto
  qed
qed auto

text \<open>
  The reader of signature blocks accepts a block exactly when it is the one that the writer
  makes of the message: there is one block of a length for each message, and no other is taken.
\<close>
theorem rsa_type_1_exact:
  "RSA_padding_check_PKCS1_type_1 tlen em = Inr m \<longleftrightarrow>
     RSA_padding_add_PKCS1_type_1 (length em) m = Inr em \<and> length m \<le> tlen"
proof
  assume c: "RSA_padding_check_PKCS1_type_1 tlen em = Inr m"
  then have h: "2 \<le> length em" "em ! 0 = 0" "em ! 1 = 1"
    by (auto simp: RSA_padding_check_PKCS1_type_1_def split: if_splits)
  then have "take 2 em = [0, 1]" by (simp add: list_eq_iff_nth_eq less_Suc_eq numeral_2_eq_2)
  then have em: "em = [0, 1] @ drop 2 em" by (metis append_take_drop_id)
  obtain i where i: "type_1_scan (drop 2 em) 0 = Inr i" "i \<noteq> length em - 2" "8 \<le> i" "length em - 2 - (i + 1) \<le> tlen"
    "m = take (length em - 2 - (i + 1)) (drop (2 + (i + 1)) em)"
    using c h by (auto simp: RSA_padding_check_PKCS1_type_1_def Let_def split: if_splits sum.splits)
  have "drop 2 em = replicate i 0xff \<or> (\<exists>ys. drop 2 em = replicate i 0xff @ 0 # ys)"
    using i(1) by (simp add: type_1_scan_iff)
  moreover have "drop 2 em \<noteq> replicate i 0xff"
  proof
    assume "drop 2 em = replicate i 0xff"
    then have "length (drop 2 em) = i" by (simp only: length_replicate)
    then show False using i(2) by simp
  qed
  ultimately obtain ys where "drop 2 em = replicate i 0xff @ 0 # ys" by blast
  then have e: "em = [0, 1] @ replicate i 0xff @ 0 # ys" using em by simp
  then have "m = ys" "length em = i + 3 + length ys" using i(5) by simp_all
  then show "RSA_padding_add_PKCS1_type_1 (length em) m = Inr em \<and> length m \<le> tlen"
    using e i(3,4) by (simp add: RSA_padding_add_PKCS1_type_1_def RSA_PKCS1_PADDING_SIZE_def)
next
  assume a: "RSA_padding_add_PKCS1_type_1 (length em) m = Inr em \<and> length m \<le> tlen"
  define k where "k = length em - 3 - length m"
  have e: "em = [0, 1] @ replicate k 0xff @ [0] @ m" and k: "8 \<le> k" "length em = k + 3 + length m"
    using a by (auto simp: RSA_padding_add_PKCS1_type_1_def RSA_PKCS1_PADDING_SIZE_def k_def split: if_splits)
  have "type_1_scan (drop 2 em) 0 = Inr k" using e by (simp add: type_1_scan_iff)
  then show "RSA_padding_check_PKCS1_type_1 tlen em = Inr m"
    using a k by (simp add: RSA_padding_check_PKCS1_type_1_def) (simp add: e)
qed

lemma rsa_type_1_example:
  "RSA_padding_check_PKCS1_type_1 16 ([0, 1] @ replicate 9 0xff @ [0, 7, 8]) = Inr [7, 8]"
  by (simp add: RSA_padding_check_PKCS1_type_1_def replicate_numeral_eq)

section \<open>Type 2: the search without branches\<close>

lemma constant_time_byte_eq: "constant_time_byte_eq a b = (if a = b then 1 else 0)"
proof -
  define w where "w = a XOR b"
  have w: "w = 0 \<longleftrightarrow> a = b" by (auto simp: w_def bit_eq_iff bit_simps)
  define z where "z = NOT w"
  define z1 where "z1 = z AND drop_bit 4 z"
  define z2 where "z2 = z1 AND drop_bit 2 z1"
  define z3 where "z3 = z2 AND drop_bit 1 z2"
  have nth: "bit z3 n \<longleftrightarrow> bit z n \<and> bit z (n + 1) \<and> bit z (n + 2) \<and> bit z (n + 3)
      \<and> bit z (n + 4) \<and> bit z (n + 5) \<and> bit z (n + 6) \<and> bit z (n + 7)" for n
    by (auto simp: z3_def z2_def z1_def bit_simps add.commute numeral_3_eq_3)
  have "(\<forall>n < 8. \<not> bit w n) \<longleftrightarrow> bit z3 0"
    unfolding nth by (simp add: z_def bit_simps numeral_eq_Suc All_less_Suc) blast
  then have "bit z3 0 \<longleftrightarrow> w = 0" by (auto simp: bit_eq_iff)
  moreover have "\<not> bit z3 n" if "n \<noteq> 0" for n
  proof -
    have "\<not> bit z (n + 7)" using that by (simp add: z_def bit_simps)
    then show ?thesis by (simp only: nth simp_thms)
  qed
  ultimately have "bit z3 n \<longleftrightarrow> n = 0 \<and> a = b" for n
    using w by (cases "n = 0") simp_all
  then have "z3 = (if a = b then 1 else 0)"
    by (intro bit_word_eqI) (auto simp: bit_simps)
  then show ?thesis
    by (simp add: constant_time_byte_eq_def Let_def z3_def z2_def z1_def z_def w_def)
qed

lemma constant_time_select_simps: "constant_time_select 1 x y = x" "constant_time_select 0 x y = y"
  by (simp_all add: constant_time_select_def)

lemma constant_time_le_eq:
  assumes "unat x < 2 ^ 31" "unat y < 2 ^ 31"
  shows "constant_time_le x y = (if x \<le> y then 1 else 0)"
proof -
  have "unat (x - y - 1) div 2 ^ 31 < 2"
    using unsigned_less [of "x - y - 1", where 'a = nat] by (intro less_mult_imp_div_less) simp
  then have "odd (unat (x - y - 1) div 2 ^ 31) \<longleftrightarrow> unat (x - y - 1) div 2 ^ 31 \<noteq> 0"
    by (metis One_nat_def even_zero less_2_cases odd_one)
  then have "bit (x - y - 1) 31 \<longleftrightarrow> 2 ^ 31 \<le> unat (x - y - 1)"
    by (simp add: bit_iff_unat div_eq_0_iff not_less)
  also have "unat (x - y - 1) = (if x \<le> y then 2 ^ 32 + unat x - unat y - 1 else unat x - unat y - 1)"
    using assms by (auto simp: unat_sub_if' word_le_nat_alt unat_word_ariths)
  also have "2 ^ 31 \<le> \<dots> \<longleftrightarrow> x \<le> y"
    using assms by (auto simp: word_le_nat_alt)
  finally have "bit (x - y - 1) 31 \<longleftrightarrow> x \<le> y" .
  then show ?thesis
    unfolding constant_time_le_def by (intro bit_word_eqI) (auto simp: bit_simps Suc_le_eq)
qed

text \<open>The loop ends at the first zero byte.\<close>

lemma index_step_simps [simp]:
  "index_step inp i (z, 1) = (if inp ! i = 0 then (word_of_nat i, 0) else (z, 1))"
  "index_step inp i (z, 0) = (z, 0)"
  by (simp_all add: index_step_def constant_time_byte_eq constant_time_select_simps)

lemma index_step_done: "fold (index_step inp) xs (z, 0) = (z, 0)"
  by (induction xs) simp_all

lemma index_step_find:
  "fold (index_step inp) xs (z, 1)
    = (case find (\<lambda>i. inp ! i = 0) xs of None \<Rightarrow> (z, 1) | Some i \<Rightarrow> (word_of_nat i, 0))"
  by (induction xs) (simp_all add: index_step_done)

lemma find_upt:
  "find P [k ..< n] = Some i \<longleftrightarrow> k \<le> i \<and> i < n \<and> P i \<and> (\<forall>j. k \<le> j \<and> j < i \<longrightarrow> \<not> P j)"
proof (induction "n - k" arbitrary: k)
  case 0
  then show ?case by simp
next
  case (Suc d)
  then have k: "[k ..< n] = k # [Suc k ..< n]" by (simp add: upt_rec)
  have ih: "find P [Suc k ..< n] = Some i \<longleftrightarrow> Suc k \<le> i \<and> i < n \<and> P i \<and> (\<forall>j. Suc k \<le> j \<and> j < i \<longrightarrow> \<not> P j)"
    using Suc by simp
  show ?case
  proof (cases "P k")
    case True
    then show ?thesis using Suc(2) by (auto simp: k)
  next
    case False
    then show ?thesis using ih by (auto simp: k) (metis Suc_leI le_neq_implies_less)+
  qed
qed

lemma check_type_2_find:
  assumes "length inp < 2 ^ 31"
  shows "RSA_padding_check_PKCS1_type_2 tlen inp =
    (if inp = [] then Inl EMPTY_PUBLIC_KEY
     else if length inp < 11 then Inl PKCS_DECODING_ERROR
     else case find (\<lambda>i. inp ! i = 0) [2 ..< length inp] of
         None \<Rightarrow> Inl PKCS_DECODING_ERROR
       | Some i \<Rightarrow>
           if inp ! 0 = 0 \<and> inp ! 1 = 2 \<and> 10 \<le> i \<and> length inp - (i + 1) \<le> tlen then Inr (drop (i + 1) inp)
           else Inl PKCS_DECODING_ERROR)"
proof (cases "find (\<lambda>i. inp ! i = 0) [2 ..< length inp]")
  case None
  then show ?thesis
    by (simp add: RSA_padding_check_PKCS1_type_2_def RSA_message_index_PKCS1_type_2_def RSA_PKCS1_PADDING_SIZE_def
        index_step_find constant_time_byte_eq constant_time_le_eq)
next
  case (Some i)
  then have i: "i < length inp" by (auto simp: find_Some_iff)
  have w: "unat (word_of_nat i :: u32) = i" "unat (word_of_nat i + 1 :: u32) = i + 1"
    using i assms by (simp_all add: unat_of_nat unat_word_ariths)
  have le: "constant_time_le 10 (word_of_nat i) = (if 10 \<le> i then 1 else 0)"
    using i assms w(1) by (subst constant_time_le_eq) (simp_all add: word_le_nat_alt)
  show ?thesis
    using Some w le
    by (simp add: RSA_padding_check_PKCS1_type_2_def RSA_message_index_PKCS1_type_2_def RSA_PKCS1_PADDING_SIZE_def
        index_step_find constant_time_byte_eq)
qed

lemma type_2_accepts:
  assumes "length em < 2 ^ 31" "em = [0, 2] @ ps @ [0] @ m" "8 \<le> length ps" "0 \<notin> set ps" "length m \<le> tlen"
  shows "RSA_padding_check_PKCS1_type_2 tlen em = Inr m"
proof -
  have "find (\<lambda>i. em ! i = 0) [2 ..< length em] = Some (length ps + 2)"
    unfolding find_upt
  proof (intro conjI allI impI)
    fix j assume j: "2 \<le> j \<and> j < length ps + 2"
    then have "em ! j = ps ! (j - 2)" using assms(2) j by (auto simp: nth_append numeral_2_eq_2)
    moreover have "ps ! (j - 2) \<in> set ps" using j by (intro nth_mem) auto
    ultimately show "em ! j \<noteq> 0" using assms(4) by metis
  qed (use assms(2) in simp_all)
  then show ?thesis using assms by (simp add: check_type_2_find)
qed

text \<open>
  C14: The reader of encryption blocks, which looks at every byte and never branches on one, accepts
  exactly the blocks 00 02 PS 00 M of the standard, with a PS of at least 8 bytes and none of them
  zero, and gives M; of a block it refuses it tells nothing more.
\<close>
theorem rsa_type_2_exact:
  assumes "length em < 2 ^ 31"
  shows "(RSA_padding_check_PKCS1_type_2 tlen em = Inr m \<longleftrightarrow>
      (\<exists>ps. em = [0, 2] @ ps @ [0] @ m \<and> 8 \<le> length ps \<and> 0 \<notin> set ps) \<and> length m \<le> tlen) \<and>
    (\<forall>e. RSA_padding_check_PKCS1_type_2 tlen em = Inl e \<longrightarrow> e = (if em = [] then EMPTY_PUBLIC_KEY else PKCS_DECODING_ERROR))"
proof (intro conjI allI impI iffI)
  assume c: "RSA_padding_check_PKCS1_type_2 tlen em = Inr m"
  then obtain i where i: "find (\<lambda>i. em ! i = 0) [2 ..< length em] = Some i" "em ! 0 = 0" "em ! 1 = 2" "10 \<le> i"
    "length em - (i + 1) \<le> tlen" "m = drop (i + 1) em"
    by (auto simp: check_type_2_find [OF assms] split: if_splits option.splits)
  have f: "2 \<le> i" "i < length em" "em ! i = 0" "\<And>j. 2 \<le> j \<Longrightarrow> j < i \<Longrightarrow> em ! j \<noteq> 0"
    using i(1) by (simp_all add: find_upt)
  show "length m \<le> tlen" using i(5,6) by simp
  have "take i em = take 2 em @ drop 2 (take i em)"
    using append_take_drop_id [of 2 "take i em"] f(1) by (simp add: min_def)
  moreover have "em = take i em @ [em ! i] @ drop (i + 1) em" using id_take_nth_drop [OF f(2)] by simp
  ultimately have "em = take 2 em @ drop 2 (take i em) @ [em ! i] @ drop (i + 1) em"
    by (metis append.assoc)
  moreover have "take 2 em = [0, 2]" using i(2,3) f(1,2) by (simp add: list_eq_iff_nth_eq less_Suc_eq numeral_2_eq_2)
  moreover have "0 \<notin> set (drop 2 (take i em))" using f(2,4) by (auto simp: in_set_conv_nth)
  ultimately show "\<exists>ps. em = [0, 2] @ ps @ [0] @ m \<and> 8 \<le> length ps \<and> 0 \<notin> set ps"
    using f i(4,6) by (intro exI [of _ "drop 2 (take i em)"]) simp
next
  assume "(\<exists>ps. em = [0, 2] @ ps @ [0] @ m \<and> 8 \<le> length ps \<and> 0 \<notin> set ps) \<and> length m \<le> tlen"
  then show "RSA_padding_check_PKCS1_type_2 tlen em = Inr m" using type_2_accepts [OF assms] by blast
next
  fix e assume "RSA_padding_check_PKCS1_type_2 tlen em = Inl e"
  then show "e = (if em = [] then EMPTY_PUBLIC_KEY else PKCS_DECODING_ERROR)"
    by (auto simp: check_type_2_find [OF assms] split: if_splits option.splits)
qed

lemma draw_nonzero_enough:
  "0 < length (filter (\<lambda>b. b \<noteq> 0) (b # rng)) \<Longrightarrow>
     \<exists>b' rng'. draw_nonzero b rng = Some (b', rng') \<and> b' \<noteq> 0 \<and>
       length (filter (\<lambda>b. b \<noteq> 0) (b # rng)) = Suc (length (filter (\<lambda>b. b \<noteq> 0) rng'))"
proof (induction rng arbitrary: b)
  case Nil
  then show ?case by (cases "b = 0") simp_all
next
  case (Cons r rng)
  show ?case
  proof (cases "b = 0")
    case True
    then show ?thesis using Cons.IH [of r] Cons.prems by simp
  qed simp
qed

declare draw_nonzero.simps [simp del]

lemma nonzero_bytes_enough:
  "length p \<le> length (filter (\<lambda>b. b \<noteq> 0) (p @ rng)) \<Longrightarrow>
     \<exists>p' rng'. nonzero_bytes p rng = Some (p', rng') \<and> length p' = length p \<and> 0 \<notin> set p'"
proof (induction p arbitrary: rng)
  case (Cons b p)
  let ?nz = "\<lambda>xs :: bytes. length (filter (\<lambda>b. b \<noteq> 0) xs)"
  have "0 < ?nz (b # rng)"
  proof (rule ccontr)
    assume "\<not> 0 < ?nz (b # rng)"
    then have "b = 0" "?nz rng = 0" by (simp_all split: if_splits)
    then have "Suc (length p) \<le> ?nz p" using Cons.prems by simp
    then show False using length_filter_le [of "\<lambda>b. b \<noteq> 0" p] by linarith
  qed
  from draw_nonzero_enough [OF this] obtain b' rng' where d: "draw_nonzero b rng = Some (b', rng')" "b' \<noteq> 0"
    "?nz (b # rng) = Suc (?nz rng')" by blast
  have "?nz ((b # p) @ rng) = ?nz p + ?nz (b # rng)" by simp
  then have "length p \<le> ?nz (p @ rng')" using Cons.prems d(3) by simp
  from Cons.IH [OF this] d show ?case by auto
qed simp

text \<open>
  C17: Whenever the message leaves room for the 11 bytes of padding and the random source has enough
  bytes that are not zero, the writer of encryption blocks finishes with a block of the size of the
  key, and the reader gives the message back.
\<close>
theorem rsa_type_2_roundtrip:
  assumes "length m + 11 \<le> tlen" "tlen < 2 ^ 31"
    "tlen - 3 - length m \<le> length (filter (\<lambda>b. b \<noteq> 0) rng)"
  shows "\<exists>em rng'. RSA_padding_add_PKCS1_type_2 rng tlen m = Inr (em, rng') \<and> length em = tlen \<and>
    RSA_padding_check_PKCS1_type_2 tlen em = Inr m"
proof -
  define j where "j = tlen - 3 - length m"
  have "j \<le> length rng" using assms(3) length_filter_le [of "\<lambda>b. b \<noteq> 0" rng] unfolding j_def by (rule order.trans)
  then have r: "RAND_pseudo_bytes j rng = Some (take j rng, drop j rng)" by (simp add: RAND_pseudo_bytes_def)
  obtain ps rng' where ps: "nonzero_bytes (take j rng) (drop j rng) = Some (ps, rng')" "length ps = j" "0 \<notin> set ps"
    using nonzero_bytes_enough [of "take j rng" "drop j rng"] assms(3) \<open>j \<le> length rng\<close> by (auto simp: j_def)
  let ?em = "[0, 2] @ ps @ [0] @ m"
  have "RSA_padding_add_PKCS1_type_2 rng tlen m = Inr (?em, rng')"
    using assms(1) r ps(1)
    by (simp add: RSA_padding_add_PKCS1_type_2_def RSA_PKCS1_PADDING_SIZE_def j_def)
  moreover have len: "length ?em = tlen" using assms(1) ps(2) by (simp add: j_def)
  moreover have "RSA_padding_check_PKCS1_type_2 tlen ?em = Inr m"
  proof -
    have "length ?em < 2 ^ 31" "8 \<le> length ps" using assms(1,2) len ps(2) by (simp_all add: j_def)
    then show ?thesis using type_2_accepts [of ?em ps m tlen] assms(1) ps(3) by simp
  qed
  ultimately show ?thesis by blast
qed

text \<open>Two bytes of message in a block of 13: the second of the random bytes is zero, and the ninth replaces it.\<close>

lemma rsa_type_2_roundtrip_witness:
  "\<exists>em rng'. RSA_padding_add_PKCS1_type_2 [1, 0, 3, 4, 5, 6, 7, 8, 9] 13 [70, 71] = Inr (em, rng') \<and> length em = 13 \<and>
     RSA_padding_check_PKCS1_type_2 13 em = Inr [70, 71]"
  by (rule rsa_type_2_roundtrip) simp_all

lemma rsa_type_2_exact_witness:
  "RSA_padding_check_PKCS1_type_2 13 [0, 2, 1, 9, 3, 4, 5, 6, 7, 8, 0, 70, 71] = Inr [70, 71]"
  by (rule iffD2 [OF conjunct1 [OF rsa_type_2_exact]])
    (simp_all add: exI [of _ "[1, 9, 3, 4, 5, 6, 7, 8]"])

end
