(* ===== verification/RsaOaep.thy ===== *)
theory RsaOaep
  imports RsaPkcs1 Digest Modes Buf
begin

unbundle bit_operations_syntax

text \<open>
  The mask generation function MGF1 and OAEP padding (\<^verbatim>\<open>crypto/rsa/padding.c\<close>), over the message
  digests of \<^theory_text>\<open>Digest\<close>.

  As there, a function is None where it would use memory that it may not, and \<open>mem\<close> is what malloc
  returns for the state of a digest; a function that sets up several digests has one for each.
  Buffers that are hashed are given with their address; those of malloc and on the stack are aligned.
\<close>

section \<open>MGF1\<close>

(* src: crypto/rsa/padding.c@336-339 PKCS1_MGF1 *)
definition mgf1_cnt :: "u32 \<Rightarrow> bytes" where
  "mgf1_cnt i = map (\<lambda>k. ucast (drop_bit k i AND 255)) [24, 16, 8, 0]"

lemma md_size_pos [simp]: "0 < md_size d"
  by (cases d) simp_all

text \<open>The loop; the result is the mask, or nothing if a digest cannot be set up, and the context.\<close>

(* src: crypto/rsa/padding.c@335-357 PKCS1_MGF1 *)
function mgf1_loop ::
  "malloc_md \<Rightarrow> evp_md \<Rightarrow> nat \<times> bytes \<Rightarrow> nat \<Rightarrow> nat \<Rightarrow> u32 \<Rightarrow> EVP_MD_CTX \<Rightarrow> bytes \<Rightarrow> (bytes option \<times> EVP_MD_CTX) option" where
  "mgf1_loop mem d seed len outlen i c buf =
     (if outlen < len then
        case EVP_DigestInit_ex mem c d of
          None \<Rightarrow> None
        | Some (False, c) \<Rightarrow> Some (None, c)
        | Some (True, c) \<Rightarrow>
            (case Option.bind (EVP_DigestUpdate c seed) (\<lambda>c. EVP_DigestUpdate c (0, mgf1_cnt i)) of
               None \<Rightarrow> None
             | Some c \<Rightarrow>
                 (case EVP_DigestFinal_ex c of
                    None \<Rightarrow> None
                  | Some (None, _, c) \<Rightarrow> Some (None, c)
                  | Some (Some md, _, c) \<Rightarrow>
                      if outlen + md_size d \<le> len
                      then mgf1_loop mem d seed len (outlen + md_size d) (i + 1) c (buf @ md)
                      else mgf1_loop mem d seed len len (i + 1) c (buf @ take (len - outlen) md)))
      else Some (Some buf, c))"
  by auto
termination
  by (relation "measure (\<lambda>(mem, d, seed, len, outlen, i, c, buf). len - outlen)")
    (use md_size_pos in \<open>auto simp: diff_less_mono2\<close>)

declare mgf1_loop.simps [simp del]

(* src: crypto/rsa/padding.c@322-363 PKCS1_MGF1 *)
definition PKCS1_MGF1 :: "malloc_md \<Rightarrow> nat \<Rightarrow> nat \<times> bytes \<Rightarrow> evp_md \<Rightarrow> bytes option option" where
  "PKCS1_MGF1 mem len seed dgst =
     do { (ret, c) \<leftarrow> mgf1_loop mem dgst seed len 0 0 EVP_MD_CTX_init [];
          _ \<leftarrow> EVP_MD_CTX_cleanup c;
          Some ret }"

section \<open>OAEP\<close>

text \<open>A digest that is not given is SHA-1, and the one for the masks is the same as for the label.\<close>

(* src: crypto/rsa/padding.c@374-379 RSA_padding_add_PKCS1_OAEP_mgf1 *)
definition oaep_digests :: "evp_md option \<Rightarrow> evp_md option \<Rightarrow> evp_md \<times> evp_md" where
  "oaep_digests md mgf1md =
     (let md = (case md of None \<Rightarrow> EVP_sha1 | Some d \<Rightarrow> d)
      in (md, case mgf1md of None \<Rightarrow> md | Some d \<Rightarrow> d))"

text \<open>\<open>a\<close> is the address of the block.\<close>

(* src: crypto/rsa/padding.c@365-443 RSA_padding_add_PKCS1_OAEP_mgf1 *)
definition RSA_padding_add_PKCS1_OAEP_mgf1 ::
  "(nat \<Rightarrow> malloc_md) \<Rightarrow> bool \<Rightarrow> bytes \<Rightarrow> nat \<Rightarrow> nat \<Rightarrow> bytes \<Rightarrow> nat \<times> bytes \<Rightarrow> evp_md option \<Rightarrow> evp_md option
    \<Rightarrow> (rsa_error + bytes \<times> bytes) option" where
  "RSA_padding_add_PKCS1_OAEP_mgf1 mem malloc_ok rng a tlen inp param md mgf1md =
     (let (md, mgf1md) = oaep_digests md mgf1md;
          mdlen = md_size md; flen = length inp
      in if tlen < 2 * mdlen + 2 then Some (Inl KEY_SIZE_TOO_SMALL)
      else
        let emlen = tlen - 1 in
        if flen > emlen - 2 * mdlen - 1 then Some (Inl DATA_TOO_LARGE_FOR_KEY_SIZE)
        else if emlen < 2 * mdlen + 1 then Some (Inl KEY_SIZE_TOO_SMALL)
        else
          case EVP_Digest (mem 0) param md of
            None \<Rightarrow> None
          | Some None \<Rightarrow> Some (Inl DIGEST_FAILURE)
          | Some (Some phash) \<Rightarrow>
              let db = phash @ replicate (emlen - flen - 2 * mdlen - 1) 0 @ [0x01] @ inp in
              case RAND_pseudo_bytes mdlen rng of
                None \<Rightarrow> Some (Inl RANDOM_FAILURE)
              | Some (seed, rng) \<Rightarrow>
                  if \<not> malloc_ok then Some (Inl MALLOC_FAILURE)
                  else case PKCS1_MGF1 (mem 1) (emlen - mdlen) (a + 1, seed) mgf1md of
                      None \<Rightarrow> None
                    | Some None \<Rightarrow> Some (Inl DIGEST_FAILURE)
                    | Some (Some dbmask) \<Rightarrow>
                        let db = xor_bytes db dbmask in
                        case PKCS1_MGF1 (mem 2) mdlen (a + mdlen + 1, db) mgf1md of
                          None \<Rightarrow> None
                        | Some None \<Rightarrow> Some (Inl DIGEST_FAILURE)
                        | Some (Some seedmask) \<Rightarrow> Some (Inr ([0] @ xor_bytes seed seedmask @ db, rng)))"

(* src: crypto/rsa/padding.c@500-509 RSA_padding_check_PKCS1_OAEP_mgf1 *)
definition oaep_step :: "bytes \<Rightarrow> nat \<Rightarrow> u32 \<times> u32 \<times> u32 \<Rightarrow> u32 \<times> u32 \<times> u32" where
  "oaep_step db i st =
     (let (bad, one_index, looking_for_one_byte) = st;
          equals1 = constant_time_byte_eq (db ! i) 1;
          equals0 = constant_time_byte_eq (db ! i) 0;
          one_index = constant_time_select (looking_for_one_byte AND equals1) (word_of_nat i) one_index;
          looking_for_one_byte = constant_time_select equals1 0 looking_for_one_byte
      in (bad OR (looking_for_one_byte AND NOT equals0), one_index, looking_for_one_byte))"

(* src: crypto/rsa/padding.c@445-544 RSA_padding_check_PKCS1_OAEP_mgf1 *)
definition RSA_padding_check_PKCS1_OAEP_mgf1 ::
  "(nat \<Rightarrow> malloc_md) \<Rightarrow> bool \<Rightarrow> nat \<Rightarrow> nat \<times> bytes \<Rightarrow> nat \<times> bytes \<Rightarrow> evp_md option \<Rightarrow> evp_md option
    \<Rightarrow> (rsa_error + bytes) option" where
  "RSA_padding_check_PKCS1_OAEP_mgf1 mem malloc_ok tlen inp param md mgf1md =
     (let (md, mgf1md) = oaep_digests md mgf1md;
          mdlen = md_size md; (a, from_bytes) = inp; flen = length from_bytes
      in if flen < 1 + 2 * mdlen + 1 then Some (Inl OAEP_DECODING_ERROR)
      else
        let dblen = flen - mdlen - 1 in
        if \<not> malloc_ok then Some (Inl MALLOC_FAILURE)
        else
          let maskedseed = take mdlen (drop 1 from_bytes);
              maskeddb = drop (1 + mdlen) from_bytes
          in case PKCS1_MGF1 (mem 0) mdlen (a + 1 + mdlen, maskeddb) mgf1md of
              None \<Rightarrow> None
            | Some None \<Rightarrow> Some (Inl DIGEST_FAILURE)
            | Some (Some seed) \<Rightarrow>
                let seed = xor_bytes seed maskedseed in
                case PKCS1_MGF1 (mem 1) dblen (0, seed) mgf1md of
                  None \<Rightarrow> None
                | Some None \<Rightarrow> Some (Inl DIGEST_FAILURE)
                | Some (Some db) \<Rightarrow>
                    let db = xor_bytes db maskeddb in
                    case EVP_Digest (mem 2) param md of
                      None \<Rightarrow> None
                    | Some None \<Rightarrow> Some (Inl DIGEST_FAILURE)
                    | Some (Some phash) \<Rightarrow>
                        (case CRYPTO_memcmp db phash mdlen of
                           None \<Rightarrow> None
                         | Some cmp \<Rightarrow>
                             let bad = ucast cmp OR ucast (from_bytes ! 0);
                                 (bad, one_index, looking_for_one_byte) = fold (oaep_step db) [mdlen ..< dblen] (bad, 0, 1);
                                 bad = bad OR looking_for_one_byte
                             in if bad \<noteq> 0 then Some (Inl OAEP_DECODING_ERROR)
                             else
                               let one_index = unat (one_index + 1); mlen = dblen - one_index in
                               if tlen < mlen then Some (Inl DATA_TOO_LARGE)
                               else Some (Inr (take mlen (drop one_index db)))))"

section \<open>MGF1 is the function of RFC 8017\<close>

definition mgf1_blk :: "evp_md \<Rightarrow> bytes \<Rightarrow> nat \<Rightarrow> bytes" where
  "mgf1_blk d seed i = md_hash_of d (seed @ be_bytes 4 i)"

definition mgf1 :: "evp_md \<Rightarrow> bytes \<Rightarrow> nat \<Rightarrow> bytes" where
  "mgf1 d seed len =
     take len (concat (map (mgf1_blk d seed) [0 ..< (len + md_size d - 1) div md_size d]))"

lemma mgf1_cnt_be: "mgf1_cnt (word_of_nat n) = be_bytes 4 n"
proof -
  have "(mask 8 :: u32) = 255" by (simp add: mask_eq_exp_minus_1)
  moreover have "ucast (w AND mask 8) = (ucast w :: u8)" for w :: u32
    by (rule bit_word_eqI) (simp add: bit_simps)
  ultimately have "ucast (w AND 255) = (ucast w :: u8)" for w :: u32 by simp
  then have "mgf1_cnt w = HOST_l2c True w" for w :: u32
    by (simp add: mgf1_cnt_def HOST_l2c_def Let_def)
  then have "mgf1_cnt (word_of_nat n) = be_bytes 4 (unat (word_of_nat n :: u32))" by (simp only: be_bytes_4)
  also have "unat (word_of_nat n :: u32) = n mod 256 ^ 4" by (simp add: unat_of_nat)
  also have "be_bytes 4 (n mod 256 ^ 4) = be_bytes 4 n" by (rule be_bytes_mod)
  finally show ?thesis .
qed

lemma mgf1_blocks_left:
  "outlen < len \<Longrightarrow> h \<noteq> 0 \<Longrightarrow> (len - outlen + h - 1) div h = Suc ((len - (outlen + h) + h - 1) div h)"
proof -
  assume a: "outlen < len" and h: "h \<noteq> 0"
  have s: "(y + h) div h = Suc (y div h)" for y by (simp only: div_add_self2 [OF h] Suc_eq_plus1)
  show ?thesis
  proof (cases "outlen + h \<le> len")
    case True
    then have "len - outlen + h - 1 = (len - (outlen + h) + h - 1) + h" using a h by simp
    then show ?thesis by (simp only: s)
  next
    case False
    then have "len - outlen + h - 1 = (len - outlen - 1) + h" "(len - outlen - 1) div h = 0" using a h by simp_all
    moreover have "(len - (outlen + h) + h - 1) div h = 0" using False h by simp
    ultimately show ?thesis by (simp only: s)
  qed
qed

lemma mgf1_loop_eq:
  assumes "evp_ready c" "outlen \<le> len"
  shows "\<exists>c'. mgf1_loop (Some m) d seed len outlen (word_of_nat k) c buf
      = Some (Some (buf @ take (len - outlen) (concat (map (mgf1_blk d (snd seed)) [k ..< k + (len - outlen + md_size d - 1) div md_size d]))), c')
    \<and> evp_ready c'"
  using assms
proof (induction "len - outlen" arbitrary: outlen k c buf rule: less_induct)
  case less
  show ?case
  proof (cases "outlen < len")
    case False
    then show ?thesis using less.prems by (subst mgf1_loop.simps) simp
  next
    case True
    obtain c1 where c1: "EVP_DigestInit_ex (Some m) c d = Some (True, c1)" "evp_holds d c1 []"
      using EVP_DigestInit_ex_holds [OF less.prems(1)] by blast
    obtain c2 where c2: "EVP_DigestUpdate c1 seed = Some c2" "evp_holds d c2 (snd seed)"
      using EVP_DigestUpdate_holds [OF c1(2), of seed] by auto
    obtain c3 where c3: "EVP_DigestUpdate c2 (0, mgf1_cnt (word_of_nat k)) = Some c3"
      "evp_holds d c3 (snd seed @ be_bytes 4 k)"
      using EVP_DigestUpdate_holds [OF c2(2), of "(0, mgf1_cnt (word_of_nat k))"] by (auto simp: mgf1_cnt_be)
    obtain c4 where c4: "EVP_DigestFinal_ex c3 = Some (Some (mgf1_blk d (snd seed) k), md_size d, c4)" "evp_ready c4"
      using EVP_DigestFinal_ex_holds [OF c3(2)] by (auto simp: mgf1_blk_def)
    let ?h = "md_size d"
    have len_blk: "length (mgf1_blk d sd i) = ?h" for sd i by (simp add: mgf1_blk_def)
    have n: "[k ..< k + (len - outlen + ?h - 1) div ?h]
        = k # [Suc k ..< Suc k + (len - (outlen + ?h) + ?h - 1) div ?h]"
      using mgf1_blocks_left [OF True, of ?h] md_size_pos [of d] by (simp add: upt_conv_Cons)
    have i: "(word_of_nat k + 1 :: u32) = word_of_nat (Suc k)" by simp
    show ?thesis
    proof (cases "outlen + ?h \<le> len")
      case fits: True
      have "len - (outlen + ?h) < len - outlen" using True md_size_pos [of d] by linarith
      from less.hyps [OF this c4(2) fits, of "Suc k" "buf @ mgf1_blk d (snd seed) k"] obtain c' where
        "mgf1_loop (Some m) d seed len (outlen + ?h) (word_of_nat (Suc k)) c4 (buf @ mgf1_blk d (snd seed) k)
          = Some (Some ((buf @ mgf1_blk d (snd seed) k) @ take (len - (outlen + ?h))
              (concat (map (mgf1_blk d (snd seed)) [Suc k ..< Suc k + (len - (outlen + ?h) + ?h - 1) div ?h]))), c')" "evp_ready c'"
        by blast
      then show ?thesis
        using True fits by (subst mgf1_loop.simps, unfold n i) (simp add: c1 c2 c3 c4 len_blk)
    next
      case False
      have e: "mgf1_loop (Some m) d seed len len j c4 b = Some (Some b, c4)" for j b
        by (subst mgf1_loop.simps) simp
      show ?thesis
        using True False c4(2) by (subst mgf1_loop.simps, unfold n i) (simp add: c1 c2 c3 c4 e len_blk)
    qed
  qed
qed

lemma PKCS1_MGF1_eq: "PKCS1_MGF1 (Some m) len seed d = Some (Some (mgf1 d (snd seed) len))"
proof -
  obtain c' where "mgf1_loop (Some m) d seed len 0 (word_of_nat 0) EVP_MD_CTX_init []
      = Some (Some ([] @ take (len - 0) (concat (map (mgf1_blk d (snd seed)) [0 ..< 0 + (len - 0 + md_size d - 1) div md_size d]))), c')"
    "evp_ready c'"
    using mgf1_loop_eq [OF evp_ready_init, of 0 len m d seed 0 "[]"] by blast
  then show ?thesis by (simp add: PKCS1_MGF1_def EVP_MD_CTX_cleanup_def evp_ready_def mgf1_def)
qed

lemma mgf1_0: "mgf1 d seed 0 = []"
  by (simp add: mgf1_def)

lemma length_mgf1 [simp]: "length (mgf1 d seed len) = len"
proof -
  have "len \<le> (len + md_size d - 1) div md_size d * md_size d"
  proof -
    define q where "q = (len + md_size d - 1) div md_size d"
    define r where "r = (len + md_size d - 1) mod md_size d"
    have "q * md_size d + r = len + md_size d - 1" "r < md_size d" by (simp_all add: q_def r_def)
    then show ?thesis unfolding q_def [symmetric] by linarith
  qed
  moreover have "length (concat (map (mgf1_blk d seed) xs)) = length xs * md_size d" for xs
    by (induction xs) (simp_all add: mgf1_blk_def)
  ultimately show ?thesis by (simp add: mgf1_def)
qed

text \<open>
  PKCS1_MGF1 computes the mask generation function of RFC 8017 for each of the six digests, and
  fails exactly when a mask is wanted and there is no memory for the digest.
\<close>
theorem mgf1_is_rfc8017:
  "PKCS1_MGF1 mem len seed d = Some (if len = 0 \<or> mem \<noteq> None then Some (mgf1 d (snd seed) len) else None) \<and>
   length (mgf1 d (snd seed) len) = len"
proof (cases mem)
  case None
  have "EVP_DigestInit_ex None EVP_MD_CTX_init d
      = Some (False, EVP_MD_CTX_init\<lparr>digest := Some d, update := Some d\<rparr>)"
    by (simp add: EVP_DigestInit_ex_def EVP_MD_CTX_init_def Let_def)
  then show ?thesis
    using None
    by (simp add: PKCS1_MGF1_def mgf1_loop.simps [of _ _ _ _ 0] EVP_MD_CTX_cleanup_def EVP_MD_CTX_init_def mgf1_0)
next
  case (Some m)
  then show ?thesis by (simp add: PKCS1_MGF1_eq)
qed

section \<open>The blocks of OAEP\<close>

text \<open>
  The block of \<open>n\<close> bytes that RFC 8017 makes of the message \<open>m\<close>, the label and a seed.
\<close>

definition oaep_db :: "evp_md \<Rightarrow> bytes \<Rightarrow> nat \<Rightarrow> bytes \<Rightarrow> bytes" where
  "oaep_db d label n m = md_hash_of d label @ replicate (n - length m - 2 * md_size d - 2) 0 @ [1] @ m"

definition oaep_encode :: "evp_md \<Rightarrow> evp_md \<Rightarrow> bytes \<Rightarrow> nat \<Rightarrow> bytes \<Rightarrow> bytes \<Rightarrow> bytes" where
  "oaep_encode d mg label n seed m =
     (let mdb = xor_bytes (oaep_db d label n m) (mgf1 mg seed (n - md_size d - 1))
      in [0] @ xor_bytes seed (mgf1 mg mdb (md_size d)) @ mdb)"

lemma length_oaep_db: "length m + 2 * md_size d + 2 \<le> n \<Longrightarrow> length (oaep_db d label n m) = n - md_size d - 1"
  by (simp add: oaep_db_def)

lemma length_oaep_encode:
  "length m + 2 * md_size d + 2 \<le> n \<Longrightarrow> length seed = md_size d \<Longrightarrow> length (oaep_encode d mg label n seed m) = n"
  by (simp add: oaep_encode_def Let_def length_oaep_db)

lemma oaep_add_encodes:
  assumes "oaep_digests md mgf1md = (d, mg)" "length m + 2 * md_size d + 2 \<le> tlen" "md_size d \<le> length rng"
    "\<forall>i. mem i \<noteq> None"
  shows "RSA_padding_add_PKCS1_OAEP_mgf1 mem True rng a tlen m param md mgf1md
    = Some (Inr (oaep_encode d mg (snd param) tlen (take (md_size d) rng) m, drop (md_size d) rng))"
proof -
  obtain m0 m1 m2 where "mem 0 = Some m0" "mem 1 = Some m1" "mem 2 = Some m2" using assms(4) by blast
  moreover have "\<not> tlen < 2 * md_size d + 2" "\<not> length m > tlen - 1 - 2 * md_size d - 1" "\<not> tlen - 1 < 2 * md_size d + 1"
    "tlen - 1 - md_size d = tlen - md_size d - 1" "tlen - 1 - length m - 2 * md_size d - 1 = tlen - length m - 2 * md_size d - 2"
    using assms(2) by linarith+
  ultimately show ?thesis using assms(1,3)
    by (simp only: RSA_padding_add_PKCS1_OAEP_mgf1_def EVP_Digest_eq RAND_pseudo_bytes_def PKCS1_MGF1_eq
        oaep_encode_def oaep_db_def Let_def) simp
qed

section \<open>The reader of OAEP\<close>

text \<open>Without branches, the loop finds whether the bytes are zeros and a one, and where the one is.\<close>

lemma oaep_step_simps:
  "oaep_step db i (bad, one, 1) =
     (if db ! i = 1 then (bad, word_of_nat i, 0) else if db ! i = 0 then (bad, one, 1) else (bad OR 1, one, 1))"
  "oaep_step db i (bad, one, 0) = (bad, one, 0)"
  by (simp_all add: oaep_step_def constant_time_byte_eq constant_time_select_simps)

lemma oaep_done: "fold (oaep_step db) xs (bad, one, 0) = (bad, one, 0)"
  by (induction xs) (simp_all add: oaep_step_simps)

lemma oaep_bad: "bad \<noteq> 0 \<Longrightarrow> \<exists>bad' one' l'. fold (oaep_step db) xs (bad, one, 1) = (bad', one', l') \<and> bad' \<noteq> 0"
proof (induction xs arbitrary: bad)
  case (Cons i xs)
  have "bad OR 1 \<noteq> 0" by (simp only: or_eq_0_iff) simp
  then show ?case using Cons by (auto simp: oaep_step_simps oaep_done)
qed simp

lemma oaep_scan:
  assumes "j \<le> length db"
  shows "\<exists>bad' one' l'. fold (oaep_step db) [j ..< length db] (bad, one, 1) = (bad', one', l') \<and>
    (bad' OR l' = 0 \<longleftrightarrow> bad = 0 \<and> (\<exists>k m. drop j db = replicate k 0 @ [1] @ m)) \<and>
    (\<forall>k m. bad = 0 \<longrightarrow> drop j db = replicate k 0 @ [1] @ m \<longrightarrow> one' = word_of_nat (j + k))"
  using assms
proof (induction "length db - j" arbitrary: j bad)
  case 0
  have "bad OR 1 \<noteq> 0" by (simp only: or_eq_0_iff) simp
  with 0 show ?case by simp
next
  case (Suc n)
  then have j: "[j ..< length db] = j # [Suc j ..< length db]" "drop j db = db ! j # drop (Suc j) db"
    by (simp_all add: upt_conv_Cons Cons_nth_drop_Suc)
  have cons: "(b # r = replicate k 0 @ [1] @ m) \<longleftrightarrow> (k = 0 \<and> b = 1 \<and> r = m) \<or> (\<exists>k'. k = Suc k' \<and> b = 0 \<and> r = replicate k' 0 @ [1] @ m)"
    for b :: u8 and r k m by (cases k) auto
  consider "db ! j = 1" | "db ! j = 0" | "db ! j \<noteq> 1" "db ! j \<noteq> 0" by blast
  then show ?case
  proof cases
    case 1
    then show ?thesis unfolding j cons by (simp add: oaep_step_simps oaep_done)
  next
    case 2
    have "n = length db - Suc j" "Suc j \<le> length db" using Suc(2,3) by simp_all
    from Suc(1) [OF this, of bad] obtain bad' one' l' where
      ih: "fold (oaep_step db) [Suc j ..< length db] (bad, one, 1) = (bad', one', l')"
      "bad' OR l' = 0 \<longleftrightarrow> bad = 0 \<and> (\<exists>k m. drop (Suc j) db = replicate k 0 @ [1] @ m)"
      "\<forall>k m. bad = 0 \<longrightarrow> drop (Suc j) db = replicate k 0 @ [1] @ m \<longrightarrow> one' = word_of_nat (Suc j + k)"
      by blast
    have shift: "drop j db = replicate k 0 @ [1] @ m \<longleftrightarrow> (\<exists>k'. k = Suc k' \<and> drop (Suc j) db = replicate k' 0 @ [1] @ m)" for k m
      unfolding j cons using 2 by simp
    have "one' = word_of_nat (j + k)" if z: "bad = 0" "drop j db = replicate k 0 @ [1] @ m" for k m
    proof -
      obtain k' where k': "k = Suc k'" "drop (Suc j) db = replicate k' 0 @ [1] @ m" using z(2) unfolding shift by blast
      have "one' = word_of_nat (Suc j + k')" using ih(3) z(1) k'(2) by blast
      then show ?thesis by (simp add: k'(1))
    qed
    moreover have "(\<exists>k m. drop j db = replicate k 0 @ [1] @ m) \<longleftrightarrow> (\<exists>k m. drop (Suc j) db = replicate k 0 @ [1] @ m)"
      unfolding shift by blast
    moreover have "fold (oaep_step db) [j ..< length db] (bad, one, 1) = (bad', one', l')"
      using ih(1) 2 by (simp add: j(1) oaep_step_simps)
    ultimately show ?thesis using ih(2) by (intro exI [of _ bad'] exI [of _ one'] exI [of _ l']) simp
  next
    case 3
    have "bad OR 1 \<noteq> 0" by (simp only: or_eq_0_iff) simp
    from oaep_bad [OF this, of db "[Suc j ..< length db]" one] show ?thesis
      unfolding j cons using 3 by (auto simp: oaep_step_simps or_eq_0_iff)
  qed
qed

lemma xor_bytes_commute: "xor_bytes xs ys = xor_bytes ys xs"
proof -
  have "(\<lambda>(x, y). x XOR y) \<circ> (\<lambda>(x, y). (y, x)) = (\<lambda>(x, y). x XOR y)" for x y :: u8
    by (auto simp: fun_eq_iff xor.commute)
  then show ?thesis
    unfolding xor_bytes_def by (subst zip_commute) (simp add: xor.commute comp_def case_prod_beta)
qed

text \<open>What the reader computes from a block: the seed and the data block.\<close>

definition oaep_seed :: "evp_md \<Rightarrow> evp_md \<Rightarrow> bytes \<Rightarrow> bytes" where
  "oaep_seed d mg em =
     xor_bytes (mgf1 mg (drop (1 + md_size d) em) (md_size d)) (take (md_size d) (drop 1 em))"

definition oaep_data :: "evp_md \<Rightarrow> evp_md \<Rightarrow> bytes \<Rightarrow> bytes" where
  "oaep_data d mg em =
     xor_bytes (mgf1 mg (oaep_seed d mg em) (length em - md_size d - 1)) (drop (1 + md_size d) em)"

lemma drop_zeros_one: "dropWhile (\<lambda>b. b = 0) (replicate k 0 @ [1] @ m) = [1] @ m" for m :: bytes
  by (subst dropWhile_append2) simp_all

lemma oaep_check_eq:
  assumes "oaep_digests md mgf1md = (d, mg)" "2 * md_size d + 2 \<le> length em" "\<forall>i. mem i \<noteq> None" "length em < 2 ^ 31"
  defines "db \<equiv> oaep_data d mg em"
  shows "RSA_padding_check_PKCS1_OAEP_mgf1 mem True tlen (a, em) param md mgf1md = Some
    (if em ! 0 = 0 \<and> take (md_size d) db = md_hash_of d (snd param) \<and> (\<exists>k m. drop (md_size d) db = replicate k 0 @ [1] @ m) then
       let m = drop 1 (dropWhile (\<lambda>b. b = 0) (drop (md_size d) db)) in
       if tlen < length m then Inl DATA_TOO_LARGE else Inr m
     else Inl OAEP_DECODING_ERROR)"
proof -
  let ?h = "md_size d" and ?n = "length em"
  let ?db = "xor_bytes (mgf1 mg (oaep_seed d mg em) (?n - ?h - 1)) (drop (1 + ?h) em)"
  obtain m0 m1 m2 where mem: "mem 0 = Some m0" "mem (Suc 0) = Some m1" "mem 2 = Some m2" using assms(3) by blast
  have len_db: "length db = ?n - ?h - 1" by (simp add: db_def oaep_data_def)
  have h: "?h \<le> length db" using assms(2) len_db by linarith
  obtain cmp where cmp: "CRYPTO_memcmp db (md_hash_of d (snd param)) ?h = Some cmp"
    "cmp = 0 \<longleftrightarrow> take ?h db = md_hash_of d (snd param)"
    using CRYPTO_memcmp_loop_0 [OF h, of "md_hash_of d (snd param)" 0] by (auto simp: CRYPTO_memcmp_def)
  define bad :: u32 where "bad = ucast cmp OR ucast (em ! 0)"
  have bad: "bad = 0 \<longleftrightarrow> take ?h db = md_hash_of d (snd param) \<and> em ! 0 = 0"
  proof -
    have "(ucast x :: u32) = 0 \<longleftrightarrow> x = 0" for x :: u8 using ucast_u8_u32_inj [of x 0] by simp
    then show ?thesis using cmp(2) by (simp add: bad_def or_eq_0_iff)
  qed
  obtain bad' one l where f: "fold (oaep_step db) [?h ..< length db] (bad, 0, 1) = (bad', one, l)"
    "bad' OR l = 0 \<longleftrightarrow> bad = 0 \<and> (\<exists>k m. drop ?h db = replicate k 0 @ [1] @ m)"
    "\<forall>k m. bad = 0 \<longrightarrow> drop ?h db = replicate k 0 @ [1] @ m \<longrightarrow> one = word_of_nat (?h + k)"
    using oaep_scan [OF h, of bad 0] by blast
  have c: "RSA_padding_check_PKCS1_OAEP_mgf1 mem True tlen (a, em) param md mgf1md = Some
      (if bad' OR l \<noteq> 0 then Inl OAEP_DECODING_ERROR
       else let one_index = unat (one + 1); mlen = length db - one_index in
         if tlen < mlen then Inl DATA_TOO_LARGE else Inr (take mlen (drop one_index db)))"
    using assms(1,2) cmp(1) f(1) len_db
    unfolding db_def oaep_data_def oaep_seed_def bad_def
    by (simp add: RSA_padding_check_PKCS1_OAEP_mgf1_def PKCS1_MGF1_eq mem EVP_Digest_eq Let_def)
  show ?thesis
  proof (cases "bad = 0 \<and> (\<exists>k m. drop ?h db = replicate k 0 @ [1] @ m)")
    case True
    then obtain k m where km: "bad = 0" "drop ?h db = replicate k 0 @ [1] @ m" by blast
    then have one: "one = word_of_nat (?h + k)" using f(3) by blast
    have len: "length db - ?h = k + 1 + length m" using arg_cong [OF km(2), of length] by simp
    have "?h + k + 1 \<le> length em" using len len_db h by linarith
    also have "\<dots> < 2 ^ 32" using assms(4) by simp
    finally have "?h + k + 1 < 2 ^ 32" .
    then have u: "unat (one + 1) = ?h + k + 1"
      using one by (simp add: unat_word_ariths unat_of_nat)
    have m: "drop (?h + k + 1) db = m" "length db - (?h + k + 1) = length m"
      using arg_cong [OF km(2), of "drop (k + 1)"] len by (simp_all add: add.commute)
    show ?thesis
      using c f(2) True bad u m drop_zeros_one [of k m] by (auto simp: Let_def km(2))
  next
    case False
    then show ?thesis using c f(2) bad by auto
  qed
qed

lemma xor_bytes_back:
  "length xs = length ys \<Longrightarrow> xor_bytes xs (xor_bytes ys xs) = ys"
  "length xs = length ys \<Longrightarrow> xor_bytes (xor_bytes xs ys) xs = ys"
  by (simp add: xor_bytes_commute [of xs]) (metis xor_bytes_commute xor_bytes_twice order_refl)

text \<open>A block is the encoding of a message exactly when its seed and data block say so.\<close>

lemma oaep_encode_iff:
  assumes "length m + 2 * md_size d + 2 \<le> length em"
  shows "(\<exists>seed. length seed = md_size d \<and> em = oaep_encode d mg label (length em) seed m) \<longleftrightarrow>
    em ! 0 = 0 \<and> oaep_data d mg em = oaep_db d label (length em) m"
proof -
  let ?h = "md_size d" and ?n = "length em"
  define b where "b = em ! 0"
  define ms where "ms = take ?h (drop 1 em)"
  define mdb where "mdb = drop (1 + ?h) em"
  define db where "db = oaep_db d label ?n m"
  have len: "length ms = ?h" "length mdb = ?n - ?h - 1" "length db = ?n - ?h - 1"
    using assms by (simp_all add: ms_def mdb_def db_def length_oaep_db)
  have em: "em = [b] @ ms @ mdb"
  proof -
    have "em = [b] @ drop 1 em" using assms by (cases em) (simp_all add: b_def)
    also have "drop 1 em = ms @ drop ?h (drop 1 em)" unfolding ms_def by (rule append_take_drop_id [symmetric])
    also have "drop ?h (drop 1 em) = mdb" by (simp add: mdb_def add.commute)
    finally show ?thesis .
  qed
  have s: "oaep_seed d mg em = xor_bytes (mgf1 mg mdb ?h) ms"
    "oaep_data d mg em = xor_bytes (mgf1 mg (oaep_seed d mg em) (?n - ?h - 1)) mdb"
    by (simp_all add: oaep_seed_def oaep_data_def ms_def mdb_def)
  show ?thesis
  proof (intro iffI conjI; (elim exE conjE)?)
    fix seed assume seed: "length seed = ?h" "em = oaep_encode d mg label ?n seed m"
    have "[b] @ ms @ mdb = em" by (rule em [symmetric])
    also have "\<dots> = oaep_encode d mg label ?n seed m" by (rule seed(2))
    also have "\<dots> = [0] @ xor_bytes seed (mgf1 mg (xor_bytes db (mgf1 mg seed (?n - ?h - 1))) ?h)
        @ xor_bytes db (mgf1 mg seed (?n - ?h - 1))"
      by (simp only: oaep_encode_def Let_def db_def)
    finally have e: "[b] @ ms @ mdb = [0] @ xor_bytes seed (mgf1 mg (xor_bytes db (mgf1 mg seed (?n - ?h - 1))) ?h)
        @ xor_bytes db (mgf1 mg seed (?n - ?h - 1))" .
    then have b0: "b = 0" and mdb: "mdb = xor_bytes db (mgf1 mg seed (?n - ?h - 1))"
      and ms: "ms = xor_bytes seed (mgf1 mg mdb ?h)"
      using len seed(1) by auto
    show "em ! 0 = 0" using b0 by (simp add: b_def)
    have "oaep_seed d mg em = seed" unfolding s(1) using ms seed(1) by (simp add: xor_bytes_back)
    then show "oaep_data d mg em = oaep_db d label ?n m"
      unfolding s(2) using mdb len by (simp add: xor_bytes_back db_def [symmetric])
  next
    assume h: "em ! 0 = 0" "oaep_data d mg em = oaep_db d label ?n m"
    define seed where "seed = oaep_seed d mg em"
    have l: "length seed = ?h" using len by (simp add: seed_def s(1))
    have "xor_bytes db (mgf1 mg seed (?n - ?h - 1)) = mdb"
      using h(2) len by (simp add: db_def [symmetric] s(2) seed_def [symmetric])
        (metis xor_bytes_back(2) length_mgf1)
    moreover have "xor_bytes seed (mgf1 mg mdb ?h) = ms"
      unfolding seed_def s(1) using len by (simp add: xor_bytes_back)
    ultimately have "oaep_encode d mg label ?n seed m = [0] @ ms @ mdb"
      by (simp add: oaep_encode_def Let_def db_def [symmetric])
    also have "\<dots> = [b] @ ms @ mdb" using h(1) by (simp add: b_def)
    also have "\<dots> = em" by (rule em [symmetric])
    finally show "\<exists>seed. length seed = ?h \<and> em = oaep_encode d mg label ?n seed m" using l by metis
  qed
qed

lemma oaep_parse:
  assumes "2 * md_size d + 2 \<le> length em" "db = oaep_data d mg em"
  shows "(take (md_size d) db = md_hash_of d label \<and> (\<exists>k m. drop (md_size d) db = replicate k 0 @ [1] @ m)
      \<and> drop 1 (dropWhile (\<lambda>b. b = 0) (drop (md_size d) db)) = m)
    \<longleftrightarrow> length m + 2 * md_size d + 2 \<le> length em \<and> db = oaep_db d label (length em) m"
proof
  let ?h = "md_size d"
  have len: "length db = length em - ?h - 1" using assms(2) by (simp add: oaep_data_def)
  assume l: "take ?h db = md_hash_of d label \<and> (\<exists>k m. drop ?h db = replicate k 0 @ [1] @ m)
      \<and> drop 1 (dropWhile (\<lambda>b. b = 0) (drop ?h db)) = m"
  then obtain k m' where km: "drop ?h db = replicate k 0 @ [1] @ m'" by blast
  have m: "m' = m" using l drop_zeros_one [of k m'] unfolding km by simp
  have "length db - ?h = k + 1 + length m" using arg_cong [OF km, of length] m by simp
  then have k: "k = length em - length m - 2 * ?h - 2" "length m + 2 * ?h + 2 \<le> length em" using len assms(1) by linarith+
  have "db = take ?h db @ drop ?h db" by simp
  then show "length m + 2 * ?h + 2 \<le> length em \<and> db = oaep_db d label (length em) m"
    using l k unfolding km by (simp add: oaep_db_def m)
next
  assume r: "length m + 2 * md_size d + 2 \<le> length em \<and> db = oaep_db d label (length em) m"
  define k where "k = length em - length m - 2 * md_size d - 2"
  have t: "take (md_size d) db = md_hash_of d label" "drop (md_size d) db = replicate k 0 @ [1] @ m"
    using r by (simp_all add: oaep_db_def k_def)
  show "take (md_size d) db = md_hash_of d label \<and> (\<exists>k m. drop (md_size d) db = replicate k 0 @ [1] @ m)
      \<and> drop 1 (dropWhile (\<lambda>b. b = 0) (drop (md_size d) db)) = m"
    using t(1) unfolding t(2) drop_zeros_one by auto
qed

lemma oaep_check_cases:
  assumes "oaep_digests md mgf1md = (d, mg)" "\<forall>i. mem i \<noteq> None" "length em < 2 ^ 31" "length em \<le> tlen"
  obtains good msg where
    "RSA_padding_check_PKCS1_OAEP_mgf1 mem True tlen (a, em) param md mgf1md
      = Some (if good then Inr msg else Inl OAEP_DECODING_ERROR)"
    "\<And>m. good \<and> msg = m \<longleftrightarrow> length m + 2 * md_size d + 2 \<le> length em \<and>
      (\<exists>seed. length seed = md_size d \<and> em = oaep_encode d mg (snd param) (length em) seed m)"
proof (cases "2 * md_size d + 2 \<le> length em")
  case False
  then have "RSA_padding_check_PKCS1_OAEP_mgf1 mem True tlen (a, em) param md mgf1md = Some (Inl OAEP_DECODING_ERROR)"
    using assms(1) by (simp add: RSA_padding_check_PKCS1_OAEP_mgf1_def)
  then show ?thesis using False that [of False] by simp
next
  case True
  define db where "db = oaep_data d mg em"
  define good where "good \<longleftrightarrow> em ! 0 = 0 \<and> take (md_size d) db = md_hash_of d (snd param)
    \<and> (\<exists>k m. drop (md_size d) db = replicate k 0 @ [1] @ m)"
  define msg where "msg = drop 1 (dropWhile (\<lambda>b. b = 0) (drop (md_size d) db))"
  have "length msg \<le> length db"
    unfolding msg_def using length_dropWhile_le [of "\<lambda>b. b = 0" "drop (md_size d) db"] by simp
  then have "length msg \<le> tlen" using assms(4) by (simp add: db_def oaep_data_def)
  then have c: "RSA_padding_check_PKCS1_OAEP_mgf1 mem True tlen (a, em) param md mgf1md
      = Some (if good then Inr msg else Inl OAEP_DECODING_ERROR)"
    using oaep_check_eq [OF assms(1) True assms(2,3), where tlen = tlen and a = a and param = param]
    by (simp add: good_def msg_def db_def Let_def)
  have "good \<and> msg = m \<longleftrightarrow> length m + 2 * md_size d + 2 \<le> length em \<and>
      (\<exists>seed. length seed = md_size d \<and> em = oaep_encode d mg (snd param) (length em) seed m)" for m
    using oaep_parse [OF True db_def, of "snd param" m] oaep_encode_iff [of m d em mg "snd param"]
    unfolding good_def msg_def db_def by blast
  with c show ?thesis by (rule that)
qed

text \<open>
  C12: The reader of OAEP blocks, which searches the padding without branching on it, accepts exactly
  the blocks that RFC 8017 makes of some message and seed for the label, and gives the message; for
  everything else there is one error.
\<close>
theorem oaep_check_exact:
  assumes "oaep_digests md mgf1md = (d, mg)" "\<forall>i. mem i \<noteq> None" "length em < 2 ^ 31" "length em \<le> tlen"
  shows "(RSA_padding_check_PKCS1_OAEP_mgf1 mem True tlen (a, em) param md mgf1md = Some (Inr m) \<longleftrightarrow>
      length m + 2 * md_size d + 2 \<le> length em \<and>
      (\<exists>seed. length seed = md_size d \<and> em = oaep_encode d mg (snd param) (length em) seed m)) \<and>
    ((\<forall>m. RSA_padding_check_PKCS1_OAEP_mgf1 mem True tlen (a, em) param md mgf1md \<noteq> Some (Inr m)) \<longrightarrow>
      RSA_padding_check_PKCS1_OAEP_mgf1 mem True tlen (a, em) param md mgf1md = Some (Inl OAEP_DECODING_ERROR))"
proof -
  obtain good msg where
    c: "RSA_padding_check_PKCS1_OAEP_mgf1 mem True tlen (a, em) param md mgf1md
      = Some (if good then Inr msg else Inl OAEP_DECODING_ERROR)"
    and g: "\<And>m. good \<and> msg = m \<longleftrightarrow> length m + 2 * md_size d + 2 \<le> length em \<and>
      (\<exists>seed. length seed = md_size d \<and> em = oaep_encode d mg (snd param) (length em) seed m)"
    by (rule oaep_check_cases [OF assms, where a = a and param = param]) (rule that)
  show ?thesis unfolding g [symmetric] c by simp
qed

text \<open>
  C16: With memory for the digests and enough random bytes, the writer of OAEP blocks makes the block
  of RFC 8017 with the next bytes of the random source as seed exactly when the message fits the key,
  and the reader gives the message back.
\<close>
theorem oaep_roundtrip:
  assumes "oaep_digests md mgf1md = (d, mg)" "\<forall>i. mem i \<noteq> None" "md_size d \<le> length rng" "tlen < 2 ^ 31"
  shows "if length m + 2 * md_size d + 2 \<le> tlen then
      \<exists>em rng'. RSA_padding_add_PKCS1_OAEP_mgf1 mem True rng a tlen m param md mgf1md = Some (Inr (em, rng')) \<and>
        em = oaep_encode d mg (snd param) tlen (take (md_size d) rng) m \<and> length em = tlen \<and>
        RSA_padding_check_PKCS1_OAEP_mgf1 mem True tlen (a, em) param md mgf1md = Some (Inr m)
    else \<exists>e. RSA_padding_add_PKCS1_OAEP_mgf1 mem True rng a tlen m param md mgf1md = Some (Inl e) \<and>
      e \<in> {KEY_SIZE_TOO_SMALL, DATA_TOO_LARGE_FOR_KEY_SIZE}"
proof (cases "length m + 2 * md_size d + 2 \<le> tlen")
  case True
  let ?em = "oaep_encode d mg (snd param) tlen (take (md_size d) rng) m"
  have len: "length ?em = tlen" using True assms(3) by (simp add: length_oaep_encode)
  obtain good msg where
    c: "RSA_padding_check_PKCS1_OAEP_mgf1 mem True tlen (a, ?em) param md mgf1md
      = Some (if good then Inr msg else Inl OAEP_DECODING_ERROR)"
    and g: "\<And>m. good \<and> msg = m \<longleftrightarrow> length m + 2 * md_size d + 2 \<le> length ?em \<and>
      (\<exists>seed. length seed = md_size d \<and> ?em = oaep_encode d mg (snd param) (length ?em) seed m)"
    by (rule oaep_check_cases [OF assms(1,2), of ?em tlen, where a = a and param = param]) (use len assms(4) in auto)
  have "length (take (md_size d) rng) = md_size d" using assms(3) by simp
  then have "good \<and> msg = m" unfolding g len using True by blast
  then have "RSA_padding_check_PKCS1_OAEP_mgf1 mem True tlen (a, ?em) param md mgf1md = Some (Inr m)" using c by simp
  then show ?thesis using oaep_add_encodes [OF assms(1) True assms(3,2)] True len by auto
next
  case False
  then show ?thesis using assms(1)
    by (auto simp: RSA_padding_add_PKCS1_OAEP_mgf1_def Let_def)
qed

text \<open>Three bytes under a key of 64 bytes, with SHA-1 and no label.\<close>

lemma oaep_roundtrip_witness:
  "\<exists>em rng'. RSA_padding_add_PKCS1_OAEP_mgf1 (\<lambda>_. Some []) True (replicate 20 5) 0 64 [1, 2, 3] (0, []) None None
      = Some (Inr (em, rng')) \<and> length em = 64 \<and>
     RSA_padding_check_PKCS1_OAEP_mgf1 (\<lambda>_. Some []) True 64 (0, em) (0, []) None None = Some (Inr [1, 2, 3])"
  using oaep_roundtrip [of None None EVP_sha1 EVP_sha1 "\<lambda>_. Some []" "replicate 20 5" 64 "[1, 2, 3]" 0 "(0, [])"]
  by (auto simp: oaep_digests_def)

lemma oaep_check_exact_witness:
  "RSA_padding_check_PKCS1_OAEP_mgf1 (\<lambda>_. Some []) True 64 (0, oaep_encode EVP_sha1 EVP_sha1 [] 64 (replicate 20 5) [1, 2, 3])
     (0, []) None None = Some (Inr [1, 2, 3])"
proof -
  let ?em = "oaep_encode EVP_sha1 EVP_sha1 [] 64 (replicate 20 5) [1, 2, 3]"
  have l: "length ?em = 64" by (rule length_oaep_encode) simp_all
  then have "length [1, 2, 3 :: u8] + 2 * md_size EVP_sha1 + 2 \<le> length ?em \<and>
    (\<exists>seed. length seed = md_size EVP_sha1 \<and> ?em = oaep_encode EVP_sha1 EVP_sha1 (snd (0 :: nat, [])) (length ?em) seed [1, 2, 3])"
    by (intro conjI exI [of _ "replicate 20 5"]) simp_all
  then show ?thesis
    using oaep_check_exact [of None None EVP_sha1 EVP_sha1 "\<lambda>_. Some []" ?em 64 0 "(0, [])" "[1, 2, 3]"] l
    by (simp add: oaep_digests_def)
qed

end
