(* ===== verification/RsaPss.thy ===== *)
theory RsaPss
  imports RsaOaep Bignum
begin

unbundle bit_operations_syntax

text \<open>
  PSS signatures (\<^verbatim>\<open>crypto/rsa/padding.c\<close>): making and checking the encoded message, for a modulus
  whose size need not be a multiple of eight bits.  Memory and addresses are as in
  \<^theory_text>\<open>RsaOaep\<close>; of the RSA key only the modulus \<open>n\<close> is read.
\<close>

section \<open>The code\<close>

text \<open>
  The hash of eight zeros, the hash of the message and the salt, in a context of its own.
\<close>

(* src: crypto/rsa/padding.c@629-641 RSA_verify_PKCS1_PSS_mgf1 *)
definition pss_hash :: "malloc_md \<Rightarrow> evp_md \<Rightarrow> nat \<times> bytes \<Rightarrow> nat \<times> bytes \<Rightarrow> bytes option option" where
  "pss_hash mem Hash mHash salt =
     (case EVP_DigestInit_ex mem EVP_MD_CTX_init Hash of
        None \<Rightarrow> None
      | Some (False, ctx) \<Rightarrow> Some None
      | Some (True, ctx) \<Rightarrow>
          do { ctx \<leftarrow> EVP_DigestUpdate ctx (0, replicate 8 0);
               ctx \<leftarrow> EVP_DigestUpdate ctx (fst mHash, take (md_size Hash) (snd mHash));
               ctx \<leftarrow> (if snd salt \<noteq> [] then EVP_DigestUpdate ctx salt else Some ctx);
               (out, _, ctx) \<leftarrow> EVP_DigestFinal_ex ctx;
               _ \<leftarrow> EVP_MD_CTX_cleanup ctx;
               Some out })"

text \<open>The bits of the first byte that belong to the encoded message; 0 if there is a byte too many.\<close>

(* src: crypto/rsa/padding.c@580 RSA_verify_PKCS1_PSS_mgf1 *)
definition pss_MSBits :: "bignum \<Rightarrow> nat" where
  "pss_MSBits n = unat ((word_of_nat (BN_num_bits n) - 1 :: u32) AND 7)"

(* src: crypto/rsa/padding.c@613-615 RSA_verify_PKCS1_PSS_mgf1 *)
definition pss_mask_first :: "nat \<Rightarrow> bytes \<Rightarrow> bytes" where
  "pss_mask_first MSBits db = (if MSBits \<noteq> 0 then db[0 := db ! 0 AND drop_bit (8 - MSBits) 0xff] else db)"

text \<open>The zeros at the front, the last byte left out.\<close>

(* src: crypto/rsa/padding.c@616-617 RSA_verify_PKCS1_PSS_mgf1 *)
function pss_skip :: "bytes \<Rightarrow> nat \<Rightarrow> nat" where
  "pss_skip db i = (if db ! i = 0 \<and> int i < int (length db) - 1 then pss_skip db (i + 1) else i)"
  by auto
termination
  by (relation "measure (\<lambda>(db, i). length db - i)") auto

declare pss_skip.simps [simp del]

text \<open>
  Checking.  \<open>EM\<close> is the decrypted signature with its address, of the size of the modulus.  A negative
  \<open>maskedDBLen\<close> asks malloc for nearly all of the address space, which it refuses; with 0 the loop
  reads a byte outside the buffer.
\<close>

(* src: crypto/rsa/padding.c@548-654 RSA_verify_PKCS1_PSS_mgf1 *)
definition RSA_verify_PKCS1_PSS_mgf1 ::
  "(nat \<Rightarrow> malloc_md) \<Rightarrow> bool \<Rightarrow> bignum \<Rightarrow> nat \<times> bytes \<Rightarrow> evp_md \<Rightarrow> evp_md option \<Rightarrow> nat \<times> bytes \<Rightarrow> int
    \<Rightarrow> (rsa_error + unit) option" where
  "RSA_verify_PKCS1_PSS_mgf1 mem malloc_ok n mHash Hash mgf1Hash EM sLen =
     (let mgf1Hash = (case mgf1Hash of None \<Rightarrow> Hash | Some d \<Rightarrow> d);
          hLen = md_size Hash
      in if sLen < - 2 then Some (Inl SLEN_CHECK_FAILED)
      else
        let sLen = (if sLen = - 1 then int hLen else sLen);
            MSBits = pss_MSBits n;
            emLen = int (BN_num_bytes n);
            (a, em) = EM
        in if em = [] then None
        else if em ! 0 AND push_bit MSBits 0xff \<noteq> 0 then Some (Inl FIRST_OCTET_INVALID)
        else
          let (a, em, emLen) = (if MSBits = 0 then (a + 1, drop 1 em, emLen - 1) else (a, em, emLen)) in
          if INT_MAX < int hLen + sLen + 2 then None
          else if emLen < int hLen + sLen + 2 then Some (Inl DATA_TOO_LARGE)
          else if em ! nat (emLen - 1) \<noteq> 0xbc then Some (Inl LAST_OCTET_INVALID)
          else
            let maskedDBLen = emLen - int hLen - 1 in
            if maskedDBLen < 0 \<or> \<not> malloc_ok then Some (Inl MALLOC_FAILURE)
            else
              let H = take hLen (drop (nat maskedDBLen) em) in
              case PKCS1_MGF1 (mem 0) (nat maskedDBLen) (a + nat maskedDBLen, H) mgf1Hash of
                None \<Rightarrow> None
              | Some None \<Rightarrow> Some (Inl DIGEST_FAILURE)
              | Some (Some DB) \<Rightarrow>
                  if maskedDBLen = 0 then None
                  else
                    let DB = xor_bytes DB em;
                        DB = pss_mask_first MSBits DB;
                        i = pss_skip DB 0
                    in if DB ! i \<noteq> 0x1 then Some (Inl SLEN_RECOVERY_FAILED)
                    else
                      let i = i + 1 in
                      if 0 \<le> sLen \<and> maskedDBLen - int i \<noteq> sLen then Some (Inl SLEN_CHECK_FAILED)
                      else
                        (case pss_hash (mem 1) Hash mHash (i, drop i DB) of
                           None \<Rightarrow> None
                         | Some None \<Rightarrow> Some (Inl DIGEST_FAILURE)
                         | Some (Some H') \<Rightarrow> Some (if take hLen H' \<noteq> H then Inl BAD_SIGNATURE else Inr ())))"

text \<open>Making.  The result is the buffer of the size of the modulus.\<close>

(* src: crypto/rsa/padding.c@656-771 RSA_padding_add_PKCS1_PSS_mgf1 *)
definition RSA_padding_add_PKCS1_PSS_mgf1 ::
  "(nat \<Rightarrow> malloc_md) \<Rightarrow> bool \<Rightarrow> bytes \<Rightarrow> bignum \<Rightarrow> nat \<Rightarrow> nat \<times> bytes \<Rightarrow> evp_md \<Rightarrow> evp_md option \<Rightarrow> int
    \<Rightarrow> (rsa_error + bytes \<times> bytes) option" where
  "RSA_padding_add_PKCS1_PSS_mgf1 mem malloc_ok rng n a mHash Hash mgf1Hash sLen =
     (let mgf1Hash = (case mgf1Hash of None \<Rightarrow> Hash | Some d \<Rightarrow> d);
          hLen = md_size Hash
      in if sLen < - 2 then Some (Inl SLEN_CHECK_FAILED)
      else if BN_is_zero n then Some (Inl EMPTY_PUBLIC_KEY)
      else
        let sLen = (if sLen = - 1 then int hLen else sLen);
            MSBits = pss_MSBits n;
            emLen = BN_num_bytes n;
            (front, a, emLen) = (if MSBits = 0 then ([0], a + 1, emLen - 1) else ([], a, emLen))
        in if (if sLen = - 2 then emLen < hLen + 2 else emLen < hLen + nat sLen + 2) then Some (Inl DATA_TOO_LARGE_FOR_KEY_SIZE)
        else
          let sLen = (if sLen = - 2 then emLen - hLen - 2 else nat sLen) in
          if 0 < sLen \<and> \<not> malloc_ok then Some (Inl MALLOC_FAILURE)
          else
            case (if 0 < sLen then RAND_pseudo_bytes sLen rng else Some ([], rng)) of
              None \<Rightarrow> Some (Inl RANDOM_FAILURE)
            | Some (salt, rng) \<Rightarrow>
                let maskedDBLen = emLen - hLen - 1 in
                case pss_hash (mem 0) Hash mHash (0, salt) of
                  None \<Rightarrow> None
                | Some None \<Rightarrow> Some (Inl DIGEST_FAILURE)
                | Some (Some H) \<Rightarrow>
                    (case PKCS1_MGF1 (mem 1) maskedDBLen (a + maskedDBLen, H) mgf1Hash of
                       None \<Rightarrow> None
                     | Some None \<Rightarrow> Some (Inl DIGEST_FAILURE)
                     | Some (Some db) \<Rightarrow>
                         let p = emLen - sLen - hLen - 2;
                             db = db[p := db ! p XOR 0x1];
                             db = take (p + 1) db @ xor_bytes (drop (p + 1) db) salt;
                             db = pss_mask_first MSBits db
                         in Some (Inr (front @ db @ H @ [0xbc], rng))))"

section \<open>The encoded message of RFC 8017\<close>

text \<open>
  The message of \<open>bits\<close> less one bits for the hash of a message and a salt, and the buffer of the size
  of the modulus that holds it: there is a zero byte in front if the message is a byte shorter.
\<close>

definition pss_emLen :: "nat \<Rightarrow> nat" where
  "pss_emLen bits = (bits - 1 + 7) div 8"

definition pss_clear :: "nat \<Rightarrow> bytes \<Rightarrow> bytes" where
  "pss_clear k bs = (case bs of [] \<Rightarrow> [] | b # r \<Rightarrow> (b AND drop_bit k 0xff) # r)"

definition pss_DB :: "nat \<Rightarrow> nat \<Rightarrow> bytes \<Rightarrow> bytes" where
  "pss_DB emLen h salt = replicate (emLen - length salt - h - 2) 0 @ [1] @ salt"

definition pss_H :: "evp_md \<Rightarrow> bytes \<Rightarrow> bytes \<Rightarrow> bytes" where
  "pss_H d mHash salt = md_hash_of d (replicate 8 0 @ mHash @ salt)"

definition pss_encode :: "evp_md \<Rightarrow> evp_md \<Rightarrow> nat \<Rightarrow> bytes \<Rightarrow> bytes \<Rightarrow> bytes" where
  "pss_encode d mg bits mHash salt =
     (let emLen = pss_emLen bits; h = md_size d;
          H = pss_H d mHash salt;
          mdb = pss_clear (8 * emLen - (bits - 1)) (xor_bytes (pss_DB emLen h salt) (mgf1 mg H (emLen - h - 1)))
      in mdb @ H @ [0xbc])"

definition pss_block :: "evp_md \<Rightarrow> evp_md \<Rightarrow> nat \<Rightarrow> bytes \<Rightarrow> bytes \<Rightarrow> bytes" where
  "pss_block d mg bits mHash salt =
     (if (bits - 1) mod 8 = 0 then [0] else []) @ pss_encode d mg bits mHash salt"

section \<open>Sizes and masks\<close>

lemma pss_MSBits_eq:
  assumes "0 < BN_num_bits n" "BN_num_bits n < 2 ^ 31"
  shows "pss_MSBits n = (BN_num_bits n - 1) mod 8"
proof -
  have "(7 :: u32) = mask 3" by (simp add: mask_eq_exp_minus_1)
  then have "pss_MSBits n = unat (take_bit 3 (word_of_nat (BN_num_bits n) - 1 :: u32))"
    by (simp only: pss_MSBits_def take_bit_eq_mask)
  also have "\<dots> = unat (word_of_nat (BN_num_bits n) - 1 :: u32) mod 8"
    by (simp only: unsigned_take_bit_eq) (simp only: take_bit_eq_mod, simp)
  also have "unat (word_of_nat (BN_num_bits n) - 1 :: u32) = BN_num_bits n - 1"
    using assms by (simp add: unat_sub_if' unat_of_nat word_of_nat_eq_0_iff)
  finally show ?thesis .
qed

lemma pss_sizes:
  assumes "0 < bits"
  shows "(bits - 1) mod 8 = 0 \<Longrightarrow> (bits + 7) div 8 = pss_emLen bits + 1 \<and> 8 * pss_emLen bits - (bits - 1) = 0"
    and "(bits - 1) mod 8 \<noteq> 0 \<Longrightarrow> (bits + 7) div 8 = pss_emLen bits \<and>
      8 * pss_emLen bits - (bits - 1) = 8 - (bits - 1) mod 8"
proof -
  define q r where "q = (bits - 1) div 8" and "r = (bits - 1) mod 8"
  have b: "bits = 8 * q + r + 1" "r < 8" using assms by (simp_all add: q_def r_def)
  show "(bits - 1) mod 8 = 0 \<Longrightarrow> (bits + 7) div 8 = pss_emLen bits + 1 \<and> 8 * pss_emLen bits - (bits - 1) = 0"
    using b unfolding pss_emLen_def r_def [symmetric] by simp
  show "(bits - 1) mod 8 \<noteq> 0 \<Longrightarrow> (bits + 7) div 8 = pss_emLen bits \<and>
      8 * pss_emLen bits - (bits - 1) = 8 - (bits - 1) mod 8"
  proof -
    have e: "(8 * q + x) div 8 = q + 1" if "8 \<le> x" "x < 16" for x
      using that by (intro div_nat_eqI) simp_all
    assume "(bits - 1) mod 8 \<noteq> 0"
    then have "r \<noteq> 0" by (simp add: r_def)
    then have "pss_emLen bits = q + 1" "(bits + 7) div 8 = q + 1"
      using e [of "r + 7"] e [of "r + 8"] b unfolding pss_emLen_def by (simp_all add: add.assoc)
    then show ?thesis using b by (simp add: r_def [symmetric])
  qed
qed

lemma u8_ones: "(0xff :: u8) = - 1"
  by simp

lemma pss_mask_first_clear:
  assumes "0 < bits" "db \<noteq> []"
  shows "pss_mask_first ((bits - 1) mod 8) db = pss_clear (8 * pss_emLen bits - (bits - 1)) db"
proof (cases "(bits - 1) mod 8 = 0")
  case True
  moreover have "b AND 0xff = b" for b :: u8 by (simp add: u8_ones)
  ultimately show ?thesis using pss_sizes(1) [OF assms(1)] by (simp add: pss_mask_first_def pss_clear_def split: list.split)
next
  case False
  then show ?thesis using pss_sizes(2) [OF assms(1)] assms(2)
    by (simp add: pss_mask_first_def pss_clear_def split: list.split)
qed

text \<open>The bits that are cleared are the ones the check of the first byte looks at.\<close>

lemma pss_first_octet:
  assumes "r < 8" "r \<noteq> 0"
  shows "(b :: u8) AND push_bit r 0xff = 0 \<longleftrightarrow> b AND drop_bit (8 - r) 0xff = b"
proof -
  have "bit (drop_bit (8 - r) (- 1 :: u8)) n \<longleftrightarrow> n < r" for n
    using assms by (auto simp: bit_simps)
  moreover have "bit (push_bit r (- 1 :: u8)) n \<longleftrightarrow> r \<le> n \<and> n < 8" for n
    using assms by (auto simp: bit_simps)
  ultimately show ?thesis
    unfolding u8_ones bit_eq_iff bit_and_iff by (auto simp: bit_simps not_le)
qed

lemma pss_hash_eq:
  assumes "length (snd mHash) = md_size d"
  shows "pss_hash (Some m) d mHash salt = Some (Some (pss_H d (snd mHash) (snd salt)))"
proof -
  obtain c where c: "EVP_DigestInit_ex (Some m) EVP_MD_CTX_init d = Some (True, c)" "evp_holds d c []"
    using EVP_DigestInit_ex_holds [OF evp_ready_init] by blast
  obtain c1 where c1: "EVP_DigestUpdate c (0, replicate 8 0) = Some c1" "evp_holds d c1 (replicate 8 0)"
    using EVP_DigestUpdate_holds [OF c(2), of "(0, replicate 8 0)"] by auto
  obtain c2 where c2: "EVP_DigestUpdate c1 (fst mHash, take (md_size d) (snd mHash)) = Some c2"
    "evp_holds d c2 (replicate 8 0 @ snd mHash)"
    using EVP_DigestUpdate_holds [OF c1(2), of "(fst mHash, take (md_size d) (snd mHash))"] assms by auto
  obtain c3 where c3: "(if snd salt \<noteq> [] then EVP_DigestUpdate c2 salt else Some c2) = Some c3"
    "evp_holds d c3 (replicate 8 0 @ snd mHash @ snd salt)"
    using EVP_DigestUpdate_holds [OF c2(2), of salt] c2(2) by (cases "snd salt = []") auto
  obtain c4 where "EVP_DigestFinal_ex c3 = Some (Some (pss_H d (snd mHash) (snd salt)), md_size d, c4)" "evp_ready c4"
    using EVP_DigestFinal_ex_holds [OF c3(2)] by (auto simp: pss_H_def)
  then show ?thesis
    by (simp add: pss_hash_def c(1) c1(1) c2(1) c3(1) EVP_MD_CTX_cleanup_def evp_ready_def)
qed

lemma pss_skip_spec:
  "i < length db \<Longrightarrow> i \<le> pss_skip db i \<and> pss_skip db i < length db \<and>
     (\<forall>j. i \<le> j \<and> j < pss_skip db i \<longrightarrow> db ! j = 0) \<and> (db ! pss_skip db i \<noteq> 0 \<or> pss_skip db i = length db - 1)"
proof (induction db i rule: pss_skip.induct)
  case (1 db i)
  show ?case
  proof (cases "db ! i = 0 \<and> int i < int (length db) - 1")
    case True
    then have e: "pss_skip db i = pss_skip db (i + 1)" by (subst pss_skip.simps) simp
    have ih: "i + 1 \<le> pss_skip db (i + 1)" "pss_skip db (i + 1) < length db"
      "\<forall>j. i + 1 \<le> j \<and> j < pss_skip db (i + 1) \<longrightarrow> db ! j = 0"
      "db ! pss_skip db (i + 1) \<noteq> 0 \<or> pss_skip db (i + 1) = length db - 1"
      using 1(1) [OF True] True by auto
    have "db ! j = 0" if "i \<le> j \<and> j < pss_skip db (i + 1)" for j
      using that ih(3) True by (cases "j = i") auto
    then show ?thesis unfolding e using ih by auto
  next
    case False
    then have "pss_skip db i = i" by (subst pss_skip.simps) auto
    then show ?thesis using False 1(2) by auto
  qed
qed

lemma pss_skip_found:
  assumes "db \<noteq> []" "db ! pss_skip db 0 = 1"
  shows "db = replicate (pss_skip db 0) 0 @ [1] @ drop (pss_skip db 0 + 1) db"
proof -
  let ?i = "pss_skip db 0"
  have i: "?i < length db" "\<forall>j < ?i. db ! j = 0" using pss_skip_spec [of 0 db] assms(1) by auto
  have "take ?i db = replicate ?i 0" using i by (intro nth_equalityI) auto
  moreover have "db = take ?i db @ [db ! ?i] @ drop (?i + 1) db" using id_take_nth_drop [OF i(1)] by simp
  ultimately show ?thesis using assms(2) by simp
qed

lemma pss_skip_zeros: "pss_skip (replicate k 0 @ [1] @ salt) 0 = k"
proof -
  let ?db = "replicate k 0 @ [1] @ salt :: bytes"
  have s: "pss_skip ?db 0 < length ?db" "\<forall>j < pss_skip ?db 0. ?db ! j = 0"
    "?db ! pss_skip ?db 0 \<noteq> 0 \<or> pss_skip ?db 0 = length ?db - 1"
    using pss_skip_spec [of 0 ?db] by auto
  have "\<not> k < pss_skip ?db 0" using s(2) by (auto simp: nth_append)
  moreover have "\<not> pss_skip ?db 0 < k" using s(3) by (auto simp: nth_append)
  ultimately show ?thesis by linarith
qed

section \<open>Checking\<close>

text \<open>The part of the buffer that holds the encoded message.\<close>

definition pss_em :: "nat \<Rightarrow> bytes \<Rightarrow> bytes" where
  "pss_em bits em = (if (bits - 1) mod 8 = 0 then drop 1 em else em)"

text \<open>The length of the salt that is asked for; a negative one stands for any.\<close>

definition pss_sLen :: "evp_md \<Rightarrow> int \<Rightarrow> int" where
  "pss_sLen d sLen = (if sLen = - 1 then int (md_size d) else sLen)"

definition pss_mgf :: "evp_md \<Rightarrow> evp_md option \<Rightarrow> evp_md" where
  "pss_mgf d m = (case m of None \<Rightarrow> d | Some mg \<Rightarrow> mg)"

lemma pss_verify_eq:
  assumes bits: "0 < BN_num_bits n" "BN_num_bits n < 2 ^ 31" and len: "length em = BN_num_bytes n"
    and mHash: "length mHash = md_size d" and mem: "\<forall>i. mem i \<noteq> None"
    and E: "md_size d + 2 \<le> pss_emLen (BN_num_bits n)"
  defines "bts \<equiv> BN_num_bits n"
  shows "RSA_verify_PKCS1_PSS_mgf1 mem True n (b, mHash) d mgf (a, em) sLen = Some (Inr ()) \<longleftrightarrow>
    - 2 \<le> sLen \<and> em ! 0 AND push_bit ((bts - 1) mod 8) 0xff = 0 \<and>
    int (md_size d) + pss_sLen d sLen + 2 \<le> int (pss_emLen bts) \<and> pss_em bts em ! (pss_emLen bts - 1) = 0xbc \<and>
    (let M = pss_emLen bts - md_size d - 1;
         H = take (md_size d) (drop M (pss_em bts em));
         DB = pss_clear (8 * pss_emLen bts - (bts - 1)) (xor_bytes (mgf1 (pss_mgf d mgf) H M) (pss_em bts em));
         i = pss_skip DB 0
     in DB ! i = 1 \<and> (0 \<le> pss_sLen d sLen \<longrightarrow> int M - int (i + 1) = pss_sLen d sLen) \<and>
        pss_H d mHash (drop (i + 1) DB) = H)"
proof -
  let ?h = "md_size d" and ?E = "pss_emLen bts" and ?em = "pss_em bts em" and ?mg = "pss_mgf d mgf"
  let ?M = "?E - ?h - 1"
  let ?H = "take ?h (drop ?M ?em)"
  let ?xor = "xor_bytes (mgf1 ?mg ?H ?M) ?em"
  obtain m0 m1 where mem01: "mem 0 = Some m0" "mem (Suc 0) = Some m1" using mem by blast
  have em: "em \<noteq> []" using len bits by (auto simp: BN_num_bytes_def)
  have ms: "pss_MSBits n = (bts - 1) mod 8" using pss_MSBits_eq [OF bits] by (simp add: bts_def)
  have size: "(if (bts - 1) mod 8 = 0 then int (BN_num_bytes n) - 1 else int (BN_num_bytes n)) = int ?E"
    "length ?em = ?E"
    using pss_sizes [OF bits(1)] len by (simp_all add: bts_def BN_num_bytes_def pss_em_def)
  have x: "?xor \<noteq> []"
  proof -
    have "length ?xor = ?M" using size(2) by simp
    moreover have "0 < ?M" using E by (simp add: bts_def)
    ultimately have "0 < length ?xor" by (simp only:)
    then show ?thesis by (simp only: length_greater_0_conv not_False_eq_True simp_thms)
  qed
  have DB: "pss_mask_first ((bts - 1) mod 8) ?xor = pss_clear (8 * ?E - (bts - 1)) ?xor"
    by (rule pss_mask_first_clear) (use bits(1) x in \<open>simp_all add: bts_def\<close>)
  have M: "int ?E - int ?h - 1 = int ?M" "0 < ?M" using E by (simp_all add: bts_def)
  have s: "(if (bts - 1) mod 8 = 0 then (a + 1, drop 1 em, int (BN_num_bytes n) - 1) else (a, em, int (BN_num_bytes n)))
      = (if (bts - 1) mod 8 = 0 then a + 1 else a, ?em, int ?E)"
    using size(1) by (auto simp: pss_em_def split: if_splits)
  have hH: "take ?h (pss_H d mHash salt) = pss_H d mHash salt" for salt by (simp add: pss_H_def)
  have EI: "int ?E \<le> INT_MAX" using bits by (simp add: bts_def pss_emLen_def)
  show ?thesis
    unfolding RSA_verify_PKCS1_PSS_mgf1_def Let_def split_conv ms s pss_sLen_def [symmetric] M(1) nat_int
    using em M(2) mem01 mHash EI
    by (auto simp: PKCS1_MGF1_eq pss_hash_eq DB [simplified] hH pss_mgf_def [symmetric] nat_diff_distrib split: if_splits)
qed

lemma pss_clear_xor:
  "pss_clear k (xor_bytes (pss_clear k xs) ys) = pss_clear k (xor_bytes xs ys)"
proof (cases xs; cases ys)
  fix x xs' y ys' assume "xs = x # xs'" "ys = y # ys'"
  moreover have "((x AND m) XOR y) AND m = (x XOR y) AND m" for m :: u8
    by (rule bit_word_eqI) (auto simp: bit_simps)
  ultimately show ?thesis by (simp add: pss_clear_def xor_bytes_def)
qed (simp_all add: pss_clear_def xor_bytes_def)

lemma length_pss_clear [simp]: "length (pss_clear k xs) = length xs"
  by (simp add: pss_clear_def split: list.split)

lemma pss_clear_idem: "pss_clear k xs = xs \<longleftrightarrow> xs = [] \<or> xs ! 0 AND drop_bit k 0xff = xs ! 0"
  by (auto simp: pss_clear_def split: list.split)

lemma pss_clear_DB:
  assumes "k < 8" shows "pss_clear k (pss_DB E h salt) = pss_DB E h salt"
proof -
  have "bit (drop_bit k (- 1 :: u8)) 0" using assms by (simp add: bit_simps)
  then have "1 AND drop_bit k (0xff :: u8) = 1" unfolding u8_ones
    by (intro bit_word_eqI) (auto simp: bit_simps)
  then show ?thesis by (cases "E - length salt - h - 2") (simp_all add: pss_clear_def pss_DB_def)
qed

text \<open>The data block the checker finds is the one that is encoded.\<close>

lemma pss_masked_iff:
  assumes "k < 8" "length mdb = length msk" "length mdb = length DB" "pss_clear k DB = DB"
  shows "pss_clear k mdb = mdb \<and> pss_clear k (xor_bytes msk mdb) = DB \<longleftrightarrow> mdb = pss_clear k (xor_bytes DB msk)"
proof
  assume l: "pss_clear k mdb = mdb \<and> pss_clear k (xor_bytes msk mdb) = DB"
  then have "pss_clear k (xor_bytes DB msk) = pss_clear k (xor_bytes (pss_clear k (xor_bytes msk mdb)) msk)" by simp
  also have "\<dots> = pss_clear k (xor_bytes (xor_bytes msk mdb) msk)" by (rule pss_clear_xor)
  also have "\<dots> = mdb" using l assms(2) by (simp add: xor_bytes_back)
  finally show "mdb = pss_clear k (xor_bytes DB msk)" by simp
next
  assume r: "mdb = pss_clear k (xor_bytes DB msk)"
  have "pss_clear k (pss_clear k xs) = pss_clear k xs" for xs
    by (auto simp: pss_clear_def and.assoc split: list.split)
  moreover have "pss_clear k (xor_bytes msk mdb) = DB"
  proof -
    have "pss_clear k (xor_bytes msk mdb) = pss_clear k (xor_bytes (pss_clear k (xor_bytes DB msk)) msk)"
      unfolding r by (simp only: xor_bytes_commute [of msk])
    also have "\<dots> = pss_clear k (xor_bytes (xor_bytes DB msk) msk)" by (rule pss_clear_xor)
    also have "\<dots> = DB" using assms by simp
    finally show ?thesis .
  qed
  ultimately show "pss_clear k mdb = mdb \<and> pss_clear k (xor_bytes msk mdb) = DB" using r by simp
qed

text \<open>Salts that are of the length that is asked for.\<close>

definition salt_fits :: "evp_md \<Rightarrow> int \<Rightarrow> bytes \<Rightarrow> bool" where
  "salt_fits d sLen salt \<longleftrightarrow> - 2 \<le> sLen \<and> (0 \<le> pss_sLen d sLen \<longrightarrow> int (length salt) = pss_sLen d sLen)"

text \<open>The buffer is a block with the salt exactly when its parts are as the checker wants them.\<close>

lemma pss_block_iff:
  assumes bits: "0 < bits" and len: "length em = (bits + 7) div 8" and E: "md_size d + length salt + 2 \<le> pss_emLen bits"
  defines "M \<equiv> pss_emLen bits - md_size d - 1" and "k \<equiv> 8 * pss_emLen bits - (bits - 1)"
  shows "em = pss_block d mg bits mHash salt \<longleftrightarrow>
    em ! 0 AND push_bit ((bits - 1) mod 8) 0xff = 0 \<and> pss_em bits em ! (pss_emLen bits - 1) = 0xbc \<and>
    take (md_size d) (drop M (pss_em bits em)) = pss_H d mHash salt \<and>
    pss_clear k (xor_bytes (mgf1 mg (pss_H d mHash salt) M) (pss_em bits em)) = pss_DB (pss_emLen bits) (md_size d) salt"
proof -
  let ?E = "pss_emLen bits" and ?h = "md_size d" and ?e = "pss_em bits em"
  let ?Hs = "pss_H d mHash salt"
  let ?DB = "pss_DB ?E ?h salt"
  define msk where "msk = mgf1 mg ?Hs M"
  define mdb where "mdb = take M ?e"
  define front where "front \<longleftrightarrow> ((bits - 1) mod 8 = 0 \<longrightarrow> em ! 0 = 0)"
  have em: "em \<noteq> []" using len bits by auto
  have le: "length ?e = ?E" using pss_sizes [OF bits] len by (simp add: pss_em_def)
  have sizes: "length msk = M" "length mdb = M" "length ?DB = M" "length ?Hs = ?h" "0 < M" "?E = M + (?h + 1)"
    using E le by (simp_all add: msk_def mdb_def M_def pss_DB_def pss_H_def)
  have k: "k < 8" "(bits - 1) mod 8 = 0 \<Longrightarrow> k = 0" "(bits - 1) mod 8 \<noteq> 0 \<Longrightarrow> k = 8 - (bits - 1) mod 8"
    using pss_sizes [OF bits] by (cases "(bits - 1) mod 8 = 0"; simp add: k_def)+
  have x: "xor_bytes msk ?e = xor_bytes msk mdb"
    by (rule nth_equalityI) (use le sizes in \<open>simp_all add: mdb_def\<close>)
  have e: "?e = mdb @ take ?h (drop M ?e) @ [?e ! (?E - 1)]"
  proof -
    have "drop (M + ?h) ?e = [?e ! (M + ?h)]" using le sizes by (simp flip: Cons_nth_drop_Suc)
    moreover have "?e = take (M + ?h) ?e @ drop (M + ?h) ?e" by simp
    ultimately show ?thesis using sizes by (simp add: take_add mdb_def)
  qed
  have octet: "em ! 0 AND push_bit ((bits - 1) mod 8) 0xff = 0 \<longleftrightarrow> front \<and> pss_clear k mdb = mdb"
  proof (cases "(bits - 1) mod 8 = 0")
    case True
    then show ?thesis by (simp add: front_def k(2) pss_clear_def u8_ones split: list.split)
  next
    case False
    have "mdb \<noteq> []" "mdb ! 0 = em ! 0" using False sizes by (auto simp: mdb_def pss_em_def)
    then show ?thesis
      using pss_first_octet [of "(bits - 1) mod 8" "em ! 0"] False k(3) by (simp add: front_def pss_clear_idem)
  qed
  have enc: "pss_encode d mg bits mHash salt = pss_clear k (xor_bytes ?DB msk) @ ?Hs @ [0xbc]"
    by (simp add: pss_encode_def Let_def msk_def M_def k_def)
  have block: "em = pss_block d mg bits mHash salt \<longleftrightarrow> front \<and> ?e = pss_encode d mg bits mHash salt"
    using em by (cases em) (auto simp: pss_block_def front_def pss_em_def)
  have "?e = pss_encode d mg bits mHash salt \<longleftrightarrow>
      mdb = pss_clear k (xor_bytes ?DB msk) \<and> take ?h (drop M ?e) = ?Hs \<and> ?e ! (?E - 1) = 0xbc"
    unfolding enc using sizes le by (subst e) simp
  also have "mdb = pss_clear k (xor_bytes ?DB msk) \<longleftrightarrow> pss_clear k mdb = mdb \<and> pss_clear k (xor_bytes msk mdb) = ?DB"
    using pss_masked_iff [OF k(1), of mdb msk ?DB] pss_clear_DB [OF k(1)] sizes by simp
  finally show ?thesis unfolding block octet msk_def [symmetric] x by blast
qed


lemma pss_DB_of_skip:
  assumes "DB \<noteq> []" "DB ! pss_skip DB 0 = 1" "length DB = E - h - 1"
  shows "DB = pss_DB E h (drop (pss_skip DB 0 + 1) DB)" and "length (drop (pss_skip DB 0 + 1) DB) + h + 2 \<le> E"
proof -
  let ?i = "pss_skip DB 0"
  have i: "?i < length DB" using pss_skip_spec [of 0 DB] assms(1) by simp
  have "DB = replicate ?i 0 @ [1] @ drop (?i + 1) DB" by (rule pss_skip_found [OF assms(1, 2)])
  moreover have "E - length (drop (?i + 1) DB) - h - 2 = ?i" using i assms(3) by simp
  ultimately show "DB = pss_DB E h (drop (?i + 1) DB)" by (simp only: pss_DB_def)
  show "length (drop (?i + 1) DB) + h + 2 \<le> E" using i assms(3) by simp
qed

lemma pss_skip_DB:
  assumes "h + length salt + 2 \<le> E"
  shows "pss_skip (pss_DB E h salt) 0 = E - length salt - h - 2"
    "pss_DB E h salt ! (E - length salt - h - 2) = 1" "drop (E - length salt - h - 2 + 1) (pss_DB E h salt) = salt"
  using pss_skip_zeros by (simp_all add: pss_DB_def nth_append)

lemma pss_verify_iff:
  assumes bits: "0 < BN_num_bits n" "BN_num_bits n < 2 ^ 31" and len: "length em = BN_num_bytes n"
    and mHash: "length mHash = md_size d" and mem: "\<forall>i. mem i \<noteq> None"
    and E: "md_size d + 2 \<le> pss_emLen (BN_num_bits n)"
  shows "RSA_verify_PKCS1_PSS_mgf1 mem True n (b, mHash) d mgf (a, em) sLen = Some (Inr ()) \<longleftrightarrow>
    (\<exists>salt. salt_fits d sLen salt \<and> md_size d + length salt + 2 \<le> pss_emLen (BN_num_bits n) \<and>
      em = pss_block d (pss_mgf d mgf) (BN_num_bits n) mHash salt)" (is "?ok \<longleftrightarrow> ?ex")
proof -
  let ?B = "BN_num_bits n"
  let ?E = "pss_emLen ?B" and ?h = "md_size d" and ?e = "pss_em ?B em" and ?mg = "pss_mgf d mgf"
  let ?M = "?E - ?h - 1" and ?k = "8 * ?E - (?B - 1)"
  define H where "H = take ?h (drop ?M ?e)"
  define DB where "DB = pss_clear ?k (xor_bytes (mgf1 ?mg H ?M) ?e)"
  have len': "length em = (?B + 7) div 8" using len by (simp add: BN_num_bytes_def)
  have le: "length ?e = ?E" using pss_sizes [OF bits(1)] len' by (simp add: pss_em_def)
  have DB: "length DB = ?M" "DB \<noteq> []"
  proof -
    show l: "length DB = ?M" using le by (simp add: DB_def)
    show "DB \<noteq> []" using E unfolding length_greater_0_conv [symmetric] l by simp
  qed
  note eq = pss_verify_eq [OF bits len mHash mem E, of b mgf a sLen, unfolded Let_def, folded H_def, folded DB_def]
  show ?thesis
  proof
    assume ?ok
    note ok = this [unfolded eq]
    let ?i = "pss_skip DB 0"
    let ?salt = "drop (?i + 1) DB"
    note D = pss_DB_of_skip [OF DB(2) _ DB(1)]
    have i: "?i < length DB" using pss_skip_spec [of 0 DB] DB(2) by simp
    have fits: "?h + length ?salt + 2 \<le> ?E" using D(2) ok by simp
    have "em = pss_block d ?mg ?B mHash ?salt"
      unfolding pss_block_iff [OF bits(1) len' fits] H_def [symmetric]
      using ok D(1) unfolding DB_def by simp
    moreover have "salt_fits d sLen ?salt" using ok i DB(1) by (auto simp: salt_fits_def)
    ultimately show ?ex using fits by blast
  next
    assume ?ex
    then obtain salt where s: "salt_fits d sLen salt" "?h + length salt + 2 \<le> ?E" "em = pss_block d ?mg ?B mHash salt"
      by blast
    note parts = s(3) [unfolded pss_block_iff [OF bits(1) len' s(2)], folded H_def]
    have DB': "DB = pss_DB ?E ?h salt" using parts unfolding DB_def by simp
    have "int ?h + pss_sLen d sLen + 2 \<le> int ?E"
      using s(1, 2) E by (cases "0 \<le> pss_sLen d sLen") (simp_all add: salt_fits_def)
    moreover have "int ?M - int (?E - length salt - ?h - 2 + 1) = int (length salt)" using s(2) by simp
    ultimately show ?ok
      unfolding eq DB' pss_skip_DB [OF s(2)] using s(1) parts by (simp add: salt_fits_def)
  qed
qed


section \<open>Making\<close>

lemma pss_put_salt:
  assumes "length db = p + 1 + length salt"
  shows "take (p + 1) (db[p := db ! p XOR 1]) @ xor_bytes (drop (p + 1) (db[p := db ! p XOR 1])) salt
    = xor_bytes (replicate p 0 @ [1] @ salt) db"
proof (rule nth_equalityI)
  fix i assume "i < length (take (p + 1) (db[p := db ! p XOR 1]) @ xor_bytes (drop (p + 1) (db[p := db ! p XOR 1])) salt)"
  then have "i < length db" using assms by simp
  then show "(take (p + 1) (db[p := db ! p XOR 1]) @ xor_bytes (drop (p + 1) (db[p := db ! p XOR 1])) salt) ! i
    = xor_bytes (replicate p 0 @ [1] @ salt) db ! i"
    using assms by (cases "i = p") (auto simp: nth_append xor_bytes_def nth_Cons' xor.commute)
qed (use assms in simp)

text \<open>The length of the salt that is made.\<close>

definition pss_salt_len :: "evp_md \<Rightarrow> int \<Rightarrow> nat \<Rightarrow> nat" where
  "pss_salt_len d sLen emLen = (if sLen = - 2 then emLen - md_size d - 2 else nat (pss_sLen d sLen))"

lemma salt_fits_len: "- 2 \<le> sLen \<Longrightarrow> length salt = pss_salt_len d sLen E \<Longrightarrow> salt_fits d sLen salt"
  by (auto simp: salt_fits_def pss_salt_len_def pss_sLen_def)

lemma pss_add_encodes:
  assumes bits: "0 < BN_num_bits n" "BN_num_bits n < 2 ^ 31" and mHash: "length mHash = md_size d"
    and mem: "\<forall>i. mem i \<noteq> None" and s: "- 2 \<le> sLen" "sl = pss_salt_len d sLen (pss_emLen (BN_num_bits n))"
    and fits: "md_size d + sl + 2 \<le> pss_emLen (BN_num_bits n)" and rng: "sl \<le> length rng"
  shows "RSA_padding_add_PKCS1_PSS_mgf1 mem True rng n a (b, mHash) d mgf sLen
    = Some (Inr (pss_block d (pss_mgf d mgf) (BN_num_bits n) mHash (take sl rng), drop sl rng))"
proof -
  let ?B = "BN_num_bits n"
  let ?E = "pss_emLen ?B" and ?h = "md_size d"
  let ?M = "?E - ?h - 1" and ?k = "8 * ?E - (?B - 1)"
  let ?salt = "take sl rng"
  let ?H = "pss_H d mHash ?salt"
  let ?db = "mgf1 (pss_mgf d mgf) ?H ?M"
  obtain m0 m1 where mem01: "mem 0 = Some m0" "mem (Suc 0) = Some m1" using mem by blast
  have ms: "pss_MSBits n = (?B - 1) mod 8" by (rule pss_MSBits_eq [OF bits])
  have z: "\<not> BN_is_zero n" using bits(1) by (auto simp: BN_num_bits_def)
  have f: "(if (?B - 1) mod 8 = 0 then ([0 :: u8], a + 1, BN_num_bytes n - 1) else ([], a, BN_num_bytes n))
      = (if (?B - 1) mod 8 = 0 then [0] else [], if (?B - 1) mod 8 = 0 then a + 1 else a, ?E)"
    using pss_sizes [OF bits(1)] by (simp add: BN_num_bytes_def)
  have big: "\<not> (if (if sLen = - 1 then int ?h else sLen) = - 2 then ?E < ?h + 2
      else ?E < ?h + nat (if sLen = - 1 then int ?h else sLen) + 2)"
    using fits s(2) by (auto simp: pss_salt_len_def pss_sLen_def)
  have sl: "(if (if sLen = - 1 then int ?h else sLen) = - 2 then ?E - ?h - 2 else nat (if sLen = - 1 then int ?h else sLen)) = sl"
    using s(2) by (auto simp: pss_salt_len_def pss_sLen_def)
  have r: "(if 0 < sl then RAND_pseudo_bytes sl rng else Some ([], rng)) = Some (?salt, drop sl rng)"
    using rng by (simp add: RAND_pseudo_bytes_def)
  have len: "length ?db = ?E - sl - ?h - 2 + 1 + length ?salt" "length ?salt = sl" using fits rng by simp_all
  have mask: "pss_mask_first ((?B - 1) mod 8) (xor_bytes (pss_DB ?E ?h ?salt) ?db)
      = pss_clear ?k (xor_bytes (pss_DB ?E ?h ?salt) ?db)"
  proof (rule pss_mask_first_clear [OF bits(1)])
    have "0 < length (xor_bytes (pss_DB ?E ?h ?salt) ?db)" using fits by (simp add: pss_DB_def)
    then show "xor_bytes (pss_DB ?E ?h ?salt) ?db \<noteq> []" by (simp only: length_greater_0_conv not_False_eq_True)
  qed
  have "?E - length ?salt - ?h - 2 = ?E - Suc (Suc (sl + ?h))" using len(2) by simp
  then have D: "pss_DB ?E ?h ?salt = replicate (?E - Suc (Suc (sl + ?h))) 0 @ 1 # ?salt" by (simp only: pss_DB_def) simp
  have block: "pss_block d (pss_mgf d mgf) ?B mHash ?salt = (if (?B - 1) mod 8 = 0 then [0] else []) @
      pss_mask_first ((?B - 1) mod 8) (xor_bytes (pss_DB ?E ?h ?salt) ?db) @ ?H @ [0xbc]"
    by (simp only: pss_block_def pss_encode_def Let_def mask append_assoc)
  note put = pss_put_salt [OF len(1)]
  show ?thesis
    unfolding RSA_padding_add_PKCS1_PSS_mgf1_def Let_def split_conv ms f if_not_P [OF big] sl r option.case prod.case
    using z s(1) mem01 mHash
    by (simp add: pss_hash_eq PKCS1_MGF1_eq pss_mgf_def [symmetric] put [simplified] block D)
qed

lemma length_pss_block:
  assumes "0 < bits" "md_size d + length salt + 2 \<le> pss_emLen bits"
  shows "length (pss_block d mg bits mHash salt) = (bits + 7) div 8"
  using assms pss_sizes [of bits] by (auto simp: pss_block_def pss_encode_def Let_def pss_DB_def pss_H_def)

text \<open>
  C15: With memory for the digests and enough random bytes, a hash is made into the encoded message of
  RFC 8017 with the next random bytes as salt exactly when the modulus is large enough for it, the
  result is as long as the modulus, and the checker accepts it under the same salt length.
\<close>
theorem pss_sign_verify:
  assumes "0 < BN_num_bits n" "BN_num_bits n < 2 ^ 31" "length mHash = md_size d" "\<forall>i. mem i \<noteq> None" "- 2 \<le> sLen"
    "sl = pss_salt_len d sLen (pss_emLen (BN_num_bits n))" "sl \<le> length rng"
  shows "if md_size d + sl + 2 \<le> pss_emLen (BN_num_bits n) then
      \<exists>em rng'. RSA_padding_add_PKCS1_PSS_mgf1 mem True rng n a (b, mHash) d mgf sLen = Some (Inr (em, rng')) \<and>
        em = pss_block d (pss_mgf d mgf) (BN_num_bits n) mHash (take sl rng) \<and> length em = BN_num_bytes n \<and>
        RSA_verify_PKCS1_PSS_mgf1 mem True n (b, mHash) d mgf (a, em) sLen = Some (Inr ())
    else RSA_padding_add_PKCS1_PSS_mgf1 mem True rng n a (b, mHash) d mgf sLen = Some (Inl DATA_TOO_LARGE_FOR_KEY_SIZE)"
proof (cases "md_size d + sl + 2 \<le> pss_emLen (BN_num_bits n)")
  case True
  let ?em = "pss_block d (pss_mgf d mgf) (BN_num_bits n) mHash (take sl rng)"
  have salt: "length (take sl rng) = sl" using assms(7) by simp
  have fits: "md_size d + length (take sl rng) + 2 \<le> pss_emLen (BN_num_bits n)" using True salt by simp
  have len: "length ?em = BN_num_bytes n" unfolding BN_num_bytes_def by (rule length_pss_block [OF assms(1) fits])
  have "salt_fits d sLen (take sl rng)" by (rule salt_fits_len [OF assms(5)]) (use salt assms(6) in simp)
  then have "RSA_verify_PKCS1_PSS_mgf1 mem True n (b, mHash) d mgf (a, ?em) sLen = Some (Inr ())"
    using pss_verify_iff [OF assms(1,2) len assms(3,4), of b mgf a sLen] True fits by auto
  then show ?thesis using pss_add_encodes [OF assms(1-6) True assms(7)] True len by simp
next
  case False
  have f: "(if (BN_num_bits n - 1) mod 8 = 0 then ([0 :: u8], a + 1, BN_num_bytes n - 1) else ([], a, BN_num_bytes n))
      = (if (BN_num_bits n - 1) mod 8 = 0 then [0] else [], if (BN_num_bits n - 1) mod 8 = 0 then a + 1 else a, pss_emLen (BN_num_bits n))"
    using pss_sizes [OF assms(1)] by (simp add: BN_num_bytes_def)
  have "\<not> BN_is_zero n" using assms(1) by (auto simp: BN_num_bits_def)
  then show ?thesis
    unfolding RSA_padding_add_PKCS1_PSS_mgf1_def Let_def pss_MSBits_eq [OF assms(1,2)] f split_conv
    using False assms(5) by (auto simp: assms(6) pss_salt_len_def pss_sLen_def split: if_splits)
qed

text \<open>SHA-1 with a salt of twenty bytes, under a modulus of 511 bits.\<close>

definition pss_modulus :: bignum where
  "pss_modulus = \<lparr>bn_d = replicate 7 0 @ [0x4000000000000000], bn_top = 8, bn_neg = False, bn_flags = 0\<rparr>"

lemma pss_modulus_bits: "BN_num_bits pss_modulus = 511"
  by code_simp

lemma pss_sign_verify_witness:
  "\<exists>em rng'. RSA_padding_add_PKCS1_PSS_mgf1 (\<lambda>_. Some []) True (replicate 30 5) pss_modulus 0 (0, replicate 20 7) EVP_sha1 None (- 1)
      = Some (Inr (em, rng')) \<and> length em = 64 \<and>
     RSA_verify_PKCS1_PSS_mgf1 (\<lambda>_. Some []) True pss_modulus (0, replicate 20 7) EVP_sha1 None (0, em) (- 1) = Some (Inr ())"
proof -
  have p: "0 < BN_num_bits pss_modulus" "BN_num_bits pss_modulus < 2 ^ 31" "length (replicate 20 (7 :: u8)) = md_size EVP_sha1"
    "\<forall>i. (\<lambda>_ :: nat. Some []) i \<noteq> None" "20 = pss_salt_len EVP_sha1 (- 1) (pss_emLen (BN_num_bits pss_modulus))"
    "20 \<le> length (replicate 30 (5 :: u8))" "- 2 \<le> (- 1 :: int)" "md_size EVP_sha1 + 20 + 2 \<le> pss_emLen (BN_num_bits pss_modulus)"
    and b: "BN_num_bytes pss_modulus = 64"
    unfolding BN_num_bytes_def pss_modulus_bits by (simp_all add: pss_salt_len_def pss_sLen_def pss_emLen_def)
  show ?thesis
    using pss_sign_verify [OF p(1-4) p(7, 5, 6), of 0 0 None] unfolding if_P [OF p(8)] b by blast
qed


text \<open>
  With a modulus that leaves no room for a data block and the salt length recovered from it, the checker
  reads and writes outside its buffer of no bytes.
\<close>

lemma pss_verify_no_data_block:
  assumes bits: "0 < BN_num_bits n" "BN_num_bits n < 2 ^ 31" and em: "length em = BN_num_bytes n"
    "em ! 0 AND push_bit ((BN_num_bits n - 1) mod 8) 0xff = 0" "last em = 0xbc"
    and E: "pss_emLen (BN_num_bits n) = md_size d + 1" and mem: "mem 0 = Some m"
  shows "RSA_verify_PKCS1_PSS_mgf1 mem True n mHash d mgf (a, em) (- 2) = None"
proof -
  let ?B = "BN_num_bits n"
  have s: "(if (?B - 1) mod 8 = 0 then (a + 1, drop 1 em, int (BN_num_bytes n) - 1) else (a, em, int (BN_num_bytes n)))
      = (if (?B - 1) mod 8 = 0 then a + 1 else a, pss_em ?B em, int (pss_emLen ?B))"
    using pss_sizes [OF bits(1)] by (auto simp: pss_em_def BN_num_bytes_def)
  have "em \<noteq> []" using em(1) bits(1) by (auto simp: BN_num_bytes_def)
  moreover have "pss_em ?B em ! md_size d = 0xbc"
  proof -
    have l: "length (pss_em ?B em) = md_size d + 1"
      using pss_sizes [OF bits(1)] em(1) E by (simp add: pss_em_def BN_num_bytes_def)
    then have "last (pss_em ?B em) = last em" by (cases "(?B - 1) mod 8 = 0") (auto simp: pss_em_def)
    moreover have "pss_em ?B em \<noteq> []" using l by auto
    ultimately show ?thesis using l em(3) by (simp add: last_conv_nth)
  qed
  moreover have "int (md_size d) \<le> INT_MAX" by (cases d) simp_all
  ultimately show ?thesis
    unfolding RSA_verify_PKCS1_PSS_mgf1_def Let_def pss_MSBits_eq [OF bits] split_conv s
    using em(2) E mem by (simp add: PKCS1_MGF1_eq)
qed

end
