(* ===== verification/Spec2Isabelle.thy ===== *)
theory Spec2Isabelle
  imports Cbb Buf Stack PQueue Lhash BioPair BioMem Base64 Cipher Hmac BnComba BnConvert TlsMac DtlsEpoch RsaPss
begin

text \<open>
  A verification library for BoringSSL.
\<close>

end
